(* ===== verification/FI_Prelude.thy ===== *)
theory FI_Prelude
  imports Main "HOL-Library.Word" "HOL-Library.Char_ord" "HOL-Library.List_Lexorder"
begin

unbundle bit_operations_syntax

text \<open>
  Shared vocabulary of the development: machine types, the result type of fallible C++ code,
  pointers into a list of allocated objects, and lemmas on lists, words and results used by
  several components. The model is of a build with assertions enabled (the debug and opt
  builds of the simulator) on a little-endian host with 64 bit \<open>long\<close> and 32 bit \<open>int\<close>.
\<close>

section \<open>Machine types\<close>

type_synonym u8 = "8 word"
type_synonym u16 = "16 word"
type_synonym u32 = "32 word"
type_synonym u64 = "64 word"
type_synonym Addr = "64 word"

text \<open>A pointer is \<open>None\<close> (NULL) or the index of an object in its heap list.\<close>

type_synonym ptr = "nat option"

text \<open>The conversion of an integer to a C \<open>int\<close>, which keeps the low 32 bits.\<close>

definition int32 :: "int \<Rightarrow> int" where
  "int32 x = signed_take_bit 31 x"

lemma int32_id [simp]: "-(2 ^ 31) \<le> x \<Longrightarrow> x < 2 ^ 31 \<Longrightarrow> int32 x = x"
  unfolding int32_def by (rule signed_take_bit_int_eq_self) auto

section \<open>Results of fallible code\<close>

text \<open>
  What can end a run of the modelled code abnormally: a failed \<open>assert\<close>, the exception
  \<open>std::out_of_range\<close>, an index outside a vector or array, a dereferenced NULL or dangling
  pointer, the use of a variable that was never written, a call of \<open>panic\<close> or \<open>fatal\<close>,
  a division by zero or a shift by more than the width, and a loop that never ends.
\<close>

datatype fi_error =
    AssertFail
  | Out_of_range
  | Bad_index
  | Null_deref
  | Bad_pointer
  | Uninitialised
  | Panic
  | Undefined_arith
  | Diverges

type_synonym 'a res = "fi_error + 'a"

definition bindE :: "'a res \<Rightarrow> ('a \<Rightarrow> 'b res) \<Rightarrow> 'b res" where
  "bindE m f = (case m of Inl e \<Rightarrow> Inl e | Inr x \<Rightarrow> f x)"

definition assertE :: "bool \<Rightarrow> unit res" where
  "assertE b = (if b then Inr () else Inl AssertFail)"

lemma bindE_Inl [simp]: "bindE (Inl e) f = Inl e"
  by (simp add: bindE_def)

lemma bindE_Inr [simp]: "bindE (Inr x) f = f x"
  by (simp add: bindE_def)

lemma bindE_assoc: "bindE (bindE m f) g = bindE m (\<lambda>x. bindE (f x) g)"
  by (cases m) auto

lemma bindE_eq_Inr: "bindE m f = Inr y \<longleftrightarrow> (\<exists>x. m = Inr x \<and> f x = Inr y)"
  by (cases m) auto

lemma bindE_eq_Inl: "bindE m f = Inl e \<longleftrightarrow> m = Inl e \<or> (\<exists>x. m = Inr x \<and> f x = Inl e)"
  by (cases m) auto

lemma assertE_simps [simp]: "assertE True = Inr ()" "assertE False = Inl AssertFail"
  by (simp_all add: assertE_def)

lemma assertE_eq_Inr [simp]: "assertE b = Inr u \<longleftrightarrow> b"
  by (simp add: assertE_def)

text \<open>A sequence of fallible steps, one per list element, from left to right.\<close>

fun foldE :: "('a \<Rightarrow> 's \<Rightarrow> 's res) \<Rightarrow> 'a list \<Rightarrow> 's \<Rightarrow> 's res" where
  "foldE f [] s = Inr s"
| "foldE f (x # xs) s = bindE (f x s) (foldE f xs)"

lemma foldE_append: "foldE f (xs @ ys) s = bindE (foldE f xs s) (foldE f ys)"
  by (induction xs arbitrary: s) (auto simp: bindE_def split: sum.splits)

text \<open>Reading and writing a vector by index, and following a pointer into a heap list.\<close>

definition at :: "'a list \<Rightarrow> nat \<Rightarrow> 'a res" where
  "at xs i = (if i < length xs then Inr (xs ! i) else Inl Bad_index)"

definition deref :: "'a list \<Rightarrow> ptr \<Rightarrow> 'a res" where
  "deref h p = (case p of None \<Rightarrow> Inl Null_deref
                | Some a \<Rightarrow> if a < length h then Inr (h ! a) else Inl Bad_pointer)"

definition upd :: "'a list \<Rightarrow> ptr \<Rightarrow> ('a \<Rightarrow> 'a) \<Rightarrow> 'a list res" where
  "upd h p f = (case p of None \<Rightarrow> Inl Null_deref
                | Some a \<Rightarrow> if a < length h then Inr (h[a := f (h ! a)]) else Inl Bad_pointer)"

lemma at_in [simp]: "i < length xs \<Longrightarrow> at xs i = Inr (xs ! i)"
  by (simp add: at_def)

lemma at_out [simp]: "length xs \<le> i \<Longrightarrow> at xs i = Inl Bad_index"
  by (simp add: at_def)

lemma deref_None [simp]: "deref h None = Inl Null_deref"
  by (simp add: deref_def)

lemma deref_Some [simp]: "a < length h \<Longrightarrow> deref h (Some a) = Inr (h ! a)"
  by (simp add: deref_def)

lemma deref_Some_out [simp]: "length h \<le> a \<Longrightarrow> deref h (Some a) = Inl Bad_pointer"
  by (simp add: deref_def)

lemma upd_None [simp]: "upd h None f = Inl Null_deref"
  by (simp add: upd_def)

lemma upd_Some [simp]: "a < length h \<Longrightarrow> upd h (Some a) f = Inr (h[a := f (h ! a)])"
  by (simp add: upd_def)

section \<open>Words\<close>

lemma unat_drop_bit_div: "unat (drop_bit k w) = unat w div 2 ^ k"
  unfolding unat_drop_bit_eq by (rule drop_bit_eq_div)

lemma unat_take_bit_mod: "unat (take_bit k w) = unat w mod 2 ^ k"
  unfolding unsigned_take_bit_eq by (rule take_bit_eq_mod)

lemma unat_ucast_up:
  fixes x :: "'a::len word"
  assumes "LENGTH('a) \<le> LENGTH('b::len)"
  shows "unat (ucast x :: 'b word) = unat x"
proof -
  have "unat x < 2 ^ LENGTH('a)" by (rule unsigned_less)
  also have "\<dots> \<le> 2 ^ LENGTH('b)" using assms by simp
  finally show ?thesis
    by (simp add: unsigned_ucast_eq take_bit_nat_eq_self)
qed

lemma ucast_up_eq_0:
  fixes x :: "'a::len word"
  assumes "LENGTH('a) \<le> LENGTH('b::len)"
  shows "(ucast x :: 'b word) = 0 \<longleftrightarrow> x = 0"
  using unat_ucast_up [OF assms, of x] by (metis unat_eq_zero unsigned_0)

lemma bit_unat [simp]: "bit (unat w) n \<longleftrightarrow> bit w n"
  by (simp add: bit_unsigned_iff)

lemma unat_exp:
  assumes "k < LENGTH('a)"
  shows "unat (2 ^ k :: 'a::len word) = 2 ^ k"
proof -
  have "unat (of_nat (2 ^ k) :: 'a word) = 2 ^ k mod 2 ^ LENGTH('a)"
    by (rule unat_of_nat)
  then show ?thesis using assms by simp
qed

lemma unat_mask:
  assumes "k < LENGTH('a)"
  shows "unat (mask k :: 'a::len word) = 2 ^ k - 1"
proof -
  have "(2 ^ k :: 'a word) \<noteq> 0" using assms by (simp add: exp_eq_zero_iff)
  then show ?thesis
    using unat_exp [OF assms] by (simp add: mask_eq_exp_minus_1 unat_minus_one)
qed

section \<open>Lists as chains of pointers\<close>

text \<open>The pointer to the first (last) element of a list of addresses, or a default.\<close>

definition first_ptr :: "nat list \<Rightarrow> ptr \<Rightarrow> ptr" where
  "first_ptr xs d = (case xs of [] \<Rightarrow> d | x # _ \<Rightarrow> Some x)"

definition last_ptr :: "nat list \<Rightarrow> ptr \<Rightarrow> ptr" where
  "last_ptr xs d = (if xs = [] then d else Some (last xs))"

lemma first_ptr_simps [simp]:
  "first_ptr [] d = d" "first_ptr (x # xs) d = Some x"
  "first_ptr (xs @ ys) d = first_ptr xs (first_ptr ys d)"
  by (auto simp: first_ptr_def split: list.splits)

lemma last_ptr_simps [simp]:
  "last_ptr [] d = d" "last_ptr (x # xs) d = last_ptr xs (Some x)"
  "last_ptr (xs @ ys) d = last_ptr ys (last_ptr xs d)"
  by (auto simp: last_ptr_def)

lemma first_ptr_eq_None [simp]: "first_ptr xs d = None \<longleftrightarrow> xs = [] \<and> d = None"
  by (cases xs) auto

lemma last_ptr_eq_None [simp]: "last_ptr xs d = None \<longleftrightarrow> xs = [] \<and> d = None"
  by (simp add: last_ptr_def)

end
