(* ===== verification/Bitfield.thy ===== *)
theory Bitfield
  imports FI_Prelude
begin

text \<open>
  The bit-field helpers of \<open>src/src/base/bitfield.hh\<close>. The template argument \<open>T\<close> is an
  unsigned integer type of at most 64 bits, here a word type; bit positions are natural numbers.
\<close>

section \<open>Definitions\<close>

definition mask_u64 :: "nat \<Rightarrow> u64" where
  "mask_u64 nbits = (if nbits = 64 then - 1 else push_bit nbits 1 - 1)"

definition bits :: "'a::len word \<Rightarrow> nat \<Rightarrow> nat \<Rightarrow> 'a word" where
  "bits val first lst =
     (let nbits = Suc first - lst
      in ucast (ucast (drop_bit lst val) AND mask_u64 nbits))"

definition bits1 :: "'a::len word \<Rightarrow> nat \<Rightarrow> 'a word" where
  "bits1 val b = bits val b b"

definition mbits :: "'a::len word \<Rightarrow> nat \<Rightarrow> nat \<Rightarrow> 'a word" where
  "mbits val first lst =
     ucast (ucast val AND (mask_u64 (first + 1) AND NOT (mask_u64 lst)))"

definition mask_range :: "nat \<Rightarrow> nat \<Rightarrow> u64" where
  "mask_range first lst = mbits (- 1) first lst"

definition sext :: "nat \<Rightarrow> u64 \<Rightarrow> u64" where
  "sext N val =
     (let sign_bit = bits val (N - 1) (N - 1)
      in if sign_bit \<noteq> 0 then val OR NOT (mask_u64 N) else val)"

definition insertBits :: "'a::len word \<Rightarrow> nat \<Rightarrow> nat \<Rightarrow> u64 \<Rightarrow> 'a word" where
  "insertBits val first lst bit_val =
     (let t_bit_val = ucast bit_val :: 'a word;
          bmask = ucast (push_bit lst (mask_u64 (Suc first - lst))) :: 'a word
      in (push_bit lst t_bit_val AND bmask) OR (val AND NOT bmask))"

definition insertBits1 :: "'a::len word \<Rightarrow> nat \<Rightarrow> u64 \<Rightarrow> 'a word" where
  "insertBits1 val b bit_val = insertBits val b b bit_val"

text \<open>The assignment through the reference parameter is the returned value.\<close>

definition replaceBits :: "'a::len word \<Rightarrow> nat \<Rightarrow> nat \<Rightarrow> u64 \<Rightarrow> 'a word" where
  "replaceBits val first lst bit_val = insertBits val first lst bit_val"

text \<open>
  One line \<open>if (bits(val, hi, lo)) { msb += k; val >>= k; }\<close> of the two searches; the
  second argument of each pair is the shifted value.
\<close>

definition msb_line :: "nat \<Rightarrow> nat \<Rightarrow> nat \<Rightarrow> nat \<times> u64 \<Rightarrow> nat \<times> u64" where
  "msb_line hi lo k = (\<lambda>(msb, val).
     if bits val hi lo \<noteq> 0 then (msb + k, drop_bit k val) else (msb, val))"

definition lsb_line :: "nat \<Rightarrow> nat \<Rightarrow> nat \<Rightarrow> nat \<times> u64 \<Rightarrow> nat \<times> u64" where
  "lsb_line hi lo k = (\<lambda>(lsb, val).
     if bits val hi lo = 0 then (lsb + k, drop_bit k val) else (lsb, val))"

definition findMsbSet :: "u64 \<Rightarrow> nat" where
  "findMsbSet val =
     (if val = 0 then 0
      else let s1 = msb_line 63 32 32 (0, val);
               s2 = msb_line 31 16 16 s1;
               s3 = msb_line 15 8 8 s2;
               s4 = msb_line 7 4 4 s3;
               s5 = msb_line 3 2 2 s4
           in if bits (snd s5) 1 1 \<noteq> 0 then fst s5 + 1 else fst s5)"

definition findLsbSet :: "u64 \<Rightarrow> nat" where
  "findLsbSet val =
     (if val = 0 then 64
      else let s1 = lsb_line 31 0 32 (0, val);
               s2 = lsb_line 15 0 16 s1;
               s3 = lsb_line 7 0 8 s2;
               s4 = lsb_line 3 0 4 s3;
               s5 = lsb_line 1 0 2 s4
           in if bits (snd s5) 0 0 = 0 then fst s5 + 1 else fst s5)"

section \<open>Masks and fields, bit by bit\<close>

lemma mask_u64_mask: "n \<le> 64 \<Longrightarrow> mask_u64 n = mask n"
  by (auto simp: mask_u64_def mask_eq_exp_minus_1)

lemma bit_mask_u64: "n \<le> 64 \<Longrightarrow> bit (mask_u64 n) k \<longleftrightarrow> k < n"
  by (auto simp: mask_u64_mask bit_mask_iff)

lemma bit_bits:
  fixes v :: "'a::len word"
  assumes "LENGTH('a) \<le> 64" "l \<le> f" "f < 64"
  shows "bit (bits v f l) k \<longleftrightarrow> k \<le> f - l \<and> bit v (l + k)"
  using assms bit_imp_le_length [of v "l + k"]
  by (auto simp: bits_def Let_def bit_simps bit_mask_u64)

lemma bit_mbits:
  fixes v :: "'a::len word"
  assumes "LENGTH('a) \<le> 64" "l \<le> f" "f < 64"
  shows "bit (mbits v f l) k \<longleftrightarrow> l \<le> k \<and> k \<le> f \<and> bit v k"
  using assms bit_imp_le_length [of v k]
  by (auto simp: mbits_def bit_simps bit_mask_u64)

lemma bit_insertBits:
  fixes v :: "'a::len word"
  assumes "LENGTH('a) \<le> 64" "l \<le> f" "f < LENGTH('a)"
  shows "bit (insertBits v f l b) k \<longleftrightarrow>
           (if l \<le> k \<and> k \<le> f then bit b (k - l) else bit v k)"
  using assms bit_imp_le_length [of v k]
  by (auto simp: insertBits_def Let_def bit_simps bit_mask_u64)

lemma bits_as_div:
  assumes "l \<le> f" "f < 64"
  shows "unat (bits (v :: u64) f l) = unat v div 2 ^ l mod 2 ^ Suc (f - l)"
proof -
  have "bits v f l = take_bit (Suc (f - l)) (drop_bit l v)"
    by (rule bit_word_eqI) (use assms in \<open>auto simp: bit_bits bit_simps\<close>)
  then show ?thesis
    by (simp only: unat_take_bit_mod unat_drop_bit_div)
qed

section \<open>The searches for the highest and lowest set bit\<close>

text \<open>
  What the halving search keeps: the current value is the original one without its low
  \<open>m\<close> bits, is not zero, and fits in \<open>h\<close> bits.
\<close>

definition msb_inv :: "u64 \<Rightarrow> nat \<Rightarrow> nat \<times> u64 \<Rightarrow> bool" where
  "msb_inv v h = (\<lambda>(m, w). unat w = unat v div 2 ^ m \<and> 0 < unat w \<and> unat w < 2 ^ h)"

lemma msb_line_inv:
  assumes "msb_inv v (2 * k) s" "0 < k" "2 * k \<le> 64"
  shows "msb_inv v k (msb_line (2 * k - 1) k k s)"
proof -
  obtain m w where s: "s = (m, w)" by (cases s)
  with assms have w: "unat w = unat v div 2 ^ m" "0 < unat w" "unat w < 2 ^ (2 * k)"
    by (auto simp: msb_inv_def)
  have "unat (bits w (2 * k - 1) k) = unat w div 2 ^ k mod 2 ^ k"
    using assms by (simp add: bits_as_div Suc_diff_Suc mult_2)
  also have "\<dots> = unat w div 2 ^ k"
    using w(3) by (intro mod_less) (simp add: less_mult_imp_div_less mult_2 power_add)
  finally have b: "bits w (2 * k - 1) k \<noteq> 0 \<longleftrightarrow> 2 ^ k \<le> unat w"
    by (simp add: unat_eq_zero [symmetric] div_eq_0_iff not_less del: unat_eq_zero)
  have "unat (drop_bit k w) = unat w div 2 ^ k"
    by (rule unat_drop_bit_div)
  then show ?thesis
    using w b by (auto simp: msb_inv_def msb_line_def s div_mult2_eq power_add div_greater_zero_iff
        less_mult_imp_div_less mult_2)
qed

lemma msb_last_line:
  assumes "msb_inv v 2 (m, w)"
  shows "2 ^ (if bits w 1 1 \<noteq> 0 then m + 1 else m) \<le> unat v \<and>
         unat v < 2 ^ Suc (if bits w 1 1 \<noteq> 0 then m + 1 else m)"
proof -
  have w: "unat w = unat v div 2 ^ m" "0 < unat w" "unat w < 4"
    using assms by (auto simp: msb_inv_def)
  have "unat (bits w 1 1) = unat w div 2 mod 2"
    by (simp add: bits_as_div)
  then have b: "bits w 1 1 \<noteq> 0 \<longleftrightarrow> 2 \<le> unat w"
    using w by (auto simp: unat_eq_zero [symmetric] simp del: unat_eq_zero)
  have v: "unat v = unat w * 2 ^ m + unat v mod 2 ^ m"
    using w(1) by (simp add: div_mult_mod_eq)
  have r: "unat v mod 2 ^ m < 2 ^ m" by simp
  show ?thesis
  proof (cases "2 \<le> unat w")
    case True
    then have "2 * 2 ^ m \<le> unat w * 2 ^ m" "unat w * 2 ^ m \<le> 3 * 2 ^ m"
      using w(3) by (intro mult_right_mono; simp)+
    then show ?thesis using v r b True by (simp, linarith)
  next
    case False
    then have "unat w = 1" using w(2) by simp
    then show ?thesis using v r b by (simp, linarith)
  qed
qed

lemma bit_low_bits_eq_0:
  assumes "h < 64"
  shows "bits (w :: u64) h 0 = 0 \<longleftrightarrow> (\<forall>k\<le>h. \<not> bit w k)"
  using assms by (auto simp: bit_eq_iff bit_bits)

definition lsb_inv :: "u64 \<Rightarrow> nat \<Rightarrow> nat \<times> u64 \<Rightarrow> bool" where
  "lsb_inv v h = (\<lambda>(m, w). (\<forall>k. bit w k \<longleftrightarrow> bit v (m + k)) \<and> (\<forall>k<m. \<not> bit v k) \<and>
     (\<exists>k<h. bit w k))"

lemma lsb_line_inv:
  assumes "lsb_inv v (2 * k) s" "0 < k" "2 * k \<le> 64"
  shows "lsb_inv v k (lsb_line (k - 1) 0 k s)"
proof -
  obtain m w where s: "s = (m, w)" by (cases s)
  with assms have w: "\<And>j. bit w j \<longleftrightarrow> bit v (m + j)" "\<And>j. j < m \<Longrightarrow> \<not> bit v j"
      "\<exists>j<2 * k. bit w j"
    by (auto simp: lsb_inv_def)
  have b: "bits w (k - 1) 0 = 0 \<longleftrightarrow> (\<forall>j<k. \<not> bit w j)"
    using assms by (simp add: bit_low_bits_eq_0 less_eq_Suc_le [symmetric]) (metis Suc_pred less_Suc_eq_le)
  show ?thesis
  proof (cases "\<forall>j<k. \<not> bit w j")
    case True
    have low: "\<not> bit v j" if "j < m + k" for j
      using w(1) [of "j - m"] w(2) [of j] True that by (cases "j < m") auto
    obtain j where j: "j < 2 * k" "bit w j" using w(3) by blast
    then have "j - k < k" "bit (drop_bit k w) (j - k)"
      using True by (auto simp: bit_drop_bit_eq not_less) (metis add_diff_cancel_left' le_add_diff_inverse not_less)+
    then show ?thesis
      using True b low w(1) by (auto simp: s lsb_line_def lsb_inv_def bit_drop_bit_eq add.assoc)
  next
    case False
    then show ?thesis using b w by (auto simp: s lsb_line_def lsb_inv_def)
  qed
qed

lemma lsb_last_line:
  assumes "lsb_inv v 2 (m, w)"
  shows "bit v (if bits w 0 0 = 0 then m + 1 else m) \<and>
         (\<forall>k<(if bits w 0 0 = 0 then m + 1 else m). \<not> bit v k)"
  using assms by (auto simp: lsb_inv_def bit_low_bits_eq_0 less_Suc_eq numeral_2_eq_2)

section \<open>Properties\<close>

lemma findMsbSet_bounds:
  assumes "v \<noteq> 0"
  shows "2 ^ findMsbSet v \<le> unat v \<and> unat v < 2 ^ Suc (findMsbSet v)"
proof -
  have "msb_inv v 64 (0, v)"
    using assms unsigned_less [of v, where ?'a = nat] by (simp add: msb_inv_def unat_gt_0)
  then have "msb_inv v 2 (msb_line 3 2 2 (msb_line 7 4 4 (msb_line 15 8 8
      (msb_line 31 16 16 (msb_line 63 32 32 (0, v))))))"
    using msb_line_inv [of v 32] msb_line_inv [of v 16] msb_line_inv [of v 8]
      msb_line_inv [of v 4] msb_line_inv [of v 2] by simp
  then show ?thesis
    using assms msb_last_line
    by (auto simp: findMsbSet_def Let_def split: prod.splits)
qed

lemma findLsbSet_lowest:
  assumes "v \<noteq> 0"
  shows "bit v (findLsbSet v) \<and> (\<forall>k<findLsbSet v. \<not> bit v k)"
proof -
  have "\<exists>k<64. bit v k"
    using assms bit_imp_le_length [of v] by (auto simp: bit_eq_iff)
  then have "lsb_inv v 64 (0, v)"
    by (simp add: lsb_inv_def)
  define s where "s = lsb_line 1 0 2 (lsb_line 3 0 4 (lsb_line 7 0 8
      (lsb_line 15 0 16 (lsb_line 31 0 32 (0, v)))))"
  have "lsb_inv v 2 s"
    using \<open>lsb_inv v 64 (0, v)\<close> lsb_line_inv [of v 32] lsb_line_inv [of v 16]
      lsb_line_inv [of v 8] lsb_line_inv [of v 4] lsb_line_inv [of v 2] by (simp add: s_def)
  moreover have "findLsbSet v = (if bits (snd s) 0 0 = 0 then fst s + 1 else fst s)"
    using assms by (simp add: findLsbSet_def Let_def s_def)
  ultimately show ?thesis
    using lsb_last_line [of v "fst s" "snd s"] by simp
qed

lemma take_bit_eq_0_low: "take_bit m (v :: u64) = 0 \<longleftrightarrow> (\<forall>k<m. \<not> bit v k)"
  using bit_imp_le_length [of v] by (auto simp: bit_eq_iff bit_take_bit_iff)

text \<open>
  The binary searches \<open>findMsbSet\<close> and \<open>findLsbSet\<close> agree with the mathematical
  highest and lowest set bit for every 64 bit value; zero gives 0 and 64.
\<close>

lemma find_set_bits_correct:
  "if v = 0 then findMsbSet v = 0 \<and> findLsbSet v = 64
   else 2 ^ findMsbSet v \<le> unat v \<and> unat v < 2 ^ Suc (findMsbSet v) \<and>
        bit v (findLsbSet v) \<and> take_bit (findLsbSet v) v = 0"
  using findMsbSet_bounds [of v] findLsbSet_lowest [of v]
  by (auto simp: findMsbSet_def findLsbSet_def take_bit_eq_0_low)

text \<open>
  Inserting a value into the field \<open>first..last\<close> and extracting the field gives the value
  cut to the field's width, every bit outside the field keeps its value, and inserting a field's
  own contents changes nothing.
\<close>

lemma insertBits_spec:
  fixes v :: "'a::len word"
  assumes "LENGTH('a) \<le> 64" "l \<le> f" "f < LENGTH('a)"
  shows "bits (insertBits v f l b) f l = ucast (take_bit (Suc f - l) b) \<and>
         (\<forall>k. k < l \<or> f < k \<longrightarrow> bit (insertBits v f l b) k = bit v k) \<and>
         insertBits v f l (ucast (bits v f l)) = v"
proof (intro conjI)
  have f: "f < 64" using assms by simp
  show "bits (insertBits v f l b) f l = ucast (take_bit (Suc f - l) b)"
    by (rule bit_word_eqI) (use assms f in \<open>auto simp: bit_bits bit_insertBits bit_simps\<close>)
  show "\<forall>k. k < l \<or> f < k \<longrightarrow> bit (insertBits v f l b) k = bit v k"
    using assms by (auto simp: bit_insertBits)
  show "insertBits v f l (ucast (bits v f l)) = v"
    by (rule bit_word_eqI) (use assms f in \<open>auto simp: bit_bits bit_insertBits bit_simps\<close>)
qed

end
