(* ===== verification/Fault_Values.thy ===== *)
theory Fault_Values
  imports Bitfield
begin

text \<open>
  How an injected fault corrupts a value: the templates \<open>XOR\<close>, \<open>AND\<close>, \<open>OR\<close>, \<open>IMMD\<close>,
  \<open>FLIP\<close>, \<open>ALL\<close> and \<open>manifest\<close> of \<open>src/src/fi/faultq.hh\<close>. The code works on the bytes of
  the value through an \<open>unsigned char\<close> pointer; the model does the same on the object
  representation of a word on a little-endian host. The template argument is a word type whose
  length is a multiple of 8 (a double is its 64 bit pattern).
\<close>

section \<open>Object representations\<close>

definition sizeof :: "'a::len word \<Rightarrow> nat" where
  "sizeof (x :: 'a word) = LENGTH('a) div 8"

definition to_bytes :: "'a::len word \<Rightarrow> u8 list" where
  "to_bytes x = map (\<lambda>i. ucast (drop_bit (8 * i) x)) [0..<sizeof x]"

fun of_bytes :: "u8 list \<Rightarrow> 'a::len word" where
  "of_bytes [] = 0"
| "of_bytes (b # bs) = ucast b OR push_bit 8 (of_bytes bs)"

section \<open>Corruption of a value\<close>

definition singlebit_mask :: "u8 list" where
  "singlebit_mask = [0x01, 0x02, 0x04, 0x08, 0x10, 0x20, 0x40, 0x80]"

definition all_mask :: "u8 list" where
  "all_mask = [0x00, 0xFF]"

text \<open>
  The loop \<open>while(i>=0) { inP[i] = f(inP[i], outP[j]); j--; i--; }\<close> that four of the
  templates share; the first argument is \<open>i + 1\<close>.
\<close>

fun byte_loop :: "(u8 \<Rightarrow> u8 \<Rightarrow> u8) \<Rightarrow> nat \<Rightarrow> nat \<Rightarrow> u8 list \<Rightarrow> u8 list \<Rightarrow> u8 list" where
  "byte_loop f 0 j inP outP = inP"
| "byte_loop f (Suc i) j inP outP =
     byte_loop f i (j - 1) (inP[i := f (inP ! i) (outP ! j)]) outP"

definition byte_op :: "(u8 \<Rightarrow> u8 \<Rightarrow> u8) \<Rightarrow> 'a::len word \<Rightarrow> u64 \<Rightarrow> 'a word" where
  "byte_op f inval out =
     (let i = sizeof inval - 1; j = sizeof out - 1
      in of_bytes (byte_loop f (i + 1) j (to_bytes inval) (to_bytes out)))"

definition XOR_fi :: "'a::len word \<Rightarrow> u64 \<Rightarrow> 'a word" where
  "XOR_fi inval out = byte_op (\<lambda>a b. a XOR b) inval out"

definition AND_fi :: "'a::len word \<Rightarrow> u64 \<Rightarrow> 'a word" where
  "AND_fi inval out = byte_op (\<lambda>a b. a AND b) inval out"

definition OR_fi :: "'a::len word \<Rightarrow> u64 \<Rightarrow> 'a word" where
  "OR_fi inval out = byte_op (\<lambda>a b. a OR b) inval out"

definition IMMD_fi :: "'a::len word \<Rightarrow> u64 \<Rightarrow> 'a word" where
  "IMMD_fi inval out = byte_op (\<lambda>a b. b) inval out"

definition FLIP_fi :: "'a::len word \<Rightarrow> u64 \<Rightarrow> 'a word res" where
  "FLIP_fi inval out =
     (let i = int (sizeof inval) - 1 in
      if out = 0 then Inr inval
      else let j_quotient = int32 (uint ((out - 1) div 8));
               j_remainder = int32 (uint ((out - 1) mod 8))
           in if j_quotient > i then Inr inval
              else if j_quotient < 0 then Inl Bad_index
              else let inP = to_bytes inval; q = nat j_quotient
                   in Inr (of_bytes (inP[q := inP ! q XOR singlebit_mask ! nat j_remainder])))"

fun all_loop :: "nat \<Rightarrow> u8 \<Rightarrow> u8 list \<Rightarrow> u8 list" where
  "all_loop 0 m inP = inP"
| "all_loop (Suc i) m inP = all_loop i m (inP[i := m])"

definition ALL_fi :: "'a::len word \<Rightarrow> u64 \<Rightarrow> 'a word res" where
  "ALL_fi inval out =
     bindE (assertE (out = 0 \<or> out = 1)) (\<lambda>_.
       Inr (of_bytes (all_loop (sizeof inval) (all_mask ! unat out) (to_bytes inval))))"

text \<open>The constants of \<open>InjectedFaultValueType\<close> and the dispatch on them.\<close>

type_synonym InjectedFaultValueType = u16

definition ImmediateValue :: InjectedFaultValueType where "ImmediateValue = 1"
definition MaskValue :: InjectedFaultValueType where "MaskValue = 2"
definition FlipBit :: InjectedFaultValueType where "FlipBit = 3"
definition AllValue :: InjectedFaultValueType where "AllValue = 4"

definition manifest :: "'a::len word \<Rightarrow> u64 \<Rightarrow> InjectedFaultValueType \<Rightarrow> 'a word res" where
  "manifest inval out type =
     (if type = ImmediateValue then Inr (IMMD_fi inval out)
      else if type = MaskValue then Inr (XOR_fi inval out)
      else if type = FlipBit then FLIP_fi inval out
      else if type = AllValue then ALL_fi inval out
      else Inl AssertFail)"

lemmas value_types = ImmediateValue_def MaskValue_def FlipBit_def AllValue_def

section \<open>Bits of object representations\<close>

lemma length_to_bytes [simp]: "length (to_bytes x) = sizeof x"
  by (simp add: to_bytes_def)

lemma sizeof_u64 [simp]: "sizeof (x :: u64) = 8"
  by (simp add: sizeof_def)

lemma nth_to_bytes: "i < sizeof x \<Longrightarrow> to_bytes x ! i = ucast (drop_bit (8 * i) x)"
  by (simp add: to_bytes_def)

lemma bit_of_bytes:
  "bit (of_bytes bs :: 'a::len word) k \<longleftrightarrow>
     k < LENGTH('a) \<and> k < 8 * length bs \<and> bit (bs ! (k div 8)) (k mod 8)"
proof (induction bs arbitrary: k)
  case Nil
  then show ?case by simp
next
  case (Cons b bs)
  show ?case
  proof (cases "k < 8")
    case True
    then show ?thesis by (auto simp: bit_simps Cons.IH)
  next
    case False
    then have "k div 8 = Suc ((k - 8) div 8)" "k mod 8 = (k - 8) mod 8"
      by (simp_all add: le_div_geq le_mod_geq)
    moreover have "\<not> bit b k" using False bit_imp_le_length [of b k] by auto
    ultimately show ?thesis
      using False by (auto simp: bit_simps Cons.IH)
  qed
qed

lemma bit_nth_to_bytes:
  assumes "i < sizeof x" "b < 8"
  shows "bit (to_bytes x ! i) b \<longleftrightarrow> bit x (8 * i + b)"
  using assms by (simp add: nth_to_bytes bit_simps)

lemma of_to_bytes:
  fixes x :: "'a::len word"
  assumes "8 dvd LENGTH('a)"
  shows "of_bytes (to_bytes x) = x"
proof (rule bit_word_eqI)
  fix k assume "k < LENGTH('a)"
  then show "bit (of_bytes (to_bytes x) :: 'a word) k = bit x k"
    using assms by (auto simp: bit_of_bytes bit_nth_to_bytes sizeof_def)
qed

lemma length_byte_loop [simp]: "length (byte_loop f n j inP outP) = length inP"
  by (induction n arbitrary: j inP) auto

lemma nth_byte_loop:
  assumes "n \<le> length inP" "n \<le> Suc j" "k < length inP"
  shows "byte_loop f n j inP outP ! k =
           (if k < n then f (inP ! k) (outP ! (Suc j - n + k)) else inP ! k)"
  using assms
proof (induction n arbitrary: j inP)
  case 0
  then show ?case by simp
next
  case (Suc i)
  show ?case
  proof (cases i)
    case 0
    then show ?thesis using Suc.prems by auto
  next
    case (Suc m)
    then obtain j' where j: "j = Suc j'" using Suc.prems by (cases j) auto
    have "byte_loop f (Suc i) j inP outP ! k =
        (if k < i then f (inP ! k) (outP ! (Suc (j - 1) - i + k))
         else inP[i := f (inP ! i) (outP ! j)] ! k)"
      using Suc.IH [of "inP[i := f (inP ! i) (outP ! j)]" "j - 1"] Suc.prems j by auto
    then show ?thesis
      using Suc.prems j by (auto simp: nth_list_update less_Suc_eq)
  qed
qed

lemma length_all_loop [simp]: "length (all_loop n m inP) = length inP"
  by (induction n arbitrary: inP) auto

lemma nth_all_loop:
  "n \<le> length inP \<Longrightarrow> k < length inP \<Longrightarrow> all_loop n m inP ! k = (if k < n then m else inP ! k)"
  by (induction n arbitrary: inP) (auto simp: nth_list_update)

text \<open>
  A byte operation that acts bit by bit combines the value with the \<^emph>\<open>most\<close> significant
  bits of the 64 bit operand: both index variables start at the last byte.
\<close>

lemma bit_byte_op:
  fixes x :: "'a::len word"
  assumes len: "8 dvd LENGTH('a)" "LENGTH('a) \<le> 64" and k: "k < LENGTH('a)"
    and f: "\<And>a b m. m < 8 \<Longrightarrow> bit (f a b) m = g (bit a m) (bit b m)"
  shows "bit (byte_op f x out) k = g (bit x k) (bit out (64 - LENGTH('a) + k))"
proof -
  define n where "n = LENGTH('a) div 8"
  have n: "LENGTH('a) = 8 * n" "n \<le> 8" "0 < n" "sizeof x = n"
    using len k by (auto simp: n_def sizeof_def)
  have kd: "k div 8 < n" using k n by (simp add: less_mult_imp_div_less mult.commute)
  have "8 * (8 - n + k div 8) + k mod 8 = 64 - 8 * n + k"
    using n(2) by (simp add: algebra_simps)
  moreover have "8 - n + k div 8 < sizeof out" using kd n by simp
  ultimately have "bit (to_bytes out ! (8 - n + k div 8)) (k mod 8) = bit out (64 - 8 * n + k)"
    by (simp add: bit_nth_to_bytes add.commute)
  moreover have "bit (to_bytes x ! (k div 8)) (k mod 8) = bit x k"
    using kd n by (simp add: bit_nth_to_bytes)
  moreover have "byte_op f x out = of_bytes (byte_loop f n 7 (to_bytes x) (to_bytes out))"
    using n by (simp add: byte_op_def del: byte_loop.simps)
  ultimately show ?thesis
    using n kd k f by (simp add: bit_of_bytes nth_byte_loop)
qed

text \<open>The most significant part of the operand that has the width of the value.\<close>

definition high_part :: "u64 \<Rightarrow> 'a::len word" where
  "high_part out = ucast (drop_bit (64 - LENGTH('a)) out)"

lemma bit_high_part:
  assumes "LENGTH('a) \<le> 64" "k < LENGTH('a)"
  shows "bit (high_part out :: 'a::len word) k = bit out (64 - LENGTH('a) + k)"
  using assms by (simp add: high_part_def bit_simps)

lemma byte_ops_words:
  fixes x :: "'a::len word"
  assumes "8 dvd LENGTH('a)" "LENGTH('a) \<le> 64"
  shows "XOR_fi x out = x XOR high_part out" "AND_fi x out = x AND high_part out"
    "OR_fi x out = x OR high_part out" "IMMD_fi x out = high_part out"
  using assms
  by (auto intro!: bit_word_eqI simp: XOR_fi_def AND_fi_def OR_fi_def IMMD_fi_def
      bit_byte_op [where g = "(\<noteq>)"] bit_byte_op [where g = "(\<and>)"] bit_byte_op [where g = "(\<or>)"]
      bit_byte_op [where g = "\<lambda>a b. b"] bit_high_part bit_and_iff bit_or_iff bit_xor_iff)

lemma ALL_fi_words:
  fixes x :: "'a::len word"
  assumes "8 dvd LENGTH('a)"
  shows "ALL_fi x out =
    (if out = 0 then Inr 0 else if out = 1 then Inr (- 1) else Inl AssertFail)"
proof -
  have b: "bit (of_bytes (all_loop (sizeof x) m (to_bytes x)) :: 'a word) k = bit m (k mod 8)"
    if "k < LENGTH('a)" for m k
  proof -
    have "k < 8 * sizeof x" using assms that by (simp add: sizeof_def)
    then have "k div 8 < sizeof x" by (simp add: less_mult_imp_div_less mult.commute)
    then show ?thesis
      using that \<open>k < 8 * sizeof x\<close> by (simp add: bit_of_bytes nth_all_loop)
  qed
  have "of_bytes (all_loop (sizeof x) 0 (to_bytes x)) = (0 :: 'a word)"
    by (rule bit_word_eqI) (simp add: b)
  moreover have "of_bytes (all_loop (sizeof x) 255 (to_bytes x)) = (- 1 :: 'a word)"
  proof (rule bit_word_eqI)
    fix k assume "k < LENGTH('a)"
    moreover have "(255 :: u8) = - 1" by simp
    then have "bit (255 :: u8) (k mod 8)" by (simp only: bit_minus_1_iff) simp
    ultimately show "bit (of_bytes (all_loop (sizeof x) 255 (to_bytes x)) :: 'a word) k
      = bit (- 1 :: 'a word) k" using b by simp
  qed
  ultimately show ?thesis
    by (simp add: ALL_fi_def all_mask_def)
qed

lemma singlebit_mask_nth: "r < 8 \<Longrightarrow> singlebit_mask ! r = push_bit r 1"
proof -
  assume "r < 8"
  then consider "r = 0" | "r = 1" | "r = 2" | "r = 3" | "r = 4" | "r = 5" | "r = 6" | "r = 7"
    by linarith
  then show ?thesis by cases (simp_all add: singlebit_mask_def push_bit_eq_mult)
qed

lemma flip_byte:
  fixes x :: "'a::len word"
  assumes len: "8 dvd LENGTH('a)" and n: "n < LENGTH('a)"
  shows "of_bytes ((to_bytes x)[n div 8 := to_bytes x ! (n div 8) XOR singlebit_mask ! (n mod 8)])
           = flip_bit n x"
proof (rule bit_word_eqI)
  fix k assume k: "k < LENGTH('a)"
  have d: "k div 8 < sizeof x" "n div 8 < sizeof x"
    using len k n by (auto simp: sizeof_def less_mult_imp_div_less mult.commute)
  have "k < 8 * sizeof x" using len k by (simp add: sizeof_def)
  moreover have "n = k \<longleftrightarrow> n div 8 = k div 8 \<and> n mod 8 = k mod 8"
    by (metis div_mult_mod_eq)
  ultimately show "bit (of_bytes ((to_bytes x)[n div 8 :=
        to_bytes x ! (n div 8) XOR singlebit_mask ! (n mod 8)]) :: 'a word) k
      = bit (flip_bit n x) k"
    using k d by (auto simp: bit_of_bytes nth_list_update singlebit_mask_nth bit_nth_to_bytes
        bit_simps flip_bit_eq_xor)
qed

text \<open>
  The index of the byte is \<open>(out - 1) / 8\<close> stored in an \<open>int\<close>: its low 32 bits, read as a signed number.
\<close>

lemma int32_of_nat:
  "int32 (int m) = (if m mod 2 ^ 32 < 2 ^ 31 then int (m mod 2 ^ 32) else int (m mod 2 ^ 32) - 2 ^ 32)"
proof -
  have m: "signed_take_bit 31 (int m) = signed_take_bit 31 (int (m mod 2 ^ 32))"
    by (simp add: signed_take_bit_eq_iff_take_bit_eq take_bit_eq_mod zmod_int)
  have b: "signed_take_bit 31 k = (if k < 2 ^ 31 then k else k - 2 ^ 32)" if "0 \<le> k" "k < 2 ^ 32" for k :: int
  proof (cases "k < 2 ^ 31")
    case True
    then show ?thesis using that by (simp add: signed_take_bit_int_eq_self)
  next
    case False
    have "take_bit 32 (k - 2 ^ 32) = take_bit 32 k" by (simp add: take_bit_eq_mod)
    then have "signed_take_bit 31 k = signed_take_bit 31 (k - 2 ^ 32)"
      by (simp add: signed_take_bit_eq_iff_take_bit_eq)
    also have "\<dots> = k - 2 ^ 32" using False that by (intro signed_take_bit_int_eq_self) auto
    finally show ?thesis using False by simp
  qed
  show ?thesis unfolding int32_def m by (subst b) auto
qed

definition flip_index :: "u64 \<Rightarrow> nat" where
  "flip_index out = (unat out - 1) mod 2 ^ 35"

lemma FLIP_fi_words:
  fixes x :: "'a::len word"
  assumes len: "8 dvd LENGTH('a)" "LENGTH('a) \<le> 64"
  shows "FLIP_fi x out =
    (if out = 0 then Inr x else if 2 ^ 34 \<le> flip_index out then Inl Bad_index
     else if LENGTH('a) \<le> flip_index out then Inr x else Inr (flip_bit (flip_index out) x))"
proof (cases "out = 0")
  case True
  then show ?thesis by (simp add: FLIP_fi_def)
next
  case False
  define n where "n = flip_index out"
  have u: "unat (out - 1) = unat out - 1" using False by (simp add: unat_minus_one)
  have d: "(unat out - 1) div 8 mod 2 ^ 32 = n div 8"
    using mod_mult2_eq [of "unat out - 1" 8 "2 ^ 32"] by (simp add: n_def flip_index_def)
  have m: "(unat out - 1) mod 8 = n mod 8" by (simp add: n_def flip_index_def mod_mod_cancel)
  have n: "n < 2 ^ 35" by (simp add: n_def flip_index_def)
  have "unat ((out - 1) div 8) = (unat out - 1) div 8" unfolding unat_div_distrib u by simp
  then have "uint ((out - 1) div 8) = int ((unat out - 1) div 8)" by (simp only: uint_nat)
  moreover have "n div 8 < 2 ^ 31 \<longleftrightarrow> n < 2 ^ 34" by (simp add: div_less_iff_less_mult)
  ultimately have q: "int32 (uint ((out - 1) div 8)) = (if n < 2 ^ 34 then int (n div 8) else int (n div 8) - 2 ^ 32)"
    by (simp only: int32_of_nat d)
  have r: "int32 (uint ((out - 1) mod 8)) = int (n mod 8)"
    using u m by (simp add: uint_mod_distrib uint_nat unat_mod_distrib zmod_int)
  have c: "int (n div 8) > int (sizeof x) - 1 \<longleftrightarrow> LENGTH('a) \<le> n"
  proof -
    obtain k where k: "LENGTH('a) = 8 * k" using len by auto
    have "n < 8 * k \<longleftrightarrow> n div 8 < k" by (simp add: div_less_iff_less_mult mult.commute)
    then show ?thesis using k by (auto simp: sizeof_def)
  qed
  have "n div 8 < 2 ^ 32" using n by (simp add: div_less_iff_less_mult)
  then have neg: "int (n div 8) - 2 ^ 32 < 0" unfolding diff_less_0_iff_less by (simp only: of_nat_less_numeral_power_cancel_iff)
  show ?thesis
  proof (cases "n < 2 ^ 34")
    case True
    then show ?thesis
      using False c q r flip_byte [OF len(1), of n x] by (auto simp: FLIP_fi_def Let_def n_def [symmetric])
  next
    case big: False
    then have "\<not> int32 (uint ((out - 1) div 8)) > int (sizeof x) - 1" using q neg by simp
    then show ?thesis using False big q neg by (simp add: FLIP_fi_def Let_def n_def [symmetric])
  qed
qed

lemma flip_index_small: "out \<noteq> 0 \<Longrightarrow> out \<le> 2 ^ 34 \<Longrightarrow> flip_index out = unat out - 1 \<and> flip_index out < 2 ^ 34"
proof -
  assume out: "out \<noteq> 0" "out \<le> 2 ^ 34"
  have "unat out \<le> 2 ^ 34" using out(2) by (simp add: word_le_nat_alt)
  moreover have "0 < unat out" using out(1) unat_gt_0 by blast
  ultimately show ?thesis by (simp add: flip_index_def)
qed

section \<open>Properties\<close>

lemma manifest_cases:
  "manifest x out ImmediateValue = Inr (IMMD_fi x out)"
  "manifest x out MaskValue = Inr (XOR_fi x out)"
  "manifest x out FlipBit = FLIP_fi x out"
  "manifest x out AllValue = ALL_fi x out"
  by (simp_all add: manifest_def value_types)

text \<open>
  (C1) The byte loops of \<open>manifest\<close> are word operations. For a value whose width is a multiple of 8 and
  at most 64: an immediate or mask fault stores or xors the most significant bits of the 64 bit
  operand; an all-fault stores all zeros for operand 0 and all ones for operand 1 and fails its assertion
  for any other; a flip fault leaves the value alone for operand 0, and for any other operand it
  inverts bit \<open>(out - 1) mod 2 ^ 35\<close>, unless that is beyond the value, which is then unchanged, or at
  least \<open>2 ^ 34\<close>, when the byte index is negative and the access is outside the value; a fault of
  any other kind fails its assertion.
\<close>

theorem manifest_word_semantics:
  fixes x :: "'a::len word"
  assumes "8 dvd LENGTH('a)" "LENGTH('a) \<le> 64"
  shows "manifest x out ImmediateValue = Inr (high_part out) \<and>
         manifest x out MaskValue = Inr (x XOR high_part out) \<and>
         manifest x 0 AllValue = Inr 0 \<and> manifest x 1 AllValue = Inr (- 1) \<and>
         (1 < out \<longrightarrow> manifest x out AllValue = Inl AssertFail) \<and>
         manifest x out FlipBit =
           (if out = 0 then Inr x else if 2 ^ 34 \<le> flip_index out then Inl Bad_index
            else if LENGTH('a) \<le> flip_index out then Inr x else Inr (flip_bit (flip_index out) x)) \<and>
         (type \<notin> {1, 2, 3, 4} \<longrightarrow> manifest x out type = Inl AssertFail)"
  using assms by (auto simp: manifest_cases byte_ops_words ALL_fi_words FLIP_fi_words) (simp_all add: manifest_def value_types)

theorem manifest_word_semantics_witness:
  "manifest (0xF0 :: u8) 0x0300000000000000 MaskValue = Inr 0xF3 \<and>
   manifest (0xF0 :: u8) 5 FlipBit = Inr 0xE0 \<and> manifest (0xF0 :: u8) (2 ^ 34 + 1) FlipBit = Inl Bad_index \<and>
   manifest (0xF0 :: u8) 5 7 = Inl AssertFail"
  using manifest_word_semantics [of "0xF0 :: u8" "0x0300000000000000"]
    manifest_word_semantics [of "0xF0 :: u8" 5 7] manifest_word_semantics [of "0xF0 :: u8" "2 ^ 34 + 1"]
  by (simp add: high_part_def flip_bit_eq_xor push_bit_eq_mult drop_bit_eq_div flip_index_def)

text \<open>
  Injecting the same mask or flip fault twice restores the value, and injecting the same
  immediate or all-fault twice is the same as once.
\<close>

lemma manifest_twice:
  fixes x :: "'a::len word"
  assumes "8 dvd LENGTH('a)" "LENGTH('a) \<le> 64" "out \<le> 2 ^ 34"
  shows "bindE (manifest x out MaskValue) (\<lambda>y. manifest y out MaskValue) = Inr x \<and>
         bindE (manifest x out FlipBit) (\<lambda>y. manifest y out FlipBit) = Inr x \<and>
         bindE (manifest x out ImmediateValue) (\<lambda>y. manifest y out ImmediateValue)
           = manifest x out ImmediateValue \<and>
         bindE (manifest x out AllValue) (\<lambda>y. manifest y out AllValue)
           = manifest x out AllValue"
proof -
  have "flip_bit n (flip_bit n x) = x" for n
    by (simp add: flip_bit_eq_xor xor.assoc)
  then show ?thesis
    using assms flip_index_small [of out]
    by (cases "out = 0") (auto simp: manifest_cases byte_ops_words ALL_fi_words FLIP_fi_words xor.assoc)
qed

text \<open>
  (C36) Consequence for values narrower than 64 bits: a mask or immediate operand that fits in
  the low \<open>64 - w\<close> bits never reaches a \<open>w\<close> bit value. A mask fault with such an operand is
  silently no fault at all, and an immediate fault always stores zero.
\<close>

theorem narrow_operand_ignored:
  fixes x :: "'a::len word"
  assumes "8 dvd LENGTH('a)" "LENGTH('a) \<le> 64" "unat out < 2 ^ (64 - LENGTH('a))"
  shows "manifest x out MaskValue = Inr x \<and> manifest x out ImmediateValue = Inr 0"
proof -
  have "drop_bit (64 - LENGTH('a)) out = 0"
    using assms(3) by (simp add: unat_drop_bit_div flip: unat_eq_zero)
  then have "(high_part out :: 'a word) = 0" by (simp add: high_part_def)
  then show ?thesis using assms by (simp add: manifest_cases byte_ops_words)
qed

theorem narrow_operand_ignored_witness:
  "manifest (0x47FF0401 :: u32) 0xFFFFFFFF MaskValue = Inr 0x47FF0401 \<and>
   manifest (0x47FF0401 :: u32) 0xFFFFFFFF ImmediateValue = Inr 0"
  using narrow_operand_ignored [of "0xFFFFFFFF" "0x47FF0401 :: u32"] by simp

text \<open>
  The index of a flip fault is computed in 64 bits and stored in an \<open>int\<close>: an operand above
  \<open>2 ^ 34\<close> makes it negative and the write goes before the object.
\<close>

lemma flip_index_overflow: "manifest (0 :: u32) (2 ^ 34 + 1) FlipBit = Inl Bad_index"
  by (simp add: manifest_cases FLIP_fi_def int32_def sizeof_def)

end
