(* ===== verification/C_Text.thy ===== *)
theory C_Text
  imports FI_Prelude
begin

text \<open>
  What the sources use of the C and C++ libraries to read text: \<open>isspace\<close>, \<open>strtoll\<close>,
  \<open>strtoul\<close>, \<open>atoi\<close> in base 10, \<open>std::string::substr\<close> and \<open>find_first_of\<close>, and the
  formatted extraction of strings and integers from an input stream with its state bits. These are
  definitions of library behaviour; no source line is mapped to them.
\<close>

section \<open>Characters and numbers\<close>

definition isspace :: "char \<Rightarrow> bool" where
  "isspace c \<longleftrightarrow> c = CHR '' '' \<or> c = CHR 0x09 \<or> c = CHR 0x0A \<or> c = CHR 0x0B \<or> c = CHR 0x0C
     \<or> c = CHR 0x0D"

definition isdigit :: "char \<Rightarrow> bool" where
  "isdigit c \<longleftrightarrow> 48 \<le> (of_char c :: nat) \<and> (of_char c :: nat) \<le> 57"

definition digit_val :: "char \<Rightarrow> int" where
  "digit_val c = int (of_char c) - 48"

fun digits_val :: "int \<Rightarrow> string \<Rightarrow> int" where
  "digits_val acc [] = acc"
| "digits_val acc (c # cs) = digits_val (10 * acc + digit_val c) cs"

text \<open>An optional sign: whether it is a minus, and the rest.\<close>

definition split_sign :: "string \<Rightarrow> bool \<times> string" where
  "split_sign s = (case s of [] \<Rightarrow> (False, [])
     | c # cs \<Rightarrow> if c = CHR ''-'' then (True, cs) else if c = CHR ''+'' then (False, cs)
                 else (False, s))"

text \<open>Sign and magnitude of the longest numeric prefix after white space.\<close>

definition num_prefix :: "string \<Rightarrow> bool \<times> int" where
  "num_prefix s =
     (let (neg, r) = split_sign (dropWhile isspace s)
      in (neg, digits_val 0 (takeWhile isdigit r)))"

definition strtoll :: "string \<Rightarrow> int" where
  "strtoll s = (let (neg, m) = num_prefix s; v = (if neg then - m else m)
     in max (- (2 ^ 63)) (min (2 ^ 63 - 1) v))"

definition strtoul :: "string \<Rightarrow> u64" where
  "strtoul s = (let (neg, m) = num_prefix s
     in if 2 ^ 64 - 1 < m then - 1 else if neg then - word_of_int m else word_of_int m)"

text \<open>\<open>atoi\<close> is \<open>strtol\<close> converted to \<open>int\<close>.\<close>

definition atoi :: "string \<Rightarrow> int" where
  "atoi s = int32 (strtoll s)"

section \<open>Strings\<close>

definition substr :: "string \<Rightarrow> nat \<Rightarrow> string res" where
  "substr s pos = (if pos \<le> length s then Inr (drop pos s) else Inl Out_of_range)"

text \<open>\<open>find_first_of(":")\<close>: the position of the first occurrence, \<open>None\<close> for \<open>npos\<close>.\<close>

fun find_char :: "char \<Rightarrow> string \<Rightarrow> nat option" where
  "find_char c [] = None"
| "find_char c (d # ds) = (if c = d then Some 0 else map_option Suc (find_char c ds))"

section \<open>Input streams\<close>

record istream =
  buf :: string
  eofbit :: bool
  failbit :: bool

definition good :: "istream \<Rightarrow> bool" where
  "good s \<longleftrightarrow> \<not> eofbit s \<and> \<not> failbit s"

definition open_stream :: "string \<Rightarrow> istream" where
  "open_stream txt = \<lparr>buf = txt, eofbit = False, failbit = False\<rparr>"

text \<open>
  The sentry of a formatted extraction: a stream that is not good fails; otherwise white space is
  skipped, and the end of the file sets both bits.
\<close>

definition sentry :: "istream \<Rightarrow> bool \<times> istream" where
  "sentry s =
     (if \<not> good s then (False, s\<lparr>failbit := True\<rparr>)
      else let b = dropWhile isspace (buf s)
           in if b = [] then (False, s\<lparr>buf := [], eofbit := True, failbit := True\<rparr>)
              else (True, s\<lparr>buf := b\<rparr>))"

text \<open>\<open>os >> str\<close>: \<open>None\<close> when the sentry fails and the string keeps its old value.\<close>

definition read_string :: "istream \<Rightarrow> string option \<times> istream" where
  "read_string s =
     (let (ok, s1) = sentry s
      in if \<not> ok then (None, s1)
         else let w = takeWhile (\<lambda>c. \<not> isspace c) (buf s1);
                  r = dropWhile (\<lambda>c. \<not> isspace c) (buf s1)
              in (Some w, s1\<lparr>buf := r, eofbit := (r = [])\<rparr>))"

text \<open>
  \<open>os >> n\<close> for an \<open>int\<close>: \<open>None\<close> when the sentry fails and the variable keeps its old
  value; no digits store 0 and a value outside the range its bound, both with the fail bit.
\<close>

definition read_int :: "istream \<Rightarrow> int option \<times> istream" where
  "read_int s =
     (let (ok, s1) = sentry s
      in if \<not> ok then (None, s1)
         else let (neg, r) = split_sign (buf s1);
                  ds = takeWhile isdigit r;
                  rest = dropWhile isdigit r;
                  v = (if neg then - digits_val 0 ds else digits_val 0 ds);
                  bad = (ds = [] \<or> v < - (2 ^ 31) \<or> 2 ^ 31 \<le> v)
              in (Some (max (- (2 ^ 31)) (min (2 ^ 31 - 1) v)),
                  s1\<lparr>buf := rest, eofbit := (rest = []), failbit := bad\<rparr>))"

section \<open>Decimal numerals\<close>

definition digit_char :: "nat \<Rightarrow> char" where
  "digit_char d = char_of (48 + d)"

fun show_nat :: "nat \<Rightarrow> string" where
  "show_nat n = (if n < 10 then [digit_char n] else show_nat (n div 10) @ [digit_char (n mod 10)])"

declare show_nat.simps [simp del]

lemma of_digit_char: "d < 10 \<Longrightarrow> (of_char (digit_char d) :: nat) = 48 + d"
  by (simp add: digit_char_def)

lemma isdigit_digit_char [simp]: "d < 10 \<Longrightarrow> isdigit (digit_char d)"
  by (simp add: isdigit_def of_digit_char)

lemma digit_val_digit_char [simp]: "d < 10 \<Longrightarrow> digit_val (digit_char d) = int d"
  by (simp add: digit_val_def of_digit_char)

lemma digits_val_append: "digits_val a (xs @ ys) = digits_val (digits_val a xs) ys"
  by (induction xs arbitrary: a) auto

lemma show_nat_props:
  "show_nat n \<noteq> [] \<and> list_all isdigit (show_nat n) \<and> digits_val 0 (show_nat n) = int n"
proof (induction n rule: show_nat.induct)
  case (1 n)
  show ?case
  proof (cases "n < 10")
    case True
    then show ?thesis by (simp add: show_nat.simps [of n])
  next
    case False
    with 1 have IH: "list_all isdigit (show_nat (n div 10))"
        "digits_val 0 (show_nat (n div 10)) = int (n div 10)"
      by auto
    have "10 * (int n div 10) + int n mod 10 = int n" by simp
    then show ?thesis
      using False IH by (simp add: show_nat.simps [of n] digits_val_append zdiv_int zmod_int)
  qed
qed

lemma isdigit_not_space [simp]: "isdigit c \<Longrightarrow> \<not> isspace c"
  by (auto simp: isdigit_def isspace_def)

lemma isdigit_not_sign: "isdigit c \<Longrightarrow> c \<noteq> CHR ''-'' \<and> c \<noteq> CHR ''+''"
  by (auto simp: isdigit_def)

lemma show_nat_Cons: "\<exists>c cs. show_nat n = c # cs \<and> isdigit c"
  using show_nat_props [of n] by (cases "show_nat n") auto

lemma split_sign_show_nat: "split_sign (show_nat n @ r) = (False, show_nat n @ r)"
  using show_nat_Cons [of n] isdigit_not_sign by (auto simp: split_sign_def)

lemma takeWhile_digits:
  assumes "list_all isdigit ds" "r = [] \<or> \<not> isdigit (hd r)"
  shows "takeWhile isdigit (ds @ r) = ds" "dropWhile isdigit (ds @ r) = r"
  using assms by (induction ds) (cases r; auto)+

lemma takeWhile_all_digits: "list_all isdigit ds \<Longrightarrow> takeWhile isdigit ds = ds"
  by (simp add: list_all_iff)

lemma num_prefix_show_nat: "num_prefix (show_nat n) = (False, int n)"
proof -
  have "dropWhile isspace (show_nat n) = show_nat n"
    using show_nat_Cons [of n] by auto
  then show ?thesis
    using split_sign_show_nat [of n "[]"] show_nat_props [of n]
    by (simp add: num_prefix_def takeWhile_all_digits)
qed

lemma strtoul_show_nat: "n < 2 ^ 64 \<Longrightarrow> strtoul (show_nat n) = of_nat n"
  by (simp add: strtoul_def num_prefix_show_nat)

lemma strtoll_show_nat: "n < 2 ^ 63 \<Longrightarrow> strtoll (show_nat n) = int n"
  by (simp add: strtoll_def num_prefix_show_nat)

lemma atoi_show_nat: "n < 2 ^ 31 \<Longrightarrow> atoi (show_nat n) = int n"
  by (simp add: atoi_def strtoll_show_nat)

end
