(* ===== verification/Fault_Object.thy ===== *)
theory Fault_Object
  imports Fault_Values C_Text
begin

text \<open>
  The object \<open>InjectedFault\<close> and its subclasses (\<open>src/src/fi/faultq.hh\<close>, \<open>faultq.cc\<close>,
  \<open>cpu_injfault.cc\<close>, \<open>o3cpu_injfault.cc\<close>, \<open>reg_injfault.hh\<close>, \<open>regdec_injfault.cc\<close>): fields,
  the parsers of the textual fault description, and the parts of the constructors that do not touch
  the queues. A constructor starts from the raw memory that \<open>new\<close> returns, an arbitrary record,
  and writes the fields the source writes; a field it leaves alone keeps the raw value.
\<close>

section \<open>Constants\<close>

type_synonym InjectedFaultType = u16

definition RegisterInjectedFault :: InjectedFaultType where "RegisterInjectedFault = 1"
definition MemoryInjectedFault :: InjectedFaultType where "MemoryInjectedFault = 2"
definition PCInjectedFault :: InjectedFaultType where "PCInjectedFault = 3"
definition GeneralFetchInjectedFault :: InjectedFaultType where "GeneralFetchInjectedFault = 4"
definition OpCodeInjectedFault :: InjectedFaultType where "OpCodeInjectedFault = 5"
definition RegisterDecodingInjectedFault :: InjectedFaultType where
  "RegisterDecodingInjectedFault = 6"
definition ExecutionInjectedFault :: InjectedFaultType where "ExecutionInjectedFault = 7"

lemmas fault_types = RegisterInjectedFault_def MemoryInjectedFault_def PCInjectedFault_def
  GeneralFetchInjectedFault_def OpCodeInjectedFault_def RegisterDecodingInjectedFault_def
  ExecutionInjectedFault_def

type_synonym InjectedFaultTimingType = u16

definition TickTiming :: InjectedFaultTimingType where "TickTiming = 1"
definition InstructionTiming :: InjectedFaultTimingType where "InstructionTiming = 2"
definition VirtualAddrTiming :: InjectedFaultTimingType where "VirtualAddrTiming = 3"

lemmas timing_types = TickTiming_def InstructionTiming_def VirtualAddrTiming_def

definition IntegerRegisterFault :: int where "IntegerRegisterFault = 1"
definition FloatRegisterFault :: int where "FloatRegisterFault = 2"
definition MiscRegisterFault :: int where "MiscRegisterFault = 3"

lemmas register_types = IntegerRegisterFault_def FloatRegisterFault_def MiscRegisterFault_def

definition SrcRegisterInjectedFault :: int where "SrcRegisterInjectedFault = 1"
definition DstRegisterInjectedFault :: int where "DstRegisterInjectedFault = 2"

section \<open>The object\<close>

text \<open>The dynamic class, which decides what a virtual call runs.\<close>

datatype fault_class =
    CInjectedFault
  | CCPUInjectedFault
  | CO3CPUInjectedFault
  | CGeneralFetchInjectedFault
  | CIEWStageInjectedFault
  | CMemoryInjectedFault
  | COpCodeInjectedFault
  | CPCInjectedFault
  | CRegisterInjectedFault
  | CRegisterDecodingInjectedFault

text \<open>The four queues of the system; a fault points to the one it was inserted into.\<close>

datatype queue_id = MainQ | FetchQ | DecodeQ | IEWQ

text \<open>
  The fields of the base class, then \<open>_cpu\<close> and \<open>_tcontext\<close> of the two CPU classes (a CPU is
  known by its name), \<open>offset\<close> and \<open>_register\<close> of the memory fault, \<open>_regType\<close> of the register
  fault, and the three fields of the register decoding fault.
\<close>

record InjectedFault =
  f_class :: fault_class
  f_nxt :: ptr
  f_prv :: ptr
  f_faultID :: u64
  f_servicedAt :: u64
  f_where :: string
  f_when :: string
  f_what :: string
  f_thread :: string
  f_queue :: "queue_id option"
  f_faultType :: InjectedFaultType
  f_timingType :: InjectedFaultTimingType
  f_valueType :: InjectedFaultValueType
  f_timing :: u64
  f_value :: u64
  f_occurrence :: int
  f_manifested :: bool
  f_cpu :: "string option"
  f_tcontext :: int
  f_offset :: int
  f_register :: int
  f_regType :: int
  f_srcOrDst :: int
  f_regToChange :: int
  f_changeToReg :: int

text \<open>Memory that the allocator returned zeroed.\<close>

definition zero_fault :: InjectedFault where
  "zero_fault = \<lparr>f_class = CInjectedFault, f_nxt = None, f_prv = None, f_faultID = 0,
     f_servicedAt = 0, f_where = [], f_when = [], f_what = [], f_thread = [], f_queue = None,
     f_faultType = 0, f_timingType = 0, f_valueType = 0, f_timing = 0, f_value = 0,
     f_occurrence = 0, f_manifested = False, f_cpu = None, f_tcontext = 0, f_offset = 0,
     f_register = 0, f_regType = 0, f_srcOrDst = 0, f_regToChange = 0, f_changeToReg = 0\<rparr>"

text \<open>
  No constructor sets the links \<open>nxt\<close> and \<open>prv\<close>, C++ does not promise anything about the memory that \<open>new\<close>
  returns, and \<open>insert\<close> leaves one of the links as it is when it puts a fault at an end of a queue
  that is not empty. \<open>null_links\<close> is the condition under which that is harmless: the memory of every new object
  has \<open>NULL\<close> in both fields. The theorems that need it say so.
\<close>

definition null_links :: "(nat \<Rightarrow> InjectedFault) \<Rightarrow> bool" where
  "null_links alloc \<longleftrightarrow> (\<forall>i. f_nxt (alloc i) = None \<and> f_prv (alloc i) = None)"

lemma null_linksD: "null_links alloc \<Longrightarrow> f_nxt (alloc i) = None" "null_links alloc \<Longrightarrow> f_prv (alloc i) = None"
  by (simp_all add: null_links_def)

section \<open>Parsers\<close>

definition setTiming :: "string \<Rightarrow> InjectedFault \<Rightarrow> InjectedFault" where
  "setTiming v f = f\<lparr>f_timing := word_of_int (strtoll v)\<rparr>"

definition setValue :: "string \<Rightarrow> InjectedFault \<Rightarrow> InjectedFault" where
  "setValue v f = f\<lparr>f_value := strtoul v\<rparr>"

definition setValue_int :: "int \<Rightarrow> InjectedFault \<Rightarrow> InjectedFault" where
  "setValue_int v f = f\<lparr>f_value := word_of_int v\<rparr>"

definition parseWhen :: "string \<Rightarrow> InjectedFault \<Rightarrow> InjectedFault res" where
  "parseWhen s f =
     (if take 4 s = ''Inst'' then
        bindE (substr s 5) (\<lambda>v. Inr (setTiming v (f\<lparr>f_timingType := InstructionTiming\<rparr>)))
      else if take 4 s = ''Tick'' then
        bindE (substr s 5) (\<lambda>v. Inr (setTiming v (f\<lparr>f_timingType := TickTiming\<rparr>)))
      else if take 4 s = ''Addr'' then
        bindE (substr s 5) (\<lambda>v. Inr (setTiming v (f\<lparr>f_timingType := VirtualAddrTiming\<rparr>)))
      else Inl AssertFail)"

definition parseWhat :: "string \<Rightarrow> InjectedFault \<Rightarrow> InjectedFault res" where
  "parseWhat s f =
     (if take 4 s = ''Immd'' then
        bindE (substr s 5) (\<lambda>v. Inr (setValue v (f\<lparr>f_valueType := ImmediateValue\<rparr>)))
      else if take 4 s = ''Mask'' then
        bindE (substr s 5) (\<lambda>v. Inr (setValue v (f\<lparr>f_valueType := MaskValue\<rparr>)))
      else if take 4 s = ''Flip'' then
        bindE (substr s 5) (\<lambda>v. Inr (setValue v (f\<lparr>f_valueType := FlipBit\<rparr>)))
      else if take 4 s = ''All0'' then
        Inr (setValue_int 0 (f\<lparr>f_valueType := AllValue\<rparr>))
      else if take 4 s = ''All1'' then
        Inr (setValue_int 1 (f\<lparr>f_valueType := AllValue\<rparr>))
      else Inl AssertFail)"

text \<open>
  \<open>s2.substr(0,pos)\<close> and \<open>s2.substr(pos+1)\<close>: without a colon \<open>pos\<close> is \<open>npos\<close>, whose
  successor is 0, so that both are the whole string.
\<close>

definition setRegPair :: "string \<Rightarrow> InjectedFault \<Rightarrow> InjectedFault" where
  "setRegPair s2 f =
     (let pos = find_char (CHR '':'') s2;
          a = (case pos of None \<Rightarrow> s2 | Some p \<Rightarrow> take p s2);
          b = (case pos of None \<Rightarrow> s2 | Some p \<Rightarrow> drop (p + 1) s2)
      in f\<lparr>f_regToChange := atoi a, f_changeToReg := atoi b\<rparr>)"

definition parseRegDec :: "string \<Rightarrow> InjectedFault \<Rightarrow> InjectedFault res" where
  "parseRegDec s f =
     (if take 3 s = ''Src'' then
        bindE (substr s 4) (\<lambda>s2. Inr (setRegPair s2 (f\<lparr>f_srcOrDst := SrcRegisterInjectedFault\<rparr>)))
      else if take 3 s = ''Dst'' then
        bindE (substr s 4) (\<lambda>s2. Inr (setRegPair s2 (f\<lparr>f_srcOrDst := DstRegisterInjectedFault\<rparr>)))
      else Inl AssertFail)"

definition setRegType :: "string \<Rightarrow> InjectedFault \<Rightarrow> InjectedFault res" where
  "setRegType v f =
     (if v = ''int'' then Inr (f\<lparr>f_regType := IntegerRegisterFault\<rparr>)
      else if v = ''float'' then Inr (f\<lparr>f_regType := FloatRegisterFault\<rparr>)
      else if v = ''misc'' then Inr (f\<lparr>f_regType := MiscRegisterFault\<rparr>)
      else Inl AssertFail)"

section \<open>Constructors of the base classes\<close>

text \<open>
  A string variable starts empty; an \<open>int\<close> variable starts uninitialised, and reading it when
  the extraction did not store to it is an error. The counter is the static \<open>faultCnt\<close>.
\<close>

definition str_or_empty :: "string option \<Rightarrow> string" where
  "str_or_empty v = (case v of None \<Rightarrow> [] | Some s \<Rightarrow> s)"

definition init_int :: "int option \<Rightarrow> int res" where
  "init_int v = (case v of None \<Rightarrow> Inl Uninitialised | Some n \<Rightarrow> Inr n)"

definition InjectedFault_ctor ::
  "InjectedFault \<Rightarrow> u64 \<Rightarrow> istream \<Rightarrow> (InjectedFault \<times> u64 \<times> istream) res" where
  "InjectedFault_ctor raw faultCnt os0 =
     (let (when', os1) = read_string os0;
          (what', os2) = read_string os1;
          (thread', os3) = read_string os2;
          (where', os4) = read_string os3;
          (occ, os5) = read_int os4;
          f = raw\<lparr>f_thread := str_or_empty thread', f_when := str_or_empty when',
                   f_where := str_or_empty where', f_what := str_or_empty what'\<rparr>
      in bindE (parseWhat (str_or_empty what') f) (\<lambda>f.
         bindE (parseWhen (str_or_empty when') f) (\<lambda>f.
         let f = f\<lparr>f_faultID := faultCnt\<rparr>
         in bindE (init_int occ) (\<lambda>occ.
            Inr (f\<lparr>f_occurrence := occ, f_manifested := False\<rparr>, faultCnt + 1, os5)))))"

text \<open>\<open>CPUInjectedFault\<close> and \<open>O3CPUInjectedFault\<close> read the hardware thread as well.\<close>

definition CPUInjectedFault_ctor ::
  "InjectedFault \<Rightarrow> u64 \<Rightarrow> istream \<Rightarrow> (InjectedFault \<times> u64 \<times> istream) res" where
  "CPUInjectedFault_ctor raw faultCnt os =
     bindE (InjectedFault_ctor raw faultCnt os) (\<lambda>(f, faultCnt, os).
       let (t, os) = read_int os
       in bindE (init_int t) (\<lambda>t. Inr (f\<lparr>f_tcontext := t\<rparr>, faultCnt, os)))"

definition O3CPUInjectedFault_ctor ::
  "InjectedFault \<Rightarrow> u64 \<Rightarrow> istream \<Rightarrow> (InjectedFault \<times> u64 \<times> istream) res" where
  "O3CPUInjectedFault_ctor raw faultCnt os =
     bindE (InjectedFault_ctor raw faultCnt os) (\<lambda>(f, faultCnt, os).
       let (t, os) = read_int os
       in bindE (init_int t) (\<lambda>t. Inr (f\<lparr>f_tcontext := t\<rparr>, faultCnt, os)))"

section \<open>Rescheduling\<close>

definition increaseTiming :: "u64 \<Rightarrow> u64 \<Rightarrow> u64 \<Rightarrow> InjectedFault \<Rightarrow> InjectedFault res" where
  "increaseTiming cycles insts addr f =
     (if f_timingType f = TickTiming then Inr (f\<lparr>f_timing := cycles\<rparr>)
      else if f_timingType f = InstructionTiming then Inr (f\<lparr>f_timing := insts\<rparr>)
      else if f_timingType f = VirtualAddrTiming then Inr f
      else Inl AssertFail)"

definition decreaseOccurrence :: "InjectedFault \<Rightarrow> InjectedFault" where
  "decreaseOccurrence f = f\<lparr>f_occurrence := int32 (f_occurrence f - 1)\<rparr>"

end
