(* ===== verification/Timed_Queue.thy ===== *)
theory Timed_Queue
  imports FI_Prelude
begin

text \<open>
  The interface that the two linked queues of the simulator share: the queue of injected faults
  (\<open>src/src/fi/faultq.cc\<close>) and the queue of simulation events (\<open>src/src/sim/eventq.cc\<close>). Both
  insert an element before the first one whose key is not smaller, so that elements with equal keys
  are served last in, first out, and both remove an element wherever it is.
\<close>

section \<open>Insertion by key\<close>

definition place :: "('a \<Rightarrow> 'k::linorder) \<Rightarrow> 'a \<Rightarrow> 'a list \<Rightarrow> 'a list" where
  "place k x xs = takeWhile (\<lambda>y. k y < k x) xs @ x # dropWhile (\<lambda>y. k y < k x) xs"

lemma place_Nil [simp]: "place k x [] = [x]"
  by (simp add: place_def)

lemma place_Cons: "place k x (y # ys) = (if k y < k x then y # place k x ys else x # y # ys)"
  by (simp add: place_def)

lemma set_place [simp]: "set (place k x xs) = insert x (set xs)"
  by (induction xs) (auto simp: place_Cons)

lemma length_place [simp]: "length (place k x xs) = Suc (length xs)"
  by (induction xs) (auto simp: place_Cons)

lemma distinct_place [simp]: "distinct (place k x xs) \<longleftrightarrow> x \<notin> set xs \<and> distinct xs"
  by (induction xs) (auto simp: place_Cons)

lemma sorted_place: "sorted (map k xs) \<Longrightarrow> sorted (map k (place k x xs))"
  by (induction xs) (auto simp: place_Cons)

lemma remove1_place: "x \<notin> set xs \<Longrightarrow> remove1 x (place k x xs) = xs"
  by (induction xs) (auto simp: place_Cons)

lemma place_cong: "(\<And>y. y \<in> set xs \<Longrightarrow> k y = k' y) \<Longrightarrow> k x = k' x \<Longrightarrow> place k x xs = place k' x xs"
  by (induction xs) (auto simp: place_Cons)

lemma sorted_map_remove1: "sorted (map k xs) \<Longrightarrow> sorted (map k (remove1 x xs))"
  by (induction xs) (auto dest: notin_set_remove1)

section \<open>The contract\<close>

text \<open>
  \<open>repr s xs\<close>: in state \<open>s\<close> the queue holds the elements \<open>xs\<close> in this order. \<open>fresh s x\<close>:
  \<open>x\<close> may be inserted. Insertion and removal keep every key, and the freshness of elements
  outside the queue.
\<close>

locale timed_queue =
  fixes repr :: "'s \<Rightarrow> nat list \<Rightarrow> bool"
    and key :: "'s \<Rightarrow> nat \<Rightarrow> 'k::linorder"
    and fresh :: "'s \<Rightarrow> nat \<Rightarrow> bool"
    and ins :: "nat \<Rightarrow> 's \<Rightarrow> 's res"
    and del :: "nat \<Rightarrow> 's \<Rightarrow> 's res"
  assumes repr_distinct: "repr s xs \<Longrightarrow> distinct xs"
    and repr_unique: "repr s xs \<Longrightarrow> repr s ys \<Longrightarrow> xs = ys"
    and ins_ok: "repr s xs \<Longrightarrow> fresh s x \<Longrightarrow> x \<notin> set xs \<Longrightarrow>
       \<exists>s'. ins x s = Inr s' \<and> repr s' (place (key s) x xs) \<and> key s' = key s \<and>
            (\<forall>y. y \<noteq> x \<longrightarrow> y \<notin> set xs \<longrightarrow> fresh s' y = fresh s y)"
    and del_ok: "repr s xs \<Longrightarrow> x \<in> set xs \<Longrightarrow>
       \<exists>s'. del x s = Inr s' \<and> repr s' (remove1 x xs) \<and> key s' = key s \<and>
            (\<forall>y. y \<notin> set xs \<longrightarrow> fresh s' y = fresh s y)"
begin

lemma ins_sorted:
  assumes "repr s xs" "fresh s x" "x \<notin> set xs" "sorted (map (key s) xs)"
  shows "\<exists>s' ys. ins x s = Inr s' \<and> repr s' ys \<and> set ys = insert x (set xs) \<and>
           sorted (map (key s') ys)"
  using ins_ok [OF assms(1-3)] sorted_place [OF assms(4), of x] by (metis set_place)

lemma ins_del:
  assumes "repr s xs" "fresh s x" "x \<notin> set xs"
  shows "\<exists>s' s''. ins x s = Inr s' \<and> del x s' = Inr s'' \<and> repr s'' xs \<and> key s'' = key s"
proof -
  obtain s' where s': "ins x s = Inr s'" "repr s' (place (key s) x xs)" "key s' = key s"
    using ins_ok [OF assms] by blast
  then obtain s'' where "del x s' = Inr s''" "repr s'' xs" "key s'' = key s'"
    using del_ok [OF s'(2), of x] assms(3) by (auto simp: remove1_place)
  with s' show ?thesis by auto
qed

lemma ins_all_ok:
  assumes "repr s xs" "distinct ys" "\<forall>y\<in>set ys. fresh s y \<and> y \<notin> set xs"
  shows "\<exists>s'. foldE ins ys s = Inr s' \<and> repr s' (fold (place (key s)) ys xs) \<and> key s' = key s"
  using assms
proof (induction ys arbitrary: s xs)
  case Nil
  then show ?case by auto
next
  case (Cons y ys)
  obtain s1 where s1: "ins y s = Inr s1" "repr s1 (place (key s) y xs)" "key s1 = key s"
      "\<forall>z. z \<noteq> y \<longrightarrow> z \<notin> set xs \<longrightarrow> fresh s1 z = fresh s z"
    using ins_ok [of s xs y] Cons.prems by auto
  have "\<forall>z\<in>set ys. fresh s1 z \<and> z \<notin> set (place (key s) y xs)"
    using Cons.prems(2,3) s1(4) by auto
  then show ?case
    using Cons.IH [OF s1(2)] Cons.prems(2) s1(1,3) by auto
qed

lemma del_all_ok:
  assumes "repr s (xs @ ys)"
  shows "\<exists>s'. foldE del xs s = Inr s' \<and> repr s' ys \<and> key s' = key s"
  using assms
proof (induction xs arbitrary: s)
  case Nil
  then show ?case by auto
next
  case (Cons x xs)
  obtain s1 where "del x s = Inr s1" "repr s1 (xs @ ys)" "key s1 = key s"
    using del_ok [of s "(x # xs) @ ys" x] Cons.prems by auto
  with Cons.IH [of s1] show ?case by auto
qed

lemma fold_place_sorted:
  "sorted (map k xs) \<Longrightarrow> sorted (map k (fold (place k) ys xs))"
  by (induction ys arbitrary: xs) (auto intro: sorted_place)

end

end
