(* ===== verification/Fault_Queue.thy ===== *)
theory Fault_Queue
  imports Fault_Object Timed_Queue
begin

text \<open>
  The doubly linked queue of injected faults, \<open>InjectedFaultQueue\<close> of \<open>src/src/fi/faultq.hh\<close> and
  \<open>faultq.cc\<close>, at the level of its pointers: the objects live in a heap list, and every write
  through a pointer is an update of that list.
\<close>

section \<open>Definitions\<close>

type_synonym fault_heap = "InjectedFault list"

record InjectedFaultQueue =
  q_name :: string
  q_head :: ptr
  q_tail :: ptr

definition queue_empty :: "InjectedFaultQueue \<Rightarrow> bool" where
  "queue_empty q \<longleftrightarrow> q_head q = None \<and> q_tail q = None"

text \<open>
  The loops that follow \<open>nxt\<close> do not change the heap, so one that takes more steps than there are
  objects has come back to an object it has seen and never ends: the fuel is the number of objects
  plus one, and running out of it is \<open>Diverges\<close>.
\<close>

fun insert_walk :: "nat \<Rightarrow> fault_heap \<Rightarrow> u64 \<Rightarrow> ptr \<Rightarrow> ptr res" where
  "insert_walk 0 h t p = Inl Diverges"
| "insert_walk (Suc n) h t p =
     (case p of None \<Rightarrow> Inr None
      | Some a \<Rightarrow> bindE (deref h p) (\<lambda>x.
          if f_timing x < t then insert_walk n h t (f_nxt x) else Inr p))"

definition queue_insert ::
  "queue_id \<Rightarrow> nat \<Rightarrow> fault_heap \<times> InjectedFaultQueue \<Rightarrow> (fault_heap \<times> InjectedFaultQueue) res" where
  "queue_insert qid f = (\<lambda>(h, q).
     bindE (upd h (Some f) (\<lambda>x. x\<lparr>f_queue := Some qid\<rparr>)) (\<lambda>h.
     if queue_empty q then
       bindE (upd h (Some f) (\<lambda>x. x\<lparr>f_nxt := None\<rparr>)) (\<lambda>h.
       bindE (upd h (Some f) (\<lambda>x. x\<lparr>f_prv := None\<rparr>)) (\<lambda>h.
       Inr (h, q\<lparr>q_head := Some f, q_tail := Some f\<rparr>)))
     else
       bindE (deref h (Some f)) (\<lambda>fx.
       bindE (insert_walk (Suc (length h)) h (f_timing fx) (q_head q)) (\<lambda>p.
       if p = None then
         bindE (upd h (q_tail q) (\<lambda>x. x\<lparr>f_nxt := Some f\<rparr>)) (\<lambda>h.
         bindE (upd h (Some f) (\<lambda>x. x\<lparr>f_prv := q_tail q\<rparr>)) (\<lambda>h.
         Inr (h, q\<lparr>q_tail := Some f\<rparr>)))
       else if p = q_head q then
         bindE (upd h (q_head q) (\<lambda>x. x\<lparr>f_prv := Some f\<rparr>)) (\<lambda>h.
         bindE (upd h (Some f) (\<lambda>x. x\<lparr>f_nxt := q_head q\<rparr>)) (\<lambda>h.
         Inr (h, q\<lparr>q_head := Some f\<rparr>)))
       else
         bindE (deref h p) (\<lambda>px.
         bindE (upd h (f_prv px) (\<lambda>x. x\<lparr>f_nxt := Some f\<rparr>)) (\<lambda>h.
         bindE (deref h p) (\<lambda>px.
         bindE (upd h (Some f) (\<lambda>x. x\<lparr>f_prv := f_prv px\<rparr>)) (\<lambda>h.
         bindE (upd h p (\<lambda>x. x\<lparr>f_prv := Some f\<rparr>)) (\<lambda>h.
         bindE (upd h (Some f) (\<lambda>x. x\<lparr>f_nxt := p\<rparr>)) (\<lambda>h.
         Inr (h, q)))))))))))"

fun remove_walk :: "nat \<Rightarrow> fault_heap \<Rightarrow> nat \<Rightarrow> ptr \<Rightarrow> ptr res" where
  "remove_walk 0 h f p = Inl Diverges"
| "remove_walk (Suc n) h f p =
     (case p of None \<Rightarrow> Inr None
      | Some a \<Rightarrow> if a = f then Inr p
                  else bindE (deref h p) (\<lambda>x. remove_walk n h f (f_nxt x)))"

definition queue_remove ::
  "nat \<Rightarrow> fault_heap \<times> InjectedFaultQueue \<Rightarrow> (fault_heap \<times> InjectedFaultQueue) res" where
  "queue_remove f = (\<lambda>(h, q).
     if q_head q = None \<and> q_tail q = None then Inr (h, q)
     else
       bindE (remove_walk (Suc (length h)) h f (q_head q)) (\<lambda>p.
       bindE (assertE (p \<noteq> None)) (\<lambda>_.
       bindE (deref h (Some f)) (\<lambda>fx.
       bindE (if f_prv fx = None then Inr (h, q\<lparr>q_head := f_nxt fx\<rparr>)
              else bindE (upd h (f_prv fx) (\<lambda>x. x\<lparr>f_nxt := f_nxt fx\<rparr>)) (\<lambda>h. Inr (h, q))) (\<lambda>(h, q).
       bindE (deref h (Some f)) (\<lambda>fx.
       if f_nxt fx = None then Inr (h, q\<lparr>q_tail := f_prv fx\<rparr>)
       else bindE (upd h (f_nxt fx) (\<lambda>x. x\<lparr>f_prv := f_prv fx\<rparr>)) (\<lambda>h. Inr (h, q))))))))"

section \<open>The list a queue represents\<close>

text \<open>
  \<open>chain h pr xs nx\<close>: the objects at the addresses \<open>xs\<close> are linked in this order, the first
  one's \<open>prv\<close> is \<open>pr\<close> and the last one's \<open>nxt\<close> is \<open>nx\<close>.
\<close>

fun chain :: "fault_heap \<Rightarrow> ptr \<Rightarrow> nat list \<Rightarrow> ptr \<Rightarrow> bool" where
  "chain h pr [] nx = True"
| "chain h pr (x # xs) nx \<longleftrightarrow>
     x < length h \<and> f_prv (h ! x) = pr \<and> f_nxt (h ! x) = first_ptr xs nx \<and> chain h (Some x) xs nx"

definition queue_list :: "fault_heap \<times> InjectedFaultQueue \<Rightarrow> nat list \<Rightarrow> bool" where
  "queue_list s xs \<longleftrightarrow> distinct xs \<and> chain (fst s) None xs None \<and>
     q_head (snd s) = first_ptr xs None \<and> q_tail (snd s) = last_ptr xs None"

lemma chain_append:
  "chain h pr (xs @ ys) nx \<longleftrightarrow> chain h pr xs (first_ptr ys nx) \<and> chain h (last_ptr xs pr) ys nx"
  by (induction xs arbitrary: pr) auto

lemma chain_in_heap: "chain h pr xs nx \<Longrightarrow> x \<in> set xs \<Longrightarrow> x < length h"
  by (induction xs arbitrary: pr) auto

lemma chain_cong:
  assumes "length h' = length h"
    "\<And>x. x \<in> set xs \<Longrightarrow> f_nxt (h' ! x) = f_nxt (h ! x) \<and> f_prv (h' ! x) = f_prv (h ! x)"
  shows "chain h' pr xs nx = chain h pr xs nx"
  using assms(2) by (induction xs arbitrary: pr) (auto simp: assms(1))

lemma chain_upd [simp]: "a \<notin> set xs \<Longrightarrow> chain (h[a := v]) pr xs nx = chain h pr xs nx"
  by (rule chain_cong) (auto, (metis nth_list_update_neq)+)

lemma queue_list_unique: "queue_list s xs \<Longrightarrow> queue_list s ys \<Longrightarrow> xs = ys"
proof -
  have "chain h pr xs nx \<Longrightarrow> chain h pr ys nx \<Longrightarrow> first_ptr xs None = first_ptr ys None \<Longrightarrow>
      nx = None \<Longrightarrow> xs = ys" for h pr nx
  proof (induction xs arbitrary: pr ys)
    case Nil
    then show ?case by (cases ys) auto
  next
    case (Cons x xs)
    then show ?case by (cases ys) auto
  qed
  then show "queue_list s xs \<Longrightarrow> queue_list s ys \<Longrightarrow> xs = ys"
    unfolding queue_list_def by metis
qed

section \<open>Insertion refines insertion by timing\<close>

abbreviation timing_at :: "fault_heap \<Rightarrow> nat \<Rightarrow> u64" where
  "timing_at h a \<equiv> f_timing (h ! a)"

lemma timing_set_queue [simp]:
  "timing_at (h[a := (h ! a)\<lparr>f_queue := v\<rparr>]) y = timing_at h y"
  by (cases "a < length h") (auto simp: nth_list_update list_update_beyond)

lemma insert_walk_chain:
  assumes "chain h pr xs None" "length xs < n"
  shows "insert_walk n h t (first_ptr xs None) =
           Inr (first_ptr (dropWhile (\<lambda>y. timing_at h y < t) xs) None)"
  using assms
proof (induction xs arbitrary: n pr)
  case Nil
  then show ?case by (cases n) auto
next
  case (Cons x xs)
  then obtain m where "n = Suc m" by (cases n) auto
  with Cons show ?case by auto
qed

lemma remove_walk_chain:
  assumes "chain h pr xs None" "length xs < n"
  shows "remove_walk n h f (first_ptr xs None) = Inr (if f \<in> set xs then Some f else None)"
  using assms
proof (induction xs arbitrary: n pr)
  case Nil
  then show ?case by (cases n) auto
next
  case (Cons x xs)
  then obtain m where "n = Suc m" by (cases n) auto
  with Cons show ?case by auto
qed

lemma chain_length: "chain h pr xs nx \<Longrightarrow> distinct xs \<Longrightarrow> length xs \<le> length h"
  by (metis card_lessThan card_mono chain_in_heap distinct_card finite_lessThan lessThan_iff subsetI)

text \<open>
  What insertion and removal may change: the links and, for the inserted fault, the queue. \<open>core\<close>
  is everything else of an object.
\<close>

definition core :: "InjectedFault \<Rightarrow> InjectedFault" where
  "core x = x\<lparr>f_nxt := None, f_prv := None, f_queue := None\<rparr>"

definition same_core :: "fault_heap \<Rightarrow> fault_heap \<Rightarrow> bool" where
  "same_core h h' \<longleftrightarrow> map core h' = map core h"

lemma core_links [simp]:
  "core (x\<lparr>f_nxt := n\<rparr>) = core x" "core (x\<lparr>f_prv := n\<rparr>) = core x" "core (x\<lparr>f_queue := v\<rparr>) = core x"
  by (simp_all add: core_def)

lemma same_core_refl [simp]: "same_core h h"
  by (simp add: same_core_def)

lemma same_core_upd [simp]: "core v = core (h' ! a) \<Longrightarrow> same_core h (h'[a := v]) = same_core h h'"
proof -
  assume "core v = core (h' ! a)"
  then have "map core (h'[a := v]) = map core h'"
    by (cases "a < length h'") (auto simp: map_update list_update_beyond intro!: nth_equalityI simp: nth_list_update)
  then show ?thesis by (simp add: same_core_def)
qed

lemma same_core_length: "same_core h h' \<Longrightarrow> length h' = length h"
  unfolding same_core_def by (metis length_map)

lemma same_core_nth: "same_core h h' \<Longrightarrow> a < length h \<Longrightarrow> core (h' ! a) = core (h ! a)"
  unfolding same_core_def by (metis length_map nth_map)

lemma core_fields:
  assumes "core x = core y"
  shows "f_timing x = f_timing y" "f_timingType x = f_timingType y" "f_valueType x = f_valueType y"
    "f_value x = f_value y" "f_occurrence x = f_occurrence y" "f_manifested x = f_manifested y"
    "f_class x = f_class y" "f_where x = f_where y" "f_thread x = f_thread y"
    "f_faultType x = f_faultType y" "f_cpu x = f_cpu y" "f_tcontext x = f_tcontext y"
  using assms by (cases x; cases y; simp add: core_def)+

text \<open>The conditions under which a fault may be inserted: its links are still NULL.\<close>

definition unlinked :: "fault_heap \<Rightarrow> nat \<Rightarrow> bool" where
  "unlinked h f \<longleftrightarrow> f < length h \<and> f_nxt (h ! f) = None \<and> f_prv (h ! f) = None"

definition ins_frame :: "queue_id \<Rightarrow> nat \<Rightarrow> nat list \<Rightarrow> fault_heap \<times> InjectedFaultQueue \<Rightarrow>
    fault_heap \<times> InjectedFaultQueue \<Rightarrow> bool" where
  "ins_frame qid f xs s s' \<longleftrightarrow> same_core (fst s) (fst s') \<and> q_name (snd s') = q_name (snd s) \<and>
     f_queue (fst s' ! f) = Some qid \<and>
     (\<forall>a. a \<noteq> f \<longrightarrow> f_queue (fst s' ! a) = f_queue (fst s ! a)) \<and>
     (\<forall>a. a \<noteq> f \<longrightarrow> a \<notin> set xs \<longrightarrow> fst s' ! a = fst s ! a)"

lemma queue_insert_empty:
  assumes "queue_list (h, q) []" "unlinked h f"
  shows "\<exists>s'. queue_insert qid f (h, q) = Inr s' \<and> queue_list s' [f] \<and> ins_frame qid f [] (h, q) s'"
  using assms
  by (auto simp: queue_list_def queue_insert_def queue_empty_def unlinked_def ins_frame_def)

lemma queue_insert_end:
  assumes "queue_list (h, q) xs" "xs \<noteq> []" "unlinked h f" "f \<notin> set xs"
    and "dropWhile (\<lambda>y. timing_at h y < timing_at h f) xs = []"
  shows "\<exists>s'. queue_insert qid f (h, q) = Inr s' \<and> queue_list s' (xs @ [f]) \<and>
           ins_frame qid f xs (h, q) s'"
proof -
  obtain as a where xs: "xs = as @ [a]" using assms(2) by (metis rev_exhaust)
  have f: "f < length h" "f_nxt (h ! f) = None" using assms(3) by (auto simp: unlinked_def)
  have c: "chain h None xs None" and d: "distinct xs" and hq: "q_head q = first_ptr xs None"
    and tq: "q_tail q = Some a"
    using assms(1) by (auto simp: queue_list_def xs)
  have a: "a < length h" using chain_in_heap [OF c] xs by simp
  let ?h1 = "h[f := (h ! f)\<lparr>f_queue := Some qid\<rparr>]"
  have "chain ?h1 None xs None" using c assms(4) by simp
  moreover have "dropWhile (\<lambda>y. timing_at ?h1 y < timing_at h f) xs = []"
    using assms(4,5) by simp
  moreover have "length xs < Suc (length h)" using chain_length [OF c d] by simp
  ultimately have w: "insert_walk (Suc (length h)) ?h1 (timing_at h f) (q_head q) = Inr None"
    using insert_walk_chain [of ?h1 None xs "Suc (length h)" "timing_at h f"] hq by simp
  have "queue_insert qid f (h, q) = Inr (?h1[a := (?h1 ! a)\<lparr>f_nxt := Some f\<rparr>,
      f := (?h1[a := (?h1 ! a)\<lparr>f_nxt := Some f\<rparr>] ! f)\<lparr>f_prv := Some a\<rparr>], q\<lparr>q_tail := Some f\<rparr>)"
    using w f a tq by (simp add: queue_insert_def queue_empty_def del: insert_walk.simps)
  then show ?thesis
    using c d f a xs assms(4) hq
    by (auto simp: queue_list_def chain_append ins_frame_def nth_list_update)
qed

lemma queue_insert_front:
  assumes "queue_list (h, q) (x # xs)" "unlinked h f" "f \<notin> set (x # xs)"
    and "\<not> timing_at h x < timing_at h f"
  shows "\<exists>s'. queue_insert qid f (h, q) = Inr s' \<and> queue_list s' (f # x # xs) \<and>
           ins_frame qid f (x # xs) (h, q) s'"
proof -
  have f: "f < length h" "f_prv (h ! f) = None" using assms(2) by (auto simp: unlinked_def)
  have c: "chain h None (x # xs) None" and d: "distinct (x # xs)" and hq: "q_head q = Some x"
    and tq: "q_tail q = last_ptr (x # xs) None"
    using assms(1) by (auto simp: queue_list_def)
  have fx: "f \<noteq> x" "x \<noteq> f" using assms(3) by auto
  let ?h1 = "h[f := (h ! f)\<lparr>f_queue := Some qid\<rparr>]"
  have w: "insert_walk (Suc (length h)) ?h1 (timing_at h f) (q_head q) = Inr (Some x)"
    using c hq assms(4) by simp
  have "queue_insert qid f (h, q) = Inr (?h1[x := (?h1 ! x)\<lparr>f_prv := Some f\<rparr>,
      f := (?h1[x := (?h1 ! x)\<lparr>f_prv := Some f\<rparr>] ! f)\<lparr>f_nxt := Some x\<rparr>], q\<lparr>q_head := Some f\<rparr>)"
    using w f c hq by (simp add: queue_insert_def queue_empty_def del: insert_walk.simps)
  then show ?thesis
    using c d f assms(3) tq fx
    by (auto simp: queue_list_def ins_frame_def nth_list_update)
qed

lemma queue_insert_middle:
  assumes "queue_list (h, q) (as @ a # z # zs)" "unlinked h f" "f \<notin> set (as @ a # z # zs)"
    and "\<forall>y\<in>set (as @ [a]). timing_at h y < timing_at h f" "\<not> timing_at h z < timing_at h f"
  shows "\<exists>s'. queue_insert qid f (h, q) = Inr s' \<and> queue_list s' (as @ a # f # z # zs) \<and>
           ins_frame qid f (as @ a # z # zs) (h, q) s'"
proof -
  let ?xs = "as @ a # z # zs"
  have f: "f < length h" using assms(2) by (auto simp: unlinked_def)
  have c: "chain h None ?xs None" and d: "distinct ?xs" and hq: "q_head q = first_ptr ?xs None"
    and tq: "q_tail q = last_ptr ?xs None"
    using assms(1) by (auto simp: queue_list_def)
  have neq: "f \<noteq> a" "f \<noteq> z" "a \<noteq> z" "a \<noteq> f" "z \<noteq> f" "z \<noteq> a" using assms(3) d by auto
  have az: "a < length h" "z < length h" "f_prv (h ! z) = Some a"
    using c by (auto simp: chain_append)
  let ?h1 = "h[f := (h ! f)\<lparr>f_queue := Some qid\<rparr>]"
  have "dropWhile (\<lambda>y. timing_at ?h1 y < timing_at h f) ((as @ [a]) @ z # zs) = z # zs"
    using assms(4,5) by (subst dropWhile_append2) auto
  moreover have "chain ?h1 None ?xs None" using c assms(3) by simp
  moreover have "length ?xs < Suc (length h)" using chain_length [OF c d] by simp
  ultimately have w: "insert_walk (Suc (length h)) ?h1 (timing_at h f) (q_head q) = Inr (Some z)"
    using insert_walk_chain [of ?h1 None ?xs "Suc (length h)" "timing_at h f"] hq by simp
  have "Some z \<noteq> q_head q" using hq d by (cases as) auto
  then have "queue_insert qid f (h, q) = Inr (?h1[a := (h ! a)\<lparr>f_nxt := Some f\<rparr>,
      f := (?h1 ! f)\<lparr>f_prv := Some a\<rparr>, z := (h ! z)\<lparr>f_prv := Some f\<rparr>,
      f := (?h1 ! f)\<lparr>f_prv := Some a, f_nxt := Some z\<rparr>], q)"
    using w f az neq hq by (simp add: queue_insert_def queue_empty_def del: insert_walk.simps)
  then show ?thesis
    using c d f az assms(3) tq hq neq
    by (auto simp: queue_list_def chain_append ins_frame_def nth_list_update)
qed

text \<open>All four branches together.\<close>

lemma queue_insert_refines:
  assumes q: "queue_list (h, q) xs" and f: "unlinked h f" "f \<notin> set xs"
  shows "\<exists>s'. queue_insert qid f (h, q) = Inr s' \<and> queue_list s' (place (timing_at h) f xs) \<and>
           ins_frame qid f xs (h, q) s'"
proof -
  let ?P = "\<lambda>y. timing_at h y < timing_at h f"
  consider (empty) "xs = []" | (at_end) "xs \<noteq> []" "dropWhile ?P xs = []"
    | (front) x ys where "xs = x # ys" "\<not> ?P x"
    | (mid) z zs where "dropWhile ?P xs = z # zs" "takeWhile ?P xs \<noteq> []"
    by (cases xs; cases "dropWhile ?P xs") (auto split: if_splits)
  then show ?thesis
  proof cases
    case empty
    then show ?thesis using queue_insert_empty q f by simp
  next
    case at_end
    then have "place (timing_at h) f xs = xs @ [f]"
      by (simp add: place_def dropWhile_eq_Nil_conv takeWhile_eq_all_conv [THEN iffD2])
    with queue_insert_end [OF q at_end(1) f at_end(2)] show ?thesis by simp
  next
    case front
    with queue_insert_front [of h q x ys f] q f show ?thesis by (simp add: place_Cons)
  next
    case mid
    obtain as a where as: "takeWhile ?P xs = as @ [a]" using mid(2) by (metis rev_exhaust)
    have xs: "xs = as @ a # z # zs" using takeWhile_dropWhile_id [of ?P xs] as mid(1) by simp
    have "\<forall>y\<in>set (as @ [a]). ?P y" using as by (metis set_takeWhileD)
    moreover have "\<not> ?P z" using mid(1) by (metis hd_dropWhile list.distinct(1) list.sel(1))
    ultimately show ?thesis
      using queue_insert_middle [of h q as a z zs f] q f as mid(1) xs by (simp add: place_def)
  qed
qed

section \<open>Removal refines removal from the list\<close>

definition del_frame :: "nat list \<Rightarrow> fault_heap \<times> InjectedFaultQueue \<Rightarrow>
    fault_heap \<times> InjectedFaultQueue \<Rightarrow> bool" where
  "del_frame xs s s' \<longleftrightarrow> same_core (fst s) (fst s') \<and> q_name (snd s') = q_name (snd s) \<and>
     (\<forall>a. f_queue (fst s' ! a) = f_queue (fst s ! a)) \<and>
     (\<forall>a. a \<notin> set xs \<longrightarrow> fst s' ! a = fst s ! a)"

lemma queue_remove_refines:
  assumes q: "queue_list (h, q) (as @ f # bs)"
  shows "\<exists>s'. queue_remove f (h, q) = Inr s' \<and> queue_list s' (as @ bs) \<and>
           del_frame (as @ f # bs) (h, q) s'"
proof -
  have c: "chain h None (as @ f # bs) None" and d: "distinct (as @ f # bs)"
    and hq: "q_head q = first_ptr (as @ f # bs) None" and tq: "q_tail q = last_ptr (as @ f # bs) None"
    using q by (auto simp: queue_list_def)
  have "length (as @ f # bs) < Suc (length h)" using chain_length [OF c d] by simp
  then have w: "remove_walk (Suc (length h)) h f (q_head q) = Inr (Some f)"
    using remove_walk_chain [OF c, of "Suc (length h)" f] hq by simp
  have f: "f < length h" "f_prv (h ! f) = last_ptr as None" "f_nxt (h ! f) = first_ptr bs None"
    using c by (auto simp: chain_append)
  show ?thesis
  proof (cases as rule: rev_cases)
    case Nil
    then show ?thesis
      using w f c d hq tq
      by (cases bs) (auto simp: queue_remove_def queue_list_def del_frame_def nth_list_update
          simp del: remove_walk.simps)
  next
    case (snoc as' a)
    then show ?thesis
      using w f c d hq tq
      by (cases bs) (auto simp: queue_remove_def queue_list_def del_frame_def nth_list_update
          chain_append simp del: remove_walk.simps)
  qed
qed

section \<open>The queue as an instance of the shared interface\<close>

definition fault_key :: "fault_heap \<times> InjectedFaultQueue \<Rightarrow> nat \<Rightarrow> u64" where
  "fault_key s a = (if a < length (fst s) then f_timing (fst s ! a) else 0)"

definition fault_fresh :: "fault_heap \<times> InjectedFaultQueue \<Rightarrow> nat \<Rightarrow> bool" where
  "fault_fresh s a = unlinked (fst s) a"

lemma queue_list_in_heap: "queue_list s xs \<Longrightarrow> x \<in> set xs \<Longrightarrow> x < length (fst s)"
  unfolding queue_list_def by (blast intro: chain_in_heap)

lemma fault_key_same_core: "same_core (fst s) (fst s') \<Longrightarrow> fault_key s' = fault_key s"
  by (rule ext) (auto simp: fault_key_def same_core_length intro: core_fields(1) same_core_nth)

lemma queue_insert_contract:
  assumes "queue_list s xs" "fault_fresh s f" "f \<notin> set xs"
  shows "\<exists>s'. queue_insert qid f s = Inr s' \<and> queue_list s' (place (fault_key s) f xs) \<and>
           fault_key s' = fault_key s \<and>
           (\<forall>y. y \<noteq> f \<longrightarrow> y \<notin> set xs \<longrightarrow> fault_fresh s' y = fault_fresh s y)"
proof -
  obtain h q where s: "s = (h, q)" by (cases s)
  have f: "f < length h" using assms(2) by (simp add: s fault_fresh_def unlinked_def)
  obtain s' where s': "queue_insert qid f s = Inr s'" "queue_list s' (place (timing_at h) f xs)"
      "ins_frame qid f xs s s'"
    using queue_insert_refines [of h q xs f qid] assms by (auto simp: s fault_fresh_def)
  have "place (timing_at h) f xs = place (fault_key s) f xs"
    using queue_list_in_heap [OF assms(1)] f by (intro place_cong) (auto simp: s fault_key_def)
  then show ?thesis
    using s' by (auto simp: ins_frame_def fault_key_same_core fault_fresh_def unlinked_def
        dest: same_core_length)
qed

lemma queue_remove_contract:
  assumes "queue_list s xs" "f \<in> set xs"
  shows "\<exists>s'. queue_remove f s = Inr s' \<and> queue_list s' (remove1 f xs) \<and>
           fault_key s' = fault_key s \<and> (\<forall>y. y \<notin> set xs \<longrightarrow> fault_fresh s' y = fault_fresh s y)"
proof -
  obtain h q where s: "s = (h, q)" by (cases s)
  obtain as bs where xs: "xs = as @ f # bs" "f \<notin> set as"
    using assms(2) by (metis split_list_first)
  obtain s' where s': "queue_remove f s = Inr s'" "queue_list s' (as @ bs)" "del_frame xs s s'"
    using queue_remove_refines [of h q as f bs] assms(1) xs by (auto simp: s)
  then show ?thesis
    using xs by (auto simp: del_frame_def fault_key_same_core fault_fresh_def unlinked_def
        remove1_append dest: same_core_length)
qed

interpretation fq: timed_queue queue_list fault_key fault_fresh "queue_insert qid" queue_remove
  for qid
proof unfold_locales
  show "queue_list s xs \<Longrightarrow> distinct xs" for s xs by (simp add: queue_list_def)
  show "queue_list s xs \<Longrightarrow> queue_list s ys \<Longrightarrow> xs = ys" for s xs ys by (rule queue_list_unique)
qed (rule queue_insert_contract queue_remove_contract; assumption)+

section \<open>Properties\<close>

text \<open>
  (C2) Inserting a fault whose links are NULL into a well-linked queue succeeds and puts it before
  the first fault whose timing is not smaller; the result is again well linked, the fault points to
  the queue, and no other object changes except for its links.
\<close>

theorem queue_insert_correct:
  assumes "queue_list s xs" "fault_fresh s f" "f \<notin> set xs"
  shows "\<exists>s'. queue_insert qid f s = Inr s' \<and> queue_list s' (place (fault_key s) f xs) \<and>
           f_queue (fst s' ! f) = Some qid \<and> map core (fst s') = map core (fst s) \<and>
           (\<forall>a. a \<noteq> f \<longrightarrow> a \<notin> set xs \<longrightarrow> fst s' ! a = fst s ! a)"
proof -
  obtain h q where s: "s = (h, q)" by (cases s)
  obtain s' where "queue_insert qid f s = Inr s'" "queue_list s' (place (fault_key s) f xs)"
    using fq.ins_ok [OF assms] by blast
  moreover obtain s'' where "queue_insert qid f s = Inr s''" "ins_frame qid f xs s s''"
    using queue_insert_refines [of h q xs f qid] assms by (auto simp: s fault_fresh_def)
  ultimately show ?thesis by (auto simp: ins_frame_def same_core_def)
qed

definition two_faults :: fault_heap where
  "two_faults = [zero_fault\<lparr>f_timing := 5\<rparr>, zero_fault\<lparr>f_timing := 3\<rparr>]"

theorem queue_insert_correct_witness:
  "\<exists>s'. queue_insert FetchQ 1 (two_faults, \<lparr>q_name = ''FetchStageFaultQueue'', q_head = Some 0, q_tail = Some 0\<rparr>)
          = Inr s' \<and> queue_list s' [1, 0]"
  using queue_insert_correct [of "(two_faults, \<lparr>q_name = ''FetchStageFaultQueue'', q_head = Some 0,
      q_tail = Some 0\<rparr>)" "[0]" 1 FetchQ]
  by (auto simp: queue_list_def two_faults_def fault_fresh_def unlinked_def zero_fault_def
      place_Cons fault_key_def)

text \<open>
  Starting from an empty queue, inserting any number of distinct unlinked faults in any order
  succeeds and leaves exactly these faults in the queue, in ascending order of their timing.
\<close>

lemma queue_insert_all_sorted:
  assumes "queue_list s []" "distinct fs" "\<forall>f\<in>set fs. fault_fresh s f"
  shows "\<exists>s' xs. foldE (queue_insert qid) fs s = Inr s' \<and> queue_list s' xs \<and> set xs = set fs \<and>
           length xs = length fs \<and> sorted (map (fault_key s') xs)"
proof -
  obtain s' where s': "foldE (queue_insert qid) fs s = Inr s'"
      "queue_list s' (fold (place (fault_key s)) fs [])" "fault_key s' = fault_key s"
    using fq.ins_all_ok [OF assms(1,2), where qid = qid] assms(3) by auto
  have "set (fold (place k) ys zs) = set ys \<union> set zs \<and>
      length (fold (place k) ys zs) = length ys + length zs" for k :: "nat \<Rightarrow> u64" and ys zs
    by (induction ys arbitrary: zs) auto
  with s' fq.fold_place_sorted [of "fault_key s" "[]" fs] show ?thesis by fastforce
qed

text \<open>
  (C7) Removal: on an empty queue nothing happens, a fault that is not in the queue fails the
  assertion, and a member is unlinked, the order of the others being kept and no other object
  changing except for its links.
\<close>

theorem queue_remove_correct:
  assumes "queue_list s xs"
  shows "(xs = [] \<longrightarrow> queue_remove f s = Inr s) \<and>
         (xs \<noteq> [] \<and> f \<notin> set xs \<longrightarrow> queue_remove f s = Inl AssertFail) \<and>
         (f \<in> set xs \<longrightarrow> (\<exists>s'. queue_remove f s = Inr s' \<and> queue_list s' (remove1 f xs) \<and>
            map core (fst s') = map core (fst s) \<and> (\<forall>a. a \<notin> set xs \<longrightarrow> fst s' ! a = fst s ! a)))"
proof (intro conjI impI)
  obtain h q where s: "s = (h, q)" by (cases s)
  have c: "chain h None xs None" and d: "distinct xs" and hq: "q_head q = first_ptr xs None"
    and tq: "q_tail q = last_ptr xs None"
    using assms by (auto simp: queue_list_def s)
  show "queue_remove f s = Inr s" if "xs = []"
    using that hq tq by (simp add: s queue_remove_def)
  show "queue_remove f s = Inl AssertFail" if "xs \<noteq> [] \<and> f \<notin> set xs"
    using that hq remove_walk_chain [OF c, of "Suc (length h)" f] chain_length [OF c d]
    by (simp add: s queue_remove_def del: remove_walk.simps)
  assume "f \<in> set xs"
  then obtain as bs where "xs = as @ f # bs" "f \<notin> set as" by (metis split_list_first)
  then show "\<exists>s'. queue_remove f s = Inr s' \<and> queue_list s' (remove1 f xs) \<and>
      map core (fst s') = map core (fst s) \<and> (\<forall>a. a \<notin> set xs \<longrightarrow> fst s' ! a = fst s ! a)"
    using queue_remove_refines [of h q as f bs] assms
    by (auto simp: s del_frame_def same_core_def remove1_append)
qed

theorem queue_remove_correct_witness:
  "queue_remove 1 (two_faults, \<lparr>q_name = ''MainFaultQueue'', q_head = Some 0, q_tail = Some 0\<rparr>)
     = Inl AssertFail"
  using queue_remove_correct [of "(two_faults, \<lparr>q_name = ''MainFaultQueue'', q_head = Some 0,
      q_tail = Some 0\<rparr>)" "[0]" 1]
  by (auto simp: queue_list_def two_faults_def zero_fault_def)

text \<open>
  The links of a new object are never initialised: appended at the end, a fault keeps the
  \<open>nxt\<close> that was in the raw memory, and the queue then ends in NULL only if that happened to be
  NULL.
\<close>

lemma queue_insert_end_keeps_nxt:
  assumes "queue_list (h, q) xs" "xs \<noteq> []" "f < length h" "f \<notin> set xs"
    and "\<forall>y\<in>set xs. f_timing (h ! y) < f_timing (h ! f)"
  shows "\<exists>h' q'. queue_insert qid f (h, q) = Inr (h', q') \<and> q_tail q' = Some f \<and>
           f_nxt (h' ! f) = f_nxt (h ! f) \<and>
           (queue_list (h', q') (xs @ [f]) \<longleftrightarrow> f_nxt (h ! f) = None)"
proof -
  obtain as a where xs: "xs = as @ [a]" using assms(2) by (metis rev_exhaust)
  have c: "chain h None xs None" and d: "distinct xs" and hq: "q_head q = first_ptr xs None"
    and tq: "q_tail q = Some a"
    using assms(1) by (auto simp: queue_list_def xs)
  have a: "a < length h" using chain_in_heap [OF c] xs by simp
  let ?h1 = "h[f := (h ! f)\<lparr>f_queue := Some qid\<rparr>]"
  have "dropWhile (\<lambda>y. timing_at ?h1 y < timing_at h f) xs = []"
    using assms(5) by simp
  then have w: "insert_walk (Suc (length h)) ?h1 (timing_at h f) (q_head q) = Inr None"
    using insert_walk_chain [of ?h1 None xs "Suc (length h)" "timing_at h f"] hq c assms(4)
      chain_length [OF c d] by simp
  have "queue_insert qid f (h, q) = Inr (?h1[a := (?h1 ! a)\<lparr>f_nxt := Some f\<rparr>,
      f := (?h1[a := (?h1 ! a)\<lparr>f_nxt := Some f\<rparr>] ! f)\<lparr>f_prv := Some a\<rparr>], q\<lparr>q_tail := Some f\<rparr>)"
    using w assms(3) a tq by (simp add: queue_insert_def queue_empty_def del: insert_walk.simps)
  then show ?thesis
    using c d a xs assms(3,4) hq
    by (auto simp: queue_list_def chain_append nth_list_update)
qed

end
