(* ===== verification/Alpha_Tlb.thy ===== *)
theory Alpha_Tlb
  imports FI_Prelude
begin

text \<open>
  The Alpha translation buffer, \<open>src/src/arch/alpha/tlb.cc\<close>, \<open>tlb.hh\<close> and \<open>pagetable.hh\<close>: a
  table of entries replaced round robin, a \<open>std::multimap\<close> from page numbers to table indices
  (here a list in key order, equal keys in insertion order), and three pointers to the most recently
  used entries. The lookup is proved against the table alone, whatever the multimap and the
  cache hold.
\<close>

section \<open>Virtual addresses and entries\<close>

definition PageShift :: nat where "PageShift = 13"
definition PageOffset :: u64 where "PageOffset = mask 13"
definition VAddr_ImplMask :: u64 where "VAddr_ImplMask = mask 43"

definition vpn :: "Addr \<Rightarrow> Addr" where
  "vpn a = drop_bit PageShift (a AND VAddr_ImplMask)"

definition page_offset :: "Addr \<Rightarrow> Addr" where
  "page_offset a = a AND PageOffset"

definition validVirtualAddress :: "Addr \<Rightarrow> bool" where
  "validVirtualAddress vaddr =
     (let unimplBits = vaddr AND NOT VAddr_ImplMask
      in unimplBits = 0 \<or> unimplBits = NOT VAddr_ImplMask)"

record TlbEntry =
  e_tag :: Addr
  e_ppn :: Addr
  e_xre :: u8
  e_xwe :: u8
  e_asn :: u8
  e_asma :: bool
  e_fonr :: bool
  e_fonw :: bool
  e_valid :: bool

text \<open>An entry that \<open>memset\<close> cleared, and the entry that maps an address to another.\<close>

definition zero_entry :: TlbEntry where
  "zero_entry = \<lparr>e_tag = 0, e_ppn = 0, e_xre = 0, e_xwe = 0, e_asn = 0, e_asma = False,
     e_fonr = False, e_fonw = False, e_valid = False\<rparr>"

definition TlbEntry_ctor :: "Addr \<Rightarrow> Addr \<Rightarrow> Addr \<Rightarrow> TlbEntry" where
  "TlbEntry_ctor asn vaddr paddr = \<lparr>e_tag = vpn vaddr, e_ppn = vpn paddr, e_xre = 15, e_xwe = 15,
     e_asn = ucast asn, e_asma = False, e_fonr = False, e_fonw = False, e_valid = True\<rparr>"

section \<open>The buffer\<close>

record TLB =
  lookupTable :: "(Addr \<times> nat) list"
  tlb_table :: "TlbEntry list"
  nlu :: nat
  EntryCache :: "ptr \<times> ptr \<times> ptr"

definition flushCache :: "TLB \<Rightarrow> TLB" where
  "flushCache t = t\<lparr>EntryCache := (None, None, None)\<rparr>"

definition TLB_ctor :: "nat \<Rightarrow> TLB" where
  "TLB_ctor n = \<lparr>lookupTable = [], tlb_table = replicate n zero_entry, nlu = 0,
     EntryCache = (None, None, None)\<rparr>"

definition nextnlu :: "TLB \<Rightarrow> TLB" where
  "nextnlu t = t\<lparr>nlu := (if length (tlb_table t) \<le> nlu t + 1 then 0 else nlu t + 1)\<rparr>"

definition updateCache :: "nat \<Rightarrow> TLB \<Rightarrow> TLB" where
  "updateCache i t = (case EntryCache t of (a, b, _) \<Rightarrow> t\<lparr>EntryCache := (Some i, a, b)\<rparr>)"

definition entry_matches :: "Addr \<Rightarrow> u8 \<Rightarrow> TlbEntry \<Rightarrow> bool" where
  "entry_matches v n e \<longleftrightarrow> v = e_tag e \<and> (e_asma e \<or> e_asn e = n)"

text \<open>
  The multimap: where \<open>find\<close> points (the end when the rest is empty), and \<open>insert\<close>. The standard lets \<open>find\<close> return
  any element with the key; the loops of the buffer go forward from there, so that they rely on the
  first one, which the implementation of the GNU library returns and the model follows.
\<close>

definition mm_before :: "Addr \<Rightarrow> (Addr \<times> nat) list \<Rightarrow> (Addr \<times> nat) list" where
  "mm_before k m = takeWhile (\<lambda>e. fst e \<noteq> k) m"

definition mm_find :: "Addr \<Rightarrow> (Addr \<times> nat) list \<Rightarrow> (Addr \<times> nat) list" where
  "mm_find k m = dropWhile (\<lambda>e. fst e \<noteq> k) m"

fun mm_insert :: "Addr \<Rightarrow> nat \<Rightarrow> (Addr \<times> nat) list \<Rightarrow> (Addr \<times> nat) list" where
  "mm_insert k i [] = [(k, i)]"
| "mm_insert k i ((k', i') # m) =
     (if k < k' then (k, i) # (k', i') # m else (k', i') # mm_insert k i m)"

section \<open>Lookup\<close>

definition cache_lookup :: "Addr \<Rightarrow> u8 \<Rightarrow> TLB \<Rightarrow> ptr res" where
  "cache_lookup v n t =
     (case EntryCache t of (c0, c1, c2) \<Rightarrow>
      case c0 of None \<Rightarrow> Inr None
      | Some _ \<Rightarrow> bindE (deref (tlb_table t) c0) (\<lambda>e0.
          if entry_matches v n e0 then Inr c0
          else case c1 of None \<Rightarrow> Inr None
          | Some _ \<Rightarrow> bindE (deref (tlb_table t) c1) (\<lambda>e1.
              if entry_matches v n e1 then Inr c1
              else case c2 of None \<Rightarrow> Inr None
              | Some _ \<Rightarrow> bindE (deref (tlb_table t) c2) (\<lambda>e2.
                  if entry_matches v n e2 then Inr c2 else Inr None))))"

text \<open>
  The loop \<open>while (i->first == vpn)\<close>; it never compares the iterator with \<open>end()\<close>, so stepping
  past the last element dereferences it.
\<close>

fun lookup_walk :: "Addr \<Rightarrow> u8 \<Rightarrow> TlbEntry list \<Rightarrow> (Addr \<times> nat) list \<Rightarrow> ptr res" where
  "lookup_walk v n tab [] = Inl Bad_pointer"
| "lookup_walk v n tab ((k, i) # m) =
     (if k = v then
        bindE (at tab i) (\<lambda>e. bindE (assertE (e_valid e)) (\<lambda>_.
          if entry_matches v n e then Inr (Some i) else lookup_walk v n tab m))
      else Inr None)"

definition tlb_lookup :: "Addr \<Rightarrow> u8 \<Rightarrow> TLB \<Rightarrow> (ptr \<times> TLB) res" where
  "tlb_lookup v n t =
     bindE (cache_lookup v n t) (\<lambda>r.
       case r of Some i \<Rightarrow> Inr (Some i, t)
       | None \<Rightarrow>
         if mm_find v (lookupTable t) = [] then Inr (None, t)
         else bindE (lookup_walk v n (tlb_table t) (mm_find v (lookupTable t))) (\<lambda>r.
                case r of None \<Rightarrow> Inr (None, t) | Some i \<Rightarrow> Inr (Some i, updateCache i t)))"

section \<open>Insertion and invalidation\<close>

text \<open>The search for the multimap element of the entry to be replaced, and its removal.\<close>

fun erase_walk :: "nat \<Rightarrow> Addr \<Rightarrow> TlbEntry list \<Rightarrow> (Addr \<times> nat) list \<Rightarrow> (Addr \<times> nat) list res" where
  "erase_walk n oldvpn tab [] = Inl Bad_pointer"
| "erase_walk n oldvpn tab ((k, i) # m) =
     (if i = n then Inr m
      else bindE (at tab i) (\<lambda>e.
        if e_tag e \<noteq> oldvpn then Inl Panic
        else bindE (erase_walk n oldvpn tab m) (\<lambda>m'. Inr ((k, i) # m'))))"

definition tlb_insert :: "Addr \<Rightarrow> TlbEntry \<Rightarrow> TLB \<Rightarrow> TLB res" where
  "tlb_insert addr entry t0 =
     (let t = flushCache t0
      in bindE (at (tlb_table t) (nlu t)) (\<lambda>old.
         bindE (if e_valid old then
                  (if mm_find (e_tag old) (lookupTable t) = [] then Inl Panic
                   else bindE (erase_walk (nlu t) (e_tag old) (tlb_table t)
                                 (mm_find (e_tag old) (lookupTable t)))
                          (\<lambda>m. Inr (mm_before (e_tag old) (lookupTable t) @ m)))
                else Inr (lookupTable t)) (\<lambda>m.
         Inr (nextnlu (t\<lparr>tlb_table := (tlb_table t)[nlu t := entry\<lparr>e_tag := vpn addr, e_valid := True\<rparr>],
                         lookupTable := mm_insert (vpn addr) (nlu t) m\<rparr>)))))"

definition tlb_flushAll :: "TLB \<Rightarrow> TLB" where
  "tlb_flushAll t = flushCache (t\<lparr>tlb_table := replicate (length (tlb_table t)) zero_entry,
     lookupTable := [], nlu := 0\<rparr>)"

text \<open>
  The two loops that erase while they walk return what is left of the multimap and the table
  with the erased entries marked invalid.
\<close>

fun flush_processes_walk ::
  "(Addr \<times> nat) list \<Rightarrow> TlbEntry list \<Rightarrow> ((Addr \<times> nat) list \<times> TlbEntry list) res" where
  "flush_processes_walk [] tab = Inr ([], tab)"
| "flush_processes_walk ((k, i) # m) tab =
     bindE (at tab i) (\<lambda>e. bindE (assertE (e_valid e)) (\<lambda>_.
       if \<not> e_asma e then flush_processes_walk m (tab[i := e\<lparr>e_valid := False\<rparr>])
       else bindE (flush_processes_walk m tab) (\<lambda>(m', tab'). Inr ((k, i) # m', tab'))))"

definition tlb_flushProcesses :: "TLB \<Rightarrow> TLB res" where
  "tlb_flushProcesses t =
     bindE (flush_processes_walk (lookupTable t) (tlb_table t)) (\<lambda>(m, tab).
       Inr (flushCache (t\<lparr>lookupTable := m, tlb_table := tab\<rparr>)))"

fun flush_addr_walk ::
  "Addr \<Rightarrow> u8 \<Rightarrow> (Addr \<times> nat) list \<Rightarrow> TlbEntry list \<Rightarrow> ((Addr \<times> nat) list \<times> TlbEntry list) res" where
  "flush_addr_walk v n [] tab = Inr ([], tab)"
| "flush_addr_walk v n ((k, i) # m) tab =
     (if k \<noteq> v then Inr ((k, i) # m, tab)
      else bindE (at tab i) (\<lambda>e. bindE (assertE (e_valid e)) (\<lambda>_.
        if entry_matches v n e then flush_addr_walk v n m (tab[i := e\<lparr>e_valid := False\<rparr>])
        else bindE (flush_addr_walk v n m tab) (\<lambda>(m', tab'). Inr ((k, i) # m', tab')))))"

definition tlb_flushAddr :: "Addr \<Rightarrow> u8 \<Rightarrow> TLB \<Rightarrow> TLB res" where
  "tlb_flushAddr addr n t =
     bindE (flush_addr_walk (vpn addr) n (mm_find (vpn addr) (lookupTable t)) (tlb_table t))
       (\<lambda>(m, tab). Inr (flushCache
          (t\<lparr>lookupTable := mm_before (vpn addr) (lookupTable t) @ m, tlb_table := tab\<rparr>)))"

definition tlb_demapPage :: "Addr \<Rightarrow> u64 \<Rightarrow> TLB \<Rightarrow> TLB res" where
  "tlb_demapPage vaddr n t =
     bindE (assertE (n < 2 ^ 8)) (\<lambda>_. tlb_flushAddr vaddr (ucast n) t)"

definition tlb_index :: "bool \<Rightarrow> TLB \<Rightarrow> (TlbEntry \<times> TLB) res" where
  "tlb_index advance t =
     bindE (at (tlb_table t) (nlu t)) (\<lambda>e. Inr (e, if advance then nextnlu t else t))"

section \<open>Invariant\<close>

text \<open>
  The multimap lists exactly the valid entries, each under its tag and once, in key order; the
  cached pointers point to valid entries; the replacement index is inside the table.
\<close>

definition tab_inv :: "(Addr \<times> nat) list \<Rightarrow> TlbEntry list \<Rightarrow> bool" where
  "tab_inv m tab \<longleftrightarrow> sorted (map fst m) \<and> distinct (map snd m) \<and>
     (\<forall>k i. (k, i) \<in> set m \<longleftrightarrow> i < length tab \<and> e_valid (tab ! i) \<and> k = e_tag (tab ! i))"

definition tlb_inv :: "TLB \<Rightarrow> bool" where
  "tlb_inv t \<longleftrightarrow> nlu t < length (tlb_table t) \<and> tab_inv (lookupTable t) (tlb_table t) \<and>
     (case EntryCache t of (a, b, c) \<Rightarrow>
        \<forall>i. Some i \<in> {a, b, c} \<longrightarrow> i < length (tlb_table t) \<and> e_valid (tlb_table t ! i))"

text \<open>What the table alone says: index \<open>i\<close> holds a valid entry for the page and space.\<close>

definition tlb_holds :: "TLB \<Rightarrow> Addr \<Rightarrow> u8 \<Rightarrow> nat \<Rightarrow> bool" where
  "tlb_holds t v n i \<longleftrightarrow> i < length (tlb_table t) \<and> e_valid (tlb_table t ! i) \<and>
     entry_matches v n (tlb_table t ! i)"

text \<open>The page is held, for some space, and no valid entry has a larger page number.\<close>

definition tlb_last_page :: "TLB \<Rightarrow> Addr \<Rightarrow> bool" where
  "tlb_last_page t v \<longleftrightarrow>
     list_ex (\<lambda>e. e_valid e \<and> e_tag e = v) (tlb_table t) \<and>
     list_all (\<lambda>e. e_valid e \<longrightarrow> e_tag e \<le> v) (tlb_table t)"

subsection \<open>The multimap\<close>

lemma mm_before_find: "mm_before v m @ mm_find v m = m"
  by (simp add: mm_before_def mm_find_def)

lemma mm_split:
  assumes "sorted (map fst m)"
  obtains eqs aft where "mm_find v m = eqs @ aft" "\<forall>e\<in>set eqs. fst e = v" "\<forall>e\<in>set aft. v < fst e"
    "\<forall>e\<in>set (mm_before v m). fst e \<noteq> v" "eqs = [] \<Longrightarrow> aft = []"
proof -
  let ?f = "mm_find v m"
  let ?eqs = "takeWhile (\<lambda>e. fst e = v) ?f" and ?aft = "dropWhile (\<lambda>e. fst e = v) ?f"
  have sorted: "sorted (map fst ?f)"
    using assms mm_before_find [of v m] by (metis map_append sorted_append)
  have hd: "?f \<noteq> [] \<Longrightarrow> fst (hd ?f) = v"
    using hd_dropWhile [of "\<lambda>e. fst e \<noteq> v" m] by (simp add: mm_find_def)
  have aft: "v < fst e" if e: "e \<in> set ?aft" for e
  proof -
    have "?aft \<noteq> []" using e by (metis empty_iff empty_set)
    then have ne: "fst (hd ?aft) \<noteq> v" by (rule hd_dropWhile)
    have "?f \<noteq> []" using \<open>?aft \<noteq> []\<close> by auto
    with hd have v: "fst (hd ?f) = v" by simp
    have s2: "sorted (map fst ?aft)"
      using sorted by (metis map_append sorted_append takeWhile_dropWhile_id)
    have "\<forall>x\<in>set ?f. v \<le> fst x"
      using sorted v \<open>?f \<noteq> []\<close> by (cases ?f) auto
    then have "v \<le> fst (hd ?aft)"
      using \<open>?aft \<noteq> []\<close> by (meson hd_in_set set_dropWhileD)
    moreover have "fst (hd ?aft) \<le> fst e"
      using s2 e by (cases ?aft) auto
    ultimately show ?thesis using ne by simp
  qed
  have nil: "?aft = []" if "?eqs = []"
  proof (cases "mm_find v m")
    case (Cons e es)
    then show ?thesis using that hd by simp
  qed simp
  have eqs: "\<forall>e\<in>set ?eqs. fst e = v" by (auto dest: set_takeWhileD)
  have before: "\<forall>e\<in>set (mm_before v m). fst e \<noteq> v"
    unfolding mm_before_def by (auto dest: set_takeWhileD)
  show thesis
  proof (rule that)
    show "?f = ?eqs @ ?aft" by (rule takeWhile_dropWhile_id [symmetric])
    show "\<forall>e\<in>set ?aft. v < fst e" using aft by (rule ballI)
  qed (rule eqs before nil, assumption?)+
qed

lemma set_mm_insert: "set (mm_insert k i m) = insert (k, i) (set m)"
  by (induction m rule: mm_insert.induct [where ?a0.0 = k and ?a1.0 = i]) auto

lemma mm_insert_props:
  "sorted (map fst m) \<Longrightarrow> sorted (map fst (mm_insert k i m))"
  "i \<notin> snd ` set m \<Longrightarrow> distinct (map snd m) \<Longrightarrow> distinct (map snd (mm_insert k i m))"
  by (induction k i m rule: mm_insert.induct) (auto simp: set_mm_insert)

subsection \<open>Lookup\<close>

lemma lookup_walk_eqs:
  assumes "\<forall>e\<in>set eqs. fst e = v \<and> snd e < length tab \<and> e_valid (tab ! snd e)"
  shows "lookup_walk v n tab (eqs @ aft) =
    (case find (\<lambda>e. entry_matches v n (tab ! snd e)) eqs of
       Some e \<Rightarrow> Inr (Some (snd e)) | None \<Rightarrow> lookup_walk v n tab aft)"
  using assms by (induction eqs) auto

lemma cache_lookup_sound:
  assumes "tlb_inv t"
  shows "\<exists>r. cache_lookup v n t = Inr r \<and> (\<forall>i. r = Some i \<longrightarrow> tlb_holds t v n i)"
  using assms by (auto simp: tlb_inv_def cache_lookup_def tlb_holds_def split: prod.splits option.splits)

lemma lookup_walk_none:
  assumes "\<forall>e\<in>set aft. v < fst e"
  shows "lookup_walk v n tab aft = (if aft = [] then Inl Bad_pointer else Inr None)"
  using assms by (cases aft) auto

lemma updateCache_inv:
  "tlb_inv t \<Longrightarrow> tlb_holds t v n i \<Longrightarrow> tlb_inv (updateCache i t)"
  by (auto simp: tlb_inv_def updateCache_def tlb_holds_def split: prod.splits)

lemma updateCache_frame [simp]:
  "tlb_table (updateCache i t) = tlb_table t" "lookupTable (updateCache i t) = lookupTable t"
  "nlu (updateCache i t) = nlu t"
  by (auto simp: updateCache_def split: prod.splits)

lemma tlb_last_page_keys:
  assumes "tab_inv (lookupTable t) (tlb_table t)"
  shows "tlb_last_page t v \<longleftrightarrow> v \<in> fst ` set (lookupTable t) \<and> (\<forall>e\<in>set (lookupTable t). fst e \<le> v)"
proof -
  let ?ok = "\<lambda>i. i < length (tlb_table t) \<and> e_valid (tlb_table t ! i)"
  have m: "(k, i) \<in> set (lookupTable t) \<longleftrightarrow> ?ok i \<and> k = e_tag (tlb_table t ! i)" for k i
    using assms unfolding tab_inv_def by blast
  have "v \<in> fst ` set (lookupTable t) \<longleftrightarrow> (\<exists>i. (v, i) \<in> set (lookupTable t))" by force
  moreover have "(\<forall>e\<in>set (lookupTable t). fst e \<le> v) \<longleftrightarrow>
      (\<forall>k i. (k, i) \<in> set (lookupTable t) \<longrightarrow> k \<le> v)" by force
  moreover have "tlb_last_page t v \<longleftrightarrow> (\<exists>i. ?ok i \<and> e_tag (tlb_table t ! i) = v) \<and>
      (\<forall>i. ?ok i \<longrightarrow> e_tag (tlb_table t ! i) \<le> v)"
    unfolding tlb_last_page_def list_ex_length list_all_length by blast
  ultimately show ?thesis unfolding m by auto
qed

lemma tlb_lookup_walks:
  assumes inv: "tlb_inv t" and miss: "cache_lookup v n t = Inr None"
  shows "(\<exists>i. tlb_holds t v n i \<and> tlb_lookup v n t = Inr (Some i, updateCache i t)) \<or>
    (\<forall>i. \<not> tlb_holds t v n i) \<and>
      tlb_lookup v n t = (if tlb_last_page t v then Inl Bad_pointer else Inr (None, t))"
proof -
  let ?m = "lookupTable t" and ?tab = "tlb_table t"
  have tab: "tab_inv ?m ?tab" using inv by (simp add: tlb_inv_def)
  then obtain eqs aft where s: "mm_find v ?m = eqs @ aft" "\<forall>e\<in>set eqs. fst e = v"
      "\<forall>e\<in>set aft. v < fst e" "\<forall>e\<in>set (mm_before v ?m). fst e \<noteq> v" "eqs = [] \<Longrightarrow> aft = []"
    using mm_split [of ?m v] by (auto simp: tab_inv_def)
  have m: "?m = mm_before v ?m @ eqs @ aft" using mm_before_find [of v ?m] s(1) by simp
  have ok: "\<forall>e\<in>set eqs. fst e = v \<and> snd e < length ?tab \<and> e_valid (?tab ! snd e)"
    using tab s(2) m by (auto simp: tab_inv_def) (metis Un_iff prod.collapse set_append)+
  have in_eqs: "(v, i) \<in> set eqs" if "tlb_holds t v n i" for i
  proof -
    have "(v, i) \<in> set ?m" using tab that by (auto simp: tab_inv_def tlb_holds_def entry_matches_def)
    then have "(v, i) \<in> set (mm_before v ?m) \<union> set eqs \<union> set aft" using m by (metis Un_assoc set_append)
    then show ?thesis using s(3,4) by auto
  qed
  show ?thesis
  proof (cases "find (\<lambda>e. entry_matches v n (?tab ! snd e)) eqs")
    case (Some e)
    then have "e \<in> set eqs" "entry_matches v n (?tab ! snd e)" by (auto simp: find_Some_iff)
    then have "tlb_holds t v n (snd e)" using ok by (simp add: tlb_holds_def)
    moreover have "tlb_lookup v n t = Inr (Some (snd e), updateCache (snd e) t)"
      using miss s(1) Some lookup_walk_eqs [OF ok, of n aft] \<open>e \<in> set eqs\<close> by (auto simp: tlb_lookup_def)
    ultimately show ?thesis by blast
  next
    case None
    then have no: "\<not> tlb_holds t v n i" for i
      using in_eqs [of i] by (force simp: find_None_iff tlb_holds_def)
    have "tlb_last_page t v \<longleftrightarrow> eqs \<noteq> [] \<and> aft = []"
    proof -
      have "v \<in> fst ` set ?m \<longleftrightarrow> eqs \<noteq> []"
      proof
        assume "v \<in> fst ` set ?m"
        then have "v \<in> fst ` set (mm_before v ?m @ eqs @ aft)" using m by simp
        then show "eqs \<noteq> []" using s(3,4) by (auto simp: image_iff)
      next
        assume "eqs \<noteq> []"
        then have "hd eqs \<in> set (mm_before v ?m @ eqs @ aft)" "fst (hd eqs) = v" using s(2) by auto
        then show "v \<in> fst ` set ?m" using m by (metis image_eqI)
      qed
      moreover have "(\<forall>e\<in>set ?m. fst e \<le> v) \<longleftrightarrow> aft = []" if "eqs \<noteq> []"
      proof -
        have "sorted (map fst (mm_before v ?m @ eqs @ aft))" using tab m by (simp add: tab_inv_def)
        then have "\<forall>e\<in>set (mm_before v ?m). fst e \<le> v"
          using that s(2) by (cases eqs) (auto simp: sorted_append)
        then have "(\<forall>e\<in>set (mm_before v ?m @ eqs @ aft). fst e \<le> v) \<longleftrightarrow> (\<forall>e\<in>set aft. fst e \<le> v)"
          using s(2) by auto
        also have "\<dots> \<longleftrightarrow> aft = []" using s(3) by (cases aft) auto
        finally show ?thesis using m by simp
      qed
      ultimately show ?thesis using tlb_last_page_keys [OF tab, of v] by blast
    qed
    then have "tlb_lookup v n t = (if tlb_last_page t v then Inl Bad_pointer else Inr (None, t))"
      using miss s(1,5) None lookup_walk_eqs [OF ok, of n aft] lookup_walk_none [OF s(3), of n ?tab]
      by (auto simp: tlb_lookup_def)
    then show ?thesis using no by blast
  qed
qed

lemma tlb_lookup_spec:
  assumes "tlb_inv t"
  shows "if \<exists>i. tlb_holds t v n i
    then \<exists>i t'. tlb_lookup v n t = Inr (Some i, t') \<and> tlb_holds t v n i \<and> tlb_inv t' \<and>
           tlb_table t' = tlb_table t \<and> lookupTable t' = lookupTable t \<and> nlu t' = nlu t
    else tlb_lookup v n t = (if tlb_last_page t v then Inl Bad_pointer else Inr (None, t))"
proof -
  obtain r where r: "cache_lookup v n t = Inr r" "\<And>i. r = Some i \<Longrightarrow> tlb_holds t v n i"
    using cache_lookup_sound [OF assms] by blast
  show ?thesis
  proof (cases r)
    case (Some i)
    then have "tlb_lookup v n t = Inr (Some i, t)" "tlb_holds t v n i"
      using r by (simp_all add: tlb_lookup_def)
    then show ?thesis using assms by auto
  next
    case None
    then show ?thesis
      using tlb_lookup_walks [OF assms] r updateCache_inv [OF assms]
      by (metis updateCache_frame)
  qed
qed


text \<open>
  (C31) On a buffer that satisfies its invariant, a lookup finds a valid entry for the page and address
  space whenever the table holds one, and leaves table, multimap and invariant as they were;
  otherwise it reports a miss, except when the page is the last key of the multimap (held for other
  address spaces only): then the loop dereferences the end iterator.
\<close>

theorem tlb_lookup_correct:
  assumes "tlb_inv t"
  shows "if \<exists>i. tlb_holds t v n i
    then \<exists>i t'. tlb_lookup v n t = Inr (Some i, t') \<and> tlb_holds t v n i \<and> tlb_inv t' \<and>
           tlb_table t' = tlb_table t \<and> lookupTable t' = lookupTable t \<and> nlu t' = nlu t
    else tlb_lookup v n t = (if tlb_last_page t v then Inl Bad_pointer else Inr (None, t))"
  by (rule tlb_lookup_spec [OF assms])
definition tlb_sample :: TLB where
  "tlb_sample = \<lparr>lookupTable = [(5, 1)], tlb_table = [zero_entry, TlbEntry_ctor 9 0xA000 0x4000],
     nlu = 0, EntryCache = (None, None, None)\<rparr>"

lemma tlb_sample_inv: "tlb_inv tlb_sample"
proof -
  have "(k, i) = (5, 1) \<longleftrightarrow> i < 2 \<and> e_valid ([zero_entry, TlbEntry_ctor 9 0xA000 0x4000] ! i) \<and>
      k = e_tag ([zero_entry, TlbEntry_ctor 9 0xA000 0x4000] ! i)" for k i
    by (cases "i = 0 \<or> i = 1") (auto simp: zero_entry_def TlbEntry_ctor_def vpn_def
        VAddr_ImplMask_def PageShift_def mask_eq_exp_minus_1)
  then show ?thesis by (simp add: tlb_inv_def tlb_sample_def tab_inv_def numeral_2_eq_2)
qed

theorem tlb_lookup_correct_witness:
  "tlb_lookup 5 9 tlb_sample = Inr (Some 1, updateCache 1 tlb_sample) \<and>
   tlb_lookup 5 8 tlb_sample = Inl Bad_pointer \<and> tlb_lookup 4 9 tlb_sample = Inr (None, tlb_sample)"
  (is "?a \<and> ?b \<and> ?c")
proof -
  have v: "vpn 0xA000 = 5"
    by (simp add: vpn_def VAddr_ImplMask_def PageShift_def mask_eq_exp_minus_1)
  have "?a"
    using v by (simp add: tlb_lookup_def cache_lookup_def tlb_sample_def mm_find_def entry_matches_def
        TlbEntry_ctor_def)
  moreover have h: "\<not> tlb_holds tlb_sample w m i" if "w \<noteq> 5 \<or> m \<noteq> 9" for w m i
    using that v by (cases "i = 0 \<or> i = 1")
      (auto simp: tlb_holds_def tlb_sample_def entry_matches_def zero_entry_def TlbEntry_ctor_def)
  have "?b" "?c"
    using tlb_lookup_correct [OF tlb_sample_inv, of 5 8] tlb_lookup_correct [OF tlb_sample_inv, of 4 9] h v
    by (auto simp: tlb_last_page_def tlb_sample_def zero_entry_def TlbEntry_ctor_def)
  ultimately show ?thesis by simp
qed

subsection \<open>Insertion\<close>

lemma erase_walk_eqs:
  assumes "\<forall>e\<in>set eqs. fst e = w \<and> snd e < length tab \<and> e_tag (tab ! snd e) = w"
    and "n \<in> snd ` set eqs" and "distinct (map snd (eqs @ aft))"
  shows "erase_walk n w tab (eqs @ aft) = Inr (filter (\<lambda>e. snd e \<noteq> n) (eqs @ aft))"
  using assms
proof (induction eqs)
  case Nil
  then show ?case by simp
next
  case (Cons e eqs)
  obtain k i where e: "e = (k, i)" by (cases e)
  show ?case
  proof (cases "i = n")
    case True
    then have "\<forall>x\<in>set (eqs @ aft). snd x \<noteq> n" using Cons.prems(3) e by force
    then have "filter (\<lambda>e. snd e \<noteq> n) (eqs @ aft) = eqs @ aft" by (intro filter_True)
    then show ?thesis using True e by simp
  next
    case False
    then have "erase_walk n w tab (eqs @ aft) = Inr (filter (\<lambda>e. snd e \<noteq> n) (eqs @ aft))"
      using Cons e by auto
    then show ?thesis using False Cons.prems(1) e by simp
  qed
qed

lemma tab_inv_key:
  "tab_inv m tab \<Longrightarrow> e \<in> set m \<Longrightarrow> snd e < length tab \<and> e_valid (tab ! snd e) \<and> fst e = e_tag (tab ! snd e)"
  by (cases e) (auto simp: tab_inv_def)

lemma erase_valid:
  assumes tab: "tab_inv m tab" and n: "n < length tab" "e_valid (tab ! n)"
  defines "w \<equiv> e_tag (tab ! n)"
  shows "mm_find w m \<noteq> []"
    "\<exists>m'. erase_walk n w tab (mm_find w m) = Inr m' \<and>
       mm_before w m @ m' = filter (\<lambda>e. snd e \<noteq> n) m"
proof -
  obtain eqs aft where s: "mm_find w m = eqs @ aft" "\<forall>e\<in>set eqs. fst e = w"
      "\<forall>e\<in>set aft. w < fst e" "\<forall>e\<in>set (mm_before w m). fst e \<noteq> w" "eqs = [] \<Longrightarrow> aft = []"
    using tab mm_split [of m w] by (auto simp: tab_inv_def)
  have m: "m = mm_before w m @ eqs @ aft" using mm_before_find [of w m] s(1) by simp
  have "(w, n) \<in> set m" using tab n unfolding tab_inv_def w_def by simp
  then have "(w, n) \<in> set (mm_before w m @ eqs @ aft)" using m by simp
  then have wn: "(w, n) \<in> set eqs" using s(3,4) by auto
  then show "mm_find w m \<noteq> []" using s(1) by auto
  have "distinct (map snd (mm_before w m @ eqs @ aft))" using tab m by (simp add: tab_inv_def)
  then have d: "distinct (map snd (eqs @ aft))"
    and disj: "snd ` set (mm_before w m) \<inter> snd ` set eqs = {}"
    unfolding map_append distinct_append set_append set_map Int_Un_distrib by auto
  have n_before: "n \<notin> snd ` set (mm_before w m)" using disj image_eqI [OF _ wn, of n snd] by auto
  have "\<forall>e\<in>set eqs. fst e = w \<and> snd e < length tab \<and> e_tag (tab ! snd e) = w"
    using s(2) tab_inv_key [OF tab] m by (metis Un_iff set_append)
  then have e: "erase_walk n w tab (eqs @ aft) = Inr (filter (\<lambda>e. snd e \<noteq> n) (eqs @ aft))"
    using image_eqI [OF _ wn, of n snd] d by (intro erase_walk_eqs) auto
  have "filter (\<lambda>e. snd e \<noteq> n) (mm_before w m) = mm_before w m"
    using n_before by (intro filter_True) (auto simp: image_iff)
  then have "mm_before w m @ filter (\<lambda>e. snd e \<noteq> n) (eqs @ aft) =
      filter (\<lambda>e. snd e \<noteq> n) (mm_before w m @ eqs @ aft)" by simp
  then show "\<exists>m'. erase_walk n w tab (mm_find w m) = Inr m' \<and> mm_before w m @ m' = filter (\<lambda>e. snd e \<noteq> n) m"
    using e s(1) m by auto
qed

lemma tab_inv_replace:
  assumes "tab_inv m tab" and n: "n < length tab" and "e_valid e" "w = e_tag e"
  shows "tab_inv (mm_insert w n (filter (\<lambda>e. snd e \<noteq> n) m)) (tab[n := e])"
proof -
  let ?f = "filter (\<lambda>e. snd e \<noteq> n) m"
  have m: "(k, i) \<in> set m \<longleftrightarrow> i < length tab \<and> e_valid (tab ! i) \<and> k = e_tag (tab ! i)" for k i
    using assms(1) unfolding tab_inv_def by blast
  have "sorted (map fst ?f)" "distinct (map snd ?f)"
    using assms(1) by (auto simp: tab_inv_def sorted_filter distinct_map_filter)
  then have "sorted (map fst (mm_insert w n ?f))" "distinct (map snd (mm_insert w n ?f))"
    by (auto intro: mm_insert_props)
  moreover have "(k, i) \<in> set (mm_insert w n ?f) \<longleftrightarrow>
      i < length (tab[n := e]) \<and> e_valid (tab[n := e] ! i) \<and> k = e_tag (tab[n := e] ! i)" for k i
    using assms(2-4) by (cases "i = n") (auto simp: set_mm_insert m)
  ultimately show ?thesis by (simp add: tab_inv_def)
qed

lemma tlb_inv_flushed:
  assumes "n < length tab" "tab_inv m tab"
  shows "tlb_inv (flushCache (t\<lparr>nlu := n, lookupTable := m, tlb_table := tab\<rparr>))"
  using assms by (simp add: tlb_inv_def flushCache_def)

lemma tab_inv_no_entry:
  assumes "tab_inv m tab" and "\<not> e_valid (tab ! n)"
  shows "filter (\<lambda>e. snd e \<noteq> n) m = m"
  using assms tab_inv_key [OF assms(1)] by (intro filter_True) auto

lemma tlb_insert_spec:
  assumes "tlb_inv t"
  shows "\<exists>t'. tlb_insert addr e t = Inr t' \<and> tlb_inv t' \<and>
    length (tlb_table t') = length (tlb_table t) \<and> nlu t' = (nlu t + 1) mod length (tlb_table t) \<and>
    (\<forall>v n i. tlb_holds t' v n i \<longleftrightarrow>
       (if i = nlu t then v = vpn addr \<and> (e_asma e \<or> e_asn e = n) else tlb_holds t v n i))"
proof -
  let ?n = "nlu t" and ?tab = "tlb_table t" and ?m = "lookupTable t"
  let ?e = "e\<lparr>e_tag := vpn addr, e_valid := True\<rparr>"
  let ?f = "filter (\<lambda>e. snd e \<noteq> ?n) ?m"
  let ?t' = "nextnlu (flushCache t\<lparr>tlb_table := ?tab[?n := ?e],
     lookupTable := mm_insert (vpn addr) ?n ?f\<rparr>)"
  have n: "?n < length ?tab" and tab: "tab_inv ?m ?tab" using assms by (auto simp: tlb_inv_def)
  have "tlb_insert addr e t = Inr ?t'"
    using n erase_valid [OF tab n] tab_inv_no_entry [OF tab, of ?n]
    by (cases "e_valid (?tab ! ?n)") (auto simp: tlb_insert_def flushCache_def)
  moreover have "tlb_inv ?t'"
  proof -
    have "tab_inv (mm_insert (vpn addr) ?n ?f) (?tab[?n := ?e])"
      using n by (intro tab_inv_replace [OF tab]) auto
    then show ?thesis using n by (auto simp: tlb_inv_def nextnlu_def flushCache_def)
  qed
  moreover have "nlu ?t' = (?n + 1) mod length ?tab"
    using n by (cases "Suc ?n = length ?tab") (auto simp: nextnlu_def flushCache_def)
  moreover have "tlb_holds ?t' v k i \<longleftrightarrow>
      (if i = ?n then v = vpn addr \<and> (e_asma e \<or> e_asn e = k) else tlb_holds t v k i)" for v k i
    using n by (auto simp: tlb_holds_def nextnlu_def flushCache_def entry_matches_def)
  ultimately show ?thesis by (intro exI [of _ ?t']) (auto simp: nextnlu_def flushCache_def)
qed


text \<open>
  Inserting an entry never panics on a buffer that satisfies its invariant: the entry replaces the one at
  the replacement index under the page of the address, every other entry stays, the replacement
  index moves on round robin and the invariant holds again. So the page just inserted is found.
\<close>

lemma tlb_insert_correct:
  assumes "tlb_inv t"
  shows "\<exists>t'. tlb_insert addr e t = Inr t' \<and> tlb_inv t' \<and>
    length (tlb_table t') = length (tlb_table t) \<and> nlu t' = (nlu t + 1) mod length (tlb_table t) \<and>
    (\<forall>v n i. tlb_holds t' v n i \<longleftrightarrow>
       (if i = nlu t then v = vpn addr \<and> (e_asma e \<or> e_asn e = n) else tlb_holds t v n i))"
  by (rule tlb_insert_spec [OF assms])
subsection \<open>Invalidation\<close>

text \<open>Marking as invalid the entries of a set of indices that satisfy a predicate.\<close>

definition inval :: "(TlbEntry \<Rightarrow> bool) \<Rightarrow> nat set \<Rightarrow> TlbEntry list \<Rightarrow> TlbEntry list" where
  "inval P I tab = map (\<lambda>j. if j \<in> I \<and> P (tab ! j) then (tab ! j)\<lparr>e_valid := False\<rparr> else tab ! j)
     [0..<length tab]"

lemma inval_props [simp]:
  "length (inval P I tab) = length tab"
  "j < length tab \<Longrightarrow> inval P I tab ! j =
     (if j \<in> I \<and> P (tab ! j) then (tab ! j)\<lparr>e_valid := False\<rparr> else tab ! j)"
  by (simp_all add: inval_def)

lemma inval_step:
  assumes "i < length tab" "P (tab ! i)" "i \<notin> I"
  shows "inval P I (tab[i := (tab ! i)\<lparr>e_valid := False\<rparr>]) = inval P (insert i I) tab"
  using assms by (intro nth_equalityI) (auto simp: nth_list_update)

lemma inval_skip: "\<not> P (tab ! i) \<Longrightarrow> inval P (insert i I) tab = inval P I tab"
  by (auto simp: inval_def)

lemma inval_empty: "inval P {} tab = tab"
  by (intro nth_equalityI) auto

text \<open>The elements of a piece of the multimap that a walk keeps.\<close>

abbreviation kept :: "(TlbEntry \<Rightarrow> bool) \<Rightarrow> TlbEntry list \<Rightarrow> (Addr \<times> nat) list \<Rightarrow> (Addr \<times> nat) list" where
  "kept P tab m \<equiv> filter (\<lambda>e. \<not> P (tab ! snd e)) m"

lemma kept_update:
  "i \<notin> snd ` set m \<Longrightarrow> kept P (tab[i := e]) m = kept P tab m"
  by (intro filter_cong refl) (metis image_eqI nth_list_update_neq)

lemma flush_processes_walk_eq:
  assumes "distinct (map snd m)" "\<forall>e\<in>set m. snd e < length tab \<and> e_valid (tab ! snd e)"
  shows "flush_processes_walk m tab =
    Inr (kept (\<lambda>e. \<not> e_asma e) tab m, inval (\<lambda>e. \<not> e_asma e) (snd ` set m) tab)"
  using assms
proof (induction m arbitrary: tab)
  case Nil
  then show ?case by (simp add: inval_empty)
next
  case (Cons e m)
  obtain k i where e: "e = (k, i)" by (cases e)
  have i: "i < length tab" "e_valid (tab ! i)" "i \<notin> snd ` set m" using Cons.prems by (auto simp: e)
  have "\<forall>x\<in>set m. snd x < length (tab[i := v]) \<and> e_valid (tab[i := v] ! snd x)" for v
    using Cons.prems(2) i(3) by (metis image_eqI length_list_update list.set_intros(2) nth_list_update_neq)
  with Cons have IH: "flush_processes_walk m (tab[i := v]) =
      Inr (kept (\<lambda>e. \<not> e_asma e) (tab[i := v]) m, inval (\<lambda>e. \<not> e_asma e) (snd ` set m) (tab[i := v]))" for v
    by simp
  show ?case
    using IH [of "(tab ! i)\<lparr>e_valid := False\<rparr>"] IH [of "tab ! i"] i
    by (auto simp: e kept_update [where P = "\<lambda>e. \<not> e_asma e", simplified] inval_step inval_skip)
qed

lemma flush_addr_walk_eqs:
  assumes "distinct (map snd eqs)"
    "\<forall>e\<in>set eqs. fst e = v \<and> snd e < length tab \<and> e_valid (tab ! snd e)" "\<forall>e\<in>set aft. v < fst e"
  shows "flush_addr_walk v n (eqs @ aft) tab =
    Inr (kept (entry_matches v n) tab eqs @ aft, inval (entry_matches v n) (snd ` set eqs) tab)"
  using assms(1,2)
proof (induction eqs arbitrary: tab)
  case Nil
  then show ?case using assms(3) by (cases aft) (auto simp: inval_empty)
next
  case (Cons e m)
  obtain k i where e: "e = (k, i)" by (cases e)
  have i: "k = v" "i < length tab" "e_valid (tab ! i)" "i \<notin> snd ` set m"
    using Cons.prems by (auto simp: e)
  have "\<forall>x\<in>set m. fst x = v \<and> snd x < length (tab[i := w]) \<and> e_valid (tab[i := w] ! snd x)" for w
    using Cons.prems(2) i(4) by (metis image_eqI length_list_update list.set_intros(2) nth_list_update_neq)
  with Cons have IH: "flush_addr_walk v n (m @ aft) (tab[i := w]) =
      Inr (kept (entry_matches v n) (tab[i := w]) m @ aft,
           inval (entry_matches v n) (snd ` set m) (tab[i := w]))" for w
    by simp
  show ?case
    using IH [of "(tab ! i)\<lparr>e_valid := False\<rparr>"] IH [of "tab ! i"] i
    by (auto simp: e kept_update inval_step inval_skip)
qed

lemma tab_inv_inval:
  assumes "tab_inv m tab"
  shows "tab_inv (kept P tab m) (inval P (snd ` set m) tab)"
proof -
  have m: "(k, i) \<in> set m \<longleftrightarrow> i < length tab \<and> e_valid (tab ! i) \<and> k = e_tag (tab ! i)" for k i
    using assms unfolding tab_inv_def by blast
  have s: "i \<in> snd ` set m \<longleftrightarrow> i < length tab \<and> e_valid (tab ! i)" for i
    using m by (force simp: image_iff)
  have "(k, i) \<in> set (kept P tab m) \<longleftrightarrow> i < length (inval P (snd ` set m) tab) \<and>
      e_valid (inval P (snd ` set m) tab ! i) \<and> k = e_tag (inval P (snd ` set m) tab ! i)" for k i
    by (cases "i < length tab") (auto simp: m s)
  then show ?thesis using assms by (simp add: tab_inv_def sorted_filter distinct_map_filter)
qed

lemma flush_addr_eq:
  assumes "tab_inv m tab"
  shows "\<exists>m'. flush_addr_walk v n (mm_find v m) tab = Inr (m', inval (entry_matches v n) (snd ` set m) tab)
    \<and> mm_before v m @ m' = kept (entry_matches v n) tab m"
proof -
  obtain eqs aft where s: "mm_find v m = eqs @ aft" "\<forall>e\<in>set eqs. fst e = v"
      "\<forall>e\<in>set aft. v < fst e" "\<forall>e\<in>set (mm_before v m). fst e \<noteq> v" "eqs = [] \<Longrightarrow> aft = []"
    using assms mm_split [of m v] by (auto simp: tab_inv_def)
  have m: "m = mm_before v m @ eqs @ aft" using mm_before_find [of v m] s(1) by simp
  have key: "snd e < length tab \<and> e_valid (tab ! snd e) \<and> fst e = e_tag (tab ! snd e)" if "e \<in> set m" for e
    using tab_inv_key [OF assms that] .
  have "distinct (map snd (mm_before v m @ eqs @ aft))" using assms m by (simp add: tab_inv_def)
  then have "distinct (map snd eqs)" by simp
  moreover have "\<forall>e\<in>set eqs. fst e = v \<and> snd e < length tab \<and> e_valid (tab ! snd e)"
    using s(2) key m by (metis Un_iff set_append)
  ultimately have w: "flush_addr_walk v n (eqs @ aft) tab =
      Inr (kept (entry_matches v n) tab eqs @ aft, inval (entry_matches v n) (snd ` set eqs) tab)"
    using s(3) by (intro flush_addr_walk_eqs)
  have out: "\<not> entry_matches v n (tab ! snd e)" if "e \<in> set (mm_before v m) \<union> set aft" for e
    using that s(3,4) key [of e] m by (metis UnE UnI1 UnI2 entry_matches_def order_less_irrefl set_append)
  have k: "kept (entry_matches v n) tab m = mm_before v m @ kept (entry_matches v n) tab eqs @ aft"
  proof -
    have "kept (entry_matches v n) tab (mm_before v m) = mm_before v m"
        "kept (entry_matches v n) tab aft = aft" using out by (auto intro: filter_True)
    moreover have "kept (entry_matches v n) tab m =
        kept (entry_matches v n) tab (mm_before v m @ eqs @ aft)" using m by (rule arg_cong)
    ultimately show ?thesis by simp
  qed
  have "snd ` set m = snd ` set (mm_before v m) \<union> snd ` set eqs \<union> snd ` set aft"
    using arg_cong [OF m, of "\<lambda>m. snd ` set m"] by (simp add: image_Un Un_assoc)
  then have "inval (entry_matches v n) (snd ` set eqs) tab = inval (entry_matches v n) (snd ` set m) tab"
    using out by (auto simp: inval_def)
  then show ?thesis using w s(1) k by simp
qed

lemma tlb_holds_inval:
  assumes "tab_inv (lookupTable t) (tlb_table t)"
  shows "tlb_holds (flushCache (t\<lparr>lookupTable := m, tlb_table := inval P (snd ` set (lookupTable t)) (tlb_table t)\<rparr>)) v n i
    \<longleftrightarrow> tlb_holds t v n i \<and> \<not> P (tlb_table t ! i)"
proof -
  have "i \<in> snd ` set (lookupTable t)" if "i < length (tlb_table t)" "e_valid (tlb_table t ! i)"
    using assms that unfolding tab_inv_def by (metis image_eqI snd_conv)
  then show ?thesis
    by (auto simp: tlb_holds_def flushCache_def entry_matches_def split: if_splits)
qed

lemma tlb_flush_spec:
  assumes "tlb_inv t"
  shows "(\<exists>t'. tlb_flushAddr addr n t = Inr t' \<and> tlb_inv t' \<and>
      (\<forall>v k i. tlb_holds t' v k i \<longleftrightarrow>
         tlb_holds t v k i \<and> \<not> entry_matches (vpn addr) n (tlb_table t ! i))) \<and>
    (\<exists>t'. tlb_flushProcesses t = Inr t' \<and> tlb_inv t' \<and>
      (\<forall>v k i. tlb_holds t' v k i \<longleftrightarrow> tlb_holds t v k i \<and> e_asma (tlb_table t ! i))) \<and>
    (tlb_inv (tlb_flushAll t) \<and> (\<forall>v k i. \<not> tlb_holds (tlb_flushAll t) v k i))"
proof (intro conjI)
  let ?m = "lookupTable t" and ?tab = "tlb_table t"
  have n: "nlu t < length ?tab" and tab: "tab_inv ?m ?tab" using assms by (auto simp: tlb_inv_def)
  let ?out = "\<lambda>P. flushCache (t\<lparr>lookupTable := kept P ?tab ?m, tlb_table := inval P (snd ` set ?m) ?tab\<rparr>)"
  have inv: "tlb_inv (?out P)" for P
    using tab_inv_inval [OF tab, of P] n by (simp add: tlb_inv_def flushCache_def)
  have "tlb_flushAddr addr n t = Inr (?out (entry_matches (vpn addr) n))"
    using flush_addr_eq [OF tab, of "vpn addr" n] by (auto simp: tlb_flushAddr_def)
  then show "\<exists>t'. tlb_flushAddr addr n t = Inr t' \<and> tlb_inv t' \<and> (\<forall>v k i. tlb_holds t' v k i \<longleftrightarrow>
      tlb_holds t v k i \<and> \<not> entry_matches (vpn addr) n (?tab ! i))"
    using inv tlb_holds_inval [OF tab] by blast
  have "tlb_flushProcesses t = Inr (?out (\<lambda>e. \<not> e_asma e))"
    using flush_processes_walk_eq [of ?m ?tab] tab_inv_key [OF tab] tab
    by (simp add: tlb_flushProcesses_def tab_inv_def)
  then show "\<exists>t'. tlb_flushProcesses t = Inr t' \<and> tlb_inv t' \<and>
      (\<forall>v k i. tlb_holds t' v k i \<longleftrightarrow> tlb_holds t v k i \<and> e_asma (?tab ! i))"
    using inv [of "\<lambda>e. \<not> e_asma e"] tlb_holds_inval [OF tab, where P = "\<lambda>e. \<not> e_asma e"] by auto
  show "tlb_inv (tlb_flushAll t)"
    using n by (auto simp: tlb_inv_def tlb_flushAll_def flushCache_def tab_inv_def zero_entry_def)
  show "\<forall>v k i. \<not> tlb_holds (tlb_flushAll t) v k i"
    by (auto simp: tlb_holds_def tlb_flushAll_def flushCache_def zero_entry_def)
qed

end
