(* ===== verification/Alpha_Isa.thy ===== *)
theory Alpha_Isa
  imports Alpha_Tlb
begin

text \<open>
  The architectural state of an Alpha hardware thread: the internal processor registers
  (\<open>src/src/arch/alpha/ipr.hh\<close>, \<open>ipr.cc\<close>), the miscellaneous registers (\<open>isa.hh\<close>,
  \<open>isa.cc\<close>) with the side effects of reading and writing them (\<open>ev5.cc\<close>, \<open>ev5.hh\<close>), and the
  register file and program counter of \<open>SimpleThread\<close> (\<open>src/src/cpu/simple_thread.hh\<close>,
  \<open>src/src/arch/generic/types.hh\<close>). A \<open>SimpleThread\<close> never misspeculates. Kernel statistics are not
  modelled. Floating point registers are their 64 bit images.
\<close>

section \<open>Register numbers\<close>

text \<open>The enumeration \<open>MiscRegIpr\<close>.\<close>

abbreviation (input) MinWriteOnlyIpr :: int where "MinWriteOnlyIpr \<equiv> 0"
abbreviation (input) IPR_HWINT_CLR :: int where "IPR_HWINT_CLR \<equiv> 0"
abbreviation (input) IPR_SL_XMIT :: int where "IPR_SL_XMIT \<equiv> 1"
abbreviation (input) IPR_DC_FLUSH :: int where "IPR_DC_FLUSH \<equiv> 2"
abbreviation (input) IPR_IC_FLUSH :: int where "IPR_IC_FLUSH \<equiv> 3"
abbreviation (input) IPR_ALT_MODE :: int where "IPR_ALT_MODE \<equiv> 4"
abbreviation (input) IPR_DTB_IA :: int where "IPR_DTB_IA \<equiv> 5"
abbreviation (input) IPR_DTB_IAP :: int where "IPR_DTB_IAP \<equiv> 6"
abbreviation (input) IPR_ITB_IA :: int where "IPR_ITB_IA \<equiv> 7"
abbreviation (input) MaxWriteOnlyIpr :: int where "MaxWriteOnlyIpr \<equiv> 8"
abbreviation (input) IPR_ITB_IAP :: int where "IPR_ITB_IAP \<equiv> 8"
abbreviation (input) MinReadOnlyIpr :: int where "MinReadOnlyIpr \<equiv> 9"
abbreviation (input) IPR_INTID :: int where "IPR_INTID \<equiv> 9"
abbreviation (input) IPR_SL_RCV :: int where "IPR_SL_RCV \<equiv> 10"
abbreviation (input) IPR_MM_STAT :: int where "IPR_MM_STAT \<equiv> 11"
abbreviation (input) IPR_ITB_PTE_TEMP :: int where "IPR_ITB_PTE_TEMP \<equiv> 12"
abbreviation (input) MaxReadOnlyIpr :: int where "MaxReadOnlyIpr \<equiv> 13"
abbreviation (input) IPR_DTB_PTE_TEMP :: int where "IPR_DTB_PTE_TEMP \<equiv> 13"
abbreviation (input) IPR_ISR :: int where "IPR_ISR \<equiv> 14"
abbreviation (input) IPR_ITB_TAG :: int where "IPR_ITB_TAG \<equiv> 15"
abbreviation (input) IPR_ITB_PTE :: int where "IPR_ITB_PTE \<equiv> 16"
abbreviation (input) IPR_ITB_ASN :: int where "IPR_ITB_ASN \<equiv> 17"
abbreviation (input) IPR_ITB_IS :: int where "IPR_ITB_IS \<equiv> 18"
abbreviation (input) IPR_SIRR :: int where "IPR_SIRR \<equiv> 19"
abbreviation (input) IPR_ASTRR :: int where "IPR_ASTRR \<equiv> 20"
abbreviation (input) IPR_ASTER :: int where "IPR_ASTER \<equiv> 21"
abbreviation (input) IPR_EXC_ADDR :: int where "IPR_EXC_ADDR \<equiv> 22"
abbreviation (input) IPR_EXC_SUM :: int where "IPR_EXC_SUM \<equiv> 23"
abbreviation (input) IPR_EXC_MASK :: int where "IPR_EXC_MASK \<equiv> 24"
abbreviation (input) IPR_PAL_BASE :: int where "IPR_PAL_BASE \<equiv> 25"
abbreviation (input) IPR_ICM :: int where "IPR_ICM \<equiv> 26"
abbreviation (input) IPR_IPLR :: int where "IPR_IPLR \<equiv> 27"
abbreviation (input) IPR_IFAULT_VA_FORM :: int where "IPR_IFAULT_VA_FORM \<equiv> 28"
abbreviation (input) IPR_IVPTBR :: int where "IPR_IVPTBR \<equiv> 29"
abbreviation (input) IPR_ICSR :: int where "IPR_ICSR \<equiv> 30"
abbreviation (input) IPR_IC_PERR_STAT :: int where "IPR_IC_PERR_STAT \<equiv> 31"
abbreviation (input) IPR_PMCTR :: int where "IPR_PMCTR \<equiv> 32"
abbreviation (input) IPR_PALtemp0 :: int where "IPR_PALtemp0 \<equiv> 33"
abbreviation (input) IPR_PALtemp1 :: int where "IPR_PALtemp1 \<equiv> 34"
abbreviation (input) IPR_PALtemp2 :: int where "IPR_PALtemp2 \<equiv> 35"
abbreviation (input) IPR_PALtemp3 :: int where "IPR_PALtemp3 \<equiv> 36"
abbreviation (input) IPR_PALtemp4 :: int where "IPR_PALtemp4 \<equiv> 37"
abbreviation (input) IPR_PALtemp5 :: int where "IPR_PALtemp5 \<equiv> 38"
abbreviation (input) IPR_PALtemp6 :: int where "IPR_PALtemp6 \<equiv> 39"
abbreviation (input) IPR_PALtemp7 :: int where "IPR_PALtemp7 \<equiv> 40"
abbreviation (input) IPR_PALtemp8 :: int where "IPR_PALtemp8 \<equiv> 41"
abbreviation (input) IPR_PALtemp9 :: int where "IPR_PALtemp9 \<equiv> 42"
abbreviation (input) IPR_PALtemp10 :: int where "IPR_PALtemp10 \<equiv> 43"
abbreviation (input) IPR_PALtemp11 :: int where "IPR_PALtemp11 \<equiv> 44"
abbreviation (input) IPR_PALtemp12 :: int where "IPR_PALtemp12 \<equiv> 45"
abbreviation (input) IPR_PALtemp13 :: int where "IPR_PALtemp13 \<equiv> 46"
abbreviation (input) IPR_PALtemp14 :: int where "IPR_PALtemp14 \<equiv> 47"
abbreviation (input) IPR_PALtemp15 :: int where "IPR_PALtemp15 \<equiv> 48"
abbreviation (input) IPR_PALtemp16 :: int where "IPR_PALtemp16 \<equiv> 49"
abbreviation (input) IPR_PALtemp17 :: int where "IPR_PALtemp17 \<equiv> 50"
abbreviation (input) IPR_PALtemp18 :: int where "IPR_PALtemp18 \<equiv> 51"
abbreviation (input) IPR_PALtemp19 :: int where "IPR_PALtemp19 \<equiv> 52"
abbreviation (input) IPR_PALtemp20 :: int where "IPR_PALtemp20 \<equiv> 53"
abbreviation (input) IPR_PALtemp21 :: int where "IPR_PALtemp21 \<equiv> 54"
abbreviation (input) IPR_PALtemp22 :: int where "IPR_PALtemp22 \<equiv> 55"
abbreviation (input) IPR_PALtemp23 :: int where "IPR_PALtemp23 \<equiv> 56"
abbreviation (input) IPR_DTB_ASN :: int where "IPR_DTB_ASN \<equiv> 57"
abbreviation (input) IPR_DTB_CM :: int where "IPR_DTB_CM \<equiv> 58"
abbreviation (input) IPR_DTB_TAG :: int where "IPR_DTB_TAG \<equiv> 59"
abbreviation (input) IPR_DTB_PTE :: int where "IPR_DTB_PTE \<equiv> 60"
abbreviation (input) IPR_VA :: int where "IPR_VA \<equiv> 61"
abbreviation (input) IPR_VA_FORM :: int where "IPR_VA_FORM \<equiv> 62"
abbreviation (input) IPR_MVPTBR :: int where "IPR_MVPTBR \<equiv> 63"
abbreviation (input) IPR_DTB_IS :: int where "IPR_DTB_IS \<equiv> 64"
abbreviation (input) IPR_CC :: int where "IPR_CC \<equiv> 65"
abbreviation (input) IPR_CC_CTL :: int where "IPR_CC_CTL \<equiv> 66"
abbreviation (input) IPR_MCSR :: int where "IPR_MCSR \<equiv> 67"
abbreviation (input) IPR_DC_PERR_STAT :: int where "IPR_DC_PERR_STAT \<equiv> 68"
abbreviation (input) IPR_DC_TEST_CTL :: int where "IPR_DC_TEST_CTL \<equiv> 69"
abbreviation (input) IPR_DC_TEST_TAG :: int where "IPR_DC_TEST_TAG \<equiv> 70"
abbreviation (input) IPR_DC_TEST_TAG_TEMP :: int where "IPR_DC_TEST_TAG_TEMP \<equiv> 71"
abbreviation (input) IPR_DC_MODE :: int where "IPR_DC_MODE \<equiv> 72"
abbreviation (input) IPR_MAF_MODE :: int where "IPR_MAF_MODE \<equiv> 73"

definition NumInternalProcRegs :: int where "NumInternalProcRegs = 74"

text \<open>The raw numbers of the registers, in the order of the enumeration, and the inverse table.\<close>

definition MiscRegIndexToIpr :: "nat list" where
  "MiscRegIndexToIpr =
     [0x115, 0x116, 0x210, 0x119, 0x20c, 0x20a, 0x209, 0x105, 0x106, 0x111, 0x117, 0x205,
      0x104, 0x204, 0x100, 0x101, 0x102, 0x103, 0x107, 0x108, 0x109, 0x10a, 0x10b, 0x10c,
      0x10d, 0x10e, 0x10f, 0x110, 0x112, 0x113, 0x118, 0x11a, 0x11c, 0x140, 0x141, 0x142,
      0x143, 0x144, 0x145, 0x146, 0x147, 0x148, 0x149, 0x14a, 0x14b, 0x14c, 0x14d, 0x14e,
      0x14f, 0x150, 0x151, 0x152, 0x153, 0x154, 0x155, 0x156, 0x157, 0x200, 0x201, 0x202,
      0x203, 0x206, 0x207, 0x208, 0x20b, 0x20d, 0x20e, 0x20f, 0x212, 0x213, 0x214, 0x215,
      0x216, 0x217]"

definition MaxInternalProcRegs :: nat where "MaxInternalProcRegs = 536"

fun fill_ipr_table :: "nat \<Rightarrow> nat list \<Rightarrow> int list \<Rightarrow> int list" where
  "fill_ipr_table x [] t = t"
| "fill_ipr_table x (r # rs) t = fill_ipr_table (x + 1) rs (t[r := int x])"

definition IprToMiscRegIndex :: "int list" where
  "IprToMiscRegIndex = fill_ipr_table 0 MiscRegIndexToIpr (replicate MaxInternalProcRegs (- 1))"

definition IprIsWritable :: "int \<Rightarrow> bool" where
  "IprIsWritable index \<longleftrightarrow> index < MinReadOnlyIpr \<or> MaxReadOnlyIpr < index"

definition IprIsReadable :: "int \<Rightarrow> bool" where
  "IprIsReadable index \<longleftrightarrow> index < MinWriteOnlyIpr \<or> MaxWriteOnlyIpr < index"

abbreviation (input) MISCREG_FPCR :: int where "MISCREG_FPCR \<equiv> 74"
abbreviation (input) MISCREG_UNIQ :: int where "MISCREG_UNIQ \<equiv> 75"
abbreviation (input) MISCREG_LOCKFLAG :: int where "MISCREG_LOCKFLAG \<equiv> 76"
abbreviation (input) MISCREG_LOCKADDR :: int where "MISCREG_LOCKADDR \<equiv> 77"
abbreviation (input) MISCREG_INTR :: int where "MISCREG_INTR \<equiv> 78"

definition NumIntRegs :: int where "NumIntRegs = 40"
definition NumFloatRegs :: int where "NumFloatRegs = 32"
definition ReturnAddressReg :: int where "ReturnAddressReg = 26"

section \<open>State\<close>

record PCState =
  pc_pc :: Addr
  pc_npc :: Addr

record ISA =
  fpcr :: u64
  uniq :: u64
  lock_flag :: bool
  lock_addr :: Addr
  intr_flag :: int
  ipr :: "u64 list"

record ThreadContext =
  intRegs :: "u64 list"
  floatRegs :: "u64 list"
  tc_isa :: ISA
  tc_pcState :: PCState
  tc_itb :: TLB
  tc_dtb :: TLB

subsection \<open>Program counter\<close>

definition PCState_set :: "Addr \<Rightarrow> PCState" where
  "PCState_set val = \<lparr>pc_pc = val, pc_npc = val + 4\<rparr>"

definition instAddr :: "PCState \<Rightarrow> Addr" where "instAddr p = pc_pc p"
definition nextInstAddr :: "PCState \<Rightarrow> Addr" where "nextInstAddr p = pc_npc p"

definition PCState_branching :: "PCState \<Rightarrow> bool" where
  "PCState_branching p \<longleftrightarrow> pc_npc p \<noteq> pc_pc p + 4"

definition PCState_advance :: "PCState \<Rightarrow> PCState" where
  "PCState_advance p = \<lparr>pc_pc = pc_npc p, pc_npc = pc_npc p + 4\<rparr>"

subsection \<open>Register file\<close>

text \<open>
  An array indexed by a C \<open>int\<close>. The assertions of the accessors compare with the upper bound
  only, so that a negative index reaches the array.
\<close>

definition at_int :: "'a list \<Rightarrow> int \<Rightarrow> 'a res" where
  "at_int xs i = (if i < 0 then Inl Bad_index else at xs (nat i))"

definition set_int :: "'a list \<Rightarrow> int \<Rightarrow> 'a \<Rightarrow> 'a list res" where
  "set_int xs i v = (if 0 \<le> i \<and> nat i < length xs then Inr (xs[nat i := v]) else Inl Bad_index)"

definition flattenIntIndex :: "int \<Rightarrow> int" where "flattenIntIndex reg = reg"
definition flattenFloatIndex :: "int \<Rightarrow> int" where "flattenFloatIndex reg = reg"

definition readIntReg :: "int \<Rightarrow> ThreadContext \<Rightarrow> u64 res" where
  "readIntReg reg_idx tc =
     (let flatIndex = flattenIntIndex reg_idx
      in bindE (assertE (flatIndex < NumIntRegs)) (\<lambda>_. at_int (intRegs tc) flatIndex))"

definition setIntReg :: "int \<Rightarrow> u64 \<Rightarrow> ThreadContext \<Rightarrow> ThreadContext res" where
  "setIntReg reg_idx val tc =
     (let flatIndex = flattenIntIndex reg_idx
      in bindE (assertE (flatIndex < NumIntRegs)) (\<lambda>_.
         bindE (set_int (intRegs tc) flatIndex val) (\<lambda>r. Inr (tc\<lparr>intRegs := r\<rparr>))))"

definition readFloatReg :: "int \<Rightarrow> ThreadContext \<Rightarrow> u64 res" where
  "readFloatReg reg_idx tc =
     (let flatIndex = flattenFloatIndex reg_idx
      in bindE (assertE (flatIndex < NumFloatRegs)) (\<lambda>_. at_int (floatRegs tc) flatIndex))"

definition setFloatReg :: "int \<Rightarrow> u64 \<Rightarrow> ThreadContext \<Rightarrow> ThreadContext res" where
  "setFloatReg reg_idx val tc =
     (let flatIndex = flattenFloatIndex reg_idx
      in bindE (assertE (flatIndex < NumFloatRegs)) (\<lambda>_.
         bindE (set_int (floatRegs tc) flatIndex val) (\<lambda>r. Inr (tc\<lparr>floatRegs := r\<rparr>))))"

definition set_pcState :: "PCState \<Rightarrow> ThreadContext \<Rightarrow> ThreadContext" where
  "set_pcState p tc = tc\<lparr>tc_pcState := p\<rparr>"

section \<open>Fields of the processor registers\<close>

definition AsnMask :: u64 where "AsnMask = 0xff"
definition PAddrImplMask :: u64 where "PAddrImplMask = mask 44"

definition DTB_ASN_ASN :: "u64 \<Rightarrow> u8" where "DTB_ASN_ASN reg = ucast (drop_bit 57 reg AND AsnMask)"
definition DTB_PTE_PPN :: "u64 \<Rightarrow> Addr" where "DTB_PTE_PPN reg = drop_bit 32 reg AND mask 31"
definition DTB_PTE_XRE :: "u64 \<Rightarrow> u8" where "DTB_PTE_XRE reg = ucast (drop_bit 8 reg AND 0xf)"
definition DTB_PTE_XWE :: "u64 \<Rightarrow> u8" where "DTB_PTE_XWE reg = ucast (drop_bit 12 reg AND 0xf)"
definition DTB_PTE_FONR :: "u64 \<Rightarrow> bool" where "DTB_PTE_FONR reg \<longleftrightarrow> drop_bit 1 reg AND 1 \<noteq> 0"
definition DTB_PTE_FONW :: "u64 \<Rightarrow> bool" where "DTB_PTE_FONW reg \<longleftrightarrow> drop_bit 2 reg AND 1 \<noteq> 0"
definition DTB_PTE_GH :: "u64 \<Rightarrow> u64" where "DTB_PTE_GH reg = drop_bit 5 reg AND 3"
definition DTB_PTE_ASMA :: "u64 \<Rightarrow> bool" where "DTB_PTE_ASMA reg \<longleftrightarrow> drop_bit 4 reg AND 1 \<noteq> 0"

definition ITB_ASN_ASN :: "u64 \<Rightarrow> u8" where "ITB_ASN_ASN reg = ucast (drop_bit 4 reg AND AsnMask)"
definition ITB_PTE_PPN :: "u64 \<Rightarrow> Addr" where "ITB_PTE_PPN reg = drop_bit 32 reg AND mask 31"
definition ITB_PTE_XRE :: "u64 \<Rightarrow> u8" where "ITB_PTE_XRE reg = ucast (drop_bit 8 reg AND 0xf)"
definition ITB_PTE_FONR :: "u64 \<Rightarrow> bool" where "ITB_PTE_FONR reg \<longleftrightarrow> drop_bit 1 reg AND 1 \<noteq> 0"
definition ITB_PTE_FONW :: "u64 \<Rightarrow> bool" where "ITB_PTE_FONW reg \<longleftrightarrow> drop_bit 2 reg AND 1 \<noteq> 0"
definition ITB_PTE_GH :: "u64 \<Rightarrow> u64" where "ITB_PTE_GH reg = drop_bit 5 reg AND 3"
definition ITB_PTE_ASMA :: "u64 \<Rightarrow> bool" where "ITB_PTE_ASMA reg \<longleftrightarrow> drop_bit 4 reg AND 1 \<noteq> 0"

definition ALT_MODE_AM :: "u64 \<Rightarrow> u64" where "ALT_MODE_AM reg = drop_bit 3 reg AND 3"
definition DTB_CM_CM :: "u64 \<Rightarrow> u64" where "DTB_CM_CM reg = drop_bit 3 reg AND 3"
definition ICM_CM :: "u64 \<Rightarrow> u64" where "ICM_CM reg = drop_bit 3 reg AND 3"

section \<open>Reading and writing processor registers\<close>

definition get_ipr :: "int \<Rightarrow> ThreadContext \<Rightarrow> u64 res" where
  "get_ipr idx tc = at_int (ipr (tc_isa tc)) idx"

definition put_ipr :: "int \<Rightarrow> u64 \<Rightarrow> ThreadContext \<Rightarrow> ThreadContext res" where
  "put_ipr idx val tc =
     bindE (set_int (ipr (tc_isa tc)) idx val) (\<lambda>r. Inr (tc\<lparr>tc_isa := (tc_isa tc)\<lparr>ipr := r\<rparr>\<rparr>))"

definition of_flag :: "bool \<Rightarrow> u64" where "of_flag b = (if b then 1 else 0)"

definition PALtemps :: "int list" where "PALtemps = [IPR_PALtemp0..IPR_PALtemp22]"

text \<open>The registers that \<open>readIpr\<close> returns as they are.\<close>

definition plain_read_iprs :: "int list" where
  "plain_read_iprs = PALtemps @ [IPR_PALtemp23, IPR_PAL_BASE, IPR_IVPTBR, IPR_DC_MODE, IPR_MAF_MODE,
     IPR_ISR, IPR_EXC_ADDR, IPR_IC_PERR_STAT, IPR_DC_PERR_STAT, IPR_MCSR, IPR_ASTRR, IPR_ASTER,
     IPR_SIRR, IPR_ICSR, IPR_ICM, IPR_DTB_CM, IPR_IPLR, IPR_INTID, IPR_PMCTR, IPR_VA, IPR_VA_FORM,
     IPR_MM_STAT, IPR_IFAULT_VA_FORM, IPR_EXC_MASK, IPR_EXC_SUM]"

text \<open>The cycle count of the processor, which \<open>IPR_CC\<close> reads, is an argument.\<close>

definition readIpr :: "u64 \<Rightarrow> int \<Rightarrow> ThreadContext \<Rightarrow> (u64 \<times> ThreadContext) res" where
  "readIpr curCycle idx tc =
     (if idx \<in> set plain_read_iprs then bindE (get_ipr idx tc) (\<lambda>v. Inr (v, tc))
      else if idx = IPR_CC then
        bindE (get_ipr idx tc) (\<lambda>v.
          Inr ((v AND 0xffffffff00000000) OR (curCycle AND 0x00000000ffffffff), tc))
      else if idx = IPR_DTB_PTE then
        bindE (tlb_index True (tc_dtb tc)) (\<lambda>(e, dtb).
          Inr (push_bit 32 (e_ppn e AND 0x7ffffff) OR push_bit 8 (ucast (e_xre e) AND 0xf)
               OR push_bit 12 (ucast (e_xwe e) AND 0xf) OR push_bit 1 (of_flag (e_fonr e))
               OR push_bit 2 (of_flag (e_fonw e)) OR push_bit 4 (of_flag (e_asma e))
               OR push_bit 57 (ucast (e_asn e) AND 0x7f), tc\<lparr>tc_dtb := dtb\<rparr>))
      else Inl Panic)"

text \<open>The registers that \<open>setIpr\<close> stores whole, and those it masks.\<close>

definition plain_write_iprs :: "int list" where
  "plain_write_iprs = PALtemps @ [IPR_PAL_BASE, IPR_IC_PERR_STAT, IPR_DC_PERR_STAT, IPR_PMCTR, IPR_CC,
     IPR_PALtemp23, IPR_DTB_PTE, IPR_MCSR, IPR_HWINT_CLR, IPR_SL_XMIT, IPR_DC_FLUSH, IPR_IC_FLUSH]"

definition ipr_write_mask :: "int \<Rightarrow> u64 option" where
  "ipr_write_mask idx =
     (if idx = IPR_EXC_ADDR then Some (NOT 2)
      else if idx = IPR_ASTRR \<or> idx = IPR_ASTER then Some 0xf
      else if idx = IPR_IPLR then Some 0x1f
      else if idx = IPR_DTB_CM \<or> idx = IPR_ICM \<or> idx = IPR_ALT_MODE then Some 0x18
      else if idx = IPR_SIRR then Some 0x7fff0
      else if idx = IPR_ICSR then Some 0xffffff0300
      else if idx = IPR_IVPTBR \<or> idx = IPR_MVPTBR then Some 0xffffffffc0000000
      else if idx = IPR_DC_TEST_CTL then Some 0x1ffb
      else if idx = IPR_DC_MODE \<or> idx = IPR_MAF_MODE then Some 0x3f
      else if idx = IPR_ITB_ASN then Some 0x7f0
      else if idx = IPR_DTB_ASN then Some 0xfe00000000000000
      else if idx = IPR_EXC_SUM \<or> idx = IPR_EXC_MASK then Some 0
      else None)"

text \<open>Writing \<open>IPR_DTB_TAG\<close> and \<open>IPR_ITB_PTE\<close> inserts an entry into the buffer.\<close>

definition write_dtb_tag :: "u64 \<Rightarrow> ThreadContext \<Rightarrow> ThreadContext res" where
  "write_dtb_tag val tc =
     bindE (get_ipr IPR_DTB_PTE tc) (\<lambda>pte.
       if DTB_PTE_GH pte \<noteq> 0 then Inl Panic
       else bindE (put_ipr IPR_DTB_TAG val tc) (\<lambda>tc.
            bindE (get_ipr IPR_DTB_PTE tc) (\<lambda>pte.
            bindE (get_ipr IPR_DTB_ASN tc) (\<lambda>asn.
            bindE (tlb_insert val \<lparr>e_tag = 0, e_ppn = DTB_PTE_PPN pte, e_xre = DTB_PTE_XRE pte,
                     e_xwe = DTB_PTE_XWE pte, e_asn = DTB_ASN_ASN asn, e_asma = DTB_PTE_ASMA pte,
                     e_fonr = DTB_PTE_FONR pte, e_fonw = DTB_PTE_FONW pte, e_valid = False\<rparr>
                     (tc_dtb tc)) (\<lambda>dtb. Inr (tc\<lparr>tc_dtb := dtb\<rparr>))))))"

definition write_itb_pte :: "u64 \<Rightarrow> ThreadContext \<Rightarrow> ThreadContext res" where
  "write_itb_pte val tc =
     (if ITB_PTE_GH val \<noteq> 0 then Inl Panic
      else bindE (put_ipr IPR_ITB_PTE val tc) (\<lambda>tc.
           bindE (get_ipr IPR_ITB_ASN tc) (\<lambda>asn.
           bindE (get_ipr IPR_ITB_TAG tc) (\<lambda>tag.
           bindE (tlb_insert tag \<lparr>e_tag = 0, e_ppn = ITB_PTE_PPN val, e_xre = ITB_PTE_XRE val,
                    e_xwe = 0, e_asn = ITB_ASN_ASN asn, e_asma = ITB_PTE_ASMA val,
                    e_fonr = ITB_PTE_FONR val, e_fonw = ITB_PTE_FONW val, e_valid = False\<rparr>
                    (tc_itb tc)) (\<lambda>itb. Inr (tc\<lparr>tc_itb := itb\<rparr>))))))"

definition setIpr :: "int \<Rightarrow> u64 \<Rightarrow> ThreadContext \<Rightarrow> ThreadContext res" where
  "setIpr idx val tc =
     (if idx \<in> set plain_write_iprs then put_ipr idx val tc
      else case ipr_write_mask idx of Some m \<Rightarrow> put_ipr idx (val AND m) tc
      | None \<Rightarrow>
        if idx = IPR_CC_CTL then
          bindE (get_ipr idx tc) (\<lambda>v. bindE (assertE (v = 0)) (\<lambda>_. put_ipr idx 1 tc))
        else if idx = IPR_DTB_IA then
          bindE (put_ipr idx 0 tc) (\<lambda>tc. Inr (tc\<lparr>tc_dtb := tlb_flushAll (tc_dtb tc)\<rparr>))
        else if idx = IPR_DTB_IAP then
          bindE (put_ipr idx 0 tc) (\<lambda>tc.
          bindE (tlb_flushProcesses (tc_dtb tc)) (\<lambda>dtb. Inr (tc\<lparr>tc_dtb := dtb\<rparr>)))
        else if idx = IPR_DTB_IS then
          bindE (put_ipr idx val tc) (\<lambda>tc. bindE (get_ipr IPR_DTB_ASN tc) (\<lambda>asn.
          bindE (tlb_flushAddr val (DTB_ASN_ASN asn) (tc_dtb tc)) (\<lambda>dtb. Inr (tc\<lparr>tc_dtb := dtb\<rparr>))))
        else if idx = IPR_DTB_TAG then write_dtb_tag val tc
        else if idx = IPR_ITB_PTE then write_itb_pte val tc
        else if idx = IPR_ITB_IA then
          bindE (put_ipr idx 0 tc) (\<lambda>tc. Inr (tc\<lparr>tc_itb := tlb_flushAll (tc_itb tc)\<rparr>))
        else if idx = IPR_ITB_IAP then
          bindE (put_ipr idx 0 tc) (\<lambda>tc.
          bindE (tlb_flushProcesses (tc_itb tc)) (\<lambda>itb. Inr (tc\<lparr>tc_itb := itb\<rparr>)))
        else if idx = IPR_ITB_IS then
          bindE (put_ipr idx val tc) (\<lambda>tc. bindE (get_ipr IPR_ITB_ASN tc) (\<lambda>asn.
          bindE (tlb_flushAddr val (ITB_ASN_ASN asn) (tc_itb tc)) (\<lambda>itb. Inr (tc\<lparr>tc_itb := itb\<rparr>))))
        else Inl Panic)"

section \<open>Miscellaneous registers\<close>

definition readMiscRegNoEffect :: "int \<Rightarrow> ThreadContext \<Rightarrow> u64 res" where
  "readMiscRegNoEffect misc_reg tc =
     (if misc_reg = MISCREG_FPCR then Inr (fpcr (tc_isa tc))
      else if misc_reg = MISCREG_UNIQ then Inr (uniq (tc_isa tc))
      else if misc_reg = MISCREG_LOCKFLAG then Inr (of_flag (lock_flag (tc_isa tc)))
      else if misc_reg = MISCREG_LOCKADDR then Inr (lock_addr (tc_isa tc))
      else if misc_reg = MISCREG_INTR then Inr (word_of_int (intr_flag (tc_isa tc)))
      else bindE (assertE (misc_reg < NumInternalProcRegs)) (\<lambda>_. get_ipr misc_reg tc))"

definition readMiscReg :: "u64 \<Rightarrow> int \<Rightarrow> ThreadContext \<Rightarrow> (u64 \<times> ThreadContext) res" where
  "readMiscReg curCycle misc_reg tc =
     (if misc_reg = MISCREG_FPCR then Inr (fpcr (tc_isa tc), tc)
      else if misc_reg = MISCREG_UNIQ then Inr (uniq (tc_isa tc), tc)
      else if misc_reg = MISCREG_LOCKFLAG then Inr (of_flag (lock_flag (tc_isa tc)), tc)
      else if misc_reg = MISCREG_LOCKADDR then Inr (lock_addr (tc_isa tc), tc)
      else if misc_reg = MISCREG_INTR then Inr (word_of_int (intr_flag (tc_isa tc)), tc)
      else readIpr curCycle misc_reg tc)"

text \<open>The five registers outside the array, shared by the two setters.\<close>

definition set_named_misc :: "int \<Rightarrow> u64 \<Rightarrow> ISA \<Rightarrow> ISA option" where
  "set_named_misc misc_reg val isa =
     (if misc_reg = MISCREG_FPCR then Some (isa\<lparr>fpcr := val\<rparr>)
      else if misc_reg = MISCREG_UNIQ then Some (isa\<lparr>uniq := val\<rparr>)
      else if misc_reg = MISCREG_LOCKFLAG then Some (isa\<lparr>lock_flag := (val \<noteq> 0)\<rparr>)
      else if misc_reg = MISCREG_LOCKADDR then Some (isa\<lparr>lock_addr := val\<rparr>)
      else if misc_reg = MISCREG_INTR then Some (isa\<lparr>intr_flag := int32 (uint val)\<rparr>)
      else None)"

definition setMiscRegNoEffect :: "int \<Rightarrow> u64 \<Rightarrow> ThreadContext \<Rightarrow> ThreadContext res" where
  "setMiscRegNoEffect misc_reg val tc =
     (case set_named_misc misc_reg val (tc_isa tc) of
        Some i \<Rightarrow> Inr (tc\<lparr>tc_isa := i\<rparr>)
      | None \<Rightarrow> bindE (assertE (misc_reg < NumInternalProcRegs)) (\<lambda>_. put_ipr misc_reg val tc))"

definition setMiscReg :: "int \<Rightarrow> u64 \<Rightarrow> ThreadContext \<Rightarrow> ThreadContext res" where
  "setMiscReg misc_reg val tc =
     (case set_named_misc misc_reg val (tc_isa tc) of
        Some i \<Rightarrow> Inr (tc\<lparr>tc_isa := i\<rparr>)
      | None \<Rightarrow> setIpr misc_reg val tc)"

definition inUserMode :: "ThreadContext \<Rightarrow> bool res" where
  "inUserMode tc = bindE (readMiscRegNoEffect IPR_DTB_CM tc) (\<lambda>v. Inr (v AND 0x18 \<noteq> 0))"

definition ISA_clear :: ISA where
  "ISA_clear = \<lparr>fpcr = 0, uniq = 0, lock_flag = False, lock_addr = 0, intr_flag = 0,
     ipr = replicate (nat NumInternalProcRegs) 0\<rparr>"

fun clear_iprs :: "nat \<Rightarrow> nat \<Rightarrow> ThreadContext \<Rightarrow> ThreadContext res" where
  "clear_iprs i 0 tc = Inr tc"
| "clear_iprs i (Suc n) tc = bindE (setMiscRegNoEffect (int i) 0 tc) (clear_iprs (i + 1) n)"

definition PalBase :: Addr where "PalBase = 0x4000"

definition initIPRs :: "int \<Rightarrow> ThreadContext \<Rightarrow> ThreadContext res" where
  "initIPRs cpuId tc =
     bindE (clear_iprs 0 (nat NumInternalProcRegs) tc) (\<lambda>tc.
     bindE (setMiscRegNoEffect IPR_PAL_BASE PalBase tc) (\<lambda>tc.
     bindE (setMiscRegNoEffect IPR_MCSR 0x6 tc) (\<lambda>tc.
       setMiscRegNoEffect IPR_PALtemp16 (word_of_int cpuId) tc)))"

section \<open>Correctness\<close>

text \<open>The sizes of the arrays, and the invariant of both buffers.\<close>

definition ctx_ok :: "ThreadContext \<Rightarrow> bool" where
  "ctx_ok tc \<longleftrightarrow> length (intRegs tc) = nat NumIntRegs \<and> length (floatRegs tc) = nat NumFloatRegs \<and>
     length (ipr (tc_isa tc)) = nat NumInternalProcRegs \<and> tlb_inv (tc_itb tc) \<and> tlb_inv (tc_dtb tc)"

lemmas reg_sizes = NumIntRegs_def NumFloatRegs_def NumInternalProcRegs_def

lemma at_int_in [simp]: "0 \<le> i \<Longrightarrow> nat i < length xs \<Longrightarrow> at_int xs i = Inr (xs ! nat i)"
  by (simp add: at_int_def)

lemma set_int_in [simp]: "0 \<le> i \<Longrightarrow> nat i < length xs \<Longrightarrow> set_int xs i v = Inr (xs[nat i := v])"
  by (simp add: set_int_def)

lemma get_ipr_in [simp]:
  "ctx_ok tc \<Longrightarrow> 0 \<le> i \<Longrightarrow> i < 74 \<Longrightarrow> get_ipr i tc = Inr (ipr (tc_isa tc) ! nat i)"
  by (simp add: get_ipr_def ctx_ok_def reg_sizes)

lemma put_ipr_in [simp]:
  "ctx_ok tc \<Longrightarrow> 0 \<le> i \<Longrightarrow> i < 74 \<Longrightarrow>
     put_ipr i v tc = Inr (tc\<lparr>tc_isa := (tc_isa tc)\<lparr>ipr := (ipr (tc_isa tc))[nat i := v]\<rparr>\<rparr>)"
  by (simp add: put_ipr_def ctx_ok_def reg_sizes)

lemma ctx_ok_updates [simp]:
  "ctx_ok (tc\<lparr>tc_isa := (tc_isa tc)\<lparr>ipr := (ipr (tc_isa tc))[n := v]\<rparr>\<rparr>) = ctx_ok tc"
  "ctx_ok tc \<Longrightarrow> ctx_ok (tc\<lparr>tc_dtb := t\<rparr>) = tlb_inv t"
  "ctx_ok tc \<Longrightarrow> ctx_ok (tc\<lparr>tc_itb := t\<rparr>) = tlb_inv t"
  by (auto simp: ctx_ok_def)

lemma plain_iprs_range:
  "idx \<in> set plain_write_iprs \<Longrightarrow> 0 \<le> idx \<and> idx < 74"
  "idx \<in> set plain_read_iprs \<Longrightarrow> 0 \<le> idx \<and> idx < 74"
  "ipr_write_mask idx = Some m \<Longrightarrow> 0 \<le> idx \<and> idx < 74"
  by (auto simp: plain_write_iprs_def plain_read_iprs_def PALtemps_def ipr_write_mask_def split: if_splits)

subsection \<open>Register numbers\<close>

lemma fill_ipr_table_eq:
  assumes "distinct rs" "list_all (\<lambda>r. r < length t) rs"
  shows "length (fill_ipr_table x rs t) = length t \<and>
    (\<forall>i < length rs. fill_ipr_table x rs t ! (rs ! i) = int (x + i)) \<and>
    (\<forall>r. r \<notin> set rs \<longrightarrow> fill_ipr_table x rs t ! r = t ! r)"
  using assms
proof (induction x rs t rule: fill_ipr_table.induct)
  case (2 x r rs t)
  then have IH: "length (fill_ipr_table (x + 1) rs (t[r := int x])) = length t"
      "\<And>i. i < length rs \<Longrightarrow> fill_ipr_table (x + 1) rs (t[r := int x]) ! (rs ! i) = int (x + 1 + i)"
      "\<And>q. q \<notin> set rs \<Longrightarrow> fill_ipr_table (x + 1) rs (t[r := int x]) ! q = t[r := int x] ! q"
    by (auto simp: list_all_iff)
  have "fill_ipr_table x (r # rs) t ! ((r # rs) ! i) = int (x + i)" if "i < length (r # rs)" for i
    using that IH 2(2,3) by (cases i) auto
  then show ?case using IH 2(2,3) by auto
qed auto

text \<open>
  The two register tables are inverse to each other: the raw number of each of the 74 registers
  leads back to the register, and every other raw number is marked invalid.
\<close>

lemma ipr_tables_inverse:
  "length MiscRegIndexToIpr = nat NumInternalProcRegs \<and>
   (\<forall>x < nat NumInternalProcRegs. IprToMiscRegIndex ! (MiscRegIndexToIpr ! x) = int x) \<and>
   (\<forall>r < MaxInternalProcRegs. r \<notin> set MiscRegIndexToIpr \<longrightarrow> IprToMiscRegIndex ! r = - 1)"
proof -
  have d: "distinct MiscRegIndexToIpr" by (simp add: MiscRegIndexToIpr_def)
  have l: "length MiscRegIndexToIpr = nat NumInternalProcRegs"
    by (simp add: MiscRegIndexToIpr_def reg_sizes)
  have "list_all (\<lambda>r. r < length (replicate MaxInternalProcRegs (- 1 :: int))) MiscRegIndexToIpr"
    by (simp add: MiscRegIndexToIpr_def MaxInternalProcRegs_def)
  from fill_ipr_table_eq [OF d this, of 0] show ?thesis
    using l by (simp add: IprToMiscRegIndex_def)
qed

lemma int_reg_correct:
  assumes "ctx_ok tc"
  shows "if r < 0 then readIntReg r tc = Inl Bad_index \<and> setIntReg r v tc = Inl Bad_index
     else if NumIntRegs \<le> r then readIntReg r tc = Inl AssertFail \<and> setIntReg r v tc = Inl AssertFail
     else \<exists>tc'. setIntReg r v tc = Inr tc' \<and> ctx_ok tc' \<and> floatRegs tc' = floatRegs tc \<and>
       (\<forall>q. readIntReg q tc' = (if q = r then Inr v else readIntReg q tc))"
proof -
  have len: "length (intRegs tc) = 40" using assms by (simp add: ctx_ok_def reg_sizes)
  have "readIntReg q (tc\<lparr>intRegs := (intRegs tc)[nat r := v]\<rparr>) = (if q = r then Inr v else readIntReg q tc)"
    if "0 \<le> r" "r < 40" for q
    using that len by (auto simp: readIntReg_def flattenIntIndex_def at_int_def at_def reg_sizes nth_list_update)
  moreover have "setIntReg r v tc = Inr (tc\<lparr>intRegs := (intRegs tc)[nat r := v]\<rparr>)" if "0 \<le> r" "r < 40"
    using that len by (simp add: setIntReg_def flattenIntIndex_def reg_sizes)
  moreover have "ctx_ok (tc\<lparr>intRegs := (intRegs tc)[nat r := v]\<rparr>)" using assms by (simp add: ctx_ok_def)
  ultimately have "0 \<le> r \<Longrightarrow> r < 40 \<Longrightarrow> ?thesis" by (simp add: reg_sizes)
  then show ?thesis
    by (cases "0 \<le> r \<and> r < 40")
      (auto simp: readIntReg_def setIntReg_def flattenIntIndex_def at_int_def set_int_def reg_sizes)
qed

lemma float_reg_correct:
  assumes "ctx_ok tc"
  shows "if r < 0 then readFloatReg r tc = Inl Bad_index \<and> setFloatReg r v tc = Inl Bad_index
     else if NumFloatRegs \<le> r then readFloatReg r tc = Inl AssertFail \<and> setFloatReg r v tc = Inl AssertFail
     else \<exists>tc'. setFloatReg r v tc = Inr tc' \<and> ctx_ok tc' \<and> intRegs tc' = intRegs tc \<and>
       (\<forall>q. readFloatReg q tc' = (if q = r then Inr v else readFloatReg q tc))"
proof -
  have len: "length (floatRegs tc) = 32" using assms by (simp add: ctx_ok_def reg_sizes)
  have "readFloatReg q (tc\<lparr>floatRegs := (floatRegs tc)[nat r := v]\<rparr>) = (if q = r then Inr v else readFloatReg q tc)"
    if "0 \<le> r" "r < 32" for q
    using that len by (auto simp: readFloatReg_def flattenFloatIndex_def at_int_def at_def reg_sizes nth_list_update)
  moreover have "setFloatReg r v tc = Inr (tc\<lparr>floatRegs := (floatRegs tc)[nat r := v]\<rparr>)" if "0 \<le> r" "r < 32"
    using that len by (simp add: setFloatReg_def flattenFloatIndex_def reg_sizes)
  moreover have "ctx_ok (tc\<lparr>floatRegs := (floatRegs tc)[nat r := v]\<rparr>)" using assms by (simp add: ctx_ok_def)
  ultimately have "0 \<le> r \<Longrightarrow> r < 32 \<Longrightarrow> ?thesis" by (simp add: reg_sizes)
  then show ?thesis
    by (cases "0 \<le> r \<and> r < 32")
      (auto simp: readFloatReg_def setFloatReg_def flattenFloatIndex_def at_int_def set_int_def reg_sizes)
qed

text \<open>
  Integer and floating point registers: a write to a register of the file is read back,
  changes no other register, and keeps the state well formed; an index that is too large fails the
  assertion, a negative one goes past the front of the array.
\<close>

lemma register_file_correct:
  assumes "ctx_ok tc"
  shows "(if r < 0 then readIntReg r tc = Inl Bad_index \<and> setIntReg r v tc = Inl Bad_index
     else if NumIntRegs \<le> r then readIntReg r tc = Inl AssertFail \<and> setIntReg r v tc = Inl AssertFail
     else \<exists>tc'. setIntReg r v tc = Inr tc' \<and> ctx_ok tc' \<and> floatRegs tc' = floatRegs tc \<and>
       (\<forall>q. readIntReg q tc' = (if q = r then Inr v else readIntReg q tc))) \<and>
    (if r < 0 then readFloatReg r tc = Inl Bad_index \<and> setFloatReg r v tc = Inl Bad_index
     else if NumFloatRegs \<le> r then readFloatReg r tc = Inl AssertFail \<and> setFloatReg r v tc = Inl AssertFail
     else \<exists>tc'. setFloatReg r v tc = Inr tc' \<and> ctx_ok tc' \<and> intRegs tc' = intRegs tc \<and>
       (\<forall>q. readFloatReg q tc' = (if q = r then Inr v else readFloatReg q tc)))"
  using int_reg_correct [OF assms, of r v] float_reg_correct [OF assms, of r v] by (rule conjI)

definition zero_context :: ThreadContext where
  "zero_context = \<lparr>intRegs = replicate 40 0, floatRegs = replicate 32 0, tc_isa = ISA_clear,
     tc_pcState = PCState_set 0, tc_itb = TLB_ctor 48, tc_dtb = TLB_ctor 64\<rparr>"

lemma TLB_ctor_inv: "0 < n \<Longrightarrow> tlb_inv (TLB_ctor n)"
  by (auto simp: tlb_inv_def TLB_ctor_def tab_inv_def zero_entry_def)

lemma zero_context_ok: "ctx_ok zero_context"
  by (simp add: ctx_ok_def zero_context_def ISA_clear_def TLB_ctor_inv reg_sizes)

subsection \<open>Processor registers\<close>

text \<open>
  The registers that can be written and read back without further effect, by number: processor registers,
  and \<open>MISCREG_FPCR\<close>, \<open>MISCREG_UNIQ\<close> and \<open>MISCREG_LOCKADDR\<close>.
\<close>

definition plain_registers :: "int list" where
  "plain_registers = [19..27] @ [29..56] @ [58, 67, 68, 72, 73, 74, 75, 77]"

text \<open>The bits of a register that a write reaches.\<close>

definition implemented_bit :: "int \<Rightarrow> nat \<Rightarrow> bool" where
  "implemented_bit idx k \<longleftrightarrow>
     (if idx = IPR_EXC_ADDR then k \<noteq> 1
      else if idx = IPR_ASTRR \<or> idx = IPR_ASTER then k < 4
      else if idx = IPR_IPLR then k < 5
      else if idx = IPR_DTB_CM \<or> idx = IPR_ICM then k = 3 \<or> k = 4
      else if idx = IPR_SIRR then 4 \<le> k \<and> k < 19
      else if idx = IPR_ICSR then k = 8 \<or> k = 9 \<or> 16 \<le> k \<and> k < 40
      else if idx = IPR_IVPTBR then 30 \<le> k
      else if idx = IPR_DC_MODE \<or> idx = IPR_MAF_MODE then k < 6
      else if idx = IPR_EXC_SUM \<or> idx = IPR_EXC_MASK then False
      else True)"

definition stored_mask :: "int \<Rightarrow> u64" where
  "stored_mask idx = (case ipr_write_mask idx of None \<Rightarrow> - 1 | Some m \<Rightarrow> m)"

lemma stored_mask_bits:
  "list_all (\<lambda>idx. list_all (\<lambda>k. bit (stored_mask idx) k \<longleftrightarrow> implemented_bit idx k) [0..<64]) plain_registers"
  by code_simp

lemma plain_registers_stored:
  "list_all (\<lambda>idx. (idx \<in> set plain_write_iprs \<and> ipr_write_mask idx = None \<or> ipr_write_mask idx \<noteq> None) \<and> idx \<in> set plain_read_iprs)
     (filter (\<lambda>idx. idx < 74) plain_registers)"
  by code_simp

lemma plain_registers_range:
  "idx \<in> set plain_registers \<Longrightarrow> 0 \<le> idx \<and> (idx < 74 \<or> idx = 74 \<or> idx = 75 \<or> idx = 77)"
  by (auto simp: plain_registers_def)

lemma setIpr_plain:
  assumes "idx \<in> set plain_registers" "idx < 74"
  shows "setIpr idx val tc = put_ipr idx (val AND stored_mask idx) tc" "idx \<in> set plain_read_iprs"
proof -
  have c: "idx \<in> set plain_write_iprs \<and> ipr_write_mask idx = None \<or> ipr_write_mask idx \<noteq> None" "idx \<in> set plain_read_iprs"
    using plain_registers_stored assms by (simp_all add: list_all_iff)
  have "idx \<notin> set plain_write_iprs" if "ipr_write_mask idx \<noteq> None"
    using that by (auto simp: ipr_write_mask_def plain_write_iprs_def PALtemps_def split: if_splits)
  then show "setIpr idx val tc = put_ipr idx (val AND stored_mask idx) tc"
    using c(1) by (auto simp: setIpr_def stored_mask_def)
  show "idx \<in> set plain_read_iprs" by (rule c(2))
qed

text \<open>What is read back from a register after \<open>val\<close> was written, bit by bit.\<close>

definition read_back_bit :: "int \<Rightarrow> u64 \<Rightarrow> u64 \<Rightarrow> nat \<Rightarrow> bool" where
  "read_back_bit idx val cyc k \<longleftrightarrow>
     (if idx = IPR_CC then (if k < 32 then bit cyc k else bit val k)
      else if idx = MISCREG_LOCKFLAG then k = 0 \<and> val \<noteq> 0
      else if idx = MISCREG_INTR then bit val (min k 31)
      else implemented_bit idx k \<and> bit val k)"

text \<open>The frame of a register write: every other miscellaneous register, the register files and both buffers.\<close>

definition only_misc :: "int \<Rightarrow> ThreadContext \<Rightarrow> ThreadContext \<Rightarrow> bool" where
  "only_misc idx tc tc' \<longleftrightarrow> (\<forall>j. j \<noteq> idx \<longrightarrow> readMiscRegNoEffect j tc' = readMiscRegNoEffect j tc) \<and>
     intRegs tc' = intRegs tc \<and> floatRegs tc' = floatRegs tc \<and> tc_itb tc' = tc_itb tc \<and> tc_dtb tc' = tc_dtb tc \<and>
     tc_pcState tc' = tc_pcState tc"

lemma ipr_frame:
  assumes "0 \<le> idx"
  shows "only_misc idx tc (tc\<lparr>tc_isa := (tc_isa tc)\<lparr>ipr := (ipr (tc_isa tc))[nat idx := v]\<rparr>\<rparr>)"
  using assms by (auto simp: only_misc_def readMiscRegNoEffect_def get_ipr_def at_int_def at_def nth_list_update)

lemma low_high_bits:
  assumes "k < 64"
  shows "bit ((v AND 0xffffffff00000000) OR (c AND 0x00000000ffffffff) :: u64) k = (if k < 32 then bit c k else bit v k)"
proof -
  have "list_all (\<lambda>k. bit (0xffffffff00000000 :: u64) k = (32 \<le> k) \<and> bit (0x00000000ffffffff :: u64) k = (k < 32)) [0..<64]"
    by code_simp
  then show ?thesis using assms by (auto simp: list_all_iff bit_or_iff bit_and_iff)
qed

lemma named_misc:
  assumes "ctx_ok tc" "set_named_misc idx val (tc_isa tc) = Some i" "k < 64"
  shows "\<exists>v. readMiscReg cyc idx (tc\<lparr>tc_isa := i\<rparr>) = Inr (v, tc\<lparr>tc_isa := i\<rparr>) \<and> (bit v k \<longleftrightarrow> read_back_bit idx val cyc k)"
  using assms
  by (auto simp: set_named_misc_def readMiscReg_def read_back_bit_def implemented_bit_def of_flag_def int32_def bit_simps
      split: if_splits)

text \<open>A write after which a read returns the bits of \<open>read_back_bit\<close>, and that changes nothing else.\<close>

definition reads_back :: "int \<Rightarrow> u64 \<Rightarrow> u64 \<Rightarrow> ThreadContext \<Rightarrow> bool" where
  "reads_back idx val cyc tc \<longleftrightarrow>
     (\<exists>tc' v. setMiscReg idx val tc = Inr tc' \<and> ctx_ok tc' \<and> readMiscReg cyc idx tc' = Inr (v, tc') \<and>
       (\<forall>k < 64. bit v k \<longleftrightarrow> read_back_bit idx val cyc k) \<and> only_misc idx tc tc')"

lemma named_reads_back:
  assumes "ctx_ok tc" "set_named_misc idx val (tc_isa tc) = Some i"
  shows "reads_back idx val cyc tc"
proof -
  let ?tc = "tc\<lparr>tc_isa := i\<rparr>"
  have "ipr i = ipr (tc_isa tc)" "only_misc idx tc ?tc"
    using assms(2) by (auto simp: set_named_misc_def only_misc_def readMiscRegNoEffect_def get_ipr_def split: if_splits)
  moreover from this(1) have "ctx_ok ?tc" using assms(1) by (simp add: ctx_ok_def)
  moreover obtain v where v: "readMiscReg cyc idx ?tc = Inr (v, ?tc)"
    using named_misc [OF assms, of 0 cyc] by auto
  moreover have "\<forall>k < 64. bit v k \<longleftrightarrow> read_back_bit idx val cyc k"
    using named_misc [OF assms, of _ cyc] v by auto
  ultimately show ?thesis
    unfolding reads_back_def using assms(2) by (intro exI [of _ ?tc] exI [of _ v]) (simp add: setMiscReg_def)
qed

lemma ipr_reads_back:
  assumes "ctx_ok tc" "0 \<le> idx" "idx < 74" "setIpr idx val tc = put_ipr idx x tc"
    and "\<And>tc'. ctx_ok tc' \<Longrightarrow> ipr (tc_isa tc') ! nat idx = x \<Longrightarrow> readIpr cyc idx tc' = Inr (v, tc')"
    and "\<And>k. k < 64 \<Longrightarrow> bit v k \<longleftrightarrow> read_back_bit idx val cyc k"
  shows "reads_back idx val cyc tc"
proof -
  let ?tc = "tc\<lparr>tc_isa := (tc_isa tc)\<lparr>ipr := (ipr (tc_isa tc))[nat idx := x]\<rparr>\<rparr>"
  have "set_named_misc idx val (tc_isa tc) = None" using assms(3) by (simp add: set_named_misc_def)
  then have "setMiscReg idx val tc = Inr ?tc" using assms(1-4) by (simp add: setMiscReg_def)
  moreover have "length (ipr (tc_isa tc)) = 74" using assms(1) by (simp add: ctx_ok_def reg_sizes)
  then have "readMiscReg cyc idx ?tc = Inr (v, ?tc)"
    using assms(5) [of ?tc] assms(1-3) by (simp add: readMiscReg_def)
  ultimately show ?thesis
    unfolding reads_back_def using assms(1,6) ipr_frame [OF assms(2), of tc x] by (intro exI [of _ ?tc] exI [of _ v]) simp
qed

lemma CC_reads_back:
  assumes "ctx_ok tc"
  shows "reads_back IPR_CC val cyc tc"
proof (rule ipr_reads_back [OF assms])
  let ?v = "(val AND 0xffffffff00000000) OR (cyc AND 0x00000000ffffffff)"
  show "setIpr IPR_CC val tc = put_ipr IPR_CC val tc" by (simp add: setIpr_def plain_write_iprs_def)
  show "readIpr cyc IPR_CC tc' = Inr (?v, tc')" if "ctx_ok tc'" "ipr (tc_isa tc') ! nat IPR_CC = val" for tc'
    using that by (simp add: readIpr_def plain_read_iprs_def PALtemps_def)
  show "bit ?v k \<longleftrightarrow> read_back_bit IPR_CC val cyc k" if "k < 64" for k
    using low_high_bits [OF that] by (simp add: read_back_bit_def)
qed simp_all

lemma plain_reads_back:
  assumes "ctx_ok tc" "idx \<in> set plain_registers" "0 \<le> idx" "idx < 74" "idx \<noteq> IPR_CC"
  shows "reads_back idx val cyc tc"
proof (rule ipr_reads_back [OF assms(1,3,4)])
  note w = setIpr_plain [OF assms(2,4)]
  show "setIpr idx val tc = put_ipr idx (val AND stored_mask idx) tc" by (rule w(1))
  show "readIpr cyc idx tc' = Inr (val AND stored_mask idx, tc')"
    if "ctx_ok tc'" "ipr (tc_isa tc') ! nat idx = val AND stored_mask idx" for tc'
    using that w(2) assms(3,4) by (simp add: readIpr_def)
  show "bit (val AND stored_mask idx) k \<longleftrightarrow> read_back_bit idx val cyc k" if "k < 64" for k
    using stored_mask_bits assms(2,4,5) that by (auto simp: list_all_iff read_back_bit_def bit_and_iff)
qed

text \<open>
  (C35) Writing and reading back a miscellaneous register that can be written and read without further effect: the
  control register of the floating point unit, the unique value, the lock flag and address, the interrupt flag,
  the cycle counter, and the processor registers of \<open>plain_registers\<close>. The read returns, bit by bit, the value
  written in the bits that the register implements and zero elsewhere; the lock flag reads as 0 or 1, the interrupt flag as the
  sign extension of its low 32 bits, and the cycle counter has the cycles of the processor in its low half. Every other
  miscellaneous register, the register files, the program counter and both translation buffers stay as they
  were.
\<close>

theorem misc_reg_roundtrip:
  assumes "ctx_ok tc" "idx \<in> set plain_registers \<union> {IPR_CC, MISCREG_LOCKFLAG, MISCREG_INTR}"
  shows "\<exists>tc' v. setMiscReg idx val tc = Inr tc' \<and> ctx_ok tc' \<and> readMiscReg cyc idx tc' = Inr (v, tc') \<and>
    (\<forall>k < 64. bit v k \<longleftrightarrow> read_back_bit idx val cyc k) \<and> only_misc idx tc tc'"
proof (cases "set_named_misc idx val (tc_isa tc)")
  case (Some i)
  then show ?thesis using named_reads_back [OF assms(1)] unfolding reads_back_def by blast
next
  case None
  then have n: "idx \<noteq> MISCREG_FPCR" "idx \<noteq> MISCREG_UNIQ" "idx \<noteq> MISCREG_LOCKFLAG" "idx \<noteq> MISCREG_LOCKADDR" "idx \<noteq> MISCREG_INTR"
    by (auto simp: set_named_misc_def split: if_splits)
  then have "0 \<le> idx" "idx < 74" using assms(2) plain_registers_range [of idx] by auto
  then have "reads_back idx val cyc tc"
    using CC_reads_back [OF assms(1)] plain_reads_back [OF assms(1)] assms(2) n by blast
  then show ?thesis by (simp add: reads_back_def)
qed

theorem misc_reg_roundtrip_witness:
  "(\<exists>tc' v. setMiscReg IPR_IPLR 0xff zero_context = Inr tc' \<and> readMiscReg 0 IPR_IPLR tc' = Inr (v, tc') \<and> bit v 4 \<and> \<not> bit v 5) \<and>
   (\<exists>tc' v. setMiscReg MISCREG_INTR 0x80000000 zero_context = Inr tc' \<and> readMiscReg 0 MISCREG_INTR tc' = Inr (v, tc') \<and> bit v 63)"
proof -
  have i: "IPR_IPLR \<in> set plain_registers \<union> {IPR_CC, MISCREG_LOCKFLAG, MISCREG_INTR}"
    "MISCREG_INTR \<in> set plain_registers \<union> {IPR_CC, MISCREG_LOCKFLAG, MISCREG_INTR}" by (simp_all add: plain_registers_def)
  have "read_back_bit IPR_IPLR 0xff 0 4" "\<not> read_back_bit IPR_IPLR 0xff 0 5" "read_back_bit MISCREG_INTR 0x80000000 0 63" by code_simp+
  moreover have "(4 :: nat) < 64" "(5 :: nat) < 64" "(63 :: nat) < 64" by simp_all
  moreover obtain tc1 v1 where "setMiscReg IPR_IPLR 0xff zero_context = Inr tc1" "readMiscReg 0 IPR_IPLR tc1 = Inr (v1, tc1)"
      "\<forall>k < 64. bit v1 k \<longleftrightarrow> read_back_bit IPR_IPLR 0xff 0 k"
    using misc_reg_roundtrip [OF zero_context_ok i(1), of "0xff" 0] by (elim exE conjE)
  moreover obtain tc2 v2 where "setMiscReg MISCREG_INTR 0x80000000 zero_context = Inr tc2"
      "readMiscReg 0 MISCREG_INTR tc2 = Inr (v2, tc2)" "\<forall>k < 64. bit v2 k \<longleftrightarrow> read_back_bit MISCREG_INTR 0x80000000 0 k"
    using misc_reg_roundtrip [OF zero_context_ok i(2), of "0x80000000" 0] by (elim exE conjE)
  ultimately show ?thesis by (intro conjI exI [of _ tc1] exI [of _ v1] exI [of _ tc2] exI [of _ v2]) simp_all
qed

text \<open>A result that is a well-formed state.\<close>

definition good_ctx :: "ThreadContext res \<Rightarrow> bool" where
  "good_ctx r = (\<exists>tc. r = Inr tc \<and> ctx_ok tc)"

lemma good_ctx_Inr [simp]: "good_ctx (Inr tc) = ctx_ok tc" "\<not> good_ctx (Inl e)"
  by (simp_all add: good_ctx_def)

text \<open>An operation on a buffer whose result is stored back keeps the state well formed.\<close>

lemma good_tlb_ops:
  assumes t: "tlb_inv t" and f: "\<And>t'. tlb_inv t' \<Longrightarrow> ctx_ok (f t')"
  shows "good_ctx (bindE (tlb_insert a e t) (\<lambda>t'. Inr (f t')))"
    "good_ctx (bindE (tlb_flushAddr a n t) (\<lambda>t'. Inr (f t')))"
    "good_ctx (bindE (tlb_flushProcesses t) (\<lambda>t'. Inr (f t')))"
    "good_ctx (Inr (f (tlb_flushAll t)))"
  using tlb_insert_spec [OF t, of a e] tlb_flush_spec [OF t, of a n] f
  by (auto simp: good_ctx_def)

lemma ctx_ok_tlbs:
  "ctx_ok tc \<Longrightarrow> tlb_inv (tc_dtb tc)" "ctx_ok tc \<Longrightarrow> tlb_inv (tc_itb tc)"
  "ctx_ok tc \<Longrightarrow> tlb_inv t \<Longrightarrow>
     ctx_ok (tc\<lparr>tc_isa := (tc_isa tc)\<lparr>ipr := (ipr (tc_isa tc))[n := v]\<rparr>, tc_dtb := t\<rparr>)"
  "ctx_ok tc \<Longrightarrow> tlb_inv t \<Longrightarrow>
     ctx_ok (tc\<lparr>tc_isa := (tc_isa tc)\<lparr>ipr := (ipr (tc_isa tc))[n := v]\<rparr>, tc_itb := t\<rparr>)"
  by (auto simp: ctx_ok_def)

lemma tlb_flushAll_inv [simp]: "tlb_inv t \<Longrightarrow> tlb_inv (tlb_flushAll t)"
  using tlb_flush_spec by blast

text \<open>
  The writes that panic: registers that do not exist, that are read only or that \<open>setIpr\<close> does not list, and the
  two that enter a translation whose granularity hint is not zero.
\<close>

definition write_panics :: "int \<Rightarrow> u64 \<Rightarrow> ThreadContext \<Rightarrow> bool" where
  "write_panics idx val tc \<longleftrightarrow> idx < 0 \<or> 78 < idx \<or> 9 \<le> idx \<and> idx \<le> 15 \<or> idx \<in> {28, 61, 62, 70, 71} \<or>
     idx = 59 \<and> drop_bit 5 (ipr (tc_isa tc) ! 60) AND 3 \<noteq> 0 \<or> idx = 16 \<and> drop_bit 5 val AND 3 \<noteq> 0"

lemma write_tags_outcome:
  assumes "ctx_ok tc"
  shows "if drop_bit 5 (ipr (tc_isa tc) ! 60) AND 3 \<noteq> 0 then write_dtb_tag val tc = Inl Panic else good_ctx (write_dtb_tag val tc)"
    "if drop_bit 5 val AND 3 \<noteq> 0 then write_itb_pte val tc = Inl Panic else good_ctx (write_itb_pte val tc)"
  using assms by (auto simp: write_dtb_tag_def write_itb_pte_def DTB_PTE_GH_def ITB_PTE_GH_def intro!: good_tlb_ops ctx_ok_tlbs)

lemma setIpr_stores:
  assumes "ctx_ok tc" "idx \<in> set plain_write_iprs \<or> ipr_write_mask idx \<noteq> None"
  shows "good_ctx (setIpr idx val tc)"
proof -
  have "\<exists>v. setIpr idx val tc = put_ipr idx v tc" using assms(2) by (auto simp: setIpr_def)
  moreover have "0 \<le> idx" "idx < 74" using assms(2) plain_iprs_range(1,3) [of idx] by auto
  ultimately show ?thesis using assms(1) by auto
qed

definition setIpr_cases :: "int list" where
  "setIpr_cases = [5, 6, 7, 8, 16, 18, 59, 64, 66]"

lemma register_cases:
  "list_all (\<lambda>idx. idx \<in> set plain_write_iprs \<or> ipr_write_mask idx \<noteq> None \<or> idx \<in> set setIpr_cases \<or>
     9 \<le> idx \<and> idx \<le> 15 \<or> idx \<in> set [28, 61, 62, 70, 71]) [0..73]"
  by code_simp

lemma setIpr_outcome:
  assumes "ctx_ok tc" "idx \<notin> {74..78}"
  shows "if idx = IPR_CC_CTL \<and> ipr (tc_isa tc) ! 66 \<noteq> 0 then setIpr idx val tc = Inl AssertFail
    else if write_panics idx val tc then setIpr idx val tc = Inl Panic else good_ctx (setIpr idx val tc)"
proof -
  consider "idx \<in> set plain_write_iprs \<or> ipr_write_mask idx \<noteq> None" | "idx \<in> set setIpr_cases"
    | "idx \<notin> set plain_write_iprs" "ipr_write_mask idx = None" "idx \<notin> set setIpr_cases" by blast
  then show ?thesis
  proof cases
    case 1
    then have "idx \<noteq> 66" "\<not> write_panics idx val tc"
      by (auto simp: write_panics_def plain_write_iprs_def PALtemps_def ipr_write_mask_def split: if_splits)
    then show ?thesis using setIpr_stores [OF assms(1) 1, of val] by simp
  next
    case 2
    then have n: "idx \<notin> set plain_write_iprs" "ipr_write_mask idx = None"
      by (auto simp: setIpr_cases_def plain_write_iprs_def PALtemps_def ipr_write_mask_def)
    from 2 consider "idx = 66" | "idx = 59" | "idx = 16" | "idx \<in> {5, 6, 7, 8, 18, 64}" by (auto simp: setIpr_cases_def)
    then show ?thesis
    proof cases
      case 1
      then show ?thesis using assms(1) n by (simp add: setIpr_def write_panics_def)
    next
      case 2
      then show ?thesis using write_tags_outcome(1) [OF assms(1), of val] n by (simp add: setIpr_def write_panics_def)
    next
      case 3
      then show ?thesis using write_tags_outcome(2) [OF assms(1), of val] n by (simp add: setIpr_def write_panics_def)
    next
      case 4
      then have "good_ctx (setIpr idx val tc)" "idx \<noteq> 66" "\<not> write_panics idx val tc"
        using assms(1) n by (auto simp: setIpr_def write_panics_def intro!: good_tlb_ops ctx_ok_tlbs tlb_flushAll_inv)
      then show ?thesis by simp
    qed
  next
    case 3
    then have "setIpr idx val tc = Inl Panic" by (simp add: setIpr_def setIpr_cases_def)
    moreover have "write_panics idx val tc"
    proof (cases "0 \<le> idx \<and> idx \<le> 73")
      case True
      then have "idx \<in> set [0..73]" by simp
      then show ?thesis using register_cases 3 unfolding list_all_iff by (auto simp: write_panics_def)
    qed (use assms(2) in \<open>auto simp: write_panics_def\<close>)
    moreover have "idx \<noteq> IPR_CC_CTL" using 3(3) by (auto simp: setIpr_cases_def)
    ultimately show ?thesis by simp
  qed
qed

text \<open>
  (C34) The outcome of every write of a miscellaneous register, whatever its number and value, in a well-formed state. A
  second write of \<open>IPR_CC_CTL\<close> fails its assertion, and this is the only assertion that can fail; a write
  to a register that does not exist, is read only or is not listed by \<open>setIpr\<close>, and one that enters a translation with a
  granularity hint, panics; every other write returns a state with register arrays and translation buffers well
  formed, so that nothing reaches outside them.
\<close>

theorem setMiscReg_safe:
  assumes "ctx_ok tc"
  shows "if idx = IPR_CC_CTL \<and> ipr (tc_isa tc) ! 66 \<noteq> 0 then setMiscReg idx val tc = Inl AssertFail
    else if write_panics idx val tc then setMiscReg idx val tc = Inl Panic
    else \<exists>tc'. setMiscReg idx val tc = Inr tc' \<and> ctx_ok tc'"
proof (cases "set_named_misc idx val (tc_isa tc)")
  case None
  then have "idx \<notin> {74..78}" by (auto simp: set_named_misc_def split: if_splits)
  moreover have eq: "setMiscReg idx val tc = setIpr idx val tc" using None by (simp add: setMiscReg_def)
  ultimately show ?thesis unfolding good_ctx_def [symmetric] eq using setIpr_outcome [OF assms] by blast
next
  case (Some i)
  then have "ipr i = ipr (tc_isa tc)" "74 \<le> idx" "idx \<le> 78" by (auto simp: set_named_misc_def split: if_splits)
  then show ?thesis using Some assms by (simp add: setMiscReg_def ctx_ok_def write_panics_def)
qed

theorem setMiscReg_safe_witness:
  "(\<exists>tc'. setMiscReg IPR_DTB_TAG 0xA000 zero_context = Inr tc' \<and> ctx_ok tc') \<and>
   setMiscReg IPR_ISR 1 zero_context = Inl Panic \<and>
   (\<exists>tc'. setMiscReg IPR_CC_CTL 1 zero_context = Inr tc' \<and> ctx_ok tc')"
proof -
  have z: "ipr (tc_isa zero_context) ! 66 = 0" "ipr (tc_isa zero_context) ! 60 = 0"
    by (simp_all add: zero_context_def ISA_clear_def reg_sizes)
  show ?thesis
    using setMiscReg_safe [OF zero_context_ok, of IPR_DTB_TAG "0xA000"] setMiscReg_safe [OF zero_context_ok, of IPR_ISR 1]
      setMiscReg_safe [OF zero_context_ok, of IPR_CC_CTL 1] by (simp add: write_panics_def z)
qed

end
