(* ===== verification/Alpha_Vm.thy ===== *)
theory Alpha_Vm
  imports Alpha_Isa
begin

text \<open>
  Address translation: the software walk of the page table in \<open>src/src/arch/alpha/vtophys.cc\<close> with the
  address and page table entry classes of \<open>pagetable.hh\<close> and \<open>utility.hh\<close>, and the translations of
  \<open>tlb.cc\<close>. Memory is read through an argument, as the code reads it through a \<open>PortProxy\<close>.
  The hit and miss statistics are left out.
\<close>

section \<open>Software translation\<close>

definition PteShift :: nat where "PteShift = 3"
definition NPtePageShift :: nat where "NPtePageShift = PageShift - PteShift"
definition PteMask :: u64 where "PteMask = mask 10"

definition PteAddr :: "Addr \<Rightarrow> Addr" where "PteAddr a = push_bit PteShift (a AND PteMask)"

definition level3 :: "Addr \<Rightarrow> Addr" where "level3 a = PteAddr (drop_bit PageShift a)"
definition level2 :: "Addr \<Rightarrow> Addr" where "level2 a = PteAddr (drop_bit (NPtePageShift + PageShift) a)"
definition level1 :: "Addr \<Rightarrow> Addr" where "level1 a = PteAddr (drop_bit (2 * NPtePageShift + PageShift) a)"

definition pte_valid :: "u64 \<Rightarrow> bool" where "pte_valid e \<longleftrightarrow> e AND 1 \<noteq> 0"
definition pte_pfn :: "u64 \<Rightarrow> Addr" where "pte_pfn e = drop_bit 32 e AND 0xffffffff"
definition pte_paddr :: "u64 \<Rightarrow> Addr" where "pte_paddr e = push_bit PageShift (pte_pfn e)"

definition PcPAL :: "Addr \<Rightarrow> bool" where "PcPAL a \<longleftrightarrow> a AND 3 \<noteq> 0"
definition PalMax :: Addr where "PalMax = 0x10000"
definition K0SegBase :: Addr where "K0SegBase = 0xfffffc0000000000"
definition K0SegEnd :: Addr where "K0SegEnd = 0xfffffdffffffffff"
definition USegEnd :: Addr where "USegEnd = 0x000003ffffffffff"

definition IsK0Seg :: "Addr \<Rightarrow> bool" where "IsK0Seg a \<longleftrightarrow> K0SegBase \<le> a \<and> a \<le> K0SegEnd"
definition IsUSeg :: "Addr \<Rightarrow> bool" where "IsUSeg a \<longleftrightarrow> 0 \<le> a \<and> a \<le> USegEnd"
definition K0Seg2Phys :: "Addr \<Rightarrow> Addr" where "K0Seg2Phys a = a AND NOT K0SegBase"

definition Phys2K0Seg :: "Addr \<Rightarrow> Addr" where
  "Phys2K0Seg addr =
     (let addr = (if addr AND 0x80000000000 \<noteq> 0 then (addr AND 0x807ffffffff) OR 0x10000000000 else addr)
      in addr OR K0SegBase)"

definition kernel_pte_lookup :: "(Addr \<Rightarrow> u64 res) \<Rightarrow> Addr \<Rightarrow> Addr \<Rightarrow> u64 res" where
  "kernel_pte_lookup mem ptbr vaddr =
     bindE (mem (ptbr + level1 vaddr)) (\<lambda>l1.
       if \<not> pte_valid l1 then Inr 0
       else bindE (mem (pte_paddr l1 + level2 vaddr)) (\<lambda>l2.
         if \<not> pte_valid l2 then Inr 0
         else bindE (mem (pte_paddr l2 + level3 vaddr)) (\<lambda>l3.
           if \<not> pte_valid l3 then Inr 0 else Inr l3)))"

definition vtophys_kernel :: "Addr \<Rightarrow> Addr res" where
  "vtophys_kernel vaddr =
     (if IsUSeg vaddr then Inr 0 else if IsK0Seg vaddr then Inr (K0Seg2Phys vaddr) else Inl Panic)"

definition vtophys :: "(Addr \<Rightarrow> u64 res) \<Rightarrow> ThreadContext \<Rightarrow> Addr \<Rightarrow> Addr res" where
  "vtophys mem tc addr =
     bindE (readMiscRegNoEffect IPR_PALtemp20 tc) (\<lambda>ptbr.
       if PcPAL addr \<and> addr < PalMax then Inr (addr AND NOT 1)
       else if IsK0Seg addr then Inr (K0Seg2Phys addr)
       else if ptbr = 0 then Inr addr
       else bindE (kernel_pte_lookup mem ptbr addr) (\<lambda>pte.
              if pte_valid pte then Inr (pte_paddr pte OR page_offset addr) else Inr 0))"

section \<open>Hardware translation\<close>

record Request =
  rq_vaddr :: Addr
  rq_paddr :: Addr
  rq_pc :: Addr
  rq_size :: int
  rq_PHYSICAL :: bool
  rq_ALTMODE :: bool
  rq_VPTE :: bool
  rq_UNCACHEABLE :: bool

text \<open>The faults the translations return, with the flags of the data faults.\<close>

datatype tlb_fault =
    NoFault
  | UnimpFault
  | MachineCheckFault
  | ItbAcvFault Addr
  | ItbPageFault Addr
  | DtbAlignmentFault Addr u64
  | DtbPageFault Addr u64
  | DtbAcvFault Addr u64
  | PDtbMissFault Addr u64
  | NDtbMissFault Addr u64

datatype tlb_mode = Read | Write | Execute

definition MM_STAT_BAD_VA_MASK :: u64 where "MM_STAT_BAD_VA_MASK = 0x20"
definition MM_STAT_DTB_MISS_MASK :: u64 where "MM_STAT_DTB_MISS_MASK = 0x10"
definition MM_STAT_FONW_MASK :: u64 where "MM_STAT_FONW_MASK = 0x8"
definition MM_STAT_FONR_MASK :: u64 where "MM_STAT_FONR_MASK = 0x4"
definition MM_STAT_ACV_MASK :: u64 where "MM_STAT_ACV_MASK = 0x2"
definition MM_STAT_WR_MASK :: u64 where "MM_STAT_WR_MASK = 0x1"

definition mode_kernel :: u64 where "mode_kernel = 0"

definition VAddrSpaceEV6 :: "Addr \<Rightarrow> Addr" where "VAddrSpaceEV6 a = drop_bit 41 a AND 0x7f"

definition PAddrUncachedBit40 :: Addr where "PAddrUncachedBit40 = 0x10000000000"
definition PAddrUncachedBit43 :: Addr where "PAddrUncachedBit43 = 0x80000000000"
definition PAddrUncachedMask :: Addr where "PAddrUncachedMask = 0x807ffffffff"
definition PAddrIprSpace :: "Addr \<Rightarrow> bool" where "PAddrIprSpace a \<longleftrightarrow> 0xFFFFFF00000 \<le> a"

definition checkCacheability :: "Request \<Rightarrow> bool \<Rightarrow> tlb_fault \<times> Request" where
  "checkCacheability req itb =
     (if rq_paddr req AND PAddrUncachedBit43 \<noteq> 0 then
        (if PAddrIprSpace (rq_paddr req) then (UnimpFault, req)
         else let req = req\<lparr>rq_UNCACHEABLE := True, rq_paddr := rq_paddr req AND PAddrUncachedMask\<rparr>
              in if rq_UNCACHEABLE req \<and> itb then (UnimpFault, req) else (NoFault, req))
      else (NoFault, req))"

text \<open>The direct mapping of a kernel address, and the final check of the physical address.\<close>

definition superpage_paddr :: "Addr \<Rightarrow> Addr" where
  "superpage_paddr vaddr =
     (let p = vaddr AND PAddrImplMask
      in if p AND PAddrUncachedBit40 \<noteq> 0 then p OR 0xf0000000000 else p AND 0xffffffffff)"

definition finish_translation :: "Request \<Rightarrow> bool \<Rightarrow> tlb_fault \<times> Request" where
  "finish_translation req itb =
     (if rq_paddr req AND NOT PAddrImplMask \<noteq> 0 then (MachineCheckFault, req)
      else checkCacheability req itb)"

text \<open>The part of \<open>translateInst\<close> for a paged address, given the mode and the address space.\<close>

definition inst_paged :: "u64 \<Rightarrow> u8 \<Rightarrow> Request \<Rightarrow> TLB \<Rightarrow> (tlb_fault \<times> Request \<times> TLB) res" where
  "inst_paged mode asn req t =
     bindE (tlb_lookup (vpn (rq_vaddr req)) asn t) (\<lambda>(r, t).
       case r of None \<Rightarrow> Inr (ItbPageFault (rq_vaddr req), req, t)
       | Some i \<Rightarrow> bindE (at (tlb_table t) i) (\<lambda>e.
           let req = req\<lparr>rq_paddr := push_bit PageShift (e_ppn e) + (page_offset (rq_vaddr req) AND NOT 3)\<rparr>
           in if \<not> bit (e_xre e) (unat mode) then Inr (ItbAcvFault (rq_vaddr req), req, t)
              else case finish_translation req True of (f, req) \<Rightarrow> Inr (f, req, t)))"

definition translateInst ::
  "bool \<Rightarrow> Request \<Rightarrow> ThreadContext \<Rightarrow> TLB \<Rightarrow> (tlb_fault \<times> Request \<times> TLB) res" where
  "translateInst FullSystem req tc t =
     (let req = (if FullSystem \<and> PcPAL (rq_pc req) then req\<lparr>rq_PHYSICAL := True\<rparr> else req);
          done = (\<lambda>(req, t). case finish_translation req True of (f, req) \<Rightarrow> Inr (f, req, t))
      in if PcPAL (rq_pc req) then
           Inr (NoFault, req\<lparr>rq_paddr := rq_vaddr req AND NOT 3 AND PAddrImplMask\<rparr>, t)
         else if rq_PHYSICAL req then done (req\<lparr>rq_paddr := rq_vaddr req\<rparr>, t)
         else if \<not> validVirtualAddress (rq_vaddr req) then Inr (ItbAcvFault (rq_vaddr req), req, t)
         else bindE (readMiscRegNoEffect IPR_ICM tc) (\<lambda>icm.
           if VAddrSpaceEV6 (rq_vaddr req) = 0x7e then
             (if ICM_CM icm \<noteq> mode_kernel then Inr (ItbAcvFault (rq_vaddr req), req, t)
              else done (req\<lparr>rq_paddr := superpage_paddr (rq_vaddr req)\<rparr>, t))
           else bindE (readMiscRegNoEffect IPR_DTB_ASN tc) (\<lambda>asn.
             inst_paged (ICM_CM icm) (DTB_ASN_ASN asn) req t)))"

text \<open>The permission check of a data access: the fault, or none.\<close>

definition data_permission :: "bool \<Rightarrow> u64 \<Rightarrow> Addr \<Rightarrow> TlbEntry \<Rightarrow> tlb_fault" where
  "data_permission write mode vaddr e =
     (if write then
        (if \<not> bit (e_xwe e) (unat mode) then
           DtbPageFault vaddr (MM_STAT_WR_MASK OR MM_STAT_ACV_MASK OR (if e_fonw e then MM_STAT_FONW_MASK else 0))
         else if e_fonw e then DtbPageFault vaddr (MM_STAT_WR_MASK OR MM_STAT_FONW_MASK)
         else NoFault)
      else
        (if \<not> bit (e_xre e) (unat mode) then
           DtbAcvFault vaddr (MM_STAT_ACV_MASK OR (if e_fonr e then MM_STAT_FONR_MASK else 0))
         else if e_fonr e then DtbPageFault vaddr MM_STAT_FONR_MASK
         else NoFault))"

definition data_mode :: "Request \<Rightarrow> u64 \<Rightarrow> u64 \<Rightarrow> u64" where
  "data_mode req cm alt =
     (if PcPAL (rq_pc req) then (if rq_ALTMODE req then ALT_MODE_AM alt else mode_kernel)
      else DTB_CM_CM cm)"

text \<open>The part of \<open>translateData\<close> for a paged address, given the mode and the address space.\<close>

definition data_paged ::
  "bool \<Rightarrow> u64 \<Rightarrow> u8 \<Rightarrow> Request \<Rightarrow> TLB \<Rightarrow> (tlb_fault \<times> Request \<times> TLB) res" where
  "data_paged write mode asn req t =
     bindE (tlb_lookup (vpn (rq_vaddr req)) asn t) (\<lambda>(r, t).
       case r of
         None \<Rightarrow>
           let flags = (if write then MM_STAT_WR_MASK else 0) OR MM_STAT_DTB_MISS_MASK
           in Inr (if rq_VPTE req then PDtbMissFault (rq_vaddr req) flags
                   else NDtbMissFault (rq_vaddr req) flags, req, t)
       | Some i \<Rightarrow> bindE (at (tlb_table t) i) (\<lambda>e.
           let req = req\<lparr>rq_paddr := push_bit PageShift (e_ppn e) + page_offset (rq_vaddr req)\<rparr>;
               f = data_permission write mode (rq_vaddr req) e
           in if f \<noteq> NoFault then Inr (f, req, t)
              else case finish_translation req False of (f, req) \<Rightarrow> Inr (f, req, t)))"

definition translateData ::
  "Request \<Rightarrow> ThreadContext \<Rightarrow> bool \<Rightarrow> TLB \<Rightarrow> (tlb_fault \<times> Request \<times> TLB) res" where
  "translateData req tc write t =
     bindE (readMiscRegNoEffect IPR_DTB_CM tc) (\<lambda>cm.
     bindE (readMiscRegNoEffect IPR_ALT_MODE tc) (\<lambda>alt.
     let wr = (if write then MM_STAT_WR_MASK else 0);
         done = (\<lambda>(req, t). case finish_translation req False of (f, req) \<Rightarrow> Inr (f, req, t))
     in if rq_vaddr req AND word_of_int (rq_size req - 1) \<noteq> 0 then
          Inr (DtbAlignmentFault (rq_vaddr req) wr, req, t)
        else if rq_PHYSICAL req then done (req\<lparr>rq_paddr := rq_vaddr req\<rparr>, t)
        else if \<not> validVirtualAddress (rq_vaddr req) then
          Inr (DtbPageFault (rq_vaddr req) (wr OR MM_STAT_BAD_VA_MASK OR MM_STAT_ACV_MASK), req, t)
        else if VAddrSpaceEV6 (rq_vaddr req) = 0x7e then
          (if DTB_CM_CM cm \<noteq> mode_kernel then
             Inr (DtbAcvFault (rq_vaddr req) (wr OR MM_STAT_ACV_MASK), req, t)
           else done (req\<lparr>rq_paddr := superpage_paddr (rq_vaddr req)\<rparr>, t))
        else bindE (readMiscRegNoEffect IPR_DTB_ASN tc) (\<lambda>asn.
          data_paged write (data_mode req cm alt) (DTB_ASN_ASN asn) req t)))"

definition translateAtomic ::
  "bool \<Rightarrow> Request \<Rightarrow> ThreadContext \<Rightarrow> tlb_mode \<Rightarrow> TLB \<Rightarrow> (tlb_fault \<times> Request \<times> TLB) res" where
  "translateAtomic FullSystem req tc mode t =
     (if mode = Execute then translateInst FullSystem req tc t
      else translateData req tc (mode = Write) t)"

section \<open>Properties of the translations\<close>

lemma readMiscRegNoEffect_ipr:
  "0 \<le> i \<Longrightarrow> i < 74 \<Longrightarrow> readMiscRegNoEffect i tc = get_ipr i tc"
  by (simp add: readMiscRegNoEffect_def reg_sizes)

lemma checkCacheability_paddr:
  assumes "checkCacheability req itb = (NoFault, req')"
  shows "rq_paddr req' = rq_paddr req \<or> rq_paddr req' = rq_paddr req AND PAddrUncachedMask \<and> \<not> itb"
    "rq_vaddr req' = rq_vaddr req"
  using assms by (auto simp: checkCacheability_def Let_def split: if_splits)

lemma finish_translation_paddr:
  assumes "finish_translation req itb = (NoFault, req')"
  shows "rq_paddr req' AND NOT PAddrImplMask = 0"
    "rq_paddr req' = rq_paddr req \<or> rq_paddr req' = rq_paddr req AND PAddrUncachedMask \<and> \<not> itb"
proof -
  have ok: "rq_paddr req AND NOT PAddrImplMask = 0" "checkCacheability req itb = (NoFault, req')"
    using assms by (auto simp: finish_translation_def split: if_splits)
  have "(p AND m) AND NOT PAddrImplMask = (p AND NOT PAddrImplMask) AND m" for p m :: u64
    by (simp add: ac_simps)
  then show "rq_paddr req' AND NOT PAddrImplMask = 0"
    using checkCacheability_paddr [OF ok(2)] ok(1) by auto
  show "rq_paddr req' = rq_paddr req \<or> rq_paddr req' = rq_paddr req AND PAddrUncachedMask \<and> \<not> itb"
    by (rule checkCacheability_paddr [OF ok(2)])
qed

lemma tlb_lookup_hit:
  assumes "tlb_inv t" "tlb_lookup v n t = Inr (Some i, t')"
  shows "tlb_holds t v n i" "tlb_table t' = tlb_table t"
  using tlb_lookup_spec [OF assms(1), of v n] assms(2) by (auto split: if_splits)

text \<open>What an access of some mode may do with an entry.\<close>

definition entry_permits :: "bool \<Rightarrow> u64 \<Rightarrow> TlbEntry \<Rightarrow> bool" where
  "entry_permits write mode e \<longleftrightarrow>
     (if write then bit (e_xwe e) (unat mode) \<and> \<not> e_fonw e else bit (e_xre e) (unat mode) \<and> \<not> e_fonr e)"

lemma data_permission_NoFault:
  "data_permission write mode v e = NoFault \<longleftrightarrow> entry_permits write mode e"
  by (simp add: data_permission_def entry_permits_def)

text \<open>The physical address an entry gives to a virtual one.\<close>

definition entry_paddr :: "TlbEntry \<Rightarrow> Addr \<Rightarrow> Addr" where
  "entry_paddr e vaddr = push_bit PageShift (e_ppn e) + page_offset vaddr"

lemma data_paged_ok:
  assumes tlb: "tlb_inv t" and r: "data_paged write mode asn req t = Inr (NoFault, req', t')"
  shows "\<exists>i. tlb_holds t (vpn (rq_vaddr req)) asn i \<and> entry_permits write mode (tlb_table t ! i) \<and>
    finish_translation (req\<lparr>rq_paddr := entry_paddr (tlb_table t ! i) (rq_vaddr req)\<rparr>) False = (NoFault, req')"
proof -
  obtain i t1 where l: "tlb_lookup (vpn (rq_vaddr req)) asn t = Inr (Some i, t1)"
    using r by (auto simp: data_paged_def bindE_eq_Inr Let_def split: option.splits if_splits)
  note hit = tlb_lookup_hit [OF tlb l]
  have "i < length (tlb_table t)" using hit(1) by (simp add: tlb_holds_def)
  then have "data_permission write mode (rq_vaddr req) (tlb_table t ! i) = NoFault \<and>
      finish_translation (req\<lparr>rq_paddr := entry_paddr (tlb_table t ! i) (rq_vaddr req)\<rparr>) False = (NoFault, req')"
    using r l hit(2) by (auto simp: data_paged_def Let_def entry_paddr_def split: if_splits prod.splits)
  then show ?thesis using hit(1) data_permission_NoFault by blast
qed

text \<open>
  (C32) Protection: when a data access outside kernel mode, not from PAL code and not marked
  physical, is translated without a fault, then the access is aligned, its address is a valid one
  outside the direct mapping, the buffer holds an entry for its page in the current
  address space that permits the access in the current mode without fault-on-access bits, and
  the physical address is the one of that entry (with the device bits cleared when uncached)
  and has no unimplemented bits.
\<close>

theorem user_data_access_protected:
  assumes "tlb_inv t"
    and "get_ipr IPR_DTB_CM tc = Inr cm" "get_ipr IPR_DTB_ASN tc = Inr asn" "DTB_CM_CM cm \<noteq> mode_kernel"
    and "\<not> PcPAL (rq_pc req)" "\<not> rq_PHYSICAL req"
    and "translateData req tc write t = Inr (NoFault, req', t')"
  shows "rq_vaddr req AND word_of_int (rq_size req - 1) = 0 \<and> validVirtualAddress (rq_vaddr req) \<and>
    VAddrSpaceEV6 (rq_vaddr req) \<noteq> 0x7e \<and> rq_paddr req' AND NOT PAddrImplMask = 0 \<and>
    (\<exists>i. tlb_holds t (vpn (rq_vaddr req)) (DTB_ASN_ASN asn) i \<and>
       entry_permits write (DTB_CM_CM cm) (tlb_table t ! i) \<and>
       rq_paddr req' \<in> {entry_paddr (tlb_table t ! i) (rq_vaddr req),
         entry_paddr (tlb_table t ! i) (rq_vaddr req) AND PAddrUncachedMask})"
proof -
  obtain alt where alt: "readMiscRegNoEffect IPR_ALT_MODE tc = Inr alt"
    using assms(7) by (auto simp: translateData_def bindE_eq_Inr)
  have "rq_vaddr req AND word_of_int (rq_size req - 1) = 0 \<and> validVirtualAddress (rq_vaddr req) \<and>
      VAddrSpaceEV6 (rq_vaddr req) \<noteq> 0x7e \<and>
      data_paged write (DTB_CM_CM cm) (DTB_ASN_ASN asn) req t = Inr (NoFault, req', t')"
    using assms(2-7) alt
    by (auto simp: translateData_def readMiscRegNoEffect_ipr Let_def data_mode_def split: if_splits)
  moreover from this obtain i where i: "tlb_holds t (vpn (rq_vaddr req)) (DTB_ASN_ASN asn) i"
      "entry_permits write (DTB_CM_CM cm) (tlb_table t ! i)"
      "finish_translation (req\<lparr>rq_paddr := entry_paddr (tlb_table t ! i) (rq_vaddr req)\<rparr>) False = (NoFault, req')"
    using data_paged_ok [OF assms(1)] by blast
  moreover note finish_translation_paddr [OF i(3)]
  ultimately show ?thesis by auto
qed

definition user_context :: ThreadContext where
  "user_context = zero_context\<lparr>tc_isa := ISA_clear\<lparr>ipr := (replicate 74 0)[57 := 0x1200000000000000, 58 := 0x18]\<rparr>\<rparr>"

definition user_request :: Request where
  "user_request = \<lparr>rq_vaddr = 0xA008, rq_paddr = 0, rq_pc = 0x1000, rq_size = 8, rq_PHYSICAL = False,
     rq_ALTMODE = False, rq_VPTE = False, rq_UNCACHEABLE = False\<rparr>"

theorem user_data_access_protected_witness:
  "\<exists>req' t'. translateData user_request user_context True tlb_sample = Inr (NoFault, req', t') \<and>
     rq_paddr req' AND NOT PAddrImplMask = 0"
proof -
  have ipr: "get_ipr IPR_DTB_CM user_context = Inr 0x18" "get_ipr IPR_DTB_ASN user_context = Inr 0x1200000000000000"
      "get_ipr IPR_ALT_MODE user_context = Inr 0"
    by (simp_all add: get_ipr_def user_context_def zero_context_def)
  have v: "vpn 0xA008 = 5" "vpn 0xA000 = 5" "vpn 0x4000 = 2"
    by (simp_all add: vpn_def VAddr_ImplMask_def PageShift_def mask_eq_exp_minus_1)
  have l: "tlb_lookup 5 9 tlb_sample = Inr (Some 1, updateCache 1 tlb_sample)"
    using v by (simp add: tlb_lookup_def cache_lookup_def tlb_sample_def mm_find_def entry_matches_def
        TlbEntry_ctor_def)
  have "\<exists>req' t'. translateData user_request user_context True tlb_sample = Inr (NoFault, req', t')"
    by (simp add: translateData_def readMiscRegNoEffect_ipr ipr user_request_def PcPAL_def
        validVirtualAddress_def VAddr_ImplMask_def VAddrSpaceEV6_def DTB_CM_CM_def DTB_ASN_ASN_def AsnMask_def
        data_paged_def v l data_permission_def data_mode_def finish_translation_def checkCacheability_def
        PAddrImplMask_def PAddrUncachedBit43_def PageShift_def page_offset_def PageOffset_def
        mask_eq_exp_minus_1 Let_def)
      (simp add: tlb_sample_def TlbEntry_ctor_def v bit_iff_odd finish_translation_def
        checkCacheability_def PAddrImplMask_def PAddrUncachedBit43_def mask_eq_exp_minus_1)
  then obtain req' t' where r: "translateData user_request user_context True tlb_sample = Inr (NoFault, req', t')"
    by blast
  then show ?thesis
    using user_data_access_protected [OF tlb_sample_inv ipr(1,2) _ _ _ r]
    by (auto simp: DTB_CM_CM_def mode_kernel_def user_request_def PcPAL_def)
qed

end
