(* ===== verification/Std_Map.thy ===== *)
theory Std_Map
  imports FI_Prelude
begin

text \<open>
  \<open>std::map\<close> as the sources use it: an association list kept in ascending key order (the order
  of iteration), with \<open>find\<close>, \<open>insert\<close> (which does not overwrite) and assignment through
  \<open>operator[]\<close>. The contract clients rely on is a locale.
\<close>

fun map_find :: "'k::linorder \<Rightarrow> ('k \<times> 'v) list \<Rightarrow> 'v option" where
  "map_find k [] = None"
| "map_find k ((k', v) # m) = (if k = k' then Some v else map_find k m)"

fun map_assign :: "'k::linorder \<Rightarrow> 'v \<Rightarrow> ('k \<times> 'v) list \<Rightarrow> ('k \<times> 'v) list" where
  "map_assign k v [] = [(k, v)]"
| "map_assign k v ((k', v') # m) =
     (if k < k' then (k, v) # (k', v') # m
      else if k = k' then (k, v) # m else (k', v') # map_assign k v m)"

definition map_insert :: "'k::linorder \<Rightarrow> 'v \<Rightarrow> ('k \<times> 'v) list \<Rightarrow> ('k \<times> 'v) list" where
  "map_insert k v m = (case map_find k m of None \<Rightarrow> map_assign k v m | Some _ \<Rightarrow> m)"

definition map_ok :: "('k::linorder \<times> 'v) list \<Rightarrow> bool" where
  "map_ok m \<longleftrightarrow> sorted_wrt (<) (map fst m)"

locale associative_container =
  fixes find :: "'k \<Rightarrow> 'm \<Rightarrow> 'v option"
    and assign :: "'k \<Rightarrow> 'v \<Rightarrow> 'm \<Rightarrow> 'm"
    and insert_new :: "'k \<Rightarrow> 'v \<Rightarrow> 'm \<Rightarrow> 'm"
    and items :: "'m \<Rightarrow> ('k \<times> 'v) list"
    and ok :: "'m \<Rightarrow> bool"
  assumes find_items: "ok m \<Longrightarrow> find k m = map_of (items m) k"
    and keys_distinct: "ok m \<Longrightarrow> distinct (map fst (items m))"
    and find_assign: "ok m \<Longrightarrow> find k (assign k' v m) = (if k = k' then Some v else find k m)"
    and ok_assign: "ok m \<Longrightarrow> ok (assign k v m)"
    and insert_new: "insert_new k v m = (if find k m = None then assign k v m else m)"
begin

lemma find_insert_new:
  "ok m \<Longrightarrow> find k (insert_new k' v m) =
     (if k = k' \<and> find k m = None then Some v else find k m)"
  by (auto simp: insert_new find_assign)

lemma ok_insert_new: "ok m \<Longrightarrow> ok (insert_new k v m)"
  by (simp add: insert_new ok_assign)

lemma keys_assign: "ok m \<Longrightarrow> fst ` set (items (assign k v m)) = insert k (fst ` set (items m))"
proof -
  assume ok: "ok m"
  have keys: "x \<in> fst ` set (items m') \<longleftrightarrow> find x m' \<noteq> None" if "ok m'" for x m'
    using find_items [OF that, of x] by (simp add: map_of_eq_None_iff)
  show ?thesis
    by (rule set_eqI) (simp only: keys [OF ok] keys [OF ok_assign [OF ok]] insert_iff
        find_assign [OF ok], simp)
qed

text \<open>A loop from \<open>begin()\<close> to \<open>end()\<close> that adds up a measure visits each key once.\<close>

lemma sum_items:
  fixes g :: "'v \<Rightarrow> 'n::comm_monoid_add"
  assumes "ok m"
  shows "sum_list (map (\<lambda>e. g (snd e)) (items m)) = (\<Sum>k\<in>fst ` set (items m). g (the (find k m)))"
proof -
  have d: "distinct (map fst (items m))" by (rule keys_distinct [OF assms])
  have "g (snd e) = g (the (find (fst e) m))" if "e \<in> set (items m)" for e
    using map_of_eq_Some_iff [OF d, of "fst e" "snd e"] that by (simp add: find_items [OF assms])
  then have "sum_list (map (\<lambda>e. g (snd e)) (items m))
      = sum_list (map (\<lambda>k. g (the (find k m))) (map fst (items m)))"
    unfolding map_map comp_def by (intro arg_cong [where f = sum_list] map_cong refl)
  also have "\<dots> = (\<Sum>k\<in>set (map fst (items m)). g (the (find k m)))"
    by (rule sum_list_distinct_conv_sum_set [OF d])
  finally show ?thesis by simp
qed

end

lemma map_find_map_of: "map_find k m = map_of m k"
  by (induction m) auto

lemma map_find_assign: "map_ok m \<Longrightarrow> map_find k (map_assign k' v m) = (if k = k' then Some v else map_find k m)"
  by (induction m) (auto simp: map_ok_def)

lemma fst_set_map_assign: "fst ` set (map_assign k v m) = insert k (fst ` set m)"
  by (induction m) force+

lemma map_ok_assign: "map_ok m \<Longrightarrow> map_ok (map_assign k v m)"
proof (induction m)
  case Nil
  then show ?case by (simp add: map_ok_def)
next
  case (Cons e m)
  obtain k' v' where e: "e = (k', v')" by (cases e)
  have "\<forall>x\<in>fst ` set m. k' < x" "map_ok m" using Cons.prems by (auto simp: map_ok_def e)
  then show ?case
    using Cons.IH fst_set_map_assign [of k v m]
    by (auto simp: e map_ok_def image_iff)
qed

interpretation sm: associative_container map_find map_assign map_insert "\<lambda>m. m" map_ok
proof unfold_locales
  show "map_find k m = map_of m k" for k :: 'a and m :: "('a \<times> 'b) list" by (rule map_find_map_of)
  show "distinct (map fst m)" if "map_ok m" for m :: "('a \<times> 'b) list"
    using that unfolding map_ok_def strict_sorted_iff by (rule conjunct2)
  show "map_find k (map_assign k' v m) = (if k = k' then Some v else map_find k m)"
    if "map_ok m" for k k' :: 'a and v :: 'b and m
    using that by (rule map_find_assign)
  show "map_ok (map_assign k v m)" if "map_ok m" for k :: 'a and v :: 'b and m
    using that by (rule map_ok_assign)
  show "map_insert k v m = (if map_find k m = None then map_assign k v m else m)"
    for k :: 'a and v :: 'b and m
    by (simp add: map_insert_def split: option.splits)
qed

end
