(* ===== verification/Range_Map.thy ===== *)
theory Range_Map
  imports Std_Map
begin

text \<open>
  \<open>src/src/base/range.hh\<close> and \<open>range_map.hh\<close>: closed ranges of addresses and the interval tree
  used for address decoding, a \<open>std::map\<close> whose keys are ordered by their start only. A point
  lookup is correct on disjoint ranges; the overlap test of an insertion is not complete, which is
  stated exactly.
\<close>

section \<open>Ranges\<close>

record Range =
  r_start :: Addr
  r_end :: Addr

definition invalid_range :: Range where
  "invalid_range = \<lparr>r_start = 1, r_end = 0\<rparr>"

definition RangeSize :: "Addr \<Rightarrow> Addr \<Rightarrow> Range" where
  "RangeSize start n = \<lparr>r_start = start, r_end = start + n - 1\<rparr>"

definition range_size :: "Range \<Rightarrow> u64" where
  "range_size r = r_end r - r_start r + 1"

definition range_valid :: "Range \<Rightarrow> bool" where
  "range_valid r \<longleftrightarrow> r_start r < r_end r"

text \<open>\<open>pos == range\<close>: the position lies within the range.\<close>

definition pos_in_range :: "Addr \<Rightarrow> Range \<Rightarrow> bool" where
  "pos_in_range pos r \<longleftrightarrow> r_start r \<le> pos \<and> pos \<le> r_end r"

definition ranges_meet :: "Range \<Rightarrow> Range \<Rightarrow> bool" where
  "ranges_meet a r \<longleftrightarrow> r_start a \<le> r_end r \<and> r_start r \<le> r_end a"

section \<open>The interval tree\<close>

text \<open>The tree is the list of its elements in key order: the start of a range, its end, the value.\<close>

type_synonym 'v range_map = "(Addr \<times> Addr \<times> 'v) list"

definition entry_range :: "Addr \<times> Addr \<times> 'v \<Rightarrow> Range" where
  "entry_range e = \<lparr>r_start = fst e, r_end = fst (snd e)\<rparr>"

definition entry_value :: "Addr \<times> Addr \<times> 'v \<Rightarrow> 'v" where
  "entry_value e = snd (snd e)"

text \<open>
  The iterator returned by \<open>find\<close>, \<open>None\<close> for \<open>end()\<close>. \<open>upper_bound\<close> points behind the
  elements whose start is at most that of the range. On an empty tree \<open>begin()\<close> is \<open>end()\<close> and
  the code reads through it, but both of its branches return \<open>end()\<close>.
\<close>

definition rm_find :: "Range \<Rightarrow> 'v range_map \<Rightarrow> (Addr \<times> Addr \<times> 'v) option" where
  "rm_find r tree =
     (let before = takeWhile (\<lambda>e. fst e \<le> r_start r) tree
      in if before = [] then
           (case tree of [] \<Rightarrow> None
            | i # _ \<Rightarrow> if ranges_meet (entry_range i) r then Some i else None)
         else if ranges_meet (entry_range (last before)) r then Some (last before)
         else None)"

definition rm_find_pos :: "Addr \<Rightarrow> 'v range_map \<Rightarrow> (Addr \<times> Addr \<times> 'v) option" where
  "rm_find_pos a tree = rm_find (RangeSize a 1) tree"

definition rm_intersect :: "Range \<Rightarrow> 'v range_map \<Rightarrow> bool" where
  "rm_intersect r tree \<longleftrightarrow> rm_find r tree \<noteq> None"

text \<open>\<open>insert\<close> returns \<open>end()\<close>, here \<open>None\<close>, and changes nothing when the range intersects.\<close>

definition rm_insert :: "Range \<Rightarrow> 'v \<Rightarrow> 'v range_map \<Rightarrow> 'v range_map option" where
  "rm_insert r d tree =
     (if rm_intersect r tree then None
      else Some (map_insert (r_start r) (r_end r, d) tree))"

section \<open>Correctness on disjoint ranges\<close>

definition tree_ok :: "'v range_map \<Rightarrow> bool" where
  "tree_ok t \<longleftrightarrow> list_all (\<lambda>e. fst e \<le> fst (snd e)) t \<and> sorted_wrt (\<lambda>a b. fst (snd a) < fst b) t"

lemma tree_ok_Cons:
  "tree_ok (e # t) \<longleftrightarrow> fst e \<le> fst (snd e) \<and> (\<forall>x\<in>set t. fst (snd e) < fst x) \<and> tree_ok t"
  by (auto simp: tree_ok_def)

lemma tree_ok_map_ok: "tree_ok t \<Longrightarrow> map_ok t"
  by (induction t) (auto simp: tree_ok_Cons map_ok_def intro: le_less_trans)

lemma tree_ok_append:
  "tree_ok (xs @ ys) \<longleftrightarrow> tree_ok xs \<and> tree_ok ys \<and> (\<forall>x\<in>set xs. \<forall>y\<in>set ys. fst (snd x) < fst y)"
  by (auto simp: tree_ok_def sorted_wrt_append)

lemma RangeSize_1 [simp]: "RangeSize a 1 = \<lparr>r_start = a, r_end = a\<rparr>"
  by (simp add: RangeSize_def)

lemma upper_bound_split:
  assumes "tree_ok t"
  obtains bef aft where "t = bef @ aft" "takeWhile (\<lambda>e. fst e \<le> s) t = bef"
    "\<forall>e\<in>set bef. fst e \<le> s" "\<forall>e\<in>set aft. s < fst e"
proof -
  let ?bef = "takeWhile (\<lambda>e. fst e \<le> s) t" and ?aft = "dropWhile (\<lambda>e. fst e \<le> s) t"
  have ok: "tree_ok (?bef @ ?aft)" using assms by simp
  have aft: "\<forall>e\<in>set ?aft. s < fst e"
  proof (cases ?aft)
    case Nil
    then show ?thesis by (metis empty_iff empty_set)
  next
    case (Cons x xs)
    then have "\<not> fst x \<le> s" using hd_dropWhile [of "\<lambda>e. fst e \<le> s" t] by simp
    moreover have "tree_ok (x # xs)" using ok Cons by (simp add: tree_ok_append)
    ultimately have "\<forall>e\<in>set (x # xs). s < fst e"
      by (auto simp: tree_ok_Cons)
    then show ?thesis using Cons by simp
  qed
  show thesis
    by (rule that [of ?bef ?aft]) (use aft in \<open>auto dest: set_takeWhileD\<close>)
qed

lemma rm_find_pos_iff:
  assumes "tree_ok t"
  shows "rm_find_pos a t = Some e \<longleftrightarrow> e \<in> set t \<and> pos_in_range a (entry_range e)"
proof -
  obtain bef aft where s: "t = bef @ aft" "takeWhile (\<lambda>e. fst e \<le> a) t = bef"
      "\<forall>e\<in>set bef. fst e \<le> a" "\<forall>e\<in>set aft. a < fst e"
    using upper_bound_split [OF assms] by blast
  have aft: "\<not> pos_in_range a (entry_range e)" if "e \<in> set aft" for e
    using that s(4) by (auto simp: pos_in_range_def entry_range_def)
  have meet: "ranges_meet (entry_range e) \<lparr>r_start = a, r_end = a\<rparr> \<longleftrightarrow> pos_in_range a (entry_range e)" for e :: "Addr \<times> Addr \<times> 'v"
    by (simp add: ranges_meet_def pos_in_range_def entry_range_def)
  show ?thesis
  proof (cases bef rule: rev_cases)
    case Nil
    then have "rm_find_pos a t = None"
      using s(1,2) aft by (cases aft) (auto simp: rm_find_pos_def rm_find_def meet)
    then show ?thesis using Nil s(1) aft by auto
  next
    case (snoc xs l)
    have xs: "\<not> pos_in_range a (entry_range x)" if "x \<in> set xs" for x
    proof -
      have "fst (snd x) < fst l" using assms that by (simp add: s(1) snoc tree_ok_append)
      moreover have "fst l \<le> a" using s(3) snoc by simp
      ultimately show ?thesis by (auto simp: pos_in_range_def entry_range_def)
    qed
    have "rm_find_pos a t = (if pos_in_range a (entry_range l) then Some l else None)"
      using s(2) snoc by (simp add: rm_find_pos_def rm_find_def meet)
    then show ?thesis using s(1) snoc xs [of e] aft [of e] by auto
  qed
qed

text \<open>
  On a tree of non-empty, pairwise disjoint ranges the lookup of an address returns the element whose
  range contains it, and \<open>end()\<close> exactly when no range does.
\<close>

lemma rm_find_pos_correct:
  assumes "tree_ok t"
  shows "(rm_find_pos a t = Some e \<longleftrightarrow> e \<in> set t \<and> pos_in_range a (entry_range e)) \<and>
    (rm_find_pos a t = None \<longleftrightarrow> (\<forall>x\<in>set t. \<not> pos_in_range a (entry_range x)))"
  using rm_find_pos_iff [OF assms, of a] by (metis not_None_eq)

lemma tree_ok_insert:
  assumes "tree_ok t" "r_start r \<le> r_end r" "\<forall>e\<in>set t. \<not> ranges_meet (entry_range e) r"
  shows "tree_ok (map_assign (r_start r) (r_end r, d) t)"
  using assms
proof (induction t)
  case Nil
  then show ?case by (simp add: tree_ok_def)
next
  case (Cons x t)
  obtain k e v where x: "x = (k, e, v)" by (cases x) auto
  have m: "\<not> (k \<le> r_end r \<and> r_start r \<le> e)" "k \<le> e" "\<forall>y\<in>set t. e < fst y"
    using Cons.prems by (auto simp: x tree_ok_Cons ranges_meet_def entry_range_def)
  have keys: "fst ` set (map_assign (r_start r) (r_end r, d) t) = insert (r_start r) (fst ` set t)"
    by (rule fst_set_map_assign)
  have IH: "tree_ok (map_assign (r_start r) (r_end r, d) t)" using Cons by (simp add: tree_ok_Cons)
  consider "r_start r < k" | "k < r_start r" using m Cons.prems(2) by (metis linorder_neqE)
  then show ?case
  proof cases
    case 1
    then have "r_end r < k" using m by auto
    moreover have "r_end r < fst y" if "y \<in> set t" for y
      using m(2,3) \<open>r_end r < k\<close> that by fastforce
    ultimately show ?thesis using 1 Cons.prems x by (auto simp: tree_ok_Cons)
  next
    case 2
    then have "e < r_start r" using m Cons.prems(2) by auto
    then have "\<forall>y\<in>fst ` set (map_assign (r_start r) (r_end r, d) t). e < y"
      using m(3) unfolding keys by auto
    then show ?thesis using 2 IH m(2) by (auto simp: x tree_ok_Cons)
  qed
qed

lemma rm_insert_set:
  assumes "tree_ok t" "r_start r \<le> r_end r" "\<forall>e\<in>set t. \<not> ranges_meet (entry_range e) r"
  shows "\<exists>t'. rm_insert r d t = Some t' \<and> tree_ok t' \<and>
    (\<forall>x. x \<in> set t' \<longleftrightarrow> x = (r_start r, r_end r, d) \<or> x \<in> set t)"
proof -
  have fresh: "map_find (r_start r) t = None"
  proof (rule ccontr)
    assume "map_find (r_start r) t \<noteq> None"
    then obtain v where "(r_start r, v) \<in> set t" by (auto simp: map_find_map_of dest: map_of_SomeD)
    moreover from this have "r_start r \<le> fst v" using assms(1) by (auto simp: tree_ok_def list_all_iff)
    ultimately show False using assms(2,3) by (force simp: ranges_meet_def entry_range_def)
  qed
  let ?t' = "map_assign (r_start r) (r_end r, d) t"
  have "rm_find r t = None"
  proof -
    have "last (takeWhile P t) \<in> set t" if "takeWhile P t \<noteq> []" for P
      using that by (meson last_in_set set_takeWhileD)
    then show ?thesis using assms(3) by (auto simp: rm_find_def Let_def split: list.splits)
  qed
  then have ins: "rm_insert r d t = Some ?t'"
    using fresh by (simp add: rm_insert_def rm_intersect_def map_insert_def)
  have ok: "tree_ok ?t'" by (rule tree_ok_insert [OF assms])
  have set_t': "(x \<in> set ?t') \<longleftrightarrow> x = (r_start r, r_end r, d) \<or> x \<in> set t" for x
  proof -
    have "map_ok t" by (rule tree_ok_map_ok [OF assms(1)])
    have "x \<in> set ?t' \<longleftrightarrow> map_find (fst x) ?t' = Some (snd x)"
      using map_of_eq_Some_iff [OF sm.keys_distinct [OF tree_ok_map_ok [OF ok]], of "fst x" "snd x"]
      by (simp add: map_find_map_of)
    also have "\<dots> \<longleftrightarrow> x = (r_start r, r_end r, d) \<or> map_find (fst x) t = Some (snd x)"
      using fresh sm.find_assign [OF \<open>map_ok t\<close>] by (cases x) auto
    also have "map_find (fst x) t = Some (snd x) \<longleftrightarrow> x \<in> set t"
      using map_of_eq_Some_iff [OF sm.keys_distinct [OF \<open>map_ok t\<close>], of "fst x" "snd x"]
      by (simp add: map_find_map_of)
    finally show ?thesis .
  qed
  show ?thesis using ins ok set_t' by blast
qed

text \<open>
  Inserting a range that meets no range of the tree succeeds, keeps the ranges disjoint, and
  afterwards an address lookup sees exactly the new range and the old ones.
\<close>

lemma rm_insert_correct:
  assumes "tree_ok t" "r_start r \<le> r_end r" "\<forall>e\<in>set t. \<not> ranges_meet (entry_range e) r"
  shows "\<exists>t'. rm_insert r d t = Some t' \<and> tree_ok t' \<and>
    (\<forall>a. rm_find_pos a t' = (if pos_in_range a r then Some (r_start r, r_end r, d) else rm_find_pos a t))"
proof -
  obtain t' where ins: "rm_insert r d t = Some t'" and ok: "tree_ok t'"
      and set_t': "\<And>x. x \<in> set t' \<longleftrightarrow> x = (r_start r, r_end r, d) \<or> x \<in> set t"
    using rm_insert_set [OF assms] by blast
  have "rm_find_pos a t' = (if pos_in_range a r then Some (r_start r, r_end r, d) else rm_find_pos a t)" for a
  proof (cases "pos_in_range a r")
    case True
    then show ?thesis
      using rm_find_pos_iff [OF ok, of a "(r_start r, r_end r, d)"] set_t'
      by (simp add: entry_range_def pos_in_range_def)
  next
    case False
    then have "rm_find_pos a t' = Some e \<longleftrightarrow> rm_find_pos a t = Some e" for e
      using rm_find_pos_iff [OF ok, of a e] rm_find_pos_iff [OF assms(1), of a e] set_t' [of e]
      by (auto simp: entry_range_def pos_in_range_def)
    then show ?thesis using False by (metis not_None_eq)
  qed
  then show ?thesis using ins ok by blast
qed

text \<open>
  The overlap test looks only at the last range that starts at or before the new one (or at the
  first of all), so a new range that starts between two ranges of the tree is accepted whatever it
  covers of the second one: whenever it does not meet the first, the insertion succeeds.
\<close>

lemma rm_insert_misses_overlap:
  assumes "fst (snd x) < r_start r" "r_start r < fst y" "fst y \<le> r_end r" "fst x \<le> fst (snd x)"
  shows "rm_insert r d [x, y] \<noteq> None \<and> ranges_meet r (entry_range y) = (r_start r \<le> fst (snd y))"
proof -
  have "rm_find r [x, y] = None"
    using assms by (auto simp: rm_find_def ranges_meet_def entry_range_def)
  then show ?thesis
    using assms by (simp add: rm_insert_def rm_intersect_def ranges_meet_def entry_range_def)
qed

end
