(* ===== verification/Phys_Memory.thy ===== *)
theory Phys_Memory
  imports Range_Map Fault_Values
begin

text \<open>
  The memory below the processors: \<open>src/src/mem/abstract_mem.hh\<close> and \<open>abstract_mem.cc\<close> (one block
  of memory with its load-locked records and its accesses) and \<open>src/src/mem/physical.hh\<close>,
  \<open>physical.cc\<close> (the blocks behind one address map). Statistics, checkpoints and the host
  \<open>mmap\<close> are not modelled.
\<close>

section \<open>A block of memory\<close>

text \<open>A load-locked record: the 16 byte block and the context.\<close>

type_synonym LockedAddr = "Addr \<times> int"

record AbstractMemory =
  m_range :: Range
  pmemAddr :: "u8 list option"
  confTableReported :: bool
  inAddrMap :: bool
  lockedAddrList :: "LockedAddr list"

definition lock_mask :: "Addr \<Rightarrow> Addr" where
  "lock_mask paddr = paddr AND NOT 0xf"

text \<open>
  What the accesses use of a packet and its request: the attributes of its command, the address,
  the data (its length is the size), and on the request the physical address, the context, the
  load-locked flag and the extra data.
\<close>

record Packet =
  p_isSwap :: bool
  p_isRead :: bool
  p_isWrite :: bool
  p_isInvalidate :: bool
  p_needsResponse :: bool
  p_isResponse :: bool
  p_memInhibit :: bool
  p_addr :: Addr
  p_data :: "u8 list"
  req_paddr :: Addr
  req_contextId :: int
  req_isLLSC :: bool
  req_isCondSwap :: bool
  req_isInstFetch :: bool
  req_extraData :: u64

fun update_lock :: "int \<Rightarrow> Addr \<Rightarrow> LockedAddr list \<Rightarrow> LockedAddr list option" where
  "update_lock c a [] = None"
| "update_lock c a ((b, d) # l) =
     (if d = c then Some ((a, d) # l) else map_option ((#) (b, d)) (update_lock c a l))"

definition trackLoadLocked :: "Packet \<Rightarrow> AbstractMemory \<Rightarrow> AbstractMemory" where
  "trackLoadLocked pkt m =
     (let paddr = lock_mask (req_paddr pkt)
      in case update_lock (req_contextId pkt) paddr (lockedAddrList m) of
           Some l \<Rightarrow> m\<lparr>lockedAddrList := l\<rparr>
         | None \<Rightarrow> m\<lparr>lockedAddrList := (paddr, req_contextId pkt) # lockedAddrList m\<rparr>)"

text \<open>The loop over the records: the surviving ones and whether the store succeeds.\<close>

fun check_locks :: "bool \<Rightarrow> int \<Rightarrow> Addr \<Rightarrow> LockedAddr list \<Rightarrow> bool \<Rightarrow> LockedAddr list \<times> bool" where
  "check_locks isLLSC c a [] success = ([], success)"
| "check_locks isLLSC c a ((b, d) # l) success =
     (if b = a then check_locks isLLSC c a l (if isLLSC \<and> d = c then True else success)
      else case check_locks isLLSC c a l success of (l', s) \<Rightarrow> ((b, d) # l', s))"

definition checkLockedAddrList :: "Packet \<Rightarrow> AbstractMemory \<Rightarrow> bool \<times> Packet \<times> AbstractMemory" where
  "checkLockedAddrList pkt m =
     (let isLLSC = req_isLLSC pkt;
          (l, success) = check_locks isLLSC (req_contextId pkt) (lock_mask (req_paddr pkt))
                           (lockedAddrList m) (\<not> isLLSC)
      in (success, if isLLSC then pkt\<lparr>req_extraData := (if success then 1 else 0)\<rparr> else pkt,
          m\<lparr>lockedAddrList := l\<rparr>))"

definition writeOK :: "Packet \<Rightarrow> AbstractMemory \<Rightarrow> bool \<times> Packet \<times> AbstractMemory" where
  "writeOK pkt m =
     (if lockedAddrList m = [] then
        (\<not> req_isLLSC pkt, if req_isLLSC pkt then pkt\<lparr>req_extraData := 0\<rparr> else pkt, m)
      else checkLockedAddrList pkt m)"

text \<open>\<open>memcpy\<close> from and to the host memory at \<open>pmemAddr + addr - range.start\<close>.\<close>

definition host_index :: "Addr \<Rightarrow> AbstractMemory \<Rightarrow> nat" where
  "host_index a m = unat (a - r_start (m_range m))"

definition host_read :: "nat \<Rightarrow> nat \<Rightarrow> u8 list \<Rightarrow> u8 list res" where
  "host_read i n b = (if i + n \<le> length b then Inr (take n (drop i b)) else Inl Bad_pointer)"

definition host_write :: "nat \<Rightarrow> u8 list \<Rightarrow> u8 list \<Rightarrow> u8 list res" where
  "host_write i d b = (if i + length d \<le> length b
     then Inr (take i b @ d @ drop (i + length d) b) else Inl Bad_pointer)"

definition in_block :: "Packet \<Rightarrow> AbstractMemory \<Rightarrow> bool" where
  "in_block pkt m \<longleftrightarrow> r_start (m_range m) \<le> p_addr pkt \<and>
     p_addr pkt + of_nat (length (p_data pkt)) - 1 \<le> r_end (m_range m)"

definition makeResponse :: "Packet \<Rightarrow> Packet res" where
  "makeResponse pkt =
     bindE (assertE (p_needsResponse pkt)) (\<lambda>_.
     bindE (assertE (\<not> p_isResponse pkt)) (\<lambda>_.
       Inr (pkt\<lparr>p_isResponse := True, p_needsResponse := False\<rparr>)))"

definition respond :: "Packet \<Rightarrow> Packet res" where
  "respond pkt = (if p_needsResponse pkt then makeResponse pkt else Inr pkt)"

definition read_into :: "Packet \<Rightarrow> AbstractMemory \<Rightarrow> Packet res" where
  "read_into pkt m =
     (case pmemAddr m of None \<Rightarrow> Inr pkt
      | Some b \<Rightarrow> bindE (host_read (host_index (p_addr pkt) m) (length (p_data pkt)) b)
                    (\<lambda>d. Inr (pkt\<lparr>p_data := d\<rparr>)))"

definition write_from :: "u8 list \<Rightarrow> Packet \<Rightarrow> AbstractMemory \<Rightarrow> AbstractMemory res" where
  "write_from d pkt m =
     (case pmemAddr m of None \<Rightarrow> Inr m
      | Some b \<Rightarrow> bindE (host_write (host_index (p_addr pkt) m) d b)
                    (\<lambda>b. Inr (m\<lparr>pmemAddr := Some b\<rparr>)))"

text \<open>Whether a swap stores: unconditional, or when the memory holds the expected value.\<close>

definition swap_condition :: "Packet \<Rightarrow> u8 list \<Rightarrow> bool res" where
  "swap_condition pkt old =
     (if \<not> req_isCondSwap pkt then Inr True
      else if length (p_data pkt) = 8 then Inr (to_bytes (req_extraData pkt) = old)
      else if length (p_data pkt) = 4 then Inr (to_bytes (ucast (req_extraData pkt) :: u32) = old)
      else Inl Panic)"

definition mem_access :: "Packet \<Rightarrow> AbstractMemory \<Rightarrow> (Packet \<times> AbstractMemory) res" where
  "mem_access pkt m =
     bindE (assertE (in_block pkt m)) (\<lambda>_.
     if p_memInhibit pkt then Inr (pkt, m)
     else
     bindE (
       if p_isSwap pkt then
         (if pmemAddr m = None then Inl Panic
          else bindE (assertE (length (p_data pkt) \<le> 8)) (\<lambda>_.
               bindE (read_into pkt m) (\<lambda>old.
               bindE (swap_condition pkt (p_data old)) (\<lambda>overwrite_mem.
               bindE (if overwrite_mem then write_from (p_data pkt) pkt m else Inr m) (\<lambda>m.
               bindE (assertE (\<not> req_isInstFetch pkt)) (\<lambda>_. Inr (old, m)))))))
       else if p_isRead pkt then
         bindE (assertE (\<not> p_isWrite pkt)) (\<lambda>_.
           let m = (if req_isLLSC pkt then trackLoadLocked pkt m else m)
           in bindE (read_into pkt m) (\<lambda>pkt. Inr (pkt, m)))
       else if p_isWrite pkt then
         (case writeOK pkt m of (ok, pkt, m) \<Rightarrow>
            if ok then bindE (write_from (p_data pkt) pkt m) (\<lambda>m.
                       bindE (assertE (\<not> req_isInstFetch pkt)) (\<lambda>_. Inr (pkt, m)))
            else Inr (pkt, m))
       else if p_isInvalidate pkt then Inr (pkt, m)
       else Inl Panic)
     (\<lambda>(pkt, m). bindE (respond pkt) (\<lambda>pkt. Inr (pkt, m))))"

text \<open>The functional access, without locks; the printing variant is left out.\<close>

definition mem_functionalAccess :: "Packet \<Rightarrow> AbstractMemory \<Rightarrow> (Packet \<times> AbstractMemory) res" where
  "mem_functionalAccess pkt m =
     bindE (assertE (in_block pkt m)) (\<lambda>_.
     if p_isRead pkt then bindE (read_into pkt m) (\<lambda>pkt.
       bindE (makeResponse pkt) (\<lambda>pkt. Inr (pkt, m)))
     else if p_isWrite pkt then bindE (write_from (p_data pkt) pkt m) (\<lambda>m.
       bindE (makeResponse pkt) (\<lambda>pkt. Inr (pkt, m)))
     else Inl Panic)"

section \<open>The physical memory\<close>

text \<open>
  The blocks are a list of objects, known by their index. The cached range belongs to the last
  match of \<open>isMemAddr\<close>.
\<close>

record PhysicalMemory =
  addrMap :: "nat range_map"
  rangeCache :: Range
  pm_memories :: "nat list"
  pm_size :: u64

fun add_memories :: "AbstractMemory list \<Rightarrow> nat list \<Rightarrow> PhysicalMemory \<Rightarrow> PhysicalMemory res" where
  "add_memories h [] pm = Inr pm"
| "add_memories h (a # as) pm =
     bindE (at h a) (\<lambda>m.
       if inAddrMap m then
         (case rm_insert (m_range m) a (addrMap pm) of
            None \<Rightarrow> Inl Panic
          | Some t \<Rightarrow> add_memories h as (pm\<lparr>pm_memories := pm_memories pm @ [a],
                        pm_size := pm_size pm + range_size (m_range m), addrMap := t\<rparr>))
       else add_memories h as pm)"

definition PhysicalMemory_ctor :: "AbstractMemory list \<Rightarrow> nat list \<Rightarrow> PhysicalMemory res" where
  "PhysicalMemory_ctor h mems =
     add_memories h mems \<lparr>addrMap = [], rangeCache = invalid_range, pm_memories = [], pm_size = 0\<rparr>"

definition isMemAddr :: "Addr \<Rightarrow> PhysicalMemory \<Rightarrow> (bool \<times> PhysicalMemory) res" where
  "isMemAddr a pm =
     (if \<not> pos_in_range a (rangeCache pm) then
        (case rm_find_pos a (addrMap pm) of
           None \<Rightarrow> Inr (False, pm)
         | Some e \<Rightarrow> Inr (True, pm\<lparr>rangeCache := entry_range e\<rparr>))
      else bindE (assertE (rm_find_pos a (addrMap pm) \<noteq> None)) (\<lambda>_. Inr (True, pm)))"

definition getConfAddrRanges :: "AbstractMemory list \<Rightarrow> PhysicalMemory \<Rightarrow> Range list" where
  "getConfAddrRanges h pm =
     map (\<lambda>a. m_range (h ! a)) (filter (\<lambda>a. confTableReported (h ! a)) (pm_memories pm))"

definition phys_access ::
  "Packet \<Rightarrow> AbstractMemory list \<Rightarrow> PhysicalMemory \<Rightarrow> (Packet \<times> AbstractMemory list) res" where
  "phys_access pkt h pm =
     bindE (assertE (\<not> p_isResponse pkt)) (\<lambda>_.
      case rm_find_pos (p_addr pkt) (addrMap pm) of
        None \<Rightarrow> Inl AssertFail
      | Some e \<Rightarrow> bindE (at h (entry_value e)) (\<lambda>m.
          bindE (mem_access pkt m) (\<lambda>(pkt, m). Inr (pkt, h[entry_value e := m]))))"

definition phys_functionalAccess ::
  "Packet \<Rightarrow> AbstractMemory list \<Rightarrow> PhysicalMemory \<Rightarrow> (Packet \<times> AbstractMemory list) res" where
  "phys_functionalAccess pkt h pm =
     bindE (assertE (\<not> p_isResponse pkt)) (\<lambda>_.
      case rm_find_pos (p_addr pkt) (addrMap pm) of
        None \<Rightarrow> Inl AssertFail
      | Some e \<Rightarrow> bindE (at h (entry_value e)) (\<lambda>m.
          bindE (mem_functionalAccess pkt m) (\<lambda>(pkt, m). Inr (pkt, h[entry_value e := m]))))"

section \<open>Load-locked and store-conditional\<close>

text \<open>
  The contract: each context has at most one reservation. A load-locked of a context replaces its
  reservation; any store, conditional or not, successful or not, cancels the reservations of
  every context on its block; a store-conditional succeeds when its own context still holds the
  reservation of the block.
\<close>

definition lock_of :: "AbstractMemory \<Rightarrow> int \<Rightarrow> Addr option" where
  "lock_of m c = map_of (map (\<lambda>l. (snd l, fst l)) (lockedAddrList m)) c"

definition locks_ok :: "AbstractMemory \<Rightarrow> bool" where
  "locks_ok m \<longleftrightarrow> distinct (map snd (lockedAddrList m))"

abbreviation lock_map :: "LockedAddr list \<Rightarrow> int \<Rightarrow> Addr option" where
  "lock_map l \<equiv> map_of (map (\<lambda>l. (snd l, fst l)) l)"

lemma update_lock_None: "update_lock c a l = None \<longleftrightarrow> c \<notin> snd ` set l"
  by (induction c a l rule: update_lock.induct) auto

lemma update_lock_Some:
  "update_lock c a l = Some l' \<Longrightarrow> distinct (map snd l) \<Longrightarrow>
     map snd l' = map snd l \<and> lock_map l' = (lock_map l)(c \<mapsto> a)"
  by (induction c a l arbitrary: l' rule: update_lock.induct)
    (auto split: if_splits simp: fun_upd_twist)

lemma check_locks_eq:
  "check_locks isLLSC c a l s = (filter (\<lambda>e. fst e \<noteq> a) l, s \<or> isLLSC \<and> (a, c) \<in> set l)"
  by (induction isLLSC c a l s rule: check_locks.induct) auto

lemma lock_map_iff: "distinct (map snd l) \<Longrightarrow> lock_map l c = Some a \<longleftrightarrow> (a, c) \<in> set l"
  using map_of_eq_Some_iff [of "map (\<lambda>l. (snd l, fst l)) l" c a] by (force simp: comp_def image_iff)

lemma lock_map_filter:
  assumes "distinct (map snd l)"
  shows "lock_map (filter (\<lambda>e. fst e \<noteq> a) l) c = (if lock_map l c = Some a then None else lock_map l c)"
  using assms by (induction l) (auto simp: map_of_eq_None_iff image_iff)

lemma writeOK_check: "writeOK pkt m = checkLockedAddrList pkt m"
  by (auto simp: writeOK_def checkLockedAddrList_def)

lemma lock_ops:
  assumes "locks_ok m"
  shows "locks_ok (trackLoadLocked pkt m) \<and>
    lock_of (trackLoadLocked pkt m) = (lock_of m)(req_contextId pkt \<mapsto> lock_mask (req_paddr pkt)) \<and>
    (case writeOK pkt m of (ok, pkt', m') \<Rightarrow>
       ok = (\<not> req_isLLSC pkt \<or> lock_of m (req_contextId pkt) = Some (lock_mask (req_paddr pkt))) \<and>
       (req_isLLSC pkt \<longrightarrow> req_extraData pkt' = (if ok then 1 else 0)) \<and> locks_ok m' \<and>
       pmemAddr m' = pmemAddr m \<and>
       lock_of m' = (\<lambda>c. if lock_of m c = Some (lock_mask (req_paddr pkt)) then None else lock_of m c))"
proof -
  let ?l = "lockedAddrList m" and ?a = "lock_mask (req_paddr pkt)" and ?c = "req_contextId pkt"
  have d: "distinct (map snd ?l)" using assms by (simp add: locks_ok_def)
  have "locks_ok (trackLoadLocked pkt m) \<and> lock_of (trackLoadLocked pkt m) = (lock_of m)(?c \<mapsto> ?a)"
  proof (cases "update_lock ?c ?a ?l")
    case None
    then have "?c \<notin> snd ` set ?l" by (simp add: update_lock_None)
    then show ?thesis
      using d None by (auto simp: trackLoadLocked_def locks_ok_def lock_of_def fun_eq_iff)
  next
    case (Some l')
    then show ?thesis
      using update_lock_Some [OF Some d] d by (auto simp: trackLoadLocked_def locks_ok_def lock_of_def fun_eq_iff)
  qed
  moreover have "case writeOK pkt m of (ok, pkt', m') \<Rightarrow>
       ok = (\<not> req_isLLSC pkt \<or> lock_of m ?c = Some ?a) \<and>
       (req_isLLSC pkt \<longrightarrow> req_extraData pkt' = (if ok then 1 else 0)) \<and> locks_ok m' \<and>
       pmemAddr m' = pmemAddr m \<and> lock_of m' = (\<lambda>c. if lock_of m c = Some ?a then None else lock_of m c)"
    using d lock_map_filter [OF d] lock_map_iff [OF d]
    by (auto simp: writeOK_check checkLockedAddrList_def check_locks_eq locks_ok_def lock_of_def
        distinct_map_filter Let_def)
  ultimately show ?thesis by blast
qed

definition plain_packet :: Packet where
  "plain_packet = \<lparr>p_isSwap = False, p_isRead = False, p_isWrite = False, p_isInvalidate = False,
     p_needsResponse = True, p_isResponse = False, p_memInhibit = False, p_addr = 0, p_data = [],
     req_paddr = 0, req_contextId = 0, req_isLLSC = False, req_isCondSwap = False,
     req_isInstFetch = False, req_extraData = 0\<rparr>"

definition small_memory :: AbstractMemory where
  "small_memory = \<lparr>m_range = \<lparr>r_start = 0x100, r_end = 0x107\<rparr>, pmemAddr = Some [1, 2, 3, 4, 5, 6, 7, 8],
     confTableReported = True, inAddrMap = True, lockedAddrList = [(0x100, 2)]\<rparr>"

text \<open>
  Sequences of accesses of any kind by several contexts. A load-locked read takes a reservation and a write cancels
  those of its block; a request that another agent answers, a swap, a plain read and an
  invalidation change none.
\<close>

definition mem_run :: "Packet list \<Rightarrow> AbstractMemory \<Rightarrow> AbstractMemory res" where
  "mem_run = foldE (\<lambda>p m. bindE (mem_access p m) (\<lambda>(_, m). Inr m))"

definition load_locks :: "Packet \<Rightarrow> bool" where
  "load_locks p \<longleftrightarrow> \<not> p_memInhibit p \<and> \<not> p_isSwap p \<and> p_isRead p \<and> req_isLLSC p"

definition plain_stores :: "Packet \<Rightarrow> bool" where
  "plain_stores p \<longleftrightarrow> \<not> p_memInhibit p \<and> \<not> p_isSwap p \<and> \<not> p_isRead p \<and> p_isWrite p"

lemma writeOK_locks:
  assumes "locks_ok m"
  shows "locks_ok (snd (snd (writeOK pkt m)))"
    "lock_of (snd (snd (writeOK pkt m))) c =
       (if lock_of m c = Some (lock_mask (req_paddr pkt)) then None else lock_of m c)"
    "fst (writeOK pkt m) \<longleftrightarrow>
       \<not> req_isLLSC pkt \<or> lock_of m (req_contextId pkt) = Some (lock_mask (req_paddr pkt))"
  using lock_ops [OF assms, of pkt] by (auto split: prod.splits)

lemma write_from_locks:
  assumes "write_from d pkt m = Inr m'"
  shows "lock_of m' = lock_of m" "locks_ok m' = locks_ok m"
  using assms by (auto simp: write_from_def bindE_eq_Inr lock_of_def locks_ok_def split: option.splits)

lemma respond_keeps: "respond pkt = Inr pkt' \<Longrightarrow> req_extraData pkt' = req_extraData pkt"
  by (auto simp: respond_def makeResponse_def bindE_eq_Inr split: if_splits)

lemma swap_locks:
  assumes "mem_access p m = Inr (p', m')" "p_isSwap p" "\<not> p_memInhibit p"
  shows "lock_of m' = lock_of m" "locks_ok m' = locks_ok m"
proof -
  have "m' = m \<or> write_from (p_data p) p m = Inr m'"
    using assms by (auto simp: mem_access_def bindE_eq_Inr split: if_splits)
  then show "lock_of m' = lock_of m" "locks_ok m' = locks_ok m" using write_from_locks by auto
qed

lemma mem_access_write:
  assumes "mem_access p m = Inr (p', m')" "plain_stores p" "writeOK p m = (ok, p1, m1)"
  shows "if ok then write_from (p_data p1) p1 m1 = Inr m' else m' = m1" "req_extraData p' = req_extraData p1"
  using assms respond_keeps by (auto simp: mem_access_def plain_stores_def bindE_eq_Inr split: if_splits)

lemma mem_access_locks:
  assumes "mem_access p m = Inr (p', m')" "locks_ok m"
  shows "locks_ok m' \<and> lock_of m' c =
    (if load_locks p \<and> req_contextId p = c then Some (lock_mask (req_paddr p))
     else if plain_stores p \<and> lock_of m c = Some (lock_mask (req_paddr p)) then None else lock_of m c)"
proof -
  consider "p_memInhibit p" | "\<not> p_memInhibit p" "p_isSwap p" | "plain_stores p"
    | "\<not> p_memInhibit p" "\<not> p_isSwap p" "\<not> plain_stores p" by blast
  then show ?thesis
  proof cases
    case 1
    then have "m' = m" using assms(1) by (auto simp: mem_access_def bindE_eq_Inr)
    then show ?thesis using 1 assms(2) by (simp add: load_locks_def plain_stores_def)
  next
    case 2
    then show ?thesis using swap_locks [OF assms(1)] assms(2) by (simp add: load_locks_def plain_stores_def)
  next
    case 3
    obtain ok p1 m1 where w: "writeOK p m = (ok, p1, m1)" by (cases "writeOK p m") auto
    have "lock_of m' = lock_of m1" "locks_ok m' = locks_ok m1"
      using mem_access_write(1) [OF assms(1) 3 w] write_from_locks by (auto split: if_splits)
    then show ?thesis using writeOK_locks(1,2) [OF assms(2), of p] w 3 by (simp add: load_locks_def plain_stores_def)
  next
    case 4
    then have "m' = (if load_locks p then trackLoadLocked p m else m)"
      using assms(1) by (auto simp: mem_access_def plain_stores_def load_locks_def bindE_eq_Inr Let_def split: if_splits)
    then show ?thesis using lock_ops [OF assms(2), of p] assms(2) 4(3) by auto
  qed
qed

text \<open>
  Whether a reservation of context \<open>c\<close> on block \<open>a\<close> is there after some accesses: the last one that was a load-locked
  of \<open>c\<close> or a store to \<open>a\<close> decides.
\<close>

definition concerns :: "int \<Rightarrow> Addr \<Rightarrow> Packet \<Rightarrow> bool" where
  "concerns c a p \<longleftrightarrow> load_locks p \<and> req_contextId p = c \<or> plain_stores p \<and> lock_mask (req_paddr p) = a"

definition reserves :: "int \<Rightarrow> Addr \<Rightarrow> Packet \<Rightarrow> bool" where
  "reserves c a p \<longleftrightarrow> load_locks p \<and> req_contextId p = c \<and> lock_mask (req_paddr p) = a"

lemma mem_run_locks:
  assumes "mem_run ps m = Inr m'" "locks_ok m"
  shows "locks_ok m' \<and> (lock_of m' c = Some a \<longleftrightarrow>
    (if filter (concerns c a) ps = [] then lock_of m c = Some a else reserves c a (last (filter (concerns c a) ps))))"
  using assms
proof (induction ps arbitrary: m)
  case (Cons p ps)
  obtain p1 m1 where p: "mem_access p m = Inr (p1, m1)" "mem_run ps m1 = Inr m'"
    using Cons.prems(1) by (auto simp: mem_run_def bindE_eq_Inr)
  have l: "locks_ok m1" "lock_of m1 c = (if load_locks p \<and> req_contextId p = c then Some (lock_mask (req_paddr p))
      else if plain_stores p \<and> lock_of m c = Some (lock_mask (req_paddr p)) then None else lock_of m c)"
    using mem_access_locks [OF p(1) Cons.prems(2)] by simp_all
  have "\<not> (load_locks p \<and> plain_stores p)" by (auto simp: load_locks_def plain_stores_def)
  then have "lock_of m1 c = Some a \<longleftrightarrow> (if concerns c a p then reserves c a p else lock_of m c = Some a)"
    unfolding l(2) concerns_def reserves_def by auto
  then show ?case using Cons.IH [OF p(2) l(1)] by auto
qed (simp add: mem_run_def)

text \<open>
  (C33) A load-locked read of a context, then any accesses of any contexts (reads, load-locked reads, writes, store
  conditionals, swaps, invalidations), then a store conditional of the context to the same block of 16
  bytes: it reports success and stores its data exactly when the last of the accesses in between that is a load-locked of
  that context or a write to the block, conditional or not, is a load-locked of the block, or there is none; otherwise it
  reports failure and leaves the memory as it is. In particular a swap in between, although it
  stores, does not make it fail.
\<close>

theorem store_conditional_correct:
  assumes "locks_ok m" and "load_locks ll" "mem_access ll m = Inr (ll', m1)" "mem_run ps m1 = Inr m2"
    and "plain_stores sc" "req_isLLSC sc" "mem_access sc m2 = Inr (sc', m3)"
    and "c = req_contextId ll" "a = lock_mask (req_paddr ll)" "req_contextId sc = c" "lock_mask (req_paddr sc) = a"
  shows "if filter (concerns c a) ps = [] \<or> reserves c a (last (filter (concerns c a) ps))
    then req_extraData sc' = 1 \<and> write_from (p_data sc) sc m2 = Inr (m2\<lparr>pmemAddr := pmemAddr m3\<rparr>)
    else req_extraData sc' = 0 \<and> pmemAddr m3 = pmemAddr m2"
proof -
  have 1: "locks_ok m1" "lock_of m1 c = Some a" using mem_access_locks [OF assms(3,1), of c] assms(2,8,9) by simp_all
  note 2 = mem_run_locks [OF assms(4) 1(1), of c a]
  obtain ok p1 m' where w: "writeOK sc m2 = (ok, p1, m')" by (cases "writeOK sc m2") auto
  have ok: "ok \<longleftrightarrow> lock_of m2 c = Some a" using writeOK_locks(3) [of m2 sc] 2 w assms(6,10,11) by simp
  have p1: "req_extraData p1 = (if ok then 1 else 0)" "pmemAddr m' = pmemAddr m2" "m_range m' = m_range m2"
      "p_data p1 = p_data sc" "p_addr p1 = p_addr sc"
    using w assms(6) by (auto simp: writeOK_check checkLockedAddrList_def Let_def split: prod.splits)
  note s = mem_access_write [OF assms(7,5) w]
  have "write_from (p_data sc) sc m2 = Inr (m2\<lparr>pmemAddr := pmemAddr m3\<rparr>)" if ok
    using s(1) that p1(2-5) by (auto simp: write_from_def host_index_def bindE_eq_Inr split: option.splits)
  moreover have "pmemAddr m3 = pmemAddr m2" if "\<not> ok" using s(1) that p1(2) by simp
  moreover have "req_extraData sc' = (if ok then 1 else 0)" using s(2) p1(1) by simp
  moreover have "ok \<longleftrightarrow> filter (concerns c a) ps = [] \<or> reserves c a (last (filter (concerns c a) ps))"
    using ok 2 1(2) by auto
  ultimately show ?thesis by auto
qed

definition locked_read :: Packet where
  "locked_read = plain_packet\<lparr>p_isRead := True, req_isLLSC := True, p_addr := 0x100, req_paddr := 0x100, p_data := [0, 0]\<rparr>"

definition conditional_write :: Packet where
  "conditional_write = plain_packet\<lparr>p_isWrite := True, req_isLLSC := True, p_addr := 0x100, req_paddr := 0x100, p_data := [8, 9]\<rparr>"

definition other_swap :: Packet where
  "other_swap = plain_packet\<lparr>p_isSwap := True, req_contextId := 7, p_addr := 0x100, req_paddr := 0x100, p_data := [6, 7]\<rparr>"

definition other_write :: Packet where
  "other_write = plain_packet\<lparr>p_isWrite := True, req_contextId := 7, p_addr := 0x104, req_paddr := 0x104, p_data := [5]\<rparr>"

text \<open>A swap of another context goes unnoticed; a write of it makes the store conditional fail.\<close>

definition sc_run :: "Packet list \<Rightarrow> (Packet \<times> AbstractMemory) res" where
  "sc_run ps = bindE (mem_access locked_read small_memory) (\<lambda>(_, m). bindE (mem_run ps m) (mem_access conditional_write))"

lemma sc_runs:
  "case sc_run [other_swap] of Inl _ \<Rightarrow> False | Inr (p, _) \<Rightarrow> True"
  "case sc_run [other_write] of Inl _ \<Rightarrow> False | Inr (p, _) \<Rightarrow> True"
  by code_simp+

theorem store_conditional_correct_witness:
  "(\<exists>p m. sc_run [other_swap] = Inr (p, m) \<and> req_extraData p = 1) \<and>
   (\<exists>p m. sc_run [other_write] = Inr (p, m) \<and> req_extraData p = 0)"
proof -
  have "\<exists>p m1 ll' m2 m. mem_access locked_read small_memory = Inr (ll', m1) \<and> mem_run ps m1 = Inr m2 \<and>
      mem_access conditional_write m2 = Inr (p, m) \<and> sc_run ps = Inr (p, m)" if "case sc_run ps of Inl _ \<Rightarrow> False | Inr (p, _) \<Rightarrow> True" for ps
    using that by (auto simp: sc_run_def bindE_def split: sum.splits prod.splits)
  note r = this [OF sc_runs(1)] this [OF sc_runs(2)]
  have k: "locks_ok small_memory" "load_locks locked_read" "plain_stores conditional_write" "req_isLLSC conditional_write"
      "0 = req_contextId locked_read" "lock_mask 0x100 = lock_mask (req_paddr locked_read)"
      "req_contextId conditional_write = 0" "lock_mask (req_paddr conditional_write) = lock_mask 0x100"
    by (simp_all add: locks_ok_def small_memory_def load_locks_def plain_stores_def locked_read_def conditional_write_def plain_packet_def)
  note sc = store_conditional_correct [OF k(1,2) _ _ k(3,4) _ k(5-8)]
  have "\<not> concerns 0 (lock_mask 0x100) other_swap" "concerns 0 (lock_mask 0x100) other_write"
      "\<not> reserves 0 (lock_mask 0x100) other_write" by code_simp+
  then have f: "filter (concerns 0 (lock_mask 0x100)) [other_swap] = []"
      "filter (concerns 0 (lock_mask 0x100)) [other_write] \<noteq> []"
      "\<not> reserves 0 (lock_mask 0x100) (last (filter (concerns 0 (lock_mask 0x100)) [other_write]))" by simp_all
  obtain p1 ll1 m1 n1 l1 where s1: "mem_access locked_read small_memory = Inr (ll1, m1)" "mem_run [other_swap] m1 = Inr n1"
      "mem_access conditional_write n1 = Inr (p1, l1)" "sc_run [other_swap] = Inr (p1, l1)" using r(1) by (elim exE conjE)
  obtain p2 ll2 m2 n2 l2 where s2: "mem_access locked_read small_memory = Inr (ll2, m2)" "mem_run [other_write] m2 = Inr n2"
      "mem_access conditional_write n2 = Inr (p2, l2)" "sc_run [other_write] = Inr (p2, l2)" using r(2) by (elim exE conjE)
  have "req_extraData p1 = 1" using sc [OF s1(1-3)] unfolding f(1) by simp
  moreover have "req_extraData p2 = 0" using sc [OF s2(1-3)] f(2,3) by (simp only: simp_thms if_False)
  ultimately show ?thesis using s1(4) s2(4) by (intro conjI exI [of _ p1] exI [of _ l1] exI [of _ p2] exI [of _ l2]) simp_all
qed

section \<open>Data\<close>

text \<open>A block with host memory of the size of its range.\<close>

definition block_ok :: "AbstractMemory \<Rightarrow> bool" where
  "block_ok m \<longleftrightarrow> r_start (m_range m) \<le> r_end (m_range m) \<and>
     (case pmemAddr m of None \<Rightarrow> False
      | Some b \<Rightarrow> length b = unat (r_end (m_range m) - r_start (m_range m)) + 1)"

text \<open>The byte of a block at an address.\<close>

definition byte_at :: "AbstractMemory \<Rightarrow> Addr \<Rightarrow> u8" where
  "byte_at m a = the (pmemAddr m) ! host_index a m"

text \<open>A packet with data that does not wrap around the address space.\<close>

definition packet_ok :: "Packet \<Rightarrow> bool" where
  "packet_ok pkt \<longleftrightarrow> p_data pkt \<noteq> [] \<and> unat (p_addr pkt) + length (p_data pkt) \<le> 2 ^ 64"

lemma in_block_bounds:
  assumes ok: "block_ok m" "packet_ok pkt" "in_block pkt m" and b: "pmemAddr m = Some b"
  shows "host_index (p_addr pkt) m + length (p_data pkt) \<le> length b"
proof -
  let ?s = "r_start (m_range m)" and ?e = "r_end (m_range m)" and ?a = "p_addr pkt"
  let ?n = "length (p_data pkt)"
  have n: "0 < ?n" "unat ?a + ?n \<le> 2 ^ 64" using ok(2) by (auto simp: packet_ok_def)
  have "unat (?a + of_nat ?n - 1) = unat ?a + ?n - 1"
  proof -
    have "of_nat (unat ?a + ?n - 1) = (of_nat (unat ?a + ?n) - of_nat 1 :: u64)"
      using n(1) by (intro of_nat_diff) linarith
    then have "?a + of_nat ?n - 1 = of_nat (unat ?a + ?n - 1)" by simp
    moreover have "unat (of_nat (unat ?a + ?n - 1) :: u64) = unat ?a + ?n - 1"
      using n unfolding unat_of_nat by (intro mod_less) simp
    ultimately show ?thesis by (rule ssubst)
  qed
  then have "unat ?a + ?n - 1 \<le> unat ?e"
    using ok(3) by (simp add: in_block_def word_le_nat_alt)
  moreover have "unat ?s \<le> unat ?a" "unat ?s \<le> unat ?e"
    using ok by (auto simp: in_block_def block_ok_def word_le_nat_alt)
  moreover have "unat (?a - ?s) = unat ?a - unat ?s" "unat (?e - ?s) = unat ?e - unat ?s"
    using ok by (auto simp: in_block_def block_ok_def unat_sub)
  ultimately show ?thesis using ok(1) n(1) b by (simp add: block_ok_def host_index_def)
qed

lemma nth_host_write:
  assumes "i + length d \<le> length b" "j < length b"
  shows "(take i b @ d @ drop (i + length d) b) ! j = (if i \<le> j \<and> j < i + length d then d ! (j - i) else b ! j)"
  using assms by (auto simp: nth_append min_def)

text \<open>The packet of a functional read or write of some bytes.\<close>

definition read_packet :: "Addr \<Rightarrow> nat \<Rightarrow> Packet" where
  "read_packet a n = plain_packet\<lparr>p_isRead := True, p_addr := a, req_paddr := a, p_data := replicate n 0\<rparr>"

definition write_packet :: "Addr \<Rightarrow> u8 list \<Rightarrow> Packet" where
  "write_packet a d = plain_packet\<lparr>p_isWrite := True, p_addr := a, req_paddr := a, p_data := d\<rparr>"

lemma functional_write:
  assumes ok: "block_ok m" "packet_ok (write_packet a d)" "in_block (write_packet a d) m"
  shows "\<exists>b pkt. pmemAddr m = Some b \<and> host_index a m + length d \<le> length b \<and>
    mem_functionalAccess (write_packet a d) m = Inr (pkt,
      m\<lparr>pmemAddr := Some (take (host_index a m) b @ d @ drop (host_index a m + length d) b)\<rparr>)"
proof -
  obtain b where b: "pmemAddr m = Some b" using ok(1) by (auto simp: block_ok_def split: option.splits)
  have "host_index a m + length d \<le> length b"
    using in_block_bounds [OF ok b] by (simp add: write_packet_def)
  then show ?thesis
    using ok(3) b by (auto simp: mem_functionalAccess_def write_packet_def plain_packet_def
        write_from_def host_write_def makeResponse_def)
qed

lemma functional_read:
  assumes ok: "block_ok m" "packet_ok (read_packet a n)" "in_block (read_packet a n) m"
  shows "\<exists>b pkt. pmemAddr m = Some b \<and> host_index a m + n \<le> length b \<and>
    mem_functionalAccess (read_packet a n) m = Inr (pkt, m) \<and>
    p_data pkt = take n (drop (host_index a m) b)"
proof -
  obtain b where b: "pmemAddr m = Some b" using ok(1) by (auto simp: block_ok_def split: option.splits)
  have "host_index a m + n \<le> length b"
    using in_block_bounds [OF ok b] by (simp add: read_packet_def)
  then show ?thesis
    using ok(3) b by (auto simp: mem_functionalAccess_def read_packet_def plain_packet_def
        read_into_def host_read_def makeResponse_def)
qed

lemma block_ok_write:
  "block_ok m \<Longrightarrow> pmemAddr m = Some b \<Longrightarrow> length b' = length b \<Longrightarrow> block_ok (m\<lparr>pmemAddr := Some b'\<rparr>)"
  by (simp add: block_ok_def)

text \<open>
  A functional write to a block succeeds, changes exactly the bytes it addresses, and a
  functional read of the same bytes returns the data written.
\<close>

lemma memory_write_read:
  assumes "block_ok m" "packet_ok (write_packet a d)" "in_block (write_packet a d) m"
  shows "\<exists>pkt m'. mem_functionalAccess (write_packet a d) m = Inr (pkt, m') \<and> block_ok m' \<and>
    m_range m' = m_range m \<and>
    (\<forall>i < unat (r_end (m_range m) - r_start (m_range m)) + 1.
       i < host_index a m \<or> host_index a m + length d \<le> i \<longrightarrow> the (pmemAddr m') ! i = the (pmemAddr m) ! i) \<and>
    (\<exists>pkt'. mem_functionalAccess (read_packet a (length d)) m' = Inr (pkt', m') \<and> p_data pkt' = d)"
proof -
  obtain b pkt where w: "pmemAddr m = Some b" "host_index a m + length d \<le> length b"
      "mem_functionalAccess (write_packet a d) m = Inr (pkt,
        m\<lparr>pmemAddr := Some (take (host_index a m) b @ d @ drop (host_index a m + length d) b)\<rparr>)"
    using functional_write [OF assms] by blast
  let ?b = "take (host_index a m) b @ d @ drop (host_index a m + length d) b"
  let ?m = "m\<lparr>pmemAddr := Some ?b\<rparr>"
  have ok: "block_ok ?m" using w by (intro block_ok_write [OF assms(1)]) auto
  have p: "packet_ok (read_packet a (length d))" "in_block (read_packet a (length d)) ?m"
    using assms(2,3) by (auto simp: packet_ok_def in_block_def read_packet_def write_packet_def)
  obtain pkt' where r: "mem_functionalAccess (read_packet a (length d)) ?m = Inr (pkt', ?m)"
      "p_data pkt' = take (length d) (drop (host_index a ?m) ?b)"
    using functional_read [OF ok p] by auto
  have "p_data pkt' = d" using r(2) w(2) by (simp add: host_index_def)
  moreover have "length b = unat (r_end (m_range m) - r_start (m_range m)) + 1"
    using assms(1) w(1) by (simp add: block_ok_def)
  then have "\<forall>i < unat (r_end (m_range m) - r_start (m_range m)) + 1.
      i < host_index a m \<or> host_index a m + length d \<le> i \<longrightarrow> ?b ! i = b ! i"
    using nth_host_write [OF w(2)] by auto
  ultimately show ?thesis using w ok r by auto
qed

section \<open>The address map\<close>

text \<open>
  The cached range is a range of the map or empty; every element of the map is a block with
  that range.
\<close>

definition pm_ok :: "AbstractMemory list \<Rightarrow> PhysicalMemory \<Rightarrow> bool" where
  "pm_ok h pm \<longleftrightarrow> tree_ok (addrMap pm) \<and>
     (\<forall>e\<in>set (addrMap pm). entry_value e < length h \<and> entry_range e = m_range (h ! entry_value e)) \<and>
     ((\<forall>a. \<not> pos_in_range a (rangeCache pm)) \<or> rangeCache pm \<in> entry_range ` set (addrMap pm))"

lemma isMemAddr_spec:
  assumes "pm_ok h pm"
  shows "\<exists>pm'. isMemAddr a pm = Inr (\<exists>e\<in>set (addrMap pm). pos_in_range a (entry_range e), pm') \<and>
    pm_ok h pm' \<and> addrMap pm' = addrMap pm"
proof -
  have t: "tree_ok (addrMap pm)" using assms by (simp add: pm_ok_def)
  note f = rm_find_pos_iff [OF t, of a]
  show ?thesis
  proof (cases "pos_in_range a (rangeCache pm)")
    case True
    then obtain e where e: "e \<in> set (addrMap pm)" "rangeCache pm = entry_range e"
      using assms by (auto simp: pm_ok_def)
    then have "rm_find_pos a (addrMap pm) = Some e" using True f by simp
    then show ?thesis using True assms e by (auto simp: isMemAddr_def)
  next
    case False
    show ?thesis
    proof (cases "rm_find_pos a (addrMap pm)")
      case None
      then have "\<not> (\<exists>e\<in>set (addrMap pm). pos_in_range a (entry_range e))" using f by force
      then show ?thesis using False None assms by (auto simp: isMemAddr_def)
    next
      case (Some e)
      then have "e \<in> set (addrMap pm)" "pos_in_range a (entry_range e)" using f by auto
      then show ?thesis using False Some assms by (auto simp: isMemAddr_def pm_ok_def)
    qed
  qed
qed

definition map_entry :: "AbstractMemory list \<Rightarrow> nat \<Rightarrow> Addr \<times> Addr \<times> nat" where
  "map_entry h a = (r_start (m_range (h ! a)), r_end (m_range (h ! a)), a)"

lemma map_entry_simps [simp]:
  "entry_range (map_entry h a) = m_range (h ! a)" "entry_value (map_entry h a) = a"
  by (simp_all add: map_entry_def entry_range_def entry_value_def)

lemma add_memories_ok:
  assumes "pm_ok h pm" "list_all (\<lambda>a. a < length h) as"
    "list_all (\<lambda>a. r_start (m_range (h ! a)) \<le> r_end (m_range (h ! a))) as"
    "\<forall>a\<in>set as. \<forall>e\<in>set (addrMap pm). \<not> ranges_meet (entry_range e) (m_range (h ! a))"
    "sorted_wrt (\<lambda>a b. \<not> ranges_meet (m_range (h ! a)) (m_range (h ! b))) as"
  shows "\<exists>pm'. add_memories h as pm = Inr pm' \<and> pm_ok h pm' \<and>
    set (addrMap pm') = set (addrMap pm) \<union> map_entry h ` set (filter (\<lambda>a. inAddrMap (h ! a)) as)"
  using assms
proof (induction as arbitrary: pm)
  case Nil
  then show ?case by simp
next
  case (Cons a as)
  let ?r = "m_range (h ! a)"
  show ?case
  proof (cases "inAddrMap (h ! a)")
    case False
    then show ?thesis using Cons.IH [OF Cons.prems(1)] Cons.prems by simp
  next
    case True
    obtain t where t: "rm_insert ?r a (addrMap pm) = Some t" "tree_ok t"
        "\<forall>x. x \<in> set t \<longleftrightarrow> x = (r_start ?r, r_end ?r, a) \<or> x \<in> set (addrMap pm)"
      using rm_insert_set [of "addrMap pm" ?r a] Cons.prems by (auto simp: pm_ok_def)
    have set_t: "set t = insert (map_entry h a) (set (addrMap pm))"
      using t(3) unfolding map_entry_def by blast
    let ?pm = "pm\<lparr>pm_memories := pm_memories pm @ [a], pm_size := pm_size pm + range_size ?r, addrMap := t\<rparr>"
    have "pm_ok h ?pm" using Cons.prems t(2) by (auto simp: pm_ok_def set_t)
    moreover have "\<forall>b\<in>set as. \<forall>e\<in>set (addrMap ?pm). \<not> ranges_meet (entry_range e) (m_range (h ! b))"
      using Cons.prems by (auto simp: set_t)
    ultimately obtain pm' where "add_memories h as ?pm = Inr pm'" "pm_ok h pm'"
        "set (addrMap pm') = set t \<union> map_entry h ` set (filter (\<lambda>a. inAddrMap (h ! a)) as)"
      using Cons.IH [of ?pm] Cons.prems by auto
    then show ?thesis using True t(1) Cons.prems by (auto simp: set_t)
  qed
qed

text \<open>
  From blocks with non-empty, pairwise disjoint ranges the constructor builds a physical memory that
  satisfies its invariant, and the lookup of an address finds a block exactly when that block
  is in the address map and its range contains the address.
\<close>

lemma PhysicalMemory_ctor_correct:
  assumes "list_all (\<lambda>a. a < length h \<and> r_start (m_range (h ! a)) \<le> r_end (m_range (h ! a))) as"
    and "sorted_wrt (\<lambda>a b. \<not> ranges_meet (m_range (h ! a)) (m_range (h ! b))) as"
  shows "\<exists>pm. PhysicalMemory_ctor h as = Inr pm \<and> pm_ok h pm \<and>
    (\<forall>x a. map_option entry_value (rm_find_pos x (addrMap pm)) = Some a \<longleftrightarrow>
       a \<in> set as \<and> inAddrMap (h ! a) \<and> pos_in_range x (m_range (h ! a)))"
proof -
  let ?pm = "\<lparr>addrMap = [], rangeCache = invalid_range, pm_memories = [], pm_size = 0\<rparr> :: PhysicalMemory"
  have "\<not> pos_in_range a invalid_range" for a
    by (auto simp: pos_in_range_def invalid_range_def)
  then have "pm_ok h ?pm" by (simp add: pm_ok_def tree_ok_def)
  then obtain pm where pm: "add_memories h as ?pm = Inr pm" "pm_ok h pm"
      "set (addrMap pm) = map_entry h ` set (filter (\<lambda>a. inAddrMap (h ! a)) as)"
    using add_memories_ok [of h ?pm as] assms by (auto simp: list_all_iff)
  have "map_option entry_value (rm_find_pos x (addrMap pm)) = Some a \<longleftrightarrow>
       a \<in> set as \<and> inAddrMap (h ! a) \<and> pos_in_range x (m_range (h ! a))" for x a
  proof -
    have t: "tree_ok (addrMap pm)" using pm(2) by (simp add: pm_ok_def)
    have "map_option entry_value (rm_find_pos x (addrMap pm)) = Some a \<longleftrightarrow>
        (\<exists>e\<in>set (addrMap pm). pos_in_range x (entry_range e) \<and> entry_value e = a)"
      unfolding map_option_eq_Some rm_find_pos_iff [OF t, of x] by blast
    then show ?thesis unfolding pm(3) by auto
  qed
  then show ?thesis using pm by (auto simp: PhysicalMemory_ctor_def)
qed

end
