(* ===== verification/Fault_Classes.thy ===== *)
theory Fault_Classes
  imports Fault_Queue Bitfield Alpha_Vm Phys_Memory
begin

text \<open>
  The fault classes of \<open>src/src/fi\<close>: the constructors that read a fault from the input file and put it
  into a queue, and the \<open>process\<close> functions that inject it into the registers, the program counter,
  memory or the instruction, each followed by \<open>check4reschedule\<close>. Tracing is off, so that
  \<open>dump\<close> and the messages have no counterpart.
\<close>

section \<open>The machine the faults act on\<close>

text \<open>
  \<open>BaseCPU\<close> (\<open>src/src/cpu/base.hh\<close>): the clock period and the hardware contexts. The processors are
  found by name, as by \<open>SimObject::find\<close>; there is one memory system.
\<close>

record BaseCPU =
  cpu_clock :: u64
  threadContexts :: "ThreadContext list"

record Machine =
  cpus :: "(string \<times> BaseCPU) list"
  curTick :: u64
  blocks :: "AbstractMemory list"
  physmem :: PhysicalMemory

definition cpu_ticks :: "BaseCPU \<Rightarrow> int \<Rightarrow> u64" where
  "cpu_ticks c numCycles = cpu_clock c * word_of_int numCycles"

text \<open>\<open>curTick() / clock\<close>; a clock of 0 is a division by zero, which ends the simulation.\<close>

definition curCycle :: "u64 \<Rightarrow> BaseCPU \<Rightarrow> u64 res" where
  "curCycle now c = (if cpu_clock c = 0 then Inl Panic else Inr (now div cpu_clock c))"

definition getContext :: "BaseCPU \<Rightarrow> int \<Rightarrow> ThreadContext res" where
  "getContext c tn = at_int (threadContexts c) tn"

text \<open>The processor a fault points to, its context, and the replacement of that context.\<close>

definition fault_cpu :: "InjectedFault \<Rightarrow> Machine \<Rightarrow> BaseCPU res" where
  "fault_cpu f w = (case f_cpu f of None \<Rightarrow> Inl Null_deref
     | Some n \<Rightarrow> (case map_find n (cpus w) of None \<Rightarrow> Inl Bad_pointer | Some c \<Rightarrow> Inr c))"

definition fault_context :: "InjectedFault \<Rightarrow> Machine \<Rightarrow> ThreadContext res" where
  "fault_context f w = bindE (fault_cpu f w) (\<lambda>c. getContext c (f_tcontext f))"

definition put_context :: "InjectedFault \<Rightarrow> ThreadContext \<Rightarrow> Machine \<Rightarrow> Machine res" where
  "put_context f tc w =
     bindE (fault_cpu f w) (\<lambda>c.
     bindE (set_int (threadContexts c) (f_tcontext f) tc) (\<lambda>l.
       case f_cpu f of None \<Rightarrow> Inl Null_deref
       | Some n \<Rightarrow> Inr (w\<lparr>cpus := map_assign n (c\<lparr>threadContexts := l\<rparr>) (cpus w)\<rparr>)))"

section \<open>The queues\<close>

record Fi_Queues =
  fi_heap :: fault_heap
  mainInjectedFaultQueue :: InjectedFaultQueue
  fetchStageInjectedFaultQueue :: InjectedFaultQueue
  decodeStageInjectedFaultQueue :: InjectedFaultQueue
  iewStageInjectedFaultQueue :: InjectedFaultQueue
  faultCnt :: u64

definition the_queue :: "queue_id \<Rightarrow> Fi_Queues \<Rightarrow> InjectedFaultQueue" where
  "the_queue qid s = (case qid of MainQ \<Rightarrow> mainInjectedFaultQueue s
     | FetchQ \<Rightarrow> fetchStageInjectedFaultQueue s
     | DecodeQ \<Rightarrow> decodeStageInjectedFaultQueue s
     | IEWQ \<Rightarrow> iewStageInjectedFaultQueue s)"

definition with_queue :: "queue_id \<Rightarrow> fault_heap \<times> InjectedFaultQueue \<Rightarrow> Fi_Queues \<Rightarrow> Fi_Queues" where
  "with_queue qid hq s = (case hq of (h, q) \<Rightarrow>
     let s = s\<lparr>fi_heap := h\<rparr>
     in case qid of MainQ \<Rightarrow> s\<lparr>mainInjectedFaultQueue := q\<rparr>
        | FetchQ \<Rightarrow> s\<lparr>fetchStageInjectedFaultQueue := q\<rparr>
        | DecodeQ \<Rightarrow> s\<lparr>decodeStageInjectedFaultQueue := q\<rparr>
        | IEWQ \<Rightarrow> s\<lparr>iewStageInjectedFaultQueue := q\<rparr>)"

definition insert_into :: "queue_id \<Rightarrow> nat \<Rightarrow> Fi_Queues \<Rightarrow> Fi_Queues res" where
  "insert_into qid a s =
     bindE (queue_insert qid a (fi_heap s, the_queue qid s)) (\<lambda>hq. Inr (with_queue qid hq s))"

definition remove_from :: "queue_id \<Rightarrow> nat \<Rightarrow> Fi_Queues \<Rightarrow> Fi_Queues res" where
  "remove_from qid a s =
     bindE (queue_remove a (fi_heap s, the_queue qid s)) (\<lambda>hq. Inr (with_queue qid hq s))"

definition upd_fault :: "nat \<Rightarrow> (InjectedFault \<Rightarrow> InjectedFault) \<Rightarrow> Fi_Queues \<Rightarrow> Fi_Queues res" where
  "upd_fault a g s = bindE (upd (fi_heap s) (Some a) g) (\<lambda>h. Inr (s\<lparr>fi_heap := h\<rparr>))"

section \<open>Constructors\<close>

text \<open>
  \<open>new C(os)\<close>: the object is built from raw memory, its address is the next one of the heap.
  \<open>place_object\<close> is the end of the constructors that do not insert into a queue.
\<close>

definition place_object ::
  "InjectedFault \<times> u64 \<times> istream \<Rightarrow> Fi_Queues \<Rightarrow> nat \<times> Fi_Queues \<times> istream" where
  "place_object r s = (case r of (f, cnt, os) \<Rightarrow>
     (length (fi_heap s), s\<lparr>fi_heap := fi_heap s @ [f], faultCnt := cnt\<rparr>, os))"

definition new_InjectedFault ::
  "InjectedFault \<Rightarrow> istream \<Rightarrow> Fi_Queues \<Rightarrow> (nat \<times> Fi_Queues \<times> istream) res" where
  "new_InjectedFault raw os s =
     bindE (InjectedFault_ctor (raw\<lparr>f_class := CInjectedFault\<rparr>) (faultCnt s) os) (\<lambda>r.
       Inr (place_object r s))"

definition new_CPUInjectedFault ::
  "InjectedFault \<Rightarrow> istream \<Rightarrow> Fi_Queues \<Rightarrow> (nat \<times> Fi_Queues \<times> istream) res" where
  "new_CPUInjectedFault raw os s =
     bindE (CPUInjectedFault_ctor (raw\<lparr>f_class := CCPUInjectedFault\<rparr>) (faultCnt s) os) (\<lambda>r.
       Inr (place_object r s))"

definition new_O3CPUInjectedFault ::
  "InjectedFault \<Rightarrow> istream \<Rightarrow> Fi_Queues \<Rightarrow> (nat \<times> Fi_Queues \<times> istream) res" where
  "new_O3CPUInjectedFault raw os s =
     bindE (O3CPUInjectedFault_ctor (raw\<lparr>f_class := CO3CPUInjectedFault\<rparr>) (faultCnt s) os) (\<lambda>r.
       Inr (place_object r s))"

definition new_GeneralFetchInjectedFault ::
  "InjectedFault \<Rightarrow> istream \<Rightarrow> Fi_Queues \<Rightarrow> (nat \<times> Fi_Queues \<times> istream) res" where
  "new_GeneralFetchInjectedFault raw os s =
     bindE (O3CPUInjectedFault_ctor (raw\<lparr>f_class := CGeneralFetchInjectedFault\<rparr>) (faultCnt s) os)
       (\<lambda>(f, cnt, os). case place_object (f\<lparr>f_faultType := GeneralFetchInjectedFault\<rparr>, cnt, os) s of
          (a, s, os) \<Rightarrow> bindE (insert_into FetchQ a s) (\<lambda>s. Inr (a, s, os)))"

definition new_IEWStageInjectedFault ::
  "InjectedFault \<Rightarrow> istream \<Rightarrow> Fi_Queues \<Rightarrow> (nat \<times> Fi_Queues \<times> istream) res" where
  "new_IEWStageInjectedFault raw os s =
     bindE (O3CPUInjectedFault_ctor (raw\<lparr>f_class := CIEWStageInjectedFault\<rparr>) (faultCnt s) os)
       (\<lambda>(f, cnt, os). case place_object (f\<lparr>f_faultType := ExecutionInjectedFault\<rparr>, cnt, os) s of
          (a, s, os) \<Rightarrow> bindE (insert_into IEWQ a s) (\<lambda>s. Inr (a, s, os)))"

definition new_OpCodeInjectedFault ::
  "InjectedFault \<Rightarrow> istream \<Rightarrow> Fi_Queues \<Rightarrow> (nat \<times> Fi_Queues \<times> istream) res" where
  "new_OpCodeInjectedFault raw os s =
     bindE (O3CPUInjectedFault_ctor (raw\<lparr>f_class := COpCodeInjectedFault\<rparr>) (faultCnt s) os)
       (\<lambda>(f, cnt, os). case place_object (f\<lparr>f_faultType := OpCodeInjectedFault\<rparr>, cnt, os) s of
          (a, s, os) \<Rightarrow> bindE (insert_into FetchQ a s) (\<lambda>s. Inr (a, s, os)))"

definition new_PCInjectedFault ::
  "InjectedFault \<Rightarrow> istream \<Rightarrow> Fi_Queues \<Rightarrow> (nat \<times> Fi_Queues \<times> istream) res" where
  "new_PCInjectedFault raw os s =
     bindE (CPUInjectedFault_ctor (raw\<lparr>f_class := CPCInjectedFault\<rparr>) (faultCnt s) os)
       (\<lambda>(f, cnt, os). case place_object (f\<lparr>f_faultType := PCInjectedFault\<rparr>, cnt, os) s of
          (a, s, os) \<Rightarrow> bindE (insert_into MainQ a s) (\<lambda>s. Inr (a, s, os)))"

text \<open>
  The memory fault reads two integers, then stores both; \<open>pMem\<close>, which nothing reads, is left out.
\<close>

definition new_MemoryInjectedFault ::
  "InjectedFault \<Rightarrow> istream \<Rightarrow> Fi_Queues \<Rightarrow> (nat \<times> Fi_Queues \<times> istream) res" where
  "new_MemoryInjectedFault raw os s =
     bindE (CPUInjectedFault_ctor (raw\<lparr>f_class := CMemoryInjectedFault\<rparr>) (faultCnt s) os)
       (\<lambda>(f, cnt, os).
          let (k, os) = read_int os; (reg, os) = read_int os
          in bindE (init_int k) (\<lambda>k. bindE (init_int reg) (\<lambda>reg.
             case place_object (f\<lparr>f_offset := k, f_register := reg, f_faultType := MemoryInjectedFault\<rparr>,
                    cnt, os) s of
               (a, s, os) \<Rightarrow> bindE (insert_into MainQ a s) (\<lambda>s. Inr (a, s, os)))))"

definition new_RegisterInjectedFault ::
  "InjectedFault \<Rightarrow> istream \<Rightarrow> Fi_Queues \<Rightarrow> (nat \<times> Fi_Queues \<times> istream) res" where
  "new_RegisterInjectedFault raw os s =
     bindE (CPUInjectedFault_ctor (raw\<lparr>f_class := CRegisterInjectedFault\<rparr>) (faultCnt s) os)
       (\<lambda>(f, cnt, os).
          let f = f\<lparr>f_faultType := RegisterInjectedFault\<rparr>; (v, os) = read_string os
          in bindE (setRegType (str_or_empty v) f) (\<lambda>f.
             let (k, os) = read_int os
             in bindE (init_int k) (\<lambda>k.
                case place_object (f\<lparr>f_register := k\<rparr>, cnt, os) s of
                  (a, s, os) \<Rightarrow> bindE (insert_into MainQ a s) (\<lambda>s. Inr (a, s, os)))))"

definition new_RegisterDecodingInjectedFault ::
  "InjectedFault \<Rightarrow> istream \<Rightarrow> Fi_Queues \<Rightarrow> (nat \<times> Fi_Queues \<times> istream) res" where
  "new_RegisterDecodingInjectedFault raw os s =
     bindE (O3CPUInjectedFault_ctor (raw\<lparr>f_class := CRegisterDecodingInjectedFault\<rparr>) (faultCnt s) os)
       (\<lambda>(f, cnt, os).
          let (v, os) = read_string os
          in bindE (parseRegDec (str_or_empty v) f) (\<lambda>f.
             case place_object (f, cnt, os) s of
               (a, s, os) \<Rightarrow>
                 bindE (insert_into DecodeQ a s) (\<lambda>s.
                 bindE (upd_fault a (\<lambda>f. f\<lparr>f_faultType := RegisterDecodingInjectedFault\<rparr>) s) (\<lambda>s.
                   Inr (a, s, os)))))"

section \<open>Rescheduling\<close>

text \<open>
  \<open>check4reschedule\<close> of \<open>CPUInjectedFault\<close>; that of \<open>O3CPUInjectedFault\<close> is the same text. The
  new instruction count passes through an \<open>int\<close>.
\<close>

definition check4reschedule :: "nat \<Rightarrow> Fi_Queues \<Rightarrow> Machine \<Rightarrow> Fi_Queues res" where
  "check4reschedule a s w =
     bindE (deref (fi_heap s) (Some a)) (\<lambda>f.
       if f_occurrence f = 1 then
         (case f_queue f of None \<Rightarrow> Inl Null_deref | Some qid \<Rightarrow> remove_from qid a s)
       else
         bindE (fault_cpu f w) (\<lambda>c.
         bindE (getContext c (f_tcontext f)) (\<lambda>tc.
         let cycles = f_timing f + cpu_ticks c 1;
             insts = int32 (uint (f_timing f + 1));
             addr = f_timing f + (nextInstAddr (tc_pcState tc) - instAddr (tc_pcState tc))
         in bindE (increaseTiming cycles (word_of_int insts) addr f) (\<lambda>f.
              upd_fault a (\<lambda>_. (decreaseOccurrence f)\<lparr>f_manifested := False\<rparr>) s))))"

definition O3_check4reschedule :: "nat \<Rightarrow> Fi_Queues \<Rightarrow> Machine \<Rightarrow> Fi_Queues res" where
  "O3_check4reschedule = check4reschedule"

section \<open>Injection\<close>

text \<open>
  A fault in the main queue changes the machine; \<open>C_inject\<close> is the part of \<open>C::process\<close> before it
  calls \<open>check4reschedule\<close>.
\<close>

definition Register_inject :: "InjectedFault \<Rightarrow> Machine \<Rightarrow> Machine res" where
  "Register_inject f w =
     (if f_regType f = IntegerRegisterFault then
        bindE (fault_context f w) (\<lambda>tc.
        bindE (readIntReg (f_register f) tc) (\<lambda>regval.
        bindE (manifest regval (f_value f) (f_valueType f)) (\<lambda>mask.
        bindE (setIntReg (f_register f) mask tc) (\<lambda>tc. put_context f tc w))))
      else if f_regType f = FloatRegisterFault then
        bindE (fault_context f w) (\<lambda>tc.
        bindE (readFloatReg (f_register f) tc) (\<lambda>regval.
        bindE (manifest regval (f_value f) (f_valueType f)) (\<lambda>mask.
        bindE (setFloatReg (f_register f) mask tc) (\<lambda>tc. put_context f tc w))))
      else if f_regType f = MiscRegisterFault then
        bindE (fault_cpu f w) (\<lambda>c.
        bindE (fault_context f w) (\<lambda>tc.
        bindE (if f_register f = IPR_CC then curCycle (curTick w) c else Inr 0) (\<lambda>cyc.
        bindE (readMiscReg cyc (f_register f) tc) (\<lambda>(regval, tc).
        bindE (manifest regval (f_value f) (f_valueType f)) (\<lambda>mask.
        bindE (setMiscReg (f_register f) mask tc) (\<lambda>tc. put_context f tc w))))))
      else Inl AssertFail)"

definition Register_process :: "nat \<Rightarrow> Fi_Queues \<Rightarrow> Machine \<Rightarrow> (Fi_Queues \<times> Machine) res" where
  "Register_process a s w =
     bindE (deref (fi_heap s) (Some a)) (\<lambda>f.
     bindE (Register_inject f w) (\<lambda>w.
     bindE (check4reschedule a s w) (\<lambda>s. Inr (s, w))))"

definition PC_inject :: "InjectedFault \<Rightarrow> Machine \<Rightarrow> Machine res" where
  "PC_inject f w =
     bindE (fault_context f w) (\<lambda>tc.
     bindE (manifest (instAddr (tc_pcState tc)) (f_value f) (f_valueType f)) (\<lambda>mask.
       put_context f (set_pcState (PCState_set mask) tc) w))"

definition PC_process :: "nat \<Rightarrow> Fi_Queues \<Rightarrow> Machine \<Rightarrow> (Fi_Queues \<times> Machine) res" where
  "PC_process a s w =
     bindE (deref (fi_heap s) (Some a)) (\<lambda>f.
     bindE (PC_inject f w) (\<lambda>w.
     bindE (check4reschedule a s w) (\<lambda>s. Inr (s, w))))"

text \<open>The page table walk reads memory through a functional access of 8 bytes.\<close>

definition phys_read64 :: "Machine \<Rightarrow> Addr \<Rightarrow> u64 res" where
  "phys_read64 w a =
     bindE (phys_functionalAccess (read_packet a 8) (blocks w) (physmem w)) (\<lambda>(pkt, _).
       Inr (of_bytes (p_data pkt)))"

definition Memory_inject :: "InjectedFault \<Rightarrow> Machine \<Rightarrow> Machine res" where
  "Memory_inject f w =
     bindE (fault_context f w) (\<lambda>tc.
     bindE (readIntReg (f_register f) tc) (\<lambda>base.
     bindE (vtophys (phys_read64 w) tc (base + word_of_int (f_offset f))) (\<lambda>physical.
     bindE (isMemAddr physical (physmem w)) (\<lambda>(isphysical, pm).
       if isphysical then
         bindE (assertE (rm_find_pos physical (addrMap pm) \<noteq> None)) (\<lambda>_.
         let e = the (rm_find_pos physical (addrMap pm)) in
         bindE (at (blocks w) (entry_value e)) (\<lambda>m.
         bindE (case pmemAddr m of None \<Rightarrow> Inl Null_deref | Some b \<Rightarrow> at b (host_index physical m))
           (\<lambda>memval.
         bindE (manifest memval (ucast (ucast (f_value f) :: u8)) (f_valueType f)) (\<lambda>mask.
           Inr (w\<lparr>physmem := pm, blocks := (blocks w)[entry_value e :=
                  m\<lparr>pmemAddr := map_option (\<lambda>b. b[host_index physical m := mask]) (pmemAddr m)\<rparr>]\<rparr>)))))
       else Inr (w\<lparr>physmem := pm\<rparr>)))))"

definition Memory_process :: "nat \<Rightarrow> Fi_Queues \<Rightarrow> Machine \<Rightarrow> (Fi_Queues \<times> Machine) res" where
  "Memory_process a s w =
     bindE (deref (fi_heap s) (Some a)) (\<lambda>f.
     bindE (Memory_inject f w) (\<lambda>w.
     bindE (check4reschedule a s w) (\<lambda>s. Inr (s, w))))"

text \<open>The virtual \<open>process()\<close> of the main queue: by class; the base class asserts.\<close>

definition CPU_process :: "nat \<Rightarrow> Fi_Queues \<Rightarrow> Machine \<Rightarrow> (Fi_Queues \<times> Machine) res" where
  "CPU_process a s w =
     bindE (deref (fi_heap s) (Some a)) (\<lambda>f.
       case f_class f of
         CRegisterInjectedFault \<Rightarrow> Register_process a s w
       | CPCInjectedFault \<Rightarrow> PC_process a s w
       | CMemoryInjectedFault \<Rightarrow> Memory_process a s w
       | _ \<Rightarrow> Inl AssertFail)"

text \<open>A fault in the fetch queue changes the machine instruction.\<close>

definition GeneralFetch_process :: "nat \<Rightarrow> u32 \<Rightarrow> Fi_Queues \<Rightarrow> Machine \<Rightarrow> (u32 \<times> Fi_Queues) res" where
  "GeneralFetch_process a inst s w =
     bindE (deref (fi_heap s) (Some a)) (\<lambda>f.
     bindE (manifest inst (f_value f) (f_valueType f)) (\<lambda>retInst.
     bindE (O3_check4reschedule a s w) (\<lambda>s. Inr (retInst, s))))"

definition OpCode_process :: "nat \<Rightarrow> u32 \<Rightarrow> Fi_Queues \<Rightarrow> Machine \<Rightarrow> (u32 \<times> Fi_Queues) res" where
  "OpCode_process a inst s w =
     bindE (deref (fi_heap s) (Some a)) (\<lambda>f.
     bindE (
       if f_valueType f = ImmediateValue then Inr (insertBits inst 31 26 (f_value f))
       else if f_valueType f = MaskValue then
         Inr (insertBits inst 31 26 (ucast (bits inst 31 26) XOR f_value f))
       else Inl AssertFail) (\<lambda>retInst.
     bindE (O3_check4reschedule a s w) (\<lambda>s. Inr (retInst, s))))"

definition Fetch_process :: "nat \<Rightarrow> u32 \<Rightarrow> Fi_Queues \<Rightarrow> Machine \<Rightarrow> (u32 \<times> Fi_Queues) res" where
  "Fetch_process a inst s w =
     bindE (deref (fi_heap s) (Some a)) (\<lambda>f.
       case f_class f of
         CGeneralFetchInjectedFault \<Rightarrow> GeneralFetch_process a inst s w
       | COpCodeInjectedFault \<Rightarrow> OpCode_process a inst s w
       | _ \<Rightarrow> Inl AssertFail)"

text \<open>
  A decoded instruction: what the decoding fault reads and writes of \<open>StaticInst\<close>
  (\<open>src/src/cpu/static_inst.hh\<close>). The arrays have the size of the ISA's maximum, the counts say
  how many entries are used.
\<close>

record StaticInst =
  si_numSrcRegs :: int
  si_numDestRegs :: int
  si_srcRegIdx :: "u8 list"
  si_destRegIdx :: "u8 list"

definition RegisterDecoding_process ::
  "nat \<Rightarrow> StaticInst \<Rightarrow> Fi_Queues \<Rightarrow> Machine \<Rightarrow> (StaticInst \<times> Fi_Queues) res" where
  "RegisterDecoding_process a si s w =
     bindE (deref (fi_heap s) (Some a)) (\<lambda>f.
     let rTc = f_regToChange f; v = (word_of_int (f_changeToReg f) :: u8) in
     bindE (
       if f_srcOrDst f = SrcRegisterInjectedFault then
         (if rTc < si_numSrcRegs si then
            bindE (set_int (si_srcRegIdx si) rTc v) (\<lambda>l. Inr (si\<lparr>si_srcRegIdx := l\<rparr>))
          else Inr si)
       else
         (if rTc < si_numDestRegs si then
            bindE (set_int (si_destRegIdx si) rTc v) (\<lambda>l. Inr (si\<lparr>si_destRegIdx := l\<rparr>))
          else Inr si)) (\<lambda>si.
     bindE (O3_check4reschedule a s w) (\<lambda>s. Inr (si, s))))"

text \<open>The execution fault: a condition is negated, any other value is corrupted.\<close>

definition IEW_process_bool :: "nat \<Rightarrow> bool \<Rightarrow> Fi_Queues \<Rightarrow> Machine \<Rightarrow> (bool \<times> Fi_Queues) res" where
  "IEW_process_bool a v s w = bindE (O3_check4reschedule a s w) (\<lambda>s. Inr (\<not> v, s))"

definition IEW_process :: "nat \<Rightarrow> 'a::len word \<Rightarrow> Fi_Queues \<Rightarrow> Machine \<Rightarrow> ('a word \<times> Fi_Queues) res" where
  "IEW_process a v s w =
     bindE (deref (fi_heap s) (Some a)) (\<lambda>f.
     bindE (manifest v (f_value f) (f_valueType f)) (\<lambda>retVal.
     bindE (O3_check4reschedule a s w) (\<lambda>s. Inr (retVal, s))))"

section \<open>The four queues together\<close>

text \<open>
  \<open>queues_repr L s\<close>: the queue \<open>qid\<close> holds the objects \<open>L qid\<close> in this order, no object is
  in two queues, and every queued object points back to its queue.
\<close>

definition queues_repr :: "(queue_id \<Rightarrow> nat list) \<Rightarrow> Fi_Queues \<Rightarrow> bool" where
  "queues_repr L s \<longleftrightarrow>
     (\<forall>qid. queue_list (fi_heap s, the_queue qid s) (L qid)) \<and>
     (\<forall>p q. p \<noteq> q \<longrightarrow> set (L p) \<inter> set (L q) = {}) \<and>
     (\<forall>qid. \<forall>a\<in>set (L qid). f_queue (fi_heap s ! a) = Some qid)"

lemma queues_reprD:
  assumes "queues_repr L s"
  shows "queue_list (fi_heap s, the_queue qid s) (L qid)" "distinct (L qid)"
    "a \<in> set (L qid) \<Longrightarrow> a < length (fi_heap s)"
    "a \<in> set (L qid) \<Longrightarrow> f_queue (fi_heap s ! a) = Some qid"
    "a \<in> set (L p) \<Longrightarrow> a \<in> set (L q) \<Longrightarrow> p = q"
proof -
  show l: "queue_list (fi_heap s, the_queue qid s) (L qid)"
    using assms by (simp add: queues_repr_def)
  show "distinct (L qid)" using l by (simp add: queue_list_def)
  show "a \<in> set (L qid) \<Longrightarrow> a < length (fi_heap s)" using queue_list_in_heap [OF l] by simp
  show "a \<in> set (L qid) \<Longrightarrow> f_queue (fi_heap s ! a) = Some qid"
    using assms by (simp add: queues_repr_def)
  show "a \<in> set (L p) \<Longrightarrow> a \<in> set (L q) \<Longrightarrow> p = q"
    using assms unfolding queues_repr_def by blast
qed

lemma the_queue_with [simp]:
  "the_queue p (with_queue q (h, x) s) = (if p = q then x else the_queue p s)"
  "fi_heap (with_queue q (h, x) s) = h" "faultCnt (with_queue q (h, x) s) = faultCnt s"
  by (cases p; cases q; simp add: the_queue_def with_queue_def)+

lemma the_queue_heap [simp]: "the_queue q (s\<lparr>fi_heap := h\<rparr>) = the_queue q s"
  by (cases q; simp add: the_queue_def)

lemma queue_list_frame:
  assumes "queue_list (h, q) xs" "length h' = length h"
    "\<And>x. x \<in> set xs \<Longrightarrow> f_nxt (h' ! x) = f_nxt (h ! x) \<and> f_prv (h' ! x) = f_prv (h ! x)"
  shows "queue_list (h', q) xs"
  using assms chain_cong [OF assms(2,3)] by (simp add: queue_list_def)

lemma insert_into_repr:
  assumes L: "queues_repr L s" and a: "unlinked (fi_heap s) a" "\<And>q. a \<notin> set (L q)"
  shows "\<exists>s'. insert_into qid a s = Inr s' \<and>
    queues_repr (L(qid := place (timing_at (fi_heap s)) a (L qid))) s' \<and>
    same_core (fi_heap s) (fi_heap s') \<and> faultCnt s' = faultCnt s \<and>
    (\<forall>q. q_name (the_queue q s') = q_name (the_queue q s))"
proof -
  obtain h x where i: "queue_insert qid a (fi_heap s, the_queue qid s) = Inr (h, x)"
      "queue_list (h, x) (place (timing_at (fi_heap s)) a (L qid))"
      "ins_frame qid a (L qid) (fi_heap s, the_queue qid s) (h, x)"
    using queue_insert_refines [OF queues_reprD(1) [OF L, of qid] a(1) a(2), of qid] by auto
  have fr: "length h = length (fi_heap s)" "f_queue (h ! a) = Some qid"
      "\<And>b. b \<noteq> a \<Longrightarrow> f_queue (h ! b) = f_queue (fi_heap s ! b)"
      "\<And>b. b \<noteq> a \<Longrightarrow> b \<notin> set (L qid) \<Longrightarrow> h ! b = fi_heap s ! b"
    using i(3) same_core_length by (auto simp: ins_frame_def)
  let ?L = "L(qid := place (timing_at (fi_heap s)) a (L qid))"
  have "queue_list (h, the_queue q s) (L q)" if "q \<noteq> qid" for q
    using queues_reprD(1) [OF L] fr(1)
  proof (rule queue_list_frame)
    fix b assume "b \<in> set (L q)"
    then have "b \<noteq> a" "b \<notin> set (L qid)" using a(2) that queues_reprD(5) [OF L] by auto
    then show "f_nxt (h ! b) = f_nxt (fi_heap s ! b) \<and> f_prv (h ! b) = f_prv (fi_heap s ! b)"
      using fr(4) by simp
  qed
  moreover have "\<forall>p q. p \<noteq> q \<longrightarrow> set (?L p) \<inter> set (?L q) = {}"
    using L a(2) by (auto simp: queues_repr_def)
  moreover have "\<forall>q. \<forall>b\<in>set (?L q). f_queue (h ! b) = Some q"
    using L a(2) fr(2,3) by (auto simp: queues_repr_def) metis+
  ultimately have "queues_repr ?L (with_queue qid (h, x) s)"
    using i(2) by (auto simp: queues_repr_def)
  then show ?thesis
    using i(1,3) by (auto simp: insert_into_def ins_frame_def)
qed

lemma remove_from_repr:
  assumes L: "queues_repr L s" and a: "a \<in> set (L qid)"
  shows "\<exists>s'. remove_from qid a s = Inr s' \<and> queues_repr (L(qid := remove1 a (L qid))) s' \<and>
    same_core (fi_heap s) (fi_heap s') \<and> faultCnt s' = faultCnt s \<and>
    (\<forall>q. q_name (the_queue q s') = q_name (the_queue q s))"
proof -
  obtain as bs where ab: "L qid = as @ a # bs" "a \<notin> set as" using a by (metis split_list_first)
  obtain h x where i: "queue_remove a (fi_heap s, the_queue qid s) = Inr (h, x)"
      "queue_list (h, x) (as @ bs)" "del_frame (L qid) (fi_heap s, the_queue qid s) (h, x)"
    using queue_remove_refines [of "fi_heap s" "the_queue qid s" as a bs] queues_reprD(1) [OF L, of qid] ab(1)
    by auto
  have fr: "length h = length (fi_heap s)" "\<And>b. f_queue (h ! b) = f_queue (fi_heap s ! b)"
      "\<And>b. b \<notin> set (L qid) \<Longrightarrow> h ! b = fi_heap s ! b"
    using i(3) same_core_length by (auto simp: del_frame_def)
  have r: "remove1 a (L qid) = as @ bs" using ab by (simp add: remove1_append)
  have "queue_list (h, the_queue q s) (L q)" if "q \<noteq> qid" for q
    using queues_reprD(1) [OF L] fr(1)
  proof (rule queue_list_frame)
    fix b assume "b \<in> set (L q)"
    then have "b \<notin> set (L qid)" using that queues_reprD(5) [OF L] by auto
    then show "f_nxt (h ! b) = f_nxt (fi_heap s ! b) \<and> f_prv (h ! b) = f_prv (fi_heap s ! b)"
      using fr(3) by simp
  qed
  moreover have sub: "set ((L(qid := as @ bs)) q) \<subseteq> set (L q)" for q
    using ab(1) by auto
  then have "\<forall>p q. p \<noteq> q \<longrightarrow> set ((L(qid := as @ bs)) p) \<inter> set ((L(qid := as @ bs)) q) = {}"
    using queues_reprD(5) [OF L] by blast
  moreover have "\<forall>q. \<forall>b\<in>set ((L(qid := as @ bs)) q). f_queue (h ! b) = Some q"
    using queues_reprD(4) [OF L] sub fr(2) by (metis subsetD)
  ultimately have "queues_repr (L(qid := remove1 a (L qid))) (with_queue qid (h, x) s)"
    using i(2) r by (auto simp: queues_repr_def)
  then show ?thesis using i(1,3) by (auto simp: remove_from_def del_frame_def)
qed

text \<open>A write to an object that keeps its links and its queue.\<close>

lemma upd_fault_repr:
  assumes L: "queues_repr L s" and a: "a < length (fi_heap s)"
    and g: "f_nxt (g (fi_heap s ! a)) = f_nxt (fi_heap s ! a)" "f_prv (g (fi_heap s ! a)) = f_prv (fi_heap s ! a)"
      "f_queue (g (fi_heap s ! a)) = f_queue (fi_heap s ! a)"
  shows "upd_fault a g s = Inr (s\<lparr>fi_heap := (fi_heap s)[a := g (fi_heap s ! a)]\<rparr>)"
    "queues_repr L (s\<lparr>fi_heap := (fi_heap s)[a := g (fi_heap s ! a)]\<rparr>)"
proof -
  show "upd_fault a g s = Inr (s\<lparr>fi_heap := (fi_heap s)[a := g (fi_heap s ! a)]\<rparr>)"
    using a by (simp add: upd_fault_def)
  let ?h = "(fi_heap s)[a := g (fi_heap s ! a)]"
  have "f_nxt (?h ! x) = f_nxt (fi_heap s ! x) \<and> f_prv (?h ! x) = f_prv (fi_heap s ! x) \<and>
      f_queue (?h ! x) = f_queue (fi_heap s ! x)" for x
    using g a by (cases "x = a") auto
  then show "queues_repr L (s\<lparr>fi_heap := ?h\<rparr>)"
    using L queue_list_frame [of "fi_heap s" _ _ ?h] by (simp add: queues_repr_def)
qed

text \<open>A new object behind the heap.\<close>

lemma chain_new: "chain h pr xs nx \<Longrightarrow> chain (h @ [f]) pr xs nx"
  by (induction xs arbitrary: pr) (auto simp: nth_append)

lemma queues_repr_new:
  assumes L: "queues_repr L s"
  shows "queues_repr L (s\<lparr>fi_heap := fi_heap s @ [f], faultCnt := c\<rparr>)"
proof -
  have "the_queue q (s\<lparr>fi_heap := fi_heap s @ [f], faultCnt := c\<rparr>) = the_queue q s" for q
    by (cases q; simp add: the_queue_def)
  moreover have "f_queue ((fi_heap s @ [f]) ! a) = Some q" if "a \<in> set (L q)" for a q
    using that queues_reprD [OF L] by (simp add: nth_append)
  ultimately show ?thesis
    using L chain_new by (auto simp: queues_repr_def queue_list_def)
qed

section \<open>Rescheduling\<close>

text \<open>The timing of the next manifestation.\<close>

definition next_timing :: "BaseCPU \<Rightarrow> InjectedFault \<Rightarrow> u64" where
  "next_timing c f =
     (if f_timingType f = TickTiming then f_timing f + cpu_clock c
      else if f_timingType f = InstructionTiming then word_of_int (int32 (uint (f_timing f + 1)))
      else f_timing f)"

definition rescheduled :: "BaseCPU \<Rightarrow> InjectedFault \<Rightarrow> InjectedFault" where
  "rescheduled c f = f\<lparr>f_timing := next_timing c f, f_occurrence := int32 (f_occurrence f - 1),
     f_manifested := False\<rparr>"

definition timing_ok :: "InjectedFault \<Rightarrow> bool" where
  "timing_ok f \<longleftrightarrow> f_timingType f \<in> {TickTiming, InstructionTiming, VirtualAddrTiming}"

lemma increaseTiming_ok:
  assumes "timing_ok f"
  shows "increaseTiming (f_timing f + cpu_ticks c 1) (word_of_int (int32 (uint (f_timing f + 1)))) addr f
    = Inr (f\<lparr>f_timing := next_timing c f\<rparr>)"
  using assms
  by (auto simp: timing_ok_def increaseTiming_def next_timing_def cpu_ticks_def timing_types)

lemma reschedule_spec:
  assumes L: "queues_repr L s" and a: "a \<in> set (L qid)" and t: "timing_ok (fi_heap s ! a)"
    and c: "f_occurrence (fi_heap s ! a) \<noteq> 1 \<Longrightarrow>
      fault_cpu (fi_heap s ! a) w = Inr c \<and> getContext c (f_tcontext (fi_heap s ! a)) = Inr tc"
  shows "\<exists>s'. check4reschedule a s w = Inr s' \<and> faultCnt s' = faultCnt s \<and>
    (\<forall>q. q_name (the_queue q s') = q_name (the_queue q s)) \<and>
    (if f_occurrence (fi_heap s ! a) = 1
     then queues_repr (L(qid := remove1 a (L qid))) s' \<and> same_core (fi_heap s) (fi_heap s')
     else queues_repr L s' \<and> fi_heap s' = (fi_heap s)[a := rescheduled c (fi_heap s ! a)])"
proof -
  let ?f = "fi_heap s ! a"
  have al: "a < length (fi_heap s)" and q: "f_queue ?f = Some qid"
    using queues_reprD(3,4) [OF L a] by auto
  show ?thesis
  proof (cases "f_occurrence ?f = 1")
    case True
    then show ?thesis
      using remove_from_repr [OF L a] al q by (auto simp: check4reschedule_def)
  next
    case False
    have "queues_repr L (s\<lparr>fi_heap := (fi_heap s)[a := rescheduled c ?f]\<rparr>)"
      "upd_fault a (\<lambda>_. rescheduled c ?f) s = Inr (s\<lparr>fi_heap := (fi_heap s)[a := rescheduled c ?f]\<rparr>)"
      using upd_fault_repr [OF L al, of "\<lambda>_. rescheduled c ?f"] by (auto simp: rescheduled_def)
    moreover have "check4reschedule a s w = upd_fault a (\<lambda>_. rescheduled c ?f) s"
      using False c al increaseTiming_ok [OF t]
      by (simp add: check4reschedule_def rescheduled_def decreaseOccurrence_def)
    ultimately show ?thesis using False by auto
  qed
qed

text \<open>
  (C8) Rescheduling after an injection: a fault with one occurrence left leaves its queue, and the
  other queues and all other fault data stay as they were; any other fault stays in its queue at
  the same place with its occurrence count decremented and the next tick, the next instruction or the
  same address as its timing. The queue is not sorted again.
\<close>

theorem check4reschedule_correct:
  assumes "queues_repr L s" and "a \<in> set (L qid)" and "timing_ok (fi_heap s ! a)"
    and "f_occurrence (fi_heap s ! a) \<noteq> 1 \<Longrightarrow>
      fault_cpu (fi_heap s ! a) w = Inr c \<and> getContext c (f_tcontext (fi_heap s ! a)) = Inr tc"
  shows "\<exists>s'. check4reschedule a s w = Inr s' \<and> faultCnt s' = faultCnt s \<and>
    (\<forall>q. q_name (the_queue q s') = q_name (the_queue q s)) \<and>
    (if f_occurrence (fi_heap s ! a) = 1
     then queues_repr (L(qid := remove1 a (L qid))) s' \<and> same_core (fi_heap s) (fi_heap s')
     else queues_repr L s' \<and> fi_heap s' = (fi_heap s)[a := rescheduled c (fi_heap s ! a)])"
  using assms by (rule reschedule_spec)

text \<open>A queue with one fault that has two occurrences left.\<close>

definition one_fault :: InjectedFault where
  "one_fault = zero_fault\<lparr>f_class := CPCInjectedFault, f_queue := Some MainQ, f_timingType := InstructionTiming,
     f_timing := 7, f_occurrence := 2, f_cpu := Some ''c''\<rparr>"

definition one_queue :: Fi_Queues where
  "one_queue = \<lparr>fi_heap = [one_fault],
     mainInjectedFaultQueue = \<lparr>q_name = ''MainFaultQueue'', q_head = Some 0, q_tail = Some 0\<rparr>,
     fetchStageInjectedFaultQueue = \<lparr>q_name = [], q_head = None, q_tail = None\<rparr>,
     decodeStageInjectedFaultQueue = \<lparr>q_name = [], q_head = None, q_tail = None\<rparr>,
     iewStageInjectedFaultQueue = \<lparr>q_name = [], q_head = None, q_tail = None\<rparr>, faultCnt = 1\<rparr>"

definition one_cpu :: BaseCPU where
  "one_cpu = \<lparr>cpu_clock = 500, threadContexts = [zero_context]\<rparr>"

definition one_machine :: Machine where
  "one_machine = \<lparr>cpus = [(''c'', one_cpu)], curTick = 0, blocks = [],
     physmem = \<lparr>addrMap = [], rangeCache = invalid_range, pm_memories = [], pm_size = 0\<rparr>\<rparr>"

lemma one_queue_repr: "queues_repr ((\<lambda>_. [])(MainQ := [0])) one_queue"
  by (auto simp: queues_repr_def queue_list_def one_queue_def one_fault_def zero_fault_def the_queue_def
      split: queue_id.splits if_splits)

theorem check4reschedule_correct_witness:
  "\<exists>s'. check4reschedule 0 one_queue one_machine = Inr s' \<and> faultCnt s' = 1 \<and>
     fi_heap s' = [one_fault\<lparr>f_timing := 8, f_occurrence := 1\<rparr>]"
proof -
  have f: "fi_heap one_queue ! 0 = one_fault" "fi_heap one_queue = [one_fault]" "faultCnt one_queue = 1"
    by (simp_all add: one_queue_def)
  have "timing_ok (fi_heap one_queue ! 0)"
    "fault_cpu (fi_heap one_queue ! 0) one_machine = Inr one_cpu \<and>
      getContext one_cpu (f_tcontext (fi_heap one_queue ! 0)) = Inr zero_context"
    unfolding f by (simp_all add: timing_ok_def one_fault_def zero_fault_def fault_cpu_def one_machine_def
        getContext_def at_int_def one_cpu_def)
  moreover have "rescheduled one_cpu one_fault = one_fault\<lparr>f_timing := 8, f_occurrence := 1\<rparr>"
    by (simp add: rescheduled_def next_timing_def one_fault_def zero_fault_def timing_types)
  moreover have "f_occurrence one_fault \<noteq> 1" by (simp add: one_fault_def)
  ultimately show ?thesis
    using check4reschedule_correct [OF one_queue_repr, of 0 MainQ one_machine one_cpu zero_context] f by auto
qed

end
