(* ===== verification/Thread_Info.thy ===== *)
theory Thread_Info
  imports Std_Map
begin

text \<open>
  \<open>src/src/fi/cpu_threadInfo.hh\<close> and \<open>cpu_threadInfo.cc\<close>: the counters a software thread keeps
  for each core it ran on (\<open>cpuExecutedTicks\<close>) and the thread itself (\<open>ThreadEnabledFault\<close>).
  The map \<open>cores\<close> holds pointers to counters that nothing else refers to, so the counters are
  its values. The functions \<open>dump\<close> and \<open>print_time\<close>, which only print, have no counterpart.
\<close>

section \<open>Counters of a thread on one core\<close>

record cpuExecutedTicks =
  instrFetched :: u64
  instrDecoded :: u64
  instrExexuted :: u64
  c_ticks :: u64
  c_name :: string

definition cpuExecutedTicks_ctor :: "string \<Rightarrow> cpuExecutedTicks" where
  "cpuExecutedTicks_ctor name =
     \<lparr>instrFetched = 0, instrDecoded = 0, instrExexuted = 0, c_ticks = 0, c_name = name\<rparr>"

definition increaseFetchInstr :: "cpuExecutedTicks \<Rightarrow> cpuExecutedTicks" where
  "increaseFetchInstr c = c\<lparr>instrFetched := instrFetched c + 1\<rparr>"

definition increaseDecodeInstr :: "cpuExecutedTicks \<Rightarrow> cpuExecutedTicks" where
  "increaseDecodeInstr c = c\<lparr>instrDecoded := instrDecoded c + 1\<rparr>"

definition increaseExecInstr :: "cpuExecutedTicks \<Rightarrow> cpuExecutedTicks" where
  "increaseExecInstr c = c\<lparr>instrExexuted := instrExexuted c + 1\<rparr>"

definition core_increaseTicks :: "u64 \<Rightarrow> cpuExecutedTicks \<Rightarrow> cpuExecutedTicks" where
  "core_increaseTicks ticks c = c\<lparr>c_ticks := c_ticks c + ticks\<rparr>"

section \<open>A thread that enabled fault injection\<close>

record ThreadEnabledFault =
  MagicInstVirtualAddr :: Addr
  threadId :: int
  myId :: int
  cores :: "(string \<times> cpuExecutedTicks) list"

text \<open>The constructor; the counter is the static \<open>my_id_counter\<close> of \<open>setMyid\<close>.\<close>

definition ThreadEnabledFault_ctor :: "int \<Rightarrow> int \<Rightarrow> ThreadEnabledFault \<times> int" where
  "ThreadEnabledFault_ctor tid my_id_counter =
     (\<lparr>MagicInstVirtualAddr = - 1, threadId = tid, myId = my_id_counter, cores = []\<rparr>,
      int32 (my_id_counter + 1))"

definition thread_increaseTicks :: "string \<Rightarrow> u64 \<Rightarrow> ThreadEnabledFault \<Rightarrow> ThreadEnabledFault" where
  "thread_increaseTicks curCpu ticks t =
     (case map_find curCpu (cores t) of
        None \<Rightarrow> t\<lparr>cores := map_insert curCpu (cpuExecutedTicks_ctor curCpu) (cores t)\<rparr>
      | Some c \<Rightarrow> t\<lparr>cores := map_assign curCpu (core_increaseTicks ticks c) (cores t)\<rparr>)"

definition increaseFetchedInstr :: "string \<Rightarrow> ThreadEnabledFault \<Rightarrow> ThreadEnabledFault" where
  "increaseFetchedInstr curCpu t =
     (case map_find curCpu (cores t) of
        None \<Rightarrow> t\<lparr>cores := map_insert curCpu (cpuExecutedTicks_ctor curCpu) (cores t)\<rparr>
      | Some c \<Rightarrow> t\<lparr>cores := map_assign curCpu (increaseFetchInstr c) (cores t)\<rparr>)"

definition increaseDecodedInstr :: "string \<Rightarrow> ThreadEnabledFault \<Rightarrow> ThreadEnabledFault" where
  "increaseDecodedInstr curCpu t =
     (case map_find curCpu (cores t) of
        None \<Rightarrow> t\<lparr>cores := map_insert curCpu (cpuExecutedTicks_ctor curCpu) (cores t)\<rparr>
      | Some c \<Rightarrow> t\<lparr>cores := map_assign curCpu (increaseDecodeInstr c) (cores t)\<rparr>)"

definition increaseExecutedInstr :: "string \<Rightarrow> ThreadEnabledFault \<Rightarrow> ThreadEnabledFault" where
  "increaseExecutedInstr curCpu t =
     (case map_find curCpu (cores t) of
        None \<Rightarrow> t\<lparr>cores := map_insert curCpu (cpuExecutedTicks_ctor curCpu) (cores t)\<rparr>
      | Some c \<Rightarrow> t\<lparr>cores := map_assign curCpu (increaseExecInstr c) (cores t)\<rparr>)"

text \<open>
  The three \<open>Calculate\<close> functions return the pair of the instruction and the tick count (the two
  out-parameters). The loop over all cores adds in the order of the map.
\<close>

fun sum_cores :: "(cpuExecutedTicks \<Rightarrow> u64) \<Rightarrow> (string \<times> cpuExecutedTicks) list \<Rightarrow> u64 \<times> u64 \<Rightarrow>
  u64 \<times> u64" where
  "sum_cores g [] (instr, time) = (instr, time)"
| "sum_cores g ((k, c) # m) (instr, time) = sum_cores g m (instr + g c, time + c_ticks c)"

definition CalculateFetchedTime :: "string \<Rightarrow> ThreadEnabledFault \<Rightarrow> u64 \<times> u64" where
  "CalculateFetchedTime curCpu t =
     (if curCpu = ''all'' then sum_cores instrFetched (cores t) (0, 0)
      else case map_find curCpu (cores t) of
             None \<Rightarrow> (0, 0) | Some c \<Rightarrow> (instrFetched c, c_ticks c))"

definition CalculateDecodedTime :: "string \<Rightarrow> ThreadEnabledFault \<Rightarrow> u64 \<times> u64" where
  "CalculateDecodedTime curCpu t =
     (if curCpu = ''all'' then sum_cores instrDecoded (cores t) (0, 0)
      else case map_find curCpu (cores t) of
             None \<Rightarrow> (0, 0) | Some c \<Rightarrow> (instrDecoded c, c_ticks c))"

definition CalculateExecutedTime :: "string \<Rightarrow> ThreadEnabledFault \<Rightarrow> u64 \<times> u64" where
  "CalculateExecutedTime curCpu t =
     (if curCpu = ''all'' then sum_cores instrExexuted (cores t) (0, 0)
      else case map_find curCpu (cores t) of
             None \<Rightarrow> (0, 0) | Some c \<Rightarrow> (instrExexuted c, c_ticks c))"

section \<open>Specification by the history of a thread\<close>

text \<open>
  What a thread is told, in order: that it fetched, decoded or executed an instruction on a core,
  or spent ticks there. The specification of the counters is a function of this history.
\<close>

datatype activity = Fetched | Decoded | Executed | Spent u64

fun tell :: "string \<times> activity \<Rightarrow> ThreadEnabledFault \<Rightarrow> ThreadEnabledFault" where
  "tell (c, Fetched) t = increaseFetchedInstr c t"
| "tell (c, Decoded) t = increaseDecodedInstr c t"
| "tell (c, Executed) t = increaseExecutedInstr c t"
| "tell (c, Spent n) t = thread_increaseTicks c n t"

definition history :: "(string \<times> activity) list \<Rightarrow> ThreadEnabledFault \<Rightarrow> ThreadEnabledFault" where
  "history evs t = fold tell evs t"

text \<open>
  The activities on a core that count: all but the first, which only creates the entry of the
  core.
\<close>

definition counted :: "string \<Rightarrow> (string \<times> activity) list \<Rightarrow> activity list" where
  "counted c evs = tl (map snd (filter (\<lambda>e. fst e = c) evs))"

fun spent :: "activity \<Rightarrow> u64" where
  "spent (Spent n) = n"
| "spent _ = 0"

definition spec_core :: "string \<Rightarrow> (string \<times> activity) list \<Rightarrow> cpuExecutedTicks" where
  "spec_core c evs = \<lparr>instrFetched = of_nat (count_list (counted c evs) Fetched),
     instrDecoded = of_nat (count_list (counted c evs) Decoded),
     instrExexuted = of_nat (count_list (counted c evs) Executed),
     c_ticks = sum_list (map spent (counted c evs)), c_name = c\<rparr>"

definition refines_history :: "(string \<times> activity) list \<Rightarrow> ThreadEnabledFault \<Rightarrow> bool" where
  "refines_history evs t \<longleftrightarrow> map_ok (cores t) \<and>
     (\<forall>c. map_find c (cores t) = (if c \<in> fst ` set evs then Some (spec_core c evs) else None))"

lemma counted_snoc:
  "counted c (evs @ [(d, a)]) =
     (if c = d \<and> d \<in> fst ` set evs then counted c evs @ [a] else counted c evs)"
proof -
  have "filter (\<lambda>e. fst e = c) evs = [] \<longleftrightarrow> c \<notin> fst ` set evs"
    by (auto simp: filter_empty_conv image_iff)
  then show ?thesis
    by (auto simp: counted_def tl_append split: list.splits)
qed

lemma spec_core_snoc:
  "spec_core c (evs @ [(d, a)]) =
     (if c = d \<and> d \<in> fst ` set evs then
        (case a of Fetched \<Rightarrow> increaseFetchInstr (spec_core c evs)
         | Decoded \<Rightarrow> increaseDecodeInstr (spec_core c evs)
         | Executed \<Rightarrow> increaseExecInstr (spec_core c evs)
         | Spent n \<Rightarrow> core_increaseTicks n (spec_core c evs))
      else spec_core c evs)"
  by (auto simp: spec_core_def counted_snoc increaseFetchInstr_def increaseDecodeInstr_def
      increaseExecInstr_def core_increaseTicks_def split: activity.splits)

lemma spec_core_first: "c \<notin> fst ` set evs \<Longrightarrow> spec_core c evs = cpuExecutedTicks_ctor c"
proof -
  assume "c \<notin> fst ` set evs"
  then have "filter (\<lambda>e. fst e = c) evs = []" by (auto simp: filter_empty_conv image_iff)
  then show ?thesis by (simp add: spec_core_def counted_def cpuExecutedTicks_ctor_def)
qed

lemmas increase_defs = increaseFetchedInstr_def increaseDecodedInstr_def increaseExecutedInstr_def
  thread_increaseTicks_def

lemma tell_refines:
  assumes "refines_history evs t"
  shows "refines_history (evs @ [e]) (tell e t)"
proof -
  obtain d a where e: "e = (d, a)" by (cases e)
  from assms have ok: "map_ok (cores t)" and
    find: "\<And>c. map_find c (cores t) = (if c \<in> fst ` set evs then Some (spec_core c evs) else None)"
    by (auto simp: refines_history_def)
  show ?thesis
  proof (cases "d \<in> fst ` set evs")
    case True
    then show ?thesis
      using ok find by (cases a) (auto simp: e refines_history_def increase_defs spec_core_snoc
          sm.ok_assign sm.find_assign)
  next
    case False
    then show ?thesis
      using ok find spec_core_first [OF False]
      by (cases a) (auto simp: e refines_history_def increase_defs spec_core_snoc
          sm.ok_insert_new sm.find_insert_new)
  qed
qed

lemma history_refines:
  assumes "cores t = []"
  shows "refines_history evs (history evs t)"
proof (induction evs rule: rev_induct)
  case Nil
  then show ?case using assms by (simp add: history_def refines_history_def map_ok_def)
next
  case (snoc e evs)
  then show ?case using tell_refines by (simp add: history_def)
qed

lemma sum_cores_eq:
  "sum_cores g m (i, s) = (i + sum_list (map (\<lambda>e. g (snd e)) m),
     s + sum_list (map (\<lambda>e. c_ticks (snd e)) m))"
  by (induction g m "(i, s)" arbitrary: i s rule: sum_cores.induct) (auto simp: algebra_simps)

lemma keys_history: "refines_history evs t \<Longrightarrow> fst ` set (cores t) = fst ` set evs"
proof (rule set_eqI)
  fix c assume r: "refines_history evs t"
  then have "c \<in> fst ` set (cores t) \<longleftrightarrow> map_find c (cores t) \<noteq> None"
    by (simp add: map_find_map_of map_of_eq_None_iff)
  also have "\<dots> \<longleftrightarrow> c \<in> fst ` set evs" using r by (simp add: refines_history_def)
  finally show "c \<in> fst ` set (cores t) \<longleftrightarrow> c \<in> fst ` set evs" .
qed

lemma sum_cores_history:
  assumes "refines_history evs t"
  shows "sum_cores g (cores t) (0, 0) =
    (\<Sum>c\<in>fst ` set evs. g (spec_core c evs), \<Sum>c\<in>fst ` set evs. c_ticks (spec_core c evs))"
proof -
  have ok: "map_ok (cores t)" using assms by (simp add: refines_history_def)
  have "sum_list (map (\<lambda>e. h (snd e)) (cores t)) = (\<Sum>c\<in>fst ` set evs. h (spec_core c evs))" for h :: "cpuExecutedTicks \<Rightarrow> u64"
    unfolding sm.sum_items [OF ok] keys_history [OF assms]
    using assms by (intro sum.cong refl) (simp add: refines_history_def)
  then show ?thesis by (simp add: sum_cores_eq)
qed

text \<open>
  (C14) After any history of a new thread, each counter of a core is the number of activities of
  its kind told for that core, the very first one on the core excepted, modulo \<open>2\<^sup>64\<close>, and the
  answer for \<open>all\<close> is the sum over the cores that were told; a core never told gives 0. The
  activity that first mentions a core is lost: the code only creates the entry.
\<close>

theorem thread_counters_correct:
  assumes "cores t = []" and "c \<noteq> ''all''"
  shows "CalculateFetchedTime c (history evs t) =
      (of_nat (count_list (counted c evs) Fetched), sum_list (map spent (counted c evs))) \<and>
    CalculateDecodedTime c (history evs t) =
      (of_nat (count_list (counted c evs) Decoded), sum_list (map spent (counted c evs))) \<and>
    CalculateExecutedTime c (history evs t) =
      (of_nat (count_list (counted c evs) Executed), sum_list (map spent (counted c evs))) \<and>
    CalculateFetchedTime ''all'' (history evs t) =
      (\<Sum>d\<in>fst ` set evs. of_nat (count_list (counted d evs) Fetched),
       \<Sum>d\<in>fst ` set evs. sum_list (map spent (counted d evs))) \<and>
    CalculateDecodedTime ''all'' (history evs t) =
      (\<Sum>d\<in>fst ` set evs. of_nat (count_list (counted d evs) Decoded),
       \<Sum>d\<in>fst ` set evs. sum_list (map spent (counted d evs))) \<and>
    CalculateExecutedTime ''all'' (history evs t) =
      (\<Sum>d\<in>fst ` set evs. of_nat (count_list (counted d evs) Executed),
       \<Sum>d\<in>fst ` set evs. sum_list (map spent (counted d evs)))"
proof -
  have r: "refines_history evs (history evs t)" by (rule history_refines [OF assms(1)])
  have none: "counted c evs = []" if "c \<notin> fst ` set evs"
    using spec_core_first [OF that] that filter_empty_conv [of "\<lambda>e. fst e = c" evs]
    by (auto simp: counted_def image_iff)
  have find: "map_find c (cores (history evs t)) =
      (if c \<in> fst ` set evs then Some (spec_core c evs) else None)"
    using r by (simp add: refines_history_def)
  show ?thesis
    using assms(2) find none sum_cores_history [OF r]
    by (simp add: CalculateFetchedTime_def CalculateDecodedTime_def CalculateExecutedTime_def
        spec_core_def)
qed

theorem thread_counters_correct_witness:
  "CalculateFetchedTime ''cpu0'' (history [(''cpu0'', Spent 7), (''cpu0'', Fetched), (''cpu1'', Fetched),
      (''cpu0'', Fetched), (''cpu0'', Spent 5)] (fst (ThreadEnabledFault_ctor 3 0))) = (2, 5)"
  using thread_counters_correct [of "fst (ThreadEnabledFault_ctor 3 0)" "''cpu0''"
      "[(''cpu0'', Spent 7), (''cpu0'', Fetched), (''cpu1'', Fetched), (''cpu0'', Fetched),
        (''cpu0'', Spent 5)]"]
  by (simp add: ThreadEnabledFault_ctor_def counted_def)

end
