(* ===== verification/Fi_System.thy ===== *)
theory Fi_System
  imports Fault_Classes Thread_Info
begin

text \<open>
  \<open>src/src/fi/fi_system.hh\<close>, \<open>fi_system.cc\<close>, the scan of the queues in \<open>faultq.cc\<close> and the pseudo
  instructions of \<open>src/src/sim/pseudo_inst.cc\<close>: the fault injection system with its queues, the
  activation map from process control blocks to threads, the hooks that the processors call for every
  instruction, and the reading of the fault file.
\<close>

section \<open>State\<close>

text \<open>
  \<open>fi_activation\<close> maps a process control block to an index of \<open>threadList\<close>, or to -1 after
  deactivation. \<open>my_id_counter\<close> is the static counter of \<open>ThreadEnabledFault::setMyid\<close>.
\<close>

record Fi_System =
  fs_q :: Fi_Queues
  fi_activation :: "(Addr \<times> int) list"
  threadList :: "ThreadEnabledFault list"
  vectorpos :: int
  in_name :: string
  check_before_init :: bool
  my_id_counter :: int

section \<open>Counters\<close>

definition increase_instr_fetched :: "string \<Rightarrow> int \<Rightarrow> Fi_System \<Rightarrow> Fi_System res" where
  "increase_instr_fetched curCpu i fs =
     bindE (at_int (threadList fs) i) (\<lambda>t.
       Inr (fs\<lparr>threadList := (threadList fs)[nat i := increaseFetchedInstr curCpu t]\<rparr>))"

definition increase_instr_decoded :: "string \<Rightarrow> int \<Rightarrow> Fi_System \<Rightarrow> Fi_System res" where
  "increase_instr_decoded curCpu i fs =
     bindE (at_int (threadList fs) i) (\<lambda>t.
       Inr (fs\<lparr>threadList := (threadList fs)[nat i := increaseDecodedInstr curCpu t]\<rparr>))"

definition increase_instr_executed :: "string \<Rightarrow> int \<Rightarrow> Fi_System \<Rightarrow> Fi_System res" where
  "increase_instr_executed curCpu i fs =
     bindE (at_int (threadList fs) i) (\<lambda>t.
       Inr (fs\<lparr>threadList := (threadList fs)[nat i := increaseExecutedInstr curCpu t]\<rparr>))"

definition fi_increaseTicks :: "string \<Rightarrow> int \<Rightarrow> u64 \<Rightarrow> Fi_System \<Rightarrow> Fi_System res" where
  "fi_increaseTicks curCpu i ticks fs =
     bindE (at_int (threadList fs) i) (\<lambda>t.
       Inr (fs\<lparr>threadList := (threadList fs)[nat i := thread_increaseTicks curCpu ticks t]\<rparr>))"

text \<open>
  The sums over all active threads, in the order of the activation map; the pair is the
  instruction and the time count.
\<close>

fun core_time ::
  "(ThreadEnabledFault \<Rightarrow> u64 \<times> u64) \<Rightarrow> ThreadEnabledFault list \<Rightarrow> (Addr \<times> int) list \<Rightarrow> u64 \<times> u64 \<Rightarrow>
   (u64 \<times> u64) res" where
  "core_time g ts [] acc = Inr acc"
| "core_time g ts ((k, i) # act) (instr, time) =
     (if i \<noteq> - 1 then
        bindE (at_int ts i) (\<lambda>t. case g t of (temp_instr, temp_time) \<Rightarrow>
          core_time g ts act (instr + temp_instr, time + temp_time))
      else core_time g ts act (instr, time))"

definition get_core_fetched_time :: "string \<Rightarrow> Fi_System \<Rightarrow> u64 \<times> u64 \<Rightarrow> (u64 \<times> u64) res" where
  "get_core_fetched_time Cpu fs = core_time (CalculateFetchedTime Cpu) (threadList fs) (fi_activation fs)"

definition get_core_decoded_time :: "string \<Rightarrow> Fi_System \<Rightarrow> u64 \<times> u64 \<Rightarrow> (u64 \<times> u64) res" where
  "get_core_decoded_time Cpu fs = core_time (CalculateDecodedTime Cpu) (threadList fs) (fi_activation fs)"

definition get_core_executed_time :: "string \<Rightarrow> Fi_System \<Rightarrow> u64 \<times> u64 \<Rightarrow> (u64 \<times> u64) res" where
  "get_core_executed_time Cpu fs = core_time (CalculateExecutedTime Cpu) (threadList fs) (fi_activation fs)"

text \<open>
  The last part of the three functions that select the counters for a fault: a fault of a known type
  with a non-zero counter is given the current core, and the result says which class it has.
\<close>

definition set_core :: "nat \<Rightarrow> string \<Rightarrow> Machine \<Rightarrow> Fi_Queues \<Rightarrow> Fi_Queues res" where
  "set_core a curCpu w q =
     bindE (deref (fi_heap q) (Some a)) (\<lambda>p.
     bindE (assertE (f_class p \<noteq> CInjectedFault)) (\<lambda>_.
       upd_fault a (\<lambda>p. p\<lparr>f_cpu := (if map_find curCpu (cpus w) = None then None else Some curCpu)\<rparr>) q))"

definition classify ::
  "nat \<Rightarrow> string \<Rightarrow> Machine \<Rightarrow> u64 \<times> u64 \<Rightarrow> Fi_Queues \<Rightarrow> (int \<times> Fi_Queues) res" where
  "classify a curCpu w cnt q =
     bindE (deref (fi_heap q) (Some a)) (\<lambda>p.
       if fst cnt OR snd cnt \<noteq> 0 then
         (if f_faultType p \<in> {RegisterInjectedFault, PCInjectedFault, MemoryInjectedFault} then
            bindE (set_core a curCpu w q) (\<lambda>q. Inr (1, q))
          else if f_faultType p \<in> {GeneralFetchInjectedFault, OpCodeInjectedFault,
                    RegisterDecodingInjectedFault, ExecutionInjectedFault} then
            bindE (set_core a curCpu w q) (\<lambda>q. Inr (2, q))
          else Inr (0, q))
       else Inr (0, q))"

text \<open>Which counters a fault is compared with: by its \<open>where\<close> and \<open>thread\<close> fields.\<close>

definition select_counters ::
  "(string \<Rightarrow> ThreadEnabledFault \<Rightarrow> u64 \<times> u64) \<Rightarrow> (string \<Rightarrow> Fi_System \<Rightarrow> u64 \<times> u64 \<Rightarrow> (u64 \<times> u64) res) \<Rightarrow>
   InjectedFault \<Rightarrow> ThreadEnabledFault \<Rightarrow> string \<Rightarrow> Fi_System \<Rightarrow> (u64 \<times> u64) res" where
  "select_counters one percore p thread curCpu fs =
     (if f_where p = curCpu \<and> f_thread p \<noteq> ''all'' \<and> threadId thread = atoi (f_thread p) then
        Inr (one curCpu thread)
      else if f_where p = ''all'' \<and> f_thread p \<noteq> ''all'' \<and> threadId thread = atoi (f_thread p) then
        Inr (one ''all'' thread)
      else if f_where p = curCpu \<and> f_thread p = ''all'' then percore curCpu fs (0, 0)
      else if f_thread p = ''all'' \<and> f_where p = ''all'' then percore ''all'' fs (0, 0)
      else Inr (0, 0))"

text \<open>
  The decode variant asks a single thread for its fetched, not its decoded, instructions.
\<close>

definition get_fi_counters :: "string \<Rightarrow> InjectedFault \<Rightarrow> ThreadEnabledFault \<Rightarrow> string \<Rightarrow> Fi_System \<Rightarrow>
  (u64 \<times> u64) res" where
  "get_fi_counters qname =
     (if qname = ''IEWStageFaultQueue'' then
        select_counters CalculateExecutedTime get_core_executed_time
      else if qname = ''DecodeStageFaultQueue'' then
        select_counters CalculateFetchedTime get_core_decoded_time
      else select_counters CalculateFetchedTime get_core_fetched_time)"

section \<open>Scanning a queue\<close>

text \<open>Whether the fault fires, and the value stored in \<open>_servicedAt\<close>.\<close>

definition timing_match ::
  "InjectedFault \<Rightarrow> u64 \<times> u64 \<Rightarrow> ThreadEnabledFault \<Rightarrow> Addr \<Rightarrow> u64 option res" where
  "timing_match p cnt thread vaddr =
     (if f_timingType p = TickTiming then
        Inr (if snd cnt = f_timing p then Some (snd cnt) else None)
      else if f_timingType p = InstructionTiming then
        Inr (if fst cnt = f_timing p then Some (fst cnt) else None)
      else if f_timingType p = VirtualAddrTiming then
        Inr (if vaddr = f_timing p + MagicInstVirtualAddr thread then Some vaddr else None)
      else Inl AssertFail)"

fun scan_walk :: "nat \<Rightarrow> string \<Rightarrow> string \<Rightarrow> ThreadEnabledFault \<Rightarrow> Addr \<Rightarrow> Machine \<Rightarrow> ptr \<Rightarrow>
  Fi_System \<Rightarrow> (ptr \<times> Fi_System) res" where
  "scan_walk 0 qname s thread vaddr w p fs = Inl Diverges"
| "scan_walk (Suc n) qname s thread vaddr w None fs = Inr (None, fs)"
| "scan_walk (Suc n) qname s thread vaddr w (Some a) fs =
     bindE (deref (fi_heap (fs_q fs)) (Some a)) (\<lambda>p.
       if f_manifested p then scan_walk n qname s thread vaddr w (f_nxt p) fs
       else
         bindE (get_fi_counters qname p thread s fs) (\<lambda>cnt.
         bindE (classify a s w cnt (fs_q fs)) (\<lambda>(i, q).
         let fs = fs\<lparr>fs_q := q\<rparr> in
         if i \<noteq> 0 then
           bindE (timing_match p cnt thread vaddr) (\<lambda>m.
             case m of
               Some v \<Rightarrow> bindE (upd_fault a (\<lambda>p. p\<lparr>f_servicedAt := v\<rparr>) (fs_q fs)) (\<lambda>q.
                           Inr (Some a, fs\<lparr>fs_q := q\<rparr>))
             | None \<Rightarrow> scan_walk n qname s thread vaddr w (f_nxt p) fs)
         else scan_walk n qname s thread vaddr w (f_nxt p) fs)))"

definition scan :: "queue_id \<Rightarrow> string \<Rightarrow> ThreadEnabledFault \<Rightarrow> Addr \<Rightarrow> Machine \<Rightarrow> Fi_System \<Rightarrow>
  (ptr \<times> Fi_System) res" where
  "scan qid s thread vaddr w fs =
     (let q = the_queue qid (fs_q fs)
      in scan_walk (Suc (length (fi_heap (fs_q fs)))) (q_name q) s thread vaddr w (q_head q) fs)"

section \<open>Hooks\<close>

text \<open>
  The common guard: in full system mode and user mode, the index of the thread of the current process
  control block, when it is active. \<open>IPR_PALtemp23\<close> reads without side effect.
\<close>

definition active_thread :: "bool \<Rightarrow> ThreadContext \<Rightarrow> Fi_System \<Rightarrow> int option res" where
  "active_thread FullSystem tc fs =
     bindE (readMiscReg 0 IPR_PALtemp23 tc) (\<lambda>(pcbaddr, _).
       if FullSystem then
         bindE (inUserMode tc) (\<lambda>user.
           Inr (if user then
                  (case map_find pcbaddr (fi_activation fs) of
                     None \<Rightarrow> None | Some i \<Rightarrow> if i = - 1 then None else Some i)
                else None))
       else Inr None)"

text \<open>
  The loops \<open>while ((fault = queue.scan(...)) != NULL)\<close> with the processing of the fault; the first
  argument bounds the number of scans.
\<close>

fun main_loop :: "nat \<Rightarrow> string \<Rightarrow> int \<Rightarrow> Addr \<Rightarrow> Fi_System \<Rightarrow> Machine \<Rightarrow> (Fi_System \<times> Machine) res" where
  "main_loop 0 name i pc fs w = Inl Diverges"
| "main_loop (Suc n) name i pc fs w =
     bindE (at_int (threadList fs) i) (\<lambda>th.
     bindE (scan MainQ name th pc w fs) (\<lambda>(r, fs).
       case r of None \<Rightarrow> Inr (fs, w)
       | Some a \<Rightarrow> bindE (CPU_process a (fs_q fs) w) (\<lambda>(q, w).
           main_loop n name i pc (fs\<lparr>fs_q := q\<rparr>) w)))"

fun stage_loop :: "(nat \<Rightarrow> 'v \<Rightarrow> Fi_Queues \<Rightarrow> Machine \<Rightarrow> ('v \<times> Fi_Queues) res) \<Rightarrow> queue_id \<Rightarrow>
  nat \<Rightarrow> string \<Rightarrow> int \<Rightarrow> Addr \<Rightarrow> Machine \<Rightarrow> 'v \<Rightarrow> Fi_System \<Rightarrow> ('v \<times> Fi_System) res" where
  "stage_loop process qid 0 name i pc w v fs = Inl Diverges"
| "stage_loop process qid (Suc n) name i pc w v fs =
     bindE (at_int (threadList fs) i) (\<lambda>th.
     bindE (scan qid name th pc w fs) (\<lambda>(r, fs).
       case r of None \<Rightarrow> Inr (v, fs)
       | Some a \<Rightarrow> bindE (process a v (fs_q fs) w) (\<lambda>(v, q).
           stage_loop process qid n name i pc w v (fs\<lparr>fs_q := q\<rparr>))))"

definition main_fault ::
  "bool \<Rightarrow> nat \<Rightarrow> string \<Rightarrow> ThreadContext \<Rightarrow> Fi_System \<Rightarrow> Machine \<Rightarrow> (Fi_System \<times> Machine) res" where
  "main_fault FullSystem fuel name tc fs w =
     bindE (active_thread FullSystem tc fs) (\<lambda>r.
       case r of None \<Rightarrow> Inr (fs, w)
       | Some i \<Rightarrow> main_loop fuel name i (instAddr (tc_pcState tc)) fs w)"

definition fetch_fault :: "bool \<Rightarrow> nat \<Rightarrow> string \<Rightarrow> ThreadContext \<Rightarrow> Machine \<Rightarrow> u32 \<Rightarrow> Fi_System \<Rightarrow>
  (u32 \<times> Fi_System) res" where
  "fetch_fault FullSystem fuel name tc w cur_instr fs =
     bindE (active_thread FullSystem tc fs) (\<lambda>r.
       case r of None \<Rightarrow> Inr (cur_instr, fs)
       | Some i \<Rightarrow> bindE (stage_loop Fetch_process FetchQ fuel name i (instAddr (tc_pcState tc)) w cur_instr fs)
           (\<lambda>(v, fs). bindE (increase_instr_fetched name i fs) (\<lambda>fs. Inr (v, fs))))"

definition decode_fault :: "bool \<Rightarrow> nat \<Rightarrow> string \<Rightarrow> ThreadContext \<Rightarrow> Machine \<Rightarrow> StaticInst \<Rightarrow> Fi_System \<Rightarrow>
  (StaticInst \<times> Fi_System) res" where
  "decode_fault FullSystem fuel name tc w cur_instr fs =
     bindE (active_thread FullSystem tc fs) (\<lambda>r.
       case r of None \<Rightarrow> Inr (cur_instr, fs)
       | Some i \<Rightarrow> bindE (stage_loop RegisterDecoding_process DecodeQ fuel name i (instAddr (tc_pcState tc)) w
                            cur_instr fs)
           (\<lambda>(v, fs). bindE (increase_instr_decoded name i fs) (\<lambda>fs. Inr (v, fs))))"

text \<open>\<open>iew_fault\<close> for conditions and for values of some width.\<close>

definition iew_fault_bool :: "bool \<Rightarrow> nat \<Rightarrow> string \<Rightarrow> ThreadContext \<Rightarrow> Machine \<Rightarrow> bool \<Rightarrow> Fi_System \<Rightarrow>
  (bool \<times> Fi_System) res" where
  "iew_fault_bool FullSystem fuel name tc w value fs =
     bindE (active_thread FullSystem tc fs) (\<lambda>r.
       case r of None \<Rightarrow> Inr (value, fs)
       | Some i \<Rightarrow> bindE (stage_loop IEW_process_bool IEWQ fuel name i (instAddr (tc_pcState tc)) w value fs)
           (\<lambda>(v, fs). bindE (increase_instr_executed name i fs) (\<lambda>fs. Inr (v, fs))))"

definition iew_fault :: "bool \<Rightarrow> nat \<Rightarrow> string \<Rightarrow> ThreadContext \<Rightarrow> Machine \<Rightarrow> 'a::len word \<Rightarrow> Fi_System \<Rightarrow>
  ('a word \<times> Fi_System) res" where
  "iew_fault FullSystem fuel name tc w value fs =
     bindE (active_thread FullSystem tc fs) (\<lambda>r.
       case r of None \<Rightarrow> Inr (value, fs)
       | Some i \<Rightarrow> bindE (stage_loop IEW_process IEWQ fuel name i (instAddr (tc_pcState tc)) w value fs)
           (\<lambda>(v, fs). bindE (increase_instr_executed name i fs) (\<lambda>fs. Inr (v, fs))))"

text \<open>The ticks an instruction took, reported by the atomic processor after each instruction.\<close>

definition tick_hook :: "bool \<Rightarrow> string \<Rightarrow> ThreadContext \<Rightarrow> u64 \<Rightarrow> Fi_System \<Rightarrow> Fi_System res" where
  "tick_hook FullSystem name tc latency fs =
     bindE (active_thread FullSystem tc fs) (\<lambda>r.
       case r of None \<Rightarrow> Inr fs | Some i \<Rightarrow> fi_increaseTicks name i latency fs)"

section \<open>Reading the fault file\<close>

text \<open>
  One step of \<open>getFromFile\<close>: the object named by the last word read. \<open>alloc\<close> gives the raw memory
  of each new object.
\<close>

definition new_by_name ::
  "string \<Rightarrow> InjectedFault \<Rightarrow> istream \<Rightarrow> Fi_Queues \<Rightarrow> (Fi_Queues \<times> istream) res" where
  "new_by_name check raw os q =
     (let keep = (\<lambda>r. bindE r (\<lambda>(_, q, os). Inr (q, os)))
      in if check = ''CPUInjectedFault'' then keep (new_CPUInjectedFault raw os q)
      else if check = ''InjectedFault'' then keep (new_InjectedFault raw os q)
      else if check = ''GeneralFetchInjectedFault'' then keep (new_GeneralFetchInjectedFault raw os q)
      else if check = ''IEWStageInjectedFault'' then keep (new_IEWStageInjectedFault raw os q)
      else if check = ''MemoryInjectedFault'' then keep (new_MemoryInjectedFault raw os q)
      else if check = ''O3CPUInjectedFault'' then keep (new_O3CPUInjectedFault raw os q)
      else if check = ''OpCodeInjectedFault'' then keep (new_OpCodeInjectedFault raw os q)
      else if check = ''PCInjectedFault'' then keep (new_PCInjectedFault raw os q)
      else if check = ''RegisterInjectedFault'' then keep (new_RegisterInjectedFault raw os q)
      else if check = ''RegisterDecodingInjectedFault'' then
        keep (new_RegisterDecodingInjectedFault raw os q)
      else Inr (q, os))"

text \<open>
  The loop \<open>while(os.good())\<close>. Every round reads at least one character or spoils the stream, so the
  number of characters plus one bounds it.
\<close>

fun file_loop :: "(nat \<Rightarrow> InjectedFault) \<Rightarrow> nat \<Rightarrow> string \<Rightarrow> istream \<Rightarrow> Fi_Queues \<Rightarrow> Fi_Queues res" where
  "file_loop alloc 0 check os q = Inl Diverges"
| "file_loop alloc (Suc n) check os q =
     (if \<not> good os then Inr q
      else let (r, os) = read_string os; check = (case r of None \<Rightarrow> check | Some v \<Rightarrow> v)
           in bindE (new_by_name check (alloc (length (fi_heap q))) os q) (\<lambda>(q, os).
                file_loop alloc n check os q))"

definition getFromFile :: "(nat \<Rightarrow> InjectedFault) \<Rightarrow> istream \<Rightarrow> Fi_Queues \<Rightarrow> Fi_Queues res" where
  "getFromFile alloc os q = file_loop alloc (Suc (Suc (length (buf os)))) [] os q"

text \<open>\<open>input.open\<close>; a file that cannot be opened leaves a failed stream.\<close>

definition open_file :: "(string \<Rightarrow> string option) \<Rightarrow> string \<Rightarrow> istream" where
  "open_file files n = (case files n of Some txt \<Rightarrow> open_stream txt
     | None \<Rightarrow> \<lparr>buf = [], eofbit = False, failbit = True\<rparr>)"

section \<open>Construction and reset\<close>

definition empty_queue :: "string \<Rightarrow> InjectedFaultQueue" where
  "empty_queue n = \<lparr>q_name = n, q_head = None, q_tail = None\<rparr>"

definition reset_queues :: "Fi_Queues \<Rightarrow> Fi_Queues" where
  "reset_queues q = q\<lparr>mainInjectedFaultQueue := empty_queue ''MainFaultQueue'',
     fetchStageInjectedFaultQueue := empty_queue ''FetchStageFaultQueue'',
     decodeStageInjectedFaultQueue := empty_queue ''DecodeStageFaultQueue'',
     iewStageInjectedFaultQueue := empty_queue ''IEWStageFaultQueue''\<rparr>"

definition load_faults :: "(nat \<Rightarrow> InjectedFault) \<Rightarrow> (string \<Rightarrow> string option) \<Rightarrow> Fi_System \<Rightarrow> Fi_System res" where
  "load_faults alloc files fs =
     (if 1 < length (in_name fs) then
        bindE (getFromFile alloc (open_file files (in_name fs)) (fs_q fs)) (\<lambda>q. Inr (fs\<lparr>fs_q := q\<rparr>))
      else Inr fs)"

definition Fi_System_ctor :: "(nat \<Rightarrow> InjectedFault) \<Rightarrow> (string \<Rightarrow> string option) \<Rightarrow> string \<Rightarrow> bool \<Rightarrow>
  Fi_Queues \<Rightarrow> Fi_System res" where
  "Fi_System_ctor alloc files input_fi check q =
     load_faults alloc files \<lparr>fs_q = reset_queues q, fi_activation = [], threadList = [], vectorpos = 0,
       in_name = input_fi, check_before_init = check, my_id_counter = 0\<rparr>"

text \<open>
  \<open>while(!q.empty()) q.remove(q.head)\<close>; every removal of a well-linked queue shortens it, and the
  fuel is the number of objects plus one.
\<close>

fun drain :: "nat \<Rightarrow> queue_id \<Rightarrow> Fi_Queues \<Rightarrow> Fi_Queues res" where
  "drain 0 qid q = Inl Diverges"
| "drain (Suc n) qid q =
     (if queue_empty (the_queue qid q) then Inr q
      else case q_head (the_queue qid q) of
             None \<Rightarrow> Inl Null_deref
           | Some a \<Rightarrow> bindE (remove_from qid a q) (drain n qid))"

definition reset :: "(nat \<Rightarrow> InjectedFault) \<Rightarrow> (string \<Rightarrow> string option) \<Rightarrow> Fi_System \<Rightarrow> Fi_System res" where
  "reset alloc files fs0 =
     (let fs = fs0\<lparr>vectorpos := 0\<rparr>;
          n = Suc (length (fi_heap (fs_q fs)))
      in bindE (drain n MainQ (fs_q fs)) (\<lambda>q.
         bindE (drain n FetchQ q) (\<lambda>q.
         bindE (drain n DecodeQ q) (\<lambda>q.
         bindE (drain n IEWQ q) (\<lambda>q.
           load_faults alloc files (fs\<lparr>fs_q := reset_queues q, threadList := []\<rparr>))))))"

section \<open>Pseudo instructions\<close>

text \<open>
  \<open>fi_activate_inst\<close>: the first execution for a process control block creates a thread; every
  further one deactivates it, after printing the times of the thread the map points to.
\<close>

definition fi_activate_inst :: "bool \<Rightarrow> ThreadContext \<Rightarrow> u64 \<Rightarrow> Fi_System \<Rightarrow> Fi_System res" where
  "fi_activate_inst FullSystem tc threadid fs =
     (if \<not> FullSystem then Inl Panic
      else
        bindE (readIntReg ReturnAddressReg tc) (\<lambda>magic.
        bindE (readMiscReg 0 IPR_PALtemp23 tc) (\<lambda>(pcb, _).
        case map_find pcb (fi_activation fs) of
          None \<Rightarrow>
            (case ThreadEnabledFault_ctor (int32 (uint threadid)) (my_id_counter fs) of (t, c) \<Rightarrow>
              let ts = threadList fs @ [t] in
              bindE (at_int ts (vectorpos fs)) (\<lambda>_.
                Inr (fs\<lparr>fi_activation := map_assign pcb (vectorpos fs) (fi_activation fs),
                        threadList := ts[nat (vectorpos fs) :=
                          (ts ! nat (vectorpos fs))\<lparr>MagicInstVirtualAddr := magic\<rparr>],
                        vectorpos := int32 (vectorpos fs + 1), my_id_counter := c\<rparr>)))
        | Some i \<Rightarrow>
            bindE (at_int (threadList fs) i) (\<lambda>_.
              Inr (fs\<lparr>fi_activation := map_assign pcb (- 1) (fi_activation fs)\<rparr>)))))"

text \<open>
  \<open>init_fi_system\<close>: the checkpoint library's answer is an argument (1: checkpoint taken, the
  process exits; 2: restored).
\<close>

definition init_fi_system :: "bool \<Rightarrow> int \<Rightarrow> (nat \<Rightarrow> InjectedFault) \<Rightarrow> (string \<Rightarrow> string option) \<Rightarrow>
  Fi_System \<Rightarrow> Fi_System option res" where
  "init_fi_system FullSystem dmtcpCheckpoint alloc files fs =
     (if \<not> FullSystem then Inl Panic
      else if check_before_init fs \<and> dmtcpCheckpoint = 1 then Inr None
      else bindE (reset alloc files fs) (\<lambda>fs. Inr (Some fs)))"

definition get_Pc_address :: "ThreadContext \<Rightarrow> Fi_System \<Rightarrow> Fi_System res" where
  "get_Pc_address tc fs =
     bindE (readMiscReg 0 IPR_PALtemp23 tc) (\<lambda>(pcb, _).
       case map_find pcb (fi_activation fs) of
         None \<Rightarrow> Inr fs
       | Some i \<Rightarrow> bindE (at_int (threadList fs) i) (\<lambda>t.
           Inr (fs\<lparr>threadList := (threadList fs)[nat i :=
             t\<lparr>MagicInstVirtualAddr := instAddr (tc_pcState tc)\<rparr>]\<rparr>)))"

end
