(* ===== verification/Fi_Loading.thy ===== *)
theory Fi_Loading
  imports Fi_System
begin

text \<open>
  Reading the fault file: whatever the file contains, the loop of \<open>Fi_System::getFromFile\<close> ends, and
  either one of the parsers aborts or the four queues are well linked, sorted by timing and hold only
  faults of the classes that belong there. A file printed from fault descriptions is read back
  exactly; one more newline at its end makes the constructor abort.
\<close>

section \<open>Well-formed faults\<close>

definition class_fits :: "queue_id \<Rightarrow> fault_class \<Rightarrow> bool" where
  "class_fits qid c \<longleftrightarrow> (case qid of
       MainQ \<Rightarrow> c \<in> {CRegisterInjectedFault, CPCInjectedFault, CMemoryInjectedFault}
     | FetchQ \<Rightarrow> c \<in> {CGeneralFetchInjectedFault, COpCodeInjectedFault}
     | DecodeQ \<Rightarrow> c = CRegisterDecodingInjectedFault
     | IEWQ \<Rightarrow> c = CIEWStageInjectedFault)"

definition type_of_class :: "fault_class \<Rightarrow> InjectedFaultType" where
  "type_of_class c = (case c of
       CRegisterInjectedFault \<Rightarrow> RegisterInjectedFault
     | CMemoryInjectedFault \<Rightarrow> MemoryInjectedFault
     | CPCInjectedFault \<Rightarrow> PCInjectedFault
     | CGeneralFetchInjectedFault \<Rightarrow> GeneralFetchInjectedFault
     | COpCodeInjectedFault \<Rightarrow> OpCodeInjectedFault
     | CRegisterDecodingInjectedFault \<Rightarrow> RegisterDecodingInjectedFault
     | CIEWStageInjectedFault \<Rightarrow> ExecutionInjectedFault
     | _ \<Rightarrow> 0)"

definition value_ok :: "InjectedFault \<Rightarrow> bool" where
  "value_ok f \<longleftrightarrow> f_valueType f \<in> {ImmediateValue, MaskValue, FlipBit} \<or>
     f_valueType f = AllValue \<and> f_value f \<in> {0, 1}"

definition fault_wf :: "queue_id \<Rightarrow> InjectedFault \<Rightarrow> bool" where
  "fault_wf qid f \<longleftrightarrow> class_fits qid (f_class f) \<and> f_faultType f = type_of_class (f_class f) \<and>
     timing_ok f \<and> value_ok f"

definition queues_wf :: "(queue_id \<Rightarrow> nat list) \<Rightarrow> Fi_Queues \<Rightarrow> bool" where
  "queues_wf L s \<longleftrightarrow> queues_repr L s \<and> (\<forall>qid. \<forall>a\<in>set (L qid). fault_wf qid (fi_heap s ! a))"

definition queues_sorted :: "(queue_id \<Rightarrow> nat list) \<Rightarrow> Fi_Queues \<Rightarrow> bool" where
  "queues_sorted L s \<longleftrightarrow> (\<forall>qid. sorted (map (timing_at (fi_heap s)) (L qid)))"

lemma fault_wf_core:
  assumes "core x = core y"
  shows "fault_wf qid x = fault_wf qid y"
  unfolding fault_wf_def timing_ok_def value_ok_def core_fields [OF assms] ..

text \<open>\<open>grown s s'\<close>: the objects of the heap of \<open>s\<close> are still there, their data unchanged.\<close>

definition grown :: "Fi_Queues \<Rightarrow> Fi_Queues \<Rightarrow> bool" where
  "grown s s' \<longleftrightarrow> length (fi_heap s) \<le> length (fi_heap s') \<and>
     (\<forall>a < length (fi_heap s). core (fi_heap s' ! a) = core (fi_heap s ! a))"

lemma grown_refl [simp]: "grown s s"
  by (simp add: grown_def)

lemma grown_trans: "grown s t \<Longrightarrow> grown t u \<Longrightarrow> grown s u"
  by (auto simp: grown_def)

text \<open>What loading maintains: well-formed and sorted queues.\<close>

definition loaded_as :: "(queue_id \<Rightarrow> nat list) \<Rightarrow> Fi_Queues \<Rightarrow> bool" where
  "loaded_as L s \<longleftrightarrow> queues_wf L s \<and> queues_sorted L s"

definition loaded :: "Fi_Queues \<Rightarrow> bool" where
  "loaded s \<longleftrightarrow> (\<exists>L. loaded_as L s)"

text \<open>The order of a queue after a new object with fault \<open>f\<close> was inserted.\<close>

definition with_new :: "queue_id \<Rightarrow> InjectedFault \<Rightarrow> Fi_Queues \<Rightarrow> (queue_id \<Rightarrow> nat list) \<Rightarrow> queue_id \<Rightarrow> nat list" where
  "with_new qid f s L = L(qid := place (timing_at (fi_heap s @ [f])) (length (fi_heap s)) (L qid))"

lemma set_with_new: "set (with_new qid f s L p) = (if p = qid then {length (fi_heap s)} else {}) \<union> set (L p)"
  by (simp add: with_new_def)

section \<open>Constructors\<close>

text \<open>
  What a new object has to satisfy before its insertion: its links are \<open>NULL\<close>, or the queue is still
  empty, since the first insertion sets both links.
\<close>

definition link_ok :: "(queue_id \<Rightarrow> nat list) \<Rightarrow> queue_id \<Rightarrow> InjectedFault \<Rightarrow> bool" where
  "link_ok L qid f \<longleftrightarrow> L qid = [] \<or> f_nxt f = None \<and> f_prv f = None"

lemma link_ok_null: "f_nxt f = None \<Longrightarrow> f_prv f = None \<Longrightarrow> link_ok L qid f"
  by (simp add: link_ok_def)

lemma insert_first_links:
  assumes "the_queue qid s = x" "queue_empty x"
  shows "insert_into qid (length (fi_heap s)) (s\<lparr>fi_heap := fi_heap s @ [f], faultCnt := c\<rparr>) =
    insert_into qid (length (fi_heap s)) (s\<lparr>fi_heap := fi_heap s @ [f\<lparr>f_nxt := None, f_prv := None\<rparr>], faultCnt := c\<rparr>)"
proof -
  have "the_queue qid (s\<lparr>fi_heap := h, faultCnt := c\<rparr>) = x" for h
    using assms(1) by (cases qid) (simp_all add: the_queue_def)
  then show ?thesis
    using assms(2) by (cases qid) (simp_all add: insert_into_def queue_insert_def upd_def with_queue_def)
qed

lemma insert_new_repr:
  assumes repr: "queues_repr L s" and f: "link_ok L qid f"
  shows "\<exists>s'. insert_into qid (length (fi_heap s)) (s\<lparr>fi_heap := fi_heap s @ [f], faultCnt := c\<rparr>) = Inr s' \<and>
    queues_repr (L(qid := place (timing_at (fi_heap s @ [f])) (length (fi_heap s)) (L qid))) s' \<and>
    same_core (fi_heap s @ [f]) (fi_heap s') \<and> faultCnt s' = c \<and>
    (\<forall>q. q_name (the_queue q s') = q_name (the_queue q s))"
proof -
  have fresh: "length (fi_heap s) \<notin> set (L q)" for q using queues_reprD(3) [OF repr] by blast
  have null: "\<exists>s'. insert_into qid (length (fi_heap s)) (s\<lparr>fi_heap := fi_heap s @ [g], faultCnt := c\<rparr>) = Inr s' \<and>
      queues_repr (L(qid := place (timing_at (fi_heap s @ [g])) (length (fi_heap s)) (L qid))) s' \<and>
      same_core (fi_heap s @ [g]) (fi_heap s') \<and> faultCnt s' = c \<and>
      (\<forall>q. q_name (the_queue q s') = q_name (the_queue q s))" if "f_nxt g = None" "f_prv g = None" for g
    using insert_into_repr [OF queues_repr_new [OF repr, where f = g and c = c], of "length (fi_heap s)" qid] that fresh
    by (auto simp: unlinked_def the_queue_def split: queue_id.splits)
  show ?thesis
  proof (cases "L qid = []")
    case True
    let ?g = "f\<lparr>f_nxt := None, f_prv := None\<rparr>"
    have "queue_empty (the_queue qid s)"
      using queues_reprD(1) [OF repr, of qid] True by (simp add: queue_list_def queue_empty_def)
    note eq = insert_first_links [OF refl this, where f = f and c = c]
    have "same_core (fi_heap s @ [f]) h = same_core (fi_heap s @ [?g]) h" for h by (simp add: same_core_def)
    then show ?thesis unfolding eq using null [of ?g] True by simp
  next
    case False
    then show ?thesis using null [of f] f by (simp add: link_ok_def)
  qed
qed

lemma new_queued:
  assumes wf: "queues_wf L s" "queues_sorted L s" and f: "link_ok L qid f"
  shows "\<exists>s'. insert_into qid (length (fi_heap s)) (s\<lparr>fi_heap := fi_heap s @ [f], faultCnt := c\<rparr>) = Inr s' \<and>
    (let a = length (fi_heap s);
         L' = L(qid := place (timing_at (fi_heap s @ [f])) a (L qid))
     in queues_repr L' s' \<and> same_core (fi_heap s @ [f]) (fi_heap s') \<and> queues_sorted L' s' \<and>
        (\<forall>q. \<forall>b\<in>set (L q). fault_wf q (fi_heap s' ! b)) \<and> grown s s' \<and> faultCnt s' = c \<and>
        (\<forall>q. q_name (the_queue q s') = q_name (the_queue q s)))"
proof -
  let ?a = "length (fi_heap s)" and ?s = "s\<lparr>fi_heap := fi_heap s @ [f], faultCnt := c\<rparr>"
  let ?L' = "L(qid := place (timing_at (fi_heap s @ [f])) ?a (L qid))"
  have repr: "queues_repr L s" using wf by (simp add: queues_wf_def)
  obtain s' where s': "insert_into qid ?a ?s = Inr s'" "queues_repr ?L' s'"
      "same_core (fi_heap s @ [f]) (fi_heap s')" "faultCnt s' = c"
      "\<And>q. q_name (the_queue q s') = q_name (the_queue q s)"
    using insert_new_repr [OF repr f, of c] by blast
  have core_old: "core (fi_heap s' ! b) = core (fi_heap s ! b)" if "b < ?a" for b
    using same_core_nth [OF s'(3), of b] that by (simp add: nth_append)
  have "grown s s'" using core_old same_core_length [OF s'(3)] by (auto simp: grown_def)
  moreover have "fault_wf q (fi_heap s' ! b)" if "b \<in> set (L q)" for b q
    using that wf(1) queues_reprD(3) [OF repr that] fault_wf_core [OF core_old, of b q]
    by (simp add: queues_wf_def)
  moreover have "queues_sorted ?L' s'"
  proof -
    have t: "timing_at (fi_heap s') b = timing_at (fi_heap s @ [f]) b" if "b < length (fi_heap s @ [f])" for b
      using core_fields(1) [OF same_core_nth [OF s'(3) that]] .
    have 1: "map (timing_at (fi_heap s')) (?L' q) = map (timing_at (fi_heap s @ [f])) (?L' q)" for q
      using t queues_reprD(3) [OF s'(2), of _ q] same_core_length [OF s'(3)] by (intro map_cong) auto
    have 2: "map (timing_at (fi_heap s @ [f])) (L q) = map (timing_at (fi_heap s)) (L q)" for q
      using queues_reprD(3) [OF repr, of _ q] by (intro map_cong refl) (simp add: nth_append)
    have "sorted (map (timing_at (fi_heap s @ [f])) (L q))" for q
      unfolding 2 using wf(2) by (simp add: queues_sorted_def)
    then have "sorted (map (timing_at (fi_heap s @ [f])) (?L' q))" for q
      by (simp add: sorted_place)
    then show ?thesis unfolding queues_sorted_def 1 by blast
  qed
  ultimately show ?thesis using s' by (auto simp: Let_def)
qed

lemma new_queued_as:
  assumes L: "loaded_as L s" and f: "link_ok L qid f" "fault_wf qid f"
  shows "\<exists>s'. insert_into qid (length (fi_heap s)) (s\<lparr>fi_heap := fi_heap s @ [f], faultCnt := c\<rparr>) = Inr s' \<and>
    loaded_as (with_new qid f s L) s' \<and> grown s s' \<and> core (fi_heap s' ! length (fi_heap s)) = core f \<and>
    length (fi_heap s') = Suc (length (fi_heap s)) \<and> faultCnt s' = c"
proof -
  let ?a = "length (fi_heap s)" and ?L' = "with_new qid f s L"
  obtain s' where s': "insert_into qid ?a (s\<lparr>fi_heap := fi_heap s @ [f], faultCnt := c\<rparr>) = Inr s'"
      "queues_repr ?L' s'" "same_core (fi_heap s @ [f]) (fi_heap s')" "queues_sorted ?L' s'"
      "\<And>q b. b \<in> set (L q) \<Longrightarrow> fault_wf q (fi_heap s' ! b)" "grown s s'" "faultCnt s' = c"
    using new_queued [of L s qid f c] L f(1) by (auto simp: Let_def loaded_as_def with_new_def)
  have new: "core (fi_heap s' ! ?a) = core f" using same_core_nth [OF s'(3), of ?a] by simp
  have "queues_wf ?L' s'"
    using s'(2,5) fault_wf_core [OF new] f(2) by (auto simp: queues_wf_def with_new_def)
  then show ?thesis
    using s' new same_core_length [OF s'(3)] by (auto simp: loaded_as_def)
qed

lemma new_unqueued_as:
  assumes "loaded_as L s"
  shows "loaded_as L (s\<lparr>fi_heap := fi_heap s @ [f], faultCnt := c\<rparr>)" "grown s (s\<lparr>fi_heap := fi_heap s @ [f], faultCnt := c\<rparr>)"
proof -
  have L: "queues_wf L s" "queues_sorted L s" using assms by (auto simp: loaded_as_def)
  have repr: "queues_repr L s" using L by (simp add: queues_wf_def)
  have nth: "(fi_heap s @ [f]) ! a = fi_heap s ! a" if "a \<in> set (L q)" for a q
    using queues_reprD(3) [OF repr that] by (simp add: nth_append)
  have "queues_wf L (s\<lparr>fi_heap := fi_heap s @ [f], faultCnt := c\<rparr>)"
    using L(1) queues_repr_new [OF repr] nth by (auto simp: queues_wf_def)
  moreover have "queues_sorted L (s\<lparr>fi_heap := fi_heap s @ [f], faultCnt := c\<rparr>)"
    using L(2) nth by (auto simp: queues_sorted_def cong: map_cong)
  ultimately show "loaded_as L (s\<lparr>fi_heap := fi_heap s @ [f], faultCnt := c\<rparr>)" by (auto simp: loaded_as_def)
  show "grown s (s\<lparr>fi_heap := fi_heap s @ [f], faultCnt := c\<rparr>)" by (simp add: grown_def nth_append)
qed

lemma new_unqueued_loaded:
  assumes "loaded s"
  shows "loaded (s\<lparr>fi_heap := fi_heap s @ [f], faultCnt := c\<rparr>)" "grown s (s\<lparr>fi_heap := fi_heap s @ [f], faultCnt := c\<rparr>)"
proof -
  obtain L where "loaded_as L s" using assms by (auto simp: loaded_def)
  from new_unqueued_as [OF this, where f = f and c = c]
  show "loaded (s\<lparr>fi_heap := fi_heap s @ [f], faultCnt := c\<rparr>)" "grown s (s\<lparr>fi_heap := fi_heap s @ [f], faultCnt := c\<rparr>)"
    by (auto simp: loaded_def)
qed

subsection \<open>Streams\<close>

text \<open>What is left to read: nothing once the stream is not good.\<close>

definition stream_len :: "istream \<Rightarrow> nat" where
  "stream_len os = (if good os then Suc (length (buf os)) else 0)"

lemma sentry_len:
  "\<not> fst (sentry os) \<Longrightarrow> stream_len (snd (sentry os)) = 0"
  "fst (sentry os) \<Longrightarrow> good os \<and> good (snd (sentry os)) \<and> buf (snd (sentry os)) \<noteq> [] \<and>
     \<not> isspace (hd (buf (snd (sentry os)))) \<and> length (buf (snd (sentry os))) \<le> length (buf os)"
proof -
  show "\<not> fst (sentry os) \<Longrightarrow> stream_len (snd (sentry os)) = 0"
    by (auto simp: sentry_def stream_len_def good_def Let_def split: if_splits)
  show "fst (sentry os) \<Longrightarrow> good os \<and> good (snd (sentry os)) \<and> buf (snd (sentry os)) \<noteq> [] \<and>
      \<not> isspace (hd (buf (snd (sentry os)))) \<and> length (buf (snd (sentry os))) \<le> length (buf os)"
    using hd_dropWhile [of isspace "buf os"] length_dropWhile_le [of isspace "buf os"]
    by (auto simp: sentry_def good_def Let_def split: if_splits)
qed

lemma read_string_len:
  "stream_len (snd (read_string os)) \<le> stream_len os"
  "good os \<Longrightarrow> stream_len (snd (read_string os)) < stream_len os"
proof -
  obtain ok s1 where s: "sentry os = (ok, s1)" by fastforce
  have "stream_len (snd (read_string os)) \<le> stream_len os \<and>
      (good os \<longrightarrow> stream_len (snd (read_string os)) < stream_len os)"
  proof (cases ok)
    case False
    then show ?thesis using sentry_len(1) [of os] s by (auto simp: read_string_def stream_len_def)
  next
    case True
    let ?r = "dropWhile (\<lambda>c. \<not> isspace c) (buf s1)"
    have g: "good os" "buf s1 \<noteq> []" "\<not> isspace (hd (buf s1))" "length (buf s1) \<le> length (buf os)"
      using sentry_len(2) [of os] s True by auto
    then have "length ?r < length (buf s1)"
      using length_dropWhile_le [of "\<lambda>c. \<not> isspace c" "tl (buf s1)"] by (cases "buf s1") auto
    then have "length ?r < length (buf os)" using g(4) by simp
    then show ?thesis using g(1) True s by (auto simp: read_string_def stream_len_def good_def Let_def)
  qed
  then show "stream_len (snd (read_string os)) \<le> stream_len os"
    "good os \<Longrightarrow> stream_len (snd (read_string os)) < stream_len os" by auto
qed

lemma split_sign_len: "length (snd (split_sign s)) \<le> length s"
  by (cases s) (auto simp: split_sign_def)

lemma read_int_len: "stream_len (snd (read_int os)) \<le> stream_len os"
proof -
  obtain ok s1 where s: "sentry os = (ok, s1)" by fastforce
  show ?thesis
  proof (cases ok)
    case False
    then show ?thesis using sentry_len(1) [of os] s by (auto simp: read_int_def stream_len_def)
  next
    case True
    have g: "good os" "length (buf s1) \<le> length (buf os)" using sentry_len(2) [of os] s True by auto
    obtain neg r where r: "split_sign (buf s1) = (neg, r)" by fastforce
    have "length r \<le> length (buf s1)" using split_sign_len [of "buf s1"] r by simp
    then have "length (dropWhile isdigit r) \<le> length (buf os)"
      using length_dropWhile_le [of isdigit r] g(2) by linarith
    then show ?thesis using g(1) True s r by (auto simp: read_int_def stream_len_def good_def Let_def)
  qed
qed

subsection \<open>Parsing\<close>

text \<open>The aborts of the parsers and constructors.\<close>

definition load_error :: "fi_error \<Rightarrow> bool" where
  "load_error e \<longleftrightarrow> e \<in> {AssertFail, Out_of_range, Uninitialised}"

lemma load_error_simps [simp]: "load_error AssertFail" "load_error Out_of_range" "load_error Uninitialised"
  "\<not> load_error Diverges" "\<not> load_error Bad_pointer" "\<not> load_error Null_deref"
  by (simp_all add: load_error_def)

text \<open>The data of an object that a parser must not touch.\<close>

definition same_object :: "InjectedFault \<Rightarrow> InjectedFault \<Rightarrow> bool" where
  "same_object f g \<longleftrightarrow> f_nxt f = f_nxt g \<and> f_prv f = f_prv g \<and> f_class f = f_class g"

definition parse_ok :: "(InjectedFault \<Rightarrow> bool) \<Rightarrow> InjectedFault \<Rightarrow> InjectedFault res \<Rightarrow> bool" where
  "parse_ok P f r = (case r of Inl e \<Rightarrow> load_error e | Inr g \<Rightarrow> same_object g f \<and> P g)"

lemma parse_ok_bind:
  assumes "parse_ok P f r" "\<And>g. same_object g f \<Longrightarrow> P g \<Longrightarrow> parse_ok Q g (k g)"
  shows "parse_ok Q f (bindE r k)"
proof (cases r)
  case (Inr b)
  then have b: "same_object b f" "P b" using assms(1) by (auto simp: parse_ok_def)
  show ?thesis using assms(2) [OF b] b(1) Inr by (auto simp: parse_ok_def same_object_def split: sum.splits)
qed (use assms(1) in \<open>simp add: parse_ok_def\<close>)

lemma parseWhat_ok: "parse_ok value_ok f (parseWhat s f)"
  by (auto simp: parse_ok_def parseWhat_def substr_def setValue_def setValue_int_def value_ok_def
      same_object_def value_types)

lemma parseWhen_ok: "parse_ok (\<lambda>g. timing_ok g \<and> value_ok g = value_ok f) f (parseWhen s f)"
  by (auto simp: parse_ok_def parseWhen_def substr_def setTiming_def timing_ok_def value_ok_def
      same_object_def timing_types)

lemma setRegType_ok:
  "parse_ok (\<lambda>g. timing_ok g = timing_ok f \<and> value_ok g = value_ok f \<and> f_faultType g = f_faultType f) f (setRegType s f)"
  by (auto simp: parse_ok_def setRegType_def timing_ok_def value_ok_def same_object_def)

lemma parseRegDec_ok:
  "parse_ok (\<lambda>g. timing_ok g = timing_ok f \<and> value_ok g = value_ok f) f (parseRegDec s f)"
  by (auto simp: parse_ok_def parseRegDec_def substr_def setRegPair_def Let_def timing_ok_def value_ok_def
      same_object_def)

text \<open>The outcome of the base constructors: an abort, or a fault with valid timing and value.\<close>

definition ctor_ok :: "InjectedFault \<Rightarrow> istream \<Rightarrow> (InjectedFault \<times> u64 \<times> istream) res \<Rightarrow> bool" where
  "ctor_ok raw os r = (case r of Inl e \<Rightarrow> load_error e
     | Inr (f, c, os') \<Rightarrow> same_object f raw \<and> timing_ok f \<and> value_ok f \<and> stream_len os' \<le> stream_len os)"

lemma InjectedFault_ctor_ok: "ctor_ok raw os (InjectedFault_ctor raw cnt os)"
proof -
  obtain w1 s1 w2 s2 w3 s3 w4 s4 occ s5 where r: "read_string os = (w1, s1)" "read_string s1 = (w2, s2)"
      "read_string s2 = (w3, s3)" "read_string s3 = (w4, s4)" "read_int s4 = (occ, s5)"
    by (metis prod.exhaust)
  have len: "stream_len s5 \<le> stream_len os"
    using read_string_len(1) [of os] read_string_len(1) [of s1] read_string_len(1) [of s2]
      read_string_len(1) [of s3] read_int_len [of s4] r by simp
  let ?f = "raw\<lparr>f_thread := str_or_empty w3, f_when := str_or_empty w1, f_where := str_or_empty w4,
      f_what := str_or_empty w2\<rparr>"
  let ?p = "bindE (parseWhat (str_or_empty w2) ?f) (parseWhen (str_or_empty w1))"
  have p: "parse_ok (\<lambda>g. timing_ok g \<and> value_ok g) ?f ?p"
  proof (rule parse_ok_bind [OF parseWhat_ok])
    fix g assume "value_ok g"
    then show "parse_ok (\<lambda>g. timing_ok g \<and> value_ok g) g (parseWhen (str_or_empty w1) g)"
      using parseWhen_ok [of g "str_or_empty w1"] by (auto simp: parse_ok_def split: sum.splits)
  qed
  have "InjectedFault_ctor raw cnt os = bindE ?p (\<lambda>f. bindE (init_int occ) (\<lambda>occ.
      Inr (f\<lparr>f_faultID := cnt, f_occurrence := occ, f_manifested := False\<rparr>, cnt + 1, s5)))"
    by (simp add: InjectedFault_ctor_def r bindE_assoc Let_def)
  then show ?thesis
    using p len by (auto simp: ctor_ok_def parse_ok_def same_object_def timing_ok_def value_ok_def init_int_def
        split: sum.splits option.splits)
qed

lemma CPU_ctors_ok:
  "ctor_ok raw os (CPUInjectedFault_ctor raw cnt os)" "ctor_ok raw os (O3CPUInjectedFault_ctor raw cnt os)"
proof -
  have "ctor_ok raw os (bindE (InjectedFault_ctor raw cnt os) (\<lambda>(f, faultCnt, os).
       let (t, os) = read_int os in bindE (init_int t) (\<lambda>t. Inr (f\<lparr>f_tcontext := t\<rparr>, faultCnt, os))))"
    using InjectedFault_ctor_ok [of raw os cnt] order_trans [OF read_int_len]
    by (auto simp: ctor_ok_def same_object_def timing_ok_def value_ok_def init_int_def Let_def bindE_def
        split: sum.splits option.splits prod.splits)
      (metis order_trans read_int_len snd_conv)+
  then show "ctor_ok raw os (CPUInjectedFault_ctor raw cnt os)" "ctor_ok raw os (O3CPUInjectedFault_ctor raw cnt os)"
    by (simp_all add: CPUInjectedFault_ctor_def O3CPUInjectedFault_ctor_def)
qed

subsection \<open>Constructors that use the queues\<close>

text \<open>The outcome of \<open>new C(os)\<close>: an abort, or a loaded system in which nothing else changed.\<close>

definition new_ok :: "Fi_Queues \<Rightarrow> istream \<Rightarrow> (nat \<times> Fi_Queues \<times> istream) res \<Rightarrow> bool" where
  "new_ok s os r = (case r of Inl e \<Rightarrow> load_error e
     | Inr (a, s', os') \<Rightarrow> loaded s' \<and> grown s s' \<and> stream_len os' \<le> stream_len os)"

lemma new_ok_Inl [simp]: "new_ok s os (Inl e) = load_error e"
  by (simp add: new_ok_def)

lemma new_ok_ctor:
  assumes "ctor_ok raw os r"
    "\<And>f c os'. same_object f raw \<Longrightarrow> timing_ok f \<Longrightarrow> value_ok f \<Longrightarrow> stream_len os' \<le> stream_len os \<Longrightarrow>
       new_ok s os (k (f, c, os'))"
  shows "new_ok s os (bindE r k)"
proof (cases r)
  case (Inr x)
  obtain f c os' where x: "x = (f, c, os')" by (cases x) auto
  then show ?thesis using assms(1) assms(2) [of f os' c] Inr by (simp add: ctor_ok_def)
qed (use assms(1) in \<open>simp add: ctor_ok_def\<close>)

lemma new_ok_insert:
  assumes "loaded s" "f_nxt f = None" "f_prv f = None" "fault_wf qid f" "stream_len os' \<le> stream_len os"
  shows "new_ok s os (case place_object (f, c, os') s of
    (a, s, os) \<Rightarrow> bindE (insert_into qid a s) (\<lambda>s. Inr (a, s, os)))"
proof -
  obtain L where "loaded_as L s" using assms(1) by (auto simp: loaded_def)
  from new_queued_as [OF this link_ok_null [OF assms(2,3)] assms(4), of c] assms(5) show ?thesis
    by (auto simp: place_object_def new_ok_def loaded_def)
qed

lemma fault_wf_make:
  assumes "timing_ok f" "value_ok f" "class_fits qid (f_class f)" "t = type_of_class (f_class f)"
  shows "fault_wf qid (f\<lparr>f_faultType := t\<rparr>)"
  using assms by (simp add: fault_wf_def timing_ok_def value_ok_def)

lemmas same_objectD = same_object_def [THEN iffD1]

lemma new_simple_ok:
  assumes s: "loaded s" and raw: "f_nxt raw = None" "f_prv raw = None"
  shows "new_ok s os (new_GeneralFetchInjectedFault raw os s)" "new_ok s os (new_IEWStageInjectedFault raw os s)"
    "new_ok s os (new_OpCodeInjectedFault raw os s)" "new_ok s os (new_PCInjectedFault raw os s)"
  unfolding new_GeneralFetchInjectedFault_def new_IEWStageInjectedFault_def new_OpCodeInjectedFault_def
    new_PCInjectedFault_def
  by (rule new_ok_ctor [OF CPU_ctors_ok(2)] new_ok_ctor [OF CPU_ctors_ok(1)], clarify,
      rule new_ok_insert [OF s], use raw in \<open>auto dest!: same_objectD
        intro!: fault_wf_make simp: class_fits_def type_of_class_def\<close>)+

lemma new_unqueued_ok:
  assumes s: "loaded s"
  shows "new_ok s os (new_InjectedFault raw os s)" "new_ok s os (new_CPUInjectedFault raw os s)"
    "new_ok s os (new_O3CPUInjectedFault raw os s)"
  unfolding new_InjectedFault_def new_CPUInjectedFault_def new_O3CPUInjectedFault_def
  by (rule new_ok_ctor [OF InjectedFault_ctor_ok] new_ok_ctor [OF CPU_ctors_ok(1)]
        new_ok_ctor [OF CPU_ctors_ok(2)],
      use new_unqueued_loaded [OF s] in \<open>simp add: place_object_def new_ok_def\<close>)+

lemma new_MemoryInjectedFault_ok:
  assumes s: "loaded s" and raw: "f_nxt raw = None" "f_prv raw = None"
  shows "new_ok s os (new_MemoryInjectedFault raw os s)"
  unfolding new_MemoryInjectedFault_def
proof (rule new_ok_ctor [OF CPU_ctors_ok(1)], goal_cases)
  case (1 f c os')
  obtain k os1 r os2 where r: "read_int os' = (k, os1)" "read_int os1 = (r, os2)" by (metis prod.exhaust)
  have len: "stream_len os2 \<le> stream_len os" using read_int_len [of os'] read_int_len [of os1] r 1(4) by simp
  have "fault_wf MainQ (f\<lparr>f_offset := x, f_register := y, f_faultType := MemoryInjectedFault\<rparr>)" for x y
    using 1(1-3) by (intro fault_wf_make)
      (auto simp: timing_ok_def value_ok_def same_object_def class_fits_def type_of_class_def)
  then show ?case
    using new_ok_insert [OF s _ _ _ len] 1(1) raw r by (auto simp: init_int_def same_object_def split: option.splits)
qed

lemma new_RegisterInjectedFault_ok:
  assumes s: "loaded s" and raw: "f_nxt raw = None" "f_prv raw = None"
  shows "new_ok s os (new_RegisterInjectedFault raw os s)"
  unfolding new_RegisterInjectedFault_def
proof (rule new_ok_ctor [OF CPU_ctors_ok(1)], goal_cases)
  case (1 f c os')
  obtain v os1 k os2 where r: "read_string os' = (v, os1)" "read_int os1 = (k, os2)" by (metis prod.exhaust)
  have len: "stream_len os2 \<le> stream_len os" using read_string_len(1) [of os'] read_int_len [of os1] r 1(4) by simp
  let ?f = "f\<lparr>f_faultType := RegisterInjectedFault\<rparr>"
  show ?case
  proof (cases "setRegType (str_or_empty v) ?f")
    case (Inl e)
    then show ?thesis using setRegType_ok [of ?f "str_or_empty v"] r by (simp add: parse_ok_def)
  next
    case (Inr g)
    then have g: "same_object g f" "timing_ok g" "value_ok g" "f_faultType g = RegisterInjectedFault"
      using setRegType_ok [of ?f "str_or_empty v"] 1(2,3)
      by (auto simp: parse_ok_def same_object_def timing_ok_def value_ok_def)
    then have "fault_wf MainQ (g\<lparr>f_register := x\<rparr>)" for x
      using 1(1) by (auto simp: fault_wf_def timing_ok_def value_ok_def same_object_def class_fits_def type_of_class_def)
    then show ?thesis
      using new_ok_insert [OF s _ _ _ len] 1(1) g(1) raw r Inr
      by (auto simp: init_int_def same_object_def split: option.splits)
  qed
qed

lemma core_set_faultType: "core (f\<lparr>f_faultType := t\<rparr>) = (core f)\<lparr>f_faultType := t\<rparr>"
  by (cases f) (simp add: core_def)

text \<open>The decoding fault gets its type after it was inserted.\<close>

lemma new_typed_after:
  assumes L: "loaded_as L s" and f: "link_ok L qid f" "fault_wf qid (f\<lparr>f_faultType := t\<rparr>)"
  shows "\<exists>s1 s2. insert_into qid (length (fi_heap s)) (s\<lparr>fi_heap := fi_heap s @ [f], faultCnt := c\<rparr>) = Inr s1 \<and>
    upd_fault (length (fi_heap s)) (\<lambda>f. f\<lparr>f_faultType := t\<rparr>) s1 = Inr s2 \<and>
    loaded_as (with_new qid f s L) s2 \<and> grown s s2 \<and>
    core (fi_heap s2 ! length (fi_heap s)) = core (f\<lparr>f_faultType := t\<rparr>) \<and>
    length (fi_heap s2) = Suc (length (fi_heap s)) \<and> faultCnt s2 = c"
proof -
  let ?a = "length (fi_heap s)" and ?L' = "with_new qid f s L"
  obtain s1 where s1: "insert_into qid ?a (s\<lparr>fi_heap := fi_heap s @ [f], faultCnt := c\<rparr>) = Inr s1"
      "queues_repr ?L' s1" "same_core (fi_heap s @ [f]) (fi_heap s1)" "queues_sorted ?L' s1"
      "\<And>q b. b \<in> set (L q) \<Longrightarrow> fault_wf q (fi_heap s1 ! b)" "grown s s1" "faultCnt s1 = c"
    using new_queued [of L s qid f c] L f(1) by (auto simp: Let_def loaded_as_def with_new_def)
  have len: "length (fi_heap s1) = Suc ?a" using same_core_length [OF s1(3)] by simp
  let ?g = "(fi_heap s1 ! ?a)\<lparr>f_faultType := t\<rparr>"
  let ?s2 = "s1\<lparr>fi_heap := (fi_heap s1)[?a := ?g]\<rparr>"
  have u: "upd_fault ?a (\<lambda>f. f\<lparr>f_faultType := t\<rparr>) s1 = Inr ?s2" "queues_repr ?L' ?s2"
    using upd_fault_repr [OF s1(2), of ?a "\<lambda>f. f\<lparr>f_faultType := t\<rparr>"] len by auto
  have new: "core ?g = core (f\<lparr>f_faultType := t\<rparr>)"
    using same_core_nth [OF s1(3), of ?a] by (simp add: core_set_faultType)
  have fresh: "?a \<notin> set (L q)" for q
    using L queues_reprD(3) [of L s ?a q] by (auto simp: loaded_as_def queues_wf_def)
  then have "fault_wf q ((fi_heap s1)[?a := ?g] ! b)" if "b \<in> set (L q)" for b q
    using s1(5) [OF that] that by (metis nth_list_update_neq)
  then have "queues_wf ?L' ?s2"
    using u(2) fault_wf_core [OF new] f(2) len by (auto simp: queues_wf_def with_new_def)
  moreover have "timing_at (fi_heap ?s2) = timing_at (fi_heap s1)"
    by (rule ext) (simp add: nth_list_update len)
  then have "queues_sorted ?L' ?s2" using s1(4) by (simp add: queues_sorted_def)
  moreover have "grown s ?s2" using s1(6) by (auto simp: grown_def)
  ultimately show ?thesis using s1(1,7) u(1) new len by (auto simp: loaded_as_def)
qed

lemma new_RegisterDecodingInjectedFault_ok:
  assumes s: "loaded s" and raw: "f_nxt raw = None" "f_prv raw = None"
  shows "new_ok s os (new_RegisterDecodingInjectedFault raw os s)"
  unfolding new_RegisterDecodingInjectedFault_def
proof (rule new_ok_ctor [OF CPU_ctors_ok(2)], goal_cases)
  case (1 f c os')
  obtain v os1 where r: "read_string os' = (v, os1)" by fastforce
  have len: "stream_len os1 \<le> stream_len os" using read_string_len(1) [of os'] r 1(4) by simp
  show ?case
  proof (cases "parseRegDec (str_or_empty v) f")
    case (Inl e)
    then show ?thesis using parseRegDec_ok [of f "str_or_empty v"] r by (simp add: parse_ok_def)
  next
    case (Inr g)
    then have g: "same_object g f" "timing_ok g" "value_ok g"
      using parseRegDec_ok [of f "str_or_empty v"] 1(2,3) by (auto simp: parse_ok_def)
    then have "fault_wf DecodeQ (g\<lparr>f_faultType := RegisterDecodingInjectedFault\<rparr>)"
      using 1(1) by (intro fault_wf_make) (auto simp: same_object_def class_fits_def type_of_class_def)
    moreover have "link_ok L DecodeQ g" for L using g(1) 1(1) raw by (auto simp: same_object_def link_ok_def)
    moreover obtain L where "loaded_as L s" using s by (auto simp: loaded_def)
    ultimately show ?thesis
      using new_typed_after [of L s DecodeQ g RegisterDecodingInjectedFault c] r Inr len
      by (auto simp: place_object_def new_ok_def loaded_def)
  qed
qed

section \<open>The loop over the file\<close>

definition step_ok :: "Fi_Queues \<Rightarrow> istream \<Rightarrow> (Fi_Queues \<times> istream) res \<Rightarrow> bool" where
  "step_ok s os r = (case r of Inl e \<Rightarrow> load_error e
     | Inr (s', os') \<Rightarrow> loaded s' \<and> grown s s' \<and> stream_len os' \<le> stream_len os)"

lemma new_by_name_ok:
  assumes "loaded s" "f_nxt raw = None" "f_prv raw = None"
  shows "step_ok s os (new_by_name check raw os s)"
proof -
  have keep: "step_ok s os (bindE r (\<lambda>(_, x). Inr x))" if "new_ok s os r" for r
    using that by (cases r) (auto simp: new_ok_def step_ok_def)
  have skip: "step_ok s os (Inr (s, os))" using assms(1) by (simp add: step_ok_def)
  show ?thesis
    unfolding new_by_name_def Let_def
    by (simp add: keep skip new_simple_ok [OF assms] new_unqueued_ok [OF assms(1)]
        new_MemoryInjectedFault_ok [OF assms] new_RegisterInjectedFault_ok [OF assms]
        new_RegisterDecodingInjectedFault_ok [OF assms])
qed

lemma file_loop_ok:
  assumes "loaded q" "null_links alloc" "stream_len os < n"
  shows "case file_loop alloc n check os q of Inl e \<Rightarrow> load_error e | Inr q' \<Rightarrow> loaded q' \<and> grown q q'"
  using assms(1,3)
proof (induction n arbitrary: check os q)
  case (Suc n)
  show ?case
  proof (cases "good os")
    case True
    obtain r os1 where r: "read_string os = (r, os1)" by fastforce
    let ?check = "case r of None \<Rightarrow> check | Some v \<Rightarrow> v"
    let ?new = "new_by_name ?check (alloc (length (fi_heap q))) os1 q"
    have len: "stream_len os1 < n" using read_string_len(2) [OF True] r Suc.prems(2) by simp
    have ok: "step_ok q os1 ?new"
      by (rule new_by_name_ok [OF Suc.prems(1) null_linksD [OF assms(2)]])
    show ?thesis
    proof (cases ?new)
      case (Inl e)
      then show ?thesis using ok True r by (simp add: step_ok_def)
    next
      case (Inr x)
      then obtain q1 os2 where x: "?new = Inr (q1, os2)" by (cases x) auto
      then have "loaded q1" "grown q q1" "stream_len os2 < n" using ok len by (auto simp: step_ok_def)
      then show ?thesis using Suc.IH [of q1 os2 ?check] True r x
        by (auto split: sum.splits intro: grown_trans)
    qed
  qed (use Suc.prems in simp)
qed simp

lemma loaded_empty: "loaded_as (\<lambda>_. []) (reset_queues q)"
proof -
  have "queues_wf (\<lambda>_. []) (reset_queues q)"
    by (auto simp: queues_wf_def queues_repr_def queue_list_def reset_queues_def the_queue_def empty_queue_def
        split: queue_id.splits)
  moreover have "queues_sorted (\<lambda>_. []) (reset_queues q)" by (simp add: queues_sorted_def)
  ultimately show ?thesis by (simp add: loaded_as_def)
qed

definition sample_file :: string where
  "sample_file = ''PCInjectedFault Inst:7 Flip:3 0 system.cpu 1 0 ''
     @ ''RegisterInjectedFault Tick:5 Immd:9 all all 2 0 int 4''"

definition queues_sample :: Fi_Queues where
  "queues_sample = \<lparr>fi_heap = [], mainInjectedFaultQueue = empty_queue [], fetchStageInjectedFaultQueue = empty_queue [],
     decodeStageInjectedFaultQueue = empty_queue [], iewStageInjectedFaultQueue = empty_queue [], faultCnt = 0\<rparr>"

text \<open>Three faults for one queue, in the order of their timing, in memory whose first field is a stale pointer.\<close>

definition three_faults :: string where
  "three_faults = ''PCInjectedFault Inst:5 Flip:3 0 all 1 0 '' @ ''PCInjectedFault Inst:6 Flip:3 0 all 1 0 ''
     @ ''PCInjectedFault Inst:7 Flip:3 0 all 1 0''"

definition stale_memory :: "nat \<Rightarrow> InjectedFault" where
  "stale_memory i = zero_fault\<lparr>f_nxt := Some 99\<rparr>"

lemma stale_link_followed:
  "getFromFile stale_memory (open_stream three_faults) (reset_queues queues_sample) = Inl Bad_pointer"
  by code_simp

lemma same_file_loads:
  "case getFromFile (\<lambda>_. zero_fault) (open_stream three_faults) (reset_queues queues_sample) of
     Inl _ \<Rightarrow> False | Inr q \<Rightarrow> length (fi_heap q) = 3"
  by code_simp

text \<open>
  (C6) Reading the fault file, for every content of the file: when the memory of new objects has \<open>NULL\<close> in
  the two links that no constructor sets, the loop ends. Either a parser or constructor aborted (an
  assertion, \<open>substr\<close> beyond the end, an integer never read), or the four queues are well linked and sorted by
  timing, every queued fault sits in the queue of its class with the type, timing kind and value kind
  of that class, and faults loaded before are unchanged. The condition on the memory is needed: there is a
  file of three valid descriptions that is read completely from such memory, and that makes the third
  insertion follow a stale pointer from other memory.
\<close>

theorem getFromFile_safe:
  shows "(loaded q \<longrightarrow> null_links alloc \<longrightarrow>
     (\<exists>e\<in>{AssertFail, Out_of_range, Uninitialised}. getFromFile alloc os q = Inl e) \<or>
     (\<exists>q' L. getFromFile alloc os q = Inr q' \<and> queues_wf L q' \<and> queues_sorted L q' \<and> grown q q')) \<and>
   (\<exists>txt q0 q1 stale. loaded q0 \<and> getFromFile (\<lambda>_. zero_fault) (open_stream txt) q0 = Inr q1 \<and>
     getFromFile stale (open_stream txt) q0 = Inl Bad_pointer)"
proof -
  have "case getFromFile alloc os q of Inl e \<Rightarrow> load_error e | Inr q' \<Rightarrow> loaded q' \<and> grown q q'"
    if "loaded q" "null_links alloc"
    unfolding getFromFile_def by (rule file_loop_ok [OF that]) (simp add: stream_len_def)
  then have "loaded q \<longrightarrow> null_links alloc \<longrightarrow>
     (\<exists>e\<in>{AssertFail, Out_of_range, Uninitialised}. getFromFile alloc os q = Inl e) \<or>
     (\<exists>q' L. getFromFile alloc os q = Inr q' \<and> queues_wf L q' \<and> queues_sorted L q' \<and> grown q q')"
    by (cases "getFromFile alloc os q") (auto simp: loaded_def loaded_as_def load_error_def)
  moreover obtain q1 where "getFromFile (\<lambda>_. zero_fault) (open_stream three_faults) (reset_queues queues_sample) = Inr q1"
    using same_file_loads by (auto split: sum.splits)
  moreover have "loaded (reset_queues queues_sample)" using loaded_empty by (auto simp: loaded_def)
  ultimately show ?thesis using stale_link_followed by blast
qed

lemma sample_file_loads:
  "case getFromFile (\<lambda>_. zero_fault) (open_stream sample_file) (reset_queues queues_sample) of
     Inl _ \<Rightarrow> False | Inr q \<Rightarrow> q_head (mainInjectedFaultQueue q) = Some 1 \<and> q_tail (mainInjectedFaultQueue q) = Some 0"
  by code_simp

theorem getFromFile_safe_witness:
  "\<exists>q' L. getFromFile (\<lambda>_. zero_fault) (open_stream sample_file) (reset_queues queues_sample) = Inr q' \<and>
      q_head (mainInjectedFaultQueue q') = Some 1 \<and> q_tail (mainInjectedFaultQueue q') = Some 0 \<and>
      queues_wf L q' \<and> queues_sorted L q' \<and> grown (reset_queues queues_sample) q'"
proof -
  obtain q' where q': "getFromFile (\<lambda>_. zero_fault) (open_stream sample_file) (reset_queues queues_sample) = Inr q'"
      "q_head (mainInjectedFaultQueue q') = Some 1" "q_tail (mainInjectedFaultQueue q') = Some 0"
    using sample_file_loads by (auto split: sum.splits)
  have "loaded (reset_queues queues_sample)" using loaded_empty by (auto simp: loaded_def)
  moreover have "null_links (\<lambda>_. zero_fault)" by (simp add: null_links_def zero_fault_def)
  ultimately show ?thesis
    using getFromFile_safe [of "reset_queues queues_sample" "\<lambda>_. zero_fault" "open_stream sample_file"] q' by auto
qed

end
