(* ===== verification/Fault_File.thy ===== *)
theory Fault_File
  imports Fi_Loading
begin

text \<open>
  The text format of the fault file, as a printer of fault descriptions, and the proof that
  \<open>Fi_System::getFromFile\<close> reads every printed file back: each description becomes one object
  with the printed fields, in the queue of its class when the class has one. White space after the last word makes the
  loop run once more on a failed stream, and the constructor aborts.
\<close>

section \<open>Descriptions of faults\<close>

datatype when_spec = Inst nat | Tick nat | VAddr nat

datatype what_spec = Immd nat | Mask nat | Flip nat | All0 | All1

datatype register_kind = RInt | RFloat | RMisc

text \<open>What follows the fields common to all faults, by class.\<close>

datatype class_spec =
    Fetch
  | OpCode
  | IEW
  | PC
  | Mem nat nat
  | Reg register_kind nat
  | Dec bool nat nat
  | Cpu
  | O3Cpu
  | Plain

record fault_spec =
  d_when :: when_spec
  d_what :: what_spec
  d_thread :: string
  d_where :: string
  d_occ :: nat
  d_tc :: nat
  d_class :: class_spec

fun show_when :: "when_spec \<Rightarrow> string" where
  "show_when (Inst n) = ''Inst:'' @ show_nat n"
| "show_when (Tick n) = ''Tick:'' @ show_nat n"
| "show_when (VAddr n) = ''Addr:'' @ show_nat n"

fun show_what :: "what_spec \<Rightarrow> string" where
  "show_what (Immd n) = ''Immd:'' @ show_nat n"
| "show_what (Mask n) = ''Mask:'' @ show_nat n"
| "show_what (Flip n) = ''Flip:'' @ show_nat n"
| "show_what All0 = ''All0''"
| "show_what All1 = ''All1''"

fun show_kind :: "register_kind \<Rightarrow> string" where
  "show_kind RInt = ''int''"
| "show_kind RFloat = ''float''"
| "show_kind RMisc = ''misc''"

fun class_name :: "class_spec \<Rightarrow> string" where
  "class_name Fetch = ''GeneralFetchInjectedFault''"
| "class_name OpCode = ''OpCodeInjectedFault''"
| "class_name IEW = ''IEWStageInjectedFault''"
| "class_name PC = ''PCInjectedFault''"
| "class_name (Mem _ _) = ''MemoryInjectedFault''"
| "class_name (Reg _ _) = ''RegisterInjectedFault''"
| "class_name (Dec _ _ _) = ''RegisterDecodingInjectedFault''"
| "class_name Cpu = ''CPUInjectedFault''"
| "class_name O3Cpu = ''O3CPUInjectedFault''"
| "class_name Plain = ''InjectedFault''"

fun class_words :: "class_spec \<Rightarrow> string list" where
  "class_words (Mem off r) = [show_nat off, show_nat r]"
| "class_words (Reg k r) = [show_kind k, show_nat r]"
| "class_words (Dec src a b) = [(if src then ''Src:'' else ''Dst:'') @ show_nat a @ '':'' @ show_nat b]"
| "class_words _ = []"

text \<open>
  The words common to all classes; a fault of the base class has no hardware thread, and none of the classes
  reads the field REL that \<open>src/src/fi/description\<close> documents.
\<close>

definition common_words :: "fault_spec \<Rightarrow> string list" where
  "common_words d = [show_when (d_when d), show_what (d_what d), d_thread d, d_where d, show_nat (d_occ d)] @
     (if d_class d = Plain then [] else [show_nat (d_tc d)])"

definition words :: "fault_spec \<Rightarrow> string list" where
  "words d = class_name (d_class d) # common_words d @ class_words (d_class d)"

section \<open>The object a description stands for\<close>

fun when_fields :: "when_spec \<Rightarrow> InjectedFault \<Rightarrow> InjectedFault" where
  "when_fields (Inst n) f = f\<lparr>f_timingType := InstructionTiming, f_timing := of_nat n\<rparr>"
| "when_fields (Tick n) f = f\<lparr>f_timingType := TickTiming, f_timing := of_nat n\<rparr>"
| "when_fields (VAddr n) f = f\<lparr>f_timingType := VirtualAddrTiming, f_timing := of_nat n\<rparr>"

fun what_fields :: "what_spec \<Rightarrow> InjectedFault \<Rightarrow> InjectedFault" where
  "what_fields (Immd n) f = f\<lparr>f_valueType := ImmediateValue, f_value := of_nat n\<rparr>"
| "what_fields (Mask n) f = f\<lparr>f_valueType := MaskValue, f_value := of_nat n\<rparr>"
| "what_fields (Flip n) f = f\<lparr>f_valueType := FlipBit, f_value := of_nat n\<rparr>"
| "what_fields All0 f = f\<lparr>f_valueType := AllValue, f_value := 0\<rparr>"
| "what_fields All1 f = f\<lparr>f_valueType := AllValue, f_value := 1\<rparr>"

fun kind_code :: "register_kind \<Rightarrow> int" where
  "kind_code RInt = IntegerRegisterFault"
| "kind_code RFloat = FloatRegisterFault"
| "kind_code RMisc = MiscRegisterFault"

fun class_of :: "class_spec \<Rightarrow> fault_class" where
  "class_of Fetch = CGeneralFetchInjectedFault"
| "class_of OpCode = COpCodeInjectedFault"
| "class_of IEW = CIEWStageInjectedFault"
| "class_of PC = CPCInjectedFault"
| "class_of (Mem _ _) = CMemoryInjectedFault"
| "class_of (Reg _ _) = CRegisterInjectedFault"
| "class_of (Dec _ _ _) = CRegisterDecodingInjectedFault"
| "class_of Cpu = CCPUInjectedFault"
| "class_of O3Cpu = CO3CPUInjectedFault"
| "class_of Plain = CInjectedFault"

fun class_fields :: "class_spec \<Rightarrow> InjectedFault \<Rightarrow> InjectedFault" where
  "class_fields (Mem off r) f = f\<lparr>f_offset := int off, f_register := int r\<rparr>"
| "class_fields (Reg k r) f = f\<lparr>f_regType := kind_code k, f_register := int r\<rparr>"
| "class_fields (Dec src a b) f =
     f\<lparr>f_srcOrDst := (if src then SrcRegisterInjectedFault else DstRegisterInjectedFault),
       f_regToChange := int a, f_changeToReg := int b\<rparr>"
| "class_fields _ f = f"

text \<open>The queue of a class; objects of the three base classes are created and put into none.\<close>

fun queue_of :: "class_spec \<Rightarrow> queue_id option" where
  "queue_of Fetch = Some FetchQ"
| "queue_of OpCode = Some FetchQ"
| "queue_of IEW = Some IEWQ"
| "queue_of PC = Some MainQ"
| "queue_of (Mem _ _) = Some MainQ"
| "queue_of (Reg _ _) = Some MainQ"
| "queue_of (Dec _ _ _) = Some DecodeQ"
| "queue_of _ = None"

definition common_of :: "fault_spec \<Rightarrow> u64 \<Rightarrow> InjectedFault \<Rightarrow> InjectedFault" where
  "common_of d n raw = (when_fields (d_when d) (what_fields (d_what d)
     (raw\<lparr>f_class := class_of (d_class d), f_thread := d_thread d, f_when := show_when (d_when d),
          f_where := d_where d, f_what := show_what (d_what d)\<rparr>)))
     \<lparr>f_faultID := n, f_occurrence := int (d_occ d), f_manifested := False,
      f_tcontext := (if d_class d = Plain then f_tcontext raw else int (d_tc d))\<rparr>"

definition fault_of :: "fault_spec \<Rightarrow> u64 \<Rightarrow> InjectedFault \<Rightarrow> InjectedFault" where
  "fault_of d n raw = (class_fields (d_class d) (common_of d n raw))
     \<lparr>f_faultType := (if queue_of (d_class d) = None then f_faultType raw else type_of_class (class_of (d_class d)))\<rparr>"

section \<open>Descriptions that can be printed\<close>

definition is_word :: "string \<Rightarrow> bool" where
  "is_word s \<longleftrightarrow> s \<noteq> [] \<and> list_all (\<lambda>c. \<not> isspace c) s"

fun when_fits :: "when_spec \<Rightarrow> bool" where
  "when_fits (Inst n) \<longleftrightarrow> n < 2 ^ 63"
| "when_fits (Tick n) \<longleftrightarrow> n < 2 ^ 63"
| "when_fits (VAddr n) \<longleftrightarrow> n < 2 ^ 63"

fun what_fits :: "what_spec \<Rightarrow> bool" where
  "what_fits (Immd n) \<longleftrightarrow> n < 2 ^ 64"
| "what_fits (Mask n) \<longleftrightarrow> n < 2 ^ 64"
| "what_fits (Flip n) \<longleftrightarrow> n < 2 ^ 64"
| "what_fits _ \<longleftrightarrow> True"

fun class_ok :: "class_spec \<Rightarrow> bool" where
  "class_ok (Mem off r) \<longleftrightarrow> off < 2 ^ 31 \<and> r < 2 ^ 31"
| "class_ok (Reg k r) \<longleftrightarrow> r < 2 ^ 31"
| "class_ok (Dec src a b) \<longleftrightarrow> a < 2 ^ 31 \<and> b < 2 ^ 31"
| "class_ok _ \<longleftrightarrow> True"

definition spec_ok :: "fault_spec \<Rightarrow> bool" where
  "spec_ok d \<longleftrightarrow> when_fits (d_when d) \<and> what_fits (d_what d) \<and> is_word (d_thread d) \<and> is_word (d_where d) \<and>
     d_occ d < 2 ^ 31 \<and> d_tc d < 2 ^ 31 \<and> class_ok (d_class d)"

section \<open>Words separated by white space\<close>

text \<open>
  A text is a list of words, each with the white space in front of it; only the first word may
  have none.
\<close>

definition render :: "(string \<times> string) list \<Rightarrow> string" where
  "render sw = concat (map (\<lambda>(s, w). s @ w) sw)"

fun wf_text :: "(string \<times> string) list \<Rightarrow> bool" where
  "wf_text [] \<longleftrightarrow> True"
| "wf_text ((s, w) # sw) \<longleftrightarrow> list_all isspace s \<and> is_word w \<and> (sw = [] \<or> fst (hd sw) \<noteq> []) \<and> wf_text sw"

definition stream_at :: "(string \<times> string) list \<Rightarrow> string \<Rightarrow> istream" where
  "stream_at sw tr = \<lparr>buf = render sw @ tr, eofbit = (render sw @ tr = []), failbit = False\<rparr>"

lemma stop_at_space:
  assumes "wf_text ((s, w) # sw)" "list_all isspace tr"
  shows "render sw @ tr = [] \<or> isspace (hd (render sw @ tr))"
proof (cases sw)
  case Nil
  then show ?thesis using assms(2) by (cases tr) (auto simp: render_def)
next
  case (Cons x xs)
  then show ?thesis using assms(1) by (cases x; cases "fst x") (auto simp: render_def)
qed

lemma takeWhile_word:
  assumes "list_all P w" "r = [] \<or> \<not> P (hd r)"
  shows "takeWhile P (w @ r) = w" "dropWhile P (w @ r) = r"
  using assms by (induction w) (cases r; auto)+

lemma sentry_word:
  assumes "list_all isspace s" "is_word w"
  shows "sentry \<lparr>buf = s @ w @ r, eofbit = False, failbit = False\<rparr> =
    (True, \<lparr>buf = w @ r, eofbit = False, failbit = False\<rparr>)"
proof -
  have "w @ r = [] \<or> \<not> isspace (hd (w @ r))" using assms(2) by (cases w) (auto simp: is_word_def)
  then have "dropWhile isspace (s @ w @ r) = w @ r" by (rule takeWhile_word(2) [OF assms(1)])
  then show ?thesis using assms(2) by (auto simp: sentry_def good_def Let_def is_word_def)
qed

lemma stream_at_Cons:
  assumes "wf_text ((s, w) # sw)"
  shows "stream_at ((s, w) # sw) tr = \<lparr>buf = s @ w @ render sw @ tr, eofbit = False, failbit = False\<rparr>"
  using assms by (auto simp: stream_at_def render_def is_word_def)

lemma sentry_at:
  assumes "wf_text ((s, w) # sw)"
  shows "sentry (stream_at ((s, w) # sw) tr) = (True, \<lparr>buf = w @ render sw @ tr, eofbit = False, failbit = False\<rparr>)"
  unfolding stream_at_Cons [OF assms] by (rule sentry_word) (use assms in auto)

lemma read_string_at:
  assumes "wf_text ((s, w) # sw)" "list_all isspace tr"
  shows "read_string (stream_at ((s, w) # sw) tr) = (Some w, stream_at sw tr)"
proof -
  have w: "list_all (\<lambda>c. \<not> isspace c) w" using assms(1) by (auto simp: is_word_def)
  have "render sw @ tr = [] \<or> \<not> \<not> isspace (hd (render sw @ tr))" using stop_at_space [OF assms] by simp
  from takeWhile_word [OF w this] show ?thesis
    unfolding read_string_def sentry_at [OF assms(1)] stream_at_def [of sw] by (simp del: dropWhile_eq_Nil_conv)
qed

lemma read_int_at:
  assumes "wf_text ((s, show_nat n) # sw)" "list_all isspace tr" "n < 2 ^ 31"
  shows "read_int (stream_at ((s, show_nat n) # sw) tr) = (Some (int n), stream_at sw tr)"
proof -
  have d: "list_all isdigit (show_nat n)" "digits_val 0 (show_nat n) = int n" "show_nat n \<noteq> []"
    using show_nat_props by auto
  have "render sw @ tr = [] \<or> \<not> isdigit (hd (render sw @ tr))"
    using stop_at_space [OF assms(1,2)] isdigit_not_space by blast
  from takeWhile_digits [OF d(1) this] show ?thesis
    using assms(3) d(2,3) unfolding read_int_def sentry_at [OF assms(1)] stream_at_def [of sw]
    by (simp add: split_sign_show_nat del: dropWhile_eq_Nil_conv)
qed

text \<open>Reading behind the last word: only white space is left, or the stream already failed.\<close>

lemma read_string_end:
  assumes "list_all isspace tr"
  shows "fst (read_string (stream_at [] tr)) = None" "\<not> good (snd (read_string (stream_at [] tr)))"
proof -
  have "dropWhile isspace tr = []" using assms by (simp add: list_all_iff)
  then show "fst (read_string (stream_at [] tr)) = None" "\<not> good (snd (read_string (stream_at [] tr)))"
    by (auto simp: read_string_def sentry_def stream_at_def render_def good_def Let_def)
qed

lemma read_failed:
  assumes "\<not> good os"
  shows "fst (read_string os) = None" "\<not> good (snd (read_string os))"
    "fst (read_int os) = None" "\<not> good (snd (read_int os))"
  using assms by (auto simp: read_string_def read_int_def sentry_def good_def)

section \<open>Parsing printed fields\<close>

lemma parseWhen_show: "when_fits x \<Longrightarrow> parseWhen (show_when x) f = Inr (when_fields x f)"
  by (cases x) (simp_all add: parseWhen_def substr_def setTiming_def strtoll_show_nat)

lemma parseWhat_show: "what_fits x \<Longrightarrow> parseWhat (show_what x) f = Inr (what_fields x f)"
  by (cases x) (simp_all add: parseWhat_def substr_def setValue_def setValue_int_def strtoul_show_nat)

lemma setRegType_show: "setRegType (show_kind k) f = Inr (f\<lparr>f_regType := kind_code k\<rparr>)"
  by (cases k) (simp_all add: setRegType_def)

lemma find_colon: "list_all isdigit ds \<Longrightarrow> find_char (CHR '':'') (ds @ CHR '':'' # r) = Some (length ds)"
  by (induction ds) (auto simp: isdigit_def)

lemma parseRegDec_show:
  assumes "a < 2 ^ 31" "b < 2 ^ 31"
  shows "parseRegDec ((if src then ''Src:'' else ''Dst:'') @ show_nat a @ '':'' @ show_nat b) f =
    Inr (class_fields (Dec src a b) f)"
  using assms find_colon [of "show_nat a" "show_nat b"] show_nat_props [of a]
  by (cases src) (simp_all add: parseRegDec_def substr_def setRegPair_def Let_def atoi_show_nat)

section \<open>Reading one fault\<close>

lemma wf_text_tl: "wf_text (x # sw) \<Longrightarrow> wf_text sw"
  by (cases x) simp

lemma InjectedFault_ctor_show:
  assumes "wf_text ((a, show_when x) # (b, show_what y) # (c, th) # (e, wh) # (g, show_nat occ) # sw)"
    "list_all isspace tr" "when_fits x" "what_fits y" "occ < 2 ^ 31"
  shows "InjectedFault_ctor raw n
      (stream_at ((a, show_when x) # (b, show_what y) # (c, th) # (e, wh) # (g, show_nat occ) # sw) tr) =
    Inr ((when_fields x (what_fields y (raw\<lparr>f_thread := th, f_when := show_when x, f_where := wh,
        f_what := show_what y\<rparr>)))\<lparr>f_faultID := n, f_occurrence := int occ, f_manifested := False\<rparr>,
      n + 1, stream_at sw tr)"
proof -
  note t1 = assms(1) note t2 = wf_text_tl [OF t1] note t3 = wf_text_tl [OF t2]
  note t4 = wf_text_tl [OF t3] note t5 = wf_text_tl [OF t4]
  show ?thesis
    unfolding InjectedFault_ctor_def read_string_at [OF t1 assms(2)] read_string_at [OF t2 assms(2)]
      read_string_at [OF t3 assms(2)] read_string_at [OF t4 assms(2)] read_int_at [OF t5 assms(2,5)]
      Let_def case_prod_conv
    by (simp add: parseWhat_show [OF assms(4)] parseWhen_show [OF assms(3)] str_or_empty_def init_int_def)
qed

lemma CPU_ctors_show:
  assumes "map snd sw1 = common_words d" "wf_text (sw1 @ sw)" "list_all isspace tr" "spec_ok d" "d_class d \<noteq> Plain"
  shows "CPUInjectedFault_ctor (raw\<lparr>f_class := class_of (d_class d)\<rparr>) n (stream_at (sw1 @ sw) tr) =
      Inr (common_of d n raw, n + 1, stream_at sw tr)"
    "O3CPUInjectedFault_ctor (raw\<lparr>f_class := class_of (d_class d)\<rparr>) n (stream_at (sw1 @ sw) tr) =
      Inr (common_of d n raw, n + 1, stream_at sw tr)"
proof -
  obtain s1 s2 s3 s4 s5 s6 where sw1: "sw1 = [(s1, show_when (d_when d)), (s2, show_what (d_what d)),
      (s3, d_thread d), (s4, d_where d), (s5, show_nat (d_occ d)), (s6, show_nat (d_tc d))]"
    using assms(1,5) by (auto simp: common_words_def map_eq_Cons_conv)
  have fits: "when_fits (d_when d)" "what_fits (d_what d)" "d_occ d < 2 ^ 31" "d_tc d < 2 ^ 31"
    using assms(4) by (auto simp: spec_ok_def)
  have t: "wf_text ((s1, show_when (d_when d)) # (s2, show_what (d_what d)) # (s3, d_thread d) #
      (s4, d_where d) # (s5, show_nat (d_occ d)) # (s6, show_nat (d_tc d)) # sw)"
    using assms(2) by (simp add: sw1)
  have t6: "wf_text ((s6, show_nat (d_tc d)) # sw)" using t by (simp)
  show "CPUInjectedFault_ctor (raw\<lparr>f_class := class_of (d_class d)\<rparr>) n (stream_at (sw1 @ sw) tr) =
      Inr (common_of d n raw, n + 1, stream_at sw tr)"
    "O3CPUInjectedFault_ctor (raw\<lparr>f_class := class_of (d_class d)\<rparr>) n (stream_at (sw1 @ sw) tr) =
      Inr (common_of d n raw, n + 1, stream_at sw tr)"
    using InjectedFault_ctor_show [OF t assms(3) fits(1-3)] read_int_at [OF t6 assms(3) fits(4)]
    by (simp_all add: sw1 CPUInjectedFault_ctor_def O3CPUInjectedFault_ctor_def init_int_def common_of_def assms(5))
qed

lemma plain_tcontext: "f_tcontext (when_fields x (what_fields y f)) = f_tcontext f"
  by (cases x; cases y; simp)

lemma Plain_ctor_show:
  assumes "map snd sw1 = common_words d" "wf_text (sw1 @ sw)" "list_all isspace tr" "spec_ok d" "d_class d = Plain"
  shows "InjectedFault_ctor (raw\<lparr>f_class := class_of (d_class d)\<rparr>) n (stream_at (sw1 @ sw) tr) =
      Inr (common_of d n raw, n + 1, stream_at sw tr)"
proof -
  obtain s1 s2 s3 s4 s5 where sw1: "sw1 = [(s1, show_when (d_when d)), (s2, show_what (d_what d)),
      (s3, d_thread d), (s4, d_where d), (s5, show_nat (d_occ d))]"
    using assms(1,5) by (auto simp: common_words_def map_eq_Cons_conv)
  have fits: "when_fits (d_when d)" "what_fits (d_what d)" "d_occ d < 2 ^ 31"
    using assms(4) by (auto simp: spec_ok_def)
  have t: "wf_text ((s1, show_when (d_when d)) # (s2, show_what (d_what d)) # (s3, d_thread d) #
      (s4, d_where d) # (s5, show_nat (d_occ d)) # sw)"
    using assms(2) by (simp add: sw1)
  have "f\<lparr>f_faultID := a, f_occurrence := b, f_manifested := False\<rparr> =
      f\<lparr>f_faultID := a, f_occurrence := b, f_manifested := False, f_tcontext := f_tcontext f\<rparr>" for f :: InjectedFault and a b
    by simp
  then show ?thesis
    using InjectedFault_ctor_show [OF t assms(3) fits] assms(5) by (simp add: sw1 common_of_def plain_tcontext)
qed

lemma fault_of_wf:
  assumes "queue_of (d_class d) = Some qid"
  shows "fault_wf qid (fault_of d n raw)"
proof -
  let ?f = "raw\<lparr>f_class := class_of (d_class d), f_thread := d_thread d, f_when := show_when (d_when d),
          f_where := d_where d, f_what := show_what (d_what d)\<rparr>"
  have "value_ok (what_fields y f)" "f_class (what_fields y f) = f_class f" for y f
    by (cases y; simp add: value_ok_def)+
  moreover have "timing_ok (when_fields x f)" "value_ok (when_fields x f) = value_ok f"
    "f_class (when_fields x f) = f_class f" for x f
    by (cases x; simp add: timing_ok_def value_ok_def)+
  ultimately have c: "timing_ok (common_of d n raw)" "value_ok (common_of d n raw)"
      "f_class (common_of d n raw) = class_of (d_class d)"
    by (simp_all add: common_of_def timing_ok_def value_ok_def)
  have k: "timing_ok (class_fields k f) = timing_ok f" "value_ok (class_fields k f) = value_ok f"
      "f_class (class_fields k f) = f_class f" for k f
    by (cases k; simp add: timing_ok_def value_ok_def)+
  show ?thesis
    unfolding fault_of_def
  proof (rule fault_wf_make)
    show "class_fits qid (f_class (class_fields (d_class d) (common_of d n raw)))"
      using assms by (cases "d_class d") (auto simp add: k c class_fits_def)
  qed (use assms in \<open>simp_all add: k c\<close>)
qed

lemma class_fields_links [simp]: "f_nxt (class_fields k f) = f_nxt f" "f_prv (class_fields k f) = f_prv f"
  by (cases k; simp)+

lemma when_fields_links [simp]: "f_nxt (when_fields x f) = f_nxt f" "f_prv (when_fields x f) = f_prv f"
  by (cases x; simp)+

lemma what_fields_links [simp]: "f_nxt (what_fields y f) = f_nxt f" "f_prv (what_fields y f) = f_prv f"
  by (cases y; simp)+

lemma fault_of_links [simp]: "f_nxt (fault_of d n raw) = f_nxt raw" "f_prv (fault_of d n raw) = f_prv raw"
  "f_nxt (common_of d n raw) = f_nxt raw" "f_prv (common_of d n raw) = f_prv raw"
  by (simp_all add: fault_of_def common_of_def)

lemma common_of_faultType: "f_faultType (common_of d n raw) = f_faultType raw"
proof -
  have "f_faultType (when_fields x (what_fields y f)) = f_faultType f" for x y f by (cases x; cases y; simp)
  then show ?thesis by (simp add: common_of_def)
qed

lemma with_new_faultType: "with_new qid (f\<lparr>f_faultType := t\<rparr>) s L = with_new qid f s L"
proof -
  have "timing_at (fi_heap s @ [f\<lparr>f_faultType := t\<rparr>]) = timing_at (fi_heap s @ [f])"
    by (rule ext) (auto simp: nth_append nth_Cons split: nat.split)
  then show ?thesis by (simp add: with_new_def)
qed

text \<open>
  \<open>added d raw L q q'\<close>: \<open>q'\<close> is \<open>q\<close> with one more object, built from description \<open>d\<close>, in its queue.
\<close>

definition extended :: "fault_spec \<Rightarrow> InjectedFault \<Rightarrow> Fi_Queues \<Rightarrow> (queue_id \<Rightarrow> nat list) \<Rightarrow> queue_id \<Rightarrow> nat list" where
  "extended d raw q L = (case queue_of (d_class d) of None \<Rightarrow> L
     | Some qid \<Rightarrow> with_new qid (fault_of d (faultCnt q) raw) q L)"

definition added :: "fault_spec \<Rightarrow> InjectedFault \<Rightarrow> (queue_id \<Rightarrow> nat list) \<Rightarrow> Fi_Queues \<Rightarrow> Fi_Queues \<Rightarrow> bool" where
  "added d raw L q q' \<longleftrightarrow> loaded_as (extended d raw q L) q' \<and> grown q q' \<and>
     core (fi_heap q' ! length (fi_heap q)) = core (fault_of d (faultCnt q) raw) \<and>
     length (fi_heap q') = Suc (length (fi_heap q)) \<and> faultCnt q' = faultCnt q + 1"

text \<open>What the memory of a new object has to satisfy.\<close>

definition raw_ok :: "fault_spec \<Rightarrow> InjectedFault \<Rightarrow> (queue_id \<Rightarrow> nat list) \<Rightarrow> bool" where
  "raw_ok d raw L \<longleftrightarrow> (\<forall>qid. queue_of (d_class d) = Some qid \<longrightarrow> link_ok L qid raw)"

lemma link_ok_cong: "f_nxt f = f_nxt g \<Longrightarrow> f_prv f = f_prv g \<Longrightarrow> link_ok L qid f = link_ok L qid g"
  by (simp add: link_ok_def)

lemma insert_added:
  assumes "loaded_as L q" "raw_ok d raw L" "f = fault_of d (faultCnt q) raw" "queue_of (d_class d) = Some qid"
  shows "\<exists>q'. (case place_object (f, faultCnt q + 1, os) q of
      (a, s, os) \<Rightarrow> bindE (insert_into qid a s) (\<lambda>s. Inr (a, s, os))) = Inr (length (fi_heap q), q', os) \<and>
    added d raw L q q'"
proof -
  have f: "link_ok L qid f" "fault_wf qid f"
    using assms(2-4) link_ok_cong [of f raw L qid] by (simp_all add: fault_of_wf raw_ok_def)
  from new_queued_as [OF assms(1) f, of "faultCnt q + 1"] show ?thesis
    using assms(3,4) by (auto simp: place_object_def added_def extended_def)
qed

lemma place_added:
  assumes "loaded_as L q" "queue_of (d_class d) = None"
  shows "added d raw L q (q\<lparr>fi_heap := fi_heap q @ [fault_of d (faultCnt q) raw], faultCnt := faultCnt q + 1\<rparr>)"
  using new_unqueued_as [OF assms(1)] assms(2) by (auto simp: added_def extended_def)

definition read_back where
  "read_back d raw L q r os' \<longleftrightarrow> (\<exists>q' a. r = Inr (a, q', os') \<and> added d raw L q q')"

lemma new_show:
  assumes L: "loaded_as L q" "raw_ok d raw L" and d: "spec_ok d"
    and t: "map snd sw1 = common_words d" "map snd sw2 = class_words (d_class d)" "wf_text (sw1 @ sw2 @ sw)"
      "list_all isspace tr"
  shows "d_class d = Fetch \<Longrightarrow>
      read_back d raw L q (new_GeneralFetchInjectedFault raw (stream_at (sw1 @ sw2 @ sw) tr) q) (stream_at sw tr)"
    "d_class d = IEW \<Longrightarrow>
      read_back d raw L q (new_IEWStageInjectedFault raw (stream_at (sw1 @ sw2 @ sw) tr) q) (stream_at sw tr)"
    "d_class d = OpCode \<Longrightarrow>
      read_back d raw L q (new_OpCodeInjectedFault raw (stream_at (sw1 @ sw2 @ sw) tr) q) (stream_at sw tr)"
    "d_class d = PC \<Longrightarrow>
      read_back d raw L q (new_PCInjectedFault raw (stream_at (sw1 @ sw2 @ sw) tr) q) (stream_at sw tr)"
proof -
  note c = CPU_ctors_show [OF t(1) t(3) t(4) d, of raw "faultCnt q"]
  have i: "\<exists>q'. (case place_object ((common_of d (faultCnt q) raw)\<lparr>f_faultType := ty\<rparr>, faultCnt q + 1, os) q of
      (a, s, os) \<Rightarrow> bindE (insert_into qid a s) (\<lambda>s. Inr (a, s, os))) = Inr (length (fi_heap q), q', os) \<and>
    added d raw L q q'"
    if "class_fields (d_class d) = id" "ty = type_of_class (class_of (d_class d))" "queue_of (d_class d) = Some qid"
    for qid os ty
    by (rule insert_added [OF L]) (use that in \<open>simp_all add: fault_of_def\<close>)
  have id: "class_fields Fetch = id" "class_fields IEW = id" "class_fields OpCode = id" "class_fields PC = id"
    by auto
  show "d_class d = Fetch \<Longrightarrow>
      read_back d raw L q (new_GeneralFetchInjectedFault raw (stream_at (sw1 @ sw2 @ sw) tr) q) (stream_at sw tr)"
    using i [of GeneralFetchInjectedFault FetchQ "stream_at sw tr"] c(2) t(2)
    by (auto simp: new_GeneralFetchInjectedFault_def read_back_def type_of_class_def id)
  show "d_class d = IEW \<Longrightarrow>
      read_back d raw L q (new_IEWStageInjectedFault raw (stream_at (sw1 @ sw2 @ sw) tr) q) (stream_at sw tr)"
    using i [of ExecutionInjectedFault IEWQ "stream_at sw tr"] c(2) t(2)
    by (auto simp: new_IEWStageInjectedFault_def read_back_def type_of_class_def id)
  show "d_class d = OpCode \<Longrightarrow>
      read_back d raw L q (new_OpCodeInjectedFault raw (stream_at (sw1 @ sw2 @ sw) tr) q) (stream_at sw tr)"
    using i [of OpCodeInjectedFault FetchQ "stream_at sw tr"] c(2) t(2)
    by (auto simp: new_OpCodeInjectedFault_def read_back_def type_of_class_def id)
  show "d_class d = PC \<Longrightarrow>
      read_back d raw L q (new_PCInjectedFault raw (stream_at (sw1 @ sw2 @ sw) tr) q) (stream_at sw tr)"
    using i [of PCInjectedFault MainQ "stream_at sw tr"] c(1) t(2)
    by (auto simp: new_PCInjectedFault_def read_back_def type_of_class_def id)
qed

lemma new_show_fields:
  assumes L: "loaded_as L q" "raw_ok d raw L" and d: "spec_ok d"
    and t: "map snd sw1 = common_words d" "map snd sw2 = class_words (d_class d)" "wf_text (sw1 @ sw2 @ sw)"
      "list_all isspace tr"
  shows "d_class d = Mem off r \<Longrightarrow>
      read_back d raw L q (new_MemoryInjectedFault raw (stream_at (sw1 @ sw2 @ sw) tr) q) (stream_at sw tr)"
    "d_class d = Reg k r \<Longrightarrow>
      read_back d raw L q (new_RegisterInjectedFault raw (stream_at (sw1 @ sw2 @ sw) tr) q) (stream_at sw tr)"
proof -
  note c = CPU_ctors_show [OF t(1) t(3) t(4) d, of raw "faultCnt q"]
  have t2: "wf_text (sw2 @ sw)" using t(3) by (induction sw1) (auto intro: wf_text_tl)
  note i = insert_added [OF L]
  show "read_back d raw L q (new_MemoryInjectedFault raw (stream_at (sw1 @ sw2 @ sw) tr) q) (stream_at sw tr)"
    if k: "d_class d = Mem off r"
  proof -
    obtain a b where sw2: "sw2 = [(a, show_nat off), (b, show_nat r)]" using t(2) k by (auto simp: map_eq_Cons_conv)
    have w: "wf_text ((a, show_nat off) # (b, show_nat r) # sw)" using t2 by (simp add: sw2)
    have "off < 2 ^ 31" "r < 2 ^ 31" using d k by (simp_all add: spec_ok_def)
    note r = read_int_at [OF w t(4) this(1)] read_int_at [OF wf_text_tl [OF w] t(4) this(2)]
    have f: "(common_of d (faultCnt q) raw)\<lparr>f_offset := int off, f_register := int r, f_faultType := MemoryInjectedFault\<rparr>
        = fault_of d (faultCnt q) raw"
      using k by (simp add: fault_of_def type_of_class_def)
    show ?thesis
      using c(1) r i [OF f, of MainQ "stream_at sw tr"] k
      by (auto simp: new_MemoryInjectedFault_def read_back_def sw2 init_int_def)
  qed
  show "read_back d raw L q (new_RegisterInjectedFault raw (stream_at (sw1 @ sw2 @ sw) tr) q) (stream_at sw tr)"
    if k: "d_class d = Reg k r"
  proof -
    obtain a b where sw2: "sw2 = [(a, show_kind k), (b, show_nat r)]" using t(2) k by (auto simp: map_eq_Cons_conv)
    have w: "wf_text ((a, show_kind k) # (b, show_nat r) # sw)" using t2 by (simp add: sw2)
    have "r < 2 ^ 31" using d k by (simp add: spec_ok_def)
    note r = read_string_at [OF w t(4)] read_int_at [OF wf_text_tl [OF w] t(4) this]
    have f: "(common_of d (faultCnt q) raw)\<lparr>f_faultType := RegisterInjectedFault, f_regType := kind_code k,
        f_register := int r\<rparr> = fault_of d (faultCnt q) raw"
      using k by (simp add: fault_of_def type_of_class_def)
    show ?thesis
      using c(1) r i [OF f, of MainQ "stream_at sw tr"] k
      by (auto simp: new_RegisterInjectedFault_def read_back_def sw2 init_int_def setRegType_show str_or_empty_def)
  qed
qed

lemma new_show_decode:
  assumes L: "loaded_as L q" "raw_ok d raw L" and d: "spec_ok d"
    and t: "map snd sw1 = common_words d" "map snd sw2 = class_words (d_class d)" "wf_text (sw1 @ sw2 @ sw)"
      "list_all isspace tr" and k: "d_class d = Dec src a b"
  shows "read_back d raw L q (new_RegisterDecodingInjectedFault raw (stream_at (sw1 @ sw2 @ sw) tr) q) (stream_at sw tr)"
proof -
  note c = CPU_ctors_show(2) [OF t(1) t(3) t(4) d, of raw "faultCnt q"]
  have t2: "wf_text (sw2 @ sw)" using t(3) by (induction sw1) (auto intro: wf_text_tl)
  let ?w = "(if src then ''Src:'' else ''Dst:'') @ show_nat a @ '':'' @ show_nat b"
  obtain x where sw2: "sw2 = [(x, ?w)]" using t(2) k by (auto simp: map_eq_Cons_conv)
  have r: "read_string (stream_at (sw2 @ sw) tr) = (Some ?w, stream_at sw tr)"
    using read_string_at [of x ?w sw tr] t2 t(4) by (simp add: sw2)
  let ?f = "class_fields (Dec src a b) (common_of d (faultCnt q) raw)"
  have p: "parseRegDec ?w (common_of d (faultCnt q) raw) = Inr ?f"
    by (rule parseRegDec_show) (use d k in \<open>simp_all add: spec_ok_def\<close>)
  have f: "?f\<lparr>f_faultType := RegisterDecodingInjectedFault\<rparr> = fault_of d (faultCnt q) raw"
    using k by (simp add: fault_of_def type_of_class_def)
  have "link_ok L DecodeQ ?f" "fault_wf DecodeQ (?f\<lparr>f_faultType := RegisterDecodingInjectedFault\<rparr>)"
    using L(2) link_ok_cong [of ?f raw L DecodeQ] fault_of_wf [of d DecodeQ "faultCnt q" raw] k f by (simp_all add: raw_ok_def)
  from new_typed_after [OF L(1) this, of "faultCnt q + 1"] show ?thesis
    unfolding new_RegisterDecodingInjectedFault_def read_back_def added_def extended_def
    using c r p k f with_new_faultType [where f = ?f and t = RegisterDecodingInjectedFault and s = q and L = L
        and qid = DecodeQ]
    by (auto simp: place_object_def str_or_empty_def)
qed

lemma new_show_unqueued:
  assumes L: "loaded_as L q" and d: "spec_ok d"
    and t: "map snd sw1 = common_words d" "map snd sw2 = class_words (d_class d)" "wf_text (sw1 @ sw2 @ sw)"
      "list_all isspace tr"
  shows "d_class d = Cpu \<Longrightarrow>
      read_back d raw L q (new_CPUInjectedFault raw (stream_at (sw1 @ sw2 @ sw) tr) q) (stream_at sw tr)"
    "d_class d = O3Cpu \<Longrightarrow>
      read_back d raw L q (new_O3CPUInjectedFault raw (stream_at (sw1 @ sw2 @ sw) tr) q) (stream_at sw tr)"
    "d_class d = Plain \<Longrightarrow>
      read_back d raw L q (new_InjectedFault raw (stream_at (sw1 @ sw2 @ sw) tr) q) (stream_at sw tr)"
proof -
  have f: "fault_of d (faultCnt q) raw = common_of d (faultCnt q) raw" if "d_class d \<in> {Cpu, O3Cpu, Plain}"
    using that by (auto simp: fault_of_def common_of_faultType)
  note c = CPU_ctors_show [OF t(1) t(3) t(4) d, of raw "faultCnt q"] Plain_ctor_show [OF t(1) t(3) t(4) d, of raw "faultCnt q"]
  note p = place_added [OF L, of d raw]
  show "d_class d = Cpu \<Longrightarrow>
      read_back d raw L q (new_CPUInjectedFault raw (stream_at (sw1 @ sw2 @ sw) tr) q) (stream_at sw tr)"
    using c(1) p f t(2) by (auto simp: new_CPUInjectedFault_def read_back_def place_object_def)
  show "d_class d = O3Cpu \<Longrightarrow>
      read_back d raw L q (new_O3CPUInjectedFault raw (stream_at (sw1 @ sw2 @ sw) tr) q) (stream_at sw tr)"
    using c(2) p f t(2) by (auto simp: new_O3CPUInjectedFault_def read_back_def place_object_def)
  show "d_class d = Plain \<Longrightarrow>
      read_back d raw L q (new_InjectedFault raw (stream_at (sw1 @ sw2 @ sw) tr) q) (stream_at sw tr)"
    using c(3) p f t(2) by (auto simp: new_InjectedFault_def read_back_def place_object_def)
qed

lemma new_by_name_show:
  assumes "loaded_as L q" "raw_ok d raw L" "spec_ok d"
    "map snd sw1 = common_words d" "map snd sw2 = class_words (d_class d)" "wf_text (sw1 @ sw2 @ sw)"
    "list_all isspace tr"
  shows "\<exists>q'. new_by_name (class_name (d_class d)) raw (stream_at (sw1 @ sw2 @ sw) tr) q =
    Inr (q', stream_at sw tr) \<and> added d raw L q q'"
  by (cases "d_class d")
    (use new_show [OF assms] new_show_fields [OF assms] new_show_decode [OF assms]
        new_show_unqueued [OF assms(1,3-7), where raw = raw] in
      \<open>auto simp: new_by_name_def read_back_def\<close>)

section \<open>Reading the file\<close>

text \<open>
  \<open>all_read ds alloc L q q'\<close>: every description became an object, numbered in the order of the file, in
  the queue of its class; the queues hold nothing else new, are sorted and well linked.
\<close>

definition all_read :: "fault_spec list \<Rightarrow> (nat \<Rightarrow> InjectedFault) \<Rightarrow> (queue_id \<Rightarrow> nat list) \<Rightarrow> Fi_Queues \<Rightarrow>
  (queue_id \<Rightarrow> nat list) \<Rightarrow> Fi_Queues \<Rightarrow> bool" where
  "all_read ds alloc L q L' q' \<longleftrightarrow> queues_wf L' q' \<and> queues_sorted L' q' \<and> grown q q' \<and>
     length (fi_heap q') = length (fi_heap q) + length ds \<and>
     faultCnt q' = faultCnt q + of_nat (length ds) \<and>
     (\<forall>qid. set (L' qid) = set (L qid) \<union>
        {length (fi_heap q) + i | i. i < length ds \<and> queue_of (d_class (ds ! i)) = Some qid}) \<and>
     (\<forall>i < length ds. core (fi_heap q' ! (length (fi_heap q) + i)) =
        core (fault_of (ds ! i) (faultCnt q + of_nat i) (alloc (length (fi_heap q) + i))))"

lemma set_extended:
  "set (extended d raw q L qid) = (if queue_of (d_class d) = Some qid then {length (fi_heap q)} else {}) \<union> set (L qid)"
  by (auto simp: extended_def set_with_new split: option.splits)

lemma length_extended:
  "length (extended d raw q L qid) = (if queue_of (d_class d) = Some qid then 1 else 0) + length (L qid)"
  by (auto simp: extended_def with_new_def split: option.splits)

text \<open>
  The memory from which a list of faults can be loaded: its link fields are \<open>NULL\<close>, or no queue gets more than one
  fault. The first fault of a queue needs no condition, since \<open>insert\<close> sets both its links.
\<close>

definition memory_ok :: "(nat \<Rightarrow> InjectedFault) \<Rightarrow> (queue_id \<Rightarrow> nat list) \<Rightarrow> fault_spec list \<Rightarrow> bool" where
  "memory_ok alloc L ds \<longleftrightarrow> null_links alloc \<or>
     (\<forall>qid. length (L qid) + length (filter (\<lambda>d. queue_of (d_class d) = Some qid) ds) \<le> 1)"

lemma memory_ok_Cons:
  assumes "memory_ok alloc L (d # ds)"
  shows "raw_ok d (alloc i) L" "memory_ok alloc (extended d raw q L) ds"
proof -
  have "L qid = []" if "\<not> null_links alloc" "queue_of (d_class d) = Some qid" for qid
    using assms that unfolding memory_ok_def by (metis (mono_tags, lifting) add_leD1 filter.simps(2) le_zero_eq
        length_0_conv length_Cons not_less_eq_eq add_Suc_right One_nat_def)
  then show "raw_ok d (alloc i) L" using null_linksD [of alloc i] unfolding raw_ok_def link_ok_def by blast
  show "memory_ok alloc (extended d raw q L) ds"
    using assms unfolding memory_ok_def length_extended by (auto split: if_splits)
qed

lemma all_read_Nil: "loaded_as L q \<Longrightarrow> all_read [] alloc L q L q"
  by (simp add: all_read_def loaded_as_def)

lemma all_read_Cons:
  assumes a: "added d (alloc (length (fi_heap q))) L q q1"
    and r: "all_read ds alloc (extended d (alloc (length (fi_heap q))) q L) q1 L' q'"
  shows "all_read (d # ds) alloc L q L' q'"
proof -
  let ?n = "length (fi_heap q)"
  have q1: "length (fi_heap q1) = Suc ?n" "faultCnt q1 = faultCnt q + 1" "grown q q1"
      "core (fi_heap q1 ! ?n) = core (fault_of d (faultCnt q) (alloc ?n))"
    using a by (auto simp: added_def)
  have r': "queues_wf L' q'" "queues_sorted L' q'" "grown q1 q'" "length (fi_heap q') = Suc ?n + length ds"
      "faultCnt q' = faultCnt q + 1 + of_nat (length ds)"
      "\<And>i. i < length ds \<Longrightarrow> core (fi_heap q' ! (Suc ?n + i)) =
        core (fault_of (ds ! i) (faultCnt q + 1 + of_nat i) (alloc (Suc ?n + i)))"
    using r by (auto simp: all_read_def q1)
  have sets: "set (L' qid) = set (extended d (alloc ?n) q L qid) \<union>
      {Suc ?n + i | i. i < length ds \<and> queue_of (d_class (ds ! i)) = Some qid}" for qid
    using r by (simp add: all_read_def q1)
  have "set (L' qid) = set (L qid) \<union>
      {?n + i | i. i < length (d # ds) \<and> queue_of (d_class ((d # ds) ! i)) = Some qid}" for qid
    unfolding sets set_extended by (auto simp: less_Suc_eq_0_disj)
  moreover have "core (fi_heap q' ! (?n + i)) =
      core (fault_of ((d # ds) ! i) (faultCnt q + of_nat i) (alloc (?n + i)))" if "i < length (d # ds)" for i
  proof (cases i)
    case 0
    then show ?thesis using r'(3) q1(1,4) by (auto simp: grown_def)
  next
    case (Suc j)
    then show ?thesis using r'(6) [of j] that by (simp add: add.assoc)
  qed
  ultimately show ?thesis
    using r'(1,2,4,5) grown_trans [OF q1(3) r'(3)] by (simp add: all_read_def add.assoc)
qed

lemma good_stream_at: "good (stream_at ((s, w) # sw) tr)" if "wf_text ((s, w) # sw)"
  using stream_at_Cons [OF that] by (simp add: good_def)

lemma wf_text_append: "wf_text (sw1 @ sw2) \<Longrightarrow> wf_text sw2"
  by (induction sw1) (auto intro: wf_text_tl)

definition last_class :: "fault_spec list \<Rightarrow> string \<Rightarrow> string" where
  "last_class ds check = (if ds = [] then check else class_name (d_class (last ds)))"

lemma file_loop_show:
  assumes "loaded_as L q" "memory_ok alloc L ds" "list_all spec_ok ds"
    "wf_text sw" "map snd sw = concat (map words ds)" "list_all isspace tr"
  shows "\<exists>q' L'. file_loop alloc (n + length ds) check (stream_at sw tr) q =
      file_loop alloc n (last_class ds check) (stream_at [] tr) q' \<and> all_read ds alloc L q L' q'"
  using assms(1,3,4,5,2)
proof (induction ds arbitrary: sw q L check)
  case Nil
  then show ?case using all_read_Nil by (fastforce simp: last_class_def)
next
  case (Cons d ds)
  have "map snd sw = class_name (d_class d) # common_words d @ class_words (d_class d) @ concat (map words ds)"
    using Cons.prems(4) by (simp add: words_def [of d])
  then obtain x r where x': "sw = x # r" "snd x = class_name (d_class d)"
      "map snd r = common_words d @ class_words (d_class d) @ concat (map words ds)"
    by (cases sw) auto
  obtain sw1 r1 where r1: "r = sw1 @ r1" "map snd sw1 = common_words d"
      "map snd r1 = class_words (d_class d) @ concat (map words ds)"
    using x'(3) by (metis map_eq_append_conv)
  obtain sw2 sw3 where "r1 = sw2 @ sw3" "map snd sw2 = class_words (d_class d)" "map snd sw3 = concat (map words ds)"
    using r1(3) by (metis map_eq_append_conv)
  then have sw: "sw = x # sw1 @ sw2 @ sw3" "snd x = class_name (d_class d)"
      "map snd sw1 = common_words d" "map snd sw2 = class_words (d_class d)" "map snd sw3 = concat (map words ds)"
    using x' r1 by simp_all
  obtain s where x: "x = (s, class_name (d_class d))" using sw(2) by (cases x) auto
  have t: "wf_text ((s, class_name (d_class d)) # sw1 @ sw2 @ sw3)" using Cons.prems(3) sw(1) x by simp
  let ?raw = "alloc (length (fi_heap q))"
  obtain q1 where q1: "new_by_name (class_name (d_class d)) ?raw (stream_at (sw1 @ sw2 @ sw3) tr) q =
      Inr (q1, stream_at sw3 tr)" "added d ?raw L q q1"
    using new_by_name_show [OF Cons.prems(1) memory_ok_Cons(1) [OF Cons.prems(5)] _ sw(3,4) wf_text_tl [OF t] assms(6)]
      Cons.prems(2)
    by auto
  have "loaded_as (extended d ?raw q L) q1" "wf_text sw3"
    using q1(2) wf_text_append [of "x # sw1 @ sw2" sw3] Cons.prems(3) sw(1) by (auto simp: added_def)
  from Cons.IH [OF this(1) _ this(2) sw(5) memory_ok_Cons(2) [OF Cons.prems(5)], of "class_name (d_class d)"] Cons.prems(2)
  obtain q' L' where "file_loop alloc (n + length ds) (class_name (d_class d)) (stream_at sw3 tr) q1 =
      file_loop alloc n (last_class ds (class_name (d_class d))) (stream_at [] tr) q'"
      "all_read ds alloc (extended d ?raw q L) q1 L' q'"
    by auto
  moreover from this(2) have "all_read (d # ds) alloc L q L' q'" by (rule all_read_Cons [where alloc = alloc, OF q1(2)])
  ultimately show ?case
    using good_stream_at [OF t] read_string_at [OF t assms(6)] q1(1) sw(1) x
    by (auto simp: last_class_def)
qed

lemma render_length: "wf_text sw \<Longrightarrow> length sw \<le> length (render sw)"
proof (induction sw)
  case (Cons x sw)
  obtain s w where x: "x = (s, w)" by (cases x)
  then have "0 < length w" using Cons.prems by (simp add: is_word_def)
  then show ?case using Cons.IH Cons.prems x by (simp add: render_def del: length_greater_0_conv)
qed simp

lemma words_length: "length ds \<le> length (concat (map words ds))"
  by (induction ds) (auto simp: words_def)

lemma getFromFile_show:
  assumes "loaded_as L q" "memory_ok alloc L ds" "list_all spec_ok ds" "ds \<noteq> []"
    "wf_text sw" "map snd sw = concat (map words ds)" "list_all isspace tr"
  shows "\<exists>q' L' n. getFromFile alloc (open_stream (render sw @ tr)) q =
      file_loop alloc (Suc n) (class_name (d_class (last ds))) (stream_at [] tr) q' \<and> all_read ds alloc L q L' q'"
proof -
  have "length ds \<le> length (render sw)"
    using render_length [OF assms(5)] words_length [of ds] arg_cong [OF assms(6), of length] by simp
  then have "\<exists>n. Suc (Suc (length (render sw @ tr))) = Suc n + length ds"
    by (intro exI [of _ "Suc (length (render sw @ tr)) - length ds"]) simp
  then obtain n where n: "Suc (Suc (length (render sw @ tr))) = Suc n + length ds" ..
  have "render sw \<noteq> []"
    using assms(4,5,6) by (cases sw; cases ds) (auto simp: words_def render_def is_word_def)
  then have "open_stream (render sw @ tr) = stream_at sw tr" by (simp add: open_stream_def stream_at_def)
  moreover have "buf (open_stream (render sw @ tr)) = render sw @ tr" by (simp add: open_stream_def)
  ultimately have g: "getFromFile alloc (open_stream (render sw @ tr)) q =
      file_loop alloc (Suc n + length ds) [] (stream_at sw tr) q"
    by (simp only: getFromFile_def n)
  obtain q' L' where q': "file_loop alloc (Suc n + length ds) [] (stream_at sw tr) q =
      file_loop alloc (Suc n) (last_class ds []) (stream_at [] tr) q'" "all_read ds alloc L q L' q'"
    using file_loop_show [where n = "Suc n" and check = "[]" and alloc = alloc, OF assms(1-3,5-7)]
    by (elim exE conjE)
  have "last_class ds [] = class_name (d_class (last ds))" using assms(4) by (simp add: last_class_def)
  then show ?thesis using g q' by (intro exI [of _ q'] exI [of _ L'] exI [of _ n]) (simp only:)
qed

text \<open>A constructor that runs on a failed stream parses an empty string and aborts.\<close>

lemma InjectedFault_ctor_failed: "\<not> good os \<Longrightarrow> InjectedFault_ctor raw n os = Inl AssertFail"
proof -
  assume g: "\<not> good os"
  have "read_string os = (None, snd (read_string os))"
    "read_string (snd (read_string os)) = (None, snd (read_string (snd (read_string os))))"
    using read_failed [OF g] read_failed(1) [OF read_failed(2) [OF g]] by (simp_all add: prod_eq_iff)
  then show ?thesis
    unfolding InjectedFault_ctor_def
    by (auto simp: Let_def str_or_empty_def parseWhat_def split: prod.splits)
qed

lemma new_by_name_failed:
  assumes "\<not> good os"
  shows "new_by_name (class_name c) raw os q = Inl AssertFail"
  by (cases c)
    (simp_all add: new_by_name_def new_GeneralFetchInjectedFault_def new_IEWStageInjectedFault_def
      new_OpCodeInjectedFault_def new_PCInjectedFault_def new_MemoryInjectedFault_def
      new_RegisterInjectedFault_def new_RegisterDecodingInjectedFault_def new_CPUInjectedFault_def
      new_O3CPUInjectedFault_def new_InjectedFault_def CPUInjectedFault_ctor_def
      O3CPUInjectedFault_ctor_def InjectedFault_ctor_failed [OF assms])

section \<open>The properties\<close>

text \<open>
  (C3) Round trip of the fault file, in the format that the constructors read (the file
  \<open>src/src/fi/description\<close> documents another one): any file that consists of the words of a non-empty list of
  fault descriptions of the ten classes, separated by arbitrary white space and without white space after the last word, is
  read completely. The descriptions become new objects in file order with the described fields and
  consecutive identifiers, each in the queue of its class if it has one, and the queues stay sorted and well
  linked. This holds for any memory when no queue gets more than one fault; otherwise the memory of new
  objects has to have \<open>NULL\<close> in the two links that no constructor sets (\<open>memory_ok\<close>).
\<close>

theorem getFromFile_roundtrip:
  assumes "queues_wf L q" "queues_sorted L q" "memory_ok alloc L ds"
    and "list_all spec_ok ds" "ds \<noteq> []" and "wf_text sw" "map snd sw = concat (map words ds)"
  shows "\<exists>q' L'. getFromFile alloc (open_stream (render sw)) q = Inr q' \<and> all_read ds alloc L q L' q'"
proof -
  have "loaded_as L q" using assms(1,2) by (simp add: loaded_as_def)
  from getFromFile_show [where alloc = alloc and tr = "[]", OF this assms(3-7)]
  obtain q' L' n where r: "getFromFile alloc (open_stream (render sw)) q =
      file_loop alloc (Suc n) (class_name (d_class (last ds))) (stream_at [] []) q'" "all_read ds alloc L q L' q'"
    by auto
  have "\<not> good (stream_at [] [])" by (simp add: stream_at_def render_def good_def)
  then have "getFromFile alloc (open_stream (render sw)) q = Inr q'" using r(1) by simp
  then show ?thesis using r(2) by blast
qed

definition spec_sample :: "fault_spec list" where
  "spec_sample = [\<lparr>d_when = Inst 7, d_what = Flip 3, d_thread = ''0'', d_where = ''system.cpu'', d_occ = 1, d_tc = 0,
       d_class = PC\<rparr>,
     \<lparr>d_when = Tick 5, d_what = Immd 9, d_thread = ''all'', d_where = ''all'', d_occ = 2, d_tc = 0,
       d_class = Reg RInt 4\<rparr>]"

definition text_sample :: "(string \<times> string) list" where
  "text_sample = ([], hd (words (hd spec_sample))) # map (\<lambda>w. ('' '', w)) (tl (concat (map words spec_sample)))"

lemma sample_ok:
  "list_all spec_ok spec_sample" "spec_sample \<noteq> []" "wf_text text_sample"
  "map snd text_sample = concat (map words spec_sample)"
  by (simp_all add: spec_sample_def spec_ok_def is_word_def isspace_def text_sample_def words_def common_words_def comp_def
      show_nat.simps digit_char_def char_of_def)

text \<open>One description, and memory whose first field is a stale pointer.\<close>

definition text_single :: "(string \<times> string) list" where
  "text_single = ([], hd (words (hd spec_sample))) # map (\<lambda>w. ('' '', w)) (tl (words (hd spec_sample)))"

lemma single_ok:
  "list_all spec_ok [hd spec_sample]" "wf_text text_single" "map snd text_single = concat (map words [hd spec_sample])"
  by (simp_all add: spec_sample_def spec_ok_def is_word_def isspace_def text_single_def words_def common_words_def comp_def
      show_nat.simps digit_char_def char_of_def)

lemma sample_memory:
  "memory_ok (\<lambda>_. zero_fault) (\<lambda>_. []) spec_sample" "memory_ok stale_memory (\<lambda>_. []) [hd spec_sample]"
  by (simp_all add: memory_ok_def null_links_def zero_fault_def)

theorem getFromFile_roundtrip_witness:
  "(\<exists>q' L'. getFromFile (\<lambda>_. zero_fault) (open_stream (render text_sample)) (reset_queues queues_sample) = Inr q' \<and>
     all_read spec_sample (\<lambda>_. zero_fault) (\<lambda>_. []) (reset_queues queues_sample) L' q') \<and>
   (\<exists>q' L'. getFromFile stale_memory (open_stream (render text_single)) (reset_queues queues_sample) = Inr q' \<and>
     all_read [hd spec_sample] stale_memory (\<lambda>_. []) (reset_queues queues_sample) L' q')"
proof -
  have q: "queues_wf (\<lambda>_. []) (reset_queues queues_sample)" "queues_sorted (\<lambda>_. []) (reset_queues queues_sample)"
    using loaded_empty by (simp_all add: loaded_as_def)
  show ?thesis
    using getFromFile_roundtrip [OF q sample_memory(1) sample_ok]
      getFromFile_roundtrip [OF q sample_memory(2) single_ok(1) _ single_ok(2,3)] by simp
qed

text \<open>
  (C38) White space after the last word, such as the newline that ends a text file, makes the loading of a
  file of valid descriptions (\<open>spec_ok\<close>) abort: the loop tests the stream before it reads the next name, the read fails and
  leaves the name of the last class, and the constructor of that class runs on the failed stream. This holds for
  any memory when no queue gets more than one fault, and otherwise for memory whose links are
  \<open>NULL\<close> (\<open>memory_ok\<close>).
\<close>

theorem getFromFile_trailing_space:
  assumes "queues_wf L q" "queues_sorted L q" "memory_ok alloc L ds"
    and "list_all spec_ok ds" "ds \<noteq> []" and "wf_text sw" "map snd sw = concat (map words ds)"
    and "list_all isspace tr" "tr \<noteq> []"
  shows "getFromFile alloc (open_stream (render sw @ tr)) q = Inl AssertFail"
proof -
  have "loaded_as L q" using assms(1,2) by (simp add: loaded_as_def)
  from getFromFile_show [where alloc = alloc, OF this assms(3-8)]
  obtain q' L' n where r: "getFromFile alloc (open_stream (render sw @ tr)) q =
      file_loop alloc (Suc n) (class_name (d_class (last ds))) (stream_at [] tr) q'"
    by (elim exE conjE)
  have "good (stream_at [] tr)" using assms(9) by (simp add: stream_at_def render_def good_def)
  moreover have "read_string (stream_at [] tr) = (None, snd (read_string (stream_at [] tr)))"
    using read_string_end(1) [OF assms(8)] by (simp add: prod_eq_iff)
  ultimately show ?thesis
    using r new_by_name_failed [OF read_string_end(2) [OF assms(8)]] by (auto split: prod.splits)
qed

theorem getFromFile_trailing_space_witness:
  "getFromFile (\<lambda>_. zero_fault) (open_stream (render text_sample @ [CHR 0x0A])) (reset_queues queues_sample) =
     Inl AssertFail \<and>
   getFromFile stale_memory (open_stream (render text_single @ [CHR 0x0A])) (reset_queues queues_sample) =
     Inl AssertFail"
proof -
  have q: "queues_wf (\<lambda>_. []) (reset_queues queues_sample)" "queues_sorted (\<lambda>_. []) (reset_queues queues_sample)"
    using loaded_empty by (simp_all add: loaded_as_def)
  have tr: "list_all isspace [CHR 0x0A]" by (simp add: isspace_def)
  show ?thesis
    using getFromFile_trailing_space [OF q sample_memory(1) sample_ok tr]
      getFromFile_trailing_space [OF q sample_memory(2) single_ok(1) _ single_ok(2,3) tr] by simp
qed

end
