(* ===== verification/Fi_Scan.thy ===== *)
theory Fi_Scan
  imports Fi_Loading
begin

text \<open>
  \<open>InjectedFaultQueue::scan\<close> returns the first fault of the queue that is due, and writes only
  bookkeeping fields. A fault is due when the counters selected by its \<open>where\<close> and \<open>thread\<close> fields
  have reached its timing.
\<close>

section \<open>Valid thread indices\<close>

definition activation_ok :: "Fi_System \<Rightarrow> bool" where
  "activation_ok fs \<longleftrightarrow>
     (\<forall>(k, i)\<in>set (fi_activation fs). i = - 1 \<or> 0 \<le> i \<and> i < int (length (threadList fs)))"

lemma core_time_ok:
  assumes "\<forall>(k, i)\<in>set act. i = - 1 \<or> 0 \<le> i \<and> i < int (length ts)"
  shows "\<exists>r. core_time g ts act acc = Inr r"
  using assms
proof (induction act arbitrary: acc)
  case (Cons x act)
  obtain k i instr time a b where x: "x = (k, i)" "acc = (instr, time)" "g (ts ! nat i) = (a, b)"
    by (metis surj_pair)
  then have "i \<noteq> - 1 \<Longrightarrow> at_int ts i = Inr (ts ! nat i)" using Cons.prems by auto
  then show ?case using Cons x by auto
qed simp

lemma get_fi_counters_ok:
  assumes "activation_ok fs"
  shows "\<exists>cnt. get_fi_counters qname p thread s fs = Inr cnt"
proof -
  have "\<exists>r. core_time g (threadList fs) (fi_activation fs) acc = Inr r" for g acc
    using assms by (intro core_time_ok) (simp add: activation_ok_def)
  then show ?thesis
    by (auto simp: get_fi_counters_def select_counters_def get_core_fetched_time_def
        get_core_decoded_time_def get_core_executed_time_def)
qed

text \<open>The counters a fault is compared with, as a total function.\<close>

definition counters :: "string \<Rightarrow> string \<Rightarrow> ThreadEnabledFault \<Rightarrow> Fi_System \<Rightarrow> InjectedFault \<Rightarrow> u64 \<times> u64" where
  "counters qname s thread fs p = (case get_fi_counters qname p thread s fs of Inl _ \<Rightarrow> (0, 0) | Inr c \<Rightarrow> c)"

section \<open>When a fault is due\<close>

definition fires :: "InjectedFault \<Rightarrow> u64 \<times> u64 \<Rightarrow> ThreadEnabledFault \<Rightarrow> Addr \<Rightarrow> bool" where
  "fires p cnt thread vaddr \<longleftrightarrow>
     (if f_timingType p = TickTiming then snd cnt = f_timing p
      else if f_timingType p = InstructionTiming then fst cnt = f_timing p
      else vaddr = f_timing p + MagicInstVirtualAddr thread)"

definition due :: "string \<Rightarrow> string \<Rightarrow> ThreadEnabledFault \<Rightarrow> Addr \<Rightarrow> Fi_System \<Rightarrow> InjectedFault \<Rightarrow> bool" where
  "due qname s thread vaddr fs p \<longleftrightarrow> \<not> f_manifested p \<and>
     counters qname s thread fs p \<noteq> (0, 0) \<and> fires p (counters qname s thread fs p) thread vaddr"

text \<open>Everything of a fault but its links and the fields that scanning writes.\<close>

definition strip :: "InjectedFault \<Rightarrow> InjectedFault" where
  "strip f = f\<lparr>f_nxt := None, f_prv := None, f_queue := None, f_cpu := None, f_servicedAt := 0\<rparr>"

lemma strip_core: "core x = core y \<Longrightarrow> strip x = strip y"
proof -
  assume "core x = core y"
  moreover have "strip z = (core z)\<lparr>f_cpu := None, f_servicedAt := 0\<rparr>" for z
    by (cases z) (simp add: strip_def core_def)
  ultimately show ?thesis by simp
qed

lemma strip_fields:
  assumes "strip x = strip y"
  shows "f_timing x = f_timing y" "f_timingType x = f_timingType y" "f_value x = f_value y"
    "f_valueType x = f_valueType y" "f_class x = f_class y" "f_faultType x = f_faultType y"
    "f_occurrence x = f_occurrence y" "f_manifested x = f_manifested y" "f_tcontext x = f_tcontext y"
    "f_where x = f_where y" "f_thread x = f_thread y" "f_offset x = f_offset y" "f_register x = f_register y"
    "f_regType x = f_regType y" "f_srcOrDst x = f_srcOrDst y" "f_regToChange x = f_regToChange y"
    "f_changeToReg x = f_changeToReg y"
  using assms by (cases x; cases y; simp add: strip_def)+

lemma fault_wf_strip:
  assumes "strip x = strip y"
  shows "fault_wf qid x = fault_wf qid y"
  unfolding fault_wf_def timing_ok_def value_ok_def strip_fields [OF assms] ..

lemma counters_cong:
  assumes "f_where x = f_where y" "f_thread x = f_thread y" "threadList fs = threadList fs'"
    "fi_activation fs = fi_activation fs'"
  shows "counters qname s thread fs x = counters qname s thread fs' y"
proof -
  have per: "get_core_fetched_time c fs = get_core_fetched_time c fs'"
    "get_core_decoded_time c fs = get_core_decoded_time c fs'"
    "get_core_executed_time c fs = get_core_executed_time c fs'" for c
    by (simp_all add: get_core_fetched_time_def get_core_decoded_time_def get_core_executed_time_def assms(3,4))
  have sel: "select_counters one get_core_fetched_time x thread s fs = select_counters one get_core_fetched_time y thread s fs'"
    "select_counters one get_core_decoded_time x thread s fs = select_counters one get_core_decoded_time y thread s fs'"
    "select_counters one get_core_executed_time x thread s fs = select_counters one get_core_executed_time y thread s fs'"
    for one
    unfolding select_counters_def per assms(1,2) by (rule refl)+
  show ?thesis
    unfolding counters_def get_fi_counters_def
    by (cases "qname = ''IEWStageFaultQueue''"; cases "qname = ''DecodeStageFaultQueue''") (simp_all add: sel)
qed

lemma due_cong:
  assumes "strip x = strip y" "threadList fs = threadList fs'" "fi_activation fs = fi_activation fs'"
  shows "due qname s thread vaddr fs x = due qname s thread vaddr fs' y"
  unfolding due_def fires_def counters_cong [OF strip_fields(10,11) [OF assms(1)] assms(2,3)] strip_fields [OF assms(1)] ..

section \<open>What scanning writes\<close>

text \<open>\<open>touched h h'\<close>: only the core pointer and the service time of objects changed.\<close>

definition touched :: "fault_heap \<Rightarrow> fault_heap \<Rightarrow> bool" where
  "touched h h' \<longleftrightarrow> length h' = length h \<and>
     (\<forall>a < length h. \<exists>c v. h' ! a = (h ! a)\<lparr>f_cpu := c, f_servicedAt := v\<rparr>)"

lemma touched_refl [simp]: "touched h h"
proof -
  have "h ! a = (h ! a)\<lparr>f_cpu := f_cpu (h ! a), f_servicedAt := f_servicedAt (h ! a)\<rparr>" for a by simp
  then show ?thesis unfolding touched_def by blast
qed

lemma touched_trans:
  assumes "touched h h'" "touched h' h''"
  shows "touched h h''"
proof -
  have "\<exists>c v. h'' ! a = (h ! a)\<lparr>f_cpu := c, f_servicedAt := v\<rparr>" if "a < length h" for a
  proof -
    obtain c v c' v' where "h' ! a = (h ! a)\<lparr>f_cpu := c, f_servicedAt := v\<rparr>"
        "h'' ! a = (h' ! a)\<lparr>f_cpu := c', f_servicedAt := v'\<rparr>"
      using assms \<open>a < length h\<close> unfolding touched_def by metis
    then have "h'' ! a = (h ! a)\<lparr>f_cpu := c', f_servicedAt := v'\<rparr>" by simp
    then show ?thesis by blast
  qed
  then show ?thesis using assms by (simp add: touched_def)
qed

lemma touched_upd:
  assumes "a < length h"
  shows "touched h (h[a := (h ! a)\<lparr>f_cpu := c\<rparr>])" "touched h (h[a := (h ! a)\<lparr>f_servicedAt := v\<rparr>])"
proof -
  have "(h[a := (h ! a)\<lparr>f_cpu := c\<rparr>]) ! b = (h ! b)\<lparr>f_cpu := (if b = a then c else f_cpu (h ! b)), f_servicedAt := f_servicedAt (h ! b)\<rparr>"
    "(h[a := (h ! a)\<lparr>f_servicedAt := v\<rparr>]) ! b = (h ! b)\<lparr>f_cpu := f_cpu (h ! b), f_servicedAt := (if b = a then v else f_servicedAt (h ! b))\<rparr>" for b
    using assms by auto
  then show "touched h (h[a := (h ! a)\<lparr>f_cpu := c\<rparr>])" "touched h (h[a := (h ! a)\<lparr>f_servicedAt := v\<rparr>])"
    unfolding touched_def by (metis length_list_update)+
qed

lemma touchedD:
  assumes "touched h h'"
  shows "length h' = length h" "a < length h \<Longrightarrow> strip (h' ! a) = strip (h ! a)"
    "a < length h \<Longrightarrow> f_nxt (h' ! a) = f_nxt (h ! a)" "a < length h \<Longrightarrow> f_prv (h' ! a) = f_prv (h ! a)"
    "a < length h \<Longrightarrow> f_queue (h' ! a) = f_queue (h ! a)"
proof -
  show "length h' = length h" using assms by (simp add: touched_def)
  assume "a < length h"
  then obtain c v where "h' ! a = (h ! a)\<lparr>f_cpu := c, f_servicedAt := v\<rparr>"
    using assms unfolding touched_def by blast
  then show "strip (h' ! a) = strip (h ! a)" "f_nxt (h' ! a) = f_nxt (h ! a)" "f_prv (h' ! a) = f_prv (h ! a)"
    "f_queue (h' ! a) = f_queue (h ! a)" by (simp_all add: strip_def)
qed

lemma touched_wf:
  assumes wf: "queues_wf L s" and t: "touched (fi_heap s) h"
  shows "queues_wf L (s\<lparr>fi_heap := h\<rparr>)"
proof -
  have repr: "queues_repr L s" using wf by (simp add: queues_wf_def)
  note lt = queues_reprD(3) [OF repr]
  have "queue_list (h, the_queue q s) (L q)" for q
    by (rule queue_list_frame [OF queues_reprD(1) [OF repr, of q]]) (use touchedD [OF t] lt in auto)
  moreover have "f_queue (h ! a) = Some q" if "a \<in> set (L q)" for a q
    using queues_reprD(4) [OF repr that] touchedD(5) [OF t lt [OF that]] by simp
  ultimately have "queues_repr L (s\<lparr>fi_heap := h\<rparr>)" using repr by (auto simp: queues_repr_def)
  moreover have "fault_wf q (h ! a)" if "a \<in> set (L q)" for a q
    using wf that fault_wf_strip [OF touchedD(2) [OF t lt [OF that]]] by (simp add: queues_wf_def)
  ultimately show ?thesis by (simp add: queues_wf_def)
qed

end
