(* ===== verification/Fi_Hooks.thy ===== *)
theory Fi_Hooks
  imports Fi_Scan
begin

text \<open>
  The loops \<open>while ((fault = queue.scan(...)) != NULL) fault->process(...)\<close> of the hooks that the
  processors call (\<open>src/src/fi/fi_system.cc\<close>, \<open>faultq.cc\<close>). \<open>scan_ok\<close>: a scan of a well-formed queue
  returns the first due fault and writes bookkeeping fields only. \<open>serve\<close> is the shape common to the
  loops. The locale \<open>injection\<close> is the contract between a loop and the \<open>process\<close> function of its
  queue; under it \<open>serve_ok\<close> shows that the loop ends, applies the effects of exactly the faults that
  were due, in queue order, and leaves every one of them either rescheduled or removed.
\<close>

section \<open>Scanning\<close>

lemma or_pair_0: "fst c OR snd c = (0::u64) \<longleftrightarrow> c = (0, 0)"
  by (cases c) (metis fst_conv or.right_neutral or_eq_0_iff snd_conv)

lemma fault_wf_types:
  assumes "fault_wf qid p"
  shows "f_class p \<noteq> CInjectedFault" "f_faultType p \<in> {RegisterInjectedFault, PCInjectedFault, MemoryInjectedFault} \<or>
    f_faultType p \<in> {GeneralFetchInjectedFault, OpCodeInjectedFault, RegisterDecodingInjectedFault, ExecutionInjectedFault}"
  using assms by (auto simp: fault_wf_def class_fits_def type_of_class_def split: queue_id.splits)

lemma classify_zero: "a < length (fi_heap q) \<Longrightarrow> classify a s w (0, 0) q = Inr (0, q)"
  by (simp add: classify_def)

lemma classify_ok:
  assumes "a < length (fi_heap q)" "fault_wf qid (fi_heap q ! a)" "map_find s (cpus w) = Some c" "cnt \<noteq> (0, 0)"
  shows "\<exists>k. classify a s w cnt q = Inr (k, q\<lparr>fi_heap := (fi_heap q)[a := (fi_heap q ! a)\<lparr>f_cpu := Some s\<rparr>]\<rparr>) \<and> k \<noteq> 0"
proof (cases "f_faultType (fi_heap q ! a) \<in> {RegisterInjectedFault, PCInjectedFault, MemoryInjectedFault}")
  case True
  then show ?thesis using assms(1,3,4) fault_wf_types(1) [OF assms(2)]
    by (intro exI [of _ 1]) (simp add: classify_def or_pair_0 set_core_def upd_fault_def del: insert_iff)
next
  case False
  then show ?thesis using assms(1,3,4) fault_wf_types [OF assms(2)]
    by (intro exI [of _ 2]) (simp add: classify_def or_pair_0 set_core_def upd_fault_def del: insert_iff)
qed

lemma timing_match_ok:
  assumes "timing_ok p"
  shows "\<exists>v. timing_match p cnt th va = Inr (if fires p cnt th va then Some v else None)"
  using assms by (auto simp: timing_ok_def timing_match_def fires_def timing_types)

lemma queue_next:
  assumes "queues_wf L s" "L qid = xs @ a # ys"
  shows "f_nxt (fi_heap s ! a) = first_ptr ys None" "a < length (fi_heap s)" "fault_wf qid (fi_heap s ! a)"
proof -
  have "queue_list (fi_heap s, the_queue qid s) (xs @ a # ys)"
    using assms queues_reprD(1) [of L s qid] by (simp add: queues_wf_def)
  then show "f_nxt (fi_heap s ! a) = first_ptr ys None" "a < length (fi_heap s)"
    by (auto simp: queue_list_def chain_append)
  show "fault_wf qid (fi_heap s ! a)" using assms by (auto simp: queues_wf_def)
qed

abbreviation heap_of :: "Fi_System \<Rightarrow> fault_heap" where "heap_of fs \<equiv> fi_heap (fs_q fs)"

abbreviation with_heap :: "fault_heap \<Rightarrow> Fi_System \<Rightarrow> Fi_System" where
  "with_heap h fs \<equiv> fs\<lparr>fs_q := (fs_q fs)\<lparr>fi_heap := h\<rparr>\<rparr>"

lemma with_heap_same: "with_heap (heap_of fs) fs = fs"
  by simp

text \<open>The address of the first due fault among \<open>ys\<close>.\<close>

definition first_due :: "string \<Rightarrow> string \<Rightarrow> ThreadEnabledFault \<Rightarrow> Addr \<Rightarrow> Fi_System \<Rightarrow> nat list \<Rightarrow> ptr" where
  "first_due qname s th va fs ys = List.find (\<lambda>a. due qname s th va fs (heap_of fs ! a)) ys"

text \<open>One step of the walk: past a fault that is not due, or to one that is.\<close>

lemma scan_step:
  assumes "activation_ok fs" "map_find s (cpus w) = Some c" "a < length (heap_of fs)" "fault_wf qid (heap_of fs ! a)"
  shows "\<not> due qname s th va fs (heap_of fs ! a) \<Longrightarrow>
      \<exists>h. scan_walk (Suc n) qname s th va w (Some a) fs =
        scan_walk n qname s th va w (f_nxt (heap_of fs ! a)) (with_heap h fs) \<and> touched (heap_of fs) h"
    "due qname s th va fs (heap_of fs ! a) \<Longrightarrow>
      \<exists>h. scan_walk (Suc n) qname s th va w (Some a) fs = Inr (Some a, with_heap h fs) \<and> touched (heap_of fs) h \<and>
        f_cpu (h ! a) = Some s"
proof -
  let ?p = "heap_of fs ! a" and ?cnt = "counters qname s th fs (heap_of fs ! a)"
  let ?h1 = "(heap_of fs)[a := ?p\<lparr>f_cpu := Some s\<rparr>]"
  have cnt: "get_fi_counters qname ?p th s fs = Inr ?cnt"
    using get_fi_counters_ok [OF assms(1), of qname ?p th s] by (auto simp: counters_def)
  obtain v where v: "timing_match ?p ?cnt th va = Inr (if fires ?p ?cnt th va then Some v else None)"
    using timing_match_ok [of ?p ?cnt th va] assms(4) by (auto simp: fault_wf_def)
  have k: "\<exists>k. classify a s w ?cnt (fs_q fs) = Inr (k, (fs_q fs)\<lparr>fi_heap := ?h1\<rparr>) \<and> k \<noteq> 0" if "?cnt \<noteq> (0, 0)"
    using classify_ok [OF assms(3,4,2) that] .
  have t1: "touched (heap_of fs) ?h1" by (rule touched_upd [OF assms(3)])
  show "\<exists>h. scan_walk (Suc n) qname s th va w (Some a) fs = scan_walk n qname s th va w (f_nxt ?p) (with_heap h fs) \<and>
      touched (heap_of fs) h" if "\<not> due qname s th va fs ?p"
  proof (cases "f_manifested ?p \<or> ?cnt = (0, 0)")
    case True
    then have "scan_walk (Suc n) qname s th va w (Some a) fs = scan_walk n qname s th va w (f_nxt ?p) (with_heap (heap_of fs) fs)"
      using assms(3) cnt by (auto simp: classify_zero)
    then show ?thesis using touched_refl by blast
  next
    case False
    then have "scan_walk (Suc n) qname s th va w (Some a) fs = scan_walk n qname s th va w (f_nxt ?p) (with_heap ?h1 fs)"
      using that assms(3) cnt k v by (auto simp: Let_def due_def)
    then show ?thesis using t1 by blast
  qed
  show "\<exists>h. scan_walk (Suc n) qname s th va w (Some a) fs = Inr (Some a, with_heap h fs) \<and> touched (heap_of fs) h \<and>
      f_cpu (h ! a) = Some s" if "due qname s th va fs ?p"
  proof -
    let ?h2 = "?h1[a := (?h1 ! a)\<lparr>f_servicedAt := v\<rparr>]"
    have "scan_walk (Suc n) qname s th va w (Some a) fs = Inr (Some a, with_heap ?h2 fs)"
      using that assms(3) cnt k v by (auto simp: Let_def due_def upd_fault_def)
    moreover have "touched (heap_of fs) ?h2" by (rule touched_trans [OF t1 touched_upd(2)]) (simp add: assms(3))
    ultimately show ?thesis using assms(3) by (intro exI [of _ ?h2]) simp
  qed
qed

lemma scan_walk_ok:
  assumes "queues_wf L (fs_q fs)" "activation_ok fs" "map_find s (cpus w) = Some c" "L qid = xs @ ys" "length ys < n"
  shows "\<exists>h. scan_walk n qname s th va w (first_ptr ys None) fs =
      Inr (first_due qname s th va fs ys, with_heap h fs) \<and> touched (heap_of fs) h \<and>
    (\<forall>a. first_due qname s th va fs ys = Some a \<longrightarrow> f_cpu (h ! a) = Some s)"
  using assms(1,2,4,5)
proof (induction ys arbitrary: xs fs n)
  case Nil
  then obtain m where "n = Suc m" by (cases n) auto
  then show ?case using touched_refl by (auto simp: first_due_def intro!: exI [of _ "heap_of fs"])
next
  case (Cons a ys)
  obtain m where n: "n = Suc m" "length ys < m" using Cons.prems(4) by (cases n) auto
  have a: "f_nxt (heap_of fs ! a) = first_ptr ys None" "a < length (heap_of fs)" "fault_wf qid (heap_of fs ! a)"
    using queue_next [OF Cons.prems(1,3)] .
  note step = scan_step [OF Cons.prems(2) assms(3) a(2,3), where n = m and qname = qname and th = th and va = va]
  show ?case
  proof (cases "due qname s th va fs (heap_of fs ! a)")
    case True
    then have "first_due qname s th va fs (a # ys) = Some a" by (simp add: first_due_def)
    then show ?thesis using step(2) [OF True] n(1) by auto
  next
    case False
    obtain h1 where t: "touched (heap_of fs) h1" and sw: "scan_walk n qname s th va w (first_ptr (a # ys) None) fs =
        scan_walk m qname s th va w (first_ptr ys None) (with_heap h1 fs)"
      using step(1) [OF False] n(1) a(1) by auto
    have wf: "queues_wf L (fs_q (with_heap h1 fs))" using touched_wf [OF Cons.prems(1) t] by simp
    have lt: "b < length (heap_of fs)" if "b \<in> set ys" for b
      using Cons.prems(1,3) that queues_reprD(3) [of L "fs_q fs" b qid] by (auto simp: queues_wf_def)
    have "first_due qname s th va (with_heap h1 fs) ys = first_due qname s th va fs (a # ys)"
      unfolding first_due_def using False
      by (auto simp: due_cong [OF touchedD(2) [OF t lt]] intro!: find_cong)
    then show ?thesis
      using Cons.IH [OF wf _ _ n(2), of "xs @ [a]"] Cons.prems(2,3) sw touched_trans [OF t]
      by (auto simp: activation_ok_def)
  qed
qed

lemma scan_ok:
  assumes "queues_wf L (fs_q fs)" "activation_ok fs" "map_find s (cpus w) = Some c"
  shows "\<exists>h. scan qid s th va w fs =
      Inr (first_due (q_name (the_queue qid (fs_q fs))) s th va fs (L qid), with_heap h fs) \<and>
    touched (heap_of fs) h \<and>
    (\<forall>a. first_due (q_name (the_queue qid (fs_q fs))) s th va fs (L qid) = Some a \<longrightarrow> f_cpu (h ! a) = Some s)"
proof -
  have q: "queue_list (heap_of fs, the_queue qid (fs_q fs)) (L qid)"
    using assms(1) queues_reprD(1) by (simp add: queues_wf_def)
  then have "length (L qid) < Suc (length (heap_of fs))"
    using chain_length by (fastforce simp: queue_list_def less_Suc_eq_le)
  from scan_walk_ok [where xs = "[]", OF assms _ this] q show ?thesis
    by (simp add: scan_def Let_def queue_list_def)
qed

section \<open>Serving all due faults\<close>

text \<open>
  The shape common to the four loops: \<open>v\<close> is what the faults act on and \<open>mach v\<close> the machine at
  that point.
\<close>

fun serve :: "(nat \<Rightarrow> 'v \<Rightarrow> Fi_Queues \<Rightarrow> ('v \<times> Fi_Queues) res) \<Rightarrow> ('v \<Rightarrow> Machine) \<Rightarrow> queue_id \<Rightarrow>
  nat \<Rightarrow> string \<Rightarrow> int \<Rightarrow> Addr \<Rightarrow> 'v \<Rightarrow> Fi_System \<Rightarrow> ('v \<times> Fi_System) res" where
  "serve proc mach qid 0 name i pc v fs = Inl Diverges"
| "serve proc mach qid (Suc n) name i pc v fs =
     bindE (at_int (threadList fs) i) (\<lambda>th.
     bindE (scan qid name th pc (mach v) fs) (\<lambda>(r, fs).
       case r of None \<Rightarrow> Inr (v, fs)
       | Some a \<Rightarrow> bindE (proc a v (fs_q fs)) (\<lambda>(v, q).
           serve proc mach qid n name i pc v (fs\<lparr>fs_q := q\<rparr>))))"

lemma stage_loop_serve:
  "stage_loop process qid n name i pc w v fs = serve (\<lambda>a v s. process a v s w) (\<lambda>_. w) qid n name i pc v fs"
  by (induction n arbitrary: v fs) (simp_all cong: option.case_cong)

lemma main_loop_serve:
  "main_loop n name i pc fs w =
     bindE (serve (\<lambda>a w s. bindE (CPU_process a s w) (\<lambda>(s, w). Inr (w, s))) id MainQ n name i pc w fs)
       (\<lambda>(w, fs). Inr (fs, w))"
  by (induction n arbitrary: w fs)
    (auto simp: bindE_assoc split_def intro!: arg_cong [where f = "bindE _"] ext split: option.split)

text \<open>The clock and the number of contexts of a core.\<close>

definition core_shape :: "string \<Rightarrow> Machine \<Rightarrow> (u64 \<times> nat) option" where
  "core_shape name w = map_option (\<lambda>c. (cpu_clock c, length (threadContexts c))) (map_find name (cpus w))"

lemma next_timing_moves:
  assumes "f_timingType f \<in> {TickTiming, InstructionTiming}" "cpu_clock c \<noteq> 0"
  shows "next_timing c f \<noteq> f_timing f"
proof (cases "f_timingType f = TickTiming")
  case True
  then show ?thesis using assms(2) by (simp add: next_timing_def)
next
  case False
  let ?t = "f_timing f"
  have b: "bit (word_of_int (int32 (uint (?t + 1))) :: u64) 0 = bit (?t + 1) 0"
    by (simp only: int32_def bit_word_of_int_iff bit_signed_take_bit_iff bit_uint_iff) simp
  have "bit (?t + 1) 0 \<noteq> bit ?t 0" by (simp add: bit_0)
  then have "word_of_int (int32 (uint (?t + 1))) \<noteq> ?t" using b by metis
  then show ?thesis using False assms(1) by (simp add: next_timing_def)
qed

lemma due_rescheduled:
  assumes "due qname s th va fs f" "timing_ok f" "cpu_clock c \<noteq> 0"
  shows "due qname s th va fs (rescheduled c f) \<longleftrightarrow> f_timingType f = VirtualAddrTiming"
proof -
  have cnt: "counters qname s th fs (rescheduled c f) = counters qname s th fs f"
    by (rule counters_cong) (simp_all add: rescheduled_def)
  show ?thesis
  proof (cases "f_timingType f = VirtualAddrTiming")
    case True
    then show ?thesis using assms(1) cnt
      by (simp add: due_def fires_def rescheduled_def next_timing_def timing_types)
  next
    case False
    then have "f_timingType f \<in> {TickTiming, InstructionTiming}" using assms(2) by (simp add: timing_ok_def)
    from next_timing_moves [OF this assms(3)] this show ?thesis
      using assms(1) cnt False by (auto simp: due_def fires_def rescheduled_def timing_types)
  qed
qed

definition resched :: "u64 \<Rightarrow> InjectedFault \<Rightarrow> InjectedFault" where
  "resched k = rescheduled \<lparr>cpu_clock = k, threadContexts = []\<rparr>"

lemma rescheduled_resched: "rescheduled c = resched (cpu_clock c)"
  by (rule ext) (simp add: resched_def rescheduled_def next_timing_def)

lemma resched_wf: "fault_wf q (resched k f) = fault_wf q f"
  by (simp add: fault_wf_def resched_def rescheduled_def timing_ok_def value_ok_def)

lemma resched_strip: "strip f = strip g \<Longrightarrow> strip (resched k f) = strip (resched k g)"
proof -
  assume e: "strip f = strip g"
  have "strip (resched k z) = (strip z)\<lparr>f_timing := next_timing \<lparr>cpu_clock = k, threadContexts = []\<rparr> (strip z),
      f_occurrence := int32 (f_occurrence (strip z) - 1), f_manifested := False\<rparr>" for z
    by (simp add: strip_def resched_def rescheduled_def next_timing_def)
  then show ?thesis using e by simp
qed

text \<open>One fault was rescheduled: everything else is as before.\<close>

definition same_names :: "Fi_Queues \<Rightarrow> Fi_Queues \<Rightarrow> bool" where
  "same_names s s' \<longleftrightarrow> faultCnt s' = faultCnt s \<and> length (fi_heap s') = length (fi_heap s) \<and>
     (\<forall>q. q_name (the_queue q s') = q_name (the_queue q s))"

definition advanced :: "u64 \<Rightarrow> queue_id \<Rightarrow> nat \<Rightarrow> (queue_id \<Rightarrow> nat list) \<Rightarrow> Fi_Queues \<Rightarrow> Fi_Queues \<Rightarrow> bool" where
  "advanced k qid a L s s' \<longleftrightarrow> same_names s s' \<and>
     queues_wf (L(qid := if f_occurrence (fi_heap s ! a) = 1 then remove1 a (L qid) else L qid)) s' \<and>
     (\<forall>b < length (fi_heap s). strip (fi_heap s' ! b) =
        strip (if b = a \<and> f_occurrence (fi_heap s ! a) \<noteq> 1 then resched k (fi_heap s ! a) else fi_heap s ! b))"

lemma reschedule_advances:
  assumes wf: "queues_wf L s" and a: "a \<in> set (L qid)"
    and c: "f_occurrence (fi_heap s ! a) \<noteq> 1 \<Longrightarrow>
      fault_cpu (fi_heap s ! a) w = Inr c \<and> getContext c (f_tcontext (fi_heap s ! a)) = Inr tc"
  shows "\<exists>s'. check4reschedule a s w = Inr s' \<and> advanced (cpu_clock c) qid a L s s'"
proof -
  let ?f = "fi_heap s ! a"
  have repr: "queues_repr L s" and t: "timing_ok ?f" and al: "a < length (fi_heap s)"
    using wf a queues_reprD(3) [of L s a qid] by (auto simp: queues_wf_def fault_wf_def)
  obtain s' where s': "check4reschedule a s w = Inr s'" "faultCnt s' = faultCnt s"
      "\<forall>q. q_name (the_queue q s') = q_name (the_queue q s)"
      "if f_occurrence ?f = 1 then queues_repr (L(qid := remove1 a (L qid))) s' \<and> same_core (fi_heap s) (fi_heap s')
       else queues_repr L s' \<and> fi_heap s' = (fi_heap s)[a := rescheduled c ?f]"
    using reschedule_spec [OF repr a t c] by blast
  let ?L = "L(qid := if f_occurrence ?f = 1 then remove1 a (L qid) else L qid)"
  have st: "length (fi_heap s') = length (fi_heap s)" "queues_repr ?L s'"
    "\<And>b. b < length (fi_heap s) \<Longrightarrow> strip (fi_heap s' ! b) =
      strip (if b = a \<and> f_occurrence ?f \<noteq> 1 then resched (cpu_clock c) ?f else fi_heap s ! b)"
    using s'(4) al same_core_length strip_core [OF same_core_nth [of "fi_heap s" "fi_heap s'"]]
    by (auto simp: rescheduled_resched split: if_splits)
  have "fault_wf q (fi_heap s' ! b)" if "b \<in> set (?L q)" for b q
  proof -
    have b: "b \<in> set (L q)" using that notin_set_remove1 by (fastforce split: if_splits)
    then have "b < length (fi_heap s)" "fault_wf q (fi_heap s ! b)"
      using queues_reprD(3) [OF repr] wf by (auto simp: queues_wf_def)
    then show ?thesis using fault_wf_strip [OF st(3), of b q] resched_wf by (auto split: if_splits)
  qed
  then have "queues_wf ?L s'" using st(2) unfolding queues_wf_def by blast
  then show ?thesis using s'(1-3) st by (auto simp: advanced_def same_names_def)
qed

section \<open>How often a fault is injected\<close>

text \<open>
  A tick or instruction timing moves on when the fault is rescheduled, so that a loop injects the fault
  once. The timing of a fault on an address stays, so that the loop injects it until its occurrences
  are used up; counting down from 0 or a negative number goes through all values of an \<open>int\<close>.
\<close>

definition firings :: "InjectedFault \<Rightarrow> nat" where
  "firings f = (if f_timingType f = VirtualAddrTiming then nat ((f_occurrence f - 1) mod 2 ^ 32) + 1 else 1)"

definition injections :: "InjectedFault list \<Rightarrow> InjectedFault list" where
  "injections fs = concat (map (\<lambda>f. replicate (firings f) f) fs)"

text \<open>A due fault leaves the queue in the loop.\<close>

definition leaves :: "InjectedFault \<Rightarrow> bool" where
  "leaves f \<longleftrightarrow> f_occurrence f = 1 \<or> f_timingType f = VirtualAddrTiming"

definition int_range :: "int \<Rightarrow> bool" where
  "int_range n \<longleftrightarrow> - (2 ^ 31) \<le> n \<and> n < 2 ^ 31"

lemma int_range_int32: "int_range (int32 n)"
  using signed_take_bit_int_greater_eq_minus_exp [of 31 n] signed_take_bit_int_less_exp [of 31 n]
  by (simp add: int_range_def int32_def)

lemma int32_mod: "int32 n mod 2 ^ 32 = n mod 2 ^ 32"
proof -
  have "take_bit 32 (int32 n) = take_bit 32 n" by (simp add: int32_def take_bit_signed_take_bit)
  then show ?thesis by (simp add: take_bit_eq_mod)
qed

lemma firings_strip: "strip f = strip g \<Longrightarrow> firings f = firings g"
  unfolding firings_def using strip_fields(2,7) [of f g] by simp

lemma leaves_strip: "strip f = strip g \<Longrightarrow> leaves f = leaves g"
  unfolding leaves_def using strip_fields(2,7) [of f g] by simp

lemma firings_last: "f_occurrence f = 1 \<Longrightarrow> firings f = 1"
  by (simp add: firings_def)

lemma mod_pred: "0 < n \<Longrightarrow> x mod n \<noteq> 0 \<Longrightarrow> x mod n = (x - 1) mod n + (1::int)"
proof -
  assume n: "0 < n" "x mod n \<noteq> 0"
  have "(x - 1) mod n = (x mod n - 1) mod n" by (simp add: mod_diff_left_eq)
  also have "\<dots> = x mod n - 1" using n pos_mod_bound [OF n(1), of x] pos_mod_sign [OF n(1), of x] by (intro mod_pos_pos_trivial) linarith+
  finally show ?thesis by simp
qed

lemma firings_resched:
  assumes "f_timingType f = VirtualAddrTiming" "f_occurrence f \<noteq> 1" "int_range (f_occurrence f)"
  shows "firings f = Suc (firings (resched k f))"
proof -
  let ?n = "f_occurrence f"
  have "(int32 (?n - 1) - 1) mod 2 ^ 32 = (?n - 1 - 1) mod 2 ^ 32"
    using int32_mod [of "?n - 1"] by (metis mod_diff_left_eq)
  moreover have "(?n - 1) mod 2 ^ 32 = (?n - 1 - 1) mod 2 ^ 32 + 1"
  proof -
    have "(?n - 1) mod 2 ^ 32 \<noteq> 0"
    proof
      assume "(?n - 1) mod 2 ^ 32 = 0"
      then obtain d where "?n - 1 = 4294967296 * d" by auto
      then show False using assms(2,3) by (cases "d = 0") (auto simp: int_range_def)
    qed
    then show ?thesis using mod_pred [of "2 ^ 32" "?n - 1"] by simp
  qed
  ultimately show ?thesis
    using assms(1) by (simp add: firings_def resched_def rescheduled_def nat_add_distrib)
qed

text \<open>Occurrence 0, meant as a permanent fault, on an address: the loop runs through all values of an \<open>int\<close>.\<close>

lemma firings_permanent: "f_timingType f = VirtualAddrTiming \<Longrightarrow> f_occurrence f = 0 \<Longrightarrow> firings f = 2 ^ 32"
  by (simp add: firings_def)

lemma firings_pos: "\<exists>m. firings f = Suc m"
  by (simp add: firings_def)

lemma leaves_resched: "f_timingType f = VirtualAddrTiming \<Longrightarrow> leaves (resched k f)"
  by (simp add: leaves_def resched_def rescheduled_def)

text \<open>What an injection reads of a fault: not when it happens and how often.\<close>

definition payload :: "InjectedFault \<Rightarrow> InjectedFault" where
  "payload f = (strip f)\<lparr>f_timing := 0, f_occurrence := 0, f_manifested := False\<rparr>"

lemma payload_strip: "strip f = strip g \<Longrightarrow> payload f = payload g"
  by (simp add: payload_def)

lemma payload_resched: "payload (resched k f) = payload f"
  by (simp add: payload_def strip_def resched_def rescheduled_def)

lemma payload_fields:
  assumes "payload x = payload y"
  shows "f_value x = f_value y" "f_valueType x = f_valueType y" "f_class x = f_class y" "f_tcontext x = f_tcontext y"
    "f_offset x = f_offset y" "f_register x = f_register y" "f_regType x = f_regType y" "f_srcOrDst x = f_srcOrDst y"
    "f_regToChange x = f_regToChange y" "f_changeToReg x = f_changeToReg y"
  using assms by (cases x; cases y; simp add: payload_def strip_def)+

lemma injections_payload:
  "map strip fs = map strip gs \<Longrightarrow> map payload (injections fs) = map payload (injections gs)"
proof (induction fs arbitrary: gs)
  case (Cons f fs)
  then obtain g gs' where gs: "gs = g # gs'" "strip f = strip g" "map strip fs = map strip gs'" by (cases gs) auto
  then show ?case
    using Cons.IH [OF gs(3)] firings_strip [OF gs(2)] payload_strip [OF gs(2)] by (simp add: injections_def map_replicate)
qed (simp add: injections_def)

section \<open>The state after a loop\<close>

text \<open>
  All due faults of a queue were served: those that leave are out of the queue, the others were
  rescheduled, and everything else but the objects that left is as before.
\<close>

definition served :: "u64 \<Rightarrow> (InjectedFault \<Rightarrow> bool) \<Rightarrow> queue_id \<Rightarrow> (queue_id \<Rightarrow> nat list) \<Rightarrow> Fi_Queues \<Rightarrow> Fi_Queues \<Rightarrow> bool" where
  "served k D qid L s s' \<longleftrightarrow> same_names s s' \<and>
     queues_wf (L(qid := filter (\<lambda>a. \<not> (D (fi_heap s ! a) \<and> leaves (fi_heap s ! a))) (L qid))) s' \<and>
     (\<forall>b < length (fi_heap s). \<not> (b \<in> set (L qid) \<and> D (fi_heap s ! b) \<and> leaves (fi_heap s ! b)) \<longrightarrow>
        strip (fi_heap s' ! b) =
          strip (if b \<in> set (L qid) \<and> D (fi_heap s ! b) then resched k (fi_heap s ! b) else fi_heap s ! b))"

lemma served_none:
  assumes wf: "queues_wf L s" and t: "touched (fi_heap s) h" and nd: "\<And>a. a \<in> set (L qid) \<Longrightarrow> \<not> D (fi_heap s ! a)"
  shows "served k D qid L s (s\<lparr>fi_heap := h\<rparr>)"
proof -
  have "filter (\<lambda>a. \<not> (D (fi_heap s ! a) \<and> leaves (fi_heap s ! a))) (L qid) = L qid"
    using nd by simp
  then show ?thesis
    using touched_wf [OF wf t] touchedD(1,2) [OF t] nd by (auto simp: served_def same_names_def)
qed

text \<open>The writes of a scan do not matter to what rescheduling does.\<close>

lemma advanced_touched:
  assumes "touched (fi_heap s) h" "a < length (fi_heap s)" "advanced k qid a L (s\<lparr>fi_heap := h\<rparr>) s'"
  shows "advanced k qid a L s s'"
proof -
  note st = touchedD(2) [OF assms(1)] and len = touchedD(1) [OF assms(1)]
  have occ: "f_occurrence (h ! a) = f_occurrence (fi_heap s ! a)" using strip_fields(7) [OF st [OF assms(2)]] .
  have "strip (fi_heap s' ! b) =
      strip (if b = a \<and> f_occurrence (fi_heap s ! a) \<noteq> 1 then resched k (fi_heap s ! a) else fi_heap s ! b)"
    if "b < length (fi_heap s)" for b
    using assms(3) that st [OF that] resched_strip [OF st [OF assms(2)], of k] occ len
    by (simp add: advanced_def split: if_splits)
  then show ?thesis using assms(3) occ len by (simp add: advanced_def same_names_def)
qed

text \<open>
  The first due fault \<open>a\<close> was served: \<open>L1\<close> are then the contents. \<open>D\<close> sees only what \<open>strip\<close>
  keeps, and holds of a rescheduled fault exactly when it is bound to an address.
\<close>

definition first_served :: "u64 \<Rightarrow> (InjectedFault \<Rightarrow> bool) \<Rightarrow> queue_id \<Rightarrow> nat list \<Rightarrow> nat \<Rightarrow> nat list \<Rightarrow>
  (queue_id \<Rightarrow> nat list) \<Rightarrow> Fi_Queues \<Rightarrow> (queue_id \<Rightarrow> nat list) \<Rightarrow> Fi_Queues \<Rightarrow> bool" where
  "first_served k D qid xs a ys L s L1 s1 \<longleftrightarrow>
     queues_wf L s \<and> L qid = xs @ a # ys \<and> (\<forall>x\<in>set xs. \<not> D (fi_heap s ! x)) \<and> D (fi_heap s ! a) \<and>
     (\<forall>x y. strip x = strip y \<longrightarrow> D x = D y) \<and>
     (D (resched k (fi_heap s ! a)) \<longleftrightarrow> f_timingType (fi_heap s ! a) = VirtualAddrTiming) \<and>
     advanced k qid a L s s1 \<and> L1 = L(qid := if f_occurrence (fi_heap s ! a) = 1 then xs @ ys else L qid)"

lemma first_served_parts:
  assumes "first_served k D qid xs a ys L s L1 s1"
  shows "queues_wf L s" "L qid = xs @ a # ys" "\<forall>x\<in>set xs. \<not> D (fi_heap s ! x)" "D (fi_heap s ! a)"
    "D (resched k (fi_heap s ! a)) \<longleftrightarrow> f_timingType (fi_heap s ! a) = VirtualAddrTiming"
    "advanced k qid a L s s1" "L1 = L(qid := if f_occurrence (fi_heap s ! a) = 1 then xs @ ys else L qid)"
    "\<And>x y. strip x = strip y \<Longrightarrow> D x = D y"
  using assms unfolding first_served_def by blast+

lemma first_servedD:
  assumes "first_served k D qid xs a ys L s L1 s1"
  shows "distinct (xs @ a # ys)" "\<And>b. b \<in> set (L qid) \<Longrightarrow> b < length (fi_heap s)"
    "queues_wf L1 s1" "same_names s s1"
    "\<And>b. b < length (fi_heap s) \<Longrightarrow> b \<noteq> a \<Longrightarrow> strip (fi_heap s1 ! b) = strip (fi_heap s ! b)"
    "f_occurrence (fi_heap s ! a) \<noteq> 1 \<Longrightarrow> strip (fi_heap s1 ! a) = strip (resched k (fi_heap s ! a))"
    "b \<in> set (L1 qid) \<Longrightarrow> b \<in> set (L qid)"
    "a \<in> set (L1 qid) \<Longrightarrow> f_occurrence (fi_heap s ! a) \<noteq> 1"
proof -
  note p = first_served_parts [OF assms]
  have repr: "queues_repr L s" using p(1) by (simp add: queues_wf_def)
  show dist: "distinct (xs @ a # ys)" using queues_reprD(2) [OF repr, of qid] p(2) by simp
  show lt: "b < length (fi_heap s)" if "b \<in> set (L qid)" for b using queues_reprD(3) [OF repr that] .
  have "L1 = L(qid := if f_occurrence (fi_heap s ! a) = 1 then remove1 a (L qid) else L qid)"
    using p(2,7) dist by (auto simp: remove1_append)
  then show "queues_wf L1 s1" using p(6) unfolding advanced_def by blast
  show "same_names s s1" "\<And>b. b < length (fi_heap s) \<Longrightarrow> b \<noteq> a \<Longrightarrow> strip (fi_heap s1 ! b) = strip (fi_heap s ! b)"
    "f_occurrence (fi_heap s ! a) \<noteq> 1 \<Longrightarrow> strip (fi_heap s1 ! a) = strip (resched k (fi_heap s ! a))"
    using p(6) lt [of a] p(2) by (auto simp: advanced_def)
  show "b \<in> set (L1 qid) \<Longrightarrow> b \<in> set (L qid)" "a \<in> set (L1 qid) \<Longrightarrow> f_occurrence (fi_heap s ! a) \<noteq> 1"
    using p(2,7) dist by (auto split: if_splits)
qed

text \<open>The injections that remain are all but the first.\<close>

lemma filter_strip:
  assumes "\<And>x y. strip x = strip y \<Longrightarrow> D x = D y" "\<And>b. b \<in> set zs \<Longrightarrow> strip (h' ! b) = strip (h ! b)"
  shows "map strip (filter D (map ((!) h') zs)) = map strip (filter D (map ((!) h) zs))"
  using assms(2)
proof (induction zs)
  case (Cons z zs)
  have "strip (h' ! z) = strip (h ! z)" using Cons.prems by simp
  moreover from assms(1) [OF this] have "D (h' ! z) = D (h ! z)" .
  ultimately show ?case using Cons by simp
qed simp

lemma first_served_injections:
  assumes "first_served k D qid xs a ys L s L1 s1" "int_range (f_occurrence (fi_heap s ! a))"
  shows "map payload (injections (filter D (map ((!) (fi_heap s)) (L qid)))) =
    payload (fi_heap s ! a) # map payload (injections (filter D (map ((!) (fi_heap s1)) (L1 qid))))"
proof -
  let ?h = "fi_heap s" and ?h1 = "fi_heap s1"
  note fs = first_servedD [OF assms(1)] and p = first_served_parts [OF assms(1)]
  have L: "L qid = xs @ a # ys" "\<forall>x\<in>set xs. \<not> D (?h ! x)" "D (?h ! a)"
    "L1 qid = (if f_occurrence (?h ! a) = 1 then xs @ ys else xs @ a # ys)"
    "D (resched k (?h ! a)) \<longleftrightarrow> f_timingType (?h ! a) = VirtualAddrTiming"
    using p(2-5,7) by simp_all
  have same: "map strip (filter D (map ((!) ?h1) zs)) = map strip (filter D (map ((!) ?h) zs))"
    if "set zs \<subseteq> set (xs @ ys)" for zs
    using fs(1,2,5) L(1) that by (intro filter_strip [OF p(8)]) auto
  have xs: "filter D (map ((!) ?h) xs) = []" using L(2) by (auto simp: filter_empty_conv)
  then have xs1: "filter D (map ((!) ?h1) xs) = []" using same [of xs] by simp
  let ?ys = "map payload (injections (filter D (map ((!) ?h) ys)))"
  have ys: "map payload (injections (filter D (map ((!) ?h1) ys))) = ?ys" using injections_payload [OF same [of ys]] by simp
  have lhs: "map payload (injections (filter D (map ((!) ?h) (L qid)))) = replicate (firings (?h ! a)) (payload (?h ! a)) @ ?ys"
    using L(1,3) xs by (simp add: injections_def map_replicate)
  show ?thesis
  proof (cases "f_occurrence (?h ! a) = 1")
    case True
    then show ?thesis using lhs firings_last [OF True] L(4) xs1 ys by simp
  next
    case False
    note a1 = fs(6) [OF False]
    have Da: "D (?h1 ! a) \<longleftrightarrow> f_timingType (?h ! a) = VirtualAddrTiming" using p(8) [OF a1] L(5) by simp
    have p1: "payload (?h1 ! a) = payload (?h ! a)" "firings (?h1 ! a) = firings (resched k (?h ! a))"
      using payload_strip [OF a1] payload_resched firings_strip [OF a1] by simp_all
    show ?thesis
    proof (cases "f_timingType (?h ! a) = VirtualAddrTiming")
      case True
      then show ?thesis
        using lhs firings_resched [OF True False assms(2), of k] p1 Da L(4) False xs1 ys
        by (simp add: injections_def map_replicate)
    next
      case addr: False
      then show ?thesis using lhs Da L(4) False xs1 ys by (simp add: firings_def)
    qed
  qed
qed

text \<open>Serving the first due fault and then the rest.\<close>

lemma first_served_gone:
  assumes "first_served k D qid xs a ys L s L1 s1" "b \<in> set (L1 qid)"
  shows "(D (fi_heap s1 ! b) \<and> leaves (fi_heap s1 ! b)) = (D (fi_heap s ! b) \<and> leaves (fi_heap s ! b))"
proof -
  note d = first_servedD [OF assms(1)] and p = first_served_parts [OF assms(1)]
  show ?thesis
  proof (cases "b = a")
    case False
    have "strip (fi_heap s1 ! b) = strip (fi_heap s ! b)" using d(5) [OF d(2) [OF d(7) [OF assms(2)]] False] .
    then show ?thesis using p(8) leaves_strip by blast
  next
    case True
    then have one: "f_occurrence (fi_heap s ! a) \<noteq> 1" using assms(2) d(8) by simp
    have "D (fi_heap s1 ! a) \<longleftrightarrow> f_timingType (fi_heap s ! a) = VirtualAddrTiming" using p(8) [OF d(6) [OF one]] p(5) by simp
    then show ?thesis
      using True one p(4) leaves_strip [OF d(6) [OF one]] leaves_resched [of "fi_heap s ! a" k] by (auto simp: leaves_def)
  qed
qed

lemma served_step:
  assumes fs: "first_served k D qid xs a ys L s L1 s1" and s2: "served k D qid L1 s1 s2"
  shows "served k D qid L s s2"
proof -
  let ?gone = "\<lambda>s b. D (fi_heap s ! b) \<and> leaves (fi_heap s ! b)"
  note d = first_servedD [OF fs] and p = first_served_parts [OF fs]
  note L = p(2,4,7,5)
  have f: "filter (\<lambda>b. \<not> ?gone s1 b) (L1 qid) = filter (\<lambda>b. \<not> ?gone s b) (L1 qid)"
    by (rule filter_cong [OF refl]) (simp add: first_served_gone [OF fs])
  have "L1(qid := filter (\<lambda>b. \<not> ?gone s1 b) (L1 qid)) = L(qid := filter (\<lambda>b. \<not> ?gone s b) (L qid))"
    unfolding f using L by (auto simp: leaves_def)
  moreover have "strip (fi_heap s2 ! b) = strip (if b \<in> set (L qid) \<and> D (fi_heap s ! b) then resched k (fi_heap s ! b) else fi_heap s ! b)"
    if b: "b < length (fi_heap s)" "\<not> (b \<in> set (L qid) \<and> ?gone s b)" for b
  proof -
    have sub: "b \<in> set (L1 qid) \<longleftrightarrow> b \<in> set (L qid)" using b(2) L by (auto simp: leaves_def split: if_splits)
    have "strip (fi_heap s2 ! b) = strip (if b \<in> set (L1 qid) \<and> D (fi_heap s1 ! b) then resched k (fi_heap s1 ! b) else fi_heap s1 ! b)"
      using s2 b first_served_gone [OF fs, of b] sub d(4) by (auto simp: served_def same_names_def)
    moreover have ?thesis if "b = a" "strip (fi_heap s2 ! b) =
        strip (if b \<in> set (L qid) \<and> D (fi_heap s1 ! b) then resched k (fi_heap s1 ! b) else fi_heap s1 ! b)"
    proof -
      have "f_occurrence (fi_heap s ! a) \<noteq> 1" "f_timingType (fi_heap s ! a) \<noteq> VirtualAddrTiming"
        using b(2) that(1) L by (auto simp: leaves_def)
      then show ?thesis using that(2) L(1,2,4) d(6) p(8) [OF d(6)] b(2) that(1) by simp
    qed
    moreover have ?thesis if "b \<noteq> a" "strip (fi_heap s2 ! b) =
        strip (if b \<in> set (L qid) \<and> D (fi_heap s1 ! b) then resched k (fi_heap s1 ! b) else fi_heap s1 ! b)"
    proof -
      note st = d(5) [OF b(1) that(1)]
      show ?thesis using that(2) p(8) [OF st] resched_strip [OF st, of k] st by (simp split: if_splits)
    qed
    ultimately show ?thesis unfolding sub by blast
  qed
  ultimately show ?thesis using s2 d(4) by (auto simp: served_def same_names_def)
qed

section \<open>The contract of an injection\<close>

lemma find_split:
  "List.find P xs = Some a \<Longrightarrow> \<exists>ys zs. xs = ys @ a # zs \<and> (\<forall>y\<in>set ys. \<not> P y) \<and> P a"
proof (induction xs)
  case (Cons x xs)
  show ?case
  proof (cases "P x")
    case True
    then have "x # xs = [] @ a # xs \<and> (\<forall>y\<in>set []. \<not> P y) \<and> P a" using Cons.prems by simp
    then show ?thesis by blast
  next
    case False
    then obtain ys zs where "xs = ys @ a # zs" "\<forall>y\<in>set ys. \<not> P y" "P a" using Cons by auto
    then have "x # xs = (x # ys) @ a # zs \<and> (\<forall>y\<in>set (x # ys). \<not> P y) \<and> P a" using False by simp
    then show ?thesis by blast
  qed
qed simp

text \<open>The effects of a list of faults on core \<open>name\<close>, in order.\<close>

definition effects :: "(InjectedFault \<Rightarrow> 'v \<Rightarrow> 'v res) \<Rightarrow> string \<Rightarrow> InjectedFault list \<Rightarrow> 'v \<Rightarrow> 'v res" where
  "effects effect name = foldE (\<lambda>f. effect (f\<lparr>f_cpu := Some name\<rparr>))"

text \<open>
  The faults can be served on a core with \<open>m\<close> contexts: each names one of them. The range of the
  occurrences is that of the C type.
\<close>

definition serveable :: "nat \<Rightarrow> InjectedFault \<Rightarrow> bool" where
  "serveable m f \<longleftrightarrow> int_range (f_occurrence f) \<and> 0 \<le> f_tcontext f \<and> f_tcontext f < int m"

lemma serveable_strip:
  assumes "strip f = strip g"
  shows "serveable m f = serveable m g"
  unfolding serveable_def strip_fields [OF assms] ..

lemma serveable_resched: "serveable m f \<Longrightarrow> serveable m (resched k f)"
  by (simp add: serveable_def resched_def rescheduled_def int_range_int32)

lemma first_served_serveable:
  assumes "first_served k D qid xs a ys L s L1 s1" "\<And>b. b \<in> set (L qid) \<Longrightarrow> serveable m (fi_heap s ! b)"
    "b \<in> set (L1 qid)"
  shows "serveable m (fi_heap s1 ! b)"
proof -
  note d = first_servedD [OF assms(1)]
  have b: "b \<in> set (L qid)" using d(7) [OF assms(3)] .
  show ?thesis
  proof (cases "b = a")
    case True
    then have "f_occurrence (fi_heap s ! a) \<noteq> 1" using assms(3) d(8) by simp
    from serveable_strip [OF d(6) [OF this], of m] show ?thesis
      using serveable_resched assms(2) [OF b] True by simp
  next
    case False
    from serveable_strip [OF d(5) [OF d(2) [OF b] this], of m] show ?thesis using assms(2) [OF b] by simp
  qed
qed

text \<open>
  The interface between the loops and the \<open>process\<close> functions: processing a fault applies its effect to
  the value and reschedules the fault. The effect depends on the payload of the fault and on its core,
  and keeps the clock and the contexts of every core.
\<close>

locale injection =
  fixes proc :: "nat \<Rightarrow> 'v \<Rightarrow> Fi_Queues \<Rightarrow> ('v \<times> Fi_Queues) res"
    and mach :: "'v \<Rightarrow> Machine"
    and qid :: queue_id
    and effect :: "InjectedFault \<Rightarrow> 'v \<Rightarrow> 'v res"
  assumes proc_effect: "a < length (fi_heap s) \<Longrightarrow> fault_wf qid (fi_heap s ! a) \<Longrightarrow>
      proc a v s = bindE (effect (fi_heap s ! a) v) (\<lambda>v'. bindE (check4reschedule a s (mach v')) (\<lambda>s'. Inr (v', s')))"
    and effect_payload: "payload f = payload g \<Longrightarrow> f_cpu f = f_cpu g \<Longrightarrow> effect f v = effect g v"
    and effect_shape: "effect f v = Inr v' \<Longrightarrow> core_shape name (mach v') = core_shape name (mach v)"
begin

lemma effect_cpu:
  assumes "payload f = payload g"
  shows "effect (f\<lparr>f_cpu := Some name\<rparr>) v = effect (g\<lparr>f_cpu := Some name\<rparr>) v"
proof (rule effect_payload)
  have "payload (z\<lparr>f_cpu := Some name\<rparr>) = payload z" for z by (simp add: payload_def strip_def)
  then show "payload (f\<lparr>f_cpu := Some name\<rparr>) = payload (g\<lparr>f_cpu := Some name\<rparr>)" using assms by simp
qed simp

lemma effects_payload:
  "map payload fs = map payload gs \<Longrightarrow> effects effect name fs v = effects effect name gs v"
proof (induction fs arbitrary: gs v)
  case (Cons f fs)
  then obtain g gs' where "gs = g # gs'" "payload f = payload g" "map payload fs = map payload gs'" by (cases gs) auto
  then show ?case using Cons.IH effect_cpu [of f g name] by (auto simp: effects_def bindE_def split: sum.splits)
qed simp

text \<open>What the loop does with the fault that the scan returned.\<close>

lemma first_fault:
  assumes wf: "queues_wf L s" and L: "L qid = xs @ a # ys" and h: "touched (fi_heap s) h" "f_cpu (h ! a) = Some name"
  shows "proc a v (s\<lparr>fi_heap := h\<rparr>) = bindE (effect ((fi_heap s ! a)\<lparr>f_cpu := Some name\<rparr>) v)
      (\<lambda>v'. bindE (check4reschedule a (s\<lparr>fi_heap := h\<rparr>) (mach v')) (\<lambda>s'. Inr (v', s')))"
    "effect ((fi_heap s ! a)\<lparr>f_cpu := Some name\<rparr>) v = Inr v' \<Longrightarrow> core_shape name (mach v) = Some (k, m) \<Longrightarrow>
      serveable m (fi_heap s ! a) \<Longrightarrow>
      core_shape name (mach v') = Some (k, m) \<and>
      (\<exists>s'. check4reschedule a (s\<lparr>fi_heap := h\<rparr>) (mach v') = Inr s' \<and> advanced k qid a L s s')"
proof -
  let ?s = "s\<lparr>fi_heap := h\<rparr>"
  have wf': "queues_wf L ?s" by (rule touched_wf [OF wf h(1)])
  have a: "a < length (fi_heap s)" using queue_next(2) [OF wf L] .
  have "payload (h ! a) = payload ((fi_heap s ! a)\<lparr>f_cpu := Some name\<rparr>)"
    using touchedD(2) [OF h(1) a] by (simp add: payload_def strip_def)
  then have e: "effect (h ! a) v = effect ((fi_heap s ! a)\<lparr>f_cpu := Some name\<rparr>) v"
    by (rule effect_payload) (simp add: h(2))
  show "proc a v ?s = bindE (effect ((fi_heap s ! a)\<lparr>f_cpu := Some name\<rparr>) v)
      (\<lambda>v'. bindE (check4reschedule a ?s (mach v')) (\<lambda>s'. Inr (v', s')))"
    using proc_effect [of a ?s v] queue_next(2,3) [OF wf' L] e by simp
  assume e': "effect ((fi_heap s ! a)\<lparr>f_cpu := Some name\<rparr>) v = Inr v'" and sh: "core_shape name (mach v) = Some (k, m)"
    and se: "serveable m (fi_heap s ! a)"
  have sh': "core_shape name (mach v') = Some (k, m)" using effect_shape [OF e', of name] sh by simp
  then obtain c where c: "map_find name (cpus (mach v')) = Some c" "cpu_clock c = k" "length (threadContexts c) = m"
    by (auto simp: core_shape_def)
  have "0 \<le> f_tcontext (h ! a)" "f_tcontext (h ! a) < int m"
    using se serveable_strip [OF touchedD(2) [OF h(1) a], of m] by (simp_all add: serveable_def)
  then have "fault_cpu (h ! a) (mach v') = Inr c \<and>
      getContext c (f_tcontext (h ! a)) = Inr (threadContexts c ! nat (f_tcontext (h ! a)))"
    using c h(2) by (simp add: fault_cpu_def getContext_def)
  then obtain s' where "check4reschedule a ?s (mach v') = Inr s'" "advanced k qid a L ?s s'"
    using reschedule_advances [OF wf', of a qid "mach v'" c] L c(2) by auto
  then show "core_shape name (mach v') = Some (k, m) \<and>
      (\<exists>s'. check4reschedule a ?s (mach v') = Inr s' \<and> advanced k qid a L s s')"
    using sh' advanced_touched [OF h(1) a] by blast
qed

text \<open>One round of the loop that finds a due fault.\<close>

lemma serve_round:
  assumes wf: "queues_wf L (fs_q fs)" and ok: "activation_ok fs" and th: "at_int (threadList fs) i = Inr th"
    and sh: "core_shape name (mach v) = Some (k, m)" and k: "k \<noteq> 0"
    and se: "\<And>a. a \<in> set (L qid) \<Longrightarrow> serveable m (heap_of fs ! a)"
    and D: "D = due (q_name (the_queue qid (fs_q fs))) name th pc fs"
    and L: "L qid = xs @ a # ys" "\<forall>x\<in>set xs. \<not> D (heap_of fs ! x)" "D (heap_of fs ! a)"
    and h: "scan qid name th pc (mach v) fs = Inr (Some a, with_heap h fs)" "touched (heap_of fs) h" "f_cpu (h ! a) = Some name"
  shows "case effect ((heap_of fs ! a)\<lparr>f_cpu := Some name\<rparr>) v of
      Inl e \<Rightarrow> serve proc mach qid (Suc n) name i pc v fs = Inl e
    | Inr v1 \<Rightarrow> core_shape name (mach v1) = Some (k, m) \<and> (\<exists>L1 s1. first_served k D qid xs a ys L (fs_q fs) L1 s1 \<and>
        serve proc mach qid (Suc n) name i pc v fs = serve proc mach qid n name i pc v1 (fs\<lparr>fs_q := s1\<rparr>))"
proof (cases "effect ((heap_of fs ! a)\<lparr>f_cpu := Some name\<rparr>) v")
  case (Inl e)
  then show ?thesis using first_fault(1) [OF wf L(1) h(2,3)] h(1) th by simp
next
  case (Inr v1)
  note ff = first_fault [OF wf L(1) h(2,3)]
  obtain s1 where s1: "check4reschedule a ((fs_q fs)\<lparr>fi_heap := h\<rparr>) (mach v1) = Inr s1" "advanced k qid a L (fs_q fs) s1"
      and sh1: "core_shape name (mach v1) = Some (k, m)"
    using ff(2) [OF Inr sh se] L(1) by auto
  have "timing_ok (heap_of fs ! a)" using queue_next(3) [OF wf L(1)] by (simp add: fault_wf_def)
  then have "D (resched k (heap_of fs ! a)) \<longleftrightarrow> f_timingType (heap_of fs ! a) = VirtualAddrTiming"
    using due_rescheduled [of _ name th pc fs "heap_of fs ! a" "\<lparr>cpu_clock = k, threadContexts = []\<rparr>"] k L(3)
    by (simp add: D resched_def)
  moreover have "\<forall>x y. strip x = strip y \<longrightarrow> D x = D y" unfolding D using due_cong by blast
  ultimately have "first_served k D qid xs a ys L (fs_q fs)
      (L(qid := if f_occurrence (heap_of fs ! a) = 1 then xs @ ys else L qid)) s1"
    unfolding first_served_def using wf L s1(2) by blast
  moreover have "serve proc mach qid (Suc n) name i pc v fs = serve proc mach qid n name i pc v1 (fs\<lparr>fs_q := s1\<rparr>)"
    using h(1) th ff(1) [of v] Inr s1(1) by simp
  ultimately show ?thesis using Inr sh1 by auto
qed

lemma due_same_names: "same_names (fs_q fs) s1 \<Longrightarrow>
    due (q_name (the_queue qid (fs_q fs))) name th pc fs = due (q_name (the_queue qid s1)) name th pc (fs\<lparr>fs_q := s1\<rparr>)"
  by (rule ext) (simp add: same_names_def due_cong [OF refl, of fs "fs\<lparr>fs_q := s1\<rparr>"])

lemma serve_ok:
  assumes "queues_wf L (fs_q fs)" "activation_ok fs" "at_int (threadList fs) i = Inr th"
    "core_shape name (mach v) = Some (k, m)" "k \<noteq> 0" "\<And>a. a \<in> set (L qid) \<Longrightarrow> serveable m (heap_of fs ! a)"
    "D = due (q_name (the_queue qid (fs_q fs))) name th pc fs"
    "length (injections (filter D (map ((!) (heap_of fs)) (L qid)))) < n"
  shows "case effects effect name (injections (filter D (map ((!) (heap_of fs)) (L qid)))) v of
      Inl e \<Rightarrow> serve proc mach qid n name i pc v fs = Inl e
    | Inr v' \<Rightarrow> \<exists>q. serve proc mach qid n name i pc v fs = Inr (v', fs\<lparr>fs_q := q\<rparr>) \<and> served k D qid L (fs_q fs) q"
  using assms(1,2,3,4,6,7,8)
proof (induction n arbitrary: L fs v)
  case (Suc n)
  let ?h = "heap_of fs" and ?qn = "q_name (the_queue qid (fs_q fs))"
  obtain c where c: "map_find name (cpus (mach v)) = Some c" using Suc.prems(4) by (auto simp: core_shape_def)
  obtain h where h: "scan qid name th pc (mach v) fs = Inr (first_due ?qn name th pc fs (L qid), with_heap h fs)"
      "touched ?h h" "\<And>a. first_due ?qn name th pc fs (L qid) = Some a \<Longrightarrow> f_cpu (h ! a) = Some name"
    using scan_ok [OF Suc.prems(1,2) c, of qid th pc] by blast
  have D: "D f = due ?qn name th pc fs f" for f using Suc.prems(6) by simp
  show ?case
  proof (cases "first_due ?qn name th pc fs (L qid)")
    case None
    then have nd: "\<not> D (?h ! a)" if "a \<in> set (L qid)" for a
      using that by (simp add: first_due_def D find_None_iff)
    then have "filter D (map ((!) ?h) (L qid)) = []" by (simp add: filter_empty_conv)
    moreover have "serve proc mach qid (Suc n) name i pc v fs = Inr (v, with_heap h fs)"
      using h(1) None Suc.prems(3) by simp
    ultimately show ?thesis
      using served_none [OF Suc.prems(1) h(2), of qid D k] nd by (auto simp: effects_def injections_def)
  next
    case (Some a)
    obtain xs ys where L: "L qid = xs @ a # ys" "\<forall>x\<in>set xs. \<not> D (?h ! x)" "D (?h ! a)"
      using find_split Some unfolding first_due_def D by metis
    note round = serve_round [OF Suc.prems(1-4) assms(5) Suc.prems(5,6) L h(1) [unfolded Some] h(2) h(3) [OF Some], of n]
    let ?rest = "\<lambda>L1 s1. injections (filter D (map ((!) (fi_heap s1)) (L1 qid)))"
    have inj: "map payload (?rest L (fs_q fs)) = map payload (?h ! a # ?rest L1 s1)"
      if "first_served k D qid xs a ys L (fs_q fs) L1 s1" for L1 s1
      using first_served_injections [OF that] Suc.prems(5) [of a] L(1) by (simp add: serveable_def)
    show ?thesis
    proof (cases "effect ((?h ! a)\<lparr>f_cpu := Some name\<rparr>) v")
      case (Inl e)
      have "filter D (map ((!) ?h) xs) = []" using L(2) by (simp add: filter_empty_conv)
      moreover obtain m where "firings (?h ! a) = Suc m" using firings_pos by blast
      ultimately have "\<exists>r. injections (filter D (map ((!) ?h) (L qid))) = ?h ! a # r"
        using L(1,3) by (simp add: injections_def)
      then obtain r where "injections (filter D (map ((!) ?h) (L qid))) = ?h ! a # r" ..
      then show ?thesis using round Inl by (simp add: effects_def)
    next
      case (Inr v1)
      then obtain L1 s1 where s1: "first_served k D qid xs a ys L (fs_q fs) L1 s1" and sh: "core_shape name (mach v1) = Some (k, m)"
          and step: "serve proc mach qid (Suc n) name i pc v fs = serve proc mach qid n name i pc v1 (fs\<lparr>fs_q := s1\<rparr>)"
        using round by auto
      let ?fs = "fs\<lparr>fs_q := s1\<rparr>"
      have p: "queues_wf L1 (fs_q ?fs)" "activation_ok ?fs" "at_int (threadList ?fs) i = Inr th"
        "\<And>b. b \<in> set (L1 qid) \<Longrightarrow> serveable m (heap_of ?fs ! b)"
        "D = due (q_name (the_queue qid (fs_q ?fs))) name th pc ?fs"
        "length (?rest L1 (fs_q ?fs)) < n"
        using first_servedD(3) [OF s1] Suc.prems(2,3,6,7) first_served_serveable [OF s1 Suc.prems(5)]
          due_same_names [OF first_servedD(4) [OF s1], of name th pc] arg_cong [OF inj [OF s1], of length]
        by (simp_all add: activation_ok_def)
      have "effects effect name (?rest L (fs_q fs)) v = effects effect name (?rest L1 s1) v1"
        using effects_payload [OF inj [OF s1], of name v] Inr by (simp add: effects_def)
      then show ?thesis
        using Suc.IH [OF p(1-3) sh p(4-6)] served_step [OF s1] unfolding step by (auto split: sum.splits)
    qed
  qed
qed simp

end

end
