(* ===== verification/Fi_Stages.thy ===== *)
theory Fi_Stages
  imports Fi_Hooks
begin

text \<open>
  The hooks of \<open>src/src/fi/fi_system.cc\<close> for the four queues. Each queue's \<open>process\<close> functions meet the
  contract \<open>injection\<close>, so that a hook of an active thread applies the effects of exactly the due
  faults of its queue, in queue order, and counts one instruction; a hook of any other thread does
  nothing.
\<close>

section \<open>What one fault does\<close>

definition fetch_effect :: "InjectedFault \<Rightarrow> u32 \<Rightarrow> u32 res" where
  "fetch_effect f inst =
     (case f_class f of
        CGeneralFetchInjectedFault \<Rightarrow> manifest inst (f_value f) (f_valueType f)
      | COpCodeInjectedFault \<Rightarrow>
          (if f_valueType f = ImmediateValue then Inr (insertBits inst 31 26 (f_value f))
           else if f_valueType f = MaskValue then
             Inr (insertBits inst 31 26 (ucast (bits inst 31 26) XOR f_value f))
           else Inl AssertFail)
      | _ \<Rightarrow> Inl AssertFail)"

definition decode_effect :: "InjectedFault \<Rightarrow> StaticInst \<Rightarrow> StaticInst res" where
  "decode_effect f si =
     (if f_srcOrDst f = SrcRegisterInjectedFault then
        (if f_regToChange f < si_numSrcRegs si then
           bindE (set_int (si_srcRegIdx si) (f_regToChange f) (word_of_int (f_changeToReg f)))
             (\<lambda>l. Inr (si\<lparr>si_srcRegIdx := l\<rparr>))
         else Inr si)
      else
        (if f_regToChange f < si_numDestRegs si then
           bindE (set_int (si_destRegIdx si) (f_regToChange f) (word_of_int (f_changeToReg f)))
             (\<lambda>l. Inr (si\<lparr>si_destRegIdx := l\<rparr>))
         else Inr si))"

definition iew_effect :: "InjectedFault \<Rightarrow> 'a::len word \<Rightarrow> 'a word res" where
  "iew_effect f v = manifest v (f_value f) (f_valueType f)"

interpretation fetch_stage: injection "\<lambda>a v s. Fetch_process a v s w" "\<lambda>_. w" FetchQ fetch_effect for w
proof unfold_locales
  show "Fetch_process a v s w =
      bindE (fetch_effect (fi_heap s ! a) v) (\<lambda>v'. bindE (check4reschedule a s w) (\<lambda>s'. Inr (v', s')))"
    if "a < length (fi_heap s)" for a s v
    using that by (simp add: Fetch_process_def GeneralFetch_process_def OpCode_process_def fetch_effect_def
        O3_check4reschedule_def split: fault_class.split)
  show "fetch_effect f v = fetch_effect g v" if "payload f = payload g" for f g v
    unfolding fetch_effect_def payload_fields [OF that] ..
qed simp

interpretation decode_stage: injection "\<lambda>a v s. RegisterDecoding_process a v s w" "\<lambda>_. w" DecodeQ decode_effect for w
proof unfold_locales
  show "RegisterDecoding_process a v s w =
      bindE (decode_effect (fi_heap s ! a) v) (\<lambda>v'. bindE (check4reschedule a s w) (\<lambda>s'. Inr (v', s')))"
    if "a < length (fi_heap s)" for a s v
    using that by (simp add: RegisterDecoding_process_def decode_effect_def O3_check4reschedule_def Let_def)
  show "decode_effect f v = decode_effect g v" if "payload f = payload g" for f g v
    unfolding decode_effect_def payload_fields [OF that] ..
qed simp

interpretation iew_stage: injection "\<lambda>a v s. IEW_process a v s w" "\<lambda>_. w" IEWQ iew_effect for w
proof unfold_locales
  show "IEW_process a v s w =
      bindE (iew_effect (fi_heap s ! a) v) (\<lambda>v'. bindE (check4reschedule a s w) (\<lambda>s'. Inr (v', s')))"
    if "a < length (fi_heap s)" for a s and v :: "'a::len word"
    using that by (simp add: IEW_process_def iew_effect_def O3_check4reschedule_def)
  show "iew_effect f v = iew_effect g v" if "payload f = payload g" for f g and v :: "'a::len word"
    unfolding iew_effect_def payload_fields [OF that] ..
qed simp

interpretation iew_condition: injection "\<lambda>a v s. IEW_process_bool a v s w" "\<lambda>_. w" IEWQ "\<lambda>_ v. Inr (\<not> v)" for w
  by unfold_locales (simp_all add: IEW_process_bool_def O3_check4reschedule_def)

text \<open>The main queue: registers, the program counter and memory.\<close>

definition main_effect :: "InjectedFault \<Rightarrow> Machine \<Rightarrow> Machine res" where
  "main_effect f w =
     (case f_class f of
        CRegisterInjectedFault \<Rightarrow> Register_inject f w
      | CPCInjectedFault \<Rightarrow> PC_inject f w
      | CMemoryInjectedFault \<Rightarrow> Memory_inject f w
      | _ \<Rightarrow> Inl AssertFail)"

lemma map_find_assign_any: "map_find k (map_assign k' v m) = (if k = k' then Some v else map_find k m)"
  by (induction m) auto

lemma put_context_shape: "put_context f tc w = Inr w' \<Longrightarrow> core_shape name w' = core_shape name w"
  by (auto simp: put_context_def fault_cpu_def core_shape_def set_int_def bindE_eq_Inr map_find_assign_any
      split: option.splits if_splits)

lemma main_effect_shape: "main_effect f w = Inr w' \<Longrightarrow> core_shape name w' = core_shape name w"
proof -
  assume e: "main_effect f w = Inr w'"
  have "Register_inject f w = Inr w' \<Longrightarrow> \<exists>tc. put_context f tc w = Inr w'"
    by (auto simp: Register_inject_def bindE_eq_Inr split: if_splits prod.splits)
  moreover have "PC_inject f w = Inr w' \<Longrightarrow> \<exists>tc. put_context f tc w = Inr w'"
    by (auto simp: PC_inject_def bindE_eq_Inr)
  moreover have "Memory_inject f w = Inr w' \<Longrightarrow> cpus w' = cpus w"
    by (auto simp: Memory_inject_def bindE_eq_Inr Let_def split: if_splits prod.splits)
  ultimately show ?thesis
    using e put_context_shape by (auto simp: main_effect_def core_shape_def split: fault_class.splits)
qed

lemma main_effect_payload:
  assumes "payload f = payload g" "f_cpu f = f_cpu g"
  shows "main_effect f w = main_effect g w"
  unfolding main_effect_def Register_inject_def PC_inject_def Memory_inject_def fault_context_def put_context_def
    fault_cpu_def payload_fields [OF assms(1)] assms(2) ..

interpretation main_stage: injection "\<lambda>a w s. bindE (CPU_process a s w) (\<lambda>(s, w). Inr (w, s))" id MainQ main_effect
proof unfold_locales
  show "bindE (CPU_process a s w) (\<lambda>(s, w). Inr (w, s)) =
      bindE (main_effect (fi_heap s ! a) w) (\<lambda>w'. bindE (check4reschedule a s (id w')) (\<lambda>s'. Inr (w', s')))"
    if "a < length (fi_heap s)" for a s w
    using that by (simp add: CPU_process_def main_effect_def Register_process_def PC_process_def Memory_process_def
        bindE_assoc split: fault_class.split)
  show "main_effect f w = main_effect g w" if "payload f = payload g" "f_cpu f = f_cpu g" for f g w
    using that by (rule main_effect_payload)
  show "core_shape name (id w') = core_shape name (id w)" if "main_effect f w = Inr w'" for f w w' name
    using main_effect_shape [OF that] by simp
qed

section \<open>The hooks\<close>

lemma active_thread_range:
  assumes "activation_ok fs" "active_thread FullSystem tc fs = Inr (Some i)"
  shows "0 \<le> i" "i < int (length (threadList fs))" "at_int (threadList fs) i = Inr (threadList fs ! nat i)"
proof -
  obtain p where "map_find p (fi_activation fs) = Some i" "i \<noteq> - 1"
    using assms(2) by (auto simp: active_thread_def bindE_eq_Inr split: if_splits option.splits prod.splits)
  then have "(p, i) \<in> set (fi_activation fs)" by (simp add: map_find_map_of map_of_SomeD)
  then show r: "0 \<le> i" "i < int (length (threadList fs))"
    using assms(1) \<open>i \<noteq> - 1\<close> by (auto simp: activation_ok_def)
  then show "at_int (threadList fs) i = Inr (threadList fs ! nat i)" by simp
qed

text \<open>The faults of a queue that are due for the thread \<open>i\<close> on the core \<open>name\<close>.\<close>

definition due_here :: "queue_id \<Rightarrow> string \<Rightarrow> int \<Rightarrow> ThreadContext \<Rightarrow> Fi_System \<Rightarrow> InjectedFault \<Rightarrow> bool" where
  "due_here qid name i tc fs = due (q_name (the_queue qid (fs_q fs))) name (threadList fs ! nat i) (instAddr (tc_pcState tc)) fs"

definition due_faults :: "queue_id \<Rightarrow> (queue_id \<Rightarrow> nat list) \<Rightarrow> string \<Rightarrow> int \<Rightarrow> ThreadContext \<Rightarrow> Fi_System \<Rightarrow> InjectedFault list" where
  "due_faults qid L name i tc fs = filter (due_here qid name i tc fs) (map ((!) (heap_of fs)) (L qid))"

text \<open>A hook can be called: well-formed queues and threads, a running core, and faults for its contexts.\<close>

definition hook_ready :: "queue_id \<Rightarrow> (queue_id \<Rightarrow> nat list) \<Rightarrow> string \<Rightarrow> int \<Rightarrow> ThreadContext \<Rightarrow> u64 \<Rightarrow> Machine \<Rightarrow> Fi_System \<Rightarrow> bool" where
  "hook_ready qid L name i tc k w fs \<longleftrightarrow>
     queues_wf L (fs_q fs) \<and> activation_ok fs \<and> active_thread True tc fs = Inr (Some i) \<and>
     (case map_find name (cpus w) of None \<Rightarrow> False
      | Some c \<Rightarrow> cpu_clock c = k \<and> k \<noteq> 0 \<and>
          (\<forall>a\<in>set (L qid). serveable (length (threadContexts c)) (heap_of fs ! a)))"

text \<open>\<open>serve_ok\<close> for the loop of a hook.\<close>

lemma hook_readyD:
  assumes "hook_ready qid L name i tc k w fs"
  shows "queues_wf L (fs_q fs)" "activation_ok fs" "active_thread True tc fs = Inr (Some i)" "k \<noteq> 0"
    "at_int (threadList fs) i = Inr (threadList fs ! nat i)"
    "\<exists>m. core_shape name w = Some (k, m) \<and> (\<forall>a\<in>set (L qid). serveable m (heap_of fs ! a))"
  using assms active_thread_range [of fs True tc i]
  by (auto simp: hook_ready_def core_shape_def split: option.splits)

text \<open>
  The outcome of a hook with the effect \<open>e\<close>: an error of a fault ends the hook; otherwise the value is
  the one with all effects, the queue has been served, and \<open>count\<close> was applied to the thread.
\<close>

definition hook_outcome :: "'v res \<Rightarrow> u64 \<Rightarrow> (InjectedFault \<Rightarrow> bool) \<Rightarrow> queue_id \<Rightarrow> (queue_id \<Rightarrow> nat list) \<Rightarrow> int \<Rightarrow>
  (ThreadEnabledFault \<Rightarrow> ThreadEnabledFault) \<Rightarrow> Fi_System \<Rightarrow> ('v \<times> Fi_System) res \<Rightarrow> bool" where
  "hook_outcome e k D qid L i count fs r \<longleftrightarrow>
     (case e of Inl x \<Rightarrow> r = Inl x
      | Inr v \<Rightarrow> \<exists>q. r = Inr (v, fs\<lparr>fs_q := q, threadList := (threadList fs)[nat i := count (threadList fs ! nat i)]\<rparr>) \<and>
          served k D qid L (fs_q fs) q)"

context injection
begin

lemma hook_ok:
  assumes "hook_ready qid L name i tc k (mach v) fs" "length (injections (due_faults qid L name i tc fs)) < n"
  shows "case effects effect name (injections (due_faults qid L name i tc fs)) v of
      Inl e \<Rightarrow> serve proc mach qid n name i (instAddr (tc_pcState tc)) v fs = Inl e
    | Inr v' \<Rightarrow> \<exists>q. serve proc mach qid n name i (instAddr (tc_pcState tc)) v fs = Inr (v', fs\<lparr>fs_q := q\<rparr>) \<and>
        served k (due_here qid name i tc fs) qid L (fs_q fs) q"
proof -
  let ?D = "due_here qid name i tc fs"
  note r = hook_readyD [OF assms(1)]
  obtain m where m: "core_shape name (mach v) = Some (k, m)" "\<And>a. a \<in> set (L qid) \<Longrightarrow> serveable m (heap_of fs ! a)"
    using r(6) by blast
  have f: "filter ?D (map ((!) (heap_of fs)) (L qid)) = due_faults qid L name i tc fs" by (simp add: due_faults_def)
  then have "length (injections (filter ?D (map ((!) (heap_of fs)) (L qid)))) < n" using assms(2) by simp
  from serve_ok [OF r(1,2,5) m(1) r(4) m(2) due_here_def this] show ?thesis unfolding f .
qed

text \<open>With the counter of the thread, which every hook but the one of the main queue advances.\<close>

lemma counted_hook_ok:
  assumes "hook_ready qid L name i tc k (mach v) fs" "length (injections (due_faults qid L name i tc fs)) < n"
    and inc: "\<And>fs. inc fs = bindE (at_int (threadList fs) i) (\<lambda>t. Inr (fs\<lparr>threadList := (threadList fs)[nat i := count t]\<rparr>))"
  shows "hook_outcome (effects effect name (injections (due_faults qid L name i tc fs)) v) k (due_here qid name i tc fs) qid L i count fs
    (bindE (serve proc mach qid n name i (instAddr (tc_pcState tc)) v fs) (\<lambda>(v, fs). bindE (inc fs) (\<lambda>fs. Inr (v, fs))))"
  using hook_ok [OF assms(1,2)] hook_readyD(5) [OF assms(1)]
  by (auto simp: hook_outcome_def inc split: sum.splits)

end

lemmas hook_defs = fetch_fault_def decode_fault_def iew_fault_def iew_fault_bool_def

lemma negations: "effects (\<lambda>_ v. Inr (\<not> v)) name fs v = Inr (v = even (length fs))"
  by (induction fs arbitrary: v) (auto simp: effects_def)

subsection \<open>A sample system\<close>

text \<open>
  One active thread in user mode that has fetched, decoded and executed 7 instructions on the core
  \<open>c\<close>, and one fault in the queue \<open>qid\<close> for its instruction 7, which inverts the top bit.
\<close>

definition sample_fault :: "queue_id \<Rightarrow> fault_class \<Rightarrow> InjectedFault" where
  "sample_fault qid cl = zero_fault\<lparr>f_class := cl, f_faultType := type_of_class cl, f_queue := Some qid,
     f_timingType := InstructionTiming, f_timing := 7, f_occurrence := 1, f_valueType := MaskValue,
     f_value := 0x8000000000000000, f_where := ''c'', f_thread := ''0''\<rparr>"

definition sample_queue :: "queue_id \<Rightarrow> queue_id \<Rightarrow> string \<Rightarrow> InjectedFaultQueue" where
  "sample_queue qid q n = \<lparr>q_name = n, q_head = (if q = qid then Some 0 else None), q_tail = (if q = qid then Some 0 else None)\<rparr>"

definition sample_thread :: ThreadEnabledFault where
  "sample_thread = \<lparr>MagicInstVirtualAddr = 0, threadId = 0, myId = 0,
     cores = [(''c'', \<lparr>instrFetched = 7, instrDecoded = 7, instrExexuted = 7, c_ticks = 3500, c_name = ''c''\<rparr>)]\<rparr>"

definition sample_system :: "queue_id \<Rightarrow> fault_class \<Rightarrow> Fi_System" where
  "sample_system qid cl = \<lparr>fs_q = \<lparr>fi_heap = [sample_fault qid cl],
       mainInjectedFaultQueue = sample_queue qid MainQ ''MainFaultQueue'',
       fetchStageInjectedFaultQueue = sample_queue qid FetchQ ''FetchStageFaultQueue'',
       decodeStageInjectedFaultQueue = sample_queue qid DecodeQ ''DecodeStageFaultQueue'',
       iewStageInjectedFaultQueue = sample_queue qid IEWQ ''IEWStageFaultQueue'', faultCnt = 1\<rparr>,
     fi_activation = [(0x2000, 0)], threadList = [sample_thread], vectorpos = 1, in_name = [],
     check_before_init = False, my_id_counter = 1\<rparr>"

definition sample_context :: ThreadContext where
  "sample_context = zero_context\<lparr>tc_isa := ISA_clear\<lparr>ipr := (replicate 74 0)[56 := 0x2000, 58 := 0x18]\<rparr>\<rparr>"

definition sample_list :: "queue_id \<Rightarrow> queue_id \<Rightarrow> nat list" where
  "sample_list qid = (\<lambda>_. [])(qid := [0])"

lemma sample_active: "active_thread True sample_context (sample_system qid cl) = Inr (Some 0)"
  by code_simp

lemma sample_injections: "injections [sample_fault qid cl] = [sample_fault qid cl]"
  by (simp add: injections_def firings_def sample_fault_def zero_fault_def timing_types)

lemma sample_ready:
  assumes "class_fits qid cl"
  shows "hook_ready qid (sample_list qid) ''c'' 0 sample_context 500 one_machine (sample_system qid cl)"
    "due_faults qid (sample_list qid) ''c'' 0 sample_context (sample_system qid cl) = [sample_fault qid cl]"
proof -
  have f: "fault_wf qid (sample_fault qid cl)"
    using assms by (simp add: fault_wf_def sample_fault_def zero_fault_def timing_ok_def value_ok_def)
  have q: "the_queue q (fs_q (sample_system qid cl)) = sample_queue qid q (q_name (the_queue q (fs_q (sample_system qid cl))))"
    for q by (cases q) (simp_all add: the_queue_def sample_system_def sample_queue_def)
  have h: "heap_of (sample_system qid cl) = [sample_fault qid cl]" by (simp add: sample_system_def)
  have "queue_list (heap_of (sample_system qid cl), the_queue q (fs_q (sample_system qid cl))) (sample_list qid q)" for q
    unfolding h by (subst q) (simp add: queue_list_def sample_queue_def sample_list_def sample_fault_def zero_fault_def)
  then have "queues_wf (sample_list qid) (fs_q (sample_system qid cl))"
    using f by (auto simp: queues_wf_def queues_repr_def h sample_list_def sample_fault_def zero_fault_def)
  moreover have "activation_ok (sample_system qid cl)" by (simp add: activation_ok_def sample_system_def)
  moreover have "serveable 1 (sample_fault qid cl)"
    by (simp add: serveable_def int_range_def sample_fault_def zero_fault_def)
  ultimately show "hook_ready qid (sample_list qid) ''c'' 0 sample_context 500 one_machine (sample_system qid cl)"
    by (simp add: hook_ready_def sample_active one_machine_def one_cpu_def h sample_list_def)
  have "due_here qid ''c'' 0 sample_context (sample_system qid cl) (sample_fault qid cl)"
  proof -
    have "atoi ''0'' = 0" by code_simp
    then have "counters n ''c'' sample_thread fs (sample_fault qid cl) = (7, 3500)" for n fs
      by (simp add: counters_def get_fi_counters_def select_counters_def sample_fault_def zero_fault_def sample_thread_def
          CalculateFetchedTime_def CalculateExecutedTime_def)
    moreover have "threadList (sample_system qid cl) ! nat 0 = sample_thread" by (simp add: sample_system_def)
    ultimately show ?thesis
      unfolding due_here_def by (simp add: due_def fires_def sample_fault_def zero_fault_def timing_types)
  qed
  then show "due_faults qid (sample_list qid) ''c'' 0 sample_context (sample_system qid cl) = [sample_fault qid cl]"
    by (simp add: due_faults_def sample_list_def h)
qed

subsection \<open>Correctness of the hooks\<close>

text \<open>
  (C4) The fetch hook of an active thread changes the fetched instruction by the effects of exactly
  the faults that are due, in queue order, a fault on an address once for each occurrence it has left.
  Faults on an address or with one occurrence left are then out of the queue, the other due ones are
  rescheduled, nothing else of the queues changes, and the thread has one more fetched instruction.
\<close>

theorem fetch_fault_correct:
  assumes "hook_ready FetchQ L name i tc k w fs" "length (injections (due_faults FetchQ L name i tc fs)) < fuel"
  shows "hook_outcome (effects fetch_effect name (injections (due_faults FetchQ L name i tc fs)) inst) k
    (due_here FetchQ name i tc fs) FetchQ L i (increaseFetchedInstr name) fs (fetch_fault True fuel name tc w inst fs)"
  using fetch_stage.counted_hook_ok [OF assms increase_instr_fetched_def] hook_readyD(3) [OF assms(1)]
  by (simp add: hook_defs stage_loop_serve)

theorem fetch_fault_correct_witness:
  "\<exists>fs'. fetch_fault True 2 ''c'' sample_context one_machine 0x47FF0401 (sample_system FetchQ CGeneralFetchInjectedFault)
     = Inr (0xC7FF0401, fs')"
proof -
  have "effects fetch_effect ''c'' [sample_fault FetchQ CGeneralFetchInjectedFault] 0x47FF0401 = Inr 0xC7FF0401"
    by code_simp
  then show ?thesis
    using fetch_fault_correct [OF sample_ready(1) [of FetchQ CGeneralFetchInjectedFault], of 2 "0x47FF0401"]
      sample_ready(2) [of FetchQ CGeneralFetchInjectedFault]
    by (auto simp: sample_injections hook_outcome_def class_fits_def)
qed

text \<open>(C11) The decode hook, which changes the register fields of the decoded instruction.\<close>

theorem decode_fault_correct:
  assumes "hook_ready DecodeQ L name i tc k w fs" "length (injections (due_faults DecodeQ L name i tc fs)) < fuel"
  shows "hook_outcome (effects decode_effect name (injections (due_faults DecodeQ L name i tc fs)) si) k
    (due_here DecodeQ name i tc fs) DecodeQ L i (increaseDecodedInstr name) fs (decode_fault True fuel name tc w si fs)"
  using decode_stage.counted_hook_ok [OF assms increase_instr_decoded_def] hook_readyD(3) [OF assms(1)]
  by (simp add: hook_defs stage_loop_serve)

theorem decode_fault_correct_witness:
  "\<exists>fs'. decode_fault True 2 ''c'' sample_context one_machine
      \<lparr>si_numSrcRegs = 1, si_numDestRegs = 1, si_srcRegIdx = [3], si_destRegIdx = [5]\<rparr>
      (sample_system DecodeQ CRegisterDecodingInjectedFault)
     = Inr (\<lparr>si_numSrcRegs = 1, si_numDestRegs = 1, si_srcRegIdx = [3], si_destRegIdx = [0]\<rparr>, fs')"
proof -
  let ?si = "\<lparr>si_numSrcRegs = 1, si_numDestRegs = 1, si_srcRegIdx = [3], si_destRegIdx = [5]\<rparr>"
  have "effects decode_effect ''c'' [sample_fault DecodeQ CRegisterDecodingInjectedFault] ?si = Inr (?si\<lparr>si_destRegIdx := [0]\<rparr>)"
    by code_simp
  then show ?thesis
    using decode_fault_correct [OF sample_ready(1) [of DecodeQ CRegisterDecodingInjectedFault], of 2 ?si]
      sample_ready(2) [of DecodeQ CRegisterDecodingInjectedFault]
    by (auto simp: sample_injections hook_outcome_def class_fits_def)
qed

text \<open>
  (C10) The execution hook: a value goes through the corruptions of all due faults; a condition is
  negated once for each injection.
\<close>

theorem iew_fault_correct:
  assumes "hook_ready IEWQ L name i tc k w fs" "length (injections (due_faults IEWQ L name i tc fs)) < fuel"
  shows "hook_outcome (effects iew_effect name (injections (due_faults IEWQ L name i tc fs)) v) k
      (due_here IEWQ name i tc fs) IEWQ L i (increaseExecutedInstr name) fs (iew_fault True fuel name tc w v fs) \<and>
    hook_outcome (Inr (b = even (length (injections (due_faults IEWQ L name i tc fs))))) k
      (due_here IEWQ name i tc fs) IEWQ L i (increaseExecutedInstr name) fs (iew_fault_bool True fuel name tc w b fs)"
  using iew_stage.counted_hook_ok [OF assms increase_instr_executed_def]
    iew_condition.counted_hook_ok [OF assms increase_instr_executed_def] hook_readyD(3) [OF assms(1)]
  by (simp add: hook_defs stage_loop_serve negations)

theorem iew_fault_correct_witness:
  "(\<exists>fs'. iew_fault True 2 ''c'' sample_context one_machine (0x10 :: u64) (sample_system IEWQ CIEWStageInjectedFault)
     = Inr (0x8000000000000010, fs')) \<and>
   (\<exists>fs'. iew_fault_bool True 2 ''c'' sample_context one_machine True (sample_system IEWQ CIEWStageInjectedFault)
     = Inr (False, fs'))"
proof -
  have "effects iew_effect ''c'' [sample_fault IEWQ CIEWStageInjectedFault] (0x10 :: u64) = Inr 0x8000000000000010"
    by code_simp
  then show ?thesis
    using iew_fault_correct [OF sample_ready(1) [of IEWQ CIEWStageInjectedFault], of 2 "0x10 :: u64" True]
      sample_ready(2) [of IEWQ CIEWStageInjectedFault]
    by (auto simp: sample_injections hook_outcome_def class_fits_def)
qed

text \<open>
  (C9) The hook of the main queue, called once per instruction: registers, program counter and memory
  of the machine go through the effects of all due faults; no counter changes.
\<close>

theorem main_fault_correct:
  assumes "hook_ready MainQ L name i tc k w fs" "length (injections (due_faults MainQ L name i tc fs)) < fuel"
  shows "case effects main_effect name (injections (due_faults MainQ L name i tc fs)) w of
      Inl e \<Rightarrow> main_fault True fuel name tc fs w = Inl e
    | Inr w' \<Rightarrow> \<exists>q. main_fault True fuel name tc fs w = Inr (fs\<lparr>fs_q := q\<rparr>, w') \<and>
        served k (due_here MainQ name i tc fs) MainQ L (fs_q fs) q"
  using main_stage.hook_ok [of L name i tc k w fs, unfolded id_apply, OF assms] hook_readyD(3) [OF assms(1)]
  by (auto simp: main_fault_def main_loop_serve id_def split: sum.splits)

theorem main_fault_correct_witness:
  "\<exists>fs' w'. main_fault True 2 ''c'' sample_context (sample_system MainQ CPCInjectedFault) one_machine = Inr (fs', w') \<and>
     map_option (\<lambda>c. tc_pcState (hd (threadContexts c))) (map_find ''c'' (cpus w')) = Some (PCState_set 0x8000000000000000)"
proof -
  obtain w' where w': "effects main_effect ''c'' [sample_fault MainQ CPCInjectedFault] one_machine = Inr w'"
      "map_option (\<lambda>c. tc_pcState (hd (threadContexts c))) (map_find ''c'' (cpus w')) = Some (PCState_set 0x8000000000000000)"
  proof -
    have "case effects main_effect ''c'' [sample_fault MainQ CPCInjectedFault] one_machine of Inl e \<Rightarrow> False
      | Inr w' \<Rightarrow> map_option (\<lambda>c. tc_pcState (hd (threadContexts c))) (map_find ''c'' (cpus w')) = Some (PCState_set 0x8000000000000000)"
      by code_simp
    then show thesis using that by (auto split: sum.splits)
  qed
  then show ?thesis
    using main_fault_correct [OF sample_ready(1) [of MainQ CPCInjectedFault], of 2]
      sample_ready(2) [of MainQ CPCInjectedFault]
    by (auto simp: sample_injections class_fits_def)
qed

end
