(* ===== verification/Fi_Activation.thy ===== *)
theory Fi_Activation
  imports Fi_Stages
begin

text \<open>
  The life of the fault injection system: construction, the pseudo instructions of
  \<open>src/src/sim/pseudo_inst.cc\<close> and the hooks as steps of a transition relation. The queues stay
  well-formed in every reachable state; the activation map stays valid until a reset happens while
  a thread is active.
\<close>

section \<open>Emptying the queues\<close>

lemma queue_empty_list: "queue_list (h, q) xs \<Longrightarrow> queue_empty q \<longleftrightarrow> xs = []"
  by (auto simp: queue_list_def queue_empty_def)

lemma same_core_trans: "same_core h h' \<Longrightarrow> same_core h' h'' \<Longrightarrow> same_core h h''"
  by (simp add: same_core_def)

lemma drain_ok:
  assumes "queues_repr L s" "length (L qid) < n"
  shows "\<exists>s'. drain n qid s = Inr s' \<and> queues_repr (L(qid := [])) s' \<and> same_core (fi_heap s) (fi_heap s')"
  using assms
proof (induction n arbitrary: L s)
  case (Suc n)
  note q = queues_reprD(1) [OF Suc.prems(1), of qid]
  show ?case
  proof (cases "L qid")
    case Nil
    then have "L(qid := []) = L" by auto
    then show ?thesis using Suc.prems(1) Nil queue_empty_list [OF q] by simp
  next
    case (Cons a ys)
    obtain s1 where s1: "remove_from qid a s = Inr s1" "queues_repr (L(qid := ys)) s1" "same_core (fi_heap s) (fi_heap s1)"
      using remove_from_repr [OF Suc.prems(1), of a qid] Cons by auto
    have "length ((L(qid := ys)) qid) < n" using Suc.prems(2) Cons by simp
    from Suc.IH [OF s1(2) this, unfolded fun_upd_upd] obtain s2
      where "drain n qid s1 = Inr s2" "queues_repr (L(qid := [])) s2" "same_core (fi_heap s1) (fi_heap s2)" by blast
    moreover have "q_head (the_queue qid s) = Some a" "\<not> queue_empty (the_queue qid s)"
      using q Cons queue_empty_list [OF q] by (auto simp: queue_list_def)
    ultimately show ?thesis using s1 by (auto simp del: fun_upd_apply intro: same_core_trans)
  qed
qed simp

lemma drain_all:
  assumes "queues_repr L s"
  shows "\<exists>s'. bindE (drain (Suc (length (fi_heap s))) MainQ s) (\<lambda>q. bindE (drain (Suc (length (fi_heap s))) FetchQ q) (\<lambda>q.
      bindE (drain (Suc (length (fi_heap s))) DecodeQ q) (drain (Suc (length (fi_heap s))) IEWQ))) = Inr s' \<and>
    same_core (fi_heap s) (fi_heap s')"
proof -
  let ?n = "Suc (length (fi_heap s))"
  have lt: "length (L' qid) < ?n" if "queues_repr L' s'" "same_core (fi_heap s) (fi_heap s')" for L' s' qid
    using queues_reprD(1) [OF that(1), of qid] chain_length same_core_length [OF that(2)]
    by (fastforce simp: queue_list_def less_Suc_eq_le)
  have d: "\<exists>s'' L''. drain ?n qid s' = Inr s'' \<and> queues_repr L'' s'' \<and> same_core (fi_heap s) (fi_heap s'')"
    if "queues_repr L' s'" "same_core (fi_heap s) (fi_heap s')" for L' s' qid
    using drain_ok [OF that(1) lt [OF that]] same_core_trans [OF that(2)] by blast
  have refl: "same_core (fi_heap s) (fi_heap s)" by (simp add: same_core_def)
  obtain s1 L1 where 1: "drain ?n MainQ s = Inr s1" "queues_repr L1 s1" "same_core (fi_heap s) (fi_heap s1)"
    using d [OF assms refl] by blast
  obtain s2 L2 where 2: "drain ?n FetchQ s1 = Inr s2" "queues_repr L2 s2" "same_core (fi_heap s) (fi_heap s2)"
    using d [OF 1(2,3)] by blast
  obtain s3 L3 where 3: "drain ?n DecodeQ s2 = Inr s3" "queues_repr L3 s3" "same_core (fi_heap s) (fi_heap s3)"
    using d [OF 2(2,3)] by blast
  obtain s4 L4 where "drain ?n IEWQ s3 = Inr s4" "same_core (fi_heap s) (fi_heap s4)"
    using d [OF 3(2,3)] by blast
  then show ?thesis using 1 2 3 by simp
qed

lemma reset_spec:
  assumes "queues_repr L (fs_q fs)"
  shows "\<exists>q. same_core (heap_of fs) (fi_heap q) \<and>
    reset alloc files fs = load_faults alloc files (fs\<lparr>fs_q := reset_queues q, threadList := [], vectorpos := 0\<rparr>)"
proof -
  obtain q where q: "same_core (heap_of fs) (fi_heap q)" and
    "bindE (drain (Suc (length (heap_of fs))) MainQ (fs_q fs)) (\<lambda>q. bindE (drain (Suc (length (heap_of fs))) FetchQ q) (\<lambda>q.
      bindE (drain (Suc (length (heap_of fs))) DecodeQ q) (drain (Suc (length (heap_of fs))) IEWQ))) = Inr q"
    using drain_all [OF assms] by blast
  then have "reset alloc files fs = load_faults alloc files (fs\<lparr>vectorpos := 0, fs_q := reset_queues q, threadList := []\<rparr>)"
    by (auto simp: reset_def Let_def bindE_eq_Inr simp del: drain.simps)
  moreover have "fs\<lparr>vectorpos := 0, fs_q := reset_queues q, threadList := []\<rparr> =
      fs\<lparr>fs_q := reset_queues q, threadList := [], vectorpos := 0\<rparr>" by (cases fs) simp
  ultimately show ?thesis using q by auto
qed

section \<open>Partial correctness of the hooks\<close>

text \<open>Whatever a scan that returns did, it wrote bookkeeping fields only and found a member of the queue.\<close>

lemma classify_partial: "classify a s w cnt q = Inr (i, q') \<Longrightarrow> a < length (fi_heap q) \<and> touched (fi_heap q) (fi_heap q') \<and> q' = q\<lparr>fi_heap := fi_heap q'\<rparr>"
  by (auto simp: classify_def set_core_def upd_fault_def bindE_eq_Inr deref_def upd_def touched_upd split: if_splits)

lemma scan_walk_partial:
  assumes "queues_wf L (fs_q fs)" "L qid = xs @ ys" "scan_walk n qname s th va w (first_ptr ys None) fs = Inr (r, fs')"
  shows "\<exists>h. fs' = with_heap h fs \<and> touched (heap_of fs) h \<and> (\<forall>a. r = Some a \<longrightarrow> a \<in> set (L qid))"
  using assms
proof (induction n arbitrary: xs ys fs)
  case (Suc n)
  show ?case
  proof (cases ys)
    case Nil
    then show ?thesis using Suc.prems(3) by (intro exI [of _ "heap_of fs"]) auto
  next
    case (Cons a zs)
    let ?p = "heap_of fs ! a"
    have a: "f_nxt ?p = first_ptr zs None" "a < length (heap_of fs)" using queue_next [OF Suc.prems(1)] Suc.prems(2) Cons by auto
    have L: "L qid = (xs @ [a]) @ zs" "a \<in> set (L qid)" using Suc.prems(2) Cons by auto
    have go: ?thesis if "touched (heap_of fs) h1"
      "scan_walk n qname s th va w (first_ptr zs None) (with_heap h1 fs) = Inr (r, fs')" for h1
    proof -
      have "queues_wf L (fs_q (with_heap h1 fs))" using touched_wf [OF Suc.prems(1) that(1)] by simp
      from Suc.IH [OF this L(1) that(2)] show ?thesis using touched_trans [OF that(1)] by auto
    qed
    show ?thesis
    proof (cases "f_manifested ?p")
      case True
      then show ?thesis using Suc.prems(3) Cons a by (intro go [of "heap_of fs"]) auto
    next
      case False
      then obtain cnt i q where c: "get_fi_counters qname ?p th s fs = Inr cnt" "classify a s w cnt (fs_q fs) = Inr (i, q)"
        using Suc.prems(3) Cons a by (auto simp: bindE_eq_Inr)
      have q: "touched (heap_of fs) (fi_heap q)" "fs\<lparr>fs_q := q\<rparr> = with_heap (fi_heap q) fs" "a < length (fi_heap q)"
        and q': "q\<lparr>fi_heap := h\<rparr> = (fs_q fs)\<lparr>fi_heap := h\<rparr>" for h
      proof -
        note cp = classify_partial [OF c(2)]
        show "touched (heap_of fs) (fi_heap q)" "a < length (fi_heap q)" using cp touchedD(1) by auto
        have "q = (fs_q fs)\<lparr>fi_heap := fi_heap q\<rparr>" using cp by blast
        then show "fs\<lparr>fs_q := q\<rparr> = with_heap (fi_heap q) fs" by (rule arg_cong)
        show "q\<lparr>fi_heap := h\<rparr> = (fs_q fs)\<lparr>fi_heap := h\<rparr>"
          by (subst \<open>q = (fs_q fs)\<lparr>fi_heap := fi_heap q\<rparr>\<close>) simp
      qed
      show ?thesis
      proof (cases "i \<noteq> 0 \<and> (\<exists>v. timing_match ?p cnt th va = Inr (Some v))")
        case True
        then obtain v where "fs' = with_heap ((fi_heap q)[a := (fi_heap q ! a)\<lparr>f_servicedAt := v\<rparr>]) fs" "r = Some a"
          using Suc.prems(3) Cons a c(1,2) q(3) False by (auto simp: Let_def upd_fault_def q')
        then show ?thesis using touched_trans [OF q(1) touched_upd(2) [OF q(3)]] L(2) by blast
      next
        case ni: False
        then have "scan_walk n qname s th va w (first_ptr zs None) (fs\<lparr>fs_q := q\<rparr>) = Inr (r, fs')"
          using Suc.prems(3) Cons a c False by (auto simp: Let_def bindE_eq_Inr split: if_splits option.splits)
        then show ?thesis using go [OF q(1)] q(2) by simp
      qed
    qed
  qed
qed simp

lemma scan_partial:
  assumes "queues_wf L (fs_q fs)" "scan qid s th va w fs = Inr (r, fs')"
  shows "\<exists>h. fs' = with_heap h fs \<and> touched (heap_of fs) h \<and> (\<forall>a. r = Some a \<longrightarrow> a \<in> set (L qid))"
proof -
  have "q_head (the_queue qid (fs_q fs)) = first_ptr (L qid) None"
    using assms(1) queues_reprD(1) [of L "fs_q fs" qid] by (simp add: queues_wf_def queue_list_def)
  then show ?thesis
    using scan_walk_partial [OF assms(1), of qid "[]" "L qid"] assms(2) by (simp add: scan_def Let_def)
qed

lemma reschedule_partial:
  assumes "queues_wf L s" "a \<in> set (L qid)" "check4reschedule a s w = Inr s'"
  shows "\<exists>L'. queues_wf L' s'"
proof -
  have "a < length (fi_heap s)" using assms(1,2) queues_reprD(3) [of L s a qid] by (simp add: queues_wf_def)
  then obtain c tc where c: "f_occurrence (fi_heap s ! a) \<noteq> 1 \<Longrightarrow>
      fault_cpu (fi_heap s ! a) w = Inr c \<and> getContext c (f_tcontext (fi_heap s ! a)) = Inr tc"
    using assms(3) by (cases "f_occurrence (fi_heap s ! a) = 1") (auto simp: check4reschedule_def bindE_eq_Inr)
  have "\<exists>s'. check4reschedule a s w = Inr s' \<and> advanced (cpu_clock c) qid a L s s'"
    by (rule reschedule_advances [OF assms(1,2) c])
  then show ?thesis using assms(3) by (auto simp: advanced_def)
qed

context injection
begin

lemma serve_partial:
  assumes "queues_wf L (fs_q fs)" "serve proc mach qid n name i pc v fs = Inr (v', fs')"
  shows "\<exists>L' q. queues_wf L' q \<and> fs' = fs\<lparr>fs_q := q\<rparr>"
  using assms
proof (induction n arbitrary: L v fs)
  case (Suc n)
  obtain th r fs1 where r: "at_int (threadList fs) i = Inr th" "scan qid name th pc (mach v) fs = Inr (r, fs1)"
    using Suc.prems(2) by (auto simp: bindE_eq_Inr)
  obtain h where h: "fs1 = with_heap h fs" "touched (heap_of fs) h" "\<And>a. r = Some a \<Longrightarrow> a \<in> set (L qid)"
    using scan_partial [OF Suc.prems(1) r(2)] by blast
  have wf: "queues_wf L (fs_q fs1)" using touched_wf [OF Suc.prems(1) h(2)] h(1) by simp
  show ?case
  proof (cases r)
    case None
    then show ?thesis using Suc.prems(2) r h(1) touched_wf [OF Suc.prems(1) h(2)] by (intro exI [of _ L] exI [of _ "(fs_q fs)\<lparr>fi_heap := h\<rparr>"]) simp
  next
    case (Some a)
    then have a: "a \<in> set (L qid)" by (rule h(3))
    obtain v1 q where p: "proc a v (fs_q fs1) = Inr (v1, q)" "serve proc mach qid n name i pc v1 (fs1\<lparr>fs_q := q\<rparr>) = Inr (v', fs')"
      using Suc.prems(2) r Some by (auto simp: bindE_eq_Inr)
    have "a < length (fi_heap (fs_q fs1))" "fault_wf qid (fi_heap (fs_q fs1) ! a)"
      using wf a queues_reprD(3) [of L "fs_q fs1" a qid] by (auto simp: queues_wf_def)
    then have "check4reschedule a (fs_q fs1) (mach v1) = Inr q"
      using p(1) proc_effect [of a "fs_q fs1" v] by (auto simp: bindE_eq_Inr)
    then obtain L1 where "queues_wf L1 (fs_q (fs1\<lparr>fs_q := q\<rparr>))" using reschedule_partial [OF wf a] by auto
    from Suc.IH [OF this p(2)] show ?thesis using h(1) by auto
  qed
qed simp

end

section \<open>Steps of the system\<close>

text \<open>
  What can happen to the fault injection system after its construction, in full system mode: the pseudo
  instructions and the hooks, each when it returns. The processors, their contexts, the values at
  hand and the fault file are arbitrary; the memory into which \<open>init_fi_system\<close> loads the file again has
  \<open>NULL\<close> in the links (\<open>null_links\<close>).
\<close>

inductive fi_step :: "Fi_System \<Rightarrow> Fi_System \<Rightarrow> bool" where
  activate: "fi_activate_inst True tc tid fs = Inr fs' \<Longrightarrow> fi_step fs fs'"
| pc_address: "get_Pc_address tc fs = Inr fs' \<Longrightarrow> fi_step fs fs'"
| init: "null_links alloc \<Longrightarrow> init_fi_system True chk alloc files fs = Inr (Some fs') \<Longrightarrow> fi_step fs fs'"
| main_hook: "main_fault True n name tc fs w = Inr (fs', w') \<Longrightarrow> fi_step fs fs'"
| fetch_hook: "fetch_fault True n name tc w inst fs = Inr (inst', fs') \<Longrightarrow> fi_step fs fs'"
| decode_hook: "decode_fault True n name tc w si fs = Inr (si', fs') \<Longrightarrow> fi_step fs fs'"
| iew_hook: "iew_fault True n name tc w (v :: u64) fs = Inr (v', fs') \<Longrightarrow> fi_step fs fs'"
| condition_hook: "iew_fault_bool True n name tc w b fs = Inr (b', fs') \<Longrightarrow> fi_step fs fs'"
| ticks: "tick_hook True name tc latency fs = Inr fs' \<Longrightarrow> fi_step fs fs'"

text \<open>The part of the state that a hook changes.\<close>

definition hook_frame :: "Fi_System \<Rightarrow> Fi_System \<Rightarrow> bool" where
  "hook_frame fs fs' \<longleftrightarrow> fi_activation fs' = fi_activation fs \<and> vectorpos fs' = vectorpos fs \<and>
     length (threadList fs') = length (threadList fs)"

definition queues_ok :: "Fi_System \<Rightarrow> bool" where
  "queues_ok fs \<longleftrightarrow> (\<exists>L. queues_wf L (fs_q fs))"

lemma frame_refl: "queues_ok fs \<Longrightarrow> hook_frame fs fs \<and> queues_ok fs"
  by (simp add: hook_frame_def)

lemma counted_frame:
  assumes "bindE (at_int (threadList fs) i) (\<lambda>t. Inr (fs\<lparr>threadList := (threadList fs)[nat i := g t]\<rparr>)) = Inr fs'" "queues_ok fs"
  shows "hook_frame fs fs' \<and> queues_ok fs'"
  using assms by (auto simp: bindE_eq_Inr hook_frame_def queues_ok_def)

context injection
begin

lemma serve_frame:
  assumes "queues_ok fs" "serve proc mach qid n name i pc v fs = Inr (v', fs')"
  shows "hook_frame fs fs' \<and> queues_ok fs'"
proof -
  obtain L where "queues_wf L (fs_q fs)" using assms(1) by (auto simp: queues_ok_def)
  then obtain L' q where "queues_wf L' q" "fs' = fs\<lparr>fs_q := q\<rparr>" using serve_partial [OF _ assms(2)] by blast
  then show ?thesis by (auto simp: queues_ok_def hook_frame_def)
qed

lemma counted_partial:
  assumes "queues_ok fs" "\<And>fs. inc fs = bindE (at_int (threadList fs) i) (\<lambda>t. Inr (fs\<lparr>threadList := (threadList fs)[nat i := count t]\<rparr>))"
    "bindE (serve proc mach qid n name i pc v fs) (\<lambda>(v, fs). bindE (inc fs) (\<lambda>fs. Inr (v, fs))) = Inr (v', fs')"
  shows "hook_frame fs fs' \<and> queues_ok fs'"
proof -
  obtain v1 fs1 where 1: "serve proc mach qid n name i pc v fs = Inr (v1, fs1)" "inc fs1 = Inr fs'"
    using assms(3) by (auto simp: bindE_eq_Inr)
  note f = serve_frame [OF assms(1) 1(1)]
  then show ?thesis using counted_frame [OF 1(2) [unfolded assms(2)]] by (simp add: hook_frame_def)
qed

end

lemma hooks_frame:
  assumes "queues_ok fs"
  shows "main_fault True n name tc fs w = Inr (fs', w') \<Longrightarrow> hook_frame fs fs' \<and> queues_ok fs'"
    "fetch_fault True n name tc w inst fs = Inr (inst', fs') \<Longrightarrow> hook_frame fs fs' \<and> queues_ok fs'"
    "decode_fault True n name tc w si fs = Inr (si', fs') \<Longrightarrow> hook_frame fs fs' \<and> queues_ok fs'"
    "iew_fault True n name tc w v fs = Inr (v', fs') \<Longrightarrow> hook_frame fs fs' \<and> queues_ok fs'"
    "iew_fault_bool True n name tc w b fs = Inr (b', fs') \<Longrightarrow> hook_frame fs fs' \<and> queues_ok fs'"
    "tick_hook True name tc latency fs = Inr fs' \<Longrightarrow> hook_frame fs fs' \<and> queues_ok fs'"
proof -
  show "main_fault True n name tc fs w = Inr (fs', w') \<Longrightarrow> hook_frame fs fs' \<and> queues_ok fs'"
    using frame_refl [OF assms] main_stage.serve_frame [OF assms]
    by (fastforce simp: main_fault_def main_loop_serve bindE_eq_Inr split: option.splits)
  show "fetch_fault True n name tc w inst fs = Inr (inst', fs') \<Longrightarrow> hook_frame fs fs' \<and> queues_ok fs'"
    using frame_refl [OF assms] fetch_stage.counted_partial [OF assms increase_instr_fetched_def]
    by (auto simp: fetch_fault_def stage_loop_serve bindE_eq_Inr [of "active_thread _ _ _"] split: option.splits)
  show "decode_fault True n name tc w si fs = Inr (si', fs') \<Longrightarrow> hook_frame fs fs' \<and> queues_ok fs'"
    using frame_refl [OF assms] decode_stage.counted_partial [OF assms increase_instr_decoded_def]
    by (auto simp: decode_fault_def stage_loop_serve bindE_eq_Inr [of "active_thread _ _ _"] split: option.splits)
  show "iew_fault True n name tc w v fs = Inr (v', fs') \<Longrightarrow> hook_frame fs fs' \<and> queues_ok fs'"
    using frame_refl [OF assms] iew_stage.counted_partial [where v = v, OF assms increase_instr_executed_def]
    by (auto simp: iew_fault_def stage_loop_serve bindE_eq_Inr [of "active_thread _ _ _"] split: option.splits)
  show "iew_fault_bool True n name tc w b fs = Inr (b', fs') \<Longrightarrow> hook_frame fs fs' \<and> queues_ok fs'"
    using frame_refl [OF assms] iew_condition.counted_partial [OF assms increase_instr_executed_def]
    by (auto simp: iew_fault_bool_def stage_loop_serve bindE_eq_Inr [of "active_thread _ _ _"] split: option.splits)
  show "tick_hook True name tc latency fs = Inr fs' \<Longrightarrow> hook_frame fs fs' \<and> queues_ok fs'"
    using frame_refl [OF assms] counted_frame [OF _ assms]
    by (auto simp: tick_hook_def fi_increaseTicks_def bindE_eq_Inr [of "active_thread _ _ _"] split: option.splits)
qed

section \<open>The invariants\<close>

text \<open>A successful load keeps everything but the queues, which are well-formed and sorted.\<close>

lemma load_faults_returns:
  assumes "loaded (fs_q fs)" "null_links alloc"
  shows "case load_faults alloc files fs of Inl e \<Rightarrow> load_error e
    | Inr fs' \<Rightarrow> \<exists>q. fs' = fs\<lparr>fs_q := q\<rparr> \<and> loaded q \<and> grown (fs_q fs) q"
proof (cases "1 < length (in_name fs)")
  case True
  have "case getFromFile alloc os (fs_q fs) of Inl e \<Rightarrow> load_error e | Inr q' \<Rightarrow> loaded q' \<and> grown (fs_q fs) q'" for os
    unfolding getFromFile_def by (rule file_loop_ok [OF assms]) (simp add: stream_len_def)
  from this [of "open_file files (in_name fs)"] show ?thesis
    using True by (auto simp: load_faults_def bindE_def split: sum.splits)
next
  case False
  then show ?thesis using assms(1) by (auto simp: load_faults_def intro!: exI [of _ "fs_q fs"])
qed

lemma load_faults_frame:
  "load_faults alloc files fs = Inr fs' \<Longrightarrow> threadList fs' = threadList fs \<and> fi_activation fs' = fi_activation fs"
  by (auto simp: load_faults_def bindE_eq_Inr split: if_splits)

lemma load_faults_ok:
  assumes "loaded (fs_q fs)" "null_links alloc" "load_faults alloc files fs = Inr fs'"
  shows "\<exists>q. fs' = fs\<lparr>fs_q := q\<rparr> \<and> loaded q \<and> grown (fs_q fs) q"
  using load_faults_returns [OF assms(1,2), of files] assms(3) by simp

text \<open>
  The activation map points into \<open>threadList\<close>, whose length is the next index; no two entries
  share a key.
\<close>

definition activation_inv :: "Fi_System \<Rightarrow> bool" where
  "activation_inv fs \<longleftrightarrow> activation_ok fs \<and> map_ok (fi_activation fs) \<and> vectorpos fs = int (length (threadList fs))"

definition some_active :: "Fi_System \<Rightarrow> bool" where
  "some_active fs \<longleftrightarrow> (\<exists>(k, i)\<in>set (fi_activation fs). i \<noteq> - 1)"

lemma ctor_inv:
  assumes "null_links alloc" "Fi_System_ctor alloc files input chk q = Inr fs"
  shows "queues_ok fs" "activation_inv fs"
proof -
  have "loaded (reset_queues q)" using loaded_empty by (auto simp: loaded_def)
  then obtain q' where "loaded q'" "fs = \<lparr>fs_q = q', fi_activation = [], threadList = [], vectorpos = 0,
       in_name = input, check_before_init = chk, my_id_counter = 0\<rparr>"
    using load_faults_ok [OF _ assms(1) assms(2) [unfolded Fi_System_ctor_def]] by auto
  then show "queues_ok fs" "activation_inv fs"
    by (auto simp: queues_ok_def loaded_def loaded_as_def activation_inv_def activation_ok_def map_ok_def)
qed

lemma reset_inv:
  assumes "queues_ok fs" "null_links alloc" "reset alloc files fs = Inr fs'"
  shows "loaded (fs_q fs')" "threadList fs' = []" "vectorpos fs' = 0" "fi_activation fs' = fi_activation fs"
proof -
  obtain L where "queues_repr L (fs_q fs)" using assms(1) by (auto simp: queues_ok_def queues_wf_def)
  then obtain q where q: "load_faults alloc files (fs\<lparr>fs_q := reset_queues q, threadList := [], vectorpos := 0\<rparr>) = Inr fs'"
    using assms(3) reset_spec [of L fs alloc files] by auto
  have "loaded (reset_queues q)" using loaded_empty by (auto simp: loaded_def)
  then obtain q' where "loaded q'" "fs' = fs\<lparr>fs_q := q', threadList := [], vectorpos := 0\<rparr>"
    using load_faults_ok [OF _ assms(2) q] by auto
  then show "loaded (fs_q fs')" "threadList fs' = []" "vectorpos fs' = 0" "fi_activation fs' = fi_activation fs" by simp_all
qed

lemma frame_inv: "hook_frame fs fs' \<Longrightarrow> activation_inv fs \<Longrightarrow> activation_inv fs'"
  by (simp add: hook_frame_def activation_inv_def activation_ok_def)

lemma set_map_assign: "set (map_assign k v m) \<subseteq> insert (k, v) (set m)"
  by (induction m) (auto split: if_splits)

lemma activation_assign:
  assumes "activation_ok fs" "i = - 1 \<or> 0 \<le> i \<and> i < int (length ts)" "length (threadList fs) \<le> length ts"
    "fi_activation fs' = map_assign k i (fi_activation fs)" "threadList fs' = ts"
  shows "activation_ok fs'"
proof -
  have "j = - 1 \<or> 0 \<le> j \<and> j < int (length ts)" if "(p, j) \<in> set (map_assign k i (fi_activation fs))" for p j
    using subsetD [OF set_map_assign that] assms(1-3) by (fastforce simp: activation_ok_def)
  then show ?thesis unfolding activation_ok_def assms(4,5) by blast
qed

text \<open>The two branches of \<open>fi_activate_inst\<close>, for a state that satisfies the invariant.\<close>

definition new_thread :: "Addr \<Rightarrow> u64 \<Rightarrow> Fi_System \<Rightarrow> ThreadEnabledFault" where
  "new_thread magic tid fs = \<lparr>MagicInstVirtualAddr = magic, threadId = int32 (uint tid), myId = my_id_counter fs, cores = []\<rparr>"

lemma activate_new:
  assumes "activation_inv fs" "int (length (threadList fs)) < 2 ^ 31 - 1"
    "readIntReg ReturnAddressReg tc = Inr magic" "readMiscReg 0 IPR_PALtemp23 tc = Inr (pcb, tc')"
    "map_find pcb (fi_activation fs) = None"
  shows "fi_activate_inst True tc tid fs = Inr (fs\<lparr>fi_activation := map_assign pcb (int (length (threadList fs))) (fi_activation fs),
      threadList := threadList fs @ [new_thread magic tid fs], vectorpos := int (length (threadList fs)) + 1,
      my_id_counter := int32 (my_id_counter fs + 1)\<rparr>)"
  using assms by (simp add: fi_activate_inst_def activation_inv_def ThreadEnabledFault_ctor_def Let_def at_int_def new_thread_def)

lemma activate_again:
  assumes "readIntReg ReturnAddressReg tc = Inr magic" "readMiscReg 0 IPR_PALtemp23 tc = Inr (pcb, tc')"
    "map_find pcb (fi_activation fs) = Some i"
  shows "fi_activate_inst True tc tid fs =
    bindE (at_int (threadList fs) i) (\<lambda>_. Inr (fs\<lparr>fi_activation := map_assign pcb (- 1) (fi_activation fs)\<rparr>))"
  using assms by (simp add: fi_activate_inst_def)

lemma activate_inv:
  assumes "activation_inv fs" "int (length (threadList fs)) < 2 ^ 31 - 1" "fi_activate_inst b tc tid fs = Inr fs'"
  shows "activation_inv fs' \<and> fs_q fs' = fs_q fs"
proof -
  obtain magic pcb tc' where r: "readIntReg ReturnAddressReg tc = Inr magic" "readMiscReg 0 IPR_PALtemp23 tc = Inr (pcb, tc')" "b = True"
    using assms(3) by (auto simp: fi_activate_inst_def bindE_eq_Inr split: if_splits)
  have inv: "activation_ok fs" "map_ok (fi_activation fs)" "vectorpos fs = int (length (threadList fs))"
    using assms(1) by (simp_all add: activation_inv_def)
  show ?thesis
  proof (cases "map_find pcb (fi_activation fs)")
    case None
    have "activation_ok fs'"
      by (rule activation_assign [OF inv(1), of "int (length (threadList fs))" "threadList fs @ [new_thread magic tid fs]"])
        (use activate_new [OF assms(1,2) r(1,2) None, of tid] assms(3) r(3) in auto)
    then show ?thesis
      using activate_new [OF assms(1,2) r(1,2) None, of tid] assms(3) r(3) map_ok_assign [OF inv(2)]
      by (auto simp: activation_inv_def)
  next
    case (Some i)
    then have fs': "fs' = fs\<lparr>fi_activation := map_assign pcb (- 1) (fi_activation fs)\<rparr>"
      using activate_again [OF r(1,2) Some, of tid] assms(3) r(3) by (auto simp: bindE_eq_Inr)
    have "activation_ok fs'"
      by (rule activation_assign [OF inv(1), of "- 1" "threadList fs"]) (simp_all add: fs')
    then show ?thesis using inv(3) map_ok_assign [OF inv(2)] by (simp add: activation_inv_def fs')
  qed
qed

lemma get_Pc_frame: "queues_ok fs \<Longrightarrow> get_Pc_address tc fs = Inr fs' \<Longrightarrow> hook_frame fs fs' \<and> queues_ok fs'"
  by (auto simp: get_Pc_address_def bindE_eq_Inr [of "readMiscReg _ _ _"] frame_refl
      dest: counted_frame split: option.splits prod.splits)

lemma activate_queues: "fi_activate_inst b tc tid fs = Inr fs' \<Longrightarrow> fs_q fs' = fs_q fs"
  by (auto simp: fi_activate_inst_def bindE_eq_Inr Let_def split: if_splits option.splits prod.splits)

lemma init_reset:
  assumes "init_fi_system b chk alloc files fs = Inr (Some fs')"
  shows "reset alloc files fs = Inr fs'"
  using assms by (auto simp: init_fi_system_def bindE_eq_Inr split: if_splits)

lemma step_cases:
  assumes "fi_step fs fs'" "queues_ok fs"
  obtains (hook) "hook_frame fs fs'" "queues_ok fs'"
    | (activation) tc tid where "fi_activate_inst True tc tid fs = Inr fs'"
    | (reset) alloc files where "null_links alloc" "reset alloc files fs = Inr fs'"
  using assms(1)
proof cases
  case (init alloc chk files)
  then show thesis using reset init_reset by blast
qed (use hook activation in \<open>auto dest!: hooks_frame [OF assms(2)] get_Pc_frame [OF assms(2)]\<close>)

lemma step_queues:
  assumes "fi_step fs fs'" "queues_ok fs"
  shows "queues_ok fs'"
  using assms
proof (cases rule: step_cases)
  case (reset alloc files)
  then show ?thesis using reset_inv(1) [OF assms(2) reset] unfolding queues_ok_def loaded_def loaded_as_def by blast
next
  case activation
  then show ?thesis using activate_queues assms(2) by (auto simp: queues_ok_def)
qed

text \<open>
  (C5) In every state that the system reaches from its construction the four queues are well linked,
  no fault is in two of them, every queued fault has a class that belongs to its queue and the fault type of
  that class, its timing kind is one of the three known ones and its value kind one of the four known ones,
  with operand 0 or 1 for an all-fault. The memory into which a fault file is loaded has \<open>NULL\<close> in
  the two links that no constructor sets (\<open>null_links\<close>, here and in the step \<open>init\<close>).
\<close>

theorem reachable_queues_wf:
  assumes "null_links alloc" "Fi_System_ctor alloc files input chk q = Inr fs0" "fi_step\<^sup>*\<^sup>* fs0 fs"
  shows "\<exists>L. queues_wf L (fs_q fs)"
proof -
  have "queues_ok fs" using assms(3) by (induction rule: rtranclp_induct) (use ctor_inv(1) [OF assms(1,2)] step_queues in blast)+
  then show ?thesis by (simp add: queues_ok_def)
qed

definition sample_ctor :: "Fi_System res" where
  "sample_ctor = Fi_System_ctor (\<lambda>_. zero_fault) (\<lambda>_. Some sample_file) ''faults'' False queues_sample"

theorem reachable_queues_wf_witness:
  "\<exists>fs0 fs. sample_ctor = Inr fs0 \<and> fi_activate_inst True sample_context 3 fs0 = Inr fs \<and> (\<exists>L. queues_wf L (fs_q fs))"
proof -
  have "case sample_ctor of Inl _ \<Rightarrow> False | Inr fs0 \<Rightarrow>
      (case fi_activate_inst True sample_context 3 fs0 of Inl _ \<Rightarrow> False | Inr _ \<Rightarrow> True)" by code_simp
  then obtain fs0 fs where s: "sample_ctor = Inr fs0" "fi_activate_inst True sample_context 3 fs0 = Inr fs"
    by (auto split: sum.splits)
  have "null_links (\<lambda>_. zero_fault)" by (simp add: null_links_def zero_fault_def)
  from reachable_queues_wf [OF this s(1) [unfolded sample_ctor_def], of fs] show ?thesis
    using s fi_step.activate by blast
qed

text \<open>
  A step keeps the activation map valid, with one exception: the reset of \<open>init_fi_system\<close>
  empties the thread list and leaves the map alone, so that the entries of active threads dangle.
\<close>

lemma activation_valid:
  assumes "queues_ok fs" "activation_inv fs" "int (length (threadList fs)) < 2 ^ 31 - 1" "fi_step fs fs'"
  shows "activation_inv fs' \<or> (some_active fs \<and> threadList fs' = [] \<and> fi_activation fs' = fi_activation fs)"
  using assms(4,1)
proof (cases rule: step_cases)
  case (reset alloc files)
  note r = reset_inv [OF assms(1) reset]
  show ?thesis
  proof (cases "some_active fs")
    case False
    then have "activation_ok fs'" unfolding activation_ok_def r(4) by (force simp: some_active_def)
    then show ?thesis using assms(2) r by (simp add: activation_inv_def)
  qed (use r in simp)
next
  case activation
  then show ?thesis using activate_inv [OF assms(2,3)] by blast
next
  case hook
  then show ?thesis using frame_inv assms(2) by blast
qed

lemma sample_inv:
  assumes "class_fits qid cl"
  shows "queues_ok (sample_system qid cl)" "activation_inv (sample_system qid cl)"
proof -
  note r = hook_readyD(1,2) [OF sample_ready(1) [OF assms]]
  show "queues_ok (sample_system qid cl)" using r(1) unfolding queues_ok_def by blast
  show "activation_inv (sample_system qid cl)"
    using r(2) by (simp add: activation_inv_def sample_system_def map_ok_def)
qed

text \<open>
  (C12) The life of a thread: its first activation instruction enters it into the map with the magic
  address and no counters yet, and the hooks see it; the second one makes the hooks ignore it; after
  that every further activation instruction, and \<open>get_Pc_address\<close>, indexes the thread list with -1.
\<close>

theorem activation_lifecycle:
  assumes "activation_inv fs" "int (length (threadList fs)) < 2 ^ 31 - 1"
    "readIntReg ReturnAddressReg tc = Inr magic" "readMiscReg 0 IPR_PALtemp23 tc = Inr (pcb, tc')"
    "inUserMode tc = Inr True" "map_find pcb (fi_activation fs) = None"
  shows "\<exists>fs1 fs2. fi_activate_inst True tc tid fs = Inr fs1 \<and> activation_inv fs1 \<and>
      active_thread True tc fs1 = Inr (Some (int (length (threadList fs)))) \<and>
      threadList fs1 = threadList fs @ [new_thread magic tid fs] \<and>
      fi_activate_inst True tc tid2 fs1 = Inr fs2 \<and> activation_inv fs2 \<and> threadList fs2 = threadList fs1 \<and>
      active_thread True tc fs2 = Inr None \<and>
      fi_activate_inst True tc tid3 fs2 = Inl Bad_index \<and> get_Pc_address tc fs2 = Inl Bad_index"
proof -
  let ?n = "int (length (threadList fs))"
  define fs1 where "fs1 = fs\<lparr>fi_activation := map_assign pcb ?n (fi_activation fs),
      threadList := threadList fs @ [new_thread magic tid fs], vectorpos := ?n + 1,
      my_id_counter := int32 (my_id_counter fs + 1)\<rparr>"
  define fs2 where "fs2 = fs1\<lparr>fi_activation := map_assign pcb (- 1) (fi_activation fs1)\<rparr>"
  have s1: "fi_activate_inst True tc tid fs = Inr fs1" unfolding fs1_def by (rule activate_new [OF assms(1-4,6)])
  have m1: "map_find pcb (fi_activation fs1) = Some ?n" by (simp add: fs1_def map_find_assign_any)
  then have s2: "fi_activate_inst True tc tid2 fs1 = Inr fs2"
    by (simp add: activate_again [OF assms(3,4) m1] fs2_def at_int_def) (simp add: fs1_def)
  have m2: "map_find pcb (fi_activation fs2) = Some (- 1)" by (simp add: fs2_def map_find_assign_any)
  have i1: "activation_inv fs1" using activate_inv [OF assms(1,2) s1] by blast
  then have i2: "activation_inv fs2"
    using map_ok_assign [of "fi_activation fs1" pcb "- 1"]
      activation_assign [of fs1 "- 1" "threadList fs1" fs2 pcb] by (simp add: activation_inv_def fs2_def)
  have "active_thread True tc fs1 = Inr (Some ?n)" "active_thread True tc fs2 = Inr None"
    using assms(4,5) m1 m2 by (simp_all add: active_thread_def)
  moreover have "fi_activate_inst True tc tid3 fs2 = Inl Bad_index" "get_Pc_address tc fs2 = Inl Bad_index"
    using assms(4) m2 by (simp_all add: activate_again [OF assms(3,4) m2] get_Pc_address_def at_int_def)
  moreover have "threadList fs1 = threadList fs @ [new_thread magic tid fs]" "threadList fs2 = threadList fs1"
    by (simp_all add: fs1_def fs2_def)
  ultimately show ?thesis using s1 s2 i1 i2 by blast
qed

theorem activation_lifecycle_witness:
  "\<exists>fs1 fs2. fi_activate_inst True sample_context 3 ((sample_system MainQ CPCInjectedFault)\<lparr>fi_activation := []\<rparr>) = Inr fs1 \<and>
     fi_activate_inst True sample_context 3 fs1 = Inr fs2 \<and> get_Pc_address sample_context fs2 = Inl Bad_index"
proof -
  let ?fs = "(sample_system MainQ CPCInjectedFault)\<lparr>fi_activation := []\<rparr>"
  have "activation_inv ?fs" "int (length (threadList ?fs)) < 2 ^ 31 - 1" "map_find 0x2000 (fi_activation ?fs) = None"
    by (simp_all add: activation_inv_def activation_ok_def map_ok_def sample_system_def)
  moreover have "readIntReg ReturnAddressReg sample_context = Inr 0" "inUserMode sample_context = Inr True"
    "case readMiscReg 0 IPR_PALtemp23 sample_context of Inl _ \<Rightarrow> False | Inr (a, _) \<Rightarrow> a = 0x2000" by code_simp+
  moreover from this(3) obtain tc' where "readMiscReg 0 IPR_PALtemp23 sample_context = Inr (0x2000, tc')"
    by (auto split: sum.splits prod.splits)
  ultimately show ?thesis
    using activation_lifecycle [of ?fs sample_context 0 "0x2000" tc' 3 3 3] by blast
qed

text \<open>
  (C13) A reset of well-linked queues removes every fault from them, which ends, and then reads the file
  into empty queues and with no threads. When the memory of new objects has \<open>NULL\<close> in its links, that ends as
  well: a parser or constructor aborts, or the reset returns with well-formed queues. Whenever the reset
  returns, whatever the memory, the thread list is empty but the activation map is the old one: until its
  process is deactivated, every hook for a thread that was active ends in an access outside the thread list.
\<close>

theorem reset_dangles:
  assumes "queues_wf L (fs_q fs)"
  shows "(\<exists>q. same_core (heap_of fs) (fi_heap q) \<and>
      reset alloc files fs = load_faults alloc files (fs\<lparr>fs_q := reset_queues q, threadList := [], vectorpos := 0\<rparr>)) \<and>
    (null_links alloc \<longrightarrow> (\<exists>e\<in>{AssertFail, Out_of_range, Uninitialised}. reset alloc files fs = Inl e) \<or>
      (\<exists>fs' L'. reset alloc files fs = Inr fs' \<and> queues_wf L' (fs_q fs') \<and> queues_sorted L' (fs_q fs'))) \<and>
    (reset alloc files fs = Inr fs' \<longrightarrow> threadList fs' = [] \<and> fi_activation fs' = fi_activation fs \<and>
      (active_thread True tc fs' = Inr (Some i) \<longrightarrow>
        main_fault True (Suc n) name tc fs' w = Inl Bad_index \<and>
        fetch_fault True (Suc n) name tc w inst fs' = Inl Bad_index \<and>
        decode_fault True (Suc n) name tc w si fs' = Inl Bad_index \<and>
        iew_fault True (Suc n) name tc w v fs' = Inl Bad_index \<and>
        iew_fault_bool True (Suc n) name tc w b fs' = Inl Bad_index \<and>
        tick_hook True name tc latency fs' = Inl Bad_index))"
proof -
  have "queues_repr L (fs_q fs)" using assms by (auto simp: queues_wf_def)
  then obtain q where q: "same_core (heap_of fs) (fi_heap q)"
      "reset alloc files fs = load_faults alloc files (fs\<lparr>fs_q := reset_queues q, threadList := [], vectorpos := 0\<rparr>)"
    using reset_spec [of L fs alloc files] by auto
  have "loaded (reset_queues q)" using loaded_empty by (auto simp: loaded_def)
  then have ends: "(\<exists>e\<in>{AssertFail, Out_of_range, Uninitialised}. reset alloc files fs = Inl e) \<or>
      (\<exists>fs' L'. reset alloc files fs = Inr fs' \<and> queues_wf L' (fs_q fs') \<and> queues_sorted L' (fs_q fs'))" if "null_links alloc"
    using load_faults_returns [of "fs\<lparr>fs_q := reset_queues q, threadList := [], vectorpos := 0\<rparr>" alloc files] that q(2)
    by (auto simp: load_error_def loaded_def loaded_as_def split: sum.splits)
  have fr: "threadList fs' = [] \<and> fi_activation fs' = fi_activation fs" if "reset alloc files fs = Inr fs'"
    using load_faults_frame [of alloc files _ fs'] that q(2) by fastforce
  moreover have "at_int [] i = (Inl Bad_index :: ThreadEnabledFault res)" by (simp add: at_int_def)
  then have "main_fault True (Suc n) name tc fs' w = Inl Bad_index \<and>
      fetch_fault True (Suc n) name tc w inst fs' = Inl Bad_index \<and>
      decode_fault True (Suc n) name tc w si fs' = Inl Bad_index \<and>
      iew_fault True (Suc n) name tc w v fs' = Inl Bad_index \<and>
      iew_fault_bool True (Suc n) name tc w b fs' = Inl Bad_index \<and>
      tick_hook True name tc latency fs' = Inl Bad_index"
    if "threadList fs' = []" "active_thread True tc fs' = Inr (Some i)"
    using that by (simp add: main_fault_def tick_hook_def fi_increaseTicks_def hook_defs)
  ultimately show ?thesis using q ends by blast
qed

theorem reset_dangles_witness:
  "\<exists>fs'. reset (\<lambda>_. zero_fault) (\<lambda>_. None) (sample_system FetchQ COpCodeInjectedFault) = Inr fs' \<and>
     fetch_fault True 1 ''c'' sample_context one_machine 0x47FF0401 fs' = Inl Bad_index"
proof -
  let ?fs = "sample_system FetchQ COpCodeInjectedFault" and ?alloc = "\<lambda>_::nat. zero_fault" and ?files = "\<lambda>_::string. None :: string option"
  have "case reset ?alloc ?files ?fs of Inl _ \<Rightarrow> False | Inr fs' \<Rightarrow> active_thread True sample_context fs' = Inr (Some 0)"
    by code_simp
  then obtain fs' where s: "reset ?alloc ?files ?fs = Inr fs'" "active_thread True sample_context fs' = Inr (Some 0)"
    by (auto split: sum.splits)
  have "class_fits FetchQ COpCodeInjectedFault" by (simp add: class_fits_def)
  then have wf: "queues_wf (sample_list FetchQ) (fs_q ?fs)" using hook_readyD(1) [OF sample_ready(1)] by blast
  from reset_dangles [OF wf, of ?alloc ?files fs' sample_context 0 0 "''c''" one_machine "0x47FF0401"] s
  show ?thesis by auto
qed

end
