(* ===== verification/Event_Queue.thy ===== *)
theory Event_Queue
  imports Timed_Queue "HOL-Library.Product_Lexorder"
begin

text \<open>
  The event queue of the simulator, \<open>src/src/sim/eventq.hh\<close> and \<open>eventq.cc\<close>: a list of bins, one for
  each pair of time and priority, each of which is a stack. Events are objects of a heap; an object that
  was deleted stays in the list with \<open>e_freed\<close> set and may not be used. \<open>Tick\<close> is a signed
  64 bit number, here an \<open>int\<close>. The debug fields \<open>queue\<close> and \<open>instance\<close>, names, tracing and
  checkpoints have no counterpart.
\<close>

section \<open>Events\<close>

record Event =
  nextBin :: ptr
  nextInBin :: ptr
  e_when :: int
  e_priority :: int
  e_flags :: u16
  e_freed :: bool

definition PublicWrite :: u16 where "PublicWrite = 0x001d"
definition Squashed :: u16 where "Squashed = 0x0001"
definition Scheduled :: u16 where "Scheduled = 0x0002"
definition AutoDelete :: u16 where "AutoDelete = 0x0004"
definition IsExitEvent :: u16 where "IsExitEvent = 0x0010"
definition IsMainQueue :: u16 where "IsMainQueue = 0x0020"
definition Initialized :: u16 where "Initialized = 0x7a40"
definition InitMask :: u16 where "InitMask = 0xffc0"

lemmas flag_defs = PublicWrite_def Squashed_def Scheduled_def AutoDelete_def IsExitEvent_def IsMainQueue_def
  Initialized_def InitMask_def

text \<open>\<open>Flags\<close> (\<open>src/src/base/flags.hh\<close>).\<close>

definition flags_isSet :: "u16 \<Rightarrow> u16 \<Rightarrow> bool" where
  "flags_isSet f m \<longleftrightarrow> f AND m \<noteq> 0"

definition flags_noneSet :: "u16 \<Rightarrow> u16 \<Rightarrow> bool" where
  "flags_noneSet f m \<longleftrightarrow> f AND m = 0"

definition flags_set :: "u16 \<Rightarrow> u16 \<Rightarrow> u16" where
  "flags_set m f = f OR m"

definition flags_clear :: "u16 \<Rightarrow> u16 \<Rightarrow> u16" where
  "flags_clear m f = f AND NOT m"

definition e_set :: "u16 \<Rightarrow> Event \<Rightarrow> Event" where
  "e_set m e = e\<lparr>e_flags := flags_set m (e_flags e)\<rparr>"

definition e_clear :: "u16 \<Rightarrow> Event \<Rightarrow> Event" where
  "e_clear m e = e\<lparr>e_flags := flags_clear m (e_flags e)\<rparr>"

definition initialized :: "Event \<Rightarrow> bool" where
  "initialized e \<longleftrightarrow> e_flags e AND InitMask = Initialized"

definition scheduled :: "Event \<Rightarrow> bool" where
  "scheduled e \<longleftrightarrow> flags_isSet (e_flags e) Scheduled"

definition squashed :: "Event \<Rightarrow> bool" where
  "squashed e \<longleftrightarrow> flags_isSet (e_flags e) Squashed"

definition isExitEvent :: "Event \<Rightarrow> bool" where
  "isExitEvent e \<longleftrightarrow> flags_isSet (e_flags e) IsExitEvent"

definition Event_ctor :: "int \<Rightarrow> int \<Rightarrow> u16 \<Rightarrow> Event res" where
  "Event_ctor raw_when p f =
     bindE (assertE (flags_noneSet f (NOT PublicWrite))) (\<lambda>_.
       Inr \<lparr>nextBin = None, nextInBin = None, e_when = raw_when, e_priority = p, e_flags = Initialized OR f, e_freed = False\<rparr>)"

text \<open>The comparison operators.\<close>

definition ev_lt :: "Event \<Rightarrow> Event \<Rightarrow> bool" where
  "ev_lt l r \<longleftrightarrow> e_when l < e_when r \<or> (e_when l = e_when r \<and> e_priority l < e_priority r)"

definition ev_le :: "Event \<Rightarrow> Event \<Rightarrow> bool" where
  "ev_le l r \<longleftrightarrow> e_when l < e_when r \<or> (e_when l = e_when r \<and> e_priority l \<le> e_priority r)"

definition ev_eq :: "Event \<Rightarrow> Event \<Rightarrow> bool" where
  "ev_eq l r \<longleftrightarrow> e_when l = e_when r \<and> e_priority l = e_priority r"

section \<open>The queue\<close>

type_synonym event_heap = "Event list"

record EventQueue =
  ev_heap :: event_heap
  ev_head :: ptr
  ev_now :: int
  ev_main :: bool

definition ev_deref :: "event_heap \<Rightarrow> ptr \<Rightarrow> Event res" where
  "ev_deref h p = bindE (deref h p) (\<lambda>e. if e_freed e then Inl Bad_pointer else Inr e)"

definition ev_upd :: "event_heap \<Rightarrow> ptr \<Rightarrow> (Event \<Rightarrow> Event) \<Rightarrow> event_heap res" where
  "ev_upd h p g = bindE (ev_deref h p) (\<lambda>_. upd h p g)"

definition insertBefore :: "event_heap \<Rightarrow> nat \<Rightarrow> ptr \<Rightarrow> event_heap res" where
  "insertBefore h event cur =
     (let front = ev_upd h (Some event) (\<lambda>e. e\<lparr>nextBin := cur, nextInBin := None\<rparr>) in
      if cur = None then front
      else
        bindE (ev_deref h (Some event)) (\<lambda>e.
        bindE (ev_deref h cur) (\<lambda>c.
          if ev_lt e c then front
          else ev_upd h (Some event) (\<lambda>e. e\<lparr>nextBin := nextBin c, nextInBin := cur\<rparr>))))"

text \<open>
  The loop \<open>while (curr && *curr < *event)\<close> of \<open>insert\<close> and \<open>remove\<close>. It does not change the heap,
  so more steps than there are objects mean that it never ends.
\<close>

fun bin_walk :: "nat \<Rightarrow> event_heap \<Rightarrow> Event \<Rightarrow> ptr \<Rightarrow> ptr \<Rightarrow> (ptr \<times> ptr) res" where
  "bin_walk 0 h e prev cur = Inl Diverges"
| "bin_walk (Suc n) h e prev cur =
     (if cur = None then Inr (prev, cur)
      else bindE (ev_deref h cur) (\<lambda>c.
        if ev_lt c e then bin_walk n h e cur (nextBin c) else Inr (prev, cur)))"

definition ev_insert :: "nat \<Rightarrow> event_heap \<times> ptr \<Rightarrow> (event_heap \<times> ptr) res" where
  "ev_insert event = (\<lambda>(h, head).
     bindE (ev_deref h (Some event)) (\<lambda>e.
       if head = None then bindE (insertBefore h event head) (\<lambda>h. Inr (h, Some event))
       else
         bindE (ev_deref h head) (\<lambda>hd.
           if ev_le e hd then bindE (insertBefore h event head) (\<lambda>h. Inr (h, Some event))
           else
             bindE (bin_walk (Suc (length h)) h e head (nextBin hd)) (\<lambda>(prev, cur).
             bindE (insertBefore h event cur) (\<lambda>h.
             bindE (ev_upd h prev (\<lambda>p. p\<lparr>nextBin := Some event\<rparr>)) (\<lambda>h. Inr (h, head)))))))"

fun item_walk :: "nat \<Rightarrow> event_heap \<Rightarrow> nat \<Rightarrow> ptr \<Rightarrow> ptr \<Rightarrow> (ptr \<times> ptr) res" where
  "item_walk 0 h event cur next = Inl Diverges"
| "item_walk (Suc n) h event cur next =
     (if next = Some event then Inr (cur, next)
      else if next = None then Inl Panic
      else bindE (ev_deref h next) (\<lambda>x. item_walk n h event next (nextInBin x)))"

definition removeItem :: "event_heap \<Rightarrow> nat \<Rightarrow> ptr \<Rightarrow> (event_heap \<times> ptr) res" where
  "removeItem h event tp =
     bindE (ev_deref h tp) (\<lambda>t.
       if Some event = tp then
         (if nextInBin t = None then Inr (h, nextBin t)
          else bindE (ev_upd h (nextInBin t) (\<lambda>x. x\<lparr>nextBin := nextBin t\<rparr>)) (\<lambda>h. Inr (h, nextInBin t)))
       else
         bindE (item_walk (Suc (length h)) h event tp (nextInBin t)) (\<lambda>(cur, next).
         bindE (ev_deref h next) (\<lambda>x.
         bindE (ev_upd h cur (\<lambda>c. c\<lparr>nextInBin := nextInBin x\<rparr>)) (\<lambda>h. Inr (h, tp)))))"

definition ev_remove :: "nat \<Rightarrow> event_heap \<times> ptr \<Rightarrow> (event_heap \<times> ptr) res" where
  "ev_remove event = (\<lambda>(h, head).
     if head = None then Inl Panic
     else
       bindE (ev_deref h head) (\<lambda>hd.
       bindE (ev_deref h (Some event)) (\<lambda>e.
         if ev_eq hd e then removeItem h event head
         else
           bindE (bin_walk (Suc (length h)) h e head (nextBin hd)) (\<lambda>(prev, cur).
             if cur = None then Inl Panic
             else
               bindE (ev_deref h cur) (\<lambda>c.
                 if \<not> ev_eq c e then Inl Panic
                 else
                   bindE (removeItem h event cur) (\<lambda>(h, p).
                   bindE (ev_upd h prev (\<lambda>x. x\<lparr>nextBin := p\<rparr>)) (\<lambda>h. Inr (h, head))))))))"

section \<open>The bins a queue represents\<close>

text \<open>
  \<open>stack h b\<close>: the events \<open>b\<close> are linked by \<open>nextInBin\<close>. \<open>bins h bs nx\<close>: the first events
  of the stacks \<open>bs\<close> are linked by \<open>nextBin\<close>, the last one's being \<open>nx\<close>.
\<close>

fun stack :: "event_heap \<Rightarrow> nat list \<Rightarrow> bool" where
  "stack h [] = True"
| "stack h (x # xs) \<longleftrightarrow> x < length h \<and> \<not> e_freed (h ! x) \<and> nextInBin (h ! x) = first_ptr xs None \<and> stack h xs"

abbreviation front :: "nat list list \<Rightarrow> ptr" where
  "front bs \<equiv> first_ptr (concat bs) None"

fun bins :: "event_heap \<Rightarrow> nat list list \<Rightarrow> ptr \<Rightarrow> bool" where
  "bins h [] nx = True"
| "bins h (b # bs) nx \<longleftrightarrow>
     b \<noteq> [] \<and> stack h b \<and> nextBin (h ! hd b) = first_ptr (concat bs) nx \<and> bins h bs nx"

text \<open>The key of an event; outside the heap it is constant.\<close>

definition ev_key :: "event_heap \<times> ptr \<Rightarrow> nat \<Rightarrow> int \<times> int" where
  "ev_key s a = (if a < length (fst s) then (e_when (fst s ! a), e_priority (fst s ! a)) else (0, 0))"

text \<open>All events of a bin have the same key, and the keys of the bins increase.\<close>

fun graded :: "(nat \<Rightarrow> 'k::linorder) \<Rightarrow> nat list list \<Rightarrow> bool" where
  "graded k [] = True"
| "graded k (b # bs) \<longleftrightarrow> (\<forall>x\<in>set b. k x = k (hd b)) \<and> (\<forall>y\<in>set (concat bs). k (hd b) < k y) \<and> graded k bs"

definition ev_bins :: "event_heap \<times> ptr \<Rightarrow> nat list list \<Rightarrow> bool" where
  "ev_bins s bs \<longleftrightarrow> bins (fst s) bs None \<and> snd s = front bs \<and> distinct (concat bs) \<and> graded (ev_key s) bs"

definition ev_list :: "event_heap \<times> ptr \<Rightarrow> nat list \<Rightarrow> bool" where
  "ev_list s xs \<longleftrightarrow> (\<exists>bs. ev_bins s bs \<and> xs = concat bs)"

lemma first_ptr_hd: "xs \<noteq> [] \<Longrightarrow> first_ptr xs d = Some (hd xs)"
  by (cases xs) auto

lemma nth_upd: "xs[a := v] ! x = (if x = a \<and> a < length xs then v else xs ! x)"
  by (cases "a < length xs") (auto simp: list_update_beyond)

lemma ev_key_order:
  assumes "x < length h" "y < length h"
  shows "ev_lt (h ! x) (h ! y) \<longleftrightarrow> ev_key (h, p) x < ev_key (h, p) y"
    "ev_le (h ! x) (h ! y) \<longleftrightarrow> ev_key (h, p) x \<le> ev_key (h, p) y"
    "ev_eq (h ! x) (h ! y) \<longleftrightarrow> ev_key (h, p) x = ev_key (h, p) y"
  using assms by (auto simp: ev_key_def ev_lt_def ev_le_def ev_eq_def)

lemma stack_live: "stack h b \<Longrightarrow> x \<in> set b \<Longrightarrow> x < length h \<and> \<not> e_freed (h ! x)"
  by (induction b) auto

lemma bins_append: "bins h (xs @ ys) nx \<longleftrightarrow> bins h xs (first_ptr (concat ys) nx) \<and> bins h ys nx"
  by (induction xs) auto

lemma bins_nonempty: "bins h bs nx \<Longrightarrow> [] \<notin> set bs"
  by (induction bs) auto

lemma bins_live: "bins h bs nx \<Longrightarrow> x \<in> set (concat bs) \<Longrightarrow> x < length h \<and> \<not> e_freed (h ! x)"
  by (induction bs) (auto dest: stack_live)

lemma ev_deref_live [simp]: "x < length h \<Longrightarrow> \<not> e_freed (h ! x) \<Longrightarrow> ev_deref h (Some x) = Inr (h ! x)"
  by (simp add: ev_deref_def)

lemma ev_upd_live [simp]: "x < length h \<Longrightarrow> \<not> e_freed (h ! x) \<Longrightarrow> ev_upd h (Some x) g = Inr (h[x := g (h ! x)])"
  by (simp add: ev_upd_def)

text \<open>Writes to other events.\<close>

lemma stack_upd [simp]: "a \<notin> set b \<Longrightarrow> stack (h[a := v]) b = stack h b"
  by (induction b) (auto simp: nth_upd)

lemma bins_upd [simp]: "a \<notin> set (concat bs) \<Longrightarrow> bins (h[a := v]) bs nx = bins h bs nx"
proof (induction bs)
  case (Cons b bs)
  have "b \<noteq> [] \<Longrightarrow> hd b \<noteq> a" using Cons.prems by auto
  then show ?case using Cons by auto
qed simp

text \<open>A write that keeps the data of the event.\<close>

lemma ev_key_upd:
  assumes "e_when v = e_when (h ! a)" "e_priority v = e_priority (h ! a)"
  shows "ev_key (h[a := v], p) = ev_key (h, q)"
  using assms by (auto simp: ev_key_def fun_eq_iff nth_upd)

lemma stack_nextBin [simp]: "stack (h[a := (h ! a)\<lparr>nextBin := p\<rparr>]) b = stack h b"
  by (induction b) (auto simp: nth_upd)

section \<open>Insertion\<close>

fun ins_bins :: "(nat \<Rightarrow> 'k::linorder) \<Rightarrow> nat \<Rightarrow> nat list list \<Rightarrow> nat list list" where
  "ins_bins k x [] = [[x]]"
| "ins_bins k x (b # bs) =
     (if k x < k (hd b) then [x] # b # bs else if k x = k (hd b) then (x # b) # bs else b # ins_bins k x bs)"

lemma place_append:
  "(\<And>y. y \<in> set ys \<Longrightarrow> k y < k x) \<Longrightarrow> place k x (ys @ zs) = ys @ place k x zs"
  by (induction ys) (auto simp: place_Cons)

lemma concat_ins_bins:
  "graded k bs \<Longrightarrow> [] \<notin> set bs \<Longrightarrow> concat (ins_bins k x bs) = place k x (concat bs)"
proof (induction bs)
  case (Cons b bs)
  obtain y ys where b: "b = y # ys" using Cons.prems(2) by (cases b) auto
  show ?case
  proof (cases "k x \<le> k y")
    case True
    then show ?thesis by (auto simp: b place_Cons)
  next
    case False
    then have "\<And>z. z \<in> set b \<Longrightarrow> k z < k x" using Cons.prems(1) b by auto
    then have "place k x (concat (b # bs)) = b @ place k x (concat bs)" using place_append [of b k x "concat bs"] by simp
    moreover have "ins_bins k x (b # bs) = b # ins_bins k x bs" using False b by auto
    ultimately show ?thesis using Cons.IH Cons.prems by simp
  qed
qed simp

lemma set_ins_bins: "set (concat (ins_bins k x bs)) = insert x (set (concat bs))"
  by (induction bs) auto

lemma graded_ins_bins: "graded k bs \<Longrightarrow> [] \<notin> set bs \<Longrightarrow> graded k (ins_bins k x bs)"
proof (induction bs)
  case (Cons b bs)
  have b: "\<forall>z\<in>set b. k z = k (hd b)" "\<forall>y\<in>set (concat bs). k (hd b) < k y" "graded k (ins_bins k x bs)"
    using Cons by auto
  have gt: "\<forall>y\<in>set (concat (ins_bins k x bs)). k (hd b) < k y" if "k (hd b) < k x"
    unfolding set_ins_bins using b(2) that by simp
  have lt: "\<forall>y\<in>set (concat (b # bs)). k x < k y" if "k x < k (hd b)"
  proof
    fix y assume "y \<in> set (concat (b # bs))"
    then consider "y \<in> set b" | "y \<in> set (concat bs)" by auto
    then show "k x < k y"
    proof cases
      case 1
      then have "k y = k (hd b)" using b(1) by blast
      then show ?thesis using that by simp
    next
      case 2
      then have "k (hd b) < k y" using b(2) by blast
      then show ?thesis using that by (rule order_less_trans [rotated])
    qed
  qed
  have eq: "graded k ((x # b) # bs)" if "k x = k (hd b)"
    unfolding graded.simps using b(1,2) Cons.prems(1) that by simp
  have lt2: "graded k ([x] # b # bs)" if "\<forall>y\<in>set (concat (b # bs)). k x < k y"
    unfolding graded.simps(2) [of k "[x]"] using Cons.prems(1) that by simp
  have gt2: "graded k (b # ins_bins k x bs)" if "\<forall>y\<in>set (concat (ins_bins k x bs)). k (hd b) < k y"
    unfolding graded.simps using b that by blast
  show ?case
  proof (cases "k x" "k (hd b)" rule: linorder_cases)
    case less
    then have e: "ins_bins k x (b # bs) = [x] # b # bs" by simp
    show ?thesis unfolding e by (rule lt2 [OF lt [OF less]])
  next
    case equal
    then have e: "ins_bins k x (b # bs) = (x # b) # bs" by simp
    show ?thesis unfolding e by (rule eq [OF equal])
  next
    case greater
    then have e: "ins_bins k x (b # bs) = b # ins_bins k x bs" by auto
    show ?thesis unfolding e by (rule gt2 [OF gt [OF greater]])
  qed
qed simp

text \<open>The last bin of a segment gets a new successor.\<close>

lemma bins_relink:
  assumes "bins h (pre @ [b]) old" "distinct (concat (pre @ [b]))"
  shows "bins (h[hd b := (h ! hd b)\<lparr>nextBin := new\<rparr>]) (pre @ [b]) new"
  using assms
proof (induction pre)
  case Nil
  then have "hd b < length h" using stack_live [of h b "hd b"] by auto
  then show ?case using Nil by simp
next
  case (Cons c pre)
  have "hd c \<in> set c" "hd b \<in> set b" "set c \<inter> set b = {}" using Cons.prems by (auto simp: bins_append)
  then have "hd c \<noteq> hd b" by (metis disjoint_iff)
  moreover have "bins h (pre @ [b]) old" "distinct (concat (pre @ [b]))" using Cons.prems by simp_all
  note Cons.IH [OF this]
  moreover have "first_ptr (concat (pre @ [b])) new = first_ptr (concat (pre @ [b])) old"
    using Cons.prems(1) by (simp add: bins_append first_ptr_hd)
  ultimately show ?case using Cons.prems(1) by simp
qed

text \<open>What the insertion of event \<open>x\<close> may change of it.\<close>

definition relinked :: "event_heap \<Rightarrow> nat \<Rightarrow> event_heap \<Rightarrow> bool" where
  "relinked h x h' \<longleftrightarrow> (\<exists>p q. h' = h[x := (h ! x)\<lparr>nextBin := p, nextInBin := q\<rparr>])"

lemma insertBefore_ok:
  assumes "bins h bs None" "x < length h" "\<not> e_freed (h ! x)" "x \<notin> set (concat bs)"
    "bs = [] \<or> ev_key (h, p) x \<le> ev_key (h, p) (hd (hd bs))"
  shows "\<exists>h'. insertBefore h x (front bs) = Inr h' \<and> relinked h x h' \<and>
    bins h' (ins_bins (ev_key (h, p)) x bs) None \<and> front (ins_bins (ev_key (h, p)) x bs) = Some x"
proof (cases bs)
  case Nil
  then show ?thesis using assms(2,3) by (auto simp: insertBefore_def relinked_def)
next
  case (Cons b cs)
  obtain y ys where b: "b = y # ys" using assms(1) Cons by (cases b) auto
  have y: "y < length h" "\<not> e_freed (h ! y)" "nextBin (h ! y) = front cs" "stack h b" "bins h cs None" using assms(1) Cons b by auto
  have le: "ev_key (h, p) x \<le> ev_key (h, p) y" using assms(5) Cons b by simp
  have nx: "x \<notin> set (concat cs)" "x \<noteq> y" "x \<notin> set ys" using assms(4) Cons b by auto
  show ?thesis
  proof (cases "ev_key (h, p) x < ev_key (h, p) y")
    case True
    then have "insertBefore h x (front bs) = Inr (h[x := (h ! x)\<lparr>nextBin := front bs, nextInBin := None\<rparr>])"
      using Cons b y assms(2,3) by (simp add: insertBefore_def ev_key_order(1) [where p = p])
    then show ?thesis using True Cons b assms(1,2,3,4) nx by (auto simp: relinked_def)
  next
    case False
    then have "insertBefore h x (front bs) = Inr (h[x := (h ! x)\<lparr>nextBin := front cs, nextInBin := Some y\<rparr>])"
      using Cons b y assms(2,3) by (simp add: insertBefore_def ev_key_order(1) [where p = p])
    then show ?thesis using False le Cons b y nx assms(2,3) by (auto simp: relinked_def)
  qed
qed

text \<open>The walk along the bins ends before the first one that is not in front of \<open>x\<close>.\<close>

lemma bin_walk_ok:
  assumes "bins h (b # bs) None" "x < length h" "ev_key (h, p) (hd b) < ev_key (h, p) x" "length bs < n"
  shows "\<exists>pre c cs. b # bs = pre @ c # cs \<and>
    bin_walk n h (h ! x) (Some (hd b)) (front bs) = Inr (Some (hd c), front cs) \<and>
    (\<forall>d\<in>set (pre @ [c]). ev_key (h, p) (hd d) < ev_key (h, p) x) \<and>
    (cs = [] \<or> ev_key (h, p) x \<le> ev_key (h, p) (hd (hd cs)))"
  using assms(1,3,4)
proof (induction bs arbitrary: b n)
  case Nil
  then obtain m where "n = Suc m" by (cases n) auto
  then show ?case using Nil by (intro exI [of _ "[]"] exI [of _ b]) auto
next
  case (Cons c bs)
  obtain m where n: "n = Suc m" "length bs < m" using Cons.prems(3) by (cases n) auto
  obtain y ys where c: "c = y # ys" using Cons.prems(1) by (cases c) auto
  have y: "y < length h" "\<not> e_freed (h ! y)" "nextBin (h ! y) = front bs" using Cons.prems(1) c by auto
  show ?case
  proof (cases "ev_key (h, p) y < ev_key (h, p) x")
    case True
    obtain pre d ds where "c # bs = pre @ d # ds"
        "bin_walk m h (h ! x) (Some (hd c)) (front bs) = Inr (Some (hd d), front ds)"
        "\<forall>d\<in>set (pre @ [d]). ev_key (h, p) (hd d) < ev_key (h, p) x"
        "ds = [] \<or> ev_key (h, p) x \<le> ev_key (h, p) (hd (hd ds))"
      using Cons.IH [of c m] Cons.prems(1) True c n(2) by auto
    moreover have "bin_walk n h (h ! x) (Some (hd b)) (front (c # bs)) = bin_walk m h (h ! x) (Some (hd c)) (front bs)"
      using True c y n(1) assms(2) by (simp add: ev_key_order(1) [where p = p])
    ultimately have "b # c # bs = (b # pre) @ d # ds"
        "bin_walk n h (h ! x) (Some (hd b)) (front (c # bs)) = Inr (Some (hd d), front ds)"
        "\<forall>d\<in>set ((b # pre) @ [d]). ev_key (h, p) (hd d) < ev_key (h, p) x"
        "ds = [] \<or> ev_key (h, p) x \<le> ev_key (h, p) (hd (hd ds))"
      using Cons.prems(2) by simp_all
    then show ?thesis by blast
  next
    case False
    have "bin_walk n h (h ! x) (Some (hd b)) (front (c # bs)) = Inr (Some (hd b), front (c # bs))"
      using False c y n(1) assms(2) by (simp add: ev_key_order(1) [where p = p])
    moreover have "ev_key (h, p) x \<le> ev_key (h, p) (hd (hd (c # bs)))" using False c by simp
    moreover have "\<forall>d\<in>set ([] @ [b]). ev_key (h, p) (hd d) < ev_key (h, p) x" using Cons.prems(2) by simp
    ultimately show ?thesis by (metis append_Nil)
  qed
qed

lemma ins_bins_append:
  "(\<And>d. d \<in> set pre \<Longrightarrow> k (hd d) < k x) \<Longrightarrow> ins_bins k x (pre @ cs) = pre @ ins_bins k x cs"
proof (induction pre)
  case (Cons a pre)
  have "k (hd a) < k x" using Cons.prems by simp
  then have "ins_bins k x ((a # pre) @ cs) = a # ins_bins k x (pre @ cs)" by auto
  then show ?case using Cons.IH Cons.prems by simp
qed simp

text \<open>Insertion and removal change links only.\<close>

definition ev_core :: "Event \<Rightarrow> Event" where
  "ev_core e = e\<lparr>nextBin := None, nextInBin := None\<rparr>"

definition same_events :: "event_heap \<Rightarrow> event_heap \<Rightarrow> bool" where
  "same_events h h' \<longleftrightarrow> map ev_core h' = map ev_core h"

lemma same_events_refl [simp]: "same_events h h"
  by (simp add: same_events_def)

lemma same_events_trans: "same_events h h' \<Longrightarrow> same_events h' h'' \<Longrightarrow> same_events h h''"
  by (simp add: same_events_def)

lemma same_events_upd: "ev_core v = ev_core (h ! a) \<Longrightarrow> same_events h (h[a := v])"
  by (cases "a < length h") (auto simp: same_events_def map_update list_update_beyond intro!: nth_equalityI simp: nth_list_update)

lemma relinked_same: "relinked h x h' \<Longrightarrow> same_events h h'"
  by (auto simp: relinked_def ev_core_def intro!: same_events_upd)

lemma ev_core_fields:
  "e_when (ev_core e) = e_when e" "e_priority (ev_core e) = e_priority e" "e_flags (ev_core e) = e_flags e"
  "e_freed (ev_core e) = e_freed e"
  by (simp_all add: ev_core_def)

lemma same_eventsD:
  assumes "same_events h h'"
  shows "length h' = length h" "a < length h \<Longrightarrow> ev_core (h' ! a) = ev_core (h ! a)"
    "a < length h \<Longrightarrow> e_when (h' ! a) = e_when (h ! a) \<and> e_priority (h' ! a) = e_priority (h ! a) \<and>
      e_flags (h' ! a) = e_flags (h ! a) \<and> e_freed (h' ! a) = e_freed (h ! a)"
    "ev_key (h', p) = ev_key (h, q)"
proof -
  show l: "length h' = length h" using assms by (metis length_map same_events_def)
  show c: "a < length h \<Longrightarrow> ev_core (h' ! a) = ev_core (h ! a)" for a
    using arg_cong [OF assms [unfolded same_events_def], of "\<lambda>l. l ! a"] l by simp
  show f: "a < length h \<Longrightarrow> e_when (h' ! a) = e_when (h ! a) \<and> e_priority (h' ! a) = e_priority (h ! a) \<and>
      e_flags (h' ! a) = e_flags (h ! a) \<and> e_freed (h' ! a) = e_freed (h ! a)" for a
    using ev_core_fields [of "h ! a"] ev_core_fields [of "h' ! a"] c [of a] by auto
  show "ev_key (h', p) = ev_key (h, q)"
  proof
    fix a show "ev_key (h', p) a = ev_key (h, q) a" using f [of a] l by (simp add: ev_key_def)
  qed
qed

text \<open>The end of \<open>insert\<close> and \<open>remove\<close>: the bin before the change gets the changed rest as its successor.\<close>

lemma relink_tail:
  assumes "bins h (pre @ [d]) old" "distinct (concat (pre @ [d]))" "bins h cs None" "set d \<inter> set (concat cs) = {}"
  shows "\<exists>h'. ev_upd h (Some (hd d)) (\<lambda>p. p\<lparr>nextBin := front cs\<rparr>) = Inr h' \<and> bins h' ((pre @ [d]) @ cs) None \<and> same_events h h'"
    "front ((pre @ [d]) @ cs) = front (pre @ d # ds)"
proof -
  let ?h = "h[hd d := (h ! hd d)\<lparr>nextBin := front cs\<rparr>]"
  have d: "d \<noteq> []" using assms(1) by (simp add: bins_append)
  then have hd: "hd d \<in> set d" "hd d \<notin> set (concat cs)" using assms(4) hd_in_set by blast+
  have "bins ?h ((pre @ [d]) @ cs) None"
    unfolding bins_append [of _ "pre @ [d]"] using bins_relink [OF assms(1,2), of "front cs"] assms(3) hd(2) by simp
  moreover have "same_events h ?h" by (rule same_events_upd) (simp add: ev_core_def)
  moreover have "hd d < length h" "\<not> e_freed (h ! hd d)" using bins_live [OF assms(1), of "hd d"] hd(1) by auto
  ultimately show "\<exists>h'. ev_upd h (Some (hd d)) (\<lambda>p. p\<lparr>nextBin := front cs\<rparr>) = Inr h' \<and>
      bins h' ((pre @ [d]) @ cs) None \<and> same_events h h'" by simp
  show "front ((pre @ [d]) @ cs) = front (pre @ d # ds)" using d by (simp add: first_ptr_hd)
qed

lemma distinct_bound: "distinct xs \<Longrightarrow> (\<And>x. x \<in> set xs \<Longrightarrow> x < n) \<Longrightarrow> length xs \<le> (n :: nat)"
  using card_mono [of "{..<n}" "set xs"] by (auto simp: distinct_card)

lemma bins_length:
  assumes "bins h bs nx" "distinct (concat bs)"
  shows "length bs \<le> length h"
proof -
  have "length bs \<le> length (concat bs)" using assms(1)
  proof (induction bs)
    case (Cons b bs)
    then have "1 \<le> length b" by (cases b) auto
    then show ?case using Cons by simp
  qed simp
  also have "\<dots> \<le> length h" by (rule distinct_bound [OF assms(2)]) (use bins_live [OF assms(1)] in blast)
  finally show ?thesis .
qed

lemma ev_insert_bins:
  assumes "ev_bins (h, hp) bs" "x < length h" "\<not> e_freed (h ! x)" "x \<notin> set (concat bs)"
  shows "\<exists>h' hp'. ev_insert x (h, hp) = Inr (h', hp') \<and> ev_bins (h', hp') (ins_bins (ev_key (h, hp)) x bs) \<and> same_events h h'"
proof -
  let ?k = "ev_key (h, hp)"
  have b: "bins h bs None" "hp = front bs" "distinct (concat bs)" "graded ?k bs" using assms(1) by (auto simp: ev_bins_def)
  have g: "graded ?k (ins_bins ?k x bs)" by (rule graded_ins_bins [OF b(4) bins_nonempty [OF b(1)]])
  have d: "distinct (concat (ins_bins ?k x bs))"
    using b(3) assms(4) unfolding concat_ins_bins [OF b(4) bins_nonempty [OF b(1)]] by simp
  have finish: ?thesis if "ev_insert x (h, hp) = Inr (h', hp')" "bins h' (ins_bins ?k x bs) None" "hp' = front (ins_bins ?k x bs)" "same_events h h'" for h' hp'
    using that g d same_eventsD(4) [OF that(4), of hp' hp] by (auto simp: ev_bins_def)
  show ?thesis
  proof (cases "bs = [] \<or> ?k x \<le> ?k (hd (hd bs))")
    case True
    obtain h' where h': "insertBefore h x (front bs) = Inr h'" "relinked h x h'" "bins h' (ins_bins ?k x bs) None"
        "front (ins_bins ?k x bs) = Some x"
      using insertBefore_ok [OF b(1) assms(2-4) True] by blast
    have "ev_insert x (h, hp) = Inr (h', Some x)"
    proof (cases bs)
      case Nil
      then show ?thesis using h'(1) b(2) assms(2,3) by (simp add: ev_insert_def)
    next
      case (Cons c cs)
      then obtain y ys where "c = y # ys" "y < length h" "\<not> e_freed (h ! y)" using b(1) by (cases c) auto
      then show ?thesis using True Cons h'(1) b(2) assms(2,3) by (simp add: ev_insert_def ev_key_order(2) [where p = hp])
    qed
    then show ?thesis using finish h' relinked_same by metis
  next
    case False
    then obtain c cs where bs: "bs = c # cs" by (cases bs) auto
    then obtain y ys where c: "c = y # ys" "y < length h" "\<not> e_freed (h ! y)" "nextBin (h ! y) = front cs" using b(1) by (cases c) auto
    have cs: "length cs < Suc (length h)" using bins_length [OF b(1,3)] bs by simp
    have lt: "?k (hd c) < ?k x" using False bs by simp
    obtain pre d ds where w: "bs = pre @ d # ds"
        "bin_walk (Suc (length h)) h (h ! x) (Some (hd c)) (front cs) = Inr (Some (hd d), front ds)"
        "\<forall>e\<in>set (pre @ [d]). ?k (hd e) < ?k x" "ds = [] \<or> ?k x \<le> ?k (hd (hd ds))"
      using bin_walk_ok [OF b(1) [unfolded bs] assms(2) lt cs] bs by auto
    have xd: "x \<notin> set (concat ds)" "x \<notin> set (concat (pre @ [d]))" using assms(4) w(1) by auto
    have bd: "bins h (pre @ [d]) (front ds)" "bins h ds None" using b(1) w(1) by (auto simp: bins_append)
    obtain h1 where h1: "insertBefore h x (front ds) = Inr h1" "relinked h x h1"
        "bins h1 (ins_bins ?k x ds) None" "front (ins_bins ?k x ds) = Some x"
      using insertBefore_ok [OF bd(2) assms(2,3) xd(1) w(4)] by blast
    have ins: "ins_bins ?k x bs = (pre @ [d]) @ ins_bins ?k x ds"
      using ins_bins_append [of "pre @ [d]" ?k x ds] w(1,3) by simp
    have h1d: "bins h1 (pre @ [d]) (front ds)" using h1(2) bd(1) xd(2) by (auto simp: relinked_def)
    have dist: "distinct (concat (pre @ [d]))" "set d \<inter> set (concat (ins_bins ?k x ds)) = {}"
      unfolding set_ins_bins using b(3) w(1) xd(2) by auto
    note rt = relink_tail [OF h1d dist(1) h1(3) dist(2)]
    obtain h2 where h2: "ev_upd h1 (Some (hd d)) (\<lambda>p. p\<lparr>nextBin := Some x\<rparr>) = Inr h2" "bins h2 (ins_bins ?k x bs) None" "same_events h1 h2"
      using rt(1) unfolding h1(4) ins by blast
    have "ev_insert x (h, hp) = Inr (h2, hp)"
      using False bs b(2) c assms(2,3) w(2) h1(1) h2(1) by (simp add: ev_insert_def ev_key_order(2) [where p = hp])
    moreover have "hp = front (ins_bins ?k x bs)" using rt(2) [of ds] b(2) w(1) ins by simp
    moreover have "same_events h h2" using same_events_trans [OF relinked_same [OF h1(2)] h2(3)] .
    ultimately show ?thesis using finish h2(2) by blast
  qed
qed

section \<open>Removal\<close>

fun del_bins :: "nat \<Rightarrow> nat list list \<Rightarrow> nat list list" where
  "del_bins x [] = []"
| "del_bins x (b # bs) =
     (if x \<in> set b then (if b = [x] then bs else remove1 x b # bs) else b # del_bins x bs)"

lemma concat_del_bins: "concat (del_bins x bs) = remove1 x (concat bs)"
  by (induction bs) (auto simp: remove1_append)

lemma del_bins_append: "x \<notin> set (concat pre) \<Longrightarrow> del_bins x (pre @ bs) = pre @ del_bins x bs"
  by (induction pre) auto

lemma hd_remove1: "(\<forall>y\<in>set b. k y = k (hd b)) \<Longrightarrow> remove1 x b \<noteq> [] \<Longrightarrow> k (hd (remove1 x b)) = k (hd b)"
  by (metis hd_in_set notin_set_remove1)

lemma graded_del_bins: "graded k bs \<Longrightarrow> [] \<notin> set bs \<Longrightarrow> graded k (del_bins x bs)"
proof (induction bs)
  case (Cons b bs)
  have b: "\<forall>y\<in>set b. k y = k (hd b)" "\<forall>y\<in>set (concat bs). k (hd b) < k y" "graded k bs" "graded k (del_bins x bs)"
    using Cons by auto
  have 1: "\<forall>y\<in>set (concat (del_bins x bs)). k (hd b) < k y"
    unfolding concat_del_bins using b(2) by (meson notin_set_remove1)
  have 2: "graded k (remove1 x b # bs)" if "remove1 x b \<noteq> []"
    unfolding graded.simps hd_remove1 [of b k, OF b(1) that] using b(1-3) by (meson notin_set_remove1)
  have 3: "remove1 x b \<noteq> []" if "x \<in> set b" "b \<noteq> [x]"
    using that by (cases b) auto
  show ?case
  proof (cases "x \<in> set b \<and> b \<noteq> [x]")
    case True
    then have e: "del_bins x (b # bs) = remove1 x b # bs" by simp
    show ?thesis unfolding e by (rule 2) (use 3 True in blast)
  next
    case False
    show ?thesis
    proof (cases "b = [x]")
      case True
      then show ?thesis using b(3) by simp
    next
      case nb: False
      then have e: "del_bins x (b # bs) = b # del_bins x bs" using False by auto
      show ?thesis unfolding e graded.simps using b(1,4) 1 by blast
    qed
  qed
qed simp

text \<open>The walk down a stack stops at the predecessor of the event.\<close>

lemma item_walk_ok:
  assumes "stack h (y # ys)" "x \<in> set ys" "length ys \<le> n" "distinct (y # ys)"
  shows "\<exists>as z bs. y # ys = as @ z # x # bs \<and> item_walk n h x (Some y) (first_ptr ys None) = Inr (Some z, Some x)"
  using assms
proof (induction ys arbitrary: y n)
  case (Cons u us)
  obtain m where n: "n = Suc m" "length us \<le> m" using Cons.prems(3) by (cases n) auto
  show ?case
  proof (cases "u = x")
    case True
    then have "y # u # us = [] @ y # x # us \<and> item_walk n h x (Some y) (first_ptr (u # us) None) = Inr (Some y, Some x)"
      using n by simp
    then show ?thesis by blast
  next
    case False
    have "item_walk n h x (Some y) (first_ptr (u # us) None) = item_walk m h x (Some u) (first_ptr us None)"
      using Cons.prems(1) False n by simp
    moreover obtain as z bs where "u # us = as @ z # x # bs" "item_walk m h x (Some u) (first_ptr us None) = Inr (Some z, Some x)"
      using Cons.IH [of u m] Cons.prems False n by auto
    ultimately have "y # u # us = (y # as) @ z # x # bs \<and> item_walk n h x (Some y) (first_ptr (u # us) None) = Inr (Some z, Some x)"
      by simp
    then show ?thesis by blast
  qed
qed simp

lemma stack_unlink:
  assumes "stack h (as @ z # x # bs)" "distinct (as @ z # x # bs)"
  shows "stack (h[z := (h ! z)\<lparr>nextInBin := nextInBin (h ! x)\<rparr>]) (as @ z # bs)"
  using assms
proof (induction as)
  case Nil
  then have "z \<notin> set bs" "stack h bs" "nextInBin (h ! x) = first_ptr bs None" "z < length h" "\<not> e_freed (h ! z)" by simp_all
  then show ?case by simp
next
  case (Cons a as)
  then have "a \<noteq> z" by auto
  then show ?case using Cons by simp
qed

lemma removeItem_ok:
  assumes "bins h (b # bs) None" "distinct (concat (b # bs))" "x \<in> set b"
  shows "\<exists>z v. removeItem h x (Some (hd b)) = Inr (h[z := v], front (del_bins x (b # bs))) \<and>
    bins (h[z := v]) (del_bins x (b # bs)) None \<and> z \<in> set b \<and> ev_core v = ev_core (h ! z)"
proof -
  obtain y ys where b: "b = y # ys" using assms(3) by (cases b) auto
  have y: "y < length h" "\<not> e_freed (h ! y)" "nextInBin (h ! y) = first_ptr ys None" "nextBin (h ! y) = front bs"
    "stack h ys" "bins h bs None" using assms(1) b by auto
  have "stack h b" "distinct b" using assms(1,2) by simp_all
  then have "length b \<le> length h" using distinct_bound [of b "length h"] stack_live [of h b] by blast
  then have len: "length ys \<le> Suc (length h)" using b by simp
  show ?thesis
  proof (cases "x = y")
    case True
    show ?thesis
    proof (cases ys)
      case Nil
      then have "removeItem h x (Some (hd b)) = Inr (h[y := h ! y], front (del_bins x (b # bs)))"
        using True b y by (simp add: removeItem_def)
      moreover have "bins (h[y := h ! y]) (del_bins x (b # bs)) None" using True b y Nil by simp
      ultimately show ?thesis using b by (metis list.set_intros(1))
    next
      case (Cons u us)
      let ?v = "(h ! u)\<lparr>nextBin := front bs\<rparr>"
      have u: "u < length h" "\<not> e_freed (h ! u)" using y(5) Cons by auto
      have "removeItem h x (Some (hd b)) = Inr (h[u := ?v], front (del_bins x (b # bs)))"
        using True b y u Cons by (simp add: removeItem_def)
      moreover have "u \<notin> set (concat bs)" "u \<notin> set us" using assms(2) b Cons by auto
      then have "bins (h[u := ?v]) (del_bins x (b # bs)) None"
        using True b y u Cons assms(2) by simp
      moreover have "ev_core ?v = ev_core (h ! u)" by (simp add: ev_core_def)
      ultimately show ?thesis using b Cons by (intro exI [of _ u] exI [of _ ?v]) simp
    qed
  next
    case False
    then have x: "x \<in> set ys" using assms(3) b by simp
    obtain as z cs where w: "y # ys = as @ z # x # cs" "item_walk (Suc (length h)) h x (Some y) (first_ptr ys None) = Inr (Some z, Some x)"
      using item_walk_ok [of h y ys x "Suc (length h)"] x len assms(1,2) b by auto
    let ?v = "(h ! z)\<lparr>nextInBin := nextInBin (h ! x)\<rparr>"
    have d: "distinct (as @ z # x # cs)" "stack h (as @ z # x # cs)" using assms(1,2) b w(1) by auto
    have zx: "z < length h" "\<not> e_freed (h ! z)" "x < length h" "\<not> e_freed (h ! x)" using stack_live [OF d(2)] by auto
    have r: "remove1 x b = as @ z # cs" using w(1) d(1) b by (auto simp: remove1_append)
    have hd: "hd (as @ z # cs) = y" using w(1) by (cases as) auto
    have del: "del_bins x (b # bs) = (as @ z # cs) # bs" using assms(3) False b r by auto
    have "removeItem h x (Some (hd b)) = Inr (h[z := ?v], Some y)"
      using False b y w(2) zx by (simp add: removeItem_def del: item_walk.simps)
    moreover have "front (del_bins x (b # bs)) = Some y" unfolding del using hd by (cases as) auto
    moreover have "z \<in> set b" "z \<notin> set (concat bs)" using assms(2) b w(1) by auto
    moreover have "nextBin (h[z := ?v] ! y) = front bs" using y(4) by (auto simp: nth_upd)
    then have "bins (h[z := ?v]) (del_bins x (b # bs)) None"
      unfolding del using stack_unlink [OF d(2,1)] y(6) \<open>z \<notin> set (concat bs)\<close> hd by simp
    moreover have "ev_core ?v = ev_core (h ! z)" by (simp add: ev_core_def)
    ultimately show ?thesis by metis
  qed
qed

lemma graded_append:
  assumes "graded k (pre @ c # cs)"
  shows "graded k cs" "\<And>x. x \<in> set c \<Longrightarrow> k x = k (hd c)" "\<And>d x. d \<in> set pre \<Longrightarrow> x \<in> set c \<Longrightarrow> k (hd d) < k x"
proof -
  show "graded k cs" "\<And>x. x \<in> set c \<Longrightarrow> k x = k (hd c)" using assms by (induction pre) auto
  show "k (hd d) < k x" if "d \<in> set pre" "x \<in> set c" for d x
    using assms that(1)
  proof (induction pre)
    case (Cons a pre)
    have "k (hd a) < k x" using Cons.prems(1) that(2) by (simp only: append_Cons graded.simps) simp
    then show ?case using Cons by auto
  qed simp
qed

text \<open>The walk along the bins finds the bin of a queued event.\<close>

lemma bin_walk_member:
  assumes "bins h bs None" "distinct (concat bs)" "graded (ev_key (h, p)) bs" "bs = q # qs @ c # cs" "x \<in> set c"
  shows "bin_walk (Suc (length h)) h (h ! x) (Some (hd q)) (nextBin (h ! hd q)) = Inr (Some (hd (last (q # qs))), Some (hd c))"
proof -
  let ?P = "\<lambda>d. ev_key (h, p) (hd d) < ev_key (h, p) x"
  have "graded (ev_key (h, p)) ((q # qs) @ c # cs)" using assms(3,4) by simp
  note g = graded_append(2,3) [OF this]
  have x: "x < length h" using bins_live [OF assms(1), of x] assms(4,5) by auto
  have c: "c \<noteq> []" using assms(5) by auto
  have q: "nextBin (h ! hd q) = front (qs @ c # cs)" "?P q" using assms(1,4) g(2) [of q x] assms(5) by simp_all
  have "bins h (q # qs @ c # cs) None" "length (qs @ c # cs) < Suc (length h)"
    using assms(1,4) bins_length [OF assms(1,2)] by simp_all
  from bin_walk_ok [OF this(1) x q(2) this(2)] obtain pre d ds where w: "bs = (pre @ [d]) @ ds"
      "bin_walk (Suc (length h)) h (h ! x) (Some (hd q)) (front (qs @ c # cs)) = Inr (Some (hd d), front ds)"
      "\<forall>e\<in>set (pre @ [d]). ?P e" "ds = [] \<or> \<not> ?P (hd ds)" unfolding assms(4) not_less by auto
  have "takeWhile ?P bs = pre @ [d]" unfolding w(1) using w(3,4) by (cases ds) (simp_all add: takeWhile_append2)
  moreover have "takeWhile ?P ((q # qs) @ c # cs) = q # qs"
    using g assms(5) by (subst takeWhile_append2) auto
  ultimately have pre: "q # qs = pre @ [d]" using assms(4) by simp
  moreover have "(q # qs) @ c # cs = (pre @ [d]) @ ds" using w(1) assms(4) by simp
  ultimately have "ds = c # cs" by simp
  then have "front ds = Some (hd c)" "last (q # qs) = d" using c pre by (simp_all add: first_ptr_hd)
  then show ?thesis using w(2) q(1) by (simp del: bin_walk.simps)
qed

lemma ev_remove_bins:
  assumes "ev_bins (h, hp) bs" "x \<in> set (concat bs)"
  shows "\<exists>h' hp'. ev_remove x (h, hp) = Inr (h', hp') \<and> ev_bins (h', hp') (del_bins x bs) \<and> same_events h h'"
proof -
  let ?k = "ev_key (h, hp)"
  have b: "bins h bs None" "hp = front bs" "distinct (concat bs)" "graded ?k bs" using assms(1) by (auto simp: ev_bins_def)
  have xl: "x < length h" "\<not> e_freed (h ! x)" using bins_live [OF b(1) assms(2)] by auto
  have g: "graded ?k (del_bins x bs)" by (rule graded_del_bins [OF b(4) bins_nonempty [OF b(1)]])
  have d: "distinct (concat (del_bins x bs))" unfolding concat_del_bins using b(3) by simp
  have finish: ?thesis if "ev_remove x (h, hp) = Inr (h', hp')" "bins h' (del_bins x bs) None" "hp' = front (del_bins x bs)" "same_events h h'" for h' hp'
    using that g d same_eventsD(4) [OF that(4), of hp' hp] by (auto simp: ev_bins_def)
  obtain pre c cs where s: "bs = pre @ c # cs" "x \<in> set c" "x \<notin> set (concat pre)"
  proof -
    obtain c where "c \<in> set bs" "x \<in> set c" using assms(2) by auto
    then obtain pre cs where "bs = pre @ c # cs" by (meson split_list)
    then show thesis using that [of pre c cs] \<open>x \<in> set c\<close> b(3) by auto
  qed
  have del: "del_bins x bs = pre @ del_bins x (c # cs)" using del_bins_append s(1,3) by simp
  have bc: "bins h (c # cs) None" "bins h pre (front (c # cs))" "distinct (concat (c # cs))" using b(1,3) s(1) by (auto simp: bins_append)
  obtain z v where r: "removeItem h x (Some (hd c)) = Inr (h[z := v], front (del_bins x (c # cs)))"
      "bins (h[z := v]) (del_bins x (c # cs)) None" "z \<in> set c" "ev_core v = ev_core (h ! z)"
    using removeItem_ok [OF bc(1,3) s(2)] by blast
  have same: "same_events h (h[z := v])" by (rule same_events_upd [OF r(4)])
  have kx: "?k x = ?k (hd c)" and kp: "\<And>d. d \<in> set pre \<Longrightarrow> ?k (hd d) < ?k x"
    using graded_append [OF b(4) [unfolded s(1)]] s(2) by auto
  have c: "c \<noteq> []" "hd c < length h" "\<not> e_freed (h ! hd c)" using bc(1) stack_live [of h c "hd c"] by auto
  show ?thesis
  proof (cases pre)
    case Nil
    have "hp = Some (hd c)" using b(2) s(1) Nil c(1) by (simp add: first_ptr_hd)
    then have "ev_remove x (h, hp) = Inr (h[z := v], front (del_bins x (c # cs)))"
      using r(1) c xl kx by (simp add: ev_remove_def ev_key_order(3) [where p = hp])
    then show ?thesis using finish r(2) del Nil same by simp
  next
    case (Cons q qs)
    then have pre: "pre = butlast pre @ [last pre]" by simp
    define pre' d where "pre' = butlast pre" "d = last pre"
    then have pre: "pre = pre' @ [d]" using pre by simp
    have q: "q \<noteq> []" "hd q < length h" "\<not> e_freed (h ! hd q)" "hp = Some (hd q)"
      using b(1,2) s(1) Cons stack_live [of h q "hd q"] by (auto simp: first_ptr_hd)
    have kq: "?k (hd q) < ?k x" using kp Cons by simp
    have nz: "z \<notin> set (concat pre)" "set d \<inter> set (concat (del_bins x (c # cs))) = {}" "distinct (concat (pre' @ [d]))"
      using b(3) s(1) r(3) pre unfolding concat_del_bins by (auto dest: notin_set_remove1)
    have h1: "bins (h[z := v]) (pre' @ [d]) (front (c # cs))" using bc(2) nz(1) pre by simp
    note rt = relink_tail [OF h1 nz(3) r(2) nz(2)]
    obtain h2 where h2: "ev_upd (h[z := v]) (Some (hd d)) (\<lambda>p. p\<lparr>nextBin := front (del_bins x (c # cs))\<rparr>) = Inr h2"
        "bins h2 (del_bins x bs) None" "same_events (h[z := v]) h2"
      using rt(1) unfolding del pre by blast
    have "bin_walk (Suc (length h)) h (h ! x) (Some (hd q)) (nextBin (h ! hd q)) = Inr (Some (hd d), Some (hd c))"
      using bin_walk_member [OF b(1,3,4) _ s(2), of q qs cs] s(1) Cons pre by (simp del: bin_walk.simps) (metis last_snoc last_ConsL last_ConsR)
    moreover have "\<not> ev_eq (h ! hd q) (h ! x)" "ev_eq (h ! hd c) (h ! x)"
      using ev_key_order(3) [of _ h x hp] q(2) c(2) xl(1) kx kq by auto
    ultimately have "ev_remove x (h, hp) = Inr (h2, hp)"
      using q(2-4) xl c(2,3) r(1) h2(1) by (simp add: ev_remove_def del: bin_walk.simps)
    moreover have "hp = front (del_bins x bs)" using rt(2) [of "c # cs"] b(2) s(1) del pre by simp
    moreover have "same_events h h2" using same_events_trans [OF same h2(3)] .
    ultimately show ?thesis using finish h2(2) by blast
  qed
qed

section \<open>The contract of a timed queue\<close>

text \<open>The pointers determine the bins.\<close>

lemma stack_unique: "stack h xs \<Longrightarrow> stack h ys \<Longrightarrow> first_ptr xs None = first_ptr ys None \<Longrightarrow> xs = ys"
proof (induction xs arbitrary: ys)
  case Nil
  then show ?case by (cases ys) auto
next
  case (Cons x xs)
  then show ?case by (cases ys) auto
qed

lemma bins_unique: "bins h bs None \<Longrightarrow> bins h cs None \<Longrightarrow> front bs = front cs \<Longrightarrow> bs = cs"
proof (induction bs arbitrary: cs)
  case Nil
  then show ?case by (cases cs) (auto simp: first_ptr_hd)
next
  case (Cons b bs)
  then obtain c cs' where cs: "cs = c # cs'" by (cases cs) (auto simp: first_ptr_hd)
  have ne: "b \<noteq> []" "c \<noteq> []" "hd b = hd c" using Cons.prems cs by (auto simp: first_ptr_hd)
  then have "b = c" using Cons.prems cs stack_unique [of h b c] by (simp add: first_ptr_hd)
  moreover have "bs = cs'" using Cons.IH [of cs'] Cons.prems cs ne by simp
  ultimately show ?case using cs by simp
qed

definition ev_fresh :: "event_heap \<times> ptr \<Rightarrow> nat \<Rightarrow> bool" where
  "ev_fresh s x \<longleftrightarrow> x < length (fst s) \<and> \<not> e_freed (fst s ! x)"

lemma ev_list_insert:
  assumes "ev_list s xs" "ev_fresh s x" "x \<notin> set xs"
  shows "\<exists>s'. ev_insert x s = Inr s' \<and> ev_list s' (place (ev_key s) x xs) \<and> same_events (fst s) (fst s')"
proof -
  obtain h hp bs where s: "s = (h, hp)" "ev_bins (h, hp) bs" "xs = concat bs" using assms(1) by (cases s) (auto simp: ev_list_def)
  then obtain h' hp' where "ev_insert x s = Inr (h', hp')" "ev_bins (h', hp') (ins_bins (ev_key s) x bs)" "same_events h h'"
    using ev_insert_bins [of h hp bs x] assms(2,3) by (auto simp: ev_fresh_def)
  moreover have "concat (ins_bins (ev_key s) x bs) = place (ev_key s) x xs"
  proof -
    have "graded (ev_key s) bs" "[] \<notin> set bs" using s(1,2) bins_nonempty [of h bs None] by (auto simp: ev_bins_def)
    then show ?thesis unfolding s(3) by (rule concat_ins_bins)
  qed
  ultimately show ?thesis using s(1) by (metis ev_list_def fst_conv)
qed

lemma ev_list_remove:
  assumes "ev_list s xs" "x \<in> set xs"
  shows "\<exists>s'. ev_remove x s = Inr s' \<and> ev_list s' (remove1 x xs) \<and> same_events (fst s) (fst s')"
proof -
  obtain h hp bs where s: "s = (h, hp)" "ev_bins (h, hp) bs" "xs = concat bs" using assms(1) by (cases s) (auto simp: ev_list_def)
  then obtain h' hp' where "ev_remove x s = Inr (h', hp')" "ev_bins (h', hp') (del_bins x bs)" "same_events h h'"
    using ev_remove_bins [of h hp bs x] assms(2) by auto
  then show ?thesis using s(1,3) concat_del_bins by (metis ev_list_def fst_conv)
qed

lemma ev_fresh_same: "same_events (fst s) (fst s') \<Longrightarrow> ev_fresh s' y = ev_fresh s y"
  using same_eventsD(1,3) [of "fst s" "fst s'"] by (auto simp: ev_fresh_def)

lemma ev_key_same: "same_events (fst s) (fst s') \<Longrightarrow> ev_key s' = ev_key s"
  using same_eventsD(4) [of "fst s" "fst s'" "snd s'" "snd s"] by simp

interpretation evq: timed_queue ev_list ev_key ev_fresh ev_insert ev_remove
proof unfold_locales
  show "distinct xs" if "ev_list s xs" for s xs using that by (auto simp: ev_list_def ev_bins_def)
  show "xs = ys" if "ev_list s xs" "ev_list s ys" for s xs ys
    using that bins_unique by (fastforce simp: ev_list_def ev_bins_def)
  show "\<exists>s'. ev_insert x s = Inr s' \<and> ev_list s' (place (ev_key s) x xs) \<and> ev_key s' = ev_key s \<and>
      (\<forall>y. y \<noteq> x \<longrightarrow> y \<notin> set xs \<longrightarrow> ev_fresh s' y = ev_fresh s y)"
    if "ev_list s xs" "ev_fresh s x" "x \<notin> set xs" for s xs x
    using ev_list_insert [OF that] ev_fresh_same ev_key_same by blast
  show "\<exists>s'. ev_remove x s = Inr s' \<and> ev_list s' (remove1 x xs) \<and> ev_key s' = ev_key s \<and>
      (\<forall>y. y \<notin> set xs \<longrightarrow> ev_fresh s' y = ev_fresh s y)"
    if "ev_list s xs" "x \<in> set xs" for s xs x
    using ev_list_remove [OF that] ev_fresh_same ev_key_same by blast
qed

end
