(* ===== verification/Event_Sim.thy ===== *)
theory Event_Sim
  imports Event_Queue
begin

text \<open>
  Scheduling (\<open>src/src/sim/eventq.hh\<close>), servicing (\<open>eventq.cc\<close>) and the main loop of the simulator
  (\<open>src/src/sim/simulate.cc\<close>). What an event does is a parameter \<open>process\<close>; \<open>'w\<close> is the state of the
  rest of the simulator, and \<open>loop_exit a\<close> tells whether the event at address \<open>a\<close> is of the class
  \<open>SimLoopExitEvent\<close>. Asynchronous requests (signals) are not modelled.
\<close>

section \<open>Operations\<close>

definition ev_modify :: "nat \<Rightarrow> (Event \<Rightarrow> Event) \<Rightarrow> EventQueue \<Rightarrow> EventQueue res" where
  "ev_modify a g q = bindE (ev_upd (ev_heap q) (Some a) g) (\<lambda>h. Inr (q\<lparr>ev_heap := h\<rparr>))"

definition EventQueue_ctor :: "event_heap \<Rightarrow> int \<Rightarrow> bool \<Rightarrow> EventQueue" where
  "EventQueue_ctor h now main = \<lparr>ev_heap = h, ev_head = None, ev_now = now, ev_main = main\<rparr>"

definition new_Event :: "int \<Rightarrow> int \<Rightarrow> u16 \<Rightarrow> EventQueue \<Rightarrow> (nat \<times> EventQueue) res" where
  "new_Event raw_when p f q =
     bindE (Event_ctor raw_when p f) (\<lambda>e. Inr (length (ev_heap q), q\<lparr>ev_heap := ev_heap q @ [e]\<rparr>))"

text \<open>\<open>delete event\<close>, with the destructor.\<close>

definition delete_Event :: "nat \<Rightarrow> EventQueue \<Rightarrow> EventQueue res" where
  "delete_Event a q =
     bindE (ev_deref (ev_heap q) (Some a)) (\<lambda>e.
     bindE (assertE (\<not> scheduled e)) (\<lambda>_.
       ev_modify a (\<lambda>e. e\<lparr>e_flags := 0, e_freed := True\<rparr>) q))"

text \<open>The comparison of times as unsigned numbers.\<close>

definition utick_le :: "int \<Rightarrow> int \<Rightarrow> bool" where
  "utick_le a b \<longleftrightarrow> (word_of_int a :: u64) \<le> word_of_int b"

definition insert_at :: "nat \<Rightarrow> int \<Rightarrow> EventQueue \<Rightarrow> EventQueue res" where
  "insert_at event t q =
     bindE (ev_modify event (\<lambda>e. e\<lparr>e_when := t\<rparr>) q) (\<lambda>q.
     bindE (ev_insert event (ev_heap q, ev_head q)) (\<lambda>(h, p). Inr (q\<lparr>ev_heap := h, ev_head := p\<rparr>)))"

definition main_flag :: "EventQueue \<Rightarrow> Event \<Rightarrow> Event" where
  "main_flag q = (if ev_main q then e_set IsMainQueue else e_clear IsMainQueue)"

definition schedule :: "nat \<Rightarrow> int \<Rightarrow> EventQueue \<Rightarrow> EventQueue res" where
  "schedule event t q =
     bindE (assertE (utick_le (ev_now q) t)) (\<lambda>_.
     bindE (ev_deref (ev_heap q) (Some event)) (\<lambda>e.
     bindE (assertE (\<not> scheduled e)) (\<lambda>_.
     bindE (assertE (initialized e)) (\<lambda>_.
     bindE (insert_at event t q) (\<lambda>q.
     bindE (ev_modify event (e_set Scheduled) q) (\<lambda>q. ev_modify event (main_flag q) q))))))"

definition deschedule :: "nat \<Rightarrow> EventQueue \<Rightarrow> EventQueue res" where
  "deschedule event q =
     bindE (ev_deref (ev_heap q) (Some event)) (\<lambda>e.
     bindE (assertE (scheduled e)) (\<lambda>_.
     bindE (assertE (initialized e)) (\<lambda>_.
     bindE (ev_remove event (ev_heap q, ev_head q)) (\<lambda>(h, p).
     bindE (ev_modify event (e_clear Squashed) (q\<lparr>ev_heap := h, ev_head := p\<rparr>)) (\<lambda>q.
     bindE (ev_modify event (e_clear Scheduled) q) (\<lambda>q.
     bindE (ev_deref (ev_heap q) (Some event)) (\<lambda>e.
       if flags_isSet (e_flags e) AutoDelete then delete_Event event q else Inr q)))))))"

definition reschedule :: "nat \<Rightarrow> int \<Rightarrow> bool \<Rightarrow> EventQueue \<Rightarrow> EventQueue res" where
  "reschedule event t always q =
     bindE (assertE (utick_le (ev_now q) t)) (\<lambda>_.
     bindE (ev_deref (ev_heap q) (Some event)) (\<lambda>e.
     bindE (assertE (always \<or> scheduled e)) (\<lambda>_.
     bindE (assertE (initialized e)) (\<lambda>_.
     bindE (if scheduled e
            then bindE (ev_remove event (ev_heap q, ev_head q)) (\<lambda>(h, p). Inr (q\<lparr>ev_heap := h, ev_head := p\<rparr>))
            else Inr q) (\<lambda>q.
     bindE (insert_at event t q) (\<lambda>q.
     bindE (ev_modify event (e_clear Squashed) q) (\<lambda>q.
     bindE (ev_modify event (e_set Scheduled) q) (\<lambda>q. ev_modify event (main_flag q) q))))))))"

text \<open>
  \<open>serviceOne\<close> takes the first event off the queue (\<open>pop_head\<close>), runs it unless it was squashed, and
  returns it when it ends the simulation (\<open>dispatch\<close>).
\<close>

definition pop_head :: "EventQueue \<Rightarrow> (nat \<times> Event \<times> EventQueue) res" where
  "pop_head q =
     (case ev_head q of None \<Rightarrow> Inl Null_deref
      | Some event \<Rightarrow>
          bindE (ev_deref (ev_heap q) (Some event)) (\<lambda>e.
          bindE (ev_modify event (e_clear Scheduled) q) (\<lambda>q.
          bindE (if nextInBin e \<noteq> None
                 then bindE (ev_upd (ev_heap q) (nextInBin e) (\<lambda>x. x\<lparr>nextBin := nextBin e\<rparr>))
                        (\<lambda>h. Inr (q\<lparr>ev_heap := h, ev_head := nextInBin e\<rparr>))
                 else Inr (q\<lparr>ev_head := nextBin e\<rparr>)) (\<lambda>q. Inr (event, e, q)))))"

definition dispatch :: "(nat \<Rightarrow> 'w \<times> EventQueue \<Rightarrow> ('w \<times> EventQueue) res) \<Rightarrow> nat \<Rightarrow> Event \<Rightarrow> 'w \<Rightarrow> EventQueue \<Rightarrow>
  (ptr \<times> 'w \<times> EventQueue) res" where
  "dispatch process event e w q =
     bindE (if \<not> squashed e
            then bindE (process event (w, q)) (\<lambda>(w, q).
                 bindE (ev_deref (ev_heap q) (Some event)) (\<lambda>e.
                   if isExitEvent e
                   then bindE (assertE (\<not> flags_isSet (e_flags e) AutoDelete)) (\<lambda>_. Inr (True, w, q))
                   else Inr (False, w, q)))
            else bindE (ev_modify event (e_clear Squashed) q) (\<lambda>q. Inr (False, w, q))) (\<lambda>(ended, w, q).
     if ended then Inr (Some event, w, q)
     else
       bindE (ev_deref (ev_heap q) (Some event)) (\<lambda>e.
         if flags_isSet (e_flags e) AutoDelete \<and> \<not> scheduled e
         then bindE (delete_Event event q) (\<lambda>q. Inr (None, w, q))
         else Inr (None, w, q)))"

definition serviceOne :: "(nat \<Rightarrow> 'w \<times> EventQueue \<Rightarrow> ('w \<times> EventQueue) res) \<Rightarrow> 'w \<times> EventQueue \<Rightarrow>
  (ptr \<times> 'w \<times> EventQueue) res" where
  "serviceOne process = (\<lambda>(w, q). bindE (pop_head q) (\<lambda>(event, e, q). dispatch process event e w q))"

definition nextTick :: "EventQueue \<Rightarrow> int res" where
  "nextTick q = bindE (ev_deref (ev_heap q) (ev_head q)) (\<lambda>e. Inr (e_when e))"

fun serviceEvents :: "(nat \<Rightarrow> 'w \<times> EventQueue \<Rightarrow> ('w \<times> EventQueue) res) \<Rightarrow> nat \<Rightarrow> int \<Rightarrow> 'w \<times> EventQueue \<Rightarrow>
  ('w \<times> EventQueue) res" where
  "serviceEvents process 0 t s = Inl Diverges"
| "serviceEvents process (Suc n) t s =
     (if ev_head (snd s) = None then Inr s
      else bindE (nextTick (snd s)) (\<lambda>next.
        if next > t then Inr s
        else bindE (serviceOne process s) (\<lambda>(_, s). serviceEvents process n t s)))"

text \<open>One round of the loop in \<open>simulate\<close>, the loop, and \<open>simulate\<close> itself.\<close>

definition sim_round :: "(nat \<Rightarrow> 'w \<times> EventQueue \<Rightarrow> ('w \<times> EventQueue) res) \<Rightarrow> 'w \<times> EventQueue \<Rightarrow>
  (ptr \<times> 'w \<times> EventQueue) res" where
  "sim_round process = (\<lambda>(w, q).
     bindE (assertE (ev_head q \<noteq> None)) (\<lambda>_.
     bindE (nextTick q) (\<lambda>next.
     bindE (assertE (ev_now q \<le> next)) (\<lambda>_.
       serviceOne process (w, q\<lparr>ev_now := next\<rparr>)))))"

text \<open>What the loop does with an event that ends the simulation; \<open>limit\<close> is of the class \<open>SimLoopExitEvent\<close>.\<close>

definition leave_loop :: "(nat \<Rightarrow> bool) \<Rightarrow> nat \<Rightarrow> nat \<Rightarrow> EventQueue \<Rightarrow> EventQueue res" where
  "leave_loop loop_exit limit ex q =
     (if \<not> (ex = limit \<or> loop_exit ex) then Inl Panic
      else if ex \<noteq> limit then
        bindE (ev_deref (ev_heap q) (Some limit)) (\<lambda>e.
        bindE (assertE (scheduled e)) (\<lambda>_. ev_modify limit (e_set Squashed) q))
      else Inr q)"

fun sim_loop :: "(nat \<Rightarrow> 'w \<times> EventQueue \<Rightarrow> ('w \<times> EventQueue) res) \<Rightarrow> (nat \<Rightarrow> bool) \<Rightarrow> nat \<Rightarrow> nat \<Rightarrow> 'w \<times> EventQueue \<Rightarrow>
  (nat \<times> 'w \<times> EventQueue) res" where
  "sim_loop process loop_exit 0 limit s = Inl Diverges"
| "sim_loop process loop_exit (Suc n) limit s =
     bindE (sim_round process s) (\<lambda>(r, w, q).
       case r of None \<Rightarrow> sim_loop process loop_exit n limit (w, q)
       | Some ex \<Rightarrow> bindE (leave_loop loop_exit limit ex q) (\<lambda>q. Inr (ex, w, q)))"

definition MaxTick :: int where "MaxTick = 0x7fffffffffffffff"

definition Sim_Exit_Pri :: int where "Sim_Exit_Pri = 100"

definition simulate :: "(nat \<Rightarrow> 'w \<times> EventQueue \<Rightarrow> ('w \<times> EventQueue) res) \<Rightarrow> (nat \<Rightarrow> bool) \<Rightarrow> nat \<Rightarrow> int \<Rightarrow> int \<Rightarrow>
  'w \<times> EventQueue \<Rightarrow> (nat \<times> 'w \<times> EventQueue) res" where
  "simulate process loop_exit fuel raw_when num_cycles = (\<lambda>(w, q).
     if num_cycles < 0 then Inl Panic
     else
       let t = (if signed_take_bit 63 (ev_now q + num_cycles) < 0 then MaxTick else ev_now q + num_cycles) in
       bindE (new_Event raw_when Sim_Exit_Pri IsExitEvent q) (\<lambda>(limit, q).
       bindE (schedule limit t q) (\<lambda>q. sim_loop process loop_exit fuel limit (w, q))))"

section \<open>Flags\<close>

lemma isSet_bit: "flags_isSet f (2 ^ n) \<longleftrightarrow> bit f n"
  by (simp add: flags_isSet_def and_exp_eq_0_iff_not_bit)

lemma flag_bits: "Scheduled = 2 ^ 1" "Squashed = 2 ^ 0" "AutoDelete = 2 ^ 2" "IsExitEvent = 2 ^ 4" "IsMainQueue = 2 ^ 5"
  by (simp_all add: flag_defs)

lemma scheduled_bit: "scheduled e \<longleftrightarrow> bit (e_flags e) 1"
  unfolding scheduled_def flag_bits by (rule isSet_bit)

text \<open>Setting and clearing a single flag \<open>2 ^ n\<close>.\<close>

lemma scheduled_flags [simp]:
  "scheduled (e_set Scheduled e)" "\<not> scheduled (e_clear Scheduled e)"
  "scheduled (e_set IsMainQueue e) = scheduled e" "scheduled (e_clear IsMainQueue e) = scheduled e"
  "scheduled (e_set Squashed e) = scheduled e" "scheduled (e_clear Squashed e) = scheduled e"
  unfolding scheduled_bit
  by (auto simp: e_set_def e_clear_def flags_set_def flags_clear_def flag_bits bit_or_iff bit_and_iff bit_not_iff bit_exp_iff)

lemma initialized_set: "m AND InitMask = 0 \<Longrightarrow> initialized (e_set m e) = initialized e"
  by (simp add: initialized_def e_set_def flags_set_def bit.conj_disj_distrib2)

lemma initialized_clear: "InitMask AND NOT m = InitMask \<Longrightarrow> initialized (e_clear m e) = initialized e"
  by (simp add: initialized_def e_clear_def flags_clear_def and.assoc and.commute [of "NOT m"])

lemma initialized_flags [simp]:
  "initialized (e_set Scheduled e) = initialized e" "initialized (e_clear Scheduled e) = initialized e"
  "initialized (e_set IsMainQueue e) = initialized e" "initialized (e_clear IsMainQueue e) = initialized e"
  "initialized (e_set Squashed e) = initialized e" "initialized (e_clear Squashed e) = initialized e"
  by (auto intro!: initialized_set initialized_clear simp: flag_defs)

lemma flag_fields [simp]:
  "nextBin (e_set m e) = nextBin e" "nextInBin (e_set m e) = nextInBin e" "e_when (e_set m e) = e_when e"
  "e_priority (e_set m e) = e_priority e" "e_freed (e_set m e) = e_freed e"
  "nextBin (e_clear m e) = nextBin e" "nextInBin (e_clear m e) = nextInBin e" "e_when (e_clear m e) = e_when e"
  "e_priority (e_clear m e) = e_priority e" "e_freed (e_clear m e) = e_freed e"
  by (simp_all add: e_set_def e_clear_def)

lemma main_flag_fields [simp]:
  "nextBin (main_flag q e) = nextBin e" "nextInBin (main_flag q e) = nextInBin e" "e_when (main_flag q e) = e_when e"
  "e_priority (main_flag q e) = e_priority e" "e_freed (main_flag q e) = e_freed e"
  "scheduled (main_flag q e) = scheduled e" "initialized (main_flag q e) = initialized e"
  by (simp_all add: main_flag_def)

lemma when_fields [simp]: "scheduled (e\<lparr>e_when := t\<rparr>) = scheduled e" "initialized (e\<lparr>e_when := t\<rparr>) = initialized e"
  by (simp_all add: scheduled_def initialized_def)

lemma utick_le_iff: "0 \<le> a \<Longrightarrow> a < 2 ^ 63 \<Longrightarrow> 0 \<le> b \<Longrightarrow> b < 2 ^ 63 \<Longrightarrow> utick_le a b \<longleftrightarrow> a \<le> b"
  by (simp add: utick_le_def word_le_def uint_word_of_int)

text \<open>A negative time passes the test for times in the past.\<close>

lemma utick_le_negative:
  assumes "0 \<le> a" "a < 2 ^ 63" "- (2 ^ 63) \<le> b" "b < 0"
  shows "utick_le a b"
proof -
  have "b mod 2 ^ 64 = b + 2 ^ 64" using assms(3,4) by (intro int_mod_pos_eq [of _ _ "- 1"]) auto
  then show ?thesis using assms by (simp add: utick_le_def word_le_def uint_word_of_int)
qed

section \<open>The invariant\<close>

lemma stack_cong:
  assumes "length h \<le> length h'" "\<And>x. x \<in> set b \<Longrightarrow> nextInBin (h' ! x) = nextInBin (h ! x) \<and> e_freed (h' ! x) = e_freed (h ! x)"
  shows "stack h b \<Longrightarrow> stack h' b"
  using assms by (induction b) auto

lemma bins_cong:
  assumes "length h \<le> length h'"
    "\<And>x. x \<in> set (concat bs) \<Longrightarrow> nextBin (h' ! x) = nextBin (h ! x) \<and> nextInBin (h' ! x) = nextInBin (h ! x) \<and> e_freed (h' ! x) = e_freed (h ! x)"
  shows "bins h bs nx \<Longrightarrow> bins h' bs nx"
  using assms(2)
proof (induction bs)
  case (Cons b bs)
  then have b: "b \<noteq> []" "stack h b" by simp_all
  have "stack h' b" by (rule stack_cong [OF assms(1) _ b(2)]) (use Cons.prems(2) in simp)
  moreover have "nextBin (h' ! hd b) = nextBin (h ! hd b)" using Cons.prems(2) [of "hd b"] b(1) by simp
  ultimately show ?case using Cons by simp
qed simp

lemma graded_cong:
  assumes "graded k bs" "[] \<notin> set bs" "\<And>x. x \<in> set (concat bs) \<Longrightarrow> k' x = k x"
  shows "graded k' bs"
  using assms
proof (induction bs)
  case (Cons b bs)
  have "k' (hd b) = k (hd b)" using Cons.prems(2) Cons.prems(3) [of "hd b"] by (cases b) auto
  moreover have "graded k' bs" using Cons by simp
  moreover have "\<forall>x\<in>set b. k' x = k (hd b)" "\<forall>y\<in>set (concat bs). k (hd b) < k' y" using Cons.prems(1,3) by simp_all
  ultimately show ?case unfolding graded.simps by metis
qed simp

lemma ev_list_frame:
  assumes "ev_list (h, p) xs" "length h \<le> length h'"
    "\<And>x. x \<in> set xs \<Longrightarrow> nextBin (h' ! x) = nextBin (h ! x) \<and> nextInBin (h' ! x) = nextInBin (h ! x) \<and>
      e_freed (h' ! x) = e_freed (h ! x) \<and> e_when (h' ! x) = e_when (h ! x) \<and> e_priority (h' ! x) = e_priority (h ! x)"
  shows "ev_list (h', p) xs"
proof -
  obtain bs where b: "xs = concat bs" "bins h bs None" "p = front bs" "distinct (concat bs)" "graded (ev_key (h, p)) bs"
    using assms(1) by (auto simp: ev_list_def ev_bins_def)
  have "bins h' bs None" by (rule bins_cong [OF assms(2) _ b(2)]) (use assms(3) b(1) in simp)
  moreover have "ev_key (h', p) x = ev_key (h, p) x" if "x \<in> set (concat bs)" for x
    using bins_live [OF b(2) that] assms(2) assms(3) [of x] b(1) that by (simp add: ev_key_def)
  then have "graded (ev_key (h', p)) bs" by (rule graded_cong [OF b(5) bins_nonempty [OF b(2)]])
  ultimately show ?thesis using b unfolding ev_list_def ev_bins_def by auto
qed

lemma graded_sorted: "graded k bs \<Longrightarrow> sorted (map k (concat bs))"
proof (induction bs)
  case (Cons b bs)
  have b: "\<forall>x\<in>set b. k x = k (hd b)" "\<forall>y\<in>set (concat bs). k (hd b) < k y" "sorted (map k (concat bs))" using Cons by auto
  have "sorted (map k b)" using b(1) by (simp add: sorted_iff_nth_mono)
  moreover have "\<forall>x\<in>set (map k b). \<forall>y\<in>set (map k (concat bs)). x \<le> y"
    using b(1,2) by (metis (no_types, lifting) image_iff list.set_map order_less_imp_le)
  ultimately show ?case using b(3) by (simp only: concat.simps map_append sorted_append)
qed simp

text \<open>
  \<open>ev_wf q xs\<close>: the queue holds the events \<open>xs\<close>, exactly these are marked as scheduled, all are
  initialised, and none lies in the past.
\<close>

definition ev_wf :: "EventQueue \<Rightarrow> nat list \<Rightarrow> bool" where
  "ev_wf q xs \<longleftrightarrow> ev_list (ev_heap q, ev_head q) xs \<and>
     (\<forall>x < length (ev_heap q). scheduled (ev_heap q ! x) \<longleftrightarrow> x \<in> set xs) \<and>
     (\<forall>x\<in>set xs. initialized (ev_heap q ! x) \<and> ev_now q \<le> e_when (ev_heap q ! x) \<and> e_when (ev_heap q ! x) < 2 ^ 63) \<and>
     0 \<le> ev_now q \<and> ev_now q < 2 ^ 63"

lemma ev_list_live:
  assumes "ev_list s xs" "x \<in> set xs"
  shows "x < length (fst s)" "\<not> e_freed (fst s ! x)"
  using assms bins_live by (fastforce simp: ev_list_def ev_bins_def)+

text \<open>A write to one event that keeps its links, its key and whether it is scheduled.\<close>

definition keeps :: "Event \<Rightarrow> Event \<Rightarrow> bool" where
  "keeps e e' \<longleftrightarrow> nextBin e' = nextBin e \<and> nextInBin e' = nextInBin e \<and> e_when e' = e_when e \<and>
     e_priority e' = e_priority e \<and> e_freed e' = e_freed e \<and> initialized e' = initialized e"

lemma ev_list_write:
  assumes "ev_list (h, p) xs" "x \<in> set xs \<Longrightarrow> keeps (h ! x) v"
  shows "ev_list (h[x := v], p) xs"
proof (rule ev_list_frame [OF assms(1)])
  fix y assume "y \<in> set xs"
  then show "nextBin (h[x := v] ! y) = nextBin (h ! y) \<and> nextInBin (h[x := v] ! y) = nextInBin (h ! y) \<and>
      e_freed (h[x := v] ! y) = e_freed (h ! y) \<and> e_when (h[x := v] ! y) = e_when (h ! y) \<and>
      e_priority (h[x := v] ! y) = e_priority (h ! y)"
    using assms(2) by (auto simp: nth_upd keeps_def)
qed simp

text \<open>Marking the event that was just put into the queue, or taken out of it.\<close>

lemma ev_wf_mark:
  assumes "ev_list (h, ev_head q) xs" "x < length h"
    "\<And>y. y < length h \<Longrightarrow> y \<noteq> x \<Longrightarrow> scheduled (h ! y) \<longleftrightarrow> y \<in> set xs"
    "\<And>y. y \<in> set xs \<Longrightarrow> initialized (h ! y) \<and> ev_now q \<le> e_when (h ! y) \<and> e_when (h ! y) < 2 ^ 63"
    "scheduled v \<longleftrightarrow> x \<in> set xs" "x \<in> set xs \<Longrightarrow> keeps (h ! x) v" "0 \<le> ev_now q" "ev_now q < 2 ^ 63"
  shows "ev_wf (q\<lparr>ev_heap := h[x := v]\<rparr>) xs"
proof -
  have "ev_list (h[x := v], ev_head q) xs" by (rule ev_list_write [OF assms(1,6)])
  moreover have "scheduled (h[x := v] ! y) \<longleftrightarrow> y \<in> set xs" if "y < length h" for y
    using assms(2,3,5) that by (cases "y = x") auto
  moreover have "initialized (h[x := v] ! y) \<and> ev_now q \<le> e_when (h[x := v] ! y) \<and> e_when (h[x := v] ! y) < 2 ^ 63"
    if "y \<in> set xs" for y
    using assms(2) assms(4) [OF that] assms(6) that by (cases "y = x") (auto simp: keeps_def)
  ultimately show ?thesis using assms(7,8) by (simp add: ev_wf_def)
qed

lemma ev_modify_live [simp]:
  "a < length (ev_heap q) \<Longrightarrow> \<not> e_freed (ev_heap q ! a) \<Longrightarrow>
    ev_modify a g q = Inr (q\<lparr>ev_heap := (ev_heap q)[a := g (ev_heap q ! a)]\<rparr>)"
  by (simp add: ev_modify_def)

text \<open>Insertion of an event at a new time, before it is marked as scheduled.\<close>

lemma insert_at_ok:
  assumes "ev_list (ev_heap q, ev_head q) xs" "x < length (ev_heap q)" "\<not> e_freed (ev_heap q ! x)" "x \<notin> set xs"
  shows "\<exists>h p. insert_at x t q = Inr (q\<lparr>ev_heap := h, ev_head := p\<rparr>) \<and> ev_list (h, p) (place (ev_key (h, p)) x xs) \<and>
    same_events ((ev_heap q)[x := (ev_heap q ! x)\<lparr>e_when := t\<rparr>]) h"
proof -
  let ?h = "(ev_heap q)[x := (ev_heap q ! x)\<lparr>e_when := t\<rparr>]"
  have "ev_list (?h, ev_head q) xs" by (rule ev_list_write [OF assms(1)]) (use assms(4) in simp)
  then obtain h p where i: "ev_insert x (?h, ev_head q) = Inr (h, p)" "ev_list (h, p) (place (ev_key (?h, ev_head q)) x xs)"
      "same_events ?h h"
    using ev_list_insert [of "(?h, ev_head q)" xs x] assms(2-4) by (auto simp: ev_fresh_def)
  then show ?thesis using assms(2,3) same_eventsD(4) [OF i(3), of p "ev_head q"]
    by (intro exI [of _ h] exI [of _ p]) (simp add: insert_at_def)
qed

text \<open>The events other than \<open>x\<close> keep all but their links.\<close>

definition others_same :: "nat \<Rightarrow> EventQueue \<Rightarrow> EventQueue \<Rightarrow> bool" where
  "others_same x q q' \<longleftrightarrow> ev_now q' = ev_now q \<and> ev_main q' = ev_main q \<and> length (ev_heap q') = length (ev_heap q) \<and>
     (\<forall>y < length (ev_heap q). y \<noteq> x \<longrightarrow> ev_core (ev_heap q' ! y) = ev_core (ev_heap q ! y))"

lemma ev_core_eqD:
  assumes "ev_core e' = ev_core e"
  shows "e_when e' = e_when e" "e_priority e' = e_priority e" "e_flags e' = e_flags e" "e_freed e' = e_freed e"
    "scheduled e' = scheduled e" "initialized e' = initialized e"
proof -
  show f: "e_when e' = e_when e" "e_priority e' = e_priority e" "e_flags e' = e_flags e" "e_freed e' = e_freed e"
    using ev_core_fields [of e] ev_core_fields [of e'] assms by simp_all
  show "scheduled e' = scheduled e" "initialized e' = initialized e" using f(3) by (simp_all add: scheduled_def initialized_def)
qed

text \<open>
  The common end of \<open>schedule\<close> and \<open>reschedule\<close>: an event outside the queue is inserted at
  time \<open>t\<close> and marked by \<open>g\<close>.
\<close>

lemma insert_marked:
  assumes l: "ev_list (ev_heap q, ev_head q) xs" and x: "x < length (ev_heap q)" "\<not> e_freed (ev_heap q ! x)" "x \<notin> set xs"
    "initialized (ev_heap q ! x)"
    and o: "\<And>y. y < length (ev_heap q) \<Longrightarrow> y \<noteq> x \<Longrightarrow> scheduled (ev_heap q ! y) \<longleftrightarrow> y \<in> set xs"
      "\<And>y. y \<in> set xs \<Longrightarrow> initialized (ev_heap q ! y) \<and> ev_now q \<le> e_when (ev_heap q ! y) \<and> e_when (ev_heap q ! y) < 2 ^ 63"
    and t: "0 \<le> ev_now q" "ev_now q \<le> t" "t < 2 ^ 63"
    and g: "\<And>e. keeps e (g e)" "\<And>e. scheduled (g e)"
  shows "\<exists>h p. insert_at x t q = Inr (q\<lparr>ev_heap := h, ev_head := p\<rparr>) \<and> x < length h \<and> \<not> e_freed (h ! x) \<and>
    ev_wf (q\<lparr>ev_heap := h[x := g (h ! x)], ev_head := p\<rparr>) (place (ev_key (h, p)) x xs) \<and>
    others_same x q (q\<lparr>ev_heap := h[x := g (h ! x)], ev_head := p\<rparr>) \<and> e_when (h ! x) = t \<and> e_priority (h ! x) = e_priority (ev_heap q ! x)"
proof -
  let ?h = "(ev_heap q)[x := (ev_heap q ! x)\<lparr>e_when := t\<rparr>]"
  obtain h p where i: "insert_at x t q = Inr (q\<lparr>ev_heap := h, ev_head := p\<rparr>)" "ev_list (h, p) (place (ev_key (h, p)) x xs)"
      "same_events ?h h"
    using insert_at_ok [OF l x(1-3)] by blast
  have len: "length h = length (ev_heap q)" using same_eventsD(1) [OF i(3)] by simp
  have co: "ev_core (h ! y) = ev_core (?h ! y)" if "y < length (ev_heap q)" for y using same_eventsD(2) [OF i(3)] that by simp
  have hx: "e_when (h ! x) = t" "e_freed (h ! x) = e_freed (ev_heap q ! x)" "initialized (h ! x) = initialized (ev_heap q ! x)"
    "e_priority (h ! x) = e_priority (ev_heap q ! x)"
    using ev_core_eqD [OF co [OF x(1)]] x(1) by simp_all
  have hy: "ev_core (h ! y) = ev_core (ev_heap q ! y)" if "y < length (ev_heap q)" "y \<noteq> x" for y using co that by simp
  have lt: "y < length (ev_heap q)" if "y \<in> set xs" for y using ev_list_live(1) [OF l that] by simp
  let ?q = "q\<lparr>ev_head := p\<rparr>"
  have "ev_wf (?q\<lparr>ev_heap := h[x := g (h ! x)]\<rparr>) (place (ev_key (h, p)) x xs)"
  proof (rule ev_wf_mark)
    show "ev_list (h, ev_head ?q) (place (ev_key (h, p)) x xs)" using i(2) by simp
    show "scheduled (h ! y) \<longleftrightarrow> y \<in> set (place (ev_key (h, p)) x xs)" if "y < length h" "y \<noteq> x" for y
      using ev_core_eqD(5) [OF hy] o(1) that len by simp
    show "initialized (h ! y) \<and> ev_now ?q \<le> e_when (h ! y) \<and> e_when (h ! y) < 2 ^ 63" if "y \<in> set (place (ev_key (h, p)) x xs)" for y
      using that o(2) [of y] ev_core_eqD(1,6) [OF hy, of y] lt [of y] hx t x(4) by (cases "y = x") auto
  qed (use x g t len in auto)
  moreover have "?q\<lparr>ev_heap := h[x := g (h ! x)]\<rparr> = q\<lparr>ev_heap := h[x := g (h ! x)], ev_head := p\<rparr>" by (cases q) simp
  ultimately have "ev_wf (q\<lparr>ev_heap := h[x := g (h ! x)], ev_head := p\<rparr>) (place (ev_key (h, p)) x xs)" by simp
  moreover have "others_same x q (q\<lparr>ev_heap := h[x := g (h ! x)], ev_head := p\<rparr>)"
    using len hy by (simp add: others_same_def)
  ultimately show ?thesis using i(1) len hx x by (intro exI [of _ h] exI [of _ p]) simp
qed

lemma schedule_ok:
  assumes "ev_wf q xs" "x < length (ev_heap q)" "\<not> e_freed (ev_heap q ! x)" "\<not> scheduled (ev_heap q ! x)"
    "initialized (ev_heap q ! x)" "ev_now q \<le> t" "t < 2 ^ 63"
  shows "\<exists>q'. schedule x t q = Inr q' \<and> ev_wf q' (place (ev_key (ev_heap q', ev_head q')) x xs) \<and> others_same x q q' \<and>
    e_when (ev_heap q' ! x) = t \<and> e_priority (ev_heap q' ! x) = e_priority (ev_heap q ! x)"
proof -
  have wf: "ev_list (ev_heap q, ev_head q) xs" "x \<notin> set xs" "0 \<le> ev_now q" "ev_now q < 2 ^ 63"
    "\<And>y. y < length (ev_heap q) \<Longrightarrow> scheduled (ev_heap q ! y) \<longleftrightarrow> y \<in> set xs"
    "\<And>y. y \<in> set xs \<Longrightarrow> initialized (ev_heap q ! y) \<and> ev_now q \<le> e_when (ev_heap q ! y) \<and> e_when (ev_heap q ! y) < 2 ^ 63"
    using assms(1,2,4) by (auto simp: ev_wf_def)
  define g where "g = (\<lambda>e. main_flag q (e_set Scheduled e))"
  have g: "keeps e (g e)" "scheduled (g e)" for e by (simp_all add: g_def keeps_def)
  obtain h p where i: "insert_at x t q = Inr (q\<lparr>ev_heap := h, ev_head := p\<rparr>)" "x < length h" "\<not> e_freed (h ! x)"
      "ev_wf (q\<lparr>ev_heap := h[x := g (h ! x)], ev_head := p\<rparr>) (place (ev_key (h, p)) x xs)"
      "others_same x q (q\<lparr>ev_heap := h[x := g (h ! x)], ev_head := p\<rparr>)" "e_when (h ! x) = t"
      "e_priority (h ! x) = e_priority (ev_heap q ! x)"
    using insert_marked [OF wf(1) assms(2,3) wf(2) assms(5) wf(5,6,3) assms(6,7), of g] g by blast
  have "utick_le (ev_now q) t" using utick_le_iff wf(3,4) assms(6,7) by simp
  then have "schedule x t q = Inr (q\<lparr>ev_heap := h[x := g (h ! x)], ev_head := p\<rparr>)"
    using assms(2-5) i(1-3) by (simp add: schedule_def g_def main_flag_def)
  moreover have "ev_key (h[x := g (h ! x)], p) = ev_key (h, p)"
    using g(1) [of "h ! x"] by (intro ev_key_upd) (simp_all add: keeps_def)
  ultimately show ?thesis using i g(1) [of "h ! x"] by (intro exI [of _ "q\<lparr>ev_heap := h[x := g (h ! x)], ev_head := p\<rparr>"]) (simp add: keeps_def)
qed

lemma ev_wfD:
  assumes "ev_wf q xs"
  shows "ev_list (ev_heap q, ev_head q) xs" "distinct xs" "0 \<le> ev_now q" "ev_now q < 2 ^ 63"
    "y < length (ev_heap q) \<Longrightarrow> scheduled (ev_heap q ! y) \<longleftrightarrow> y \<in> set xs"
    "y \<in> set xs \<Longrightarrow> initialized (ev_heap q ! y) \<and> ev_now q \<le> e_when (ev_heap q ! y) \<and> e_when (ev_heap q ! y) < 2 ^ 63"
    "y \<in> set xs \<Longrightarrow> y < length (ev_heap q)" "y \<in> set xs \<Longrightarrow> \<not> e_freed (ev_heap q ! y)"
proof -
  show l: "ev_list (ev_heap q, ev_head q) xs" using assms by (simp add: ev_wf_def)
  then show "distinct xs" by (rule evq.repr_distinct)
  show "y \<in> set xs \<Longrightarrow> y < length (ev_heap q)" "y \<in> set xs \<Longrightarrow> \<not> e_freed (ev_heap q ! y)"
    using ev_list_live [OF l] by simp_all
qed (use assms in \<open>auto simp: ev_wf_def\<close>)

text \<open>Taking an event out of the list, before its mark is removed.\<close>

lemma remove_list:
  assumes "ev_wf q xs" "x \<in> set xs"
  shows "\<exists>h p. ev_remove x (ev_heap q, ev_head q) = Inr (h, p) \<and> ev_list (h, p) (remove1 x xs) \<and> same_events (ev_heap q) h \<and>
    length h = length (ev_heap q) \<and> (\<forall>y < length (ev_heap q). ev_core (h ! y) = ev_core (ev_heap q ! y))"
proof -
  obtain s where "ev_remove x (ev_heap q, ev_head q) = Inr s" "ev_list s (remove1 x xs)" "same_events (ev_heap q) (fst s)"
    using ev_list_remove [OF ev_wfD(1) [OF assms(1)] assms(2)] by auto
  then show ?thesis using same_eventsD(1,2) [of "ev_heap q" "fst s"] by (metis prod.collapse)
qed

lemma deschedule_ok:
  assumes "ev_wf q xs" "x \<in> set xs"
  shows "\<exists>q'. deschedule x q = Inr q' \<and> ev_wf q' (remove1 x xs) \<and> others_same x q q'"
proof -
  note wf = ev_wfD [OF assms(1)]
  obtain h p where r: "ev_remove x (ev_heap q, ev_head q) = Inr (h, p)" "ev_list (h, p) (remove1 x xs)"
      "length h = length (ev_heap q)" "\<And>y. y < length (ev_heap q) \<Longrightarrow> ev_core (h ! y) = ev_core (ev_heap q ! y)"
    using remove_list [OF assms] by blast
  have x: "x < length (ev_heap q)" "\<not> e_freed (ev_heap q ! x)" "scheduled (ev_heap q ! x)" "initialized (ev_heap q ! x)"
    using wf(7,8) [OF assms(2)] wf(5) [of x] wf(6) [OF assms(2)] assms(2) by auto
  have hx: "\<not> e_freed (h ! x)" using ev_core_eqD(4) [OF r(4) [OF x(1)]] x(2) by simp
  define v where "v = e_clear Scheduled (e_clear Squashed (h ! x))"
  have set: "set (remove1 x xs) = set xs - {x}" using wf(2) by (rule set_remove1_eq)
  let ?q = "q\<lparr>ev_head := p\<rparr>"
  have w: "ev_wf (?q\<lparr>ev_heap := h[x := u]\<rparr>) (remove1 x xs)" if "\<not> scheduled u" for u
  proof (rule ev_wf_mark)
    show "scheduled (h ! y) \<longleftrightarrow> y \<in> set (remove1 x xs)" if "y < length h" "y \<noteq> x" for y
      using ev_core_eqD(5) [OF r(4), of y] wf(5) [of y] that r(3) set by simp
    show "initialized (h ! y) \<and> ev_now ?q \<le> e_when (h ! y) \<and> e_when (h ! y) < 2 ^ 63" if "y \<in> set (remove1 x xs)" for y
      using ev_core_eqD(1,6) [OF r(4), of y] wf(6,7) [of y] that set by simp
  qed (use r(2,3) x(1) that set wf(3,4) in auto)
  have o: "others_same x q (?q\<lparr>ev_heap := h[x := u]\<rparr>)" for u using r(3,4) by (simp add: others_same_def)
  have d: "deschedule x q = (if flags_isSet (e_flags v) AutoDelete then delete_Event x (?q\<lparr>ev_heap := h[x := v]\<rparr>)
      else Inr (?q\<lparr>ev_heap := h[x := v]\<rparr>))"
    using x r(1,3) hx by (simp add: deschedule_def v_def)
  have nv: "\<not> scheduled v" "\<not> e_freed v" using hx by (simp_all add: v_def)
  show ?thesis
  proof (cases "flags_isSet (e_flags v) AutoDelete")
    case False
    then show ?thesis using d w [OF nv(1)] o by auto
  next
    case True
    let ?u = "v\<lparr>e_flags := 0, e_freed := True\<rparr>"
    have "deschedule x q = Inr (?q\<lparr>ev_heap := h[x := ?u]\<rparr>)"
      using True d x(1) r(3) nv by (simp add: delete_Event_def)
    moreover have "\<not> scheduled ?u" by (simp add: scheduled_def flags_isSet_def)
    ultimately show ?thesis using w [of ?u] o [of ?u] by auto
  qed
qed

lemma reschedule_ok:
  assumes "ev_wf q xs" "x < length (ev_heap q)" "\<not> e_freed (ev_heap q ! x)" "always \<or> scheduled (ev_heap q ! x)"
    "initialized (ev_heap q ! x)" "ev_now q \<le> t" "t < 2 ^ 63"
  shows "\<exists>q'. reschedule x t always q = Inr q' \<and> ev_wf q' (place (ev_key (ev_heap q', ev_head q')) x (remove1 x xs)) \<and>
    others_same x q q' \<and> e_when (ev_heap q' ! x) = t \<and> e_priority (ev_heap q' ! x) = e_priority (ev_heap q ! x)"
proof -
  note wf = ev_wfD [OF assms(1)]
  define g where "g = (\<lambda>e. main_flag q (e_set Scheduled (e_clear Squashed e)))"
  have g: "keeps e (g e)" "scheduled (g e)" for e by (simp_all add: g_def keeps_def)
  have set: "set (remove1 x xs) = set xs - {x}" using wf(2) by (rule set_remove1_eq)
  obtain h p where r: "(if scheduled (ev_heap q ! x)
        then bindE (ev_remove x (ev_heap q, ev_head q)) (\<lambda>(h, p). Inr (q\<lparr>ev_heap := h, ev_head := p\<rparr>)) else Inr q)
        = Inr (q\<lparr>ev_heap := h, ev_head := p\<rparr>)" "ev_list (h, p) (remove1 x xs)" "length h = length (ev_heap q)"
      "\<And>y. y < length (ev_heap q) \<Longrightarrow> ev_core (h ! y) = ev_core (ev_heap q ! y)"
  proof (cases "scheduled (ev_heap q ! x)")
    case True
    then have "x \<in> set xs" using wf(5) assms(2) by blast
    then show thesis using that remove_list [OF assms(1), of x] True by auto
  next
    case False
    then have "x \<notin> set xs" using wf(5) assms(2) by blast
    then have "remove1 x xs = xs" by (rule remove1_idem)
    then show thesis using that [where h = "ev_heap q" and p = "ev_head q"] False wf(1) by simp
  qed
  let ?q = "q\<lparr>ev_heap := h, ev_head := p\<rparr>"
  have hx: "\<not> e_freed (h ! x)" "initialized (h ! x)" "e_priority (h ! x) = e_priority (ev_heap q ! x)"
    using ev_core_eqD [OF r(4) [OF assms(2)]] assms(3,5) by simp_all
  have "\<exists>h' p'. insert_at x t ?q = Inr (?q\<lparr>ev_heap := h', ev_head := p'\<rparr>) \<and> x < length h' \<and> \<not> e_freed (h' ! x) \<and>
    ev_wf (?q\<lparr>ev_heap := h'[x := g (h' ! x)], ev_head := p'\<rparr>) (place (ev_key (h', p')) x (remove1 x xs)) \<and>
    others_same x ?q (?q\<lparr>ev_heap := h'[x := g (h' ! x)], ev_head := p'\<rparr>) \<and> e_when (h' ! x) = t \<and>
    e_priority (h' ! x) = e_priority (ev_heap ?q ! x)"
  proof (rule insert_marked)
    show "scheduled (ev_heap ?q ! y) \<longleftrightarrow> y \<in> set (remove1 x xs)" if "y < length (ev_heap ?q)" "y \<noteq> x" for y
      using ev_core_eqD(5) [OF r(4), of y] wf(5) [of y] that r(3) set by simp
    show "initialized (ev_heap ?q ! y) \<and> ev_now ?q \<le> e_when (ev_heap ?q ! y) \<and> e_when (ev_heap ?q ! y) < 2 ^ 63"
      if "y \<in> set (remove1 x xs)" for y
      using ev_core_eqD(1,6) [OF r(4), of y] wf(6,7) [of y] that set by simp
  qed (use r(2,3) assms(2,6,7) hx set wf(3) g in auto)
  then obtain h' p' where i: "insert_at x t ?q = Inr (q\<lparr>ev_heap := h', ev_head := p'\<rparr>)" "x < length h'" "\<not> e_freed (h' ! x)"
      "ev_wf (q\<lparr>ev_heap := h'[x := g (h' ! x)], ev_head := p'\<rparr>) (place (ev_key (h', p')) x (remove1 x xs))"
      "others_same x ?q (q\<lparr>ev_heap := h'[x := g (h' ! x)], ev_head := p'\<rparr>)" "e_when (h' ! x) = t"
      "e_priority (h' ! x) = e_priority (ev_heap q ! x)"
    using hx(3) by auto
  have "utick_le (ev_now q) t" using utick_le_iff wf(3,4) assms(6,7) by simp
  then have "reschedule x t always q = Inr (q\<lparr>ev_heap := h'[x := g (h' ! x)], ev_head := p'\<rparr>)"
    using assms(2-5) r(1) i(1-3) by (simp add: reschedule_def g_def main_flag_def)
  moreover have "ev_key (h'[x := g (h' ! x)], p') = ev_key (h', p')"
    using g(1) [of "h' ! x"] by (intro ev_key_upd) (simp_all add: keeps_def)
  moreover have "others_same x q (q\<lparr>ev_heap := h'[x := g (h' ! x)], ev_head := p'\<rparr>)"
    using i(5) r(3,4) by (simp add: others_same_def)
  ultimately show ?thesis using i g(1) [of "h' ! x"]
    by (intro exI [of _ "q\<lparr>ev_heap := h'[x := g (h' ! x)], ev_head := p'\<rparr>"]) (simp add: keeps_def)
qed

section \<open>Steps on the queue\<close>

text \<open>
  What the code of an event may do to the queue: create, schedule, move, deschedule, squash and delete
  events. The times it passes are not negative.
\<close>

inductive ev_step :: "EventQueue \<Rightarrow> EventQueue \<Rightarrow> bool" where
  create: "new_Event raw_when p f q = Inr (a, q') \<Longrightarrow> ev_step q q'"
| schedules: "0 \<le> t \<Longrightarrow> t < 2 ^ 63 \<Longrightarrow> schedule a t q = Inr q' \<Longrightarrow> ev_step q q'"
| deschedules: "deschedule a q = Inr q' \<Longrightarrow> ev_step q q'"
| reschedules: "0 \<le> t \<Longrightarrow> t < 2 ^ 63 \<Longrightarrow> reschedule a t always q = Inr q' \<Longrightarrow> ev_step q q'"
| squashes: "ev_modify a (e_set Squashed) q = Inr q' \<Longrightarrow> ev_step q q'"
| deletes: "delete_Event a q = Inr q' \<Longrightarrow> ev_step q q'"

definition ev_ok :: "EventQueue \<Rightarrow> bool" where
  "ev_ok q \<longleftrightarrow> (\<exists>xs. ev_wf q xs)"

lemma ev_deref_Inr: "ev_deref h (Some a) = Inr e \<longleftrightarrow> a < length h \<and> \<not> e_freed (h ! a) \<and> e = h ! a"
  by (auto simp: ev_deref_def deref_def bindE_eq_Inr split: if_splits)

lemma ev_modify_Inr: "ev_modify a g q = Inr q' \<longleftrightarrow>
    a < length (ev_heap q) \<and> \<not> e_freed (ev_heap q ! a) \<and> q' = q\<lparr>ev_heap := (ev_heap q)[a := g (ev_heap q ! a)]\<rparr>"
  by (auto simp: ev_modify_def ev_upd_def ev_deref_Inr bindE_eq_Inr)

lemma ev_wf_write:
  assumes "ev_wf q xs" "x < length (ev_heap q)" "scheduled v \<longleftrightarrow> x \<in> set xs" "x \<in> set xs \<Longrightarrow> keeps (ev_heap q ! x) v"
  shows "ev_wf (q\<lparr>ev_heap := (ev_heap q)[x := v]\<rparr>) xs"
  by (rule ev_wf_mark [OF ev_wfD(1) [OF assms(1)] assms(2) _ _ assms(3,4)]) (use ev_wfD [OF assms(1)] in auto)

lemma new_not_scheduled:
  assumes "Event_ctor raw_when p f = Inr e"
  shows "\<not> scheduled e"
proof -
  have "f AND NOT PublicWrite = 0" "e_flags e = Initialized OR f"
    using assms by (auto simp: Event_ctor_def bindE_eq_Inr flags_noneSet_def)
  then have "\<not> bit (f AND NOT PublicWrite) 1" "bit (e_flags e) 1 = (bit Initialized 1 \<or> bit f 1)" by (simp_all add: bit_or_iff)
  then show ?thesis by (simp add: scheduled_bit bit_and_iff bit_not_iff flag_defs)
qed

lemma delete_wf:
  assumes "ev_wf q xs" "delete_Event a q = Inr q'"
  shows "ev_wf q' xs \<and> ev_now q' = ev_now q"
proof -
  have d: "a < length (ev_heap q)" "\<not> scheduled (ev_heap q ! a)"
    "q' = q\<lparr>ev_heap := (ev_heap q)[a := (ev_heap q ! a)\<lparr>e_flags := 0, e_freed := True\<rparr>]\<rparr>"
    using assms(2) by (auto simp: delete_Event_def bindE_eq_Inr ev_deref_Inr ev_modify_Inr)
  have "\<not> scheduled ((ev_heap q ! a)\<lparr>e_flags := 0, e_freed := True\<rparr>)" by (simp add: scheduled_def flags_isSet_def)
  moreover have "a \<notin> set xs" using ev_wfD(5) [OF assms(1) d(1)] d(2) by simp
  ultimately show ?thesis using ev_wf_write [OF assms(1) d(1)] by (simp add: d(3))
qed

lemma new_event_wf:
  assumes "ev_wf q xs" "\<not> scheduled e"
  shows "ev_wf (q\<lparr>ev_heap := ev_heap q @ [e]\<rparr>) xs"
proof -
  have lt: "x < length (ev_heap q)" if "x \<in> set xs" for x using ev_wfD(7) [OF assms(1) that] .
  have "ev_list (ev_heap q @ [e], ev_head q) xs"
    using ev_list_frame [OF ev_wfD(1) [OF assms(1)], of "ev_heap q @ [e]"] lt by (simp add: nth_append)
  moreover have "scheduled ((ev_heap q @ [e]) ! x) \<longleftrightarrow> x \<in> set xs" if "x < Suc (length (ev_heap q))" for x
    using assms(2) ev_wfD(5) [OF assms(1), of x] lt [of x] that by (cases "x < length (ev_heap q)") (auto simp: nth_append less_Suc_eq)
  ultimately show ?thesis using ev_wfD [OF assms(1)] lt by (auto simp: ev_wf_def nth_append)
qed

lemma new_exit_event:
  "\<exists>e. new_Event raw_when Sim_Exit_Pri IsExitEvent q = Inr (length (ev_heap q), q\<lparr>ev_heap := ev_heap q @ [e]\<rparr>) \<and>
     \<not> e_freed e \<and> initialized e \<and> \<not> scheduled e \<and> e_priority e = 100"
  by (rule exI [of _ "\<lparr>nextBin = None, nextInBin = None, e_when = raw_when, e_priority = 100, e_flags = Initialized OR IsExitEvent,
        e_freed = False\<rparr>"])
    (simp add: new_Event_def Event_ctor_def Sim_Exit_Pri_def flags_noneSet_def initialized_def scheduled_def flags_isSet_def flag_defs)

lemma ev_step_ok:
  assumes "ev_step q q'" "ev_wf q xs"
  shows "\<exists>xs'. ev_wf q' xs' \<and> ev_now q' = ev_now q"
  using assms(1)
proof cases
  case (create raw_when p f a)
  then obtain e where e: "Event_ctor raw_when p f = Inr e" "q' = q\<lparr>ev_heap := ev_heap q @ [e]\<rparr>"
    by (auto simp: new_Event_def bindE_eq_Inr)
  then show ?thesis using new_event_wf [OF assms(2) new_not_scheduled [OF e(1)]] by auto
next
  case (schedules t a)
  then have c: "utick_le (ev_now q) t" "a < length (ev_heap q)" "\<not> e_freed (ev_heap q ! a)" "\<not> scheduled (ev_heap q ! a)"
    "initialized (ev_heap q ! a)" by (auto simp: schedule_def bindE_eq_Inr ev_deref_Inr)
  have le: "ev_now q \<le> t" using c(1) utick_le_iff ev_wfD(3,4) [OF assms(2)] schedules(1,2) by simp
  show ?thesis using schedule_ok [OF assms(2) c(2-5) le schedules(2)] schedules(3) by (auto simp: others_same_def)
next
  case (deschedules a)
  then have "a < length (ev_heap q)" "scheduled (ev_heap q ! a)" by (auto simp: deschedule_def bindE_eq_Inr ev_deref_Inr)
  then have a: "a \<in> set xs" using ev_wfD(5) [OF assms(2)] by blast
  show ?thesis using deschedule_ok [OF assms(2) a] deschedules by (auto simp: others_same_def)
next
  case (reschedules t a always)
  then have c: "utick_le (ev_now q) t" "a < length (ev_heap q)" "\<not> e_freed (ev_heap q ! a)" "always \<or> scheduled (ev_heap q ! a)"
    "initialized (ev_heap q ! a)" by (auto simp: reschedule_def bindE_eq_Inr ev_deref_Inr)
  have le: "ev_now q \<le> t" using c(1) utick_le_iff ev_wfD(3,4) [OF assms(2)] reschedules(1,2) by simp
  show ?thesis using reschedule_ok [OF assms(2) c(2-5) le reschedules(2)] reschedules(3) by (auto simp: others_same_def)
next
  case (squashes a)
  then have a: "a < length (ev_heap q)" "q' = q\<lparr>ev_heap := (ev_heap q)[a := e_set Squashed (ev_heap q ! a)]\<rparr>"
    by (auto simp: ev_modify_Inr)
  have "ev_wf q' xs" unfolding a(2)
    by (rule ev_wf_write [OF assms(2) a(1)]) (use ev_wfD(5) [OF assms(2) a(1)] in \<open>simp_all add: keeps_def\<close>)
  then show ?thesis using a(2) by auto
next
  case (deletes a)
  then show ?thesis using delete_wf [OF assms(2)] by blast
qed

lemma ev_steps_ok:
  assumes "ev_step\<^sup>*\<^sup>* q q'" "ev_wf q xs"
  shows "\<exists>xs'. ev_wf q' xs' \<and> ev_now q' = ev_now q"
  using assms(1)
proof (induction rule: rtranclp_induct)
  case base
  then show ?case using assms(2) by blast
next
  case (step q1 q2)
  then show ?case using ev_step_ok by metis
qed

section \<open>Servicing\<close>

lemma ev_wf_sorted: "ev_wf q xs \<Longrightarrow> sorted (map (ev_key (ev_heap q, ev_head q)) xs)"
  using graded_sorted by (auto simp: ev_wf_def ev_list_def ev_bins_def)

lemma ev_wf_first:
  assumes "ev_wf q (x # ys)"
  shows "ev_head q = Some x" "x < length (ev_heap q)" "\<not> e_freed (ev_heap q ! x)"
    "y \<in> set ys \<Longrightarrow> ev_key (ev_heap q, ev_head q) x \<le> ev_key (ev_heap q, ev_head q) y"
    "y \<in> set ys \<Longrightarrow> e_when (ev_heap q ! x) \<le> e_when (ev_heap q ! y)"
proof -
  obtain bs where "ev_bins (ev_heap q, ev_head q) bs" "x # ys = concat bs" using ev_wfD(1) [OF assms] unfolding ev_list_def by blast
  then have "ev_head q = first_ptr (x # ys) None" by (simp add: ev_bins_def)
  then show "ev_head q = Some x" by simp
  show l: "x < length (ev_heap q)" "\<not> e_freed (ev_heap q ! x)" using ev_wfD(7,8) [OF assms, of x] by simp_all
  show k: "y \<in> set ys \<Longrightarrow> ev_key (ev_heap q, ev_head q) x \<le> ev_key (ev_heap q, ev_head q) y"
    using ev_wf_sorted [OF assms] by simp
  show "y \<in> set ys \<Longrightarrow> e_when (ev_heap q ! x) \<le> e_when (ev_heap q ! y)"
    using k ev_wfD(7) [OF assms, of y] l(1) by (auto simp: ev_key_def)
qed

text \<open>Taking off the first event.\<close>

lemma pop_list:
  assumes "ev_list (h, p) (x # ys)"
  shows "\<exists>h'. (if nextInBin (h ! x) \<noteq> None then ev_upd h (nextInBin (h ! x)) (\<lambda>y. y\<lparr>nextBin := nextBin (h ! x)\<rparr>) else Inr h) = Inr h' \<and>
    ev_list (h', if nextInBin (h ! x) \<noteq> None then nextInBin (h ! x) else nextBin (h ! x)) ys \<and> same_events h h'"
proof -
  obtain b cs where b: "bins h (b # cs) None" "distinct (concat (b # cs))" "graded (ev_key (h, p)) (b # cs)" "x # ys = concat (b # cs)"
  proof -
    obtain bs where "ev_bins (h, p) bs" "x # ys = concat bs" using assms by (auto simp: ev_list_def)
    then show thesis using that by (cases bs) (auto simp: ev_bins_def)
  qed
  obtain zs where zs: "b = x # zs" "ys = zs @ concat cs" using b(1,4) by (cases b) auto
  have x: "nextInBin (h ! x) = first_ptr zs None" "nextBin (h ! x) = front cs" "stack h zs" "bins h cs None" using b(1) zs by auto
  have g: "graded k cs" "zs \<noteq> [] \<Longrightarrow> graded k (zs # cs)" if "graded k (b # cs)" for k :: "nat \<Rightarrow> int \<times> int"
  proof -
    have k: "\<And>y. y \<in> set b \<Longrightarrow> k y = k x" "\<forall>y\<in>set (concat cs). k x < k y"
      using that unfolding zs(1) graded.simps list.sel(1) by blast+
    show c: "graded k cs" using that by (simp only: graded.simps)
    assume "zs \<noteq> []"
    then have hz: "k (hd zs) = k x" using k(1) [of "hd zs"] zs(1) by simp
    have "k y = k (hd zs)" if "y \<in> set zs" for y using k(1) [of y] hz zs(1) that by simp
    moreover have "k (hd zs) < k y" if "y \<in> set (concat cs)" for y using bspec [OF k(2) that] hz by simp
    ultimately show "graded k (zs # cs)" using c unfolding graded.simps by blast
  qed
  show ?thesis
  proof (cases zs)
    case Nil
    have "graded (ev_key (h, front cs)) cs"
      using g(1) [OF b(3)] same_eventsD(4) [OF same_events_refl, of h "front cs" p] by simp
    then have "ev_bins (h, front cs) cs" using b(2) x(4) by (simp add: ev_bins_def)
    then show ?thesis using Nil x zs(2) by (auto simp: ev_list_def)
  next
    case (Cons z us)
    let ?h = "h[z := (h ! z)\<lparr>nextBin := front cs\<rparr>]"
    have z: "z < length h" "\<not> e_freed (h ! z)" "z \<notin> set (concat cs)" using x(3) b(2) zs Cons by auto
    have same: "same_events h ?h" by (rule same_events_upd) (simp add: ev_core_def)
    have "bins ?h (zs # cs) None" using x(3,4) z Cons by simp
    moreover have "graded (ev_key (?h, Some z)) (zs # cs)"
      using g(2) [OF b(3)] Cons same_eventsD(4) [OF same, of "Some z" p] by simp
    moreover have "distinct (concat (zs # cs))" "Some z = front (zs # cs)" using b(2) zs(1) Cons by simp_all
    ultimately have "ev_bins (?h, Some z) (zs # cs)" unfolding ev_bins_def fst_conv snd_conv by blast
    then have "ev_list (?h, Some z) ys" unfolding ev_list_def using zs(2) by (intro exI [of _ "zs # cs"]) simp
    then show ?thesis using Cons x z same by simp
  qed
qed

lemma pop_head_ok:
  assumes "ev_wf q (x # ys)"
  shows "\<exists>q'. pop_head q = Inr (x, ev_heap q ! x, q') \<and> ev_wf q' ys \<and> others_same x q q' \<and>
    ev_core (ev_heap q' ! x) = ev_core (e_clear Scheduled (ev_heap q ! x))"
proof -
  note f = ev_wf_first [OF assms] and wf = ev_wfD [OF assms]
  let ?e = "ev_heap q ! x" and ?h = "(ev_heap q)[x := e_clear Scheduled (ev_heap q ! x)]"
  have x: "?h ! x = e_clear Scheduled ?e" using f(2) by simp
  have "ev_list (?h, ev_head q) (x # ys)" by (rule ev_list_write [OF wf(1)]) (simp add: keeps_def)
  from pop_list [OF this] obtain h' where h': "(if nextInBin ?e \<noteq> None then ev_upd ?h (nextInBin ?e) (\<lambda>y. y\<lparr>nextBin := nextBin ?e\<rparr>) else Inr ?h) = Inr h'"
      "ev_list (h', if nextInBin ?e \<noteq> None then nextInBin ?e else nextBin ?e) ys" "same_events ?h h'"
    unfolding x flag_fields by blast
  let ?q = "q\<lparr>ev_heap := h', ev_head := if nextInBin ?e \<noteq> None then nextInBin ?e else nextBin ?e\<rparr>"
  have p: "pop_head q = Inr (x, ?e, ?q)"
    using h'(1) f(1-3) by (auto simp: pop_head_def split: if_splits)
  have len: "length h' = length (ev_heap q)" using same_eventsD(1) [OF h'(3)] by simp
  have core: "ev_core (h' ! y) = ev_core (?h ! y)" if "y < length (ev_heap q)" for y using same_eventsD(2) [OF h'(3)] that by simp
  have hx: "ev_core (h' ! x) = ev_core (e_clear Scheduled ?e)" using core [OF f(2)] f(2) by simp
  have hy: "ev_core (h' ! y) = ev_core (ev_heap q ! y)" if "y < length (ev_heap q)" "y \<noteq> x" for y using core that by simp
  have nx: "x \<notin> set ys" using wf(2) by simp
  have "scheduled (h' ! y) \<longleftrightarrow> y \<in> set ys" if "y < length (ev_heap q)" for y
    using ev_core_eqD(5) [OF hx] ev_core_eqD(5) [OF hy, of y] wf(5) [of y] nx that by (cases "y = x") auto
  moreover have "initialized (h' ! y) \<and> ev_now q \<le> e_when (h' ! y) \<and> e_when (h' ! y) < 2 ^ 63" if "y \<in> set ys" for y
  proof -
    have "y \<noteq> x" using nx that by blast
    then show ?thesis using ev_core_eqD(1,6) [OF hy, of y] wf(6,7) [of y] that by simp
  qed
  ultimately have "ev_wf ?q ys" using h'(2) wf(3,4) len by (simp add: ev_wf_def)
  moreover have "others_same x q ?q" using len hy by (simp add: others_same_def)
  ultimately show ?thesis using p hx by (intro exI [of _ ?q]) simp
qed

text \<open>An event touches the queue only through its operations.\<close>

definition well_behaved :: "(nat \<Rightarrow> 'w \<times> EventQueue \<Rightarrow> ('w \<times> EventQueue) res) \<Rightarrow> bool" where
  "well_behaved process \<longleftrightarrow> (\<forall>a w q w' q'. process a (w, q) = Inr (w', q') \<longrightarrow> ev_step\<^sup>*\<^sup>* q q')"

lemma dispatch_ok:
  assumes "well_behaved process" "ev_wf q xs" "dispatch process x e w q = Inr (r, w', q')"
  shows "\<exists>xs'. ev_wf q' xs' \<and> ev_now q' = ev_now q"
proof -
  have rest: "\<exists>xs'. ev_wf q' xs' \<and> ev_now q' = ev_now q" if "ev_wf q1 xs1" "ev_now q1 = ev_now q"
    "bindE (ev_deref (ev_heap q1) (Some x)) (\<lambda>e. if flags_isSet (e_flags e) AutoDelete \<and> \<not> scheduled e
       then bindE (delete_Event x q1) (\<lambda>q. Inr (None, w1, q)) else Inr (None, w1, q1)) = Inr (r, w', q')" for q1 xs1 w1
    using that delete_wf [OF that(1)] by (auto simp: bindE_eq_Inr split: if_splits)
  show ?thesis
  proof (cases "squashed e")
    case True
    then obtain q1 where q1: "ev_modify x (e_clear Squashed) q = Inr q1"
      "bindE (ev_deref (ev_heap q1) (Some x)) (\<lambda>e. if flags_isSet (e_flags e) AutoDelete \<and> \<not> scheduled e
       then bindE (delete_Event x q1) (\<lambda>q. Inr (None, w, q)) else Inr (None, w, q1)) = Inr (r, w', q')"
      using assms(3) by (auto simp: dispatch_def bindE_eq_Inr [of "ev_modify _ _ _"] bindE_assoc)
    then have x: "x < length (ev_heap q)" "q1 = q\<lparr>ev_heap := (ev_heap q)[x := e_clear Squashed (ev_heap q ! x)]\<rparr>"
      by (auto simp: ev_modify_Inr)
    have "ev_wf q1 xs" unfolding x(2)
      by (rule ev_wf_write [OF assms(2) x(1)]) (use ev_wfD(5) [OF assms(2) x(1)] in \<open>simp_all add: keeps_def\<close>)
    then show ?thesis using rest [OF _ _ q1(2)] x(2) by simp
  next
    case False
    then obtain w1 q1 e1 where p: "process x (w, q) = Inr (w1, q1)" "ev_deref (ev_heap q1) (Some x) = Inr e1"
      using assms(3) by (auto simp: dispatch_def bindE_eq_Inr)
    have "ev_step\<^sup>*\<^sup>* q q1" using assms(1) p(1) unfolding well_behaved_def by blast
    then obtain xs1 where w: "ev_wf q1 xs1" "ev_now q1 = ev_now q" using ev_steps_ok [OF _ assms(2)] by blast
    show ?thesis
    proof (cases "isExitEvent e1")
      case True
      then have "q' = q1" using assms(3) False p by (auto simp: dispatch_def bindE_eq_Inr)
      then show ?thesis using w by blast
    next
      case ne: False
      then show ?thesis using rest [OF w, of w1] assms(3) False p by (simp add: dispatch_def)
    qed
  qed
qed

lemma ev_wf_advance:
  assumes "ev_wf q (x # ys)"
  shows "ev_wf (q\<lparr>ev_now := e_when (ev_heap q ! x)\<rparr>) (x # ys)"
proof -
  note wf = ev_wfD [OF assms]
  let ?q = "q\<lparr>ev_now := e_when (ev_heap q ! x)\<rparr>"
  have "initialized (ev_heap q ! y) \<and> e_when (ev_heap q ! x) \<le> e_when (ev_heap q ! y) \<and> e_when (ev_heap q ! y) < 2 ^ 63"
    if "y \<in> set (x # ys)" for y
    using ev_wf_first(5) [OF assms, of y] wf(6) [OF that] that by auto
  moreover have "0 \<le> e_when (ev_heap q ! x)" "e_when (ev_heap q ! x) < 2 ^ 63" using wf(3) wf(6) [of x] by auto
  moreover have "scheduled (ev_heap q ! y) \<longleftrightarrow> y \<in> set (x # ys)" if "y < length (ev_heap q)" for y using wf(5) [OF that] .
  ultimately show ?thesis unfolding ev_wf_def using wf(1) by simp
qed

text \<open>What \<open>serviceOne\<close> does after the call of \<open>process\<close>.\<close>

definition after_process :: "nat \<Rightarrow> 'w \<times> EventQueue \<Rightarrow> (ptr \<times> 'w \<times> EventQueue) res" where
  "after_process x = (\<lambda>(w, q). bindE (ev_deref (ev_heap q) (Some x)) (\<lambda>e.
     if isExitEvent e then (if flags_isSet (e_flags e) AutoDelete then Inl AssertFail else Inr (Some x, w, q))
     else if flags_isSet (e_flags e) AutoDelete \<and> \<not> scheduled e
       then Inr (None, w, q\<lparr>ev_heap := (ev_heap q)[x := e\<lparr>e_flags := 0, e_freed := True\<rparr>]\<rparr>)
     else Inr (None, w, q)))"

lemma dispatch_live:
  assumes "\<not> squashed e"
  shows "dispatch process x e w q = bindE (process x (w, q)) (after_process x)"
proof -
  have "bindE (bindE (ev_deref (ev_heap q2) (Some x)) (\<lambda>e. if isExitEvent e
        then bindE (assertE (\<not> flags_isSet (e_flags e) AutoDelete)) (\<lambda>_. Inr (True, w2, q2)) else Inr (False, w2, q2)))
      (\<lambda>(ended, w, q). if ended then Inr (Some x, w, q) else bindE (ev_deref (ev_heap q) (Some x)) (\<lambda>e.
         if flags_isSet (e_flags e) AutoDelete \<and> \<not> scheduled e
         then bindE (delete_Event x q) (\<lambda>q. Inr (None, w, q)) else Inr (None, w, q))) = after_process x (w2, q2)" for w2 q2
  proof (cases "ev_deref (ev_heap q2) (Some x)")
    case (Inr e2)
    then have "x < length (ev_heap q2)" "\<not> e_freed (ev_heap q2 ! x)" "e2 = ev_heap q2 ! x" by (simp_all add: ev_deref_Inr)
    then show ?thesis using Inr by (simp add: after_process_def assertE_def delete_Event_def)
  qed (simp add: after_process_def)
  then show ?thesis
    using assms by (cases "process x (w, q)") (auto simp: dispatch_def split: prod.splits)
qed

lemma flag_kept:
  "flags_isSet (e_flags (e_clear Scheduled e)) AutoDelete = flags_isSet (e_flags e) AutoDelete"
  "flags_isSet (e_flags (e_clear Squashed e)) AutoDelete = flags_isSet (e_flags e) AutoDelete"
  unfolding flag_bits isSet_bit by (simp_all add: e_clear_def flags_clear_def bit_and_iff bit_not_iff bit_exp_iff)

lemma dispatch_squashed:
  assumes "squashed e" "ev_wf q ys" "x < length (ev_heap q)" "\<not> e_freed (ev_heap q ! x)" "x \<notin> set ys"
  shows "\<exists>q'. dispatch process x e w q = Inr (None, w, q') \<and> ev_wf q' ys \<and> others_same x q q' \<and>
    (e_freed (ev_heap q' ! x) \<longleftrightarrow> flags_isSet (e_flags (ev_heap q ! x)) AutoDelete)"
proof -
  let ?e = "e_clear Squashed (ev_heap q ! x)" and ?auto = "flags_isSet (e_flags (ev_heap q ! x)) AutoDelete"
  let ?v = "if ?auto then ?e\<lparr>e_flags := 0, e_freed := True\<rparr> else ?e"
  have s: "\<not> scheduled ?e" "\<not> scheduled (?e\<lparr>e_flags := 0, e_freed := True\<rparr>)"
    using ev_wfD(5) [OF assms(2,3)] assms(5) by simp (simp add: scheduled_def flags_isSet_def)
  have "dispatch process x e w q = Inr (None, w, q\<lparr>ev_heap := (ev_heap q)[x := ?v]\<rparr>)"
    using assms(1,3,4) s(1) by (simp add: dispatch_def delete_Event_def flag_kept)
  moreover have "ev_wf (q\<lparr>ev_heap := (ev_heap q)[x := ?v]\<rparr>) ys"
    by (rule ev_wf_write [OF assms(2,3)]) (use s assms(5) in auto)
  moreover have "others_same x q (q\<lparr>ev_heap := (ev_heap q)[x := ?v]\<rparr>)" by (simp add: others_same_def)
  ultimately show ?thesis using assms(3,4) by (intro exI [of _ "q\<lparr>ev_heap := (ev_heap q)[x := ?v]\<rparr>"]) simp
qed

lemma sim_round_spec:
  assumes "ev_wf q (x # ys)"
  shows "\<exists>q1. ev_wf q1 ys \<and> others_same x (q\<lparr>ev_now := e_when (ev_heap q ! x)\<rparr>) q1 \<and>
    ev_core (ev_heap q1 ! x) = ev_core (e_clear Scheduled (ev_heap q ! x)) \<and>
    sim_round process (w, q) = dispatch process x (ev_heap q ! x) w q1"
proof -
  note f = ev_wf_first [OF assms]
  have le: "ev_now q \<le> e_when (ev_heap q ! x)" using ev_wfD(6) [OF assms, of x] by simp
  have s: "sim_round process (w, q) = serviceOne process (w, q\<lparr>ev_now := e_when (ev_heap q ! x)\<rparr>)"
    using f(1-3) le by (simp add: sim_round_def nextTick_def)
  obtain q1 where q1: "pop_head (q\<lparr>ev_now := e_when (ev_heap q ! x)\<rparr>) = Inr (x, ev_heap q ! x, q1)" "ev_wf q1 ys"
      "others_same x (q\<lparr>ev_now := e_when (ev_heap q ! x)\<rparr>) q1" "ev_core (ev_heap q1 ! x) = ev_core (e_clear Scheduled (ev_heap q ! x))"
    using pop_head_ok [OF ev_wf_advance [OF assms]] by auto
  then show ?thesis using s by (intro exI [of _ q1]) (simp add: serviceOne_def)
qed

lemma sim_round_keeps:
  assumes "well_behaved process" "ev_wf q (x # ys)" "sim_round process (w, q) = Inr (r, w', q')"
  shows "\<exists>xs'. ev_wf q' xs' \<and> ev_now q' = e_when (ev_heap q ! x)"
proof -
  obtain q1 where q1: "ev_wf q1 ys" "others_same x (q\<lparr>ev_now := e_when (ev_heap q ! x)\<rparr>) q1"
      "sim_round process (w, q) = dispatch process x (ev_heap q ! x) w q1"
    using sim_round_spec [OF assms(2), of process w] by blast
  then show ?thesis
    using dispatch_ok [OF assms(1) q1(1), of x "ev_heap q ! x" w r w' q'] assms(3) by (simp add: others_same_def)
qed

section \<open>Properties\<close>

text \<open>
  (C24) The list of stacks refines a list of events ordered by time and priority: insertion puts an event
  before the first one that is not earlier, so that events of the same time and priority run last in, first
  out; removal takes out exactly the given event. Only links change.
\<close>

theorem event_queue_refines:
  assumes "ev_list s xs"
  shows "sorted (map (ev_key s) xs) \<and>
    (ev_fresh s x \<longrightarrow> x \<notin> set xs \<longrightarrow>
      (\<exists>s'. ev_insert x s = Inr s' \<and> ev_list s' (place (ev_key s) x xs) \<and> same_events (fst s) (fst s'))) \<and>
    (x \<in> set xs \<longrightarrow> (\<exists>s'. ev_remove x s = Inr s' \<and> ev_list s' (remove1 x xs) \<and> same_events (fst s) (fst s')))"
proof -
  have "sorted (map (ev_key s) xs)" using assms graded_sorted by (auto simp: ev_list_def ev_bins_def)
  then show ?thesis using ev_list_insert [OF assms, of x] ev_list_remove [OF assms, of x] by blast
qed

text \<open>Three events, two of them at the same time and priority.\<close>

definition sample_event :: "int \<Rightarrow> Event" where
  "sample_event t = \<lparr>nextBin = None, nextInBin = None, e_when = t, e_priority = 0, e_flags = Initialized, e_freed = False\<rparr>"

definition sample_events :: event_heap where
  "sample_events = [(sample_event 10)\<lparr>nextBin := Some 1, e_flags := Initialized OR Scheduled\<rparr>,
     (sample_event 20)\<lparr>e_flags := Initialized OR Scheduled\<rparr>, sample_event 10]"

lemma sample_events_list: "ev_list (sample_events, Some 0) [0, 1]"
proof -
  have "ev_bins (sample_events, Some 0) [[0], [1]]"
    by (simp add: ev_bins_def sample_events_def sample_event_def ev_key_def)
  then show ?thesis unfolding ev_list_def by fastforce
qed

theorem event_queue_refines_witness:
  "\<exists>s'. ev_insert 2 (sample_events, Some 0) = Inr s' \<and> ev_list s' [2, 0, 1]"
proof -
  have "ev_fresh (sample_events, Some 0) 2" by (simp add: ev_fresh_def sample_events_def sample_event_def)
  moreover have "place (ev_key (sample_events, Some 0)) 2 [0, 1] = [2, 0, 1]"
    by (simp add: place_Cons ev_key_def sample_events_def sample_event_def)
  ultimately show ?thesis using event_queue_refines [OF sample_events_list, of 2] by auto
qed

text \<open>
  Scheduling an event at a time that is not negative: it fails its assertions exactly when the time is in
  the past, the event is scheduled already or was never initialised; otherwise the event is in the queue at its
  place, marked as scheduled, and the other events keep their data.
\<close>

lemma schedule_correct:
  assumes "ev_wf q xs" "x < length (ev_heap q)" "\<not> e_freed (ev_heap q ! x)" "0 \<le> t" "t < 2 ^ 63"
  shows "if ev_now q \<le> t \<and> \<not> scheduled (ev_heap q ! x) \<and> initialized (ev_heap q ! x)
    then \<exists>q'. schedule x t q = Inr q' \<and> ev_wf q' (place (ev_key (ev_heap q', ev_head q')) x xs) \<and> others_same x q q' \<and>
      e_when (ev_heap q' ! x) = t \<and> e_priority (ev_heap q' ! x) = e_priority (ev_heap q ! x)
    else schedule x t q = Inl AssertFail"
proof -
  have "utick_le (ev_now q) t \<longleftrightarrow> ev_now q \<le> t" using utick_le_iff ev_wfD(3,4) [OF assms(1)] assms(4,5) by simp
  then have "schedule x t q = Inl AssertFail" if "\<not> (ev_now q \<le> t \<and> \<not> scheduled (ev_heap q ! x) \<and> initialized (ev_heap q ! x))"
    using that assms(2,3) by (auto simp: schedule_def assertE_def)
  then show ?thesis using schedule_ok [OF assms(1-3)] assms(5) by auto
qed

definition sample_sim :: EventQueue where
  "sample_sim = \<lparr>ev_heap = sample_events, ev_head = Some 0, ev_now = 5, ev_main = True\<rparr>"

lemma sample_sim_wf: "ev_wf sample_sim [0, 1]"
proof -
  have "\<forall>x < 3. scheduled (sample_events ! x) \<longleftrightarrow> x \<in> {0, 1}" "\<forall>x\<in>{0, 1}. initialized (sample_events ! x)" by code_simp+
  then show ?thesis
    using sample_events_list by (simp add: ev_wf_def sample_sim_def sample_events_def sample_event_def)
qed


definition sample_process :: "nat \<Rightarrow> unit \<times> EventQueue \<Rightarrow> (unit \<times> EventQueue) res" where
  "sample_process a = (\<lambda>(w, q). if 0 \<le> ev_now q + 7 \<and> ev_now q + 7 < 2 ^ 63
     then bindE (schedule a (ev_now q + 7) q) (\<lambda>q. Inr (w, q)) else Inr (w, q))"

lemma sample_process_behaved: "well_behaved sample_process"
  by (auto simp: well_behaved_def sample_process_def bindE_eq_Inr split: if_splits intro!: r_into_rtranclp ev_step.schedules)

text \<open>The first event runs and schedules itself again; a squashed one does not run.\<close>

definition squashed_sim :: EventQueue where
  "squashed_sim = sample_sim\<lparr>ev_heap := sample_events[0 := e_set Squashed (sample_events ! 0)]\<rparr>"

lemma squashed_sim_wf: "ev_wf squashed_sim [0, 1]"
proof -
  have "ev_wf (sample_sim\<lparr>ev_heap := (ev_heap sample_sim)[0 := e_set Squashed (ev_heap sample_sim ! 0)]\<rparr>) [0, 1]"
    by (rule ev_wf_write [OF sample_sim_wf])
      (use ev_wfD(5) [OF sample_sim_wf, of 0] in \<open>simp_all add: keeps_def sample_sim_def sample_events_def\<close>)
  then show ?thesis by (simp add: squashed_sim_def sample_sim_def)
qed


subsection \<open>The main loop\<close>

text \<open>A round that does not end the simulation.\<close>

definition sim_next :: "(nat \<Rightarrow> 'w \<times> EventQueue \<Rightarrow> ('w \<times> EventQueue) res) \<Rightarrow> 'w \<times> EventQueue \<Rightarrow> 'w \<times> EventQueue \<Rightarrow> bool" where
  "sim_next process s s' \<longleftrightarrow> sim_round process s = Inr (None, s')"

lemma sim_round_ok:
  assumes "well_behaved process" "sim_round process (w, q) = Inr (r, w', q')" "ev_ok q"
  shows "ev_ok q' \<and> ev_now q \<le> ev_now q'"
proof -
  obtain xs where xs: "ev_wf q xs" using assms(3) by (auto simp: ev_ok_def)
  have h: "ev_head q \<noteq> None" using assms(2) by (auto simp: sim_round_def bindE_eq_Inr)
  have "ev_head q = None" if "xs = []"
  proof -
    obtain bs where "ev_bins (ev_heap q, ev_head q) bs" "xs = concat bs" using ev_wfD(1) [OF xs] unfolding ev_list_def by blast
    then show ?thesis using that by (simp add: ev_bins_def)
  qed
  then obtain x ys where wf: "ev_wf q (x # ys)" using h xs by (cases xs) auto
  show ?thesis using sim_round_keeps [OF assms(1) wf assms(2)] ev_wfD(6) [OF wf, of x] by (auto simp: ev_ok_def)
qed

lemma sim_rounds_ok:
  assumes "(sim_next process)\<^sup>*\<^sup>* s s'" "well_behaved process" "ev_ok (snd s)"
  shows "ev_ok (snd s') \<and> ev_now (snd s) \<le> ev_now (snd s')"
  using assms(1)
proof (induction rule: rtranclp_induct)
  case (step s1 s2)
  have "sim_round process (fst s1, snd s1) = Inr (None, fst s2, snd s2)" using step.hyps(2) by (simp add: sim_next_def)
  from sim_round_ok [OF assms(2) this] show ?case using step.IH by auto
qed (use assms(3) in simp)

text \<open>The loop returns, with enough fuel, exactly when a sequence of rounds reaches an event that ends the simulation.\<close>

lemma sim_loop_returns:
  "(\<exists>n. sim_loop process loop_exit n limit s = Inr (ex, w', q')) \<longleftrightarrow>
   (\<exists>s1 q1. (sim_next process)\<^sup>*\<^sup>* s s1 \<and> sim_round process s1 = Inr (Some ex, w', q1) \<and> leave_loop loop_exit limit ex q1 = Inr q')"
proof
  assume "\<exists>n. sim_loop process loop_exit n limit s = Inr (ex, w', q')"
  then obtain n where "sim_loop process loop_exit n limit s = Inr (ex, w', q')" ..
  then show "\<exists>s1 q1. (sim_next process)\<^sup>*\<^sup>* s s1 \<and> sim_round process s1 = Inr (Some ex, w', q1) \<and> leave_loop loop_exit limit ex q1 = Inr q'"
  proof (induction n arbitrary: s)
    case (Suc n)
    obtain r w1 q1 where r: "sim_round process s = Inr (r, w1, q1)" using Suc.prems by (auto simp: bindE_eq_Inr)
    show ?case
    proof (cases r)
      case None
      then have "sim_next process s (w1, q1)" "sim_loop process loop_exit n limit (w1, q1) = Inr (ex, w', q')"
        using r Suc.prems by (simp_all add: sim_next_def)
      then show ?thesis using Suc.IH by (meson converse_rtranclp_into_rtranclp)
    next
      case (Some e)
      then have "e = ex" "w1 = w'" "leave_loop loop_exit limit ex q1 = Inr q'" using r Suc.prems by (auto simp: bindE_eq_Inr)
      then show ?thesis using r Some by blast
    qed
  qed simp
next
  assume "\<exists>s1 q1. (sim_next process)\<^sup>*\<^sup>* s s1 \<and> sim_round process s1 = Inr (Some ex, w', q1) \<and> leave_loop loop_exit limit ex q1 = Inr q'"
  then obtain s1 q1 where s1: "(sim_next process)\<^sup>*\<^sup>* s s1" "sim_round process s1 = Inr (Some ex, w', q1)"
    "leave_loop loop_exit limit ex q1 = Inr q'" by blast
  from s1(1) show "\<exists>n. sim_loop process loop_exit n limit s = Inr (ex, w', q')"
  proof (induction rule: converse_rtranclp_induct)
    case base
    then show ?case using s1(2,3) by (intro exI [of _ 1]) simp
  next
    case (step s s2)
    then obtain n where "sim_loop process loop_exit n limit s2 = Inr (ex, w', q')" by blast
    then show ?case using step.hyps(1) by (intro exI [of _ "Suc n"]) (simp add: sim_next_def split: prod.splits)
  qed
qed

lemma leave_loop_ok:
  assumes "leave_loop loop_exit limit ex q = Inr q'" "ev_ok q"
  shows "ev_ok q' \<and> ev_now q' = ev_now q \<and> (ex = limit \<or> loop_exit ex)"
proof (cases "ex = limit")
  case False
  then have "ev_modify limit (e_set Squashed) q = Inr q'" "loop_exit ex"
    using assms(1) by (auto simp: leave_loop_def bindE_eq_Inr split: if_splits)
  moreover from this(1) have "ev_step q q'" by (rule ev_step.squashes)
  ultimately show ?thesis using ev_step_ok assms(2) unfolding ev_ok_def by blast
qed (use assms in \<open>simp add: leave_loop_def\<close>)

text \<open>The time of the limit event is representable and not in the past.\<close>

lemma limit_time:
  fixes now n :: int
  assumes "0 \<le> now" "now < 2 ^ 63" "0 \<le> n" "n < 2 ^ 63"
  shows "signed_take_bit 63 (now + n) < 0 \<longleftrightarrow> 2 ^ 63 \<le> now + n"
proof -
  have "(now + n) div 2 ^ 63 = (if 2 ^ 63 \<le> now + n then 1 else 0)" using assms by auto
  then have "bit (now + n) 63 \<longleftrightarrow> 2 ^ 63 \<le> now + n" by (simp add: bit_iff_odd)
  then show ?thesis by (simp only: signed_take_bit_negative_iff)
qed


lemma sample_run:
  "case simulate sample_process (\<lambda>_. False) 9 0 30 ((), sample_sim) of Inl _ \<Rightarrow> False
     | Inr (ex, _, q') \<Rightarrow> ex = 3 \<and> ev_now q' = 35"
  by code_simp


end
