(* ===== verification/IntMath.thy ===== *)
theory IntMath
  imports Bitfield
begin

text \<open>
  The integer helpers of \<open>src/src/base/intmath.hh\<close> that the modelled components call, over
  the unsigned types of the sources (\<open>unsigned\<close> is \<open>u32\<close>, \<open>unsigned long\<close> is \<open>u64\<close>).
\<close>

section \<open>Definitions\<close>

definition leastSigBit :: "'a::len word \<Rightarrow> 'a word" where
  "leastSigBit n = n AND NOT (n - 1)"

definition isPowerOf2 :: "'a::len word \<Rightarrow> bool" where
  "isPowerOf2 n \<longleftrightarrow> n \<noteq> 0 \<and> leastSigBit n = n"

text \<open>One line \<open>if (x & m) { y += k; x >>= k; }\<close> of \<open>floorLog2\<close>.\<close>

definition log_line :: "'a::len word \<Rightarrow> nat \<Rightarrow> nat \<times> 'a word \<Rightarrow> nat \<times> 'a word" where
  "log_line m k = (\<lambda>(y, x). if x AND m \<noteq> 0 then (y + k, drop_bit k x) else (y, x))"

definition floorLog2_u32 :: "u32 \<Rightarrow> nat res" where
  "floorLog2_u32 x =
     bindE (assertE (x > 0)) (\<lambda>_.
      let s1 = log_line 0xffff0000 16 (0, x);
          s2 = log_line 0x0000ff00 8 s1;
          s3 = log_line 0x000000f0 4 s2;
          s4 = log_line 0x0000000c 2 s3
      in Inr (if snd s4 AND 0x00000002 \<noteq> 0 then fst s4 + 1 else fst s4))"

definition floorLog2_u64 :: "u64 \<Rightarrow> nat res" where
  "floorLog2_u64 x =
     bindE (assertE (x > 0)) (\<lambda>_.
      let s0 = log_line 0xffffffff00000000 32 (0, x);
          s1 = log_line 0xffff0000 16 s0;
          s2 = log_line 0x0000ff00 8 s1;
          s3 = log_line 0x000000f0 4 s2;
          s4 = log_line 0x0000000c 2 s3
      in Inr (if snd s4 AND 0x00000002 \<noteq> 0 then fst s4 + 1 else fst s4))"

definition ceilLog2_u32 :: "u32 \<Rightarrow> nat res" where
  "ceilLog2_u32 n =
     (if n = 1 then Inr 0 else bindE (floorLog2_u32 (n - 1)) (\<lambda>y. Inr (y + 1)))"

definition floorPow2_u32 :: "u32 \<Rightarrow> u32 res" where
  "floorPow2_u32 n = bindE (floorLog2_u32 n) (\<lambda>y. Inr (push_bit y 1))"

definition ceilPow2_u32 :: "u32 \<Rightarrow> u32 res" where
  "ceilPow2_u32 n = bindE (ceilLog2_u32 n) (\<lambda>y. Inr (push_bit y 1))"

definition divCeil :: "'a::len word \<Rightarrow> 'a word \<Rightarrow> 'a word" where
  "divCeil a b = (a + b - 1) div b"

definition roundUp :: "'a::len word \<Rightarrow> 'a word \<Rightarrow> 'a word" where
  "roundUp val align = (let m = align - 1 in (val + m) AND NOT m)"

definition roundDown :: "'a::len word \<Rightarrow> 'a word \<Rightarrow> 'a word" where
  "roundDown val align = (let m = align - 1 in val AND NOT m)"

section \<open>Logarithms\<close>

lemma and_field_mask:
  fixes x :: "'a::len word"
  assumes "LENGTH('a) \<le> 64" "lo \<le> hi" "hi < LENGTH('a)"
    and m: "\<And>k. bit m k \<longleftrightarrow> lo \<le> k \<and> k \<le> hi"
  shows "x AND m \<noteq> 0 \<longleftrightarrow> bits (ucast x :: u64) hi lo \<noteq> 0"
proof -
  have "bits (ucast x :: u64) hi lo = 0 \<longleftrightarrow> (\<forall>k. lo \<le> k \<and> k \<le> hi \<longrightarrow> \<not> bit x k)" (is "_ = ?R")
  proof
    assume z: "bits (ucast x :: u64) hi lo = 0"
    show ?R
    proof (intro allI impI)
      fix k assume k: "lo \<le> k \<and> k \<le> hi"
      have "bit (bits (ucast x :: u64) hi lo) (k - lo) \<longleftrightarrow> bit x k"
        using assms k by (auto simp: bit_bits bit_simps)
      then show "\<not> bit x k" using z by simp
    qed
  next
    assume ?R
    then show "bits (ucast x :: u64) hi lo = 0"
      using assms by (intro bit_word_eqI) (auto simp: bit_bits bit_simps)
  qed
  moreover have "x AND m = 0 \<longleftrightarrow> ?R"
    using assms(3) bit_imp_le_length [of x]
    by (auto simp: bit_eq_iff bit_and_iff m)
  ultimately show ?thesis by blast
qed

lemma ucast_drop_bit_up:
  fixes x :: "'a::len word"
  assumes "LENGTH('a) \<le> 64"
  shows "(ucast (drop_bit k x) :: u64) = drop_bit k (ucast x)"
proof (rule bit_word_eqI)
  fix n
  show "bit (ucast (drop_bit k x) :: u64) n \<longleftrightarrow> bit (drop_bit k (ucast x :: u64)) n"
    using assms bit_imp_le_length [of x "k + n"] by (auto simp: bit_simps)
qed

lemma log_line_msb_line:
  fixes s :: "nat \<times> 'a::len word"
  assumes "LENGTH('a) \<le> 64" "lo \<le> hi" "hi < LENGTH('a)"
    and "m = push_bit lo (mask (Suc hi - lo))"
  shows "map_prod id ucast (log_line m k s) = msb_line hi lo k (map_prod id ucast s)"
proof -
  have "bit m j \<longleftrightarrow> lo \<le> j \<and> j \<le> hi" for j
    using assms by (auto simp: bit_simps)
  with assms(1-3) have "x AND m = 0 \<longleftrightarrow> bits (ucast x :: u64) hi lo = 0" for x :: "'a word"
    using and_field_mask [of lo hi m x] by blast
  then show ?thesis
    using assms(1) by (cases s) (simp add: log_line_def msb_line_def ucast_drop_bit_up)
qed

lemma msb_line_id: "bits w hi lo = 0 \<Longrightarrow> msb_line hi lo k (y, w) = (y, w)"
  by (simp add: msb_line_def)

lemma and_2_bits:
  fixes x :: "'a::len word"
  assumes "LENGTH('a) \<le> 64" "1 < LENGTH('a)"
  shows "x AND 2 = 0 \<longleftrightarrow> bits (ucast x :: u64) 1 1 = 0"
proof -
  have "(2 :: 'a word) = push_bit 1 (mask (Suc 1 - 1))"
    by (simp add: mask_eq_exp_minus_1)
  then have "bit (2 :: 'a word) k \<longleftrightarrow> 1 \<le> k \<and> k \<le> 1" for k
    using assms(2) by (auto simp: bit_simps)
  then show ?thesis
    using and_field_mask [of 1 1 "2 :: 'a word" x] assms by simp
qed

lemmas log_masks = mask_eq_exp_minus_1 push_bit_eq_mult

lemma floorLog2_u64_findMsbSet: "x \<noteq> 0 \<Longrightarrow> floorLog2_u64 x = Inr (findMsbSet x)"
proof -
  assume x: "x \<noteq> 0"
  define s where "s = log_line 0x0000000c 2 (log_line 0x000000f0 4 (log_line 0x0000ff00 8
     (log_line 0xffff0000 16 (log_line 0xffffffff00000000 32 (0, x)))))"
  have id: "map_prod id (ucast :: u64 \<Rightarrow> u64) t = t" for t :: "nat \<times> u64"
    by (cases t) simp
  have "log_line 0xffffffff00000000 32 t = msb_line 63 32 32 t"
       "log_line 0xffff0000 16 t = msb_line 31 16 16 t"
       "log_line 0x0000ff00 8 t = msb_line 15 8 8 t"
       "log_line 0x000000f0 4 t = msb_line 7 4 4 t"
       "log_line 0x0000000c 2 t = msb_line 3 2 2 t" for t :: "nat \<times> u64"
    using log_line_msb_line [of 32 63 "0xffffffff00000000 :: u64" 32 t]
      log_line_msb_line [of 16 31 "0xffff0000 :: u64" 16 t]
      log_line_msb_line [of 8 15 "0x0000ff00 :: u64" 8 t]
      log_line_msb_line [of 4 7 "0x000000f0 :: u64" 4 t]
      log_line_msb_line [of 2 3 "0x0000000c :: u64" 2 t]
    by (simp_all add: id log_masks)
  then show ?thesis
    using x by (simp add: floorLog2_u64_def findMsbSet_def Let_def and_2_bits word_gt_0)
qed

lemma floorLog2_u32_findMsbSet: "x \<noteq> 0 \<Longrightarrow> floorLog2_u32 x = Inr (findMsbSet (ucast x))"
proof -
  assume x: "x \<noteq> 0"
  let ?u = "map_prod id (ucast :: u32 \<Rightarrow> u64)"
  have line: "msb_line 31 16 16 (?u t) = ?u (log_line 0xffff0000 16 t)"
       "msb_line 15 8 8 (?u t) = ?u (log_line 0x0000ff00 8 t)"
       "msb_line 7 4 4 (?u t) = ?u (log_line 0x000000f0 4 t)"
       "msb_line 3 2 2 (?u t) = ?u (log_line 0x0000000c 2 t)" for t :: "nat \<times> u32"
    by (subst log_line_msb_line [symmetric]; simp add: log_masks)+
  have "bits (ucast x :: u64) 63 32 = 0"
    by (rule bit_word_eqI) (auto simp: bit_bits bit_simps dest: bit_imp_le_length)
  then have first: "msb_line 63 32 32 (0, ucast x) = ?u (0, x)"
    by (simp add: msb_line_id)
  have "(ucast x :: u64) \<noteq> 0"
    using x by (simp add: ucast_up_eq_0)
  then show ?thesis
    using x by (simp add: floorLog2_u32_def findMsbSet_def Let_def first line and_2_bits word_gt_0
        del: map_prod_simp)
qed

section \<open>Powers of two\<close>

lemma bit_msb:
  assumes "2 ^ m \<le> unat w" "unat w < 2 ^ Suc m"
  shows "bit w m"
proof -
  have "unat w div 2 ^ m = 1"
    using assms by (intro div_nat_eqI) auto
  then have "bit (unat w) m"
    by (simp add: bit_iff_odd)
  then show ?thesis by simp
qed

lemma leastSigBit_power:
  assumes "k < LENGTH('a)"
  shows "leastSigBit (2 ^ k :: 'a::len word) = 2 ^ k"
proof -
  have "(2 ^ k - 1 :: 'a word) = mask k"
    by (simp add: mask_eq_exp_minus_1)
  then show ?thesis
    using assms by (intro bit_word_eqI) (auto simp: leastSigBit_def bit_simps)
qed

lemma word_eq_power:
  fixes n :: "'a::len word"
  assumes "unat n = 2 ^ m"
  shows "n = 2 ^ m"
  using arg_cong [OF assms, of "of_nat :: nat \<Rightarrow> 'a word"] by simp

lemma isPowerOf2_iff:
  fixes n :: "'a::len word"
  assumes len: "LENGTH('a) \<le> 64"
  shows "isPowerOf2 n \<longleftrightarrow> (\<exists>k<LENGTH('a). n = 2 ^ k)"
proof
  assume p: "isPowerOf2 n"
  then have n: "n \<noteq> 0" and l: "n AND NOT (n - 1) = n"
    by (auto simp: isPowerOf2_def leastSigBit_def)
  define m where "m = findMsbSet (ucast n)"
  have u: "unat (ucast n :: u64) = unat n"
    using len by (simp add: unat_ucast_up)
  have "(ucast n :: u64) \<noteq> 0"
    using n len by (simp add: ucast_up_eq_0)
  then have m: "2 ^ m \<le> unat n" "unat n < 2 ^ Suc m"
    using findMsbSet_bounds [of "ucast n"] u by (auto simp: m_def)
  have b: "bit n m" by (rule bit_msb [OF m])
  then have mlen: "m < LENGTH('a)" by (rule bit_imp_le_length)
  have "unat n = 2 ^ m"
  proof (rule ccontr)
    assume "unat n \<noteq> 2 ^ m"
    then have "2 ^ m \<le> unat (n - 1)" "unat (n - 1) < 2 ^ Suc m"
      using m n by (auto simp: unat_minus_one)
    then have "bit (n - 1) m" by (rule bit_msb)
    then have "\<not> bit (n AND NOT (n - 1)) m" by (simp add: bit_simps)
    then show False using l b by simp
  qed
  then have "n = 2 ^ m"
    by (rule word_eq_power)
  with mlen show "\<exists>k<LENGTH('a). n = 2 ^ k" by blast
next
  assume "\<exists>k<LENGTH('a). n = 2 ^ k"
  then show "isPowerOf2 n"
    by (auto simp: isPowerOf2_def leastSigBit_power exp_eq_zero_iff)
qed

lemma roundDown_mod:
  fixes v :: "'a::len word"
  shows "unat (roundDown v (2 ^ k)) = unat v div 2 ^ k * 2 ^ k"
proof -
  have "roundDown v (2 ^ k) = push_bit k (drop_bit k v)"
    by (intro bit_word_eqI) (auto simp: roundDown_def Let_def mask_eq_exp_minus_1 [symmetric] bit_simps)
  also have "\<dots> = v - take_bit k v"
    by (metis add_diff_cancel_right' bits_ident)
  finally have "unat (roundDown v (2 ^ k)) = unat v - unat (take_bit k v)"
    by (simp add: unat_sub word_le_nat_alt unat_take_bit_mod)
  then show ?thesis
    by (simp add: unat_take_bit_mod minus_mod_eq_div_mult)
qed

lemma roundUp_mod:
  fixes v :: "'a::len word"
  assumes "k < LENGTH('a)" "unat v + (2 ^ k - 1) < 2 ^ LENGTH('a)"
  shows "unat (roundUp v (2 ^ k)) = (unat v + (2 ^ k - 1)) div 2 ^ k * 2 ^ k"
proof -
  have m: "unat (mask k :: 'a word) = 2 ^ k - 1"
    using assms(1) by (rule unat_mask)
  have "unat (v + mask k) = unat v + (2 ^ k - 1)"
    using assms(2) m by (metis unat_add_lem)
  moreover have "roundUp v (2 ^ k) = roundDown (v + mask k) (2 ^ k)"
    by (simp add: roundUp_def roundDown_def Let_def mask_eq_exp_minus_1 [symmetric])
  ultimately show ?thesis by (simp only: roundDown_mod)
qed

text \<open>On powers of two, where the rounding functions do nothing.\<close>

lemma floorLog2_u32_power: "k < 32 \<Longrightarrow> floorLog2_u32 (2 ^ k) = Inr k"
proof -
  assume k: "k < 32"
  let ?y = "findMsbSet (ucast (2 ^ k :: u32))"
  have u: "unat (2 ^ k :: u32) = 2 ^ k" using unat_exp [of k, where 'a = 32] k by simp
  then have nz: "(2 ^ k :: u32) \<noteq> 0" by (metis power_not_zero unsigned_0 zero_neq_numeral)
  have "2 ^ ?y \<le> unat (2 ^ k :: u32) \<and> unat (2 ^ k :: u32) < 2 ^ Suc ?y"
    using findMsbSet_bounds [of "ucast (2 ^ k :: u32)"] nz by (simp add: ucast_up_eq_0 unat_ucast_up del: power_Suc)
  then have "(2::nat) ^ ?y \<le> 2 ^ k" "(2::nat) ^ k < 2 ^ Suc ?y" using u by simp_all
  then have "?y \<le> k" "k < Suc ?y" by (metis one_less_numeral_iff power_le_imp_le_exp semiring_norm(76))
    (metis \<open>(2::nat) ^ k < 2 ^ Suc ?y\<close> one_less_numeral_iff power_less_imp_less_exp semiring_norm(76))
  then show ?thesis using floorLog2_u32_findMsbSet [OF nz] by simp
qed

lemma floorLog2_u32_isPowerOf2:
  assumes "isPowerOf2 n"
  shows "\<exists>k < 32. floorLog2_u32 n = Inr k" "floorPow2_u32 n = Inr n"
proof -
  obtain k where k: "k < 32" "n = 2 ^ k" using assms isPowerOf2_iff [of n] by auto
  then show "\<exists>k < 32. floorLog2_u32 n = Inr k" "floorPow2_u32 n = Inr n"
    using floorLog2_u32_power by (auto simp: floorPow2_u32_def push_bit_eq_mult)
qed

section \<open>Properties\<close>

text \<open>
  \<open>floorLog2\<close> fails its assertion exactly on zero, and otherwise returns the position
  of the highest set bit, for \<open>unsigned\<close> and for \<open>unsigned long\<close>.
\<close>

lemma floorLog2_correct:
  "(case floorLog2_u32 x of Inl e \<Rightarrow> e = AssertFail \<and> x = 0
     | Inr y \<Rightarrow> 2 ^ y \<le> unat x \<and> unat x < 2 ^ Suc y) \<and>
   (case floorLog2_u64 z of Inl e \<Rightarrow> e = AssertFail \<and> z = 0
     | Inr y \<Rightarrow> 2 ^ y \<le> unat z \<and> unat z < 2 ^ Suc y)"
proof -
  have "2 ^ findMsbSet (ucast x) \<le> unat x \<and> unat x < 2 ^ Suc (findMsbSet (ucast x))" if "x \<noteq> 0"
    using findMsbSet_bounds [of "ucast x"] that by (simp add: ucast_up_eq_0 unat_ucast_up)
  moreover have "floorLog2_u32 0 = Inl AssertFail" "floorLog2_u64 0 = Inl AssertFail"
    by (simp_all add: floorLog2_u32_def floorLog2_u64_def)
  ultimately show ?thesis
    using findMsbSet_bounds [of z]
    by (cases "x = 0"; cases "z = 0")
       (simp_all add: floorLog2_u32_findMsbSet floorLog2_u64_findMsbSet)
qed

text \<open>
  For an alignment that is a power of two, \<open>roundDown\<close> is the largest multiple not above
  the value and \<open>roundUp\<close>, when the sum does not wrap, the smallest multiple not below it.
\<close>

lemma round_correct:
  fixes v :: "'a::len word"
  assumes "LENGTH('a) \<le> 64" "isPowerOf2 align" "unat v + (unat align - 1) < 2 ^ LENGTH('a)"
  shows "unat align dvd unat (roundDown v align) \<and> unat (roundDown v align) \<le> unat v \<and>
         unat v < unat (roundDown v align) + unat align \<and>
         unat align dvd unat (roundUp v align) \<and> unat v \<le> unat (roundUp v align) \<and>
         unat (roundUp v align) < unat v + unat align"
proof -
  obtain k where k: "k < LENGTH('a)" "align = 2 ^ k"
    using assms(1,2) isPowerOf2_iff by blast
  then have a: "unat align = 2 ^ k" by (simp add: unat_exp)
  have d: "unat (roundDown v align) = unat v div 2 ^ k * 2 ^ k"
    using k by (simp add: roundDown_mod)
  have u: "unat (roundUp v align) = (unat v + (2 ^ k - 1)) div 2 ^ k * 2 ^ k"
    using k assms(3) a by (simp add: roundUp_mod)
  have "unat v mod 2 ^ k < 2 ^ k" by simp
  with div_mult_mod_eq [of "unat v" "2 ^ k"]
  have "unat v < unat v div 2 ^ k * 2 ^ k + 2 ^ k" by linarith
  moreover have "(unat v + (2 ^ k - 1)) div 2 ^ k * 2 ^ k + (unat v + (2 ^ k - 1)) mod 2 ^ k
      = unat v + (2 ^ k - 1)" "(unat v + (2 ^ k - 1)) mod 2 ^ k < 2 ^ k"
    by (simp_all add: div_mult_mod_eq)
  moreover have "(1 :: nat) \<le> 2 ^ k" "unat v div 2 ^ k * 2 ^ k \<le> unat v" by simp_all
  ultimately show ?thesis
    unfolding a d u by (intro conjI dvd_triv_right) linarith+
qed


end
