(* ===== verification/Branch_Pred.thy ===== *)
theory Branch_Pred
  imports IntMath Alpha_Isa
begin

text \<open>
  The parts of the branch predictor (\<open>src/src/cpu/pred\<close>, \<open>src/src/cpu/o3/sat_counter.hh\<close>): saturating
  counters, the local and the tournament predictor, the branch target buffer and the return address
  stack. \<open>unsigned\<close> is \<open>u32\<close>; a vector is a list, and an index outside it an error. The object
  \<open>BPHistory\<close> that the tournament predictor hands out has one owner at a time, so that the pointer to it is
  modelled by the object itself, \<open>None\<close> for NULL. That there is one owner is read off the code and not checked here: the
  model does not show a use after deletion or a second deletion of such an object.
\<close>

section \<open>Definitions\<close>

text \<open>\<open>(1 << n) - 1\<close>, computed as an \<open>int\<close>, and \<open>addr >> n\<close>.\<close>

definition low_mask :: "u32 \<Rightarrow> u32 res" where
  "low_mask n = (if n < 31 then Inr (push_bit (unat n) 1 - 1) else Inl Undefined_arith)"

definition addr_shift :: "Addr \<Rightarrow> u32 \<Rightarrow> Addr res" where
  "addr_shift a n = (if n < 64 then Inr (drop_bit (unat n) a) else Inl Undefined_arith)"

text \<open>Reading and writing an element of a vector.\<close>

definition vec_at :: "'a list \<Rightarrow> u32 \<Rightarrow> 'a res" where
  "vec_at xs i = at xs (unat i)"

definition vec_set :: "'a list \<Rightarrow> u32 \<Rightarrow> 'a \<Rightarrow> 'a list res" where
  "vec_set xs i x = (if unat i < length xs then Inr (xs[unat i := x]) else Inl Bad_index)"

definition vec_upd :: "'a list \<Rightarrow> u32 \<Rightarrow> ('a \<Rightarrow> 'a) \<Rightarrow> 'a list res" where
  "vec_upd xs i f = bindE (vec_at xs i) (\<lambda>x. vec_set xs i (f x))"

subsection \<open>Saturating counters\<close>

record SatCounter =
  initialVal :: u8
  maxVal :: u8
  sc_counter :: u8

text \<open>The constructor with the number of bits, which leaves \<open>maxVal\<close> to \<open>setBits\<close>.\<close>

definition setBits :: "u32 \<Rightarrow> SatCounter \<Rightarrow> SatCounter res" where
  "setBits nbits c = bindE (low_mask nbits) (\<lambda>m. Inr (c\<lparr>maxVal := ucast m\<rparr>))"

definition SatCounter_ctor :: "u32 \<Rightarrow> u8 \<Rightarrow> SatCounter res" where
  "SatCounter_ctor nbits initial_val =
     bindE (low_mask nbits) (\<lambda>m.
       if initial_val > ucast m then Inl Panic
       else Inr \<lparr>initialVal = initial_val, maxVal = ucast m, sc_counter = initial_val\<rparr>)"

definition sc_reset :: "SatCounter \<Rightarrow> SatCounter" where
  "sc_reset c = c\<lparr>sc_counter := initialVal c\<rparr>"

definition increment :: "SatCounter \<Rightarrow> SatCounter" where
  "increment c = (if sc_counter c < maxVal c then c\<lparr>sc_counter := sc_counter c + 1\<rparr> else c)"

definition decrement :: "SatCounter \<Rightarrow> SatCounter" where
  "decrement c = (if sc_counter c > 0 then c\<lparr>sc_counter := sc_counter c - 1\<rparr> else c)"

definition sc_read :: "SatCounter \<Rightarrow> u8" where
  "sc_read c = sc_counter c"

text \<open>
  A vector of \<open>n\<close> counters, resized and then given their width one by one; \<open>n\<close> is positive
  wherever the sources do this.
\<close>

definition counters_of :: "u32 \<Rightarrow> u32 \<Rightarrow> SatCounter list res" where
  "counters_of n nbits =
     bindE (setBits nbits \<lparr>initialVal = 0, maxVal = 0, sc_counter = 0\<rparr>) (\<lambda>c. Inr (replicate (unat n) c))"

subsection \<open>The local predictor\<close>

record LocalBP =
  lb_localCtrs :: "SatCounter list"
  lb_localPredictorSize :: u32
  lb_localPredictorSets :: u32
  lb_localCtrBits :: u32
  lb_instShiftAmt :: u32
  lb_indexMask :: u32

definition LocalBP_ctor :: "u32 \<Rightarrow> u32 \<Rightarrow> u32 \<Rightarrow> LocalBP res" where
  "LocalBP_ctor localPredictorSize localCtrBits instShiftAmt =
     (if \<not> isPowerOf2 localPredictorSize then Inl Panic
      else if localCtrBits = 0 then Inl Undefined_arith
      else
        let sets = localPredictorSize div localCtrBits
        in if \<not> isPowerOf2 sets then Inl Panic
           else bindE (counters_of sets localCtrBits) (\<lambda>ctrs.
             Inr \<lparr>lb_localCtrs = ctrs, lb_localPredictorSize = localPredictorSize, lb_localPredictorSets = sets,
               lb_localCtrBits = localCtrBits, lb_instShiftAmt = instShiftAmt, lb_indexMask = sets - 1\<rparr>))"

definition LocalBP_reset :: "LocalBP \<Rightarrow> LocalBP" where
  "LocalBP_reset bp = bp\<lparr>lb_localCtrs := map sc_reset (lb_localCtrs bp)\<rparr>"

definition getLocalIndex :: "Addr \<Rightarrow> LocalBP \<Rightarrow> u32 res" where
  "getLocalIndex branch_addr bp =
     bindE (addr_shift branch_addr (lb_instShiftAmt bp)) (\<lambda>a. Inr (ucast (a AND ucast (lb_indexMask bp))))"

definition getPrediction :: "u8 \<Rightarrow> LocalBP \<Rightarrow> bool" where
  "getPrediction count bp \<longleftrightarrow> drop_bit (unat (lb_localCtrBits bp - 1)) count \<noteq> 0"

definition LocalBP_lookup :: "Addr \<Rightarrow> LocalBP \<Rightarrow> bool res" where
  "LocalBP_lookup branch_addr bp =
     bindE (getLocalIndex branch_addr bp) (\<lambda>idx.
     bindE (vec_at (lb_localCtrs bp) idx) (\<lambda>c. Inr (getPrediction (sc_read c) bp)))"

definition LocalBP_update :: "Addr \<Rightarrow> bool \<Rightarrow> 'h option \<Rightarrow> LocalBP \<Rightarrow> LocalBP res" where
  "LocalBP_update branch_addr taken bp_history bp =
     bindE (assertE (bp_history = None)) (\<lambda>_.
     bindE (getLocalIndex branch_addr bp) (\<lambda>idx.
     bindE (vec_upd (lb_localCtrs bp) idx (if taken then increment else decrement)) (\<lambda>l.
       Inr (bp\<lparr>lb_localCtrs := l\<rparr>))))"

definition LocalBP_squash :: "'h option \<Rightarrow> LocalBP \<Rightarrow> LocalBP res" where
  "LocalBP_squash bp_history bp = bindE (assertE (bp_history = None)) (\<lambda>_. Inr bp)"

subsection \<open>The branch target buffer\<close>

text \<open>The thread of an entry is written together with \<open>valid\<close>; before that it is \<open>None\<close>.\<close>

type_synonym ThreadID = int

record BTBEntry =
  be_tag :: Addr
  be_target :: PCState
  be_tid :: "ThreadID option"
  be_valid :: bool

record DefaultBTB =
  btb :: "BTBEntry list"
  bt_numEntries :: u32
  bt_idxMask :: u32
  bt_tagBits :: u32
  bt_tagMask :: u32
  bt_instShiftAmt :: u32
  bt_tagShiftAmt :: u32

definition DefaultBTB_ctor :: "u32 \<Rightarrow> u32 \<Rightarrow> u32 \<Rightarrow> DefaultBTB res" where
  "DefaultBTB_ctor numEntries tagBits instShiftAmt =
     (if \<not> isPowerOf2 numEntries then Inl Panic
      else bindE (low_mask tagBits) (\<lambda>tagMask.
        bindE (floorLog2_u32 numEntries) (\<lambda>l.
          Inr \<lparr>btb = replicate (unat numEntries) \<lparr>be_tag = 0, be_target = PCState_set 0, be_tid = None, be_valid = False\<rparr>,
            bt_numEntries = numEntries, bt_idxMask = numEntries - 1, bt_tagBits = tagBits, bt_tagMask = tagMask,
            bt_instShiftAmt = instShiftAmt, bt_tagShiftAmt = instShiftAmt + of_nat l\<rparr>)))"

definition BTB_reset :: "DefaultBTB \<Rightarrow> DefaultBTB" where
  "BTB_reset b = b\<lparr>btb := map (\<lambda>e. e\<lparr>be_valid := False\<rparr>) (btb b)\<rparr>"

definition getIndex :: "Addr \<Rightarrow> DefaultBTB \<Rightarrow> u32 res" where
  "getIndex instPC b =
     bindE (addr_shift instPC (bt_instShiftAmt b)) (\<lambda>a. Inr (ucast (a AND ucast (bt_idxMask b))))"

definition getTag :: "Addr \<Rightarrow> DefaultBTB \<Rightarrow> Addr res" where
  "getTag instPC b = bindE (addr_shift instPC (bt_tagShiftAmt b)) (\<lambda>a. Inr (a AND ucast (bt_tagMask b)))"

text \<open>The entry of the index, when it is valid and for this address and thread.\<close>

definition BTB_find :: "Addr \<Rightarrow> ThreadID \<Rightarrow> DefaultBTB \<Rightarrow> BTBEntry option res" where
  "BTB_find instPC tid b =
     bindE (getIndex instPC b) (\<lambda>idx.
     bindE (getTag instPC b) (\<lambda>tag.
     bindE (assertE (idx < bt_numEntries b)) (\<lambda>_.
     bindE (vec_at (btb b) idx) (\<lambda>e.
       Inr (if be_valid e \<and> tag = be_tag e \<and> be_tid e = Some tid then Some e else None)))))"

definition BTB_valid :: "Addr \<Rightarrow> ThreadID \<Rightarrow> DefaultBTB \<Rightarrow> bool res" where
  "BTB_valid instPC tid b = bindE (BTB_find instPC tid b) (\<lambda>r. Inr (r \<noteq> None))"

definition BTB_lookup :: "Addr \<Rightarrow> ThreadID \<Rightarrow> DefaultBTB \<Rightarrow> PCState res" where
  "BTB_lookup instPC tid b =
     bindE (BTB_find instPC tid b) (\<lambda>r. Inr (case r of None \<Rightarrow> PCState_set 0 | Some e \<Rightarrow> be_target e))"

definition BTB_update :: "Addr \<Rightarrow> PCState \<Rightarrow> ThreadID \<Rightarrow> DefaultBTB \<Rightarrow> DefaultBTB res" where
  "BTB_update instPC target tid b =
     bindE (getIndex instPC b) (\<lambda>idx.
     bindE (assertE (idx < bt_numEntries b)) (\<lambda>_.
     bindE (getTag instPC b) (\<lambda>tag.
     bindE (vec_set (btb b) idx \<lparr>be_tag = tag, be_target = target, be_tid = Some tid, be_valid = True\<rparr>) (\<lambda>l.
       Inr (b\<lparr>btb := l\<rparr>)))))"

subsection \<open>The return address stack\<close>

record ReturnAddrStack =
  addrStack :: "PCState list"
  ra_numEntries :: u32
  usedEntries :: u32
  tos :: u32

definition RAS_init :: "u32 \<Rightarrow> ReturnAddrStack" where
  "RAS_init n = \<lparr>addrStack = replicate (unat n) (PCState_set 0), ra_numEntries = n, usedEntries = 0, tos = 0\<rparr>"

definition RAS_reset :: "ReturnAddrStack \<Rightarrow> ReturnAddrStack" where
  "RAS_reset r = r\<lparr>usedEntries := 0, tos := 0, addrStack := map (\<lambda>_. PCState_set 0) (addrStack r)\<rparr>"

definition RAS_top :: "ReturnAddrStack \<Rightarrow> PCState res" where
  "RAS_top r = vec_at (addrStack r) (tos r)"

definition topIdx :: "ReturnAddrStack \<Rightarrow> u32" where
  "topIdx r = tos r"

definition incrTos :: "ReturnAddrStack \<Rightarrow> ReturnAddrStack" where
  "incrTos r = r\<lparr>tos := (if tos r + 1 = ra_numEntries r then 0 else tos r + 1)\<rparr>"

definition decrTos :: "ReturnAddrStack \<Rightarrow> ReturnAddrStack" where
  "decrTos r = r\<lparr>tos := (if tos r = 0 then ra_numEntries r - 1 else tos r - 1)\<rparr>"

definition RAS_push :: "PCState \<Rightarrow> ReturnAddrStack \<Rightarrow> ReturnAddrStack res" where
  "RAS_push return_addr r =
     (let r = incrTos r
      in bindE (vec_set (addrStack r) (tos r) return_addr) (\<lambda>l.
           Inr (r\<lparr>addrStack := l,
             usedEntries := (if usedEntries r \<noteq> ra_numEntries r then usedEntries r + 1 else usedEntries r)\<rparr>)))"

definition RAS_pop :: "ReturnAddrStack \<Rightarrow> ReturnAddrStack" where
  "RAS_pop r = decrTos (r\<lparr>usedEntries := (if usedEntries r > 0 then usedEntries r - 1 else usedEntries r)\<rparr>)"

definition RAS_restore :: "u32 \<Rightarrow> PCState \<Rightarrow> ReturnAddrStack \<Rightarrow> ReturnAddrStack res" where
  "RAS_restore top_entry_idx restored r =
     bindE (vec_set (addrStack r) top_entry_idx restored) (\<lambda>l. Inr (r\<lparr>tos := top_entry_idx, addrStack := l\<rparr>))"

subsection \<open>The tournament predictor\<close>

record BPHistory =
  bh_globalHistory :: u32
  bh_localHistory :: u32
  bh_localPredTaken :: bool
  bh_globalPredTaken :: bool
  bh_globalUsed :: bool

record TournamentBP =
  localCtrs :: "SatCounter list"
  localPredictorSize :: u32
  localPredictorMask :: u32
  localCtrBits :: u32
  localHistoryTable :: "u32 list"
  localHistoryTableSize :: u32
  localHistoryBits :: u32
  localHistoryMask :: u32
  globalCtrs :: "SatCounter list"
  globalPredictorSize :: u32
  globalCtrBits :: u32
  globalHistory :: u32
  globalHistoryBits :: u32
  globalHistoryMask :: u32
  choiceCtrs :: "SatCounter list"
  choicePredictorSize :: u32
  choiceCtrBits :: u32
  tb_instShiftAmt :: u32
  threshold :: u32

definition invalidPredictorIndex :: u32 where
  "invalidPredictorIndex = - 1"

text \<open>The size of the choice predictor is that of the global one; the parameter for it is not used.\<close>

definition TournamentBP_ctor ::
  "u32 \<Rightarrow> u32 \<Rightarrow> u32 \<Rightarrow> u32 \<Rightarrow> u32 \<Rightarrow> u32 \<Rightarrow> u32 \<Rightarrow> u32 \<Rightarrow> u32 \<Rightarrow> u32 \<Rightarrow> TournamentBP res" where
  "TournamentBP_ctor lps lcb lhts lhb gps ghb gcb cps ccb shift =
     (if \<not> isPowerOf2 lps then Inl Panic
      else bindE (counters_of lps lcb) (\<lambda>lc.
       bindE (floorPow2_u32 lps) (\<lambda>p.
       if \<not> isPowerOf2 lhts then Inl Panic
       else bindE (low_mask lhb) (\<lambda>lm.
       if \<not> isPowerOf2 gps then Inl Panic
       else bindE (counters_of gps gcb) (\<lambda>gc.
       bindE (low_mask ghb) (\<lambda>gm.
       if \<not> isPowerOf2 gps then Inl Panic
       else bindE (counters_of gps ccb) (\<lambda>cc.
       bindE (low_mask (lcb - 1)) (\<lambda>th.
         Inr \<lparr>localCtrs = lc, localPredictorSize = lps, localPredictorMask = p - 1, localCtrBits = lcb,
           localHistoryTable = replicate (unat lhts) 0, localHistoryTableSize = lhts, localHistoryBits = lhb,
           localHistoryMask = lm, globalCtrs = gc, globalPredictorSize = gps, globalCtrBits = gcb,
           globalHistory = 0, globalHistoryBits = ghb, globalHistoryMask = gm, choiceCtrs = cc,
           choicePredictorSize = gps, choiceCtrBits = ccb, tb_instShiftAmt = shift, threshold = th\<rparr>))))))))"

definition calcLocHistIdx :: "Addr \<Rightarrow> TournamentBP \<Rightarrow> u32 res" where
  "calcLocHistIdx branch_addr bp =
     bindE (addr_shift branch_addr (tb_instShiftAmt bp)) (\<lambda>a. Inr (ucast (a AND ucast (localHistoryTableSize bp - 1))))"

definition updateGlobalHistTaken :: "TournamentBP \<Rightarrow> TournamentBP" where
  "updateGlobalHistTaken bp = bp\<lparr>globalHistory := (push_bit 1 (globalHistory bp) OR 1) AND globalHistoryMask bp\<rparr>"

definition updateGlobalHistNotTaken :: "TournamentBP \<Rightarrow> TournamentBP" where
  "updateGlobalHistNotTaken bp = bp\<lparr>globalHistory := push_bit 1 (globalHistory bp) AND globalHistoryMask bp\<rparr>"

definition updateLocalHistTaken :: "u32 \<Rightarrow> TournamentBP \<Rightarrow> TournamentBP res" where
  "updateLocalHistTaken idx bp =
     bindE (vec_upd (localHistoryTable bp) idx (\<lambda>h. push_bit 1 h OR 1)) (\<lambda>l. Inr (bp\<lparr>localHistoryTable := l\<rparr>))"

definition updateLocalHistNotTaken :: "u32 \<Rightarrow> TournamentBP \<Rightarrow> TournamentBP res" where
  "updateLocalHistNotTaken idx bp =
     bindE (vec_upd (localHistoryTable bp) idx (push_bit 1)) (\<lambda>l. Inr (bp\<lparr>localHistoryTable := l\<rparr>))"

definition TournamentBP_BTBUpdate :: "Addr \<Rightarrow> TournamentBP \<Rightarrow> TournamentBP res" where
  "TournamentBP_BTBUpdate branch_addr bp =
     bindE (calcLocHistIdx branch_addr bp) (\<lambda>idx.
       let bp = bp\<lparr>globalHistory := globalHistory bp AND (globalHistoryMask bp - 1)\<rparr>
       in bindE (vec_upd (localHistoryTable bp) idx (\<lambda>h. h AND (localPredictorMask bp - 1))) (\<lambda>l.
            Inr (bp\<lparr>localHistoryTable := l\<rparr>)))"

definition above_threshold :: "SatCounter \<Rightarrow> TournamentBP \<Rightarrow> bool" where
  "above_threshold c bp \<longleftrightarrow> (ucast (sc_read c) :: u32) > threshold bp"

definition TournamentBP_lookup :: "Addr \<Rightarrow> TournamentBP \<Rightarrow> (bool \<times> BPHistory option \<times> TournamentBP) res" where
  "TournamentBP_lookup branch_addr bp =
     bindE (calcLocHistIdx branch_addr bp) (\<lambda>hidx.
     bindE (vec_at (localHistoryTable bp) hidx) (\<lambda>h.
     let pidx = h AND localPredictorMask bp
     in bindE (vec_at (localCtrs bp) pidx) (\<lambda>lc.
     bindE (vec_at (globalCtrs bp) (globalHistory bp)) (\<lambda>gc.
     bindE (vec_at (choiceCtrs bp) (globalHistory bp)) (\<lambda>cc.
     let l = above_threshold lc bp; g = above_threshold gc bp; ch = above_threshold cc bp;
         history = \<lparr>bh_globalHistory = globalHistory bp, bh_localHistory = pidx, bh_localPredTaken = l,
           bh_globalPredTaken = g, bh_globalUsed = ch\<rparr>
     in bindE (assertE (globalHistory bp < globalPredictorSize bp \<and> hidx < localHistoryTableSize bp \<and>
          pidx < localPredictorSize bp)) (\<lambda>_.
        let taken = (if ch then g else l)
        in if taken then
             bindE (updateLocalHistTaken hidx (updateGlobalHistTaken bp)) (\<lambda>bp. Inr (True, Some history, bp))
           else
             bindE (updateLocalHistNotTaken hidx (updateGlobalHistNotTaken bp)) (\<lambda>bp. Inr (False, Some history, bp))))))))"

definition TournamentBP_uncondBr :: "TournamentBP \<Rightarrow> BPHistory option \<times> TournamentBP" where
  "TournamentBP_uncondBr bp =
     (Some \<lparr>bh_globalHistory = globalHistory bp, bh_localHistory = invalidPredictorIndex, bh_localPredTaken = True,
        bh_globalPredTaken = True, bh_globalUsed = True\<rparr>, updateGlobalHistTaken bp)"

text \<open>The counters of a resolved branch.\<close>

definition train_choice :: "bool \<Rightarrow> BPHistory \<Rightarrow> TournamentBP \<Rightarrow> TournamentBP res" where
  "train_choice taken history bp =
     (if bh_localPredTaken history \<noteq> bh_globalPredTaken history then
        (if bh_localPredTaken history = taken then
           bindE (vec_upd (choiceCtrs bp) (bh_globalHistory history) decrement) (\<lambda>l. Inr (bp\<lparr>choiceCtrs := l\<rparr>))
         else if bh_globalPredTaken history = taken then
           bindE (vec_upd (choiceCtrs bp) (bh_globalHistory history) increment) (\<lambda>l. Inr (bp\<lparr>choiceCtrs := l\<rparr>))
         else Inr bp)
      else Inr bp)"

definition train_counters :: "bool \<Rightarrow> BPHistory \<Rightarrow> u32 \<Rightarrow> TournamentBP \<Rightarrow> TournamentBP res" where
  "train_counters taken history old_local_pred_index bp =
     (let step = (if taken then increment else decrement)
      in bindE (vec_upd (globalCtrs bp) (bh_globalHistory history) step) (\<lambda>g.
         let bp = bp\<lparr>globalCtrs := g\<rparr>
         in if old_local_pred_index \<noteq> invalidPredictorIndex then
              bindE (vec_upd (localCtrs bp) old_local_pred_index step) (\<lambda>l. Inr (bp\<lparr>localCtrs := l\<rparr>))
            else Inr bp))"

text \<open>The histories after a misprediction.\<close>

definition repair_histories :: "bool \<Rightarrow> BPHistory \<Rightarrow> u32 \<Rightarrow> TournamentBP \<Rightarrow> TournamentBP res" where
  "repair_histories taken history old_local_pred_index bp =
     (let t = (if taken then 1 else 0);
          bp = bp\<lparr>globalHistory := (push_bit 1 (bh_globalHistory history) OR t) AND globalHistoryMask bp\<rparr>
      in if old_local_pred_index \<noteq> invalidPredictorIndex then
           bindE (vec_set (localHistoryTable bp) old_local_pred_index (push_bit 1 (bh_localHistory history) OR t)) (\<lambda>l.
             Inr (bp\<lparr>localHistoryTable := l\<rparr>))
         else Inr bp)"

definition TournamentBP_update :: "Addr \<Rightarrow> bool \<Rightarrow> BPHistory option \<Rightarrow> bool \<Rightarrow> TournamentBP \<Rightarrow> TournamentBP res" where
  "TournamentBP_update branch_addr taken bp_history squashed bp =
     bindE (calcLocHistIdx branch_addr bp) (\<lambda>hidx.
     bindE (vec_at (localHistoryTable bp) hidx) (\<lambda>h.
     let pidx = h AND localPredictorMask bp
     in bindE
       (case bp_history of None \<Rightarrow> Inr bp
        | Some history \<Rightarrow>
            (let old = bh_localHistory history AND localPredictorMask bp;
                 historyPred = (if bh_globalUsed history then bh_globalPredTaken history else bh_localPredTaken history)
             in bindE
                  (if historyPred \<noteq> taken \<or> \<not> squashed then
                     bindE (train_choice taken history bp) (train_counters taken history old)
                   else Inr bp)
                  (\<lambda>bp. if squashed then repair_histories taken history old bp else Inr bp)))
       (\<lambda>bp. bindE (assertE (globalHistory bp < globalPredictorSize bp \<and> hidx < localHistoryTableSize bp \<and>
          pidx < localPredictorSize bp)) (\<lambda>_. Inr bp))))"

definition TournamentBP_squash :: "BPHistory option \<Rightarrow> TournamentBP \<Rightarrow> TournamentBP res" where
  "TournamentBP_squash bp_history bp =
     (case bp_history of None \<Rightarrow> Inl Null_deref
      | Some history \<Rightarrow> Inr (bp\<lparr>globalHistory := bh_globalHistory history\<rparr>))"

section \<open>Vectors, masks and counters\<close>

lemma vec_at_in [simp]: "unat i < length xs \<Longrightarrow> vec_at xs i = Inr (xs ! unat i)"
  by (simp add: vec_at_def)

lemma vec_set_in [simp]: "unat i < length xs \<Longrightarrow> vec_set xs i x = Inr (xs[unat i := x])"
  by (simp add: vec_set_def)

lemma vec_upd_in [simp]: "unat i < length xs \<Longrightarrow> vec_upd xs i f = Inr (xs[unat i := f (xs ! unat i)])"
  by (simp add: vec_upd_def)

lemma addr_shift_in [simp]: "n < 64 \<Longrightarrow> addr_shift a n = Inr (drop_bit (unat n) a)"
  by (simp add: addr_shift_def)

lemma unat_and_le: "unat (x AND y) \<le> unat (y :: 'a::len word)"
  using word_and_le1 [of x y] by (simp add: word_le_nat_alt)

lemma masked_index:
  assumes "n \<noteq> (0::u32)"
  shows "unat (ucast ((a :: Addr) AND ucast (n - 1)) :: u32) < unat n"
proof -
  have "unat (ucast (a AND ucast (n - 1)) :: u32) \<le> unat (a AND ucast (n - 1 :: u32))"
    by (simp add: unsigned_ucast_eq take_bit_nat_less_eq_self)
  also have "\<dots> \<le> unat (ucast (n - 1) :: Addr)" by (rule unat_and_le)
  also have "\<dots> = unat (n - 1)" by (rule unat_ucast_up) simp
  also have "\<dots> < unat n" using assms by (simp add: unat_minus_one unat_gt_0)
  finally show ?thesis .
qed

text \<open>A counter stays within its range and moves by one until it saturates.\<close>

definition counter_wf :: "SatCounter \<Rightarrow> bool" where
  "counter_wf c \<longleftrightarrow> sc_counter c \<le> maxVal c"

lemma increment_spec:
  "counter_wf c \<Longrightarrow> counter_wf (increment c) \<and> unat (sc_counter (increment c)) = min (unat (sc_counter c) + 1) (unat (maxVal c))"
proof -
  assume c: "counter_wf c"
  show ?thesis
  proof (cases "sc_counter c < maxVal c")
    case True
    then have "unat (sc_counter c) < unat (maxVal c)" by (simp add: word_less_nat_alt)
    moreover have "unat (maxVal c) < 2 ^ 8" using unsigned_less [of "maxVal c"] by simp
    ultimately have "unat (sc_counter c + 1) = unat (sc_counter c) + 1" by (simp add: unat_word_ariths)
    with True show ?thesis by (simp add: increment_def counter_wf_def word_le_nat_alt word_less_nat_alt)
  qed (use c in \<open>simp add: increment_def counter_wf_def word_le_nat_alt word_less_nat_alt\<close>)
qed

lemma decrement_spec:
  "counter_wf c \<Longrightarrow> counter_wf (decrement c) \<and> unat (sc_counter (decrement c)) = unat (sc_counter c) - 1"
  using unat_minus_one [of "sc_counter c"] by (auto simp: decrement_def counter_wf_def word_le_nat_alt word_gt_0)

lemma counters_upd:
  assumes "\<forall>c\<in>set cs. counter_wf c"
  shows "\<forall>c\<in>set (cs[i := increment (cs ! i)]). counter_wf c" "\<forall>c\<in>set (cs[i := decrement (cs ! i)]). counter_wf c"
proof -
  have "counter_wf (cs ! i)" if "i < length cs" using assms that by simp
  then show "\<forall>c\<in>set (cs[i := increment (cs ! i)]). counter_wf c" "\<forall>c\<in>set (cs[i := decrement (cs ! i)]). counter_wf c"
    using assms increment_spec decrement_spec
    by (cases "i < length cs"; auto dest!: subsetD [OF set_update_subset_insert] simp: list_update_beyond)+
qed

section \<open>The interface of a direction predictor\<close>

text \<open>
  What the prediction unit relies on. A lookup hands out a history object; \<open>owns\<close> tells which objects belong
  to a predictor. Nothing but training writes the counters, \<open>tables\<close>. What a lookup changes
  speculatively is undone by a squash with its object: \<open>view\<close> is then what it was before the lookup.
\<close>

locale direction_predictor =
  fixes wf :: "'p \<Rightarrow> bool"
    and owns :: "'p \<Rightarrow> 'h \<Rightarrow> bool"
    and lookup :: "Addr \<Rightarrow> 'p \<Rightarrow> (bool \<times> 'h \<times> 'p) res"
    and uncond :: "'p \<Rightarrow> 'h \<times> 'p"
    and miss :: "Addr \<Rightarrow> 'p \<Rightarrow> 'p res"
    and squash :: "'h \<Rightarrow> 'p \<Rightarrow> 'p res"
    and train :: "Addr \<Rightarrow> bool \<Rightarrow> 'h \<Rightarrow> bool \<Rightarrow> 'p \<Rightarrow> 'p res"
    and view :: "'p \<Rightarrow> 'v"
    and saved :: "'h \<Rightarrow> 'v"
    and tables :: "'p \<Rightarrow> 't"
  assumes lookup_ok: "wf p \<Longrightarrow> \<exists>b h p'. lookup a p = Inr (b, h, p') \<and> wf p' \<and> owns p' = owns p \<and> tables p' = tables p \<and>
      owns p h \<and> saved h = view p"
    and uncond_ok: "wf p \<Longrightarrow> \<exists>h p'. uncond p = (h, p') \<and> wf p' \<and> owns p' = owns p \<and> tables p' = tables p \<and>
      owns p h \<and> saved h = view p"
    and miss_ok: "wf p \<Longrightarrow> \<exists>p'. miss a p = Inr p' \<and> wf p' \<and> owns p' = owns p \<and> tables p' = tables p"
    and squash_ok: "wf p \<Longrightarrow> owns p h \<Longrightarrow>
      \<exists>p'. squash h p = Inr p' \<and> wf p' \<and> owns p' = owns p \<and> tables p' = tables p \<and> view p' = saved h"
    and train_ok: "wf p \<Longrightarrow> owns p h \<Longrightarrow> \<exists>p'. train a t h s p = Inr p' \<and> wf p' \<and> owns p' = owns p"
begin

text \<open>Squashing a list of histories, the youngest first, goes back to before the oldest.\<close>

lemma squash_all:
  assumes "wf p" "\<And>h. h \<in> set hs \<Longrightarrow> owns p h"
  shows "\<exists>p'. foldE squash hs p = Inr p' \<and> wf p' \<and> owns p' = owns p \<and> tables p' = tables p \<and>
    (hs \<noteq> [] \<longrightarrow> view p' = saved (last hs)) \<and> (hs = [] \<longrightarrow> p' = p)"
  using assms
proof (induction hs arbitrary: p)
  case (Cons h hs)
  obtain p1 where p1: "squash h p = Inr p1" "wf p1" "owns p1 = owns p" "tables p1 = tables p" "view p1 = saved h"
    using squash_ok [OF Cons.prems(1), of h] Cons.prems(2) by auto
  then have "\<And>h. h \<in> set hs \<Longrightarrow> owns p1 h" using Cons.prems(2) by simp
  with Cons.IH [OF p1(2)] p1 show ?case by auto
qed simp

end

subsection \<open>The local predictor\<close>

definition LocalBP_wf :: "LocalBP \<Rightarrow> bool" where
  "LocalBP_wf bp \<longleftrightarrow> lb_localPredictorSets bp \<noteq> 0 \<and> length (lb_localCtrs bp) = unat (lb_localPredictorSets bp) \<and>
     lb_indexMask bp = lb_localPredictorSets bp - 1 \<and> lb_instShiftAmt bp < 64 \<and> (\<forall>c\<in>set (lb_localCtrs bp). counter_wf c)"

lemma getLocalIndex_ok: "LocalBP_wf bp \<Longrightarrow> \<exists>i. getLocalIndex a bp = Inr i \<and> unat i < length (lb_localCtrs bp)"
  by (simp add: LocalBP_wf_def getLocalIndex_def masked_index)

interpretation local_predictor: direction_predictor LocalBP_wf "\<lambda>_ h. h = None"
  "\<lambda>a bp. bindE (LocalBP_lookup a bp) (\<lambda>b. Inr (b, None, bp))" "\<lambda>bp. (None, bp)" "\<lambda>_ bp. Inr bp"
  LocalBP_squash "\<lambda>a t h _. LocalBP_update a t h" "\<lambda>_. None" "map_option bh_globalHistory :: BPHistory option \<Rightarrow> u32 option"
  "\<lambda>bp. [lb_localCtrs bp]"
proof unfold_locales
  fix p :: LocalBP and a :: Addr and h :: "BPHistory option" and t :: bool
  assume wf: "LocalBP_wf p"
  obtain i where i: "getLocalIndex a p = Inr i" "unat i < length (lb_localCtrs p)" using getLocalIndex_ok [OF wf] by blast
  then show "\<exists>b h p'. bindE (LocalBP_lookup a p) (\<lambda>b. Inr (b, None, p)) = Inr (b, h, p') \<and> LocalBP_wf p' \<and>
      (\<lambda>h. h = None) = (\<lambda>h. h = None) \<and> [lb_localCtrs p'] = [lb_localCtrs p] \<and> h = None \<and> map_option bh_globalHistory h = None"
    using wf by (simp add: LocalBP_lookup_def)
  assume "h = None"
  then show "\<exists>p'. LocalBP_update a t h p = Inr p' \<and> LocalBP_wf p' \<and> (\<lambda>h. h = None) = (\<lambda>h. h = None)"
    using i wf counters_upd [of "lb_localCtrs p" "unat i"] by (simp add: LocalBP_update_def LocalBP_wf_def)
qed (simp_all add: LocalBP_squash_def)

subsection \<open>The tournament predictor\<close>

text \<open>
  The global history fits its mask, and the mask the tables. A misprediction writes the history table at an
  index of the local predictor (\<open>repair_histories\<close>), which is within the table only if it is as large.
\<close>

definition TournamentBP_wf :: "TournamentBP \<Rightarrow> bool" where
  "TournamentBP_wf bp \<longleftrightarrow>
     localPredictorSize bp \<noteq> 0 \<and> length (localCtrs bp) = unat (localPredictorSize bp) \<and>
     localPredictorMask bp = localPredictorSize bp - 1 \<and>
     localHistoryTableSize bp \<noteq> 0 \<and> length (localHistoryTable bp) = unat (localHistoryTableSize bp) \<and>
     localPredictorSize bp \<le> localHistoryTableSize bp \<and>
     length (globalCtrs bp) = unat (globalPredictorSize bp) \<and> length (choiceCtrs bp) = unat (globalPredictorSize bp) \<and>
     globalHistoryMask bp < globalPredictorSize bp \<and> globalHistory bp \<le> globalHistoryMask bp \<and>
     tb_instShiftAmt bp < 64 \<and> (\<forall>c\<in>set (localCtrs bp) \<union> set (globalCtrs bp) \<union> set (choiceCtrs bp). counter_wf c)"

definition TournamentBP_owns :: "TournamentBP \<Rightarrow> BPHistory option \<Rightarrow> bool" where
  "TournamentBP_owns bp h \<longleftrightarrow> (case h of None \<Rightarrow> False | Some h \<Rightarrow> bh_globalHistory h \<le> globalHistoryMask bp)"

definition TournamentBP_tables :: "TournamentBP \<Rightarrow> SatCounter list list" where
  "TournamentBP_tables bp = [localCtrs bp, globalCtrs bp, choiceCtrs bp]"

lemma calcLocHistIdx_ok:
  assumes "TournamentBP_wf bp"
  shows "\<exists>i. calcLocHistIdx a bp = Inr i \<and> i < localHistoryTableSize bp \<and> unat i < length (localHistoryTable bp)"
  using assms masked_index [of "localHistoryTableSize bp" "drop_bit (unat (tb_instShiftAmt bp)) a"]
  by (simp add: TournamentBP_wf_def calcLocHistIdx_def word_less_nat_alt)

lemma local_index_ok:
  assumes "TournamentBP_wf bp"
  shows "h AND localPredictorMask bp < localPredictorSize bp"
    "unat (h AND localPredictorMask bp) < length (localCtrs bp)"
    "unat (h AND localPredictorMask bp) < length (localHistoryTable bp)"
proof -
  have "unat (h AND localPredictorMask bp) \<le> unat (localPredictorSize bp - 1)"
    using assms unat_and_le [of h "localPredictorMask bp"] by (simp add: TournamentBP_wf_def)
  also have "\<dots> < unat (localPredictorSize bp)" using assms by (simp add: TournamentBP_wf_def unat_minus_one unat_gt_0)
  finally have *: "unat (h AND localPredictorMask bp) < unat (localPredictorSize bp)" .
  then show "h AND localPredictorMask bp < localPredictorSize bp"
    "unat (h AND localPredictorMask bp) < length (localCtrs bp)"
    "unat (h AND localPredictorMask bp) < length (localHistoryTable bp)"
    using assms by (simp_all add: TournamentBP_wf_def word_less_nat_alt word_le_nat_alt)
qed

lemma global_index_ok:
  assumes "TournamentBP_wf bp" "g \<le> globalHistoryMask bp"
  shows "g < globalPredictorSize bp" "unat g < length (globalCtrs bp)" "unat g < length (choiceCtrs bp)"
  using assms by (simp_all add: TournamentBP_wf_def word_less_nat_alt word_le_nat_alt)

text \<open>The invariant after writes to the histories and to the counters.\<close>

lemma wf_histories:
  assumes "TournamentBP_wf bp" "g \<le> globalHistoryMask bp" "length l = length (localHistoryTable bp)"
  shows "TournamentBP_wf (bp\<lparr>globalHistory := g, localHistoryTable := l\<rparr>)"
    "TournamentBP_owns (bp\<lparr>globalHistory := g, localHistoryTable := l\<rparr>) = TournamentBP_owns bp"
    "TournamentBP_tables (bp\<lparr>globalHistory := g, localHistoryTable := l\<rparr>) = TournamentBP_tables bp"
  using assms by (auto simp: TournamentBP_wf_def TournamentBP_owns_def TournamentBP_tables_def fun_eq_iff split: option.splits)

lemmas hist_updates = updateGlobalHistTaken_def updateGlobalHistNotTaken_def updateLocalHistTaken_def
  updateLocalHistNotTaken_def

lemma tournament_lookup_ok:
  assumes wf: "TournamentBP_wf bp"
  shows "\<exists>b h bp'. TournamentBP_lookup a bp = Inr (b, h, bp') \<and> TournamentBP_wf bp' \<and>
    TournamentBP_owns bp' = TournamentBP_owns bp \<and> TournamentBP_tables bp' = TournamentBP_tables bp \<and>
    TournamentBP_owns bp h \<and> map_option bh_globalHistory h = Some (globalHistory bp)"
proof -
  obtain i where i: "calcLocHistIdx a bp = Inr i" "i < localHistoryTableSize bp" "unat i < length (localHistoryTable bp)"
    using calcLocHistIdx_ok [OF wf] by blast
  have g: "globalHistory bp \<le> globalHistoryMask bp" using wf by (simp add: TournamentBP_wf_def)
  note idx = local_index_ok [OF wf] global_index_ok [OF wf g]
  have w: "TournamentBP_wf (bp\<lparr>globalHistory := x AND globalHistoryMask bp, localHistoryTable := (localHistoryTable bp)[unat i := y]\<rparr>)"
    "TournamentBP_owns (bp\<lparr>globalHistory := x AND globalHistoryMask bp, localHistoryTable := (localHistoryTable bp)[unat i := y]\<rparr>) = TournamentBP_owns bp"
    "TournamentBP_tables (bp\<lparr>globalHistory := x AND globalHistoryMask bp, localHistoryTable := (localHistoryTable bp)[unat i := y]\<rparr>) = TournamentBP_tables bp"
    for x y using wf_histories [OF wf word_and_le1] by simp_all
  show ?thesis
    using i g idx w by (auto simp: TournamentBP_lookup_def Let_def hist_updates TournamentBP_owns_def)
qed

lemma tournament_miss_ok:
  assumes wf: "TournamentBP_wf bp"
  shows "\<exists>bp'. TournamentBP_BTBUpdate a bp = Inr bp' \<and> TournamentBP_wf bp' \<and>
    TournamentBP_owns bp' = TournamentBP_owns bp \<and> TournamentBP_tables bp' = TournamentBP_tables bp"
proof -
  obtain i where i: "calcLocHistIdx a bp = Inr i" "unat i < length (localHistoryTable bp)"
    using calcLocHistIdx_ok [OF wf] by blast
  have "globalHistory bp AND m \<le> globalHistoryMask bp" for m
    using word_and_le2 [of "globalHistory bp" m] wf by (auto simp: TournamentBP_wf_def)
  from wf_histories [OF wf this] show ?thesis using i by (simp add: TournamentBP_BTBUpdate_def Let_def)
qed

text \<open>Sizes and masks never change.\<close>

definition config :: "TournamentBP \<Rightarrow> u32 \<times> u32 \<times> u32 \<times> u32 \<times> u32" where
  "config bp = (localPredictorSize bp, localPredictorMask bp, localHistoryTableSize bp, globalPredictorSize bp, globalHistoryMask bp)"

lemma wf_step:
  assumes "TournamentBP_wf bp" "f = increment \<or> f = decrement"
  shows "TournamentBP_wf (bp\<lparr>globalCtrs := (globalCtrs bp)[i := f (globalCtrs bp ! i)]\<rparr>)"
    "TournamentBP_wf (bp\<lparr>localCtrs := (localCtrs bp)[i := f (localCtrs bp ! i)]\<rparr>)"
    "TournamentBP_wf (bp\<lparr>choiceCtrs := (choiceCtrs bp)[i := f (choiceCtrs bp ! i)]\<rparr>)"
proof -
  have "\<forall>c\<in>set (cs[i := f (cs ! i)]). counter_wf c" if "\<forall>c\<in>set cs. counter_wf c" for cs
    using counters_upd [OF that, of i] assms(2) by blast
  moreover have "\<forall>c\<in>set (localCtrs bp). counter_wf c" "\<forall>c\<in>set (globalCtrs bp). counter_wf c"
    "\<forall>c\<in>set (choiceCtrs bp). counter_wf c" using assms(1) unfolding TournamentBP_wf_def by blast+
  ultimately show "TournamentBP_wf (bp\<lparr>globalCtrs := (globalCtrs bp)[i := f (globalCtrs bp ! i)]\<rparr>)"
    "TournamentBP_wf (bp\<lparr>localCtrs := (localCtrs bp)[i := f (localCtrs bp ! i)]\<rparr>)"
    "TournamentBP_wf (bp\<lparr>choiceCtrs := (choiceCtrs bp)[i := f (choiceCtrs bp ! i)]\<rparr>)"
    using assms(1) by (simp_all add: TournamentBP_wf_def ball_Un)
qed

lemma train_choice_ok:
  assumes wf: "TournamentBP_wf bp" and h: "bh_globalHistory h \<le> globalHistoryMask bp"
  shows "\<exists>bp'. train_choice t h bp = Inr bp' \<and> TournamentBP_wf bp' \<and> config bp' = config bp"
  using wf global_index_ok(3) [OF wf h] wf_step(3) [OF wf, of increment] wf_step(3) [OF wf, of decrement]
  by (simp add: train_choice_def config_def)

lemma train_counters_ok:
  assumes wf: "TournamentBP_wf bp" and g: "bh_globalHistory h \<le> globalHistoryMask bp"
  shows "\<exists>bp'. train_counters t h (x AND localPredictorMask bp) bp = Inr bp' \<and> TournamentBP_wf bp' \<and> config bp' = config bp"
proof -
  let ?f = "if t then increment else decrement" and ?j = "x AND localPredictorMask bp"
  define bp1 where "bp1 = bp\<lparr>globalCtrs := (globalCtrs bp)[unat (bh_globalHistory h) := ?f (globalCtrs bp ! unat (bh_globalHistory h))]\<rparr>"
  have w1: "TournamentBP_wf bp1" unfolding bp1_def by (rule wf_step(1) [OF wf]) simp
  have m1: "config bp1 = config bp" by (simp add: bp1_def config_def)
  have w2: "TournamentBP_wf (bp1\<lparr>localCtrs := (localCtrs bp1)[unat ?j := ?f (localCtrs bp1 ! unat ?j)]\<rparr>)"
    by (rule wf_step(2) [OF w1]) simp
  have "train_counters t h ?j bp = (if ?j \<noteq> invalidPredictorIndex then
      bindE (vec_upd (localCtrs bp1) ?j ?f) (\<lambda>l. Inr (bp1\<lparr>localCtrs := l\<rparr>)) else Inr bp1)"
    using global_index_ok(2) [OF wf g] by (simp add: train_counters_def Let_def bp1_def)
  moreover have "unat ?j < length (localCtrs bp1)" using local_index_ok(2) [OF w1, of x] m1 by (simp add: config_def)
  ultimately show ?thesis using w1 w2 m1 by (simp add: config_def)
qed

lemma repair_histories_ok:
  assumes "TournamentBP_wf bp"
  shows "\<exists>bp'. repair_histories t h (x AND localPredictorMask bp) bp = Inr bp' \<and> TournamentBP_wf bp' \<and> config bp' = config bp"
  using wf_histories(1) [OF assms word_and_le1] wf_histories(1) [OF assms word_and_le1 refl] local_index_ok(3) [OF assms, of x]
  by (simp add: repair_histories_def Let_def config_def)

lemma tournament_update_ok:
  assumes wf: "TournamentBP_wf bp" and h: "bh_globalHistory h \<le> globalHistoryMask bp"
  shows "\<exists>bp'. TournamentBP_update a t (Some h) s bp = Inr bp' \<and> TournamentBP_wf bp' \<and> config bp' = config bp"
proof -
  obtain i where i: "calcLocHistIdx a bp = Inr i" "i < localHistoryTableSize bp" "unat i < length (localHistoryTable bp)"
    using calcLocHistIdx_ok [OF wf] by blast
  let ?old = "bh_localHistory h AND localPredictorMask bp"
  have train: "\<exists>bp'. bindE (train_choice t h bp) (train_counters t h ?old) = Inr bp' \<and> TournamentBP_wf bp' \<and> config bp' = config bp"
  proof -
    obtain b1 where b1: "train_choice t h bp = Inr b1" "TournamentBP_wf b1" "config b1 = config bp"
      using train_choice_ok [OF wf h] by blast
    then show ?thesis using train_counters_ok [OF b1(2), of h t "bh_localHistory h"] h by (auto simp: config_def)
  qed
  let ?q = "(if bh_globalUsed h then bh_globalPredTaken h else bh_localPredTaken h) \<noteq> t \<or> \<not> s"
  obtain b1 where b1: "(if ?q then bindE (train_choice t h bp) (train_counters t h ?old) else Inr bp) = Inr b1"
      "TournamentBP_wf b1" "config b1 = config bp"
    using train wf by (cases ?q) auto
  obtain b2 where b2: "(if s then repair_histories t h ?old b1 else Inr b1) = Inr b2" "TournamentBP_wf b2" "config b2 = config bp"
    using repair_histories_ok [OF b1(2), of t h "bh_localHistory h"] b1(2,3) by (cases s) (auto simp: config_def)
  have "globalHistory b2 < globalPredictorSize b2" using b2(2) global_index_ok(1) [OF b2(2)] by (simp add: TournamentBP_wf_def)
  then have "globalHistory b2 < globalPredictorSize b2 \<and> i < localHistoryTableSize b2 \<and>
      (localHistoryTable bp ! unat i) AND localPredictorMask bp < localPredictorSize b2"
    using b2(3) i(2) local_index_ok(1) [OF wf] by (simp add: config_def)
  then show ?thesis using i b1(1) b2 by (simp add: TournamentBP_update_def Let_def)
qed

lemma tournament_squash_ok:
  "TournamentBP_wf bp \<Longrightarrow> bh_globalHistory h \<le> globalHistoryMask bp \<Longrightarrow> TournamentBP_wf (bp\<lparr>globalHistory := bh_globalHistory h\<rparr>)"
  by (simp add: TournamentBP_wf_def)

lemma tournament_uncond_ok:
  assumes wf: "TournamentBP_wf bp"
  shows "TournamentBP_wf (updateGlobalHistTaken bp)" "globalHistory bp \<le> globalHistoryMask bp"
    "TournamentBP_owns (updateGlobalHistTaken bp) = TournamentBP_owns bp"
    "TournamentBP_tables (updateGlobalHistTaken bp) = TournamentBP_tables bp"
  using wf word_and_le1 by (auto simp: updateGlobalHistTaken_def TournamentBP_wf_def TournamentBP_owns_def
      TournamentBP_tables_def fun_eq_iff split: option.splits)

interpretation tournament_predictor: direction_predictor TournamentBP_wf TournamentBP_owns TournamentBP_lookup
  TournamentBP_uncondBr TournamentBP_BTBUpdate TournamentBP_squash TournamentBP_update
  "\<lambda>bp. Some (globalHistory bp)" "map_option bh_globalHistory :: BPHistory option \<Rightarrow> u32 option" TournamentBP_tables
proof unfold_locales
  fix p :: TournamentBP and a :: Addr and h :: "BPHistory option" and t s :: bool
  assume wf: "TournamentBP_wf p"
  show "\<exists>b h p'. TournamentBP_lookup a p = Inr (b, h, p') \<and> TournamentBP_wf p' \<and> TournamentBP_owns p' = TournamentBP_owns p \<and>
      TournamentBP_tables p' = TournamentBP_tables p \<and> TournamentBP_owns p h \<and> map_option bh_globalHistory h = Some (globalHistory p)"
    by (rule tournament_lookup_ok [OF wf])
  show "\<exists>h p'. TournamentBP_uncondBr p = (h, p') \<and> TournamentBP_wf p' \<and> TournamentBP_owns p' = TournamentBP_owns p \<and>
      TournamentBP_tables p' = TournamentBP_tables p \<and> TournamentBP_owns p h \<and> map_option bh_globalHistory h = Some (globalHistory p)"
    using tournament_uncond_ok [OF wf] by (simp add: TournamentBP_uncondBr_def) (simp add: TournamentBP_owns_def)
  show "\<exists>p'. TournamentBP_BTBUpdate a p = Inr p' \<and> TournamentBP_wf p' \<and> TournamentBP_owns p' = TournamentBP_owns p \<and>
      TournamentBP_tables p' = TournamentBP_tables p"
    by (rule tournament_miss_ok [OF wf])
  assume "TournamentBP_owns p h"
  then obtain h' where h: "h = Some h'" "bh_globalHistory h' \<le> globalHistoryMask p"
    by (auto simp: TournamentBP_owns_def split: option.splits)
  show "\<exists>p'. TournamentBP_squash h p = Inr p' \<and> TournamentBP_wf p' \<and> TournamentBP_owns p' = TournamentBP_owns p \<and>
      TournamentBP_tables p' = TournamentBP_tables p \<and> Some (globalHistory p') = map_option bh_globalHistory h"
    using tournament_squash_ok [OF wf h(2)] h(1)
    by (auto simp: TournamentBP_squash_def TournamentBP_owns_def TournamentBP_tables_def fun_eq_iff split: option.splits)
  show "\<exists>p'. TournamentBP_update a t h s p = Inr p' \<and> TournamentBP_wf p' \<and> TournamentBP_owns p' = TournamentBP_owns p"
    using tournament_update_ok [OF wf h(2), of a t s] h(1)
    by (auto simp: config_def TournamentBP_owns_def fun_eq_iff split: option.splits)
qed

section \<open>The branch target buffer\<close>

definition BTB_wf :: "DefaultBTB \<Rightarrow> bool" where
  "BTB_wf b \<longleftrightarrow> bt_numEntries b \<noteq> 0 \<and> length (btb b) = unat (bt_numEntries b) \<and> bt_idxMask b = bt_numEntries b - 1 \<and>
     bt_instShiftAmt b < 64 \<and> bt_tagShiftAmt b < 64"

definition btb_index :: "Addr \<Rightarrow> DefaultBTB \<Rightarrow> u32" where
  "btb_index a b = ucast (drop_bit (unat (bt_instShiftAmt b)) a AND ucast (bt_idxMask b))"

definition btb_tag :: "Addr \<Rightarrow> DefaultBTB \<Rightarrow> Addr" where
  "btb_tag a b = drop_bit (unat (bt_tagShiftAmt b)) a AND ucast (bt_tagMask b)"

lemma btb_index_less: "BTB_wf b \<Longrightarrow> unat (btb_index a b) < unat (bt_numEntries b)"
  using masked_index by (simp add: BTB_wf_def btb_index_def)

lemma BTB_find_ok:
  assumes "BTB_wf b"
  shows "BTB_find a tid b = Inr (let e = btb b ! unat (btb_index a b)
    in if be_valid e \<and> btb_tag a b = be_tag e \<and> be_tid e = Some tid then Some e else None)"
  using assms btb_index_less [OF assms, of a]
  by (simp add: BTB_find_def getIndex_def getTag_def BTB_wf_def btb_index_def btb_tag_def word_less_nat_alt Let_def)

text \<open>An update replaces the entry of its index, so that the address has the new target.\<close>

lemma BTB_update_ok:
  assumes wf: "BTB_wf b"
  shows "\<exists>b'. BTB_update a target tid b = Inr b' \<and> BTB_wf b' \<and>
    (\<forall>a' tid'. BTB_find a' tid' b' =
      (if btb_index a' b = btb_index a b then
         Inr (if btb_tag a' b = btb_tag a b \<and> tid' = tid
              then Some \<lparr>be_tag = btb_tag a b, be_target = target, be_tid = Some tid, be_valid = True\<rparr> else None)
       else BTB_find a' tid' b))"
proof -
  let ?e = "\<lparr>be_tag = btb_tag a b, be_target = target, be_tid = Some tid, be_valid = True\<rparr>"
  let ?b = "b\<lparr>btb := (btb b)[unat (btb_index a b) := ?e]\<rparr>"
  have up: "BTB_update a target tid b = Inr ?b"
    using wf btb_index_less [OF wf, of a]
    by (simp add: BTB_update_def getIndex_def getTag_def BTB_wf_def btb_index_def btb_tag_def word_less_nat_alt)
  have wf': "BTB_wf ?b" using wf by (simp add: BTB_wf_def)
  have len: "unat (btb_index x b) < length (btb b)" for x using btb_index_less [OF wf, of x] wf by (simp add: BTB_wf_def)
  have i: "btb_index x ?b = btb_index x b" "btb_tag x ?b = btb_tag x b" for x by (simp_all add: btb_index_def btb_tag_def)
  have "btb ?b ! unat (btb_index a' b) = (if btb_index a' b = btb_index a b then ?e else btb b ! unat (btb_index a' b))" for a'
    using len by (auto simp: nth_list_update dest: unsigned_word_eqI)
  then have "BTB_find a' tid' ?b = (if btb_index a' b = btb_index a b then
         Inr (if btb_tag a' b = btb_tag a b \<and> tid' = tid then Some ?e else None) else BTB_find a' tid' b)" for a' tid'
    unfolding BTB_find_ok [OF wf'] BTB_find_ok [OF wf] i by (auto simp: Let_def)
  then show ?thesis using up wf' by blast
qed

section \<open>The return address stack\<close>

definition RAS_wf :: "ReturnAddrStack \<Rightarrow> bool" where
  "RAS_wf r \<longleftrightarrow> length (addrStack r) = unat (ra_numEntries r) \<and> tos r < ra_numEntries r \<and> usedEntries r \<le> ra_numEntries r"

text \<open>The position \<open>i\<close> places below position \<open>t\<close> of a circular buffer.\<close>

definition below :: "nat \<Rightarrow> nat \<Rightarrow> nat \<Rightarrow> nat" where
  "below n t i = (t + n - i) mod n"

lemma below_0 [simp]: "t < n \<Longrightarrow> below n t 0 = t"
  by (simp add: below_def)

lemma below_less: "t < n \<Longrightarrow> below n t i < n"
  by (simp add: below_def)

lemma below_eq:
  assumes "t < n" "i \<le> n"
  shows "below n t i = (if i \<le> t then t - i else t + n - i)"
proof (cases "i \<le> t")
  case True
  then have "t + n - i = t - i + n" by simp
  then have "below n t i = (t - i + n) mod n" by (simp only: below_def)
  also have "\<dots> = (t - i) mod n" by (rule mod_add_self2)
  finally show ?thesis using True assms by simp
qed (use assms in \<open>simp add: below_def\<close>)

lemma below_succ:
  assumes "t < n" "i < n"
  shows "below n ((t + 1) mod n) (Suc i) = below n t i"
proof (cases "t + 1 < n")
  case True
  then show ?thesis using assms by (simp add: below_eq)
next
  case False
  then have "t + 1 = n" using assms by simp
  then show ?thesis using assms by (auto simp: below_eq)
qed

lemma below_pred:
  assumes "t < n"
  shows "(below n t 1 + 1) mod n = t"
  using assms by (cases "t = 0") (simp_all add: below_eq)

lemma below_inj:
  assumes "t < n" "i < n" "j < n" "below n t i = below n t j"
  shows "i = j"
  using assms by (auto simp: below_eq split: if_splits)

text \<open>The entry \<open>i\<close> places below the top.\<close>

definition slot :: "ReturnAddrStack \<Rightarrow> nat \<Rightarrow> PCState" where
  "slot r i = addrStack r ! below (unat (ra_numEntries r)) (unat (tos r)) i"

text \<open>
  Two stacks show the same \<open>d\<close> top entries. The count \<open>usedEntries\<close> is left out: \<open>restore\<close> does not bring it back,
  and the prediction unit of the out-of-order processor never reads it.
\<close>

definition ras_agree :: "nat \<Rightarrow> ReturnAddrStack \<Rightarrow> ReturnAddrStack \<Rightarrow> bool" where
  "ras_agree d r r' \<longleftrightarrow> tos r = tos r' \<and> ra_numEntries r = ra_numEntries r' \<and> (\<forall>i < d. slot r i = slot r' i)"

lemma unat_incr:
  assumes "tos r < ra_numEntries r"
  shows "unat (tos (incrTos r)) = (unat (tos r) + 1) mod unat (ra_numEntries r)"
proof -
  have l: "unat (tos r) < unat (ra_numEntries r)" "unat (ra_numEntries r) < 2 ^ 32"
    using assms unsigned_less [of "ra_numEntries r"] by (simp_all add: word_less_nat_alt)
  then have u: "unat (tos r + 1) = unat (tos r) + 1" by (simp add: unat_word_ariths)
  show ?thesis
  proof (cases "tos r + 1 = ra_numEntries r")
    case True
    then have "unat (tos r) + 1 = unat (ra_numEntries r)" using u by simp
    then show ?thesis using True by (simp add: incrTos_def)
  next
    case False
    then have "unat (tos r) + 1 \<noteq> unat (ra_numEntries r)" using u by (metis unsigned_word_eqI)
    then show ?thesis using False u l by (simp add: incrTos_def)
  qed
qed

lemma unat_decr:
  assumes "tos r < ra_numEntries r"
  shows "unat (tos (decrTos r)) = (unat (tos r) + unat (ra_numEntries r) - 1) mod unat (ra_numEntries r)"
proof -
  have l: "unat (tos r) < unat (ra_numEntries r)" using assms by (simp add: word_less_nat_alt)
  show ?thesis
  proof (cases "tos r = 0")
    case True
    then show ?thesis using l by (simp add: decrTos_def unat_minus_one unat_gt_0)
  next
    case False
    then have "unat (tos r - 1) = unat (tos r) - 1" "0 < unat (tos r)" by (simp_all add: unat_minus_one unat_gt_0)
    then show ?thesis using False l by (simp add: decrTos_def mod_if)
  qed
qed

lemma unat_used:
  assumes "usedEntries r \<le> ra_numEntries r"
  shows "(if usedEntries r > 0 then usedEntries r - 1 else usedEntries r) \<le> ra_numEntries r"
    "(if usedEntries r \<noteq> ra_numEntries r then usedEntries r + 1 else usedEntries r) \<le> ra_numEntries r"
proof -
  show "(if usedEntries r > 0 then usedEntries r - 1 else usedEntries r) \<le> ra_numEntries r"
    using assms unat_minus_one [of "usedEntries r"] by (auto simp: word_le_nat_alt word_gt_0)
  show "(if usedEntries r \<noteq> ra_numEntries r then usedEntries r + 1 else usedEntries r) \<le> ra_numEntries r"
    using assms inc_le [of "usedEntries r" "ra_numEntries r"] by simp
qed

lemma RAS_pop_ok:
  assumes "RAS_wf r"
  shows "RAS_wf (RAS_pop r)" "ra_numEntries (RAS_pop r) = ra_numEntries r" "addrStack (RAS_pop r) = addrStack r"
    "unat (tos (RAS_pop r)) = below (unat (ra_numEntries r)) (unat (tos r)) 1"
proof -
  let ?r = "r\<lparr>usedEntries := if usedEntries r > 0 then usedEntries r - 1 else usedEntries r\<rparr>"
  have t: "tos r < ra_numEntries r" "unat (tos r) < unat (ra_numEntries r)"
    using assms by (simp_all add: RAS_wf_def word_less_nat_alt)
  have "tos ?r < ra_numEntries ?r" using t by simp
  from unat_decr [OF this] show u: "unat (tos (RAS_pop r)) = below (unat (ra_numEntries r)) (unat (tos r)) 1"
    by (simp add: RAS_pop_def below_def)
  show c: "ra_numEntries (RAS_pop r) = ra_numEntries r" "addrStack (RAS_pop r) = addrStack r"
    by (simp_all add: RAS_pop_def decrTos_def)
  have "tos (RAS_pop r) < ra_numEntries (RAS_pop r)"
    using u c below_less [OF t(2), of 1] by (simp add: word_less_nat_alt)
  moreover have "usedEntries (RAS_pop r) \<le> ra_numEntries r"
    using unat_used(1) [of r] assms by (simp add: RAS_pop_def decrTos_def RAS_wf_def)
  ultimately show "RAS_wf (RAS_pop r)" using assms c by (simp add: RAS_wf_def)
qed

lemma RAS_push_ok:
  assumes "RAS_wf r"
  shows "\<exists>r'. RAS_push a r = Inr r' \<and> RAS_wf r' \<and> ra_numEntries r' = ra_numEntries r \<and>
    unat (tos r') = (unat (tos r) + 1) mod unat (ra_numEntries r) \<and>
    addrStack r' = (addrStack r)[(unat (tos r) + 1) mod unat (ra_numEntries r) := a]"
proof -
  have t: "tos r < ra_numEntries r" "unat (tos r) < unat (ra_numEntries r)"
    using assms by (simp_all add: RAS_wf_def word_less_nat_alt)
  note u = unat_incr [OF t(1)]
  have c: "ra_numEntries (incrTos r) = ra_numEntries r" "addrStack (incrTos r) = addrStack r" "usedEntries (incrTos r) = usedEntries r"
    by (simp_all add: incrTos_def)
  have "unat (tos (incrTos r)) < length (addrStack r)" using u t assms by (simp add: RAS_wf_def)
  moreover have "tos (incrTos r) < ra_numEntries r" using u t by (simp add: word_less_nat_alt)
  ultimately show ?thesis
    using assms u c unat_used(2) [of r] by (auto simp: RAS_push_def Let_def RAS_wf_def split: if_splits)
qed

lemma RAS_restore_ok:
  assumes "RAS_wf r" "i < ra_numEntries r"
  shows "\<exists>r'. RAS_restore i a r = Inr r' \<and> RAS_wf r' \<and> ra_numEntries r' = ra_numEntries r \<and> tos r' = i \<and>
    addrStack r' = (addrStack r)[unat i := a]"
  using assms by (simp add: RAS_restore_def RAS_wf_def word_less_nat_alt)

text \<open>
  Undoing a call and a return. The entry that a call overwrites is lost, which is the deepest one:
  one level of agreement fewer.
\<close>

lemma ras_agree_call:
  assumes r: "RAS_wf r" "RAS_wf r'" and push: "RAS_push a r = Inr s" and ag: "ras_agree d r' s" and d: "d \<le> unat (ra_numEntries r)"
  shows "ras_agree (d - 1) (RAS_pop r') r"
proof -
  let ?n = "unat (ra_numEntries r)" and ?t = "unat (tos r)"
  have t: "?t < ?n" using r(1) by (simp add: RAS_wf_def word_less_nat_alt)
  have s: "ra_numEntries s = ra_numEntries r" "unat (tos s) = (?t + 1) mod ?n" "addrStack s = (addrStack r)[(?t + 1) mod ?n := a]"
    using RAS_push_ok [OF r(1), of a] push by auto
  have r': "ra_numEntries r' = ra_numEntries r" "tos r' = tos s" using ag s(1) by (simp_all add: ras_agree_def)
  note pop = RAS_pop_ok [OF r(2), unfolded r']
  have tt: "unat (tos (RAS_pop r')) = ?t"
    using pop(4) below_succ [OF t, of 0] t s(2) by simp
  have "slot (RAS_pop r') i = slot r i" if "i < d - 1" for i
  proof -
    have i: "Suc i < d" "i < ?n" "Suc i < ?n" using that d by simp_all
    have "slot (RAS_pop r') i = slot r' (Suc i)"
      using below_succ [OF t i(2)] pop(2,3) tt r' s(2) by (simp add: slot_def)
    also have "\<dots> = slot s (Suc i)" using ag i(1) by (simp add: ras_agree_def)
    also have "\<dots> = slot r i"
    proof -
      have "(?t + 1) mod ?n < ?n" using t by simp
      then have "below ?n ((?t + 1) mod ?n) (Suc i) \<noteq> (?t + 1) mod ?n"
        using below_inj [of "(?t + 1) mod ?n" ?n "Suc i" 0] i(3) t by auto
      then show ?thesis using below_succ [OF t i(2)] s by (simp add: slot_def)
    qed
    finally show ?thesis .
  qed
  moreover have "tos (RAS_pop r') = tos r" using tt by (simp add: unsigned_word_eqI)
  ultimately show ?thesis using pop(2) by (simp add: ras_agree_def)
qed

lemma ras_agree_lost:
  assumes "RAS_wf r" "RAS_push a r = Inr s" "ras_agree d r' (RAS_pop s)" "d \<le> unat (ra_numEntries r)"
  shows "ras_agree (d - 1) r' r"
proof -
  have "RAS_wf s" "ra_numEntries s = ra_numEntries r" using RAS_push_ok [OF assms(1), of a] assms(2) by auto
  moreover have "ras_agree (unat (ra_numEntries r)) s s" by (simp add: ras_agree_def)
  ultimately have "ras_agree (unat (ra_numEntries r) - 1) (RAS_pop s) r"
    using ras_agree_call [OF assms(1) _ assms(2)] by simp
  then show ?thesis using assms(3,4) by (simp add: ras_agree_def)
qed

lemma ras_agree_return:
  assumes r: "RAS_wf r" "RAS_wf r'" and ag: "ras_agree d r' (RAS_pop r)" and d: "d \<le> unat (ra_numEntries r)"
  shows "\<exists>q. RAS_restore (tos r) (slot r 0) r' = Inr q \<and> RAS_wf q \<and> ras_agree d q r"
proof -
  let ?n = "unat (ra_numEntries r)" and ?t = "unat (tos r)"
  have t: "?t < ?n" "tos r < ra_numEntries r" using r(1) by (simp_all add: RAS_wf_def word_less_nat_alt)
  note pop = RAS_pop_ok [OF r(1)]
  have r': "ra_numEntries r' = ra_numEntries r" "unat (tos r') = below ?n ?t 1" using ag pop by (simp_all add: ras_agree_def)
  obtain q where q: "RAS_restore (tos r) (slot r 0) r' = Inr q" "RAS_wf q" "ra_numEntries q = ra_numEntries r" "tos q = tos r"
      "addrStack q = (addrStack r')[?t := slot r 0]"
    using RAS_restore_ok [OF r(2), of "tos r" "slot r 0"] t r' by auto
  have len: "?t < length (addrStack r')" using r(2) r' t by (simp add: RAS_wf_def)
  have "slot q i = slot r i" if "i < d" for i
  proof (cases i)
    case 0
    then show ?thesis using q(3-5) len t by (simp add: slot_def)
  next
    case (Suc j)
    have j: "j < ?n" "Suc j < ?n" using that Suc d by simp_all
    have b: "below ?n ?t 1 < ?n" using below_less [OF t(1)] .
    have e: "below ?n ?t (Suc j) = below ?n (below ?n ?t 1) j"
      using below_succ [OF b j(1)] below_pred [OF t(1)] by simp
    have "below ?n ?t (Suc j) \<noteq> ?t" using below_inj [OF t(1) j(2), of 0] t by auto
    then have "slot q i = slot r' j" using q(3-5) e r' Suc by (simp add: slot_def)
    also have "\<dots> = slot (RAS_pop r) j" using ag that Suc by (simp add: ras_agree_def)
    also have "\<dots> = slot r i" using e pop Suc by (simp add: slot_def)
    finally show ?thesis .
  qed
  then show ?thesis using q by (auto simp: ras_agree_def)
qed

end
