(* ===== verification/Bpred_Unit.thy ===== *)
theory Bpred_Unit
  imports Branch_Pred
begin

text \<open>
  The branch prediction unit of the out-of-order processor (\<open>src/src/cpu/o3/bpred_unit_impl.hh\<close>): a direction
  predictor, the branch target buffer, and for each thread a return address stack and the list of
  predictions in flight, the youngest first. Statistics are left out: no operation reads them.
\<close>

section \<open>Definitions\<close>

text \<open>What the unit reads of an instruction.\<close>

record BranchInst =
  bi_seqNum :: u64
  bi_isUncondCtrl :: bool
  bi_isReturn :: bool
  bi_isCall :: bool

record PredictorHistory =
  ph_seqNum :: u64
  ph_pc :: Addr
  ph_bpHistory :: "BPHistory option"
  ph_RASTarget :: PCState
  ph_RASIndex :: u32
  ph_tid :: ThreadID
  ph_predTaken :: bool
  ph_usedRAS :: bool
  ph_wasCall :: bool
  ph_wasReturn :: bool
  ph_validBTB :: bool

definition PredictorHistory_ctor :: "u64 \<Rightarrow> Addr \<Rightarrow> bool \<Rightarrow> BPHistory option \<Rightarrow> ThreadID \<Rightarrow> PredictorHistory" where
  "PredictorHistory_ctor seq_num instPC pred_taken bp_history tid =
     \<lparr>ph_seqNum = seq_num, ph_pc = instPC, ph_bpHistory = bp_history, ph_RASTarget = PCState_set 0, ph_RASIndex = 0,
      ph_tid = tid, ph_predTaken = pred_taken, ph_usedRAS = False, ph_wasCall = False, ph_wasReturn = False,
      ph_validBTB = False\<rparr>"

datatype predictor = Local LocalBP | Tournament TournamentBP

record BPredUnit =
  bu_predictor :: predictor
  bu_BTB :: DefaultBTB
  bu_RAS :: "ReturnAddrStack list"
  predHist :: "PredictorHistory list list"

subsection \<open>The direction predictor\<close>

definition BPUncond :: "predictor \<Rightarrow> BPHistory option \<times> predictor" where
  "BPUncond p = (case p of Local l \<Rightarrow> (None, p)
     | Tournament t \<Rightarrow> (let (h, t) = TournamentBP_uncondBr t in (h, Tournament t)))"

definition BPSquash :: "BPHistory option \<Rightarrow> predictor \<Rightarrow> predictor res" where
  "BPSquash h p = (case p of Local l \<Rightarrow> bindE (LocalBP_squash h l) (\<lambda>l. Inr (Local l))
     | Tournament t \<Rightarrow> bindE (TournamentBP_squash h t) (\<lambda>t. Inr (Tournament t)))"

definition BPLookup :: "Addr \<Rightarrow> predictor \<Rightarrow> (bool \<times> BPHistory option \<times> predictor) res" where
  "BPLookup instPC p = (case p of Local l \<Rightarrow> bindE (LocalBP_lookup instPC l) (\<lambda>b. Inr (b, None, p))
     | Tournament t \<Rightarrow> bindE (TournamentBP_lookup instPC t) (\<lambda>(b, h, t). Inr (b, h, Tournament t)))"

definition BPBTBUpdate :: "Addr \<Rightarrow> predictor \<Rightarrow> predictor res" where
  "BPBTBUpdate instPC p = (case p of Local l \<Rightarrow> Inr p
     | Tournament t \<Rightarrow> bindE (TournamentBP_BTBUpdate instPC t) (\<lambda>t. Inr (Tournament t)))"

definition BPUpdate :: "Addr \<Rightarrow> bool \<Rightarrow> BPHistory option \<Rightarrow> bool \<Rightarrow> predictor \<Rightarrow> predictor res" where
  "BPUpdate instPC taken h squashed p = (case p of
       Local l \<Rightarrow> bindE (LocalBP_update instPC taken h l) (\<lambda>l. Inr (Local l))
     | Tournament t \<Rightarrow> bindE (TournamentBP_update instPC taken h squashed t) (\<lambda>t. Inr (Tournament t)))"

subsection \<open>Construction\<close>

text \<open>The parameters of the processor that the unit reads.\<close>

record bpred_params =
  bp_predType :: string
  bp_localPredictorSize :: u32
  bp_localCtrBits :: u32
  bp_localHistoryTableSize :: u32
  bp_localHistoryBits :: u32
  bp_globalPredictorSize :: u32
  bp_globalHistoryBits :: u32
  bp_globalCtrBits :: u32
  bp_choicePredictorSize :: u32
  bp_choiceCtrBits :: u32
  bp_instShiftAmt :: u32
  bp_BTBEntries :: u32
  bp_BTBTagSize :: u32
  bp_RASSize :: u32

definition MaxThreads :: nat where "MaxThreads = 4"

definition BPredUnit_ctor :: "bpred_params \<Rightarrow> BPredUnit res" where
  "BPredUnit_ctor p =
     bindE (DefaultBTB_ctor (bp_BTBEntries p) (bp_BTBTagSize p) (bp_instShiftAmt p)) (\<lambda>b.
     bindE
       (if bp_predType p = ''local'' then
          bindE (LocalBP_ctor (bp_localPredictorSize p) (bp_localCtrBits p) (bp_instShiftAmt p)) (\<lambda>l. Inr (Local l))
        else if bp_predType p = ''tournament'' then
          bindE (TournamentBP_ctor (bp_localPredictorSize p) (bp_localCtrBits p) (bp_localHistoryTableSize p)
            (bp_localHistoryBits p) (bp_globalPredictorSize p) (bp_globalHistoryBits p) (bp_globalCtrBits p)
            (bp_choicePredictorSize p) (bp_choiceCtrBits p) (bp_instShiftAmt p)) (\<lambda>t. Inr (Tournament t))
        else Inl Panic) (\<lambda>d.
       Inr \<lparr>bu_predictor = d, bu_BTB = b, bu_RAS = replicate MaxThreads (RAS_init (bp_RASSize p)),
         predHist = replicate MaxThreads []\<rparr>))"

subsection \<open>Prediction\<close>

text \<open>
  \<open>TheISA::buildRetPC\<close> and \<open>TheISA::advancePC\<close> of Alpha. A predicted return: the target comes from the
  return address stack, whose top is recorded and popped.
\<close>

definition buildRetPC :: "PCState \<Rightarrow> PCState \<Rightarrow> PCState" where
  "buildRetPC curPC callPC = PCState_advance callPC"

definition predict_return ::
  "PredictorHistory \<Rightarrow> PCState \<Rightarrow> ReturnAddrStack \<Rightarrow> (PCState \<times> PredictorHistory \<times> ReturnAddrStack) res" where
  "predict_return record pc r =
     bindE (RAS_top r) (\<lambda>rasTop.
     bindE (assertE (topIdx r < 16)) (\<lambda>_.
       Inr (buildRetPC pc rasTop,
         record\<lparr>ph_wasReturn := True, ph_usedRAS := True, ph_RASIndex := topIdx r, ph_RASTarget := rasTop\<rparr>,
         RAS_pop r)))"

text \<open>
  Any other branch that is predicted taken: a call is pushed, and the target comes from the branch target
  buffer. Without an entry there, the branch is predicted not taken after all.
\<close>

definition predict_target ::
  "BranchInst \<Rightarrow> PredictorHistory \<Rightarrow> PCState \<Rightarrow> ThreadID \<Rightarrow> DefaultBTB \<Rightarrow> ReturnAddrStack \<Rightarrow> predictor \<Rightarrow>
    (bool \<times> PCState \<times> PredictorHistory \<times> ReturnAddrStack \<times> predictor) res" where
  "predict_target inst record pc tid b r p =
     bindE (if bi_isCall inst then bindE (RAS_push pc r) (\<lambda>r. Inr (record\<lparr>ph_wasCall := True\<rparr>, r)) else Inr (record, r)) (\<lambda>(record, r).
     bindE (BTB_valid (instAddr pc) tid b) (\<lambda>valid.
       if valid then
         bindE (BTB_lookup (instAddr pc) tid b) (\<lambda>target. Inr (True, target, record\<lparr>ph_validBTB := True\<rparr>, r, p))
       else
         bindE
           (if \<not> bi_isCall inst \<and> \<not> bi_isReturn inst then bindE (BPBTBUpdate (instAddr pc) p) (\<lambda>p. Inr (r, p))
            else if bi_isCall inst \<and> \<not> bi_isUncondCtrl inst then Inr (RAS_pop r, p)
            else Inr (r, p))
           (\<lambda>(r, p). Inr (False, PCState_advance pc, record, r, p))))"

definition bp_predict :: "BranchInst \<Rightarrow> PCState \<Rightarrow> ThreadID \<Rightarrow> BPredUnit \<Rightarrow> (bool \<times> PCState \<times> BPredUnit) res" where
  "bp_predict inst pc tid u =
     bindE
       (if bi_isUncondCtrl inst then (let (h, p) = BPUncond (bu_predictor u) in Inr (True, h, p))
        else BPLookup (instAddr pc) (bu_predictor u))
       (\<lambda>(pred_taken, bp_history, p).
     bindE (at_int (bu_RAS u) tid) (\<lambda>r.
     bindE (at_int (predHist u) tid) (\<lambda>hist.
     let record = PredictorHistory_ctor (bi_seqNum inst) (instAddr pc) pred_taken bp_history tid
     in bindE
       (if pred_taken then
          (if bi_isReturn inst then
             bindE (predict_return record pc r) (\<lambda>(target, record, r). Inr (True, target, record, r, p))
           else predict_target inst record pc tid (bu_BTB u) r p)
        else Inr (False, PCState_advance pc,
          (if bi_isReturn inst then record\<lparr>ph_wasReturn := True\<rparr> else record), r, p))
       (\<lambda>(taken, target, record, r, p).
         Inr (taken, target, u\<lparr>bu_predictor := p, bu_RAS := (bu_RAS u)[nat tid := r],
           predHist := (predHist u)[nat tid := record # hist]\<rparr>)))))"

subsection \<open>Commit\<close>

text \<open>The oldest predictions, at the end of the list, up to a sequence number.\<close>

function update_walk :: "u64 \<Rightarrow> PredictorHistory list \<Rightarrow> predictor \<Rightarrow> (PredictorHistory list \<times> predictor) res" where
  "update_walk done_sn hist p =
     (if hist \<noteq> [] \<and> ph_seqNum (last hist) \<le> done_sn then
        bindE (BPUpdate (ph_pc (last hist)) (ph_predTaken (last hist)) (ph_bpHistory (last hist)) False p) (\<lambda>p.
          update_walk done_sn (butlast hist) p)
      else Inr (hist, p))"
  by pat_completeness auto
termination
  by (relation "measure (\<lambda>(_, hist, _). length hist)") auto

definition bp_update :: "u64 \<Rightarrow> ThreadID \<Rightarrow> BPredUnit \<Rightarrow> BPredUnit res" where
  "bp_update done_sn tid u =
     bindE (at_int (predHist u) tid) (\<lambda>hist.
     bindE (update_walk done_sn hist (bu_predictor u)) (\<lambda>(hist, p).
       Inr (u\<lparr>bu_predictor := p, predHist := (predHist u)[nat tid := hist]\<rparr>)))"

subsection \<open>Squash\<close>

text \<open>What a squash of a prediction does to the return address stack.\<close>

definition squash_ras :: "PredictorHistory \<Rightarrow> ReturnAddrStack \<Rightarrow> ReturnAddrStack res" where
  "squash_ras h r =
     (if ph_usedRAS h then RAS_restore (ph_RASIndex h) (ph_RASTarget h) r
      else if ph_wasCall h \<and> ph_validBTB h then Inr (RAS_pop r)
      else Inr r)"

fun squash_walk :: "u64 \<Rightarrow> PredictorHistory list \<Rightarrow> ReturnAddrStack \<Rightarrow> predictor \<Rightarrow>
  (PredictorHistory list \<times> ReturnAddrStack \<times> predictor) res" where
  "squash_walk sn [] r p = Inr ([], r, p)"
| "squash_walk sn (h # hist) r p =
     (if ph_seqNum h > sn then
        bindE (squash_ras h r) (\<lambda>r.
        bindE (BPSquash (ph_bpHistory h) p) (\<lambda>p. squash_walk sn hist r p))
      else Inr (h # hist, r, p))"

definition bp_squash :: "u64 \<Rightarrow> ThreadID \<Rightarrow> BPredUnit \<Rightarrow> BPredUnit res" where
  "bp_squash sn tid u =
     bindE (at_int (predHist u) tid) (\<lambda>hist.
     bindE (at_int (bu_RAS u) tid) (\<lambda>r.
     bindE (squash_walk sn hist r (bu_predictor u)) (\<lambda>(hist, r, p).
       Inr (u\<lparr>bu_predictor := p, bu_RAS := (bu_RAS u)[nat tid := r], predHist := (predHist u)[nat tid := hist]\<rparr>))))"

definition bp_switchOut :: "BPredUnit \<Rightarrow> BPredUnit res" where
  "bp_switchOut u = foldE (\<lambda>i. bp_squash 0 (int i)) [0..<MaxThreads] u"

text \<open>The branch with the squashed number itself was mispredicted.\<close>

definition resolve_ras :: "bool \<Rightarrow> PredictorHistory \<Rightarrow> ReturnAddrStack \<Rightarrow> ReturnAddrStack res" where
  "resolve_ras actually_taken h r =
     (if actually_taken then (if ph_wasReturn h \<and> \<not> ph_usedRAS h then Inr (RAS_pop r) else Inr r)
      else squash_ras h r)"

definition bp_squash_mispredicted :: "u64 \<Rightarrow> PCState \<Rightarrow> bool \<Rightarrow> ThreadID \<Rightarrow> BPredUnit \<Rightarrow> BPredUnit res" where
  "bp_squash_mispredicted sn corrTarget actually_taken tid u =
     bindE (bp_squash sn tid u) (\<lambda>u.
     bindE (at_int (predHist u) tid) (\<lambda>hist.
     bindE (at_int (bu_RAS u) tid) (\<lambda>r.
       case hist of [] \<Rightarrow> Inr u
       | h # rest \<Rightarrow>
           bindE (assertE (ph_seqNum h = sn)) (\<lambda>_.
           bindE (BPUpdate (ph_pc h) actually_taken (ph_bpHistory h) True (bu_predictor u)) (\<lambda>p.
           bindE (resolve_ras actually_taken h r) (\<lambda>r.
           bindE (if actually_taken then BTB_update (ph_pc h) corrTarget tid (bu_BTB u) else Inr (bu_BTB u)) (\<lambda>b.
             Inr (u\<lparr>bu_predictor := p, bu_BTB := b, bu_RAS := (bu_RAS u)[nat tid := r],
               predHist := (predHist u)[nat tid := rest]\<rparr>))))))))"

declare update_walk.simps [simp del]

section \<open>The direction predictor of the unit\<close>

definition predictor_wf :: "predictor \<Rightarrow> bool" where
  "predictor_wf p = (case p of Local l \<Rightarrow> LocalBP_wf l | Tournament t \<Rightarrow> TournamentBP_wf t)"

definition predictor_owns :: "predictor \<Rightarrow> BPHistory option \<Rightarrow> bool" where
  "predictor_owns p = (case p of Local l \<Rightarrow> \<lambda>h. h = None | Tournament t \<Rightarrow> TournamentBP_owns t)"

definition global_view :: "predictor \<Rightarrow> u32 option" where
  "global_view p = (case p of Local l \<Rightarrow> None | Tournament t \<Rightarrow> Some (globalHistory t))"

definition counter_tables :: "predictor \<Rightarrow> SatCounter list list" where
  "counter_tables p = (case p of Local l \<Rightarrow> [lb_localCtrs l] | Tournament t \<Rightarrow> TournamentBP_tables t)"

lemmas predictor_defs = predictor_wf_def predictor_owns_def global_view_def counter_tables_def

text \<open>The dispatch keeps the contract of the two predictors.\<close>

interpretation unit_predictor: direction_predictor predictor_wf predictor_owns BPLookup BPUncond BPBTBUpdate BPSquash BPUpdate
  global_view "map_option bh_globalHistory :: BPHistory option \<Rightarrow> u32 option" counter_tables
proof unfold_locales
  fix p a h t s
  assume wf: "predictor_wf p"
  show "\<exists>b h p'. BPLookup a p = Inr (b, h, p') \<and> predictor_wf p' \<and> predictor_owns p' = predictor_owns p \<and>
      counter_tables p' = counter_tables p \<and> predictor_owns p h \<and> map_option bh_globalHistory h = global_view p"
  proof (cases p)
    case (Local l)
    with wf local_predictor.lookup_ok [of l a] show ?thesis by (auto simp: BPLookup_def predictor_defs bindE_eq_Inr)
  next
    case (Tournament x)
    with wf tournament_predictor.lookup_ok [of x a] show ?thesis by (auto simp: BPLookup_def predictor_defs)
  qed
  show "\<exists>h p'. BPUncond p = (h, p') \<and> predictor_wf p' \<and> predictor_owns p' = predictor_owns p \<and>
      counter_tables p' = counter_tables p \<and> predictor_owns p h \<and> map_option bh_globalHistory h = global_view p"
  proof (cases p)
    case (Tournament x)
    with wf tournament_predictor.uncond_ok [of x] show ?thesis by (auto simp: BPUncond_def predictor_defs)
  qed (use wf in \<open>simp add: BPUncond_def predictor_defs\<close>)
  show "\<exists>p'. BPBTBUpdate a p = Inr p' \<and> predictor_wf p' \<and> predictor_owns p' = predictor_owns p \<and> counter_tables p' = counter_tables p"
  proof (cases p)
    case (Tournament x)
    with wf tournament_predictor.miss_ok [of x a] show ?thesis by (auto simp: BPBTBUpdate_def predictor_defs)
  qed (use wf in \<open>simp add: BPBTBUpdate_def predictor_defs\<close>)
  assume h: "predictor_owns p h"
  show "\<exists>p'. BPSquash h p = Inr p' \<and> predictor_wf p' \<and> predictor_owns p' = predictor_owns p \<and>
      counter_tables p' = counter_tables p \<and> global_view p' = map_option bh_globalHistory h"
  proof (cases p)
    case (Local l)
    with wf h local_predictor.squash_ok [of l h] show ?thesis by (auto simp: BPSquash_def predictor_defs)
  next
    case (Tournament x)
    with wf h tournament_predictor.squash_ok [of x h] show ?thesis by (auto simp: BPSquash_def predictor_defs)
  qed
  show "\<exists>p'. BPUpdate a t h s p = Inr p' \<and> predictor_wf p' \<and> predictor_owns p' = predictor_owns p"
  proof (cases p)
    case (Local l)
    with wf h local_predictor.train_ok [of l h a t] show ?thesis by (auto simp: BPUpdate_def predictor_defs)
  next
    case (Tournament x)
    with wf h tournament_predictor.train_ok [of x h a t s] show ?thesis by (auto simp: BPUpdate_def predictor_defs)
  qed
qed

definition predictor_kept :: "predictor \<Rightarrow> predictor \<Rightarrow> bool" where
  "predictor_kept p p' \<longleftrightarrow> predictor_wf p' \<and> predictor_owns p' = predictor_owns p \<and> counter_tables p' = counter_tables p"

lemma predictor_kept_trans: "predictor_kept p p' \<Longrightarrow> predictor_kept p' p'' \<Longrightarrow> predictor_kept p p''"
  by (simp add: predictor_kept_def)

section \<open>What one prediction does\<close>

text \<open>
  A prediction with record \<open>h\<close> turned the stack \<open>r\<close> into \<open>r'\<close>. Its squash goes back from any stack that
  agrees with \<open>r'\<close> in its \<open>d\<close> top entries to one that agrees with \<open>r\<close> in \<open>d - c\<close>.
\<close>

definition undoes :: "nat \<Rightarrow> PredictorHistory \<Rightarrow> ReturnAddrStack \<Rightarrow> ReturnAddrStack \<Rightarrow> bool" where
  "undoes c h r r' \<longleftrightarrow> (\<forall>d s. RAS_wf s \<longrightarrow> ras_agree d s r' \<longrightarrow> d \<le> unat (ra_numEntries r) \<longrightarrow>
     (\<exists>q. squash_ras h s = Inr q \<and> RAS_wf q \<and> ras_agree (d - c) q r))"

definition recorded :: "PredictorHistory \<Rightarrow> PredictorHistory \<Rightarrow> ReturnAddrStack \<Rightarrow> ReturnAddrStack \<Rightarrow> bool" where
  "recorded h0 h r r' \<longleftrightarrow> ph_seqNum h = ph_seqNum h0 \<and> ph_bpHistory h = ph_bpHistory h0 \<and> RAS_wf r' \<and>
     ra_numEntries r' = ra_numEntries r \<and> (ph_usedRAS h \<longrightarrow> ph_RASIndex h < ra_numEntries r)"

lemma undoes_none: "\<not> ph_usedRAS h \<Longrightarrow> \<not> (ph_wasCall h \<and> ph_validBTB h) \<Longrightarrow> undoes 0 h r r"
  by (auto simp: undoes_def squash_ras_def)

lemma undoes_mono: "undoes 0 h r r' \<Longrightarrow> undoes c h r r'"
  unfolding undoes_def ras_agree_def by fastforce

lemma predict_return_ok:
  assumes r: "RAS_wf r" "ra_numEntries r \<le> 16"
  shows "\<exists>target h r'. predict_return h0 pc r = Inr (target, h, r') \<and> recorded h0 h r r' \<and> undoes 0 h r r'"
proof -
  have t: "tos r < ra_numEntries r" "unat (tos r) < length (addrStack r)" "tos r < 16"
    using r by (auto simp: RAS_wf_def word_less_nat_alt word_le_nat_alt)
  let ?h = "h0\<lparr>ph_wasReturn := True, ph_usedRAS := True, ph_RASIndex := tos r, ph_RASTarget := slot r 0\<rparr>"
  have top: "RAS_top r = Inr (slot r 0)" using t by (simp add: RAS_top_def slot_def word_less_nat_alt)
  have "predict_return h0 pc r = Inr (buildRetPC pc (slot r 0), ?h, RAS_pop r)"
    using t top by (simp add: predict_return_def topIdx_def)
  moreover have "recorded h0 ?h r (RAS_pop r)" using RAS_pop_ok [OF r(1)] t by (simp add: recorded_def)
  moreover have "undoes 0 ?h r (RAS_pop r)"
    using ras_agree_return [OF r(1)] by (simp add: undoes_def squash_ras_def)
  ultimately show ?thesis by blast
qed

text \<open>An unconditional call has its target in the buffer.\<close>

definition call_hits :: "DefaultBTB \<Rightarrow> ThreadID \<Rightarrow> BranchInst \<Rightarrow> PCState \<Rightarrow> bool" where
  "call_hits b tid inst pc \<longleftrightarrow>
     (bi_isCall inst \<and> bi_isUncondCtrl inst \<and> \<not> bi_isReturn inst \<longrightarrow> BTB_valid (instAddr pc) tid b = Inr True)"

lemma predict_target_ok:
  assumes r: "RAS_wf r" and b: "BTB_wf b" and p: "predictor_wf p"
    and h0: "\<not> ph_usedRAS h0" "\<not> ph_wasCall h0" "\<not> ph_validBTB h0" and nr: "\<not> bi_isReturn inst"
  shows "\<exists>taken target h r' p'. predict_target inst h0 pc tid b r p = Inr (taken, target, h, r', p') \<and> recorded h0 h r r' \<and>
    predictor_kept p p' \<and> (call_hits b tid inst pc \<longrightarrow> undoes (if bi_isCall inst then 1 else 0) h r r')"
proof -
  obtain v where v: "BTB_find (instAddr pc) tid b = Inr v" using BTB_find_ok [OF b] by blast
  have valid: "BTB_valid (instAddr pc) tid b = Inr (v \<noteq> None)" using v by (simp add: BTB_valid_def)
  obtain p' where p': "BPBTBUpdate (instAddr pc) p = Inr p'" "predictor_kept p p'" "predictor_kept p p"
    using unit_predictor.miss_ok [OF p, of "instAddr pc"] p by (auto simp: predictor_kept_def)
  show ?thesis
  proof (cases "bi_isCall inst")
    case False
    have "undoes 0 h0 r r" "undoes 0 (h0\<lparr>ph_validBTB := True\<rparr>) r r" using h0 by (simp_all add: undoes_none)
    then show ?thesis
      using False nr valid v p' h0 r by (cases v) (auto simp: predict_target_def BTB_lookup_def recorded_def)
  next
    case True
    obtain s where s: "RAS_push pc r = Inr s" "RAS_wf s" "ra_numEntries s = ra_numEntries r"
      using RAS_push_ok [OF r, of pc] by blast
    let ?h = "h0\<lparr>ph_wasCall := True\<rparr>"
    have hit: "undoes 1 (?h\<lparr>ph_validBTB := True\<rparr>) r s"
      using ras_agree_call [OF r _ s(1)] RAS_pop_ok(1) h0 by (simp add: undoes_def squash_ras_def)
    have lost: "undoes 1 ?h r (RAS_pop s)"
      using ras_agree_lost [OF r s(1)] h0 by (simp add: undoes_def squash_ras_def)
    show ?thesis
    proof (cases v)
      case None
      then show ?thesis
        using True valid v s h0 p' lost RAS_pop_ok [OF s(2)] nr
        by (cases "bi_isUncondCtrl inst") (auto simp: predict_target_def recorded_def call_hits_def)
    next
      case (Some e)
      then show ?thesis
        using True valid v s h0 p' hit by (auto simp: predict_target_def BTB_lookup_def recorded_def)
    qed
  qed
qed

section \<open>The invariant of the unit\<close>

definition record_wf :: "predictor \<Rightarrow> ReturnAddrStack \<Rightarrow> PredictorHistory \<Rightarrow> bool" where
  "record_wf p r h \<longleftrightarrow> predictor_owns p (ph_bpHistory h) \<and> (ph_usedRAS h \<longrightarrow> ph_RASIndex h < ra_numEntries r)"

definition unit_wf :: "BPredUnit \<Rightarrow> bool" where
  "unit_wf u \<longleftrightarrow> predictor_wf (bu_predictor u) \<and> BTB_wf (bu_BTB u) \<and>
     length (bu_RAS u) = MaxThreads \<and> length (predHist u) = MaxThreads \<and>
     (\<forall>i < MaxThreads. RAS_wf (bu_RAS u ! i) \<and> ra_numEntries (bu_RAS u ! i) \<le> 16 \<and>
        (\<forall>h\<in>set (predHist u ! i). record_wf (bu_predictor u) (bu_RAS u ! i) h))"

definition thread_ok :: "ThreadID \<Rightarrow> bool" where
  "thread_ok tid \<longleftrightarrow> 0 \<le> tid \<and> tid < int MaxThreads"

lemma unit_wfD:
  assumes "unit_wf u" "thread_ok tid"
  shows "predictor_wf (bu_predictor u)" "BTB_wf (bu_BTB u)" "nat tid < length (bu_RAS u)" "nat tid < length (predHist u)"
    "at_int (bu_RAS u) tid = Inr (bu_RAS u ! nat tid)" "at_int (predHist u) tid = Inr (predHist u ! nat tid)"
    "RAS_wf (bu_RAS u ! nat tid)" "ra_numEntries (bu_RAS u ! nat tid) \<le> 16"
    "\<And>h. h \<in> set (predHist u ! nat tid) \<Longrightarrow> record_wf (bu_predictor u) (bu_RAS u ! nat tid) h"
proof -
  have t: "0 \<le> tid" "nat tid < MaxThreads" using assms(2) by (auto simp: thread_ok_def)
  then show "predictor_wf (bu_predictor u)" "BTB_wf (bu_BTB u)" "nat tid < length (bu_RAS u)" "nat tid < length (predHist u)"
    "at_int (bu_RAS u) tid = Inr (bu_RAS u ! nat tid)" "at_int (predHist u) tid = Inr (predHist u ! nat tid)"
    "RAS_wf (bu_RAS u ! nat tid)" "ra_numEntries (bu_RAS u ! nat tid) \<le> 16"
    "\<And>h. h \<in> set (predHist u ! nat tid) \<Longrightarrow> record_wf (bu_predictor u) (bu_RAS u ! nat tid) h"
    using assms(1) by (auto simp: unit_wf_def at_int_def)
qed

text \<open>The invariant after an operation on one thread.\<close>

abbreviation with_thread :: "ThreadID \<Rightarrow> predictor \<Rightarrow> ReturnAddrStack \<Rightarrow> PredictorHistory list \<Rightarrow> BPredUnit \<Rightarrow> BPredUnit" where
  "with_thread tid p r hist u \<equiv>
     u\<lparr>bu_predictor := p, bu_RAS := (bu_RAS u)[nat tid := r], predHist := (predHist u)[nat tid := hist]\<rparr>"

lemma unit_wf_thread:
  assumes "unit_wf u" "thread_ok tid" "predictor_wf p" "predictor_owns p = predictor_owns (bu_predictor u)"
    "RAS_wf r" "ra_numEntries r = ra_numEntries (bu_RAS u ! nat tid)" "\<And>h. h \<in> set hist \<Longrightarrow> record_wf p r h"
  shows "unit_wf (with_thread tid p r hist u)"
proof -
  let ?u = "with_thread tid p r hist u"
  have "RAS_wf (bu_RAS ?u ! i) \<and> ra_numEntries (bu_RAS ?u ! i) \<le> 16 \<and> (\<forall>h\<in>set (predHist ?u ! i). record_wf p (bu_RAS ?u ! i) h)"
    if i: "i < MaxThreads" for i
  proof (cases "i = nat tid")
    case True
    then show ?thesis using assms(5-7) unit_wfD(3,4,8) [OF assms(1,2)] by simp
  next
    case False
    then show ?thesis using assms(1,4) i by (auto simp: unit_wf_def record_wf_def)
  qed
  then show ?thesis using assms(1,3) by (simp add: unit_wf_def)
qed

subsection \<open>Prediction\<close>

lemma bp_predict_ok:
  assumes u: "unit_wf u" "thread_ok tid"
  shows "\<exists>taken target h r p. bp_predict inst pc tid u = Inr (taken, target, with_thread tid p r (h # predHist u ! nat tid) u) \<and>
    predictor_kept (bu_predictor u) p \<and> predictor_owns p (ph_bpHistory h) \<and>
    map_option bh_globalHistory (ph_bpHistory h) = global_view (bu_predictor u) \<and> ph_seqNum h = bi_seqNum inst \<and>
    RAS_wf r \<and> ra_numEntries r = ra_numEntries (bu_RAS u ! nat tid) \<and> record_wf p r h \<and>
    (call_hits (bu_BTB u) tid inst pc \<longrightarrow> undoes (if bi_isCall inst then 1 else 0) h (bu_RAS u ! nat tid) r)"
proof -
  note d = unit_wfD [OF u]
  let ?p = "bu_predictor u" and ?r = "bu_RAS u ! nat tid" and ?hist = "predHist u ! nat tid"
  obtain b bh p where p: "(if bi_isUncondCtrl inst then (let (h, p) = BPUncond ?p in Inr (True, h, p))
        else BPLookup (instAddr pc) ?p) = Inr (b, bh, p)" "predictor_kept ?p p" "predictor_owns ?p bh" "map_option bh_globalHistory bh = global_view ?p"
    using unit_predictor.lookup_ok [OF d(1), of "instAddr pc"] unit_predictor.uncond_ok [OF d(1)]
    by (cases "bi_isUncondCtrl inst") (auto simp: predictor_kept_def)
  let ?h0 = "PredictorHistory_ctor (bi_seqNum inst) (instAddr pc) b bh tid"
  have h0: "\<not> ph_usedRAS ?h0" "\<not> ph_wasCall ?h0" "\<not> ph_validBTB ?h0" "ph_bpHistory ?h0 = bh" "ph_seqNum ?h0 = bi_seqNum inst"
    by (simp_all add: PredictorHistory_ctor_def)
  have wf: "predictor_wf p" "predictor_kept p p" using p(2) by (simp_all add: predictor_kept_def)
  let ?X = "if b then (if bi_isReturn inst then
             bindE (predict_return ?h0 pc ?r) (\<lambda>(target, record, r). Inr (True, target, record, r, p))
           else predict_target inst ?h0 pc tid (bu_BTB u) ?r p)
        else Inr (False, PCState_advance pc, (if bi_isReturn inst then ?h0\<lparr>ph_wasReturn := True\<rparr> else ?h0), ?r, p)"
  have "\<exists>taken target h r p'. ?X = Inr (taken, target, h, r, p') \<and> recorded ?h0 h ?r r \<and> predictor_kept p p' \<and>
      (call_hits (bu_BTB u) tid inst pc \<longrightarrow> undoes (if bi_isCall inst then 1 else 0) h ?r r)"
  proof (cases b)
    case False
    have "undoes 0 ?h0 ?r ?r" "undoes 0 (?h0\<lparr>ph_wasReturn := True\<rparr>) ?r ?r" using h0 by (simp_all add: undoes_none)
    then show ?thesis
      using False d(7) wf(2) h0 undoes_mono by (auto simp: recorded_def)
  next
    case True
    show ?thesis
    proof (cases "bi_isReturn inst")
      case ret: True
      obtain target h r where "predict_return ?h0 pc ?r = Inr (target, h, r)" "recorded ?h0 h ?r r" "undoes 0 h ?r r"
        using predict_return_ok [OF d(7,8)] by blast
      then show ?thesis using True ret wf(2) undoes_mono by auto
    next
      case False
      with predict_target_ok [OF d(7,2) wf(1) h0(1-3) False] True show ?thesis by simp
    qed
  qed
  then obtain taken target h r p' where X: "?X = Inr (taken, target, h, r, p')" "recorded ?h0 h ?r r" "predictor_kept p p'"
      "call_hits (bu_BTB u) tid inst pc \<longrightarrow> undoes (if bi_isCall inst then 1 else 0) h ?r r" by blast
  have "bp_predict inst pc tid u = Inr (taken, target, with_thread tid p' r (h # ?hist) u)"
    unfolding bp_predict_def p(1) using d(5,6) X(1) by (simp add: Let_def)
  moreover have "predictor_kept ?p p'" using predictor_kept_trans [OF p(2) X(3)] .
  moreover have "record_wf p' r h" "predictor_owns p' (ph_bpHistory h)"
    using X(2,3) p(2,3) h0(4) by (simp_all add: record_wf_def recorded_def predictor_kept_def)
  moreover have "map_option bh_globalHistory (ph_bpHistory h) = global_view ?p" "ph_seqNum h = bi_seqNum inst"
    "RAS_wf r" "ra_numEntries r = ra_numEntries ?r"
    using X(2) h0(4,5) p(4) by (simp_all add: recorded_def)
  ultimately show ?thesis using X(4) by blast
qed

subsection \<open>Squash\<close>

lemma squash_ras_ok:
  assumes "RAS_wf r" "ph_usedRAS h \<longrightarrow> ph_RASIndex h < ra_numEntries r"
  shows "\<exists>r'. squash_ras h r = Inr r' \<and> RAS_wf r' \<and> ra_numEntries r' = ra_numEntries r"
  using RAS_restore_ok [OF assms(1), of "ph_RASIndex h" "ph_RASTarget h"] RAS_pop_ok [OF assms(1)] assms
  by (auto simp: squash_ras_def)

lemma squash_walk_ok:
  assumes "RAS_wf r" "predictor_wf p" "\<And>h. h \<in> set hist \<Longrightarrow> record_wf p r h"
  shows "\<exists>r' p'. squash_walk sn hist r p = Inr (dropWhile (\<lambda>h. ph_seqNum h > sn) hist, r', p') \<and> RAS_wf r' \<and>
    ra_numEntries r' = ra_numEntries r \<and> predictor_kept p p'"
  using assms
proof (induction hist arbitrary: r p)
  case (Cons h hist)
  have "record_wf p r h" using Cons.prems(3) by simp
  then obtain r1 p1 where 1: "squash_ras h r = Inr r1" "RAS_wf r1" "ra_numEntries r1 = ra_numEntries r"
      "BPSquash (ph_bpHistory h) p = Inr p1" "predictor_kept p p1"
    using squash_ras_ok [OF Cons.prems(1)] unit_predictor.squash_ok [OF Cons.prems(2)]
    unfolding record_wf_def predictor_kept_def by metis
  have "record_wf p1 r1 h'" if "h' \<in> set hist" for h'
    using Cons.prems(3) that 1(3,5) by (simp add: record_wf_def predictor_kept_def)
  then obtain r' p' where "squash_walk sn hist r1 p1 = Inr (dropWhile (\<lambda>h. ph_seqNum h > sn) hist, r', p')" "RAS_wf r'"
      "ra_numEntries r' = ra_numEntries r1" "predictor_kept p1 p'"
    using Cons.IH [OF 1(2)] 1(5) unfolding predictor_kept_def by blast
  then show ?case using 1 Cons.prems predictor_kept_trans by (auto simp: predictor_kept_def)
qed (simp add: predictor_kept_def)

lemma bp_squash_ok:
  assumes u: "unit_wf u" "thread_ok tid"
  shows "\<exists>r p. bp_squash sn tid u = Inr (with_thread tid p r (dropWhile (\<lambda>h. ph_seqNum h > sn) (predHist u ! nat tid)) u) \<and>
    unit_wf (with_thread tid p r (dropWhile (\<lambda>h. ph_seqNum h > sn) (predHist u ! nat tid)) u) \<and> predictor_kept (bu_predictor u) p"
proof -
  note d = unit_wfD [OF u]
  let ?hist = "dropWhile (\<lambda>h. ph_seqNum h > sn) (predHist u ! nat tid)"
  obtain r p where 1: "squash_walk sn (predHist u ! nat tid) (bu_RAS u ! nat tid) (bu_predictor u) = Inr (?hist, r, p)" "RAS_wf r"
      "ra_numEntries r = ra_numEntries (bu_RAS u ! nat tid)" "predictor_kept (bu_predictor u) p"
    using squash_walk_ok [OF d(7,1,9)] by blast
  have "record_wf p r h" if "h \<in> set ?hist" for h
    using d(9) [OF set_dropWhileD [OF that]] 1(3,4) by (simp add: record_wf_def predictor_kept_def)
  then have "unit_wf (with_thread tid p r ?hist u)"
    using unit_wf_thread [OF u, of p r ?hist] 1(2-4) by (simp add: predictor_kept_def)
  moreover have "bp_squash sn tid u = Inr (with_thread tid p r ?hist u)" using d(5,6) 1(1) by (simp add: bp_squash_def)
  ultimately show ?thesis using 1(4) by blast
qed

subsection \<open>Commit and misprediction\<close>

lemma update_walk_ok:
  assumes "predictor_wf p" "\<And>h. h \<in> set hist \<Longrightarrow> predictor_owns p (ph_bpHistory h)"
  shows "\<exists>k p'. update_walk sn hist p = Inr (take k hist, p') \<and> predictor_wf p' \<and> predictor_owns p' = predictor_owns p"
  using assms
proof (induction hist arbitrary: p rule: rev_induct)
  case Nil
  then show ?case by (subst update_walk.simps) auto
next
  case (snoc h hist)
  show ?case
  proof (cases "ph_seqNum h \<le> sn")
    case True
    obtain p1 where p1: "BPUpdate (ph_pc h) (ph_predTaken h) (ph_bpHistory h) False p = Inr p1" "predictor_wf p1"
        "predictor_owns p1 = predictor_owns p"
      using unit_predictor.train_ok [OF snoc.prems(1)] snoc.prems(2) by (metis in_set_conv_decomp)
    then obtain k p' where "update_walk sn hist p1 = Inr (take k hist, p')" "predictor_wf p'" "predictor_owns p' = predictor_owns p1"
      using snoc.IH [OF p1(2)] snoc.prems(2) by auto
    then have "update_walk sn (hist @ [h]) p = Inr (take (min k (length hist)) (hist @ [h]), p')"
      using True p1(1) by (subst update_walk.simps) (simp add: min_def)
    moreover have "predictor_owns p' = predictor_owns p" using p1(3) \<open>predictor_owns p' = predictor_owns p1\<close> by simp
    ultimately show ?thesis using \<open>predictor_wf p'\<close> by blast
  next
    case False
    then have "update_walk sn (hist @ [h]) p = Inr (take (Suc (length hist)) (hist @ [h]), p)"
      by (subst update_walk.simps) simp
    then show ?thesis using snoc.prems(1) by blast
  qed
qed

lemma bp_update_ok:
  assumes u: "unit_wf u" "thread_ok tid"
  shows "\<exists>u'. bp_update sn tid u = Inr u' \<and> unit_wf u'"
proof -
  note d = unit_wfD [OF u]
  obtain k p where 1: "update_walk sn (predHist u ! nat tid) (bu_predictor u) = Inr (take k (predHist u ! nat tid), p)"
      "predictor_wf p" "predictor_owns p = predictor_owns (bu_predictor u)"
    using update_walk_ok [OF d(1)] d(9) by (metis record_wf_def)
  let ?hist = "take k (predHist u ! nat tid)"
  have "record_wf p (bu_RAS u ! nat tid) h" if "h \<in> set ?hist" for h
    using d(9) [OF in_set_takeD [OF that]] 1(3) by (simp add: record_wf_def)
  then have "unit_wf (with_thread tid p (bu_RAS u ! nat tid) ?hist u)"
    using unit_wf_thread [OF u 1(2,3) d(7)] by simp
  moreover have "bp_update sn tid u = Inr (with_thread tid p (bu_RAS u ! nat tid) ?hist u)"
    using d(3,6) 1(1) by (simp add: bp_update_def)
  ultimately show ?thesis by blast
qed

lemma resolve_ras_ok:
  assumes "RAS_wf r" "ph_usedRAS h \<longrightarrow> ph_RASIndex h < ra_numEntries r"
  shows "\<exists>r'. resolve_ras taken h r = Inr r' \<and> RAS_wf r' \<and> ra_numEntries r' = ra_numEntries r"
  using squash_ras_ok [OF assms] RAS_pop_ok [OF assms(1)] assms(1) by (simp add: resolve_ras_def)

text \<open>A misprediction aborts only when the squashed number is not that of the youngest branch left.\<close>

lemma bp_squash_mispredicted_ok:
  assumes u: "unit_wf u" "thread_ok tid"
  shows "case dropWhile (\<lambda>h. ph_seqNum h > sn) (predHist u ! nat tid) of
      [] \<Rightarrow> \<exists>u'. bp_squash_mispredicted sn target taken tid u = Inr u' \<and> unit_wf u'
    | h # hist \<Rightarrow> if ph_seqNum h = sn then \<exists>u'. bp_squash_mispredicted sn target taken tid u = Inr u' \<and> unit_wf u' \<and>
          predHist u' ! nat tid = hist
        else bp_squash_mispredicted sn target taken tid u = Inl AssertFail"
proof -
  let ?hist = "dropWhile (\<lambda>h. ph_seqNum h > sn) (predHist u ! nat tid)"
  obtain r p where s: "bp_squash sn tid u = Inr (with_thread tid p r ?hist u)" "unit_wf (with_thread tid p r ?hist u)"
    using bp_squash_ok [OF u] by blast
  define v where "v = with_thread tid p r ?hist u"
  have v: "unit_wf v" "predHist v ! nat tid = ?hist" "bp_squash sn tid u = Inr v"
    using s unit_wfD(4) [OF u] by (simp_all add: v_def)
  note d = unit_wfD [OF v(1) u(2)]
  show ?thesis
  proof (cases ?hist)
    case Nil
    have "bp_squash_mispredicted sn target taken tid u = Inr v"
      using v(2,3) d(5,6) unfolding Nil by (simp add: bp_squash_mispredicted_def)
    then show ?thesis unfolding Nil using v(1) by simp
  next
    case (Cons h hist)
    have hw: "record_wf (bu_predictor v) (bu_RAS v ! nat tid) h'" if "h' \<in> set (h # hist)" for h'
      using d(9) v(2) Cons that by simp
    show ?thesis
    proof (cases "ph_seqNum h = sn")
      case False
      then show ?thesis using Cons v d(5,6) by (simp add: bp_squash_mispredicted_def)
    next
      case True
      obtain p' where p': "BPUpdate (ph_pc h) taken (ph_bpHistory h) True (bu_predictor v) = Inr p'" "predictor_wf p'"
          "predictor_owns p' = predictor_owns (bu_predictor v)"
        using unit_predictor.train_ok [OF d(1)] hw [of h] by (metis list.set_intros(1) record_wf_def)
      obtain r' where r': "resolve_ras taken h (bu_RAS v ! nat tid) = Inr r'" "RAS_wf r'" "ra_numEntries r' = ra_numEntries (bu_RAS v ! nat tid)"
        using resolve_ras_ok [OF d(7)] hw [of h] by (auto simp: record_wf_def)
      obtain b' where b': "(if taken then BTB_update (ph_pc h) target tid (bu_BTB v) else Inr (bu_BTB v)) = Inr b'" "BTB_wf b'"
        using BTB_update_ok [OF d(2)] d(2) by (cases taken) fastforce+
      have "record_wf p' r' h'" if "h' \<in> set hist" for h'
        using hw [of h'] that p'(3) r'(3) by (simp add: record_wf_def)
      then have "unit_wf (with_thread tid p' r' hist v)" using unit_wf_thread [OF v(1) u(2) p'(2,3) r'(2,3)] by blast
      then have "unit_wf ((with_thread tid p' r' hist v)\<lparr>bu_BTB := b'\<rparr>)" using b'(2) by (simp add: unit_wf_def)
      moreover have "bp_squash_mispredicted sn target taken tid u = Inr ((with_thread tid p' r' hist v)\<lparr>bu_BTB := b'\<rparr>)"
        using v(2,3) d(5,6) Cons True p'(1) r'(1) b'(1) by (simp add: bp_squash_mispredicted_def)
      ultimately show ?thesis using Cons True d(4) by auto
    qed
  qed
qed

section \<open>Undoing speculation\<close>

definition predict_all :: "ThreadID \<Rightarrow> (BranchInst \<times> PCState) list \<Rightarrow> BPredUnit \<Rightarrow> BPredUnit res" where
  "predict_all tid = foldE (\<lambda>(inst, pc) u. bindE (bp_predict inst pc tid u) (\<lambda>(_, _, u). Inr u))"

definition calls :: "(BranchInst \<times> PCState) list \<Rightarrow> nat" where
  "calls brs = length (filter (\<lambda>(inst, _). bi_isCall inst) brs)"

text \<open>The predictions leave records \<open>hs\<close>, the youngest first, that squash back to the start.\<close>

lemma predict_all_ok:
  assumes "unit_wf u" "thread_ok tid" "\<forall>(inst, pc)\<in>set brs. call_hits (bu_BTB u) tid inst pc"
  shows "\<exists>hs r p. predict_all tid brs u = Inr (with_thread tid p r (hs @ predHist u ! nat tid) u) \<and>
    unit_wf (with_thread tid p r (hs @ predHist u ! nat tid) u) \<and> predictor_kept (bu_predictor u) p \<and>
    map ph_seqNum hs = rev (map (bi_seqNum \<circ> fst) brs) \<and>
    (hs \<noteq> [] \<longrightarrow> map_option bh_globalHistory (ph_bpHistory (last hs)) = global_view (bu_predictor u)) \<and>
    (\<forall>d s. RAS_wf s \<longrightarrow> ras_agree d s r \<longrightarrow> d \<le> unat (ra_numEntries (bu_RAS u ! nat tid)) \<longrightarrow>
      (\<exists>q. foldE squash_ras hs s = Inr q \<and> RAS_wf q \<and> ras_agree (d - calls brs) q (bu_RAS u ! nat tid)))"
  using assms
proof (induction brs arbitrary: u)
  case Nil
  then show ?case
    using unit_wfD(3,4) [OF Nil.prems(1,2)]
    by (intro exI [of _ "[]"] exI [of _ "bu_RAS u ! nat tid"] exI [of _ "bu_predictor u"])
      (simp add: predict_all_def predictor_kept_def calls_def unit_wfD(1))
next
  case (Cons br brs)
  obtain inst pc where br: "br = (inst, pc)" by (cases br)
  note d = unit_wfD [OF Cons.prems(1,2)]
  let ?c = "if bi_isCall inst then 1 else 0" and ?r0 = "bu_RAS u ! nat tid" and ?hist = "predHist u ! nat tid"
  obtain tk tg h r1 p1 where 1: "bp_predict inst pc tid u = Inr (tk, tg, with_thread tid p1 r1 (h # ?hist) u)"
      "predictor_kept (bu_predictor u) p1" "map_option bh_globalHistory (ph_bpHistory h) = global_view (bu_predictor u)"
      "ph_seqNum h = bi_seqNum inst" "RAS_wf r1" "ra_numEntries r1 = ra_numEntries ?r0" "record_wf p1 r1 h" "undoes ?c h ?r0 r1"
    using bp_predict_ok [OF Cons.prems(1,2), of inst pc] Cons.prems(3) br by auto
  let ?u1 = "with_thread tid p1 r1 (h # ?hist) u"
  have "record_wf p1 r1 h'" if "h' \<in> set (h # ?hist)" for h'
    using d(9) [of h'] that 1(2,6,7) by (auto simp: record_wf_def predictor_kept_def)
  then have u1: "unit_wf ?u1" using unit_wf_thread [OF Cons.prems(1,2), of p1 r1 "h # ?hist"] 1(2,5,6) by (simp add: predictor_kept_def)
  have n: "predHist ?u1 ! nat tid = h # ?hist" "bu_RAS ?u1 ! nat tid = r1" "bu_predictor ?u1 = p1" "bu_BTB ?u1 = bu_BTB u"
    using d(3,4) by simp_all
  have hits: "\<forall>(inst, pc)\<in>set brs. call_hits (bu_BTB u) tid inst pc" using Cons.prems(3) by simp
  obtain hs r p where 2: "predict_all tid brs ?u1 = Inr (with_thread tid p r (hs @ h # ?hist) ?u1)"
      "unit_wf (with_thread tid p r (hs @ h # ?hist) ?u1)" "predictor_kept p1 p" "map ph_seqNum hs = rev (map (bi_seqNum \<circ> fst) brs)"
      "\<forall>d s. RAS_wf s \<longrightarrow> ras_agree d s r \<longrightarrow> d \<le> unat (ra_numEntries r1) \<longrightarrow>
        (\<exists>q. foldE squash_ras hs s = Inr q \<and> RAS_wf q \<and> ras_agree (d - calls brs) q r1)"
    using Cons.IH [OF u1 Cons.prems(2), unfolded n, OF hits] by blast
  have w: "with_thread tid p r (hs @ h # ?hist) ?u1 = with_thread tid p r ((hs @ [h]) @ ?hist) u" by simp
  have "\<exists>q. foldE squash_ras (hs @ [h]) s = Inr q \<and> RAS_wf q \<and> ras_agree (d - calls (br # brs)) q ?r0"
    if s: "RAS_wf s" "ras_agree d s r" "d \<le> unat (ra_numEntries ?r0)" for d s
  proof -
    obtain q where q: "foldE squash_ras hs s = Inr q" "RAS_wf q" "ras_agree (d - calls brs) q r1"
      using 2(5) s 1(6) by auto
    have "d - calls brs \<le> unat (ra_numEntries ?r0)" using s(3) by simp
    then obtain q' where "squash_ras h q = Inr q'" "RAS_wf q'" "ras_agree (d - calls brs - ?c) q' ?r0"
      using 1(8) q(2,3) unfolding undoes_def by blast
    then show ?thesis using q(1) br by (cases "bi_isCall inst") (simp_all add: foldE_append calls_def)
  qed
  moreover have "predict_all tid (br # brs) u = Inr (with_thread tid p r ((hs @ [h]) @ ?hist) u)"
    using 1(1) 2(1) br unfolding w [symmetric] by (simp add: predict_all_def)
  moreover have "unit_wf (with_thread tid p r ((hs @ [h]) @ ?hist) u)" using 2(2) unfolding w .
  moreover have "predictor_kept (bu_predictor u) p" using predictor_kept_trans [OF 1(2) 2(3)] .
  moreover have "map ph_seqNum (hs @ [h]) = rev (map (bi_seqNum \<circ> fst) (br # brs))" using 2(4) 1(4) br by simp
  moreover have "map_option bh_globalHistory (ph_bpHistory (last (hs @ [h]))) = global_view (bu_predictor u)" using 1(3) by simp
  ultimately show ?case by blast
qed

lemma squash_walk_fold:
  assumes "foldE squash_ras hs r = Inr r'" "foldE BPSquash (map ph_bpHistory hs) p = Inr p'"
    "\<forall>h\<in>set hs. ph_seqNum h > sn" "\<forall>h\<in>set hist. ph_seqNum h \<le> sn"
  shows "squash_walk sn (hs @ hist) r p = Inr (hist, r', p')"
  using assms
proof (induction hs arbitrary: r p)
  case Nil
  then show ?case by (cases hist) auto
next
  case (Cons h hs)
  then show ?case by (auto simp: bindE_eq_Inr)
qed

section \<open>Construction\<close>

lemma counters_of_ok: "counters_of n b = Inr cs \<Longrightarrow> length cs = unat n \<and> (\<forall>c\<in>set cs. counter_wf c)"
  by (auto simp: counters_of_def setBits_def bindE_eq_Inr counter_wf_def)

lemma low_mask_ok:
  assumes "low_mask n = Inr m"
  shows "unat m < 2 ^ unat n"
proof -
  have n: "unat n < 32" "m = mask (unat n)"
    using assms by (auto simp: low_mask_def mask_eq_exp_minus_1 push_bit_eq_mult word_less_nat_alt split: if_splits)
  then show ?thesis using unat_mask [of "unat n", where 'a = 32] by simp
qed

text \<open>
  The parameters under which the unit is safe: shifts within the width, a history that fits the
  global tables, a history table at least as large as the local predictor, and 1 to 16 return addresses.
\<close>

definition params_ok :: "bpred_params \<Rightarrow> bool" where
  "params_ok p \<longleftrightarrow> bp_instShiftAmt p \<le> 32 \<and> 0 < bp_RASSize p \<and> bp_RASSize p \<le> 16 \<and>
     (bp_predType p = ''tournament'' \<longrightarrow> bp_localPredictorSize p \<le> bp_localHistoryTableSize p \<and>
        2 ^ unat (bp_globalHistoryBits p) \<le> unat (bp_globalPredictorSize p))"

lemma LocalBP_ctor_wf: "LocalBP_ctor n b s = Inr l \<Longrightarrow> s \<le> 32 \<Longrightarrow> LocalBP_wf l"
  by (auto simp: LocalBP_ctor_def LocalBP_wf_def Let_def bindE_eq_Inr isPowerOf2_def word_less_nat_alt word_le_nat_alt
      split: if_splits dest: counters_of_ok)

lemma TournamentBP_ctor_wf:
  assumes "TournamentBP_ctor lps lcb lhts lhb gps ghb gcb cps ccb s = Inr t" "s \<le> 32" "lps \<le> lhts" "2 ^ unat ghb \<le> unat gps"
  shows "TournamentBP_wf t"
proof -
  obtain lc gc cc gm where t: "isPowerOf2 lps" "isPowerOf2 lhts" "counters_of lps lcb = Inr lc" "counters_of gps gcb = Inr gc"
      "counters_of gps ccb = Inr cc" "low_mask ghb = Inr gm" "localCtrs t = lc" "globalCtrs t = gc" "choiceCtrs t = cc"
      "localPredictorSize t = lps" "localPredictorMask t = lps - 1" "localHistoryTable t = replicate (unat lhts) 0"
      "localHistoryTableSize t = lhts" "globalPredictorSize t = gps" "globalHistoryMask t = gm" "globalHistory t = 0" "tb_instShiftAmt t = s"
    using assms(1) floorLog2_u32_isPowerOf2(2) [of lps]
    by (auto simp: TournamentBP_ctor_def bindE_eq_Inr split: if_splits)
  have "lps \<noteq> 0" "lhts \<noteq> 0" using t(1,2) by (simp_all add: isPowerOf2_def)
  moreover have "gm < gps" using low_mask_ok [OF t(6)] assms(4) by (simp add: word_less_nat_alt)
  moreover have "s < 64" using assms(2) by (simp add: word_less_nat_alt word_le_nat_alt)
  ultimately show ?thesis
    using t(7-17) assms(3) counters_of_ok [OF t(3)] counters_of_ok [OF t(4)] counters_of_ok [OF t(5)]
    by (simp add: TournamentBP_wf_def ball_Un)
qed

lemma BTB_ctor_wf:
  assumes "DefaultBTB_ctor n b s = Inr t" "s \<le> 32"
  shows "BTB_wf t"
proof -
  have "isPowerOf2 n" using assms(1) by (auto simp: DefaultBTB_ctor_def split: if_splits)
  then obtain k where k: "k < 32" "floorLog2_u32 n = Inr k" "n \<noteq> 0"
    using floorLog2_u32_isPowerOf2(1) by (auto simp: isPowerOf2_def)
  have "unat (s + of_nat k) = unat s + k" using assms(2) k(1) by (simp add: unat_word_ariths unat_of_nat word_le_nat_alt)
  then have "s + of_nat k < 64" "s < 64" using assms(2) k(1) by (simp_all add: word_less_nat_alt word_le_nat_alt)
  then show ?thesis using assms(1) k(2,3) by (auto simp: DefaultBTB_ctor_def BTB_wf_def bindE_eq_Inr split: if_splits)
qed

lemma BPredUnit_ctor_wf:
  assumes "BPredUnit_ctor ps = Inr u" "params_ok ps"
  shows "unit_wf u" "predHist u = replicate MaxThreads []"
proof -
  obtain b d where 1: "DefaultBTB_ctor (bp_BTBEntries ps) (bp_BTBTagSize ps) (bp_instShiftAmt ps) = Inr b"
      "u = \<lparr>bu_predictor = d, bu_BTB = b, bu_RAS = replicate MaxThreads (RAS_init (bp_RASSize ps)), predHist = replicate MaxThreads []\<rparr>"
      and d: "predictor_wf d"
    using assms LocalBP_ctor_wf TournamentBP_ctor_wf
    by (auto simp: BPredUnit_ctor_def bindE_eq_Inr params_ok_def predictor_wf_def split: if_splits)
  have "RAS_wf (RAS_init (bp_RASSize ps))" using assms(2) by (simp add: RAS_wf_def RAS_init_def params_ok_def)
  moreover have "BTB_wf b" using BTB_ctor_wf [OF 1(1)] assms(2) by (simp add: params_ok_def)
  ultimately show "unit_wf u" using 1(2) d assms(2) by (simp add: unit_wf_def RAS_init_def params_ok_def)
  show "predHist u = replicate MaxThreads []" using 1(2) by simp
qed

subsection \<open>A small unit\<close>

definition small_params :: bpred_params where
  "small_params = \<lparr>bp_predType = ''tournament'', bp_localPredictorSize = 4, bp_localCtrBits = 2, bp_localHistoryTableSize = 4,
     bp_localHistoryBits = 2, bp_globalPredictorSize = 4, bp_globalHistoryBits = 2, bp_globalCtrBits = 2,
     bp_choicePredictorSize = 4, bp_choiceCtrBits = 2, bp_instShiftAmt = 2, bp_BTBEntries = 4, bp_BTBTagSize = 8, bp_RASSize = 4\<rparr>"

lemma small_params_ok: "params_ok small_params"
  by (simp add: params_ok_def small_params_def)

lemma small_unit: "\<exists>u. BPredUnit_ctor small_params = Inr u"
proof -
  have "case BPredUnit_ctor small_params of Inl e \<Rightarrow> False | Inr u \<Rightarrow> True" by code_simp
  then show ?thesis by (auto split: sum.splits)
qed

text \<open>A conditional branch, a return and a conditional call, in flight one after the other.\<close>

definition sample_branches :: "(BranchInst \<times> PCState) list" where
  "sample_branches =
     [(\<lparr>bi_seqNum = 5, bi_isUncondCtrl = False, bi_isReturn = False, bi_isCall = False\<rparr>, PCState_set 0x1000),
      (\<lparr>bi_seqNum = 6, bi_isUncondCtrl = True, bi_isReturn = True, bi_isCall = False\<rparr>, PCState_set 0x1004),
      (\<lparr>bi_seqNum = 7, bi_isUncondCtrl = False, bi_isReturn = False, bi_isCall = True\<rparr>, PCState_set 0x1008)]"

section \<open>Operations in any order\<close>

datatype bp_op =
    Predict BranchInst PCState ThreadID
  | Commit u64 ThreadID
  | Squash u64 ThreadID
  | Mispredict u64 PCState bool ThreadID
  | Switch_out

fun bp_do :: "bp_op \<Rightarrow> BPredUnit \<Rightarrow> BPredUnit res" where
  "bp_do (Predict inst pc tid) u = bindE (bp_predict inst pc tid u) (\<lambda>(_, _, u). Inr u)"
| "bp_do (Commit sn tid) u = bp_update sn tid u"
| "bp_do (Squash sn tid) u = bp_squash sn tid u"
| "bp_do (Mispredict sn target taken tid) u = bp_squash_mispredicted sn target taken tid u"
| "bp_do Switch_out u = bp_switchOut u"

fun op_ok :: "bp_op \<Rightarrow> bool" where
  "op_ok (Predict inst pc tid) = thread_ok tid"
| "op_ok (Commit sn tid) = thread_ok tid"
| "op_ok (Squash sn tid) = thread_ok tid"
| "op_ok (Mispredict sn target taken tid) = thread_ok tid"
| "op_ok Switch_out = True"

text \<open>The one call that can fail: the youngest prediction left is not that of the mispredicted branch.\<close>

fun unknown_branch :: "bp_op \<Rightarrow> BPredUnit \<Rightarrow> bool" where
  "unknown_branch (Mispredict sn target taken tid) u \<longleftrightarrow>
     (case dropWhile (\<lambda>h. ph_seqNum h > sn) (predHist u ! nat tid) of [] \<Rightarrow> False | h # _ \<Rightarrow> ph_seqNum h \<noteq> sn)"
| "unknown_branch _ u \<longleftrightarrow> False"

lemma predict_wf:
  assumes "unit_wf u" "thread_ok tid"
  shows "\<exists>u'. bp_do (Predict inst pc tid) u = Inr u' \<and> unit_wf u'"
proof -
  obtain taken target h r p where 1: "bp_predict inst pc tid u = Inr (taken, target, with_thread tid p r (h # predHist u ! nat tid) u)"
      "predictor_kept (bu_predictor u) p" "RAS_wf r" "ra_numEntries r = ra_numEntries (bu_RAS u ! nat tid)" "record_wf p r h"
    using bp_predict_ok [OF assms] by blast
  have "record_wf p r h'" if "h' \<in> set (h # predHist u ! nat tid)" for h'
    using unit_wfD(9) [OF assms, of h'] that 1(2,4,5) by (auto simp: record_wf_def predictor_kept_def)
  then show ?thesis using 1 unit_wf_thread [OF assms, of p r "h # predHist u ! nat tid"] by (simp add: predictor_kept_def)
qed

lemma switchOut_wf: "unit_wf u \<Longrightarrow> \<exists>u'. bp_switchOut u = Inr u' \<and> unit_wf u'"
proof -
  have "unit_wf u \<Longrightarrow> \<forall>i\<in>set is. i < MaxThreads \<Longrightarrow> \<exists>u'. foldE (\<lambda>i. bp_squash 0 (int i)) is u = Inr u' \<and> unit_wf u'" for "is" u
  proof (induction "is" arbitrary: u)
    case (Cons i js)
    have "thread_ok (int i)" using Cons.prems(2) by (simp add: thread_ok_def)
    then obtain u1 where "bp_squash 0 (int i) u = Inr u1" "unit_wf u1" using bp_squash_ok [OF Cons.prems(1)] by blast
    then show ?case using Cons.IH Cons.prems(2) by simp
  qed simp
  then show "unit_wf u \<Longrightarrow> \<exists>u'. bp_switchOut u = Inr u' \<and> unit_wf u'" by (simp add: bp_switchOut_def)
qed

lemma bp_do_ok:
  assumes u: "unit_wf u" and ok: "op_ok op"
  shows "if unknown_branch op u then bp_do op u = Inl AssertFail else \<exists>u'. bp_do op u = Inr u' \<and> unit_wf u'"
proof (cases op)
  case (Predict inst pc tid)
  then show ?thesis using predict_wf [OF u] ok by simp
next
  case (Commit sn tid)
  then show ?thesis using bp_update_ok [OF u] ok by simp
next
  case (Squash sn tid)
  then show ?thesis using bp_squash_ok [OF u, of tid sn] ok by auto
next
  case (Mispredict sn target taken tid)
  then show ?thesis using bp_squash_mispredicted_ok [OF u, of tid sn target taken] ok
    by (cases "dropWhile (\<lambda>h. ph_seqNum h > sn) (predHist u ! nat tid)")
      (auto simp del: dropWhile_eq_Nil_conv split: if_splits)
next
  case Switch_out
  then show ?thesis using switchOut_wf [OF u] by simp
qed

lemma bp_run_wf: "unit_wf u \<Longrightarrow> \<forall>op\<in>set ops. op_ok op \<Longrightarrow> foldE bp_do ops u = Inr v \<Longrightarrow> unit_wf v"
proof (induction ops arbitrary: u)
  case (Cons op ops)
  then obtain u1 where "bp_do op u = Inr u1" "foldE bp_do ops u1 = Inr v" by (auto simp: bindE_eq_Inr)
  with Cons bp_do_ok [of u op] show ?case by (auto split: if_splits)
qed simp

section \<open>Properties\<close>

text \<open>
  (C27) Speculation is undone: after any predictions of a thread that are younger than a sequence number, a
  squash to this number restores the list of predictions in flight, the global history, and the
  return address stack but for the deepest entries, one for each call among the predictions; the target buffer, the
  counters and the other threads are as before. All unconditional calls must have had a target.
\<close>

theorem squash_undoes_speculation:
  assumes "unit_wf u" "thread_ok tid" "\<forall>(inst, pc)\<in>set brs. bi_seqNum inst > sn \<and> call_hits (bu_BTB u) tid inst pc"
    "\<forall>h\<in>set (predHist u ! nat tid). ph_seqNum h \<le> sn"
  shows "\<exists>u1 u2. predict_all tid brs u = Inr u1 \<and> bp_squash sn tid u1 = Inr u2 \<and>
    predHist u2 = predHist u \<and> bu_BTB u2 = bu_BTB u \<and>
    global_view (bu_predictor u2) = global_view (bu_predictor u) \<and>
    counter_tables (bu_predictor u2) = counter_tables (bu_predictor u) \<and>
    (\<forall>i. i \<noteq> nat tid \<longrightarrow> bu_RAS u2 ! i = bu_RAS u ! i) \<and>
    ras_agree (unat (ra_numEntries (bu_RAS u ! nat tid)) - calls brs) (bu_RAS u2 ! nat tid) (bu_RAS u ! nat tid)"
proof -
  have "\<forall>(inst, pc)\<in>set brs. call_hits (bu_BTB u) tid inst pc" using assms(3) by blast
  from predict_all_ok [OF assms(1,2) this] obtain hs r p where
    1: "predict_all tid brs u = Inr (with_thread tid p r (hs @ predHist u ! nat tid) u)"
      "unit_wf (with_thread tid p r (hs @ predHist u ! nat tid) u)" "predictor_kept (bu_predictor u) p"
      "map ph_seqNum hs = rev (map (bi_seqNum \<circ> fst) brs)"
      "hs \<noteq> [] \<longrightarrow> map_option bh_globalHistory (ph_bpHistory (last hs)) = global_view (bu_predictor u)" and
    undo: "\<And>d s. RAS_wf s \<Longrightarrow> ras_agree d s r \<Longrightarrow> d \<le> unat (ra_numEntries (bu_RAS u ! nat tid)) \<Longrightarrow>
      \<exists>q. foldE squash_ras hs s = Inr q \<and> RAS_wf q \<and> ras_agree (d - calls brs) q (bu_RAS u ! nat tid)"
    by blast
  note d0 = unit_wfD [OF assms(1,2)] and d = unit_wfD [OF 1(2) assms(2)]
  have n: "(predHist u)[nat tid := hs @ predHist u ! nat tid] ! nat tid = hs @ predHist u ! nat tid" "(bu_RAS u)[nat tid := r] ! nat tid = r"
    using d0(3,4) by simp_all
  have "RAS_wf r" "\<And>h. h \<in> set hs \<Longrightarrow> predictor_owns p (ph_bpHistory h)" "predictor_wf p"
    using d(1,7,9) n by (auto simp: record_wf_def)
  then obtain q p' where q: "foldE squash_ras hs r = Inr q" "ras_agree (unat (ra_numEntries (bu_RAS u ! nat tid)) - calls brs) q (bu_RAS u ! nat tid)"
      and p': "foldE BPSquash (map ph_bpHistory hs) p = Inr p'" "counter_tables p' = counter_tables p"
        "hs \<noteq> [] \<longrightarrow> global_view p' = map_option bh_globalHistory (last (map ph_bpHistory hs))" "hs = [] \<longrightarrow> p' = p"
    using undo [of r "unat (ra_numEntries (bu_RAS u ! nat tid))"] unit_predictor.squash_all [of p "map ph_bpHistory hs"]
    by (auto simp: ras_agree_def)
  have "\<forall>h\<in>set hs. ph_seqNum h > sn"
  proof
    fix h assume "h \<in> set hs"
    then have "ph_seqNum h \<in> set (rev (map (bi_seqNum \<circ> fst) brs))" unfolding 1(4) [symmetric] by simp
    then show "ph_seqNum h > sn" using assms(3) by auto
  qed
  from squash_walk_fold [OF q(1) p'(1) this assms(4)]
  have "bp_squash sn tid (with_thread tid p r (hs @ predHist u ! nat tid) u) = Inr (with_thread tid p' q (predHist u ! nat tid) u)"
    using d(5,6) n by (simp add: bp_squash_def)
  moreover have "global_view p' = global_view (bu_predictor u)"
  proof (cases "hs = []")
    case True
    then have "brs = []" using 1(4) by simp
    then have "u = with_thread tid p r (hs @ predHist u ! nat tid) u" using 1(1) by (simp add: predict_all_def)
    then have "bu_predictor u = p" by (metis BPredUnit.select_convs(1) BPredUnit.surjective BPredUnit.update_convs(1-4))
    then show ?thesis using p'(4) True by simp
  next
    case False
    then show ?thesis using p'(3) 1(5) by (simp add: last_map)
  qed
  ultimately show ?thesis
    using 1(1,3) p'(2) q(2) d0(3,4) by (auto simp: predictor_kept_def)
qed

theorem squash_undoes_speculation_witness:
  "\<exists>u u1 u2. BPredUnit_ctor small_params = Inr u \<and> predict_all 0 sample_branches u = Inr u1 \<and> bp_squash 4 0 u1 = Inr u2 \<and>
     length (predHist u1 ! 0) = 3 \<and> predHist u2 = predHist u \<and> ras_agree 3 (bu_RAS u2 ! 0) (bu_RAS u ! 0)"
proof -
  obtain u where u: "BPredUnit_ctor small_params = Inr u" using small_unit by blast
  note wf = BPredUnit_ctor_wf [OF u small_params_ok]
  have t: "thread_ok 0" by (simp add: thread_ok_def MaxThreads_def)
  have e: "\<forall>h\<in>set (predHist u ! nat 0). ph_seqNum h \<le> 4" by (simp add: wf(2) MaxThreads_def)
  have b: "\<forall>(inst, pc)\<in>set sample_branches. bi_seqNum inst > 4 \<and> call_hits (bu_BTB u) 0 inst pc"
    by (simp add: sample_branches_def call_hits_def)
  have n: "unat (ra_numEntries (bu_RAS u ! nat 0)) - calls sample_branches = 3"
  proof -
    have "case BPredUnit_ctor small_params of Inl _ \<Rightarrow> False | Inr u \<Rightarrow> ra_numEntries (bu_RAS u ! 0) = 4" by code_simp
    then show ?thesis using u by (simp add: calls_def sample_branches_def)
  qed
  have l: "case bindE (BPredUnit_ctor small_params) (predict_all 0 sample_branches) of Inl _ \<Rightarrow> False | Inr u1 \<Rightarrow> length (predHist u1 ! 0) = 3"
    by code_simp
  show ?thesis using squash_undoes_speculation [OF wf(1) t b e, unfolded n] u l by auto
qed

text \<open>
  (C28) From construction with an instruction shift of at most 32, 1 to 16 return addresses per thread and, for the
  tournament predictor, a history table at least as large as the local predictor and a history that fits the global
  tables (\<open>params_ok\<close>), whatever predictions, commits, squashes and mispredictions of valid thread numbers came before:
  no operation accesses an element outside a table, dereferences a missing (\<open>NULL\<close>) history or fails an
  assertion, except that a misprediction fails its assertion when the youngest branch left in flight is not the one it
  names. The invariant of the unit holds throughout. Deletion of history objects is not modelled, so that this
  says nothing about a use after deletion.
\<close>

theorem bpred_unit_safe:
  assumes "BPredUnit_ctor ps = Inr u" "params_ok ps" "\<forall>op\<in>set ops. op_ok op" "foldE bp_do ops u = Inr v" "op_ok op"
  shows "if unknown_branch op v then bp_do op v = Inl AssertFail else \<exists>v'. bp_do op v = Inr v' \<and> unit_wf v'"
  using bp_do_ok [OF bp_run_wf [OF BPredUnit_ctor_wf(1) [OF assms(1,2)] assms(3,4)] assms(5)] .

theorem bpred_unit_safe_witness:
  "\<exists>u v v'. BPredUnit_ctor small_params = Inr u \<and>
     foldE bp_do [Predict (fst (sample_branches ! 0)) (PCState_set 0x1000) 0] u = Inr v \<and>
     bp_do (Mispredict 5 (PCState_set 0x2000) True 0) v = Inr v' \<and> unit_wf v'"
proof -
  let ?op = "Predict (fst (sample_branches ! 0)) (PCState_set 0x1000) 0" and ?m = "Mispredict 5 (PCState_set 0x2000) True 0"
  have "case bindE (BPredUnit_ctor small_params) (foldE bp_do [?op]) of Inl _ \<Rightarrow> False | Inr v \<Rightarrow> \<not> unknown_branch ?m v"
    by code_simp
  then obtain u v where u: "BPredUnit_ctor small_params = Inr u" "foldE bp_do [?op] u = Inr v" "\<not> unknown_branch ?m v"
    by (cases "BPredUnit_ctor small_params") (auto split: sum.splits simp del: unknown_branch.simps bp_do.simps)
  have ok: "\<forall>op\<in>set [?op]. op_ok op" "op_ok ?m" by (simp_all add: thread_ok_def MaxThreads_def)
  show ?thesis using bpred_unit_safe [OF u(1) small_params_ok ok(1) u(2) ok(2)] u by (auto simp del: unknown_branch.simps)
qed

text \<open>
  An unconditional call without an entry in the target buffer is pushed, but a squash pops only calls that
  had an entry: after the squash the return address of the call that never happened is on top of the stack.
\<close>

lemma missed_call_leaks:
  assumes u: "unit_wf u" "thread_ok tid" and inst: "bi_isCall inst" "bi_isUncondCtrl inst" "\<not> bi_isReturn inst"
    and miss: "BTB_valid (instAddr pc) tid (bu_BTB u) = Inr False" and sn: "bi_seqNum inst > sn" "\<forall>h\<in>set (predHist u ! nat tid). ph_seqNum h \<le> sn"
  shows "\<exists>u1 u2. predict_all tid [(inst, pc)] u = Inr u1 \<and> bp_squash sn tid u1 = Inr u2 \<and> predHist u2 = predHist u \<and>
    slot (bu_RAS u2 ! nat tid) 0 = pc \<and>
    unat (tos (bu_RAS u2 ! nat tid)) = (unat (tos (bu_RAS u ! nat tid)) + 1) mod unat (ra_numEntries (bu_RAS u ! nat tid))"
proof -
  note d = unit_wfD [OF u]
  let ?r = "bu_RAS u ! nat tid" and ?hist = "predHist u ! nat tid"
  obtain bh p where p: "BPUncond (bu_predictor u) = (bh, p)" "predictor_wf p" "predictor_owns p bh"
    using unit_predictor.uncond_ok [OF d(1)] by metis
  obtain s where s: "RAS_push pc ?r = Inr s" "RAS_wf s" "ra_numEntries s = ra_numEntries ?r"
      "unat (tos s) = (unat (tos ?r) + 1) mod unat (ra_numEntries ?r)"
      "addrStack s = (addrStack ?r)[(unat (tos ?r) + 1) mod unat (ra_numEntries ?r) := pc]"
    using RAS_push_ok [OF d(7), of pc] by blast
  let ?h = "(PredictorHistory_ctor (bi_seqNum inst) (instAddr pc) True bh tid)\<lparr>ph_wasCall := True\<rparr>"
  let ?u1 = "with_thread tid p s (?h # ?hist) u"
  have 1: "predict_all tid [(inst, pc)] u = Inr ?u1"
    using inst miss p(1) s(1) d(5,6) by (simp add: predict_all_def bp_predict_def predict_target_def)
  obtain p' where p': "BPSquash bh p = Inr p'" using unit_predictor.squash_ok [OF p(2,3)] by blast
  have "squash_walk sn ([?h] @ ?hist) s p = Inr (?hist, s, p')"
    by (rule squash_walk_fold) (use p' sn in \<open>simp_all add: squash_ras_def PredictorHistory_ctor_def\<close>)
  then have 2: "bp_squash sn tid ?u1 = Inr (with_thread tid p' s ?hist u)"
    using d(3,4) u(2) by (simp add: bp_squash_def at_int_def thread_ok_def del: squash_walk.simps)
  have "slot s 0 = pc"
    using s(2-5) by (auto simp: slot_def RAS_wf_def word_less_nat_alt)
  with 1 2 s(4) d(3,4) show ?thesis by auto
qed

text \<open>
  The record of a prediction keeps the direction that the counters gave. A branch that they predict
  taken but that has no entry in the target buffer goes on as not taken; when it commits, and so was not
  taken, its counter is trained as taken.
\<close>

lemma btb_miss_trains_taken:
  assumes u: "unit_wf u" "thread_ok tid" and inst: "\<not> bi_isCall inst" "\<not> bi_isUncondCtrl inst" "\<not> bi_isReturn inst"
    and l: "bu_predictor u = Local l" "LocalBP_lookup (instAddr pc) l = Inr True"
    and miss: "BTB_valid (instAddr pc) tid (bu_BTB u) = Inr False" and e: "predHist u ! nat tid = []"
  shows "\<exists>u1 l'. bp_predict inst pc tid u = Inr (False, PCState_advance pc, u1) \<and>
    LocalBP_update (instAddr pc) True (None :: BPHistory option) l = Inr l' \<and>
    bp_update (bi_seqNum inst) tid u1 = Inr (u\<lparr>bu_predictor := Local l'\<rparr>)"
proof -
  note d = unit_wfD [OF u]
  let ?h = "PredictorHistory_ctor (bi_seqNum inst) (instAddr pc) True None tid"
  let ?u1 = "with_thread tid (Local l) (bu_RAS u ! nat tid) [?h] u"
  have 1: "bp_predict inst pc tid u = Inr (False, PCState_advance pc, ?u1)"
    using inst miss l d(3,5,6) e by (simp add: bp_predict_def BPLookup_def predict_target_def BPBTBUpdate_def)
  obtain l' where l': "LocalBP_update (instAddr pc) True (None :: BPHistory option) l = Inr l'"
    using local_predictor.train_ok [of l None "instAddr pc" True] d(1) l(1) by (auto simp: predictor_wf_def)
  have "update_walk (bi_seqNum inst) [?h] (Local l) = Inr ([], Local l')"
    using l' by (simp add: update_walk.simps BPUpdate_def PredictorHistory_ctor_def)
  moreover have f: "(predHist u)[nat tid := []] = predHist u" using list_update_id [of "predHist u" "nat tid"] e by simp
  moreover have "at_int (predHist ?u1) tid = Inr [?h]" using d(4,6) e u(2) by (simp add: at_int_def thread_ok_def)
  ultimately have "bp_update (bi_seqNum inst) tid ?u1 = Inr (u\<lparr>bu_predictor := Local l'\<rparr>)"
    using f by (simp add: bp_update_def)
  with 1 l' show ?thesis by blast
qed

text \<open>A unit with the local predictor, whose counter for the address 0x1000 has seen two taken branches.\<close>

definition trained_unit :: "BPredUnit res" where
  "trained_unit = bindE (BPredUnit_ctor (small_params\<lparr>bp_predType := ''local''\<rparr>))
     (foldE bp_do [Predict (fst (sample_branches ! 0)) (PCState_set 0x1000) 0, Mispredict 5 (PCState_set 0x2000) True 0,
        Predict (fst (sample_branches ! 0)) (PCState_set 0x1000) 0, Mispredict 5 (PCState_set 0x2000) True 0, Switch_out])"

subsection \<open>The history table of the tournament predictor\<close>

text \<open>
  A misprediction writes the local history table at the index of the counter instead of that of the
  branch. With a local predictor larger than the table four mispredicted branches leave the table.
\<close>

lemma tournament_overflow:
  "bindE (BPredUnit_ctor (small_params\<lparr>bp_localPredictorSize := 8\<rparr>))
     (foldE bp_do (concat (map (\<lambda>a. [Predict \<lparr>bi_seqNum = 1, bi_isUncondCtrl = False, bi_isReturn = False, bi_isCall = False\<rparr> (PCState_set a) 0,
        Mispredict 1 (PCState_set 0x2000) True 0]) [0x1000, 0x1000, 0x1004, 0x100C]))) = Inl Bad_index"
  by code_simp

text \<open>
  The mark of an unconditional branch is compared after masking, where it has become the last index: the
  branch trains the last local counter.
\<close>

lemma unconditional_trains_local:
  assumes "TournamentBP_wf bp" "TournamentBP_uncondBr bp = (Some h, bp')" "localPredictorMask bp \<noteq> - 1"
  shows "bh_localHistory h AND localPredictorMask bp = localPredictorMask bp"
    "\<exists>bp2. train_counters True h (bh_localHistory h AND localPredictorMask bp) bp = Inr bp2 \<and>
      localCtrs bp2 = (localCtrs bp)[unat (localPredictorMask bp) := increment (localCtrs bp ! unat (localPredictorMask bp))]"
proof -
  have h: "bh_localHistory h = - 1" "bh_globalHistory h = globalHistory bp"
    using assms(2) by (auto simp: TournamentBP_uncondBr_def invalidPredictorIndex_def)
  then show m: "bh_localHistory h AND localPredictorMask bp = localPredictorMask bp" by simp
  have g: "unat (globalHistory bp) < length (globalCtrs bp)" "unat (localPredictorMask bp) < length (localCtrs bp)"
    using global_index_ok(2) [OF assms(1)] local_index_ok(2) [OF assms(1), of "- 1"] assms(1) by (simp_all add: TournamentBP_wf_def)
  then show "\<exists>bp2. train_counters True h (bh_localHistory h AND localPredictorMask bp) bp = Inr bp2 \<and>
      localCtrs bp2 = (localCtrs bp)[unat (localPredictorMask bp) := increment (localCtrs bp ! unat (localPredictorMask bp))]"
    unfolding m using assms(3) h(2) by (simp add: train_counters_def Let_def invalidPredictorIndex_def)
qed

end
