(* ===== verification/Cache_Tags.thy ===== *)
theory Cache_Tags
  imports IntMath
begin

text \<open>
  Cache blocks, sets and the set-associative tag store with least recently used replacement
  (\<open>src/src/mem/cache/blk.hh\<close>, \<open>tags/cacheset.cc\<close>, \<open>tags/lru.cc\<close>). A tag store owns an array of blocks; a pointer to a
  block is its index, and a set is the array of pointers, the most recently used first. A block carries its part
  of the data storage, which the tag store does not touch. Of the statistics the two that count the
  content of the store are kept: \<open>tagsInUse\<close>, which the code reads, and \<open>occupancies\<close>.
\<close>

section \<open>Definitions\<close>

subsection \<open>Blocks\<close>

definition BlkValid :: u32 where "BlkValid = 0x01"
definition BlkWritable :: u32 where "BlkWritable = 0x02"
definition BlkReadable :: u32 where "BlkReadable = 0x04"
definition BlkDirty :: u32 where "BlkDirty = 0x08"
definition BlkReferenced :: u32 where "BlkReferenced = 0x10"
definition BlkHWPrefetched :: u32 where "BlkHWPrefetched = 0x20"

definition invldMasterId :: int where "invldMasterId = 65535"

record CacheBlk =
  cb_asid :: int
  cb_tag :: Addr
  cb_data :: "u8 list"
  cb_size :: int
  cb_status :: u32
  cb_whenReady :: int
  cb_set :: int
  cb_isTouched :: bool
  cb_refCount :: int
  cb_srcMasterId :: int
  cb_lockList :: "int list"

text \<open>\<open>data\<close> is the storage the pointer refers to, empty for NULL; \<open>lockList\<close> holds the contexts of the locks.\<close>

definition CacheBlk_ctor :: CacheBlk where
  "CacheBlk_ctor = \<lparr>cb_asid = - 1, cb_tag = 0, cb_data = [], cb_size = 0, cb_status = 0, cb_whenReady = 0, cb_set = - 1,
     cb_isTouched = False, cb_refCount = 0, cb_srcMasterId = invldMasterId, cb_lockList = []\<rparr>"

definition isWritable :: "CacheBlk \<Rightarrow> bool" where
  "isWritable b \<longleftrightarrow> cb_status b AND (BlkWritable OR BlkValid) = BlkWritable OR BlkValid"

definition isReadable :: "CacheBlk \<Rightarrow> bool" where
  "isReadable b \<longleftrightarrow> cb_status b AND (BlkReadable OR BlkValid) = BlkReadable OR BlkValid"

definition isValid :: "CacheBlk \<Rightarrow> bool" where
  "isValid b \<longleftrightarrow> cb_status b AND BlkValid \<noteq> 0"

definition isDirty :: "CacheBlk \<Rightarrow> bool" where
  "isDirty b \<longleftrightarrow> cb_status b AND BlkDirty \<noteq> 0"

definition isReferenced :: "CacheBlk \<Rightarrow> bool" where
  "isReferenced b \<longleftrightarrow> cb_status b AND BlkReferenced \<noteq> 0"

definition wasPrefetched :: "CacheBlk \<Rightarrow> bool" where
  "wasPrefetched b \<longleftrightarrow> cb_status b AND BlkHWPrefetched \<noteq> 0"

definition clearLoadLocks :: "CacheBlk \<Rightarrow> CacheBlk" where
  "clearLoadLocks b = b\<lparr>cb_lockList := []\<rparr>"

text \<open>
  Of a packet the locks read whether it is load-locked or store-conditional, and the context of its request, which
  is asserted to be set where it is read.
\<close>

definition blk_trackLoadLocked :: "bool \<Rightarrow> int option \<Rightarrow> CacheBlk \<Rightarrow> CacheBlk res" where
  "blk_trackLoadLocked isLLSC ctx b =
     bindE (assertE isLLSC) (\<lambda>_.
      case ctx of None \<Rightarrow> Inl AssertFail | Some c \<Rightarrow> Inr (b\<lparr>cb_lockList := c # cb_lockList b\<rparr>))"

definition lock_matches :: "int option \<Rightarrow> int list \<Rightarrow> bool res" where
  "lock_matches ctx locks =
     (if locks = [] then Inr False
      else case ctx of None \<Rightarrow> Inl AssertFail | Some c \<Rightarrow> Inr (list_ex (\<lambda>l. l = c) locks))"

text \<open>The result, the extra data that a store conditional gets, and the block.\<close>

definition blk_checkWrite :: "bool \<Rightarrow> int option \<Rightarrow> CacheBlk \<Rightarrow> (bool \<times> nat option \<times> CacheBlk) res" where
  "blk_checkWrite isLLSC ctx b =
     (if isLLSC then
        bindE (lock_matches ctx (cb_lockList b)) (\<lambda>success.
          Inr (success, Some (if success then 1 else 0), clearLoadLocks b))
      else Inr (True, None, clearLoadLocks b))"

subsection \<open>Sets\<close>

text \<open>The loop of \<open>findBlk\<close>, and that of \<open>moveToHead\<close> from position \<open>i\<close> on, which shifts the pointers down by one.\<close>

fun findBlk :: "CacheBlk list \<Rightarrow> Addr \<Rightarrow> nat list \<Rightarrow> ptr res" where
  "findBlk heap tag [] = Inr None"
| "findBlk heap tag (b # bs) =
     bindE (deref heap (Some b)) (\<lambda>x.
       if cb_tag x = tag \<and> isValid x then Inr (Some b) else findBlk heap tag bs)"

fun shift_walk :: "nat \<Rightarrow> nat \<Rightarrow> nat list \<Rightarrow> nat list res" where
  "shift_walk blk next [] = Inl AssertFail"
| "shift_walk blk next (b # bs) =
     (if b = blk then Inr (next # bs) else bindE (shift_walk blk b bs) (\<lambda>r. Inr (next # r)))"

definition moveToHead :: "nat \<Rightarrow> nat list \<Rightarrow> nat list res" where
  "moveToHead blk blks = bindE (at blks 0) (\<lambda>b. if b = blk then Inr blks else shift_walk blk blk blks)"

subsection \<open>The tag store\<close>

record LRU =
  lru_numSets :: u32
  lru_blkSize :: u32
  lru_assoc :: u32
  lru_hitLatency :: u32
  lru_sets :: "nat list list"
  lru_blks :: "CacheBlk list"
  lru_setShift :: nat
  lru_tagShift :: nat
  lru_setMask :: u32
  lru_blkMask :: u32
  lru_warmupBound :: int
  lru_warmedUp :: bool
  lru_numBlocks :: u32
  lru_tagsInUse :: int
  lru_occupancies :: "int \<Rightarrow> int"

text \<open>
  The constructor, on fresh storage \<open>dataBlks\<close> with any contents. The number of blocks and the size of the
  storage are computed as \<open>unsigned\<close>: when they wrap, the loops run past the arrays.
\<close>

definition LRU_ctor :: "u8 list \<Rightarrow> u32 \<Rightarrow> u32 \<Rightarrow> u32 \<Rightarrow> u32 \<Rightarrow> LRU res" where
  "LRU_ctor dataBlks numSets blkSize assoc hit_latency =
     (if blkSize < 4 \<or> \<not> isPowerOf2 blkSize then Inl Panic
      else if numSets \<le> 0 \<or> \<not> isPowerOf2 numSets then Inl Panic
      else if assoc \<le> 0 then Inl Panic
      else if hit_latency \<le> 0 then Inl Panic
      else bindE (floorLog2_u32 blkSize) (\<lambda>setShift.
        bindE (floorLog2_u32 numSets) (\<lambda>l.
        if unat numSets * unat assoc * unat blkSize \<ge> 2 ^ 32 then Inl Bad_index
        else
          let ways = unat assoc;
              blk = (\<lambda>i. CacheBlk_ctor\<lparr>cb_data := take (unat blkSize) (drop (unat blkSize * i) dataBlks), cb_status := 0, cb_tag := of_nat (i mod ways),
                cb_whenReady := 0, cb_isTouched := False, cb_size := sint blkSize, cb_set := int (i div ways)\<rparr>)
          in Inr \<lparr>lru_numSets = numSets, lru_blkSize = blkSize, lru_assoc = assoc, lru_hitLatency = hit_latency,
               lru_sets = map (\<lambda>i. map (\<lambda>j. i * ways + j) [0..<ways]) [0..<unat numSets],
               lru_blks = map blk [0..<unat numSets * ways],
               lru_setShift = setShift, lru_tagShift = setShift + l, lru_setMask = numSets - 1, lru_blkMask = blkSize - 1,
               lru_warmupBound = sint (numSets * assoc), lru_warmedUp = False, lru_numBlocks = numSets * assoc,
               lru_tagsInUse = 0, lru_occupancies = (\<lambda>_. 0)\<rparr>)))"

definition lru_extractTag :: "Addr \<Rightarrow> LRU \<Rightarrow> Addr" where
  "lru_extractTag addr l = drop_bit (lru_tagShift l) addr"

definition lru_extractSet :: "Addr \<Rightarrow> LRU \<Rightarrow> nat" where
  "lru_extractSet addr l = unat (drop_bit (lru_setShift l) addr AND ucast (lru_setMask l))"

definition lru_extractBlkOffset :: "Addr \<Rightarrow> LRU \<Rightarrow> nat" where
  "lru_extractBlkOffset addr l = unat (addr AND ucast (lru_blkMask l))"

definition lru_blkAlign :: "Addr \<Rightarrow> LRU \<Rightarrow> Addr" where
  "lru_blkAlign addr l = addr AND NOT (ucast (lru_blkMask l))"

definition lru_regenerateBlkAddr :: "Addr \<Rightarrow> nat \<Rightarrow> LRU \<Rightarrow> Addr" where
  "lru_regenerateBlkAddr tag s l = push_bit (lru_tagShift l) tag OR push_bit (lru_setShift l) (of_nat s)"

definition lru_findBlock :: "Addr \<Rightarrow> LRU \<Rightarrow> ptr res" where
  "lru_findBlock addr l =
     bindE (at (lru_sets l) (lru_extractSet addr l)) (\<lambda>s. findBlk (lru_blks l) (lru_extractTag addr l) s)"

definition lru_moveToHead :: "nat \<Rightarrow> nat \<Rightarrow> LRU \<Rightarrow> LRU res" where
  "lru_moveToHead i blk l =
     bindE (at (lru_sets l) i) (\<lambda>s.
     bindE (moveToHead blk s) (\<lambda>s'. Inr (l\<lparr>lru_sets := (lru_sets l)[i := s']\<rparr>)))"

text \<open>The block, the latency and the store after an access at time \<open>curTick\<close>.\<close>

definition lru_accessBlock :: "int \<Rightarrow> Addr \<Rightarrow> LRU \<Rightarrow> (ptr \<times> int \<times> LRU) res" where
  "lru_accessBlock curTick addr l =
     bindE (lru_findBlock addr l) (\<lambda>r.
       case r of None \<Rightarrow> Inr (None, sint (lru_hitLatency l), l)
       | Some blk \<Rightarrow>
           bindE (lru_moveToHead (lru_extractSet addr l) blk l) (\<lambda>l.
           bindE (deref (lru_blks l) (Some blk)) (\<lambda>b.
             let lat = (if cb_whenReady b > curTick \<and> cb_whenReady b - curTick > uint (lru_hitLatency l)
                        then int32 (cb_whenReady b - curTick) else sint (lru_hitLatency l))
             in Inr (Some blk, lat, l\<lparr>lru_blks := (lru_blks l)[blk := b\<lparr>cb_refCount := int32 (cb_refCount b + 1)\<rparr>]\<rparr>))))"

definition lru_findVictim :: "Addr \<Rightarrow> LRU \<Rightarrow> nat res" where
  "lru_findVictim addr l =
     bindE (at (lru_sets l) (lru_extractSet addr l)) (\<lambda>s. at s (unat (lru_assoc l - 1)))"

text \<open>\<open>maxMasters\<close> is the number of masters of the system; a counter of \<open>occupancies\<close> changes by some amount.\<close>

definition add_count :: "int \<Rightarrow> int \<Rightarrow> (int \<Rightarrow> int) \<Rightarrow> int \<Rightarrow> int" where
  "add_count m d f = f(m := f m + d)"

definition lru_insertBlock :: "int \<Rightarrow> Addr \<Rightarrow> nat \<Rightarrow> int \<Rightarrow> LRU \<Rightarrow> LRU res" where
  "lru_insertBlock maxMasters addr blk master_id l =
     bindE (deref (lru_blks l) (Some blk)) (\<lambda>b.
     let touched = cb_isTouched b;
         l = (if touched then l else
           l\<lparr>lru_tagsInUse := lru_tagsInUse l + 1,
             lru_warmedUp := (lru_warmedUp l \<or> lru_tagsInUse l + 1 \<ge> lru_warmupBound l)\<rparr>);
         b = b\<lparr>cb_isTouched := True\<rparr>
     in bindE (if isValid b then
            bindE (assertE (cb_srcMasterId b < maxMasters)) (\<lambda>_.
              Inr (b\<lparr>cb_refCount := 0\<rparr>, add_count (cb_srcMasterId b) (- 1) (lru_occupancies l)))
          else Inr (b, lru_occupancies l)) (\<lambda>(b, occ).
        bindE (assertE (master_id < maxMasters)) (\<lambda>_.
          lru_moveToHead (lru_extractSet addr l) blk
            (l\<lparr>lru_blks := (lru_blks l)[blk := b\<lparr>cb_tag := lru_extractTag addr l, cb_srcMasterId := master_id\<rparr>],
               lru_occupancies := add_count master_id 1 occ\<rparr>))))"

text \<open>The store and the block after an invalidation, and that of a block of the store.\<close>

definition invalidate_with :: "int \<Rightarrow> CacheBlk \<Rightarrow> LRU \<Rightarrow> (LRU \<times> CacheBlk) res" where
  "invalidate_with maxMasters b l =
     bindE (if isValid b then
         bindE (assertE (cb_srcMasterId b < maxMasters)) (\<lambda>_.
           Inr (l\<lparr>lru_tagsInUse := lru_tagsInUse l - 1,
                  lru_occupancies := add_count (cb_srcMasterId b) (- 1) (lru_occupancies l)\<rparr>,
                b\<lparr>cb_srcMasterId := invldMasterId\<rparr>))
       else Inr (l, b)) (\<lambda>(l, b).
       Inr (l, clearLoadLocks (b\<lparr>cb_status := 0, cb_isTouched := False\<rparr>)))"

definition lru_invalidateBlk :: "int \<Rightarrow> ptr \<Rightarrow> LRU \<Rightarrow> LRU res" where
  "lru_invalidateBlk maxMasters p l =
     (case p of None \<Rightarrow> Inr l
      | Some blk \<Rightarrow>
          bindE (deref (lru_blks l) p) (\<lambda>b.
          bindE (invalidate_with maxMasters b l) (\<lambda>(l, b).
            Inr (l\<lparr>lru_blks := (lru_blks l)[blk := b]\<rparr>))))"

definition lru_clearLocks :: "LRU \<Rightarrow> LRU" where
  "lru_clearLocks l = l\<lparr>lru_blks := map clearLoadLocks (lru_blks l)\<rparr>"

section \<open>The order of a set\<close>

lemma shift_walk_eq: "shift_walk blk next bs = (if blk \<in> set bs then Inr (next # remove1 blk bs) else Inl AssertFail)"
  by (induction bs arbitrary: "next") auto

lemma moveToHead_eq:
  "bs \<noteq> [] \<Longrightarrow> moveToHead blk bs = (if blk \<in> set bs then Inr (blk # remove1 blk bs) else Inl AssertFail)"
  by (cases bs) (auto simp: moveToHead_def shift_walk_eq)

text \<open>
  The reference: after the uses \<open>ts\<close> of its blocks, a set holds the used blocks by their last use, the latest
  first, and then the others in their old order.
\<close>

definition by_last_use :: "nat list \<Rightarrow> nat list \<Rightarrow> nat list" where
  "by_last_use ts bs = rev (remdups ts) @ filter (\<lambda>b. b \<notin> set ts) bs"

lemma remdups_snoc: "remdups (ts @ [b]) = filter (\<lambda>x. x \<noteq> b) (remdups ts) @ [b]"
  by (induction ts) auto

lemma by_last_use_Nil [simp]: "by_last_use [] bs = bs"
  by (simp add: by_last_use_def)

lemma by_last_use_distinct: "distinct bs \<Longrightarrow> distinct (by_last_use ts bs)"
  by (auto simp: by_last_use_def)

lemma by_last_use_set: "set ts \<subseteq> set bs \<Longrightarrow> set (by_last_use ts bs) = set bs"
  by (auto simp: by_last_use_def)

lemma by_last_use_snoc:
  assumes "distinct bs"
  shows "b # remove1 b (by_last_use ts bs) = by_last_use (ts @ [b]) bs"
proof -
  have "remove1 b (by_last_use ts bs) = filter (\<lambda>x. x \<noteq> b) (by_last_use ts bs)"
    using distinct_remove1_removeAll [OF by_last_use_distinct [OF assms], of b ts]
    by (simp add: removeAll_filter_not_eq eq_commute [of b])
  moreover have "filter (\<lambda>x. x \<noteq> b) (filter (\<lambda>x. x \<notin> set ts) bs) = filter (\<lambda>x. x \<notin> set (ts @ [b])) bs"
    unfolding filter_filter by (rule filter_cong) auto
  ultimately show ?thesis by (simp add: by_last_use_def remdups_snoc rev_filter)
qed

section \<open>Addresses\<close>

definition geometry_ok :: "LRU \<Rightarrow> bool" where
  "geometry_ok l \<longleftrightarrow> lru_setShift l < 32 \<and> lru_setShift l \<le> lru_tagShift l \<and> lru_tagShift l - lru_setShift l < 32 \<and>
     lru_blkMask l = mask (lru_setShift l) \<and> lru_setMask l = mask (lru_tagShift l - lru_setShift l)"

lemma bit_extractTag: "bit (lru_extractTag a l) k \<longleftrightarrow> bit a (lru_tagShift l + k)"
  by (simp add: lru_extractTag_def bit_drop_bit_eq)

lemma extractSet_word:
  assumes "geometry_ok l"
  shows "of_nat (lru_extractSet a l) = (drop_bit (lru_setShift l) a AND mask (lru_tagShift l - lru_setShift l) :: Addr)"
  using assms by (simp add: geometry_ok_def lru_extractSet_def ucast_mask_eq)

lemma extractSet_less:
  assumes "geometry_ok l"
  shows "lru_extractSet a l < 2 ^ (lru_tagShift l - lru_setShift l)"
proof -
  let ?k = "lru_tagShift l - lru_setShift l"
  have "lru_extractSet a l \<le> unat (ucast (lru_setMask l) :: Addr)"
    unfolding lru_extractSet_def using word_and_le1 by (simp add: word_le_nat_alt)
  also have "\<dots> = unat (mask ?k :: u32)" using assms by (simp add: geometry_ok_def unat_ucast_up)
  also have "\<dots> < 2 ^ ?k" using unat_mask [of ?k, where 'a = 32] assms by (simp add: geometry_ok_def)
  finally show ?thesis .
qed

text \<open>Tag and set together are the address of the block.\<close>

lemma regenerate_align:
  assumes "geometry_ok l"
  shows "lru_regenerateBlkAddr (lru_extractTag a l) (lru_extractSet a l) l = lru_blkAlign a l"
proof (rule bit_word_eqI)
  fix n assume n: "n < LENGTH(64)"
  have g: "lru_setShift l \<le> lru_tagShift l" "lru_setShift l < 32" "lru_blkMask l = mask (lru_setShift l)"
    using assms by (simp_all add: geometry_ok_def)
  have "bit (lru_regenerateBlkAddr (lru_extractTag a l) (lru_extractSet a l) l) n \<longleftrightarrow>
      n \<ge> lru_tagShift l \<and> bit a n \<or> n \<ge> lru_setShift l \<and> n < lru_tagShift l \<and> bit a n"
    using n g(1) unfolding lru_regenerateBlkAddr_def extractSet_word [OF assms]
    by (auto simp: bit_simps bit_extractTag)
  also have "\<dots> \<longleftrightarrow> n \<ge> lru_setShift l \<and> bit a n" using g(1) by auto
  also have "\<dots> \<longleftrightarrow> bit (lru_blkAlign a l) n"
    using n g by (auto simp: lru_blkAlign_def bit_simps ucast_mask_eq)
  finally show "bit (lru_regenerateBlkAddr (lru_extractTag a l) (lru_extractSet a l) l) n = bit (lru_blkAlign a l) n" .
qed

lemma same_block_iff:
  assumes "geometry_ok l"
  shows "lru_extractTag a l = lru_extractTag b l \<and> lru_extractSet a l = lru_extractSet b l \<longleftrightarrow> lru_blkAlign a l = lru_blkAlign b l"
proof
  assume "lru_extractTag a l = lru_extractTag b l \<and> lru_extractSet a l = lru_extractSet b l"
  then show "lru_blkAlign a l = lru_blkAlign b l" unfolding regenerate_align [OF assms, symmetric] by simp
next
  assume e: "lru_blkAlign a l = lru_blkAlign b l"
  have g: "lru_setShift l \<le> lru_tagShift l" "lru_setShift l < 32" "lru_blkMask l = mask (lru_setShift l)"
    using assms by (simp_all add: geometry_ok_def)
  have bits: "bit a n = bit b n" if "lru_setShift l \<le> n" for n
  proof -
    have "bit (lru_blkAlign a l) n = bit (lru_blkAlign b l) n" using e by simp
    then show ?thesis using that g bit_imp_le_length [of a n] bit_imp_le_length [of b n]
      by (auto simp: lru_blkAlign_def bit_simps ucast_mask_eq)
  qed
  have "lru_extractTag a l = lru_extractTag b l"
    using bits g(1) by (intro bit_word_eqI) (simp add: bit_extractTag)
  moreover have "drop_bit (lru_setShift l) a = drop_bit (lru_setShift l) b"
    using bits by (intro bit_word_eqI) (simp add: bit_drop_bit_eq)
  ultimately show "lru_extractTag a l = lru_extractTag b l \<and> lru_extractSet a l = lru_extractSet b l"
    by (simp add: lru_extractSet_def)
qed

section \<open>The invariant of a tag store\<close>

lemma option_eqI: "(\<And>b. r = Some b \<longleftrightarrow> q = Some b) \<Longrightarrow> r = q"
  by (cases r; cases q) auto

text \<open>
  Each set is an ordering of the blocks that carry its index, and no two valid blocks of a set have the same
  tag.
\<close>

definition lru_wf :: "LRU \<Rightarrow> bool" where
  "lru_wf l \<longleftrightarrow> geometry_ok l \<and> 0 < unat (lru_assoc l) \<and>
     length (lru_sets l) = 2 ^ (lru_tagShift l - lru_setShift l) \<and>
     (\<forall>i < length (lru_sets l). distinct (lru_sets l ! i) \<and> length (lru_sets l ! i) = unat (lru_assoc l) \<and>
        set (lru_sets l ! i) = {b. b < length (lru_blks l) \<and> cb_set (lru_blks l ! b) = int i}) \<and>
     (\<forall>b < length (lru_blks l). length (cb_data (lru_blks l ! b)) = 2 ^ lru_setShift l) \<and>
     (\<forall>b < length (lru_blks l). \<forall>c < length (lru_blks l). isValid (lru_blks l ! b) \<and> isValid (lru_blks l ! c) \<and>
        cb_tag (lru_blks l ! b) = cb_tag (lru_blks l ! c) \<and> cb_set (lru_blks l ! b) = cb_set (lru_blks l ! c) \<longrightarrow> b = c)"

text \<open>The block holds the address.\<close>

definition lru_holds :: "LRU \<Rightarrow> Addr \<Rightarrow> nat \<Rightarrow> bool" where
  "lru_holds l a b \<longleftrightarrow> b < length (lru_blks l) \<and> isValid (lru_blks l ! b) \<and>
     cb_tag (lru_blks l ! b) = lru_extractTag a l \<and> cb_set (lru_blks l ! b) = int (lru_extractSet a l)"

lemma lru_wf_geometry: "lru_wf l \<Longrightarrow> geometry_ok l"
  unfolding lru_wf_def by blast

lemma lru_wf_sets:
  assumes "lru_wf l" "i < length (lru_sets l)"
  shows "distinct (lru_sets l ! i)" "length (lru_sets l ! i) = unat (lru_assoc l)" "lru_sets l ! i \<noteq> []"
    "b \<in> set (lru_sets l ! i) \<longleftrightarrow> b < length (lru_blks l) \<and> cb_set (lru_blks l ! b) = int i"
proof -
  have h: "distinct (lru_sets l ! i) \<and> length (lru_sets l ! i) = unat (lru_assoc l) \<and>
      set (lru_sets l ! i) = {b. b < length (lru_blks l) \<and> cb_set (lru_blks l ! b) = int i}" "0 < unat (lru_assoc l)"
    using assms unfolding lru_wf_def by blast+
  show "distinct (lru_sets l ! i)" using h(1) by blast
  show n: "length (lru_sets l ! i) = unat (lru_assoc l)" using h(1) by blast
  show "lru_sets l ! i \<noteq> []" using h(2) unfolding n [symmetric] by simp
  show "b \<in> set (lru_sets l ! i) \<longleftrightarrow> b < length (lru_blks l) \<and> cb_set (lru_blks l ! b) = int i" using h(1) by blast
qed

lemma lru_wf_data: "lru_wf l \<Longrightarrow> b < length (lru_blks l) \<Longrightarrow> length (cb_data (lru_blks l ! b)) = 2 ^ lru_setShift l"
  unfolding lru_wf_def by blast

lemma lru_wf_tags:
  assumes "lru_wf l" "b < length (lru_blks l)" "c < length (lru_blks l)" "isValid (lru_blks l ! b)" "isValid (lru_blks l ! c)"
    "cb_tag (lru_blks l ! b) = cb_tag (lru_blks l ! c)" "cb_set (lru_blks l ! b) = cb_set (lru_blks l ! c)"
  shows "b = c"
  using assms unfolding lru_wf_def by blast

lemma lru_wf_unique:
  assumes "lru_wf l" "lru_holds l a b" "lru_holds l a c"
  shows "b = c"
  using assms(2,3) unfolding lru_holds_def by (intro lru_wf_tags [OF assms(1)]) simp_all

lemma lru_wf_set_index:
  assumes "lru_wf l"
  shows "lru_extractSet a l < length (lru_sets l)"
  using extractSet_less [OF lru_wf_geometry [OF assms], of a] assms by (simp add: lru_wf_def)

lemma lru_wf_in_set:
  assumes "lru_wf l" "lru_holds l a b"
  shows "b \<in> set (lru_sets l ! lru_extractSet a l)"
  using assms lru_wf_sets(4) [OF assms(1) lru_wf_set_index [OF assms(1)], of b a] by (simp add: lru_holds_def)

lemma findBlk_eq:
  assumes "\<forall>b\<in>set bs. b < length heap"
  shows "findBlk heap tag bs = Inr (List.find (\<lambda>b. cb_tag (heap ! b) = tag \<and> isValid (heap ! b)) bs)"
  using assms by (induction bs) auto

text \<open>The lookup finds the block that holds the address.\<close>

lemma lru_findBlock_ok:
  assumes "lru_wf l"
  shows "\<exists>r. lru_findBlock a l = Inr r \<and> (\<forall>b. r = Some b \<longleftrightarrow> lru_holds l a b)"
proof -
  let ?i = "lru_extractSet a l"
  let ?P = "\<lambda>b. cb_tag (lru_blks l ! b) = lru_extractTag a l \<and> isValid (lru_blks l ! b)"
  have i: "?i < length (lru_sets l)" by (rule lru_wf_set_index [OF assms])
  note mem = lru_wf_sets(4) [OF assms i]
  have "lru_findBlock a l = Inr (List.find ?P (lru_sets l ! ?i))"
    using i mem by (simp add: lru_findBlock_def findBlk_eq)
  moreover have "List.find ?P (lru_sets l ! ?i) = Some b \<longleftrightarrow> lru_holds l a b" for b
  proof
    assume "List.find ?P (lru_sets l ! ?i) = Some b"
    then have "b \<in> set (lru_sets l ! ?i)" "?P b" by (auto simp: find_Some_iff)
    then show "lru_holds l a b" using mem by (simp add: lru_holds_def)
  next
    assume h: "lru_holds l a b"
    then have "b \<in> set (lru_sets l ! ?i)" "?P b" using lru_wf_in_set [OF assms h] by (auto simp: lru_holds_def)
    then obtain c where c: "List.find ?P (lru_sets l ! ?i) = Some c"
      by (cases "List.find ?P (lru_sets l ! ?i)") (auto simp: find_None_iff)
    then have "c \<in> set (lru_sets l ! ?i)" "?P c" by (auto simp: find_Some_iff)
    then have "lru_holds l a c" using mem by (simp add: lru_holds_def)
    then show "List.find ?P (lru_sets l ! ?i) = Some b" using c lru_wf_unique [OF assms h] by simp
  qed
  ultimately show ?thesis by blast
qed

lemma lru_findBlock_iff:
  assumes "lru_wf l"
  shows "lru_findBlock c l = Inr (Some b) \<longleftrightarrow> lru_holds l c b"
proof -
  obtain r where "lru_findBlock c l = Inr r" "r = Some b \<longleftrightarrow> lru_holds l c b"
    using lru_findBlock_ok [OF assms, of c] by blast
  then show ?thesis by simp
qed

text \<open>What each change of the store keeps: the order of a set, and one block.\<close>

lemma lru_wf_fields:
  "lru_wf (l\<lparr>lru_tagsInUse := n\<rparr>) = lru_wf l" "lru_wf (l\<lparr>lru_warmedUp := w\<rparr>) = lru_wf l"
  "lru_wf (l\<lparr>lru_occupancies := f\<rparr>) = lru_wf l"
  by (simp_all add: lru_wf_def geometry_ok_def)

lemma lru_wf_order:
  assumes wf: "lru_wf l" and i: "i < length (lru_sets l)" and s: "distinct s" "set s = set (lru_sets l ! i)"
  shows "lru_wf (l\<lparr>lru_sets := (lru_sets l)[i := s]\<rparr>)"
proof -
  have "length s = length (lru_sets l ! i)"
    using s distinct_card [of s] distinct_card [OF lru_wf_sets(1) [OF wf i]] by simp
  then have "distinct ((lru_sets l)[i := s] ! j) \<and> length ((lru_sets l)[i := s] ! j) = unat (lru_assoc l) \<and>
      set ((lru_sets l)[i := s] ! j) = {b. b < length (lru_blks l) \<and> cb_set (lru_blks l ! b) = int j}"
    if "j < length (lru_sets l)" for j
    using that s wf i unfolding lru_wf_def by (cases "j = i") simp_all
  then show ?thesis using wf by (simp add: lru_wf_def geometry_ok_def)
qed

definition blk_fits :: "LRU \<Rightarrow> nat \<Rightarrow> CacheBlk \<Rightarrow> bool" where
  "blk_fits l b x \<longleftrightarrow> b < length (lru_blks l) \<and> cb_set x = cb_set (lru_blks l ! b) \<and>
     length (cb_data x) = length (cb_data (lru_blks l ! b)) \<and>
     (isValid x \<longrightarrow> (\<forall>c < length (lru_blks l). c \<noteq> b \<and> isValid (lru_blks l ! c) \<and> cb_set (lru_blks l ! c) = cb_set x \<longrightarrow>
        cb_tag (lru_blks l ! c) \<noteq> cb_tag x))"

lemma blk_fits_tags:
  assumes "blk_fits l b x" "isValid x" "c < length (lru_blks l)" "isValid (lru_blks l ! c)" "cb_set (lru_blks l ! c) = cb_set x"
    "cb_tag (lru_blks l ! c) = cb_tag x"
  shows "c = b"
  using assms unfolding blk_fits_def by blast

lemma lru_wf_blk:
  assumes wf: "lru_wf l" and x: "blk_fits l b x"
  shows "lru_wf (l\<lparr>lru_blks := (lru_blks l)[b := x]\<rparr>)"
proof -
  let ?h = "(lru_blks l)[b := x]"
  have b: "b < length (lru_blks l)" using x by (simp add: blk_fits_def)
  have s: "cb_set (?h ! c) = cb_set (lru_blks l ! c)" "length (cb_data (?h ! c)) = length (cb_data (lru_blks l ! c))" for c
    using x by (cases "c = b", auto simp: blk_fits_def nth_list_update)+
  have u: "c = d" if "c < length ?h" "d < length ?h" "isValid (?h ! c) \<and> isValid (?h ! d) \<and>
      cb_tag (?h ! c) = cb_tag (?h ! d) \<and> cb_set (?h ! c) = cb_set (?h ! d)" for c d
  proof -
    consider "c \<noteq> b" "d \<noteq> b" | "c = b" "d \<noteq> b" | "c \<noteq> b" "d = b" | "c = b" "d = b" by blast
    then show ?thesis
    proof cases
      case 1
      then show ?thesis using that by (intro lru_wf_tags [OF wf]) simp_all
    next
      case 2
      then show ?thesis using that blk_fits_tags [OF x, of d] b by simp
    next
      case 3
      then show ?thesis using that blk_fits_tags [OF x, of c] b by simp
    qed simp
  qed
  have "\<forall>c<length ?h. \<forall>d<length ?h. isValid (?h ! c) \<and> isValid (?h ! d) \<and>
      cb_tag (?h ! c) = cb_tag (?h ! d) \<and> cb_set (?h ! c) = cb_set (?h ! d) \<longrightarrow> c = d" using u by blast
  then show ?thesis using wf s unfolding lru_wf_def by (simp add: geometry_ok_def)
qed

lemma blk_fits_same:
  assumes "lru_wf l" "b < length (lru_blks l)" "cb_set x = cb_set (lru_blks l ! b)"
    "length (cb_data x) = length (cb_data (lru_blks l ! b))" "cb_tag x = cb_tag (lru_blks l ! b)"
    "isValid x \<Longrightarrow> isValid (lru_blks l ! b)"
  shows "blk_fits l b x"
  using assms lru_wf_tags [OF assms(1) assms(2)] unfolding blk_fits_def by metis

lemma lru_moveToHead_ok:
  assumes wf: "lru_wf l" and i: "i < length (lru_sets l)" and b: "b \<in> set (lru_sets l ! i)"
  shows "lru_moveToHead i b l = Inr (l\<lparr>lru_sets := (lru_sets l)[i := b # remove1 b (lru_sets l ! i)]\<rparr>)"
    "lru_wf (l\<lparr>lru_sets := (lru_sets l)[i := b # remove1 b (lru_sets l ! i)]\<rparr>)"
proof -
  note s = lru_wf_sets [OF wf i]
  show "lru_moveToHead i b l = Inr (l\<lparr>lru_sets := (lru_sets l)[i := b # remove1 b (lru_sets l ! i)]\<rparr>)"
    using i b s(3) by (simp add: lru_moveToHead_def moveToHead_eq)
  show "lru_wf (l\<lparr>lru_sets := (lru_sets l)[i := b # remove1 b (lru_sets l ! i)]\<rparr>)"
    using s(1) b by (intro lru_wf_order [OF wf i]) auto
qed

subsection \<open>Operations on a well-formed store\<close>

text \<open>A use of block \<open>b\<close> of set \<open>i\<close>: the block gets new contents and becomes the head of the set.\<close>

definition lru_put :: "nat \<Rightarrow> nat \<Rightarrow> CacheBlk \<Rightarrow> LRU \<Rightarrow> LRU" where
  "lru_put i b x l = l\<lparr>lru_sets := (lru_sets l)[i := b # remove1 b (lru_sets l ! i)], lru_blks := (lru_blks l)[b := x]\<rparr>"

lemma lru_put_fields [simp]:
  "lru_blks (lru_put i b x l) = (lru_blks l)[b := x]" "lru_extractSet a (lru_put i b x l) = lru_extractSet a l"
  "lru_extractTag a (lru_put i b x l) = lru_extractTag a l" "lru_tagShift (lru_put i b x l) = lru_tagShift l"
  "lru_setShift (lru_put i b x l) = lru_setShift l" "lru_blkMask (lru_put i b x l) = lru_blkMask l"
  "lru_tagsInUse (lru_put i b x l) = lru_tagsInUse l" "lru_occupancies (lru_put i b x l) = lru_occupancies l"
  "lru_assoc (lru_put i b x l) = lru_assoc l" "lru_setMask (lru_put i b x l) = lru_setMask l"
  "lru_hitLatency (lru_put i b x l) = lru_hitLatency l"
  by (simp_all add: lru_put_def lru_extractSet_def lru_extractTag_def)

lemma lru_put_wf:
  assumes wf: "lru_wf l" and i: "i < length (lru_sets l)" and b: "b \<in> set (lru_sets l ! i)" and x: "blk_fits l b x"
  shows "lru_wf (lru_put i b x l)"
proof -
  let ?l = "l\<lparr>lru_sets := (lru_sets l)[i := b # remove1 b (lru_sets l ! i)]\<rparr>"
  have "blk_fits ?l b x" using x by (simp add: blk_fits_def)
  from lru_wf_blk [OF lru_moveToHead_ok(2) [OF wf i b] this] show ?thesis by (simp add: lru_put_def)
qed

lemma lru_accessBlock_miss:
  "lru_wf l \<Longrightarrow> \<nexists>b. lru_holds l a b \<Longrightarrow> lru_accessBlock t a l = Inr (None, sint (lru_hitLatency l), l)"
  using lru_findBlock_ok [of l a] by (auto simp: lru_accessBlock_def split: option.split)

lemma lru_findBlock_hit: "lru_wf l \<Longrightarrow> lru_holds l a b \<Longrightarrow> lru_findBlock a l = Inr (Some b)"
  using lru_findBlock_ok [of l a] by auto

lemma lru_findBlock_miss: "lru_wf l \<Longrightarrow> \<nexists>b. lru_holds l a b \<Longrightarrow> lru_findBlock a l = Inr None"
  using lru_findBlock_ok [of l a] not_None_eq by auto

lemma lru_accessBlock_hit:
  assumes wf: "lru_wf l" and h: "lru_holds l a b"
  defines "l' \<equiv> lru_put (lru_extractSet a l) b ((lru_blks l ! b)\<lparr>cb_refCount := int32 (cb_refCount (lru_blks l ! b) + 1)\<rparr>) l"
  shows "\<exists>lat. lru_accessBlock t a l = Inr (Some b, lat, l')" "lru_wf l'"
proof -
  let ?i = "lru_extractSet a l"
  have i: "?i < length (lru_sets l)" by (rule lru_wf_set_index [OF wf])
  have b: "b \<in> set (lru_sets l ! ?i)" by (rule lru_wf_in_set [OF wf h])
  have n: "b < length (lru_blks l)" using h by (simp add: lru_holds_def)
  show "\<exists>lat. lru_accessBlock t a l = Inr (Some b, lat, l')"
    using lru_moveToHead_ok(1) [OF wf i b] n
    by (simp add: lru_accessBlock_def lru_findBlock_hit [OF wf h] Let_def l'_def lru_put_def)
  show "lru_wf l'" unfolding l'_def
    using n by (intro lru_put_wf [OF wf i b] blk_fits_same [OF wf n]) (simp_all add: isValid_def)
qed

text \<open>The victim is the last block of the set.\<close>

lemma lru_findVictim_eq:
  fixes a :: Addr
  assumes "lru_wf l"
  defines "s \<equiv> lru_sets l ! lru_extractSet a l"
  shows "lru_findVictim a l = Inr (last s)" "last s \<in> set s" "last s < length (lru_blks l)"
    "cb_set (lru_blks l ! last s) = int (lru_extractSet a l)"
proof -
  have i: "lru_extractSet a l < length (lru_sets l)" by (rule lru_wf_set_index [OF assms(1)])
  note w = lru_wf_sets [OF assms(1) i, folded s_def]
  have "unat (lru_assoc l - 1) = length s - 1"
    using w(2,3) by (metis length_0_conv unat_eq_zero unat_minus_one)
  then show "lru_findVictim a l = Inr (last s)"
    using i w(3) by (simp add: lru_findVictim_def s_def [symmetric] last_conv_nth)
  show "last s \<in> set s" using w(3) by simp
  then show "last s < length (lru_blks l)" "cb_set (lru_blks l ! last s) = int (lru_extractSet a l)" using w(4) by auto
qed

text \<open>The block that an insertion leaves, and the counters.\<close>

definition lru_inserted :: "Addr \<Rightarrow> int \<Rightarrow> LRU \<Rightarrow> CacheBlk \<Rightarrow> CacheBlk" where
  "lru_inserted a m l b = b\<lparr>cb_isTouched := True, cb_refCount := (if isValid b then 0 else cb_refCount b),
     cb_tag := lru_extractTag a l, cb_srcMasterId := m\<rparr>"

definition lru_count_insert :: "int \<Rightarrow> CacheBlk \<Rightarrow> LRU \<Rightarrow> LRU" where
  "lru_count_insert m b l = l\<lparr>
     lru_tagsInUse := (if cb_isTouched b then lru_tagsInUse l else lru_tagsInUse l + 1),
     lru_warmedUp := (lru_warmedUp l \<or> \<not> cb_isTouched b \<and> lru_tagsInUse l + 1 \<ge> lru_warmupBound l),
     lru_occupancies := add_count m 1 (if isValid b then add_count (cb_srcMasterId b) (- 1) (lru_occupancies l)
        else lru_occupancies l)\<rparr>"

lemma lru_count_insert_fields [simp]:
  "lru_blks (lru_count_insert m b l) = lru_blks l" "lru_sets (lru_count_insert m b l) = lru_sets l"
  "lru_extractSet a (lru_count_insert m b l) = lru_extractSet a l"
  "lru_extractTag a (lru_count_insert m b l) = lru_extractTag a l" "lru_wf (lru_count_insert m b l) = lru_wf l"
  "lru_setShift (lru_count_insert m b l) = lru_setShift l" "lru_tagShift (lru_count_insert m b l) = lru_tagShift l"
  "lru_blkMask (lru_count_insert m b l) = lru_blkMask l" "blk_fits (lru_count_insert m b l) = blk_fits l"
  "lru_setMask (lru_count_insert m b l) = lru_setMask l" "lru_assoc (lru_count_insert m b l) = lru_assoc l"
  "lru_hitLatency (lru_count_insert m b l) = lru_hitLatency l"
  by (simp_all add: lru_count_insert_def lru_extractSet_def lru_extractTag_def lru_wf_def geometry_ok_def
      fun_eq_iff blk_fits_def)

lemma lru_insertBlock_ok:
  assumes wf: "lru_wf l" and b: "b \<in> set (lru_sets l ! lru_extractSet a l)"
    and m: "m < M" "isValid (lru_blks l ! b) \<longrightarrow> cb_srcMasterId (lru_blks l ! b) < M"
  shows "lru_insertBlock M a b m l = Inr (lru_put (lru_extractSet a l) b (lru_inserted a m l (lru_blks l ! b))
      (lru_count_insert m (lru_blks l ! b) l))"
proof -
  let ?i = "lru_extractSet a l" and ?x = "lru_blks l ! b"
  have i: "?i < length (lru_sets l)" by (rule lru_wf_set_index [OF wf])
  note s = lru_wf_sets [OF wf i]
  have n: "b < length (lru_blks l)" using s(4) b by simp
  have mv: "lru_moveToHead ?i b k = Inr (k\<lparr>lru_sets := (lru_sets l)[?i := b # remove1 b (lru_sets l ! ?i)]\<rparr>)"
    if "lru_sets k = lru_sets l" for k
    using that i b s(3) by (simp add: lru_moveToHead_def moveToHead_eq)
  have v: "isValid (x\<lparr>cb_isTouched := True\<rparr>) = isValid x" for x by (simp add: isValid_def)
  have e: "lru_extractSet a (k\<lparr>lru_tagsInUse := u, lru_warmedUp := w\<rparr>) = lru_extractSet a k"
      "lru_extractTag a (k\<lparr>lru_tagsInUse := u, lru_warmedUp := w\<rparr>) = lru_extractTag a k" for k u w
    by (simp_all add: lru_extractSet_def lru_extractTag_def)
  have x: "lru_inserted a m l ?x = ?x\<lparr>cb_isTouched := True, cb_tag := lru_extractTag a l, cb_srcMasterId := m\<rparr>" if "\<not> isValid ?x"
    using that by (simp add: lru_inserted_def)
  show ?thesis
    using n m mv e unfolding lru_insertBlock_def
    by (cases "isValid ?x"; cases "cb_isTouched ?x")
      (simp_all add: v x Let_def lru_put_def, simp_all add: lru_inserted_def lru_count_insert_def)
qed

lemma isValid_status: "isValid (x\<lparr>cb_status := st\<rparr>) \<longleftrightarrow> st AND BlkValid \<noteq> 0"
  by (simp add: isValid_def)

text \<open>A new block for an address that no block holds fits in any place of its set.\<close>

lemma blk_fits_new:
  assumes wf: "lru_wf l" and miss: "\<nexists>c. lru_holds l a c" and b: "b < length (lru_blks l)" "cb_set (lru_blks l ! b) = int (lru_extractSet a l)"
    and x: "cb_set x = cb_set (lru_blks l ! b)" "length (cb_data x) = length (cb_data (lru_blks l ! b))" "cb_tag x = lru_extractTag a l"
  shows "blk_fits l b x"
  using miss b x unfolding blk_fits_def lru_holds_def by auto

text \<open>
  A fill as the cache does it: the victim of the set is inserted for the address, and its status is set to a
  valid one.
\<close>

definition lru_set_status :: "nat \<Rightarrow> u32 \<Rightarrow> LRU \<Rightarrow> LRU res" where
  "lru_set_status b st l = bindE (upd (lru_blks l) (Some b) (\<lambda>x. x\<lparr>cb_status := st\<rparr>)) (\<lambda>h. Inr (l\<lparr>lru_blks := h\<rparr>))"

definition lru_fill :: "int \<Rightarrow> Addr \<Rightarrow> int \<Rightarrow> u32 \<Rightarrow> LRU \<Rightarrow> (nat \<times> LRU) res" where
  "lru_fill M a m st l =
     bindE (lru_findVictim a l) (\<lambda>b.
     bindE (lru_insertBlock M a b m l) (\<lambda>l.
     bindE (lru_set_status b st l) (\<lambda>l. Inr (b, l))))"

definition lru_filled :: "Addr \<Rightarrow> int \<Rightarrow> u32 \<Rightarrow> LRU \<Rightarrow> CacheBlk \<Rightarrow> CacheBlk" where
  "lru_filled a m st l x = (lru_inserted a m l x)\<lparr>cb_status := st\<rparr>"

abbreviation lru_victim :: "Addr \<Rightarrow> LRU \<Rightarrow> nat" where
  "lru_victim a l \<equiv> last (lru_sets l ! lru_extractSet a l)"

definition masters_ok :: "int \<Rightarrow> LRU \<Rightarrow> bool" where
  "masters_ok M l \<longleftrightarrow> (\<forall>x\<in>set (lru_blks l). isValid x \<longrightarrow> cb_srcMasterId x < M)"

lemma lru_fill_eq:
  assumes wf: "lru_wf l" and m: "m < M" "masters_ok M l"
  shows "lru_fill M a m st l = Inr (lru_victim a l,
     lru_put (lru_extractSet a l) (lru_victim a l) (lru_filled a m st l (lru_blks l ! lru_victim a l))
       (lru_count_insert m (lru_blks l ! lru_victim a l) l))"
proof -
  note v = lru_findVictim_eq [OF wf, of a]
  have "isValid (lru_blks l ! lru_victim a l) \<longrightarrow> cb_srcMasterId (lru_blks l ! lru_victim a l) < M"
    using m(2) v(3) by (simp add: masters_ok_def)
  note ins = lru_insertBlock_ok [OF wf v(2) m(1) this]
  show ?thesis using v(1,3) by (simp add: lru_fill_def ins lru_set_status_def lru_put_def lru_filled_def)
qed

lemma lru_filled_fields [simp]:
  "cb_set (lru_filled a m st l x) = cb_set x" "cb_data (lru_filled a m st l x) = cb_data x"
  "cb_tag (lru_filled a m st l x) = lru_extractTag a l" "isValid (lru_filled a m st l x) \<longleftrightarrow> st AND BlkValid \<noteq> 0"
  "cb_srcMasterId (lru_filled a m st l x) = m" "cb_isTouched (lru_filled a m st l x)"
  "cb_lockList (lru_filled a m st l x) = cb_lockList x" "cb_status (lru_filled a m st l x) = st"
  by (simp_all add: lru_filled_def lru_inserted_def isValid_status)

text \<open>A new block in the place of the victim holds the addresses of its own block, and nothing else changes.\<close>

lemma lru_holds_new:
  fixes m :: int
  assumes wf: "lru_wf l" and miss: "\<nexists>b. lru_holds l a b"
    and y: "isValid y" "cb_tag y = lru_extractTag a l" "cb_set y = int (lru_extractSet a l)"
  defines "l' \<equiv> lru_put (lru_extractSet a l) (lru_victim a l) y (lru_count_insert m (lru_blks l ! lru_victim a l) l)"
  shows "lru_holds l' c b \<longleftrightarrow>
    (if lru_blkAlign c l = lru_blkAlign a l then b = lru_victim a l else lru_holds l c b \<and> b \<noteq> lru_victim a l)"
proof -
  note v = lru_findVictim_eq [OF wf, of a]
  have "lru_holds l' c b \<longleftrightarrow> (if b = lru_victim a l then lru_extractTag a l = lru_extractTag c l \<and>
      lru_extractSet a l = lru_extractSet c l else lru_holds l c b)"
    using v(3) y by (auto simp: l'_def lru_holds_def nth_list_update)
  also have "\<dots> \<longleftrightarrow> (if b = lru_victim a l then lru_blkAlign a l = lru_blkAlign c l else lru_holds l c b)"
    using same_block_iff [OF lru_wf_geometry [OF wf], of a c] by simp
  also have "\<dots> \<longleftrightarrow> (if lru_blkAlign c l = lru_blkAlign a l then b = lru_victim a l else lru_holds l c b \<and> b \<noteq> lru_victim a l)"
    using miss same_block_iff [OF lru_wf_geometry [OF wf], of a c] by (auto simp: lru_holds_def)
  finally show ?thesis .
qed

lemma lru_new_wf:
  assumes wf: "lru_wf l" and miss: "\<nexists>b. lru_holds l a b" and y: "cb_tag y = lru_extractTag a l" "cb_set y = int (lru_extractSet a l)"
      "length (cb_data y) = 2 ^ lru_setShift l"
  shows "lru_wf (lru_put (lru_extractSet a l) (lru_victim a l) y (lru_count_insert m (lru_blks l ! lru_victim a l) l))"
proof -
  note v = lru_findVictim_eq [OF wf, of a]
  show ?thesis using v(2-4) lru_wf_set_index [OF wf, of a] wf y lru_wf_data [OF wf v(3)]
    by (intro lru_put_wf) (simp_all add: blk_fits_new [OF wf miss])
qed

subsection \<open>The counters\<close>

lemma length_filter_update:
  "i < length xs \<Longrightarrow> int (length (filter P (xs[i := y]))) = int (length (filter P xs)) - of_bool (P (xs ! i)) + of_bool (P y)"
proof (induction xs arbitrary: i)
  case (Cons x xs)
  then show ?case by (cases i) auto
qed simp

text \<open>
  \<open>tagsInUse\<close> counts the valid blocks, \<open>occupancies\<close> those of each master, and the touched blocks are the valid ones.
\<close>

definition lru_counts :: "LRU \<Rightarrow> bool" where
  "lru_counts l \<longleftrightarrow> (\<forall>x\<in>set (lru_blks l). cb_isTouched x = isValid x) \<and>
     lru_tagsInUse l = int (length (filter isValid (lru_blks l))) \<and>
     (\<forall>m. lru_occupancies l m = int (length (filter (\<lambda>x. isValid x \<and> cb_srcMasterId x = m) (lru_blks l))))"

lemma lru_counts_fill:
  assumes c: "lru_counts l" and b: "b < length (lru_blks l)" and st: "st AND BlkValid \<noteq> 0"
  shows "lru_counts (lru_put i b (lru_filled a m st l (lru_blks l ! b)) (lru_count_insert m (lru_blks l ! b) l))"
proof -
  let ?x = "lru_blks l ! b" and ?y = "lru_filled a m st l (lru_blks l ! b)"
  have t: "cb_isTouched ?x = isValid ?x" using c b by (simp add: lru_counts_def)
  have "\<forall>x\<in>set ((lru_blks l)[b := ?y]). cb_isTouched x = isValid x"
    using c st set_update_subset_insert [of "lru_blks l" b ?y] by (auto simp: lru_counts_def)
  then show ?thesis
    using c b st t by (simp add: lru_counts_def length_filter_update lru_count_insert_def add_count_def)
qed

lemma lru_counts_same:
  assumes c: "lru_counts l" and b: "b < length (lru_blks l)"
    and y: "cb_isTouched y = cb_isTouched (lru_blks l ! b)" "isValid y = isValid (lru_blks l ! b)"
      "cb_srcMasterId y = cb_srcMasterId (lru_blks l ! b)"
  shows "lru_counts (lru_put i b y l)"
proof -
  have "\<forall>x\<in>set ((lru_blks l)[b := y]). cb_isTouched x = isValid x"
    using c b y set_update_subset_insert [of "lru_blks l" b y] by (auto simp: lru_counts_def)
  then show ?thesis using c b y by (simp add: lru_counts_def length_filter_update)
qed

definition lru_invalidated :: "CacheBlk \<Rightarrow> CacheBlk" where
  "lru_invalidated b = b\<lparr>cb_srcMasterId := (if isValid b then invldMasterId else cb_srcMasterId b),
     cb_status := 0, cb_isTouched := False, cb_lockList := []\<rparr>"

definition lru_count_invalid :: "CacheBlk \<Rightarrow> LRU \<Rightarrow> LRU" where
  "lru_count_invalid b l = (if isValid b
     then l\<lparr>lru_tagsInUse := lru_tagsInUse l - 1, lru_occupancies := add_count (cb_srcMasterId b) (- 1) (lru_occupancies l)\<rparr>
     else l)"

lemma lru_count_invalid_fields [simp]:
  "lru_blks (lru_count_invalid b l) = lru_blks l" "lru_sets (lru_count_invalid b l) = lru_sets l"
  "lru_extractSet a (lru_count_invalid b l) = lru_extractSet a l"
  "lru_extractTag a (lru_count_invalid b l) = lru_extractTag a l" "lru_wf (lru_count_invalid b l) = lru_wf l"
  "blk_fits (lru_count_invalid b l) = blk_fits l" "lru_blkMask (lru_count_invalid b l) = lru_blkMask l"
  "lru_setShift (lru_count_invalid b l) = lru_setShift l" "lru_tagShift (lru_count_invalid b l) = lru_tagShift l"
  "lru_setMask (lru_count_invalid b l) = lru_setMask l" "lru_hitLatency (lru_count_invalid b l) = lru_hitLatency l"
  by (simp_all add: lru_count_invalid_def lru_extractSet_def lru_extractTag_def lru_wf_def geometry_ok_def
      fun_eq_iff blk_fits_def)

lemma lru_invalidated_fields [simp]:
  "cb_set (lru_invalidated x) = cb_set x" "cb_data (lru_invalidated x) = cb_data x" "cb_tag (lru_invalidated x) = cb_tag x"
  "\<not> isValid (lru_invalidated x)" "\<not> cb_isTouched (lru_invalidated x)" "cb_lockList (lru_invalidated x) = []"
  by (simp_all add: lru_invalidated_def isValid_def)

lemma lru_invalidateBlk_eq:
  assumes "b < length (lru_blks l)" "masters_ok M l"
  shows "lru_invalidateBlk M (Some b) l =
    Inr ((lru_count_invalid (lru_blks l ! b) l)\<lparr>lru_blks := (lru_blks l)[b := lru_invalidated (lru_blks l ! b)]\<rparr>)"
proof (cases "isValid (lru_blks l ! b)")
  case True
  then have "cb_srcMasterId (lru_blks l ! b) < M" using assms by (simp add: masters_ok_def)
  then show ?thesis using assms(1) True
    by (simp add: lru_invalidateBlk_def invalidate_with_def lru_invalidated_def lru_count_invalid_def clearLoadLocks_def)
next
  case False
  then show ?thesis using assms(1)
    by (simp add: lru_invalidateBlk_def invalidate_with_def lru_invalidated_def lru_count_invalid_def clearLoadLocks_def)
qed

lemma lru_invalidate_ok:
  assumes wf: "lru_wf l" and b: "b < length (lru_blks l)"
  defines "l' \<equiv> (lru_count_invalid (lru_blks l ! b) l)\<lparr>lru_blks := (lru_blks l)[b := lru_invalidated (lru_blks l ! b)]\<rparr>"
  shows "lru_wf l'" "lru_counts l \<Longrightarrow> lru_counts l'" "lru_holds l' a c \<longleftrightarrow> lru_holds l a c \<and> c \<noteq> b"
    "masters_ok M l \<Longrightarrow> masters_ok M l'"
proof -
  let ?x = "lru_invalidated (lru_blks l ! b)"
  have "blk_fits (lru_count_invalid (lru_blks l ! b) l) b ?x" using b by (simp add: blk_fits_def)
  then show "lru_wf l'"
    using wf lru_wf_blk [of "lru_count_invalid (lru_blks l ! b) l" b ?x] by (simp add: l'_def)
  show "lru_counts l'" if c: "lru_counts l"
  proof -
    have "\<forall>x\<in>set ((lru_blks l)[b := ?x]). cb_isTouched x = isValid x"
      using c set_update_subset_insert [of "lru_blks l" b ?x] by (auto simp: lru_counts_def)
    then show ?thesis
      using c b by (simp add: l'_def lru_counts_def length_filter_update lru_count_invalid_def add_count_def)
  qed
  show "lru_holds l' a c \<longleftrightarrow> lru_holds l a c \<and> c \<noteq> b"
    using b by (auto simp: lru_holds_def l'_def nth_list_update lru_extractTag_def lru_extractSet_def)
  show "masters_ok M l'" if "masters_ok M l"
    using that set_update_subset_insert [of "lru_blks l" b ?x] by (auto simp: l'_def masters_ok_def)
qed

lemma lru_clearLocks_ok:
  assumes "lru_wf l"
  shows "lru_wf (lru_clearLocks l)" "lru_counts l \<Longrightarrow> lru_counts (lru_clearLocks l)"
    "lru_sets (lru_clearLocks l) = lru_sets l" "masters_ok M l \<Longrightarrow> masters_ok M (lru_clearLocks l)"
proof -
  have f: "isValid (clearLoadLocks x) = isValid x" "cb_set (clearLoadLocks x) = cb_set x" "cb_tag (clearLoadLocks x) = cb_tag x"
      "cb_data (clearLoadLocks x) = cb_data x" "cb_srcMasterId (clearLoadLocks x) = cb_srcMasterId x"
      "cb_isTouched (clearLoadLocks x) = cb_isTouched x" for x
    by (simp_all add: clearLoadLocks_def isValid_def)
  have s: "{b. b < length (lru_blks l) \<and> cb_set (map clearLoadLocks (lru_blks l) ! b) = int i} =
      {b. b < length (lru_blks l) \<and> cb_set (lru_blks l ! b) = int i}" for i
    using f(2) by auto
  show "lru_wf (lru_clearLocks l)"
    using assms unfolding lru_wf_def by (simp add: lru_clearLocks_def geometry_ok_def s f)
  show "lru_counts (lru_clearLocks l)" if "lru_counts l"
    using that by (simp add: lru_counts_def lru_clearLocks_def f filter_map comp_def)
  show "lru_sets (lru_clearLocks l) = lru_sets l" by (simp add: lru_clearLocks_def)
  show "masters_ok M (lru_clearLocks l)" if "masters_ok M l"
    using that by (simp add: masters_ok_def lru_clearLocks_def f)
qed

subsection \<open>The constructor\<close>

definition lru_params :: "u8 list \<Rightarrow> u32 \<Rightarrow> u32 \<Rightarrow> u32 \<Rightarrow> u32 \<Rightarrow> bool" where
  "lru_params dataBlks numSets blkSize assoc lat \<longleftrightarrow> isPowerOf2 numSets \<and> isPowerOf2 blkSize \<and> 4 \<le> blkSize \<and> 0 < assoc \<and>
     0 < lat \<and> unat numSets * unat assoc * unat blkSize < 2 ^ 32 \<and> length dataBlks = unat numSets * unat assoc * unat blkSize"

text \<open>The array of a set: the blocks \<open>i * ways\<close> to \<open>i * ways + ways - 1\<close>.\<close>

lemma set_of_ways:
  assumes "0 < w" "i < n"
  shows "set (map (\<lambda>j. i * w + j) [0..<w]) = {b. b < n * w \<and> int (b div w) = int i}"
proof -
  have iff: "b < n * w \<and> b div w = i \<longleftrightarrow> i * w \<le> b \<and> b < i * w + w" for b
  proof
    assume "b < n * w \<and> b div w = i"
    then show "i * w \<le> b \<and> b < i * w + w"
      using div_mult_mod_eq [of b w] mod_less_divisor [OF assms(1), of b] by auto
  next
    assume b: "i * w \<le> b \<and> b < i * w + w"
    have "Suc i * w \<le> n * w" using assms(2) by (intro mult_le_mono1) simp
    then show "b < n * w \<and> b div w = i" using b by (auto intro!: div_nat_eqI simp: mult.commute)
  qed
  have "set (map (\<lambda>j. i * w + j) [0..<w]) = {i * w..<i * w + w}" by (simp add: add.commute)
  also have "\<dots> = {b. b < n * w \<and> b div w = i}" unfolding iff by auto
  finally show ?thesis by simp
qed

lemma lru_ctor_ok:
  assumes "lru_params d n k w h"
  shows "\<exists>l. LRU_ctor d n k w h = Inr l \<and> lru_wf l \<and> lru_counts l \<and> masters_ok M l \<and> (\<forall>x\<in>set (lru_blks l). \<not> isValid x) \<and>
    lru_blkMask l = k - 1 \<and> unat k = 2 ^ lru_setShift l"
proof -
  note p = assms [unfolded lru_params_def]
  obtain a where a: "a < 32" "n = 2 ^ a" using p isPowerOf2_iff [of n] by auto
  obtain c where c: "c < 32" "k = 2 ^ c" using p isPowerOf2_iff [of k] by auto
  have nz: "n \<noteq> 0" "0 < unat w" "unat n = 2 ^ a" "unat k = 2 ^ c"
    using a c p unat_exp [of a, where 'a = 32] unat_exp [of c, where 'a = 32]
    by (auto simp: word_greater_zero_iff isPowerOf2_def unat_gt_0)
  let ?w = "unat w"
  let ?x = "\<lambda>i. CacheBlk_ctor\<lparr>cb_data := take (unat k) (drop (unat k * i) d), cb_status := 0, cb_tag := of_nat (i mod ?w),
     cb_whenReady := 0, cb_isTouched := False, cb_size := sint k, cb_set := int (i div ?w)\<rparr>"
  let ?l = "\<lparr>lru_numSets = n, lru_blkSize = k, lru_assoc = w, lru_hitLatency = h,
     lru_sets = map (\<lambda>i. map (\<lambda>j. i * ?w + j) [0..<?w]) [0..<unat n], lru_blks = map ?x [0..<unat n * ?w],
     lru_setShift = c, lru_tagShift = c + a, lru_setMask = n - 1, lru_blkMask = k - 1,
     lru_warmupBound = sint (n * w), lru_warmedUp = False, lru_numBlocks = n * w, lru_tagsInUse = 0, lru_occupancies = (\<lambda>_. 0)\<rparr>"
  have "floorLog2_u32 n = Inr a" "floorLog2_u32 k = Inr c" using a c floorLog2_u32_power by auto
  then have l: "LRU_ctor d n k w h = Inr ?l" using p nz(1) by (simp add: LRU_ctor_def Let_def word_gt_0 not_less)
  have inv: "\<not> isValid (?x i)" for i by (simp add: isValid_def)
  have len: "length (take (unat k) (drop (unat k * i) d)) = 2 ^ c" if "i < unat n * ?w" for i
  proof -
    have "unat k * i + unat k \<le> unat k * (unat n * ?w)" using that mult_le_mono2 [of "Suc i" "unat n * ?w" "unat k"] by simp
    then show ?thesis using p nz(4) by (simp add: mult.commute)
  qed
  have wf: "lru_wf ?l"
    unfolding lru_wf_def geometry_ok_def
    using a c nz inv len set_of_ways [OF nz(2)]
    by (simp add: mask_eq_exp_minus_1 distinct_map inj_on_def cong: conj_cong)
  have "lru_counts ?l" "masters_ok M ?l" using inv by (simp_all add: lru_counts_def masters_ok_def CacheBlk_ctor_def filter_empty_conv)
  then show ?thesis using l wf nz(4) inv by auto
qed

text \<open>The address regenerated from a block is that of the addresses it holds.\<close>

lemma lru_holds_address:
  assumes "lru_wf l" "lru_holds l a b"
  shows "lru_regenerateBlkAddr (cb_tag (lru_blks l ! b)) (nat (cb_set (lru_blks l ! b))) l = lru_blkAlign a l"
  using regenerate_align [OF lru_wf_geometry [OF assms(1)], of a] assms(2) by (simp add: lru_holds_def)

section \<open>Sequences of operations\<close>

text \<open>
  What a cache asks of its tag store: an access, a fill of an address that missed, the invalidation of an
  address, and the clearing of all locks. The state carries the uses so far, as pairs of set and block.
\<close>

datatype tag_op = Access int Addr | Fill Addr int u32 | Invalidate Addr | Clear_locks

fun tag_step :: "int \<Rightarrow> tag_op \<Rightarrow> (nat \<times> nat) list \<times> LRU \<Rightarrow> ((nat \<times> nat) list \<times> LRU) res" where
  "tag_step M (Access t a) (us, l) =
     bindE (lru_accessBlock t a l) (\<lambda>(r, lat, l').
       Inr (case r of None \<Rightarrow> us | Some b \<Rightarrow> us @ [(lru_extractSet a l, b)], l'))"
| "tag_step M (Fill a m st) (us, l) =
     bindE (lru_findBlock a l) (\<lambda>r. case r of Some b \<Rightarrow> Inr (us, l)
       | None \<Rightarrow> bindE (lru_fill M a m st l) (\<lambda>(b, l'). Inr (us @ [(lru_extractSet a l, b)], l')))"
| "tag_step M (Invalidate a) (us, l) =
     bindE (lru_findBlock a l) (\<lambda>r. bindE (lru_invalidateBlk M r l) (\<lambda>l. Inr (us, l)))"
| "tag_step M Clear_locks (us, l) = Inr (us, lru_clearLocks l)"

fun tag_op_ok :: "int \<Rightarrow> tag_op \<Rightarrow> bool" where
  "tag_op_ok M (Fill a m st) \<longleftrightarrow> m < M \<and> st AND BlkValid \<noteq> 0"
| "tag_op_ok M _ \<longleftrightarrow> True"

definition lru_ok :: "int \<Rightarrow> LRU \<Rightarrow> bool" where
  "lru_ok M l \<longleftrightarrow> lru_wf l \<and> lru_counts l \<and> masters_ok M l"

definition uses_of :: "nat \<Rightarrow> (nat \<times> nat) list \<Rightarrow> nat list" where
  "uses_of i us = map snd (filter (\<lambda>u. fst u = i) us)"

definition in_use_order :: "LRU \<Rightarrow> (nat \<times> nat) list \<times> LRU \<Rightarrow> bool" where
  "in_use_order l0 s \<longleftrightarrow> length (lru_sets (snd s)) = length (lru_sets l0) \<and>
     (\<forall>i < length (lru_sets l0). lru_sets (snd s) ! i = by_last_use (uses_of i (fst s)) (lru_sets l0 ! i))"

lemma uses_of_snoc: "uses_of i (us @ [(j, b)]) = (if i = j then uses_of i us @ [b] else uses_of i us)"
  by (simp add: uses_of_def)

lemma in_use_order_put:
  assumes o: "in_use_order l0 (us, l)" and wf: "lru_wf l0" and i: "i < length (lru_sets l)" and s: "lru_sets k = lru_sets l"
  shows "in_use_order l0 (us @ [(i, b)], lru_put i b x k)"
proof -
  have len: "length (lru_sets l) = length (lru_sets l0)" using o by (simp add: in_use_order_def)
  have "lru_sets (lru_put i b x k) ! j = by_last_use (uses_of j (us @ [(i, b)])) (lru_sets l0 ! j)" if j: "j < length (lru_sets l0)" for j
  proof -
    have e: "lru_sets l ! j = by_last_use (uses_of j us) (lru_sets l0 ! j)" using o j by (simp add: in_use_order_def)
    have "b # remove1 b (lru_sets l ! j) = by_last_use (uses_of j us @ [b]) (lru_sets l0 ! j)"
      unfolding e by (rule by_last_use_snoc [OF lru_wf_sets(1) [OF wf j]])
    then show ?thesis using e i s by (simp add: lru_put_def uses_of_snoc nth_list_update)
  qed
  then show ?thesis using len s by (simp add: in_use_order_def lru_put_def)
qed

lemma in_use_order_sets: "in_use_order l0 (us, l) \<Longrightarrow> lru_sets k = lru_sets l \<Longrightarrow> in_use_order l0 (us, k)"
  by (simp add: in_use_order_def)

lemma masters_ok_update: "masters_ok M l \<Longrightarrow> (isValid x \<Longrightarrow> cb_srcMasterId x < M) \<Longrightarrow> \<forall>y\<in>set ((lru_blks l)[b := x]). isValid y \<longrightarrow> cb_srcMasterId y < M"
  using set_update_subset_insert [of "lru_blks l" b x] by (auto simp: masters_ok_def)

lemma tag_access_ok:
  assumes ok: "lru_ok M l" and o: "in_use_order l0 (us, l)" and wf0: "lru_wf l0"
  shows "\<exists>us' l'. tag_step M (Access t a) (us, l) = Inr (us', l') \<and> lru_ok M l' \<and> in_use_order l0 (us', l')"
proof (cases "\<exists>b. lru_holds l a b")
  case True
  then obtain b where h: "lru_holds l a b" by blast
  have wf: "lru_wf l" and c: "lru_counts l" "masters_ok M l" using ok by (auto simp: lru_ok_def)
  let ?x = "(lru_blks l ! b)\<lparr>cb_refCount := int32 (cb_refCount (lru_blks l ! b) + 1)\<rparr>"
  let ?l = "lru_put (lru_extractSet a l) b ?x l"
  note hit = lru_accessBlock_hit [OF wf h]
  have b: "b < length (lru_blks l)" using h by (simp add: lru_holds_def)
  have "lru_counts ?l" using b by (intro lru_counts_same [OF c(1)]) (simp_all add: isValid_def)
  moreover have "masters_ok M ?l"
    using masters_ok_update [OF c(2), of ?x b] c(2) b by (simp add: masters_ok_def isValid_def)
  moreover have "in_use_order l0 (us @ [(lru_extractSet a l, b)], ?l)"
    by (rule in_use_order_put [OF o wf0 lru_wf_set_index [OF wf]]) simp
  ultimately show ?thesis using hit(1) [of t] hit(2) by (auto simp: lru_ok_def)
next
  case False
  then show ?thesis using ok o lru_accessBlock_miss [of l a t] by (simp add: lru_ok_def)
qed

lemma tag_fill_ok:
  assumes ok: "lru_ok M l" and o: "in_use_order l0 (us, l)" and wf0: "lru_wf l0" and st: "m < M" "st AND BlkValid \<noteq> 0"
  shows "\<exists>us' l'. tag_step M (Fill a m st) (us, l) = Inr (us', l') \<and> lru_ok M l' \<and> in_use_order l0 (us', l')"
proof (cases "\<exists>b. lru_holds l a b")
  case True
  then show ?thesis using ok o lru_findBlock_hit by (auto simp: lru_ok_def)
next
  case False
  have wf: "lru_wf l" and c: "lru_counts l" "masters_ok M l" using ok by (auto simp: lru_ok_def)
  let ?b = "lru_victim a l"
  let ?x = "lru_filled a m st l (lru_blks l ! ?b)"
  let ?l = "lru_put (lru_extractSet a l) ?b ?x (lru_count_insert m (lru_blks l ! ?b) l)"
  note v = lru_findVictim_eq [OF wf, of a]
  have "lru_wf ?l" using v lru_wf_data [OF wf v(3)] by (intro lru_new_wf [OF wf False]) simp_all
  moreover have "lru_counts ?l" by (rule lru_counts_fill [OF c(1) v(3) st(2)])
  moreover have "masters_ok M ?l" using masters_ok_update [OF c(2), of ?x ?b] st(1) by (simp add: masters_ok_def)
  moreover have "in_use_order l0 (us @ [(lru_extractSet a l, ?b)], ?l)"
    by (rule in_use_order_put [OF o wf0 lru_wf_set_index [OF wf]]) simp
  ultimately show ?thesis
    using lru_findBlock_miss [OF wf False] lru_fill_eq [OF wf st(1) c(2), of a st] by (simp add: lru_ok_def)
qed

lemma tag_invalidate_ok:
  assumes ok: "lru_ok M l" and o: "in_use_order l0 (us, l)"
  shows "\<exists>us' l'. tag_step M (Invalidate a) (us, l) = Inr (us', l') \<and> lru_ok M l' \<and> in_use_order l0 (us', l')"
proof (cases "\<exists>b. lru_holds l a b")
  case True
  then obtain b where h: "lru_holds l a b" by blast
  have wf: "lru_wf l" and c: "lru_counts l" "masters_ok M l" using ok by (auto simp: lru_ok_def)
  have b: "b < length (lru_blks l)" using h by (simp add: lru_holds_def)
  note i = lru_invalidate_ok [OF wf b]
  show ?thesis
    using lru_findBlock_hit [OF wf h] lru_invalidateBlk_eq [OF b c(2)] i(1) i(2) [OF c(1)] i(4) [OF c(2)]
      in_use_order_sets [OF o] by (simp add: lru_ok_def)
next
  case False
  then show ?thesis using ok o lru_findBlock_miss [of l a] by (simp add: lru_ok_def lru_invalidateBlk_def)
qed

lemma tag_step_ok:
  assumes "lru_ok M l" "in_use_order l0 (us, l)" "lru_wf l0" "tag_op_ok M op"
  shows "\<exists>us' l'. tag_step M op (us, l) = Inr (us', l') \<and> lru_ok M l' \<and> in_use_order l0 (us', l')"
proof (cases op)
  case (Access t a)
  then show ?thesis using tag_access_ok [OF assms(1-3)] by simp
next
  case (Fill a m st)
  then show ?thesis using tag_fill_ok [OF assms(1-3), of m st a] assms(4) by simp
next
  case (Invalidate a)
  then show ?thesis using tag_invalidate_ok [OF assms(1,2)] by simp
next
  case Clear_locks
  then show ?thesis
    using assms lru_clearLocks_ok [of l] in_use_order_sets [OF assms(2)] by (simp add: lru_ok_def)
qed

lemma tag_run_ok:
  assumes "lru_ok M l" "in_use_order l0 (us, l)" "lru_wf l0" "\<forall>op\<in>set ops. tag_op_ok M op"
  shows "\<exists>us' l'. foldE (tag_step M) ops (us, l) = Inr (us', l') \<and> lru_ok M l' \<and> in_use_order l0 (us', l')"
  using assms
proof (induction ops arbitrary: us l)
  case (Cons op ops)
  then obtain us' l' where "tag_step M op (us, l) = Inr (us', l')" "lru_ok M l'" "in_use_order l0 (us', l')"
    using tag_step_ok [of M l l0 us op] by auto
  then show ?case using Cons.IH [of l' us'] Cons.prems by simp
qed simp

section \<open>Properties\<close>

text \<open>
  (C29) From a tag store with valid parameters any sequence of accesses, fills, invalidations and lock
  clearings ends without a failed assertion or a bad pointer. After it \<open>tagsInUse\<close> is the number of valid blocks
  and each master's occupancy the number of its valid blocks, every set is ordered by the last use of its blocks, and
  the victim for an address is the last block of that order: the least recently used one.
\<close>

theorem lru_replacement_correct:
  assumes "lru_params d n k w h" and "\<forall>op\<in>set ops. tag_op_ok M op"
  shows "\<exists>l0 us l. LRU_ctor d n k w h = Inr l0 \<and> foldE (tag_step M) ops ([], l0) = Inr (us, l) \<and> lru_ok M l \<and>
    (\<forall>i < unat n. lru_sets l ! i = by_last_use (uses_of i us) (lru_sets l0 ! i)) \<and>
    (\<forall>a. lru_findVictim a l = Inr (last (by_last_use (uses_of (lru_extractSet a l) us) (lru_sets l0 ! lru_extractSet a l))))"
proof -
  obtain l0 where l0: "LRU_ctor d n k w h = Inr l0" "lru_wf l0" "lru_counts l0" "masters_ok M l0"
    using lru_ctor_ok [OF assms(1)] by blast
  have n: "length (lru_sets l0) = unat n"
    using l0(1) by (auto simp: LRU_ctor_def bindE_eq_Inr Let_def split: if_splits)
  have "in_use_order l0 ([], l0)" by (simp add: in_use_order_def uses_of_def)
  then obtain us l where r: "foldE (tag_step M) ops ([], l0) = Inr (us, l)" "lru_ok M l" "in_use_order l0 (us, l)"
    using tag_run_ok [of M l0 l0 "[]" ops] l0 assms(2) by (auto simp: lru_ok_def)
  have wf: "lru_wf l" using r(2) by (simp add: lru_ok_def)
  have len: "length (lru_sets l) = length (lru_sets l0)" using r(3) by (simp add: in_use_order_def)
  have ord: "lru_sets l ! i = by_last_use (uses_of i us) (lru_sets l0 ! i)" if "i < unat n" for i
    using r(3) that n by (simp add: in_use_order_def)
  have "lru_findVictim a l = Inr (last (by_last_use (uses_of (lru_extractSet a l) us) (lru_sets l0 ! lru_extractSet a l)))" for a
    using lru_findVictim_eq(1) [OF wf, of a] lru_wf_set_index [OF wf, of a] ord len n by simp
  then show ?thesis using l0(1) r ord by blast
qed

theorem lru_replacement_correct_witness:
  "\<exists>l0 us l. LRU_ctor (replicate 32 0) 2 8 2 1 = Inr l0 \<and>
     foldE (tag_step 4) [Fill 0x40 1 1, Fill 0x80 1 1, Access 0 0x40, Invalidate 0x80] ([], l0) = Inr (us, l) \<and> lru_ok 4 l"
proof -
  have "isPowerOf2 (2 :: u32)" "isPowerOf2 (8 :: u32)" by (simp_all add: isPowerOf2_def leastSigBit_def)
  then have "lru_params (replicate 32 0) 2 8 2 1" by (simp add: lru_params_def)
  from lru_replacement_correct [OF this, of "[Fill 0x40 1 1, Fill 0x80 1 1, Access 0 0x40, Invalidate 0x80]" 4]
  show ?thesis by (auto simp: BlkValid_def)
qed

text \<open>
  A fill of an address that missed takes the victim of its set. Afterwards the store finds the victim for
  every address of the new block and for no other, and finds every other block as before. The address
  that the cache regenerates for the evicted block, to write it back, is the block address of all addresses
  that the block answered for.
\<close>

lemma lru_fill_correct:
  assumes "lru_wf l" "masters_ok M l" "m < M" "st AND BlkValid \<noteq> 0" and "lru_findBlock a l = Inr None"
  shows "\<exists>b l'. lru_findVictim a l = Inr b \<and> lru_fill M a m st l = Inr (b, l') \<and> lru_wf l' \<and>
    (\<forall>c. lru_findBlock c l' = (if lru_blkAlign c l = lru_blkAlign a l then Inr (Some b)
       else if lru_findBlock c l = Inr (Some b) then Inr None else lru_findBlock c l)) \<and>
    (\<forall>c. lru_findBlock c l = Inr (Some b) \<longrightarrow>
       lru_regenerateBlkAddr (cb_tag (lru_blks l ! b)) (nat (cb_set (lru_blks l ! b))) l = lru_blkAlign c l)"
proof -
  let ?b = "lru_victim a l"
  let ?l = "lru_put (lru_extractSet a l) ?b (lru_filled a m st l (lru_blks l ! ?b)) (lru_count_insert m (lru_blks l ! ?b) l)"
  note holds = lru_findBlock_iff [OF assms(1)]
  have miss: "\<nexists>b. lru_holds l a b" unfolding holds [symmetric] using assms(5) by simp
  note v = lru_findVictim_eq [OF assms(1), of a]
  have wf: "lru_wf ?l" using v lru_wf_data [OF assms(1) v(3)] by (intro lru_new_wf [OF assms(1) miss]) simp_all
  have new: "lru_holds ?l c b \<longleftrightarrow> (if lru_blkAlign c l = lru_blkAlign a l then b = ?b else lru_holds l c b \<and> b \<noteq> ?b)" for c b
    using v(4) assms(4) by (intro lru_holds_new [OF assms(1) miss]) simp_all
  have "lru_findBlock c ?l = (if lru_blkAlign c l = lru_blkAlign a l then Inr (Some ?b)
       else if lru_findBlock c l = Inr (Some ?b) then Inr None else lru_findBlock c l)" for c
  proof -
    obtain r where r: "lru_findBlock c ?l = Inr r" "\<And>b. r = Some b \<longleftrightarrow> lru_holds ?l c b"
      using lru_findBlock_ok [OF wf, of c] by auto
    obtain q where q: "lru_findBlock c l = Inr q" "\<And>b. q = Some b \<longleftrightarrow> lru_holds l c b"
      using lru_findBlock_ok [OF assms(1), of c] by auto
    let ?r = "if lru_blkAlign c l = lru_blkAlign a l then Some ?b else if q = Some ?b then None else q"
    have "r = Some b \<longleftrightarrow> ?r = Some b" for b
      unfolding r(2) [of b] new [of c b] q(2) [of b, symmetric] by (cases "lru_blkAlign c l = lru_blkAlign a l") auto
    then have "r = ?r" by (rule option_eqI)
    then show ?thesis using r(1) q(1) by simp
  qed
  moreover have "lru_findBlock c l = Inr (Some ?b) \<longrightarrow>
      lru_regenerateBlkAddr (cb_tag (lru_blks l ! ?b)) (nat (cb_set (lru_blks l ! ?b))) l = lru_blkAlign c l" for c
    using lru_holds_address [OF assms(1)] holds by blast
  ultimately show ?thesis
    using lru_fill_eq [OF assms(1,3,2), of a st] lru_findVictim_eq(1) [OF assms(1), of a] wf by blast
qed

end
