(* ===== verification/Mem_Packet.thy ===== *)
theory Mem_Packet
  imports Phys_Memory
begin

text \<open>
  Memory commands and packets: the command table and the packet operations of \<open>src/src/mem/packet.hh\<close> and
  \<open>packet.cc\<close>, and the atomic access of \<open>src/src/mem/simple_mem.cc\<close>. A packet carries the fields of its request that
  the caches and the memory read. Port numbers, sender states and printing are not modelled.
\<close>

section \<open>Commands\<close>

datatype MemCmd =
    InvalidCmd | ReadReq | ReadResp | ReadRespWithInvalidate | WriteReq | WriteResp | Writeback
  | SoftPFReq | HardPFReq | SoftPFResp | HardPFResp | WriteInvalidateReq | WriteInvalidateResp
  | UpgradeReq | SCUpgradeReq | UpgradeResp | SCUpgradeFailReq | UpgradeFailResp | ReadExReq | ReadExResp
  | LoadLockedReq | StoreCondReq | StoreCondFailReq | StoreCondResp | SwapReq | SwapResp | MessageReq | MessageResp
  | NetworkNackError | InvalidDestError | BadAddressError | FunctionalReadError | FunctionalWriteError
  | PrintReq | FlushReq | InvalidationReq

datatype Attribute =
    IsRead | IsWrite | IsUpgrade | IsInvalidate | NeedsExclusive | IsRequest | IsResponse | NeedsResponse
  | IsSWPrefetch | IsHWPrefetch | IsLlsc | HasData | IsError | IsPrint | IsFlush

text \<open>The commands in the order of the enumeration, and the table indexed by them: attributes and response.\<close>

definition all_commands :: "MemCmd list" where
  "all_commands = [InvalidCmd, ReadReq, ReadResp, ReadRespWithInvalidate, WriteReq, WriteResp, Writeback,
     SoftPFReq, HardPFReq, SoftPFResp, HardPFResp, WriteInvalidateReq, WriteInvalidateResp,
     UpgradeReq, SCUpgradeReq, UpgradeResp, SCUpgradeFailReq, UpgradeFailResp, ReadExReq, ReadExResp,
     LoadLockedReq, StoreCondReq, StoreCondFailReq, StoreCondResp, SwapReq, SwapResp, MessageReq, MessageResp,
     NetworkNackError, InvalidDestError, BadAddressError, FunctionalReadError, FunctionalWriteError,
     PrintReq, FlushReq, InvalidationReq]"

definition commandInfo :: "(Attribute list \<times> MemCmd) list" where
  "commandInfo = [
     ([], InvalidCmd),
     ([IsRead, IsRequest, NeedsResponse], ReadResp),
     ([IsRead, IsResponse, HasData], InvalidCmd),
     ([IsRead, IsResponse, HasData, IsInvalidate], InvalidCmd),
     ([IsWrite, NeedsExclusive, IsRequest, NeedsResponse, HasData], WriteResp),
     ([IsWrite, NeedsExclusive, IsResponse], InvalidCmd),
     ([IsWrite, NeedsExclusive, IsRequest, HasData], InvalidCmd),
     ([IsRead, IsRequest, IsSWPrefetch, NeedsResponse], SoftPFResp),
     ([IsRead, IsRequest, IsHWPrefetch, NeedsResponse], HardPFResp),
     ([IsRead, IsResponse, IsSWPrefetch, HasData], InvalidCmd),
     ([IsRead, IsResponse, IsHWPrefetch, HasData], InvalidCmd),
     ([IsWrite, NeedsExclusive, IsInvalidate, IsRequest, HasData, NeedsResponse], WriteInvalidateResp),
     ([IsWrite, NeedsExclusive, IsResponse], InvalidCmd),
     ([IsInvalidate, NeedsExclusive, IsUpgrade, IsRequest, NeedsResponse], UpgradeResp),
     ([IsInvalidate, NeedsExclusive, IsUpgrade, IsLlsc, IsRequest, NeedsResponse], UpgradeResp),
     ([NeedsExclusive, IsUpgrade, IsResponse], InvalidCmd),
     ([IsInvalidate, NeedsExclusive, IsLlsc, IsRequest, NeedsResponse], UpgradeFailResp),
     ([NeedsExclusive, IsResponse], InvalidCmd),
     ([IsRead, NeedsExclusive, IsInvalidate, IsRequest, NeedsResponse], ReadExResp),
     ([IsRead, NeedsExclusive, IsResponse, HasData], InvalidCmd),
     ([IsRead, IsLlsc, IsRequest, NeedsResponse], ReadResp),
     ([IsWrite, NeedsExclusive, IsLlsc, IsRequest, NeedsResponse, HasData], StoreCondResp),
     ([IsWrite, NeedsExclusive, IsLlsc, IsRequest, NeedsResponse, HasData], StoreCondResp),
     ([IsWrite, NeedsExclusive, IsLlsc, IsResponse], InvalidCmd),
     ([IsRead, IsWrite, NeedsExclusive, IsRequest, HasData, NeedsResponse], SwapResp),
     ([IsRead, IsWrite, NeedsExclusive, IsResponse, HasData], InvalidCmd),
     ([IsWrite, IsRequest, NeedsResponse, HasData], MessageResp),
     ([IsWrite, IsResponse], InvalidCmd),
     ([IsResponse, IsError], InvalidCmd),
     ([IsResponse, IsError], InvalidCmd),
     ([IsResponse, IsError], InvalidCmd),
     ([IsRead, IsResponse, IsError], InvalidCmd),
     ([IsWrite, IsResponse, IsError], InvalidCmd),
     ([IsRequest, IsPrint], InvalidCmd),
     ([IsRequest, IsFlush, NeedsExclusive], InvalidCmd),
     ([NeedsExclusive, IsInvalidate, IsRequest], InvalidCmd)]"

definition cmd_toInt :: "MemCmd \<Rightarrow> nat" where
  "cmd_toInt c = length (takeWhile (\<lambda>d. d \<noteq> c) all_commands)"

definition testCmdAttrib :: "Attribute \<Rightarrow> MemCmd \<Rightarrow> bool" where
  "testCmdAttrib a c \<longleftrightarrow> List.member (fst (commandInfo ! cmd_toInt c)) a"

definition responseCommand :: "MemCmd \<Rightarrow> MemCmd" where
  "responseCommand c = snd (commandInfo ! cmd_toInt c)"

section \<open>Packets\<close>

record MPacket =
  mp_cmd :: MemCmd
  mp_origCmd :: MemCmd
  mp_addr :: Addr
  mp_size :: nat
  mp_data :: "u8 list option"
  mp_shared :: bool
  mp_memInhibit :: bool
  mp_supplyExclusive :: bool
  mp_bytesValidStart :: int
  mp_bytesValidEnd :: int
  mp_finishTime :: int
  rq_paddr :: Addr
  rq_masterId :: int
  rq_contextId :: "int option"
  rq_uncacheable :: bool
  rq_clearLL :: bool
  rq_condSwap :: bool
  rq_instFetch :: bool
  rq_extraData :: "u64 option"

abbreviation mp_is :: "Attribute \<Rightarrow> MPacket \<Rightarrow> bool" where
  "mp_is a p \<equiv> testCmdAttrib a (mp_cmd p)"

text \<open>\<open>getPtr\<close> asserts that the packet has data. Fresh storage holds zero bytes here; nothing reads it before it is written.\<close>

definition getPtr :: "MPacket \<Rightarrow> u8 list res" where
  "getPtr p = (case mp_data p of None \<Rightarrow> Inl AssertFail | Some d \<Rightarrow> Inr d)"

definition allocate :: "MPacket \<Rightarrow> MPacket" where
  "allocate p = (case mp_data p of None \<Rightarrow> p\<lparr>mp_data := Some (replicate (mp_size p) 0)\<rparr> | Some _ \<Rightarrow> p)"

definition rq_context :: "MPacket \<Rightarrow> int res" where
  "rq_context p = (case rq_contextId p of None \<Rightarrow> Inl AssertFail | Some c \<Rightarrow> Inr c)"

definition rq_getExtraData :: "MPacket \<Rightarrow> u64 res" where
  "rq_getExtraData p = (case rq_extraData p of None \<Rightarrow> Inl AssertFail | Some c \<Rightarrow> Inr c)"

definition getOffset :: "u32 \<Rightarrow> MPacket \<Rightarrow> nat" where
  "getOffset blkSize p = unat (mp_addr p AND scast (blkSize - 1))"

definition mp_makeResponse :: "MPacket \<Rightarrow> MPacket res" where
  "mp_makeResponse p =
     bindE (assertE (mp_is NeedsResponse p)) (\<lambda>_.
     bindE (assertE (mp_is IsRequest p)) (\<lambda>_.
       Inr (p\<lparr>mp_origCmd := mp_cmd p, mp_cmd := responseCommand (mp_cmd p)\<rparr>)))"

definition mp_copyError :: "MPacket \<Rightarrow> MPacket \<Rightarrow> MPacket res" where
  "mp_copyError q p = bindE (assertE (mp_is IsError q)) (\<lambda>_. Inr (p\<lparr>mp_cmd := mp_cmd q\<rparr>))"

definition convertScToWrite :: "MPacket \<Rightarrow> MPacket res" where
  "convertScToWrite p =
     bindE (assertE (mp_is IsLlsc p)) (\<lambda>_. bindE (assertE (mp_is IsWrite p)) (\<lambda>_. Inr (p\<lparr>mp_cmd := WriteReq\<rparr>)))"

definition convertLlToRead :: "MPacket \<Rightarrow> MPacket res" where
  "convertLlToRead p =
     bindE (assertE (mp_is IsLlsc p)) (\<lambda>_. bindE (assertE (mp_is IsRead p)) (\<lambda>_. Inr (p\<lparr>mp_cmd := ReadReq\<rparr>)))"

definition setNacked :: "MPacket \<Rightarrow> MPacket res" where
  "setNacked p = bindE (assertE (mp_is IsResponse p)) (\<lambda>_. Inr (p\<lparr>mp_cmd := NetworkNackError\<rparr>))"

definition reinitNacked :: "MPacket \<Rightarrow> MPacket res" where
  "reinitNacked p =
     bindE (assertE (mp_cmd p = NetworkNackError)) (\<lambda>_.
      let p = p\<lparr>mp_cmd := mp_origCmd p\<rparr> in bindE (assertE (mp_is NeedsResponse p)) (\<lambda>_. Inr p))"

text \<open>\<open>setData\<close> and \<open>writeData\<close> at an offset of a block.\<close>

definition setDataFromBlock :: "u32 \<Rightarrow> u8 list \<Rightarrow> MPacket \<Rightarrow> MPacket res" where
  "setDataFromBlock blkSize blk p =
     bindE (getPtr p) (\<lambda>_.
     bindE (host_read (getOffset blkSize p) (mp_size p) blk) (\<lambda>d. Inr (p\<lparr>mp_data := Some d\<rparr>)))"

definition writeDataToBlock :: "u32 \<Rightarrow> u8 list \<Rightarrow> MPacket \<Rightarrow> u8 list res" where
  "writeDataToBlock blkSize blk p =
     bindE (getPtr p) (\<lambda>d. host_write (getOffset blkSize p) (take (mp_size p) d) blk)"

subsection \<open>Functional requests\<close>

text \<open>\<open>memcpy (dest + doff, src + soff, n)\<close> between two arrays.\<close>

definition memcpy_at :: "u8 list \<Rightarrow> int \<Rightarrow> u8 list \<Rightarrow> int \<Rightarrow> int \<Rightarrow> u8 list res" where
  "memcpy_at dest doff src soff n =
     (if n = 0 then Inr dest
      else if 0 \<le> n \<and> 0 \<le> doff \<and> 0 \<le> soff \<and> doff + n \<le> int (length dest) \<and> soff + n \<le> int (length src)
      then Inr (take (nat doff) dest @ take (nat n) (drop (nat soff) src) @ drop (nat (doff + n)) dest)
      else Inl Bad_pointer)"

text \<open>Value offset, request offset and size of a partial overlap.\<close>

definition partial_overlap :: "Addr \<Rightarrow> Addr \<Rightarrow> Addr \<Rightarrow> Addr \<Rightarrow> int \<Rightarrow> (int \<times> int \<times> int) res" where
  "partial_overlap func_start func_end val_start val_end vsize =
     (if val_start < func_start \<and> val_end \<le> func_end then
        Inr (int32 (uint (func_start - val_start)), 0, int32 (uint (val_end - func_start)))
      else if val_start \<ge> func_start \<and> val_end > func_end then
        Inr (0, int32 (uint (val_start - func_start)), int32 (uint (func_end - val_start)))
      else if val_start \<ge> func_start \<and> val_end \<le> func_end then
        Inr (0, int32 (uint (val_start - func_start)), vsize)
      else Inl Panic)"

definition u16_of :: "int \<Rightarrow> int" where
  "u16_of x = x mod 2 ^ 16"

text \<open>
  Which of the overlapping bytes are new: the offsets and the size of the copy, the valid range after it, and the
  data of the packet, which the last contiguous case has partly filled.
\<close>

definition merge_valid :: "u8 list \<Rightarrow> int \<Rightarrow> int \<Rightarrow> int \<Rightarrow> MPacket \<Rightarrow> (int \<times> int \<times> int \<times> MPacket) res" where
  "merge_valid src val_offset func_offset overlap_size p =
     (let start = mp_bytesValidStart p; fin = mp_bytesValidEnd p in
      if start = 0 \<and> fin = 0 then
        Inr (val_offset, func_offset, overlap_size,
          p\<lparr>mp_bytesValidStart := u16_of func_offset, mp_bytesValidEnd := u16_of (func_offset + overlap_size)\<rparr>)
      else
        let a = func_offset - start; b = func_offset + overlap_size - fin; c = func_offset - fin;
            d = func_offset + overlap_size - start in
        if a \<ge> 0 \<and> b \<le> 0 then Inr (val_offset, func_offset, 0, p)
        else if a < 0 \<and> d \<ge> 0 \<and> b \<le> 0 then
          Inr (val_offset, func_offset, start - func_offset, p\<lparr>mp_bytesValidStart := u16_of func_offset\<rparr>)
        else if b > 0 \<and> c \<le> 0 \<and> a \<ge> 0 then
          Inr (val_offset + (fin - func_offset), fin, func_offset + overlap_size - fin,
            p\<lparr>mp_bytesValidEnd := u16_of (fin + (func_offset + overlap_size - fin))\<rparr>)
        else if a < 0 \<and> b > 0 then
          bindE (getPtr p) (\<lambda>dest.
          bindE (memcpy_at dest func_offset src val_offset (start - func_offset)) (\<lambda>dest.
            Inr (val_offset + (fin - func_offset), fin, func_offset + overlap_size - fin,
              p\<lparr>mp_data := Some dest, mp_bytesValidStart := u16_of func_offset,
                mp_bytesValidEnd := u16_of (fin + (func_offset + overlap_size - fin))\<rparr>)))
        else if c > 0 \<and> b > 0 \<or> a < 0 \<and> d < 0 then Inl Panic
        else Inr (val_offset, func_offset, overlap_size, p))"

text \<open>Whether the request is done, the packet and the value, for a value of \<open>vsize\<close> bytes at \<open>addr\<close>; NULL is \<open>None\<close>.\<close>

definition checkFunctional :: "Addr \<Rightarrow> int \<Rightarrow> u8 list option \<Rightarrow> MPacket \<Rightarrow> (bool \<times> MPacket \<times> u8 list option) res" where
  "checkFunctional addr vsize val p =
     (let func_start = mp_addr p; func_end = mp_addr p + of_nat (mp_size p) - 1;
          val_start = addr; val_end = val_start + of_int vsize - 1 in
      if func_start > val_end \<or> val_start > func_end then Inr (False, p, val)
      else if mp_is IsPrint p then Inr (False, p, val)
      else case val of None \<Rightarrow> Inr (False, p, val)
      | Some data \<Rightarrow>
          let offset = int32 (uint (func_start - val_start)) in
          if mp_is IsRead p then
            (if func_start \<ge> val_start \<and> func_end \<le> val_end then
               bindE (getPtr (allocate p)) (\<lambda>dest.
               bindE (memcpy_at dest 0 data offset (int (mp_size p))) (\<lambda>dest.
                 Inr (True, (allocate p)\<lparr>mp_data := Some dest\<rparr>, val)))
             else
               bindE (partial_overlap func_start func_end val_start val_end vsize) (\<lambda>(vo, fo, n).
               bindE (merge_valid data vo fo n p) (\<lambda>(vo, fo, n, p).
               bindE (assertE (mp_bytesValidEnd p \<le> int (mp_size p))) (\<lambda>_.
               bindE (getPtr p) (\<lambda>dest.
               bindE (memcpy_at dest fo data vo n) (\<lambda>dest.
                 Inr (mp_bytesValidStart p = 0 \<and> mp_bytesValidEnd p = int (mp_size p), p\<lparr>mp_data := Some dest\<rparr>, val)))))))
          else if mp_is IsWrite p then
            bindE (getPtr p) (\<lambda>src.
            bindE (if offset \<ge> 0 then memcpy_at data offset src 0 (uint (min func_end val_end - func_start + 1))
                   else memcpy_at data 0 src (- offset) (uint (min func_end val_end - val_start + 1))) (\<lambda>data.
              Inr (False, p, Some data)))
          else Inl Panic)"

section \<open>The atomic access of a memory\<close>

text \<open>What the memory reads of a packet, and what it changes. The latency is the configured one plus a random part.\<close>

definition packet_view :: "MPacket \<Rightarrow> Packet" where
  "packet_view p = \<lparr>p_isSwap = (mp_cmd p = SwapReq), p_isRead = mp_is IsRead p, p_isWrite = mp_is IsWrite p,
     p_isInvalidate = mp_is IsInvalidate p, p_needsResponse = mp_is NeedsResponse p, p_isResponse = mp_is IsResponse p,
     p_memInhibit = mp_memInhibit p, p_addr = mp_addr p,
     p_data = (case mp_data p of None \<Rightarrow> [] | Some d \<Rightarrow> d), req_paddr = rq_paddr p,
     req_contextId = (case rq_contextId p of None \<Rightarrow> 0 | Some c \<Rightarrow> c), req_isLLSC = mp_is IsLlsc p,
     req_isCondSwap = rq_condSwap p, req_isInstFetch = rq_instFetch p,
     req_extraData = (case rq_extraData p of None \<Rightarrow> 0 | Some x \<Rightarrow> x)\<rparr>"

definition packet_update :: "Packet \<Rightarrow> MPacket \<Rightarrow> MPacket" where
  "packet_update q p = p\<lparr>mp_origCmd := (if p_isResponse q \<and> \<not> mp_is IsResponse p then mp_cmd p else mp_origCmd p),
     mp_cmd := (if p_isResponse q \<and> \<not> mp_is IsResponse p then responseCommand (mp_cmd p) else mp_cmd p),
     mp_data := map_option (\<lambda>_. p_data q) (mp_data p),
     rq_extraData := (if mp_is IsLlsc p \<and> mp_is IsWrite p then Some (req_extraData q) else rq_extraData p)\<rparr>"

definition doAtomicAccess :: "int \<Rightarrow> MPacket \<Rightarrow> AbstractMemory \<Rightarrow> (int \<times> MPacket \<times> AbstractMemory) res" where
  "doAtomicAccess latency p m =
     bindE (mem_access (packet_view p) m) (\<lambda>(q, m).
       Inr (if mp_memInhibit p then 0 else latency, packet_update q p, m))"

section \<open>The command table\<close>

lemmas command_eval = testCmdAttrib_def responseCommand_def cmd_toInt_def all_commands_def commandInfo_def List.member_iff

lemma command_attributes [simp]:
  "testCmdAttrib a ReadReq \<longleftrightarrow> a \<in> {IsRead, IsRequest, NeedsResponse}"
  "testCmdAttrib a ReadResp \<longleftrightarrow> a \<in> {IsRead, IsResponse, HasData}"
  "testCmdAttrib a WriteReq \<longleftrightarrow> a \<in> {IsWrite, NeedsExclusive, IsRequest, NeedsResponse, HasData}"
  "testCmdAttrib a WriteResp \<longleftrightarrow> a \<in> {IsWrite, NeedsExclusive, IsResponse}"
  "testCmdAttrib a Writeback \<longleftrightarrow> a \<in> {IsWrite, NeedsExclusive, IsRequest, HasData}"
  "testCmdAttrib a UpgradeReq \<longleftrightarrow> a \<in> {IsInvalidate, NeedsExclusive, IsUpgrade, IsRequest, NeedsResponse}"
  "testCmdAttrib a SCUpgradeReq \<longleftrightarrow> a \<in> {IsInvalidate, NeedsExclusive, IsUpgrade, IsLlsc, IsRequest, NeedsResponse}"
  "testCmdAttrib a UpgradeResp \<longleftrightarrow> a \<in> {NeedsExclusive, IsUpgrade, IsResponse}"
  "testCmdAttrib a ReadExReq \<longleftrightarrow> a \<in> {IsRead, NeedsExclusive, IsInvalidate, IsRequest, NeedsResponse}"
  "testCmdAttrib a ReadExResp \<longleftrightarrow> a \<in> {IsRead, NeedsExclusive, IsResponse, HasData}"
  "testCmdAttrib a LoadLockedReq \<longleftrightarrow> a \<in> {IsRead, IsLlsc, IsRequest, NeedsResponse}"
  "testCmdAttrib a StoreCondReq \<longleftrightarrow> a \<in> {IsWrite, NeedsExclusive, IsLlsc, IsRequest, NeedsResponse, HasData}"
  "testCmdAttrib a StoreCondResp \<longleftrightarrow> a \<in> {IsWrite, NeedsExclusive, IsLlsc, IsResponse}"
  "testCmdAttrib a SwapReq \<longleftrightarrow> a \<in> {IsRead, IsWrite, NeedsExclusive, IsRequest, HasData, NeedsResponse}"
  "testCmdAttrib a SwapResp \<longleftrightarrow> a \<in> {IsRead, IsWrite, NeedsExclusive, IsResponse, HasData}"
  by (simp_all add: command_eval)

lemma command_response [simp]:
  "responseCommand ReadReq = ReadResp" "responseCommand WriteReq = WriteResp" "responseCommand UpgradeReq = UpgradeResp"
  "responseCommand SCUpgradeReq = UpgradeResp" "responseCommand ReadExReq = ReadExResp" "responseCommand LoadLockedReq = ReadResp"
  "responseCommand StoreCondReq = StoreCondResp" "responseCommand SwapReq = SwapResp"
  by (simp_all add: command_eval)

text \<open>
  (C40) The table has one row per command. No command is both a request and a response. Every command
  that needs a response is a request, and its row names a response that reads and writes as the request does,
  carries data when the request reads, and needs no response itself.
\<close>

theorem commandInfo_consistent:
  "length commandInfo = length all_commands \<and> distinct all_commands \<and> set all_commands = UNIV \<and>
   (\<forall>c. \<not> (testCmdAttrib IsRequest c \<and> testCmdAttrib IsResponse c)) \<and>
   (\<forall>c. if testCmdAttrib NeedsResponse c
      then testCmdAttrib IsRequest c \<and> testCmdAttrib IsResponse (responseCommand c) \<and>
        \<not> testCmdAttrib NeedsResponse (responseCommand c) \<and> \<not> testCmdAttrib IsError (responseCommand c) \<and>
        testCmdAttrib IsRead (responseCommand c) = testCmdAttrib IsRead c \<and>
        testCmdAttrib IsWrite (responseCommand c) = testCmdAttrib IsWrite c \<and>
        testCmdAttrib HasData (responseCommand c) = testCmdAttrib IsRead c
      else responseCommand c = InvalidCmd)"
proof -
  have "c \<in> set all_commands" for c by (cases c) (simp_all add: all_commands_def)
  then have "set all_commands = UNIV" by blast
  moreover have "\<not> (testCmdAttrib IsRequest c \<and> testCmdAttrib IsResponse c)" for c
    by (cases c) (simp_all add: command_eval)
  moreover have "if testCmdAttrib NeedsResponse c
      then testCmdAttrib IsRequest c \<and> testCmdAttrib IsResponse (responseCommand c) \<and>
        \<not> testCmdAttrib NeedsResponse (responseCommand c) \<and> \<not> testCmdAttrib IsError (responseCommand c) \<and>
        testCmdAttrib IsRead (responseCommand c) = testCmdAttrib IsRead c \<and>
        testCmdAttrib IsWrite (responseCommand c) = testCmdAttrib IsWrite c \<and>
        testCmdAttrib HasData (responseCommand c) = testCmdAttrib IsRead c
      else responseCommand c = InvalidCmd" for c
    by (cases c) (simp_all add: command_eval)
  ultimately show ?thesis by (simp add: commandInfo_def all_commands_def)
qed

section \<open>Functional requests\<close>

text \<open>A range of bytes that does not wrap around the address space, of a size that fits in an \<open>int\<close>.\<close>

definition span_ok :: "Addr \<Rightarrow> nat \<Rightarrow> bool" where
  "span_ok a n \<longleftrightarrow> 0 < n \<and> n < 2 ^ 31 \<and> unat a + n \<le> 2 ^ 64"

lemma span_last:
  assumes "span_ok a n"
  shows "unat (a + of_nat n - 1) = unat a + n - 1"
proof -
  have n: "0 < n" "unat a + n \<le> 2 ^ 64" using assms by (auto simp: span_ok_def)
  have "of_nat (unat a + n - 1) = (of_nat (unat a + n) - of_nat 1 :: Addr)"
    using n(1) by (intro of_nat_diff) linarith
  then have "a + of_nat n - 1 = of_nat (unat a + n - 1)" by simp
  moreover have "unat (of_nat (unat a + n - 1) :: Addr) = unat a + n - 1"
    using n unfolding unat_of_nat by (intro mod_less) simp
  ultimately show ?thesis by (rule ssubst)
qed

lemma int32_offset_pos:
  assumes "b \<le> a" "unat a - unat b < 2 ^ 31"
  shows "int32 (uint (a - b :: Addr)) = int (unat a - unat b)"
proof -
  have "uint (a - b) = int (unat a - unat b)"
    using assms(1) by (metis uint_nat unat_sub)
  then show ?thesis using assms(2) by simp
qed

lemma int32_offset_neg:
  assumes "a < b" "unat b - unat a < 2 ^ 31"
  shows "int32 (uint (a - b :: Addr)) = - int (unat b - unat a)"
proof -
  let ?k = "int (unat b - unat a)"
  have "unat a \<le> unat b" using assms(1) by (simp add: word_less_nat_alt)
  then have k: "uint a - uint b = - ?k" by (simp only: uint_nat of_nat_diff)
  have "int32 (uint (a - b)) = signed_take_bit 31 (take_bit 64 (uint a - uint b))"
    by (simp add: int32_def take_bit_eq_mod uint_word_ariths)
  also have "\<dots> = int32 (uint a - uint b)"
    unfolding int32_def signed_take_bit_eq_iff_take_bit_eq by (simp add: min_def)
  also have "\<dots> = - ?k" using assms(2) unfolding k by (intro int32_id) simp_all
  finally show ?thesis .
qed

lemma memcpy_at_nat:
  assumes "0 < n" "i + n \<le> length dest" "j + n \<le> length src"
  shows "memcpy_at dest (int i) src (int j) (int n) = Inr (take i dest @ take n (drop j src) @ drop (i + n) dest)"
  using assms by (simp add: memcpy_at_def nat_int_add)

text \<open>The value, a packet and where the request starts in the value.\<close>

lemma checkFunctional_contained:
  assumes p: "span_ok (mp_addr p) (mp_size p)" "mp_is IsRead p" "\<not> mp_is IsPrint p"
      "\<forall>d. mp_data p = Some d \<longrightarrow> length d = mp_size p"
    and v: "span_ok vs (length data)"
    and c: "unat vs \<le> unat (mp_addr p)" "unat (mp_addr p) + mp_size p \<le> unat vs + length data"
  shows "checkFunctional vs (int (length data)) (Some data) p = Inr (True,
    p\<lparr>mp_data := Some (take (mp_size p) (drop (unat (mp_addr p) - unat vs) data))\<rparr>, Some data)"
proof -
  let ?f = "mp_addr p" and ?n = "mp_size p" and ?k = "unat (mp_addr p) - unat vs"
  have n: "0 < ?n" "?n < 2 ^ 31" "length data < 2 ^ 31" "0 < length data" using p(1) v by (auto simp: span_ok_def)
  have e: "unat (?f + of_nat ?n - 1) = unat ?f + ?n - 1" "unat (vs + of_nat (length data) - 1) = unat vs + length data - 1"
    by (rule span_last [OF p(1)], rule span_last [OF v])
  have le: "vs \<le> ?f" using c(1) by (simp add: word_le_nat_alt)
  have o: "int32 (uint (?f - vs)) = int ?k"
    using c n by (intro int32_offset_pos [OF le]) simp
  obtain d where d: "mp_data (allocate p) = Some d" "length d = ?n" "(allocate p)\<lparr>mp_data := x\<rparr> = p\<lparr>mp_data := x\<rparr>" for x
    using p(4) by (cases "mp_data p") (auto simp: allocate_def)
  have "memcpy_at d 0 data (int ?k) (int ?n) = Inr (take ?n (drop ?k data))"
    using memcpy_at_nat [of ?n 0 d ?k data] n(1) d(2) c by simp
  moreover have "\<not> vs + of_nat (length data) - 1 < ?f" "\<not> ?f + of_nat ?n - 1 < vs"
      "vs \<le> ?f \<and> ?f + of_nat ?n - 1 \<le> vs + of_nat (length data) - 1"
    unfolding word_less_nat_alt word_le_nat_alt e using n c by linarith+
  ultimately show ?thesis
    using p(2,3) d o by (simp add: checkFunctional_def Let_def getPtr_def del: of_nat_diff)
qed

lemma span_count:
  fixes a e :: Addr
  assumes "unat e + 1 = x" "unat a < x" "x - unat a \<le> 2 ^ 31"
  shows "uint (e - a + 1) = int (x - unat a)"
proof -
  have "unat (e - a) = unat e - unat a" using assms by (intro unat_sub) (simp add: word_le_nat_alt)
  then have "unat (e - a + 1) = x - unat a"
    using assms by (simp add: unat_word_ariths)
  then show ?thesis by (simp only: uint_nat)
qed

lemma nth_memcpy:
  assumes "i + n \<le> length dest" "j + n \<le> length src" "k < length dest"
  shows "(take i dest @ take n (drop j src) @ drop (i + n) dest) ! k =
    (if i \<le> k \<and> k < i + n then src ! (j + (k - i)) else dest ! k)"
proof -
  have l: "length (take i dest) = i" "length (take n (drop j src)) = n" using assms(1,2) by auto
  consider "k < i" | "i \<le> k" "k < i + n" | "i + n \<le> k" by linarith
  then show ?thesis
  proof cases
    case 1
    then show ?thesis using assms by (simp add: nth_append)
  next
    case 2
    then have "k - i < n" by linarith
    then show ?thesis using 2 assms(2) l unfolding nth_append by (simp add: add.commute)
  next
    case 3
    then have "\<not> k - i < n" "\<not> k < i" by linarith+
    then show ?thesis using 3 assms l unfolding nth_append by simp
  qed
qed

text \<open>The copy of the bytes that the ranges \<open>[f, f + n)\<close> and \<open>[v, v + m)\<close> have in common.\<close>

lemma overlap_copy:
  assumes "v < f + n" "f < v + m" "0 < n" "0 < m" and d: "length d = n" "length data = m"
  shows "\<exists>data'. memcpy_at data (int (max f v - v)) d (int (max f v - f)) (int (min (f + n) (v + m) - max f v)) = Inr data' \<and>
    length data' = m \<and> (\<forall>k < m. data' ! k = (if f \<le> v + k \<and> v + k < f + n then d ! (v + k - f) else data ! k))"
proof -
  let ?i = "max f v - v" and ?j = "max f v - f" and ?c = "min (f + n) (v + m) - max f v"
  let ?r = "take ?i data @ take ?c (drop ?j d) @ drop (?i + ?c) data"
  have b: "0 < ?c" "?i + ?c \<le> length data" "?j + ?c \<le> length d" using assms by linarith+
  have "?r ! k = (if f \<le> v + k \<and> v + k < f + n then d ! (v + k - f) else data ! k)" if k: "k < m" for k
  proof -
    have r: "?r ! k = (if ?i \<le> k \<and> k < ?i + ?c then d ! (?j + (k - ?i)) else data ! k)"
      using k d(2) by (intro nth_memcpy [OF b(2,3)]) simp
    show ?thesis
    proof (cases "f \<le> v + k \<and> v + k < f + n")
      case True
      then have "?i \<le> k \<and> k < ?i + ?c" "?j + (k - ?i) = v + k - f" using k by linarith+
      then show ?thesis using True r by presburger
    next
      case False
      then have "\<not> (?i \<le> k \<and> k < ?i + ?c)" using assms(1-4) by linarith
      then show ?thesis using False r by presburger
    qed
  qed
  then show ?thesis using memcpy_at_nat [OF b] b d by auto
qed

lemma checkFunctional_write:
  assumes p: "span_ok (mp_addr p) (mp_size p)" "mp_is IsWrite p" "\<not> mp_is IsRead p" "\<not> mp_is IsPrint p"
      "mp_data p = Some d" "length d = mp_size p"
    and v: "span_ok vs (length data)"
    and c: "unat vs < unat (mp_addr p) + mp_size p" "unat (mp_addr p) < unat vs + length data"
  shows "\<exists>data'. checkFunctional vs (int (length data)) (Some data) p = Inr (False, p, Some data') \<and>
    length data' = length data \<and> (\<forall>k < length data. data' ! k =
      (if unat (mp_addr p) \<le> unat vs + k \<and> unat vs + k < unat (mp_addr p) + mp_size p
       then d ! (unat vs + k - unat (mp_addr p)) else data ! k))"
proof -
  let ?f = "mp_addr p" and ?n = "mp_size p" and ?m = "length data"
  let ?fe = "?f + of_nat ?n - 1" and ?ve = "vs + of_nat ?m - 1"
  have n: "0 < ?n" "?n < 2 ^ 31" "?m < 2 ^ 31" "0 < ?m" using p(1) v by (auto simp: span_ok_def)
  have e: "unat ?fe = unat ?f + ?n - 1" "unat ?ve = unat vs + ?m - 1"
    by (rule span_last [OF p(1)], rule span_last [OF v])
  have meet: "\<not> ?ve < ?f" "\<not> ?fe < vs" unfolding word_less_nat_alt e using n c by linarith+
  have mn: "unat (min ?fe ?ve) + 1 = min (unat ?f + ?n) (unat vs + ?m)"
  proof -
    have "unat (min ?fe ?ve) = min (unat ?fe) (unat ?ve)" by (simp add: min_def word_le_nat_alt)
    then show ?thesis unfolding e using n(1,4) by linarith
  qed
  note copy = overlap_copy [OF c n(1,4) p(6) refl]
  show ?thesis
  proof (cases "vs \<le> ?f")
    case True
    then have le: "max (unat ?f) (unat vs) = unat ?f" by (simp add: word_le_nat_alt)
    have "int32 (uint (?f - vs)) = int (unat ?f - unat vs)" using c n by (intro int32_offset_pos [OF True]) linarith
    moreover have "uint (min ?fe ?ve - ?f + 1) = int (min (unat ?f + ?n) (unat vs + ?m) - unat ?f)"
      using n c by (intro span_count [OF mn]) auto
    ultimately show ?thesis
      using p(2-5) meet copy unfolding le
      by (auto simp: checkFunctional_def Let_def getPtr_def simp del: of_nat_diff)
  next
    case False
    then have le: "max (unat ?f) (unat vs) = unat vs" "unat ?f < unat vs" by (simp_all add: word_le_nat_alt)
    have "int32 (uint (?f - vs)) = - int (unat vs - unat ?f)"
      using False c n by (intro int32_offset_neg) auto
    moreover have "uint (min ?fe ?ve - vs + 1) = int (min (unat ?f + ?n) (unat vs + ?m) - unat vs)"
      using n c by (intro span_count [OF mn]) auto
    ultimately show ?thesis
      using p(2-5) meet copy le(2) unfolding le(1)
      by (auto simp: checkFunctional_def Let_def getPtr_def simp del: of_nat_diff)
  qed
qed

text \<open>
  (C30) A functional request against a value: a read of bytes that the value contains is done and returns
  them; a write goes on, and changes exactly the bytes of the value that it addresses; a request that does not meet
  the value changes nothing.
\<close>

theorem checkFunctional_correct:
  assumes "span_ok (mp_addr p) (mp_size p)" "span_ok vs (length data)" "\<not> mp_is IsPrint p"
    and "mp_data p = Some d" "length d = mp_size p"
  shows "(mp_is IsRead p \<and> unat vs \<le> unat (mp_addr p) \<and> unat (mp_addr p) + mp_size p \<le> unat vs + length data \<longrightarrow>
      checkFunctional vs (int (length data)) (Some data) p = Inr (True,
        p\<lparr>mp_data := Some (take (mp_size p) (drop (unat (mp_addr p) - unat vs) data))\<rparr>, Some data)) \<and>
    (mp_is IsWrite p \<and> \<not> mp_is IsRead p \<and> unat vs < unat (mp_addr p) + mp_size p \<and> unat (mp_addr p) < unat vs + length data \<longrightarrow>
      (\<exists>data'. checkFunctional vs (int (length data)) (Some data) p = Inr (False, p, Some data') \<and>
         length data' = length data \<and> (\<forall>k < length data. data' ! k =
           (if unat (mp_addr p) \<le> unat vs + k \<and> unat vs + k < unat (mp_addr p) + mp_size p
            then d ! (unat vs + k - unat (mp_addr p)) else data ! k)))) \<and>
    (unat (mp_addr p) + mp_size p \<le> unat vs \<or> unat vs + length data \<le> unat (mp_addr p) \<longrightarrow>
      checkFunctional vs (int (length data)) (Some data) p = Inr (False, p, Some data))"
proof -
  have n: "0 < mp_size p" "0 < length data" using assms(1,2) by (auto simp: span_ok_def)
  have "checkFunctional vs (int (length data)) (Some data) p = Inr (False, p, Some data)"
    if "unat (mp_addr p) + mp_size p \<le> unat vs \<or> unat vs + length data \<le> unat (mp_addr p)"
  proof -
    have "mp_addr p + of_nat (mp_size p) - 1 < vs \<or> vs + of_nat (length data) - 1 < mp_addr p"
      unfolding word_less_nat_alt span_last [OF assms(1)] span_last [OF assms(2)] using that n by linarith
    then show ?thesis by (auto simp: checkFunctional_def Let_def)
  qed
  moreover have "\<forall>x. mp_data p = Some x \<longrightarrow> length x = mp_size p" using assms(4,5) by simp
  note checkFunctional_contained [OF assms(1) _ assms(3) this assms(2)]
  moreover note checkFunctional_write [OF assms(1) _ _ assms(3-5,2)]
  ultimately show ?thesis by blast
qed

definition byte_packet :: "MemCmd \<Rightarrow> Addr \<Rightarrow> u8 list \<Rightarrow> MPacket" where
  "byte_packet c a d = \<lparr>mp_cmd = c, mp_origCmd = InvalidCmd, mp_addr = a, mp_size = length d, mp_data = Some d,
     mp_shared = False, mp_memInhibit = False, mp_supplyExclusive = False, mp_bytesValidStart = 0, mp_bytesValidEnd = 0,
     mp_finishTime = 0, rq_paddr = a, rq_masterId = 1, rq_contextId = Some 0, rq_uncacheable = False, rq_clearLL = False,
     rq_condSwap = False, rq_instFetch = False, rq_extraData = None\<rparr>"

lemma byte_packet_simps [simp]:
  "mp_cmd (byte_packet c a d) = c" "mp_addr (byte_packet c a d) = a" "mp_size (byte_packet c a d) = length d"
  "mp_data (byte_packet c a d) = Some d" "mp_bytesValidStart (byte_packet c a d) = 0"
  "mp_bytesValidEnd (byte_packet c a d) = 0"
  by (simp_all add: byte_packet_def)

theorem checkFunctional_correct_witness:
  "checkFunctional 0x100 4 (Some [1, 2, 3, 4]) (byte_packet ReadReq 0x101 [0, 0]) =
     Inr (True, (byte_packet ReadReq 0x101 [0, 0])\<lparr>mp_data := Some [2, 3]\<rparr>, Some [1, 2, 3, 4])"
  using checkFunctional_correct [of "byte_packet ReadReq 0x101 [0, 0]" "0x100" "[1, 2, 3, 4]" "[0, 0]"]
  by (simp add: span_ok_def)

text \<open>The parts of a read that runs over the end of the first value into the second.\<close>

lemma first_part_short:
  assumes p: "span_ok (mp_addr p) (mp_size p)" "mp_is IsRead p" "\<not> mp_is IsPrint p" "mp_data p = Some d" "length d = mp_size p"
      "mp_bytesValidStart p = 0" "mp_bytesValidEnd p = 0" "mp_size p < 2 ^ 16"
    and v: "span_ok vs (length data)" "unat vs < unat (mp_addr p)"
    and c: "unat (mp_addr p) + 2 \<le> unat vs + length data" "unat vs + length data < unat (mp_addr p) + mp_size p"
  defines "k \<equiv> unat vs + length data - unat (mp_addr p)"
  shows "\<exists>d'. checkFunctional vs (int (length data)) (Some data) p =
    Inr (False, p\<lparr>mp_bytesValidStart := 0, mp_bytesValidEnd := int k - 1, mp_data := Some d'\<rparr>, Some data)"
proof -
  let ?f = "mp_addr p" and ?n = "mp_size p" and ?m = "length data"
  let ?fe = "?f + of_nat ?n - 1" and ?ve = "vs + of_nat ?m - 1"
  have n: "0 < ?n" "?n < 2 ^ 31" "?m < 2 ^ 31" "0 < ?m" using p(1) v by (auto simp: span_ok_def)
  have e: "unat ?fe = unat ?f + ?n - 1" "unat ?ve = unat vs + ?m - 1"
    by (rule span_last [OF p(1)], rule span_last [OF v(1)])
  have cmp: "\<not> ?ve < ?f" "\<not> ?fe < vs" "\<not> ?fe \<le> ?ve" "vs < ?f" "?ve \<le> ?fe"
    unfolding word_less_nat_alt word_le_nat_alt e using n c v(2) by linarith+
  have o: "int32 (uint (?f - vs)) = int (unat ?f - unat vs)"
    using cmp(4) c n by (intro int32_offset_pos) auto
  have "int32 (uint (?ve - ?f)) = int (unat ?ve - unat ?f)"
    using cmp(1) n e v(2) by (intro int32_offset_pos) (auto simp: word_less_nat_alt word_le_nat_alt)
  then have ov: "int32 (uint (?ve - ?f)) = int (k - 1)" using e(2) c by (simp add: k_def)
  have b: "0 < k - 1" "0 + (k - 1) \<le> length d" "unat ?f - unat vs + (k - 1) \<le> ?m"
    unfolding k_def using c v(2) p(5) by linarith+
  have "k \<le> ?n" "int (k - 1) = int k - 1" using b c unfolding k_def by linarith+
  then have u: "u16_of (int (k - 1)) = int k - 1" "int k - 1 \<noteq> int ?n" "int k - 1 \<le> int ?n"
    using p(8) b(1) by (auto simp: u16_of_def)
  show ?thesis
    using p(2-7) cmp o ov u memcpy_at_nat [OF b]
    by (auto simp: checkFunctional_def Let_def partial_overlap_def merge_valid_def getPtr_def u16_of_def simp del: of_nat_diff)
qed

lemma second_part_gap:
  assumes p: "span_ok (mp_addr p) (mp_size p)" "mp_is IsRead p" "\<not> mp_is IsPrint p"
      "mp_bytesValidStart p = 0" "mp_bytesValidEnd p = int k - 1"
    and v: "span_ok ws (length data)" "unat ws = unat (mp_addr p) + k" "2 \<le> k" "k < mp_size p"
  shows "checkFunctional ws (int (length data)) (Some data) p = Inl Panic"
proof -
  let ?f = "mp_addr p" and ?n = "mp_size p" and ?m = "length data"
  let ?fe = "?f + of_nat ?n - 1" and ?we = "ws + of_nat ?m - 1"
  have n: "0 < ?n" "?n < 2 ^ 31" "?m < 2 ^ 31" "0 < ?m" using p(1) v by (auto simp: span_ok_def)
  have e: "unat ?fe = unat ?f + ?n - 1" "unat ?we = unat ws + ?m - 1"
    by (rule span_last [OF p(1)], rule span_last [OF v(1)])
  have cmp: "\<not> ?we < ?f" "\<not> ?fe < ws" "\<not> ws \<le> ?f" "?f \<le> ws" "\<not> ws < ?f"
    unfolding word_less_nat_alt word_le_nat_alt e using n v by linarith+
  have o: "int32 (uint (ws - ?f)) = int k"
    using int32_offset_pos [OF cmp(4)] v(2,4) n by simp
  have "int32 (uint (?fe - ws)) = int (unat ?fe - unat ws)"
    using cmp(2) e v n by (intro int32_offset_pos) auto
  then have "0 \<le> int32 (uint (?fe - ws))" by simp
  then show ?thesis
    using p cmp o v(3) n
    by (auto simp: checkFunctional_def Let_def partial_overlap_def merge_valid_def)
qed

text \<open>
  (C39) The size of a partial overlap is computed one byte short when the request runs over an end of the
  value. So a functional read that starts inside one value, with two or more of its bytes there, and goes on into the
  value next to it takes one byte too few from the first and panics on the second.
\<close>

theorem functional_split_read_panics:
  assumes "span_ok (mp_addr p) (mp_size p)" "mp_size p < 2 ^ 16" "mp_is IsRead p" "\<not> mp_is IsPrint p"
    and "mp_data p = Some d" "length d = mp_size p" "mp_bytesValidStart p = 0" "mp_bytesValidEnd p = 0"
    and "span_ok vs (length xs)" "span_ok ws (length ys)" "unat ws = unat vs + length xs"
    and "unat vs < unat (mp_addr p)" "unat (mp_addr p) + 2 \<le> unat ws" "unat ws < unat (mp_addr p) + mp_size p"
  shows "\<exists>p'. checkFunctional vs (int (length xs)) (Some xs) p = Inr (False, p', Some xs) \<and>
    checkFunctional ws (int (length ys)) (Some ys) p' = Inl Panic"
proof -
  let ?k = "unat vs + length xs - unat (mp_addr p)"
  obtain d' where first: "checkFunctional vs (int (length xs)) (Some xs) p =
      Inr (False, p\<lparr>mp_bytesValidStart := 0, mp_bytesValidEnd := int ?k - 1, mp_data := Some d'\<rparr>, Some xs)" (is "_ = Inr (False, ?p, _)")
    using first_part_short [of p d vs xs] assms by auto
  have "checkFunctional ws (int (length ys)) (Some ys) ?p = Inl Panic"
    using assms by (intro second_part_gap [where k = ?k]) auto
  with first show ?thesis by blast
qed

theorem functional_split_read_panics_witness:
  "\<exists>p'. checkFunctional 0x100 4 (Some [1, 2, 3, 4]) (byte_packet ReadReq 0x102 [0, 0, 0, 0]) = Inr (False, p', Some [1, 2, 3, 4]) \<and>
     checkFunctional 0x104 4 (Some [5, 6, 7, 8]) p' = Inl Panic"
  using functional_split_read_panics [of "byte_packet ReadReq 0x102 [0, 0, 0, 0]" "[0, 0, 0, 0]" "0x100" "[1, 2, 3, 4]"
      "0x104" "[5, 6, 7, 8]"]
  by (simp add: span_ok_def)

end
