(* ===== verification/Cache_Access.thy ===== *)
theory Cache_Access
  imports Cache_Tags Mem_Packet
begin

text \<open>
  A cache over a set-associative tag store in atomic mode (\<open>src/src/mem/cache/cache_impl.hh\<close>): the access path, the
  fill, the replacement with its writebacks and the atomic access, over a memory side port that is an argument. The
  timing mode, snoops, prefetching and the statistics other than those of the tag store are not modelled; of the
  miss status registers, which only the timing mode fills, the addresses and the need for exclusivity are kept.
\<close>

section \<open>Definitions\<close>

record Cache =
  c_tags :: LRU
  c_blkSize :: u32
  c_hitLatency :: int
  c_isTopLevel :: bool
  c_maxMasters :: int
  c_mshrs :: "(Addr \<times> bool) list"
  c_tempBlock :: CacheBlk
  c_junk :: int

text \<open>
  A pointer to a block refers to a block of the tag store or to the temporary block. \<open>c_junk\<close> is the value that
  the constructor of a packet, which does not set \<open>finishTime\<close>, leaves in that field.
\<close>

datatype blk_ref = Tagged nat | Temp

definition get_blk :: "blk_ref \<Rightarrow> Cache \<Rightarrow> CacheBlk res" where
  "get_blk r c = (case r of Tagged b \<Rightarrow> deref (lru_blks (c_tags c)) (Some b) | Temp \<Rightarrow> Inr (c_tempBlock c))"

definition put_blk :: "blk_ref \<Rightarrow> CacheBlk \<Rightarrow> Cache \<Rightarrow> Cache" where
  "put_blk r x c = (case r of Tagged b \<Rightarrow> c\<lparr>c_tags := (c_tags c)\<lparr>lru_blks := (lru_blks (c_tags c))[b := x]\<rparr>\<rparr>
     | Temp \<Rightarrow> c\<lparr>c_tempBlock := x\<rparr>)"

definition cache_invalidateBlk :: "blk_ref \<Rightarrow> Cache \<Rightarrow> Cache res" where
  "cache_invalidateBlk r c =
     bindE (get_blk r c) (\<lambda>b.
     bindE (invalidate_with (c_maxMasters c) b (c_tags c)) (\<lambda>(l, b). Inr (put_blk r b (c\<lparr>c_tags := l\<rparr>))))"

text \<open>\<open>MSHRQueue::findMatch\<close>: the register of an address, by its need for exclusivity.\<close>

definition findMatch :: "Addr \<Rightarrow> Cache \<Rightarrow> bool option" where
  "findMatch a c = map_option snd (List.find (\<lambda>m. fst m = a) (c_mshrs c))"

text \<open>The constructor, over a tag store, with fresh storage for the temporary block.\<close>

definition Cache_ctor :: "LRU \<Rightarrow> u32 \<Rightarrow> int \<Rightarrow> bool \<Rightarrow> int \<Rightarrow> u8 list \<Rightarrow> int \<Rightarrow> Cache" where
  "Cache_ctor tags blkSize lat topLevel masters fresh junk = \<lparr>c_tags = tags, c_blkSize = blkSize, c_hitLatency = lat, c_isTopLevel = topLevel,
     c_maxMasters = masters, c_mshrs = [], c_tempBlock = CacheBlk_ctor\<lparr>cb_data := fresh\<rparr>, c_junk = junk\<rparr>"

subsection \<open>The access path\<close>

definition swap_overwrites :: "MPacket \<Rightarrow> u8 list \<Rightarrow> bool res" where
  "swap_overwrites p old =
     (if \<not> rq_condSwap p then Inr True
      else if mp_size p = 8 then bindE (rq_getExtraData p) (\<lambda>x. Inr (to_bytes x = old))
      else if mp_size p = 4 then bindE (rq_getExtraData p) (\<lambda>x. Inr (to_bytes (ucast x :: u32) = old))
      else Inl Panic)"

definition cmpAndSwap :: "CacheBlk \<Rightarrow> MPacket \<Rightarrow> Cache \<Rightarrow> (MPacket \<times> CacheBlk) res" where
  "cmpAndSwap b p c =
     (let offset = lru_extractBlkOffset (mp_addr p) (c_tags c) in
      bindE (assertE (mp_size p \<le> 8)) (\<lambda>_.
      bindE (getPtr p) (\<lambda>overwrite_val.
      bindE (host_read offset (mp_size p) (cb_data b)) (\<lambda>old.
      bindE (swap_overwrites p old) (\<lambda>overwrite_mem.
      let p = p\<lparr>mp_data := Some old\<rparr> in
      if overwrite_mem then
        bindE (host_write offset (take (mp_size p) overwrite_val) (cb_data b)) (\<lambda>d.
          Inr (p, b\<lparr>cb_data := d, cb_status := cb_status b OR BlkDirty\<rparr>))
      else Inr (p, b))))))"

text \<open>The branches of \<open>satisfyCpuSideRequest\<close> for writes and for reads of a whole block, which other caches issue.\<close>

definition satisfy_write :: "u32 \<Rightarrow> CacheBlk \<Rightarrow> MPacket \<Rightarrow> (MPacket \<times> CacheBlk) res" where
  "satisfy_write blkSize b p =
     bindE (blk_checkWrite (mp_is IsLlsc p) (rq_contextId p) b) (\<lambda>(ok, extra, b).
      let p = (case extra of None \<Rightarrow> p | Some x \<Rightarrow> p\<lparr>rq_extraData := Some (of_nat x)\<rparr>) in
      if ok then bindE (writeDataToBlock blkSize (cb_data b) p) (\<lambda>d.
        Inr (p, b\<lparr>cb_data := d, cb_status := cb_status b OR BlkDirty\<rparr>))
      else Inr (p, b))"

definition satisfy_block_read :: "bool \<Rightarrow> bool \<Rightarrow> blk_ref \<Rightarrow> CacheBlk \<Rightarrow> MPacket \<Rightarrow> Cache \<Rightarrow> (MPacket \<times> Cache) res" where
  "satisfy_block_read deferred_response pending_downgrade r b p c =
     (if mp_is NeedsExclusive p then
        let p = (if isDirty b then p\<lparr>mp_memInhibit := True\<rparr> else p) in
        bindE (cache_invalidateBlk r (put_blk r b c)) (\<lambda>c. Inr (p, c))
      else if isWritable b \<and> \<not> pending_downgrade \<and> \<not> mp_shared p then
        (if isDirty b then
           if \<not> deferred_response \<and> \<not> c_isTopLevel c then
             Inr (p\<lparr>mp_memInhibit := True\<rparr>, put_blk r (b\<lparr>cb_status := cb_status b AND NOT BlkDirty\<rparr>) c)
           else Inr (p\<lparr>mp_shared := True\<rparr>, put_blk r b c)
         else Inr (p, put_blk r b c))
      else Inr (p\<lparr>mp_shared := True\<rparr>, put_blk r b c))"

definition satisfyCpuSideRequest :: "bool \<Rightarrow> bool \<Rightarrow> MPacket \<Rightarrow> blk_ref \<Rightarrow> Cache \<Rightarrow> (MPacket \<times> Cache) res" where
  "satisfyCpuSideRequest deferred_response pending_downgrade p r c =
     bindE (get_blk r c) (\<lambda>b.
     bindE (assertE (isValid b)) (\<lambda>_.
     bindE (assertE (getOffset (c_blkSize c) p + mp_size p \<le> unat (c_blkSize c))) (\<lambda>_.
     if mp_cmd p = SwapReq then bindE (cmpAndSwap b p c) (\<lambda>(p, b). Inr (p, put_blk r b c))
     else if mp_is IsWrite p then bindE (satisfy_write (c_blkSize c) b p) (\<lambda>(p, b). Inr (p, put_blk r b c))
     else if mp_is IsRead p then
       bindE (if mp_is IsLlsc p then blk_trackLoadLocked (mp_is IsLlsc p) (rq_contextId p) b else Inr b) (\<lambda>b.
       bindE (setDataFromBlock (c_blkSize c) (cb_data b) p) (\<lambda>p.
         if mp_size p = unat (c_blkSize c) then satisfy_block_read deferred_response pending_downgrade r b p c
         else Inr (p, put_blk r b c)))
     else
       bindE (assertE (mp_is IsUpgrade p)) (\<lambda>_.
       bindE (cache_invalidateBlk r c) (\<lambda>c. Inr (p, c))))))"

definition wbMasterId :: int where "wbMasterId = 0"

definition writebackBlk :: "blk_ref \<Rightarrow> Cache \<Rightarrow> (MPacket \<times> Cache) res" where
  "writebackBlk r c =
     bindE (get_blk r c) (\<lambda>b.
     bindE (assertE (isValid b \<and> isDirty b)) (\<lambda>_.
      let a = lru_regenerateBlkAddr (cb_tag b) (nat (cb_set b)) (c_tags c) in
      bindE (host_read 0 (unat (c_blkSize c)) (cb_data b)) (\<lambda>d.
        Inr (\<lparr>mp_cmd = Writeback, mp_origCmd = InvalidCmd, mp_addr = a, mp_size = unat (c_blkSize c), mp_data = Some d,
            mp_shared = False, mp_memInhibit = False, mp_supplyExclusive = isWritable b, mp_bytesValidStart = 0,
            mp_bytesValidEnd = 0, mp_finishTime = c_junk c, rq_paddr = a, rq_masterId = wbMasterId, rq_contextId = None,
            rq_uncacheable = False, rq_clearLL = False, rq_condSwap = False, rq_instFetch = False, rq_extraData = None\<rparr>,
          put_blk r (b\<lparr>cb_status := cb_status b AND NOT BlkDirty\<rparr>) c))))"

text \<open>The block to fill, the cache and the writebacks after the replacement; no block when it is in transition.\<close>

definition allocateBlock :: "Addr \<Rightarrow> MPacket list \<Rightarrow> Cache \<Rightarrow> (ptr \<times> MPacket list \<times> Cache) res" where
  "allocateBlock addr wbs c =
     bindE (lru_findVictim addr (c_tags c)) (\<lambda>blk.
     bindE (get_blk (Tagged blk) c) (\<lambda>b.
     if isValid b then
       (case findMatch (lru_regenerateBlkAddr (cb_tag b) (nat (cb_set b)) (c_tags c)) c of
          Some needsExclusive \<Rightarrow>
            bindE (assertE (\<not> isWritable b)) (\<lambda>_.
            bindE (assertE needsExclusive) (\<lambda>_. Inr (None, wbs, c)))
        | None \<Rightarrow>
            if isDirty b then bindE (writebackBlk (Tagged blk) c) (\<lambda>(wb, c). Inr (Some blk, wbs @ [wb], c))
            else Inr (Some blk, wbs, c))
     else Inr (Some blk, wbs, c)))"

definition cache_insertBlock :: "Addr \<Rightarrow> nat \<Rightarrow> int \<Rightarrow> Cache \<Rightarrow> Cache res" where
  "cache_insertBlock addr blk master_id c =
     bindE (lru_insertBlock (c_maxMasters c) addr blk master_id (c_tags c)) (\<lambda>l. Inr (c\<lparr>c_tags := l\<rparr>))"

text \<open>\<open>incHitCount\<close> and \<open>incMissCount\<close> assert that the master is known; the counters are not kept.\<close>

definition count_access :: "MPacket \<Rightarrow> Cache \<Rightarrow> unit res" where
  "count_access p c = assertE (rq_masterId p < c_maxMasters c)"

text \<open>A writeback of an upper cache, with the block that the tag store found for it.\<close>

definition access_writeback :: "MPacket \<Rightarrow> ptr \<Rightarrow> Cache \<Rightarrow> (bool \<times> ptr \<times> MPacket list \<times> Cache) res" where
  "access_writeback p blk c =
     bindE (assertE (unat (c_blkSize c) = mp_size p)) (\<lambda>_.
     bindE (case blk of Some b \<Rightarrow> Inr (blk, [], c)
       | None \<Rightarrow>
         bindE (allocateBlock (mp_addr p) [] c) (\<lambda>(blk, wbs, c).
           case blk of None \<Rightarrow> bindE (count_access p c) (\<lambda>_. Inr (None, wbs, c))
           | Some b \<Rightarrow>
             bindE (cache_insertBlock (mp_addr p) b (rq_masterId p) c) (\<lambda>c.
             bindE (get_blk (Tagged b) c) (\<lambda>x.
               Inr (blk, wbs, put_blk (Tagged b) (x\<lparr>cb_status := BlkValid OR BlkReadable\<rparr>) c))))) (\<lambda>(blk, wbs, c).
     case blk of None \<Rightarrow> Inr (False, None, wbs, c)
     | Some b \<Rightarrow>
         bindE (get_blk (Tagged b) c) (\<lambda>x.
         bindE (getPtr p) (\<lambda>d.
         bindE (host_write 0 (take (unat (c_blkSize c)) d) (cb_data x)) (\<lambda>d.
          let st = cb_status x OR BlkDirty; st = (if mp_supplyExclusive p then st OR BlkWritable else st);
              c = put_blk (Tagged b) (x\<lparr>cb_data := d, cb_status := st\<rparr>) c in
          bindE (assertE (\<not> mp_is NeedsResponse p)) (\<lambda>_.
          bindE (count_access p c) (\<lambda>_. Inr (True, blk, wbs, c))))))))"

text \<open>Whether the access is satisfied, the block, the latency, the packet, the writebacks and the cache.\<close>

definition cache_access :: "int \<Rightarrow> MPacket \<Rightarrow> Cache \<Rightarrow> (bool \<times> ptr \<times> int \<times> MPacket \<times> MPacket list \<times> Cache) res" where
  "cache_access curTick p c =
     (if rq_uncacheable p then
        bindE (if rq_clearLL p then Inr (lru_clearLocks (c_tags c))
               else bindE (lru_findBlock (mp_addr p) (c_tags c)) (\<lambda>r. lru_invalidateBlk (c_maxMasters c) r (c_tags c))) (\<lambda>l.
          Inr (False, None, c_hitLatency c, p, [], c\<lparr>c_tags := l\<rparr>))
      else
        bindE (lru_accessBlock curTick (mp_addr p) (c_tags c)) (\<lambda>(blk, lat, l).
        let c = c\<lparr>c_tags := l\<rparr> in
        bindE (case blk of None \<Rightarrow> Inr False
          | Some b \<Rightarrow> bindE (get_blk (Tagged b) c) (\<lambda>x. Inr (if mp_is NeedsExclusive p then isWritable x else isReadable x))) (\<lambda>hit.
        if hit then
          bindE (count_access p c) (\<lambda>_.
          bindE (satisfyCpuSideRequest False False p (Tagged (the blk)) c) (\<lambda>(p, c). Inr (True, blk, lat, p, [], c)))
        else if mp_cmd p = Writeback then
          bindE (access_writeback p blk c) (\<lambda>(ok, blk, wbs, c). Inr (ok, blk, lat, p, wbs, c))
        else
          bindE (count_access p c) (\<lambda>_.
          if blk = None \<and> mp_is IsLlsc p \<and> mp_is IsWrite p then Inr (True, blk, lat, p\<lparr>rq_extraData := Some 0\<rparr>, [], c)
          else Inr (False, blk, lat, p, [], c)))))"

subsection \<open>Misses\<close>

definition bus_packet :: "int \<Rightarrow> MemCmd \<Rightarrow> u32 \<Rightarrow> MPacket \<Rightarrow> MPacket" where
  "bus_packet junk cmd blkSize p = allocate (p\<lparr>mp_cmd := cmd, mp_origCmd := InvalidCmd,
     mp_addr := rq_paddr p AND NOT (scast (blkSize - 1)), mp_size := unat blkSize, mp_data := None, mp_shared := False,
     mp_memInhibit := False, mp_supplyExclusive := False, mp_bytesValidStart := 0, mp_bytesValidEnd := 0, mp_finishTime := junk\<rparr>)"

definition getBusPacket :: "MPacket \<Rightarrow> ptr \<Rightarrow> bool \<Rightarrow> Cache \<Rightarrow> MPacket option res" where
  "getBusPacket cpu_pkt blk needsExclusive c =
     bindE (case blk of None \<Rightarrow> Inr CacheBlk_ctor | Some b \<Rightarrow> get_blk (Tagged b) c) (\<lambda>x.
      let blkValid = (blk \<noteq> None \<and> isValid x) in
      if rq_uncacheable cpu_pkt then Inr None
      else if \<not> blkValid \<and> (mp_cmd cpu_pkt = Writeback \<or> mp_is IsUpgrade cpu_pkt) then Inr None
      else
        bindE (assertE (mp_is NeedsResponse cpu_pkt)) (\<lambda>_.
        bindE (if blkValid then
            bindE (assertE (needsExclusive \<and> \<not> isWritable x)) (\<lambda>_. Inr (if mp_is IsLlsc cpu_pkt then SCUpgradeReq else UpgradeReq))
          else Inr (if needsExclusive then ReadExReq else ReadReq)) (\<lambda>cmd.
          Inr (Some (bus_packet (c_junk c) cmd (c_blkSize c) cpu_pkt)))))"

text \<open>
  The fill with the response \<open>p\<close>; the block it fills, the writebacks and the cache. The data of the temporary
  block is a separate array of the size of a block.
\<close>

definition fill_target :: "MPacket \<Rightarrow> blk_ref option \<Rightarrow> MPacket list \<Rightarrow> Cache \<Rightarrow> (blk_ref \<times> MPacket list \<times> Cache) res" where
  "fill_target p blk wbs c =
     (case blk of
        None \<Rightarrow>
          bindE (assertE (mp_is HasData p)) (\<lambda>_.
          bindE (allocateBlock (mp_addr p) wbs c) (\<lambda>(b, wbs, c).
          bindE (case b of
              None \<Rightarrow>
                bindE (assertE (\<not> isValid (c_tempBlock c))) (\<lambda>_.
                  Inr (Temp, c\<lparr>c_tempBlock := (c_tempBlock c)\<lparr>cb_set := int (lru_extractSet (mp_addr p) (c_tags c)),
                    cb_tag := lru_extractTag (mp_addr p) (c_tags c)\<rparr>\<rparr>))
            | Some b \<Rightarrow> bindE (cache_insertBlock (mp_addr p) b (rq_masterId p) c) (\<lambda>c. Inr (Tagged b, c))) (\<lambda>(r, c).
          bindE (get_blk r c) (\<lambda>x. Inr (r, wbs, put_blk r (x\<lparr>cb_status := 0\<rparr>) c)))))
      | Some r \<Rightarrow>
          bindE (get_blk r c) (\<lambda>x.
          bindE (assertE (cb_tag x = lru_extractTag (mp_addr p) (c_tags c))) (\<lambda>_.
          bindE (assertE (mp_is HasData p \<or> isValid x)) (\<lambda>_. Inr (r, wbs, c)))))"

definition fill_status :: "MPacket \<Rightarrow> u32 \<Rightarrow> u32" where
  "fill_status p st =
     (let st = st OR BlkValid OR BlkReadable in
      if mp_shared p then st else if mp_memInhibit p then st OR BlkWritable OR BlkDirty else st OR BlkWritable)"

definition handleFill :: "MPacket \<Rightarrow> blk_ref option \<Rightarrow> MPacket list \<Rightarrow> Cache \<Rightarrow> (blk_ref \<times> MPacket list \<times> Cache) res" where
  "handleFill p blk wbs c =
     bindE (fill_target p blk wbs c) (\<lambda>(r, wbs, c).
     bindE (get_blk r c) (\<lambda>x.
      let x = x\<lparr>cb_status := fill_status p (cb_status x)\<rparr> in
      bindE (if mp_is IsRead p then
          bindE (getPtr p) (\<lambda>d. bindE (host_write 0 (take (unat (c_blkSize c)) d) (cb_data x)) (\<lambda>d. Inr (x\<lparr>cb_data := d\<rparr>)))
        else Inr x) (\<lambda>x.
        Inr (r, wbs, put_blk r (x\<lparr>cb_whenReady := mp_finishTime p\<rparr>) c))))"

fun send_writebacks :: "(MPacket \<Rightarrow> 'm \<Rightarrow> (int \<times> MPacket \<times> 'm) res) \<Rightarrow> MPacket list \<Rightarrow> 'm \<Rightarrow> 'm res" where
  "send_writebacks send [] m = Inr m"
| "send_writebacks send (w # ws) m = bindE (send w m) (\<lambda>(lat, p, m). send_writebacks send ws m)"

text \<open>What \<open>atomicAccess\<close> does with the response of the memory side to the packet that it made for a miss.\<close>

definition atomic_response :: "MPacket \<Rightarrow> MPacket \<Rightarrow> blk_ref option \<Rightarrow> MPacket list \<Rightarrow> Cache \<Rightarrow> (MPacket \<times> MPacket list \<times> Cache) res" where
  "atomic_response p bus_pkt blk wbs c =
     (if mp_is NeedsResponse p then
        bindE (assertE (mp_is IsResponse bus_pkt)) (\<lambda>_.
        if mp_is IsError bus_pkt then
          bindE (mp_makeResponse p) (\<lambda>p. bindE (mp_copyError bus_pkt p) (\<lambda>p. Inr (p, wbs, c)))
        else if mp_is IsRead bus_pkt \<or> mp_cmd bus_pkt = UpgradeResp then
          bindE (handleFill bus_pkt blk wbs c) (\<lambda>(r, wbs, c).
          bindE (satisfyCpuSideRequest False False p r c) (\<lambda>(p, c). Inr (p, wbs, c)))
        else bindE (mp_makeResponse p) (\<lambda>p. Inr (p, wbs, c)))
      else Inr (p, wbs, c))"

text \<open>The latency, the packet, the cache and the memory side after an atomic access at time \<open>curTick\<close>.\<close>

definition atomicAccess :: "(MPacket \<Rightarrow> 'm \<Rightarrow> (int \<times> MPacket \<times> 'm) res) \<Rightarrow> int \<Rightarrow> MPacket \<Rightarrow> Cache \<Rightarrow> 'm \<Rightarrow>
    (int \<times> MPacket \<times> Cache \<times> 'm) res" where
  "atomicAccess send curTick p c m =
     (if mp_memInhibit p then
        bindE (assertE (\<not> rq_uncacheable p)) (\<lambda>_.
        if mp_is IsInvalidate p then
          bindE (lru_findBlock (mp_addr p) (c_tags c)) (\<lambda>r.
          bindE (lru_invalidateBlk (c_maxMasters c) r (c_tags c)) (\<lambda>l.
          bindE (send p m) (\<lambda>(lat, p, m). Inr (int32 (c_hitLatency c + lat), p, c\<lparr>c_tags := l\<rparr>, m))))
        else Inr (c_hitLatency c, p, c, m))
      else
        bindE (cache_access curTick p c) (\<lambda>(ok, blk, lat, p, wbs, c).
        bindE (if ok then Inr (lat, p, wbs, c, m)
          else
            bindE (getBusPacket p blk (mp_is NeedsExclusive p) c) (\<lambda>bus.
            case bus of
              None \<Rightarrow> bindE (send p m) (\<lambda>(l, p, m).
                bindE (assertE (mp_cmd p \<noteq> NetworkNackError)) (\<lambda>_. Inr (int32 (lat + l), p, wbs, c, m)))
            | Some bus_pkt \<Rightarrow> bindE (send bus_pkt m) (\<lambda>(l, bus_pkt, m).
                bindE (assertE (mp_cmd bus_pkt \<noteq> NetworkNackError)) (\<lambda>_.
                bindE (atomic_response p bus_pkt (map_option Tagged blk) wbs c) (\<lambda>(p, wbs, c).
                  Inr (int32 (lat + l), p, wbs, c, m)))))) (\<lambda>(lat, p, wbs, c, m).
        bindE (send_writebacks send wbs m) (\<lambda>m.
        bindE (if mp_is NeedsResponse p then mp_makeResponse p else Inr p) (\<lambda>p. Inr (lat, p, c, m))))))"

section \<open>Blocks outside the discipline of locks and masters\<close>

text \<open>
  The temporary block keeps the invalid master of its constructor. A read for ownership that is served from it gives
  it up through the tag store, which asserts a known master.
\<close>

lemma temp_block_invalidation_fails:
  assumes "isValid (c_tempBlock c)" "cb_srcMasterId (c_tempBlock c) = invldMasterId" "c_maxMasters c \<le> 65535"
  shows "cache_invalidateBlk Temp c = Inl AssertFail"
  using assms by (simp add: cache_invalidateBlk_def get_blk_def invalidate_with_def invldMasterId_def assertE_def)

text \<open>A swap writes a block and leaves its load locks.\<close>

lemma swap_keeps_locks:
  assumes "cmpAndSwap b p c = Inr (q, b')"
  shows "cb_lockList b' = cb_lockList b"
  using assms by (auto simp: cmpAndSwap_def Let_def bindE_eq_Inr split: if_splits)

end
