(* ===== verification/Cache_Transparent.thy ===== *)
theory Cache_Transparent
  imports Cache_Access
begin

text \<open>
  The contract of a cache in atomic mode: over a memory that answers block reads, upgrades and writebacks, it answers the
  requests of a processor as one flat memory would. The memory side is a locale; it is interpreted on the memory of
  \<open>src/src/mem/abstract_mem.cc\<close>.
\<close>

section \<open>Addresses and bytes\<close>

definition cache_geometry :: "Cache \<Rightarrow> bool" where
  "cache_geometry c \<longleftrightarrow> c_blkSize c = 2 ^ lru_setShift (c_tags c) \<and> lru_setShift (c_tags c) < 31"

lemma blkOffset_mod:
  assumes "geometry_ok l"
  shows "lru_extractBlkOffset a l = unat a mod 2 ^ lru_setShift l"
  using assms by (simp add: lru_extractBlkOffset_def geometry_ok_def ucast_mask_eq unat_take_bit_mod flip: take_bit_eq_mask)

lemma blkOffset_less: "geometry_ok l \<Longrightarrow> lru_extractBlkOffset a l < 2 ^ lru_setShift l"
  by (simp add: blkOffset_mod)

lemma unat_blkAlign:
  assumes "geometry_ok l"
  shows "unat (lru_blkAlign a l) = unat a div 2 ^ lru_setShift l * 2 ^ lru_setShift l"
proof -
  have "lru_blkAlign a l = a AND NOT (mask (lru_setShift l))"
    using assms by (simp add: lru_blkAlign_def geometry_ok_def ucast_mask_eq)
  then have "lru_blkAlign a l = roundDown a (2 ^ lru_setShift l)"
    by (simp add: roundDown_def mask_eq_exp_minus_1)
  then show ?thesis by (simp add: roundDown_mod)
qed

lemma blkAlign_idem: "geometry_ok l \<Longrightarrow> lru_blkAlign (lru_blkAlign a l) l = lru_blkAlign a l"
  by (simp add: lru_blkAlign_def and.assoc)

lemma blkAlign_offset:
  assumes "geometry_ok l"
  shows "unat (a - lru_blkAlign a l) = lru_extractBlkOffset a l"
proof -
  have "lru_blkAlign a l \<le> a"
    using unat_blkAlign [OF assms, of a] by (simp add: word_le_nat_alt div_times_less_eq_dividend)
  then show ?thesis
    using unat_blkAlign [OF assms, of a] by (simp add: unat_sub blkOffset_mod [OF assms] minus_div_mult_eq_mod)
qed

text \<open>The addresses of a block are those at most its size after its own.\<close>

lemma block_span:
  assumes g: "geometry_ok l" and base: "lru_blkAlign base l = base"
  shows "unat (a - base) < 2 ^ lru_setShift l \<longleftrightarrow> lru_blkAlign a l = base"
proof
  assume "lru_blkAlign a l = base"
  then show "unat (a - base) < 2 ^ lru_setShift l" using blkAlign_offset [OF g, of a] blkOffset_less [OF g, of a] by simp
next
  let ?s = "lru_setShift l"
  assume k: "unat (a - base) < 2 ^ ?s"
  obtain q where q: "unat base = q * 2 ^ ?s" using unat_blkAlign [OF g, of base] base by metis
  have s: "?s < 64" using g by (simp add: geometry_ok_def)
  have "unat base < 2 ^ ?s * 2 ^ (64 - ?s)" using unsigned_less [of base] s by (simp add: power_add [symmetric])
  then have "q < 2 ^ (64 - ?s)" unfolding q by simp
  then have "Suc q * 2 ^ ?s \<le> 2 ^ (64 - ?s) * 2 ^ ?s" by (intro mult_le_mono1) simp
  then have "unat base + unat (a - base) < 2 ^ 64" using k q s by (simp add: power_add [symmetric])
  then have "unat a = q * 2 ^ ?s + unat (a - base)" using q unat_add_lem [of base "a - base"] by simp
  then have "unat (lru_blkAlign a l) = unat base" using k q unat_blkAlign [OF g, of a] by simp
  then show "lru_blkAlign a l = base" by (rule unsigned_word_eqI)
qed

text \<open>Reading and writing a run of bytes of a flat memory.\<close>

definition read_bytes :: "(Addr \<Rightarrow> u8) \<Rightarrow> Addr \<Rightarrow> nat \<Rightarrow> u8 list" where
  "read_bytes f a n = map (\<lambda>i. f (a + of_nat i)) [0..<n]"

definition write_bytes :: "(Addr \<Rightarrow> u8) \<Rightarrow> Addr \<Rightarrow> u8 list \<Rightarrow> Addr \<Rightarrow> u8" where
  "write_bytes f a d x = (if unat (x - a) < length d then d ! unat (x - a) else f x)"

lemma length_read_bytes [simp]: "length (read_bytes f a n) = n"
  by (simp add: read_bytes_def)

section \<open>The memory that a cache presents\<close>

definition blk_addr :: "LRU \<Rightarrow> CacheBlk \<Rightarrow> Addr" where
  "blk_addr l x = lru_regenerateBlkAddr (cb_tag x) (nat (cb_set x)) l"

text \<open>
  The byte at an address: that of the block which holds it, or that of the memory below, \<open>g\<close>.
\<close>

definition view :: "(Addr \<Rightarrow> u8) \<Rightarrow> LRU \<Rightarrow> Addr \<Rightarrow> u8" where
  "view g l a = (case lru_findBlock a l of Inr (Some b) \<Rightarrow> cb_data (lru_blks l ! b) ! lru_extractBlkOffset a l | _ \<Rightarrow> g a)"

text \<open>
  Every valid block is readable, holds the block address that its tag and set give, which the memory side covers, and
  has the data of the memory below unless it is dirty.
\<close>

definition blk_coherent :: "(Addr \<Rightarrow> bool) \<Rightarrow> (Addr \<Rightarrow> u8) \<Rightarrow> LRU \<Rightarrow> CacheBlk \<Rightarrow> bool" where
  "blk_coherent cov g l x \<longleftrightarrow> isReadable x \<and> lru_extractTag (blk_addr l x) l = cb_tag x \<and>
     int (lru_extractSet (blk_addr l x) l) = cb_set x \<and> lru_blkAlign (blk_addr l x) l = blk_addr l x \<and> cov (blk_addr l x) \<and>
     (\<not> isDirty x \<longrightarrow> cb_data x = read_bytes g (blk_addr l x) (2 ^ lru_setShift l))"

definition cache_state :: "(Addr \<Rightarrow> bool) \<Rightarrow> (Addr \<Rightarrow> u8) \<Rightarrow> Cache \<Rightarrow> bool" where
  "cache_state cov g c \<longleftrightarrow> lru_wf (c_tags c) \<and> masters_ok (c_maxMasters c) (c_tags c) \<and> cache_geometry c \<and> c_mshrs c = [] \<and>
     (\<forall>x\<in>set (lru_blks (c_tags c)). isValid x \<longrightarrow> blk_coherent cov g (c_tags c) x)"

lemma cache_stateD:
  assumes "cache_state cov g c"
  shows "lru_wf (c_tags c)" "masters_ok (c_maxMasters c) (c_tags c)" "cache_geometry c" "c_mshrs c = []"
    "geometry_ok (c_tags c)"
    "b < length (lru_blks (c_tags c)) \<Longrightarrow> isValid (lru_blks (c_tags c) ! b) \<Longrightarrow> blk_coherent cov g (c_tags c) (lru_blks (c_tags c) ! b)"
  using assms lru_wf_geometry by (auto simp: cache_state_def)

lemma view_hit: "lru_wf l \<Longrightarrow> lru_holds l a b \<Longrightarrow> view g l a = cb_data (lru_blks l ! b) ! lru_extractBlkOffset a l"
  by (simp add: view_def lru_findBlock_hit)

lemma view_miss: "lru_wf l \<Longrightarrow> \<nexists>b. lru_holds l a b \<Longrightarrow> view g l a = g a"
  by (simp add: view_def lru_findBlock_miss)

lemma view_cong:
  assumes "lru_wf l" "lru_wf k" "\<And>b. lru_holds k a b = lru_holds l a b"
    and "\<And>b. lru_holds l a b \<Longrightarrow> cb_data (lru_blks k ! b) = cb_data (lru_blks l ! b)" "lru_blkMask k = lru_blkMask l"
  shows "view g k a = view g l a"
proof (cases "\<exists>b. lru_holds l a b")
  case True
  then obtain b where "lru_holds l a b" by blast
  then show ?thesis
    using assms(3-5) view_hit [OF assms(1), of a b g] view_hit [OF assms(2), of a b g] by (simp add: lru_extractBlkOffset_def)
next
  case False
  then show ?thesis using assms(3) view_miss [OF assms(1)] view_miss [OF assms(2)] by simp
qed

text \<open>A change of a block that keeps its place, and leaves it dirty when it changes its data.\<close>

definition blk_step :: "CacheBlk \<Rightarrow> CacheBlk \<Rightarrow> bool" where
  "blk_step x y \<longleftrightarrow> cb_set y = cb_set x \<and> cb_tag y = cb_tag x \<and> isValid y = isValid x \<and> (isReadable x \<longrightarrow> isReadable y) \<and>
     length (cb_data y) = length (cb_data x) \<and> cb_srcMasterId y = cb_srcMasterId x \<and>
     (isDirty y \<or> cb_data y = cb_data x \<and> isDirty y = isDirty x)"

lemma blk_step_coherent:
  "blk_step x y \<Longrightarrow> blk_coherent cov g l x \<Longrightarrow> blk_coherent cov g l y"
  unfolding blk_step_def blk_coherent_def blk_addr_def by auto

lemma same_geometry:
  assumes "lru_tagShift k = lru_tagShift l" "lru_setShift k = lru_setShift l" "lru_setMask k = lru_setMask l" "lru_blkMask k = lru_blkMask l"
  shows "blk_addr k = blk_addr l" "blk_coherent cov g k = blk_coherent cov g l" "lru_blkAlign a k = lru_blkAlign a l"
    "lru_extractTag a k = lru_extractTag a l" "lru_extractSet a k = lru_extractSet a l"
    "lru_extractBlkOffset a k = lru_extractBlkOffset a l"
proof -
  show addr: "blk_addr k = blk_addr l" using assms by (simp add: fun_eq_iff blk_addr_def lru_regenerateBlkAddr_def)
  show e: "lru_blkAlign a k = lru_blkAlign a l" "lru_extractTag a k = lru_extractTag a l"
      "lru_extractSet a k = lru_extractSet a l" "lru_extractBlkOffset a k = lru_extractBlkOffset a l" for a
    using assms by (simp_all add: lru_blkAlign_def lru_extractTag_def lru_extractSet_def lru_extractBlkOffset_def)
  show "blk_coherent cov g k = blk_coherent cov g l"
    using assms(2) by (simp add: fun_eq_iff blk_coherent_def addr e)
qed

lemma replace_ok:
  assumes st: "cache_state cov g c" and b: "b < length (lru_blks (c_tags c))" and x: "blk_step (lru_blks (c_tags c) ! b) x"
  shows "cache_state cov g (put_blk (Tagged b) x c)"
    "view g (c_tags (put_blk (Tagged b) x c)) a =
       (if lru_holds (c_tags c) a b then cb_data x ! lru_extractBlkOffset a (c_tags c) else view g (c_tags c) a)"
    "lru_holds (c_tags (put_blk (Tagged b) x c)) a d = lru_holds (c_tags c) a d"
proof -
  let ?l = "c_tags c" and ?x = "lru_blks (c_tags c) ! b"
  let ?k = "?l\<lparr>lru_blks := (lru_blks ?l)[b := x]\<rparr>"
  note s = cache_stateD [OF st]
  have xs: "cb_set x = cb_set ?x" "cb_tag x = cb_tag ?x" "isValid x = isValid ?x" "length (cb_data x) = length (cb_data ?x)"
      "cb_srcMasterId x = cb_srcMasterId ?x"
    using x by (auto simp: blk_step_def)
  have wf: "lru_wf ?k" by (rule lru_wf_blk [OF s(1) blk_fits_same [OF s(1) b]]) (use xs in simp_all)
  note g = same_geometry [of ?k ?l, simplified]
  have mem: "y = x \<or> y \<in> set (lru_blks ?l)" if "y \<in> set ((lru_blks ?l)[b := x])" for y
    using that set_update_subset_insert [of "lru_blks ?l" b x] by auto
  have "isValid x \<Longrightarrow> cb_srcMasterId x < c_maxMasters c" using s(2) b xs(3,5) by (simp add: masters_ok_def)
  then have m: "masters_ok (c_maxMasters c) ?k"
    using masters_ok_update [OF s(2), of x b] by (simp add: masters_ok_def)
  have "isValid x \<Longrightarrow> blk_coherent cov g ?l x" using blk_step_coherent [OF x] s(6) [OF b] xs(3) by simp
  then have "\<forall>y\<in>set (lru_blks ?k). isValid y \<longrightarrow> blk_coherent cov g ?k y"
    using mem st g(2) by (auto simp: cache_state_def)
  then show "cache_state cov g (put_blk (Tagged b) x c)"
    using wf m s(3,4) by (simp add: cache_state_def put_blk_def cache_geometry_def)
  have h: "lru_holds ?k a d = lru_holds ?l a d" for a d
    using b xs by (cases "d = b") (auto simp: lru_holds_def g)
  then show "lru_holds (c_tags (put_blk (Tagged b) x c)) a d = lru_holds (c_tags c) a d" by (simp add: put_blk_def)
  show "view g (c_tags (put_blk (Tagged b) x c)) a =
       (if lru_holds ?l a b then cb_data x ! lru_extractBlkOffset a ?l else view g ?l a)"
  proof (cases "lru_holds ?l a b")
    case True
    then show ?thesis using view_hit [OF wf, of a b g] h b g by (simp add: put_blk_def)
  next
    case False
    have "cb_data (lru_blks ?k ! d) = cb_data (lru_blks ?l ! d)" if "lru_holds ?l a d" for d
      using that False by (cases "d = b") auto
    then have "view g ?k a = view g ?l a" using h by (intro view_cong [OF s(1) wf]) auto
    then show ?thesis using False by (simp add: put_blk_def)
  qed
qed

text \<open>The order of the sets does not matter.\<close>

lemma reorder_ok:
  assumes st: "cache_state cov g (c\<lparr>c_tags := l\<rparr>)" and wf: "lru_wf (l\<lparr>lru_sets := ss\<rparr>)"
  shows "cache_state cov g (c\<lparr>c_tags := l\<lparr>lru_sets := ss\<rparr>\<rparr>)" "view g (l\<lparr>lru_sets := ss\<rparr>) a = view g l a"
    "lru_holds (l\<lparr>lru_sets := ss\<rparr>) a b = lru_holds l a b"
proof -
  note g = same_geometry [of "l\<lparr>lru_sets := ss\<rparr>" l, simplified]
  show h: "lru_holds (l\<lparr>lru_sets := ss\<rparr>) a b = lru_holds l a b" for a b by (simp add: lru_holds_def g)
  show "cache_state cov g (c\<lparr>c_tags := l\<lparr>lru_sets := ss\<rparr>\<rparr>)"
    using st wf by (simp add: cache_state_def cache_geometry_def masters_ok_def g)
  have "lru_wf l" using st by (simp add: cache_state_def)
  then show "view g (l\<lparr>lru_sets := ss\<rparr>) a = view g l a" using h by (intro view_cong [OF _ wf]) simp_all
qed

section \<open>Status bits\<close>

lemma bit_status:
  "bit BlkValid n \<longleftrightarrow> n = 0" "bit BlkWritable n \<longleftrightarrow> n = 1" "bit BlkReadable n \<longleftrightarrow> n = 2" "bit BlkDirty n \<longleftrightarrow> n = 3"
proof -
  have e: "BlkValid = 2 ^ 0" "BlkWritable = 2 ^ 1" "BlkReadable = 2 ^ 2" "BlkDirty = 2 ^ 3"
    by (simp_all add: BlkValid_def BlkWritable_def BlkReadable_def BlkDirty_def)
  show "bit BlkValid n \<longleftrightarrow> n = 0" "bit BlkWritable n \<longleftrightarrow> n = 1" "bit BlkReadable n \<longleftrightarrow> n = 2" "bit BlkDirty n \<longleftrightarrow> n = 3"
    unfolding e bit_exp_iff by auto
qed

lemma and_single_bit:
  fixes x m :: u32
  assumes "\<And>n. bit m n \<longleftrightarrow> n = k"
  shows "(x AND m \<noteq> 0) = bit x k"
proof -
  have "bit (x AND m) n \<longleftrightarrow> n = k \<and> bit x k" for n using assms by (auto simp: bit_and_iff)
  then show ?thesis by (metis bit_0_eq bot_apply bot_bool_def bit_word_eqI)
qed

lemma and_all_bits:
  fixes x m :: u32
  shows "(x AND m = m) = (\<forall>n. bit m n \<longrightarrow> bit x n)"
proof
  assume "x AND m = m"
  then show "\<forall>n. bit m n \<longrightarrow> bit x n" by (metis bit_and_iff)
next
  assume "\<forall>n. bit m n \<longrightarrow> bit x n"
  then show "x AND m = m" by (intro bit_word_eqI) (auto simp: bit_and_iff)
qed

lemma status_bits:
  "isValid b \<longleftrightarrow> bit (cb_status b) 0" "isWritable b \<longleftrightarrow> bit (cb_status b) 1 \<and> bit (cb_status b) 0"
  "isReadable b \<longleftrightarrow> bit (cb_status b) 2 \<and> bit (cb_status b) 0" "isDirty b \<longleftrightarrow> bit (cb_status b) 3"
  by (auto simp: isValid_def isDirty_def isWritable_def isReadable_def and_single_bit [OF bit_status(1)]
      and_single_bit [OF bit_status(4)] and_all_bits bit_or_iff bit_status)

lemma bit_status_not: "bit (x AND NOT BlkDirty) n \<longleftrightarrow> bit x n \<and> n \<noteq> 3" for x :: u32
  by (auto simp: bit_and_iff bit_not_iff bit_status dest: bit_imp_le_length)

lemmas status_simps = status_bits bit_or_iff bit_status bit_status_not

section \<open>Requests\<close>

text \<open>
  The cacheable requests of a processor that stay within a block. An uncacheable request bypasses the cache and drops the
  block of its address (\<open>uncacheable_drops_block\<close> below); one for a whole block of a cache that is not at the top level
  belongs to the protocol between caches.
\<close>

definition cpu_request :: "Cache \<Rightarrow> MPacket \<Rightarrow> bool" where
  "cpu_request c p \<longleftrightarrow> mp_cmd p \<in> {ReadReq, LoadLockedReq, WriteReq, StoreCondReq, SwapReq} \<and> 0 < mp_size p \<and>
     lru_extractBlkOffset (mp_addr p) (c_tags c) + mp_size p \<le> unat (c_blkSize c) \<and>
     (\<exists>d. mp_data p = Some d \<and> length d = mp_size p) \<and> \<not> rq_uncacheable p \<and> \<not> mp_memInhibit p \<and>
     rq_masterId p < c_maxMasters c \<and> rq_paddr p = mp_addr p \<and>
     (mp_cmd p \<in> {LoadLockedReq, StoreCondReq} \<longrightarrow> rq_contextId p \<noteq> None) \<and>
     (mp_cmd p = SwapReq \<longrightarrow> mp_size p \<le> 8 \<and> (rq_condSwap p \<longrightarrow> mp_size p \<in> {4, 8} \<and> rq_extraData p \<noteq> None)) \<and>
     (c_isTopLevel c \<or> mp_size p < unat (c_blkSize c))"

text \<open>
  What a flat memory \<open>f\<close> does on a request \<open>p\<close>: the answer \<open>q\<close> and the memory after it. A store conditional
  stores and reports 1 or changes nothing and reports 0; the load locks that decide it are not part of the flat memory.
\<close>

definition flat_effect :: "(Addr \<Rightarrow> u8) \<Rightarrow> MPacket \<Rightarrow> MPacket \<Rightarrow> (Addr \<Rightarrow> u8) \<Rightarrow> bool" where
  "flat_effect f p q f' \<longleftrightarrow>
     (let old = read_bytes f (mp_addr p) (mp_size p); new = write_bytes f (mp_addr p) (the (mp_data p)) in
      if mp_cmd p = SwapReq then mp_data q = Some old \<and> f' = (if swap_overwrites p old = Inr True then new else f)
      else if mp_cmd p = StoreCondReq then
        rq_extraData q = Some 1 \<and> f' = new \<or> rq_extraData q = Some 0 \<and> f' = f
      else if mp_cmd p = WriteReq then f' = new
      else mp_data q = Some old \<and> f' = f)"

lemma offset_add:
  assumes g: "geometry_ok l" and i: "lru_extractBlkOffset a l + i < 2 ^ lru_setShift l"
  shows "lru_blkAlign (a + of_nat i) l = lru_blkAlign a l" "lru_extractBlkOffset (a + of_nat i) l = lru_extractBlkOffset a l + i"
proof -
  let ?b = "lru_blkAlign a l"
  have s: "lru_setShift l < 32" using g by (simp add: geometry_ok_def)
  then have "(2 :: nat) ^ lru_setShift l < 2 ^ 64" by (intro power_strict_increasing) auto
  then have i64: "lru_extractBlkOffset a l + i < 2 ^ 64" using i by linarith
  have "unat (of_nat i :: Addr) = i" using i64 by (simp add: unat_of_nat)
  then have u: "unat ((a - ?b) + of_nat i) = lru_extractBlkOffset a l + i"
    using blkAlign_offset [OF g, of a] i64 by (simp add: unat_word_ariths)
  then have u: "unat ((a + of_nat i) - ?b) = lru_extractBlkOffset a l + i" by (simp add: algebra_simps)
  show e: "lru_blkAlign (a + of_nat i) l = ?b"
    using block_span [OF g blkAlign_idem [OF g], of "a + of_nat i" a] u i by simp
  show "lru_extractBlkOffset (a + of_nat i) l = lru_extractBlkOffset a l + i"
    using blkAlign_offset [OF g, of "a + of_nat i"] u unfolding e by simp
qed

lemma span_offset:
  assumes g: "geometry_ok l" and n: "lru_extractBlkOffset a l + n \<le> 2 ^ lru_setShift l"
  shows "unat (x - a) < n \<longleftrightarrow> lru_blkAlign x l = lru_blkAlign a l \<and>
      lru_extractBlkOffset a l \<le> lru_extractBlkOffset x l \<and> lru_extractBlkOffset x l < lru_extractBlkOffset a l + n" (is "?L \<longleftrightarrow> ?R")
    "unat (x - a) < n \<Longrightarrow> lru_extractBlkOffset x l = lru_extractBlkOffset a l + unat (x - a)"
proof -
  have *: "lru_blkAlign x l = lru_blkAlign a l \<and> lru_extractBlkOffset x l = lru_extractBlkOffset a l + unat (x - a)" if ?L
    using offset_add [OF g, of a "unat (x - a)"] that n by simp
  then show "lru_extractBlkOffset x l = lru_extractBlkOffset a l + unat (x - a)" if "unat (x - a) < n" using that by blast
  have ?L if r: ?R
  proof -
    have "unat (x - a) = unat ((x - lru_blkAlign x l) - (a - lru_blkAlign a l))" using r by simp
    also have "\<dots> = unat (x - lru_blkAlign x l) - unat (a - lru_blkAlign a l)"
      using conjunct1 [OF conjunct2 [OF r]] unfolding blkAlign_offset [OF g, symmetric]
      by (intro unat_sub) (simp only: word_le_nat_alt)
    also have "\<dots> = lru_extractBlkOffset x l - lru_extractBlkOffset a l" unfolding blkAlign_offset [OF g] by simp
    finally show ?thesis using r by (elim conjE) linarith
  qed
  moreover have ?R if ?L using * [OF that] that by (elim conjE) simp
  ultimately show "?L \<longleftrightarrow> ?R" by blast
qed

lemma holds_block:
  assumes "geometry_ok l"
  shows "lru_blkAlign x l = lru_blkAlign a l \<Longrightarrow> lru_holds l x b = lru_holds l a b"
    "lru_holds l x b \<Longrightarrow> lru_holds l a b \<Longrightarrow> lru_blkAlign x l = lru_blkAlign a l"
  using same_block_iff [OF assms, of x a] by (auto simp: lru_holds_def)

lemma view_read:
  assumes wf: "lru_wf l" and h: "lru_holds l a b" and n: "lru_extractBlkOffset a l + n \<le> 2 ^ lru_setShift l"
  shows "take n (drop (lru_extractBlkOffset a l) (cb_data (lru_blks l ! b))) = read_bytes (view g l) a n"
proof (rule nth_equalityI)
  let ?o = "lru_extractBlkOffset a l" and ?d = "cb_data (lru_blks l ! b)"
  note g = lru_wf_geometry [OF wf]
  have b: "b < length (lru_blks l)" using h by (simp add: lru_holds_def)
  have len: "length ?d = 2 ^ lru_setShift l" by (rule lru_wf_data [OF wf b])
  then show "length (take n (drop ?o ?d)) = length (read_bytes (view g l) a n)" using n by simp
  fix i assume "i < length (take n (drop ?o ?d))"
  then have i: "i < n" by simp
  note o = offset_add [OF g, of a i]
  have "lru_holds l (a + of_nat i) b" using holds_block(1) [OF g o(1)] h i n by simp
  then have "view g l (a + of_nat i) = ?d ! (?o + i)" using view_hit [OF wf] o(2) i n by simp
  then show "take n (drop ?o ?d) ! i = read_bytes (view g l) a n ! i" using i n len by (simp add: read_bytes_def)
qed

lemma view_write:
  assumes wf: "lru_wf l" and h: "lru_holds l a b" and n: "lru_extractBlkOffset a l + length d \<le> 2 ^ lru_setShift l"
  defines "d' \<equiv> take (lru_extractBlkOffset a l) (cb_data (lru_blks l ! b)) @ d @
      drop (lru_extractBlkOffset a l + length d) (cb_data (lru_blks l ! b))"
  shows "(\<lambda>x. if lru_holds l x b then d' ! lru_extractBlkOffset x l else view g l x) = write_bytes (view g l) a d"
proof
  fix x
  let ?o = "lru_extractBlkOffset a l" and ?d = "cb_data (lru_blks l ! b)"
  note g = lru_wf_geometry [OF wf]
  have b: "b < length (lru_blks l)" using h by (simp add: lru_holds_def)
  have len: "length ?d = 2 ^ lru_setShift l" by (rule lru_wf_data [OF wf b])
  note s = span_offset [OF g n, of x]
  show "(if lru_holds l x b then d' ! lru_extractBlkOffset x l else view g l x) = write_bytes (view g l) a d x"
  proof (cases "lru_holds l x b")
    case True
    have "d' ! lru_extractBlkOffset x l = (if ?o \<le> lru_extractBlkOffset x l \<and> lru_extractBlkOffset x l < ?o + length d
        then d ! (lru_extractBlkOffset x l - ?o) else ?d ! lru_extractBlkOffset x l)"
      unfolding d'_def using n len blkOffset_less [OF g, of x] by (intro nth_host_write) simp_all
    moreover have "unat (x - a) < length d \<longleftrightarrow> ?o \<le> lru_extractBlkOffset x l \<and> lru_extractBlkOffset x l < ?o + length d"
      using s(1) holds_block(2) [OF g True h] by simp
    ultimately have "d' ! lru_extractBlkOffset x l =
        (if unat (x - a) < length d then d ! (lru_extractBlkOffset x l - ?o) else view g l x)"
      unfolding view_hit [OF wf True, of g] by presburger
    moreover have "lru_extractBlkOffset x l - ?o = unat (x - a)" if "unat (x - a) < length d" using s(2) [OF that] by simp
    ultimately show ?thesis using True unfolding write_bytes_def by (cases "unat (x - a) < length d") simp_all
  next
    case False
    then have "lru_blkAlign x l \<noteq> lru_blkAlign a l" using holds_block(1) [OF g, of x a b] h by blast
    then show ?thesis using False s(1) by (simp add: write_bytes_def)
  qed
qed

lemma scast_mask: "k < 31 \<Longrightarrow> (scast (2 ^ k - 1 :: u32) :: u64) = mask k"
proof -
  assume k: "k < 31"
  have "(scast (mask k :: u32) :: u64) = mask k" using k by (intro bit_word_eqI) (auto simp: bit_simps)
  then show ?thesis by (simp add: mask_eq_exp_minus_1)
qed

lemma cache_geometry_words:
  assumes "cache_geometry c" "geometry_ok (c_tags c)"
  shows "getOffset (c_blkSize c) p = lru_extractBlkOffset (mp_addr p) (c_tags c)"
    "a AND NOT (scast (c_blkSize c - 1)) = lru_blkAlign a (c_tags c)" "unat (c_blkSize c) = 2 ^ lru_setShift (c_tags c)"
proof -
  let ?k = "lru_setShift (c_tags c)"
  have k: "?k < 31" "c_blkSize c = 2 ^ ?k" "lru_blkMask (c_tags c) = mask ?k"
    using assms by (auto simp: cache_geometry_def geometry_ok_def)
  show "getOffset (c_blkSize c) p = lru_extractBlkOffset (mp_addr p) (c_tags c)"
      "a AND NOT (scast (c_blkSize c - 1)) = lru_blkAlign a (c_tags c)"
    using k scast_mask [OF k(1)]
    by (simp_all add: getOffset_def lru_extractBlkOffset_def lru_blkAlign_def ucast_mask_eq)
  show "unat (c_blkSize c) = 2 ^ ?k" using k unat_exp [of ?k, where 'a = 32] by simp
qed

text \<open>What stays the same in all operations: the configuration.\<close>

definition same_config :: "Cache \<Rightarrow> Cache \<Rightarrow> bool" where
  "same_config c c' \<longleftrightarrow> c_blkSize c' = c_blkSize c \<and> c_maxMasters c' = c_maxMasters c \<and> c_isTopLevel c' = c_isTopLevel c \<and>
     c_junk c' = c_junk c \<and> lru_tagShift (c_tags c') = lru_tagShift (c_tags c) \<and> lru_setShift (c_tags c') = lru_setShift (c_tags c) \<and>
     lru_setMask (c_tags c') = lru_setMask (c_tags c) \<and> lru_blkMask (c_tags c') = lru_blkMask (c_tags c)"

lemma same_config_refl [simp]: "same_config c c"
  by (simp add: same_config_def)

lemma same_config_trans: "same_config c d \<Longrightarrow> same_config d e \<Longrightarrow> same_config c e"
  by (simp add: same_config_def)

lemma same_config_put [simp]: "same_config c (put_blk r x c)"
  by (cases r) (simp_all add: same_config_def put_blk_def)

section \<open>Satisfying a request from a block\<close>

lemma put_view:
  assumes st: "cache_state cov g c" and h: "lru_holds (c_tags c) a b" and x: "blk_step (lru_blks (c_tags c) ! b) x"
  shows "cb_data x = cb_data (lru_blks (c_tags c) ! b) \<Longrightarrow> view g (c_tags (put_blk (Tagged b) x c)) = view g (c_tags c)"
    "host_write (lru_extractBlkOffset a (c_tags c)) d (cb_data (lru_blks (c_tags c) ! b)) = Inr (cb_data x) \<Longrightarrow>
      view g (c_tags (put_blk (Tagged b) x c)) = write_bytes (view g (c_tags c)) a d"
proof -
  let ?l = "c_tags c"
  have b: "b < length (lru_blks ?l)" using h by (simp add: lru_holds_def)
  note wf = cache_stateD(1) [OF st]
  note r = replace_ok(2) [OF st b x]
  show "view g (c_tags (put_blk (Tagged b) x c)) = view g ?l" if "cb_data x = cb_data (lru_blks ?l ! b)"
    unfolding fun_eq_iff r using that view_hit [OF wf] by simp
  assume w: "host_write (lru_extractBlkOffset a ?l) d (cb_data (lru_blks ?l ! b)) = Inr (cb_data x)"
  then have n: "lru_extractBlkOffset a ?l + length d \<le> 2 ^ lru_setShift ?l"
    using lru_wf_data [OF wf b] by (simp add: host_write_def split: if_splits)
  have "cb_data x = take (lru_extractBlkOffset a ?l) (cb_data (lru_blks ?l ! b)) @ d @
      drop (lru_extractBlkOffset a ?l + length d) (cb_data (lru_blks ?l ! b))"
    using w by (simp add: host_write_def split: if_splits)
  then show "view g (c_tags (put_blk (Tagged b) x c)) = write_bytes (view g ?l) a d"
    using view_write [OF wf h n, of g] unfolding r [abs_def] by (simp only:)
qed

lemma blk_step_refl [simp]: "blk_step x x"
  by (simp add: blk_step_def)

lemma blk_step_locks: "blk_step x (x\<lparr>cb_lockList := ls\<rparr>)"
  by (simp add: blk_step_def status_bits)

lemma blk_step_write:
  "length d = length (cb_data x) \<Longrightarrow> blk_step x (x\<lparr>cb_data := d, cb_status := cb_status x OR BlkDirty, cb_lockList := ls\<rparr>)"
  "length d = length (cb_data x) \<Longrightarrow> blk_step x (x\<lparr>cb_data := d, cb_status := cb_status x OR BlkDirty\<rparr>)"
  by (simp_all add: blk_step_def status_simps)

lemma host_write_in: "i + length d \<le> length b \<Longrightarrow> \<exists>b'. host_write i d b = Inr b' \<and> length b' = length b"
  by (simp add: host_write_def)

lemma cpu_requestD:
  assumes "cpu_request c p" "cache_state cov g c"
  shows "\<exists>d. mp_data p = Some d \<and> length d = mp_size p"
    "getOffset (c_blkSize c) p = lru_extractBlkOffset (mp_addr p) (c_tags c)"
    "lru_extractBlkOffset (mp_addr p) (c_tags c) + mp_size p \<le> 2 ^ lru_setShift (c_tags c)"
    "unat (c_blkSize c) = 2 ^ lru_setShift (c_tags c)"
  using assms(1) cache_geometry_words [OF cache_stateD(3,5) [OF assms(2)]] by (auto simp: cpu_request_def)

lemma satisfy_read_ok:
  assumes st: "cache_state cov g c" and p: "cpu_request c p" "mp_cmd p \<in> {ReadReq, LoadLockedReq}"
    and h: "lru_holds (c_tags c) (mp_addr p) b"
  shows "\<exists>q x. satisfyCpuSideRequest False False p (Tagged b) c = Inr (q, put_blk (Tagged b) x c) \<and>
    blk_step (lru_blks (c_tags c) ! b) x \<and> mp_cmd q = mp_cmd p \<and> cb_data x = cb_data (lru_blks (c_tags c) ! b) \<and>
    mp_data q = Some (read_bytes (view g (c_tags c)) (mp_addr p) (mp_size p))"
proof -
  let ?l = "c_tags c" and ?x = "lru_blks (c_tags c) ! b" and ?n = "mp_size p"
  note r = cpu_requestD [OF p(1) st]
  note wf = cache_stateD(1) [OF st]
  have b: "b < length (lru_blks ?l)" "isValid ?x" using h by (simp_all add: lru_holds_def)
  obtain d where d: "mp_data p = Some d" "length d = ?n" using r(1) by blast
  have read: "host_read (lru_extractBlkOffset (mp_addr p) ?l) ?n (cb_data ?x) = Inr (read_bytes (view g ?l) (mp_addr p) ?n)"
    using view_read [OF wf h r(3), of g] r(3) lru_wf_data [OF wf b(1)] by (simp add: host_read_def)
  have top: "?n = 2 ^ lru_setShift ?l \<Longrightarrow> c_isTopLevel c" using p(1) r(4) by (auto simp: cpu_request_def)
  obtain ls where ls: "(if mp_is IsLlsc p then blk_trackLoadLocked (mp_is IsLlsc p) (rq_contextId p) ?x else Inr ?x) =
      Inr (?x\<lparr>cb_lockList := ls\<rparr>)"
  proof (cases "mp_cmd p = LoadLockedReq")
    case True
    then obtain ctx where "rq_contextId p = Some ctx" using p(1) unfolding cpu_request_def by blast
    then show ?thesis using True that [of "ctx # cb_lockList ?x"] by (simp add: blk_trackLoadLocked_def)
  next
    case False
    have "?x = ?x\<lparr>cb_lockList := cb_lockList ?x\<rparr>" by simp
    then show ?thesis using False p(2) that [of "cb_lockList ?x"] by simp
  qed
  let ?y = "?x\<lparr>cb_lockList := ls\<rparr>" and ?q = "p\<lparr>mp_data := Some (read_bytes (view g ?l) (mp_addr p) ?n)\<rparr>"
  have same: "\<exists>s. q = q\<lparr>mp_shared := s\<rparr>" for q :: MPacket by (cases q) auto
  have "satisfyCpuSideRequest False False p (Tagged b) c =
      (if ?n = unat (c_blkSize c) then satisfy_block_read False False (Tagged b) ?y ?q c else Inr (?q, put_blk (Tagged b) ?y c))"
  proof -
    have gb: "get_blk (Tagged b) c = Inr ?x" using b by (simp add: get_blk_def)
    have off: "getOffset (c_blkSize c) p + ?n \<le> unat (c_blkSize c)" using r(2-4) by simp
    have cmd: "mp_cmd p \<noteq> SwapReq" "\<not> mp_is IsWrite p" "mp_is IsRead p" using p(2) by auto
    have sd: "setDataFromBlock (c_blkSize c) (cb_data ?y) p = Inr ?q"
      using d read r(2) by (simp add: setDataFromBlock_def getPtr_def)
    have sz: "mp_size ?q = ?n" by simp
    show ?thesis
      by (simp only: satisfyCpuSideRequest_def gb bindE_Inr b(2) assertE_simps off cmd if_False if_True ls sd sz)
  qed
  moreover have "\<exists>s. satisfy_block_read False False (Tagged b) ?y ?q c = Inr (?q\<lparr>mp_shared := s\<rparr>, put_blk (Tagged b) ?y c)"
    if "?n = unat (c_blkSize c)"
    using that top r(4) p(2) same by (auto simp: satisfy_block_read_def)
  ultimately obtain s where "satisfyCpuSideRequest False False p (Tagged b) c = Inr (?q\<lparr>mp_shared := s\<rparr>, put_blk (Tagged b) ?y c)"
    using same [of ?q] by (cases "?n = unat (c_blkSize c)") auto
  then show ?thesis using blk_step_locks [of ?x ls]
    by (intro exI [of _ "?q\<lparr>mp_shared := s\<rparr>"] exI [of _ ?y]) simp
qed

lemma satisfy_blk:
  assumes "lru_holds (c_tags c) (mp_addr p) b" "cpu_request c p" "cache_state cov g c"
  shows "satisfyCpuSideRequest False False p (Tagged b) c =
    (if mp_cmd p = SwapReq then bindE (cmpAndSwap (lru_blks (c_tags c) ! b) p c) (\<lambda>(p, b'). Inr (p, put_blk (Tagged b) b' c))
     else if mp_is IsWrite p then bindE (satisfy_write (c_blkSize c) (lru_blks (c_tags c) ! b) p) (\<lambda>(p, b'). Inr (p, put_blk (Tagged b) b' c))
     else satisfyCpuSideRequest False False p (Tagged b) c)"
proof -
  let ?x = "lru_blks (c_tags c) ! b"
  have b: "isValid ?x" "get_blk (Tagged b) c = Inr ?x" using assms(1) by (simp_all add: lru_holds_def get_blk_def)
  have off: "getOffset (c_blkSize c) p + mp_size p \<le> unat (c_blkSize c)" using cpu_requestD [OF assms(2,3)] by simp
  show ?thesis unfolding satisfyCpuSideRequest_def b(2) using b(1) off by simp
qed

lemma satisfy_write_ok:
  assumes st: "cache_state cov g c" and p: "cpu_request c p" "mp_cmd p \<in> {WriteReq, StoreCondReq}"
    and h: "lru_holds (c_tags c) (mp_addr p) b"
  shows "\<exists>q x. satisfyCpuSideRequest False False p (Tagged b) c = Inr (q, put_blk (Tagged b) x c) \<and>
    blk_step (lru_blks (c_tags c) ! b) x \<and> mp_cmd q = mp_cmd p \<and>
    (if mp_cmd p = StoreCondReq \<and> rq_extraData q \<noteq> Some 1 then rq_extraData q = Some 0 \<and> cb_data x = cb_data (lru_blks (c_tags c) ! b)
     else host_write (lru_extractBlkOffset (mp_addr p) (c_tags c)) (the (mp_data p)) (cb_data (lru_blks (c_tags c) ! b)) = Inr (cb_data x))"
proof -
  let ?l = "c_tags c" and ?x = "lru_blks (c_tags c) ! b" and ?n = "mp_size p" and ?o = "lru_extractBlkOffset (mp_addr p) (c_tags c)"
  note r = cpu_requestD [OF p(1) st]
  note wf = cache_stateD(1) [OF st]
  have b: "b < length (lru_blks ?l)" using h by (simp add: lru_holds_def)
  obtain d where d: "mp_data p = Some d" "length d = ?n" using r(1) by blast
  obtain d' where d': "host_write ?o d (cb_data ?x) = Inr d'" "length d' = length (cb_data ?x)"
    using host_write_in [of ?o d "cb_data ?x"] r(3) d(2) lru_wf_data [OF wf b] by auto
  have w: "writeDataToBlock (c_blkSize c) (cb_data ?x) q = Inr d'" if "mp_data q = Some d" "mp_size q = ?n" "mp_addr q = mp_addr p" for q
    using d' d that r(2) by (simp add: writeDataToBlock_def getPtr_def getOffset_def)
  let ?y = "?x\<lparr>cb_data := d', cb_status := cb_status ?x OR BlkDirty, cb_lockList := []\<rparr>"
  note eq = satisfy_blk [OF h p(1) st]
  show ?thesis
  proof (cases "mp_cmd p = WriteReq")
    case True
    have "satisfy_write (c_blkSize c) ?x p = Inr (p, ?y)"
      using True w [of p] d by (simp add: satisfy_write_def blk_checkWrite_def clearLoadLocks_def)
    then show ?thesis using True eq d d' blk_step_write(1) [of d' ?x "[]"] by (intro exI [of _ p] exI [of _ ?y]) simp
  next
    case False
    then have sc: "mp_cmd p = StoreCondReq" using p(2) by simp
    then obtain ctx where ctx: "rq_contextId p = Some ctx" using p(1) unfolding cpu_request_def by blast
    have "\<exists>ok. lock_matches (rq_contextId p) (cb_lockList ?x) = Inr ok" unfolding ctx by (auto simp: lock_matches_def)
    then obtain ok where "lock_matches (rq_contextId p) (cb_lockList ?x) = Inr ok" by blast
    then have "satisfy_write (c_blkSize c) ?x p = Inr (p\<lparr>rq_extraData := Some (if ok then 1 else 0)\<rparr>, if ok then ?y else ?x\<lparr>cb_lockList := []\<rparr>)"
      using sc w [of "p\<lparr>rq_extraData := Some 1\<rparr>"] d by (simp add: satisfy_write_def blk_checkWrite_def clearLoadLocks_def)
    then show ?thesis using sc eq d d' blk_step_write(1) [of d' ?x "[]"] blk_step_locks [of ?x "[]"]
      by (intro exI [of _ "p\<lparr>rq_extraData := Some (if ok then 1 else 0)\<rparr>"] exI [of _ "if ok then ?y else ?x\<lparr>cb_lockList := []\<rparr>"]) simp
  qed
qed

lemma satisfy_swap_ok:
  assumes st: "cache_state cov g c" and p: "cpu_request c p" "mp_cmd p = SwapReq"
    and h: "lru_holds (c_tags c) (mp_addr p) b"
  defines "old \<equiv> read_bytes (view g (c_tags c)) (mp_addr p) (mp_size p)"
  shows "\<exists>q x. satisfyCpuSideRequest False False p (Tagged b) c = Inr (q, put_blk (Tagged b) x c) \<and>
    blk_step (lru_blks (c_tags c) ! b) x \<and> mp_cmd q = mp_cmd p \<and> mp_data q = Some old \<and>
    (if swap_overwrites p old = Inr True
     then host_write (lru_extractBlkOffset (mp_addr p) (c_tags c)) (the (mp_data p)) (cb_data (lru_blks (c_tags c) ! b)) = Inr (cb_data x)
     else cb_data x = cb_data (lru_blks (c_tags c) ! b))"
proof -
  let ?l = "c_tags c" and ?x = "lru_blks (c_tags c) ! b" and ?n = "mp_size p" and ?o = "lru_extractBlkOffset (mp_addr p) (c_tags c)"
  note r = cpu_requestD [OF p(1) st]
  note wf = cache_stateD(1) [OF st]
  have b: "b < length (lru_blks ?l)" using h by (simp add: lru_holds_def)
  obtain d where d: "mp_data p = Some d" "length d = ?n" using r(1) by blast
  obtain d' where d': "host_write ?o d (cb_data ?x) = Inr d'" "length d' = length (cb_data ?x)"
    using host_write_in [of ?o d "cb_data ?x"] r(3) d(2) lru_wf_data [OF wf b] by auto
  have read: "host_read ?o ?n (cb_data ?x) = Inr old"
    using view_read [OF wf h r(3), of g] r(3) lru_wf_data [OF wf b] by (simp add: host_read_def old_def)
  have sz: "?n \<le> 8" "rq_condSwap p \<longrightarrow> ?n \<in> {4, 8} \<and> rq_extraData p \<noteq> None" using p unfolding cpu_request_def by blast+
  have "\<exists>ok. swap_overwrites p old = Inr ok"
    using sz(2) by (cases "rq_condSwap p") (auto simp: swap_overwrites_def rq_getExtraData_def)
  then obtain ok where ok: "swap_overwrites p old = Inr ok" by blast
  let ?y = "if ok then ?x\<lparr>cb_data := d', cb_status := cb_status ?x OR BlkDirty\<rparr> else ?x"
  have "cmpAndSwap ?x p c = Inr (p\<lparr>mp_data := Some old\<rparr>, ?y)"
    using d d' read sz(1) ok by (simp add: cmpAndSwap_def getPtr_def Let_def)
  then show ?thesis using satisfy_blk [OF h p(1) st] p(2) ok d d' blk_step_write(2) [of d' ?x]
    by (intro exI [of _ "p\<lparr>mp_data := Some old\<rparr>"] exI [of _ ?y]) simp
qed

text \<open>In each case the cache answers and changes as a flat memory with its contents does.\<close>

lemma satisfy_ok:
  assumes st: "cache_state cov g c" and p: "cpu_request c p" and h: "lru_holds (c_tags c) (mp_addr p) b"
  shows "\<exists>q c'. satisfyCpuSideRequest False False p (Tagged b) c = Inr (q, c') \<and> cache_state cov g c' \<and> same_config c c' \<and>
    mp_cmd q = mp_cmd p \<and> flat_effect (view g (c_tags c)) p q (view g (c_tags c'))"
proof -
  let ?l = "c_tags c" and ?x = "lru_blks (c_tags c) ! b"
  have b: "b < length (lru_blks ?l)" using h by (simp add: lru_holds_def)
  note ok = replace_ok(1) [OF st b] and v = put_view [OF st h]
  have "mp_cmd p \<in> {ReadReq, LoadLockedReq} \<or> mp_cmd p \<in> {WriteReq, StoreCondReq} \<or> mp_cmd p = SwapReq"
    using p by (simp add: cpu_request_def)
  then consider (r) "mp_cmd p \<in> {ReadReq, LoadLockedReq}" | (w) "mp_cmd p \<in> {WriteReq, StoreCondReq}" | (s) "mp_cmd p = SwapReq" by blast
  then show ?thesis
  proof cases
    case r
    from satisfy_read_ok [OF st p r h] obtain q x where q: "satisfyCpuSideRequest False False p (Tagged b) c = Inr (q, put_blk (Tagged b) x c)"
        "blk_step ?x x" "mp_cmd q = mp_cmd p" "cb_data x = cb_data ?x" "mp_data q = Some (read_bytes (view g ?l) (mp_addr p) (mp_size p))" by blast
    then show ?thesis using ok [OF q(2)] v(1) [OF q(2,4)] r same_config_put by (auto simp: flat_effect_def Let_def)
  next
    case w
    from satisfy_write_ok [OF st p w h] obtain q x where q: "satisfyCpuSideRequest False False p (Tagged b) c = Inr (q, put_blk (Tagged b) x c)"
        "blk_step ?x x" "mp_cmd q = mp_cmd p"
        "if mp_cmd p = StoreCondReq \<and> rq_extraData q \<noteq> Some 1 then rq_extraData q = Some 0 \<and> cb_data x = cb_data ?x
         else host_write (lru_extractBlkOffset (mp_addr p) ?l) (the (mp_data p)) (cb_data ?x) = Inr (cb_data x)" by blast
    then have "flat_effect (view g ?l) p q (view g (c_tags (put_blk (Tagged b) x c)))"
      using v [OF q(2)] w by (auto simp: flat_effect_def Let_def split: if_splits)
    then show ?thesis using q(1,3) ok [OF q(2)] same_config_put by blast
  next
    case s
    from satisfy_swap_ok [OF st p s h] obtain q x where q: "satisfyCpuSideRequest False False p (Tagged b) c = Inr (q, put_blk (Tagged b) x c)"
        "blk_step ?x x" "mp_cmd q = mp_cmd p" "mp_data q = Some (read_bytes (view g ?l) (mp_addr p) (mp_size p))"
        "if swap_overwrites p (read_bytes (view g ?l) (mp_addr p) (mp_size p)) = Inr True
         then host_write (lru_extractBlkOffset (mp_addr p) ?l) (the (mp_data p)) (cb_data ?x) = Inr (cb_data x)
         else cb_data x = cb_data ?x" by blast
    then have "flat_effect (view g ?l) p q (view g (c_tags (put_blk (Tagged b) x c)))"
      using v [OF q(2)] s by (auto simp: flat_effect_def Let_def split: if_splits)
    then show ?thesis using q(1,3) ok [OF q(2)] same_config_put by blast
  qed
qed

section \<open>Writebacks\<close>

lemma nth_read_bytes: "i < n \<Longrightarrow> read_bytes f a n ! i = f (a + of_nat i)"
  by (simp add: read_bytes_def)

lemma read_write_same:
  assumes "length d < 2 ^ 64"
  shows "read_bytes (write_bytes f a d) a (length d) = d"
proof (rule nth_equalityI)
  fix i assume "i < length (read_bytes (write_bytes f a d) a (length d))"
  then have i: "i < length d" by simp
  then have "unat (of_nat i :: Addr) = i" using assms by (simp add: unat_of_nat)
  then show "read_bytes (write_bytes f a d) a (length d) ! i = d ! i" using i by (simp add: nth_read_bytes write_bytes_def)
qed simp

lemma write_outside:
  assumes "geometry_ok l" "lru_blkAlign a l = a" "length d = 2 ^ lru_setShift l" "lru_blkAlign x l \<noteq> a"
  shows "write_bytes f a d x = f x"
  using block_span [OF assms(1,2), of x] assms(3,4) by (simp add: write_bytes_def)

lemma read_write_other:
  assumes g: "geometry_ok l" and a: "lru_blkAlign a l = a" "length d = 2 ^ lru_setShift l" and b: "lru_blkAlign b l = b" "b \<noteq> a"
  shows "read_bytes (write_bytes f a d) b (2 ^ lru_setShift l) = read_bytes f b (2 ^ lru_setShift l)"
proof (rule nth_equalityI)
  fix i assume "i < length (read_bytes (write_bytes f a d) b (2 ^ lru_setShift l))"
  then have i: "i < 2 ^ lru_setShift l" by simp
  have "lru_extractBlkOffset b l = 0" using blkAlign_offset [OF g, of b] b(1) by simp
  then have "lru_blkAlign (b + of_nat i) l \<noteq> a" using offset_add(1) [OF g, of b i] i b by simp
  then show "read_bytes (write_bytes f a d) b (2 ^ lru_setShift l) ! i = read_bytes f b (2 ^ lru_setShift l) ! i"
    using i write_outside [OF g a, of "b + of_nat i"] by (simp add: nth_read_bytes)
qed simp

lemma coherent_holds:
  "blk_coherent cov g l (lru_blks l ! b) \<Longrightarrow> b < length (lru_blks l) \<Longrightarrow> isValid (lru_blks l ! b) \<Longrightarrow> lru_holds l (blk_addr l (lru_blks l ! b)) b"
  by (simp add: blk_coherent_def lru_holds_def)

text \<open>What the memory side is asked to write: one whole block that it covers.\<close>

definition block_writeback :: "(Addr \<Rightarrow> bool) \<Rightarrow> LRU \<Rightarrow> MPacket \<Rightarrow> bool" where
  "block_writeback cov l w \<longleftrightarrow> mp_cmd w = Writeback \<and> mp_size w = 2 ^ lru_setShift l \<and> \<not> mp_memInhibit w \<and> \<not> rq_instFetch w \<and>
     (\<exists>d. mp_data w = Some d \<and> length d = mp_size w) \<and> cov (mp_addr w) \<and> lru_blkAlign (mp_addr w) l = mp_addr w"

lemma setShift_length: "geometry_ok l \<Longrightarrow> (2 :: nat) ^ lru_setShift l < 2 ^ 64"
  by (intro power_strict_increasing) (auto simp: geometry_ok_def)

lemma writeback_ok:
  assumes st: "cache_state cov g c" and b: "b < length (lru_blks (c_tags c))"
    and x: "isValid (lru_blks (c_tags c) ! b)" "isDirty (lru_blks (c_tags c) ! b)"
  defines "c' \<equiv> put_blk (Tagged b) ((lru_blks (c_tags c) ! b)\<lparr>cb_status := cb_status (lru_blks (c_tags c) ! b) AND NOT BlkDirty\<rparr>) c"
  shows "\<exists>w. writebackBlk (Tagged b) c = Inr (w, c') \<and> block_writeback cov (c_tags c) w \<and>
    cache_state cov (write_bytes g (mp_addr w) (the (mp_data w))) c' \<and>
    view (write_bytes g (mp_addr w) (the (mp_data w))) (c_tags c') = view g (c_tags c)"
proof -
  let ?l = "c_tags c" and ?x = "lru_blks (c_tags c) ! b"
  let ?y = "?x\<lparr>cb_status := cb_status ?x AND NOT BlkDirty\<rparr>" and ?A = "blk_addr (c_tags c) (lru_blks (c_tags c) ! b)"
  let ?g = "write_bytes g ?A (cb_data ?x)" and ?k = "?l\<lparr>lru_blks := (lru_blks ?l)[b := ?y]\<rparr>"
  note s = cache_stateD [OF st]
  have c': "c' = c\<lparr>c_tags := ?k\<rparr>" by (simp add: c'_def put_blk_def)
  have len: "length (cb_data ?x) = 2 ^ lru_setShift ?l" by (rule lru_wf_data [OF s(1) b])
  have co: "blk_coherent cov g ?l ?x" by (rule s(6) [OF b x(1)])
  then have A: "lru_blkAlign ?A ?l = ?A" "cov ?A" by (auto simp: blk_coherent_def)
  have h: "lru_holds ?l ?A b" by (rule coherent_holds [OF co b x(1)])
  have yv: "isValid ?y" "isReadable ?y" "\<not> isDirty ?y" using co x by (auto simp: status_simps blk_coherent_def)
  have wf: "lru_wf ?k" using x yv by (intro lru_wf_blk [OF s(1) blk_fits_same [OF s(1) b]]) simp_all
  note g = same_geometry [of ?k ?l, simplified]
  have addr: "blk_addr ?l ?y = ?A" by (simp add: blk_addr_def)
  have m: "masters_ok (c_maxMasters c) ?k"
    using masters_ok_update [OF s(2), of ?y b] s(2) b x(1) by (simp add: masters_ok_def)
  have "blk_coherent cov ?g ?k (lru_blks ?k ! j)" if j: "j < length (lru_blks ?k)" "isValid (lru_blks ?k ! j)" for j
  proof (cases "j = b")
    case True
    have "read_bytes ?g ?A (2 ^ lru_setShift ?l) = cb_data ?x"
      using read_write_same [of "cb_data ?x" g ?A] len setShift_length [OF s(5)] by simp
    then show ?thesis using True b co yv by (simp add: g(2) blk_coherent_def addr)
  next
    case False
    then have j': "j < length (lru_blks ?l)" "isValid (lru_blks ?l ! j)" "lru_blks ?k ! j = lru_blks ?l ! j" using j by simp_all
    note cj = s(6) [OF j'(1,2)]
    have "blk_addr ?l (lru_blks ?l ! j) \<noteq> ?A"
      using coherent_holds [OF cj j'(1,2)] lru_wf_unique [OF s(1) h, of j] False by auto
    then show ?thesis
      using cj j'(3) read_write_other [OF s(5) A(1) len, of "blk_addr ?l (lru_blks ?l ! j)" g] by (simp add: g(2) blk_coherent_def)
  qed
  then have st': "cache_state cov ?g c'"
    using wf m s(3,4) unfolding c' cache_state_def cache_geometry_def by (auto simp: in_set_conv_nth)
  have hk: "lru_holds ?k a j = lru_holds ?l a j" for a j using b x(1) yv(1) by (cases "j = b") (auto simp: lru_holds_def g)
  have "view ?g ?k a = view g ?l a" for a
  proof (cases "\<exists>j. lru_holds ?l a j")
    case True
    then obtain j where j: "lru_holds ?l a j" by blast
    then have "cb_data (lru_blks ?k ! j) = cb_data (lru_blks ?l ! j)" using b by (cases "j = b") simp_all
    then show ?thesis using view_hit [OF s(1) j] view_hit [OF wf, of a j] j hk g by simp
  next
    case False
    then have "lru_blkAlign a ?l \<noteq> ?A" using holds_block(1) [OF s(5), of a ?A b] h A(1) by auto
    then show ?thesis using False view_miss [OF s(1) False, of g] view_miss [OF wf, of a ?g] hk write_outside [OF s(5) A(1) len] by simp
  qed
  moreover have "\<exists>w. writebackBlk (Tagged b) c = Inr (w, c') \<and> block_writeback cov ?l w \<and> mp_addr w = ?A \<and> mp_data w = Some (cb_data ?x)"
    using b x len A cache_geometry_words(3) [OF s(3,5)]
    by (simp add: writebackBlk_def get_blk_def host_read_def block_writeback_def c'_def blk_addr_def Let_def)
  ultimately show ?thesis using st' by (auto simp: c' fun_eq_iff)
qed

section \<open>Fills\<close>

lemma align_plus:
  assumes "geometry_ok l"
  shows "lru_blkAlign x l + of_nat (lru_extractBlkOffset x l) = x"
  using blkAlign_offset [OF assms, of x, symmetric] by simp

text \<open>A clean block shows what the memory below holds.\<close>

lemma clean_view:
  assumes st: "cache_state cov g c" and h: "lru_holds (c_tags c) x b" and d: "\<not> isDirty (lru_blks (c_tags c) ! b)"
  shows "view g (c_tags c) x = g x"
proof -
  let ?l = "c_tags c"
  note s = cache_stateD [OF st]
  have b: "b < length (lru_blks ?l)" "isValid (lru_blks ?l ! b)" using h by (simp_all add: lru_holds_def)
  have "blk_addr ?l (lru_blks ?l ! b) = lru_blkAlign x ?l" using lru_holds_address [OF s(1) h] by (simp add: blk_addr_def)
  then have "cb_data (lru_blks ?l ! b) = read_bytes g (lru_blkAlign x ?l) (2 ^ lru_setShift ?l)"
    using s(6) [OF b] d by (simp add: blk_coherent_def)
  then show ?thesis
    using view_hit [OF s(1) h, of g] blkOffset_less [OF s(5), of x] align_plus [OF s(5), of x] by (simp add: nth_read_bytes)
qed

text \<open>A clean or invalid victim gives way to a new block with the data of the memory below.\<close>

lemma new_block_ok:
  fixes m :: int
  assumes st: "cache_state cov g c" and miss: "\<nexists>b. lru_holds (c_tags c) a b" and a: "lru_blkAlign a (c_tags c) = a" "cov a"
    and v: "isValid (lru_blks (c_tags c) ! lru_victim a (c_tags c)) \<longrightarrow> \<not> isDirty (lru_blks (c_tags c) ! lru_victim a (c_tags c))"
    and y: "isReadable y" "cb_tag y = lru_extractTag a (c_tags c)" "cb_set y = int (lru_extractSet a (c_tags c))"
      "cb_data y = read_bytes g a (2 ^ lru_setShift (c_tags c))" "cb_srcMasterId y < c_maxMasters c"
  defines "l' \<equiv> lru_put (lru_extractSet a (c_tags c)) (lru_victim a (c_tags c)) y
      (lru_count_insert m (lru_blks (c_tags c) ! lru_victim a (c_tags c)) (c_tags c))"
  shows "cache_state cov g (c\<lparr>c_tags := l'\<rparr>)" "view g l' = view g (c_tags c)" "lru_holds l' a (lru_victim a (c_tags c))"
proof -
  let ?l = "c_tags c" and ?v = "lru_victim a (c_tags c)"
  note s = cache_stateD [OF st]
  note f = lru_findVictim_eq [OF s(1), of a]
  have yv: "isValid y" using y(1) by (simp add: status_bits)
  have wf: "lru_wf l'" unfolding l'_def using y by (intro lru_new_wf [OF s(1) miss]) simp_all
  have holds: "lru_holds l' x b \<longleftrightarrow> (if lru_blkAlign x ?l = lru_blkAlign a ?l then b = ?v else lru_holds ?l x b \<and> b \<noteq> ?v)" for x b
    unfolding l'_def by (rule lru_holds_new [OF s(1) miss yv y(2,3)])
  then show "lru_holds l' a ?v" by simp
  note g = same_geometry [of l' ?l]
  have geo: "lru_tagShift l' = lru_tagShift ?l" "lru_setShift l' = lru_setShift ?l" "lru_setMask l' = lru_setMask ?l"
      "lru_blkMask l' = lru_blkMask ?l" "lru_blks l' = (lru_blks ?l)[?v := y]" by (simp_all add: l'_def)
  note g = same_geometry [OF geo(1-4)]
  have "blk_addr ?l y = a"
    using regenerate_align [OF s(5), of a] y(2,3) a(1) by (simp add: blk_addr_def)
  then have "blk_coherent cov g ?l y" using y a by (simp add: blk_coherent_def)
  then have co: "\<forall>x\<in>set (lru_blks l'). isValid x \<longrightarrow> blk_coherent cov g l' x"
    using st set_update_subset_insert [of "lru_blks ?l" ?v y] unfolding cache_state_def geo(5) g(2) by blast
  have "masters_ok (c_maxMasters c) l'"
    using masters_ok_update [OF s(2), of y ?v] y(5) by (simp add: masters_ok_def geo(5))
  then show "cache_state cov g (c\<lparr>c_tags := l'\<rparr>)"
    using wf co s(3,4) geo(2) by (simp add: cache_state_def cache_geometry_def)
  have "view g l' x = view g ?l x" for x
  proof (cases "lru_blkAlign x ?l = lru_blkAlign a ?l")
    case True
    have "\<nexists>b. lru_holds ?l x b" using miss holds_block(1) [OF s(5) True] by blast
    then have "view g ?l x = g x" by (rule view_miss [OF s(1)])
    moreover have "lru_holds l' x ?v" using True holds by simp
    then have "view g l' x = cb_data y ! lru_extractBlkOffset x ?l"
      using view_hit [OF wf, of x ?v g] f(3) g(6) geo(5) by simp
    moreover have "a + of_nat (lru_extractBlkOffset x ?l) = x"
      using align_plus [OF s(5), of x] True a(1) by simp
    ultimately show ?thesis using y(4) blkOffset_less [OF s(5), of x] by (simp add: nth_read_bytes)
  next
    case False
    show ?thesis
    proof (cases "\<exists>b. lru_holds ?l x b \<and> b \<noteq> ?v")
      case True
      then obtain b where b: "lru_holds ?l x b" "b \<noteq> ?v" by blast
      then have "lru_holds l' x b" using False holds by simp
      then show ?thesis using view_hit [OF s(1) b(1), of g] view_hit [OF wf, of x b g] b(2) g(6) geo(5) by simp
    next
      case none: False
      then have "\<nexists>b. lru_holds l' x b" using False holds by auto
      then have "view g l' x = g x" by (rule view_miss [OF wf])
      moreover have "view g ?l x = g x"
      proof (cases "lru_holds ?l x ?v")
        case True
        then show ?thesis using clean_view [OF st True] v by (simp add: lru_holds_def)
      next
        case False
        then show ?thesis using none view_miss [OF s(1)] by blast
      qed
      ultimately show ?thesis by simp
    qed
  qed
  then show "view g l' = view g ?l" by blast
qed

lemma same_config_geometry:
  assumes "same_config c c'"
  shows "lru_blkAlign a (c_tags c') = lru_blkAlign a (c_tags c)" "lru_extractTag a (c_tags c') = lru_extractTag a (c_tags c)"
    "lru_extractSet a (c_tags c') = lru_extractSet a (c_tags c)" "cpu_request c' p = cpu_request c p"
    "block_writeback cov (c_tags c') = block_writeback cov (c_tags c)" "lru_setShift (c_tags c') = lru_setShift (c_tags c)"
    "c_maxMasters c' = c_maxMasters c" "c_blkSize c' = c_blkSize c"
  using assms same_geometry [of "c_tags c'" "c_tags c"]
  by (simp_all add: same_config_def cpu_request_def fun_eq_iff block_writeback_def)

text \<open>The writebacks that are pending: none, or one, which takes the memory below from \<open>g\<close> to \<open>g'\<close>.\<close>

definition pending :: "(Addr \<Rightarrow> bool) \<Rightarrow> LRU \<Rightarrow> (Addr \<Rightarrow> u8) \<Rightarrow> MPacket list \<Rightarrow> (Addr \<Rightarrow> u8) \<Rightarrow> bool" where
  "pending cov l g wbs g' \<longleftrightarrow> wbs = [] \<and> g' = g \<or>
     (\<exists>w. wbs = [w] \<and> block_writeback cov l w \<and> g' = write_bytes g (mp_addr w) (the (mp_data w)))"

lemma allocate_ok:
  assumes st: "cache_state cov g c" and miss: "\<nexists>b. lru_holds (c_tags c) a b" and a: "lru_blkAlign a (c_tags c) = a"
  defines "v \<equiv> lru_victim a (c_tags c)"
  shows "\<exists>wbs c1 g1. allocateBlock a [] c = Inr (Some v, wbs, c1) \<and> cache_state cov g1 c1 \<and> view g1 (c_tags c1) = view g (c_tags c) \<and>
    pending cov (c_tags c) g wbs g1 \<and> (isValid (lru_blks (c_tags c1) ! v) \<longrightarrow> \<not> isDirty (lru_blks (c_tags c1) ! v)) \<and>
    (\<forall>b. lru_holds (c_tags c1) a b = lru_holds (c_tags c) a b) \<and> same_config c c1 \<and> lru_sets (c_tags c1) = lru_sets (c_tags c) \<and>
    read_bytes g1 a (2 ^ lru_setShift (c_tags c)) = read_bytes g a (2 ^ lru_setShift (c_tags c)) \<and>
    cb_lockList (lru_blks (c_tags c1) ! v) = cb_lockList (lru_blks (c_tags c) ! v)"
proof -
  let ?l = "c_tags c" and ?x = "lru_blks (c_tags c) ! v"
  note s = cache_stateD [OF st]
  note f = lru_findVictim_eq [OF s(1), of a, folded v_def]
  have get: "get_blk (Tagged v) c = Inr ?x" using f(3) by (simp add: get_blk_def)
  have none: "findMatch y c = None" for y using s(4) by (simp add: findMatch_def)
  show ?thesis
  proof (cases "isValid ?x \<and> isDirty ?x")
    case True
    let ?y = "?x\<lparr>cb_status := cb_status ?x AND NOT BlkDirty\<rparr>"
    obtain w where w: "writebackBlk (Tagged v) c = Inr (w, put_blk (Tagged v) ?y c)" "block_writeback cov ?l w"
        "cache_state cov (write_bytes g (mp_addr w) (the (mp_data w))) (put_blk (Tagged v) ?y c)"
        "view (write_bytes g (mp_addr w) (the (mp_data w))) (c_tags (put_blk (Tagged v) ?y c)) = view g ?l"
      using writeback_ok [OF st f(3)] True by blast
    have "mp_addr w = blk_addr ?l ?x" using w(1) get by (auto simp: writebackBlk_def bindE_eq_Inr Let_def blk_addr_def)
    then have ne: "a \<noteq> mp_addr w" using coherent_holds [OF s(6) [OF f(3)] f(3)] True miss by auto
    have rd: "read_bytes (write_bytes g (mp_addr w) (the (mp_data w))) a (2 ^ lru_setShift ?l) = read_bytes g a (2 ^ lru_setShift ?l)"
      using w(2) a ne by (intro read_write_other [OF s(5)]) (auto simp: block_writeback_def)
    have "allocateBlock a [] c = Inr (Some v, [w], put_blk (Tagged v) ?y c)"
      using True f(1) get none w(1) by (simp add: allocateBlock_def)
    moreover have "\<not> isDirty ?y" "isValid ?y = isValid ?x" by (simp_all add: status_simps)
    then have "lru_holds (c_tags (put_blk (Tagged v) ?y c)) a b = lru_holds ?l a b" for b
      using f(3) same_geometry [of "c_tags (put_blk (Tagged v) ?y c)" ?l]
      by (cases "b = v") (auto simp: lru_holds_def put_blk_def)
    ultimately show ?thesis
      using w(2-4) rd f(3) \<open>\<not> isDirty ?y\<close>
      by (intro exI [of _ "[w]"] exI [of _ "put_blk (Tagged v) ?y c"] exI) (auto simp: pending_def put_blk_def same_config_def)
  next
    case False
    then have "allocateBlock a [] c = Inr (Some v, [], c)" using f(1) get none by (simp add: allocateBlock_def)
    then show ?thesis using st False by (intro exI [of _ "[]"] exI [of _ c] exI [of _ g]) (auto simp: pending_def)
  qed
qed

text \<open>The block after a fill with the response \<open>p\<close>.\<close>

definition filled_blk :: "MPacket \<Rightarrow> LRU \<Rightarrow> CacheBlk \<Rightarrow> CacheBlk" where
  "filled_blk p l x = (lru_inserted (mp_addr p) (rq_masterId p) l x)\<lparr>cb_status := fill_status p 0, cb_data := the (mp_data p),
     cb_whenReady := mp_finishTime p\<rparr>"

lemma fill_status_bits:
  "\<not> mp_memInhibit p \<Longrightarrow> bit (fill_status p st) n \<longleftrightarrow> bit st n \<or> n = 0 \<or> n = 2 \<or> n = 1 \<and> \<not> mp_shared p"
  by (auto simp: fill_status_def Let_def bit_or_iff bit_status)

lemma handleFill_eq:
  assumes wf: "lru_wf (c_tags c1)" and m: "masters_ok (c_maxMasters c1) (c_tags c1)" "rq_masterId p < c_maxMasters c1"
    and al: "allocateBlock (mp_addr p) [] c = Inr (Some v, wbs, c1)" and v: "v = lru_victim (mp_addr p) (c_tags c1)"
    and p: "mp_is HasData p" "mp_is IsRead p" "mp_data p = Some d" "length d = 2 ^ lru_setShift (c_tags c1)"
    and sz: "unat (c_blkSize c1) = 2 ^ lru_setShift (c_tags c1)"
  shows "handleFill p None [] c = Inr (Tagged v, wbs, c1\<lparr>c_tags := lru_put (lru_extractSet (mp_addr p) (c_tags c1)) v
      (filled_blk p (c_tags c1) (lru_blks (c_tags c1) ! v)) (lru_count_insert (rq_masterId p) (lru_blks (c_tags c1) ! v) (c_tags c1))\<rparr>)"
proof -
  let ?l = "c_tags c1" and ?a = "mp_addr p"
  let ?x = "lru_blks ?l ! v" and ?i = "lru_extractSet ?a ?l"
  note f = lru_findVictim_eq [OF wf, of ?a, folded v]
  have "isValid ?x \<longrightarrow> cb_srcMasterId ?x < c_maxMasters c1" using m(1) f(3) by (simp add: masters_ok_def)
  note ins = lru_insertBlock_ok [OF wf f(2) m(2) this]
  have len: "length (cb_data ?x) = 2 ^ lru_setShift ?l" by (rule lru_wf_data [OF wf f(3)])
  have hw: "host_write 0 (take (unat (c_blkSize c1)) d) (cb_data (lru_inserted ?a m ?l ?x)) = Inr d" for m
    using len p(4) sz by (simp add: host_write_def lru_inserted_def)
  show ?thesis
    using al ins f(3) p hw unfolding handleFill_def fill_target_def
    by (simp add: cache_insertBlock_def get_blk_def put_blk_def getPtr_def lru_put_def filled_blk_def Let_def)
qed

lemma handleFill_miss:
  assumes st: "cache_state cov g c" and miss: "\<nexists>b. lru_holds (c_tags c) (mp_addr p) b"
    and a: "lru_blkAlign (mp_addr p) (c_tags c) = mp_addr p" "cov (mp_addr p)"
    and p: "mp_is HasData p" "mp_is IsRead p" "mp_data p = Some (read_bytes g (mp_addr p) (2 ^ lru_setShift (c_tags c)))"
      "\<not> mp_memInhibit p" "rq_masterId p < c_maxMasters c"
  shows "\<exists>b wbs c' g'. handleFill p None [] c = Inr (Tagged b, wbs, c') \<and> cache_state cov g' c' \<and> same_config c c' \<and>
    view g' (c_tags c') = view g (c_tags c) \<and> pending cov (c_tags c) g wbs g' \<and> lru_holds (c_tags c') (mp_addr p) b \<and>
    cb_lockList (lru_blks (c_tags c') ! b) = cb_lockList (lru_blks (c_tags c) ! lru_victim (mp_addr p) (c_tags c))"
proof -
  let ?a = "mp_addr p" and ?l = "c_tags c"
  obtain wbs c1 g1 where al: "allocateBlock ?a [] c = Inr (Some (lru_victim ?a ?l), wbs, c1)" "cache_state cov g1 c1"
      "view g1 (c_tags c1) = view g ?l" "pending cov ?l g wbs g1"
      "isValid (lru_blks (c_tags c1) ! lru_victim ?a ?l) \<longrightarrow> \<not> isDirty (lru_blks (c_tags c1) ! lru_victim ?a ?l)"
      "\<forall>b. lru_holds (c_tags c1) ?a b = lru_holds ?l ?a b" "same_config c c1" "lru_sets (c_tags c1) = lru_sets ?l"
      "read_bytes g1 ?a (2 ^ lru_setShift ?l) = read_bytes g ?a (2 ^ lru_setShift ?l)"
      "cb_lockList (lru_blks (c_tags c1) ! lru_victim ?a ?l) = cb_lockList (lru_blks ?l ! lru_victim ?a ?l)"
    using allocate_ok [OF st miss a(1)] by blast
  let ?k = "c_tags c1" and ?v = "lru_victim ?a ?l"
  note s = cache_stateD [OF al(2)] and e = same_config_geometry [OF al(7)]
  have v: "?v = lru_victim ?a ?k" using al(8) e(3) by simp
  note f = lru_findVictim_eq [OF s(1), of ?a, folded v]
  have miss1: "\<nexists>b. lru_holds ?k ?a b" using miss al(6) by simp
  let ?y = "filled_blk p ?k (lru_blks ?k ! ?v)"
  have st': "isReadable ?y" using p(4) by (simp add: filled_blk_def status_bits fill_status_bits)
  let ?c = "c1\<lparr>c_tags := lru_put (lru_extractSet ?a ?k) ?v ?y (lru_count_insert (rq_masterId p) (lru_blks ?k ! ?v) ?k)\<rparr>"
  have "handleFill p None [] c = Inr (Tagged ?v, wbs, ?c)"
    using al(7) p e cache_geometry_words(3) [OF s(3,5)] 
    by (intro handleFill_eq [OF s(1,2) _ al(1) v, where d = "read_bytes g ?a (2 ^ lru_setShift ?l)"]) simp_all
  moreover have "cache_state cov g1 ?c" "view g1 (c_tags ?c) = view g1 ?k" "lru_holds (c_tags ?c) ?a ?v"
    using new_block_ok [OF al(2) miss1, of ?y "rq_masterId p"] a e al(5,9) v f(4) p st'
    by (simp_all add: filled_blk_def lru_inserted_def)
  moreover have "same_config c ?c" using al(7) by (simp add: same_config_def)
  moreover have "cb_lockList (lru_blks (c_tags ?c) ! ?v) = cb_lockList (lru_blks ?l ! ?v)"
    using f(3) al(10) by (simp add: filled_blk_def lru_inserted_def)
  ultimately show ?thesis using al(3,4) by (intro exI [of _ ?v] exI [of _ wbs] exI [of _ ?c] exI [of _ g1]) simp
qed

text \<open>
  The fill leaves the load locks of the evicted block in place. So a store conditional succeeds at an address
  of the new block for every context that had locked the old one.
\<close>

lemma stale_lock_succeeds:
  assumes st: "cache_state cov g c" and miss: "\<nexists>b. lru_holds (c_tags c) (mp_addr p) b"
    and a: "lru_blkAlign (mp_addr p) (c_tags c) = mp_addr p" "cov (mp_addr p)"
    and p: "mp_is HasData p" "mp_is IsRead p" "mp_data p = Some (read_bytes g (mp_addr p) (2 ^ lru_setShift (c_tags c)))"
      "\<not> mp_memInhibit p" "rq_masterId p < c_maxMasters c"
    and lock: "ctx \<in> set (cb_lockList (lru_blks (c_tags c) ! lru_victim (mp_addr p) (c_tags c)))"
    and sc: "cpu_request c q" "mp_cmd q = StoreCondReq" "rq_contextId q = Some ctx" "lru_blkAlign (mp_addr q) (c_tags c) = mp_addr p"
  shows "\<exists>b wbs c1 r c2. handleFill p None [] c = Inr (Tagged b, wbs, c1) \<and>
    satisfyCpuSideRequest False False q (Tagged b) c1 = Inr (r, c2) \<and> rq_extraData r = Some 1"
proof -
  obtain b wbs c1 g1 where f: "handleFill p None [] c = Inr (Tagged b, wbs, c1)" "cache_state cov g1 c1" "same_config c c1"
      "lru_holds (c_tags c1) (mp_addr p) b" "ctx \<in> set (cb_lockList (lru_blks (c_tags c1) ! b))"
    using handleFill_miss [OF st miss a p] lock by auto
  note s = cache_stateD [OF f(2)] and e = same_config_geometry [OF f(3)]
  let ?x = "lru_blks (c_tags c1) ! b"
  have q: "cpu_request c1 q" using sc(1) e(4) by simp
  note r = cpu_requestD [OF q f(2)]
  have h: "lru_holds (c_tags c1) (mp_addr q) b"
    using f(4) holds_block(1) [OF s(5), of "mp_addr q" "mp_addr p" b] e(1) sc(4) a(1) by simp
  then have b: "b < length (lru_blks (c_tags c1))" by (simp add: lru_holds_def)
  obtain d where d: "mp_data q = Some d" "length d = mp_size q" using r(1) by blast
  have "lock_matches (rq_contextId q) (cb_lockList ?x) = Inr True"
    using f(5) sc(3) by (auto simp: lock_matches_def list_ex_iff)
  moreover obtain d' where "host_write (lru_extractBlkOffset (mp_addr q) (c_tags c1)) d (cb_data ?x) = Inr d'"
    using host_write_in [of "lru_extractBlkOffset (mp_addr q) (c_tags c1)" d "cb_data ?x"] r(3) d(2) lru_wf_data [OF s(1) b] by auto
  ultimately have "\<exists>y. satisfy_write (c_blkSize c1) ?x q = Inr (q\<lparr>rq_extraData := Some 1\<rparr>, y)"
    using sc(2) d r(2) by (simp add: satisfy_write_def blk_checkWrite_def clearLoadLocks_def writeDataToBlock_def getPtr_def getOffset_def)
  then show ?thesis using f(1) satisfy_blk [OF h q f(2)] sc(2) by fastforce
qed

lemma blk_step_fill:
  assumes "\<not> mp_memInhibit p" "isValid x"
  shows "blk_step x (x\<lparr>cb_status := fill_status p (cb_status x), cb_whenReady := t\<rparr>)"
  using assms by (auto simp: blk_step_def status_bits fill_status_bits)

text \<open>The response to an upgrade makes the block writable and leaves its data.\<close>

lemma handleFill_upgrade:
  assumes st: "cache_state cov g c" and h: "lru_holds (c_tags c) (mp_addr p) b"
    and p: "\<not> mp_is IsRead p" "\<not> mp_memInhibit p"
  shows "\<exists>c'. handleFill p (Some (Tagged b)) [] c = Inr (Tagged b, [], c') \<and> cache_state cov g c' \<and> same_config c c' \<and>
    view g (c_tags c') = view g (c_tags c) \<and> (\<forall>a. lru_holds (c_tags c') a b = lru_holds (c_tags c) a b)"
proof -
  let ?x = "lru_blks (c_tags c) ! b"
  let ?y = "?x\<lparr>cb_status := fill_status p (cb_status ?x), cb_whenReady := mp_finishTime p\<rparr>"
  have b: "b < length (lru_blks (c_tags c))" "isValid ?x" "cb_tag ?x = lru_extractTag (mp_addr p) (c_tags c)"
    using h by (simp_all add: lru_holds_def)
  have "handleFill p (Some (Tagged b)) [] c = Inr (Tagged b, [], put_blk (Tagged b) ?y c)"
    using b p by (simp add: handleFill_def fill_target_def get_blk_def)
  moreover have step: "blk_step ?x ?y" by (rule blk_step_fill [OF p(2) b(2)])
  ultimately show ?thesis using replace_ok(1,3) [OF st b(1) step] put_view(1) [OF st h step] by auto
qed

section \<open>The access path\<close>

lemma access_hit:
  assumes st: "cache_state cov g c" and h: "lru_holds (c_tags c) a b"
  shows "\<exists>lat l. lru_accessBlock t a (c_tags c) = Inr (Some b, lat, l) \<and> cache_state cov g (c\<lparr>c_tags := l\<rparr>) \<and>
    same_config c (c\<lparr>c_tags := l\<rparr>) \<and> view g l = view g (c_tags c) \<and> (\<forall>x d. lru_holds l x d = lru_holds (c_tags c) x d) \<and>
    cb_status (lru_blks l ! b) = cb_status (lru_blks (c_tags c) ! b)"
proof -
  let ?l = "c_tags c" and ?i = "lru_extractSet a (c_tags c)"
  let ?x = "lru_blks ?l ! b"
  let ?y = "?x\<lparr>cb_refCount := int32 (cb_refCount ?x + 1)\<rparr>" and ?ss = "(lru_sets ?l)[?i := b # remove1 b (lru_sets ?l ! ?i)]"
  let ?k = "?l\<lparr>lru_blks := (lru_blks ?l)[b := ?y]\<rparr>"
  note s = cache_stateD [OF st]
  note acc = lru_accessBlock_hit [OF s(1) h]
  have b: "b < length (lru_blks ?l)" using h by (simp add: lru_holds_def)
  have step: "blk_step ?x ?y" by (simp add: blk_step_def status_bits)
  have put: "put_blk (Tagged b) ?y c = c\<lparr>c_tags := ?k\<rparr>" by (simp add: put_blk_def)
  note r = replace_ok(1,3) [OF st b step, unfolded put]
  have v: "view g ?k = view g ?l" using put_view(1) [OF st h step, unfolded put] by simp
  have e: "lru_put ?i b ?y ?l = ?k\<lparr>lru_sets := ?ss\<rparr>" by (simp add: lru_put_def)
  note o = reorder_ok [OF r(1) acc(2) [unfolded e]]
  have "same_config c (c\<lparr>c_tags := ?k\<lparr>lru_sets := ?ss\<rparr>\<rparr>)" by (simp add: same_config_def)
  then show ?thesis
    using acc(1) [of t] e o r(2) v b by (auto simp: fun_eq_iff)
qed

text \<open>The three outcomes of an access: satisfied, a store conditional that gives up, and a miss or a lack of permission.\<close>

lemma cache_access_ok:
  assumes st: "cache_state cov g c" and p: "cpu_request c p"
  shows "\<exists>ok blk lat q c'. cache_access t p c = Inr (ok, blk, lat, q, [], c') \<and> cache_state cov g c' \<and> same_config c c' \<and>
    (if ok then mp_cmd q = mp_cmd p \<and> flat_effect (view g (c_tags c)) p q (view g (c_tags c'))
     else q = p \<and> view g (c_tags c') = view g (c_tags c) \<and>
       (case blk of None \<Rightarrow> \<nexists>b. lru_holds (c_tags c') (mp_addr p) b
        | Some b \<Rightarrow> lru_holds (c_tags c') (mp_addr p) b \<and> mp_is NeedsExclusive p \<and> \<not> isWritable (lru_blks (c_tags c') ! b)))"
proof (cases "\<exists>b. lru_holds (c_tags c) (mp_addr p) b")
  case True
  then obtain b where h: "lru_holds (c_tags c) (mp_addr p) b" by blast
  obtain lat l where a: "lru_accessBlock t (mp_addr p) (c_tags c) = Inr (Some b, lat, l)" "cache_state cov g (c\<lparr>c_tags := l\<rparr>)"
      "same_config c (c\<lparr>c_tags := l\<rparr>)" "view g l = view g (c_tags c)" "\<forall>x d. lru_holds l x d = lru_holds (c_tags c) x d"
    using access_hit [OF st h, of t] by blast
  let ?c = "c\<lparr>c_tags := l\<rparr>" and ?x = "lru_blks l ! b"
  have h': "lru_holds (c_tags ?c) (mp_addr p) b" using h a(5) by simp
  then have b: "b < length (lru_blks l)" "isValid ?x" by (simp_all add: lru_holds_def)
  have rd: "isReadable ?x" using cache_stateD(6) [OF a(2), of b] b by (simp add: blk_coherent_def)
  have p': "cpu_request ?c p" using p same_config_geometry(4) [OF a(3)] by simp
  have req: "\<not> rq_uncacheable p" "rq_masterId p < c_maxMasters c" "mp_cmd p \<noteq> Writeback" using p by (auto simp: cpu_request_def)
  show ?thesis
  proof (cases "mp_is NeedsExclusive p \<longrightarrow> isWritable ?x")
    case True
    obtain q c' where q: "satisfyCpuSideRequest False False p (Tagged b) ?c = Inr (q, c')" "cache_state cov g c'" "mp_cmd q = mp_cmd p"
        "flat_effect (view g (c_tags ?c)) p q (view g (c_tags c'))" "same_config ?c c'"
      using satisfy_ok [OF a(2) p' h'] by blast
    have "cache_access t p c = Inr (True, Some b, lat, q, [], c')"
      using a(1) b True rd req q(1) by (auto simp: cache_access_def get_blk_def count_access_def Let_def)
    then show ?thesis using q a(4) same_config_trans [OF a(3) q(5)] by auto
  next
    case False
    then have "cache_access t p c = Inr (False, Some b, lat, p, [], ?c)"
      using a(1) b req by (auto simp: cache_access_def get_blk_def count_access_def Let_def)
    then show ?thesis using False a h' by auto
  qed
next
  case False
  have req: "\<not> rq_uncacheable p" "rq_masterId p < c_maxMasters c" "mp_cmd p \<noteq> Writeback" using p by (auto simp: cpu_request_def)
  have "lru_accessBlock t (mp_addr p) (c_tags c) = Inr (None, sint (lru_hitLatency (c_tags c)), c_tags c)"
    by (rule lru_accessBlock_miss [OF cache_stateD(1) [OF st] False])
  then have "cache_access t p c =
      (if mp_is IsLlsc p \<and> mp_is IsWrite p then Inr (True, None, sint (lru_hitLatency (c_tags c)), p\<lparr>rq_extraData := Some 0\<rparr>, [], c)
       else Inr (False, None, sint (lru_hitLatency (c_tags c)), p, [], c))"
    using req by (simp add: cache_access_def count_access_def Let_def)
  moreover have "mp_cmd p = StoreCondReq" if "mp_is IsLlsc p \<and> mp_is IsWrite p"
    using that p by (auto simp: cpu_request_def)
  ultimately show ?thesis using st False by (auto simp: flat_effect_def Let_def)
qed

section \<open>The memory side\<close>

text \<open>
  The contract of the memory side: it answers a block read with the bytes it holds, possibly as shared, acknowledges an
  upgrade and keeps its bytes, and takes the bytes of a writeback.
\<close>

locale memory_port =
  fixes send :: "MPacket \<Rightarrow> 'm \<Rightarrow> (int \<times> MPacket \<times> 'm) res"
    and inv :: "'m \<Rightarrow> bool"
    and covers :: "'m \<Rightarrow> Addr \<Rightarrow> nat \<Rightarrow> bool"
    and byte :: "'m \<Rightarrow> Addr \<Rightarrow> u8"
  assumes send_read: "inv m \<Longrightarrow> covers m (mp_addr p) (mp_size p) \<Longrightarrow> mp_cmd p \<in> {ReadReq, ReadExReq} \<Longrightarrow> mp_data p = Some d \<Longrightarrow>
      length d = mp_size p \<Longrightarrow> \<not> mp_memInhibit p \<Longrightarrow>
      \<exists>lat s m'. send p m = Inr (lat, p\<lparr>mp_origCmd := mp_cmd p, mp_cmd := responseCommand (mp_cmd p),
        mp_data := Some (read_bytes (byte m) (mp_addr p) (mp_size p)), mp_shared := s\<rparr>, m') \<and>
        inv m' \<and> byte m' = byte m \<and> covers m' = covers m"
    and send_upgrade: "inv m \<Longrightarrow> covers m (mp_addr p) (mp_size p) \<Longrightarrow> mp_cmd p \<in> {UpgradeReq, SCUpgradeReq} \<Longrightarrow> mp_data p = Some d \<Longrightarrow>
      length d = mp_size p \<Longrightarrow> \<not> mp_memInhibit p \<Longrightarrow>
      \<exists>lat s m'. send p m = Inr (lat, p\<lparr>mp_origCmd := mp_cmd p, mp_cmd := UpgradeResp, mp_shared := s\<rparr>, m') \<and>
        inv m' \<and> byte m' = byte m \<and> covers m' = covers m"
    and send_writeback: "inv m \<Longrightarrow> covers m (mp_addr p) (mp_size p) \<Longrightarrow> mp_cmd p = Writeback \<Longrightarrow> mp_data p = Some d \<Longrightarrow>
      length d = mp_size p \<Longrightarrow> \<not> mp_memInhibit p \<Longrightarrow> \<not> rq_instFetch p \<Longrightarrow>
      \<exists>lat m'. send p m = Inr (lat, p, m') \<and> inv m' \<and> byte m' = write_bytes (byte m) (mp_addr p) d \<and> covers m' = covers m"
begin

definition block_covered :: "'m \<Rightarrow> Cache \<Rightarrow> Addr \<Rightarrow> bool" where
  "block_covered m c a = covers m a (2 ^ lru_setShift (c_tags c))"

lemma send_pending:
  assumes "inv m" "pending (block_covered m c) (c_tags c) (byte m) wbs g'"
  shows "\<exists>m'. send_writebacks send wbs m = Inr m' \<and> inv m' \<and> byte m' = g' \<and> covers m' = covers m"
proof (cases wbs)
  case Nil
  then show ?thesis using assms by (simp add: pending_def)
next
  case (Cons w ws)
  then have w: "ws = []" "block_writeback (block_covered m c) (c_tags c) w" "g' = write_bytes (byte m) (mp_addr w) (the (mp_data w))"
    using assms(2) by (auto simp: pending_def)
  then obtain d where d: "mp_data w = Some d" "length d = mp_size w" by (auto simp: block_writeback_def)
  have "covers m (mp_addr w) (mp_size w)" using w(2) by (simp add: block_writeback_def block_covered_def)
  then obtain lat m' where "send w m = Inr (lat, w, m')" "inv m'" "byte m' = write_bytes (byte m) (mp_addr w) d" "covers m' = covers m"
    using send_writeback [OF assms(1), of w d] w(2) d by (auto simp: block_writeback_def)
  then show ?thesis using Cons w(1,3) d by simp
qed

lemma flat_effect_response:
  "flat_effect f p q f' \<Longrightarrow> flat_effect f p (q\<lparr>mp_origCmd := x, mp_cmd := y\<rparr>) f'"
  by (simp add: flat_effect_def Let_def)

lemma makeResponse_ok:
  "mp_cmd q = mp_cmd p \<Longrightarrow> cpu_request c p \<Longrightarrow> (if mp_is NeedsResponse q then mp_makeResponse q else Inr q) =
    Inr (q\<lparr>mp_origCmd := mp_cmd p, mp_cmd := responseCommand (mp_cmd p)\<rparr>)"
  by (auto simp: cpu_request_def mp_makeResponse_def)

text \<open>The end of an access, and what is promised of its result for a request to the cache \<open>c\<close> over \<open>m\<close>.\<close>

definition complete :: "int \<Rightarrow> MPacket \<Rightarrow> MPacket list \<Rightarrow> Cache \<Rightarrow> 'm \<Rightarrow> (int \<times> MPacket \<times> Cache \<times> 'm) res" where
  "complete lat q wbs c m = bindE (send_writebacks send wbs m) (\<lambda>m.
     bindE (if mp_is NeedsResponse q then mp_makeResponse q else Inr q) (\<lambda>q. Inr (lat, q, c, m)))"

definition answered :: "'m \<Rightarrow> Cache \<Rightarrow> MPacket \<Rightarrow> (int \<times> MPacket \<times> Cache \<times> 'm) res \<Rightarrow> bool" where
  "answered m c p out \<longleftrightarrow> (\<exists>lat q c' m'. out = Inr (lat, q, c', m') \<and> inv m' \<and> covers m' = covers m \<and>
     cache_state (block_covered m' c') (byte m') c' \<and> same_config c c' \<and> mp_cmd q = responseCommand (mp_cmd p) \<and>
     flat_effect (view (byte m) (c_tags c)) p q (view (byte m') (c_tags c')))"

lemma complete_ok:
  assumes p: "cpu_request c p" and r: "inv m1" "covers m1 = covers m" "byte m1 = byte m" "cache_state (block_covered m c) g' c'"
      "same_config c c'" "pending (block_covered m c) (c_tags c) (byte m) wbs g'" "mp_cmd q = mp_cmd p"
      "flat_effect (view (byte m) (c_tags c)) p q (view g' (c_tags c'))"
  shows "answered m c p (complete lat q wbs c' m1)"
proof -
  have "pending (block_covered m1 c) (c_tags c) (byte m1) wbs g'" using r(2,3,6) by (simp add: block_covered_def [abs_def])
  then obtain m' where m': "send_writebacks send wbs m1 = Inr m'" "inv m'" "byte m' = g'" "covers m' = covers m1"
    using send_pending [OF r(1)] by blast
  have "block_covered m' c' = block_covered m c"
    using m'(4) r(2) same_config_geometry(6) [OF r(5)] by (simp add: block_covered_def fun_eq_iff)
  then show ?thesis
    using m' r makeResponse_ok [OF r(7) p] flat_effect_response [OF r(8)] by (simp add: answered_def complete_def)
qed

lemma answered_config:
  assumes "same_config c c1" "view (byte m) (c_tags c1) = view (byte m) (c_tags c)" "answered m c1 p out"
  shows "answered m c p out"
  using assms(3) same_config_trans [OF assms(1)] unfolding answered_def assms(2) by blast

text \<open>A miss: the block is fetched and filled, and the request is satisfied from it.\<close>

lemma miss_ok:
  assumes m: "inv m" and st: "cache_state (block_covered m c) (byte m) c" and p: "cpu_request c p"
    and miss: "\<nexists>b. lru_holds (c_tags c) (mp_addr p) b" and cov: "block_covered m c (lru_blkAlign (mp_addr p) (c_tags c))"
  shows "\<exists>bus l pk m1 q wbs c'. getBusPacket p None (mp_is NeedsExclusive p) c = Inr (Some bus) \<and> send bus m = Inr (l, pk, m1) \<and>
    mp_cmd pk \<noteq> NetworkNackError \<and> atomic_response p pk None [] c = Inr (q, wbs, c') \<and> (\<forall>lat. answered m c p (complete lat q wbs c' m1))"
proof -
  let ?cov = "block_covered m c" and ?l = "c_tags c"
  note s = cache_stateD [OF st]
  note w = cache_geometry_words [OF s(3,5)]
  define cmd where "cmd = (if mp_is NeedsExclusive p then ReadExReq else ReadReq)"
  have cmd: "cmd \<in> {ReadReq, ReadExReq}" by (simp add: cmd_def)
  let ?bus = "bus_packet (c_junk c) cmd (c_blkSize c) p"
  have req: "\<not> rq_uncacheable p" "rq_paddr p = mp_addr p" "rq_masterId p < c_maxMasters c"
      "mp_cmd p \<noteq> Writeback" "\<not> mp_is IsUpgrade p" "mp_is NeedsResponse p"
    using p by (auto simp: cpu_request_def)
  have bus: "mp_addr ?bus = lru_blkAlign (mp_addr p) ?l" "mp_size ?bus = 2 ^ lru_setShift ?l" "mp_cmd ?bus = cmd"
      "mp_data ?bus = Some (replicate (2 ^ lru_setShift ?l) 0)" "\<not> mp_memInhibit ?bus" "rq_masterId ?bus = rq_masterId p"
    using req(2) w(2,3) by (simp_all add: bus_packet_def allocate_def)
  have get: "getBusPacket p None (mp_is NeedsExclusive p) c = Inr (Some ?bus)"
    using req by (simp add: getBusPacket_def Let_def cmd_def)
  obtain l sh m1 where snd: "send ?bus m = Inr (l, ?bus\<lparr>mp_origCmd := cmd, mp_cmd := responseCommand cmd,
        mp_data := Some (read_bytes (byte m) (mp_addr ?bus) (2 ^ lru_setShift ?l)), mp_shared := sh\<rparr>, m1)"
      "inv m1" "byte m1 = byte m" "covers m1 = covers m"
    using send_read [OF m _ _ bus(4) _ bus(5)] bus(1-3) cov cmd unfolding block_covered_def bus(2,3) by auto
  let ?pk = "?bus\<lparr>mp_origCmd := cmd, mp_cmd := responseCommand cmd,
        mp_data := Some (read_bytes (byte m) (mp_addr ?bus) (2 ^ lru_setShift ?l)), mp_shared := sh\<rparr>"
  have pk: "mp_addr ?pk = lru_blkAlign (mp_addr p) ?l" "\<not> mp_memInhibit ?pk" "rq_masterId ?pk < c_maxMasters c"
      "mp_is HasData ?pk" "mp_is IsRead ?pk" "mp_is IsResponse ?pk" "\<not> mp_is IsError ?pk" "mp_cmd ?pk \<noteq> NetworkNackError"
    using bus req cmd by auto
  have same: "lru_blkAlign (mp_addr ?pk) ?l = lru_blkAlign (mp_addr p) ?l" unfolding pk(1) by (rule blkAlign_idem [OF s(5)])
  have miss': "\<nexists>b. lru_holds ?l (mp_addr ?pk) b" using miss holds_block(1) [OF s(5) same] by blast
  obtain b wbs c1 g1 where f: "handleFill ?pk None [] c = Inr (Tagged b, wbs, c1)" "cache_state ?cov g1 c1" "same_config c c1"
      "view g1 (c_tags c1) = view (byte m) ?l" "pending ?cov ?l (byte m) wbs g1" "lru_holds (c_tags c1) (mp_addr ?pk) b"
    using handleFill_miss [OF st miss' _ _ pk(4,5) _ pk(2,3)] same pk(1) cov by auto
  note e = same_config_geometry [OF f(3)]
  have "lru_holds (c_tags c1) (mp_addr p) b"
    using f(6) holds_block(1) [OF cache_stateD(5) [OF f(2)], of "mp_addr ?pk" "mp_addr p" b] same e(1) by simp
  then obtain q c' where q: "satisfyCpuSideRequest False False p (Tagged b) c1 = Inr (q, c')" "cache_state ?cov g1 c'" "same_config c1 c'"
      "mp_cmd q = mp_cmd p" "flat_effect (view g1 (c_tags c1)) p q (view g1 (c_tags c'))"
    using satisfy_ok [OF f(2)] p e(4) by blast
  have "atomic_response p ?pk None [] c = Inr (q, wbs, c')"
    using req pk f(1) q(1) by (simp add: atomic_response_def)
  moreover have "answered m c p (complete lat q wbs c' m1)" for lat
    using snd(2-4) q(2,4,5) f(4,5) by (intro complete_ok [OF p _ _ _ q(2) same_config_trans [OF f(3) q(3)]]) simp_all
  ultimately show ?thesis using get snd(1) pk(8) by blast
qed

text \<open>A block without write permission: the upgrade is acknowledged and the request is satisfied from the block.\<close>

lemma upgrade_ok:
  assumes m: "inv m" and st: "cache_state (block_covered m c) (byte m) c" and p: "cpu_request c p"
    and h: "lru_holds (c_tags c) (mp_addr p) b" and x: "mp_is NeedsExclusive p" "\<not> isWritable (lru_blks (c_tags c) ! b)"
    and cov: "block_covered m c (lru_blkAlign (mp_addr p) (c_tags c))"
  shows "\<exists>bus l pk m1 q wbs c'. getBusPacket p (Some b) (mp_is NeedsExclusive p) c = Inr (Some bus) \<and> send bus m = Inr (l, pk, m1) \<and>
    mp_cmd pk \<noteq> NetworkNackError \<and> atomic_response p pk (Some (Tagged b)) [] c = Inr (q, wbs, c') \<and>
    (\<forall>lat. answered m c p (complete lat q wbs c' m1))"
proof -
  let ?cov = "block_covered m c" and ?l = "c_tags c"
  note s = cache_stateD [OF st]
  note w = cache_geometry_words [OF s(3,5)]
  define cmd where "cmd = (if mp_is IsLlsc p then SCUpgradeReq else UpgradeReq)"
  have cmd: "cmd \<in> {UpgradeReq, SCUpgradeReq}" by (simp add: cmd_def)
  let ?bus = "bus_packet (c_junk c) cmd (c_blkSize c) p"
  have req: "\<not> rq_uncacheable p" "rq_paddr p = mp_addr p" "mp_is NeedsResponse p" using p by (auto simp: cpu_request_def)
  have bus: "mp_addr ?bus = lru_blkAlign (mp_addr p) ?l" "mp_size ?bus = 2 ^ lru_setShift ?l" "mp_cmd ?bus = cmd"
      "mp_data ?bus = Some (replicate (2 ^ lru_setShift ?l) 0)" "\<not> mp_memInhibit ?bus"
    using req(2) w(2,3) by (simp_all add: bus_packet_def allocate_def)
  have b: "b < length (lru_blks ?l)" "isValid (lru_blks ?l ! b)" using h by (simp_all add: lru_holds_def)
  have get: "getBusPacket p (Some b) (mp_is NeedsExclusive p) c = Inr (Some ?bus)"
    using req x b by (simp add: getBusPacket_def Let_def cmd_def get_blk_def)
  obtain l sh m1 where snd: "send ?bus m = Inr (l, ?bus\<lparr>mp_origCmd := cmd, mp_cmd := UpgradeResp, mp_shared := sh\<rparr>, m1)"
      "inv m1" "byte m1 = byte m" "covers m1 = covers m"
    using send_upgrade [OF m _ _ bus(4) _ bus(5)] bus(1-3) cov cmd unfolding block_covered_def bus(2,3) by auto
  let ?pk = "?bus\<lparr>mp_origCmd := cmd, mp_cmd := UpgradeResp, mp_shared := sh\<rparr>"
  have same: "lru_blkAlign (mp_addr ?pk) ?l = lru_blkAlign (mp_addr p) ?l" using blkAlign_idem [OF s(5)] bus(1) by simp
  have pk: "\<not> mp_is IsRead ?pk" "\<not> mp_memInhibit ?pk" using bus by simp_all
  have "lru_holds ?l (mp_addr ?pk) b" using h holds_block(1) [OF s(5) same] by blast
  then obtain c1 where f: "handleFill ?pk (Some (Tagged b)) [] c = Inr (Tagged b, [], c1)" "cache_state ?cov (byte m) c1" "same_config c c1"
      "view (byte m) (c_tags c1) = view (byte m) ?l" "\<forall>a. lru_holds (c_tags c1) a b = lru_holds ?l a b"
    using handleFill_upgrade [OF st _ pk] by blast
  obtain q c' where q: "satisfyCpuSideRequest False False p (Tagged b) c1 = Inr (q, c')" "cache_state ?cov (byte m) c'" "same_config c1 c'"
      "mp_cmd q = mp_cmd p" "flat_effect (view (byte m) (c_tags c1)) p q (view (byte m) (c_tags c'))"
    using satisfy_ok [OF f(2)] p same_config_geometry(4) [OF f(3)] f(5) h by blast
  have "atomic_response p ?pk (Some (Tagged b)) [] c = Inr (q, [], c')"
    using req f(1) q(1) by (simp add: atomic_response_def)
  moreover have "answered m c p (complete lat q [] c' m1)" for lat
    using snd(2-4) q(2,4,5) f(4) by (intro complete_ok [OF p _ _ _ q(2) same_config_trans [OF f(3) q(3)]]) (simp_all add: pending_def)
  ultimately show ?thesis using get snd(1) by fastforce
qed

text \<open>The whole access: the cache over the memory behaves as one flat memory.\<close>

lemma atomic_transparent:
  assumes m: "inv m" and st: "cache_state (block_covered m c) (byte m) c" and p: "cpu_request c p"
    and cov: "block_covered m c (lru_blkAlign (mp_addr p) (c_tags c))"
  shows "answered m c p (atomicAccess send t p c m)"
proof -
  have inh: "\<not> mp_memInhibit p" using p by (simp add: cpu_request_def)
  obtain ok blk lat q c1 where a: "cache_access t p c = Inr (ok, blk, lat, q, [], c1)" "cache_state (block_covered m c) (byte m) c1"
      "same_config c c1" "if ok then mp_cmd q = mp_cmd p \<and> flat_effect (view (byte m) (c_tags c)) p q (view (byte m) (c_tags c1))
       else q = p \<and> view (byte m) (c_tags c1) = view (byte m) (c_tags c) \<and>
         (case blk of None \<Rightarrow> \<nexists>b. lru_holds (c_tags c1) (mp_addr p) b
          | Some b \<Rightarrow> lru_holds (c_tags c1) (mp_addr p) b \<and> mp_is NeedsExclusive p \<and> \<not> isWritable (lru_blks (c_tags c1) ! b))"
    using cache_access_ok [OF st p] by blast
  note e = same_config_geometry [OF a(3)]
  show ?thesis
  proof (cases ok)
    case True
    have "atomicAccess send t p c m = complete lat q [] c1 m" using inh a(1) True by (simp add: atomicAccess_def complete_def)
    moreover have "answered m c p (complete lat q [] c1 m)"
      using m a True by (intro complete_ok [OF p, where g' = "byte m"]) (simp_all add: pending_def)
    ultimately show ?thesis by simp
  next
    case False
    then have q: "q = p" "view (byte m) (c_tags c1) = view (byte m) (c_tags c)" using a(4) by simp_all
    have cs: "cache_state (block_covered m c1) (byte m) c1" using a(2) e(6) by (simp add: block_covered_def [abs_def])
    have p1: "cpu_request c1 p" using p e(4) by simp
    have cov1: "block_covered m c1 (lru_blkAlign (mp_addr p) (c_tags c1))" using cov e(1,6) by (simp add: block_covered_def)
    have "\<exists>bus l pk m1 q wbs c'. getBusPacket p blk (mp_is NeedsExclusive p) c1 = Inr (Some bus) \<and> send bus m = Inr (l, pk, m1) \<and>
        mp_cmd pk \<noteq> NetworkNackError \<and> atomic_response p pk (map_option Tagged blk) [] c1 = Inr (q, wbs, c') \<and>
        (\<forall>lat. answered m c1 p (complete lat q wbs c' m1))"
      using miss_ok [OF m cs p1 _ cov1] upgrade_ok [OF m cs p1 _ _ _ cov1] a(4) False by (cases blk) simp_all
    then obtain bus l pk m1 r wbs c' where f: "getBusPacket p blk (mp_is NeedsExclusive p) c1 = Inr (Some bus)"
        "send bus m = Inr (l, pk, m1)" "mp_cmd pk \<noteq> NetworkNackError" "atomic_response p pk (map_option Tagged blk) [] c1 = Inr (r, wbs, c')"
        "\<And>lat. answered m c1 p (complete lat r wbs c' m1)" by blast
    have "atomicAccess send t p c m = complete (int32 (lat + l)) r wbs c' m1"
      using inh a(1) False q(1) f(1-4) by (simp add: atomicAccess_def complete_def)
    then show ?thesis using answered_config [OF a(3) q(2) f(5)] by simp
  qed
qed

end

section \<open>A memory below\<close>

definition mem_covers :: "AbstractMemory \<Rightarrow> Addr \<Rightarrow> nat \<Rightarrow> bool" where
  "mem_covers m a n \<longleftrightarrow> 0 < n \<and> unat a + n \<le> 2 ^ 64 \<and> r_start (m_range m) \<le> a \<and> a + of_nat n - 1 \<le> r_end (m_range m)"

definition mem_byte :: "AbstractMemory \<Rightarrow> Addr \<Rightarrow> u8" where
  "mem_byte m a = (if r_start (m_range m) \<le> a \<and> a \<le> r_end (m_range m) then byte_at m a else 0)"

lemma unat_last: "0 < n \<Longrightarrow> unat a + n \<le> 2 ^ 64 \<Longrightarrow> unat (a + of_nat n - 1 :: Addr) = unat a + n - 1"
proof -
  assume n: "0 < n" "unat a + n \<le> 2 ^ 64"
  have "of_nat (unat a + n - 1) = (of_nat (unat a + n) - of_nat 1 :: Addr)" using n(1) by (intro of_nat_diff) linarith
  then have "a + of_nat n - 1 = of_nat (unat a + n - 1)" by simp
  moreover have "unat (of_nat (unat a + n - 1) :: Addr) = unat a + n - 1"
    using n unfolding unat_of_nat by (intro mod_less) simp
  ultimately show ?thesis by (rule ssubst)
qed

lemma covered_packet:
  assumes "block_ok m" "mem_covers m (mp_addr p) (mp_size p)" "mp_data p = Some d" "length d = mp_size p"
  shows "in_block (packet_view p) m" "packet_ok (packet_view p)" "\<exists>b. pmemAddr m = Some b \<and> host_index (mp_addr p) m + mp_size p \<le> length b"
proof -
  show i: "in_block (packet_view p) m" and k: "packet_ok (packet_view p)"
    using assms(2-4) by (auto simp: mem_covers_def in_block_def packet_ok_def packet_view_def)
  obtain b where b: "pmemAddr m = Some b" using assms(1) by (auto simp: block_ok_def split: option.splits)
  show "\<exists>b. pmemAddr m = Some b \<and> host_index (mp_addr p) m + mp_size p \<le> length b"
    using in_block_bounds [OF assms(1) k i b] b assms(3,4) by (simp add: packet_view_def)
qed

lemma host_index_add:
  assumes "mem_covers m a n" "i < n"
  shows "host_index (a + of_nat i) m = host_index a m + i" "r_start (m_range m) \<le> a + of_nat i \<and> a + of_nat i \<le> r_end (m_range m)"
proof -
  let ?s = "r_start (m_range m)" and ?e = "r_end (m_range m)"
  have c: "unat a + n \<le> 2 ^ 64" "?s \<le> a" "a + of_nat n - 1 \<le> ?e" using assms(1) by (auto simp: mem_covers_def)
  have "unat (of_nat i :: Addr) = i" using assms(2) c(1) by (simp add: unat_of_nat)
  then have u: "unat (a + of_nat i) = unat a + i" using assms(2) c(1) by (simp add: unat_word_ariths)
  have le: "?s \<le> a + of_nat i" using c(2) u by (simp add: word_le_nat_alt)
  show "host_index (a + of_nat i) m = host_index a m + i"
    using u c(2) le by (simp add: host_index_def unat_sub word_le_nat_alt)
  have "unat a + n - 1 \<le> unat ?e" using c unat_last [of n a] assms(2) by (simp add: word_le_nat_alt)
  then show "?s \<le> a + of_nat i \<and> a + of_nat i \<le> ?e" using le u assms(2) by (simp add: word_le_nat_alt)
qed

lemma mem_read_bytes:
  assumes c: "mem_covers m a n" and b: "pmemAddr m = Some b" "host_index a m + n \<le> length b"
  shows "take n (drop (host_index a m) b) = read_bytes (mem_byte m) a n"
proof (rule nth_equalityI)
  show "length (take n (drop (host_index a m) b)) = length (read_bytes (mem_byte m) a n)" using b(2) by simp
  fix i assume "i < length (take n (drop (host_index a m) b))"
  then have i: "i < n" by simp
  show "take n (drop (host_index a m) b) ! i = read_bytes (mem_byte m) a n ! i"
    using host_index_add [OF c i] i b by (simp add: nth_read_bytes mem_byte_def byte_at_def)
qed

lemma mem_write_bytes:
  assumes ok: "block_ok m" and c: "mem_covers m a (length d)" and b: "pmemAddr m = Some b"
    and m': "m_range m' = m_range m" "pmemAddr m' = Some (take (host_index a m) b @ d @ drop (host_index a m + length d) b)"
  shows "mem_byte m' = write_bytes (mem_byte m) a d" "block_ok m'"
proof -
  let ?s = "r_start (m_range m)" and ?e = "r_end (m_range m)" and ?h = "host_index a m"
  have cc: "unat a + length d \<le> 2 ^ 64" "?s \<le> a" "a + of_nat (length d) - 1 \<le> ?e" "0 < length d"
    using c by (auto simp: mem_covers_def)
  have len: "length b = unat (?e - ?s) + 1" "?s \<le> ?e" using ok b by (auto simp: block_ok_def)
  have "unat a + length d - 1 \<le> unat ?e" using cc unat_last [of "length d" a] by (simp add: word_le_nat_alt)
  then have fits: "?h + length d \<le> length b"
    using len cc by (simp add: host_index_def unat_sub word_le_nat_alt)
  then show "block_ok m'" using ok b m' by (simp add: block_ok_def)
  have "mem_byte m' x = write_bytes (mem_byte m) a d x" for x
  proof (cases "unat (x - a) < length d")
    case True
    note h = host_index_add [OF c True, simplified]
    have "mem_byte m' x = d ! unat (x - a)"
      using h True fits m' nth_host_write [OF fits, of "host_index x m"] by (simp add: mem_byte_def byte_at_def host_index_def)
    then show ?thesis using True by (simp add: write_bytes_def)
  next
    case False
    have "\<not> (?h \<le> host_index x m \<and> host_index x m < ?h + length d)"
    proof
      assume r: "?h \<le> host_index x m \<and> host_index x m < ?h + length d"
      have "unat (x - a) = unat ((x - ?s) - (a - ?s))" by simp
      also have "\<dots> = host_index x m - ?h" unfolding host_index_def
        using r by (intro unat_sub) (simp add: host_index_def word_le_nat_alt)
      finally show False using r False by linarith
    qed
    moreover have "host_index x m < length b" if "?s \<le> x" "x \<le> ?e"
    proof -
      have "unat (x - ?s) = unat x - unat ?s" "unat (?e - ?s) = unat ?e - unat ?s" using that(1) len(2) by (auto intro: unat_sub)
      then show ?thesis using that(2) len(1) unfolding host_index_def word_le_nat_alt by linarith
    qed
    ultimately show ?thesis
      using False m' b nth_host_write [OF fits, of "host_index x m"]
      by (auto simp: mem_byte_def write_bytes_def byte_at_def host_index_def)
  qed
  then show "mem_byte m' = write_bytes (mem_byte m) a d" by blast
qed

lemma mem_send_read:
  assumes "block_ok m" "mem_covers m (mp_addr p) (mp_size p)" "mp_cmd p \<in> {ReadReq, ReadExReq}" "mp_data p = Some d"
    "length d = mp_size p" "\<not> mp_memInhibit p"
  shows "doAtomicAccess lat p m = Inr (lat, p\<lparr>mp_origCmd := mp_cmd p, mp_cmd := responseCommand (mp_cmd p),
     mp_data := Some (read_bytes (mem_byte m) (mp_addr p) (mp_size p))\<rparr>, m)"
proof -
  note c = covered_packet [OF assms(1,2,4,5)]
  obtain b where b: "pmemAddr m = Some b" "host_index (mp_addr p) m + mp_size p \<le> length b" using c(3) by blast
  have v: "p_addr (packet_view p) = mp_addr p" "p_data (packet_view p) = d" using assms(4) by (simp_all add: packet_view_def)
  have "read_into (packet_view p) m = Inr ((packet_view p)\<lparr>p_data := read_bytes (mem_byte m) (mp_addr p) (mp_size p)\<rparr>)"
    using b assms(5) v mem_read_bytes [OF assms(2) b] by (simp add: read_into_def host_read_def)
  then have "mem_access (packet_view p) m = Inr ((packet_view p)\<lparr>p_data := read_bytes (mem_byte m) (mp_addr p) (mp_size p),
      p_isResponse := True, p_needsResponse := False\<rparr>, m)"
    using assms(3,6) c(1) by (auto simp: mem_access_def packet_view_def respond_def makeResponse_def)
  moreover have "mp_cmd p = ReadReq \<or> mp_cmd p = ReadExReq" using assms(3) by simp
  ultimately show ?thesis
    using assms(4,6) by (elim disjE; cases p) (simp_all add: doAtomicAccess_def packet_update_def)
qed

lemma mem_send_upgrade:
  assumes "block_ok m" "mem_covers m (mp_addr p) (mp_size p)" "mp_cmd p \<in> {UpgradeReq, SCUpgradeReq}" "mp_data p = Some d"
    "length d = mp_size p" "\<not> mp_memInhibit p"
  shows "doAtomicAccess lat p m = Inr (lat, p\<lparr>mp_origCmd := mp_cmd p, mp_cmd := UpgradeResp\<rparr>, m)"
proof -
  note c = covered_packet [OF assms(1,2,4,5)]
  have "mem_access (packet_view p) m = Inr ((packet_view p)\<lparr>p_isResponse := True, p_needsResponse := False\<rparr>, m)"
    using assms(3,6) c(1) by (auto simp: mem_access_def packet_view_def respond_def makeResponse_def)
  moreover have "p_data (packet_view p) = d" using assms(4) by (simp add: packet_view_def)
  ultimately show ?thesis
    using assms(3,4,6) by (cases p) (auto simp: doAtomicAccess_def packet_update_def)
qed

lemma mem_send_writeback:
  assumes ok: "block_ok m" "mem_covers m (mp_addr p) (mp_size p)" and p: "mp_cmd p = Writeback" "mp_data p = Some d"
    "length d = mp_size p" "\<not> mp_memInhibit p" "\<not> rq_instFetch p"
  shows "\<exists>m'. doAtomicAccess lat p m = Inr (lat, p, m') \<and> block_ok m' \<and> mem_byte m' = write_bytes (mem_byte m) (mp_addr p) d \<and>
    m_range m' = m_range m"
proof -
  let ?q = "packet_view p" and ?a = "mp_addr p"
  note c = covered_packet [OF ok p(2,3)]
  obtain b where b: "pmemAddr m = Some b" "host_index ?a m + mp_size p \<le> length b" using c(3) by blast
  have q: "p_addr ?q = ?a" "p_data ?q = d" "\<not> req_isLLSC ?q" "\<not> p_isSwap ?q" "\<not> p_isRead ?q" "p_isWrite ?q" "\<not> p_memInhibit ?q"
      "\<not> req_isInstFetch ?q" "\<not> p_needsResponse ?q" "\<not> p_isResponse ?q"
    using p by (simp_all add: packet_view_def)
  obtain m1 where w: "writeOK ?q m = (True, ?q, m1)" "m_range m1 = m_range m" "pmemAddr m1 = pmemAddr m"
    using q(3) by (cases "writeOK ?q m") (auto simp: writeOK_check checkLockedAddrList_def check_locks_eq)
  let ?m = "m1\<lparr>pmemAddr := Some (take (host_index ?a m) b @ d @ drop (host_index ?a m + length d) b)\<rparr>"
  have hi: "host_index ?a m1 = host_index ?a m" using w(2) by (simp add: host_index_def)
  have "write_from d ?q m1 = Inr ?m"
    using b p(3) w(3) q(1) hi by (simp add: write_from_def host_write_def)
  then have "mem_access ?q m = Inr (?q, ?m)"
    using c(1) q w(1) by (simp add: mem_access_def respond_def)
  moreover have "packet_update ?q p = p" using p q by (cases p) (simp add: packet_update_def)
  ultimately have "doAtomicAccess lat p m = Inr (lat, p, ?m)" using p(4) by (simp add: doAtomicAccess_def)
  moreover have "mem_byte ?m = write_bytes (mem_byte m) ?a d" "block_ok ?m"
    using ok(2) p(3) w(2) mem_write_bytes [OF ok(1) _ b(1), of ?a d ?m] by simp_all
  ultimately show ?thesis using w(2) by auto
qed

interpretation memory: memory_port "doAtomicAccess lat" block_ok mem_covers mem_byte
proof (unfold_locales, goal_cases)
  case (1 m p d)
  then show ?case
    using mem_send_read [OF 1, of lat] by (intro exI [of _ lat] exI [of _ "mp_shared p"] exI [of _ m]) simp
next
  case (2 m p d)
  then show ?case
    using mem_send_upgrade [OF 2, of lat] by (intro exI [of _ lat] exI [of _ "mp_shared p"] exI [of _ m]) simp
next
  case (3 m p d)
  then show ?case using mem_send_writeback [OF 3, of lat] by (auto simp: mem_covers_def [abs_def])
qed

section \<open>Sequences of requests\<close>

text \<open>The requests of a processor one after the other, with their answers.\<close>

fun atomic_run :: "int \<Rightarrow> int \<Rightarrow> MPacket list \<Rightarrow> Cache \<Rightarrow> AbstractMemory \<Rightarrow> (MPacket list \<times> Cache \<times> AbstractMemory) res" where
  "atomic_run lat t [] c m = Inr ([], c, m)"
| "atomic_run lat t (p # ps) c m =
     bindE (atomicAccess (doAtomicAccess lat) t p c m) (\<lambda>(l, q, c, m).
     bindE (atomic_run lat t ps c m) (\<lambda>(qs, c, m). Inr (q # qs, c, m)))"

fun flat_run :: "(Addr \<Rightarrow> u8) \<Rightarrow> MPacket list \<Rightarrow> MPacket list \<Rightarrow> (Addr \<Rightarrow> u8) \<Rightarrow> bool" where
  "flat_run f [] [] f' \<longleftrightarrow> f' = f"
| "flat_run f (p # ps) (q # qs) f' \<longleftrightarrow>
     (\<exists>g. mp_cmd q = responseCommand (mp_cmd p) \<and> flat_effect f p q g \<and> flat_run g ps qs f')"
| "flat_run f _ _ f' \<longleftrightarrow> False"

lemma atomic_run_ok:
  assumes "block_ok m" "cache_state (memory.block_covered m c) (mem_byte m) c"
    and "\<forall>p\<in>set ps. cpu_request c p \<and> memory.block_covered m c (lru_blkAlign (mp_addr p) (c_tags c))"
  shows "\<exists>qs c' m'. atomic_run lat t ps c m = Inr (qs, c', m') \<and> flat_run (view (mem_byte m) (c_tags c)) ps qs (view (mem_byte m') (c_tags c'))"
  using assms
proof (induction ps arbitrary: c m)
  case (Cons p ps)
  have p: "cpu_request c p" "memory.block_covered m c (lru_blkAlign (mp_addr p) (c_tags c))" using Cons.prems(3) by simp_all
  obtain l q c1 m1 where a: "atomicAccess (doAtomicAccess lat) t p c m = Inr (l, q, c1, m1)" "block_ok m1" "mem_covers m1 = mem_covers m"
      "cache_state (memory.block_covered m1 c1) (mem_byte m1) c1" "same_config c c1" "mp_cmd q = responseCommand (mp_cmd p)"
      "flat_effect (view (mem_byte m) (c_tags c)) p q (view (mem_byte m1) (c_tags c1))"
    using memory.atomic_transparent [OF Cons.prems(1,2) p, of lat t] unfolding memory.answered_def by blast
  note e = same_config_geometry [OF a(5)]
  have "\<forall>p\<in>set ps. cpu_request c1 p \<and> memory.block_covered m1 c1 (lru_blkAlign (mp_addr p) (c_tags c1))"
    using Cons.prems(3) a(3) e by (simp add: memory.block_covered_def)
  from Cons.IH [OF a(2,4) this] show ?case using a(1,6,7) by fastforce
qed simp

text \<open>A cache that holds nothing shows the memory below.\<close>

lemma fresh_state:
  assumes "lru_wf l" "\<forall>x\<in>set (lru_blks l). \<not> isValid x" "k = 2 ^ lru_setShift l" "lru_setShift l < 31"
  shows "cache_state cov g (Cache_ctor l k h isTop M fresh junk)" "view g l = g"
proof -
  show "cache_state cov g (Cache_ctor l k h isTop M fresh junk)"
    using assms by (simp add: cache_state_def Cache_ctor_def cache_geometry_def masters_ok_def)
  have "\<nexists>b. lru_holds l a b" for a using assms(2) by (auto simp: lru_holds_def)
  then show "view g l = g" using view_miss [OF assms(1)] by blast
qed

text \<open>
  (C15) A cache of any valid geometry over a memory in atomic mode is transparent for cacheable requests: every sequence of
  reads, load-locked reads, writes, store conditionals and swaps of a processor, each cacheable, within one block that the
  memory covers, and smaller than the block unless the cache is at the top level (\<open>cpu_request\<close>), runs without an error, and
  its answers are those of one flat memory with the initial contents of the memory; whatever blocks
  were fetched, upgraded, evicted and written back on the way, the cache and the memory together show the
  contents of the flat memory at the end. A store conditional either stores and reports success or changes nothing and
  reports failure; which of the two is left open here (\<open>flat_effect\<close>).
\<close>

theorem cache_transparent:
  assumes "lru_params d n k w h" "unat k < 2 ^ 31" and "block_ok m"
    and "LRU_ctor d n k w h = Inr l" "c = Cache_ctor l k hl isTop M fresh junk"
    and "\<forall>p\<in>set ps. cpu_request c p \<and> mem_covers m (lru_blkAlign (mp_addr p) l) (unat k)"
  shows "\<exists>qs c' m'. atomic_run lat t ps c m = Inr (qs, c', m') \<and> flat_run (mem_byte m) ps qs (view (mem_byte m') (c_tags c'))"
proof -
  obtain l' where l': "LRU_ctor d n k w h = Inr l'" "lru_wf l'" "\<forall>x\<in>set (lru_blks l'). \<not> isValid x" "unat k = 2 ^ lru_setShift l'"
    using lru_ctor_ok [OF assms(1)] by blast
  have l: "l' = l" using l'(1) assms(4) by simp
  have "(2 :: nat) ^ lru_setShift l < 2 ^ 31" using assms(2) l'(4) l by simp
  then have s: "lru_setShift l < 31" using power_less_imp_less_exp [of "2 :: nat" "lru_setShift l" 31] by simp
  have "unat k = unat (2 ^ lru_setShift l :: u32)" using l'(4) l s unat_exp [of "lru_setShift l", where 'a = 32] by simp
  then have k: "k = 2 ^ lru_setShift l" by (rule unsigned_word_eqI)
  have wf: "lru_wf l" "\<forall>x\<in>set (lru_blks l). \<not> isValid x" using l' l by auto
  note f = fresh_state [OF wf k s]
  have c: "c_tags c = l" "cache_state (memory.block_covered m c) (mem_byte m) c" using f(1) assms(5) by (simp_all add: Cache_ctor_def)
  have "memory.block_covered m c a \<longleftrightarrow> mem_covers m a (unat k)" for a using c(1) l'(4) l by (simp add: memory.block_covered_def)
  then have "\<forall>p\<in>set ps. cpu_request c p \<and> memory.block_covered m c (lru_blkAlign (mp_addr p) (c_tags c))" using assms(6) c(1) by simp
  from atomic_run_ok [OF assms(3) c(2) this, of lat t] show ?thesis using f(2) [of "mem_byte m"] c(1) by simp
qed

theorem cache_transparent_witness:
  "\<exists>l qs c' m'. LRU_ctor (replicate 4 0) 1 4 1 1 = Inr l \<and>
     atomic_run 1 0 [byte_packet WriteReq 0x101 [9], byte_packet ReadReq 0x105 [0], byte_packet ReadReq 0x101 [0]]
       (Cache_ctor l 4 1 True 2 (replicate 4 0) 0) small_memory = Inr (qs, c', m') \<and> mp_data (qs ! 2) = Some [9]"
proof -
  have "isPowerOf2 (1 :: u32)" "isPowerOf2 (4 :: u32)" by (simp_all add: isPowerOf2_def leastSigBit_def)
  then have prm: "lru_params (replicate 4 0) 1 4 1 1" by (simp add: lru_params_def)
  from lru_ctor_ok [OF prm] obtain l where l: "LRU_ctor (replicate 4 0) 1 4 1 1 = Inr l" "lru_blkMask l = 4 - 1" by blast
  let ?c = "Cache_ctor l 4 1 True 2 (replicate 4 0) 0"
  let ?ps = "[byte_packet WriteReq 0x101 [9], byte_packet ReadReq 0x105 [0], byte_packet ReadReq 0x101 [0]]"
  have req: "\<forall>p\<in>set ?ps. cpu_request ?c p \<and> mem_covers small_memory (lru_blkAlign (mp_addr p) l) (unat (4 :: u32))"
    using l(2) by (simp add: cpu_request_def Cache_ctor_def lru_extractBlkOffset_def lru_blkAlign_def byte_packet_def
        mem_covers_def small_memory_def)
  have "block_ok small_memory" by (simp add: block_ok_def small_memory_def)
  from cache_transparent [OF prm _ this l(1) refl req, of 1 0] obtain qs c' m' where
    r: "atomic_run 1 0 ?ps ?c small_memory = Inr (qs, c', m')" "flat_run (mem_byte small_memory) ?ps qs (view (mem_byte m') (c_tags c'))"
    by auto
  obtain q1 q2 q3 where qs: "qs = [q1, q2, q3]" using r(2) by (cases qs; cases "tl qs"; cases "tl (tl qs)"; cases "tl (tl (tl qs))") auto
  have "mp_data q3 = Some [9]"
    using r(2) unfolding qs by (auto simp: flat_effect_def Let_def read_bytes_def write_bytes_def)
  then show ?thesis using l(1) r(1) qs by (intro exI conjI) auto
qed

text \<open>
  The restriction to cacheable requests is needed: an uncacheable request that does not clear the locks drops the block of
  its address and writes nothing back, even if the block is dirty.
\<close>

lemma uncacheable_drops_block:
  assumes "lru_wf (c_tags c)" "masters_ok (c_maxMasters c) (c_tags c)" "lru_holds (c_tags c) (mp_addr p) b"
    and "rq_uncacheable p" "\<not> rq_clearLL p"
  shows "\<exists>l. cache_access t p c = Inr (False, None, c_hitLatency c, p, [], c\<lparr>c_tags := l\<rparr>) \<and> \<not> isValid (lru_blks l ! b)"
proof -
  have b: "b < length (lru_blks (c_tags c))" using assms(3) by (simp add: lru_holds_def)
  have f: "lru_findBlock (mp_addr p) (c_tags c) = Inr (Some b)" using lru_findBlock_hit [OF assms(1,3)] .
  let ?l = "(lru_count_invalid (lru_blks (c_tags c) ! b) (c_tags c))
      \<lparr>lru_blks := (lru_blks (c_tags c))[b := lru_invalidated (lru_blks (c_tags c) ! b)]\<rparr>"
  show ?thesis
    using lru_invalidateBlk_eq [OF b assms(2)] f assms(4,5) b by (intro exI [of _ ?l]) (simp add: cache_access_def)
qed

end
