(* ===== verification/O3_Regs.thy ===== *)
theory O3_Regs
  imports Alpha_Isa "HOL-Library.Multiset"
begin

text \<open>
  The register structures of the out-of-order processor: the list of free physical registers
  (\<open>src/src/cpu/o3/free_list.hh\<close>), the rename map of a thread (\<open>rename_map.cc\<close>), the
  scoreboard (\<open>scoreboard.cc\<close>), the physical register file (\<open>regfile.hh\<close>), and the part of
  the constructor of \<open>FullO3CPU\<close> (\<open>cpu.cc\<close>) that creates and binds them. Physical register
  numbers are C \<open>short\<close>s, architected ones \<open>uint8_t\<close>s; both are modelled as integers with the
  conversions written out. The instruction set is Alpha.
\<close>

section \<open>Register numbers\<close>

definition short :: "int \<Rightarrow> int" where
  "short x = signed_take_bit 15 x"

definition reg8 :: "int \<Rightarrow> int" where
  "reg8 x = x mod 256"

lemma short_id [simp]: "-32768 \<le> x \<Longrightarrow> x < 32768 \<Longrightarrow> short x = x"
  unfolding short_def by (rule signed_take_bit_int_eq_self) auto

lemma reg8_id [simp]: "0 \<le> x \<Longrightarrow> x < 256 \<Longrightarrow> reg8 x = x"
  by (simp add: reg8_def)

text \<open>The constants of \<open>arch/alpha/registers.hh\<close> that renaming uses.\<close>

definition ZeroReg :: int where "ZeroReg = 31"
definition NumMiscRegs :: int where "NumMiscRegs = NumInternalProcRegs + 5"
definition FP_Base_DepTag :: int where "FP_Base_DepTag = 40"
definition Ctrl_Base_DepTag :: int where "Ctrl_Base_DepTag = 72"
definition Max_DepTag :: int where
  "Max_DepTag = Ctrl_Base_DepTag + NumMiscRegs + NumInternalProcRegs"

lemmas o3_consts = ZeroReg_def NumMiscRegs_def FP_Base_DepTag_def Ctrl_Base_DepTag_def Max_DepTag_def
  NumIntRegs_def NumFloatRegs_def NumInternalProcRegs_def

section \<open>Free list\<close>

record SimpleFreeList =
  freeIntRegs :: "int list"
  freeFloatRegs :: "int list"
  fl_numLogicalIntRegs :: int
  fl_numPhysicalIntRegs :: int
  fl_numLogicalFloatRegs :: int
  fl_numPhysicalFloatRegs :: int
  fl_numPhysicalRegs :: int

text \<open>
  The loops of the constructor count with a \<open>short\<close>, so a limit above 32767 is never reached.
  A loop that ends does so within 65536 rounds.
\<close>

fun push_regs :: "nat \<Rightarrow> int \<Rightarrow> int \<Rightarrow> int list \<Rightarrow> int list res" where
  "push_regs 0 i n q = Inl Diverges"
| "push_regs (Suc fuel) i n q =
     (if i < n then push_regs fuel (short (i + 1)) n (q @ [i]) else Inr q)"

definition short_loop :: nat where "short_loop = 65537"

definition SimpleFreeList_ctor :: "int \<Rightarrow> int \<Rightarrow> int \<Rightarrow> int \<Rightarrow> int \<Rightarrow> SimpleFreeList res" where
  "SimpleFreeList_ctor activeThreads lint pint lfloat pfloat =
     bindE (push_regs short_loop (short (lint * activeThreads)) pint []) (\<lambda>ints.
     bindE (push_regs short_loop (short (pint + lfloat * activeThreads)) (pint + pfloat) []) (\<lambda>floats.
     Inr \<lparr>freeIntRegs = ints, freeFloatRegs = floats, fl_numLogicalIntRegs = lint,
          fl_numPhysicalIntRegs = pint, fl_numLogicalFloatRegs = lfloat,
          fl_numPhysicalFloatRegs = pfloat, fl_numPhysicalRegs = pint + pfloat\<rparr>))"

definition getIntReg :: "SimpleFreeList \<Rightarrow> (int \<times> SimpleFreeList) res" where
  "getIntReg fl = (case freeIntRegs fl of [] \<Rightarrow> Inl Panic
     | r # rs \<Rightarrow> Inr (r, fl\<lparr>freeIntRegs := rs\<rparr>))"

definition getFloatReg :: "SimpleFreeList \<Rightarrow> (int \<times> SimpleFreeList) res" where
  "getFloatReg fl = (case freeFloatRegs fl of [] \<Rightarrow> Inl Panic
     | r # rs \<Rightarrow> Inr (r, fl\<lparr>freeFloatRegs := rs\<rparr>))"

definition addReg :: "int \<Rightarrow> SimpleFreeList \<Rightarrow> SimpleFreeList" where
  "addReg freed_reg fl =
     (if freed_reg < fl_numPhysicalIntRegs fl then
        if freed_reg \<noteq> ZeroReg then fl\<lparr>freeIntRegs := freeIntRegs fl @ [freed_reg]\<rparr> else fl
      else if freed_reg < fl_numPhysicalRegs fl then
        if freed_reg \<noteq> ZeroReg + fl_numPhysicalIntRegs fl
        then fl\<lparr>freeFloatRegs := freeFloatRegs fl @ [freed_reg]\<rparr> else fl
      else fl)"

definition numFreeIntRegs :: "SimpleFreeList \<Rightarrow> int" where
  "numFreeIntRegs fl = int (length (freeIntRegs fl))"

definition numFreeFloatRegs :: "SimpleFreeList \<Rightarrow> int" where
  "numFreeFloatRegs fl = int (length (freeFloatRegs fl))"

section \<open>Rename map\<close>

record SimpleRenameMap =
  rmap_id :: int
  numLogicalIntRegs :: int
  numPhysicalIntRegs :: int
  numLogicalFloatRegs :: int
  numPhysicalFloatRegs :: int
  rmap_numMiscRegs :: int
  numLogicalRegs :: int
  numPhysicalRegs :: int
  intZeroReg :: int
  floatZeroReg :: int
  intRenameMap :: "int list"
  floatRenameMap :: "int list"

text \<open>
  The loops of \<open>init\<close> bind the entries from \<open>index\<close> on to consecutive physical registers; the
  integer loop counts with a \<open>RegIndex\<close>, the floating point loop with a \<open>PhysRegIndex\<close>.
\<close>

fun bind_regs :: "nat \<Rightarrow> (int \<Rightarrow> int) \<Rightarrow> int \<Rightarrow> int \<Rightarrow> int \<Rightarrow> int list \<Rightarrow> (int list \<times> int) res" where
  "bind_regs 0 conv index n reg_idx m = Inl Diverges"
| "bind_regs (Suc fuel) conv index n reg_idx m =
     (if index < n
      then bindE (set_int m index reg_idx) (\<lambda>m.
           bind_regs fuel conv (conv (index + 1)) n (short (reg_idx + 1)) m)
      else Inr (m, reg_idx))"

text \<open>The result is the map and the two counters that the caller passes by reference.\<close>

definition SimpleRenameMap_init ::
  "int \<Rightarrow> int \<Rightarrow> int \<Rightarrow> int \<Rightarrow> int \<Rightarrow> int \<Rightarrow> int \<Rightarrow> int \<Rightarrow> int \<Rightarrow> int \<Rightarrow> bool \<Rightarrow>
     (SimpleRenameMap \<times> int \<times> int) res" where
  "SimpleRenameMap_init lint pint ireg_idx lfloat pfloat freg_idx misc izero fzero map_id bindRegs =
     bindE (bind_regs short_loop reg8 0 lint ireg_idx (replicate (nat lint) 0)) (\<lambda>(im, ireg').
     bindE (bind_regs short_loop short (short lint) (lint + lfloat) freg_idx
              (replicate (nat (lint + lfloat)) 0)) (\<lambda>(fm, freg').
     Inr (\<lparr>rmap_id = map_id, numLogicalIntRegs = lint, numPhysicalIntRegs = pint,
           numLogicalFloatRegs = lfloat, numPhysicalFloatRegs = pfloat, rmap_numMiscRegs = misc,
           numLogicalRegs = lint + lfloat, numPhysicalRegs = pint + pfloat,
           intZeroReg = izero, floatZeroReg = fzero, intRenameMap = im, floatRenameMap = fm\<rparr>,
          if bindRegs then (ireg', freg') else (ireg_idx, freg_idx))))"

text \<open>\<open>rename\<close> returns the new and the previous physical register of the architected one.\<close>

definition SimpleRenameMap_rename ::
  "int \<Rightarrow> SimpleRenameMap \<Rightarrow> SimpleFreeList \<Rightarrow> ((int \<times> int) \<times> SimpleRenameMap \<times> SimpleFreeList) res" where
  "SimpleRenameMap_rename arch_reg m fl =
     (if arch_reg < numLogicalIntRegs m then
        bindE (at_int (intRenameMap m) arch_reg) (\<lambda>prev_reg.
        if arch_reg \<noteq> intZeroReg m then
          bindE (getIntReg fl) (\<lambda>(renamed_reg, fl).
          bindE (set_int (intRenameMap m) arch_reg renamed_reg) (\<lambda>im.
          bindE (assertE (0 \<le> renamed_reg \<and> renamed_reg < numPhysicalIntRegs m)) (\<lambda>_.
          Inr ((renamed_reg, prev_reg), m\<lparr>intRenameMap := im\<rparr>, fl))))
        else Inr ((intZeroReg m, prev_reg), m, fl))
      else if arch_reg < numLogicalRegs m then
        bindE (at_int (floatRenameMap m) arch_reg) (\<lambda>prev_reg.
        if arch_reg \<noteq> floatZeroReg m then
          bindE (getFloatReg fl) (\<lambda>(renamed_reg, fl).
          bindE (set_int (floatRenameMap m) arch_reg renamed_reg) (\<lambda>fm.
          bindE (assertE (renamed_reg < numPhysicalRegs m \<and> numPhysicalIntRegs m \<le> renamed_reg)) (\<lambda>_.
          Inr ((renamed_reg, prev_reg), m\<lparr>floatRenameMap := fm\<rparr>, fl))))
        else Inr ((floatZeroReg m, prev_reg), m, fl))
      else
        let misc = reg8 (arch_reg - numLogicalRegs m);
            renamed_reg = short (misc + numPhysicalRegs m)
        in Inr ((renamed_reg, renamed_reg), m, fl))"

definition SimpleRenameMap_lookup :: "int \<Rightarrow> SimpleRenameMap \<Rightarrow> int res" where
  "SimpleRenameMap_lookup arch_reg m =
     (if arch_reg < numLogicalIntRegs m then at_int (intRenameMap m) arch_reg
      else if arch_reg < numLogicalRegs m then at_int (floatRenameMap m) arch_reg
      else Inr (short (numPhysicalRegs m + reg8 (arch_reg - numLogicalRegs m))))"

definition SimpleRenameMap_setEntry :: "int \<Rightarrow> int \<Rightarrow> SimpleRenameMap \<Rightarrow> SimpleRenameMap res" where
  "SimpleRenameMap_setEntry arch_reg renamed_reg m =
     (if arch_reg < numLogicalIntRegs m then
        bindE (set_int (intRenameMap m) arch_reg renamed_reg) (\<lambda>im. Inr (m\<lparr>intRenameMap := im\<rparr>))
      else if arch_reg < numLogicalIntRegs m + numLogicalFloatRegs m then
        bindE (set_int (floatRenameMap m) arch_reg renamed_reg) (\<lambda>fm. Inr (m\<lparr>floatRenameMap := fm\<rparr>))
      else Inr m)"

definition numFreeEntries :: "SimpleFreeList \<Rightarrow> int" where
  "numFreeEntries fl =
     (if numFreeIntRegs fl < numFreeFloatRegs fl then numFreeIntRegs fl else numFreeFloatRegs fl)"

section \<open>Scoreboard\<close>

record Scoreboard =
  regScoreBoard :: "bool list"
  sb_numPhysicalIntRegs :: int
  zeroRegIdx :: int
  currentSize :: int

definition indexInBounds :: "int \<Rightarrow> Scoreboard \<Rightarrow> bool" where
  "indexInBounds idx sb \<longleftrightarrow> idx < currentSize sb"

definition sb_setReg :: "int \<Rightarrow> Scoreboard \<Rightarrow> Scoreboard res" where
  "sb_setReg phys_reg sb =
     bindE (assertE (indexInBounds phys_reg sb)) (\<lambda>_.
     bindE (set_int (regScoreBoard sb) phys_reg True) (\<lambda>b. Inr (sb\<lparr>regScoreBoard := b\<rparr>)))"

definition sb_zero :: "int \<Rightarrow> Scoreboard \<Rightarrow> bool" where
  "sb_zero phys_reg sb \<longleftrightarrow>
     phys_reg = zeroRegIdx sb \<or> phys_reg = zeroRegIdx sb + sb_numPhysicalIntRegs sb"

definition sb_unsetReg :: "int \<Rightarrow> Scoreboard \<Rightarrow> Scoreboard res" where
  "sb_unsetReg ready_reg sb =
     (if sb_zero ready_reg sb then Inr sb
      else bindE (assertE (indexInBounds ready_reg sb)) (\<lambda>_.
           bindE (set_int (regScoreBoard sb) ready_reg False) (\<lambda>b. Inr (sb\<lparr>regScoreBoard := b\<rparr>))))"

definition sb_getReg :: "int \<Rightarrow> Scoreboard \<Rightarrow> bool res" where
  "sb_getReg phys_reg sb =
     (if sb_zero phys_reg sb then Inr True
      else bindE (assertE (indexInBounds phys_reg sb)) (\<lambda>_. at_int (regScoreBoard sb) phys_reg))"

definition Scoreboard_ctor ::
  "int \<Rightarrow> int \<Rightarrow> int \<Rightarrow> int \<Rightarrow> int \<Rightarrow> int \<Rightarrow> int \<Rightarrow> Scoreboard res" where
  "Scoreboard_ctor activeThreads lint pint lfloat pfloat misc zero =
     (let pregs = pint + pfloat;
          n = pregs + misc * activeThreads;
          sb = \<lparr>regScoreBoard = replicate (nat n) False, sb_numPhysicalIntRegs = pint,
                zeroRegIdx = zero, currentSize = n\<rparr>
      in bindE (foldE sb_setReg [0..lint * activeThreads - 1] sb) (\<lambda>sb.
         bindE (foldE sb_setReg [pint..pint + lfloat * activeThreads - 1] sb) (\<lambda>sb.
         foldE sb_setReg [pregs..pregs + misc * activeThreads - 1] sb)))"

section \<open>Physical register file\<close>

text \<open>
  A floating point register is its bit pattern. The register number is converted to unsigned
  in the comparisons, so a negative one fails the assertions.
\<close>

record PhysRegFile =
  intRegFile :: "u64 list"
  floatRegFile :: "u64 list"
  rf_numPhysicalIntRegs :: int
  rf_numPhysicalFloatRegs :: int

definition PhysRegFile_ctor :: "int \<Rightarrow> int \<Rightarrow> PhysRegFile" where
  "PhysRegFile_ctor pint pfloat =
     \<lparr>intRegFile = replicate (nat pint) 0, floatRegFile = replicate (nat pfloat) 0,
      rf_numPhysicalIntRegs = pint, rf_numPhysicalFloatRegs = pfloat\<rparr>"

definition ubelow :: "int \<Rightarrow> int \<Rightarrow> bool" where
  "ubelow i n \<longleftrightarrow> i mod 2 ^ 32 < n"

definition rf_readIntReg :: "int \<Rightarrow> PhysRegFile \<Rightarrow> u64 res" where
  "rf_readIntReg reg_idx rf =
     bindE (assertE (ubelow reg_idx (rf_numPhysicalIntRegs rf))) (\<lambda>_. at_int (intRegFile rf) reg_idx)"

definition rf_readFloatRegBits :: "int \<Rightarrow> PhysRegFile \<Rightarrow> u64 res" where
  "rf_readFloatRegBits reg_idx rf =
     (let reg_idx = short (reg_idx - rf_numPhysicalIntRegs rf)
      in bindE (assertE (ubelow reg_idx (rf_numPhysicalFloatRegs rf + rf_numPhysicalIntRegs rf))) (\<lambda>_.
         at_int (floatRegFile rf) reg_idx))"

definition rf_setIntReg :: "int \<Rightarrow> u64 \<Rightarrow> PhysRegFile \<Rightarrow> PhysRegFile res" where
  "rf_setIntReg reg_idx val rf =
     bindE (assertE (ubelow reg_idx (rf_numPhysicalIntRegs rf))) (\<lambda>_.
     if reg_idx \<noteq> ZeroReg
     then bindE (set_int (intRegFile rf) reg_idx val) (\<lambda>f. Inr (rf\<lparr>intRegFile := f\<rparr>))
     else Inr rf)"

text \<open>\<open>setFloatReg\<close>, on the bits of the double, and \<open>setFloatRegBits\<close>, which has no zero test.\<close>

definition rf_setFloatReg :: "int \<Rightarrow> u64 \<Rightarrow> PhysRegFile \<Rightarrow> PhysRegFile res" where
  "rf_setFloatReg reg_idx val rf =
     (let reg_idx = short (reg_idx - rf_numPhysicalIntRegs rf)
      in bindE (assertE (ubelow reg_idx (rf_numPhysicalFloatRegs rf))) (\<lambda>_.
         if reg_idx \<noteq> ZeroReg
         then bindE (set_int (floatRegFile rf) reg_idx val) (\<lambda>f. Inr (rf\<lparr>floatRegFile := f\<rparr>))
         else Inr rf))"

definition rf_setFloatRegBits :: "int \<Rightarrow> u64 \<Rightarrow> PhysRegFile \<Rightarrow> PhysRegFile res" where
  "rf_setFloatRegBits reg_idx val rf =
     (let reg_idx = short (reg_idx - rf_numPhysicalIntRegs rf)
      in bindE (assertE (ubelow reg_idx (rf_numPhysicalFloatRegs rf))) (\<lambda>_.
         bindE (set_int (floatRegFile rf) reg_idx val) (\<lambda>f. Inr (rf\<lparr>floatRegFile := f\<rparr>))))"

section \<open>The map of a thread as a function\<close>

text \<open>
  \<open>phys_of m r\<close> is the physical register of the architected register \<open>r\<close> of the rename map:
  0 to 39 are integer registers, 40 to 71 floating point registers, the others miscellaneous
  registers, which are not renamed.
\<close>

definition phys_of :: "SimpleRenameMap \<Rightarrow> int \<Rightarrow> int" where
  "phys_of m r =
     (if 0 \<le> r \<and> r < 40 then intRenameMap m ! nat r
      else if 40 \<le> r \<and> r < 72 then floatRenameMap m ! nat r
      else numPhysicalRegs m + r - 72)"

definition kind_ok :: "int \<Rightarrow> int \<Rightarrow> int \<Rightarrow> int \<Rightarrow> bool" where
  "kind_ok pint pfloat r p \<longleftrightarrow>
     (if r < 40 then 0 \<le> p \<and> p < pint \<and> (p = 31 \<longrightarrow> r = 31)
      else if r < 72 then pint \<le> p \<and> p < pint + pfloat
      else p = pint + pfloat + r - 72)"

definition o3_geometry :: "int \<Rightarrow> int \<Rightarrow> bool" where
  "o3_geometry pint pfloat \<longleftrightarrow> 40 \<le> pint \<and> 32 \<le> pfloat \<and> pint + pfloat \<le> 32000"

definition map_wf :: "int \<Rightarrow> int \<Rightarrow> SimpleRenameMap \<Rightarrow> bool" where
  "map_wf pint pfloat m \<longleftrightarrow> numLogicalIntRegs m = 40 \<and> numLogicalFloatRegs m = 32 \<and>
     numLogicalRegs m = 72 \<and> numPhysicalIntRegs m = pint \<and> numPhysicalRegs m = pint + pfloat \<and>
     intZeroReg m = 31 \<and> floatZeroReg m = 31 \<and>
     length (intRenameMap m) = 40 \<and> length (floatRenameMap m) = 72 \<and>
     (\<forall>r. 0 \<le> r \<longrightarrow> r < 72 \<longrightarrow> kind_ok pint pfloat r (phys_of m r))"

definition fl_wf :: "int \<Rightarrow> int \<Rightarrow> SimpleFreeList \<Rightarrow> bool" where
  "fl_wf pint pfloat fl \<longleftrightarrow> fl_numPhysicalIntRegs fl = pint \<and> fl_numPhysicalRegs fl = pint + pfloat \<and>
     set (freeIntRegs fl) \<subseteq> {0..<pint} - {31} \<and>
     set (freeFloatRegs fl) \<subseteq> {pint..<pint + pfloat} - {pint + 31}"

definition free_regs :: "SimpleFreeList \<Rightarrow> int multiset" where
  "free_regs fl = mset (freeIntRegs fl) + mset (freeFloatRegs fl)"

definition sb_wf :: "int \<Rightarrow> int \<Rightarrow> Scoreboard \<Rightarrow> bool" where
  "sb_wf pint pfloat sb \<longleftrightarrow> zeroRegIdx sb = 31 \<and> sb_numPhysicalIntRegs sb = pint \<and>
     currentSize sb = int (length (regScoreBoard sb)) \<and> pint + pfloat + NumMiscRegs \<le> currentSize sb"

lemma phys_of_kind: "map_wf pint pfloat m \<Longrightarrow> 0 \<le> r \<Longrightarrow> kind_ok pint pfloat r (phys_of m r)"
  by (cases "r < 72") (auto simp: map_wf_def kind_ok_def phys_of_def)

lemma lookup_ok:
  assumes "map_wf pint pfloat m" "o3_geometry pint pfloat" "0 \<le> r" "r < 256"
  shows "SimpleRenameMap_lookup r m = Inr (phys_of m r)"
  using assms by (auto simp: SimpleRenameMap_lookup_def map_wf_def phys_of_def o3_geometry_def)

text \<open>Replacing one entry: the integer and the floating point array.\<close>

lemma map_wf_upd_int:
  assumes "map_wf pint pfloat m" "0 \<le> r" "r < 40" "0 \<le> p" "p < pint" "p = 31 \<longrightarrow> r = 31"
  shows "phys_of (m\<lparr>intRenameMap := (intRenameMap m)[nat r := p]\<rparr>) = (phys_of m)(r := p)"
    "map_wf pint pfloat (m\<lparr>intRenameMap := (intRenameMap m)[nat r := p]\<rparr>)"
proof -
  show eq: "phys_of (m\<lparr>intRenameMap := (intRenameMap m)[nat r := p]\<rparr>) = (phys_of m)(r := p)"
    using assms by (auto simp: phys_of_def map_wf_def fun_eq_iff nth_list_update nat_eq_iff)
  show "map_wf pint pfloat (m\<lparr>intRenameMap := (intRenameMap m)[nat r := p]\<rparr>)"
    using assms phys_of_kind [OF assms(1)] unfolding map_wf_def eq by (simp add: kind_ok_def)
qed

lemma map_wf_upd_float:
  assumes "map_wf pint pfloat m" "40 \<le> r" "r < 72" "pint \<le> p" "p < pint + pfloat"
  shows "phys_of (m\<lparr>floatRenameMap := (floatRenameMap m)[nat r := p]\<rparr>) = (phys_of m)(r := p)"
    "map_wf pint pfloat (m\<lparr>floatRenameMap := (floatRenameMap m)[nat r := p]\<rparr>)"
proof -
  show eq: "phys_of (m\<lparr>floatRenameMap := (floatRenameMap m)[nat r := p]\<rparr>) = (phys_of m)(r := p)"
    using assms by (auto simp: phys_of_def map_wf_def fun_eq_iff nth_list_update nat_eq_iff)
  show "map_wf pint pfloat (m\<lparr>floatRenameMap := (floatRenameMap m)[nat r := p]\<rparr>)"
    using assms phys_of_kind [OF assms(1)] unfolding map_wf_def eq by (simp add: kind_ok_def)
qed

lemma setEntry_ok:
  assumes "map_wf pint pfloat m" "0 \<le> r" "kind_ok pint pfloat r p"
  obtains m' where "SimpleRenameMap_setEntry r p m = Inr m'" "map_wf pint pfloat m'"
    "phys_of m' = (phys_of m)(r := p)"
proof -
  consider "r < 40" | "40 \<le> r" "r < 72" | "72 \<le> r" by linarith
  then show thesis
  proof cases
    case 1
    have p: "0 \<le> p" "p < pint" "p = 31 \<longrightarrow> r = 31" using 1 assms(3) by (simp_all add: kind_ok_def)
    have "SimpleRenameMap_setEntry r p m = Inr (m\<lparr>intRenameMap := (intRenameMap m)[nat r := p]\<rparr>)"
      using 1 assms(1,2) by (simp add: SimpleRenameMap_setEntry_def map_wf_def)
    then show thesis using that map_wf_upd_int [OF assms(1,2) 1 p] by blast
  next
    case 2
    have p: "pint \<le> p" "p < pint + pfloat" using 2 assms(3) by (simp_all add: kind_ok_def)
    have "SimpleRenameMap_setEntry r p m = Inr (m\<lparr>floatRenameMap := (floatRenameMap m)[nat r := p]\<rparr>)"
      using 2 assms(1,2) by (simp add: SimpleRenameMap_setEntry_def map_wf_def)
    then show thesis using that map_wf_upd_float [OF assms(1) 2 p] by blast
  next
    case 3
    then have "(phys_of m)(r := p) = phys_of m"
      using assms phys_of_kind [OF assms(1,2)] by (auto simp: kind_ok_def fun_eq_iff)
    then show thesis
      using 3 that [of m] assms by (auto simp: SimpleRenameMap_setEntry_def map_wf_def)
  qed
qed

text \<open>Freeing a register that is neither a zero register nor outside the register file.\<close>

lemma addReg_ok:
  assumes "fl_wf pint pfloat fl" "0 \<le> p" "o3_geometry pint pfloat"
  shows "fl_wf pint pfloat (addReg p fl)"
    "free_regs (addReg p fl) = (if p < pint + pfloat \<and> p \<noteq> 31 \<and> p \<noteq> pint + 31
       then add_mset p (free_regs fl) else free_regs fl)"
  using assms by (auto simp: addReg_def fl_wf_def free_regs_def ZeroReg_def o3_geometry_def)

lemma set_int_length: "set_int xs i v = Inr ys \<Longrightarrow> length ys = length xs"
  by (auto simp: set_int_def split: if_splits)

lemma sb_set_ok:
  assumes "sb_wf pint pfloat sb" "0 \<le> p" "p < pint + pfloat + NumMiscRegs"
  obtains sb' where "sb_setReg p sb = Inr sb'" "sb_wf pint pfloat sb'"
  using assms by (auto simp: sb_setReg_def sb_wf_def indexInBounds_def)

lemma sb_unset_ok:
  assumes "sb_wf pint pfloat sb" "0 \<le> p" "p < pint + pfloat + NumMiscRegs"
  obtains sb' where "sb_unsetReg p sb = Inr sb'" "sb_wf pint pfloat sb'"
  using assms by (cases "sb_zero p sb") (auto simp: sb_unsetReg_def sb_wf_def indexInBounds_def)

lemma sb_get_ok:
  assumes "sb_wf pint pfloat sb" "0 \<le> p" "p < pint + pfloat + NumMiscRegs"
  obtains b where "sb_getReg p sb = Inr b"
  using assms by (cases "sb_zero p sb") (auto simp: sb_getReg_def sb_wf_def indexInBounds_def)

text \<open>Renaming: the zero register and the miscellaneous registers keep their entry.\<close>

definition renamed :: "int \<Rightarrow> bool" where
  "renamed r \<longleftrightarrow> 0 \<le> r \<and> r < 72 \<and> r \<noteq> 31"

lemma rename_ok:
  assumes "map_wf pint pfloat m" "fl_wf pint pfloat fl" "o3_geometry pint pfloat"
    and "0 \<le> r" "r < 256" "0 < numFreeEntries fl" "r = 31 \<longrightarrow> phys_of m 31 = 31"
  obtains p m' fl' where
    "SimpleRenameMap_rename r m fl = Inr ((p, phys_of m r), m', fl')"
    "map_wf pint pfloat m'" "fl_wf pint pfloat fl'" "phys_of m' = (phys_of m)(r := p)"
    "kind_ok pint pfloat r p"
    "free_regs fl = (if renamed r then add_mset p (free_regs fl') else free_regs fl')"
    "renamed r \<longrightarrow> p \<noteq> 31 \<and> p \<noteq> pint + 31" "r = 31 \<longrightarrow> p = 31"
    "numFreeEntries fl - 1 \<le> numFreeEntries fl'"
proof -
  have free: "freeIntRegs fl \<noteq> []" "freeFloatRegs fl \<noteq> []"
    using assms(6) by (auto simp: numFreeEntries_def numFreeIntRegs_def numFreeFloatRegs_def split: if_splits)
  consider "r < 40" "r \<noteq> 31" | "40 \<le> r" "r < 72" | "r = 31" | "72 \<le> r" by linarith
  then show thesis
  proof cases
    case 1
    obtain p ps where q: "freeIntRegs fl = p # ps" using free by (cases "freeIntRegs fl") auto
    have p: "0 \<le> p" "p < pint" "p \<noteq> 31" using assms(2) q by (auto simp: fl_wf_def)
    then have p31: "p = 31 \<longrightarrow> r = 31" by simp
    show thesis
      by (rule that [OF _ map_wf_upd_int(2) [OF assms(1,4) 1(1) p(1,2) p31] _
            map_wf_upd_int(1) [OF assms(1,4) 1(1) p(1,2) p31], of "fl\<lparr>freeIntRegs := ps\<rparr>"])
        (use 1 p q assms in \<open>auto simp: SimpleRenameMap_rename_def getIntReg_def map_wf_def phys_of_def
          kind_ok_def fl_wf_def free_regs_def renamed_def numFreeEntries_def numFreeIntRegs_def
          numFreeFloatRegs_def\<close>)
  next
    case 2
    obtain p ps where q: "freeFloatRegs fl = p # ps" using free by (cases "freeFloatRegs fl") auto
    have p: "pint \<le> p" "p < pint + pfloat" "p \<noteq> pint + 31" using assms(2) q by (auto simp: fl_wf_def)
    show thesis
      by (rule that [OF _ map_wf_upd_float(2) [OF assms(1) 2 p(1,2)] _
            map_wf_upd_float(1) [OF assms(1) 2 p(1,2)], of "fl\<lparr>freeFloatRegs := ps\<rparr>"])
        (use 2 p q assms in \<open>auto simp: SimpleRenameMap_rename_def getFloatReg_def map_wf_def phys_of_def
          kind_ok_def fl_wf_def free_regs_def renamed_def numFreeEntries_def numFreeIntRegs_def
          numFreeFloatRegs_def o3_geometry_def\<close>)
  next
    case 3
    then have "phys_of m = (phys_of m)(r := 31)" using assms(7) by (auto simp: fun_eq_iff)
    moreover have "SimpleRenameMap_rename r m fl = Inr ((31, phys_of m r), m, fl)"
      using 3 assms(1) by (auto simp: SimpleRenameMap_rename_def map_wf_def phys_of_def)
    ultimately show thesis
      using 3 that assms(1-3) by (auto simp: kind_ok_def renamed_def o3_geometry_def)
  next
    case 4
    have "SimpleRenameMap_rename r m fl = Inr ((phys_of m r, phys_of m r), m, fl)"
      using 4 assms
      by (auto simp: SimpleRenameMap_rename_def map_wf_def phys_of_def o3_geometry_def Let_def algebra_simps)
    moreover have "phys_of m = (phys_of m)(r := phys_of m r)" by simp
    ultimately show thesis
      using 4 that assms(1-3) phys_of_kind [OF assms(1,4)] by (auto simp: renamed_def)
  qed
qed

section \<open>Values in the register file\<close>

definition rf_wf :: "int \<Rightarrow> int \<Rightarrow> PhysRegFile \<Rightarrow> bool" where
  "rf_wf pint pfloat rf \<longleftrightarrow> rf_numPhysicalIntRegs rf = pint \<and> rf_numPhysicalFloatRegs rf = pfloat \<and>
     length (intRegFile rf) = nat pint \<and> length (floatRegFile rf) = nat pfloat"

lemma rf_ctor_wf: "o3_geometry pint pfloat \<Longrightarrow> rf_wf pint pfloat (PhysRegFile_ctor pint pfloat)"
  by (simp add: rf_wf_def PhysRegFile_ctor_def)

text \<open>Writing a register of either kind changes that register only; the integer zero register keeps its value.\<close>

lemma rf_int_write_read:
  assumes "rf_wf pint pfloat rf" "o3_geometry pint pfloat" "0 \<le> p" "p < pint" "0 \<le> q" "q < pint"
  obtains rf' where "rf_setIntReg p v rf = Inr rf'" "rf_wf pint pfloat rf'" "floatRegFile rf' = floatRegFile rf"
    "rf_readIntReg q rf' = (if q = p \<and> p \<noteq> 31 then Inr v else rf_readIntReg q rf)"
proof -
  have b: "ubelow p pint" "ubelow q pint" using assms by (simp_all add: ubelow_def o3_geometry_def)
  have n: "nat p < length (intRegFile rf)" "nat q < length (intRegFile rf)" "rf_numPhysicalIntRegs rf = pint"
    using assms by (simp_all add: rf_wf_def)
  show thesis
  proof (cases "p = 31")
    case True
    then show thesis using that [of rf] assms(1) b n by (simp add: rf_setIntReg_def ZeroReg_def)
  next
    case False
    then show thesis
      using that [of "rf\<lparr>intRegFile := (intRegFile rf)[nat p := v]\<rparr>"] assms b n
      by (auto simp: rf_setIntReg_def rf_readIntReg_def rf_wf_def ZeroReg_def nth_list_update eq_nat_nat_iff)
  qed
qed

lemma rf_float_write_read:
  assumes "rf_wf pint pfloat rf" "o3_geometry pint pfloat" "pint \<le> p" "p < pint + pfloat" "pint \<le> q" "q < pint + pfloat"
  obtains rf' where "rf_setFloatRegBits p v rf = Inr rf'" "rf_wf pint pfloat rf'" "intRegFile rf' = intRegFile rf"
    "rf_readFloatRegBits q rf' = (if q = p then Inr v else rf_readFloatRegBits q rf)"
proof -
  have r: "0 \<le> p - pint" "p - pint < pfloat" "0 \<le> q - pint" "q - pint < pfloat" "p - pint < 32000" "q - pint < 32000"
    using assms by (simp_all add: o3_geometry_def)
  have b: "ubelow (p - pint) pfloat" "ubelow (q - pint) (pfloat + pint)"
    using r assms(2) by (simp_all add: ubelow_def o3_geometry_def)
  have n: "nat (p - pint) < length (floatRegFile rf)" "nat (q - pint) < length (floatRegFile rf)"
    "rf_numPhysicalIntRegs rf = pint" "rf_numPhysicalFloatRegs rf = pfloat"
    using assms(1) r by (simp_all add: rf_wf_def)
  have e: "short (p - pint) = p - pint" "short (q - pint) = q - pint" using r by simp_all
  show thesis
    using that [of "rf\<lparr>floatRegFile := (floatRegFile rf)[nat (p - pint) := v]\<rparr>"] assms b n r e
    by (auto simp: rf_setFloatRegBits_def rf_readFloatRegBits_def rf_wf_def nth_list_update nat_eq_iff)
qed

text \<open>The two writes of a floating point register differ on the zero register.\<close>

lemma rf_zero_register_writable:
  assumes "rf_wf pint pfloat rf" "o3_geometry pint pfloat"
  shows "rf_setFloatReg (pint + 31) v rf = Inr rf"
    "\<exists>rf'. rf_setFloatRegBits (pint + 31) v rf = Inr rf' \<and> rf_readFloatRegBits (pint + 31) rf' = Inr v"
proof -
  have "ubelow 31 pfloat" using assms(2) by (simp add: ubelow_def o3_geometry_def)
  then show "rf_setFloatReg (pint + 31) v rf = Inr rf"
    using assms by (simp add: rf_setFloatReg_def rf_wf_def ZeroReg_def o3_geometry_def)
  show "\<exists>rf'. rf_setFloatRegBits (pint + 31) v rf = Inr rf' \<and> rf_readFloatRegBits (pint + 31) rf' = Inr v"
    using rf_float_write_read [OF assms, of "pint + 31" "pint + 31" v] assms(2) by (auto simp: o3_geometry_def)
qed

end
