(* ===== verification/O3_Rename.thy ===== *)
theory O3_Rename
  imports O3_Regs
begin

text \<open>
  The register renaming of the out-of-order processor (\<open>src/src/cpu/o3/rename_impl.hh\<close>): renaming
  of the source and destination registers of an instruction, the history buffer of a thread, the
  squash that undoes renames and the commit that frees the registers they replaced. All threads
  share the free list and the scoreboard.
\<close>

section \<open>Instructions and the state of renaming\<close>

text \<open>
  The part of a dynamic instruction (\<open>base_dyn_inst.hh\<close>) that renaming reads and writes: sequence
  number and thread, the operands and the properties of the static instruction, the renamed
  registers, and the status bits.
\<close>

record DynInst =
  seqNum :: nat
  threadNumber :: nat
  si_srcRegs :: "int list"
  si_destRegs :: "int list"
  si_iprAccess :: bool
  si_serializeBefore :: bool
  si_serializeAfter :: bool
  si_storeConditional :: bool
  flatDestRegIdx :: "int list"
  destRegIdx :: "int list"
  srcRegIdx :: "int list"
  prevDestRegIdx :: "int list"
  readySrcRegIdx :: "bool list"
  readyRegs :: nat
  canIssue :: bool
  st_serializeBefore :: bool
  st_serializeAfter :: bool
  st_serializeHandled :: bool
  st_squashed :: bool

text \<open>A new instruction: \<open>initVars\<close> of \<open>dyn_inst_impl.hh\<close> on the registers.\<close>

definition initVars :: "DynInst \<Rightarrow> DynInst" where
  "initVars inst = inst\<lparr>destRegIdx := si_destRegs inst, srcRegIdx := si_srcRegs inst,
     readySrcRegIdx := replicate (length (si_srcRegs inst)) False\<rparr>"

record RenameHistory =
  instSeqNum :: nat
  archReg :: int
  newPhysReg :: int
  prevPhysReg :: int

record rename_regs =
  rr_freeList :: SimpleFreeList
  renameMap :: "SimpleRenameMap list"
  commitRenameMap :: "SimpleRenameMap list"
  scoreboard :: Scoreboard
  historyBuffer :: "RenameHistory list list"
  maxPhysicalRegs :: int

section \<open>Construction\<close>

text \<open>
  The loop of the constructor of \<open>FullO3CPU\<close> that binds the maps of each thread; the counters run
  on from thread to thread.
\<close>

fun bind_threads :: "int \<Rightarrow> int \<Rightarrow> int \<Rightarrow> nat list \<Rightarrow> int \<Rightarrow> int \<Rightarrow>
    SimpleRenameMap list \<Rightarrow> SimpleRenameMap list \<Rightarrow> (SimpleRenameMap list \<times> SimpleRenameMap list) res" where
  "bind_threads active pint pfloat [] lreg freg cms rms = Inr (cms, rms)"
| "bind_threads active pint pfloat (tid # tids) lreg freg cms rms =
     bindE (SimpleRenameMap_init NumIntRegs pint lreg NumFloatRegs pfloat freg NumMiscRegs
              ZeroReg ZeroReg (int tid) False) (\<lambda>(cm, lreg, freg).
     bindE (SimpleRenameMap_init NumIntRegs pint lreg NumFloatRegs pfloat freg NumMiscRegs
              ZeroReg ZeroReg (int tid) (int tid \<le> active - 1)) (\<lambda>(rm, lreg, freg).
     bind_threads active pint pfloat tids lreg freg (cms @ [cm]) (rms @ [rm])))"

definition O3_regs_ctor :: "nat \<Rightarrow> int \<Rightarrow> int \<Rightarrow> int \<Rightarrow> rename_regs res" where
  "O3_regs_ctor numThreads active pint pfloat =
     bindE (SimpleFreeList_ctor (int numThreads) NumIntRegs pint NumFloatRegs pfloat) (\<lambda>fl.
     bindE (Scoreboard_ctor (int numThreads) NumIntRegs pint NumFloatRegs pfloat
              (NumMiscRegs * int numThreads) ZeroReg) (\<lambda>sb.
     bindE (assertE (int numThreads * NumIntRegs \<le> pint)) (\<lambda>_.
     bindE (assertE (int numThreads * NumFloatRegs \<le> pfloat)) (\<lambda>_.
     bindE (bind_threads active pint pfloat [0..<numThreads] 0 (short pint) [] []) (\<lambda>(cms, rms).
     Inr \<lparr>rr_freeList = fl, renameMap = rms, commitRenameMap = cms, scoreboard = sb,
          historyBuffer = replicate numThreads [], maxPhysicalRegs = short (pint + pfloat)\<rparr>)))))"

section \<open>Renaming an instruction\<close>

text \<open>
  The index of an operand in the rename map. The second component is the operand itself, from
  which the base of the floating point registers has been subtracted.
\<close>

definition flatten_reg :: "int \<Rightarrow> (int \<times> int) res" where
  "flatten_reg reg =
     (if reg < FP_Base_DepTag then Inr (reg8 (flattenIntIndex reg), reg)
      else if reg < Ctrl_Base_DepTag then
        let reg = reg8 (reg - FP_Base_DepTag)
        in Inr (reg8 (reg8 (flattenFloatIndex reg) + NumIntRegs), reg)
      else if reg < Max_DepTag then
        Inr (reg8 (reg - Ctrl_Base_DepTag + NumFloatRegs + NumIntRegs), reg)
      else Inl Panic)"

definition set_nat :: "'a list \<Rightarrow> nat \<Rightarrow> 'a \<Rightarrow> 'a list res" where
  "set_nat xs i v = (if i < length xs then Inr (xs[i := v]) else Inl Bad_index)"

definition markSrcRegReady :: "nat \<Rightarrow> DynInst \<Rightarrow> DynInst res" where
  "markSrcRegReady src_idx inst =
     bindE (set_nat (readySrcRegIdx inst) src_idx True) (\<lambda>rs.
     let n = (readyRegs inst + 1) mod 256
     in Inr (inst\<lparr>readySrcRegIdx := rs, readyRegs := n,
                  canIssue := (canIssue inst \<or> n = length (si_srcRegs inst))\<rparr>))"

definition renameSrcReg :: "rename_regs \<Rightarrow> nat \<Rightarrow> nat \<Rightarrow> DynInst \<Rightarrow> DynInst res" where
  "renameSrcReg s tid src_idx inst =
     bindE (at (si_srcRegs inst) src_idx) (\<lambda>src_reg.
     bindE (flatten_reg src_reg) (\<lambda>(flat_src_reg, _).
     bindE (at (renameMap s) tid) (\<lambda>m.
     bindE (SimpleRenameMap_lookup flat_src_reg m) (\<lambda>renamed_reg.
     bindE (set_nat (srcRegIdx inst) src_idx renamed_reg) (\<lambda>srcs.
     let inst = inst\<lparr>srcRegIdx := srcs\<rparr>
     in bindE (sb_getReg renamed_reg (scoreboard s)) (\<lambda>ready.
        if ready then markSrcRegReady src_idx inst else Inr inst))))))"

definition renameSrcRegs :: "rename_regs \<Rightarrow> nat \<Rightarrow> DynInst \<Rightarrow> DynInst res" where
  "renameSrcRegs s tid inst = foldE (renameSrcReg s tid) [0..<length (si_srcRegs inst)] inst"

definition renameDestReg :: "nat \<Rightarrow> nat \<Rightarrow> DynInst \<times> rename_regs \<Rightarrow> (DynInst \<times> rename_regs) res" where
  "renameDestReg tid dest_idx = (\<lambda>(inst, s).
     bindE (at (si_destRegs inst) dest_idx) (\<lambda>dest_reg.
     bindE (flatten_reg dest_reg) (\<lambda>(flat_dest_reg, dest_reg).
     bindE (set_nat (flatDestRegIdx inst) dest_idx flat_dest_reg) (\<lambda>flats.
     bindE (at (renameMap s) tid) (\<lambda>m.
     bindE (SimpleRenameMap_rename flat_dest_reg m (rr_freeList s)) (\<lambda>((new_reg, prev_reg), m, fl).
     bindE (if dest_reg < Ctrl_Base_DepTag then sb_unsetReg new_reg (scoreboard s)
            else Inr (scoreboard s)) (\<lambda>sb.
     bindE (at (historyBuffer s) tid) (\<lambda>hb.
     let hb_entry = \<lparr>instSeqNum = seqNum inst, archReg = flat_dest_reg,
                     newPhysReg = new_reg, prevPhysReg = prev_reg\<rparr>
     in bindE (set_nat (destRegIdx inst) dest_idx new_reg) (\<lambda>dests.
        bindE (set_nat (prevDestRegIdx inst) dest_idx prev_reg) (\<lambda>prevs.
        Inr (inst\<lparr>flatDestRegIdx := flats, destRegIdx := dests, prevDestRegIdx := prevs\<rparr>,
             s\<lparr>rr_freeList := fl, renameMap := (renameMap s)[tid := m], scoreboard := sb,
               historyBuffer := (historyBuffer s)[tid := hb_entry # hb]\<rparr>)))))))))))"

definition renameDestRegs :: "nat \<Rightarrow> DynInst \<Rightarrow> rename_regs \<Rightarrow> (DynInst \<times> rename_regs) res" where
  "renameDestRegs tid inst s = foldE (renameDestReg tid) [0..<length (si_destRegs inst)] (inst, s)"

text \<open>
  The part of the loop of \<open>renameInsts\<close> that renames one instruction; \<open>None\<close> when there are too
  few free registers. The test compares with the smaller number of integer and floating point
  registers.
\<close>

definition rename_inst :: "DynInst \<Rightarrow> rename_regs \<Rightarrow> (DynInst \<times> rename_regs) option res" where
  "rename_inst inst s =
     (if numFreeEntries (rr_freeList s) < int (length (si_destRegs inst)) then Inr None
      else bindE (renameSrcRegs s (threadNumber inst) inst) (\<lambda>inst.
           bindE (renameDestRegs (threadNumber inst) inst s) (\<lambda>r. Inr (Some r))))"

section \<open>Squash and commit\<close>

text \<open>The body of the loops of \<open>doSquash\<close> and \<open>switchOut\<close> on one history entry.\<close>

type_synonym undo_state = "SimpleRenameMap \<times> SimpleFreeList \<times> Scoreboard"

definition undo_entry :: "int \<Rightarrow> RenameHistory \<Rightarrow> undo_state \<Rightarrow> undo_state res" where
  "undo_entry maxPhys e = (\<lambda>(m, fl, sb).
     bindE (SimpleRenameMap_setEntry (archReg e) (prevPhysReg e) m) (\<lambda>m.
     let fl = addReg (newPhysReg e) fl
     in bindE (if maxPhys \<le> newPhysReg e then sb_setReg (newPhysReg e) sb else Inr sb) (\<lambda>sb.
        Inr (m, fl, sb))))"

fun squash_history :: "int \<Rightarrow> nat \<Rightarrow> RenameHistory list \<Rightarrow> undo_state \<Rightarrow>
    (RenameHistory list \<times> undo_state) res" where
  "squash_history maxPhys n [] u = Inr ([], u)"
| "squash_history maxPhys n (e # es) u =
     (if n < instSeqNum e then bindE (undo_entry maxPhys e u) (squash_history maxPhys n es)
      else Inr (e # es, u))"

definition put_undo :: "nat \<Rightarrow> rename_regs \<Rightarrow> RenameHistory list \<times> undo_state \<Rightarrow> rename_regs" where
  "put_undo tid s = (\<lambda>(hb, m, fl, sb).
     s\<lparr>rr_freeList := fl, renameMap := (renameMap s)[tid := m], scoreboard := sb,
       historyBuffer := (historyBuffer s)[tid := hb]\<rparr>)"

definition doSquash :: "nat \<Rightarrow> nat \<Rightarrow> rename_regs \<Rightarrow> rename_regs res" where
  "doSquash squashed_seq_num tid s =
     bindE (at (historyBuffer s) tid) (\<lambda>hb.
     if hb = [] then Inr s
     else bindE (at (renameMap s) tid) (\<lambda>m.
          bindE (squash_history (maxPhysicalRegs s) squashed_seq_num hb
                   (m, rr_freeList s, scoreboard s)) (\<lambda>r. Inr (put_undo tid s r))))"

text \<open>The loop of \<open>switchOut\<close> over the history of one thread undoes every entry.\<close>

definition switchOut_thread :: "nat \<Rightarrow> rename_regs \<Rightarrow> rename_regs res" where
  "switchOut_thread tid s =
     bindE (at (historyBuffer s) tid) (\<lambda>hb.
     bindE (at (renameMap s) tid) (\<lambda>m.
     bindE (foldE (undo_entry (maxPhysicalRegs s)) hb (m, rr_freeList s, scoreboard s)) (\<lambda>u.
     Inr (put_undo tid s ([], u)))))"

text \<open>
  The loop of \<open>removeFromHistory\<close> goes from the last entry towards the first; the list is given
  from its end. The iterator is decremented past the first element and tested against \<open>end()\<close>
  then, and \<open>end()\<close> of an empty list is decremented before the test for emptiness: in the
  circular lists of libstdc++ both lead to \<open>end()\<close>.
\<close>

fun commit_history :: "nat \<Rightarrow> RenameHistory list \<Rightarrow> SimpleFreeList \<Rightarrow> RenameHistory list \<times> SimpleFreeList" where
  "commit_history n [] fl = ([], fl)"
| "commit_history n (e # es) fl =
     (if instSeqNum e \<le> n then commit_history n es (addReg (prevPhysReg e) fl) else (e # es, fl))"

definition removeFromHistory :: "nat \<Rightarrow> nat \<Rightarrow> rename_regs \<Rightarrow> rename_regs res" where
  "removeFromHistory inst_seq_num tid s =
     bindE (at (historyBuffer s) tid) (\<lambda>hb.
     if hb = [] then Inr s
     else if inst_seq_num < instSeqNum (last hb) then Inr s
     else let (rest, fl) = commit_history inst_seq_num (rev hb) (rr_freeList s)
          in Inr (s\<lparr>rr_freeList := fl, historyBuffer := (historyBuffer s)[tid := rev rest]\<rparr>))"

section \<open>The history as an undo log\<close>

text \<open>The map before the renames of a history, which lists the last rename first.\<close>

fun undo :: "(int \<Rightarrow> int) \<Rightarrow> RenameHistory list \<Rightarrow> int \<Rightarrow> int" where
  "undo f [] = f"
| "undo f (e # es) = undo (f(archReg e := prevPhysReg e)) es"

text \<open>
  Each entry names the register that its architected register had after the rename. A write to
  the integer zero register is recorded only in a thread whose zero register is the physical
  register 31.
\<close>

definition entry_ok :: "int \<Rightarrow> int \<Rightarrow> (int \<Rightarrow> int) \<Rightarrow> RenameHistory \<Rightarrow> bool" where
  "entry_ok pint pfloat f e \<longleftrightarrow> 0 \<le> archReg e \<and> archReg e < 72 + NumMiscRegs \<and>
     newPhysReg e = f (archReg e) \<and> kind_ok pint pfloat (archReg e) (newPhysReg e) \<and>
     kind_ok pint pfloat (archReg e) (prevPhysReg e) \<and>
     (archReg e = 31 \<longrightarrow> newPhysReg e = 31 \<and> prevPhysReg e = 31) \<and>
     (renamed (archReg e) \<longrightarrow> newPhysReg e \<noteq> 31 \<and> newPhysReg e \<noteq> pint + 31)"

fun hist_ok :: "int \<Rightarrow> int \<Rightarrow> (int \<Rightarrow> int) \<Rightarrow> RenameHistory list \<Rightarrow> bool" where
  "hist_ok pint pfloat f [] \<longleftrightarrow> True"
| "hist_ok pint pfloat f (e # es) \<longleftrightarrow>
     entry_ok pint pfloat f e \<and> hist_ok pint pfloat (f(archReg e := prevPhysReg e)) es"

lemma undo_append [simp]: "undo f (xs @ ys) = undo (undo f xs) ys"
  by (induction xs arbitrary: f) auto

lemma hist_ok_append [simp]:
  "hist_ok pint pfloat f (xs @ ys) \<longleftrightarrow> hist_ok pint pfloat f xs \<and> hist_ok pint pfloat (undo f xs) ys"
  by (induction xs arbitrary: f) auto

text \<open>The physical registers of the 72 renamed registers, and those that a history holds.\<close>

definition regs_of :: "(int \<Rightarrow> int) \<Rightarrow> int multiset" where
  "regs_of f = image_mset f (mset_set {0..<72})"

abbreviation real_entries :: "RenameHistory list \<Rightarrow> RenameHistory list" where
  "real_entries h \<equiv> filter (\<lambda>e. renamed (archReg e)) h"

definition prev_regs :: "RenameHistory list \<Rightarrow> int multiset" where
  "prev_regs h = mset (map prevPhysReg (real_entries h))"

definition new_regs :: "RenameHistory list \<Rightarrow> int multiset" where
  "new_regs h = mset (map newPhysReg (real_entries h))"

lemma prev_regs_simps [simp]:
  "prev_regs [] = {#}"
  "prev_regs (e # es) = (if renamed (archReg e) then {#prevPhysReg e#} else {#}) + prev_regs es"
  "prev_regs (xs @ ys) = prev_regs xs + prev_regs ys"
  by (auto simp: prev_regs_def)

lemma new_regs_simps [simp]:
  "new_regs [] = {#}"
  "new_regs (e # es) = (if renamed (archReg e) then {#newPhysReg e#} else {#}) + new_regs es"
  by (auto simp: new_regs_def)

lemma regs_of_update:
  assumes "0 \<le> r" "r < 72"
  shows "add_mset (f r) (regs_of (f(r := p))) = add_mset p (regs_of f)"
proof -
  have dec: "mset_set {0..<72::int} = add_mset r (mset_set ({0..<72} - {r}))"
    using assms by (simp add: mset_set.remove)
  have "image_mset (f(r := p)) (mset_set ({0..<72} - {r})) = image_mset f (mset_set ({0..<72} - {r}))"
    by (rule image_mset_cong) auto
  then show ?thesis unfolding regs_of_def dec by simp
qed

lemma regs_of_misc: "\<not> (0 \<le> r \<and> r < 72) \<Longrightarrow> regs_of (f(r := p)) = regs_of f"
  unfolding regs_of_def by (rule image_mset_cong) auto

text \<open>Undoing one entry exchanges its two registers.\<close>

lemma entry_exchange:
  assumes "entry_ok pint pfloat f e"
  shows "regs_of (f(archReg e := prevPhysReg e)) + (if renamed (archReg e) then {#newPhysReg e#} else {#})
     = regs_of f + (if renamed (archReg e) then {#prevPhysReg e#} else {#})"
proof (cases "renamed (archReg e)")
  case True
  then show ?thesis
    using regs_of_update [of "archReg e" f "prevPhysReg e"] assms
    by (simp add: renamed_def entry_ok_def)
next
  case False
  moreover have "0 \<le> archReg e" using assms unfolding entry_ok_def by blast
  ultimately consider "archReg e = 31" | "72 \<le> archReg e" unfolding renamed_def by linarith
  then show ?thesis
  proof cases
    case 1
    then have "f (archReg e) = prevPhysReg e" using assms unfolding entry_ok_def by metis
    then have "f(archReg e := prevPhysReg e) = f" by (rule fun_upd_idem)
    then show ?thesis using False by simp
  qed (use False regs_of_misc [of "archReg e"] in simp)
qed

text \<open>
  Conservation along a history: the registers of the map and those held for the older mappings are
  those of the map before the history and those that the history allocated.
\<close>

lemma history_exchange:
  "hist_ok pint pfloat f h \<Longrightarrow> regs_of (undo f h) + new_regs h = regs_of f + prev_regs h"
proof (induction h arbitrary: f)
  case (Cons e es)
  let ?f = "f(archReg e := prevPhysReg e)"
  let ?new = "if renamed (archReg e) then {#newPhysReg e#} else {#}"
  have e: "entry_ok pint pfloat f e" and es: "hist_ok pint pfloat ?f es" using Cons.prems by auto
  have "regs_of (undo f (e # es)) + new_regs (e # es) = regs_of (undo ?f es) + new_regs es + ?new"
    by (simp add: ac_simps)
  also have "\<dots> = regs_of ?f + ?new + prev_regs es"
    unfolding Cons.IH [OF es] by (simp only: ac_simps)
  also have "\<dots> = regs_of f + prev_regs (e # es)"
    unfolding entry_exchange [OF e] by (simp add: ac_simps)
  finally show ?case .
qed simp

lemma undo_entry_ok:
  assumes "map_wf pint pfloat m" "fl_wf pint pfloat fl" "sb_wf pint pfloat sb" "o3_geometry pint pfloat"
    and "entry_ok pint pfloat (phys_of m) e"
  obtains m' fl' sb' where
    "undo_entry (pint + pfloat) e (m, fl, sb) = Inr (m', fl', sb')"
    "map_wf pint pfloat m'" "fl_wf pint pfloat fl'" "sb_wf pint pfloat sb'"
    "phys_of m' = (phys_of m)(archReg e := prevPhysReg e)"
    "free_regs fl' = (if renamed (archReg e) then {#newPhysReg e#} else {#}) + free_regs fl"
proof -
  have k: "0 \<le> archReg e" "archReg e < 72 + NumMiscRegs" "kind_ok pint pfloat (archReg e) (prevPhysReg e)"
    "kind_ok pint pfloat (archReg e) (newPhysReg e)"
    "archReg e = 31 \<longrightarrow> newPhysReg e = 31"
    "renamed (archReg e) \<longrightarrow> newPhysReg e \<noteq> 31 \<and> newPhysReg e \<noteq> pint + 31"
    using assms(5) unfolding entry_ok_def by blast+
  have new: "0 \<le> newPhysReg e" "newPhysReg e < pint + pfloat + NumMiscRegs"
    "72 \<le> archReg e \<longleftrightarrow> pint + pfloat \<le> newPhysReg e"
    using k(1,2,4) assms(4) by (auto simp: kind_ok_def o3_geometry_def o3_consts split: if_splits)
  obtain m' where m': "SimpleRenameMap_setEntry (archReg e) (prevPhysReg e) m = Inr m'"
    "map_wf pint pfloat m'" "phys_of m' = (phys_of m)(archReg e := prevPhysReg e)"
    by (rule setEntry_ok [OF assms(1) k(1,3)])
  obtain sb' where sb': "sb_setReg (newPhysReg e) sb = Inr sb'" "sb_wf pint pfloat sb'"
    by (rule sb_set_ok [OF assms(3) new(1,2)])
  note fl = addReg_ok [OF assms(2) new(1) assms(4)]
  have "free_regs (addReg (newPhysReg e) fl) =
      (if renamed (archReg e) then {#newPhysReg e#} else {#}) + free_regs fl"
    unfolding fl(2) using k new(3) by (auto simp: renamed_def)
  then show thesis
    using that [of m' "addReg (newPhysReg e) fl" "if pint + pfloat \<le> newPhysReg e then sb' else sb"]
      m' sb' fl(1) assms(3) by (simp add: undo_entry_def)
qed

text \<open>A squash undoes exactly the entries of younger instructions.\<close>

lemma squash_history_ok:
  assumes "map_wf pint pfloat m" "fl_wf pint pfloat fl" "sb_wf pint pfloat sb" "o3_geometry pint pfloat"
    and "hist_ok pint pfloat (phys_of m) h"
  shows "\<exists>m' fl' sb'. squash_history (pint + pfloat) n h (m, fl, sb) =
      Inr (dropWhile (\<lambda>e. n < instSeqNum e) h, m', fl', sb') \<and>
    map_wf pint pfloat m' \<and> fl_wf pint pfloat fl' \<and> sb_wf pint pfloat sb' \<and>
    phys_of m' = undo (phys_of m) (takeWhile (\<lambda>e. n < instSeqNum e) h) \<and>
    free_regs fl' = new_regs (takeWhile (\<lambda>e. n < instSeqNum e) h) + free_regs fl"
  using assms
proof (induction h arbitrary: m fl sb)
  case (Cons e es)
  show ?case
  proof (cases "n < instSeqNum e")
    case True
    obtain m' fl' sb' where u: "undo_entry (pint + pfloat) e (m, fl, sb) = Inr (m', fl', sb')"
      "map_wf pint pfloat m'" "fl_wf pint pfloat fl'" "sb_wf pint pfloat sb'"
      "phys_of m' = (phys_of m)(archReg e := prevPhysReg e)"
      "free_regs fl' = (if renamed (archReg e) then {#newPhysReg e#} else {#}) + free_regs fl"
      using undo_entry_ok [OF Cons.prems(1-4), of e] Cons.prems(5) by auto
    have h: "hist_ok pint pfloat (phys_of m') es" using Cons.prems(5) u(5) by simp
    obtain m2 fl2 sb2 where "squash_history (pint + pfloat) n es (m', fl', sb') =
        Inr (dropWhile (\<lambda>e. n < instSeqNum e) es, m2, fl2, sb2)"
      and "map_wf pint pfloat m2 \<and> fl_wf pint pfloat fl2 \<and> sb_wf pint pfloat sb2"
      and "phys_of m2 = undo (phys_of m') (takeWhile (\<lambda>e. n < instSeqNum e) es)"
      and "free_regs fl2 = new_regs (takeWhile (\<lambda>e. n < instSeqNum e) es) + free_regs fl'"
      using Cons.IH [OF u(2-4) Cons.prems(4) h] by blast
    then show ?thesis
      using True u(1,5,6) by (intro exI [of _ m2] exI [of _ fl2] exI [of _ sb2]) simp
  qed (use Cons.prems in simp)
qed auto

text \<open>A commit frees the registers that the oldest entries replaced.\<close>

lemma commit_history_ok:
  assumes "fl_wf pint pfloat fl" "o3_geometry pint pfloat"
    and "\<forall>e \<in> set h. \<exists>f. entry_ok pint pfloat f e"
  shows "fst (commit_history n h fl) = dropWhile (\<lambda>e. instSeqNum e \<le> n) h \<and>
    fl_wf pint pfloat (snd (commit_history n h fl)) \<and>
    free_regs (snd (commit_history n h fl)) =
      filter_mset (\<lambda>p. p \<noteq> pint + 31) (prev_regs (takeWhile (\<lambda>e. instSeqNum e \<le> n) h)) + free_regs fl"
  using assms(1,3)
proof (induction h arbitrary: fl)
  case (Cons e es)
  obtain f where e: "entry_ok pint pfloat f e" using Cons.prems(2) by auto
  then have k: "kind_ok pint pfloat (archReg e) (prevPhysReg e)" "0 \<le> archReg e"
    "archReg e = 31 \<longrightarrow> prevPhysReg e = 31" unfolding entry_ok_def by blast+
  then have p: "0 \<le> prevPhysReg e" "prevPhysReg e < pint + pfloat \<longleftrightarrow> archReg e < 72"
    "archReg e = 31 \<longleftrightarrow> prevPhysReg e = 31" "0 \<le> archReg e"
    using assms(2) by (auto simp: kind_ok_def o3_geometry_def split: if_splits)
  note fl = addReg_ok [OF Cons.prems(1) p(1) assms(2)]
  have "free_regs (addReg (prevPhysReg e) fl) = filter_mset (\<lambda>p. p \<noteq> pint + 31)
      (if renamed (archReg e) then {#prevPhysReg e#} else {#}) + free_regs fl"
    unfolding fl(2) using p by (auto simp: renamed_def)
  then show ?case
    using Cons.IH [OF fl(1)] Cons.prems by (auto simp: ac_simps)
qed auto

end
