(* ===== verification/O3_Stage.thy ===== *)
theory O3_Stage
  imports O3_Rename
begin

text \<open>
  The control of the rename stage (\<open>src/src/cpu/o3/rename_impl.hh\<close>): the status of each thread, the
  skid buffer that holds instructions while the stage is blocked, serialising instructions, and
  one cycle of the stage. The arrays indexed by thread are one record per thread; what all threads
  share is a second record. Instructions live in a heap, since the queues of the stage and the input
  from decode point to the same objects.
\<close>

section \<open>State\<close>

datatype RenameStatus = Active | Inactive

datatype ThreadStatus =
    Running
  | Idle
  | StartSquash
  | Squashing
  | Blocked
  | Unblocking
  | SerializeStall

record FreeEntries =
  iqEntries :: int
  lsqEntries :: int
  robEntries :: int

record Stalls =
  st_iew :: bool
  st_commit :: bool

record rename_thread =
  renameStatus :: ThreadStatus
  insts :: "nat list"
  skidBuffer :: "nat list"
  serializeInst :: ptr
  instsInProgress :: int
  freeEntries :: FreeEntries
  emptyROB :: bool
  stalls :: Stalls
  serializeOnNextInst :: bool
  renameBlock :: bool
  renameUnblock :: bool

text \<open>\<open>toIEW\<close> lists the instructions sent on in this cycle; \<open>toIEWIndex\<close> is its length.\<close>

record rename_shared =
  inst_heap :: "DynInst list"
  regs :: rename_regs
  fromDecode :: "nat list"
  toIEW :: "nat list"
  blockThisCycle :: bool
  resumeSerialize :: bool
  resumeUnblocking :: bool
  wroteToTimeBuffer :: bool
  renameWidth :: nat
  skidBufferMax :: nat

text \<open>What a thread reads from the time buffer: \<open>fromIEW\<close> and \<open>fromCommit\<close>.\<close>

record stage_input =
  iewBlock :: bool
  iewUnblock :: bool
  usedIQ :: bool
  freeIQEntries :: int
  usedLSQ :: bool
  freeLSQEntries :: int
  dispatched :: int
  dispatchedToLSQ :: int
  commitBlock :: bool
  commitUnblock :: bool
  ci_squash :: bool
  robSquashing :: bool
  doneSeqNum :: nat
  usedROB :: bool
  freeROBEntries :: int
  ci_emptyROB :: bool

type_synonym thread_state = "rename_thread \<times> rename_shared"

definition new_rename_thread :: rename_thread where
  "new_rename_thread = \<lparr>renameStatus = Idle, insts = [], skidBuffer = [], serializeInst = None,
     instsInProgress = 0, freeEntries = \<lparr>iqEntries = 0, lsqEntries = 0, robEntries = 0\<rparr>,
     emptyROB = True, stalls = \<lparr>st_iew = False, st_commit = False\<rparr>, serializeOnNextInst = False,
     renameBlock = False, renameUnblock = False\<rparr>"

text \<open>The bound of the skid buffer that the constructor computes.\<close>

definition skid_max :: "nat \<Rightarrow> nat \<Rightarrow> nat \<Rightarrow> nat" where
  "skid_max decodeToRenameDelay decodeWidth width = 2 * (decodeToRenameDelay * decodeWidth) + width"

section \<open>Free entries and stalls\<close>

definition calcFreeROBEntries :: "stage_input \<Rightarrow> rename_thread \<Rightarrow> int" where
  "calcFreeROBEntries inp t = int32 (robEntries (freeEntries t) - (instsInProgress t - dispatched inp))"

definition calcFreeIQEntries :: "stage_input \<Rightarrow> rename_thread \<Rightarrow> int" where
  "calcFreeIQEntries inp t = int32 (iqEntries (freeEntries t) - (instsInProgress t - dispatched inp))"

definition calcFreeLSQEntries :: "stage_input \<Rightarrow> rename_thread \<Rightarrow> int" where
  "calcFreeLSQEntries inp t = int32 (lsqEntries (freeEntries t) - (instsInProgress t - dispatchedToLSQ inp))"

definition readFreeEntries :: "stage_input \<Rightarrow> rename_thread \<Rightarrow> rename_thread" where
  "readFreeEntries inp t =
     (let t = if usedIQ inp then t\<lparr>freeEntries := (freeEntries t)\<lparr>iqEntries := freeIQEntries inp\<rparr>\<rparr> else t;
          t = if usedLSQ inp then t\<lparr>freeEntries := (freeEntries t)\<lparr>lsqEntries := freeLSQEntries inp\<rparr>\<rparr> else t
      in if usedROB inp
         then t\<lparr>freeEntries := (freeEntries t)\<lparr>robEntries := freeROBEntries inp\<rparr>, emptyROB := ci_emptyROB inp\<rparr>
         else t)"

definition readStallSignals :: "stage_input \<Rightarrow> rename_thread \<Rightarrow> rename_thread res" where
  "readStallSignals inp t =
     (let s = stalls t; s = if iewBlock inp then s\<lparr>st_iew := True\<rparr> else s
      in bindE (if iewUnblock inp then bindE (assertE (st_iew s)) (\<lambda>_. Inr (s\<lparr>st_iew := False\<rparr>)) else Inr s) (\<lambda>s.
         let s = if commitBlock inp then s\<lparr>st_commit := True\<rparr> else s
         in bindE (if commitUnblock inp then bindE (assertE (st_commit s)) (\<lambda>_. Inr (s\<lparr>st_commit := False\<rparr>))
                   else Inr s) (\<lambda>s. Inr (t\<lparr>stalls := s\<rparr>))))"

definition checkStall :: "stage_input \<Rightarrow> rename_thread \<Rightarrow> rename_shared \<Rightarrow> bool" where
  "checkStall inp t g \<longleftrightarrow>
     st_iew (stalls t) \<or> st_commit (stalls t) \<or> calcFreeROBEntries inp t \<le> 0 \<or>
     calcFreeIQEntries inp t \<le> 0 \<or> calcFreeLSQEntries inp t \<le> 0 \<or>
     numFreeEntries (rr_freeList (regs g)) \<le> 0 \<or>
     (renameStatus t = SerializeStall \<and> (\<not> emptyROB t \<or> instsInProgress t \<noteq> 0))"

section \<open>Skid buffer\<close>

definition check_thread :: "nat \<Rightarrow> rename_shared \<Rightarrow> nat \<Rightarrow> unit \<Rightarrow> unit res" where
  "check_thread tid g p = (\<lambda>_. bindE (at (inst_heap g) p) (\<lambda>i. assertE (tid = threadNumber i)))"

definition skidInsert :: "nat \<Rightarrow> thread_state \<Rightarrow> thread_state res" where
  "skidInsert tid = (\<lambda>(t, g).
     bindE (foldE (check_thread tid g) (insts t) ()) (\<lambda>_.
     let t = t\<lparr>skidBuffer := skidBuffer t @ insts t, insts := []\<rparr>
     in if skidBufferMax g < length (skidBuffer t) then Inl Panic else Inr (t, g)))"

definition block :: "nat \<Rightarrow> thread_state \<Rightarrow> (bool \<times> thread_state) res" where
  "block tid tg =
     bindE (skidInsert tid tg) (\<lambda>(t, g).
     if renameStatus t \<noteq> Blocked then
       let (t, g) = if resumeUnblocking g \<or> renameStatus t \<noteq> Unblocking
                    then (t\<lparr>renameBlock := True, renameUnblock := False\<rparr>, g\<lparr>wroteToTimeBuffer := True\<rparr>)
                    else (t, g)
       in if renameStatus t \<noteq> SerializeStall then Inr (True, t\<lparr>renameStatus := Blocked\<rparr>, g)
          else Inr (False, t, g)
     else Inr (False, t, g))"

definition unblock :: "thread_state \<Rightarrow> bool \<times> thread_state" where
  "unblock = (\<lambda>(t, g).
     if skidBuffer t = [] \<and> renameStatus t \<noteq> SerializeStall
     then (True, t\<lparr>renameUnblock := True, renameStatus := Running\<rparr>, g\<lparr>wroteToTimeBuffer := True\<rparr>)
     else (False, t, g))"

definition validInsts :: "rename_shared \<Rightarrow> nat res" where
  "validInsts g = foldE (\<lambda>p n. bindE (at (inst_heap g) p) (\<lambda>i. Inr (if st_squashed i then n else n + 1))) (fromDecode g) 0"

section \<open>Squash\<close>

text \<open>The instructions from decode that are marked; the flag tells whether there was one.\<close>

definition mark_squashed :: "nat \<Rightarrow> nat \<Rightarrow> nat \<Rightarrow> DynInst list \<times> bool \<Rightarrow> (DynInst list \<times> bool) res" where
  "mark_squashed squash_seq_num tid p = (\<lambda>(h, wrote).
     bindE (at h p) (\<lambda>i.
     if threadNumber i = tid \<and> squash_seq_num < seqNum i
     then Inr (h[p := i\<lparr>st_squashed := True\<rparr>], True) else Inr (h, wrote)))"

definition squash_status :: "nat \<Rightarrow> thread_state \<Rightarrow> thread_state res" where
  "squash_status squash_seq_num = (\<lambda>(t, g).
     if renameStatus t = Blocked \<or> renameStatus t = Unblocking
     then Inr (t\<lparr>renameUnblock := True, serializeInst := None\<rparr>, g\<lparr>resumeSerialize := False\<rparr>)
     else if renameStatus t = SerializeStall then
       bindE (deref (inst_heap g) (serializeInst t)) (\<lambda>i.
       if seqNum i \<le> squash_seq_num then Inr (t, g\<lparr>resumeSerialize := True\<rparr>)
       else Inr (t\<lparr>renameUnblock := True, serializeInst := None\<rparr>, g\<lparr>resumeSerialize := False\<rparr>))
     else Inr (t, g))"

definition stage_squash :: "nat \<Rightarrow> nat \<Rightarrow> thread_state \<Rightarrow> thread_state res" where
  "stage_squash squash_seq_num tid tg =
     bindE (squash_status squash_seq_num tg) (\<lambda>(t, g).
     let t = t\<lparr>renameStatus := Squashing\<rparr>
     in bindE (foldE (mark_squashed squash_seq_num tid) (fromDecode g) (inst_heap g, wroteToTimeBuffer g)) (\<lambda>(h, w).
        let t = t\<lparr>insts := [], skidBuffer := []\<rparr>
        in bindE (doSquash squash_seq_num tid (regs g)) (\<lambda>r.
           Inr (t, g\<lparr>inst_heap := h, wroteToTimeBuffer := w, regs := r\<rparr>))))"

section \<open>Signals\<close>

text \<open>The end of a serialising stall: the instruction goes back to the front of its queue.\<close>

definition end_serialize :: "thread_state \<Rightarrow> thread_state res" where
  "end_serialize = (\<lambda>(t, g).
     let serial_inst = serializeInst t;
         (_, t, g) = unblock (t\<lparr>renameStatus := Unblocking\<rparr>, g)
     in bindE (upd (inst_heap g) serial_inst (\<lambda>i. i\<lparr>st_serializeBefore := False\<rparr>)) (\<lambda>h.
        let p = the serial_inst;
            t = if skidBuffer t \<noteq> [] then t\<lparr>skidBuffer := p # skidBuffer t\<rparr> else t\<lparr>insts := p # insts t\<rparr>
        in Inr (t\<lparr>serializeInst := None\<rparr>, g\<lparr>inst_heap := h\<rparr>)))"

definition checkSignalsAndUpdate :: "nat \<Rightarrow> stage_input \<Rightarrow> thread_state \<Rightarrow> (bool \<times> thread_state) res" where
  "checkSignalsAndUpdate tid inp = (\<lambda>(t, g).
     let t = readFreeEntries inp t
     in bindE (readStallSignals inp t) (\<lambda>t.
        if ci_squash inp then bindE (stage_squash (doneSeqNum inp) tid (t, g)) (\<lambda>tg. Inr (True, tg))
        else if robSquashing inp then Inr (True, t\<lparr>renameStatus := Squashing\<rparr>, g)
        else if checkStall inp t g then block tid (t, g)
        else if renameStatus t = Blocked then
          Inr (True, snd (unblock (t\<lparr>renameStatus := Unblocking\<rparr>, g)))
        else if renameStatus t = Squashing then
          (if resumeSerialize g then Inr (True, t\<lparr>renameStatus := SerializeStall\<rparr>, g)
           else if resumeUnblocking g then Inr (True, t\<lparr>renameStatus := Unblocking\<rparr>, g)
           else Inr (False, t\<lparr>renameStatus := Running\<rparr>, g))
        else if renameStatus t = SerializeStall then bindE (end_serialize (t, g)) (\<lambda>tg. Inr (True, tg))
        else Inr (False, t, g)))"

section \<open>Renaming the instructions of a thread\<close>

definition serializeAfter :: "nat list \<Rightarrow> thread_state \<Rightarrow> thread_state res" where
  "serializeAfter inst_list = (\<lambda>(t, g).
     case inst_list of
       [] \<Rightarrow> Inr (t\<lparr>serializeOnNextInst := True\<rparr>, g)
     | p # _ \<Rightarrow> bindE (upd (inst_heap g) (Some p) (\<lambda>i. i\<lparr>st_serializeBefore := True\<rparr>)) (\<lambda>h.
                Inr (t, g\<lparr>inst_heap := h\<rparr>)))"

definition needs_serialize_before :: "DynInst \<Rightarrow> bool" where
  "needs_serialize_before i \<longleftrightarrow>
     (si_iprAccess i \<or> si_serializeBefore i \<or> st_serializeBefore i) \<and> \<not> st_serializeHandled i"

definition needs_serialize_after :: "DynInst \<Rightarrow> bool" where
  "needs_serialize_after i \<longleftrightarrow>
     (si_storeConditional i \<or> si_serializeAfter i \<or> st_serializeAfter i) \<and> \<not> st_serializeHandled i"

definition set_handled :: "nat \<Rightarrow> rename_shared \<Rightarrow> rename_shared" where
  "set_handled p g = g\<lparr>inst_heap := (inst_heap g)[p := (inst_heap g ! p)\<lparr>st_serializeHandled := True\<rparr>]\<rparr>"

text \<open>
  The loop of \<open>renameInsts\<close>. Its state is the queue it takes instructions from, the thread and the
  shared state, and the number of instructions renamed. The result tells how many instructions were
  left when it ended.
\<close>

fun rename_loop :: "nat \<Rightarrow> nat list \<Rightarrow> thread_state \<Rightarrow> int \<Rightarrow> (nat \<times> nat list \<times> thread_state \<times> int) res" where
  "rename_loop 0 q tg n = Inr (0, q, tg, n)"
| "rename_loop (Suc avail) q tg n =
     (let (t, g) = tg
      in if renameWidth g \<le> length (toIEW g) then Inr (Suc avail, q, tg, n)
      else case q of
        [] \<Rightarrow> Inl AssertFail
      | p # q' \<Rightarrow>
          bindE (at (inst_heap g) p) (\<lambda>inst.
          if st_squashed inst then rename_loop avail q' tg n
          else if needs_serialize_before inst then
            let g = if \<not> st_serializeBefore inst then set_handled p g else g
            in Inr (Suc avail, q', (t\<lparr>renameStatus := SerializeStall, serializeInst := Some p\<rparr>,
                 g\<lparr>blockThisCycle := True\<rparr>), n)
          else
            bindE (if needs_serialize_after inst then serializeAfter q' (t, set_handled p g)
                   else Inr (t, g)) (\<lambda>(t, g).
            bindE (at (inst_heap g) p) (\<lambda>inst.
            bindE (rename_inst inst (regs g)) (\<lambda>r. case r of
              None \<Rightarrow> Inr (Suc avail, p # q', (t, g\<lparr>blockThisCycle := True\<rparr>), n)
            | Some (inst, s) \<Rightarrow>
                rename_loop avail q' (t, g\<lparr>inst_heap := (inst_heap g)[p := inst], regs := s, toIEW := toIEW g @ [p]\<rparr>)
                  (n + 1))))))"

definition min_free_entries :: "stage_input \<Rightarrow> rename_thread \<Rightarrow> int" where
  "min_free_entries inp t =
     min (min (calcFreeROBEntries inp t) (calcFreeIQEntries inp t)) (calcFreeLSQEntries inp t)"

definition serialize_next :: "nat list \<Rightarrow> thread_state \<Rightarrow> thread_state res" where
  "serialize_next q = (\<lambda>(t, g).
     if serializeOnNextInst t then
       if emptyROB t \<and> instsInProgress t = 0 then Inr (t\<lparr>serializeOnNextInst := False\<rparr>, g)
       else (case q of
         [] \<Rightarrow> Inr (t, g)
       | p # _ \<Rightarrow> bindE (upd (inst_heap g) (Some p) (\<lambda>i. i\<lparr>st_serializeBefore := True\<rparr>)) (\<lambda>h.
                  Inr (t, g\<lparr>inst_heap := h\<rparr>)))
     else Inr (t, g))"

definition insts_to_rename :: "rename_thread \<Rightarrow> nat list" where
  "insts_to_rename t = (if renameStatus t = Unblocking then skidBuffer t else insts t)"

text \<open>The end of \<open>renameInsts\<close>, after the loop; \<open>unb\<close> tells which queue it worked on.\<close>

definition finish_renaming :: "nat \<Rightarrow> bool \<Rightarrow> nat \<times> nat list \<times> thread_state \<times> int \<Rightarrow> thread_state res" where
  "finish_renaming tid unb = (\<lambda>(avail, q, (t, g), n).
     let t = if unb then t\<lparr>skidBuffer := q\<rparr> else t\<lparr>insts := q\<rparr>;
         t = t\<lparr>instsInProgress := instsInProgress t + n\<rparr>;
         g = if toIEW g \<noteq> [] then g\<lparr>wroteToTimeBuffer := True\<rparr> else g;
         g = if avail \<noteq> 0 then g\<lparr>blockThisCycle := True\<rparr> else g
     in if blockThisCycle g
        then bindE (block tid (t, g)) (\<lambda>(_, t, g). Inr (t\<lparr>renameUnblock := False\<rparr>, g))
        else Inr (t, g))"

definition renameInsts :: "nat \<Rightarrow> stage_input \<Rightarrow> thread_state \<Rightarrow> thread_state res" where
  "renameInsts tid inp = (\<lambda>(t, g).
     let unb = (renameStatus t = Unblocking); insts_available = int (length (insts_to_rename t));
         min_free = min_free_entries inp t
     in if insts_available = 0 then Inr (t, g)
        else if min_free \<le> 0 then
          bindE (block tid (t, g\<lparr>blockThisCycle := True\<rparr>)) (\<lambda>(_, tg). Inr tg)
        else
          let (insts_available, g) = (if min_free < insts_available then (min_free, g\<lparr>blockThisCycle := True\<rparr>)
                                      else (insts_available, g))
          in bindE (serialize_next (insts_to_rename t) (t, g)) (\<lambda>(t, g).
             bindE (rename_loop (nat insts_available) (insts_to_rename t) (t, g) 0) (finish_renaming tid unb)))"

definition stage_rename :: "nat \<Rightarrow> stage_input \<Rightarrow> bool \<Rightarrow> thread_state \<Rightarrow> (bool \<times> thread_state) res" where
  "stage_rename tid inp status_change = (\<lambda>(t, g).
     bindE (if renameStatus t = SerializeStall \<and> resumeSerialize g then
              bindE (block tid (t, g\<lparr>resumeSerialize := False\<rparr>)) (\<lambda>(_, t, g). Inr (t\<lparr>renameUnblock := False\<rparr>, g))
            else if renameStatus t = Unblocking \<and> resumeUnblocking g then
              bindE (block tid (t, g)) (\<lambda>(_, t, g). Inr (t\<lparr>renameUnblock := False\<rparr>, g\<lparr>resumeUnblocking := False\<rparr>))
            else Inr (t, g)) (\<lambda>(t, g).
     if renameStatus t = Running \<or> renameStatus t = Idle then
       bindE (renameInsts tid inp (t, g)) (\<lambda>tg. Inr (status_change, tg))
     else if renameStatus t = Unblocking then
       bindE (renameInsts tid inp (t, g)) (\<lambda>(t, g).
       bindE (validInsts g) (\<lambda>n.
       bindE (if n \<noteq> 0 then skidInsert tid (t, g) else Inr (t, g)) (\<lambda>tg.
       let (u, t, g) = unblock tg
       in Inr (u \<or> status_change \<or> blockThisCycle g, t, g))))
     else Inr (status_change, t, g)))"

section \<open>One cycle\<close>

record rename_stage =
  rs_status :: RenameStatus
  threads :: "rename_thread list"
  shared :: rename_shared
  activeThreads :: "nat list"

text \<open>
  The constructor and \<open>initStage\<close>, which takes the free entries of the other stages. The flags that
  the constructor leaves open are set at the start of every cycle before they are read.
\<close>

definition DefaultRename_ctor :: "nat \<Rightarrow> nat \<Rightarrow> nat \<Rightarrow> nat \<Rightarrow> DynInst list \<Rightarrow> rename_regs \<Rightarrow> rename_stage" where
  "DefaultRename_ctor numThreads width decodeToRenameDelay decodeWidth h r =
     \<lparr>rs_status = Inactive, threads = replicate numThreads new_rename_thread,
      shared = \<lparr>inst_heap = h, regs = r, fromDecode = [], toIEW = [], blockThisCycle = False, resumeSerialize = False,
        resumeUnblocking = False, wroteToTimeBuffer = False, renameWidth = width,
        skidBufferMax = skid_max decodeToRenameDelay decodeWidth width\<rparr>,
      activeThreads = []\<rparr>"

definition initStage :: "FreeEntries list \<Rightarrow> rename_stage \<Rightarrow> rename_stage" where
  "initStage fes st = st\<lparr>threads := map2 (\<lambda>fe t. t\<lparr>freeEntries := fe, emptyROB := True\<rparr>) fes (threads st)\<rparr>"

definition sort_inst :: "DynInst list \<Rightarrow> nat \<Rightarrow> rename_thread list \<Rightarrow> rename_thread list res" where
  "sort_inst h p ts =
     bindE (at h p) (\<lambda>i.
     bindE (at ts (threadNumber i)) (\<lambda>t.
     Inr (ts[threadNumber i := t\<lparr>insts := insts t @ [p]\<rparr>])))"

definition sortInsts :: "rename_shared \<Rightarrow> rename_thread list \<Rightarrow> rename_thread list res" where
  "sortInsts g ts = foldE (sort_inst (inst_heap g)) (fromDecode g) ts"

text \<open>The first loop of \<open>tick\<close> on one thread.\<close>

definition thread_cycle :: "nat \<Rightarrow> stage_input \<Rightarrow> bool \<Rightarrow> thread_state \<Rightarrow> (bool \<times> thread_state) res" where
  "thread_cycle tid inp status_change tg =
     bindE (checkSignalsAndUpdate tid inp tg) (\<lambda>(c, tg). stage_rename tid inp (c \<or> status_change) tg)"

definition tick_thread :: "stage_input list \<Rightarrow> nat \<Rightarrow> bool \<times> rename_thread list \<times> rename_shared \<Rightarrow>
    (bool \<times> rename_thread list \<times> rename_shared) res" where
  "tick_thread inps tid = (\<lambda>(status_change, ts, g).
     bindE (at ts tid) (\<lambda>t.
     bindE (at inps tid) (\<lambda>inp.
     bindE (thread_cycle tid inp status_change (t, g)) (\<lambda>(c, t, g). Inr (c, ts[tid := t], g)))))"

definition updateStatus :: "rename_thread list \<Rightarrow> nat list \<Rightarrow> RenameStatus \<Rightarrow> RenameStatus res" where
  "updateStatus ts active st =
     bindE (foldE (\<lambda>tid any. bindE (at ts tid) (\<lambda>t. Inr (any \<or> renameStatus t = Unblocking))) active False) (\<lambda>any.
     Inr (if any then Active else Inactive))"

definition commit_thread :: "stage_input list \<Rightarrow> rename_thread list \<Rightarrow> nat \<Rightarrow> rename_regs \<Rightarrow> rename_regs res" where
  "commit_thread inps ts tid r =
     bindE (at inps tid) (\<lambda>inp.
     bindE (at ts tid) (\<lambda>t.
     if doneSeqNum inp \<noteq> 0 \<and> \<not> ci_squash inp \<and> renameStatus t \<noteq> Squashing
     then removeFromHistory (doneSeqNum inp) tid r else Inr r))"

definition progress_thread :: "stage_input list \<Rightarrow> nat \<Rightarrow> rename_thread list \<Rightarrow> rename_thread list res" where
  "progress_thread inps tid ts =
     bindE (at inps tid) (\<lambda>inp.
     bindE (at ts tid) (\<lambda>t.
     let n = int32 (instsInProgress t - dispatched inp)
     in bindE (assertE (0 \<le> n)) (\<lambda>_. Inr (ts[tid := t\<lparr>instsInProgress := n\<rparr>]))))"

text \<open>
  A cycle starts with a new slot of the time buffer: nothing is sent, no signal is given. The list
  \<open>dec\<close> is what decode sends.
\<close>

definition clear_signals :: "rename_thread \<Rightarrow> rename_thread" where
  "clear_signals t = t\<lparr>renameBlock := False, renameUnblock := False\<rparr>"

definition stage_tick :: "stage_input list \<Rightarrow> nat list \<Rightarrow> rename_stage \<Rightarrow> rename_stage res" where
  "stage_tick inps dec st =
     (let g = (shared st)\<lparr>fromDecode := dec, toIEW := [], wroteToTimeBuffer := False, blockThisCycle := False\<rparr>;
          ts = map clear_signals (threads st)
      in bindE (sortInsts g ts) (\<lambda>ts.
         bindE (foldE (tick_thread inps) (activeThreads st) (False, ts, g)) (\<lambda>(change, ts, g).
         bindE (if change then updateStatus ts (activeThreads st) (rs_status st) else Inr (rs_status st)) (\<lambda>status.
         bindE (foldE (commit_thread inps ts) (activeThreads st) (regs g)) (\<lambda>r.
         bindE (foldE (progress_thread inps) [0..<length ts] ts) (\<lambda>ts.
         Inr \<lparr>rs_status = status, threads = ts, shared = g\<lparr>regs := r\<rparr>, activeThreads = activeThreads st\<rparr>))))))"

text \<open>Switching the processor out and taking over from another one; the free entries are those of the other stages.\<close>

definition switchOut_one :: "nat \<Rightarrow> rename_stage \<Rightarrow> rename_stage res" where
  "switchOut_one tid st =
     bindE (switchOut_thread tid (regs (shared st))) (\<lambda>r.
     bindE (at (threads st) tid) (\<lambda>t.
     Inr (st\<lparr>threads := (threads st)[tid := t\<lparr>insts := [], skidBuffer := []\<rparr>], shared := (shared st)\<lparr>regs := r\<rparr>\<rparr>)))"

definition stage_switchOut :: "rename_stage \<Rightarrow> rename_stage res" where
  "stage_switchOut st = foldE switchOut_one [0..<length (threads st)] st"

definition takeOver_thread :: "FreeEntries \<Rightarrow> rename_thread \<Rightarrow> rename_thread" where
  "takeOver_thread fe t = t\<lparr>freeEntries := fe, renameStatus := Idle, stalls := \<lparr>st_iew = False, st_commit = False\<rparr>,
     serializeInst := None, instsInProgress := 0, emptyROB := True, serializeOnNextInst := False\<rparr>"

definition takeOverFrom :: "FreeEntries list \<Rightarrow> rename_stage \<Rightarrow> rename_stage" where
  "takeOverFrom fes st = st\<lparr>rs_status := Inactive, threads := map2 takeOver_thread fes (threads st)\<rparr>"

end
