(* ===== verification/O3_Stage_Order.thy ===== *)
theory O3_Stage_Order
  imports O3_Stage
begin

text \<open>
  The rename stage is a queue: in every cycle it sends on the oldest instructions that it holds,
  in their order, and keeps the others, whatever the stalls, the serialising instructions and the
  width. Only squashed instructions disappear.
\<close>

section \<open>What renaming keeps of an instruction\<close>

text \<open>The fields that the control of the stage reads, apart from the serialisation flags.\<close>

definition same_inst :: "DynInst \<Rightarrow> DynInst \<Rightarrow> bool" where
  "same_inst i i' \<longleftrightarrow> seqNum i' = seqNum i \<and> threadNumber i' = threadNumber i \<and> st_squashed i' = st_squashed i \<and>
     si_destRegs i' = si_destRegs i"

lemma same_inst_refl [simp]: "same_inst i i"
  by (simp add: same_inst_def)

lemma same_inst_trans: "same_inst a b \<Longrightarrow> same_inst b c \<Longrightarrow> same_inst a c"
  by (simp add: same_inst_def)

lemma foldE_keeps:
  assumes "\<And>x s s'. f x s = Inr s' \<Longrightarrow> P s s'" "\<And>s. P s s" "\<And>a b c. P a b \<Longrightarrow> P b c \<Longrightarrow> P a c"
    and "foldE f xs s = Inr s'"
  shows "P s s'"
  using assms(4)
proof (induction xs arbitrary: s)
  case (Cons x xs)
  then show ?case using assms(1,3) by (fastforce simp: bindE_eq_Inr)
qed (use assms(2) in simp)

lemma renameSrcReg_same: "renameSrcReg s tid k i = Inr i' \<Longrightarrow> same_inst i i'"
  by (auto simp: renameSrcReg_def markSrcRegReady_def same_inst_def bindE_eq_Inr Let_def split: if_splits prod.splits)

lemma renameDestReg_same: "renameDestReg tid k (i, s) = Inr (i', s') \<Longrightarrow> same_inst i i'"
  by (clarsimp simp: renameDestReg_def same_inst_def bindE_eq_Inr Let_def split_def)

lemma rename_inst_same:
  assumes "rename_inst i s = Inr (Some (i', s'))"
  shows "same_inst i i'"
proof -
  obtain i1 where i1: "renameSrcRegs s (threadNumber i) i = Inr i1" "renameDestRegs (threadNumber i1) i1 s = Inr (i', s')"
    using assms by (auto simp: rename_inst_def bindE_eq_Inr split: if_splits)
  have "same_inst i i1"
    by (rule foldE_keeps [where P = same_inst, OF renameSrcReg_same _ same_inst_trans i1(1) [unfolded renameSrcRegs_def]]) auto
  moreover have "same_inst (fst (i1, s)) (fst (i', s'))"
    by (rule foldE_keeps [where P = "\<lambda>a b. same_inst (fst a) (fst b)", OF _ _ _ i1(2) [unfolded renameDestRegs_def]])
      (auto intro: renameDestReg_same same_inst_trans)
  ultimately show ?thesis using same_inst_trans by simp
qed

section \<open>The flow of instructions\<close>

definition same_heap :: "DynInst list \<Rightarrow> DynInst list \<Rightarrow> bool" where
  "same_heap h h' \<longleftrightarrow> length h' = length h \<and> (\<forall>p < length h. same_inst (h ! p) (h' ! p))"

definition live :: "DynInst list \<Rightarrow> nat \<Rightarrow> bool" where
  "live h p \<longleftrightarrow> p < length h \<and> \<not> st_squashed (h ! p)"

lemma same_heap_refl [simp]: "same_heap h h"
  by (simp add: same_heap_def)

lemma same_heap_trans: "same_heap a b \<Longrightarrow> same_heap b c \<Longrightarrow> same_heap a c"
  unfolding same_heap_def using same_inst_trans by metis

lemma same_heap_live: "same_heap h h' \<Longrightarrow> live h' = live h"
  by (auto simp: same_heap_def same_inst_def live_def fun_eq_iff)

lemma same_heap_upd: "p < length h \<Longrightarrow> same_inst (h ! p) i \<Longrightarrow> same_heap h (h[p := i])"
  by (auto simp: same_heap_def nth_list_update)

text \<open>The instructions that a thread holds, the oldest first.\<close>

definition pending :: "rename_thread \<Rightarrow> nat list" where
  "pending t = (case serializeInst t of None \<Rightarrow> [] | Some p \<Rightarrow> [p]) @ skidBuffer t @ insts t"

text \<open>
  A step of a thread that sends on \<open>out\<close>: the instructions that are not squashed are those held
  before, in the same order.
\<close>

definition flow :: "thread_state \<Rightarrow> nat list \<Rightarrow> thread_state \<Rightarrow> bool" where
  "flow = (\<lambda>(t, g) out (t', g').
     same_heap (inst_heap g) (inst_heap g') \<and> toIEW g' = toIEW g @ out \<and> fromDecode g' = fromDecode g \<and>
     resumeSerialize g' = resumeSerialize g \<and> resumeUnblocking g' = resumeUnblocking g \<and> skidBufferMax g' = skidBufferMax g \<and>
     (\<forall>p \<in> set out. live (inst_heap g) p) \<and> set (out @ pending t') \<subseteq> set (pending t) \<and>
     length (out @ pending t') \<le> length (pending t) \<and>
     filter (live (inst_heap g)) (out @ pending t') = filter (live (inst_heap g)) (pending t))"

lemma flow_trans:
  assumes "flow a out1 b" "flow b out2 c"
  shows "flow a (out1 @ out2) c"
proof -
  obtain t g t1 g1 t2 g2 where abc: "a = (t, g)" "b = (t1, g1)" "c = (t2, g2)" by (metis surj_pair)
  note f1 = assms(1) [unfolded abc flow_def prod.case] and f2 = assms(2) [unfolded abc flow_def prod.case]
  have l: "live (inst_heap g1) = live (inst_heap g)" using f1 same_heap_live by blast
  have h: "same_heap (inst_heap g) (inst_heap g2)" using f1 f2 same_heap_trans by blast
  have "filter (live (inst_heap g)) ((out1 @ out2) @ pending t2) =
      filter (live (inst_heap g)) out1 @ filter (live (inst_heap g)) (out2 @ pending t2)" by simp
  also have "filter (live (inst_heap g)) (out2 @ pending t2) = filter (live (inst_heap g)) (pending t1)"
    using f2 unfolding l by blast
  also have "filter (live (inst_heap g)) out1 @ \<dots> = filter (live (inst_heap g)) (pending t)"
    using f1 unfolding filter_append by blast
  finally have eq: "filter (live (inst_heap g)) ((out1 @ out2) @ pending t2) = filter (live (inst_heap g)) (pending t)" .
  have sub: "set ((out1 @ out2) @ pending t2) \<subseteq> set (pending t)" using f1 f2 by auto
  have lv: "\<forall>p \<in> set (out1 @ out2). live (inst_heap g) p" using f1 f2 unfolding l by auto
  have "length ((out1 @ out2) @ pending t2) \<le> length (pending t)" using f1 f2 by simp
  then show ?thesis unfolding abc flow_def prod.case using h eq sub lv f1 f2 by (intro conjI) simp_all
qed

lemma flow_refl [simp]: "flow a [] a"
  by (cases a) (simp add: flow_def)

text \<open>
  The invariant of a thread: the skid buffer is only used while the stage is blocked, and a thread
  has a serialising instruction exactly while it waits for one.
\<close>

definition thread_inv :: "nat \<Rightarrow> thread_state \<Rightarrow> bool" where
  "thread_inv tid = (\<lambda>(t, g).
     (\<forall>p \<in> set (pending t). p < length (inst_heap g) \<and> threadNumber (inst_heap g ! p) = tid) \<and>
     (renameStatus t \<in> {Running, Idle, Squashing} \<longrightarrow> skidBuffer t = []) \<and>
     (serializeInst t \<noteq> None \<longleftrightarrow> renameStatus t = SerializeStall) \<and> renameStatus t \<noteq> StartSquash \<and>
     \<not> resumeSerialize g \<and> \<not> resumeUnblocking g)"

section \<open>The parts of a cycle\<close>

lemma skidInsert_flow:
  assumes "skidInsert tid (t, g) = Inr (t', g')"
  shows "t' = t\<lparr>skidBuffer := skidBuffer t @ insts t, insts := []\<rparr>" "g' = g"
  using assms by (auto simp: skidInsert_def bindE_eq_Inr Let_def split: if_splits)

lemma pending_skid [simp]: "pending (t\<lparr>skidBuffer := skidBuffer t @ insts t, insts := []\<rparr>) = pending t"
  by (simp add: pending_def)

lemma pending_status [simp]:
  "pending (t\<lparr>renameStatus := x\<rparr>) = pending t" "pending (t\<lparr>renameBlock := b\<rparr>) = pending t"
  "pending (t\<lparr>renameUnblock := b\<rparr>) = pending t" "pending (t\<lparr>stalls := y\<rparr>) = pending t"
  "pending (t\<lparr>freeEntries := z\<rparr>) = pending t" "pending (t\<lparr>emptyROB := b\<rparr>) = pending t"
  "pending (t\<lparr>serializeOnNextInst := b\<rparr>) = pending t" "pending (t\<lparr>instsInProgress := n\<rparr>) = pending t"
  by (simp_all add: pending_def)

lemma flow_silent:
  assumes "pending t' = pending t" "inst_heap g' = inst_heap g" "toIEW g' = toIEW g" "fromDecode g' = fromDecode g"
    and "resumeSerialize g' = resumeSerialize g" "resumeUnblocking g' = resumeUnblocking g" "skidBufferMax g' = skidBufferMax g"
  shows "flow (t, g) [] (t', g')"
  using assms by (simp add: flow_def)

text \<open>Blocking moves the input to the skid buffer; a serialising thread keeps its status.\<close>

lemma block_flow:
  assumes "block tid (t, g) = Inr (c, t', g')"
  shows "flow (t, g) [] (t', g')" "renameStatus t' = (if renameStatus t = SerializeStall then SerializeStall else Blocked)"
    "serializeInst t' = serializeInst t" "insts t' = []"
proof -
  obtain t1 g1 where 1: "skidInsert tid (t, g) = Inr (t1, g1)" using assms by (auto simp: block_def bindE_eq_Inr)
  note s = skidInsert_flow [OF 1]
  have "pending t' = pending t \<and> inst_heap g' = inst_heap g \<and> toIEW g' = toIEW g \<and> fromDecode g' = fromDecode g \<and>
      resumeSerialize g' = resumeSerialize g \<and> resumeUnblocking g' = resumeUnblocking g \<and> skidBufferMax g' = skidBufferMax g \<and>
      renameStatus t' = (if renameStatus t = SerializeStall then SerializeStall else Blocked) \<and>
      serializeInst t' = serializeInst t \<and> insts t' = []"
    using assms 1 unfolding block_def s by (auto simp: Let_def pending_def split: if_splits)
  then show "flow (t, g) [] (t', g')" "renameStatus t' = (if renameStatus t = SerializeStall then SerializeStall else Blocked)"
    "serializeInst t' = serializeInst t" "insts t' = []" by (auto intro: flow_silent)
qed

lemma unblock_flow:
  assumes "unblock (t, g) = (c, t', g')"
  shows "flow (t, g) [] (t', g')" "serializeInst t' = serializeInst t" "skidBuffer t' = skidBuffer t" "insts t' = insts t"
    "renameStatus t' = (if skidBuffer t = [] \<and> renameStatus t \<noteq> SerializeStall then Running else renameStatus t)"
    "inst_heap g' = inst_heap g"
  using assms by (auto simp: unblock_def flow_def split: if_splits)

text \<open>The status part of the invariant after a silent step.\<close>

lemma thread_inv_flow:
  assumes "thread_inv tid (t, g)" "flow (t, g) out (t', g')"
    and "renameStatus t' \<in> {Running, Idle, Squashing} \<longrightarrow> skidBuffer t' = []"
    and "serializeInst t' \<noteq> None \<longleftrightarrow> renameStatus t' = SerializeStall" "renameStatus t' \<noteq> StartSquash"
  shows "thread_inv tid (t', g')"
proof -
  have f: "same_heap (inst_heap g) (inst_heap g')" "set (pending t') \<subseteq> set (pending t)"
    "resumeSerialize g' = resumeSerialize g" "resumeUnblocking g' = resumeUnblocking g"
    using assms(2) by (auto simp: flow_def)
  have "p < length (inst_heap g') \<and> threadNumber (inst_heap g' ! p) = tid" if "p \<in> set (pending t')" for p
    using assms(1) f(1,2) that unfolding thread_inv_def prod.case same_heap_def same_inst_def by auto
  then show ?thesis
    using assms(1,3-5) f(3,4) unfolding thread_inv_def prod.case by blast
qed

lemma readFreeEntries_keeps [simp]:
  "pending (readFreeEntries inp t) = pending t" "renameStatus (readFreeEntries inp t) = renameStatus t"
  "serializeInst (readFreeEntries inp t) = serializeInst t" "skidBuffer (readFreeEntries inp t) = skidBuffer t"
  "insts (readFreeEntries inp t) = insts t"
  by (simp_all add: readFreeEntries_def Let_def pending_def)

lemma readStallSignals_keeps:
  assumes "readStallSignals inp t = Inr t'"
  shows "pending t' = pending t" "renameStatus t' = renameStatus t" "serializeInst t' = serializeInst t"
    "skidBuffer t' = skidBuffer t" "insts t' = insts t"
  using assms by (auto simp: readStallSignals_def Let_def bindE_eq_Inr pending_def)

text \<open>The end of a serialising stall puts the instruction in front of the others.\<close>

lemma end_serialize_flow:
  assumes "end_serialize (t, g) = Inr (t', g')" "serializeInst t = Some p" "p < length (inst_heap g)"
  shows "flow (t, g) [] (t', g')" "serializeInst t' = None" "renameStatus t' \<in> {Running, Unblocking}"
    "renameStatus t' = Running \<longrightarrow> skidBuffer t' = []" "pending t' = pending t"
proof -
  let ?t = "t\<lparr>renameStatus := Unblocking\<rparr>"
  obtain c t1 g1 where u: "unblock (?t, g) = (c, t1, g1)" by (metis surj_pair)
  note uf = unblock_flow [OF u]
  define t2 where "t2 = (if skidBuffer t1 \<noteq> [] then t1\<lparr>skidBuffer := p # skidBuffer t1\<rparr> else t1\<lparr>insts := p # insts t1\<rparr>)"
  define h where "h = (inst_heap g1)[p := (inst_heap g1 ! p)\<lparr>st_serializeBefore := False\<rparr>]"
  have r: "t' = t2\<lparr>serializeInst := None\<rparr>" "g' = g1\<lparr>inst_heap := h\<rparr>"
    using assms u uf(6) unfolding end_serialize_def by (auto simp: Let_def t2_def h_def)
  show pend: "pending t' = pending t"
    using assms(2) uf(2-4) unfolding r(1) t2_def by (simp add: pending_def)
  have "same_heap (inst_heap g) h"
    using assms(3) unfolding h_def uf(6) by (intro same_heap_upd) (simp_all add: same_inst_def)
  then show "flow (t, g) [] (t', g')"
    using uf(1) pend unfolding r(2) by (simp add: flow_def)
  show "serializeInst t' = None" "renameStatus t' \<in> {Running, Unblocking}" "renameStatus t' = Running \<longrightarrow> skidBuffer t' = []"
    using uf(3,5) unfolding r(1) t2_def by (auto split: if_splits)
qed

section \<open>The loop\<close>

definition serial_list :: "rename_thread \<Rightarrow> nat list" where
  "serial_list t = (case serializeInst t of None \<Rightarrow> [] | Some p \<Rightarrow> [p])"

lemma pending_serial: "pending t = serial_list t @ skidBuffer t @ insts t"
  by (simp add: pending_def serial_list_def)

text \<open>The loop on a queue: what it sends on, the serialising instruction and the rest are the queue.\<close>

definition loop_flow :: "nat list \<Rightarrow> thread_state \<Rightarrow> nat list \<Rightarrow> nat list \<Rightarrow> thread_state \<Rightarrow> bool" where
  "loop_flow q = (\<lambda>(t, g) out q' (t', g').
     same_heap (inst_heap g) (inst_heap g') \<and> toIEW g' = toIEW g @ out \<and> fromDecode g' = fromDecode g \<and>
     resumeSerialize g' = resumeSerialize g \<and> resumeUnblocking g' = resumeUnblocking g \<and> skidBufferMax g' = skidBufferMax g \<and>
     (\<forall>p \<in> set out. live (inst_heap g) p) \<and> set (out @ serial_list t' @ q') \<subseteq> set q \<and>
     length (out @ serial_list t' @ q') \<le> length q \<and>
     filter (live (inst_heap g)) (out @ serial_list t' @ q') = filter (live (inst_heap g)) q \<and>
     insts t' = insts t \<and> skidBuffer t' = skidBuffer t \<and>
     (if serializeInst t' = None then renameStatus t' = renameStatus t else renameStatus t' = SerializeStall))"

lemma loop_flow_stop:
  assumes "serializeInst t = None" "same_heap (inst_heap g) (inst_heap g')" "toIEW g' = toIEW g"
    and "fromDecode g' = fromDecode g" "resumeSerialize g' = resumeSerialize g" "resumeUnblocking g' = resumeUnblocking g"
    and "skidBufferMax g' = skidBufferMax g" "serializeInst t' = None" "insts t' = insts t" "skidBuffer t' = skidBuffer t" "renameStatus t' = renameStatus t"
  shows "loop_flow q (t, g) [] q (t', g')"
  using assms by (simp add: loop_flow_def serial_list_def)

lemma loop_flow_skip:
  assumes "loop_flow q (t, g) out q' tg'" "\<not> live (inst_heap g) p"
  shows "loop_flow (p # q) (t, g) out q' tg'"
  using assms by (cases tg') (auto simp: loop_flow_def)

lemma loop_flow_send:
  assumes "loop_flow q (t1, g1\<lparr>inst_heap := h, regs := r, toIEW := toIEW g1 @ [p]\<rparr>) out q' tg'" "live (inst_heap g) p"
    and "same_heap (inst_heap g) h" "toIEW g1 = toIEW g"
    and "fromDecode g1 = fromDecode g" "resumeSerialize g1 = resumeSerialize g" "resumeUnblocking g1 = resumeUnblocking g"
    and "insts t1 = insts t" "skidBuffer t1 = skidBuffer t" "renameStatus t1 = renameStatus t" "skidBufferMax g1 = skidBufferMax g"
  shows "loop_flow (p # q) (t, g) (p # out) q' tg'"
proof -
  obtain t' g' where tg: "tg' = (t', g')" by (metis surj_pair)
  note f = assms(1) [unfolded tg loop_flow_def prod.case, simplified]
  have l: "live h = live (inst_heap g)" using assms(3) same_heap_live by blast
  show ?thesis
    unfolding tg loop_flow_def prod.case
    using f assms(2-11) same_heap_trans [OF assms(3)] unfolding l by (auto simp: l)
qed

lemma serializeAfter_keeps:
  assumes "(if b then serializeAfter q (t, set_handled p g) else Inr (t, g)) = Inr (t1, g1)"
    and "p < length (inst_heap g)" "\<forall>x \<in> set q. x < length (inst_heap g)"
  shows "same_heap (inst_heap g) (inst_heap g1)" "toIEW g1 = toIEW g" "fromDecode g1 = fromDecode g"
    "resumeSerialize g1 = resumeSerialize g" "resumeUnblocking g1 = resumeUnblocking g" "renameWidth g1 = renameWidth g"
    "serializeInst t1 = serializeInst t" "insts t1 = insts t" "skidBuffer t1 = skidBuffer t"
    "renameStatus t1 = renameStatus t" "regs g1 = regs g" "skidBufferMax g1 = skidBufferMax g"
proof -
  let ?h = "(inst_heap g)[p := (inst_heap g ! p)\<lparr>st_serializeHandled := True\<rparr>]"
  have h: "same_heap (inst_heap g) ?h" using assms(2) by (intro same_heap_upd) (simp_all add: same_inst_def)
  have u: "same_heap ?h (?h[x := (?h ! x)\<lparr>st_serializeBefore := True\<rparr>])" if "x < length (inst_heap g)" for x
    using that by (intro same_heap_upd) (simp_all add: same_inst_def)
  have "same_heap (inst_heap g) (inst_heap g1) \<and> toIEW g1 = toIEW g \<and> fromDecode g1 = fromDecode g \<and>
    resumeSerialize g1 = resumeSerialize g \<and> resumeUnblocking g1 = resumeUnblocking g \<and> renameWidth g1 = renameWidth g \<and>
    serializeInst t1 = serializeInst t \<and> insts t1 = insts t \<and> skidBuffer t1 = skidBuffer t \<and>
    renameStatus t1 = renameStatus t \<and> regs g1 = regs g \<and> skidBufferMax g1 = skidBufferMax g"
  proof (cases b)
    case True
    show ?thesis
    proof (cases q)
      case Nil
      then show ?thesis using True assms(1) h by (auto simp: serializeAfter_def set_handled_def)
    next
      case (Cons x xs)
      then have x: "x < length (inst_heap g)" using assms(3) by simp
      have "g1 = g\<lparr>inst_heap := ?h[x := (?h ! x)\<lparr>st_serializeBefore := True\<rparr>]\<rparr>" "t1 = t"
        using True assms(1) x Cons by (auto simp: serializeAfter_def set_handled_def)
      then show ?thesis using same_heap_trans [OF h u [OF x]] by simp
    qed
  qed (use assms(1) in simp)
  then show "same_heap (inst_heap g) (inst_heap g1)" "toIEW g1 = toIEW g" "fromDecode g1 = fromDecode g"
    "resumeSerialize g1 = resumeSerialize g" "resumeUnblocking g1 = resumeUnblocking g" "renameWidth g1 = renameWidth g"
    "serializeInst t1 = serializeInst t" "insts t1 = insts t" "skidBuffer t1 = skidBuffer t"
    "renameStatus t1 = renameStatus t" "regs g1 = regs g" "skidBufferMax g1 = skidBufferMax g" by blast+
qed

text \<open>The ways a turn of the loop can go.\<close>

definition after_serialize :: "nat \<Rightarrow> nat list \<Rightarrow> thread_state \<Rightarrow> thread_state res" where
  "after_serialize p q = (\<lambda>(t, g).
     if needs_serialize_after (inst_heap g ! p) then serializeAfter q (t, set_handled p g) else Inr (t, g))"

definition serialize_mark :: "nat \<Rightarrow> rename_shared \<Rightarrow> rename_shared" where
  "serialize_mark p g = (if \<not> st_serializeBefore (inst_heap g ! p) then set_handled p g else g)"

lemma rename_loop_cases:
  assumes "rename_loop (Suc avail) q (t, g) n = Inr r" "\<forall>p \<in> set q. p < length (inst_heap g)"
  obtains
    (width) "renameWidth g \<le> length (toIEW g)" "r = (Suc avail, q, (t, g), n)"
  | (squashed) p qs where "length (toIEW g) < renameWidth g" "q = p # qs" "\<not> live (inst_heap g) p"
      "rename_loop avail qs (t, g) n = Inr r"
  | (serialize) p qs where "length (toIEW g) < renameWidth g" "q = p # qs" "live (inst_heap g) p"
      "needs_serialize_before (inst_heap g ! p)"
      "r = (Suc avail, qs, (t\<lparr>renameStatus := SerializeStall, serializeInst := Some p\<rparr>, (serialize_mark p g)\<lparr>blockThisCycle := True\<rparr>), n)"
  | (full) p qs t1 g1 where "length (toIEW g) < renameWidth g" "q = p # qs" "live (inst_heap g) p"
      "\<not> needs_serialize_before (inst_heap g ! p)" "after_serialize p qs (t, g) = Inr (t1, g1)"
      "rename_inst (inst_heap g1 ! p) (regs g1) = Inr None" "r = (Suc avail, q, (t1, g1\<lparr>blockThisCycle := True\<rparr>), n)"
  | (send) p qs t1 g1 i2 s2 where "length (toIEW g) < renameWidth g" "q = p # qs" "live (inst_heap g) p"
      "\<not> needs_serialize_before (inst_heap g ! p)" "after_serialize p qs (t, g) = Inr (t1, g1)"
      "rename_inst (inst_heap g1 ! p) (regs g1) = Inr (Some (i2, s2))"
      "rename_loop avail qs (t1, g1\<lparr>inst_heap := (inst_heap g1)[p := i2], regs := s2, toIEW := toIEW g1 @ [p]\<rparr>) (n + 1) = Inr r"
proof (cases "renameWidth g \<le> length (toIEW g)")
  case True
  then show thesis using width assms(1) by simp
next
  case False
  then obtain p qs where q: "q = p # qs" using assms(1) by (cases q) auto
  have p: "p < length (inst_heap g)" using assms(2) q by simp
  show thesis
  proof (cases "live (inst_heap g) p")
    case dead: False
    then show thesis using squashed [OF _ q] assms(1) False p q by (simp add: live_def)
  next
    case lv: True
    show thesis
    proof (cases "needs_serialize_before (inst_heap g ! p)")
      case True
      then show thesis using serialize [OF _ q lv] assms(1) False p q lv by (simp add: live_def serialize_mark_def Let_def)
    next
      case ns: False
      let ?k = "\<lambda>(t, g). bindE (at (inst_heap g) p) (\<lambda>inst. bindE (rename_inst inst (regs g)) (\<lambda>r. case r of
              None \<Rightarrow> Inr (Suc avail, p # qs, (t, g\<lparr>blockThisCycle := True\<rparr>), n)
            | Some (inst, s) \<Rightarrow>
                rename_loop avail qs (t, g\<lparr>inst_heap := (inst_heap g)[p := inst], regs := s, toIEW := toIEW g @ [p]\<rparr>)
                  (n + 1)))"
      have "bindE (after_serialize p qs (t, g)) ?k = Inr r"
        using assms(1) False p q lv ns by (simp add: live_def after_serialize_def)
      then obtain t1 g1 o1 where sa: "after_serialize p qs (t, g) = Inr (t1, g1)"
        and ri: "rename_inst (inst_heap g1 ! p) (regs g1) = Inr o1"
        and rest: "(case o1 of
              None \<Rightarrow> Inr (Suc avail, p # qs, (t1, g1\<lparr>blockThisCycle := True\<rparr>), n)
            | Some (inst, s) \<Rightarrow>
                rename_loop avail qs (t1, g1\<lparr>inst_heap := (inst_heap g1)[p := inst], regs := s, toIEW := toIEW g1 @ [p]\<rparr>)
                  (n + 1)) = Inr r"
        by (auto simp: bindE_eq_Inr at_def split: if_splits)
      show thesis
      proof (cases o1)
        case None
        then show thesis using full [OF _ q lv ns sa] ri rest False q by simp
      next
        case (Some pr)
        then show thesis using send [OF _ q lv ns sa, of "fst pr" "snd pr"] ri rest False by (cases pr) simp
      qed
    qed
  qed
qed

lemma rename_loop_flow:
  assumes "rename_loop avail q (t, g) n = Inr (avail', q', (t', g'), n')" "serializeInst t = None"
    and "\<forall>p \<in> set q. p < length (inst_heap g)"
  shows "\<exists>out. loop_flow q (t, g) out q' (t', g')"
  using assms
proof (induction avail arbitrary: q t g n)
  case 0
  then have "loop_flow q (t, g) [] q (t, g)" by (intro loop_flow_stop) simp_all
  then show ?case using 0 by auto
next
  case (Suc avail)
  note stop = loop_flow_stop [OF Suc.prems(2)]
  show ?case
  proof (cases rule: rename_loop_cases [OF Suc.prems(1,3)])
    case 1
    then have "loop_flow q (t, g) [] q' (t', g')" using Suc.prems(2) by (auto intro: stop)
    then show ?thesis ..
  next
    case (2 p qs)
    then obtain out where "loop_flow qs (t, g) out q' (t', g')" using Suc.IH [OF 2(4)] Suc.prems(2,3) by auto
    then show ?thesis using 2(2,3) loop_flow_skip by blast
  next
    case (3 p qs)
    then have "same_heap (inst_heap g) (inst_heap (serialize_mark p g))"
      by (auto simp: serialize_mark_def set_handled_def same_inst_def live_def intro!: same_heap_upd)
    then have "loop_flow q (t, g) [] q' (t', g')"
      using 3 by (auto simp: loop_flow_def serial_list_def serialize_mark_def set_handled_def)
    then show ?thesis ..
  next
    case (4 p qs t1 g1)
    note k = serializeAfter_keeps [OF 4(5) [unfolded after_serialize_def prod.case]]
    have "loop_flow q (t, g) [] q (t', g')"
      using 4(2,7) k Suc.prems(2,3) by (intro stop) auto
    then show ?thesis using 4(7) by auto
  next
    case (5 p qs t1 g1 i2 s2)
    have p: "p < length (inst_heap g)" "\<forall>x \<in> set qs. x < length (inst_heap g)" using Suc.prems(3) 5(2) by simp_all
    note k = serializeAfter_keeps [OF 5(5) [unfolded after_serialize_def prod.case] p]
    let ?h = "(inst_heap g1)[p := i2]"
    let ?g = "g1\<lparr>inst_heap := ?h, regs := s2, toIEW := toIEW g1 @ [p]\<rparr>"
    have "p < length (inst_heap g1)" using k(1) p(1) by (simp add: same_heap_def)
    then have h: "same_heap (inst_heap g) ?h"
      using same_heap_trans [OF k(1) same_heap_upd] rename_inst_same [OF 5(6)] by blast
    have "\<forall>x \<in> set qs. x < length (inst_heap ?g)" using p(2) h by (simp add: same_heap_def)
    then obtain out where "loop_flow qs (t1, ?g) out q' (t', g')" using Suc.IH [OF 5(7)] k(7) Suc.prems(2) by auto
    then have "loop_flow (p # qs) (t, g) (p # out) q' (t', g')"
      by (rule loop_flow_send [OF _ 5(3) h k(2-5) k(8-10,12)])
    then show ?thesis unfolding 5(2) by blast
  qed
qed

section \<open>A cycle of a thread\<close>

lemma serialize_next_keeps:
  assumes "serialize_next q (t, g) = Inr (t1, g1)" "\<forall>x \<in> set q. x < length (inst_heap g)"
  shows "flow (t, g) [] (t1, g1)" "serializeInst t1 = serializeInst t" "insts t1 = insts t" "skidBuffer t1 = skidBuffer t"
    "renameStatus t1 = renameStatus t" "toIEW g1 = toIEW g"
proof -
  have u: "same_heap (inst_heap g) ((inst_heap g)[x := (inst_heap g ! x)\<lparr>st_serializeBefore := True\<rparr>])"
    if "x < length (inst_heap g)" for x using that by (intro same_heap_upd) (simp_all add: same_inst_def)
  have "flow (t, g) [] (t1, g1) \<and> serializeInst t1 = serializeInst t \<and> insts t1 = insts t \<and>
      skidBuffer t1 = skidBuffer t \<and> renameStatus t1 = renameStatus t \<and> toIEW g1 = toIEW g"
  proof (cases q)
    case Nil
    then show ?thesis using assms(1) by (auto simp: serialize_next_def flow_def split: if_splits)
  next
    case (Cons x xs)
    then have "x < length (inst_heap g)" using assms(2) by simp
    then show ?thesis using assms(1) Cons u by (auto simp: serialize_next_def flow_def split: if_splits)
  qed
  then show "flow (t, g) [] (t1, g1)" "serializeInst t1 = serializeInst t" "insts t1 = insts t" "skidBuffer t1 = skidBuffer t"
    "renameStatus t1 = renameStatus t" "toIEW g1 = toIEW g" by blast+
qed

text \<open>Writing the rest of the queue back.\<close>

lemma loop_flow_flow:
  assumes "loop_flow (insts_to_rename t) (t, g) out q' (t', g')" "serializeInst t = None"
    and "renameStatus t \<noteq> Unblocking \<longrightarrow> skidBuffer t = []"
  shows "flow (t, g) out (if renameStatus t = Unblocking then t'\<lparr>skidBuffer := q'\<rparr> else t'\<lparr>insts := q'\<rparr>, g')"
proof -
  note f = assms(1) [unfolded loop_flow_def prod.case]
  let ?L = "filter (live (inst_heap g))"
  let ?t = "if renameStatus t = Unblocking then t'\<lparr>skidBuffer := q'\<rparr> else t'\<lparr>insts := q'\<rparr>"
  let ?rest = "if renameStatus t = Unblocking then insts t else []"
  have new: "out @ pending ?t = (out @ serial_list t' @ q') @ ?rest"
    using f assms(3) by (auto simp: pending_serial serial_list_def)
  have old: "pending t = insts_to_rename t @ ?rest"
    using assms(2,3) by (auto simp: pending_def insts_to_rename_def)
  have "?L (out @ pending ?t) = ?L (out @ serial_list t' @ q') @ ?L ?rest" unfolding new filter_append ..
  also have "?L (out @ serial_list t' @ q') = ?L (insts_to_rename t)" using f by blast
  finally have "?L (out @ pending ?t) = ?L (pending t)" unfolding old filter_append .
  moreover have "set (out @ pending ?t) \<subseteq> set (pending t)" using f unfolding new old by auto
  moreover have "length (out @ pending ?t) \<le> length (pending t)" using f unfolding new old by simp
  ultimately show ?thesis unfolding flow_def prod.case using f by blast
qed

lemma finish_renaming_flow:
  assumes "finish_renaming tid unb (avail, q', (t, g), n) = Inr (t', g')"
  defines "t1 \<equiv> if unb then t\<lparr>skidBuffer := q'\<rparr> else t\<lparr>insts := q'\<rparr>"
  shows "flow (t1, g) [] (t', g')" "serializeInst t' = serializeInst t"
    "(renameStatus t' = (if renameStatus t = SerializeStall then SerializeStall else Blocked)) \<or>
     (renameStatus t' = renameStatus t \<and> skidBuffer t' = skidBuffer t1)"
proof -
  define t2 where "t2 = t1\<lparr>instsInProgress := instsInProgress t1 + n\<rparr>"
  define g2 where "g2 = (let g = if toIEW g \<noteq> [] then g\<lparr>wroteToTimeBuffer := True\<rparr> else g
    in if avail \<noteq> 0 then g\<lparr>blockThisCycle := True\<rparr> else g)"
  have f2: "flow (t1, g) [] (t2, g2)" by (rule flow_silent) (simp_all add: t2_def g2_def Let_def)
  have k: "serializeInst t2 = serializeInst t" "renameStatus t2 = renameStatus t" "skidBuffer t2 = skidBuffer t1"
    by (simp_all add: t2_def t1_def)
  have r: "(if blockThisCycle g2 then bindE (block tid (t2, g2)) (\<lambda>(_, t, g). Inr (t\<lparr>renameUnblock := False\<rparr>, g))
      else Inr (t2, g2)) = Inr (t', g')"
    using assms(1) unfolding finish_renaming_def t1_def t2_def g2_def prod.case Let_def by simp
  have "flow (t1, g) [] (t', g') \<and> serializeInst t' = serializeInst t \<and>
    ((renameStatus t' = (if renameStatus t = SerializeStall then SerializeStall else Blocked)) \<or>
     (renameStatus t' = renameStatus t \<and> skidBuffer t' = skidBuffer t1))"
  proof (cases "blockThisCycle g2")
    case True
    then obtain c t3 where b: "block tid (t2, g2) = Inr (c, t3, g')" "t' = t3\<lparr>renameUnblock := False\<rparr>"
      using r by (auto simp: bindE_eq_Inr)
    note bf = block_flow [OF b(1)]
    have "flow (t3, g') [] (t', g')" unfolding b(2) by (rule flow_silent) simp_all
    then have "flow (t1, g) [] (t', g')" using flow_trans [OF f2 flow_trans [OF bf(1)]] by simp
    then show ?thesis using bf(2,3) k b(2) by simp
  qed (use r f2 k in auto)
  then show "flow (t1, g) [] (t', g')" "serializeInst t' = serializeInst t"
    "(renameStatus t' = (if renameStatus t = SerializeStall then SerializeStall else Blocked)) \<or>
     (renameStatus t' = renameStatus t \<and> skidBuffer t' = skidBuffer t1)" by blast+
qed

text \<open>The ways \<open>renameInsts\<close> and \<open>rename\<close> can go.\<close>

lemma renameInsts_cases:
  assumes "renameInsts tid inp (t, g) = Inr (t', g')"
  obtains
    (none) "insts_to_rename t = []" "t' = t" "g' = g"
  | (no_room) c where "min_free_entries inp t \<le> 0" "block tid (t, g\<lparr>blockThisCycle := True\<rparr>) = Inr (c, t', g')"
  | (loop) g0 n0 t1 g1 a q' t2 g2 k where "insts_to_rename t \<noteq> []" "0 < min_free_entries inp t"
      "n0 = nat (min (min_free_entries inp t) (int (length (insts_to_rename t))))" "g0 = g \<or> g0 = g\<lparr>blockThisCycle := True\<rparr>"
      "serialize_next (insts_to_rename t) (t, g0) = Inr (t1, g1)" "rename_loop n0 (insts_to_rename t1) (t1, g1) 0 = Inr (a, q', (t2, g2), k)"
      "finish_renaming tid (renameStatus t = Unblocking) (a, q', (t2, g2), k) = Inr (t', g')"
proof -
  let ?m = "min_free_entries inp t" and ?n = "int (length (insts_to_rename t))"
  consider "?n = 0" | "?n \<noteq> 0" "?m \<le> 0" | "?n \<noteq> 0" "0 < ?m" by linarith
  then show thesis
  proof cases
    case 1
    then show thesis using none assms by (simp add: renameInsts_def)
  next
    case 2
    then show thesis using no_room assms by (auto simp: renameInsts_def bindE_eq_Inr Let_def)
  next
    case 3
    define g0 where "g0 = (if ?m < ?n then g\<lparr>blockThisCycle := True\<rparr> else g)"
    define n0 where "n0 = (if ?m < ?n then ?m else ?n)"
    obtain t1 g1 a q' t2 g2 k where "serialize_next (insts_to_rename t) (t, g0) = Inr (t1, g1)"
      "rename_loop (nat n0) (insts_to_rename t1) (t1, g1) 0 = Inr (a, q', (t2, g2), k)"
      "finish_renaming tid (renameStatus t = Unblocking) (a, q', (t2, g2), k) = Inr (t', g')"
      using assms 3 unfolding renameInsts_def g0_def n0_def by (auto simp: bindE_eq_Inr Let_def split: if_splits)
    moreover have "n0 = min ?m ?n" "g0 = g \<or> g0 = g\<lparr>blockThisCycle := True\<rparr>" by (simp_all add: n0_def g0_def)
    ultimately show thesis using loop 3 by auto
  qed
qed

lemma stage_rename_cases:
  assumes "stage_rename tid inp sc (t, g) = Inr (c, t', g')" "\<not> resumeSerialize g" "\<not> resumeUnblocking g"
  obtains
    (run) "renameStatus t = Running \<or> renameStatus t = Idle" "renameInsts tid inp (t, g) = Inr (t', g')"
  | (unblocking) t1 g1 t2 g2 b where "renameStatus t = Unblocking" "renameInsts tid inp (t, g) = Inr (t1, g1)"
      "(t2, g2) = (t1, g1) \<or> skidInsert tid (t1, g1) = Inr (t2, g2)" "unblock (t2, g2) = (b, t', g')"
  | (idle) "renameStatus t \<notin> {Running, Idle, Unblocking}" "t' = t" "g' = g"
proof -
  consider "renameStatus t = Running \<or> renameStatus t = Idle" | "renameStatus t = Unblocking"
    | "renameStatus t \<notin> {Running, Idle, Unblocking}" by auto
  then show thesis
  proof cases
    case 1
    then show thesis using run assms by (auto simp: stage_rename_def bindE_eq_Inr)
  next
    case 2
    obtain t1 g1 n t2 g2 where r: "renameInsts tid inp (t, g) = Inr (t1, g1)"
      and s: "(if n \<noteq> (0 :: nat) then skidInsert tid (t1, g1) else Inr (t1, g1)) = Inr (t2, g2)"
      and u: "snd (unblock (t2, g2)) = (t', g')"
      using assms 2 by (fastforce simp: stage_rename_def bindE_eq_Inr Let_def split_def cong: if_cong)
    obtain b where "unblock (t2, g2) = (b, t', g')" using u by (metis prod.collapse)
    moreover have "(t2, g2) = (t1, g1) \<or> skidInsert tid (t1, g1) = Inr (t2, g2)" using s by (auto split: if_splits)
    ultimately show thesis using unblocking 2 r by blast
  next
    case 3
    then show thesis using idle assms by (auto simp: stage_rename_def)
  qed
qed

lemma renameInsts_flow:
  assumes "renameInsts tid inp (t, g) = Inr (t', g')" "thread_inv tid (t, g)"
    and "renameStatus t \<in> {Running, Idle, Unblocking}"
  shows "\<exists>out. flow (t, g) out (t', g') \<and> thread_inv tid (t', g') \<and>
    renameStatus t' \<in> {renameStatus t, Blocked, SerializeStall}"
proof -
  have inv: "\<forall>p \<in> set (pending t). p < length (inst_heap g)" "serializeInst t = None"
    "renameStatus t \<noteq> Unblocking \<longrightarrow> skidBuffer t = []"
    using assms(2,3) by (auto simp: thread_inv_def)
  have q: "\<forall>p \<in> set (insts_to_rename t). p < length (inst_heap g)"
    using inv(1) by (auto simp: insts_to_rename_def pending_def)
  show ?thesis
  proof (cases rule: renameInsts_cases [OF assms(1)])
    case 1
    then show ?thesis using assms(2) flow_refl by blast
  next
    case (2 c)
    note bf = block_flow [OF 2(2)]
    have "flow (t, g) [] (t, g\<lparr>blockThisCycle := True\<rparr>)" by (rule flow_silent) simp_all
    then have f: "flow (t, g) [] (t', g')" using flow_trans bf(1) by fastforce
    then show ?thesis using thread_inv_flow [OF assms(2) f] bf(2,3) inv(2) assms(3) by auto
  next
    case (3 g0 n0 t1 g1 a q' t2 g2 k)
    have f0: "flow (t, g) [] (t, g0)" and h0: "inst_heap g0 = inst_heap g" using 3(4) by (auto intro: flow_silent)
    note k1 = serialize_next_keeps [OF 3(5) q [folded h0]]
    have qo: "insts_to_rename t1 = insts_to_rename t" using k1(3-5) by (simp add: insts_to_rename_def)
    have "\<forall>p \<in> set (insts_to_rename t1). p < length (inst_heap g1)"
      using k1(1) q h0 unfolding qo by (simp add: flow_def same_heap_def)
    then obtain out where lf: "loop_flow (insts_to_rename t1) (t1, g1) out q' (t2, g2)"
      using rename_loop_flow [OF 3(6)] k1(2) inv(2) by auto
    have k2: "serializeInst t2 = None \<longrightarrow> renameStatus t2 = renameStatus t" "serializeInst t2 \<noteq> None \<longrightarrow> renameStatus t2 = SerializeStall"
      "skidBuffer t2 = skidBuffer t"
      using lf k1(4,5) by (auto simp: loop_flow_def split: if_splits)
    have lff: "flow (t1, g1) out (if renameStatus t = Unblocking then t2\<lparr>skidBuffer := q'\<rparr> else t2\<lparr>insts := q'\<rparr>, g2)"
      using loop_flow_flow [OF lf] k1(2,4,5) inv(2,3) by simp
    note ff = finish_renaming_flow [OF 3(7)]
    have f: "flow (t, g) out (t', g')"
      using flow_trans [OF f0 flow_trans [OF k1(1) flow_trans [OF lff ff(1)]]] by simp
    have "thread_inv tid (t', g')"
      using ff(2,3) k2 assms(3) inv(3) by (intro thread_inv_flow [OF assms(2) f]) (auto split: if_splits)
    moreover have "renameStatus t' \<in> {renameStatus t, Blocked, SerializeStall}"
      using ff(3) k2(1,2) by (auto split: if_splits)
    ultimately show ?thesis using f by blast
  qed
qed

lemma stage_rename_flow:
  assumes "stage_rename tid inp sc (t, g) = Inr (c, t', g')" "thread_inv tid (t, g)"
  shows "\<exists>out. flow (t, g) out (t', g') \<and> thread_inv tid (t', g')"
proof -
  have res: "\<not> resumeSerialize g" "\<not> resumeUnblocking g" using assms(2) by (simp_all add: thread_inv_def)
  show ?thesis
  proof (cases rule: stage_rename_cases [OF assms(1) res])
    case 1
    then show ?thesis using renameInsts_flow assms(2) by blast
  next
    case (2 t1 g1 t2 g2 b)
    obtain out where f: "flow (t, g) out (t1, g1)" "thread_inv tid (t1, g1)"
      "renameStatus t1 \<in> {Unblocking, Blocked, SerializeStall}"
      using renameInsts_flow [OF 2(2) assms(2)] 2(1) by auto
    note uf = unblock_flow [OF 2(4)]
    have s2: "flow (t1, g1) [] (t2, g2)" "renameStatus t2 = renameStatus t1" "serializeInst t2 = serializeInst t1"
      using 2(3) skidInsert_flow [of tid t1 g1 t2 g2] by (auto intro: flow_silent)
    have all: "flow (t, g) out (t', g')" using flow_trans [OF f(1) flow_trans [OF s2(1) uf(1)]] by simp
    have "thread_inv tid (t', g')"
      using f(2,3) s2(2,3) uf(2,3,5)
      by (intro thread_inv_flow [OF assms(2) all]) (auto simp: thread_inv_def split: if_splits)
    then show ?thesis using all by blast
  next
    case 3
    then show ?thesis using assms(2) flow_refl by blast
  qed
qed

text \<open>What the cycle of a thread, or of a set of threads, does to the shared state.\<close>

definition of_thread :: "DynInst list \<Rightarrow> nat \<Rightarrow> nat \<Rightarrow> bool" where
  "of_thread h tid p \<longleftrightarrow> p < length h \<and> threadNumber (h ! p) = tid"

definition thread_frame :: "nat set \<Rightarrow> rename_shared \<Rightarrow> rename_shared \<Rightarrow> bool" where
  "thread_frame A g g' \<longleftrightarrow> length (inst_heap g') = length (inst_heap g) \<and>
     (\<forall>p < length (inst_heap g). seqNum (inst_heap g' ! p) = seqNum (inst_heap g ! p) \<and>
        threadNumber (inst_heap g' ! p) = threadNumber (inst_heap g ! p) \<and>
        (threadNumber (inst_heap g ! p) \<notin> A \<longrightarrow> st_squashed (inst_heap g' ! p) = st_squashed (inst_heap g ! p))) \<and>
     fromDecode g' = fromDecode g \<and> resumeSerialize g' = resumeSerialize g \<and> resumeUnblocking g' = resumeUnblocking g \<and>
     skidBufferMax g' = skidBufferMax g \<and>
     (\<exists>out. toIEW g' = toIEW g @ out \<and> (\<forall>p \<in> set out. \<exists>tid \<in> A. of_thread (inst_heap g) tid p))"

lemma flow_frame:
  assumes "flow (t, g) out (t', g')" "thread_inv tid (t, g)"
  shows "thread_frame {tid} g g'"
  using assms unfolding flow_def thread_inv_def thread_frame_def prod.case same_heap_def same_inst_def of_thread_def
  by (intro conjI exI [of _ out]) auto

lemma mark_squashed_frame:
  assumes "foldE (mark_squashed n tid) ps (h, w) = Inr (h', w')"
  shows "length h' = length h \<and> (\<forall>p < length h. seqNum (h' ! p) = seqNum (h ! p) \<and>
    threadNumber (h' ! p) = threadNumber (h ! p) \<and> (threadNumber (h ! p) \<noteq> tid \<longrightarrow> st_squashed (h' ! p) = st_squashed (h ! p)))"
proof -
  let ?P = "\<lambda>a b :: DynInst list \<times> bool. length (fst b) = length (fst a) \<and>
    (\<forall>p < length (fst a). seqNum (fst b ! p) = seqNum (fst a ! p) \<and> threadNumber (fst b ! p) = threadNumber (fst a ! p) \<and>
      (threadNumber (fst a ! p) \<noteq> tid \<longrightarrow> st_squashed (fst b ! p) = st_squashed (fst a ! p)))"
  have "?P (h, w) (h', w')"
  proof (rule foldE_keeps [where P = ?P, OF _ _ _ assms])
    fix x s s' assume "mark_squashed n tid x s = Inr s'"
    then show "?P s s'" by (cases s) (auto simp: mark_squashed_def at_def bindE_eq_Inr nth_list_update split: if_splits)
  qed auto
  then show ?thesis by simp
qed

lemma stage_squash_frame:
  assumes "stage_squash n tid (t, g) = Inr (t', g')" "thread_inv tid (t, g)"
    and "\<forall>p. serializeInst t = Some p \<longrightarrow> n < seqNum (inst_heap g ! p)"
  shows "thread_frame {tid} g g'" "thread_inv tid (t', g')" "pending t' = []" "renameStatus t' = Squashing" "toIEW g' = toIEW g"
proof -
  obtain t1 g1 where 1: "squash_status n (t, g) = Inr (t1, g1)"
    using assms(1) by (auto simp: stage_squash_def bindE_eq_Inr)
  have inv: "serializeInst t \<noteq> None \<longleftrightarrow> renameStatus t = SerializeStall" "\<not> resumeSerialize g" "\<not> resumeUnblocking g"
    "\<forall>p. serializeInst t = Some p \<longrightarrow> p < length (inst_heap g)"
    using assms(2) by (auto simp: thread_inv_def pending_def)
  have g: "g\<lparr>resumeSerialize := False\<rparr> = g" using inv(2) by (cases g) simp
  consider "renameStatus t = Blocked \<or> renameStatus t = Unblocking" | p where "renameStatus t = SerializeStall" "serializeInst t = Some p"
    | "renameStatus t \<notin> {Blocked, Unblocking, SerializeStall}" using inv(1) by auto
  then have k: "serializeInst t1 = None \<and> g1 = g"
  proof cases
    case 2
    then show ?thesis using 1 g inv(4) assms(3) by (auto simp: squash_status_def)
  qed (use 1 g inv(1) in \<open>auto simp: squash_status_def\<close>)
  obtain h w r where h: "foldE (mark_squashed n tid) (fromDecode g) (inst_heap g, wroteToTimeBuffer g) = Inr (h, w)"
    and r: "t' = t1\<lparr>renameStatus := Squashing, insts := [], skidBuffer := []\<rparr>"
      "g' = g\<lparr>inst_heap := h, wroteToTimeBuffer := w, regs := r\<rparr>"
    using assms(1) 1 k by (auto simp: stage_squash_def bindE_eq_Inr Let_def)
  show "thread_frame {tid} g g'" using mark_squashed_frame [OF h] unfolding thread_frame_def r(2) by simp
  show "pending t' = []" "renameStatus t' = Squashing" "toIEW g' = toIEW g" using k by (simp_all add: r pending_def)
  then show "thread_inv tid (t', g')" using inv k by (simp add: thread_inv_def r)
qed

section \<open>Signals\<close>

text \<open>
  Conditions on the signals: the reorder buffer goes on squashing only a thread that this stage is
  squashing, and a squash comes from an instruction older than the one that waits in this stage to
  serialise. The second one excludes a branch of \<open>squash\<close> in the code: for any other squash the
  waiting instruction is kept and \<open>resumeSerialize\<close>, one flag for all threads, is set.
\<close>

definition signals_ok :: "stage_input \<Rightarrow> thread_state \<Rightarrow> bool" where
  "signals_ok inp = (\<lambda>(t, g).
     (robSquashing inp \<and> \<not> ci_squash inp \<longrightarrow> renameStatus t = Squashing) \<and>
     (ci_squash inp \<longrightarrow> (\<forall>p. serializeInst t = Some p \<longrightarrow> doneSeqNum inp < seqNum (inst_heap g ! p))))"

lemma squash_keeps_serialising:
  assumes "renameStatus t = SerializeStall" "serializeInst t = Some p" "p < length (inst_heap g)" "seqNum (inst_heap g ! p) \<le> n"
    and "stage_squash n tid (t, g) = Inr (t', g')"
  shows "pending t' = [p] \<and> renameStatus t' = Squashing \<and> resumeSerialize g'"
  using assms by (auto simp: stage_squash_def squash_status_def deref_def at_def bindE_eq_Inr Let_def pending_def)

lemma thread_inv_status:
  assumes "thread_inv tid (t, g)" "renameStatus x \<in> {Running, Idle, Squashing} \<longrightarrow> skidBuffer t = []"
    and "serializeInst t \<noteq> None \<longleftrightarrow> renameStatus x = SerializeStall"
    and "pending x = pending t" "skidBuffer x = skidBuffer t" "serializeInst x = serializeInst t" "renameStatus x \<noteq> StartSquash"
  shows "flow (t, g) [] (x, g) \<and> thread_inv tid (x, g)"
  using assms by (auto simp: flow_def thread_inv_def)

text \<open>The ways \<open>checkSignalsAndUpdate\<close> can go without a squash.\<close>

lemma checkSignals_cases:
  assumes "checkSignalsAndUpdate tid inp (t0, g) = Inr (c, t', g')" "readStallSignals inp (readFreeEntries inp t0) = Inr t"
    and "\<not> ci_squash inp" "\<not> resumeSerialize g" "\<not> resumeUnblocking g"
  obtains
    (rob) "robSquashing inp" "t' = t\<lparr>renameStatus := Squashing\<rparr>" "g' = g"
  | (stall) "checkStall inp t g" "block tid (t, g) = Inr (c, t', g')"
  | (unblock) b where "\<not> checkStall inp t g" "renameStatus t = Blocked" "unblock (t\<lparr>renameStatus := Unblocking\<rparr>, g) = (b, t', g')"
  | (squashed) "\<not> checkStall inp t g" "renameStatus t = Squashing" "t' = t\<lparr>renameStatus := Running\<rparr>" "g' = g"
  | (serialized) "\<not> checkStall inp t g" "renameStatus t = SerializeStall" "end_serialize (t, g) = Inr (t', g')"
  | (same) "\<not> checkStall inp t g" "renameStatus t \<notin> {Blocked, Squashing, SerializeStall}" "t' = t" "g' = g"
proof -
  have e: "(if robSquashing inp then Inr (True, t\<lparr>renameStatus := Squashing\<rparr>, g)
        else if checkStall inp t g then block tid (t, g)
        else if renameStatus t = Blocked then Inr (True, snd (unblock (t\<lparr>renameStatus := Unblocking\<rparr>, g)))
        else if renameStatus t = Squashing then Inr (False, t\<lparr>renameStatus := Running\<rparr>, g)
        else if renameStatus t = SerializeStall then bindE (end_serialize (t, g)) (\<lambda>tg. Inr (True, tg))
        else Inr (False, t, g)) = Inr (c, t', g')"
    using assms by (simp add: checkSignalsAndUpdate_def cong: if_cong)
  obtain b t1 g1 where u: "unblock (t\<lparr>renameStatus := Unblocking\<rparr>, g) = (b, t1, g1)" by (metis surj_pair)
  consider "robSquashing inp" | "\<not> robSquashing inp" "checkStall inp t g"
    | "\<not> robSquashing inp" "\<not> checkStall inp t g" "renameStatus t = Blocked"
    | "\<not> robSquashing inp" "\<not> checkStall inp t g" "renameStatus t = Squashing"
    | "\<not> robSquashing inp" "\<not> checkStall inp t g" "renameStatus t = SerializeStall"
    | "\<not> robSquashing inp" "\<not> checkStall inp t g" "renameStatus t \<notin> {Blocked, Squashing, SerializeStall}" by auto
  then show thesis
  proof cases
    case 1
    then show thesis using rob e by simp
  next
    case 2
    then show thesis using stall e by simp
  next
    case 3
    then have "t1 = t'" "g1 = g'" using e u by simp_all
    then show thesis using 3 u unblock by blast
  next
    case 4
    then show thesis using squashed e by simp
  next
    case 5
    then show thesis using serialized e by (auto simp: bindE_eq_Inr)
  next
    case 6
    then show thesis using same e by simp
  qed
qed

lemma checkSignalsAndUpdate_flow:
  assumes "checkSignalsAndUpdate tid inp (t0, g) = Inr (c, t', g')" "thread_inv tid (t0, g)" "signals_ok inp (t0, g)"
    and "\<not> ci_squash inp"
  shows "flow (t0, g) [] (t', g') \<and> thread_inv tid (t', g')"
proof -
  obtain t where rs: "readStallSignals inp (readFreeEntries inp t0) = Inr t"
    using assms(1) by (auto simp: checkSignalsAndUpdate_def bindE_eq_Inr Let_def)
  note k = readStallSignals_keeps [OF rs, simplified]
  have 0: "flow (t0, g) [] (t, g)" by (rule flow_silent) (simp_all add: k)
  have inv: "thread_inv tid (t, g)" using assms(2) k by (simp add: thread_inv_def)
  have st: "\<not> resumeSerialize g" "\<not> resumeUnblocking g" "serializeInst t \<noteq> None \<longleftrightarrow> renameStatus t = SerializeStall"
    using inv by (simp_all add: thread_inv_def)
  have "flow (t, g) [] (t', g') \<and> thread_inv tid (t', g')"
  proof (cases rule: checkSignals_cases [OF assms(1) rs assms(4) st(1,2)])
    case 1
    then have "renameStatus t = Squashing" using assms(3,4) k(2) by (simp add: signals_ok_def)
    then show ?thesis using 1 inv thread_inv_status [OF inv, of t'] st by (simp add: thread_inv_def)
  next
    case 2
    note bf = block_flow [OF 2(2)]
    show ?thesis using bf(1) thread_inv_flow [OF inv bf(1)] bf(2,3) st(3) by auto
  next
    case (3 b)
    note uf = unblock_flow [OF 3(3)]
    have "flow (t, g) [] (t\<lparr>renameStatus := Unblocking\<rparr>, g)" by (rule flow_silent) simp_all
    then have f: "flow (t, g) [] (t', g')" using flow_trans uf(1) by fastforce
    have n: "serializeInst t' = None" using uf(2) st(3) 3(2) by simp
    have s: "renameStatus t' = Unblocking \<or> renameStatus t' = Running \<and> skidBuffer t' = []"
      using uf(3,5) by (cases "skidBuffer t = []") simp_all
    show ?thesis using f thread_inv_flow [OF inv f] n s by fastforce
  next
    case 4
    then show ?thesis using thread_inv_status [OF inv, of t'] st(3) inv by (simp add: thread_inv_def)
  next
    case 5
    then obtain p where p: "serializeInst t = Some p" "p < length (inst_heap g)"
      using st(3) inv by (auto simp: thread_inv_def pending_def)
    note ef = end_serialize_flow [OF 5(3) p]
    show ?thesis using ef(1) thread_inv_flow [OF inv ef(1)] ef(2-4) by auto
  next
    case 6
    then show ?thesis using inv by simp
  qed
  then show ?thesis using flow_trans [OF 0] by fastforce
qed

text \<open>A thread that is unblocking has something in its skid buffer.\<close>

definition unblocking_ok :: "rename_thread \<Rightarrow> bool" where
  "unblocking_ok t \<longleftrightarrow> (renameStatus t = Unblocking \<longrightarrow> skidBuffer t \<noteq> [])"

lemma unblocking_ok_progress [simp]: "unblocking_ok (t\<lparr>instsInProgress := n\<rparr>) = unblocking_ok t"
  by (simp add: unblocking_ok_def)

lemma stage_rename_unblocking:
  assumes "stage_rename tid inp sc (t, g) = Inr (c, t', g')" "thread_inv tid (t, g)"
  shows "unblocking_ok t'"
proof -
  have res: "\<not> resumeSerialize g" "\<not> resumeUnblocking g" using assms(2) by (simp_all add: thread_inv_def)
  show ?thesis
  proof (cases rule: stage_rename_cases [OF assms(1) res])
    case 1
    then show ?thesis using renameInsts_flow [OF 1(2) assms(2)] by (auto simp: unblocking_ok_def)
  next
    case (2 t1 g1 t2 g2 b)
    then show ?thesis using unblock_flow(3,5) [OF 2(4)] by (auto simp: unblocking_ok_def split: if_splits)
  next
    case 3
    then show ?thesis by (auto simp: unblocking_ok_def)
  qed
qed

text \<open>The cycle of one thread, as it and the other threads see it.\<close>

definition cycle_ok :: "nat \<Rightarrow> stage_input \<Rightarrow> thread_state \<Rightarrow> thread_state \<Rightarrow> bool" where
  "cycle_ok tid inp = (\<lambda>(t, g) (t', g').
     thread_frame {tid} g g' \<and> thread_inv tid (t', g') \<and> unblocking_ok t' \<and>
     (if ci_squash inp then pending t' = [] \<and> renameStatus t' = Squashing \<and> toIEW g' = toIEW g
      else \<exists>out. flow (t, g) out (t', g')))"

lemma thread_cycle_ok:
  assumes "thread_cycle tid inp sc (t, g) = Inr (c, t', g')" "thread_inv tid (t, g)" "signals_ok inp (t, g)"
  shows "cycle_ok tid inp (t, g) (t', g')"
proof -
  obtain c1 t1 g1 where 1: "checkSignalsAndUpdate tid inp (t, g) = Inr (c1, t1, g1)"
    and 2: "stage_rename tid inp (c1 \<or> sc) (t1, g1) = Inr (c, t', g')"
    using assms(1) by (auto simp: thread_cycle_def bindE_eq_Inr)
  show ?thesis
  proof (cases "ci_squash inp")
    case True
    obtain t0 where rs: "readStallSignals inp (readFreeEntries inp t) = Inr t0"
      and sq: "stage_squash (doneSeqNum inp) tid (t0, g) = Inr (t1, g1)"
      using 1 True by (auto simp: checkSignalsAndUpdate_def bindE_eq_Inr Let_def)
    note k = readStallSignals_keeps [OF rs, simplified]
    have "thread_inv tid (t0, g)" using assms(2) k by (simp add: thread_inv_def)
    note sf = stage_squash_frame [OF sq this]
    have s: "\<forall>p. serializeInst t0 = Some p \<longrightarrow> doneSeqNum inp < seqNum (inst_heap g ! p)"
      using assms(3) True k(3) by (simp add: signals_ok_def)
    have "t' = t1" "g' = g1" using 2 sf(4) [OF s] by (auto simp: stage_rename_def)
    then show ?thesis using True sf [OF s] by (simp add: cycle_ok_def unblocking_ok_def)
  next
    case False
    note 3 = checkSignalsAndUpdate_flow [OF 1 assms(2,3) False]
    obtain out where f: "flow (t1, g1) out (t', g')" "thread_inv tid (t', g')"
      using stage_rename_flow [OF 2] 3 by blast
    then have "flow (t, g) out (t', g')" using flow_trans [of _ "[]" "(t1, g1)"] 3 by fastforce
    then show ?thesis
      using False f(2) flow_frame [OF _ assms(2)] stage_rename_unblocking [OF 2] 3 by (auto simp: cycle_ok_def)
  qed
qed

end
