(* ===== verification/O3_Stage_Tick.thy ===== *)
theory O3_Stage_Tick
  imports O3_Stage_Order
begin

text \<open>
  A cycle of the whole rename stage: the threads take their turns on the shared state, and none of
  them touches the instructions of another one.
\<close>

section \<open>Frames\<close>

lemma thread_frame_refl [simp]: "thread_frame A g g"
  by (simp add: thread_frame_def)

lemma of_thread_frame: "thread_frame A g g' \<Longrightarrow> of_thread (inst_heap g') tid p = of_thread (inst_heap g) tid p"
  by (auto simp: thread_frame_def of_thread_def)

lemma thread_frame_trans:
  assumes "thread_frame A g g1" "thread_frame B g1 g2"
  shows "thread_frame (A \<union> B) g g2"
proof -
  note f = assms(1) [unfolded thread_frame_def] and f2 = assms(2) [unfolded thread_frame_def]
  obtain o1 o2 where o: "toIEW g1 = toIEW g @ o1" "\<forall>p \<in> set o1. \<exists>tid \<in> A. of_thread (inst_heap g) tid p"
    "toIEW g2 = toIEW g1 @ o2" "\<forall>p \<in> set o2. \<exists>tid \<in> B. of_thread (inst_heap g1) tid p" using f f2 by blast
  have "\<forall>p \<in> set (o1 @ o2). \<exists>tid \<in> A \<union> B. of_thread (inst_heap g) tid p"
    using o(2,4) unfolding of_thread_frame [OF assms(1)] by auto
  then have "\<exists>out. toIEW g2 = toIEW g @ out \<and> (\<forall>p \<in> set out. \<exists>tid \<in> A \<union> B. of_thread (inst_heap g) tid p)"
    using o(1,3) by (intro exI [of _ "o1 @ o2"]) simp
  then show ?thesis unfolding thread_frame_def using f f2 by auto
qed

lemma live_frame:
  assumes "thread_frame A g g'" "tid \<notin> A" "of_thread (inst_heap g) tid p"
  shows "live (inst_heap g') p = live (inst_heap g) p"
  using assms by (auto simp: thread_frame_def of_thread_def live_def)

lemma thread_inv_frame:
  assumes "thread_frame A g g'" "thread_inv tid (t, g)"
  shows "thread_inv tid (t, g')"
  using assms by (auto simp: thread_frame_def thread_inv_def)

text \<open>The instructions of a thread among those that were sent on between two states.\<close>

definition sent :: "nat \<Rightarrow> rename_shared \<Rightarrow> rename_shared \<Rightarrow> nat list" where
  "sent tid g g' = filter (of_thread (inst_heap g) tid) (drop (length (toIEW g)) (toIEW g'))"

lemma sent_frame:
  assumes "thread_frame A g g1" "thread_frame B g1 g2"
  shows "sent tid g g2 = sent tid g g1 @ sent tid g1 g2"
proof -
  obtain o1 o2 where o: "toIEW g1 = toIEW g @ o1" "toIEW g2 = toIEW g1 @ o2" using assms by (auto simp: thread_frame_def)
  have "of_thread (inst_heap g1) tid = of_thread (inst_heap g) tid" using of_thread_frame [OF assms(1)] by blast
  then show ?thesis by (simp add: sent_def o)
qed

lemma sent_other:
  assumes "thread_frame A g g'" "tid \<notin> A"
  shows "sent tid g g' = []"
  using assms by (fastforce simp: thread_frame_def sent_def of_thread_def filter_empty_conv)

section \<open>The result of a cycle\<close>

definition cycle_result :: "nat \<Rightarrow> stage_input \<Rightarrow> thread_state \<Rightarrow> thread_state \<Rightarrow> bool" where
  "cycle_result tid inp = (\<lambda>(t, g) (t', g').
     unblocking_ok t' \<and> set (sent tid g g' @ pending t') \<subseteq> set (pending t) \<and>
     (if ci_squash inp then sent tid g g' = [] \<and> pending t' = []
      else filter (live (inst_heap g)) (sent tid g g' @ pending t') = filter (live (inst_heap g)) (pending t)))"

lemma cycle_ok_result:
  assumes "cycle_ok tid inp (t, g) (t', g')" "thread_inv tid (t, g)"
  shows "cycle_result tid inp (t, g) (t', g')"
proof (cases "ci_squash inp")
  case True
  then show ?thesis using assms(1) by (simp add: cycle_ok_def cycle_result_def sent_def)
next
  case False
  then obtain out where f: "flow (t, g) out (t', g')" using assms(1) by (auto simp: cycle_ok_def)
  then have "\<forall>p \<in> set out. of_thread (inst_heap g) tid p"
    using assms(2) by (auto simp: flow_def thread_inv_def of_thread_def)
  then have "filter (of_thread (inst_heap g) tid) out = out" by simp
  then have "sent tid g g' = out" using f by (simp add: sent_def flow_def)
  moreover have "unblocking_ok t'" using assms(1) by (simp add: cycle_ok_def)
  ultimately show ?thesis using f False unfolding cycle_result_def flow_def prod.case by metis
qed

lemma cycle_result_before:
  assumes "cycle_result tid inp (t, g) (t', g1)" "thread_frame A g g1" "thread_frame B g1 g2" "tid \<notin> B"
  shows "cycle_result tid inp (t, g) (t', g2)"
proof -
  have "sent tid g g2 = sent tid g g1" using sent_frame [OF assms(2,3)] sent_other [OF assms(3,4)] by simp
  then show ?thesis using assms(1) unfolding cycle_result_def prod.case by metis
qed

lemma cycle_result_after:
  assumes "cycle_result tid inp (t, g1) (t', g2)" "thread_frame A g g1" "thread_frame B g1 g2" "tid \<notin> A" "thread_inv tid (t, g)"
  shows "cycle_result tid inp (t, g) (t', g2)"
proof -
  have s: "sent tid g g2 = sent tid g1 g2" using sent_frame [OF assms(2,3)] sent_other [OF assms(2,4)] by simp
  have l: "filter (live (inst_heap g1)) xs = filter (live (inst_heap g)) xs" if "set xs \<subseteq> set (pending t)" for xs
  proof (rule filter_cong)
    fix p assume "p \<in> set xs"
    then have "of_thread (inst_heap g) tid p" using that assms(5) by (auto simp: thread_inv_def of_thread_def)
    then show "live (inst_heap g1) p = live (inst_heap g) p" by (rule live_frame [OF assms(2,4)])
  qed simp
  note c = assms(1) [unfolded cycle_result_def prod.case]
  show ?thesis
    using c l [of "sent tid g1 g2 @ pending t'"] l [of "pending t"]
    unfolding cycle_result_def prod.case s by (simp split: if_splits)
qed

section \<open>All threads\<close>

lemma tick_thread_step:
  assumes "tick_thread inps a (c, ts, g) = Inr s"
  obtains c1 t1 g1 where "a < length ts" "a < length inps" "s = (c1, ts[a := t1], g1)"
    "thread_cycle a (inps ! a) c (ts ! a, g) = Inr (c1, t1, g1)"
  using assms by (auto simp: tick_thread_def at_def bindE_eq_Inr split: if_splits)

lemma signals_ok_frame:
  assumes "signals_ok inp (t, g)" "thread_inv tid (t, g)" "thread_frame A g g'"
  shows "signals_ok inp (t, g')"
proof -
  have "\<forall>p. serializeInst t = Some p \<longrightarrow> p < length (inst_heap g)" using assms(2) by (auto simp: thread_inv_def pending_def)
  then show ?thesis using assms(1,3) by (auto simp: signals_ok_def thread_frame_def)
qed

lemma tick_threads_ok:
  assumes "foldE (tick_thread inps) as (c, ts, g) = Inr (c', ts', g')" "distinct as" "set as \<subseteq> {..<length ts}"
    and "\<forall>tid < length ts. thread_inv tid (ts ! tid, g)" "\<forall>tid \<in> set as. signals_ok (inps ! tid) (ts ! tid, g)"
  shows "thread_frame (set as) g g' \<and> length ts' = length ts \<and> (\<forall>tid < length ts. thread_inv tid (ts' ! tid, g')) \<and>
    (\<forall>tid. tid \<notin> set as \<longrightarrow> ts' ! tid = ts ! tid) \<and>
    (\<forall>tid \<in> set as. cycle_result tid (inps ! tid) (ts ! tid, g) (ts' ! tid, g'))"
  using assms
proof (induction as arbitrary: c ts g)
  case (Cons a as)
  obtain s where s: "tick_thread inps a (c, ts, g) = Inr s" "foldE (tick_thread inps) as s = Inr (c', ts', g')"
    using Cons.prems(1) by (auto simp: bindE_eq_Inr)
  obtain c1 t1 g1 where a: "a < length ts" and cyc: "thread_cycle a (inps ! a) c (ts ! a, g) = Inr (c1, t1, g1)"
    and s1: "s = (c1, ts[a := t1], g1)" using tick_thread_step [OF s(1)] by metis
  let ?ts = "ts[a := t1]"
  have inva: "thread_inv a (ts ! a, g)" using Cons.prems(4) a by blast
  have ok: "cycle_ok a (inps ! a) (ts ! a, g) (t1, g1)" using thread_cycle_ok [OF cyc inva] Cons.prems(5) by simp
  have fr: "thread_frame {a} g g1" and inv1: "thread_inv a (t1, g1)" using ok by (simp_all add: cycle_ok_def)
  have "thread_inv x (?ts ! x, g1)" if "x < length ?ts" for x
    using that Cons.prems(4) inv1 thread_inv_frame [OF fr] by (cases "x = a") simp_all
  then have invs: "\<forall>tid < length ?ts. thread_inv tid (?ts ! tid, g1)" by blast
  have other: "?ts ! x = ts ! x" if "x \<noteq> a" for x using that by simp
  have "signals_ok (inps ! x) (?ts ! x, g1)" if "x \<in> set as" for x
    using that Cons.prems(2-5) other signals_ok_frame [OF _ _ fr] by (metis distinct.simps(2) lessThan_iff list.set_intros(2) subsetD)
  then have IH: "thread_frame (set as) g1 g'" "length ts' = length ts" "\<forall>tid < length ts. thread_inv tid (ts' ! tid, g')"
    "\<forall>tid. tid \<notin> set as \<longrightarrow> ts' ! tid = ?ts ! tid"
    "\<forall>tid \<in> set as. cycle_result tid (inps ! tid) (?ts ! tid, g1) (ts' ! tid, g')"
    using Cons.IH [OF s(2) [unfolded s1] _ _ invs] Cons.prems(2,3) by auto
  have "cycle_result a (inps ! a) (ts ! a, g) (ts' ! a, g')"
    using cycle_result_before [OF cycle_ok_result [OF ok inva] fr IH(1)] IH(4) Cons.prems(2) a by simp
  moreover have "cycle_result x (inps ! x) (ts ! x, g) (ts' ! x, g')" if "x \<in> set as" for x
  proof -
    have x: "x \<noteq> a" "x < length ts" using that Cons.prems(2,3) by auto
    then show ?thesis
      using cycle_result_after [OF _ fr IH(1)] IH(5) that Cons.prems(4) other by (metis singletonD)
  qed
  ultimately have "\<forall>x \<in> set (a # as). cycle_result x (inps ! x) (ts ! x, g) (ts' ! x, g')" by simp
  moreover have "thread_frame (set (a # as)) g g'" using thread_frame_trans [OF fr IH(1)] by simp
  moreover have "\<forall>x. x \<notin> set (a # as) \<longrightarrow> ts' ! x = ts ! x" using IH(4) other by simp
  ultimately show ?case using IH(2,3) by blast
qed simp

section \<open>Sorting the input\<close>

lemma sort_fold:
  assumes "foldE (sort_inst h) ps ts = Inr ts'"
  shows "length ts' = length ts \<and>
    (\<forall>tid < length ts. ts' ! tid = (ts ! tid)\<lparr>insts := insts (ts ! tid) @ filter (of_thread h tid) ps\<rparr>)"
  using assms
proof (induction ps arbitrary: ts)
  case (Cons p ps)
  let ?x = "threadNumber (h ! p)"
  let ?ts = "ts[?x := (ts ! ?x)\<lparr>insts := insts (ts ! ?x) @ [p]\<rparr>]"
  obtain ts1 where s1: "sort_inst h p ts = Inr ts1" "foldE (sort_inst h) ps ts1 = Inr ts'"
    using Cons.prems by (auto simp: bindE_eq_Inr)
  then have p: "p < length h" "?x < length ts" "ts1 = ?ts"
    by (auto simp: sort_inst_def at_def bindE_eq_Inr split: if_splits)
  note p3 = s1(2) [unfolded p(3)]
  have "of_thread h tid p = (?x = tid)" for tid using p(1) by (simp add: of_thread_def)
  then have "ts' ! tid = (ts ! tid)\<lparr>insts := insts (ts ! tid) @ filter (of_thread h tid) (p # ps)\<rparr>" if "tid < length ts" for tid
    using Cons.IH [OF p3] that by (simp add: nth_list_update)
  then show ?case using Cons.IH [OF p3] by simp
qed simp

section \<open>The cycle of the stage\<close>

definition stage_inv :: "rename_stage \<Rightarrow> bool" where
  "stage_inv st \<longleftrightarrow> distinct (activeThreads st) \<and> set (activeThreads st) \<subseteq> {..<length (threads st)} \<and>
     (\<forall>tid < length (threads st). unblocking_ok (threads st ! tid) \<and> thread_inv tid (threads st ! tid, shared st))"

lemma progress_fold:
  assumes "foldE (progress_thread inps) xs ts = Inr ts'"
  shows "length ts' = length ts \<and> (\<forall>k < length ts. \<exists>n. ts' ! k = (ts ! k)\<lparr>instsInProgress := n\<rparr>)"
  using assms
proof (induction xs arbitrary: ts)
  case (Cons x xs)
  obtain ts1 where s1: "progress_thread inps x ts = Inr ts1" "foldE (progress_thread inps) xs ts1 = Inr ts'"
    using Cons.prems by (auto simp: bindE_eq_Inr)
  obtain n where n: "ts1 = ts[x := (ts ! x)\<lparr>instsInProgress := n\<rparr>]"
    using s1(1) by (auto simp: progress_thread_def at_def bindE_eq_Inr Let_def split: if_splits)
  have "\<exists>m. ts' ! k = (ts ! k)\<lparr>instsInProgress := m\<rparr>" if "k < length ts" for k
    using Cons.IH [OF s1(2)] that unfolding n by (cases "k = x") fastforce+
  then show ?case using Cons.IH [OF s1(2)] n by simp
next
  case Nil
  have "\<exists>n. t = t\<lparr>instsInProgress := n\<rparr>" for t :: rename_thread by (rule exI [of _ "instsInProgress t"]) simp
  then show ?case using Nil by simp
qed

lemma thread_inv_progress: "thread_inv tid (t\<lparr>instsInProgress := n\<rparr>, g\<lparr>regs := r\<rparr>) = thread_inv tid (t, g)"
  by (simp add: thread_inv_def)

text \<open>The state of a thread when its turn comes: the signals are clear and its input is in its queue.\<close>

definition fed :: "DynInst list \<Rightarrow> nat list \<Rightarrow> nat \<Rightarrow> rename_thread \<Rightarrow> rename_thread" where
  "fed h dec tid t = (clear_signals t)\<lparr>insts := insts t @ filter (of_thread h tid) dec\<rparr>"

lemma fed_simps [simp]:
  "pending (fed h dec tid t) = pending t @ filter (of_thread h tid) dec" "renameStatus (fed h dec tid t) = renameStatus t"
  "serializeInst (fed h dec tid t) = serializeInst t" "skidBuffer (fed h dec tid t) = skidBuffer t"
  by (simp_all add: fed_def clear_signals_def pending_def)

definition new_slot :: "nat list \<Rightarrow> rename_shared \<Rightarrow> rename_shared" where
  "new_slot dec g = g\<lparr>fromDecode := dec, toIEW := [], wroteToTimeBuffer := False, blockThisCycle := False\<rparr>"

lemma new_slot_simps [simp]:
  "inst_heap (new_slot dec g) = inst_heap g" "toIEW (new_slot dec g) = []" "regs (new_slot dec g) = regs g"
  "fromDecode (new_slot dec g) = dec" "resumeSerialize (new_slot dec g) = resumeSerialize g"
  "resumeUnblocking (new_slot dec g) = resumeUnblocking g" "skidBufferMax (new_slot dec g) = skidBufferMax g"
  "renameWidth (new_slot dec g) = renameWidth g"
  by (simp_all add: new_slot_def)

lemma thread_inv_fed:
  assumes "thread_inv tid (t, g)"
  shows "thread_inv tid (fed (inst_heap g) dec tid t, new_slot dec g)"
  using assms by (auto simp: thread_inv_def of_thread_def)

lemma stage_tick_parts:
  assumes "stage_tick inps dec st = Inr st'"
  obtains ts c ts1 g1 status r ts2 where
    "length ts = length (threads st)"
    "\<forall>tid < length (threads st). ts ! tid = fed (inst_heap (shared st)) dec tid (threads st ! tid)"
    "foldE (tick_thread inps) (activeThreads st) (False, ts, new_slot dec (shared st)) = Inr (c, ts1, g1)"
    "foldE (commit_thread inps ts1) (activeThreads st) (regs g1) = Inr r"
    "foldE (progress_thread inps) [0..<length ts1] ts1 = Inr ts2"
    "st' = \<lparr>rs_status = status, threads = ts2, shared = g1\<lparr>regs := r\<rparr>, activeThreads = activeThreads st\<rparr>"
proof -
  let ?g = "new_slot dec (shared st)"
  obtain ts c ts1 g1 status r ts2 where s: "sortInsts ?g (map clear_signals (threads st)) = Inr ts"
    and t: "foldE (tick_thread inps) (activeThreads st) (False, ts, ?g) = Inr (c, ts1, g1)"
    "foldE (commit_thread inps ts1) (activeThreads st) (regs g1) = Inr r"
    "foldE (progress_thread inps) [0..<length ts1] ts1 = Inr ts2"
    "st' = \<lparr>rs_status = status, threads = ts2, shared = g1\<lparr>regs := r\<rparr>, activeThreads = activeThreads st\<rparr>"
    using assms unfolding stage_tick_def Let_def new_slot_def by (auto simp: bindE_eq_Inr)
  note sf = sort_fold [OF s [unfolded sortInsts_def]]
  show thesis
    using that [OF _ _ t] sf by (simp add: fed_def clear_signals_def)
qed

lemma stage_tick_ok:
  assumes "stage_inv st" "stage_tick inps dec st = Inr st'"
    and "\<forall>tid \<in> set (activeThreads st). signals_ok (inps ! tid) (threads st ! tid, shared st)"
  shows "stage_inv st'" "\<forall>tid \<in> set (activeThreads st). cycle_result tid (inps ! tid)
    (fed (inst_heap (shared st)) dec tid (threads st ! tid), new_slot dec (shared st)) (threads st' ! tid, shared st')"
proof -
  let ?g = "new_slot dec (shared st)" and ?n = "length (threads st)"
  obtain ts c ts1 g1 status r ts2 where
    ts: "length ts = ?n" "\<forall>tid < ?n. ts ! tid = fed (inst_heap (shared st)) dec tid (threads st ! tid)"
    and ft: "foldE (tick_thread inps) (activeThreads st) (False, ts, ?g) = Inr (c, ts1, g1)"
    and fp: "foldE (progress_thread inps) [0..<length ts1] ts1 = Inr ts2"
    and st': "st' = \<lparr>rs_status = status, threads = ts2, shared = g1\<lparr>regs := r\<rparr>, activeThreads = activeThreads st\<rparr>"
    by (rule stage_tick_parts [OF assms(2)])
  have act: "distinct (activeThreads st)" "set (activeThreads st) \<subseteq> {..<?n}" using assms(1) by (simp_all add: stage_inv_def)
  have inv: "\<forall>tid < length ts. thread_inv tid (ts ! tid, ?g)"
    using assms(1) ts thread_inv_fed by (simp add: stage_inv_def)
  have sig: "\<forall>tid \<in> set (activeThreads st). signals_ok (inps ! tid) (ts ! tid, ?g)"
    using assms(3) ts(2) act(2) by (auto simp: signals_ok_def)
  note k = tick_threads_ok [OF ft act(1) _ inv sig]
  note pf = progress_fold [OF fp]
  have len: "length ts1 = ?n" "length ts2 = ?n" using k pf act(2) ts(1) by auto
  have "unblocking_ok (ts2 ! tid) \<and> thread_inv tid (ts2 ! tid, g1\<lparr>regs := r\<rparr>)" if "tid < ?n" for tid
  proof -
    have "thread_inv tid (ts1 ! tid, g1)" using k that act(2) ts(1) by auto
    moreover have "unblocking_ok (ts1 ! tid)"
    proof (cases "tid \<in> set (activeThreads st)")
      case True
      then have "cycle_result tid (inps ! tid) (ts ! tid, ?g) (ts1 ! tid, g1)" using k act(2) ts(1) by auto
      then show ?thesis by (simp add: cycle_result_def)
    next
      case False
      then have "ts1 ! tid = fed (inst_heap (shared st)) dec tid (threads st ! tid)" using k act(2) ts that by auto
      then show ?thesis using assms(1) that by (simp add: stage_inv_def unblocking_ok_def)
    qed
    ultimately show ?thesis using pf that len(1) thread_inv_progress unblocking_ok_progress by metis
  qed
  then show "stage_inv st'" using act len by (simp add: stage_inv_def st')
  have "cycle_result tid (inps ! tid) (fed (inst_heap (shared st)) dec tid (threads st ! tid), ?g) (ts2 ! tid, g1\<lparr>regs := r\<rparr>)"
    if "tid \<in> set (activeThreads st)" for tid
  proof -
    have tid: "tid < ?n" using that act(2) by auto
    have "cycle_result tid (inps ! tid) (ts ! tid, ?g) (ts1 ! tid, g1)" using k that act(2) ts(1) by auto
    moreover obtain n where "ts2 ! tid = (ts1 ! tid)\<lparr>instsInProgress := n\<rparr>" using pf tid len(1) by auto
    moreover have "sent tid ?g (g1\<lparr>regs := r\<rparr>) = sent tid ?g g1" by (simp add: sent_def)
    ultimately show ?thesis using ts(2) tid unfolding cycle_result_def prod.case by (metis pending_status(8) unblocking_ok_progress)
  qed
  then show "\<forall>tid \<in> set (activeThreads st). cycle_result tid (inps ! tid)
    (fed (inst_heap (shared st)) dec tid (threads st ! tid), ?g) (threads st' ! tid, shared st')" by (simp add: st')
qed

text \<open>
  An example: the first of three instructions is sent on, the second serialises, and the third waits
  behind it in the skid buffer.
\<close>

definition stage_demo_inst :: "nat \<Rightarrow> bool \<Rightarrow> DynInst" where
  "stage_demo_inst n b = \<lparr>seqNum = n, threadNumber = 0, si_srcRegs = [], si_destRegs = [], si_iprAccess = False,
     si_serializeBefore = b, si_serializeAfter = False, si_storeConditional = False, flatDestRegIdx = [], destRegIdx = [],
     srcRegIdx = [], prevDestRegIdx = [], readySrcRegIdx = [], readyRegs = 0, canIssue = False, st_serializeBefore = False,
     st_serializeAfter = False, st_serializeHandled = False, st_squashed = False\<rparr>"

definition stage_demo_input :: stage_input where
  "stage_demo_input = \<lparr>iewBlock = False, iewUnblock = False, usedIQ = True, freeIQEntries = 8, usedLSQ = True,
     freeLSQEntries = 8, dispatched = 0, dispatchedToLSQ = 0, commitBlock = False, commitUnblock = False, ci_squash = False,
     robSquashing = False, doneSeqNum = 0, usedROB = True, freeROBEntries = 8, ci_emptyROB = False\<rparr>"

definition stage_demo :: "rename_regs \<Rightarrow> rename_stage" where
  "stage_demo r = (initStage [\<lparr>iqEntries = 8, lsqEntries = 8, robEntries = 8\<rparr>]
     (DefaultRename_ctor 1 4 1 4 (map (\<lambda>n. stage_demo_inst n (n = 2)) [1, 2, 3]) r))\<lparr>activeThreads := [0]\<rparr>"

lemmas stage_eval =
  stage_demo_def initStage_def DefaultRename_ctor_def new_rename_thread_def stage_demo_inst_def stage_demo_input_def skid_max_def
  stage_tick_def clear_signals_def sortInsts_def sort_inst_def tick_thread_def thread_cycle_def checkSignalsAndUpdate_def
  readFreeEntries_def readStallSignals_def checkStall_def calcFreeROBEntries_def calcFreeIQEntries_def
  calcFreeLSQEntries_def stage_rename_def renameInsts_def insts_to_rename_def min_free_entries_def serialize_next_def
  needs_serialize_before_def needs_serialize_after_def set_handled_def rename_inst_def renameSrcRegs_def
  renameDestRegs_def finish_renaming_def block_def skidInsert_def check_thread_def updateStatus_def commit_thread_def
  progress_thread_def at_def Let_def numeral_eq_Suc

lemma stage_demo_tick:
  assumes "0 < numFreeEntries (rr_freeList r)"
  obtains st' where "stage_tick [stage_demo_input] [0, 1, 2] (stage_demo r) = Inr st'" "toIEW (shared st') = [0]"
    "serializeInst (threads st' ! 0) = Some 1" "skidBuffer (threads st' ! 0) = [2]" "insts (threads st' ! 0) = []"
proof -
  let ?x = "stage_tick [stage_demo_input] [0, 1, 2] (stage_demo r)"
  have "\<exists>st'. ?x = Inr st' \<and> toIEW (shared st') = [0] \<and> serializeInst (threads st' ! 0) = Some 1 \<and>
      skidBuffer (threads st' ! 0) = [2] \<and> insts (threads st' ! 0) = []"
    using assms by (simp add: stage_eval)
  then show thesis using that by blast
qed

definition stage_demo_regs :: rename_regs where
  "stage_demo_regs = \<lparr>rr_freeList = \<lparr>freeIntRegs = [40, 41], freeFloatRegs = [96, 97], fl_numLogicalIntRegs = 40,
       fl_numPhysicalIntRegs = 64, fl_numLogicalFloatRegs = 32, fl_numPhysicalFloatRegs = 64, fl_numPhysicalRegs = 128\<rparr>,
     renameMap = [], commitRenameMap = [],
     scoreboard = \<lparr>regScoreBoard = [], sb_numPhysicalIntRegs = 64, zeroRegIdx = 31, currentSize = 0\<rparr>,
     historyBuffer = [[]], maxPhysicalRegs = 128\<rparr>"

lemma stage_demo_inv: "stage_inv (stage_demo r)" "activeThreads (stage_demo r) = [0]"
  "signals_ok stage_demo_input (threads (stage_demo r) ! 0, shared (stage_demo r))"
  by (simp_all add: stage_inv_def thread_inv_def unblocking_ok_def signals_ok_def pending_def stage_eval)

section \<open>Properties\<close>

text \<open>
  (C21) The rename stage keeps the order of the program. Take a cycle in which the reorder buffer goes on
  squashing only a thread that was told to squash, and a squash of a thread comes from an instruction older
  than the one, if any, that waits there to serialise (\<open>signals_ok\<close>; with another squash that instruction would be
  kept, \<open>squash_keeps_serialising\<close>). Whatever the stalls and the serialising instructions, a thread that is not squashed sends on the oldest of the instructions
  that it holds and that decode sends it, in their order, and holds the others: none is lost, none
  is doubled, none overtakes an older one; those already squashed are the only ones that may
  disappear. A thread that is squashed holds and sends nothing. The invariant of the stage, that
  instructions wait in the skid buffer only while the stage is blocked, is kept.
\<close>

theorem rename_stage_order:
  assumes "stage_inv st" "stage_tick inps dec st = Inr st'"
    and "\<forall>tid \<in> set (activeThreads st). signals_ok (inps ! tid) (threads st ! tid, shared st)"
  defines "h \<equiv> inst_heap (shared st)"
  shows "stage_inv st' \<and> (\<forall>tid \<in> set (activeThreads st).
    let out = filter (of_thread h tid) (toIEW (shared st')); t' = threads st' ! tid
    in if ci_squash (inps ! tid) then out = [] \<and> pending t' = []
       else filter (live h) (out @ pending t') =
            filter (live h) (pending (threads st ! tid) @ filter (of_thread h tid) dec))"
proof -
  have "sent tid (new_slot dec (shared st)) (shared st') = filter (of_thread h tid) (toIEW (shared st'))" for tid
    by (simp add: sent_def h_def)
  then show ?thesis
    using stage_tick_ok [OF assms(1-3)] unfolding cycle_result_def prod.case h_def Let_def
    by (metis fed_simps(1) new_slot_simps(1))
qed

theorem rename_stage_order_witness:
  "\<exists>st'. stage_tick [stage_demo_input] [0, 1, 2] (stage_demo stage_demo_regs) = Inr st' \<and> stage_inv st' \<and>
    toIEW (shared st') = [0] \<and> pending (threads st' ! 0) = [1, 2] \<and>
    filter (live (inst_heap (shared (stage_demo stage_demo_regs))))
      (filter (of_thread (inst_heap (shared (stage_demo stage_demo_regs))) 0) [0] @ [1, 2]) =
    filter (live (inst_heap (shared (stage_demo stage_demo_regs))))
      (pending (threads (stage_demo stage_demo_regs) ! 0) @
       filter (of_thread (inst_heap (shared (stage_demo stage_demo_regs))) 0) [0, 1, 2])"
proof -
  let ?st = "stage_demo stage_demo_regs"
  obtain st' where t: "stage_tick [stage_demo_input] [0, 1, 2] ?st = Inr st'" "toIEW (shared st') = [0]"
    "serializeInst (threads st' ! 0) = Some 1" "skidBuffer (threads st' ! 0) = [2]" "insts (threads st' ! 0) = []"
    by (rule stage_demo_tick [of stage_demo_regs]) (simp_all add: stage_demo_regs_def numFreeEntries_def numFreeIntRegs_def numFreeFloatRegs_def)
  have p: "pending (threads st' ! 0) = [1, 2]" using t(3-5) by (simp add: pending_def)
  have "\<forall>tid \<in> set (activeThreads ?st). signals_ok ([stage_demo_input] ! tid) (threads ?st ! tid, shared ?st)"
    using stage_demo_inv by simp
  from rename_stage_order [OF stage_demo_inv(1) t(1) this]
  show ?thesis using t(1,2) p stage_demo_inv(2) by (simp add: stage_demo_input_def Let_def)
qed

end
