(* ===== verification/O3_Rename_Run.thy ===== *)
theory O3_Rename_Run
  imports O3_Rename
begin

text \<open>
  The invariant of the register renaming and what each operation does to it: where every physical
  register is (free, mapped, or kept for a rename that may be undone), the effect of renaming an
  instruction, of a squash and of a commit, and the instructions in flight that belong to the
  history of a thread.
\<close>

section \<open>Well-formed states\<close>

definition thread_ok :: "int \<Rightarrow> int \<Rightarrow> SimpleRenameMap \<Rightarrow> RenameHistory list \<Rightarrow> bool" where
  "thread_ok pint pfloat m h \<longleftrightarrow> map_wf pint pfloat m \<and> hist_ok pint pfloat (phys_of m) h \<and>
     sorted_wrt (\<lambda>a b. instSeqNum b \<le> instSeqNum a) h"

definition rr_wf :: "int \<Rightarrow> int \<Rightarrow> rename_regs \<Rightarrow> bool" where
  "rr_wf pint pfloat s \<longleftrightarrow> o3_geometry pint pfloat \<and> fl_wf pint pfloat (rr_freeList s) \<and>
     sb_wf pint pfloat (scoreboard s) \<and> maxPhysicalRegs s = pint + pfloat \<and>
     length (historyBuffer s) = length (renameMap s) \<and>
     (\<forall>t < length (renameMap s). thread_ok pint pfloat (renameMap s ! t) (historyBuffer s ! t)) \<and>
     (renameMap s \<noteq> [] \<longrightarrow> phys_of (renameMap s ! 0) 31 = 31)"

text \<open>Every physical register that is free, mapped, or kept for a rename that may be undone.\<close>

definition held_regs :: "rename_regs \<Rightarrow> int multiset" where
  "held_regs s = (\<Sum>m\<leftarrow>renameMap s. regs_of (phys_of m)) + (\<Sum>h\<leftarrow>historyBuffer s. prev_regs h)"

definition all_regs :: "rename_regs \<Rightarrow> int multiset" where
  "all_regs s = free_regs (rr_freeList s) + held_regs s"

lemma sum_list_update_exchange:
  fixes f :: "'a \<Rightarrow> 'b::comm_monoid_add"
  assumes "i < length xs"
  shows "(\<Sum>x\<leftarrow>xs[i := y]. f x) + f (xs ! i) = (\<Sum>x\<leftarrow>xs. f x) + f y"
  using assms
proof (induction xs arbitrary: i)
  case (Cons x xs)
  show ?case
  proof (cases i)
    case (Suc j)
    then show ?thesis using Cons.IH [of j] Cons.prems by (simp add: add.assoc)
  qed (simp add: ac_simps)
qed simp

lemma exchange_both:
  fixes F G L M H X Y a b c d :: "'a multiset"
  assumes "M + a = X + c" "H + b = Y + d" "F + c + d + L = G + a + b"
  shows "F + (M + H) + L = G + (X + Y)"
proof (rule multiset_eqI)
  fix z
  have "count (M + a) z = count (X + c) z" "count (H + b) z = count (Y + d) z"
    "count (F + c + d + L) z = count (G + a + b) z" using assms by simp_all
  then show "count (F + (M + H) + L) z = count (G + (X + Y)) z" by simp
qed

lemma sum_list_nth_subset: "i < length xs \<Longrightarrow> f (xs ! i) \<subseteq># (\<Sum>x\<leftarrow>xs. f x)"
proof (induction xs arbitrary: i)
  case (Cons x xs)
  then show ?case by (cases i) (auto intro: subset_mset.add_increasing)
qed simp

text \<open>Replacing the map and the history of one thread.\<close>

definition put_thread :: "nat \<Rightarrow> SimpleFreeList \<Rightarrow> Scoreboard \<Rightarrow> SimpleRenameMap \<Rightarrow> RenameHistory list \<Rightarrow>
    rename_regs \<Rightarrow> rename_regs" where
  "put_thread tid fl sb m h s =
     s\<lparr>rr_freeList := fl, renameMap := (renameMap s)[tid := m], scoreboard := sb,
       historyBuffer := (historyBuffer s)[tid := h]\<rparr>"

lemma put_thread_simps [simp]:
  "rr_freeList (put_thread tid fl sb m h s) = fl"
  "scoreboard (put_thread tid fl sb m h s) = sb"
  "renameMap (put_thread tid fl sb m h s) = (renameMap s)[tid := m]"
  "historyBuffer (put_thread tid fl sb m h s) = (historyBuffer s)[tid := h]"
  "maxPhysicalRegs (put_thread tid fl sb m h s) = maxPhysicalRegs s"
  by (simp_all add: put_thread_def)

lemma put_thread_wf:
  assumes "rr_wf pint pfloat s" "tid < length (renameMap s)" "fl_wf pint pfloat fl" "sb_wf pint pfloat sb"
    and "thread_ok pint pfloat m h" "tid = 0 \<longrightarrow> phys_of m 31 = 31"
  shows "rr_wf pint pfloat (put_thread tid fl sb m h s)"
  using assms by (auto simp: rr_wf_def nth_list_update)

lemma put_thread_regs:
  assumes "tid < length (renameMap s)" "length (historyBuffer s) = length (renameMap s)"
    and "free_regs fl + regs_of (phys_of m) + prev_regs h + lost =
      free_regs (rr_freeList s) + regs_of (phys_of (renameMap s ! tid)) + prev_regs (historyBuffer s ! tid)"
  shows "all_regs (put_thread tid fl sb m h s) + lost = all_regs s"
proof -
  let ?M = "\<Sum>m\<leftarrow>(renameMap s)[tid := m]. regs_of (phys_of m)"
  let ?H = "\<Sum>h\<leftarrow>(historyBuffer s)[tid := h]. prev_regs h"
  have M: "?M + regs_of (phys_of (renameMap s ! tid)) = (\<Sum>m\<leftarrow>renameMap s. regs_of (phys_of m)) + regs_of (phys_of m)"
    by (rule sum_list_update_exchange) fact
  have H: "?H + prev_regs (historyBuffer s ! tid) = (\<Sum>h\<leftarrow>historyBuffer s. prev_regs h) + prev_regs h"
    by (rule sum_list_update_exchange) (use assms in simp)
  show ?thesis
    using exchange_both [OF M H assms(3)] by (simp add: all_regs_def held_regs_def)
qed

lemma rr_wf_thread:
  assumes "rr_wf pint pfloat s" "tid < length (renameMap s)"
  shows "o3_geometry pint pfloat" "fl_wf pint pfloat (rr_freeList s)" "sb_wf pint pfloat (scoreboard s)"
    "maxPhysicalRegs s = pint + pfloat" "length (historyBuffer s) = length (renameMap s)"
    "map_wf pint pfloat (renameMap s ! tid)"
    "hist_ok pint pfloat (phys_of (renameMap s ! tid)) (historyBuffer s ! tid)"
    "sorted_wrt (\<lambda>a b. instSeqNum b \<le> instSeqNum a) (historyBuffer s ! tid)"
    "tid = 0 \<longrightarrow> phys_of (renameMap s ! tid) 31 = 31"
  using assms by (auto simp: rr_wf_def thread_ok_def)

section \<open>Squash and commit\<close>

text \<open>A squash restores the map before the younger renames and frees the registers they took.\<close>

abbreviation younger :: "nat \<Rightarrow> RenameHistory list \<Rightarrow> RenameHistory list" where
  "younger n h \<equiv> takeWhile (\<lambda>e. n < instSeqNum e) h"

abbreviation older :: "nat \<Rightarrow> RenameHistory list \<Rightarrow> RenameHistory list" where
  "older n h \<equiv> dropWhile (\<lambda>e. n < instSeqNum e) h"

lemma undo_zero: "hist_ok pint pfloat f h \<Longrightarrow> f 31 = 31 \<Longrightarrow> undo f h 31 = 31"
proof (induction h arbitrary: f)
  case (Cons e es)
  then have "archReg e = 31 \<longrightarrow> prevPhysReg e = 31" by (simp add: entry_ok_def)
  then have "(f(archReg e := prevPhysReg e)) 31 = 31" using Cons.prems(2) by simp
  moreover have "hist_ok pint pfloat (f(archReg e := prevPhysReg e)) es" using Cons.prems(1) by simp
  ultimately show ?case unfolding undo.simps(2) by (intro Cons.IH)
qed simp

lemma doSquash_ok:
  assumes "rr_wf pint pfloat s" "tid < length (renameMap s)"
  defines "m \<equiv> renameMap s ! tid" and "h \<equiv> historyBuffer s ! tid"
  shows "\<exists>m' fl' sb'. doSquash n tid s = Inr (put_thread tid fl' sb' m' (older n h) s) \<and>
    rr_wf pint pfloat (put_thread tid fl' sb' m' (older n h) s) \<and>
    phys_of m' = undo (phys_of m) (younger n h) \<and>
    free_regs fl' = new_regs (younger n h) + free_regs (rr_freeList s) \<and>
    all_regs (put_thread tid fl' sb' m' (older n h) s) = all_regs s"
proof -
  note w = rr_wf_thread [OF assms(1,2), folded m_def h_def]
  obtain m' fl' sb' where r: "squash_history (pint + pfloat) n h (m, rr_freeList s, scoreboard s) =
      Inr (older n h, m', fl', sb')"
    and ok: "map_wf pint pfloat m'" "fl_wf pint pfloat fl'" "sb_wf pint pfloat sb'"
    and p: "phys_of m' = undo (phys_of m) (younger n h)"
    and fr: "free_regs fl' = new_regs (younger n h) + free_regs (rr_freeList s)"
    using squash_history_ok [OF w(6) w(2) w(3) w(1) w(7)] by blast
  have split: "younger n h @ older n h = h" by simp
  have ho: "hist_ok pint pfloat (phys_of m) (younger n h)" "hist_ok pint pfloat (phys_of m') (older n h)"
    using w(7) unfolding p by (metis split hist_ok_append)+
  have "sorted_wrt (\<lambda>a b. instSeqNum b \<le> instSeqNum a) (older n h)"
    using w(8) by (metis split sorted_wrt_append)
  then have t: "thread_ok pint pfloat m' (older n h)" using ok(1) ho(2) by (simp add: thread_ok_def)
  have z: "tid = 0 \<longrightarrow> phys_of m' 31 = 31" unfolding p using undo_zero [OF ho(1)] w(9) by simp
  have "free_regs fl' + regs_of (phys_of m') + prev_regs (older n h) + {#} =
      free_regs (rr_freeList s) + (regs_of (undo (phys_of m) (younger n h)) + new_regs (younger n h)) + prev_regs (older n h)"
    unfolding fr p by (simp add: ac_simps)
  also have "\<dots> = free_regs (rr_freeList s) + regs_of (phys_of m) + prev_regs h"
    unfolding history_exchange [OF ho(1)] using prev_regs_simps(3) [of "younger n h" "older n h"]
    by (simp add: ac_simps)
  finally have a: "all_regs (put_thread tid fl' sb' m' (older n h) s) = all_regs s"
    using put_thread_regs [OF assms(2) w(5), of fl' m' "older n h" "{#}"] by (simp add: m_def h_def)
  have nil: "historyBuffer s = (historyBuffer s)[tid := []]" "renameMap s = (renameMap s)[tid := m]" if "h = []"
    using that unfolding h_def m_def by (metis list_update_id)+
  have "doSquash n tid s = Inr (put_thread tid fl' sb' m' (older n h) s)"
  proof (cases "h = []")
    case True
    then have "m' = m" "fl' = rr_freeList s" "sb' = scoreboard s" using r by auto
    then show ?thesis
      using True nil [OF True] w(5) assms(2) unfolding doSquash_def put_thread_def
      by (simp add: h_def [symmetric])
  next
    case False
    then show ?thesis
      using r w(4,5) assms(2) by (simp add: doSquash_def put_thread_def put_undo_def h_def [symmetric] m_def [symmetric])
  qed
  then show ?thesis
    using put_thread_wf [OF assms(1,2) ok(2,3) t z] p fr a by blast
qed

text \<open>A commit frees the registers that the committed renames replaced, the floating zero register excepted.\<close>

lemma sorted_history_split:
  assumes "sorted_wrt (\<lambda>a b. instSeqNum b \<le> instSeqNum a) h"
  shows "\<forall>e \<in> set (older n h). instSeqNum e \<le> n"
  using assms
proof (induction h)
  case (Cons e es)
  then show ?case by (cases "n < instSeqNum e") force+
qed simp

lemma commit_reversed:
  assumes "sorted_wrt (\<lambda>a b. instSeqNum b \<le> instSeqNum a) h"
  shows "takeWhile (\<lambda>e. instSeqNum e \<le> n) (rev h) = rev (older n h)"
    "dropWhile (\<lambda>e. instSeqNum e \<le> n) (rev h) = rev (younger n h)"
proof -
  have h: "rev h = rev (older n h) @ rev (younger n h)" by (simp flip: rev_append)
  have o: "\<And>e. e \<in> set (rev (older n h)) \<Longrightarrow> instSeqNum e \<le> n"
    using sorted_history_split [OF assms] by simp
  have hd: "rev (younger n h) = [] \<or> \<not> instSeqNum (hd (rev (younger n h))) \<le> n"
    using hd_in_set [of "rev (younger n h)"] set_takeWhileD [of _ "\<lambda>e. n < instSeqNum e" h] by fastforce
  have y: "takeWhile (\<lambda>e. instSeqNum e \<le> n) (rev (younger n h)) = []"
    "dropWhile (\<lambda>e. instSeqNum e \<le> n) (rev (younger n h)) = rev (younger n h)"
    using hd by (simp_all only: takeWhile_eq_Nil_iff dropWhile_eq_self_iff)
  show "takeWhile (\<lambda>e. instSeqNum e \<le> n) (rev h) = rev (older n h)"
    using takeWhile_append2 [of "rev (older n h)" "\<lambda>e. instSeqNum e \<le> n" "rev (younger n h)"] o y(1) h
    by (metis append_Nil2)
  show "dropWhile (\<lambda>e. instSeqNum e \<le> n) (rev h) = rev (younger n h)"
    using dropWhile_append2 [of "rev (older n h)" "\<lambda>e. instSeqNum e \<le> n" "rev (younger n h)"] o y(2) h
    by metis
qed

lemma hist_ok_entries: "hist_ok pint pfloat f h \<Longrightarrow> e \<in> set h \<Longrightarrow> \<exists>f. entry_ok pint pfloat f e"
  by (induction h arbitrary: f) auto

lemma prev_regs_rev [simp]: "prev_regs (rev h) = prev_regs h"
  by (simp add: prev_regs_def rev_filter [symmetric] rev_map [symmetric])

lemma removeFromHistory_ok:
  assumes "rr_wf pint pfloat s" "tid < length (renameMap s)"
  defines "h \<equiv> historyBuffer s ! tid"
  shows "\<exists>fl'. removeFromHistory n tid s =
      Inr (put_thread tid fl' (scoreboard s) (renameMap s ! tid) (younger n h) s) \<and>
    rr_wf pint pfloat (put_thread tid fl' (scoreboard s) (renameMap s ! tid) (younger n h) s) \<and>
    all_regs (put_thread tid fl' (scoreboard s) (renameMap s ! tid) (younger n h) s) +
      filter_mset (\<lambda>p. p = pint + 31) (prev_regs (older n h)) = all_regs s"
proof -
  note w = rr_wf_thread [OF assms(1,2), folded h_def]
  define fl' where "fl' = snd (commit_history n (rev h) (rr_freeList s))"
  have entries: "\<forall>e \<in> set (rev h). \<exists>f. entry_ok pint pfloat f e" using hist_ok_entries [OF w(7)] by simp
  note c = commit_history_ok [OF w(2,1) entries, of n, folded fl'_def, unfolded commit_reversed [OF w(8)]]
  have r: "commit_history n (rev h) (rr_freeList s) = (rev (younger n h), fl')"
    using c by (simp add: prod_eq_iff fl'_def)
  have split: "younger n h @ older n h = h" by simp
  have t: "thread_ok pint pfloat (renameMap s ! tid) (younger n h)"
    using w(6,7,8) unfolding thread_ok_def by (metis split hist_ok_append sorted_wrt_append)
  let ?s = "put_thread tid fl' (scoreboard s) (renameMap s ! tid) (younger n h) s"
  have "free_regs fl' + filter_mset (\<lambda>p. p = pint + 31) (prev_regs (older n h)) =
      free_regs (rr_freeList s) + prev_regs (older n h)"
    using c multiset_partition [of "prev_regs (older n h)" "\<lambda>p. p = pint + 31"] by (simp add: ac_simps)
  moreover have "prev_regs h = prev_regs (younger n h) + prev_regs (older n h)"
    using prev_regs_simps(3) [of "younger n h" "older n h"] by simp
  ultimately have a: "all_regs ?s + filter_mset (\<lambda>p. p = pint + 31) (prev_regs (older n h)) = all_regs s"
    by (intro put_thread_regs [OF assms(2) w(5)]) (metis (no_types, lifting) add.assoc add.commute h_def)
  have self: "s = put_thread tid (rr_freeList s) (scoreboard s) (renameMap s ! tid) h s"
    by (simp add: put_thread_def h_def)
  have "removeFromHistory n tid s = Inr ?s"
  proof -
    have at: "at (historyBuffer s) tid = Inr h" using w(5) assms(2) by (simp add: h_def)
    consider "h = []" | "h \<noteq> []" "n < instSeqNum (last h)" | "h \<noteq> []" "instSeqNum (last h) \<le> n"
      by fastforce
    then show ?thesis
    proof cases
      case 1
      then have "fl' = rr_freeList s" "younger n h = h" using r by simp_all
      then have "?s = s" using self [symmetric] by (simp only:)
      then show ?thesis using 1 at by (simp add: removeFromHistory_def)
    next
      case 2
      then have "rev h = last h # tl (rev h)" by (metis hd_rev list.collapse rev_is_Nil_conv)
      then have "commit_history n (rev h) (rr_freeList s) = (rev h, rr_freeList s)"
        using 2(2) by (metis commit_history.simps(2) not_le)
      then have "rev (younger n h) = rev h" "fl' = rr_freeList s" using r by simp_all
      then have "?s = s" using self [symmetric] unfolding rev_is_rev_conv by (simp only:)
      then show ?thesis using 2 at by (simp add: removeFromHistory_def)
    qed (use at self r in \<open>simp_all add: removeFromHistory_def put_thread_def\<close>)
  qed
  then show ?thesis
    using put_thread_wf [OF assms(1,2) _ w(3) t] c w(9) a by blast
qed

section \<open>Renaming an instruction\<close>

definition operands_ok :: "DynInst \<Rightarrow> bool" where
  "operands_ok i \<longleftrightarrow> (\<forall>r \<in> set (si_srcRegs i) \<union> set (si_destRegs i). 0 \<le> r \<and> r < 72 + NumMiscRegs) \<and>
     length (srcRegIdx i) = length (si_srcRegs i) \<and> length (readySrcRegIdx i) = length (si_srcRegs i) \<and>
     length (flatDestRegIdx i) = length (si_destRegs i) \<and> length (destRegIdx i) = length (si_destRegs i) \<and>
     length (prevDestRegIdx i) = length (si_destRegs i)"

lemma flatten_reg_ok:
  assumes "0 \<le> r" "r < 72 + NumMiscRegs"
  obtains d where "flatten_reg r = Inr (r, d)" "d < 72 \<longleftrightarrow> r < 72"
  using assms
  by (cases "r < 40"; cases "r < 72")
    (auto simp: flatten_reg_def o3_consts flattenIntIndex_def flattenFloatIndex_def Let_def)

lemma phys_of_range:
  assumes "map_wf pint pfloat m" "o3_geometry pint pfloat" "0 \<le> r" "r < 72 + NumMiscRegs"
  shows "0 \<le> phys_of m r" "phys_of m r < pint + pfloat + NumMiscRegs"
  using phys_of_kind [OF assms(1,3)] assms by (auto simp: kind_ok_def o3_geometry_def o3_consts split: if_splits)

text \<open>The sources become the current registers of the operands; only the readiness marks differ.\<close>

definition src_renamed :: "(int \<Rightarrow> int) \<Rightarrow> nat \<Rightarrow> DynInst \<Rightarrow> DynInst \<Rightarrow> bool" where
  "src_renamed f k i i' \<longleftrightarrow> (\<exists>rs n c. length rs = length (readySrcRegIdx i) \<and>
     i' = i\<lparr>readySrcRegIdx := rs, readyRegs := n, canIssue := c,
            srcRegIdx := map f (take k (si_srcRegs i)) @ drop k (srcRegIdx i)\<rparr>)"

lemma foldE_upt_Suc: "foldE f [0..<Suc k] s = bindE (foldE f [0..<k] s) (f k)"
proof -
  have "foldE f [k] = f k" by (auto simp: fun_eq_iff bindE_def split: sum.splits)
  then show ?thesis by (simp add: foldE_append)
qed

lemma renameSrcReg_ok:
  assumes "rr_wf pint pfloat s" "tid < length (renameMap s)" "operands_ok i" "k < length (si_srcRegs i)"
    and "src_renamed (phys_of (renameMap s ! tid)) k i i1"
  shows "\<exists>i2. renameSrcReg s tid k i1 = Inr i2 \<and> src_renamed (phys_of (renameMap s ! tid)) (Suc k) i i2"
proof -
  let ?f = "phys_of (renameMap s ! tid)" and ?r = "si_srcRegs i ! k"
  note w = rr_wf_thread [OF assms(1,2)]
  have r: "0 \<le> ?r" "?r < 72 + NumMiscRegs" using assms(3,4) by (simp_all add: operands_ok_def)
  then have "?r < 256" by (simp add: o3_consts)
  note look = lookup_ok [OF w(6) w(1) r(1) this]
  obtain d where fl: "flatten_reg ?r = Inr (?r, d)" by (rule flatten_reg_ok [OF r])
  obtain b where b: "sb_getReg (?f ?r) (scoreboard s) = Inr b"
    by (rule sb_get_ok [OF w(3) phys_of_range [OF w(6) w(1) r]])
  obtain rs n c where l: "length rs = length (si_srcRegs i)" and
    i1: "i1 = i\<lparr>readySrcRegIdx := rs, readyRegs := n, canIssue := c,
            srcRegIdx := map ?f (take k (si_srcRegs i)) @ drop k (srcRegIdx i)\<rparr>"
    using assms(3,5) by (auto simp: src_renamed_def operands_ok_def)
  have len: "length (srcRegIdx i) = length (si_srcRegs i)" using assms(3) by (simp add: operands_ok_def)
  have upd: "(map ?f (take k (si_srcRegs i)) @ drop k (srcRegIdx i))[k := ?f ?r] =
      map ?f (take (Suc k) (si_srcRegs i)) @ drop (Suc k) (srcRegIdx i)"
    using assms(4) len by (simp add: take_Suc_conv_app_nth Cons_nth_drop_Suc [symmetric] list_update_append)
  define i2 where "i2 = i\<lparr>readySrcRegIdx := rs, readyRegs := n, canIssue := c,
            srcRegIdx := map ?f (take (Suc k) (si_srcRegs i)) @ drop (Suc k) (srcRegIdx i)\<rparr>"
  have "renameSrcReg s tid k i1 = (if b then markSrcRegReady k i2 else Inr i2)"
    using assms(2,4) fl look b len upd by (simp add: renameSrcReg_def i1 i2_def set_nat_def)
  moreover have "src_renamed ?f (Suc k) i i2"
    using assms(3) l unfolding src_renamed_def i2_def operands_ok_def by (metis (no_types, lifting))
  moreover have "src_renamed ?f (Suc k) i (i2\<lparr>readySrcRegIdx := rs[k := True], readyRegs := m, canIssue := e\<rparr>)"
    for m e using assms(3) l unfolding src_renamed_def
    by (intro exI [of _ "rs[k := True]"] exI [of _ m] exI [of _ e])
      (cases i, simp add: i2_def operands_ok_def)
  ultimately show ?thesis
    using l assms(4) by (auto simp: markSrcRegReady_def set_nat_def i2_def Let_def)
qed

lemma renameSrcRegs_ok:
  assumes "rr_wf pint pfloat s" "tid < length (renameMap s)" "operands_ok i"
  obtains i' where "renameSrcRegs s tid i = Inr i'"
    "src_renamed (phys_of (renameMap s ! tid)) (length (si_srcRegs i)) i i'"
proof -
  have "k \<le> length (si_srcRegs i) \<Longrightarrow> \<exists>i'. foldE (renameSrcReg s tid) [0..<k] i = Inr i' \<and>
      src_renamed (phys_of (renameMap s ! tid)) k i i'" for k
  proof (induction k)
    case 0
    have "src_renamed (phys_of (renameMap s ! tid)) 0 i i"
      unfolding src_renamed_def
      by (intro exI [of _ "readySrcRegIdx i"] exI [of _ "readyRegs i"] exI [of _ "canIssue i"]) simp
    then show ?case by simp
  next
    case (Suc k)
    then show ?case
      using renameSrcReg_ok [OF assms, of k] unfolding foldE_upt_Suc by fastforce
  qed
  then show thesis using that unfolding renameSrcRegs_def by blast
qed

text \<open>The history entries of the first destinations of an instruction, the last one first.\<close>

definition entry_at :: "DynInst \<Rightarrow> nat \<Rightarrow> RenameHistory" where
  "entry_at i k = \<lparr>instSeqNum = seqNum i, archReg = flatDestRegIdx i ! k,
     newPhysReg = destRegIdx i ! k, prevPhysReg = prevDestRegIdx i ! k\<rparr>"

definition entries_upto :: "nat \<Rightarrow> DynInst \<Rightarrow> RenameHistory list" where
  "entries_upto k i = rev (map (entry_at i) [0..<k])"

lemma entries_upto_simps [simp]:
  "entries_upto 0 i = []" "entries_upto (Suc k) i = entry_at i k # entries_upto k i"
  by (simp_all add: entries_upto_def)

lemma entries_upto_cong:
  assumes "\<And>j. j < k \<Longrightarrow> entry_at i' j = entry_at i j"
  shows "entries_upto k i' = entries_upto k i"
  using assms by (simp add: entries_upto_def)

text \<open>
  The effect of renaming the first \<open>k\<close> destinations: only the thread's map and history, the free
  list and the scoreboard change, the entries are pushed on the history, undoing them gives the
  old map, and at most \<open>k\<close> registers of each kind have been taken.
\<close>

definition dest_renamed :: "int \<Rightarrow> int \<Rightarrow> nat \<Rightarrow> nat \<Rightarrow> DynInst \<Rightarrow> rename_regs \<Rightarrow> DynInst \<Rightarrow> rename_regs \<Rightarrow> bool" where
  "dest_renamed pint pfloat tid k i s i' s' \<longleftrightarrow>
     (\<exists>fs ds ps. i' = i\<lparr>flatDestRegIdx := fs, destRegIdx := ds, prevDestRegIdx := ps\<rparr> \<and>
        length fs = length (si_destRegs i) \<and> length ds = length (si_destRegs i) \<and>
        length ps = length (si_destRegs i) \<and> take k fs = take k (si_destRegs i)) \<and>
     (\<exists>fl sb m. s' = put_thread tid fl sb m (entries_upto k i' @ historyBuffer s ! tid) s \<and>
        undo (phys_of m) (entries_upto k i') = phys_of (renameMap s ! tid) \<and>
        numFreeEntries (rr_freeList s) - int k \<le> numFreeEntries fl) \<and>
     rr_wf pint pfloat s' \<and> all_regs s' = all_regs s"

lemma push_entry_ok:
  assumes "thread_ok pint pfloat m h" "0 \<le> r" "r < 72 + NumMiscRegs" "map_wf pint pfloat m'"
    and "phys_of m' = (phys_of m)(r := p)" "kind_ok pint pfloat r p"
    and "free_regs fl = (if renamed r then add_mset p (free_regs fl') else free_regs fl')"
    and "renamed r \<longrightarrow> p \<noteq> 31 \<and> p \<noteq> pint + 31" "r = 31 \<longrightarrow> p = 31 \<and> phys_of m 31 = 31"
    and "\<forall>e \<in> set h. instSeqNum e \<le> n"
  defines "e \<equiv> \<lparr>instSeqNum = n, archReg = r, newPhysReg = p, prevPhysReg = phys_of m r\<rparr>"
  shows "thread_ok pint pfloat m' (e # h)"
    "free_regs fl' + regs_of (phys_of m') + prev_regs (e # h) = free_regs fl + regs_of (phys_of m) + prev_regs h"
proof -
  have t: "map_wf pint pfloat m" "hist_ok pint pfloat (phys_of m) h"
    "sorted_wrt (\<lambda>a b. instSeqNum b \<le> instSeqNum a) h" using assms(1) by (simp_all add: thread_ok_def)
  have e: "entry_ok pint pfloat (phys_of m') e"
    using assms(2,3,6,8,9) phys_of_kind [OF t(1) assms(2)] unfolding entry_ok_def assms(5) by (simp add: e_def)
  have rest: "(phys_of m')(archReg e := prevPhysReg e) = phys_of m" unfolding assms(5) by (simp add: e_def)
  show "thread_ok pint pfloat m' (e # h)"
    using e t assms(4,10) rest by (simp add: thread_ok_def) (simp add: e_def)
  show "free_regs fl' + regs_of (phys_of m') + prev_regs (e # h) = free_regs fl + regs_of (phys_of m) + prev_regs h"
    using entry_exchange [OF e] unfolding rest assms(7) by (simp add: e_def split: if_splits)
qed

lemma renameDestReg_ok:
  assumes "rr_wf pint pfloat s" "tid < length (renameMap s)" "operands_ok i" "k < length (si_destRegs i)"
    and "int k < numFreeEntries (rr_freeList s)" "31 \<in> set (si_destRegs i) \<longrightarrow> tid = 0"
    and "\<forall>e \<in> set (historyBuffer s ! tid). instSeqNum e \<le> seqNum i"
    and "dest_renamed pint pfloat tid k i s i1 s1"
  shows "\<exists>i2 s2. renameDestReg tid k (i1, s1) = Inr (i2, s2) \<and> dest_renamed pint pfloat tid (Suc k) i s i2 s2"
proof -
  let ?r = "si_destRegs i ! k"
  obtain fs ds ps where i1: "i1 = i\<lparr>flatDestRegIdx := fs, destRegIdx := ds, prevDestRegIdx := ps\<rparr>"
    and len: "length fs = length (si_destRegs i)" "length ds = length (si_destRegs i)"
      "length ps = length (si_destRegs i)" and tk: "take k fs = take k (si_destRegs i)"
    using assms(8) unfolding dest_renamed_def by blast
  let ?h = "entries_upto k i1 @ historyBuffer s ! tid"
  obtain fl sb m where s1: "s1 = put_thread tid fl sb m ?h s"
    and un: "undo (phys_of m) (entries_upto k i1) = phys_of (renameMap s ! tid)"
    and free: "numFreeEntries (rr_freeList s) - int k \<le> numFreeEntries fl"
    and wf1: "rr_wf pint pfloat s1" and all1: "all_regs s1 = all_regs s"
    using assms(8) unfolding dest_renamed_def by blast
  have lh: "length (historyBuffer s) = length (renameMap s)" using rr_wf_thread(5) [OF assms(1,2)] .
  have tid1: "tid < length (renameMap s1)" using assms(2) s1 by simp
  have m: "renameMap s1 ! tid = m" "historyBuffer s1 ! tid = ?h" using s1 assms(2) lh by simp_all
  note w = rr_wf_thread [OF wf1 tid1, unfolded m]
  have r: "0 \<le> ?r" "?r < 72 + NumMiscRegs" using assms(3,4) by (simp_all add: operands_ok_def)
  then have "?r < 256" by (simp add: o3_consts)
  moreover have "0 < numFreeEntries fl" using free assms(5) by simp
  moreover have zero: "?r = 31 \<longrightarrow> phys_of m 31 = 31" using assms(4,6) w(9) by (metis nth_mem)
  moreover have "fl_wf pint pfloat fl" using w(2) s1 by simp
  ultimately obtain p m' fl' where
    rn: "SimpleRenameMap_rename ?r m fl = Inr ((p, phys_of m ?r), m', fl')"
    "map_wf pint pfloat m'" "fl_wf pint pfloat fl'" "phys_of m' = (phys_of m)(?r := p)"
    "kind_ok pint pfloat ?r p"
    "free_regs fl = (if renamed ?r then add_mset p (free_regs fl') else free_regs fl')"
    "renamed ?r \<longrightarrow> p \<noteq> 31 \<and> p \<noteq> pint + 31" "?r = 31 \<longrightarrow> p = 31"
    "numFreeEntries fl - 1 \<le> numFreeEntries fl'"
    using rename_ok [OF w(6) _ w(1) r(1)] by metis
  obtain d where fr: "flatten_reg ?r = Inr (?r, d)" "d < 72 \<longleftrightarrow> ?r < 72" by (rule flatten_reg_ok [OF r])
  have p: "0 \<le> p" "p < pint + pfloat + NumMiscRegs"
    using rn(5) r w(1) by (auto simp: kind_ok_def o3_geometry_def o3_consts split: if_splits)
  have "sb_wf pint pfloat sb" using w(3) s1 by simp
  then obtain sb' where sb': "(if d < Ctrl_Base_DepTag then sb_unsetReg p sb else Inr sb) = Inr sb'"
    "sb_wf pint pfloat sb'"
    using sb_unset_ok [OF _ p] by (cases "d < Ctrl_Base_DepTag") auto
  define e where "e = \<lparr>instSeqNum = seqNum i, archReg = ?r, newPhysReg = p, prevPhysReg = phys_of m ?r\<rparr>"
  define i2 where "i2 = i\<lparr>flatDestRegIdx := fs[k := ?r], destRegIdx := ds[k := p],
    prevDestRegIdx := ps[k := phys_of m ?r]\<rparr>"
  define s2 where "s2 = put_thread tid fl' sb' m' (e # ?h) s1"
  have s2: "s2 = put_thread tid fl' sb' m' (e # ?h) s" by (simp add: s2_def s1 put_thread_def)
  have "renameDestReg tid k (i1, s1) = Inr (i2, s2)"
    using assms(2,4) fr(1) rn(1) sb'(1) len lh m
    by (cases "d < Ctrl_Base_DepTag")
      (simp_all add: renameDestReg_def i1 s1 set_nat_def i2_def s2 put_thread_def e_def)
  moreover have ent: "entries_upto (Suc k) i2 = e # entries_upto k i1"
  proof -
    have "entries_upto k i2 = entries_upto k i1"
      by (rule entries_upto_cong) (simp add: entry_at_def i2_def i1)
    then show ?thesis using len assms(4) by (simp add: entry_at_def i2_def e_def)
  qed
  have seqs: "\<forall>e \<in> set ?h. instSeqNum e \<le> seqNum i"
    using assms(7) by (auto simp: entries_upto_def entry_at_def i1)
  have t1: "thread_ok pint pfloat m ?h" using w(6,7,8) unfolding thread_ok_def by blast
  have zero': "?r = 31 \<longrightarrow> p = 31 \<and> phys_of m 31 = 31" using rn(8) zero by blast
  note push = push_entry_ok [OF t1 r rn(2,4,5,6,7) zero' seqs, folded e_def]
  have t2: "thread_ok pint pfloat m' (e # ?h)" by (rule push(1))
  note c = push(2)
  have z: "tid = 0 \<longrightarrow> phys_of m' 31 = 31" using w(9) rn(4,8) by auto
  have "rr_wf pint pfloat s2" unfolding s2_def by (rule put_thread_wf [OF wf1 tid1 rn(3) sb'(2) t2 z])
  moreover have "all_regs s2 = all_regs s"
    using put_thread_regs [OF tid1 w(5), of fl' m' "e # ?h" "{#}" sb'] c all1 m
    unfolding s2_def by (simp add: s1)
  moreover have "take (Suc k) (fs[k := ?r]) = take (Suc k) (si_destRegs i)"
    using tk len assms(4) by (simp add: take_Suc_conv_app_nth)
  ultimately show ?thesis
    unfolding dest_renamed_def
    using len un rn(4,9) free s2 ent
    by (intro exI [of _ i2] exI [of _ s2] conjI exI [of _ "fs[k := ?r]"] exI [of _ "ds[k := p]"]
        exI [of _ "ps[k := phys_of m ?r]"] exI [of _ fl'] exI [of _ sb'] exI [of _ m'])
      (simp_all add: i2_def [symmetric] e_def)
qed

lemma renameDestRegs_ok:
  assumes "rr_wf pint pfloat s" "tid < length (renameMap s)" "operands_ok i"
    and "int (length (si_destRegs i)) \<le> numFreeEntries (rr_freeList s)" "31 \<in> set (si_destRegs i) \<longrightarrow> tid = 0"
    and "\<forall>e \<in> set (historyBuffer s ! tid). instSeqNum e \<le> seqNum i"
  obtains i' s' where "renameDestRegs tid i s = Inr (i', s')"
    "dest_renamed pint pfloat tid (length (si_destRegs i)) i s i' s'"
proof -
  have "k \<le> length (si_destRegs i) \<Longrightarrow> \<exists>i' s'. foldE (renameDestReg tid) [0..<k] (i, s) = Inr (i', s') \<and>
      dest_renamed pint pfloat tid k i s i' s'" for k
  proof (induction k)
    case 0
    have "s = put_thread tid (rr_freeList s) (scoreboard s) (renameMap s ! tid) (historyBuffer s ! tid) s"
      by (simp add: put_thread_def)
    then have "dest_renamed pint pfloat tid 0 i s i s"
      unfolding dest_renamed_def using assms(1,3)
      by (intro conjI exI [of _ "flatDestRegIdx i"] exI [of _ "destRegIdx i"] exI [of _ "prevDestRegIdx i"]
          exI [of _ "rr_freeList s"] exI [of _ "scoreboard s"] exI [of _ "renameMap s ! tid"])
        (simp_all add: operands_ok_def)
    then show ?case by simp
  next
    case (Suc k)
    then obtain i1 s1 where "foldE (renameDestReg tid) [0..<k] (i, s) = Inr (i1, s1)"
      and "dest_renamed pint pfloat tid k i s i1 s1" by auto
    then show ?case
      using renameDestReg_ok [OF assms(1-3) _ _ assms(5,6), of k i1 s1] assms(4) Suc.prems
      unfolding foldE_upt_Suc by simp
  qed
  then show thesis using that unfolding renameDestRegs_def by blast
qed

definition inst_entries :: "DynInst \<Rightarrow> RenameHistory list" where
  "inst_entries i = entries_upto (length (si_destRegs i)) i"

text \<open>
  The effect of renaming an instruction: its sources are the registers that its operands had, its
  destinations are on the history, and undoing them gives the map before.
\<close>

definition inst_renamed :: "DynInst \<Rightarrow> rename_regs \<Rightarrow> DynInst \<Rightarrow> rename_regs \<Rightarrow> bool" where
  "inst_renamed i s i' s' \<longleftrightarrow>
     seqNum i' = seqNum i \<and> threadNumber i' = threadNumber i \<and>
     si_srcRegs i' = si_srcRegs i \<and> si_destRegs i' = si_destRegs i \<and>
     srcRegIdx i' = map (phys_of (renameMap s ! threadNumber i)) (si_srcRegs i) \<and>
     flatDestRegIdx i' = si_destRegs i \<and> operands_ok i' \<and>
     numFreeEntries (rr_freeList s) - int (length (si_destRegs i)) \<le> numFreeEntries (rr_freeList s') \<and>
     (\<exists>fl sb m. s' = put_thread (threadNumber i) fl sb m
          (inst_entries i' @ historyBuffer s ! threadNumber i) s \<and>
        undo (phys_of m) (inst_entries i') = phys_of (renameMap s ! threadNumber i))"

lemma rename_inst_ok:
  assumes "rr_wf pint pfloat s" "threadNumber i < length (renameMap s)" "operands_ok i"
    and "31 \<in> set (si_destRegs i) \<longrightarrow> threadNumber i = 0"
    and "\<forall>e \<in> set (historyBuffer s ! threadNumber i). instSeqNum e \<le> seqNum i"
  shows "if numFreeEntries (rr_freeList s) < int (length (si_destRegs i)) then rename_inst i s = Inr None
     else \<exists>i' s'. rename_inst i s = Inr (Some (i', s')) \<and> inst_renamed i s i' s' \<and>
       rr_wf pint pfloat s' \<and> all_regs s' = all_regs s"
proof (cases "numFreeEntries (rr_freeList s) < int (length (si_destRegs i))")
  case False
  let ?tid = "threadNumber i" and ?f = "phys_of (renameMap s ! threadNumber i)"
  obtain i1 where i1: "renameSrcRegs s ?tid i = Inr i1" "src_renamed ?f (length (si_srcRegs i)) i i1"
    by (rule renameSrcRegs_ok [OF assms(1-3)])
  have same: "seqNum i1 = seqNum i" "threadNumber i1 = threadNumber i" "si_srcRegs i1 = si_srcRegs i"
    "si_destRegs i1 = si_destRegs i" "operands_ok i1" "srcRegIdx i1 = map ?f (si_srcRegs i)"
    using i1(2) assms(3) by (auto simp: src_renamed_def operands_ok_def)
  have "int (length (si_destRegs i1)) \<le> numFreeEntries (rr_freeList s)" using False same(4) by simp
  moreover have "31 \<in> set (si_destRegs i1) \<longrightarrow> ?tid = 0" using assms(4) same(4) by simp
  moreover have "\<forall>e \<in> set (historyBuffer s ! ?tid). instSeqNum e \<le> seqNum i1" using assms(5) same(1) by simp
  ultimately obtain i2 s2 where i2: "renameDestRegs ?tid i1 s = Inr (i2, s2)"
    "dest_renamed pint pfloat ?tid (length (si_destRegs i)) i1 s i2 s2"
    using renameDestRegs_ok [OF assms(1,2) same(5)] unfolding same(4) by blast
  obtain fs ds ps where d: "i2 = i1\<lparr>flatDestRegIdx := fs, destRegIdx := ds, prevDestRegIdx := ps\<rparr>"
    "length fs = length (si_destRegs i)" "length ds = length (si_destRegs i)"
    "length ps = length (si_destRegs i)" "fs = si_destRegs i"
    using i2(2) same(4) unfolding dest_renamed_def by fastforce
  obtain fl sb m where "s2 = put_thread ?tid fl sb m (inst_entries i2 @ historyBuffer s ! ?tid) s"
    "undo (phys_of m) (inst_entries i2) = ?f"
    "numFreeEntries (rr_freeList s) - int (length (si_destRegs i)) \<le> numFreeEntries fl"
    using i2(2) d(1) same(4) unfolding dest_renamed_def inst_entries_def by fastforce
  moreover have "operands_ok i2" using same(5) unfolding d(1) by (simp add: operands_ok_def d(2-4) same(4))
  ultimately have "inst_renamed i s i2 s2"
    unfolding inst_renamed_def using same d by (intro conjI) (simp, simp, simp, simp, simp, simp, assumption, simp, blast)
  moreover have "rename_inst i s = Inr (Some (i2, s2))"
    using False i1(1) i2(1) same(2) by (simp add: rename_inst_def)
  ultimately show ?thesis using False i2(2) by (auto simp: dest_renamed_def)
qed (simp add: rename_inst_def)

section \<open>Instructions in flight\<close>

text \<open>
  The instructions of a thread that have been renamed and neither squashed nor committed, the
  youngest first: their sources are the registers of the map before they were renamed.
\<close>

fun inflight_ok :: "(int \<Rightarrow> int) \<Rightarrow> DynInst list \<Rightarrow> bool" where
  "inflight_ok f [] \<longleftrightarrow> True"
| "inflight_ok f (i # is) \<longleftrightarrow>
     srcRegIdx i = map (undo f (inst_entries i)) (si_srcRegs i) \<and> operands_ok i \<and>
     flatDestRegIdx i = si_destRegs i \<and>
     (\<forall>j \<in> set is. seqNum j < seqNum i) \<and> inflight_ok (undo f (inst_entries i)) is"

abbreviation all_entries :: "DynInst list \<Rightarrow> RenameHistory list" where
  "all_entries is \<equiv> concat (map inst_entries is)"

lemma inflight_ok_append:
  "inflight_ok f (xs @ ys) \<longleftrightarrow> inflight_ok f xs \<and> inflight_ok (undo f (all_entries xs)) ys \<and>
     (\<forall>i \<in> set xs. \<forall>j \<in> set ys. seqNum j < seqNum i)"
  by (induction xs arbitrary: f) auto

lemma inst_entries_seq: "e \<in> set (inst_entries i) \<Longrightarrow> instSeqNum e = seqNum i"
  by (auto simp: inst_entries_def entries_upto_def entry_at_def)

lemma while_none: "\<forall>x \<in> set xs. \<not> P x \<Longrightarrow> takeWhile P xs = []" "\<forall>x \<in> set xs. \<not> P x \<Longrightarrow> dropWhile P xs = xs"
  by (cases xs; simp)+

lemma inflight_split:
  assumes "inflight_ok f is"
  shows "younger n (all_entries is) = all_entries (takeWhile (\<lambda>i. n < seqNum i) is)"
    "older n (all_entries is) = all_entries (dropWhile (\<lambda>i. n < seqNum i) is)"
    "filter (\<lambda>i. n < seqNum i) is = takeWhile (\<lambda>i. n < seqNum i) is"
    "filter (\<lambda>i. seqNum i \<le> n) is = dropWhile (\<lambda>i. n < seqNum i) is"
proof -
  have "younger n (all_entries is) = all_entries (takeWhile (\<lambda>i. n < seqNum i) is) \<and>
    older n (all_entries is) = all_entries (dropWhile (\<lambda>i. n < seqNum i) is) \<and>
    filter (\<lambda>i. n < seqNum i) is = takeWhile (\<lambda>i. n < seqNum i) is \<and>
    filter (\<lambda>i. seqNum i \<le> n) is = dropWhile (\<lambda>i. n < seqNum i) is"
    using assms
  proof (induction "is" arbitrary: f)
    case (Cons i "is")
    show ?case
    proof (cases "n < seqNum i")
      case True
      then have "\<And>e. e \<in> set (inst_entries i) \<Longrightarrow> n < instSeqNum e" by (simp add: inst_entries_seq)
      moreover have "inflight_ok (undo f (inst_entries i)) is" using Cons.prems by simp
      note Cons.IH [OF this]
      ultimately show ?thesis using True by (simp add: takeWhile_append2 dropWhile_append2)
    next
      case False
      then have "\<forall>j \<in> set is. \<not> n < seqNum j" using Cons.prems by fastforce
      moreover from this False have "\<forall>e \<in> set (all_entries (i # is)). \<not> n < instSeqNum e"
        by (auto simp: inst_entries_seq)
      then have "younger n (all_entries (i # is)) = []" "older n (all_entries (i # is)) = all_entries (i # is)"
        by (rule while_none)+
      ultimately show ?thesis using False by (simp add: filter_empty_conv filter_id_conv not_less)
    qed
  qed simp
  then show "younger n (all_entries is) = all_entries (takeWhile (\<lambda>i. n < seqNum i) is)"
    "older n (all_entries is) = all_entries (dropWhile (\<lambda>i. n < seqNum i) is)"
    "filter (\<lambda>i. n < seqNum i) is = takeWhile (\<lambda>i. n < seqNum i) is"
    "filter (\<lambda>i. seqNum i \<le> n) is = dropWhile (\<lambda>i. n < seqNum i) is" by blast+
qed

end
