(* ===== verification/O3_Rename_Safe.thy ===== *)
theory O3_Rename_Safe
  imports O3_Rename_Run
begin

text \<open>
  Runs of the register renaming: any sequence of instructions renamed, squashes and commits on any
  threads, from the construction of the processor. In every reachable state each physical register
  is in exactly one place, a register that an instruction in flight reads or writes is not free,
  and a source names the register of the last older writer of its operand.
\<close>

section \<open>Construction\<close>

lemma push_regs_ok:
  assumes "nat (n - i) < fuel" "0 \<le> i" "n \<le> 32767" "i \<le> n"
  shows "push_regs fuel i n q = Inr (q @ [i..n - 1])"
  using assms
proof (induction fuel arbitrary: i q)
  case (Suc fuel)
  show ?case
  proof (cases "i < n")
    case True
    then show ?thesis using Suc.IH [of "i + 1" "q @ [i]"] Suc.prems upto_rec1 [of i "n - 1"] by simp
  qed (use Suc.prems in simp)
qed simp

lemma bind_regs_ok:
  assumes "nat (n - i) < fuel" "0 \<le> i" "i \<le> n" "n \<le> int (length m)" "n \<le> b" "\<And>k. 0 \<le> k \<Longrightarrow> k \<le> b \<Longrightarrow> conv k = k"
    and "0 \<le> p" "p + (n - i) \<le> 32767"
  shows "\<exists>m'. bind_regs fuel conv i n p m = Inr (m', p + (n - i)) \<and> length m' = length m \<and>
    (\<forall>k. 0 \<le> k \<longrightarrow> k < int (length m) \<longrightarrow> m' ! nat k = (if i \<le> k \<and> k < n then p + (k - i) else m ! nat k))"
  using assms
proof (induction fuel arbitrary: i p m)
  case (Suc fuel)
  show ?case
  proof (cases "i < n")
    case True
    let ?m = "m[nat i := p]"
    have fuel: "nat (n - (i + 1)) < fuel" using True Suc.prems(1) by linarith
    have c: "conv (i + 1) = i + 1" "short (p + 1) = p + 1" using True Suc.prems by simp_all
    obtain m' where "bind_regs fuel conv (i + 1) n (p + 1) ?m = Inr (m', p + 1 + (n - (i + 1)))"
      "length m' = length ?m"
      "\<forall>k. 0 \<le> k \<longrightarrow> k < int (length ?m) \<longrightarrow>
         m' ! nat k = (if i + 1 \<le> k \<and> k < n then p + 1 + (k - (i + 1)) else ?m ! nat k)"
      using Suc.IH [of "i + 1" ?m "p + 1"] Suc.prems True fuel by auto
    then show ?thesis
      using True Suc.prems c by (intro exI [of _ m']) (auto simp: nth_list_update nat_eq_iff)
  qed (use Suc.prems in auto)
qed simp

lemma rename_map_init_ok:
  assumes "o3_geometry pint pfloat" "0 \<le> li" "li + 40 \<le> pint" "pint \<le> fi" "fi + 32 \<le> pint + pfloat"
    and "li = 0 \<or> 40 \<le> li"
  obtains m where
    "SimpleRenameMap_init NumIntRegs pint li NumFloatRegs pfloat fi NumMiscRegs ZeroReg ZeroReg tid bd =
       Inr (m, if bd then (li + 40, fi + 32) else (li, fi))"
    "map_wf pint pfloat m" "\<And>r. 0 \<le> r \<Longrightarrow> r < 40 \<Longrightarrow> phys_of m r = li + r"
    "\<And>r. 40 \<le> r \<Longrightarrow> r < 72 \<Longrightarrow> phys_of m r = fi + (r - 40)"
proof -
  have g: "li + 40 \<le> 32767" "fi + 32 \<le> 32767" "0 \<le> fi" using assms by (simp_all add: o3_geometry_def)
  obtain im where im: "bind_regs short_loop reg8 0 40 li (replicate 40 0) = Inr (im, li + 40)" "length im = 40"
    "\<And>k. 0 \<le> k \<Longrightarrow> k < 40 \<Longrightarrow> im ! nat k = li + k"
    using bind_regs_ok [of 40 0 short_loop "replicate 40 0" 255 reg8 li] g assms(2) by (auto simp: short_loop_def)
  obtain fm where fm: "bind_regs short_loop short 40 72 fi (replicate 72 0) = Inr (fm, fi + 32)" "length fm = 72"
    "\<And>k. 40 \<le> k \<Longrightarrow> k < 72 \<Longrightarrow> fm ! nat k = fi + (k - 40)"
    using bind_regs_ok [of 72 40 short_loop "replicate 72 0" 32767 short fi] g by (auto simp: short_loop_def)
  let ?m = "\<lparr>rmap_id = tid, numLogicalIntRegs = 40, numPhysicalIntRegs = pint, numLogicalFloatRegs = 32,
    numPhysicalFloatRegs = pfloat, rmap_numMiscRegs = NumMiscRegs, numLogicalRegs = 72,
    numPhysicalRegs = pint + pfloat, intZeroReg = 31, floatZeroReg = 31, intRenameMap = im, floatRenameMap = fm\<rparr>"
  have p: "phys_of ?m r = li + r" if "0 \<le> r" "r < 40" for r using that im(3) by (simp add: phys_of_def)
  have q: "phys_of ?m r = fi + (r - 40)" if "40 \<le> r" "r < 72" for r using that fm(3) by (simp add: phys_of_def)
  have "kind_ok pint pfloat r (phys_of ?m r)" if "0 \<le> r" "r < 72" for r
    using that p q assms by (cases "r < 40") (auto simp: kind_ok_def)
  then have "map_wf pint pfloat ?m" using im(2) fm(2) by (simp add: map_wf_def)
  moreover have "SimpleRenameMap_init NumIntRegs pint li NumFloatRegs pfloat fi NumMiscRegs ZeroReg ZeroReg tid bd =
       Inr (?m, if bd then (li + 40, fi + 32) else (li, fi))"
    using im(1) fm(1) by (simp add: SimpleRenameMap_init_def NumIntRegs_def NumFloatRegs_def ZeroReg_def)
  ultimately show thesis using that p q by blast
qed

text \<open>The registers that thread \<open>t\<close> is bound to.\<close>

definition bound_map :: "int \<Rightarrow> int \<Rightarrow> nat \<Rightarrow> SimpleRenameMap \<Rightarrow> bool" where
  "bound_map pint pfloat t m \<longleftrightarrow> map_wf pint pfloat m \<and>
     (\<forall>r. 0 \<le> r \<longrightarrow> r < 40 \<longrightarrow> phys_of m r = 40 * int t + r) \<and>
     (\<forall>r. 40 \<le> r \<longrightarrow> r < 72 \<longrightarrow> phys_of m r = pint + 32 * int t + (r - 40))"

lemma bind_threads_ok:
  assumes "o3_geometry pint pfloat" "40 * int (t + k) \<le> pint" "32 * int (t + k) \<le> pfloat" "int (t + k) \<le> active"
  shows "\<exists>cms' rms'. bind_threads active pint pfloat [t..<t + k] (40 * int t) (pint + 32 * int t) cms rms =
      Inr (cms', rms @ rms') \<and> length rms' = k \<and> (\<forall>j < k. bound_map pint pfloat (t + j) (rms' ! j))"
  using assms
proof (induction k arbitrary: t cms rms)
  case (Suc k)
  have li: "0 \<le> 40 * int t" "40 * int t + 40 \<le> pint" "pint \<le> pint + 32 * int t"
    "pint + 32 * int t + 32 \<le> pint + pfloat" "40 * int t = 0 \<or> 40 \<le> 40 * int t"
    using Suc.prems by auto
  obtain cm where cm: "SimpleRenameMap_init NumIntRegs pint (40 * int t) NumFloatRegs pfloat (pint + 32 * int t)
      NumMiscRegs ZeroReg ZeroReg (int t) False =
      Inr (cm, if False then (40 * int t + 40, pint + 32 * int t + 32) else (40 * int t, pint + 32 * int t))"
    by (rule rename_map_init_ok [OF Suc.prems(1) li])
  obtain rm where rm: "SimpleRenameMap_init NumIntRegs pint (40 * int t) NumFloatRegs pfloat (pint + 32 * int t)
      NumMiscRegs ZeroReg ZeroReg (int t) True =
      Inr (rm, if True then (40 * int t + 40, pint + 32 * int t + 32) else (40 * int t, pint + 32 * int t))"
    and bm: "map_wf pint pfloat rm" "\<And>r. 0 \<le> r \<Longrightarrow> r < 40 \<Longrightarrow> phys_of rm r = 40 * int t + r"
      "\<And>r. 40 \<le> r \<Longrightarrow> r < 72 \<Longrightarrow> phys_of rm r = pint + 32 * int t + (r - 40)"
    by (rule rename_map_init_ok [OF Suc.prems(1) li]) blast
  have b: "bound_map pint pfloat t rm" using bm by (simp add: bound_map_def)
  have next_t: "40 * int t + 40 = 40 * int (Suc t)" "pint + 32 * int t + 32 = pint + 32 * int (Suc t)" by simp_all
  obtain cms' rms' where "bind_threads active pint pfloat [Suc t..<Suc t + k] (40 * int (Suc t))
      (pint + 32 * int (Suc t)) (cms @ [cm]) (rms @ [rm]) = Inr (cms', (rms @ [rm]) @ rms')"
    "length rms' = k" "\<forall>j < k. bound_map pint pfloat (Suc t + j) (rms' ! j)"
    using Suc.IH [of "Suc t" "cms @ [cm]" "rms @ [rm]"] Suc.prems by (auto simp del: of_nat_Suc)
  moreover have "int t \<le> active - 1" using Suc.prems(4) by simp
  moreover have "[t..<t + Suc k] = t # [Suc t..<Suc t + k]" by (simp add: upt_conv_Cons)
  ultimately show ?case
    using cm [unfolded if_False] rm [unfolded if_True next_t] b
    by (intro exI [of _ cms'] exI [of _ "rm # rms'"]) (auto simp: nth_Cons split: nat.splits)
qed simp

lemma foldE_setReg_ok:
  assumes "sb_wf pint pfloat sb" "\<forall>i \<in> set xs. 0 \<le> i \<and> i < currentSize sb"
  shows "\<exists>sb'. foldE sb_setReg xs sb = Inr sb' \<and> sb_wf pint pfloat sb' \<and> currentSize sb' = currentSize sb"
  using assms
proof (induction xs arbitrary: sb)
  case (Cons i xs)
  then obtain sb1 where "sb_setReg i sb = Inr sb1" "sb_wf pint pfloat sb1" "currentSize sb1 = currentSize sb"
    by (auto simp: sb_setReg_def sb_wf_def indexInBounds_def)
  then show ?case using Cons.IH [of sb1] Cons.prems(2) by auto
qed simp

lemma scoreboard_ok:
  assumes "o3_geometry pint pfloat" "0 < T" "40 * int T \<le> pint" "32 * int T \<le> pfloat"
  obtains sb where
    "Scoreboard_ctor (int T) NumIntRegs pint NumFloatRegs pfloat (NumMiscRegs * int T) ZeroReg = Inr sb"
    "sb_wf pint pfloat sb"
proof -
  let ?n = "pint + pfloat + NumMiscRegs * int T * int T"
  let ?sb = "\<lparr>regScoreBoard = replicate (nat ?n) False, sb_numPhysicalIntRegs = pint,
    zeroRegIdx = ZeroReg, currentSize = ?n\<rparr>"
  have "int 1 * int 1 \<le> int T * int T" using assms(2) by (intro mult_mono) auto
  then have n: "0 \<le> NumMiscRegs * int T * int T" "NumMiscRegs \<le> NumMiscRegs * int T * int T"
    by (simp_all add: o3_consts)
  have g: "0 \<le> pint" "0 \<le> pfloat" using assms(1) by (simp_all add: o3_geometry_def)
  have wf: "sb_wf pint pfloat ?sb" using n g by (simp add: sb_wf_def ZeroReg_def)
  obtain sb1 where 1: "foldE sb_setReg [0..NumIntRegs * int T - 1] ?sb = Inr sb1" "sb_wf pint pfloat sb1" "currentSize sb1 = ?n"
    using foldE_setReg_ok [OF wf, of "[0..NumIntRegs * int T - 1]"] assms(3) n g by (auto simp: NumIntRegs_def)
  obtain sb2 where 2: "foldE sb_setReg [pint..pint + NumFloatRegs * int T - 1] sb1 = Inr sb2" "sb_wf pint pfloat sb2" "currentSize sb2 = ?n"
    using foldE_setReg_ok [OF 1(2), of "[pint..pint + NumFloatRegs * int T - 1]"] assms(4) n g 1(3)
    by (auto simp: NumFloatRegs_def)
  obtain sb3 where 3: "foldE sb_setReg [pint + pfloat..?n - 1] sb2 = Inr sb3" "sb_wf pint pfloat sb3"
    using foldE_setReg_ok [OF 2(2), of "[pint + pfloat..?n - 1]"] n g 2(3) by auto
  show thesis using that [OF _ 3(2)] 1(1) 2(1) 3(1) by (simp add: Scoreboard_ctor_def Let_def)
qed

text \<open>At the start the maps and the free list hold every physical register once.\<close>

lemma mset_set_join: "a \<le> b \<Longrightarrow> b \<le> c \<Longrightarrow> mset_set {a..<b} + mset_set {b..<c::int} = mset_set {a..<c}"
  by (subst mset_set_Union [symmetric]) (auto simp: ivl_disj_un)

lemma mset_upto: "mset [a..b - 1] = mset_set {a..<b::int}"
proof -
  have "set [a..b - 1] = {a..<b}" by auto
  then show ?thesis using mset_set_set [of "[a..b - 1]"] by simp
qed

lemma image_shift: "image_mset (\<lambda>r. c + r) (mset_set {a..<b::int}) = mset_set {c + a..<c + b}"
  by (subst image_mset_mset_set) (auto simp: inj_on_def)

lemma bound_regs:
  assumes "bound_map pint pfloat t m"
  shows "regs_of (phys_of m) = mset_set {40 * int t..<40 * int (Suc t)} + mset_set {pint + 32 * int t..<pint + 32 * int (Suc t)}"
proof -
  have "regs_of (phys_of m) = image_mset (phys_of m) (mset_set {0..<40}) + image_mset (phys_of m) (mset_set {40..<72})"
    unfolding regs_of_def using mset_set_join [of 0 40 72] by (simp flip: image_mset_union)
  also have "image_mset (phys_of m) (mset_set {0..<40}) = image_mset (\<lambda>r. 40 * int t + r) (mset_set {0..<40})"
    by (rule image_mset_cong) (use assms in \<open>simp add: bound_map_def\<close>)
  also have "image_mset (phys_of m) (mset_set {40..<72}) = image_mset (\<lambda>r. (pint + 32 * int t - 40) + r) (mset_set {40..<72})"
    by (rule image_mset_cong) (use assms in \<open>simp add: bound_map_def\<close>)
  finally show ?thesis unfolding image_shift by (simp add: algebra_simps)
qed

lemma bound_maps_regs:
  assumes "\<forall>j < length ms. bound_map pint pfloat j (ms ! j)"
  shows "(\<Sum>m\<leftarrow>ms. regs_of (phys_of m)) = mset_set {0..<40 * int (length ms)} + mset_set {pint..<pint + 32 * int (length ms)}"
  using assms
proof (induction ms rule: rev_induct)
  case (snoc m ms)
  let ?n = "length ms"
  have "bound_map pint pfloat ?n m" using snoc.prems [rule_format, of ?n] by simp
  note m = bound_regs [OF this]
  have "\<forall>j < length ms. bound_map pint pfloat j (ms ! j)"
  proof (intro allI impI)
    fix j assume "j < length ms"
    then show "bound_map pint pfloat j (ms ! j)" using snoc.prems [rule_format, of j] by (simp add: nth_append)
  qed
  note ms = snoc.IH [OF this]
  have "(\<Sum>m\<leftarrow>ms @ [m]. regs_of (phys_of m)) =
      (mset_set {0..<40 * int ?n} + mset_set {40 * int ?n..<40 * int (Suc ?n)}) +
      (mset_set {pint..<pint + 32 * int ?n} + mset_set {pint + 32 * int ?n..<pint + 32 * int (Suc ?n)})"
    by (simp add: ms m del: of_nat_Suc)
  also have "\<dots> = mset_set {0..<40 * int (Suc ?n)} + mset_set {pint..<pint + 32 * int (Suc ?n)}"
    by (simp add: mset_set_join)
  finally show ?case by simp
qed simp

lemma O3_regs_ctor_ok:
  assumes "o3_geometry pint pfloat" "0 < T" "40 * int T \<le> pint" "32 * int T \<le> pfloat" "int T \<le> active"
  obtains s where "O3_regs_ctor T active pint pfloat = Inr s" "rr_wf pint pfloat s"
    "length (renameMap s) = T" "historyBuffer s = replicate T []" "all_regs s = mset_set {0..<pint + pfloat}"
    "\<forall>j < T. bound_map pint pfloat j (renameMap s ! j)"
    "freeIntRegs (rr_freeList s) = [40 * int T..pint - 1]"
    "freeFloatRegs (rr_freeList s) = [pint + 32 * int T..pint + pfloat - 1]"
proof -
  have g: "pint + pfloat \<le> 32000" "40 \<le> pint" "32 \<le> pfloat" using assms(1) by (simp_all add: o3_geometry_def)
  define fl where "fl = \<lparr>freeIntRegs = [40 * int T..pint - 1], freeFloatRegs = [pint + 32 * int T..pint + pfloat - 1],
    fl_numLogicalIntRegs = NumIntRegs, fl_numPhysicalIntRegs = pint, fl_numLogicalFloatRegs = NumFloatRegs,
    fl_numPhysicalFloatRegs = pfloat, fl_numPhysicalRegs = pint + pfloat\<rparr>"
  have fl: "SimpleFreeList_ctor (int T) NumIntRegs pint NumFloatRegs pfloat = Inr fl"
    using g assms push_regs_ok [of pint "40 * int T" short_loop "[]"]
      push_regs_ok [of "pint + pfloat" "pint + 32 * int T" short_loop "[]"]
    by (simp add: SimpleFreeList_ctor_def fl_def NumIntRegs_def NumFloatRegs_def short_loop_def)
  have flw: "fl_wf pint pfloat fl" using assms(2) by (auto simp: fl_wf_def fl_def)
  obtain sb where sb: "Scoreboard_ctor (int T) NumIntRegs pint NumFloatRegs pfloat (NumMiscRegs * int T) ZeroReg = Inr sb"
    "sb_wf pint pfloat sb" by (rule scoreboard_ok [OF assms(1-4)])
  obtain cms rms where b: "bind_threads active pint pfloat [0..<T] 0 pint [] [] = Inr (cms, rms)" "length rms = T"
    "\<forall>j < T. bound_map pint pfloat j (rms ! j)"
    using bind_threads_ok [of pint pfloat 0 T active "[]" "[]"] assms by auto
  define s where "s = \<lparr>rr_freeList = fl, renameMap = rms, commitRenameMap = cms, scoreboard = sb,
    historyBuffer = replicate T [], maxPhysicalRegs = pint + pfloat\<rparr>"
  have "O3_regs_ctor T active pint pfloat = Inr s"
    using g fl sb(1) b(1) assms(3,4) by (simp add: O3_regs_ctor_def s_def NumIntRegs_def NumFloatRegs_def)
  moreover have "rr_wf pint pfloat s"
    using assms(1,2) flw sb(2) b(2,3) by (auto simp: rr_wf_def s_def thread_ok_def bound_map_def)
  moreover have "all_regs s = mset_set {0..<pint + pfloat}"
  proof -
    have "(\<Sum>h\<leftarrow>replicate T []. prev_regs h) = {#}" by (induction T) auto
    then have "all_regs s = mset_set {40 * int T..<pint} + mset_set {pint + 32 * int T..<pint + pfloat} +
        (mset_set {0..<40 * int T} + mset_set {pint..<pint + 32 * int T})"
      using bound_maps_regs [of rms pint pfloat] b(2,3)
      by (simp add: all_regs_def held_regs_def s_def free_regs_def fl_def mset_upto)
    also have "\<dots> = (mset_set {0..<40 * int T} + mset_set {40 * int T..<pint}) +
        (mset_set {pint..<pint + 32 * int T} + mset_set {pint + 32 * int T..<pint + pfloat})"
      by (simp add: ac_simps)
    also have "\<dots> = mset_set {0..<pint + pfloat}"
      using assms(3,4) g mset_set_join [of 0 "40 * int T" pint] mset_set_join [of pint "pint + 32 * int T" "pint + pfloat"]
        mset_set_join [of 0 pint "pint + pfloat"] by simp
    finally show ?thesis .
  qed
  ultimately show thesis using that b(2,3) by (simp add: s_def fl_def)
qed

section \<open>Runs\<close>

text \<open>
  The operations on the register structures, with the instructions in flight of each thread beside
  the state. An instruction that finds too few free registers is left for later.
\<close>

datatype rename_op =
    Rename DynInst
  | Squash nat nat
  | Commit nat nat

type_synonym rename_run_state = "rename_regs \<times> DynInst list list"

fun rename_step :: "rename_op \<Rightarrow> rename_run_state \<Rightarrow> rename_run_state res" where
  "rename_step (Rename i) (s, fs) =
     bindE (rename_inst i s) (\<lambda>r. case r of
       None \<Rightarrow> Inr (s, fs)
     | Some (i', s') \<Rightarrow> Inr (s', fs[threadNumber i := i' # fs ! threadNumber i]))"
| "rename_step (Squash tid n) (s, fs) =
     bindE (doSquash n tid s) (\<lambda>s'. Inr (s', fs[tid := filter (\<lambda>i. seqNum i \<le> n) (fs ! tid)]))"
| "rename_step (Commit tid n) (s, fs) =
     bindE (removeFromHistory n tid s) (\<lambda>s'. Inr (s', fs[tid := filter (\<lambda>i. n < seqNum i) (fs ! tid)]))"

text \<open>
  Conditions on the operations. The rest of the pipeline guarantees that operands are register numbers
  of Alpha and that an instruction is younger than those of its thread in flight. That only the first
  thread writes the integer zero register is an assumption which the code does not guarantee:
  without it a register is freed while a thread still maps to it, as shown at the end of this theory.
\<close>

fun op_ok :: "rename_op \<Rightarrow> DynInst list list \<Rightarrow> bool" where
  "op_ok (Rename i) fs \<longleftrightarrow> threadNumber i < length fs \<and> operands_ok i \<and>
     (\<forall>j \<in> set (fs ! threadNumber i). seqNum j < seqNum i) \<and>
     (31 \<in> set (si_destRegs i) \<longrightarrow> threadNumber i = 0)"
| "op_ok (Squash tid n) fs \<longleftrightarrow> tid < length fs"
| "op_ok (Commit tid n) fs \<longleftrightarrow> tid < length fs"

inductive rename_reachable :: "nat \<Rightarrow> int \<Rightarrow> int \<Rightarrow> int \<Rightarrow> rename_run_state \<Rightarrow> bool"
  for T active pint pfloat where
  start: "O3_regs_ctor T active pint pfloat = Inr s \<Longrightarrow>
     rename_reachable T active pint pfloat (s, replicate T [])"
| step: "rename_reachable T active pint pfloat (s, fs) \<Longrightarrow> op_ok op fs \<Longrightarrow>
     rename_step op (s, fs) = Inr r \<Longrightarrow> rename_reachable T active pint pfloat r"

text \<open>
  The configurations considered: every thread is active at construction, so that all of them get their
  registers, and there are physical registers for the 40 integer and 32 floating point registers of each.
\<close>

definition o3_params :: "nat \<Rightarrow> int \<Rightarrow> int \<Rightarrow> int \<Rightarrow> bool" where
  "o3_params T active pint pfloat \<longleftrightarrow> 0 < T \<and> int T \<le> active \<and>
     40 * int T \<le> pint \<and> 32 * int T \<le> pfloat \<and> pint + pfloat \<le> 32000"

text \<open>All registers are somewhere, except that the floating zero register may have been dropped.\<close>

definition conserved :: "int \<Rightarrow> int \<Rightarrow> int multiset \<Rightarrow> bool" where
  "conserved pint pfloat M \<longleftrightarrow>
     M = mset_set {0..<pint + pfloat} \<or> M = mset_set ({0..<pint + pfloat} - {pint + 31})"

definition run_inv :: "nat \<Rightarrow> int \<Rightarrow> int \<Rightarrow> rename_run_state \<Rightarrow> bool" where
  "run_inv T pint pfloat = (\<lambda>(s, fs). rr_wf pint pfloat s \<and> length (renameMap s) = T \<and> length fs = T \<and>
     conserved pint pfloat (all_regs s) \<and>
     (\<forall>t < T. historyBuffer s ! t = all_entries (fs ! t) \<and> inflight_ok (phys_of (renameMap s ! t)) (fs ! t)))"

lemma conserved_drop:
  assumes "conserved pint pfloat (M + filter_mset (\<lambda>p. p = pint + 31) P)" "0 \<le> pint" "31 < pfloat"
  shows "conserved pint pfloat M"
proof -
  let ?z = "pint + 31" and ?D = "filter_mset (\<lambda>p. p = pint + 31) P"
  have full: "mset_set {0..<pint + pfloat} = add_mset ?z (mset_set ({0..<pint + pfloat} - {?z}))"
    using assms(2,3) by (simp add: mset_set.remove)
  have D: "?D = replicate_mset (count P ?z) ?z" by (simp add: filter_eq_replicate_mset)
  have "count (M + ?D) ?z \<le> 1"
    using assms(1) unfolding conserved_def by (elim disjE ssubst) (simp_all add: count_mset_set')
  then have "count M ?z + count P ?z \<le> 1" by simp
  then consider "count P ?z = 0" | "count P ?z = 1" "count M ?z = 0" by linarith
  then show ?thesis
  proof cases
    case 1
    then show ?thesis using assms(1) D by simp
  next
    case 2
    then have M: "conserved pint pfloat (add_mset ?z M)" using assms(1) D by simp
    have "add_mset ?z M \<noteq> mset_set ({0..<pint + pfloat} - {?z})"
    proof
      assume eq: "add_mset ?z M = mset_set ({0..<pint + pfloat} - {?z})"
      have "?z \<in># add_mset ?z M" by simp
      then show False unfolding eq by simp
    qed
    then have "add_mset ?z M = add_mset ?z (mset_set ({0..<pint + pfloat} - {?z}))"
      using M full by (simp add: conserved_def)
    then show ?thesis by (simp add: conserved_def)
  qed
qed

text \<open>The steps keep the invariant and never fail.\<close>

lemma run_inv_parts:
  assumes "run_inv T pint pfloat (s, fs)" "tid < T"
  shows "rr_wf pint pfloat s" "length (renameMap s) = T" "length fs = T" "conserved pint pfloat (all_regs s)"
    "historyBuffer s ! tid = all_entries (fs ! tid)" "inflight_ok (phys_of (renameMap s ! tid)) (fs ! tid)"
    "tid < length (renameMap s)" "length (historyBuffer s) = T"
  using assms rr_wf_thread(5) [of pint pfloat s tid] by (auto simp: run_inv_def)

lemma run_inv_put:
  assumes "run_inv T pint pfloat (s, fs)" "tid < T" "rr_wf pint pfloat (put_thread tid fl sb m h s)"
    and "conserved pint pfloat (all_regs (put_thread tid fl sb m h s))"
    and "h = all_entries is" "inflight_ok (phys_of m) is"
  shows "run_inv T pint pfloat (put_thread tid fl sb m h s, fs[tid := is])"
  using assms run_inv_parts(8) [OF assms(1,2)] by (auto simp: run_inv_def nth_list_update)

text \<open>A rename either finds too few registers or pushes the entries of the instruction.\<close>

definition pushes :: "nat \<Rightarrow> rename_run_state \<Rightarrow> DynInst \<Rightarrow> rename_run_state \<Rightarrow> bool" where
  "pushes tid = (\<lambda>(s, fs) i' (s', fs'). fs' = fs[tid := i' # fs ! tid] \<and>
     (\<exists>fl sb m. s' = put_thread tid fl sb m (inst_entries i' @ historyBuffer s ! tid) s \<and>
        undo (phys_of m) (inst_entries i') = phys_of (renameMap s ! tid)) \<and> all_regs s' = all_regs s \<and>
     numFreeEntries (rr_freeList s) - int (length (si_destRegs i')) \<le> numFreeEntries (rr_freeList s'))"

lemma rename_step_cases:
  assumes "run_inv T pint pfloat (s, fs)" "op_ok (Rename i) fs"
  shows "numFreeEntries (rr_freeList s) < int (length (si_destRegs i)) \<and>
      rename_step (Rename i) (s, fs) = Inr (s, fs) \<or>
    (\<exists>i' s' fs'. rename_step (Rename i) (s, fs) = Inr (s', fs') \<and> run_inv T pint pfloat (s', fs') \<and>
       seqNum i' = seqNum i \<and> si_srcRegs i' = si_srcRegs i \<and> si_destRegs i' = si_destRegs i \<and>
       pushes (threadNumber i) (s, fs) i' (s', fs'))"
proof -
  let ?tid = "threadNumber i"
  have tid: "?tid < T" using assms by (simp add: run_inv_def)
  note p = run_inv_parts [OF assms(1) tid]
  have op: "operands_ok i" "31 \<in> set (si_destRegs i) \<longrightarrow> ?tid = 0" "\<forall>j \<in> set (fs ! ?tid). seqNum j < seqNum i"
    using assms(2) by simp_all
  have "\<forall>e \<in> set (historyBuffer s ! ?tid). instSeqNum e \<le> seqNum i"
    using op(3) inst_entries_seq unfolding p(5) by fastforce
  note ren = rename_inst_ok [OF p(1) p(7) op(1,2) this]
  show ?thesis
  proof (cases "numFreeEntries (rr_freeList s) < int (length (si_destRegs i))")
    case True
    then show ?thesis using ren assms(1) by simp
  next
    case False
    then obtain i' s' where r: "rename_inst i s = Inr (Some (i', s'))" "inst_renamed i s i' s'"
      "rr_wf pint pfloat s'" "all_regs s' = all_regs s" using ren by auto
    obtain fl sb m where s': "s' = put_thread ?tid fl sb m (inst_entries i' @ historyBuffer s ! ?tid) s"
      "undo (phys_of m) (inst_entries i') = phys_of (renameMap s ! ?tid)"
      using r(2) unfolding inst_renamed_def by blast
    have "inflight_ok (phys_of m) (i' # fs ! ?tid)"
      using r(2) op(3) p(6) unfolding inst_renamed_def by (simp add: s'(2))
    moreover have "inst_entries i' @ historyBuffer s ! ?tid = all_entries (i' # fs ! ?tid)"
      using p(5) by simp
    ultimately have "run_inv T pint pfloat (s', fs[?tid := i' # fs ! ?tid])"
      unfolding s'(1) using r(3,4) p(4) unfolding s'(1) by (intro run_inv_put [OF assms(1) tid]) simp_all
    moreover have "pushes ?tid (s, fs) i' (s', fs[?tid := i' # fs ! ?tid])"
      using s' r(2,4) unfolding pushes_def prod.case inst_renamed_def by (intro conjI) (simp, blast, simp, simp)
    ultimately show ?thesis using r(1,2) by (auto simp: inst_renamed_def)
  qed
qed

lemma rename_step_inv:
  assumes "run_inv T pint pfloat (s, fs)" "op_ok (Rename i) fs"
  shows "\<exists>r. rename_step (Rename i) (s, fs) = Inr r \<and> run_inv T pint pfloat r"
  using rename_step_cases [OF assms] assms(1) by blast

lemma squash_step_inv:
  assumes "run_inv T pint pfloat (s, fs)" "op_ok (Squash tid n) fs"
  shows "\<exists>r. rename_step (Squash tid n) (s, fs) = Inr r \<and> run_inv T pint pfloat r"
proof -
  have tid: "tid < T" using assms by (simp add: run_inv_def)
  note p = run_inv_parts [OF assms(1) tid]
  note sp = inflight_split [OF p(6), of n, folded p(5)]
  obtain m' fl' sb' where s': "doSquash n tid s = Inr (put_thread tid fl' sb' m' (older n (historyBuffer s ! tid)) s)"
    "rr_wf pint pfloat (put_thread tid fl' sb' m' (older n (historyBuffer s ! tid)) s)"
    "phys_of m' = undo (phys_of (renameMap s ! tid)) (younger n (historyBuffer s ! tid))"
    "all_regs (put_thread tid fl' sb' m' (older n (historyBuffer s ! tid)) s) = all_regs s"
    using doSquash_ok [OF p(1,7), of n] by blast
  have "inflight_ok (phys_of m') (dropWhile (\<lambda>i. n < seqNum i) (fs ! tid))"
    using p(6) takeWhile_dropWhile_id [of "\<lambda>i. n < seqNum i" "fs ! tid"] inflight_ok_append
    unfolding s'(3) sp(1) by metis
  then have "run_inv T pint pfloat (put_thread tid fl' sb' m' (older n (historyBuffer s ! tid)) s,
      fs[tid := filter (\<lambda>i. seqNum i \<le> n) (fs ! tid)])"
    using s'(2,4) p(4) unfolding sp(4) by (intro run_inv_put [OF assms(1) tid]) (simp_all add: sp(2))
  then show ?thesis using s'(1) by simp
qed

lemma commit_step_inv:
  assumes "run_inv T pint pfloat (s, fs)" "op_ok (Commit tid n) fs"
  shows "\<exists>r. rename_step (Commit tid n) (s, fs) = Inr r \<and> run_inv T pint pfloat r"
proof -
  have tid: "tid < T" using assms by (simp add: run_inv_def)
  note p = run_inv_parts [OF assms(1) tid]
  note sp = inflight_split [OF p(6), of n, folded p(5)]
  let ?h = "historyBuffer s ! tid" and ?m = "renameMap s ! tid"
  obtain fl' where s': "removeFromHistory n tid s = Inr (put_thread tid fl' (scoreboard s) ?m (younger n ?h) s)"
    "rr_wf pint pfloat (put_thread tid fl' (scoreboard s) ?m (younger n ?h) s)"
    "all_regs (put_thread tid fl' (scoreboard s) ?m (younger n ?h) s) +
      filter_mset (\<lambda>p. p = pint + 31) (prev_regs (older n ?h)) = all_regs s"
    using removeFromHistory_ok [OF p(1,7), of n] by blast
  have "o3_geometry pint pfloat" using p(1) by (simp add: rr_wf_def)
  then have "0 \<le> pint" "31 < pfloat" by (simp_all add: o3_geometry_def)
  then have "conserved pint pfloat (all_regs (put_thread tid fl' (scoreboard s) ?m (younger n ?h) s))"
    using conserved_drop p(4) unfolding s'(3) [symmetric] by blast
  moreover have "inflight_ok (phys_of ?m) (takeWhile (\<lambda>i. n < seqNum i) (fs ! tid))"
    using p(6) takeWhile_dropWhile_id [of "\<lambda>i. n < seqNum i" "fs ! tid"] inflight_ok_append by metis
  ultimately have "run_inv T pint pfloat (put_thread tid fl' (scoreboard s) ?m (younger n ?h) s,
      fs[tid := filter (\<lambda>i. n < seqNum i) (fs ! tid)])"
    using s'(2) unfolding sp(3) by (intro run_inv_put [OF assms(1) tid]) (simp_all add: sp(1))
  then show ?thesis using s'(1) by simp
qed

lemma step_inv:
  assumes "run_inv T pint pfloat (s, fs)" "op_ok op fs"
  shows "\<exists>r. rename_step op (s, fs) = Inr r \<and> run_inv T pint pfloat r"
proof (cases op)
  case (Rename i)
  then show ?thesis using assms rename_step_inv by metis
next
  case (Squash tid n)
  then show ?thesis using assms squash_step_inv by metis
next
  case (Commit tid n)
  then show ?thesis using assms commit_step_inv by metis
qed

lemma reachable_inv:
  assumes "o3_params T active pint pfloat" "rename_reachable T active pint pfloat r"
  shows "run_inv T pint pfloat r"
  using assms(2)
proof (induction rule: rename_reachable.induct)
  case (start s)
  have "o3_geometry pint pfloat" using assms(1) by (auto simp: o3_params_def o3_geometry_def)
  then obtain s' where s': "O3_regs_ctor T active pint pfloat = Inr s'" "rr_wf pint pfloat s'"
    "length (renameMap s') = T" "historyBuffer s' = replicate T []" "all_regs s' = mset_set {0..<pint + pfloat}"
    using O3_regs_ctor_ok [of pint pfloat T active] assms(1) unfolding o3_params_def by blast
  then show ?case using start by (simp add: run_inv_def conserved_def)
next
  case (step s fs op r)
  then show ?case using step_inv by fastforce
qed

section \<open>Consequences of the invariant\<close>

text \<open>A register is free or held, and held once.\<close>

lemma conserved_once: "conserved pint pfloat M \<Longrightarrow> count M p \<le> 1"
  unfolding conserved_def by (auto simp: count_mset_set')

lemma held_not_free:
  assumes "run_inv T pint pfloat (s, fs)" "p \<in># held_regs s"
  shows "p \<notin> set (freeIntRegs (rr_freeList s)) \<union> set (freeFloatRegs (rr_freeList s))"
proof -
  have "count (all_regs s) p \<le> 1" using conserved_once assms(1) by (auto simp: run_inv_def)
  moreover have "0 < count (held_regs s) p" using assms(2) by simp
  ultimately have "count (free_regs (rr_freeList s)) p = 0"
    unfolding all_regs_def count_union by linarith
  then show ?thesis by (auto simp: free_regs_def count_eq_zero_iff)
qed

lemma thread_held:
  assumes "run_inv T pint pfloat (s, fs)" "t < T"
  shows "regs_of (phys_of (renameMap s ! t)) + prev_regs (historyBuffer s ! t) \<subseteq># held_regs s"
proof -
  note p = run_inv_parts [OF assms]
  have "regs_of (phys_of (renameMap s ! t)) \<subseteq># (\<Sum>m\<leftarrow>renameMap s. regs_of (phys_of m))"
    by (rule sum_list_nth_subset [OF p(7)])
  moreover have "prev_regs (historyBuffer s ! t) \<subseteq># (\<Sum>h\<leftarrow>historyBuffer s. prev_regs h)"
    by (rule sum_list_nth_subset) (use p(8) assms(2) in simp)
  ultimately show ?thesis unfolding held_regs_def by (rule subset_mset.add_mono)
qed

lemma not_renamed_not_free:
  assumes "fl_wf pint pfloat fl" "o3_geometry pint pfloat" "kind_ok pint pfloat r p" "0 \<le> r" "\<not> renamed r" "r = 31 \<longrightarrow> p = 31"
  shows "p \<notin> set (freeIntRegs fl) \<union> set (freeFloatRegs fl)"
proof -
  consider "p = 31" | "pint + pfloat \<le> p"
    using assms(3-6) unfolding renamed_def kind_ok_def by (cases "r < 72") auto
  then show ?thesis
    using assms(1,2) unfolding fl_wf_def o3_geometry_def by cases fastforce+
qed

lemma undo_kind:
  assumes "hist_ok pint pfloat f h" "\<And>r. 0 \<le> r \<Longrightarrow> kind_ok pint pfloat r (f r)" "0 \<le> r"
  shows "kind_ok pint pfloat r (undo f h r)"
  using assms
proof (induction h arbitrary: f)
  case (Cons e es)
  have e: "kind_ok pint pfloat (archReg e) (prevPhysReg e)"
    using Cons.prems(1) unfolding hist_ok.simps entry_ok_def by blast
  have "hist_ok pint pfloat (f(archReg e := prevPhysReg e)) es" using Cons.prems(1) by simp
  moreover have "kind_ok pint pfloat q ((f(archReg e := prevPhysReg e)) q)" if "0 \<le> q" for q
    using e Cons.prems(2) [OF that] by simp
  ultimately show ?case unfolding undo.simps using Cons.IH Cons.prems(3) by blast
qed simp

lemma regs_of_mem: "0 \<le> r \<Longrightarrow> r < 72 \<Longrightarrow> f r \<in># regs_of f"
  by (simp add: regs_of_def)

text \<open>The map at any point of the history uses registers that are held.\<close>

lemma undo_held:
  assumes "run_inv T pint pfloat (s, fs)" "t < T" "historyBuffer s ! t = h1 @ h2" "0 \<le> r" "r < 72"
  shows "undo (phys_of (renameMap s ! t)) h1 r \<in># held_regs s"
proof -
  note p = run_inv_parts [OF assms(1,2)]
  have "hist_ok pint pfloat (phys_of (renameMap s ! t)) h1"
    using rr_wf_thread(7) [OF p(1,7)] unfolding assms(3) by simp
  note x = history_exchange [OF this]
  have "undo (phys_of (renameMap s ! t)) h1 r \<in># regs_of (phys_of (renameMap s ! t)) + prev_regs h1"
    unfolding x [symmetric] using regs_of_mem [OF assms(4,5)] by simp
  then show ?thesis using thread_held [OF assms(1,2)] unfolding assms(3) by (auto dest: mset_subset_eqD)
qed

lemma inflight_nth:
  assumes "inflight_ok f is" "i \<in> set is"
  obtains js ks where "is = js @ i # ks" "operands_ok i" "flatDestRegIdx i = si_destRegs i"
    "srcRegIdx i = map (undo f (all_entries (js @ [i]))) (si_srcRegs i)"
    "\<forall>k \<in> set ks. seqNum k < seqNum i" "\<forall>j \<in> set js. seqNum i < seqNum j"
proof -
  obtain js ks where "is = js @ i # ks" using split_list [OF assms(2)] by blast
  then show thesis using that assms(1) by (simp add: inflight_ok_append)
qed

lemma inflight_sources_held:
  assumes "run_inv T pint pfloat (s, fs)" "t < T" "i \<in> set (fs ! t)" "p \<in> set (srcRegIdx i)"
  shows "p \<notin> set (freeIntRegs (rr_freeList s)) \<union> set (freeFloatRegs (rr_freeList s))"
proof -
  note q = run_inv_parts [OF assms(1,2)]
  note w = rr_wf_thread [OF q(1,7)]
  obtain js ks where sp: "fs ! t = js @ i # ks" "operands_ok i"
    "srcRegIdx i = map (undo (phys_of (renameMap s ! t)) (all_entries (js @ [i]))) (si_srcRegs i)"
    by (rule inflight_nth [OF q(6) assms(3)])
  let ?h = "all_entries (js @ [i])"
  have h: "historyBuffer s ! t = ?h @ all_entries ks" using q(5) sp(1) by simp
  obtain r where r: "r \<in> set (si_srcRegs i)" "p = undo (phys_of (renameMap s ! t)) ?h r"
    using assms(4) unfolding sp(3) by auto
  then have r0: "0 \<le> r" using sp(2) by (auto simp: operands_ok_def)
  show ?thesis
  proof (cases "r < 72")
    case True
    then show ?thesis using held_not_free [OF assms(1) undo_held [OF assms(1,2) h r0]] r(2) by simp
  next
    case False
    have "kind_ok pint pfloat r p"
      unfolding r(2) using w(7) unfolding h hist_ok_append
      by (intro undo_kind phys_of_kind [OF w(6)] r0) blast
    then show ?thesis
      using False r0 by (intro not_renamed_not_free [OF w(2,1)]) (auto simp: renamed_def)
  qed
qed

lemma inflight_dests_held:
  assumes "run_inv T pint pfloat (s, fs)" "t < T" "i \<in> set (fs ! t)" "p \<in> set (destRegIdx i)"
  shows "p \<notin> set (freeIntRegs (rr_freeList s)) \<union> set (freeFloatRegs (rr_freeList s))"
proof -
  note q = run_inv_parts [OF assms(1,2)]
  note w = rr_wf_thread [OF q(1,7)]
  obtain js ks where sp: "fs ! t = js @ i # ks" "operands_ok i" "flatDestRegIdx i = si_destRegs i"
    by (rule inflight_nth [OF q(6) assms(3)])
  obtain k where k: "k < length (si_destRegs i)" "p = destRegIdx i ! k"
    using assms(4) sp(2) by (auto simp: operands_ok_def in_set_conv_nth)
  let ?e = "entry_at i k" and ?h = "historyBuffer s ! t"
  have newp: "newPhysReg ?e = p" using k(2) by (simp add: entry_at_def)
  have e: "?e \<in> set ?h" using k(1) unfolding q(5) sp(1) by (auto simp: inst_entries_def entries_upto_def)
  then obtain f where "entry_ok pint pfloat f ?e" using hist_ok_entries [OF w(7)] by blast
  then have k2: "0 \<le> archReg ?e" "kind_ok pint pfloat (archReg ?e) p" "archReg ?e = 31 \<longrightarrow> p = 31"
    unfolding entry_ok_def newp by blast+
  show ?thesis
  proof (cases "renamed (archReg ?e)")
    case True
    then have "p \<in># new_regs ?h" using e k(2) by (force simp: new_regs_def entry_at_def)
    then have "p \<in># regs_of (phys_of (renameMap s ! t)) + prev_regs ?h"
      unfolding history_exchange [OF w(7), symmetric] by simp
    then show ?thesis using held_not_free [OF assms(1)] thread_held [OF assms(1,2)] mset_subset_eqD by fast
  qed (rule not_renamed_not_free [OF w(2,1) k2(2,1) _ k2(3)])
qed

text \<open>No two destinations of instructions in flight, of any threads, share a register.\<close>

lemma sum_list_mono_mset:
  "length xs = length ys \<Longrightarrow> (\<And>k. k < length xs \<Longrightarrow> f (xs ! k) \<subseteq># g (ys ! k)) \<Longrightarrow>
     (\<Sum>x\<leftarrow>xs. f x) \<subseteq># (\<Sum>y\<leftarrow>ys. g y)"
proof (induction xs ys rule: list_induct2)
  case (Cons x xs y ys)
  have "f x \<subseteq># g y" using Cons.prems [of 0] by simp
  moreover have "(\<Sum>x\<leftarrow>xs. f x) \<subseteq># (\<Sum>y\<leftarrow>ys. g y)" using Cons.IH Cons.prems [of "Suc _"] by simp
  ultimately show ?case by (simp add: subset_mset.add_mono)
qed simp

lemma distinct_if_count:
  assumes "\<And>x. count (mset xs) x \<le> 1"
  shows "distinct xs"
proof -
  have "count (mset xs) x = (if x \<in> set xs then 1 else 0)" for x
  proof (cases "x \<in> set xs")
    case True
    then have "0 < count (mset xs) x" by simp
    then have "count (mset xs) x = 1" using assms [of x] by linarith
    then show ?thesis using True by simp
  qed (simp add: count_eq_zero_iff)
  then show ?thesis by (simp add: distinct_count_atmost_1)
qed

text \<open>
  The registers allocated for destinations of instructions. Destinations that are not renamed have no
  register of their own and are not among them: all miscellaneous registers and the integer zero
  register, of which every write in flight has the same index.
\<close>

definition written_regs :: "DynInst list \<Rightarrow> int list" where
  "written_regs is = map newPhysReg (real_entries (all_entries is))"

lemma inflight_dests_distinct:
  assumes "run_inv T pint pfloat (s, fs)"
  shows "distinct (concat (map written_regs fs))"
proof -
  let ?ts = "[0..<T]"
  have T: "length (renameMap s) = T" "length (historyBuffer s) = T" "length fs = T" "conserved pint pfloat (all_regs s)"
    using assms by (auto simp: run_inv_def rr_wf_def)
  have "mset (concat (map written_regs fs)) = (\<Sum>t\<leftarrow>?ts. mset (written_regs (fs ! t)))"
    using T(3) map_nth [of fs] by (simp add: mset_concat comp_def) (metis (no_types, lifting) map_map comp_def map_eq_conv)
  also have "\<dots> \<subseteq># (\<Sum>t\<leftarrow>?ts. regs_of (phys_of (renameMap s ! t)) + prev_regs (historyBuffer s ! t))"
  proof (rule sum_list_mono_mset)
    fix k assume "k < length ?ts"
    then have k: "k < T" by simp
    note q = run_inv_parts [OF assms k]
    have "mset (written_regs (fs ! k)) = new_regs (historyBuffer s ! k)"
      unfolding q(5) by (simp add: written_regs_def new_regs_def)
    also have "\<dots> \<subseteq># regs_of (phys_of (renameMap s ! k)) + prev_regs (historyBuffer s ! k)"
      unfolding history_exchange [OF rr_wf_thread(7) [OF q(1,7)], symmetric] by simp
    finally show "mset (written_regs (fs ! (?ts ! k))) \<subseteq>#
        regs_of (phys_of (renameMap s ! (?ts ! k))) + prev_regs (historyBuffer s ! (?ts ! k))" using k by simp
  qed simp
  also have "\<dots> = held_regs s"
  proof -
    have "map (\<lambda>t. regs_of (phys_of (renameMap s ! t))) ?ts = map (\<lambda>m. regs_of (phys_of m)) (renameMap s)"
      "map (\<lambda>t. prev_regs (historyBuffer s ! t)) ?ts = map prev_regs (historyBuffer s)"
      using T by (auto intro: nth_equalityI)
    then show ?thesis by (simp add: held_regs_def sum_list_addf)
  qed
  finally have "mset (concat (map written_regs fs)) \<subseteq># all_regs s"
    unfolding all_regs_def by (rule subset_mset.order_trans) simp
  then have "count (mset (concat (map written_regs fs))) p \<le> 1" for p
    using conserved_once [OF T(4), of p] mset_subset_eq_count order_trans by metis
  then show ?thesis by (rule distinct_if_count)
qed

text \<open>The register of a source is that of the last older writer of its operand.\<close>

lemma producer_or_base:
  "hist_ok pint pfloat g h \<Longrightarrow>
   g r = (case find (\<lambda>e. archReg e = r) h of Some e \<Rightarrow> newPhysReg e | None \<Rightarrow> undo g h r)"
proof (induction h arbitrary: g)
  case (Cons e es)
  have new: "newPhysReg e = g (archReg e)" using Cons.prems unfolding hist_ok.simps entry_ok_def by blast
  have es: "hist_ok pint pfloat (g(archReg e := prevPhysReg e)) es" using Cons.prems by simp
  show ?case
  proof (cases "archReg e = r")
    case False
    then show ?thesis using Cons.IH [OF es] unfolding undo.simps by simp
  qed (use new in simp)
qed simp

lemma inflight_older:
  assumes "fs = js @ i # ks" "\<forall>k \<in> set ks. seqNum k < seqNum i" "\<forall>j \<in> set js. seqNum i < seqNum j"
  shows "filter (\<lambda>e. instSeqNum e < seqNum i) (all_entries fs) = all_entries ks"
proof -
  have "filter (\<lambda>e. instSeqNum e < seqNum i) (all_entries js) = []"
    using assms(3) by (auto simp: filter_empty_conv dest!: inst_entries_seq)
  moreover have "filter (\<lambda>e. instSeqNum e < seqNum i) (inst_entries i) = []"
    by (auto simp: filter_empty_conv dest: inst_entries_seq)
  moreover have "filter (\<lambda>e. instSeqNum e < seqNum i) (all_entries ks) = all_entries ks"
    using assms(2) by (auto simp: filter_id_conv dest!: inst_entries_seq)
  ultimately show ?thesis unfolding assms(1) by simp
qed

lemma inflight_source_producer:
  assumes "run_inv T pint pfloat (s, fs)" "t < T" "i \<in> set (fs ! t)" "k < length (si_srcRegs i)"
  shows "srcRegIdx i ! k =
    (case find (\<lambda>e. archReg e = si_srcRegs i ! k) (filter (\<lambda>e. instSeqNum e < seqNum i) (historyBuffer s ! t)) of
       Some e \<Rightarrow> newPhysReg e
     | None \<Rightarrow> undo (phys_of (renameMap s ! t)) (historyBuffer s ! t) (si_srcRegs i ! k))"
proof -
  note q = run_inv_parts [OF assms(1,2)]
  obtain js ks where sp: "fs ! t = js @ i # ks"
    "srcRegIdx i = map (undo (phys_of (renameMap s ! t)) (all_entries (js @ [i]))) (si_srcRegs i)"
    "\<forall>k \<in> set ks. seqNum k < seqNum i" "\<forall>j \<in> set js. seqNum i < seqNum j"
    by (rule inflight_nth [OF q(6) assms(3)])
  have h: "historyBuffer s ! t = all_entries (js @ [i]) @ all_entries ks" using q(5) sp(1) by simp
  have "hist_ok pint pfloat (undo (phys_of (renameMap s ! t)) (all_entries (js @ [i]))) (all_entries ks)"
    using rr_wf_thread(7) [OF q(1,7)] unfolding h hist_ok_append by blast
  note pr = producer_or_base [OF this, of "si_srcRegs i ! k"]
  have "filter (\<lambda>e. instSeqNum e < seqNum i) (historyBuffer s ! t) = all_entries ks"
    using inflight_older [OF sp(1,3,4)] q(5) by simp
  then show ?thesis using pr assms(4) unfolding sp(2) h undo_append by simp
qed

section \<open>Squashing what has just been renamed\<close>

definition rename_ok_list :: "nat \<Rightarrow> nat \<Rightarrow> DynInst list \<Rightarrow> bool" where
  "rename_ok_list tid n is \<longleftrightarrow> sorted_wrt (\<lambda>i j. seqNum i < seqNum j) is \<and>
     (\<forall>i \<in> set is. threadNumber i = tid \<and> n < seqNum i \<and> operands_ok i \<and>
        (31 \<in> set (si_destRegs i) \<longrightarrow> tid = 0))"

lemma rename_list_ok:
  assumes "run_inv T pint pfloat (s, fs)" "tid < T" "rename_ok_list tid n is"
    and "\<forall>j \<in> set (fs ! tid). \<forall>i \<in> set is. seqNum j < seqNum i"
  shows "\<exists>fl sb m es js. foldE rename_step (map Rename is) (s, fs) =
      Inr (put_thread tid fl sb m (es @ historyBuffer s ! tid) s, fs[tid := js @ fs ! tid]) \<and>
    (\<forall>e \<in> set es. n < instSeqNum e) \<and> (\<forall>j \<in> set js. n < seqNum j) \<and>
    undo (phys_of m) es = phys_of (renameMap s ! tid) \<and>
    rr_wf pint pfloat (put_thread tid fl sb m (es @ historyBuffer s ! tid) s) \<and>
    all_regs (put_thread tid fl sb m (es @ historyBuffer s ! tid) s) = all_regs s"
  using assms
proof (induction "is" arbitrary: s fs)
  case Nil
  have "s = put_thread tid (rr_freeList s) (scoreboard s) (renameMap s ! tid) (historyBuffer s ! tid) s"
    by (simp add: put_thread_def)
  then show ?case
    using run_inv_parts(1) [OF Nil(1,2)]
    by (intro exI [of _ "rr_freeList s"] exI [of _ "scoreboard s"] exI [of _ "renameMap s ! tid"]
        exI [of _ "[]"] exI [of _ "[]"]) simp
next
  case (Cons i "is")
  have i: "threadNumber i = tid" "operands_ok i" "31 \<in> set (si_destRegs i) \<longrightarrow> tid = 0" "n < seqNum i"
    "\<forall>j \<in> set is. seqNum i < seqNum j" and "is": "rename_ok_list tid n is"
    using Cons.prems(3) by (auto simp: rename_ok_list_def)
  have "op_ok (Rename i) fs" using i Cons.prems(1,2,4) by (simp add: run_inv_def)
  then consider (stay) "rename_step (Rename i) (s, fs) = Inr (s, fs)"
    | (push) i' s' fs' where "rename_step (Rename i) (s, fs) = Inr (s', fs')" "run_inv T pint pfloat (s', fs')"
        "seqNum i' = seqNum i" "pushes tid (s, fs) i' (s', fs')"
    using rename_step_cases [OF Cons.prems(1)] i(1) by blast
  then show ?case
  proof cases
    case stay
    then show ?thesis using Cons.IH [OF Cons.prems(1,2) "is"] Cons.prems(4) by simp
  next
    case push
    obtain fl sb m where s': "s' = put_thread tid fl sb m (inst_entries i' @ historyBuffer s ! tid) s"
      "undo (phys_of m) (inst_entries i') = phys_of (renameMap s ! tid)"
      and fs': "fs' = fs[tid := i' # fs ! tid]" and all: "all_regs s' = all_regs s"
      using push(4) unfolding pushes_def prod.case by blast
    have l: "tid < length (historyBuffer s)" "tid < length (renameMap s)" "tid < length fs"
      using run_inv_parts(2,3,8) [OF Cons.prems(1,2)] Cons.prems(2) by simp_all
    have at: "historyBuffer s' ! tid = inst_entries i' @ historyBuffer s ! tid" "renameMap s' ! tid = m"
      "fs' ! tid = i' # fs ! tid" using s'(1) fs' l by simp_all
    have "\<forall>j \<in> set (fs' ! tid). \<forall>i \<in> set is. seqNum j < seqNum i"
      using Cons.prems(4) i(5) push(3) at(3) by auto
    then obtain fl2 sb2 m2 es js where r: "foldE rename_step (map Rename is) (s', fs') =
        Inr (put_thread tid fl2 sb2 m2 (es @ historyBuffer s' ! tid) s', fs'[tid := js @ fs' ! tid])"
      "\<forall>e \<in> set es. n < instSeqNum e" "\<forall>j \<in> set js. n < seqNum j" "undo (phys_of m2) es = phys_of (renameMap s' ! tid)"
      "rr_wf pint pfloat (put_thread tid fl2 sb2 m2 (es @ historyBuffer s' ! tid) s')"
      "all_regs (put_thread tid fl2 sb2 m2 (es @ historyBuffer s' ! tid) s') = all_regs s'"
      using Cons.IH [OF push(2) Cons.prems(2) "is"] by blast
    have eq: "put_thread tid fl2 sb2 m2 (es @ historyBuffer s' ! tid) s' =
        put_thread tid fl2 sb2 m2 ((es @ inst_entries i') @ historyBuffer s ! tid) s"
      "fs'[tid := js @ fs' ! tid] = fs[tid := (js @ [i']) @ fs ! tid]"
      using at unfolding s'(1) fs' by (simp_all add: put_thread_def)
    have "\<forall>e \<in> set (es @ inst_entries i'). n < instSeqNum e"
      using r(2) i(4) push(3) inst_entries_seq [of _ i'] by auto
    moreover have "\<forall>j \<in> set (js @ [i']). n < seqNum j" using r(3) i(4) push(3) by simp
    moreover have "undo (phys_of m2) (es @ inst_entries i') = phys_of (renameMap s ! tid)"
      using r(4) s'(2) at(2) by simp
    ultimately show ?thesis
      using r push(1) all unfolding eq
      by (intro exI [of _ fl2] exI [of _ sb2] exI [of _ m2] exI [of _ "es @ inst_entries i'"] exI [of _ "js @ [i']"]) simp
  qed
qed

section \<open>A concrete run\<close>

definition demo_inst :: "nat \<Rightarrow> nat \<Rightarrow> int list \<Rightarrow> int list \<Rightarrow> DynInst" where
  "demo_inst n tid srcs dests = \<lparr>seqNum = n, threadNumber = tid, si_srcRegs = srcs, si_destRegs = dests,
     si_iprAccess = False, si_serializeBefore = False, si_serializeAfter = False, si_storeConditional = False,
     flatDestRegIdx = dests, destRegIdx = dests, srcRegIdx = srcs, prevDestRegIdx = dests,
     readySrcRegIdx = replicate (length srcs) False, readyRegs = 0, canIssue = False,
     st_serializeBefore = False, st_serializeAfter = False, st_serializeHandled = False, st_squashed = False\<rparr>"

lemma demo_inst_ok:
  "(\<forall>r \<in> set srcs \<union> set dests. 0 \<le> r \<and> r < 72 + NumMiscRegs) \<Longrightarrow> operands_ok (demo_inst n tid srcs dests)"
  by (simp add: operands_ok_def demo_inst_def)

lemma demo_params: "o3_params 1 1 64 64"
  by (simp add: o3_params_def)

text \<open>The first instruction writes register 3, the second reads and writes it.\<close>

lemma demo_push:
  assumes "rename_reachable 1 1 64 64 (s, [is])" "operands_ok i" "threadNumber i = 0"
    and "\<forall>j \<in> set is. seqNum j < seqNum i" "int (length (si_destRegs i)) \<le> numFreeEntries (rr_freeList s)"
  shows "\<exists>i' s'. rename_reachable 1 1 64 64 (s', [i' # is]) \<and> seqNum i' = seqNum i \<and>
    si_srcRegs i' = si_srcRegs i \<and> si_destRegs i' = si_destRegs i \<and>
    numFreeEntries (rr_freeList s) - int (length (si_destRegs i)) \<le> numFreeEntries (rr_freeList s')"
proof -
  have op: "op_ok (Rename i) [is]" using assms by simp
  obtain i' s' fs' where r: "rename_step (Rename i) (s, [is]) = Inr (s', fs')" "seqNum i' = seqNum i"
    "si_srcRegs i' = si_srcRegs i" "si_destRegs i' = si_destRegs i" "pushes (threadNumber i) (s, [is]) i' (s', fs')"
    using rename_step_cases [OF reachable_inv [OF demo_params assms(1)] op] assms(5) by auto
  have "fs' = [i' # is]" "numFreeEntries (rr_freeList s) - int (length (si_destRegs i')) \<le> numFreeEntries (rr_freeList s')"
    using r(5) assms(3) by (simp_all add: pushes_def)
  then show ?thesis using rename_reachable.step [OF assms(1) op r(1)] r(2-4) by auto
qed

lemma demo_run:
  "\<exists>s i1 i2. rename_reachable 1 1 64 64 (s, [[i2, i1]]) \<and> seqNum i1 = 1 \<and> seqNum i2 = 2 \<and>
     si_destRegs i1 = [3] \<and> si_srcRegs i2 = [3] \<and> si_destRegs i2 = [3]"
proof -
  have g: "o3_geometry 64 64" by (simp add: o3_geometry_def)
  obtain s0 where s0: "O3_regs_ctor 1 1 64 64 = Inr s0" "freeIntRegs (rr_freeList s0) = [40 * int 1..64 - 1]"
    "freeFloatRegs (rr_freeList s0) = [64 + 32 * int 1..64 + 64 - 1]"
    using O3_regs_ctor_ok [OF g, of 1 1] by auto
  then have f0: "24 \<le> numFreeEntries (rr_freeList s0)"
    by (simp add: numFreeEntries_def numFreeIntRegs_def numFreeFloatRegs_def)
  have r0: "rename_reachable 1 1 64 64 (s0, [[]])" using rename_reachable.start [OF s0(1)] by simp
  obtain s1 i1 where 1: "rename_reachable 1 1 64 64 (s1, [[i1]])" "seqNum i1 = 1" "si_destRegs i1 = [3]"
    "23 \<le> numFreeEntries (rr_freeList s1)"
    using demo_push [OF r0, of "demo_inst 1 0 [] [3]"] demo_inst_ok [of "[]" "[3]" 1 0] f0
    by (auto simp: demo_inst_def o3_consts)
  obtain s2 i2 where "rename_reachable 1 1 64 64 (s2, [[i2, i1]])" "seqNum i2 = 2" "si_srcRegs i2 = [3]" "si_destRegs i2 = [3]"
    using demo_push [OF 1(1), of "demo_inst 2 0 [3] [3]"] demo_inst_ok [of "[3]" "[3]" 2 0] 1(2,4)
    by (auto simp: demo_inst_def o3_consts)
  then show ?thesis using 1 by blast
qed

section \<open>Properties\<close>

text \<open>
  (C16) A processor is constructed with all its threads active and with enough physical registers for
  the registers of all of them (\<open>o3_params\<close>), then instructions of its threads are renamed, squashed and committed, where
  each renamed instruction has valid operands and is younger than those of its thread in flight, and
  only the first thread writes the integer zero register r31 (\<open>op_ok\<close>). In every state reached every physical
  register is in exactly one place: free, mapped by one thread, or kept for a rename that may be undone. The
  only register that can leave is the floating zero register of the first thread, which is dropped when
  its rename commits. No such operation fails: no panic for lack of registers, no assertion, no access
  outside an array. The condition on r31 is needed, as the
  last theorem of this theory shows.
\<close>

theorem registers_conserved:
  assumes "o3_params T active pint pfloat" "rename_reachable T active pint pfloat (s, fs)"
  shows "(all_regs s = mset_set {0..<pint + pfloat} \<or>
      all_regs s = mset_set ({0..<pint + pfloat} - {pint + 31})) \<and>
    (\<forall>op. op_ok op fs \<longrightarrow> (\<exists>r. rename_step op (s, fs) = Inr r))"
proof -
  have inv: "run_inv T pint pfloat (s, fs)" by (rule reachable_inv [OF assms])
  then have "conserved pint pfloat (all_regs s)" by (simp add: run_inv_def)
  then show ?thesis unfolding conserved_def using step_inv [OF inv] by blast
qed

theorem registers_conserved_witness:
  "\<exists>s i1 i2. rename_reachable 1 1 64 64 (s, [[i2, i1]]) \<and>
    (all_regs s = mset_set {0..<128} \<or> all_regs s = mset_set ({0..<128} - {95})) \<and>
    (\<exists>r. rename_step (Squash 0 1) (s, [[i2, i1]]) = Inr r)"
proof -
  obtain s i1 i2 where r: "rename_reachable 1 1 64 64 (s, [[i2, i1]])" using demo_run by blast
  moreover have "op_ok (Squash 0 1) [[i2, i1]]" by simp
  ultimately show ?thesis using registers_conserved [OF demo_params r] by fastforce
qed

text \<open>
  (C17) Under the conditions of C16 (all threads active, enough registers, r31 written by the first thread
  only): no register that an instruction in flight reads or writes is on the free list, and no two renamed
  destinations of instructions in flight share a register. Miscellaneous registers and r31 are not renamed; their writes
  in flight do share an index and are not part of the second claim (\<open>written_regs\<close>).
\<close>

theorem inflight_registers_safe:
  assumes "o3_params T active pint pfloat" "rename_reachable T active pint pfloat (s, fs)"
  shows "(\<forall>t < T. \<forall>i \<in> set (fs ! t). \<forall>p \<in> set (srcRegIdx i) \<union> set (destRegIdx i).
      p \<notin> set (freeIntRegs (rr_freeList s)) \<and> p \<notin> set (freeFloatRegs (rr_freeList s))) \<and>
    distinct (concat (map written_regs fs))"
proof -
  have inv: "run_inv T pint pfloat (s, fs)" by (rule reachable_inv [OF assms])
  show ?thesis
    using inflight_sources_held [OF inv] inflight_dests_held [OF inv] inflight_dests_distinct [OF inv]
    unfolding Un_iff de_Morgan_disj by blast
qed

theorem inflight_registers_safe_witness:
  "\<exists>s i1 i2. rename_reachable 1 1 64 64 (s, [[i2, i1]]) \<and> si_srcRegs i2 = [3] \<and>
    (\<forall>p \<in> set (srcRegIdx i2). p \<notin> set (freeIntRegs (rr_freeList s))) \<and>
    distinct (written_regs [i2, i1])"
proof -
  obtain s i1 i2 where r: "rename_reachable 1 1 64 64 (s, [[i2, i1]])" "si_srcRegs i2 = [3]" using demo_run by blast
  show ?thesis using inflight_registers_safe [OF demo_params r(1)] r by fastforce
qed

text \<open>
  (C18) Data flow, under the conditions of C16 (all threads active, enough registers, r31 written by the
  first thread only, since another thread would record the index 31 for a write of r31 but go on reading
  its own zero register): a source of an instruction in flight is the register recorded by the youngest
  older instruction in flight of its thread that writes the operand, or, without one, the register that the
  operand had before all renames in flight.
\<close>

theorem sources_name_producers:
  assumes "o3_params T active pint pfloat" "rename_reachable T active pint pfloat (s, fs)"
    and "t < T" "i \<in> set (fs ! t)" "k < length (si_srcRegs i)"
  shows "srcRegIdx i ! k =
    (case find (\<lambda>e. archReg e = si_srcRegs i ! k) (filter (\<lambda>e. instSeqNum e < seqNum i) (historyBuffer s ! t)) of
       Some e \<Rightarrow> newPhysReg e
     | None \<Rightarrow> undo (phys_of (renameMap s ! t)) (historyBuffer s ! t) (si_srcRegs i ! k))"
  by (rule inflight_source_producer [OF reachable_inv [OF assms(1,2)] assms(3-5)])

theorem sources_name_producers_witness:
  "\<exists>s i1 i2. rename_reachable 1 1 64 64 (s, [[i2, i1]]) \<and> si_srcRegs i2 = [3] \<and>
    srcRegIdx i2 ! 0 =
      (case find (\<lambda>e. archReg e = 3) (filter (\<lambda>e. instSeqNum e < 2) (historyBuffer s ! 0)) of
         Some e \<Rightarrow> newPhysReg e | None \<Rightarrow> undo (phys_of (renameMap s ! 0)) (historyBuffer s ! 0) 3)"
proof -
  obtain s i1 i2 where r: "rename_reachable 1 1 64 64 (s, [[i2, i1]])" "si_srcRegs i2 = [3]" "seqNum i2 = 2"
    using demo_run by blast
  have e: "si_srcRegs i2 ! 0 = 3" "i2 \<in> set ([[i2, i1]] ! 0)" "0 < length (si_srcRegs i2)" using r(2) by simp_all
  show ?thesis
    using sources_name_producers [OF demo_params r(1) zero_less_one e(2,3), unfolded e(1) r(3)] r(1,2) by blast
qed

text \<open>
  (C19) Precise recovery: instructions of a thread renamed after sequence number \<open>n\<close> and squashed back
  to \<open>n\<close> leave no trace in the rename maps, the histories and the set of free registers.
\<close>

theorem squash_restores_renames:
  assumes "o3_params T active pint pfloat" "rename_reachable T active pint pfloat (s, fs)"
    and "tid < T" "rename_ok_list tid n is" "\<forall>j \<in> set (fs ! tid). seqNum j \<le> n"
  shows "\<exists>s1 fs1 s2. foldE rename_step (map Rename is) (s, fs) = Inr (s1, fs1) \<and>
    rename_step (Squash tid n) (s1, fs1) = Inr (s2, fs) \<and> historyBuffer s2 = historyBuffer s \<and>
    map phys_of (renameMap s2) = map phys_of (renameMap s) \<and>
    free_regs (rr_freeList s2) = free_regs (rr_freeList s)"
proof -
  have inv: "run_inv T pint pfloat (s, fs)" by (rule reachable_inv [OF assms(1,2)])
  note q = run_inv_parts [OF inv assms(3)]
  have "\<forall>j \<in> set (fs ! tid). \<forall>i \<in> set is. seqNum j < seqNum i"
    using assms(4,5) by (fastforce simp: rename_ok_list_def)
  then obtain fl sb m es js where r: "foldE rename_step (map Rename is) (s, fs) =
      Inr (put_thread tid fl sb m (es @ historyBuffer s ! tid) s, fs[tid := js @ fs ! tid])"
    "\<forall>e \<in> set es. n < instSeqNum e" "\<forall>j \<in> set js. n < seqNum j" "undo (phys_of m) es = phys_of (renameMap s ! tid)"
    "rr_wf pint pfloat (put_thread tid fl sb m (es @ historyBuffer s ! tid) s)"
    "all_regs (put_thread tid fl sb m (es @ historyBuffer s ! tid) s) = all_regs s"
    using rename_list_ok [OF inv assms(3,4)] by blast
  define s1 where "s1 = put_thread tid fl sb m (es @ historyBuffer s ! tid) s"
  have h: "historyBuffer s1 ! tid = es @ historyBuffer s ! tid" "renameMap s1 ! tid = m" "tid < length (renameMap s1)"
    using q(7,8) assms(3) by (simp_all add: s1_def)
  have "\<forall>e \<in> set (historyBuffer s ! tid). \<not> n < instSeqNum e"
    using assms(5) unfolding q(5) by (auto dest!: inst_entries_seq)
  then have yo: "younger n (es @ historyBuffer s ! tid) = es" "older n (es @ historyBuffer s ! tid) = historyBuffer s ! tid"
    using r(2) while_none [of "historyBuffer s ! tid" "\<lambda>e. n < instSeqNum e"]
    by (simp_all add: takeWhile_append2 dropWhile_append2)
  obtain m' fl' sb' where d: "doSquash n tid s1 = Inr (put_thread tid fl' sb' m' (historyBuffer s ! tid) s1)"
    "phys_of m' = phys_of (renameMap s ! tid)"
    "all_regs (put_thread tid fl' sb' m' (historyBuffer s ! tid) s1) = all_regs s1"
    using doSquash_ok [OF r(5) [folded s1_def] h(3), of n] unfolding h yo r(4) by blast
  let ?s2 = "put_thread tid fl' sb' m' (historyBuffer s ! tid) s1"
  have maps: "map phys_of (renameMap ?s2) = map phys_of (renameMap s)" and hist: "historyBuffer ?s2 = historyBuffer s"
    using d(2) by (simp_all add: s1_def map_update) (metis list_update_id map_update)
  have sq: "rename_step (Squash tid n) (s1, fs[tid := js @ fs ! tid]) = Inr (?s2, fs)"
  proof -
    have "filter (\<lambda>i. seqNum i \<le> n) js = []" using r(3) by (fastforce simp: filter_empty_conv)
    moreover have "filter (\<lambda>i. seqNum i \<le> n) (fs ! tid) = fs ! tid" using assms(5) by (simp add: filter_id_conv)
    ultimately show ?thesis using d(1) q(3) assms(3) by simp
  qed
  have "held_regs ?s2 = held_regs s"
    using maps hist unfolding held_regs_def by (metis (no_types, lifting) map_map comp_def map_eq_conv)
  then have "free_regs (rr_freeList ?s2) = free_regs (rr_freeList s)"
    using d(3) r(6) unfolding s1_def [symmetric] by (simp add: all_regs_def)
  then show ?thesis using r(1) sq hist maps unfolding s1_def [symmetric] by blast
qed

theorem squash_restores_renames_witness:
  "\<exists>s i1 i2 s1 fs1 s2. rename_reachable 1 1 64 64 (s, [[i2, i1]]) \<and>
    foldE rename_step [Rename (demo_inst 3 0 [4] [5, 41]), Rename (demo_inst 4 0 [5] [3])] (s, [[i2, i1]]) =
      Inr (s1, fs1) \<and>
    rename_step (Squash 0 2) (s1, fs1) = Inr (s2, [[i2, i1]]) \<and> historyBuffer s2 = historyBuffer s \<and>
    map phys_of (renameMap s2) = map phys_of (renameMap s)"
proof -
  obtain s i1 i2 where r: "rename_reachable 1 1 64 64 (s, [[i2, i1]])" "seqNum i1 = 1" "seqNum i2 = 2"
    using demo_run by blast
  have "operands_ok (demo_inst 3 0 [4] [5, 41])" "operands_ok (demo_inst 4 0 [5] [3])"
    by (rule demo_inst_ok, simp add: o3_consts)+
  then have "rename_ok_list 0 2 [demo_inst 3 0 [4] [5, 41], demo_inst 4 0 [5] [3]]"
    by (simp add: rename_ok_list_def) (simp add: demo_inst_def)
  moreover have "\<forall>j \<in> set ([[i2, i1]] ! 0). seqNum j \<le> 2" using r(2,3) by simp
  ultimately show ?thesis
    using squash_restores_renames [OF demo_params r(1), of 0 2 "[demo_inst 3 0 [4] [5, 41], demo_inst 4 0 [5] [3]]",
        unfolded list.map, OF zero_less_one] r(1) by blast
qed

text \<open>
  (C37) In a processor with several threads a write of the second thread to the integer zero register
  breaks the sharing: when the write commits, the physical register of the zero register of that
  thread is put on the free list although the thread still maps to it.
\<close>

theorem smt_zero_register_freed:
  assumes "o3_params T active pint pfloat" "1 < T" "40 * int T < pint" "32 * int T < pfloat"
    and "O3_regs_ctor T active pint pfloat = Inr s"
    and "threadNumber i = 1" "si_srcRegs i = []" "si_destRegs i = [31]" "operands_ok i"
  shows "\<exists>i' s1 s2. rename_inst i s = Inr (Some (i', s1)) \<and> removeFromHistory (seqNum i) 1 s1 = Inr s2 \<and>
    71 \<in> set (freeIntRegs (rr_freeList s2)) \<and> SimpleRenameMap_lookup 31 (renameMap s2 ! 1) = Inr 71"
proof -
  have g: "o3_geometry pint pfloat" using assms(1) by (auto simp: o3_params_def o3_geometry_def)
  obtain s' where s': "O3_regs_ctor T active pint pfloat = Inr s'" "rr_wf pint pfloat s'"
    "length (renameMap s') = T" "historyBuffer s' = replicate T []" "\<forall>j < T. bound_map pint pfloat j (renameMap s' ! j)"
    "freeIntRegs (rr_freeList s') = [40 * int T..pint - 1]"
    "freeFloatRegs (rr_freeList s') = [pint + 32 * int T..pint + pfloat - 1]"
    using O3_regs_ctor_ok [OF g, of T active] assms(1) unfolding o3_params_def by blast
  then have "s' = s" using assms(5) by simp
  note c = s'(2-7) [unfolded this]
  define m where "m = renameMap s ! 1"
  have b: "bound_map pint pfloat 1 m" using c(4) assms(2) by (simp add: m_def)
  then have w: "map_wf pint pfloat m" by (simp add: bound_map_def)
  have "phys_of m 31 = 40 * int 1 + 31" using b unfolding bound_map_def by simp
  then have m: "numLogicalIntRegs m = 40" "intZeroReg m = 31" "length (intRenameMap m) = 40" "intRenameMap m ! 31 = 71"
    using w by (simp_all add: map_wf_def phys_of_def)
  have sb: "zeroRegIdx (scoreboard s) = 31" using c(1) by (simp add: rr_wf_def sb_wf_def)
  have free: "1 \<le> numFreeEntries (rr_freeList s)"
    using c(5,6) assms(3,4) by (simp add: numFreeEntries_def numFreeIntRegs_def numFreeFloatRegs_def)
  have len: "length (flatDestRegIdx i) = 1" "length (destRegIdx i) = 1" "length (prevDestRegIdx i) = 1"
    using assms(8,9) by (simp_all add: operands_ok_def)
  then have "flatDestRegIdx i \<noteq> []" "destRegIdx i \<noteq> []" "prevDestRegIdx i \<noteq> []" by auto
  note len = len this
  define e where "e = \<lparr>instSeqNum = seqNum i, archReg = 31, newPhysReg = 31, prevPhysReg = 71\<rparr>"
  define i' where "i' = i\<lparr>flatDestRegIdx := (flatDestRegIdx i)[0 := 31], destRegIdx := (destRegIdx i)[0 := 31],
    prevDestRegIdx := (prevDestRegIdx i)[0 := 71]\<rparr>"
  define s1 where "s1 = s\<lparr>historyBuffer := (historyBuffer s)[1 := [e]]\<rparr>"
  have ren: "SimpleRenameMap_rename 31 m (rr_freeList s) = Inr ((31, 71), m, rr_freeList s)"
    using m by (simp add: SimpleRenameMap_rename_def)
  have "renameDestReg 1 0 (i, s) = Inr (i', s1)"
    using assms(2,8) len c(2,3) ren sb unfolding renameDestReg_def
    by (simp add: flatten_reg_def o3_consts flattenIntIndex_def set_nat_def m_def [symmetric] sb_unsetReg_def
        sb_zero_def i'_def s1_def e_def) (simp add: m_def)
  then have 1: "rename_inst i s = Inr (Some (i', s1))"
    using free assms(6-8) by (simp add: rename_inst_def renameSrcRegs_def renameDestRegs_def)
  define s2 where "s2 = s1\<lparr>rr_freeList := addReg 71 (rr_freeList s), historyBuffer := (historyBuffer s1)[1 := []]\<rparr>"
  have 2: "removeFromHistory (seqNum i) 1 s1 = Inr s2"
    using c(3) assms(2) by (simp add: removeFromHistory_def s1_def s2_def e_def)
  have "71 \<in> set (freeIntRegs (rr_freeList s2))"
    using c(1) assms(2,3) by (simp add: s2_def addReg_def rr_wf_def fl_wf_def ZeroReg_def)
  moreover have "SimpleRenameMap_lookup 31 (renameMap s2 ! 1) = Inr 71"
    using m by (simp add: SimpleRenameMap_lookup_def s2_def s1_def m_def)
  ultimately show ?thesis using 1 2 by blast
qed

theorem smt_zero_register_freed_witness:
  "\<exists>s i' s1 s2. O3_regs_ctor 2 2 128 128 = Inr s \<and>
    rename_inst (demo_inst 1 1 [] [31]) s = Inr (Some (i', s1)) \<and> removeFromHistory 1 1 s1 = Inr s2 \<and>
    71 \<in> set (freeIntRegs (rr_freeList s2)) \<and> SimpleRenameMap_lookup 31 (renameMap s2 ! 1) = Inr 71"
proof -
  have g: "o3_geometry 128 128" by (simp add: o3_geometry_def)
  obtain s where s: "O3_regs_ctor 2 2 128 128 = Inr s"
    using O3_regs_ctor_ok [OF g, of 2 2] by auto
  have "o3_params 2 2 128 128" by (simp add: o3_params_def)
  moreover have "operands_ok (demo_inst 1 1 [] [31])" by (rule demo_inst_ok) (simp add: o3_consts)
  ultimately show ?thesis
    using smt_zero_register_freed [of 2 2 128 128 s "demo_inst 1 1 [] [31]"] s by (auto simp: demo_inst_def)
qed

end
