(* ===== verification/O3_Stage_Safe.thy ===== *)
theory O3_Stage_Safe
  imports O3_Stage_Tick O3_Rename_Safe
begin

text \<open>
  The rename stage drives the register structures: in every cycle it performs a sequence of the
  renames, squashes and commits of \<open>rename_step\<close>, with their conditions. So the registers of the
  running stage are those of a reachable state, and what holds of these holds of the stage.
\<close>

section \<open>Conditions on the instructions\<close>

text \<open>
  All instructions have valid operands, and only those of the first thread write the integer zero
  register: the conditions of \<open>op_ok\<close>, of which the second is an assumption on the programs that the
  stage does not check.
\<close>

definition insts_ok :: "DynInst list \<Rightarrow> bool" where
  "insts_ok h \<longleftrightarrow> (\<forall>i \<in> set h. operands_ok i \<and> (31 \<in> set (si_destRegs i) \<longrightarrow> threadNumber i = 0))"

lemma insts_ok_upd:
  assumes "insts_ok h" "operands_ok i" "31 \<in> set (si_destRegs i) \<longrightarrow> threadNumber i = 0"
  shows "insts_ok (h[p := i])"
  using assms set_update_subset_insert [of h p i] unfolding insts_ok_def by blast

lemma insts_ok_nth: "insts_ok h \<Longrightarrow> p < length h \<Longrightarrow> operands_ok (h ! p) \<and> (31 \<in> set (si_destRegs (h ! p)) \<longrightarrow> threadNumber (h ! p) = 0)"
  by (simp add: insts_ok_def)

lemma operands_ok_flags [simp]:
  "operands_ok (i\<lparr>st_serializeHandled := b\<rparr>) = operands_ok i" "operands_ok (i\<lparr>st_serializeBefore := b\<rparr>) = operands_ok i"
  "operands_ok (i\<lparr>st_squashed := b\<rparr>) = operands_ok i"
  by (simp_all add: operands_ok_def)

lemma insts_ok_flags:
  assumes "insts_ok h" "p < length h"
  shows "insts_ok (h[p := (h ! p)\<lparr>st_serializeHandled := b\<rparr>])" "insts_ok (h[p := (h ! p)\<lparr>st_serializeBefore := b\<rparr>])"
    "insts_ok (h[p := (h ! p)\<lparr>st_squashed := b\<rparr>])"
  using insts_ok_nth [OF assms] by (auto intro!: insts_ok_upd [OF assms(1)])

text \<open>A step that does not touch the registers.\<close>

definition quiet :: "rename_shared \<Rightarrow> rename_shared \<Rightarrow> bool" where
  "quiet g g' \<longleftrightarrow> regs g' = regs g \<and> (insts_ok (inst_heap g) \<longrightarrow> insts_ok (inst_heap g'))"

lemma quiet_refl [simp]: "quiet g g"
  by (simp add: quiet_def)

lemma quiet_trans: "quiet a b \<Longrightarrow> quiet b c \<Longrightarrow> quiet a c"
  by (simp add: quiet_def)

lemma block_quiet:
  assumes "block tid (t, g) = Inr (c, t', g')"
  shows "quiet g g'"
  using assms by (auto simp: block_def skidInsert_def quiet_def bindE_eq_Inr Let_def split: if_splits)

lemma unblock_quiet: "unblock (t, g) = (c, t', g') \<Longrightarrow> quiet g g'"
  by (auto simp: unblock_def quiet_def split: if_splits)

lemma upd_flag_ok:
  assumes "upd h (Some p) (\<lambda>i. i\<lparr>st_serializeBefore := b\<rparr>) = Inr h'" "insts_ok h"
  shows "insts_ok h'"
  using assms insts_ok_flags by (auto simp: upd_def split: if_splits)

lemma end_serialize_quiet:
  assumes "end_serialize (t, g) = Inr (t', g')" "serializeInst t = Some p"
  shows "quiet g g'"
proof -
  obtain c t1 g1 where u: "unblock (t\<lparr>renameStatus := Unblocking\<rparr>, g) = (c, t1, g1)" by (metis surj_pair)
  obtain h where h: "upd (inst_heap g1) (Some p) (\<lambda>i. i\<lparr>st_serializeBefore := False\<rparr>) = Inr h" "g' = g1\<lparr>inst_heap := h\<rparr>"
    using assms u by (auto simp: end_serialize_def bindE_eq_Inr Let_def)
  have "quiet g1 g'" using upd_flag_ok [OF h(1)] by (simp add: quiet_def h(2))
  then show ?thesis using unblock_quiet [OF u] quiet_trans by blast
qed

lemma serialize_next_quiet:
  assumes "serialize_next q (t, g) = Inr (t', g')"
  shows "quiet g g'"
  using assms upd_flag_ok by (auto simp: serialize_next_def quiet_def bindE_eq_Inr split: if_splits list.splits)

lemma set_handled_quiet: "p < length (inst_heap g) \<Longrightarrow> quiet g (set_handled p g)"
  by (simp add: set_handled_def quiet_def insts_ok_flags)

lemma after_serialize_quiet:
  assumes "after_serialize p q (t, g) = Inr (t', g')" "p < length (inst_heap g)"
  shows "quiet g g'"
proof (cases "needs_serialize_after (inst_heap g ! p)")
  case True
  then have "serializeAfter q (t, set_handled p g) = Inr (t', g')" using assms(1) by (simp add: after_serialize_def)
  then have "quiet (set_handled p g) g'"
    using upd_flag_ok by (auto simp: serializeAfter_def quiet_def bindE_eq_Inr split: list.splits)
  then show ?thesis using set_handled_quiet [OF assms(2)] quiet_trans by blast
qed (use assms(1) in \<open>simp add: after_serialize_def\<close>)

lemma serialize_mark_quiet: "p < length (inst_heap g) \<Longrightarrow> quiet g (serialize_mark p g)"
  using set_handled_quiet by (simp add: serialize_mark_def)

section \<open>The loop\<close>

text \<open>The sequence numbers of the instructions in flight and of those that wait, the oldest first;
  the next one of the thread is \<open>b\<close> or later.\<close>

definition seqs :: "DynInst list \<Rightarrow> nat list \<Rightarrow> nat list" where
  "seqs h ps = map (\<lambda>p. seqNum (h ! p)) (filter (live h) ps)"

definition in_order :: "nat \<Rightarrow> DynInst list \<Rightarrow> DynInst list \<Rightarrow> nat list \<Rightarrow> bool" where
  "in_order b h ys ps \<longleftrightarrow> sorted_wrt (<) (rev (map seqNum ys) @ seqs h ps @ [b])"

lemma seqs_same_heap:
  assumes "same_heap h h'"
  shows "seqs h' ps = seqs h ps"
proof -
  have "live h' = live h" using same_heap_live assms by blast
  then show ?thesis using assms by (auto simp: seqs_def same_heap_def same_inst_def live_def)
qed

text \<open>
  The loop renames the instructions it sends on, in their order. The relation is between the state
  of the registers with the instructions in flight before and after.
\<close>

definition renames :: "nat \<Rightarrow> int \<Rightarrow> int \<Rightarrow> int \<Rightarrow> nat \<Rightarrow> DynInst list list \<Rightarrow> rename_shared \<Rightarrow> rename_shared \<Rightarrow> bool" where
  "renames T active pint pfloat tid fs g g' \<longleftrightarrow> insts_ok (inst_heap g') \<and>
     (\<exists>ys out. rename_reachable T active pint pfloat (regs g', fs[tid := ys @ fs ! tid]) \<and>
        toIEW g' = toIEW g @ out \<and> rev (map seqNum ys) = seqs (inst_heap g) out)"

text \<open>An instruction of the loop meets the conditions of \<open>rename_step\<close>.\<close>

lemma send_op_ok:
  assumes "o3_params T active pint pfloat" "tid < T" "rename_reachable T active pint pfloat (regs g, fs)"
    and "\<forall>x \<in> set (p # qs). of_thread (inst_heap g) tid x" "insts_ok (inst_heap g)" "live (inst_heap g) p"
    and "in_order b (inst_heap g) (fs ! tid) (p # qs)" "after_serialize p qs (t, g) = Inr (t1, g1)"
  defines "i \<equiv> inst_heap g1 ! p"
  shows "op_ok (Rename i) fs" "seqNum i = seqNum (inst_heap g ! p)" "threadNumber i = tid" "regs g1 = regs g"
    "insts_ok (inst_heap g1)" "same_heap (inst_heap g) (inst_heap g1)" "p < length (inst_heap g1)" "length fs = T" "toIEW g1 = toIEW g"
proof -
  have p: "p < length (inst_heap g)" "\<forall>x \<in> set qs. x < length (inst_heap g)" using assms(4) by (simp_all add: of_thread_def)
  note k = serializeAfter_keeps [OF assms(8) [unfolded after_serialize_def prod.case] p]
  have q1: "quiet g g1" by (rule after_serialize_quiet [OF assms(8) p(1)])
  show h: "same_heap (inst_heap g) (inst_heap g1)" and p1: "p < length (inst_heap g1)" and "regs g1 = regs g" and "toIEW g1 = toIEW g"
    using k p(1) by (simp_all add: same_heap_def)
  show same: "seqNum i = seqNum (inst_heap g ! p)" "threadNumber i = tid"
    using h p(1) assms(4) by (simp_all add: i_def same_heap_def same_inst_def of_thread_def)
  show ok1: "insts_ok (inst_heap g1)" using q1 assms(5) by (simp add: quiet_def)
  show len: "length fs = T" using run_inv_parts(3) [OF reachable_inv [OF assms(1,3)] assms(2)] .
  have "seqs (inst_heap g) (p # qs) = seqNum i # seqs (inst_heap g) qs" using assms(6) same(1) by (simp add: seqs_def)
  then have "\<forall>j \<in> set (fs ! tid). seqNum j < seqNum i" using assms(7) by (auto simp: in_order_def sorted_wrt_append)
  then show "op_ok (Rename i) fs" using insts_ok_nth [OF ok1 p1] same(2) len assms(2) by (simp add: i_def)
qed

lemma send_step:
  assumes "o3_params T active pint pfloat" "tid < T" "rename_reachable T active pint pfloat (regs g, fs)"
    and "\<forall>x \<in> set (p # qs). of_thread (inst_heap g) tid x" "insts_ok (inst_heap g)" "live (inst_heap g) p"
    and "in_order b (inst_heap g) (fs ! tid) (p # qs)" "after_serialize p qs (t, g) = Inr (t1, g1)"
    and "rename_inst (inst_heap g1 ! p) (regs g1) = Inr (Some (i2, s2))"
  defines "h \<equiv> (inst_heap g1)[p := i2]" and "fs' \<equiv> fs[tid := i2 # fs ! tid]"
  shows "rename_reachable T active pint pfloat (s2, fs')" "insts_ok h" "in_order b h (fs' ! tid) qs"
    "\<forall>x \<in> set qs. of_thread h tid x" "same_heap (inst_heap g) h" "seqNum i2 = seqNum (inst_heap g ! p)"
proof -
  let ?i = "inst_heap g1 ! p"
  note so = send_op_ok [OF assms(1-8)]
  have inv: "run_inv T pint pfloat (regs g, fs)" by (rule reachable_inv [OF assms(1,3)])
  note rp = run_inv_parts [OF inv assms(2)]
  show sh: "same_heap (inst_heap g) h"
    using same_heap_trans [OF so(6) same_heap_upd [OF so(7)]] rename_inst_same [OF assms(9)] by (simp add: h_def)
  have "rename_step (Rename ?i) (regs g, fs) = Inr (s2, fs')" using assms(9) so(3,4) by (simp add: fs'_def)
  then show "rename_reachable T active pint pfloat (s2, fs')"
    by (rule rename_reachable.step [OF assms(3) so(1)])
  have "\<forall>e \<in> set (historyBuffer (regs g) ! tid). instSeqNum e \<le> seqNum ?i"
    using so(1,3) inst_entries_seq unfolding rp(5) by fastforce
  then have r: "inst_renamed ?i (regs g) i2 s2"
    using rename_inst_ok [OF rp(1), of ?i] so(1,3,4) rp(7) assms(9) by (auto split: if_splits)
  then show "insts_ok h"
    using so(1) insts_ok_nth [OF so(5,7)] by (auto simp: h_def inst_renamed_def intro!: insts_ok_upd [OF so(5)])
  show s: "seqNum i2 = seqNum (inst_heap g ! p)" using r so(2) by (simp add: inst_renamed_def)
  show "in_order b h (fs' ! tid) qs"
    using assms(6,7) s so(8) assms(2) unfolding in_order_def seqs_same_heap [OF sh] by (simp add: fs'_def seqs_def)
  show "\<forall>x \<in> set qs. of_thread h tid x" using assms(4) sh by (auto simp: of_thread_def same_heap_def same_inst_def)
qed

lemma rename_loop_renames:
  assumes "o3_params T active pint pfloat" "tid < T"
    and "rename_loop avail q (t, g) n = Inr (avail', q', (t', g'), n')"
    and "\<forall>p \<in> set q. of_thread (inst_heap g) tid p" "insts_ok (inst_heap g)"
    and "rename_reachable T active pint pfloat (regs g, fs)" "in_order b (inst_heap g) (fs ! tid) q"
  shows "renames T active pint pfloat tid fs g g'"
  using assms(3-7)
proof (induction avail arbitrary: q t g n fs)
  case 0
  have "fs[tid := [] @ fs ! tid] = fs" by simp
  then show ?case using 0 unfolding renames_def
    by (intro conjI exI [of _ "[]"]) (auto simp: seqs_def)
next
  case (Suc avail)
  have none: "renames T active pint pfloat tid fs g g'" if "quiet g g'" "toIEW g' = toIEW g"
    using that Suc.prems(3,4) unfolding renames_def quiet_def
    by (intro conjI exI [of _ "[]"]) (auto simp: seqs_def)
  have len: "\<forall>p \<in> set q. p < length (inst_heap g)" using Suc.prems(2) by (simp add: of_thread_def)
  show ?case
  proof (cases rule: rename_loop_cases [OF Suc.prems(1) len])
    case 1
    then show ?thesis using none by simp
  next
    case (2 p qs)
    have "in_order b (inst_heap g) (fs ! tid) qs" using Suc.prems(5) 2(2,3) by (simp add: in_order_def seqs_def)
    then show ?thesis using Suc.IH [OF 2(4) _ Suc.prems(3,4)] Suc.prems(2) 2(2) by simp
  next
    case (3 p qs)
    have "quiet g g'" using 3 serialize_mark_quiet [of p g] by (simp add: live_def quiet_def)
    then show ?thesis using none 3 by (auto simp: serialize_mark_def set_handled_def)
  next
    case (4 p qs t1 g1)
    have "quiet g g'" using 4(3,7) after_serialize_quiet [OF 4(5)] by (simp add: live_def quiet_def)
    then show ?thesis
      using none 4(2,7) serializeAfter_keeps(2) [OF 4(5) [unfolded after_serialize_def prod.case]] len by auto
  next
    case (5 p qs t1 g1 i2 s2)
    note pre = assms(1,2) Suc.prems(4) Suc.prems(2) [unfolded 5(2)] Suc.prems(3) 5(3) Suc.prems(5) [unfolded 5(2)] 5(5)
    note so = send_op_ok [OF pre] and ss = send_step [OF pre 5(6)]
    let ?g = "g1\<lparr>inst_heap := (inst_heap g1)[p := i2], regs := s2, toIEW := toIEW g1 @ [p]\<rparr>"
    let ?fs = "fs[tid := i2 # fs ! tid]"
    have "renames T active pint pfloat tid ?fs ?g g'" using Suc.IH [OF 5(7)] ss by simp
    then obtain ys out where r: "insts_ok (inst_heap g')"
      "rename_reachable T active pint pfloat (regs g', ?fs[tid := ys @ ?fs ! tid])"
      "toIEW g' = toIEW ?g @ out" "rev (map seqNum ys) = seqs (inst_heap ?g) out"
      unfolding renames_def by blast
    have "?fs[tid := ys @ ?fs ! tid] = fs[tid := (ys @ [i2]) @ fs ! tid]" using so(8) assms(2) by simp
    moreover have "rev (map seqNum (ys @ [i2])) = seqs (inst_heap g) (p # out)"
      using r(4) ss(6) 5(3) by (simp add: seqs_same_heap [OF ss(5)]) (simp add: seqs_def)
    ultimately show ?thesis
      unfolding renames_def using r(1-3) so(9) by (intro conjI exI [of _ "ys @ [i2]"] exI [of _ "p # out"]) simp_all
  qed
qed

section \<open>A cycle of a thread\<close>

lemma renames_none:
  assumes "quiet g g'" "toIEW g' = toIEW g" "rename_reachable T active pint pfloat (regs g, fs)" "insts_ok (inst_heap g)"
  shows "renames T active pint pfloat tid fs g g'"
  using assms unfolding renames_def quiet_def by (intro conjI exI [of _ "[]"]) (auto simp: seqs_def)

lemma renames_after:
  assumes "renames T active pint pfloat tid fs g g1" "quiet g1 g'" "toIEW g' = toIEW g1"
  shows "renames T active pint pfloat tid fs g g'"
  using assms unfolding renames_def quiet_def by simp

lemma renames_before:
  assumes "renames T active pint pfloat tid fs g1 g'" "toIEW g1 = toIEW g" "same_heap (inst_heap g) (inst_heap g1)"
  shows "renames T active pint pfloat tid fs g g'"
  using assms unfolding renames_def seqs_same_heap [OF assms(3)] by simp

lemma flow_silent_parts: "flow (t, g) [] (t', g') \<Longrightarrow> toIEW g' = toIEW g \<and> same_heap (inst_heap g) (inst_heap g')"
  by (simp add: flow_def)

lemma finish_renaming_quiet:
  assumes "finish_renaming tid unb (avail, q', (t, g), n) = Inr (t', g')"
  shows "quiet g g'"
proof -
  define g1 where "g1 = (let g = if toIEW g \<noteq> [] then g\<lparr>wroteToTimeBuffer := True\<rparr> else g
    in if avail \<noteq> 0 then g\<lparr>blockThisCycle := True\<rparr> else g)"
  have q: "quiet g g1" by (simp add: g1_def quiet_def Let_def)
  obtain t1 where "(if blockThisCycle g1 then bindE (block tid (t1, g1)) (\<lambda>(_, t, g). Inr (t\<lparr>renameUnblock := False\<rparr>, g))
      else Inr (t1, g1)) = Inr (t', g')"
    using assms unfolding finish_renaming_def g1_def prod.case Let_def by blast
  then have "g' = g1 \<or> (\<exists>c t2. block tid (t1, g1) = Inr (c, t2, g'))"
    by (auto simp: bindE_eq_Inr split: if_splits)
  then show ?thesis using q block_quiet quiet_trans by blast
qed

lemma in_order_prefix: "in_order b h ys (ps @ qs) \<Longrightarrow> in_order b h ys ps"
  by (auto simp: in_order_def seqs_def sorted_wrt_append)

lemma renameInsts_renames:
  assumes "o3_params T active pint pfloat" "tid < T" "renameInsts tid inp (t, g) = Inr (t', g')" "thread_inv tid (t, g)"
    and "renameStatus t \<in> {Running, Idle, Unblocking}" "insts_ok (inst_heap g)"
    and "rename_reachable T active pint pfloat (regs g, fs)" "in_order b (inst_heap g) (fs ! tid) (pending t)"
  shows "renames T active pint pfloat tid fs g g'"
proof -
  have inv: "\<forall>p \<in> set (pending t). of_thread (inst_heap g) tid p" "serializeInst t = None"
    "renameStatus t \<noteq> Unblocking \<longrightarrow> skidBuffer t = []"
    using assms(4,5) by (auto simp: thread_inv_def of_thread_def)
  have q: "\<exists>r. pending t = insts_to_rename t @ r" using inv(2,3) by (auto simp: insts_to_rename_def pending_def)
  then have qt: "\<forall>p \<in> set (insts_to_rename t). of_thread (inst_heap g) tid p" "in_order b (inst_heap g) (fs ! tid) (insts_to_rename t)"
    using inv(1) assms(8) in_order_prefix by auto
  note none = renames_none [OF _ _ assms(7,6), where tid = tid]
  show ?thesis
  proof (cases rule: renameInsts_cases [OF assms(3)])
    case 1
    then show ?thesis using none by simp
  next
    case (2 c)
    have "quiet g g'" using block_quiet [OF 2(2)] by (simp add: quiet_def)
    then show ?thesis using none flow_silent_parts [OF block_flow(1) [OF 2(2)]] by simp
  next
    case (3 g0 n0 t1 g1 a q' t2 g2 k)
    have g0: "inst_heap g0 = inst_heap g" "regs g0 = regs g" "toIEW g0 = toIEW g" using 3(4) by auto
    have "\<forall>p \<in> set (insts_to_rename t). p < length (inst_heap g0)" using qt(1) by (simp add: of_thread_def g0(1))
    note k1 = serialize_next_keeps [OF 3(5) this]
    have qo: "insts_to_rename t1 = insts_to_rename t" using k1(3-5) by (simp add: insts_to_rename_def)
    have q1: "quiet g g1" using serialize_next_quiet [OF 3(5)] g0 by (simp add: quiet_def)
    have h: "same_heap (inst_heap g) (inst_heap g1)" using flow_silent_parts [OF k1(1)] g0 by simp
    have "\<forall>p \<in> set (insts_to_rename t1). of_thread (inst_heap g1) tid p"
      using qt(1) h unfolding qo by (auto simp: of_thread_def same_heap_def same_inst_def)
    moreover have "in_order b (inst_heap g1) (fs ! tid) (insts_to_rename t1)"
      using qt(2) unfolding in_order_def qo seqs_same_heap [OF h] .
    ultimately have "renames T active pint pfloat tid fs g1 g2"
      using rename_loop_renames [OF assms(1,2) 3(6)] q1 assms(6,7) by (simp add: quiet_def)
    then have "renames T active pint pfloat tid fs g g2" using renames_before h k1(6) g0(3) by metis
    then show ?thesis
      using renames_after finish_renaming_quiet [OF 3(7)] flow_silent_parts [OF finish_renaming_flow(1) [OF 3(7)]] by blast
  qed
qed

lemma stage_rename_renames:
  assumes "o3_params T active pint pfloat" "tid < T" "stage_rename tid inp sc (t, g) = Inr (c, t', g')" "thread_inv tid (t, g)"
    and "insts_ok (inst_heap g)" "rename_reachable T active pint pfloat (regs g, fs)" "in_order b (inst_heap g) (fs ! tid) (pending t)"
  shows "renames T active pint pfloat tid fs g g'"
proof -
  have res: "\<not> resumeSerialize g" "\<not> resumeUnblocking g" using assms(4) by (simp_all add: thread_inv_def)
  note ri = renameInsts_renames [OF assms(1,2) _ assms(4) _ assms(5-7)]
  show ?thesis
  proof (cases rule: stage_rename_cases [OF assms(3) res])
    case 1
    then show ?thesis using ri by blast
  next
    case (2 t1 g1 t2 g2 b)
    have "g2 = g1" using 2(3) skidInsert_flow(2) by blast
    then have "quiet g1 g'" "toIEW g' = toIEW g1"
      using unblock_quiet [OF 2(4)] flow_silent_parts [OF unblock_flow(1) [OF 2(4)]] by simp_all
    then show ?thesis using ri [OF 2(2)] 2(1) renames_after by blast
  next
    case 3
    then show ?thesis using renames_none [OF _ _ assms(6,5)] by simp
  qed
qed

lemma checkSignalsAndUpdate_quiet:
  assumes "checkSignalsAndUpdate tid inp (t0, g) = Inr (c, t', g')" "thread_inv tid (t0, g)" "\<not> ci_squash inp"
  shows "quiet g g'"
proof -
  obtain t where rs: "readStallSignals inp (readFreeEntries inp t0) = Inr t"
    using assms(1) by (auto simp: checkSignalsAndUpdate_def bindE_eq_Inr Let_def)
  note k = readStallSignals_keeps [OF rs, simplified]
  have st: "serializeInst t \<noteq> None \<longleftrightarrow> renameStatus t = SerializeStall" "\<not> resumeSerialize g" "\<not> resumeUnblocking g"
    using assms(2) k(2,3) by (simp_all add: thread_inv_def)
  show ?thesis
  proof (cases rule: checkSignals_cases [OF assms(1) rs assms(3) st(2,3)])
    case 5
    then show ?thesis using end_serialize_quiet st(1) by blast
  qed (use block_quiet unblock_quiet in auto)
qed

lemma mark_squashed_ok:
  assumes "foldE (mark_squashed n tid) ps (h, w) = Inr (h', w')" "insts_ok h"
  shows "insts_ok h'"
proof -
  have "insts_ok (fst (h, w)) \<longrightarrow> insts_ok (fst (h', w'))"
  proof (rule foldE_keeps [where P = "\<lambda>a b. insts_ok (fst a) \<longrightarrow> insts_ok (fst b)", OF _ _ _ assms(1)])
    fix x s s' assume "mark_squashed n tid x s = Inr s'"
    then show "insts_ok (fst s) \<longrightarrow> insts_ok (fst s')"
      using insts_ok_flags(3) by (cases s) (auto simp: mark_squashed_def at_def bindE_eq_Inr split: if_splits)
  qed auto
  then show ?thesis using assms(2) by simp
qed

lemma in_order_squash: "in_order b h ys ps \<Longrightarrow> in_order b h' (filter P ys) []"
  by (auto simp: in_order_def seqs_def sorted_wrt_append rev_map rev_filter sorted_wrt_map intro: sorted_wrt_filter)

lemma thread_cycle_run:
  assumes "o3_params T active pint pfloat" "tid < T" "thread_cycle tid inp sc (t, g) = Inr (c, t', g')"
    and "thread_inv tid (t, g)" "signals_ok inp (t, g)" "insts_ok (inst_heap g)"
    and "rename_reachable T active pint pfloat (regs g, fs)" "in_order b (inst_heap g) (fs ! tid) (pending t)"
  shows "\<exists>xs. rename_reachable T active pint pfloat (regs g', fs[tid := xs]) \<and> insts_ok (inst_heap g') \<and>
    in_order b (inst_heap g') xs (pending t')"
proof -
  obtain c1 t1 g1 where 1: "checkSignalsAndUpdate tid inp (t, g) = Inr (c1, t1, g1)"
    and 2: "stage_rename tid inp (c1 \<or> sc) (t1, g1) = Inr (c, t', g')"
    using assms(3) by (auto simp: thread_cycle_def bindE_eq_Inr)
  have ok: "cycle_ok tid inp (t, g) (t', g')" by (rule thread_cycle_ok [OF assms(3-5)])
  have len: "length fs = T" using run_inv_parts(3) [OF reachable_inv [OF assms(1,7)] assms(2)] .
  show ?thesis
  proof (cases "ci_squash inp")
    case True
    let ?n = "doneSeqNum inp"
    obtain t0 where sq: "stage_squash ?n tid (t0, g) = Inr (t1, g1)"
      using 1 True by (auto simp: checkSignalsAndUpdate_def bindE_eq_Inr Let_def)
    then have "renameStatus t1 = Squashing" by (auto simp: stage_squash_def bindE_eq_Inr Let_def)
    then have e: "t' = t1" "g' = g1" using 2 by (auto simp: stage_rename_def)
    obtain h w w0 r0 t2 g2 where m: "squash_status ?n (t0, g) = Inr (t2, g2)"
      "foldE (mark_squashed ?n tid) (fromDecode g2) (inst_heap g2, w0) = Inr (h, w)"
      "doSquash ?n tid (regs g2) = Inr r0" "inst_heap g1 = h" "regs g1 = r0"
      using sq by (auto simp: stage_squash_def bindE_eq_Inr Let_def)
    have g2: "inst_heap g2 = inst_heap g" "regs g2 = regs g"
      using m(1) by (auto simp: squash_status_def bindE_eq_Inr split: if_splits)
    let ?xs = "filter (\<lambda>i. seqNum i \<le> ?n) (fs ! tid)"
    have "rename_step (Squash tid ?n) (regs g, fs) = Inr (regs g', fs[tid := ?xs])"
      using m(3,5) g2(2) e(2) by simp
    then have "rename_reachable T active pint pfloat (regs g', fs[tid := ?xs])"
      by (rule rename_reachable.step [OF assms(7), rotated]) (simp add: len assms(2))
    moreover have "insts_ok (inst_heap g')" using mark_squashed_ok [OF m(2)] assms(6) g2(1) m(4) e(2) by simp
    moreover have "in_order b (inst_heap g') ?xs (pending t')"
      using in_order_squash [OF assms(8)] ok True by (simp add: cycle_ok_def)
    ultimately show ?thesis by blast
  next
    case False
    note f1 = checkSignalsAndUpdate_flow [OF 1 assms(4,5) False] and q1 = checkSignalsAndUpdate_quiet [OF 1 assms(4) False]
    have h1: "same_heap (inst_heap g) (inst_heap g1)" "toIEW g1 = toIEW g" using flow_silent_parts f1 by blast+
    have "filter (live (inst_heap g)) (pending t1) = filter (live (inst_heap g)) (pending t)" using f1 by (simp add: flow_def)
    then have "in_order b (inst_heap g1) (fs ! tid) (pending t1)"
      using assms(8) unfolding in_order_def seqs_same_heap [OF h1(1)] by (simp add: seqs_def)
    then have "renames T active pint pfloat tid fs g1 g'"
      using stage_rename_renames [OF assms(1,2) 2] f1 q1 assms(6,7) by (simp add: quiet_def)
    then obtain ys out where r: "insts_ok (inst_heap g')"
      "rename_reachable T active pint pfloat (regs g', fs[tid := ys @ fs ! tid])"
      "toIEW g' = toIEW g @ out" "rev (map seqNum ys) = seqs (inst_heap g) out"
      using renames_before [OF _ h1(2,1)] unfolding renames_def by blast
    obtain out' where f: "flow (t, g) out' (t', g')" using ok False by (auto simp: cycle_ok_def)
    then have "out' = out" using r(3) by (simp add: flow_def)
    then have "filter (live (inst_heap g)) (out @ pending t') = filter (live (inst_heap g)) (pending t)"
      and h: "same_heap (inst_heap g) (inst_heap g')" using f unfolding flow_def prod.case by blast+
    then have eq: "seqs (inst_heap g) (pending t) = seqs (inst_heap g) out @ seqs (inst_heap g) (pending t')"
      unfolding seqs_def by (metis filter_append map_append)
    have "in_order b (inst_heap g') (ys @ fs ! tid) (pending t')"
      using assms(8) r(4) unfolding in_order_def seqs_same_heap [OF h] eq by simp
    then show ?thesis using r(1,2) by blast
  qed
qed

section \<open>All threads\<close>

lemma seqs_frame:
  assumes "thread_frame A g g'" "x \<notin> A" "thread_inv x (t, g)"
  shows "seqs (inst_heap g') (pending t) = seqs (inst_heap g) (pending t)"
proof -
  have o: "of_thread (inst_heap g) x p" if "p \<in> set (pending t)" for p
    using that assms(3) by (simp add: thread_inv_def of_thread_def)
  then have "filter (live (inst_heap g')) (pending t) = filter (live (inst_heap g)) (pending t)"
    using live_frame [OF assms(1,2)] by (intro filter_cong) auto
  then show ?thesis using o assms(1) by (auto simp: seqs_def thread_frame_def of_thread_def)
qed

definition all_in_order :: "nat list \<Rightarrow> DynInst list \<Rightarrow> DynInst list list \<Rightarrow> rename_thread list \<Rightarrow> bool" where
  "all_in_order bs h fs ts \<longleftrightarrow> (\<forall>x < length ts. in_order (bs ! x) h (fs ! x) (pending (ts ! x)))"

lemma tick_threads_run:
  assumes "o3_params T active pint pfloat" "foldE (tick_thread inps) as (c, ts, g) = Inr (c', ts', g')"
    and "distinct as" "set as \<subseteq> {..<length ts}" "length ts = T"
    and "\<forall>tid < length ts. thread_inv tid (ts ! tid, g)" "\<forall>tid \<in> set as. signals_ok (inps ! tid) (ts ! tid, g)"
    and "insts_ok (inst_heap g)" "rename_reachable T active pint pfloat (regs g, fs)" "all_in_order bs (inst_heap g) fs ts"
  shows "\<exists>fs'. rename_reachable T active pint pfloat (regs g', fs') \<and> insts_ok (inst_heap g') \<and>
    all_in_order bs (inst_heap g') fs' ts'"
  using assms(2-10)
proof (induction as arbitrary: c ts g fs)
  case (Cons a as)
  obtain s where s: "tick_thread inps a (c, ts, g) = Inr s" "foldE (tick_thread inps) as s = Inr (c', ts', g')"
    using Cons.prems(1) by (auto simp: bindE_eq_Inr)
  obtain c1 t1 g1 where a: "a < length ts" and cyc: "thread_cycle a (inps ! a) c (ts ! a, g) = Inr (c1, t1, g1)"
    and s1: "s = (c1, ts[a := t1], g1)" using tick_thread_step [OF s(1)] by metis
  let ?ts = "ts[a := t1]"
  have inva: "thread_inv a (ts ! a, g)" and siga: "signals_ok (inps ! a) (ts ! a, g)"
    and orda: "in_order (bs ! a) (inst_heap g) (fs ! a) (pending (ts ! a))" and aT: "a < T"
    using Cons.prems(4,5,6,9) a by (auto simp: all_in_order_def)
  have len: "length fs = T" using run_inv_parts(3) [OF reachable_inv [OF assms(1) Cons.prems(8)] aT] .
  note ok = thread_cycle_ok [OF cyc inva siga]
  have fr: "thread_frame {a} g g1" and inv1: "thread_inv a (t1, g1)" using ok by (simp_all add: cycle_ok_def)
  obtain xs where xs: "rename_reachable T active pint pfloat (regs g1, fs[a := xs])" "insts_ok (inst_heap g1)"
    "in_order (bs ! a) (inst_heap g1) xs (pending t1)"
    using thread_cycle_run [OF assms(1) aT cyc inva siga Cons.prems(7,8) orda] by blast
  have other: "?ts ! x = ts ! x" if "x \<noteq> a" for x using that by simp
  have "thread_inv x (?ts ! x, g1)" if "x < length ?ts" for x
    using that Cons.prems(5) inv1 thread_inv_frame [OF fr] by (cases "x = a") simp_all
  moreover have "signals_ok (inps ! x) (?ts ! x, g1)" if "x \<in> set as" for x
    using that Cons.prems(2,3,5,6) other signals_ok_frame [OF _ _ fr] by (metis distinct.simps(2) lessThan_iff list.set_intros(2) subsetD)
  moreover have "in_order (bs ! x) (inst_heap g1) (fs[a := xs] ! x) (pending (?ts ! x))" if "x < length ?ts" for x
  proof (cases "x = a")
    case True
    then show ?thesis using xs(3) a aT len by simp
  next
    case False
    then show ?thesis
      using that Cons.prems(5,9) seqs_frame [OF fr, of x "ts ! x"] by (simp add: in_order_def all_in_order_def)
  qed
  ultimately show ?case
    using Cons.IH [OF s(2) [unfolded s1] _ _ _ _ _ xs(2,1)] Cons.prems(2-4) by (simp add: all_in_order_def)
qed auto

lemma commit_fold:
  assumes "o3_params T active pint pfloat" "foldE (commit_thread inps ts) as s = Inr s'" "set as \<subseteq> {..<T}"
    and "rename_reachable T active pint pfloat (s, fs)" "\<forall>x < T. in_order (bs ! x) h (fs ! x) (ps x)"
  shows "\<exists>fs'. rename_reachable T active pint pfloat (s', fs') \<and> (\<forall>x < T. in_order (bs ! x) h (fs' ! x) (ps x))"
  using assms(2-5)
proof (induction as arbitrary: s fs)
  case (Cons a as)
  obtain s1 where s1: "commit_thread inps ts a s = Inr s1" "foldE (commit_thread inps ts) as s1 = Inr s'"
    using Cons.prems(1) by (auto simp: bindE_eq_Inr)
  have aT: "a < T" using Cons.prems(2) by simp
  have len: "length fs = T" using run_inv_parts(3) [OF reachable_inv [OF assms(1) Cons.prems(3)] aT] .
  obtain n where "s1 = s \<or> removeFromHistory n a s = Inr s1"
    using s1(1) by (auto simp: commit_thread_def bindE_eq_Inr split: if_splits)
  then show ?case
  proof
    assume "s1 = s"
    then show ?thesis using Cons.IH [OF _ _ Cons.prems(3,4)] s1(2) Cons.prems(2) by simp
  next
    assume r: "removeFromHistory n a s = Inr s1"
    let ?fs = "fs[a := filter (\<lambda>i. n < seqNum i) (fs ! a)]"
    have "rename_step (Commit a n) (s, fs) = Inr (s1, ?fs)" using r by simp
    then have "rename_reachable T active pint pfloat (s1, ?fs)"
      by (rule rename_reachable.step [OF Cons.prems(3), rotated]) (simp add: len aT)
    moreover have "in_order (bs ! x) h (?fs ! x) (ps x)" if "x < T" for x
    proof (cases "x = a")
      case True
      then show ?thesis
        using Cons.prems(4) aT len
        by (auto simp: in_order_def sorted_wrt_append rev_map rev_filter sorted_wrt_map intro: sorted_wrt_filter)
    qed (use Cons.prems(4) that in simp)
    ultimately show ?thesis using Cons.IH [OF s1(2)] Cons.prems(2) by simp
  qed
qed auto

section \<open>Reachable states of the stage\<close>

text \<open>
  Conditions on the input of a cycle: the signals meet \<open>signals_ok\<close>, and the
  instructions of a thread come in the order of their sequence numbers; \<open>bs\<close> and \<open>bs'\<close> bound the
  sequence numbers before and after the cycle.
\<close>

definition cycle_input_ok :: "stage_input list \<Rightarrow> nat list \<Rightarrow> nat list \<Rightarrow> nat list \<Rightarrow> rename_stage \<Rightarrow> bool" where
  "cycle_input_ok inps dec bs bs' st \<longleftrightarrow> length bs' = length bs \<and>
     (\<forall>tid \<in> set (activeThreads st). signals_ok (inps ! tid) (threads st ! tid, shared st)) \<and>
     (\<forall>tid < length (threads st). bs ! tid \<le> bs' ! tid \<and>
        (let ns = map (\<lambda>p. seqNum (inst_heap (shared st) ! p)) (filter (of_thread (inst_heap (shared st)) tid) dec)
         in (\<forall>n \<in> set ns. bs ! tid \<le> n) \<and> sorted_wrt (<) (ns @ [bs' ! tid])))"

text \<open>
  Between two cycles the other stages may change the instructions, as long as those that this stage
  holds stay the same and are at most squashed; and the list of active threads may change.
\<close>

definition others_ok :: "rename_stage \<Rightarrow> DynInst list \<Rightarrow> nat list \<Rightarrow> bool" where
  "others_ok st h as \<longleftrightarrow> distinct as \<and> set as \<subseteq> {..<length (threads st)} \<and> insts_ok h \<and>
     (\<forall>t \<in> set (threads st). \<forall>p \<in> set (pending t). p < length h \<and>
        seqNum (h ! p) = seqNum (inst_heap (shared st) ! p) \<and>
        threadNumber (h ! p) = threadNumber (inst_heap (shared st) ! p) \<and>
        (st_squashed (inst_heap (shared st) ! p) \<longrightarrow> st_squashed (h ! p)))"

inductive stage_reachable :: "nat \<Rightarrow> int \<Rightarrow> int \<Rightarrow> int \<Rightarrow> rename_stage \<times> nat list \<Rightarrow> bool"
  for T active pint pfloat where
  start: "O3_regs_ctor T active pint pfloat = Inr r \<Longrightarrow> insts_ok h \<Longrightarrow> length fes = T \<Longrightarrow> length bs = T \<Longrightarrow>
     stage_reachable T active pint pfloat (initStage fes (DefaultRename_ctor T width delay dwidth h r), bs)"
| tick: "stage_reachable T active pint pfloat (st, bs) \<Longrightarrow> cycle_input_ok inps dec bs bs' st \<Longrightarrow>
     stage_tick inps dec st = Inr st' \<Longrightarrow> stage_reachable T active pint pfloat (st', bs')"
| others: "stage_reachable T active pint pfloat (st, bs) \<Longrightarrow> others_ok st h as \<Longrightarrow>
     stage_reachable T active pint pfloat (st\<lparr>shared := (shared st)\<lparr>inst_heap := h\<rparr>, activeThreads := as\<rparr>, bs)"

definition stage_run :: "nat \<Rightarrow> int \<Rightarrow> int \<Rightarrow> int \<Rightarrow> rename_stage \<times> nat list \<Rightarrow> bool" where
  "stage_run T active pint pfloat = (\<lambda>(st, bs). stage_inv st \<and> length (threads st) = T \<and> length bs = T \<and>
     insts_ok (inst_heap (shared st)) \<and>
     (\<exists>fs. rename_reachable T active pint pfloat (regs (shared st), fs) \<and> all_in_order bs (inst_heap (shared st)) fs (threads st)))"

lemma in_order_feed:
  assumes "in_order b h ys ps" "b \<le> b'" "\<forall>n \<in> set (map (\<lambda>p. seqNum (h ! p)) ds). b \<le> n"
    and "sorted_wrt (<) (map (\<lambda>p. seqNum (h ! p)) ds @ [b'])"
  shows "in_order b' h ys (ps @ ds)"
proof -
  have "sorted_wrt (<) (map (\<lambda>p. seqNum (h ! p)) (filter (live h) ds) @ [b'])"
    using assms(4) by (auto simp: sorted_wrt_append sorted_wrt_map intro: sorted_wrt_filter)
  moreover have "\<forall>n \<in> set (seqs h ds). b \<le> n" using assms(3) by (auto simp: seqs_def)
  ultimately show ?thesis
    using assms(1,2) unfolding in_order_def seqs_def by (auto simp: sorted_wrt_append less_le_trans)
qed

lemma all_in_order_fed:
  assumes "all_in_order bs (inst_heap (shared st)) fs (threads st)" "cycle_input_ok inps dec bs bs' st" "length ts = length (threads st)"
    and "\<forall>x < length (threads st). ts ! x = fed (inst_heap (shared st)) dec x (threads st ! x)"
  shows "all_in_order bs' (inst_heap (new_slot dec (shared st))) fs ts"
  unfolding all_in_order_def
proof (intro allI impI)
  fix x assume "x < length ts"
  then have x: "x < length (threads st)" using assms(3) by simp
  then have "in_order (bs ! x) (inst_heap (shared st)) (fs ! x) (pending (threads st ! x))" using assms(1) by (simp add: all_in_order_def)
  then show "in_order (bs' ! x) (inst_heap (new_slot dec (shared st))) (fs ! x) (pending (ts ! x))"
    using in_order_feed assms(2,4) x unfolding cycle_input_ok_def Let_def by simp
qed

lemma in_order_others:
  assumes "in_order b h ys ps" "\<forall>p \<in> set ps. p < length h \<and> seqNum (h' ! p) = seqNum (h ! p) \<and> (st_squashed (h ! p) \<longrightarrow> st_squashed (h' ! p))"
  shows "in_order b h' ys ps"
proof -
  have "filter (live h') ps = filter (live h') (filter (live h) ps)"
    unfolding filter_filter using assms(2) by (intro filter_cong) (auto simp: live_def)
  then have "seqs h' ps = map (\<lambda>p. seqNum (h ! p)) (filter (live h') (filter (live h) ps))"
    using assms(2) unfolding seqs_def by (intro map_cong) auto
  then show ?thesis
    using assms(1) unfolding in_order_def seqs_def
    by (auto simp: sorted_wrt_append sorted_wrt_map simp del: filter_filter intro: sorted_wrt_filter)
qed

lemma stage_run_start:
  assumes "O3_regs_ctor T active pint pfloat = Inr r" "insts_ok h" "length fes = T" "length bs = T"
  shows "stage_run T active pint pfloat (initStage fes (DefaultRename_ctor T width delay dwidth h r), bs)"
proof -
  let ?st = "initStage fes (DefaultRename_ctor T width delay dwidth h r)"
  have t: "threads ?st ! x = new_rename_thread\<lparr>freeEntries := fes ! x, emptyROB := True\<rparr>" if "x < T" for x
    using that assms(3) by (simp add: initStage_def DefaultRename_ctor_def)
  have p: "pending (threads ?st ! x) = []" if "x < T" for x using t [OF that] by (simp add: pending_def new_rename_thread_def)
  have len: "length (threads ?st) = T" using assms(3) by (simp add: initStage_def DefaultRename_ctor_def)
  have s: "shared ?st = shared (DefaultRename_ctor T width delay dwidth h r)" "activeThreads ?st = []"
    by (simp_all add: initStage_def DefaultRename_ctor_def)
  have f: "\<not> resumeSerialize (shared ?st)" "\<not> resumeUnblocking (shared ?st)"
    unfolding s(1) by (simp_all add: DefaultRename_ctor_def)
  have "renameStatus (threads ?st ! x) = Idle \<and> serializeInst (threads ?st ! x) = None \<and> skidBuffer (threads ?st ! x) = []"
    if "x < T" for x unfolding t [OF that] by (simp add: new_rename_thread_def)
  then have "unblocking_ok (threads ?st ! x) \<and> thread_inv x (threads ?st ! x, shared ?st)" if "x < T" for x
    using p [OF that] f that unfolding thread_inv_def unblocking_ok_def prod.case by simp
  then have "stage_inv ?st" by (simp add: stage_inv_def len s(2))
  moreover have "rename_reachable T active pint pfloat (regs (shared ?st), replicate T [])"
    using start assms(1) unfolding s by (auto simp: DefaultRename_ctor_def intro: rename_reachable.start)
  moreover have "all_in_order bs (inst_heap (shared ?st)) (replicate T []) (threads ?st)"
    unfolding all_in_order_def len using p by (simp add: in_order_def seqs_def)
  moreover have "insts_ok (inst_heap (shared ?st))" using assms(2) unfolding s(1) by (simp add: DefaultRename_ctor_def)
  ultimately show ?thesis using len assms(4) unfolding stage_run_def prod.case by blast
qed

lemma stage_run_tick:
  assumes "o3_params T active pint pfloat" "stage_run T active pint pfloat (st, bs)" "cycle_input_ok inps dec bs bs' st"
    and "stage_tick inps dec st = Inr st'"
  shows "stage_run T active pint pfloat (st', bs')"
proof -
  let ?g = "new_slot dec (shared st)" and ?h = "inst_heap (shared st)"
  have run: "stage_inv st" "length (threads st) = T" "length bs = T" "insts_ok ?h" using assms(2) by (simp_all add: stage_run_def)
  obtain fs where fs: "rename_reachable T active pint pfloat (regs (shared st), fs)" "all_in_order bs ?h fs (threads st)"
    using assms(2) by (auto simp: stage_run_def)
  note inp = assms(3) [unfolded cycle_input_ok_def Let_def]
  obtain ts c ts1 g1 status r ts2 where
    ts: "length ts = length (threads st)" "\<forall>tid < length (threads st). ts ! tid = fed ?h dec tid (threads st ! tid)"
    and ft: "foldE (tick_thread inps) (activeThreads st) (False, ts, ?g) = Inr (c, ts1, g1)"
    and fc: "foldE (commit_thread inps ts1) (activeThreads st) (regs g1) = Inr r"
    and fp: "foldE (progress_thread inps) [0..<length ts1] ts1 = Inr ts2"
    and st': "st' = \<lparr>rs_status = status, threads = ts2, shared = g1\<lparr>regs := r\<rparr>, activeThreads = activeThreads st\<rparr>"
    by (rule stage_tick_parts [OF assms(4)])
  have act: "distinct (activeThreads st)" "set (activeThreads st) \<subseteq> {..<length ts}" using run(1) ts(1) by (simp_all add: stage_inv_def)
  have inv: "\<forall>tid < length ts. thread_inv tid (ts ! tid, ?g)"
    using run(1) ts thread_inv_fed by (simp add: stage_inv_def)
  have sig: "\<forall>tid \<in> set (activeThreads st). signals_ok (inps ! tid) (ts ! tid, ?g)"
    using inp ts act(2) by (auto simp: signals_ok_def)
  note ord = all_in_order_fed [OF fs(2) assms(3) ts]
  obtain fs1 where fs1: "rename_reachable T active pint pfloat (regs g1, fs1)" "insts_ok (inst_heap g1)"
    "all_in_order bs' (inst_heap g1) fs1 ts1"
    using tick_threads_run [OF assms(1) ft act _ inv sig _ _ ord] ts(1) run fs(1) by auto
  have len: "length ts1 = T" using tick_threads_ok [OF ft act inv sig] ts(1) run(2) by simp
  have "\<forall>x < T. in_order (bs' ! x) (inst_heap g1) (fs1 ! x) (pending (ts1 ! x))" using fs1(3) len by (simp add: all_in_order_def)
  then obtain fs2 where fs2: "rename_reachable T active pint pfloat (r, fs2)"
    "\<forall>x < T. in_order (bs' ! x) (inst_heap g1) (fs2 ! x) (pending (ts1 ! x))"
    using commit_fold [OF assms(1) fc _ fs1(1), of bs' "inst_heap g1" "\<lambda>x. pending (ts1 ! x)"] act(2) ts(1) run(2) by auto
  note pf = progress_fold [OF fp]
  have "pending (ts2 ! x) = pending (ts1 ! x)" if "x < T" for x using pf that len by (metis pending_status(8))
  then have "all_in_order bs' (inst_heap g1) fs2 ts2" using fs2(2) pf len by (simp add: all_in_order_def)
  moreover have "stage_inv st'" using stage_tick_ok(1) [OF run(1) assms(4)] inp by blast
  ultimately show ?thesis
    using fs2(1) fs1(2) pf len inp run(3) unfolding stage_run_def prod.case st' by auto
qed

lemma stage_run_others:
  assumes "stage_run T active pint pfloat (st, bs)" "others_ok st h as"
  shows "stage_run T active pint pfloat (st\<lparr>shared := (shared st)\<lparr>inst_heap := h\<rparr>, activeThreads := as\<rparr>, bs)"
proof -
  have run: "stage_inv st" "length (threads st) = T" "length bs = T" using assms(1) by (simp_all add: stage_run_def)
  obtain fs where fs: "rename_reachable T active pint pfloat (regs (shared st), fs)"
    "all_in_order bs (inst_heap (shared st)) fs (threads st)" using assms(1) by (auto simp: stage_run_def)
  have inv: "thread_inv x (threads st ! x, shared st)" if "x < T" for x using run that by (simp add: stage_inv_def)
  have o: "p < length h \<and> seqNum (h ! p) = seqNum (inst_heap (shared st) ! p) \<and>
      threadNumber (h ! p) = threadNumber (inst_heap (shared st) ! p) \<and>
      (st_squashed (inst_heap (shared st) ! p) \<longrightarrow> st_squashed (h ! p))" if "x < T" "p \<in> set (pending (threads st ! x))" for x p
    using assms(2) that run(2) unfolding others_ok_def by (meson nth_mem)
  have "thread_inv x (threads st ! x, (shared st)\<lparr>inst_heap := h\<rparr>)" if "x < T" for x
    using inv [OF that] o [OF that] by (simp add: thread_inv_def)
  then have "stage_inv (st\<lparr>shared := (shared st)\<lparr>inst_heap := h\<rparr>, activeThreads := as\<rparr>)"
    using assms(2) run(1,2) by (simp add: stage_inv_def others_ok_def)
  moreover have "in_order (bs ! x) h (fs ! x) (pending (threads st ! x))" if "x < T" for x
  proof (rule in_order_others)
    show "in_order (bs ! x) (inst_heap (shared st)) (fs ! x) (pending (threads st ! x))"
      using fs(2) that run(2) by (simp add: all_in_order_def)
    show "\<forall>p \<in> set (pending (threads st ! x)). p < length (inst_heap (shared st)) \<and>
        seqNum (h ! p) = seqNum (inst_heap (shared st) ! p) \<and> (st_squashed (inst_heap (shared st) ! p) \<longrightarrow> st_squashed (h ! p))"
      using o [OF that] inv [OF that] by (simp add: thread_inv_def)
  qed
  ultimately show ?thesis
    using run fs(1) assms(2) by (auto simp: stage_run_def all_in_order_def others_ok_def)
qed

lemma stage_reachable_run:
  assumes "o3_params T active pint pfloat" "stage_reachable T active pint pfloat s"
  shows "stage_run T active pint pfloat s"
  using assms(2)
proof (induction rule: stage_reachable.induct)
  case (start r h fes bs width delay dwidth)
  then show ?case by (rule stage_run_start)
next
  case (tick st bs inps dec bs' st')
  then show ?case using stage_run_tick [OF assms(1)] by blast
next
  case (others st bs h as)
  then show ?case using stage_run_others by blast
qed

text \<open>The example is reachable.\<close>

lemma stage_demo_reachable:
  obtains r where "stage_reachable 1 1 64 64 (stage_demo r, [1])" "0 < numFreeEntries (rr_freeList r)"
    "cycle_input_ok [stage_demo_input] [0, 1, 2] [1] [4] (stage_demo r)"
proof -
  have g: "o3_geometry 64 64" by (simp add: o3_geometry_def)
  obtain r where r: "O3_regs_ctor 1 1 64 64 = Inr r" "freeIntRegs (rr_freeList r) = [40..63]"
    "freeFloatRegs (rr_freeList r) = [96..127]"
    using O3_regs_ctor_ok [OF g, of 1 1] by auto
  have free: "0 < numFreeEntries (rr_freeList r)" by (simp add: numFreeEntries_def numFreeIntRegs_def numFreeFloatRegs_def r(2,3))
  let ?h = "map (\<lambda>n. stage_demo_inst n (n = 2)) [1, 2, 3]"
  let ?st = "initStage [\<lparr>iqEntries = 8, lsqEntries = 8, robEntries = 8\<rparr>] (DefaultRename_ctor 1 4 1 4 ?h r)"
  have ok: "insts_ok ?h" by (simp add: insts_ok_def operands_ok_def stage_demo_inst_def)
  have "stage_reachable 1 1 64 64 (?st, [1])" by (rule stage_reachable.start [OF r(1) ok]) simp_all
  moreover have "others_ok ?st ?h [0]"
    using ok by (simp add: others_ok_def initStage_def DefaultRename_ctor_def new_rename_thread_def pending_def)
  ultimately have "stage_reachable 1 1 64 64 (?st\<lparr>shared := (shared ?st)\<lparr>inst_heap := ?h\<rparr>, activeThreads := [0]\<rparr>, [1])"
    by (rule stage_reachable.others)
  moreover have "?st\<lparr>shared := (shared ?st)\<lparr>inst_heap := ?h\<rparr>, activeThreads := [0]\<rparr> = stage_demo r"
    by (simp add: stage_demo_def initStage_def DefaultRename_ctor_def)
  ultimately have "stage_reachable 1 1 64 64 (stage_demo r, [1])" by simp
  moreover have "cycle_input_ok [stage_demo_input] [0, 1, 2] [1] [4] (stage_demo r)"
    using stage_demo_inv [of r] by (simp add: cycle_input_ok_def) (simp add: stage_eval of_thread_def)
  ultimately show thesis using that free by blast
qed

section \<open>Properties\<close>

text \<open>
  (C20) The rename stage implements the abstract renaming. It is constructed with all threads active and
  enough physical registers and goes through cycles with any stalls and commits on its threads, in which
  decode sends the instructions of a thread in the order of their sequence numbers, the reorder buffer goes
  on squashing only a thread that was told to squash, and a squash comes from an instruction older than
  the one, if any, that waits in the stage to serialise (\<open>cycle_input_ok\<close>, \<open>signals_ok\<close>: the other case, in which
  \<open>squash\<close> sets \<open>resumeSerialize\<close>, is not covered); between cycles the other stages keep the instructions
  that wait here, and may squash them (\<open>others_ok\<close>); all instructions have valid operands and only the first
  thread writes r31 (\<open>insts_ok\<close>). Then, in every state reached, the register structures are in a state that
  renames, squashes and commits of whole instructions reach in program order; so all physical registers
  are accounted for. The instructions renamed and in flight, followed by those that wait in the stage,
  are in the order of their sequence numbers.
\<close>

theorem rename_stage_refines:
  assumes "o3_params T active pint pfloat" "stage_reachable T active pint pfloat (st, bs)"
  shows "stage_inv st \<and> conserved pint pfloat (all_regs (regs (shared st))) \<and>
    (\<exists>fs. rename_reachable T active pint pfloat (regs (shared st), fs) \<and>
       (\<forall>tid < T. sorted_wrt (<) (rev (map seqNum (fs ! tid)) @ seqs (inst_heap (shared st)) (pending (threads st ! tid)))))"
proof -
  have run: "stage_run T active pint pfloat (st, bs)" by (rule stage_reachable_run [OF assms])
  then obtain fs where fs: "rename_reachable T active pint pfloat (regs (shared st), fs)"
    "all_in_order bs (inst_heap (shared st)) fs (threads st)" and st: "stage_inv st" "length (threads st) = T"
    by (auto simp: stage_run_def)
  have "conserved pint pfloat (all_regs (regs (shared st)))"
    using reachable_inv [OF assms(1) fs(1)] by (simp add: run_inv_def)
  moreover have "sorted_wrt (<) (rev (map seqNum (fs ! tid)) @ seqs (inst_heap (shared st)) (pending (threads st ! tid)))"
    if "tid < T" for tid
    using fs(2) that st(2) by (auto simp: all_in_order_def in_order_def sorted_wrt_append)
  ultimately show ?thesis using st(1) fs(1) by blast
qed

theorem rename_stage_refines_witness:
  "\<exists>st. stage_reachable 1 1 64 64 (st, [4]) \<and> toIEW (shared st) = [0] \<and> pending (threads st ! 0) = [1, 2] \<and>
    stage_inv st \<and> conserved 64 64 (all_regs (regs (shared st)))"
proof -
  obtain r where r: "stage_reachable 1 1 64 64 (stage_demo r, [1])" "0 < numFreeEntries (rr_freeList r)"
    "cycle_input_ok [stage_demo_input] [0, 1, 2] [1] [4] (stage_demo r)"
    by (rule stage_demo_reachable)
  obtain st' where t: "stage_tick [stage_demo_input] [0, 1, 2] (stage_demo r) = Inr st'" "toIEW (shared st') = [0]"
    "serializeInst (threads st' ! 0) = Some 1" "skidBuffer (threads st' ! 0) = [2]" "insts (threads st' ! 0) = []"
    by (rule stage_demo_tick [OF r(2)])
  have s: "stage_reachable 1 1 64 64 (st', [4])" by (rule stage_reachable.tick [OF r(1,3) t(1)])
  show ?thesis
    using rename_stage_refines [OF demo_params s] s t(2-5) by (intro exI [of _ st']) (simp add: pending_def)
qed

end
