(* ===== verification/O3_Stage_Total.thy ===== *)
theory O3_Stage_Total
  imports O3_Stage_Safe
begin

text \<open>
  No assertion of the rename stage fails: a cycle on a reachable state returns, when the stall signals
  alternate, the dispatched instructions were in progress, and decode has not overfilled the skid
  buffer.
\<close>

section \<open>The parts of a cycle\<close>

lemma foldE_check: "\<forall>p \<in> set ps. p < length (inst_heap g) \<and> threadNumber (inst_heap g ! p) = tid \<Longrightarrow>
    foldE (check_thread tid g) ps u = Inr ()"
  by (induction ps arbitrary: u) (auto simp: check_thread_def)

definition room :: "nat \<Rightarrow> thread_state \<Rightarrow> bool" where
  "room tid = (\<lambda>(t, g). (\<forall>p \<in> set (pending t). of_thread (inst_heap g) tid p) \<and> length (pending t) \<le> skidBufferMax g)"

lemma skidInsert_total:
  assumes "room tid (t, g)"
  shows "\<exists>t'. skidInsert tid (t, g) = Inr (t', g)"
proof -
  have "foldE (check_thread tid g) (insts t) () = Inr ()"
    using assms by (intro foldE_check) (auto simp: room_def of_thread_def pending_def)
  then show ?thesis using assms by (auto simp: skidInsert_def room_def pending_def Let_def)
qed

lemma block_total:
  assumes "room tid (t, g)"
  shows "\<exists>c t' g'. block tid (t, g) = Inr (c, t', g')"
  using skidInsert_total [OF assms] by (auto simp: block_def Let_def)

lemma room_flow:
  assumes "room tid (t, g)" "flow (t, g) out (t', g')"
  shows "room tid (t', g')"
proof -
  have f: "same_heap (inst_heap g) (inst_heap g')" "set (pending t') \<subseteq> set (pending t)" "length (pending t') \<le> length (pending t)"
    "skidBufferMax g' = skidBufferMax g" using assms(2) by (auto simp: flow_def)
  then show ?thesis using assms(1) by (auto simp: room_def of_thread_def same_heap_def same_inst_def)
qed

lemma validInsts_total:
  assumes "\<forall>p \<in> set (fromDecode g). p < length (inst_heap g)"
  shows "\<exists>n. validInsts g = Inr n"
proof -
  have "\<exists>n. foldE (\<lambda>p n. bindE (at (inst_heap g) p) (\<lambda>i. Inr (if st_squashed i then n else n + 1))) ps k = Inr n"
    if "\<forall>p \<in> set ps. p < length (inst_heap g)" for ps and k :: nat
    using that by (induction ps arbitrary: k) auto
  then show ?thesis using assms by (simp add: validInsts_def)
qed

lemma mark_squashed_total:
  assumes "\<forall>p \<in> set ps. p < length h"
  shows "\<exists>h' w'. foldE (mark_squashed n tid) ps (h, w) = Inr (h', w')"
  using assms
proof (induction ps arbitrary: h w)
  case (Cons p ps)
  have "\<exists>h1 w1. mark_squashed n tid p (h, w) = Inr (h1, w1) \<and> length h1 = length h"
    using Cons.prems by (auto simp: mark_squashed_def)
  then obtain h1 w1 where "mark_squashed n tid p (h, w) = Inr (h1, w1)" "length h1 = length h" by blast
  then show ?case using Cons by auto
qed simp

lemma stage_squash_total:
  assumes "thread_inv tid (t, g)" "\<forall>p \<in> set (fromDecode g). p < length (inst_heap g)"
    and "o3_params T active pint pfloat" "tid < T" "rename_reachable T active pint pfloat (regs g, fs)"
  shows "\<exists>t' g'. stage_squash n tid (t, g) = Inr (t', g')"
proof -
  have "renameStatus t = SerializeStall \<longrightarrow> (\<exists>p. serializeInst t = Some p \<and> p < length (inst_heap g))"
    using assms(1) by (auto simp: thread_inv_def pending_def)
  then have "\<exists>t1 g1. squash_status n (t, g) = Inr (t1, g1) \<and> inst_heap g1 = inst_heap g \<and> fromDecode g1 = fromDecode g \<and> regs g1 = regs g"
    by (cases "renameStatus t") (auto simp: squash_status_def)
  then obtain t1 g1 where 1: "squash_status n (t, g) = Inr (t1, g1)" "inst_heap g1 = inst_heap g" "fromDecode g1 = fromDecode g" "regs g1 = regs g"
    by blast
  have inv: "run_inv T pint pfloat (regs g, fs)" by (rule reachable_inv [OF assms(3,5)])
  have "op_ok (Squash tid n) fs" using run_inv_parts(3) [OF inv assms(4)] assms(4) by simp
  then obtain r where "doSquash n tid (regs g) = Inr r" using step_inv [OF inv] by (fastforce simp: bindE_eq_Inr)
  moreover obtain h w where "foldE (mark_squashed n tid) (fromDecode g) (inst_heap g, wroteToTimeBuffer g1) = Inr (h, w)"
    using mark_squashed_total [OF assms(2)] by blast
  ultimately show ?thesis using 1 by (simp add: stage_squash_def)
qed

lemma end_serialize_total:
  assumes "serializeInst t = Some p" "p < length (inst_heap g)"
  shows "\<exists>t' g'. end_serialize (t, g) = Inr (t', g')"
proof -
  obtain c t1 g1 where u: "unblock (t\<lparr>renameStatus := Unblocking\<rparr>, g) = (c, t1, g1)" by (metis surj_pair)
  then show ?thesis using unblock_flow(6) [OF u] assms by (simp add: end_serialize_def Let_def)
qed

definition stalls_ok :: "stage_input \<Rightarrow> rename_thread \<Rightarrow> bool" where
  "stalls_ok inp t \<longleftrightarrow> (iewUnblock inp \<longrightarrow> iewBlock inp \<or> st_iew (stalls t)) \<and>
     (commitUnblock inp \<longrightarrow> commitBlock inp \<or> st_commit (stalls t))"

lemma readStallSignals_total: "stalls_ok inp t \<Longrightarrow> \<exists>t'. readStallSignals inp (readFreeEntries inp t) = Inr t'"
  by (auto simp: stalls_ok_def readStallSignals_def readFreeEntries_def Let_def)

lemma checkSignalsAndUpdate_total:
  assumes "thread_inv tid (t0, g)" "room tid (t0, g)" "stalls_ok inp t0" "\<forall>p \<in> set (fromDecode g). p < length (inst_heap g)"
    and "o3_params T active pint pfloat" "tid < T" "rename_reachable T active pint pfloat (regs g, fs)"
  shows "\<exists>c t' g'. checkSignalsAndUpdate tid inp (t0, g) = Inr (c, t', g')"
proof -
  obtain t where rs: "readStallSignals inp (readFreeEntries inp t0) = Inr t" using readStallSignals_total [OF assms(3)] by blast
  note k = readStallSignals_keeps [OF rs, simplified]
  have inv: "thread_inv tid (t, g)" using assms(1) k by (simp add: thread_inv_def)
  have room: "room tid (t, g)" using assms(2) k by (simp add: room_def)
  obtain t1 g1 where sq: "stage_squash (doneSeqNum inp) tid (t, g) = Inr (t1, g1)"
    using stage_squash_total [OF inv assms(4-7)] by blast
  obtain c t2 g2 where b: "block tid (t, g) = Inr (c, t2, g2)" using block_total [OF room] by blast
  have e: "renameStatus t = SerializeStall \<longrightarrow> (\<exists>t3 g3. end_serialize (t, g) = Inr (t3, g3))"
    using inv end_serialize_total by (fastforce simp: thread_inv_def pending_def)
  obtain d t4 g4 where u: "unblock (t\<lparr>renameStatus := Unblocking\<rparr>, g) = (d, t4, g4)" by (metis surj_pair)
  show ?thesis
    using e by (auto simp: checkSignalsAndUpdate_def rs sq b u)
qed

section \<open>Renaming\<close>

lemma upd_flag_total: "p < length h \<Longrightarrow> \<exists>h'. upd h (Some p) (\<lambda>i. i\<lparr>st_serializeBefore := b\<rparr>) = Inr h'"
  by simp

lemma after_serialize_total:
  assumes "\<forall>x \<in> set q. x < length (inst_heap g)"
  shows "\<exists>t1 g1. after_serialize p q (t, g) = Inr (t1, g1)"
  using assms by (cases q) (auto simp: after_serialize_def serializeAfter_def set_handled_def)

lemma serialize_next_total:
  assumes "\<forall>x \<in> set q. x < length (inst_heap g)"
  shows "\<exists>t1 g1. serialize_next q (t, g) = Inr (t1, g1)"
  using assms by (cases q) (auto simp: serialize_next_def)

lemma rename_loop_total:
  assumes "o3_params T active pint pfloat" "tid < T" "n \<le> length q" "\<forall>p \<in> set q. of_thread (inst_heap g) tid p"
    and "insts_ok (inst_heap g)" "rename_reachable T active pint pfloat (regs g, fs)" "in_order b (inst_heap g) (fs ! tid) q"
  shows "\<exists>a q' t' g' k'. rename_loop n q (t, g) k = Inr (a, q', (t', g'), k')"
  using assms(3-7)
proof (induction n arbitrary: q t g k fs)
  case (Suc n)
  obtain p qs where q: "q = p # qs" using Suc.prems(1) by (cases q) auto
  have p: "p < length (inst_heap g)" "\<forall>x \<in> set qs. x < length (inst_heap g)" using Suc.prems(2) q by (simp_all add: of_thread_def)
  show ?case
  proof (cases "renameWidth g \<le> length (toIEW g)")
    case w: False
    show ?thesis
    proof (cases "live (inst_heap g) p")
      case False
      have "in_order b (inst_heap g) (fs ! tid) qs" using Suc.prems(5) False by (simp add: q in_order_def seqs_def)
      then show ?thesis
        using Suc.IH [OF _ _ Suc.prems(3,4), of qs t k] Suc.prems(1,2) False w p(1) by (simp add: q live_def)
    next
      case lv: True
      show ?thesis
      proof (cases "needs_serialize_before (inst_heap g ! p)")
        case True
        then show ?thesis using lv w p(1) by (simp add: q live_def Let_def)
      next
        case ns: False
        obtain t1 g1 where sa: "after_serialize p qs (t, g) = Inr (t1, g1)" using after_serialize_total [OF p(2)] by blast
        note pre = assms(1,2) Suc.prems(4) Suc.prems(2) [unfolded q] Suc.prems(3) lv Suc.prems(5) [unfolded q] sa
        note so = send_op_ok [OF pre]
        have "\<exists>r. rename_step (Rename (inst_heap g1 ! p)) (regs g, fs) = Inr r"
          using step_inv [OF reachable_inv [OF assms(1) Suc.prems(4)] so(1)] by blast
        then obtain r where r: "rename_inst (inst_heap g1 ! p) (regs g1) = Inr r" by (auto simp: so(4) bindE_eq_Inr)
        show ?thesis
        proof (cases r)
          case None
          then show ?thesis using r sa ns lv w p(1) so(7) by (simp add: q live_def after_serialize_def)
        next
          case (Some pr)
          obtain i2 s2 where pr: "pr = (i2, s2)" by (metis surj_pair)
          let ?g = "g1\<lparr>inst_heap := (inst_heap g1)[p := i2], regs := s2, toIEW := toIEW g1 @ [p]\<rparr>"
          note ss = send_step [OF pre r [unfolded Some pr]]
          have "\<exists>a q' t' g' k'. rename_loop n qs (t1, ?g) (k + 1) = Inr (a, q', (t', g'), k')"
            using Suc.IH [of qs ?g "fs[tid := i2 # fs ! tid]" t1 "k + 1"] Suc.prems(1) ss by (simp add: q)
          then show ?thesis using r sa ns lv w p(1) so(7) by (simp add: q live_def after_serialize_def Some pr)
        qed
      qed
    qed
  qed simp
qed simp

lemma finish_renaming_total:
  assumes "room tid (if unb then t\<lparr>skidBuffer := q\<rparr> else t\<lparr>insts := q\<rparr>, g)"
  shows "\<exists>t' g'. finish_renaming tid unb (a, q, (t, g), n) = Inr (t', g')"
proof -
  define t2 where "t2 = (let t = if unb then t\<lparr>skidBuffer := q\<rparr> else t\<lparr>insts := q\<rparr> in t\<lparr>instsInProgress := instsInProgress t + n\<rparr>)"
  define g2 where "g2 = (let g = if toIEW g \<noteq> [] then g\<lparr>wroteToTimeBuffer := True\<rparr> else g
    in if a \<noteq> 0 then g\<lparr>blockThisCycle := True\<rparr> else g)"
  have "room tid (t2, g2)" using assms by (simp add: room_def t2_def g2_def Let_def split: if_splits)
  then obtain c t3 g3 where "block tid (t2, g2) = Inr (c, t3, g3)" using block_total by blast
  then have "\<exists>t' g'. (if blockThisCycle g2 then bindE (block tid (t2, g2)) (\<lambda>(_, t, g). Inr (t\<lparr>renameUnblock := False\<rparr>, g))
      else Inr (t2, g2)) = Inr (t', g')" by simp
  then show ?thesis unfolding finish_renaming_def t2_def g2_def prod.case Let_def .
qed

lemma renameInsts_total:
  assumes "o3_params T active pint pfloat" "tid < T" "thread_inv tid (t, g)" "room tid (t, g)"
    and "renameStatus t \<in> {Running, Idle, Unblocking}" "insts_ok (inst_heap g)"
    and "rename_reachable T active pint pfloat (regs g, fs)" "in_order b (inst_heap g) (fs ! tid) (pending t)"
  shows "\<exists>t' g'. renameInsts tid inp (t, g) = Inr (t', g')"
proof -
  have inv: "\<forall>p \<in> set (pending t). of_thread (inst_heap g) tid p" "serializeInst t = None"
    "renameStatus t \<noteq> Unblocking \<longrightarrow> skidBuffer t = []"
    using assms(3,5) by (auto simp: thread_inv_def of_thread_def)
  have q: "\<exists>r. pending t = insts_to_rename t @ r" using inv(2,3) by (auto simp: insts_to_rename_def pending_def)
  then have qt: "\<forall>p \<in> set (insts_to_rename t). of_thread (inst_heap g) tid p" "in_order b (inst_heap g) (fs ! tid) (insts_to_rename t)"
    using inv(1) assms(8) in_order_prefix by auto
  let ?m = "min_free_entries inp t" and ?n = "int (length (insts_to_rename t))"
  define g0 where "g0 = (if ?m < ?n then g\<lparr>blockThisCycle := True\<rparr> else g)"
  define n0 where "n0 = (if ?m < ?n then ?m else ?n)"
  have g0: "inst_heap g0 = inst_heap g" "regs g0 = regs g" "skidBufferMax g0 = skidBufferMax g" by (simp_all add: g0_def)
  have q0: "\<forall>p \<in> set (insts_to_rename t). p < length (inst_heap g0)" using qt(1) by (simp add: of_thread_def g0(1))
  obtain t1 g1 where s1: "serialize_next (insts_to_rename t) (t, g0) = Inr (t1, g1)" using serialize_next_total [OF q0] by blast
  note k1 = serialize_next_keeps [OF s1 q0]
  have qo: "insts_to_rename t1 = insts_to_rename t" using k1(3-5) by (simp add: insts_to_rename_def)
  have q1: "quiet g g1" using serialize_next_quiet [OF s1] g0 by (simp add: quiet_def)
  have h: "same_heap (inst_heap g) (inst_heap g1)" using flow_silent_parts [OF k1(1)] g0 by simp
  have ot: "\<forall>p \<in> set (insts_to_rename t1). of_thread (inst_heap g1) tid p"
    using qt(1) h unfolding qo by (auto simp: of_thread_def same_heap_def same_inst_def)
  have io: "in_order b (inst_heap g1) (fs ! tid) (insts_to_rename t1)"
    using qt(2) unfolding in_order_def qo seqs_same_heap [OF h] .
  have ok1: "insts_ok (inst_heap g1)" "rename_reachable T active pint pfloat (regs g1, fs)"
    using q1 assms(6,7) by (simp_all add: quiet_def)
  have "nat n0 \<le> length (insts_to_rename t1)" by (simp add: n0_def qo nat_le_iff)
  then obtain a q' t2 g2 k where l: "rename_loop (nat n0) (insts_to_rename t1) (t1, g1) 0 = Inr (a, q', (t2, g2), k)"
    using rename_loop_total [OF assms(1,2) _ ot ok1 io] by blast
  have "\<forall>p \<in> set (insts_to_rename t1). p < length (inst_heap g1)" using q0 h g0(1) unfolding qo by (simp add: same_heap_def)
  then obtain out where lf: "loop_flow (insts_to_rename t1) (t1, g1) out q' (t2, g2)"
    using rename_loop_flow [OF l] k1(2) inv(2) by auto
  have "flow (t1, g1) out (if renameStatus t = Unblocking then t2\<lparr>skidBuffer := q'\<rparr> else t2\<lparr>insts := q'\<rparr>, g2)"
    using loop_flow_flow [OF lf] k1(2,4,5) inv(2,3) by simp
  moreover have "room tid (t, g0)" using assms(4) g0 by (simp add: room_def)
  then have "room tid (t1, g1)" by (rule room_flow [OF _ k1(1)])
  ultimately obtain t3 g3 where f: "finish_renaming tid (renameStatus t = Unblocking) (a, q', (t2, g2), k) = Inr (t3, g3)"
    using room_flow finish_renaming_total by blast
  obtain c t4 g4 where b: "block tid (t, g\<lparr>blockThisCycle := True\<rparr>) = Inr (c, t4, g4)"
    using block_total [of tid t "g\<lparr>blockThisCycle := True\<rparr>"] assms(4) by (auto simp: room_def)
  show ?thesis
    using s1 l f b unfolding renameInsts_def g0_def n0_def by (auto simp: Let_def)
qed

lemma stage_rename_total:
  assumes "o3_params T active pint pfloat" "tid < T" "thread_inv tid (t, g)" "room tid (t, g)" "insts_ok (inst_heap g)"
    and "rename_reachable T active pint pfloat (regs g, fs)" "in_order b (inst_heap g) (fs ! tid) (pending t)"
    and "\<forall>p \<in> set (fromDecode g). p < length (inst_heap g)"
  shows "\<exists>c t' g'. stage_rename tid inp sc (t, g) = Inr (c, t', g')"
proof -
  have res: "\<not> resumeSerialize g" "\<not> resumeUnblocking g" using assms(3) by (simp_all add: thread_inv_def)
  show ?thesis
  proof (cases "renameStatus t \<in> {Running, Idle, Unblocking}")
    case True
    then obtain t1 g1 where r: "renameInsts tid inp (t, g) = Inr (t1, g1)"
      using renameInsts_total [OF assms(1-4) _ assms(5-7)] by blast
    obtain out where f: "flow (t, g) out (t1, g1)" using renameInsts_flow [OF r assms(3) True] by blast
    have "room tid (t1, g1)" by (rule room_flow [OF assms(4) f])
    then obtain t2 where s: "skidInsert tid (t1, g1) = Inr (t2, g1)" using skidInsert_total by blast
    have "\<forall>p \<in> set (fromDecode g1). p < length (inst_heap g1)" using f assms(8) by (simp add: flow_def same_heap_def)
    then obtain n where v: "validInsts g1 = Inr n" using validInsts_total by blast
    show ?thesis using True res r v s by (auto simp: stage_rename_def Let_def split: prod.splits)
  next
    case False
    then show ?thesis using res by (auto simp: stage_rename_def)
  qed
qed

lemma thread_cycle_total:
  assumes "o3_params T active pint pfloat" "tid < T" "thread_inv tid (t, g)" "signals_ok inp (t, g)" "stalls_ok inp t"
    and "room tid (t, g)" "insts_ok (inst_heap g)" "rename_reachable T active pint pfloat (regs g, fs)"
    and "in_order b (inst_heap g) (fs ! tid) (pending t)" "\<forall>p \<in> set (fromDecode g). p < length (inst_heap g)"
  shows "\<exists>c t' g'. thread_cycle tid inp sc (t, g) = Inr (c, t', g')"
proof -
  obtain c1 t1 g1 where 1: "checkSignalsAndUpdate tid inp (t, g) = Inr (c1, t1, g1)"
    using checkSignalsAndUpdate_total [OF assms(3,6,5,10,1,2,8)] by blast
  have "\<exists>c t' g'. stage_rename tid inp (c1 \<or> sc) (t1, g1) = Inr (c, t', g')"
  proof (cases "ci_squash inp")
    case True
    then have "renameStatus t1 = Squashing"
      using 1 by (auto simp: checkSignalsAndUpdate_def stage_squash_def bindE_eq_Inr Let_def)
    then show ?thesis by (simp add: stage_rename_def)
  next
    case False
    note f = checkSignalsAndUpdate_flow [OF 1 assms(3,4) False] and q = checkSignalsAndUpdate_quiet [OF 1 assms(3) False]
    have h: "same_heap (inst_heap g) (inst_heap g1)" "fromDecode g1 = fromDecode g"
      "filter (live (inst_heap g)) (pending t1) = filter (live (inst_heap g)) (pending t)" using f by (simp_all add: flow_def)
    have io: "in_order b (inst_heap g1) (fs ! tid) (pending t1)"
      using assms(9) h(3) unfolding in_order_def seqs_same_heap [OF h(1)] by (simp add: seqs_def)
    have inv1: "thread_inv tid (t1, g1)" "room tid (t1, g1)" using room_flow assms(6) f by blast+
    have ok1: "insts_ok (inst_heap g1)" "rename_reachable T active pint pfloat (regs g1, fs)"
      using q assms(7,8) by (simp_all add: quiet_def)
    have "\<forall>p \<in> set (fromDecode g1). p < length (inst_heap g1)" using assms(10) h(1,2) by (simp add: same_heap_def)
    then show ?thesis by (rule stage_rename_total [OF assms(1,2) inv1 ok1 io])
  qed
  then show ?thesis using 1 by (auto simp: thread_cycle_def)
qed

section \<open>Instructions in progress\<close>

lemma skidInsert_progress: "skidInsert tid (t, g) = Inr (t', g') \<Longrightarrow> instsInProgress t' = instsInProgress t"
  by (drule skidInsert_flow(1)) simp

lemma block_progress:
  assumes "block tid (t, g) = Inr (c, t', g')"
  shows "instsInProgress t' = instsInProgress t"
proof -
  obtain t1 g1 where 1: "skidInsert tid (t, g) = Inr (t1, g1)" using assms by (auto simp: block_def bindE_eq_Inr)
  have "instsInProgress t' = instsInProgress t1"
    using assms unfolding block_def 1 by (auto simp: Let_def split: if_splits)
  then show ?thesis using skidInsert_progress [OF 1] by simp
qed

lemma unblock_progress: "unblock (t, g) = (c, t', g') \<Longrightarrow> instsInProgress t' = instsInProgress t"
  by (auto simp: unblock_def split: if_splits)

lemma end_serialize_progress:
  assumes "end_serialize (t, g) = Inr (t', g')"
  shows "instsInProgress t' = instsInProgress t"
proof -
  obtain c t1 g1 where u: "unblock (t\<lparr>renameStatus := Unblocking\<rparr>, g) = (c, t1, g1)" by (metis surj_pair)
  have "instsInProgress t' = instsInProgress t1"
    using assms u by (auto simp: end_serialize_def Let_def bindE_eq_Inr)
  then show ?thesis using unblock_progress [OF u] by simp
qed

lemma stage_squash_progress:
  assumes "stage_squash n tid (t, g) = Inr (t', g')"
  shows "instsInProgress t' = instsInProgress t"
proof -
  obtain t1 g1 where 1: "squash_status n (t, g) = Inr (t1, g1)" "instsInProgress t' = instsInProgress t1"
    using assms by (auto simp: stage_squash_def bindE_eq_Inr Let_def)
  then show ?thesis by (auto simp: squash_status_def bindE_eq_Inr split: if_splits)
qed

lemma checkSignalsAndUpdate_progress:
  assumes "checkSignalsAndUpdate tid inp (t0, g) = Inr (c, t', g')"
  shows "instsInProgress t' = instsInProgress t0"
proof -
  obtain t where rs: "readStallSignals inp (readFreeEntries inp t0) = Inr t"
    using assms by (auto simp: checkSignalsAndUpdate_def bindE_eq_Inr Let_def)
  have 0: "instsInProgress t = instsInProgress t0"
    using rs by (auto simp: readStallSignals_def readFreeEntries_def Let_def bindE_eq_Inr)
  consider "instsInProgress t' = instsInProgress t" | "block tid (t, g) = Inr (c, t', g')"
    | "(t', g') = snd (unblock (t\<lparr>renameStatus := Unblocking\<rparr>, g))" | "end_serialize (t, g) = Inr (t', g')"
    | "stage_squash (doneSeqNum inp) tid (t, g) = Inr (t', g')"
    using assms rs by (auto simp: checkSignalsAndUpdate_def bindE_eq_Inr split: if_splits)
  then show ?thesis
  proof cases
    case 3
    then obtain b where "unblock (t\<lparr>renameStatus := Unblocking\<rparr>, g) = (b, t', g')" by (metis prod.collapse)
    then show ?thesis using unblock_progress 0 by fastforce
  qed (use 0 block_progress end_serialize_progress stage_squash_progress in auto)
qed

lemma rename_loop_progress:
  assumes "rename_loop n q (t, g) k = Inr (a, q', (t', g'), k')" "\<forall>p \<in> set q. p < length (inst_heap g)"
  shows "k \<le> k' \<and> k' \<le> k + int n \<and> instsInProgress t' = instsInProgress t"
  using assms
proof (induction n arbitrary: q t g k)
  case (Suc n)
  show ?case
  proof (cases rule: rename_loop_cases [OF Suc.prems])
    case (2 p qs)
    then show ?thesis using Suc.IH [OF 2(4)] Suc.prems(2) by auto
  next
    case (4 p qs t1 g1)
    then show ?thesis by (auto simp: after_serialize_def serializeAfter_def bindE_eq_Inr split: if_splits list.splits)
  next
    case (5 p qs t1 g1 i2 s2)
    have "instsInProgress t1 = instsInProgress t"
      using 5(5) by (auto simp: after_serialize_def serializeAfter_def bindE_eq_Inr split: if_splits list.splits)
    moreover have "length (inst_heap g1) = length (inst_heap g)"
      using serializeAfter_keeps(1) [OF 5(5) [unfolded after_serialize_def prod.case]] Suc.prems(2) 5(2) by (simp add: same_heap_def)
    ultimately show ?thesis using Suc.IH [OF 5(7)] Suc.prems(2) 5(2) by simp
  qed auto
qed simp

lemma finish_renaming_progress:
  assumes "finish_renaming tid unb (a, q, (t, g), n) = Inr (t', g')"
  shows "instsInProgress t' = instsInProgress t + n"
proof -
  define t2 where "t2 = (let t = if unb then t\<lparr>skidBuffer := q\<rparr> else t\<lparr>insts := q\<rparr> in t\<lparr>instsInProgress := instsInProgress t + n\<rparr>)"
  define g2 where "g2 = (let g = if toIEW g \<noteq> [] then g\<lparr>wroteToTimeBuffer := True\<rparr> else g
    in if a \<noteq> 0 then g\<lparr>blockThisCycle := True\<rparr> else g)"
  have "(if blockThisCycle g2 then bindE (block tid (t2, g2)) (\<lambda>(_, t, g). Inr (t\<lparr>renameUnblock := False\<rparr>, g))
      else Inr (t2, g2)) = Inr (t', g')"
    using assms unfolding finish_renaming_def t2_def g2_def prod.case Let_def .
  then have "instsInProgress t' = instsInProgress t2" using block_progress by (auto simp: bindE_eq_Inr split: if_splits)
  then show ?thesis by (simp add: t2_def Let_def)
qed

definition progress_ok :: "rename_thread \<Rightarrow> rename_thread \<Rightarrow> bool" where
  "progress_ok t t' \<longleftrightarrow> instsInProgress t \<le> instsInProgress t' \<and> instsInProgress t' \<le> instsInProgress t + int (length (pending t))"

lemma renameInsts_progress:
  assumes "renameInsts tid inp (t, g) = Inr (t', g')" "\<forall>p \<in> set (pending t). p < length (inst_heap g)"
  shows "progress_ok t t'"
proof (cases rule: renameInsts_cases [OF assms(1)])
  case (2 c)
  then show ?thesis using block_progress [OF 2(2)] by (simp add: progress_ok_def)
next
  case (3 g0 n0 t1 g1 a q' t2 g2 k)
  have q: "\<forall>p \<in> set (insts_to_rename t). p < length (inst_heap g0)" "length (insts_to_rename t) \<le> length (pending t)"
    using assms(2) 3(4) by (auto simp: insts_to_rename_def pending_def)
  note k1 = serialize_next_keeps [OF 3(5) q(1)]
  have qo: "insts_to_rename t1 = insts_to_rename t" using k1(3-5) by (simp add: insts_to_rename_def)
  have "\<forall>p \<in> set (insts_to_rename t1). p < length (inst_heap g1)" using q(1) k1(1) unfolding qo by (simp add: flow_def same_heap_def)
  then have "0 \<le> k" "k \<le> int n0" "instsInProgress t2 = instsInProgress t1" using rename_loop_progress [OF 3(6)] by auto
  moreover have "instsInProgress t1 = instsInProgress t"
    using 3(5) by (auto simp: serialize_next_def bindE_eq_Inr split: if_splits list.splits)
  moreover have "int n0 \<le> int (length (insts_to_rename t))" using 3(2,3) by simp
  ultimately show ?thesis using finish_renaming_progress [OF 3(7)] q(2) by (simp add: progress_ok_def)
qed (simp add: progress_ok_def)

lemma thread_cycle_progress:
  assumes "thread_cycle tid inp sc (t, g) = Inr (c, t', g')" "thread_inv tid (t, g)" "signals_ok inp (t, g)"
  shows "progress_ok t t'"
proof -
  obtain c1 t1 g1 where 1: "checkSignalsAndUpdate tid inp (t, g) = Inr (c1, t1, g1)"
    and 2: "stage_rename tid inp (c1 \<or> sc) (t1, g1) = Inr (c, t', g')"
    using assms(1) by (auto simp: thread_cycle_def bindE_eq_Inr)
  note p1 = checkSignalsAndUpdate_progress [OF 1]
  show ?thesis
  proof (cases "ci_squash inp")
    case True
    then have "renameStatus t1 = Squashing"
      using 1 by (auto simp: checkSignalsAndUpdate_def stage_squash_def bindE_eq_Inr Let_def)
    then show ?thesis using 2 p1 by (auto simp: stage_rename_def progress_ok_def)
  next
    case False
    note f = checkSignalsAndUpdate_flow [OF 1 assms(2,3) False]
    have inv: "\<not> resumeSerialize g1" "\<not> resumeUnblocking g1" "\<forall>p \<in> set (pending t1). p < length (inst_heap g1)"
      using f by (auto simp: thread_inv_def)
    have len: "length (pending t1) \<le> length (pending t)" using f by (simp add: flow_def)
    show ?thesis
    proof (cases rule: stage_rename_cases [OF 2 inv(1,2)])
      case 1
      then show ?thesis using renameInsts_progress [OF 1(2) inv(3)] p1 len by (simp add: progress_ok_def)
    next
      case (2 t2 g2 t3 g3 b)
      have "instsInProgress t3 = instsInProgress t2" using 2(3) skidInsert_progress by blast
      then show ?thesis
        using renameInsts_progress [OF 2(2) inv(3)] unblock_progress [OF 2(4)] p1 len by (simp add: progress_ok_def)
    next
      case 3
      then show ?thesis using p1 by (simp add: progress_ok_def)
    qed
  qed
qed

section \<open>All threads\<close>

lemma room_frame:
  assumes "room tid (t, g)" "thread_frame A g g'"
  shows "room tid (t, g')"
  using assms of_thread_frame [OF assms(2)] by (simp add: room_def thread_frame_def)

lemma tick_threads_total:
  assumes "o3_params T active pint pfloat" "distinct as" "set as \<subseteq> {..<length ts}" "length ts = T" "length inps = T"
    and "\<forall>tid < length ts. thread_inv tid (ts ! tid, g)"
    and "\<forall>tid \<in> set as. signals_ok (inps ! tid) (ts ! tid, g) \<and> stalls_ok (inps ! tid) (ts ! tid) \<and> room tid (ts ! tid, g)"
    and "insts_ok (inst_heap g)" "rename_reachable T active pint pfloat (regs g, fs)" "all_in_order bs (inst_heap g) fs ts"
    and "\<forall>p \<in> set (fromDecode g). p < length (inst_heap g)"
  shows "\<exists>c' ts' g'. foldE (tick_thread inps) as (c, ts, g) = Inr (c', ts', g') \<and> (\<forall>x \<in> set as. progress_ok (ts ! x) (ts' ! x))"
  using assms(2-11)
proof (induction as arbitrary: c ts g fs)
  case (Cons a as)
  have a: "a < length ts" "a < T" using Cons.prems(2,3) by auto
  have inva: "thread_inv a (ts ! a, g)" and siga: "signals_ok (inps ! a) (ts ! a, g)" "stalls_ok (inps ! a) (ts ! a)" "room a (ts ! a, g)"
    and orda: "in_order (bs ! a) (inst_heap g) (fs ! a) (pending (ts ! a))"
    using Cons.prems(5,6,9) a by (auto simp: all_in_order_def)
  obtain c1 t1 g1 where cyc: "thread_cycle a (inps ! a) c (ts ! a, g) = Inr (c1, t1, g1)"
    using thread_cycle_total [OF assms(1) a(2) inva siga Cons.prems(7,8) orda Cons.prems(10)] by blast
  have s: "tick_thread inps a (c, ts, g) = Inr (c1, ts[a := t1], g1)"
    using cyc a Cons.prems(3,4) by (simp add: tick_thread_def)
  have one: "foldE (tick_thread inps) [a] (c, ts, g) = Inr (c1, ts[a := t1], g1)" using s by simp
  let ?ts = "ts[a := t1]"
  note ok = thread_cycle_ok [OF cyc inva siga(1)]
  have fr: "thread_frame {a} g g1" and inv1: "thread_inv a (t1, g1)" using ok by (simp_all add: cycle_ok_def)
  have pre: "distinct [a]" "set [a] \<subseteq> {..<length ts}" "\<forall>tid \<in> set [a]. signals_ok (inps ! tid) (ts ! tid, g)"
    using a siga by simp_all
  have invs: "\<forall>tid < length ?ts. thread_inv tid (?ts ! tid, g1)"
    using tick_threads_ok [OF one pre(1,2) Cons.prems(5) pre(3)] by simp
  obtain fs1 where fs1: "rename_reachable T active pint pfloat (regs g1, fs1)" "insts_ok (inst_heap g1)"
    "all_in_order bs (inst_heap g1) fs1 ?ts"
    using tick_threads_run [OF assms(1) one pre(1,2) Cons.prems(3,5) pre(3) Cons.prems(7-9)] by blast
  have "signals_ok (inps ! x) (?ts ! x, g1) \<and> stalls_ok (inps ! x) (?ts ! x) \<and> room x (?ts ! x, g1)" if "x \<in> set as" for x
  proof -
    have x: "x \<noteq> a" "x < length ts" using that Cons.prems(1,2) by auto
    then have "thread_inv x (ts ! x, g)" "signals_ok (inps ! x) (ts ! x, g)" "stalls_ok (inps ! x) (ts ! x)" "room x (ts ! x, g)"
      using Cons.prems(5,6) that by auto
    then show ?thesis using x signals_ok_frame [OF _ _ fr] room_frame [OF _ fr] by simp
  qed
  moreover have "\<forall>p \<in> set (fromDecode g1). p < length (inst_heap g1)" using Cons.prems(10) fr by (simp add: thread_frame_def)
  ultimately obtain c' ts' g' where r: "foldE (tick_thread inps) as (c1, ?ts, g1) = Inr (c', ts', g')"
    "\<forall>x \<in> set as. progress_ok (?ts ! x) (ts' ! x)" "\<forall>x \<in> set as. signals_ok (inps ! x) (?ts ! x, g1)"
    using Cons.IH [OF _ _ _ Cons.prems(4) invs _ fs1(2,1,3)] Cons.prems(1-3) by (metis distinct.simps(2) insert_subset length_list_update list.simps(15))
  have "set as \<subseteq> {..<length ?ts}" using Cons.prems(2) by simp
  then have "ts' ! a = t1" using tick_threads_ok [OF r(1) _ _ invs r(3)] Cons.prems(1) a by simp
  then have "progress_ok (ts ! a) (ts' ! a)" using thread_cycle_progress [OF cyc inva siga(1)] by simp
  moreover have "progress_ok (ts ! x) (ts' ! x)" if "x \<in> set as" for x
  proof -
    have "x \<noteq> a" using that Cons.prems(1) by auto
    then show ?thesis using r(2) that by auto
  qed
  ultimately show ?case using s r(1) by simp
qed simp


lemma sort_total:
  assumes "\<forall>p \<in> set ps. p < length h \<and> threadNumber (h ! p) < length ts"
  shows "\<exists>ts'. foldE (sort_inst h) ps ts = Inr ts'"
  using assms by (induction ps arbitrary: ts) (auto simp: sort_inst_def)

lemma updateStatus_total:
  assumes "set as \<subseteq> {..<length ts}"
  shows "\<exists>s. updateStatus ts as st = Inr s"
proof -
  have "\<exists>b. foldE (\<lambda>tid any. bindE (at ts tid) (\<lambda>t. Inr (any \<or> renameStatus t = Unblocking))) as a = Inr b" for a
    using assms by (induction as arbitrary: a) auto
  then obtain b where "foldE (\<lambda>tid any. bindE (at ts tid) (\<lambda>t. Inr (any \<or> renameStatus t = Unblocking))) as False = Inr b" by blast
  then show ?thesis by (simp add: updateStatus_def)
qed

lemma commit_total:
  assumes "o3_params T active pint pfloat" "set as \<subseteq> {..<T}" "length inps = T" "length ts = T"
    and "rename_reachable T active pint pfloat (s, fs)"
  shows "\<exists>s'. foldE (commit_thread inps ts) as s = Inr s'"
  using assms(2,5)
proof (induction as arbitrary: s fs)
  case (Cons a as)
  have a: "a < T" using Cons.prems(1) by simp
  have inv: "run_inv T pint pfloat (s, fs)" by (rule reachable_inv [OF assms(1) Cons.prems(2)])
  let ?n = "doneSeqNum (inps ! a)"
  have ok: "op_ok (Commit a ?n) fs" using run_inv_parts(3) [OF inv a] a by simp
  then obtain s1 fs1 where 1: "rename_step (Commit a ?n) (s, fs) = Inr (s1, fs1)" using step_inv [OF inv] by fastforce
  have reach: "rename_reachable T active pint pfloat (s1, fs1)" by (rule rename_reachable.step [OF Cons.prems(2) ok 1])
  have "removeFromHistory ?n a s = Inr s1" using 1 by (auto simp: bindE_eq_Inr)
  then have "commit_thread inps ts a s = Inr s \<or> commit_thread inps ts a s = Inr s1"
    using a assms(3,4) by (simp add: commit_thread_def)
  then show ?case using Cons.IH [OF _ Cons.prems(2)] Cons.IH [OF _ reach] Cons.prems(1) by auto
qed simp

lemma progress_total:
  assumes "\<forall>x \<in> set xs. 0 \<le> instsInProgress (ts ! x) - dispatched (inps ! x) \<and> instsInProgress (ts ! x) - dispatched (inps ! x) < 2 ^ 31"
    and "length inps = length ts" "distinct xs" "set xs \<subseteq> {..<length ts}"
  shows "\<exists>ts'. foldE (progress_thread inps) xs ts = Inr ts'"
  using assms
proof (induction xs arbitrary: ts)
  case (Cons a xs)
  let ?n = "instsInProgress (ts ! a) - dispatched (inps ! a)"
  let ?ts = "ts[a := (ts ! a)\<lparr>instsInProgress := ?n\<rparr>]"
  have a: "a < length ts" "a < length inps" "int32 ?n = ?n" "0 \<le> ?n" using Cons.prems by simp_all
  have 1: "progress_thread inps a ts = Inr ?ts" using a by (simp add: progress_thread_def)
  have "?ts ! x = ts ! x" if "x \<in> set xs" for x using that Cons.prems(3) by (metis distinct.simps(2) nth_list_update_neq)
  then show ?case using Cons.IH [of ?ts] Cons.prems 1 by auto
qed simp

section \<open>The whole cycle\<close>

text \<open>
  What the stage relies on besides the order of its input: decode sends instructions of existing
  threads and respects the block signal, so that what a thread holds fits in the skid buffer; the
  stall signals alternate; and at most the instructions in progress are dispatched.
\<close>

definition cycle_resources_ok :: "stage_input list \<Rightarrow> nat list \<Rightarrow> rename_stage \<Rightarrow> bool" where
  "cycle_resources_ok inps dec st \<longleftrightarrow> length inps = length (threads st) \<and>
     (\<forall>p \<in> set dec. p < length (inst_heap (shared st)) \<and> threadNumber (inst_heap (shared st) ! p) < length (threads st)) \<and>
     (\<forall>tid < length (threads st). stalls_ok (inps ! tid) (threads st ! tid) \<and>
        length (pending (threads st ! tid) @ filter (of_thread (inst_heap (shared st)) tid) dec) \<le> skidBufferMax (shared st) \<and>
        0 \<le> dispatched (inps ! tid) \<and> dispatched (inps ! tid) \<le> instsInProgress (threads st ! tid) \<and>
        instsInProgress (threads st ! tid) + int (skidBufferMax (shared st)) < 2 ^ 31)"

lemma fed_more [simp]: "stalls (fed h dec tid t) = stalls t" "instsInProgress (fed h dec tid t) = instsInProgress t"
  by (simp_all add: fed_def clear_signals_def)

lemma fed_env:
  assumes "cycle_resources_ok inps dec st" "x < length (threads st)"
    and "thread_inv x (fed (inst_heap (shared st)) dec x (threads st ! x), new_slot dec (shared st))"
    and "signals_ok (inps ! x) (threads st ! x, shared st)"
  defines "t \<equiv> fed (inst_heap (shared st)) dec x (threads st ! x)" and "g \<equiv> new_slot dec (shared st)"
  shows "signals_ok (inps ! x) (t, g) \<and> stalls_ok (inps ! x) t \<and> room x (t, g)"
proof -
  have r: "stalls_ok (inps ! x) (threads st ! x)"
    "length (pending (threads st ! x) @ filter (of_thread (inst_heap (shared st)) x) dec) \<le> skidBufferMax (shared st)"
    using assms(1,2) unfolding cycle_resources_ok_def by blast+
  have "signals_ok (inps ! x) (t, g)" using assms(4) by (simp add: t_def g_def signals_ok_def)
  moreover have "stalls_ok (inps ! x) t" using r(1) by (simp add: t_def stalls_ok_def)
  moreover have "length (pending t) \<le> skidBufferMax g" using r(2) by (simp add: t_def g_def)
  moreover have "\<forall>p \<in> set (pending t). of_thread (inst_heap g) x p"
    using assms(3) unfolding t_def g_def thread_inv_def prod.case of_thread_def by blast
  ultimately show ?thesis unfolding room_def prod.case by blast
qed

text \<open>The instructions in progress cover those that are dispatched.\<close>

lemma progress_range:
  assumes "cycle_resources_ok inps dec st" "x < length (threads st)" "ts ! x = fed (inst_heap (shared st)) dec x (threads st ! x)"
    and "ts1 ! x = ts ! x \<or> progress_ok (ts ! x) (ts1 ! x)"
  shows "0 \<le> instsInProgress (ts1 ! x) - dispatched (inps ! x) \<and> instsInProgress (ts1 ! x) - dispatched (inps ! x) < 2 ^ 31"
proof -
  have r: "length (pending (threads st ! x) @ filter (of_thread (inst_heap (shared st)) x) dec) \<le> skidBufferMax (shared st)"
    "0 \<le> dispatched (inps ! x)" "dispatched (inps ! x) \<le> instsInProgress (threads st ! x)"
    "instsInProgress (threads st ! x) + int (skidBufferMax (shared st)) < 2 ^ 31"
    using assms(1,2) unfolding cycle_resources_ok_def by blast+
  have p: "instsInProgress (ts ! x) \<le> instsInProgress (ts1 ! x)" "instsInProgress (ts1 ! x) \<le> instsInProgress (ts ! x) + int (length (pending (ts ! x)))"
    using assms(4) by (auto simp: progress_ok_def)
  have "int (length (pending (ts ! x))) \<le> int (skidBufferMax (shared st))" "instsInProgress (ts ! x) = instsInProgress (threads st ! x)"
    using r(1) by (simp_all add: assms(3) flip: of_nat_add)
  then show ?thesis using p r(2-4) by linarith
qed

lemma stage_tick_total:
  assumes "o3_params T active pint pfloat" "stage_run T active pint pfloat (st, bs)" "cycle_input_ok inps dec bs bs' st"
    and "cycle_resources_ok inps dec st"
  shows "\<exists>st'. stage_tick inps dec st = Inr st'"
proof -
  let ?g = "new_slot dec (shared st)" and ?h = "inst_heap (shared st)"
  have run: "stage_inv st" "length (threads st) = T" "insts_ok ?h" using assms(2) by (simp_all add: stage_run_def)
  obtain fs where fs: "rename_reachable T active pint pfloat (regs (shared st), fs)" "all_in_order bs ?h fs (threads st)"
    using assms(2) by (auto simp: stage_run_def)
  note inp = assms(3) [unfolded cycle_input_ok_def Let_def] and res = assms(4) [unfolded cycle_resources_ok_def]
  obtain ts where sort: "sortInsts ?g (map clear_signals (threads st)) = Inr ts"
    using sort_total [of dec ?h "map clear_signals (threads st)"] res by (auto simp: sortInsts_def)
  have ts: "length ts = T" "\<And>tid. tid < T \<Longrightarrow> ts ! tid = fed ?h dec tid (threads st ! tid)"
    using sort_fold [OF sort [unfolded sortInsts_def]] run(2) by (simp_all add: fed_def clear_signals_def)
  have tsn: "length ts = length (threads st)" "\<forall>x < length (threads st). ts ! x = fed ?h dec x (threads st ! x)" using ts run(2) by simp_all
  have act: "distinct (activeThreads st)" "set (activeThreads st) \<subseteq> {..<length ts}" using run(1,2) ts(1) by (simp_all add: stage_inv_def)
  have invx: "thread_inv x (ts ! x, ?g)" if "x < T" for x
    using run(1,2) ts(2) [OF that] that thread_inv_fed by (simp add: stage_inv_def)
  have inv: "\<forall>tid < length ts. thread_inv tid (ts ! tid, ?g)" using invx ts(1) by simp
  note ord = all_in_order_fed [OF fs(2) assms(3) tsn]
  have env: "signals_ok (inps ! x) (ts ! x, ?g) \<and> stalls_ok (inps ! x) (ts ! x) \<and> room x (ts ! x, ?g)" if "x \<in> set (activeThreads st)" for x
  proof -
    have x: "x < T" "x < length (threads st)" using that act(2) ts(1) run(2) by auto
    then show ?thesis
      using fed_env [OF assms(4) x(2)] invx [OF x(1)] inp that unfolding ts(2) [OF x(1)] by blast
  qed
  have sig: "\<forall>tid \<in> set (activeThreads st). signals_ok (inps ! tid) (ts ! tid, ?g)" using env by blast
  have li: "length inps = T" and d0: "\<forall>p \<in> set (fromDecode ?g). p < length (inst_heap ?g)" using res run(2) by simp_all
  have ok0: "insts_ok (inst_heap ?g)" and fs0: "rename_reachable T active pint pfloat (regs ?g, fs)" using run(3) fs(1) by simp_all
  have env1: "\<forall>x \<in> set (activeThreads st). signals_ok (inps ! x) (ts ! x, ?g) \<and> stalls_ok (inps ! x) (ts ! x) \<and> room x (ts ! x, ?g)"
    using env by blast
  obtain c ts1 g1 where t1: "foldE (tick_thread inps) (activeThreads st) (False, ts, ?g) = Inr (c, ts1, g1)"
    "\<forall>x \<in> set (activeThreads st). progress_ok (ts ! x) (ts1 ! x)"
    using tick_threads_total [OF assms(1) act ts(1) li inv env1 ok0 fs0 ord d0, of False] by blast
  note ok = tick_threads_ok [OF t1(1) act inv sig]
  have len: "length ts1 = T" using ok ts(1) by simp
  obtain fs1 where fs1: "rename_reachable T active pint pfloat (regs g1, fs1)"
    using tick_threads_run [OF assms(1) t1(1) act ts(1) inv sig ok0 fs0 ord] by blast
  have "\<exists>s. (if c then updateStatus ts1 (activeThreads st) (rs_status st) else Inr (rs_status st)) = Inr s"
    using updateStatus_total [of "activeThreads st" ts1 "rs_status st"] act(2) len ts(1) by (cases c) simp_all
  then obtain status where s: "(if c then updateStatus ts1 (activeThreads st) (rs_status st) else Inr (rs_status st)) = Inr status"
    by blast
  obtain r where r: "foldE (commit_thread inps ts1) (activeThreads st) (regs g1) = Inr r"
    using commit_total [OF assms(1) _ _ len fs1, of "activeThreads st" inps] act(2) ts(1) res run(2) by auto
  have "ts1 ! x = ts ! x \<or> progress_ok (ts ! x) (ts1 ! x)" for x using t1(2) ok by blast
  then have "0 \<le> instsInProgress (ts1 ! x) - dispatched (inps ! x) \<and> instsInProgress (ts1 ! x) - dispatched (inps ! x) < 2 ^ 31" if "x < T" for x
    using progress_range [OF assms(4), of x ts] that run(2) tsn(2) by blast
  moreover have "set [0..<length ts1] \<subseteq> {..<length ts1}" by auto
  ultimately obtain ts2 where p: "foldE (progress_thread inps) [0..<length ts1] ts1 = Inr ts2"
    using progress_total [of "[0..<length ts1]" ts1 inps] len li by auto
  show ?thesis
    using sort t1(1) s r p unfolding stage_tick_def Let_def new_slot_def by auto
qed

lemma stage_demo_resources: "cycle_resources_ok [stage_demo_input] [0, 1, 2] (stage_demo r)"
  by (simp add: cycle_resources_ok_def stalls_ok_def of_thread_def pending_def stage_eval)

section \<open>Properties\<close>

text \<open>
  (C22) A cycle of the rename stage on a state reachable in the sense of C20 returns, in a state reachable again: no
  assertion fails, no pointer is null, the skid buffer does not overflow and every instruction taken from a queue
  is there. The conditions are: the instructions have valid operands and only the first thread writes r31
  (part of reachability); the signals and the order of the input are as in C20, in particular a squash comes from an
  instruction older than the one that waits to serialise (\<open>cycle_input_ok\<close>); and, by \<open>cycle_resources_ok\<close>, there
  is input for every thread, decode sends existing instructions of existing threads, what a thread holds and gets fits in the
  skid buffer, an unblock signal comes only to a stage that is stalled or with a block signal, the
  dispatched instructions were in progress, and the count of those in progress is not near the end of its range.
\<close>

theorem rename_stage_total:
  assumes "o3_params T active pint pfloat" "stage_reachable T active pint pfloat (st, bs)"
    and "cycle_input_ok inps dec bs bs' st" "cycle_resources_ok inps dec st"
  shows "\<exists>st'. stage_tick inps dec st = Inr st' \<and> stage_reachable T active pint pfloat (st', bs')"
proof -
  obtain st' where "stage_tick inps dec st = Inr st'"
    using stage_tick_total [OF assms(1) stage_reachable_run [OF assms(1,2)] assms(3,4)] by blast
  then show ?thesis using stage_reachable.tick [OF assms(2,3)] by blast
qed

theorem rename_stage_total_witness:
  "\<exists>r st'. stage_reachable 1 1 64 64 (stage_demo r, [1]) \<and>
    stage_tick [stage_demo_input] [0, 1, 2] (stage_demo r) = Inr st' \<and> stage_reachable 1 1 64 64 (st', [4])"
proof -
  obtain r where r: "stage_reachable 1 1 64 64 (stage_demo r, [1])"
    "cycle_input_ok [stage_demo_input] [0, 1, 2] [1] [4] (stage_demo r)"
    by (rule stage_demo_reachable)
  show ?thesis using rename_stage_total [OF demo_params r stage_demo_resources] r(1) by blast
qed

end
