(* ===== verification/O3_Stage_Live.thy ===== *)
theory O3_Stage_Live
  imports O3_Stage_Total
begin

text \<open>
  Progress of the rename stage: in a cycle without a stall the oldest instruction of the first active
  thread is sent on, unless it has to wait for the instructions before it; then the thread waits for
  it.
\<close>

section \<open>The signals of a cycle without a stall\<close>

definition unstalled :: "stage_input \<Rightarrow> rename_thread \<Rightarrow> rename_shared \<Rightarrow> bool" where
  "unstalled inp t g \<longleftrightarrow> \<not> ci_squash inp \<and> \<not> robSquashing inp \<and>
     (case readStallSignals inp (readFreeEntries inp t) of Inr t1 \<Rightarrow> \<not> checkStall inp t1 g | Inl _ \<Rightarrow> False)"

text \<open>
  Whether the instruction at \<open>p\<close> has to wait for an empty reorder buffer. A thread that has waited for
  it asks only whether the instruction itself still demands it.
\<close>

definition must_wait :: "rename_thread \<Rightarrow> nat \<Rightarrow> DynInst \<Rightarrow> bool" where
  "must_wait t p i \<longleftrightarrow> \<not> st_serializeHandled i \<and>
     (si_iprAccess i \<or> si_serializeBefore i \<or>
      (serializeInst t \<noteq> Some p \<and>
       (st_serializeBefore i \<or> (serializeOnNextInst t \<and> \<not> (emptyROB t \<and> instsInProgress t = 0)))))"

text \<open>What the control of the stage reads of a thread apart from its queues.\<close>

definition same_counts :: "rename_thread \<Rightarrow> rename_thread \<Rightarrow> bool" where
  "same_counts t t' \<longleftrightarrow> freeEntries t' = freeEntries t \<and> instsInProgress t' = instsInProgress t \<and>
     emptyROB t' = emptyROB t \<and> serializeOnNextInst t' = serializeOnNextInst t"

definition same_ports :: "rename_shared \<Rightarrow> rename_shared \<Rightarrow> bool" where
  "same_ports g g' \<longleftrightarrow> regs g' = regs g \<and> toIEW g' = toIEW g \<and> renameWidth g' = renameWidth g"

lemma unblock_same:
  assumes "unblock (t, g) = (c, t', g')"
  shows "same_counts t t'" "same_ports g g'"
  using assms by (auto simp: unblock_def same_counts_def same_ports_def split: if_splits)

definition served_heap :: "ptr \<Rightarrow> DynInst list \<Rightarrow> DynInst list" where
  "served_heap s h = (case s of None \<Rightarrow> h | Some p \<Rightarrow> h[p := (h ! p)\<lparr>st_serializeBefore := False\<rparr>])"

definition ready_to_rename :: "rename_thread \<Rightarrow> bool" where
  "ready_to_rename t \<longleftrightarrow> renameStatus t \<in> {Running, Idle, Unblocking} \<and> serializeInst t = None \<and> unblocking_ok t"

lemma end_serialize_ready:
  assumes "end_serialize (t, g) = Inr (t', g')" "serializeInst t = Some p" "p < length (inst_heap g)"
  shows "ready_to_rename t'" "same_counts t t'" "same_ports g g'" "inst_heap g' = served_heap (Some p) (inst_heap g)"
proof -
  obtain c t1 g1 where u: "unblock (t\<lparr>renameStatus := Unblocking\<rparr>, g) = (c, t1, g1)" by (metis surj_pair)
  note uf = unblock_flow [OF u] and us = unblock_same [OF u]
  define t2 where "t2 = (if skidBuffer t1 \<noteq> [] then t1\<lparr>skidBuffer := p # skidBuffer t1\<rparr> else t1\<lparr>insts := p # insts t1\<rparr>)"
  have r: "t' = t2\<lparr>serializeInst := None\<rparr>" "g' = g1\<lparr>inst_heap := served_heap (Some p) (inst_heap g1)\<rparr>"
    using assms u uf(6) unfolding end_serialize_def by (auto simp: Let_def t2_def served_heap_def)
  show "same_counts t t'" using us(1) by (simp add: r t2_def same_counts_def)
  show "same_ports g g'" using us(2) by (simp add: r same_ports_def)
  show "inst_heap g' = served_heap (Some p) (inst_heap g)" using uf(6) by (simp add: r)
  show "ready_to_rename t'" using uf(3,5) by (auto simp: r t2_def ready_to_rename_def unblocking_ok_def split: if_splits)
qed

lemma unstalled_signals:
  assumes "checkSignalsAndUpdate tid inp (t0, g) = Inr (c, t', g')" "thread_inv tid (t0, g)" "unblocking_ok t0"
    and "\<not> ci_squash inp" "\<not> robSquashing inp"
    and "readStallSignals inp (readFreeEntries inp t0) = Inr t" "\<not> checkStall inp t g"
  shows "ready_to_rename t'" "same_counts t t'" "same_ports g g'" "inst_heap g' = served_heap (serializeInst t) (inst_heap g)"
    "pending t' = pending t"
proof -
  note k = readStallSignals_keeps [OF assms(6), simplified]
  have inv: "serializeInst t \<noteq> None \<longleftrightarrow> renameStatus t = SerializeStall" "\<not> resumeSerialize g" "\<not> resumeUnblocking g"
    "\<forall>p. serializeInst t = Some p \<longrightarrow> p < length (inst_heap g)" "unblocking_ok t"
    "renameStatus t \<noteq> StartSquash"
    using assms(2,3) k by (auto simp: thread_inv_def pending_def unblocking_ok_def)
  have "ready_to_rename t' \<and> same_counts t t' \<and> same_ports g g' \<and> inst_heap g' = served_heap (serializeInst t) (inst_heap g) \<and>
    pending t' = pending t"
  proof (cases rule: checkSignals_cases [OF assms(1,6,4) inv(2,3)])
    case (3 b)
    note uf = unblock_flow [OF 3(3)] and us = unblock_same [OF 3(3)]
    show ?thesis
      using uf(2-6) us 3(2) inv(1)
      by (auto simp: pending_def ready_to_rename_def unblocking_ok_def same_counts_def served_heap_def split: if_splits)
  next
    case 4
    then show ?thesis
      using inv(1) by (simp add: ready_to_rename_def unblocking_ok_def same_counts_def same_ports_def served_heap_def)
  next
    case 5
    then obtain p where "serializeInst t = Some p" using inv(1) by auto
    then show ?thesis
      using end_serialize_ready [OF 5(3), of p] end_serialize_flow(5) [OF 5(3), of p] inv(4) by simp
  next
    case 6
    then have "renameStatus t \<in> {Running, Idle, Unblocking}" using inv(6) by (cases "renameStatus t") auto
    then show ?thesis
      using inv(1,5) 6 by (auto simp: ready_to_rename_def same_counts_def same_ports_def served_heap_def)
  qed (use assms(5,7) in auto)
  then show "ready_to_rename t'" "same_counts t t'" "same_ports g g'" "inst_heap g' = served_heap (serializeInst t) (inst_heap g)"
    "pending t' = pending t" by blast+
qed

section \<open>The first instruction\<close>

text \<open>The loop on a queue whose first instruction is not squashed.\<close>

lemma rename_loop_first:
  assumes "rename_loop (Suc n) (p # qs) (t, g) k = Inr (a, q', (t', g'), k')" "serializeInst t = None"
    and "\<forall>x \<in> set (p # qs). x < length (inst_heap g)" "live (inst_heap g) p" "length (toIEW g) < renameWidth g"
    and "int (length (si_destRegs (inst_heap g ! p))) \<le> numFreeEntries (rr_freeList (regs g))"
  shows "if needs_serialize_before (inst_heap g ! p) then serializeInst t' = Some p
    else \<exists>zs. toIEW g' = toIEW g @ p # zs"
proof (cases rule: rename_loop_cases [OF assms(1,3)])
  case (4 x xs t1 g1)
  note k = serializeAfter_keeps [OF 4(5) [unfolded after_serialize_def prod.case]]
  have "si_destRegs (inst_heap g1 ! x) = si_destRegs (inst_heap g ! p)" "regs g1 = regs g"
    using k(1,11) 4(2) assms(3) by (auto simp: same_heap_def same_inst_def)
  then have False using 4(6) assms(6) by (simp add: rename_inst_def bindE_eq_Inr split: if_splits)
  then show ?thesis ..
next
  case (5 x xs t1 g1 i2 s2)
  have x: "x = p" "xs = qs" using 5(2) by simp_all
  have p: "p < length (inst_heap g)" "\<forall>x \<in> set qs. x < length (inst_heap g)" using assms(3) by simp_all
  note k = serializeAfter_keeps [OF 5(5) [unfolded after_serialize_def prod.case x] p]
  have "\<exists>out. loop_flow qs (t1, g1\<lparr>inst_heap := (inst_heap g1)[p := i2], regs := s2, toIEW := toIEW g1 @ [p]\<rparr>) out q' (t', g')"
    using rename_loop_flow [OF 5(7) [unfolded x]] k(1,7) assms(2) p(2) by (simp add: same_heap_def)
  then show ?thesis using 5(4) k(2) x by (auto simp: loop_flow_def)
qed (use assms in auto)

text \<open>The rest of a cycle keeps what the loop sent and the instruction that it waits for.\<close>

lemma renameInsts_first:
  assumes "renameInsts tid inp (t, g) = Inr (t', g')" "thread_inv tid (t, g)" "renameStatus t \<in> {Running, Idle, Unblocking}"
    and "insts_to_rename t = p # qs" "live (inst_heap g) p" "0 < min_free_entries inp t" "length (toIEW g) < renameWidth g"
    and "int (length (si_destRegs (inst_heap g ! p))) \<le> numFreeEntries (rr_freeList (regs g))"
  shows "if must_wait t p (inst_heap g ! p) then serializeInst t' = Some p else \<exists>zs. toIEW g' = toIEW g @ p # zs"
proof -
  have inv: "\<forall>p \<in> set (insts_to_rename t). p < length (inst_heap g)" "serializeInst t = None"
    using assms(2,3) by (auto simp: thread_inv_def insts_to_rename_def pending_def)
  show ?thesis
  proof (cases rule: renameInsts_cases [OF assms(1)])
    case (3 g0 n0 t1 g1 a q' t2 g2 k)
    have "0 < n0" using 3(3) assms(4,6) by simp
    then obtain n where n: "n0 = Suc n" by (metis gr0_implies_Suc)
    have h0: "inst_heap g0 = inst_heap g" "regs g0 = regs g" "toIEW g0 = toIEW g" "renameWidth g0 = renameWidth g"
      using 3(4) by auto
    note k1 = serialize_next_keeps [OF 3(5) inv(1) [folded h0(1)]]
    have qo: "insts_to_rename t1 = p # qs" using k1(3-5) assms(4) by (simp add: insts_to_rename_def split: if_splits)
    have h1: "same_heap (inst_heap g) (inst_heap g1)" using k1(1) h0(1) by (simp add: flow_def)
    have p: "p < length (inst_heap g)" using inv(1) assms(4) by simp
    have w: "needs_serialize_before (inst_heap g1 ! p) = must_wait t p (inst_heap g ! p)" "regs g1 = regs g" "renameWidth g1 = renameWidth g"
      using 3(5) h0 p inv(2) assms(4)
      by (auto simp: serialize_next_def needs_serialize_before_def must_wait_def split: if_splits)
    have "live (inst_heap g1) p" using assms(5) same_heap_live [OF h1] by simp
    moreover have "si_destRegs (inst_heap g1 ! p) = si_destRegs (inst_heap g ! p)" using h1 p by (simp add: same_heap_def same_inst_def)
    moreover have "\<forall>x \<in> set (p # qs). x < length (inst_heap g1)" using inv(1) h1 assms(4) by (simp add: same_heap_def)
    ultimately have "if must_wait t p (inst_heap g ! p) then serializeInst t2 = Some p else \<exists>zs. toIEW g2 = toIEW g @ p # zs"
      using rename_loop_first [OF 3(6) [unfolded qo n]] w k1(2,6) inv(2) h0(3) assms(7,8) by (simp split: if_splits)
    then show ?thesis
      using finish_renaming_flow(2) [OF 3(7)] flow_silent_parts [OF finish_renaming_flow(1) [OF 3(7)]] by (auto split: if_splits)
  qed (use assms(4,6) in auto)
qed

lemma stage_rename_first:
  assumes "stage_rename tid inp sc (t, g) = Inr (c, t', g')" "thread_inv tid (t, g)" "ready_to_rename t"
    and "pending t = p # ps" "live (inst_heap g) p" "0 < min_free_entries inp t" "length (toIEW g) < renameWidth g"
    and "int (length (si_destRegs (inst_heap g ! p))) \<le> numFreeEntries (rr_freeList (regs g))"
  shows "if must_wait t p (inst_heap g ! p) then serializeInst t' = Some p else \<exists>zs. toIEW g' = toIEW g @ p # zs"
proof -
  have res: "\<not> resumeSerialize g" "\<not> resumeUnblocking g" using assms(2) by (simp_all add: thread_inv_def)
  have st: "renameStatus t \<in> {Running, Idle, Unblocking}" "serializeInst t = None" "unblocking_ok t"
    using assms(3) by (simp_all add: ready_to_rename_def)
  have "insts_to_rename t \<noteq> [] \<and> hd (insts_to_rename t) = p"
    using st assms(2,4) by (cases "skidBuffer t") (auto simp: insts_to_rename_def pending_def unblocking_ok_def thread_inv_def)
  then obtain qs where q: "insts_to_rename t = p # qs" by (cases "insts_to_rename t") auto
  note rf = renameInsts_first [OF _ assms(2) st(1) q assms(5-8)]
  show ?thesis
  proof (cases rule: stage_rename_cases [OF assms(1) res])
    case 1
    then show ?thesis using rf by blast
  next
    case (2 t1 g1 t2 g2 b)
    have "serializeInst t2 = serializeInst t1" "toIEW g2 = toIEW g1" using 2(3) skidInsert_flow [of tid t1 g1 t2 g2] by auto
    then have "serializeInst t' = serializeInst t1" "toIEW g' = toIEW g1"
      using unblock_flow(2) [OF 2(4)] unblock_same(2) [OF 2(4)] by (simp_all add: same_ports_def)
    then show ?thesis using rf [OF 2(2)] by (simp split: if_splits)
  qed (use st(1) in auto)
qed

lemma readStallSignals_counts: "readStallSignals inp t = Inr t' \<Longrightarrow> same_counts t t'"
  by (auto simp: readStallSignals_def same_counts_def Let_def bindE_eq_Inr)

lemma calcFree_counts: "same_counts t t' \<Longrightarrow> min_free_entries inp t' = min_free_entries inp t"
  by (simp add: same_counts_def min_free_entries_def calcFreeROBEntries_def calcFreeIQEntries_def calcFreeLSQEntries_def)

lemma thread_cycle_first:
  assumes "thread_cycle tid inp sc (t, g) = Inr (c, t', g')" "thread_inv tid (t, g)" "unblocking_ok t" "signals_ok inp (t, g)"
    and "unstalled inp t g" "pending t = p # ps" "live (inst_heap g) p" "length (toIEW g) < renameWidth g"
    and "int (length (si_destRegs (inst_heap g ! p))) \<le> numFreeEntries (rr_freeList (regs g))"
  shows "if must_wait (readFreeEntries inp t) p (inst_heap g ! p) then serializeInst t' = Some p
    else \<exists>zs. toIEW g' = toIEW g @ p # zs"
proof -
  obtain c1 t1 g1 where 1: "checkSignalsAndUpdate tid inp (t, g) = Inr (c1, t1, g1)"
    and 2: "stage_rename tid inp (c1 \<or> sc) (t1, g1) = Inr (c, t', g')"
    using assms(1) by (auto simp: thread_cycle_def bindE_eq_Inr)
  obtain t0 where u: "\<not> ci_squash inp" "\<not> robSquashing inp"
    and rs: "readStallSignals inp (readFreeEntries inp t) = Inr t0" and ns: "\<not> checkStall inp t0 g"
    using assms(5) by (auto simp: unstalled_def split: sum.splits)
  note k = readStallSignals_keeps [OF rs, simplified] and c0 = readStallSignals_counts [OF rs]
  note s = unstalled_signals [OF 1 assms(2,3) u rs ns]
  have inv: "serializeInst t \<noteq> None \<longleftrightarrow> renameStatus t = SerializeStall" using assms(2) by (simp add: thread_inv_def)
  have p: "p < length (inst_heap g)" using assms(7) by (simp add: live_def)
  have w: "must_wait t1 p (inst_heap g1 ! p) = must_wait (readFreeEntries inp t) p (inst_heap g ! p)"
  proof (cases "serializeInst t")
    case None
    then have "serializeInst t1 = None" "inst_heap g1 = inst_heap g" using s(1,4) k(3) by (simp_all add: ready_to_rename_def served_heap_def)
    then show ?thesis using None s(2) c0 by (simp add: must_wait_def same_counts_def)
  next
    case (Some x)
    then have "x = p" using assms(6) by (simp add: pending_def)
    then have "inst_heap g1 ! p = (inst_heap g ! p)\<lparr>st_serializeBefore := False\<rparr>" "serializeInst t1 = None"
      using s(1,4) k(3) Some p by (simp_all add: ready_to_rename_def served_heap_def)
    moreover have "emptyROB t1 \<and> instsInProgress t1 = 0"
      using ns inv Some k(2) s(2) by (simp add: checkStall_def same_counts_def)
    ultimately show ?thesis using Some \<open>x = p\<close> by (simp add: must_wait_def)
  qed
  have h: "same_heap (inst_heap g) (inst_heap g1)" and inv1: "thread_inv tid (t1, g1)"
    using checkSignalsAndUpdate_flow [OF 1 assms(2,4) u(1)] by (simp_all add: flow_def)
  have "0 < min_free_entries inp t1" using ns calcFree_counts [OF s(2)] by (simp add: checkStall_def min_free_entries_def)
  moreover have "live (inst_heap g1) p" using same_heap_live [OF h] assms(7) by simp
  moreover have "si_destRegs (inst_heap g1 ! p) = si_destRegs (inst_heap g ! p)" using h p by (simp add: same_heap_def same_inst_def)
  ultimately show ?thesis
    using stage_rename_first [OF 2 inv1 s(1), of p ps] s(3,5) k(1) assms(6,8,9) w by (simp add: same_ports_def split: if_splits)
qed

section \<open>The stage\<close>

lemma unstalled_fed: "unstalled inp (fed h dec tid t) (new_slot dec g) = unstalled inp t g"
proof -
  have 1: "readFreeEntries inp (fed h dec tid t) = fed h dec tid (readFreeEntries inp t)"
    by (simp add: readFreeEntries_def fed_def clear_signals_def Let_def)
  have 2: "readStallSignals inp (fed h dec tid x) = (case readStallSignals inp x of Inr y \<Rightarrow> Inr (fed h dec tid y) | Inl e \<Rightarrow> Inl e)" for x
    by (simp add: readStallSignals_def fed_def clear_signals_def Let_def assertE_def)
  have 3: "checkStall inp (fed h dec tid x) (new_slot dec g) = checkStall inp x g" for x
    by (simp add: checkStall_def calcFreeROBEntries_def calcFreeIQEntries_def calcFreeLSQEntries_def fed_def clear_signals_def)
  show ?thesis unfolding unstalled_def 1 2 by (simp add: 3 split: sum.splits)
qed

lemma must_wait_fed: "must_wait (readFreeEntries inp (fed h dec tid t)) p i = must_wait (readFreeEntries inp t) p i"
  by (simp add: must_wait_def readFreeEntries_def fed_def clear_signals_def Let_def)

lemma stage_tick_first:
  assumes "stage_inv st" "stage_tick inps dec st = Inr st'"
    and "\<forall>tid \<in> set (activeThreads st). signals_ok (inps ! tid) (threads st ! tid, shared st)"
    and "activeThreads st = tid # as" "unstalled (inps ! tid) (threads st ! tid) (shared st)" "0 < renameWidth (shared st)"
    and "pending (threads st ! tid) @ filter (of_thread (inst_heap (shared st)) tid) dec = p # ps" "live (inst_heap (shared st)) p"
    and "int (length (si_destRegs (inst_heap (shared st) ! p))) \<le> numFreeEntries (rr_freeList (regs (shared st)))"
  shows "if must_wait (readFreeEntries (inps ! tid) (threads st ! tid)) p (inst_heap (shared st) ! p)
    then serializeInst (threads st' ! tid) = Some p else \<exists>zs. toIEW (shared st') = p # zs"
proof -
  let ?g = "new_slot dec (shared st)" and ?h = "inst_heap (shared st)" and ?n = "length (threads st)"
  let ?t = "fed ?h dec tid (threads st ! tid)"
  obtain ts c ts1 g1 status r ts2 where
    ts: "length ts = ?n" "\<forall>tid < ?n. ts ! tid = fed ?h dec tid (threads st ! tid)"
    and ft: "foldE (tick_thread inps) (activeThreads st) (False, ts, ?g) = Inr (c, ts1, g1)"
    and fp: "foldE (progress_thread inps) [0..<length ts1] ts1 = Inr ts2"
    and st': "st' = \<lparr>rs_status = status, threads = ts2, shared = g1\<lparr>regs := r\<rparr>, activeThreads = activeThreads st\<rparr>"
    by (rule stage_tick_parts [OF assms(2)])
  have act: "distinct (tid # as)" "set (tid # as) \<subseteq> {..<length ts}" using assms(1,4) ts(1) by (simp_all add: stage_inv_def)
  then have tid: "tid < ?n" and tt: "ts ! tid = ?t" using ts by auto
  have inv: "thread_inv x (ts ! x, ?g)" if "x < length ts" for x using assms(1) that ts thread_inv_fed by (simp add: stage_inv_def)
  have sig: "signals_ok (inps ! x) (ts ! x, ?g)" if "x \<in> set (tid # as)" for x
  proof -
    have "x < ?n" using that act(2) ts(1) by auto
    then show ?thesis using assms(3,4) that ts(2) by (auto simp: signals_ok_def)
  qed
  obtain s where s: "tick_thread inps tid (False, ts, ?g) = Inr s" "foldE (tick_thread inps) as s = Inr (c, ts1, g1)"
    using ft assms(4) by (auto simp: bindE_eq_Inr)
  obtain c2 t2 g2 where cyc: "thread_cycle tid (inps ! tid) False (?t, ?g) = Inr (c2, t2, g2)" and s2: "s = (c2, ts[tid := t2], g2)"
    using tick_thread_step [OF s(1)] tt by metis
  have invt: "thread_inv tid (?t, ?g)" using inv [of tid] tid ts(1) tt by simp
  have sigt: "signals_ok (inps ! tid) (?t, ?g)" using sig [of tid] tt by simp
  have un: "unblocking_ok ?t" using assms(1) tid by (simp add: stage_inv_def unblocking_ok_def)
  have first: "if must_wait (readFreeEntries (inps ! tid) (threads st ! tid)) p (?h ! p) then serializeInst t2 = Some p
      else \<exists>zs. toIEW g2 = p # zs"
    using thread_cycle_first [OF cyc invt un sigt, of p ps] assms(5-9) by (simp add: unstalled_fed must_wait_fed split: if_splits)
  let ?ts = "ts[tid := t2]"
  note ok = thread_cycle_ok [OF cyc invt sigt]
  have fr: "thread_frame {tid} ?g g2" and inv2: "thread_inv tid (t2, g2)" using ok by (simp_all add: cycle_ok_def)
  have "thread_inv x (?ts ! x, g2)" if "x < length ?ts" for x
    using that inv inv2 thread_inv_frame [OF fr] by (cases "x = tid") simp_all
  then have invs: "\<forall>x < length ?ts. thread_inv x (?ts ! x, g2)" by blast
  have "signals_ok (inps ! x) (?ts ! x, g2)" if "x \<in> set as" for x
  proof -
    have "x \<noteq> tid" "x < length ts" using that act by auto
    then show ?thesis using signals_ok_frame [OF sig inv fr] that by simp
  qed
  then have rest: "thread_frame (set as) g2 g1" "\<forall>x. x \<notin> set as \<longrightarrow> ts1 ! x = ?ts ! x" "length ts1 = length ?ts"
    using tick_threads_ok [OF s(2) [unfolded s2] _ _ invs] act by auto
  have "ts1 ! tid = t2" using rest(2) act tid ts(1) by simp
  then have "serializeInst (ts2 ! tid) = serializeInst t2" using progress_fold [OF fp] tid rest(3) ts(1) by fastforce
  moreover obtain zs where "toIEW g1 = toIEW g2 @ zs" using rest(1) by (auto simp: thread_frame_def)
  ultimately show ?thesis using first by (auto simp: st' split: if_splits)
qed

section \<open>Properties\<close>

text \<open>
  (C23) Progress: in a reachable state and a cycle in which nothing stalls the first active thread, the
  oldest instruction that the thread holds leaves the stage first, unless it still has to wait until
  the instructions before it have committed; then the thread waits for it. An instruction for which
  the thread has waited is not made to wait again because of the instruction before it.
\<close>

theorem rename_stage_progress:
  assumes "o3_params T active pint pfloat" "stage_reachable T active pint pfloat (st, bs)"
    and "cycle_input_ok inps dec bs bs' st" "cycle_resources_ok inps dec st"
    and "activeThreads st = tid # as" "unstalled (inps ! tid) (threads st ! tid) (shared st)" "0 < renameWidth (shared st)"
    and "pending (threads st ! tid) @ filter (of_thread (inst_heap (shared st)) tid) dec = p # ps" "live (inst_heap (shared st)) p"
    and "int (length (si_destRegs (inst_heap (shared st) ! p))) \<le> numFreeEntries (rr_freeList (regs (shared st)))"
  shows "\<exists>st'. stage_tick inps dec st = Inr st' \<and>
    (if must_wait (readFreeEntries (inps ! tid) (threads st ! tid)) p (inst_heap (shared st) ! p)
     then serializeInst (threads st' ! tid) = Some p else \<exists>zs. toIEW (shared st') = p # zs)"
proof -
  have run: "stage_run T active pint pfloat (st, bs)" by (rule stage_reachable_run [OF assms(1,2)])
  obtain st' where t: "stage_tick inps dec st = Inr st'" using stage_tick_total [OF assms(1) run assms(3,4)] by blast
  have "\<forall>tid \<in> set (activeThreads st). signals_ok (inps ! tid) (threads st ! tid, shared st)"
    using assms(3) by (simp add: cycle_input_ok_def)
  moreover have "stage_inv st" using run by (simp add: stage_run_def)
  ultimately show ?thesis using stage_tick_first [OF _ t _ assms(5-10)] t by blast
qed

theorem rename_stage_progress_witness:
  "\<exists>r st' zs. stage_reachable 1 1 64 64 (stage_demo r, [1]) \<and>
    stage_tick [stage_demo_input] [0, 1, 2] (stage_demo r) = Inr st' \<and> toIEW (shared st') = 0 # zs"
proof -
  obtain r where r: "stage_reachable 1 1 64 64 (stage_demo r, [1])" "0 < numFreeEntries (rr_freeList r)"
    "cycle_input_ok [stage_demo_input] [0, 1, 2] [1] [4] (stage_demo r)"
    by (rule stage_demo_reachable)
  have u: "unstalled ([stage_demo_input] ! 0) (threads (stage_demo r) ! 0) (shared (stage_demo r))"
    using r(2) by (simp add: unstalled_def stage_eval)
  have d: "0 < renameWidth (shared (stage_demo r))"
    "pending (threads (stage_demo r) ! 0) @ filter (of_thread (inst_heap (shared (stage_demo r))) 0) [0, 1, 2] = 0 # [1, 2]"
    "live (inst_heap (shared (stage_demo r))) 0"
    "int (length (si_destRegs (inst_heap (shared (stage_demo r)) ! 0))) \<le> numFreeEntries (rr_freeList (regs (shared (stage_demo r))))"
    using r(2) by (simp_all add: pending_def of_thread_def live_def stage_eval)
  have w: "\<not> must_wait (readFreeEntries ([stage_demo_input] ! 0) (threads (stage_demo r) ! 0)) 0 (inst_heap (shared (stage_demo r)) ! 0)"
    by (simp add: must_wait_def stage_eval)
  show ?thesis
    using rename_stage_progress [OF demo_params r(1,3) stage_demo_resources stage_demo_inv(2) u d] w r(1) by auto
qed

end
