(* ===== verification/Spec2Isabelle.thy ===== *)
theory Spec2Isabelle
  imports Fault_File Fi_Activation Event_Sim Bpred_Unit Cache_Transparent O3_Stage_Live
begin

text \<open>
  \<^bold>\<open>The program.\<close> The repository is the gem5 simulator with a fault injection framework
  (\<open>src/src/fi\<close>). A text file describes faults: when (a tick, an instruction count or an address), what
  (an immediate, a mask, a bit to flip, all zeros or ones), on which core and thread, and where (a register,
  the program counter, memory, the fetched instruction, its opcode, a decoded register field, an
  executed result). \<open>Fi_System\<close> reads the file into four queues. A guest process switches injection on and off
  for itself with a pseudo instruction; from then on the processor models call a hook for every instruction they
  fetch, decode and execute. The hook asks the queue of its stage for faults that are due
  (\<open>InjectedFaultQueue::scan\<close>), lets each change the value at hand (\<open>process\<close>, \<open>manifest\<close>), and reschedules
  or removes it (\<open>check4reschedule\<close>). The faults act on the simulated Alpha machine: its registers, its
  translation buffers and its physical memory.

  \<^bold>\<open>Conventions.\<close> The model is of the build with assertions (debug, opt) for Alpha in full system mode, on a
  little-endian host with 32 bit \<open>int\<close> and 64 bit \<open>long\<close>. Machine integers are words of their width, an \<open>int\<close>
  field is an \<open>int\<close> with \<open>int32\<close> where it can wrap. A fallible operation returns \<open>fi_error + 'a\<close>: failed
  assertions, exceptions, invalid indices and pointers, uninitialised reads, panics and endless loops are
  different errors. Fault objects live in a list (\<open>fi_heap\<close>); a pointer is an index into it or \<open>None\<close>. The raw
  memory of a new object is a parameter \<open>alloc\<close>, the file system a parameter \<open>files\<close>, the answer of the checkpoint
  library a parameter of \<open>init_fi_system\<close>. No constructor sets the two links of a fault object. Where several faults
  enter one queue the theorems ask for memory with \<open>NULL\<close> there (\<open>null_links\<close>, \<open>memory_ok\<close>); C++ does not promise
  such memory, and \<open>Fi_Loading\<close> has a file that loads from it and follows a stale pointer from other memory.

  \<^bold>\<open>Theories.\<close>
  \<^item> \<open>FI_Prelude\<close>: machine types, results, pointers, lemmas on words and pointer chains.
  \<^item> \<open>Bitfield\<close>, \<open>IntMath\<close>: \<open>src/src/base/bitfield.hh\<close> and \<open>intmath.hh\<close>. Bit fields, searches for set bits,
    logarithms and rounding against their mathematical definitions.
  \<^item> \<open>Fault_Values\<close>: \<open>manifest\<close> and the byte loops of \<open>faultq.hh\<close>. They equal operations on words, are
    involutions or idempotent, and pair a narrow value with the high bytes of the operand.
  \<^item> \<open>C_Text\<close>, \<open>Fault_Object\<close>: the formatted input and string functions that the parsers use; the
    fields of \<open>InjectedFault\<close>, \<open>parseWhen\<close>, \<open>parseWhat\<close> and the constructors (\<open>faultq.cc\<close>).
  \<^item> \<open>Timed_Queue\<close>: the locale \<open>timed_queue\<close>, the contract of a queue ordered by time over an abstraction to a list;
    its lemma that any sequence of insertions gives a sorted permutation. It is interpreted twice, for the queue of
    faults and for the queue of events.
  \<^item> \<open>Fault_Queue\<close>: \<open>InjectedFaultQueue::insert\<close> and \<open>remove\<close> on the doubly linked list; \<open>queue_list\<close> relates the
    pointers to a list, and the interpretation shows the contract.
  \<^item> \<open>Std_Map\<close>: \<open>std::map\<close> as a sorted association list, the locale \<open>associative_container\<close> and its interpretation.
  \<^item> \<open>Thread_Info\<close>: the counters of \<open>cpu_threadInfo.cc\<close>; after any history they are the counts of the history.
  \<^item> \<open>Alpha_Tlb\<close>, \<open>Alpha_Isa\<close>, \<open>Alpha_Vm\<close>: \<open>src/src/arch/alpha\<close>. The translation buffer with its invariant,
    the register files and internal processor registers (the outcome of every write, and the bits read back), the translation of addresses.
  \<^item> \<open>Range_Map\<close>, \<open>Phys_Memory\<close>: \<open>src/src/base/range_map.hh\<close> and \<open>src/src/mem\<close>. The address map, accesses, and the
    reservations of load-locked and store-conditional: over any run of accesses, swaps included, the list of locks is a map from
    contexts to blocks, which decides whether a store conditional succeeds.
  \<^item> \<open>Fault_Classes\<close>: the constructors and \<open>process\<close> functions of all fault classes, \<open>check4reschedule\<close>, and the
    representation \<open>queues_repr\<close> of the four queues together.
  \<^item> \<open>Fi_System\<close>: \<open>fi_system.cc\<close>, \<open>InjectedFaultQueue::scan\<close> and the pseudo instructions of
    \<open>src/src/sim/pseudo_inst.cc\<close>: counters, hooks, loading, reset, activation.
  \<^item> \<open>Fi_Loading\<close>, \<open>Fault_File\<close>: reading the file. Loading into memory with \<open>NULL\<close> links is safe for every text and gives
    well-formed sorted queues; printing descriptions of the ten classes and reading them back is a round trip.
  \<^item> \<open>Fi_Scan\<close>, \<open>Fi_Hooks\<close>: when a fault is due, what a scan returns and writes; the common shape \<open>serve\<close> of the
    loops; the locale \<open>injection\<close>, the contract between a loop and the \<open>process\<close> functions of its queue.
  \<^item> \<open>Fi_Stages\<close>: interpretations of \<open>injection\<close> for the four queues, and with them the functional
    correctness of every hook.
  \<^item> \<open>Fi_Activation\<close>: reset, the transition relation \<open>fi_step\<close> of the whole system and its invariants by
    induction over reachable states; the life of a thread.

  \<^item> \<open>Event_Queue\<close>, \<open>Event_Sim\<close>: the event queue of the simulator (\<open>src/src/sim/eventq.cc\<close>), a list of stacks
    that refines the same contract, and the main loop of \<open>simulate.cc\<close>. What an event does is a parameter
    \<open>process\<close>, and which objects are of the class that may end the loop a parameter \<open>loop_exit\<close>; \<open>well_behaved\<close> says that an
    event uses the public operations of the queue. Under it the queue is well-formed after every round, no event lies in
    the past, the clock never goes back, and the run returns exactly when its rounds reach an event that ends it.

  \<^item> \<open>Branch_Pred\<close>, \<open>Bpred_Unit\<close>: branch prediction of the out-of-order processor (\<open>src/src/cpu/pred\<close>,
    \<open>src/src/cpu/o3/bpred_unit_impl.hh\<close>). The locale \<open>direction_predictor\<close> is what the unit relies on; the local and the
    tournament predictor and the dispatch between them are its interpretations. The unit is safe for
    suitable parameters (\<open>params_ok\<close>), and a squash undoes speculation. Histories are values: their deletion is not modelled.

  \<^item> \<open>Mem_Packet\<close>: commands and packets (\<open>src/src/mem/packet.hh\<close>, \<open>packet.cc\<close>). The table of commands is
    consistent; functional requests are correct for one value and panic when they run over two.
  \<^item> \<open>Cache_Tags\<close>: cache blocks, sets and the LRU tag store (\<open>src/src/mem/cache\<close>). Its invariant, its counters, and its
    order as the order of last use.
  \<^item> \<open>Cache_Access\<close>, \<open>Cache_Transparent\<close>: a cache in atomic mode (\<open>cache_impl.hh\<close>). The locale \<open>memory_port\<close> is the contract
    of the memory side; inside it the cache is shown to be transparent for cacheable requests within a block, and it is interpreted on the
    memory of \<open>Phys_Memory\<close>. An uncacheable request drops a dirty block (\<open>uncacheable_drops_block\<close>).

  \<^item> \<open>O3_Regs\<close>, \<open>O3_Rename\<close>, \<open>O3_Rename_Run\<close>, \<open>O3_Rename_Safe\<close>: register renaming of the out-of-order processor
    (\<open>src/src/cpu/o3\<close>: free list, rename maps, scoreboard, register file, and the renaming, squash and commit of
    \<open>rename_impl.hh\<close>). The history of a thread is an undo log (\<open>undo\<close>, \<open>hist_ok\<close>); in every reachable state the
    physical registers are conserved, those of instructions in flight are not free, sources name their
    producers, and a squash restores the maps. Only the first thread writes the integer zero register there (\<open>op_ok\<close>); a write of
    another thread breaks the accounts.
  \<^item> \<open>O3_Stage\<close>: the control of the rename stage (\<open>rename_impl.hh\<close>, \<open>rename.hh\<close>): thread status, stalls, skid buffer,
    serialising instructions and \<open>tick\<close>. The inputs from the other stages are the record \<open>stage_input\<close> and the list from decode.
    \<open>O3_Stage_Order\<close> shows for a thread and \<open>O3_Stage_Tick\<close> for the stage that instructions flow through in order (\<open>flow\<close>,
    \<open>thread_frame\<close>); \<open>O3_Stage_Safe\<close> that a cycle is a sequence of the steps of \<open>rename_step\<close>, so that the registers of the stage
    are in a state of \<open>rename_reachable\<close>; \<open>O3_Stage_Total\<close> that a cycle returns; \<open>O3_Stage_Live\<close> that the oldest
    instruction makes progress. The conditions on the other stages are \<open>insts_ok\<close>, \<open>signals_ok\<close>, \<open>cycle_input_ok\<close>, \<open>others_ok\<close> and
    \<open>cycle_resources_ok\<close>; \<open>signals_ok\<close> leaves out a squash by an instruction that is not older than the one that waits to serialise,
    after which the stage resumes serialising.

  \<^bold>\<open>Fuel.\<close> The walks over a queue (\<open>insert_walk\<close>, \<open>remove_walk\<close>, \<open>scan_walk\<close>, \<open>drain\<close>, \<open>bin_walk\<close>, \<open>item_walk\<close>) get one more than the number
  of objects, which a well-linked queue cannot exceed; the refinement lemmas show that they return. \<open>file_loop\<close> gets
  two more than the number of characters; \<open>file_loop_ok\<close> shows that it never runs out. The loops of the
  hooks take their bound as an argument, and the correctness theorems hold for every bound above the number of
  injections (\<open>injections\<close>): one for each due fault, but for a fault on an address, which stays due when it is
  rescheduled (\<open>due_rescheduled\<close>), one for each occurrence left (\<open>firings\<close>), which are \<open>2 ^ 32\<close> for occurrence 0.

  \<^bold>\<open>Not modelled.\<close> The pipelines of the processor models other than branch prediction and the rename stage, the timing mode of the caches, snoops, the other tag
  stores, buses, devices, other architectures and the Python configuration, which the framework only shares a process with; tracing, statistics and checkpoints, which no
  modelled operation reads; signals that interrupt the main loop. Floating point registers are bit patterns.
\<close>

end
